(* ===== verification/Leak_Pattern.thy ===== *)
theory Leak_Pattern
  imports Prelude
begin

text \<open>
  The tools move a known byte pattern, the four characters \<^verbatim>\<open>LEAK\<close>
  repeated, through the network stack: the clients fill their buffers with it and the
  servers count the positions where what arrived is not the pattern. This theory
  states the pattern as an infinite stream with a phase, and the contract between a
  sender's fill loop and a receiver's check loop as a locale; each pair of tools
  interprets it in its own theory.
\<close>

text \<open>
  The counter \<^verbatim>\<open>int errors\<close> of the servers has 32 bits; an increment beyond the largest value, which
  the language leaves undefined, wraps around as the processor's does. \<^verbatim>\<open>%d\<close> prints it as \<open>sint\<close>.
\<close>

type_synonym c_int = "32 word"

lemma sint_counter: "sint (of_nat n :: c_int) = (int n + 2 ^ 31) mod 2 ^ 32 - 2 ^ 31"
  by (simp add: signed_of_nat signed_take_bit_eq_take_bit_shift take_bit_eq_mod)

lemma counter_zero_iff: "n < 2 ^ 32 \<Longrightarrow> (of_nat n :: c_int) = 0 \<longleftrightarrow> n = 0"
  by (simp add: word_of_nat_eq_0_iff) (auto dest: dvd_imp_le)

lemma sint_counter_small: "n < 2 ^ 31 \<Longrightarrow> sint (of_nat n :: c_int) = int n"
  by (simp add: sint_counter)

section \<open>The pattern as a stream\<close>

definition leak_msg :: "byte list" where
  "leak_msg = [0x4c, 0x45, 0x41, 0x4b]"

definition leak_at :: "nat \<Rightarrow> byte" where
  "leak_at i = leak_msg ! (i mod 4)"

text \<open>\<open>leak_run p n\<close>: \<open>n\<close> bytes of the stream from phase \<open>p\<close>.\<close>

definition leak_run :: "nat \<Rightarrow> nat \<Rightarrow> byte list" where
  "leak_run p n = map (\<lambda>i. leak_at (p + i)) [0..<n]"

text \<open>The positions where a received run differs from the stream at phase \<open>p\<close>.\<close>

fun mismatches :: "nat \<Rightarrow> byte list \<Rightarrow> nat" where
  "mismatches p [] = 0"
| "mismatches p (b # bs) = (if b = leak_at p then 0 else 1) + mismatches (Suc p) bs"

lemma length_leak_msg [simp]: "length leak_msg = 4"
  by (simp add: leak_msg_def)

lemma length_leak_run [simp, buf_simps]: "length (leak_run p n) = n"
  by (simp add: leak_run_def)

lemma leak_at_mod [simp]: "leak_at (p mod 4) = leak_at p"
  by (simp add: leak_at_def)

lemma leak_at_nonzero: "leak_at p \<noteq> 0"
proof -
  have "p mod 4 \<in> {0, 1, 2, 3}" by auto
  then show ?thesis by (auto simp: leak_at_def leak_msg_def)
qed

lemma leak_run_0 [simp]: "leak_run p 0 = []"
  by (simp add: leak_run_def)

lemma leak_run_Suc: "leak_run p (Suc n) = leak_at p # leak_run (Suc p) n"
  unfolding leak_run_def upt_conv_Cons [OF zero_less_Suc] map_Suc_upt [symmetric]
  by simp

lemma leak_run_append: "leak_run p (m + n) = leak_run p m @ leak_run (p + m) n"
  by (induction m arbitrary: p) (simp_all add: leak_run_Suc)

lemma leak_run_mod [simp]: "leak_run (p mod 4) n = leak_run p n"
  unfolding leak_run_def leak_at_def by (simp add: mod_simps)

lemma leak_run_cong_mod: "p mod 4 = q mod 4 \<Longrightarrow> leak_run p n = leak_run q n"
  by (metis leak_run_mod)

lemma take_leak_run: "take k (leak_run p n) = leak_run p (min k n)"
  by (cases "k \<le> n") (simp_all add: leak_run_def take_map min_def)

lemma zero_notin_leak_run: "0 \<notin> set (leak_run p n)"
  by (simp add: leak_run_def image_iff) (metis leak_at_nonzero)

lemma mismatches_append:
  "mismatches p (xs @ ys) = mismatches p xs + mismatches (p + length xs) ys"
  by (induction xs arbitrary: p) simp_all

lemma mismatches_leak_run [simp]: "mismatches p (leak_run p n) = 0"
  by (induction n arbitrary: p) (simp_all add: leak_run_Suc)

lemma mismatches_zero_iff: "mismatches p bs = 0 \<longleftrightarrow> bs = leak_run p (length bs)"
  by (induction bs arbitrary: p) (auto simp: leak_run_Suc)

lemma mismatches_le: "mismatches p bs \<le> length bs"
  by (induction bs arbitrary: p) (auto intro: le_SucI)

lemma mismatches_mod [simp]: "mismatches (p mod 4) bs = mismatches p bs"
proof (induction bs arbitrary: p)
  case (Cons b bs)
  have "mismatches (Suc (p mod 4)) bs = mismatches (Suc p) bs"
    by (metis Cons.IH mod_Suc_eq)
  then show ?case by simp
qed simp

lemma mismatches_count:
  "mismatches p bs = card {i. i < length bs \<and> bs ! i \<noteq> leak_at (p + i)}"
proof (induction bs arbitrary: p)
  case (Cons b bs)
  let ?A = "{i. i < length bs \<and> bs ! i \<noteq> leak_at (Suc p + i)}"
  have split: "{i. i < length (b # bs) \<and> (b # bs) ! i \<noteq> leak_at (p + i)}
      = (if b = leak_at p then {} else {0}) \<union> Suc ` ?A"
    by (auto simp: image_iff less_Suc_eq_0_disj nth_Cons')
  have "card (Suc ` ?A) = card ?A" by (simp add: card_image)
  moreover have "0 \<notin> Suc ` ?A" by simp
  ultimately show ?case unfolding split using Cons.IH [of "Suc p"] by simp
qed simp

section \<open>The contract between a fill loop and a check loop\<close>

text \<open>
  A sender writes \<open>n\<close> bytes from its index and gets the next index; a receiver adds
  the errors of a run of bytes to its counter and moves its own index. The laws tie both
  to the stream, with the indices as phases.
\<close>

locale pattern_pair =
  fixes fill :: "nat \<Rightarrow> nat \<Rightarrow> byte list \<times> nat"
    and check :: "nat \<times> c_int \<Rightarrow> byte list \<Rightarrow> nat \<times> c_int"
  assumes fill_run: "p < 4 \<Longrightarrow> fill p n = (leak_run p n, (p + n) mod 4)"
    and check_run: "p < 4 \<Longrightarrow>
      check (p, e) bs = ((p + length bs) mod 4, e + of_nat (mismatches p bs))"
begin

text \<open>Filling twice is filling once with the sum, and checking is a fold over any cut.\<close>

lemma fill_split:
  assumes "p < 4"
  shows "fst (fill p (m + n)) = fst (fill p m) @ fst (fill (snd (fill p m)) n)"
  using assms by (simp add: fill_run leak_run_append)

lemma check_append:
  assumes "p < 4"
  shows "check (p, e) (xs @ ys) = check (check (p, e) xs) ys"
  using assms by (simp add: check_run mismatches_append mod_add_left_eq add.assoc)

lemma check_segments:
  assumes "p < 4"
  shows "foldl check (p, e) segs = check (p, e) (concat segs)"
  using assms
proof (induction segs arbitrary: p e)
  case Nil
  then show ?case by (simp add: check_run)
next
  case (Cons s segs)
  have "foldl check (check (p, e) s) segs = check (check (p, e) s) (concat segs)"
    using Cons.IH [of "(p + length s) mod 4"] by (simp add: check_run [OF Cons.prems])
  then show ?case by (simp add: check_append [OF Cons.prems])
qed

text \<open>What a sender at the receiver's phase fills is accepted without an error.\<close>

lemma check_fill:
  assumes "p < 4"
  shows "check (p, e) (fst (fill p n)) = (snd (fill p n), e)"
  using assms by (simp add: fill_run check_run)

lemma check_detects:
  assumes "p < 4" and "length bs < 2 ^ 32"
  shows "snd (check (p, e) bs) = e \<longleftrightarrow> bs = fst (fill p (length bs))"
  using assms counter_zero_iff [OF le_less_trans [OF mismatches_le assms(2)]]
  by (simp add: fill_run check_run mismatches_zero_iff)

end

end
