(* ===== verification/Tool_Libc.thy ===== *)
theory Tool_Libc
  imports Prelude
begin

text \<open>
  What the measurement tools under \<^verbatim>\<open>src/tools\<close> use of the C library:
  \<^verbatim>\<open>atoi\<close>, the byte-order functions, and the socket address the tools
  build before \<^verbatim>\<open>connect\<close>, \<^verbatim>\<open>sendto\<close> or \<^verbatim>\<open>bind\<close>.
  The dotted-quad parser \<^verbatim>\<open>inet_addr\<close>, \<^verbatim>\<open>rand\<close> and the system
  calls are parameters of the models that use them.
\<close>

section \<open>atoi\<close>

text \<open>
  \<^verbatim>\<open>atoi(s)\<close> is \<^verbatim>\<open>(int) strtol(s, NULL, 10)\<close>: white space is
  skipped, one sign is read, then the longest run of digits; the value saturates at
  the range of \<^verbatim>\<open>long\<close> and is cut to its low 32 bits.
\<close>

definition c_isspace :: "char \<Rightarrow> bool" where
  "c_isspace c \<longleftrightarrow> c = CHR '' '' \<or> (9 \<le> (of_char c :: nat) \<and> (of_char c :: nat) \<le> 13)"

definition c_isdigit :: "char \<Rightarrow> bool" where
  "c_isdigit c \<longleftrightarrow> 48 \<le> (of_char c :: nat) \<and> (of_char c :: nat) \<le> 57"

fun digits_value :: "nat \<Rightarrow> string \<Rightarrow> nat" where
  "digits_value acc [] = acc"
| "digits_value acc (c # cs) =
     (if c_isdigit c then digits_value (acc * 10 + (of_char c - 48)) cs else acc)"

definition c_strtol10 :: "string \<Rightarrow> int" where
  "c_strtol10 s =
     (let t = dropWhile c_isspace s;
          v = (case t of
                 CHR ''-'' # r \<Rightarrow> - int (digits_value 0 r)
               | CHR ''+'' # r \<Rightarrow> int (digits_value 0 r)
               | _ \<Rightarrow> int (digits_value 0 t))
      in max (- (2 ^ 63)) (min (2 ^ 63 - 1) v))"

definition c_atoi :: "string \<Rightarrow> int" where
  "c_atoi s = sint (word_of_int (c_strtol10 s) :: u32)"

lemma c_atoi_bounds: "- (2 ^ 31) \<le> c_atoi s \<and> c_atoi s < 2 ^ 31"
  using sint_ge [of "word_of_int (c_strtol10 s) :: u32"]
    sint_lt [of "word_of_int (c_strtol10 s) :: u32"]
  by (simp add: c_atoi_def)

section \<open>Byte order and socket addresses\<close>

definition htons :: "u16 \<Rightarrow> u16" where
  "htons x = push_bit 8 x OR drop_bit 8 x"

definition htonl :: "u32 \<Rightarrow> u32" where
  "htonl x = push_bit 24 x OR push_bit 8 (x AND 0xff00) OR
             (drop_bit 8 x AND 0xff00) OR drop_bit 24 x"

lemma htons_involution: "htons (htons x) = x"
  by (rule bit_word_eqI)
    (auto simp: htons_def bit_or_iff bit_push_bit_iff bit_drop_bit_eq)

text \<open>\<^verbatim>\<open>struct sockaddr_in\<close>, with the port and address in network order.\<close>

record sockaddr_in =
  sin_family :: u16
  sin_port :: u16
  sin_addr :: u32

definition AF_INET :: u16 where "AF_INET = 2"

definition INADDR_ANY :: u32 where "INADDR_ANY = 0"

end
