(* ===== verification/Tcp_Client.thy ===== *)
theory Tcp_Client
  imports Leak_Pattern Tool_Libc
begin

text \<open>
  \<^verbatim>\<open>src/tools/TCP_client.c\<close>: connects to a server and writes a number of
  buffers of random size, filled with the pattern, to one stream. The state is the loop
  counter \<open>i\<close> and \<open>msg_idx\<close>; what the program does is the list of its
  observable actions and its exit status. The kernel (\<^verbatim>\<open>connect\<close>,
  \<^verbatim>\<open>write\<close>), \<^verbatim>\<open>inet_addr\<close> and the sequence \<^verbatim>\<open>rand\<close>
  returns are a parameter, the record \<open>tcp_client_env\<close>.
\<close>

definition TCP_BUFSIZE :: nat where "TCP_BUFSIZE = 64000"

record tcp_client_env =
  tc_inet_addr :: "string \<Rightarrow> u32"
  tc_connect :: "sockaddr_in \<Rightarrow> int"
  tc_rand :: "nat \<Rightarrow> nat"
  tc_write :: "nat \<Rightarrow> byte list \<Rightarrow> int"

text \<open>
  The actions: \<open>Cl_write b r\<close> is \<^verbatim>\<open>write\<close> of \<open>b\<close> returning \<open>r\<close>;
  \<open>Cl_bzero\<close> and \<open>Cl_free\<close> carry the contents of the buffer after the call
  and at the call.
\<close>

datatype client_event =
    Cl_usage
  | Cl_connect sockaddr_in
  | Cl_write "byte list" int
  | Cl_printed int nat
  | Cl_perror string
  | Cl_close
  | Cl_bzero "byte list"
  | Cl_free "byte list"

text \<open>\<^verbatim>\<open>error()\<close>: the message, then \<^verbatim>\<open>exit(err)\<close>.\<close>

definition tcp_client_error :: "string \<Rightarrow> int \<Rightarrow> client_event list \<times> int" where
  "tcp_client_error msg err = ([Cl_perror msg], err)"

text \<open>The inner loop: \<open>buffer[j] = msg[msg_idx]; msg_idx = (msg_idx + 1) % 4\<close>.\<close>

fun tcp_client_fill :: "byte list \<Rightarrow> nat \<Rightarrow> nat \<Rightarrow> byte list \<times> nat" where
  "tcp_client_fill msg msg_idx 0 = ([], msg_idx)"
| "tcp_client_fill msg msg_idx (Suc n) =
     (let (bs, idx') = tcp_client_fill msg ((msg_idx + 1) mod 4) n in (msg ! msg_idx # bs, idx'))"

text \<open>
  The packet loop. The result is the actions and, when \<^verbatim>\<open>write\<close> failed, the
  status \<^verbatim>\<open>error()\<close> exits with. Packet \<open>i\<close> uses the \<open>i\<close>-th value of
  \<^verbatim>\<open>rand\<close> and the \<open>i\<close>-th \<^verbatim>\<open>write\<close>.
\<close>

function tcp_client_loop ::
  "tcp_client_env \<Rightarrow> byte list \<Rightarrow> int \<Rightarrow> int \<Rightarrow> nat \<Rightarrow> client_event list \<times> int option" where
  "tcp_client_loop env msg packets i msg_idx =
     (if i \<le> packets then
        let size = tc_rand env (nat i) mod TCP_BUFSIZE;
            (buffer, msg_idx') = tcp_client_fill msg msg_idx size;
            err = tc_write env (nat i) buffer
        in if err < 0
           then let (evs, status) = tcp_client_error ''ERROR when writting'' err
                in (Cl_write buffer err # evs, Some status)
           else let (evs, status) = tcp_client_loop env msg packets (i + 1) msg_idx'
                in (Cl_write buffer err # Cl_printed i size # evs, status)
      else ([], None))"
  by pat_completeness auto
termination
  by (relation "measure (\<lambda>(env, msg, packets, i, idx). nat (packets + 1 - i))") auto

declare tcp_client_loop.simps [simp del]

definition tcp_client_addr :: "tcp_client_env \<Rightarrow> string \<Rightarrow> int \<Rightarrow> sockaddr_in" where
  "tcp_client_addr env ip port =
     \<lparr>sin_family = AF_INET, sin_port = htons (word_of_int port), sin_addr = tc_inet_addr env ip\<rparr>"

definition tcp_client_main :: "tcp_client_env \<Rightarrow> string list \<Rightarrow> client_event list \<times> int" where
  "tcp_client_main env argv =
     (if length argv \<noteq> 4 then ([Cl_usage], 0)
      else
        let ip = argv ! 1; port = c_atoi (argv ! 2); packets = c_atoi (argv ! 3);
            addr = tcp_client_addr env ip port;
            err = tc_connect env addr
        in if err < 0
           then let (evs, status) = tcp_client_error ''ERROR connecting'' err
                in (Cl_connect addr # evs, status)
           else let msg = [0x4c, 0x45, 0x41, 0x4b];
                    (evs, failed) = tcp_client_loop env msg packets 1 0
                in case failed of
                     Some status \<Rightarrow> (Cl_connect addr # evs, status)
                   | None \<Rightarrow>
                       let msg' = replicate (length msg) 0
                       in (Cl_connect addr # evs @ [Cl_close, Cl_bzero msg', Cl_free msg'], 0))"

section \<open>What reaches the connection\<close>

text \<open>The bytes the kernel accepted: \<^verbatim>\<open>write\<close> returning \<open>r\<close> took the first \<open>r\<close>.\<close>

fun wire_bytes :: "client_event list \<Rightarrow> byte list" where
  "wire_bytes [] = []"
| "wire_bytes (Cl_write b r # evs) = take (nat r) b @ wire_bytes evs"
| "wire_bytes (_ # evs) = wire_bytes evs"

lemma wire_bytes_append [simp]: "wire_bytes (xs @ ys) = wire_bytes xs @ wire_bytes ys"
  by (induction xs rule: wire_bytes.induct) simp_all

text \<open>Sizes of packets \<open>1..n\<close>, and kernels that take whole buffers.\<close>

definition packet_size :: "tcp_client_env \<Rightarrow> nat \<Rightarrow> nat" where
  "packet_size env i = tc_rand env i mod TCP_BUFSIZE"

definition full_writes :: "tcp_client_env \<Rightarrow> bool" where
  "full_writes env \<longleftrightarrow> (\<forall>i b. tc_write env i b = int (length b))"

lemma packet_size_less: "packet_size env i < 64000"
  by (simp add: packet_size_def TCP_BUFSIZE_def)

lemma tcp_client_fill_run:
  "p < 4 \<Longrightarrow> tcp_client_fill leak_msg p n = (leak_run p n, (p + n) mod 4)"
proof (induction n arbitrary: p)
  case (Suc n)
  have "leak_msg ! p = leak_at p" using Suc.prems by (simp add: leak_at_def)
  moreover have "leak_run (Suc p mod 4) n = leak_run (Suc p) n" by simp
  ultimately show ?case
    using Suc.IH [of "Suc p mod 4"]
    by (simp add: leak_run_Suc mod_simps del: leak_run_mod)
qed simp

lemma tcp_client_loop_full_writes:
  assumes "\<forall>k b. nat i \<le> k \<longrightarrow> tc_write env k b = int (length b)" and "p < 4" and "0 \<le> packets" and "1 \<le> i" and "i \<le> packets + 1"
  shows "\<exists>evs. tcp_client_loop env leak_msg packets i p = (evs, None)
           \<and> wire_bytes evs = leak_run p (\<Sum>k = nat i..nat packets. packet_size env k)"
  using assms
proof (induction "nat (packets + 1 - i)" arbitrary: i p)
  case 0
  then have "\<not> i \<le> packets" and "nat packets < nat i" by simp_all
  then show ?case by (simp add: tcp_client_loop.simps [of env leak_msg packets i])
next
  case (Suc m)
  then have le: "i \<le> packets" by simp
  let ?s = "packet_size env (nat i)"
  have "m = nat (packets + 1 - (i + 1))" using Suc.hyps(2) by simp
  from Suc.hyps(1) [OF this, of "(p + ?s) mod 4"] Suc.prems le
  obtain evs where
    rec: "tcp_client_loop env leak_msg packets (i + 1) ((p + ?s) mod 4) = (evs, None)"
    and wire: "wire_bytes evs =
        leak_run (p + ?s) (\<Sum>k = nat (i + 1)..nat packets. packet_size env k)"
    by auto
  have "nat i \<le> nat packets" and suc: "nat (i + 1) = Suc (nat i)" using le Suc.prems by simp_all
  then have sum: "(\<Sum>k = nat i..nat packets. packet_size env k)
      = ?s + (\<Sum>k = nat (i + 1)..nat packets. packet_size env k)"
    by (simp add: sum.atLeast_Suc_atMost)
  show ?case
    using le rec wire Suc.prems
    by (simp add: tcp_client_loop.simps [of env leak_msg packets i] tcp_client_fill_run
        packet_size_def [symmetric] Let_def sum leak_run_append)
qed

lemma leak_msg_bytes: "[0x4c, 0x45, 0x41, 0x4b] = leak_msg"
  by (simp add: leak_msg_def)

section \<open>Properties\<close>

lemma tcp_client_main_connected:
  assumes "length argv = 4" and "0 \<le> tc_connect env (tcp_client_addr env (argv ! 1) (c_atoi (argv ! 2)))"
  shows "tcp_client_main env argv =
    (let r = tcp_client_loop env leak_msg (c_atoi (argv ! 3)) 1 0;
         c = Cl_connect (tcp_client_addr env (argv ! 1) (c_atoi (argv ! 2)))
     in case snd r of Some st \<Rightarrow> (c # fst r, st)
        | None \<Rightarrow> (c # fst r @ [Cl_close, Cl_bzero (replicate 4 0), Cl_free (replicate 4 0)], 0))"
  using assms
  by (simp add: tcp_client_main_def leak_msg_bytes Let_def split: prod.split option.split)

lemma tcp_client_loop_all_sent:
  assumes "full_writes env"
  shows "\<exists>evs. tcp_client_loop env leak_msg packets 1 0 = (evs, None)
    \<and> wire_bytes evs = leak_run 0 (\<Sum>k = 1..nat packets. packet_size env k)"
proof (cases "0 \<le> packets")
  case True
  then show ?thesis using tcp_client_loop_full_writes [of 1 env 0 packets] assms
    by (simp add: full_writes_def)
next
  case False
  then show ?thesis by (simp add: tcp_client_loop.simps [of env leak_msg packets 1])
qed

text \<open>When the kernel takes every buffer whole, the client exits with status 0 and the bytes
  on the connection are the pattern without a break across the packets, as many as the packet
  sizes add up to; its copy of the pattern is zeroed before it is freed.\<close>

theorem tcp_client_sends_pattern:
  assumes "length argv = 4" and "0 \<le> tc_connect env (tcp_client_addr env (argv ! 1) (c_atoi (argv ! 2)))"
    and "full_writes env"
  shows "\<exists>evs. tcp_client_main env argv = (evs @ [Cl_close, Cl_bzero [0, 0, 0, 0], Cl_free [0, 0, 0, 0]], 0)
    \<and> wire_bytes evs = leak_run 0 (\<Sum>k = 1..nat (c_atoi (argv ! 3)). packet_size env k)"
proof -
  obtain evs where evs: "tcp_client_loop env leak_msg (c_atoi (argv ! 3)) 1 0 = (evs, None)"
      "wire_bytes evs = leak_run 0 (\<Sum>k = 1..nat (c_atoi (argv ! 3)). packet_size env k)"
    using tcp_client_loop_all_sent [OF assms(3)] by blast
  have "replicate 4 (0 :: byte) = [0, 0, 0, 0]" by (simp add: numeral_eq_Suc)
  then show ?thesis
    using tcp_client_main_connected [OF assms(1,2)] evs
    by (intro exI [of _ "Cl_connect (tcp_client_addr env (argv ! 1) (c_atoi (argv ! 2))) # evs"])
      (simp add: Let_def)
qed

definition demo_client_env :: tcp_client_env where
  "demo_client_env = \<lparr>tc_inet_addr = (\<lambda>_. 0x016fa8c0), tc_connect = (\<lambda>_. 0),
     tc_rand = (\<lambda>i. 64000 + 3 * i), tc_write = (\<lambda>_ b. int (length b))\<rparr>"

definition demo_client_argv :: "string list" where
  "demo_client_argv = [''TCP_client'', ''192.168.111.1'', ''5000'', ''2'']"

lemma demo_client_argv_packets: "c_atoi (demo_client_argv ! 3) = 2"
  by (simp add: demo_client_argv_def c_atoi_def c_strtol10_def c_isspace_def c_isdigit_def)

theorem tcp_client_sends_pattern_witness:
  "\<exists>evs. tcp_client_main demo_client_env demo_client_argv
       = (evs @ [Cl_close, Cl_bzero [0, 0, 0, 0], Cl_free [0, 0, 0, 0]], 0)
     \<and> wire_bytes evs = leak_run 0 9"
proof -
  have sum: "(\<Sum>k = 1..nat (c_atoi (demo_client_argv ! 3)). packet_size demo_client_env k) = 9"
  proof -
    have "{1..nat 2} = {1, 2}" by auto
    then show ?thesis unfolding demo_client_argv_packets
      by (simp add: packet_size_def demo_client_env_def TCP_BUFSIZE_def)
  qed
  show ?thesis
    using tcp_client_sends_pattern [of demo_client_argv demo_client_env] unfolding sum
    by (simp add: demo_client_argv_def demo_client_env_def full_writes_def)
qed

text \<open>A failing \<^verbatim>\<open>write\<close> ends the client at that packet with the (negative) return
  value as its exit status, and the pattern is then neither zeroed nor freed.\<close>

theorem tcp_client_write_failure:
  assumes "length argv = 4" and "0 \<le> tc_connect env (tcp_client_addr env (argv ! 1) (c_atoi (argv ! 2)))"
    and "1 \<le> k" and "k \<le> c_atoi (argv ! 3)"
    and "\<forall>i b. i < nat k \<longrightarrow> 0 \<le> tc_write env i b" and "\<forall>b. tc_write env (nat k) b < 0"
  shows "\<exists>evs b. tcp_client_main env argv
      = (evs @ [Cl_write b (tc_write env (nat k) b), Cl_perror ''ERROR when writting''],
         tc_write env (nat k) b)
    \<and> (\<forall>m. Cl_bzero m \<notin> set evs \<and> Cl_free m \<notin> set evs)"
proof -
  let ?p = "c_atoi (argv ! 3)"
  have "\<exists>evs b. tcp_client_loop env leak_msg ?p i idx
      = (evs @ [Cl_write b (tc_write env (nat k) b), Cl_perror ''ERROR when writting''],
         Some (tc_write env (nat k) b)) \<and> (\<forall>m. Cl_bzero m \<notin> set evs \<and> Cl_free m \<notin> set evs)"
    if "1 \<le> i" "i \<le> k" for i idx
    using that
  proof (induction "nat (k - i)" arbitrary: i idx)
    case 0
    then have "i = k" by simp
    then show ?case using assms(4,6)
      by (simp add: tcp_client_loop.simps [of env leak_msg ?p k] tcp_client_error_def Let_def
          split: prod.split)
  next
    case (Suc n)
    then have i: "i < k" "nat i < nat k" and n: "n = nat (k - (i + 1))" by simp_all
    let ?f = "tcp_client_fill leak_msg idx (tc_rand env (nat i) mod TCP_BUFSIZE)"
    from Suc.hyps(1) [OF n, of "snd ?f"] Suc.prems i obtain evs b where
      rec: "tcp_client_loop env leak_msg ?p (i + 1) (snd ?f) =
        (evs @ [Cl_write b (tc_write env (nat k) b), Cl_perror ''ERROR when writting''],
         Some (tc_write env (nat k) b))" "\<forall>m. Cl_bzero m \<notin> set evs \<and> Cl_free m \<notin> set evs"
      by auto
    have "\<not> tc_write env (nat i) (fst ?f) < 0" using assms(5) i by (simp add: not_less)
    then show ?case using i assms(4) rec
      by (intro exI [of _ "Cl_write (fst ?f) (tc_write env (nat i) (fst ?f))
            # Cl_printed i (tc_rand env (nat i) mod TCP_BUFSIZE) # evs"] exI [of _ b])
        (simp add: tcp_client_loop.simps [of env leak_msg ?p i] Let_def split_def)
  qed
  from this [of 1 0] assms(3) obtain evs b where
    "tcp_client_loop env leak_msg ?p 1 0
      = (evs @ [Cl_write b (tc_write env (nat k) b), Cl_perror ''ERROR when writting''],
         Some (tc_write env (nat k) b))" "\<forall>m. Cl_bzero m \<notin> set evs \<and> Cl_free m \<notin> set evs"
    by auto
  then show ?thesis
    using tcp_client_main_connected [OF assms(1,2)]
    by (intro exI [of _ "Cl_connect (tcp_client_addr env (argv ! 1) (c_atoi (argv ! 2))) # evs"]
        exI [of _ b]) (simp add: Let_def)
qed

theorem tcp_client_write_failure_witness:
  "\<exists>evs b. tcp_client_main (demo_client_env\<lparr>tc_write := (\<lambda>i b. if i = 2 then -1 else 0)\<rparr>) demo_client_argv
      = (evs @ [Cl_write b (- 1), Cl_perror ''ERROR when writting''], - 1)
    \<and> (\<forall>m. Cl_bzero m \<notin> set evs \<and> Cl_free m \<notin> set evs)"
  using tcp_client_write_failure
    [of demo_client_argv "demo_client_env\<lparr>tc_write := (\<lambda>i b. if i = 2 then -1 else 0)\<rparr>" 2]
  unfolding demo_client_argv_packets
  by (simp add: demo_client_env_def) (simp add: demo_client_argv_def)

end
