(* ===== verification/Tcp_Server.thy ===== *)
theory Tcp_Server
  imports Leak_Pattern Tool_Libc
begin

text \<open>
  \<^verbatim>\<open>src/tools/TCP_server.c\<close>: accepts one connection at a time and counts the
  received bytes that are not the pattern. After the start-up calls the program only
  reacts to what \<^verbatim>\<open>accept\<close> and \<^verbatim>\<open>read\<close> return, so the two nested
  \<^verbatim>\<open>while (1)\<close> loops are a step function on the program state, one step per
  returning system call; the reachable states are an inductive predicate over it.
\<close>

definition TCP_SERVER_BUFSIZE :: nat where "TCP_SERVER_BUFSIZE = 64000"

text \<open>Where the program is blocked, or the status it exited with.\<close>

datatype server_phase = Accepting | Reading | Exited int

text \<open>
  A returning system call: \<open>Accept_ret fd\<close>, a negative \<^verbatim>\<open>read\<close>, or a
  \<^verbatim>\<open>read\<close> that stored the given bytes (none at the end of the stream).
\<close>

datatype server_input = Accept_ret int | Read_err | Read_bytes "byte list"

text \<open>
  Outputs. \<open>Sv_received l n\<close> is the line printed after each read, with \<open>l\<close> what
  \<^verbatim>\<open>strlen(buf)\<close> gives (\<open>None\<close>: no NUL within the buffer);
  \<open>Sv_free\<close> carries the contents of the freed block.
\<close>

datatype server_output =
    Sv_usage
  | Sv_listening int
  | Sv_accepted
  | Sv_closed int
  | Sv_received "nat option" nat
  | Sv_perror string
  | Sv_close
  | Sv_free "byte list"

record tcp_server =
  ts_phase :: server_phase
  ts_expected_msg :: "byte list option"
  ts_buf :: "byte list"
  ts_msg_index :: nat
  ts_errors :: c_int
  ts_out :: "server_output list"

text \<open>\<^verbatim>\<open>error()\<close>: the message, then \<^verbatim>\<open>exit(1)\<close>.\<close>

definition tcp_server_error :: "string \<Rightarrow> tcp_server \<Rightarrow> tcp_server" where
  "tcp_server_error msg s = s\<lparr>ts_phase := Exited 1, ts_out := ts_out s @ [Sv_perror msg]\<rparr>"

text \<open>The head of the outer loop: a fresh block holding the expected pattern.\<close>

definition tcp_server_loop_head :: "tcp_server \<Rightarrow> tcp_server" where
  "tcp_server_loop_head s =
     s\<lparr>ts_expected_msg := Some [0x4c, 0x45, 0x41, 0x4b], ts_phase := Accepting\<rparr>"

text \<open>The head of the inner loop: \<^verbatim>\<open>bzero(buf, BUFSIZE)\<close>, then blocked in \<^verbatim>\<open>read\<close>.\<close>

definition tcp_server_read_head :: "tcp_server \<Rightarrow> tcp_server" where
  "tcp_server_read_head s =
     s\<lparr>ts_buf := replicate TCP_SERVER_BUFSIZE 0, ts_phase := Reading\<rparr>"

text \<open>The \<^verbatim>\<open>for\<close> loop over the received bytes.\<close>

fun tcp_server_check :: "byte list \<Rightarrow> nat \<times> c_int \<Rightarrow> byte list \<Rightarrow> nat \<times> c_int" where
  "tcp_server_check expected_msg (msg_index, errors) [] = (msg_index, errors)"
| "tcp_server_check expected_msg (msg_index, errors) (b # bs) =
     tcp_server_check expected_msg
       ((msg_index + 1) mod 4, if b \<noteq> expected_msg ! msg_index then errors + 1 else errors) bs"

text \<open>
  One returning system call. \<open>None\<close> means that the program is not blocked in the
  call, or that the kernel stored more than the \<open>BUFSIZE\<close> bytes it was offered.
\<close>

fun tcp_server_step :: "tcp_server \<Rightarrow> server_input \<Rightarrow> tcp_server option" where
  "tcp_server_step s (Accept_ret fd) =
     (if ts_phase s \<noteq> Accepting then None
      else if fd < 0 then Some (tcp_server_error ''ERROR on accept'' s)
      else Some (tcp_server_read_head
             (s\<lparr>ts_out := ts_out s @ [Sv_accepted], ts_msg_index := 0, ts_errors := 0\<rparr>)))"
| "tcp_server_step s Read_err =
     (if ts_phase s \<noteq> Reading then None
      else Some (tcp_server_error ''ERROR reading from socket'' s))"
| "tcp_server_step s (Read_bytes bs) =
     (if ts_phase s \<noteq> Reading \<or> TCP_SERVER_BUFSIZE < length bs then None
      else if length bs = 0
      then let expected_msg' = map (\<lambda>_. 0) (the (ts_expected_msg s))
           in Some (tcp_server_loop_head
                (s\<lparr>ts_out := ts_out s @ [Sv_closed (sint (ts_errors s)), Sv_close, Sv_free expected_msg'],
                   ts_expected_msg := None\<rparr>))
      else let buf = mem_write (ts_buf s) 0 bs;
               (msg_index, errors) =
                 tcp_server_check (the (ts_expected_msg s)) (ts_msg_index s, ts_errors s)
                   (take (length bs) buf)
           in Some (tcp_server_read_head
                (s\<lparr>ts_msg_index := msg_index, ts_errors := errors,
                   ts_out := ts_out s @ [Sv_received (c_strlen buf) (length bs)]\<rparr>)))"

fun tcp_server_run :: "tcp_server \<Rightarrow> server_input list \<Rightarrow> tcp_server option" where
  "tcp_server_run s [] = Some s"
| "tcp_server_run s (x # xs) =
     (case tcp_server_step s x of None \<Rightarrow> None | Some s' \<Rightarrow> tcp_server_run s' xs)"

text \<open>
  Start-up: \<open>sock\<close> and \<open>bound\<close> are what \<^verbatim>\<open>socket\<close> and
  \<^verbatim>\<open>bind\<close> return; the results of \<^verbatim>\<open>setsockopt\<close> and
  \<^verbatim>\<open>listen\<close> are not read by the code. \<open>stack\<close> is what the uninitialised
  buffer holds.
\<close>

definition tcp_server_addr :: "int \<Rightarrow> sockaddr_in" where
  "tcp_server_addr portno =
     \<lparr>sin_family = AF_INET, sin_port = htons (word_of_int portno), sin_addr = htonl INADDR_ANY\<rparr>"

definition tcp_server_start ::
  "int \<Rightarrow> (sockaddr_in \<Rightarrow> int) \<Rightarrow> byte list \<Rightarrow> string list \<Rightarrow> tcp_server" where
  "tcp_server_start sock bound stack argv =
     (let s = \<lparr>ts_phase = Accepting, ts_expected_msg = None, ts_buf = stack,
               ts_msg_index = 0, ts_errors = 0, ts_out = []\<rparr>
      in if length argv \<noteq> 2 then s\<lparr>ts_phase := Exited 1, ts_out := [Sv_usage]\<rparr>
         else let portno = c_atoi (argv ! 1)
              in if sock < 0 then tcp_server_error ''ERROR opening socket'' s
                 else if bound (tcp_server_addr portno) < 0
                 then tcp_server_error ''ERROR on binding'' s
                 else tcp_server_loop_head (s\<lparr>ts_out := [Sv_listening portno]\<rparr>))"

inductive tcp_server_reach :: "tcp_server \<Rightarrow> bool" where
  start: "tcp_server_reach (tcp_server_start sock bound stack argv)"
| step: "tcp_server_reach s \<Longrightarrow> tcp_server_step s x = Some s' \<Longrightarrow> tcp_server_reach s'"

section \<open>The check loop against the pattern stream\<close>

lemma tcp_server_check_run:
  "p < 4 \<Longrightarrow> tcp_server_check leak_msg (p, e) bs = ((p + length bs) mod 4, e + of_nat (mismatches p bs))"
proof (induction bs arbitrary: p e)
  case (Cons b bs)
  have "leak_msg ! p = leak_at p" using Cons.prems by (simp add: leak_at_def)
  then show ?case
    using Cons.IH [of "Suc p mod 4"] by (simp add: mod_simps)
qed simp

section \<open>Invariant of the reachable states\<close>

text \<open>
  While the program runs, the block it compares with holds the pattern and the index stays
  below 4; in the inner loop the buffer is zero. This is
  what makes every array access of the two loops an access in range.
\<close>

definition tcp_server_inv :: "tcp_server \<Rightarrow> bool" where
  "tcp_server_inv s \<longleftrightarrow>
     (\<forall>st. ts_phase s \<noteq> Exited st) \<longrightarrow>
       ts_expected_msg s = Some leak_msg \<and> ts_msg_index s < 4 \<and>
       (ts_phase s = Reading \<longrightarrow> ts_buf s = replicate TCP_SERVER_BUFSIZE 0)"

lemmas tcp_server_heads =
  tcp_server_error_def tcp_server_loop_head_def tcp_server_read_head_def

lemma tcp_server_inv_start: "tcp_server_inv (tcp_server_start sock bound stack argv)"
  by (simp add: tcp_server_inv_def tcp_server_start_def tcp_server_heads Let_def leak_msg_def)

lemma tcp_server_inv_step:
  "tcp_server_step s x = Some s' \<Longrightarrow> tcp_server_inv s \<Longrightarrow> tcp_server_inv s'"
  by (induction s x rule: tcp_server_step.induct)
    (auto simp: tcp_server_inv_def tcp_server_heads tcp_server_check_run leak_msg_def [symmetric]
      Let_def split: if_splits)

lemma tcp_server_reach_inv: "tcp_server_reach s \<Longrightarrow> tcp_server_inv s"
  by (induction rule: tcp_server_reach.induct)
    (auto intro: tcp_server_inv_start tcp_server_inv_step)

lemma tcp_server_run_append:
  "tcp_server_run s (xs @ ys) =
     (case tcp_server_run s xs of None \<Rightarrow> None | Some s' \<Rightarrow> tcp_server_run s' ys)"
  by (induction xs arbitrary: s) (auto split: option.splits)

section \<open>One connection\<close>

text \<open>The inner loop over any cut of a stream into reads.\<close>

definition valid_reads :: "byte list list \<Rightarrow> bool" where
  "valid_reads segs \<longleftrightarrow> (\<forall>seg \<in> set segs. seg \<noteq> [] \<and> length seg \<le> TCP_SERVER_BUFSIZE)"

lemma tcp_server_read_step:
  assumes "tcp_server_inv s" and "ts_phase s = Reading"
    and "bs \<noteq> []" and "length bs \<le> TCP_SERVER_BUFSIZE"
  shows "\<exists>l. tcp_server_step s (Read_bytes bs) =
    Some (s\<lparr>ts_msg_index := (ts_msg_index s + length bs) mod 4,
            ts_errors := ts_errors s + of_nat (mismatches (ts_msg_index s) bs),
            ts_out := ts_out s @ [Sv_received l (length bs)]\<rparr>)"
proof -
  have take: "take (length bs) (mem_write (replicate TCP_SERVER_BUFSIZE 0) 0 bs) = bs"
    by (simp add: mem_write_def)
  have inv: "ts_expected_msg s = Some leak_msg" "ts_msg_index s < 4"
      "ts_buf s = replicate TCP_SERVER_BUFSIZE 0"
    using assms(1,2) by (auto simp: tcp_server_inv_def)
  have upd: "s\<lparr>ts_buf := replicate TCP_SERVER_BUFSIZE 0, ts_phase := Reading\<rparr> = s"
    using inv(3) assms(2) by simp
  show ?thesis
    using assms(2-4) inv upd
    by (auto simp: take tcp_server_check_run tcp_server_read_head_def intro!: exI tcp_server.equality)
qed

lemma tcp_server_reads:
  assumes "tcp_server_inv s" and "ts_phase s = Reading" and "valid_reads segs"
  shows "\<exists>s'. tcp_server_run s (map Read_bytes segs) = Some s' \<and> tcp_server_inv s'
    \<and> ts_phase s' = Reading
    \<and> ts_msg_index s' = (ts_msg_index s + length (concat segs)) mod 4
    \<and> ts_errors s' = ts_errors s + of_nat (mismatches (ts_msg_index s) (concat segs))"
  using assms
proof (induction segs arbitrary: s)
  case Nil
  then show ?case by (simp add: tcp_server_inv_def)
next
  case (Cons seg segs)
  from Cons.prems(3) have seg: "seg \<noteq> []" "length seg \<le> TCP_SERVER_BUFSIZE"
    and segs: "valid_reads segs" by (auto simp: valid_reads_def)
  from tcp_server_read_step [OF Cons.prems(1,2) seg] obtain s1 where
    s1: "tcp_server_step s (Read_bytes seg) = Some s1" "ts_phase s1 = Reading"
      "ts_msg_index s1 = (ts_msg_index s + length seg) mod 4"
      "ts_errors s1 = ts_errors s + of_nat (mismatches (ts_msg_index s) seg)"
    using Cons.prems(2) by fastforce
  have inv: "tcp_server_inv s1" using tcp_server_inv_step [OF s1(1) Cons.prems(1)] .
  from Cons.IH [OF inv s1(2) segs] s1 show ?case
    by (auto simp: mismatches_append mod_simps add.assoc)
qed

text \<open>The whole connection: accept, the reads, the end of the stream.\<close>

definition connection_inputs :: "int \<Rightarrow> byte list list \<Rightarrow> server_input list" where
  "connection_inputs fd segs = Accept_ret fd # map Read_bytes segs @ [Read_bytes []]"

lemma tcp_server_connection:
  assumes "tcp_server_inv s" and "ts_phase s = Accepting" and "0 \<le> fd" and "valid_reads segs"
  shows "\<exists>s' out. tcp_server_run s (connection_inputs fd segs) = Some s'
    \<and> ts_phase s' = Accepting \<and> tcp_server_inv s'
    \<and> ts_out s' = out @ [Sv_closed (sint (of_nat (mismatches 0 (concat segs)) :: c_int)), Sv_close,
                          Sv_free (replicate 4 0)]"
proof -
  let ?s1 = "tcp_server_read_head
    (s\<lparr>ts_out := ts_out s @ [Sv_accepted], ts_msg_index := 0, ts_errors := 0\<rparr>)"
  have st: "tcp_server_step s (Accept_ret fd) = Some ?s1" using assms(2,3) by simp
  have inv: "tcp_server_inv ?s1" using tcp_server_inv_step [OF st assms(1)] .
  have ph: "ts_phase ?s1 = Reading" by (simp add: tcp_server_read_head_def)
  from tcp_server_reads [OF inv ph assms(4)] obtain s2 where
    s2: "tcp_server_run ?s1 (map Read_bytes segs) = Some s2" "tcp_server_inv s2"
      "ts_phase s2 = Reading" "ts_errors s2 = of_nat (mismatches 0 (concat segs))"
    by (auto simp: tcp_server_read_head_def)
  have exp: "ts_expected_msg s2 = Some leak_msg" using s2(2,3) by (auto simp: tcp_server_inv_def)
  then obtain s3 where s3: "tcp_server_step s2 (Read_bytes []) = Some s3"
      "ts_phase s3 = Accepting"
      "ts_out s3 = ts_out s2 @ [Sv_closed (sint (ts_errors s2)), Sv_close, Sv_free (replicate 4 0)]"
    using s2(3) by (simp add: tcp_server_loop_head_def leak_msg_def numeral_eq_Suc)
  have "tcp_server_inv s3" using tcp_server_inv_step [OF s3(1) s2(2)] .
  then show ?thesis
    using st s2 s3 by (simp add: connection_inputs_def tcp_server_run_append)
qed

section \<open>Properties\<close>

definition demo_server :: tcp_server where
  "demo_server = tcp_server_start 3 (\<lambda>_. 0) [] [''TCP_server'', ''5000'']"

lemma demo_server_accepting:
  "tcp_server_reach demo_server" "ts_phase demo_server = Accepting"
  by (simp_all add: demo_server_def tcp_server_reach.start)
    (simp add: tcp_server_start_def tcp_server_loop_head_def Let_def)

text \<open>C7: In every reachable state the server takes a whole connection, whatever its bytes and
  however the kernel cuts them into reads, and reports the number of positions at which the
  received stream differs from the pattern as its counter of 32 bits holds it: modulo \<open>2\<^sup>3\<^sup>2\<close>, as a
  signed number, and so exactly when fewer than \<open>2\<^sup>3\<^sup>1\<close> positions differ. It then frees a zeroed block and
  waits for the next connection.\<close>

theorem tcp_server_counts_differences:
  assumes "tcp_server_reach s" and "ts_phase s = Accepting" and "0 \<le> fd" and "valid_reads segs"
    and "n = card {i. i < length (concat segs) \<and> concat segs ! i \<noteq> leak_at i}"
  shows "\<exists>s' out. tcp_server_run s (connection_inputs fd segs) = Some s' \<and> ts_phase s' = Accepting
    \<and> ts_out s' = out @ [Sv_closed ((int n + 2 ^ 31) mod 2 ^ 32 - 2 ^ 31), Sv_close, Sv_free [0, 0, 0, 0]]
    \<and> (n < 2 ^ 31 \<longrightarrow> (int n + 2 ^ 31) mod 2 ^ 32 - 2 ^ 31 = int n)"
proof -
  have "replicate 4 (0 :: byte) = [0, 0, 0, 0]" by (simp add: numeral_eq_Suc)
  moreover have "mismatches 0 (concat segs) = n" using assms(5) by (simp add: mismatches_count)
  ultimately show ?thesis
    using tcp_server_connection [OF tcp_server_reach_inv [OF assms(1)] assms(2-4)] sint_counter_small [of n]
    unfolding sint_counter by auto
qed

theorem tcp_server_counts_differences_witness:
  "\<exists>s' out. tcp_server_run demo_server (connection_inputs 4 [[0x4c, 0x45], [0x41, 0x00, 0x4c]]) = Some s'
    \<and> ts_phase s' = Accepting \<and> ts_out s' = out @ [Sv_closed 1, Sv_close, Sv_free [0, 0, 0, 0]]"
proof -
  let ?segs = "[[0x4c, 0x45], [0x41, 0x00, 0x4c]] :: byte list list"
  have v: "valid_reads ?segs" by (simp add: valid_reads_def TCP_SERVER_BUFSIZE_def)
  have "mismatches 0 (concat ?segs) = 1" by (simp add: leak_at_def leak_msg_def)
  then have "card {i. i < length (concat ?segs) \<and> concat ?segs ! i \<noteq> leak_at i} = 1"
    unfolding mismatches_count by simp
  then show ?thesis
    using tcp_server_counts_differences [OF demo_server_accepting _ v, of 4] by fastforce
qed

text \<open>The line printed after a read uses \<^verbatim>\<open>strlen(buf)\<close>; no NUL lies within the
  buffer, so that \<^verbatim>\<open>strlen\<close> reads beyond it, exactly when the read filled all
  \<^verbatim>\<open>BUFSIZE\<close> bytes without a zero byte. A full read of the pattern does so.\<close>

theorem tcp_server_strlen_overread:
  assumes "tcp_server_reach s" and "ts_phase s = Reading" and "bs \<noteq> []"
    and "length bs \<le> TCP_SERVER_BUFSIZE"
  shows "\<exists>s' l. tcp_server_step s (Read_bytes bs) = Some s'
    \<and> last (ts_out s') = Sv_received l (length bs)
    \<and> (l = None \<longleftrightarrow> length bs = TCP_SERVER_BUFSIZE \<and> 0 \<notin> set bs)"
proof -
  let ?buf = "mem_write (ts_buf s) 0 bs"
  have buf: "ts_buf s = replicate TCP_SERVER_BUFSIZE 0"
    using tcp_server_reach_inv [OF assms(1)] assms(2) by (simp add: tcp_server_inv_def)
  then have "?buf = bs @ replicate (TCP_SERVER_BUFSIZE - length bs) 0"
    by (simp add: mem_write_def)
  then have "c_strlen ?buf = None \<longleftrightarrow> length bs = TCP_SERVER_BUFSIZE \<and> 0 \<notin> set bs"
    using assms(4) by (auto simp: c_strlen_None_iff)
  moreover have "\<exists>s'. tcp_server_step s (Read_bytes bs) = Some s'
      \<and> last (ts_out s') = Sv_received (c_strlen ?buf) (length bs)"
    using assms(2-4) by (simp add: tcp_server_read_head_def Let_def split: prod.split)
  ultimately show ?thesis by (metis (no_types, lifting))
qed

theorem tcp_server_strlen_overread_witness:
  "\<exists>s s'. tcp_server_reach s \<and> tcp_server_step s (Read_bytes (leak_run 0 64000)) = Some s'
     \<and> last (ts_out s') = Sv_received None 64000"
proof -
  obtain s where s: "tcp_server_step demo_server (Accept_ret 4) = Some s" "ts_phase s = Reading"
    using demo_server_accepting(2) by (simp add: tcp_server_read_head_def)
  have r: "tcp_server_reach s" using tcp_server_reach.step [OF demo_server_accepting(1) s(1)] .
  have "leak_run 0 64000 \<noteq> []" by (metis length_leak_run list.size(3) zero_neq_numeral)
  then obtain s' l where "tcp_server_step s (Read_bytes (leak_run 0 64000)) = Some s'"
      "last (ts_out s') = Sv_received l 64000" "l = None"
    using tcp_server_strlen_overread [OF r s(2), of "leak_run 0 64000"]
    by (auto simp: TCP_SERVER_BUFSIZE_def zero_notin_leak_run simp del: tcp_server_step.simps)
  then show ?thesis using r by blast
qed

end
