(* ===== verification/Udp_Client.thy ===== *)
theory Udp_Client
  imports Leak_Pattern Tool_Libc
begin

text \<open>
  \<^verbatim>\<open>src/tools/UDP_client.c\<close>: sends a number of datagrams, each a buffer of
  \<^verbatim>\<open>BUFSIZE\<close> bytes of the pattern. The kernel's \<^verbatim>\<open>sendto\<close> and
  \<^verbatim>\<open>inet_addr\<close> are parameters.
\<close>

definition UDP_BUFSIZE :: nat where "UDP_BUFSIZE = 64000"

record udp_client_env =
  uc_inet_addr :: "string \<Rightarrow> u32"
  uc_sendto :: "nat \<Rightarrow> sockaddr_in \<Rightarrow> byte list \<Rightarrow> int"

datatype udp_client_event =
    Uc_usage
  | Uc_sendto sockaddr_in "byte list" int
  | Uc_printed int
  | Uc_perror string
  | Uc_close
  | Uc_bzero_buffer "byte list"
  | Uc_bzero_msg "byte list"
  | Uc_free_msg "byte list"

definition udp_client_error :: "string \<Rightarrow> int \<Rightarrow> udp_client_event list \<times> int" where
  "udp_client_error msg err = ([Uc_perror msg], err)"

text \<open>\<open>buffer[k] = msg[msg_idx%4]; msg_idx = (msg_idx + 1) % 4\<close>, \<open>n\<close> times.\<close>

fun udp_client_fill :: "byte list \<Rightarrow> nat \<Rightarrow> nat \<Rightarrow> byte list \<times> nat" where
  "udp_client_fill msg msg_idx 0 = ([], msg_idx)"
| "udp_client_fill msg msg_idx (Suc n) =
     (let (bs, idx') = udp_client_fill msg ((msg_idx + 1) mod 4) n
      in (msg ! (msg_idx mod 4) # bs, idx'))"

function udp_client_loop ::
  "udp_client_env \<Rightarrow> sockaddr_in \<Rightarrow> byte list \<Rightarrow> int \<Rightarrow> int \<Rightarrow> nat
    \<Rightarrow> udp_client_event list \<times> int option" where
  "udp_client_loop env addr msg packets i msg_idx =
     (if i \<le> packets then
        let (buffer, msg_idx') = udp_client_fill msg msg_idx UDP_BUFSIZE;
            err = uc_sendto env (nat i) addr buffer
        in if err < 0
           then let (evs, status) = udp_client_error (''Error when sending data, exiting...'' @ [CHR 0x0A]) err
                in (Uc_sendto addr buffer err # evs, Some status)
           else let (evs, status) = udp_client_loop env addr msg packets (i + 1) msg_idx'
                in (Uc_sendto addr buffer err # Uc_printed i # evs, status)
      else ([], None))"
  by pat_completeness auto
termination
  by (relation "measure (\<lambda>(env, addr, msg, packets, i, idx). nat (packets + 1 - i))") auto

declare udp_client_loop.simps [simp del]

definition udp_client_addr :: "udp_client_env \<Rightarrow> string \<Rightarrow> int \<Rightarrow> sockaddr_in" where
  "udp_client_addr env ip port =
     \<lparr>sin_family = AF_INET, sin_port = htons (word_of_int port), sin_addr = uc_inet_addr env ip\<rparr>"

definition udp_client_main :: "udp_client_env \<Rightarrow> string list \<Rightarrow> udp_client_event list \<times> int" where
  "udp_client_main env argv =
     (if length argv \<noteq> 4 then ([Uc_usage], 0)
      else
        let ip = argv ! 1; port = c_atoi (argv ! 2); packets = c_atoi (argv ! 3);
            addr = udp_client_addr env ip port;
            msg = [0x4c, 0x45, 0x41, 0x4b];
            (evs, failed) = udp_client_loop env addr msg packets 1 0
        in case failed of
             Some status \<Rightarrow> (evs, status)
           | None \<Rightarrow>
               let msg' = replicate (length msg) 0
               in (evs @ [Uc_close, Uc_bzero_buffer (replicate UDP_BUFSIZE 0),
                          Uc_bzero_msg msg', Uc_free_msg msg'], 0))"

section \<open>The datagrams of a run\<close>

fun datagrams :: "udp_client_event list \<Rightarrow> byte list list" where
  "datagrams [] = []"
| "datagrams (Uc_sendto addr b r # evs) = b # datagrams evs"
| "datagrams (_ # evs) = datagrams evs"

lemma datagrams_append [simp]: "datagrams (xs @ ys) = datagrams xs @ datagrams ys"
  by (induction xs rule: datagrams.induct) simp_all

lemma udp_client_fill_run:
  "p < 4 \<Longrightarrow> udp_client_fill leak_msg p n = (leak_run p n, (p + n) mod 4)"
proof (induction n arbitrary: p)
  case (Suc n)
  have "leak_run (Suc p mod 4) n = leak_run (Suc p) n" by simp
  then show ?case
    using Suc.IH [of "Suc p mod 4"]
    by (simp add: leak_run_Suc mod_simps leak_at_def del: leak_run_mod)
qed simp

text \<open>
  \<^verbatim>\<open>BUFSIZE\<close> is a multiple of 4, so the index is back at 0 after each packet and
  all datagrams are the same run; a failing \<^verbatim>\<open>sendto\<close> is the last one.
\<close>

definition first_failure :: "udp_client_env \<Rightarrow> sockaddr_in \<Rightarrow> int \<Rightarrow> int \<Rightarrow> int option" where
  "first_failure env addr i packets =
     find (\<lambda>k. uc_sendto env (nat k) addr (leak_run 0 UDP_BUFSIZE) < 0) [i..packets]"

lemma first_failure_step:
  "i \<le> packets \<Longrightarrow> first_failure env addr i packets =
    (if uc_sendto env (nat i) addr (leak_run 0 UDP_BUFSIZE) < 0 then Some i
     else first_failure env addr (i + 1) packets)"
  by (simp add: first_failure_def upto.simps [of i packets])

lemma udp_client_loop_datagrams:
  "case first_failure env addr i packets of
     None \<Rightarrow> snd (udp_client_loop env addr leak_msg packets i 0) = None
       \<and> datagrams (fst (udp_client_loop env addr leak_msg packets i 0))
         = replicate (nat (packets + 1 - i)) (leak_run 0 UDP_BUFSIZE)
   | Some k \<Rightarrow> snd (udp_client_loop env addr leak_msg packets i 0)
         = Some (uc_sendto env (nat k) addr (leak_run 0 UDP_BUFSIZE))
       \<and> datagrams (fst (udp_client_loop env addr leak_msg packets i 0))
         = replicate (nat (k + 1 - i)) (leak_run 0 UDP_BUFSIZE)"
proof (induction "nat (packets + 1 - i)" arbitrary: i)
  case 0
  then have "\<not> i \<le> packets" by simp
  then show ?case
    by (simp add: udp_client_loop.simps [of env addr leak_msg packets i] first_failure_def)
next
  case (Suc m)
  then have le: "i \<le> packets" by simp
  have m: "m = nat (packets + 1 - (i + 1))" using Suc.hyps(2) by simp
  have fill: "udp_client_fill leak_msg 0 UDP_BUFSIZE = (leak_run 0 UDP_BUFSIZE, 0)"
    by (simp add: udp_client_fill_run UDP_BUFSIZE_def)
  have ge: "first_failure env addr (i + 1) packets = Some k \<Longrightarrow> i + 1 \<le> k" for k
    by (auto simp: first_failure_def find_Some_iff)
  let ?rest = "udp_client_loop env addr leak_msg packets (i + 1) 0"
  have unfold: "udp_client_loop env addr leak_msg packets i 0 =
      (let r = uc_sendto env (nat i) addr (leak_run 0 UDP_BUFSIZE)
       in if r < 0 then ([Uc_sendto addr (leak_run 0 UDP_BUFSIZE) r,
                          Uc_perror (''Error when sending data, exiting...'' @ [CHR 0x0A])], Some r)
          else (Uc_sendto addr (leak_run 0 UDP_BUFSIZE) r # Uc_printed i # fst ?rest, snd ?rest))"
    using le by (simp add: udp_client_loop.simps [of env addr leak_msg packets i] fill
        udp_client_error_def Let_def split: prod.splits)
  have suc: "nat (k + 1 - i) = Suc (nat (k + 1 - (i + 1)))" if "i \<le> k" for k
    using that by simp
  show ?case
    using Suc.hyps(1) [OF m] le ge
    by (auto simp: unfold first_failure_step [OF le] Let_def suc split: option.splits)
qed

section \<open>Properties\<close>

lemma udp_msg_bytes: "[0x4c, 0x45, 0x41, 0x4b] = leak_msg"
  by (simp add: leak_msg_def)

text \<open>Every datagram of the client is the same run of 64000 bytes of the pattern, from its
  start. If no \<^verbatim>\<open>sendto\<close> fails, it sends as many as its argument asks for and exits with
  status 0; otherwise the first failing one is the last, and its return value is the exit
  status.\<close>

theorem udp_client_sends_pattern:
  assumes "length argv = 4"
    and "addr = udp_client_addr env (argv ! 1) (c_atoi (argv ! 2))"
  shows "case first_failure env addr 1 (c_atoi (argv ! 3)) of
      None \<Rightarrow> snd (udp_client_main env argv) = 0
        \<and> datagrams (fst (udp_client_main env argv))
          = replicate (nat (c_atoi (argv ! 3))) (leak_run 0 64000)
    | Some k \<Rightarrow> snd (udp_client_main env argv) = uc_sendto env (nat k) addr (leak_run 0 64000)
        \<and> datagrams (fst (udp_client_main env argv)) = replicate (nat k) (leak_run 0 64000)"
  using udp_client_loop_datagrams [where env = env and addr = addr and i = 1
      and packets = "c_atoi (argv ! 3)"] assms
  by (auto simp: udp_client_main_def udp_msg_bytes UDP_BUFSIZE_def Let_def split_def
      split: option.splits)

definition demo_udp_env :: udp_client_env where
  "demo_udp_env = \<lparr>uc_inet_addr = (\<lambda>_. 0x016fa8c0),
     uc_sendto = (\<lambda>i addr b. if i = 2 then - 1 else int (length b))\<rparr>"

definition demo_udp_argv :: "string list" where
  "demo_udp_argv = [''UDP_client'', ''192.168.111.1'', ''5000'', ''3'']"

theorem udp_client_sends_pattern_witness:
  "snd (udp_client_main demo_udp_env demo_udp_argv) = - 1
     \<and> datagrams (fst (udp_client_main demo_udp_env demo_udp_argv)) = replicate 2 (leak_run 0 64000)"
proof -
  have three: "c_atoi (demo_udp_argv ! 3) = 3"
    by (simp add: demo_udp_argv_def c_atoi_def c_strtol10_def c_isspace_def c_isdigit_def)
  have "first_failure demo_udp_env addr 1 3 = Some 2" for addr
    by (simp add: first_failure_step demo_udp_env_def)
  then show ?thesis
    using udp_client_sends_pattern [of demo_udp_argv _ demo_udp_env, OF _ refl] unfolding three
    by (simp add: demo_udp_argv_def demo_udp_env_def)
qed

end
