(* ===== verification/Udp_Server.thy ===== *)
theory Udp_Server
  imports Leak_Pattern Tool_Libc
begin

text \<open>
  \<^verbatim>\<open>src/tools/UDP_server.c\<close>: receives datagrams into a buffer of 1024 bytes,
  finds the phase of the pattern from the first byte and counts the bytes that differ
  from it. The loop is a step function, one step per returning \<^verbatim>\<open>recvfrom\<close>.
\<close>

definition UDP_SERVER_BUFSIZE :: nat where "UDP_SERVER_BUFSIZE = 1024"

datatype udp_phase = Receiving | Udp_exited int

text \<open>
  \<open>Datagram d\<close>: a datagram \<open>d\<close> arrives; \<^verbatim>\<open>recvfrom\<close> stores and
  counts at most \<^verbatim>\<open>BUFSIZE\<close> bytes of it and discards the rest.
\<close>

datatype udp_input = Recv_err | Datagram "byte list"

datatype udp_output =
    Us_usage
  | Us_listening int
  | Us_received "nat option" nat int
  | Us_perror string

record udp_server =
  us_phase :: udp_phase
  us_buf :: "byte list"
  us_expected_msg :: "byte list"
  us_msg_index :: nat
  us_errors :: c_int
  us_out :: "udp_output list"

definition udp_server_error :: "string \<Rightarrow> udp_server \<Rightarrow> udp_server" where
  "udp_server_error msg s = s\<lparr>us_phase := Udp_exited 1, us_out := us_out s @ [Us_perror msg]\<rparr>"

text \<open>The search loop \<^verbatim>\<open>for (k = 0; k < 4; k++)\<close> with its \<^verbatim>\<open>break\<close>.\<close>

function udp_find_phase :: "byte \<Rightarrow> byte list \<Rightarrow> nat \<Rightarrow> nat \<Rightarrow> nat" where
  "udp_find_phase b expected_msg k msg_index =
     (if k < 4 then if b = expected_msg ! k then k
                    else udp_find_phase b expected_msg (k + 1) msg_index
      else msg_index)"
  by pat_completeness auto
termination
  by (relation "measure (\<lambda>(b, m, k, i). 4 - k)") auto

declare udp_find_phase.simps [simp del]

fun udp_server_check :: "byte list \<Rightarrow> nat \<times> c_int \<Rightarrow> byte list \<Rightarrow> nat \<times> c_int" where
  "udp_server_check expected_msg (msg_index, errors) [] = (msg_index, errors)"
| "udp_server_check expected_msg (msg_index, errors) (b # bs) =
     udp_server_check expected_msg
       ((msg_index + 1) mod 4, if b \<noteq> expected_msg ! msg_index then errors + 1 else errors) bs"

text \<open>One turn of the loop, with the line it prints last.\<close>

fun udp_server_step :: "udp_server \<Rightarrow> udp_input \<Rightarrow> udp_server option" where
  "udp_server_step s Recv_err =
     (if us_phase s \<noteq> Receiving then None else Some (udp_server_error ''ERROR in recvfrom'' s))"
| "udp_server_step s (Datagram d) =
     (if us_phase s \<noteq> Receiving then None
      else let n = min (length d) UDP_SERVER_BUFSIZE;
               buf = mem_write (us_buf s) 0 (take n d);
               expected_msg = mem_write (us_expected_msg s) 0 [0x4c, 0x45, 0x41, 0x4b];
               k = udp_find_phase (buf ! 0) expected_msg 0 (us_msg_index s);
               (msg_index, errors) = udp_server_check expected_msg (k, us_errors s) (take n buf);
               expected_msg' = replicate 4 0;
               buf' = replicate UDP_SERVER_BUFSIZE 0
           in Some (s\<lparr>us_buf := buf', us_expected_msg := expected_msg', us_msg_index := msg_index,
                      us_errors := errors,
                      us_out := us_out s @ [Us_received (c_strlen buf') n (sint errors)]\<rparr>))"

fun udp_server_run :: "udp_server \<Rightarrow> udp_input list \<Rightarrow> udp_server option" where
  "udp_server_run s [] = Some s"
| "udp_server_run s (x # xs) =
     (case udp_server_step s x of None \<Rightarrow> None | Some s' \<Rightarrow> udp_server_run s' xs)"

definition udp_server_addr :: "int \<Rightarrow> sockaddr_in" where
  "udp_server_addr portno =
     \<lparr>sin_family = AF_INET, sin_port = htons (word_of_int portno), sin_addr = htonl INADDR_ANY\<rparr>"

text \<open>
  Start-up; \<open>heap_buf\<close> and \<open>heap_msg\<close> are what the two uninitialised blocks from
  \<^verbatim>\<open>malloc\<close> hold.
\<close>

definition udp_server_start ::
  "int \<Rightarrow> (sockaddr_in \<Rightarrow> int) \<Rightarrow> byte list \<Rightarrow> byte list \<Rightarrow> string list \<Rightarrow> udp_server" where
  "udp_server_start sock bound heap_buf heap_msg argv =
     (let s = \<lparr>us_phase = Receiving, us_buf = heap_buf, us_expected_msg = heap_msg,
               us_msg_index = 0, us_errors = 0, us_out = []\<rparr>
      in if length argv \<noteq> 2 then s\<lparr>us_phase := Udp_exited 1, us_out := [Us_usage]\<rparr>
         else let portno = c_atoi (argv ! 1)
              in if sock < 0 then udp_server_error ''ERROR opening socket'' s
                 else if bound (udp_server_addr portno) < 0
                 then udp_server_error ''ERROR on binding'' s
                 else s\<lparr>us_out := [Us_listening portno]\<rparr>)"

inductive udp_server_reach :: "udp_server \<Rightarrow> bool" where
  start: "length heap_buf = UDP_SERVER_BUFSIZE \<Longrightarrow> length heap_msg = 4 \<Longrightarrow>
    udp_server_reach (udp_server_start sock bound heap_buf heap_msg argv)"
| step: "udp_server_reach s \<Longrightarrow> udp_server_step s x = Some s' \<Longrightarrow> udp_server_reach s'"

section \<open>The phase search and the check loop\<close>

lemma udp_server_check_run:
  "p < 4 \<Longrightarrow> udp_server_check leak_msg (p, e) bs = ((p + length bs) mod 4, e + of_nat (mismatches p bs))"
proof (induction bs arbitrary: p e)
  case (Cons b bs)
  have "leak_msg ! p = leak_at p" using Cons.prems by (simp add: leak_at_def)
  then show ?case
    using Cons.IH [of "Suc p mod 4"] by (simp add: mod_simps)
qed simp

definition phase_of :: "byte \<Rightarrow> nat \<Rightarrow> nat" where
  "phase_of b i = (if b = 0x4c then 0 else if b = 0x45 then 1 else if b = 0x41 then 2
                   else if b = 0x4b then 3 else i)"

lemma udp_find_phase_eq: "udp_find_phase b leak_msg 0 i = phase_of b i"
  by (simp add: udp_find_phase.simps phase_of_def leak_msg_def)

lemma phase_of_less: "i < 4 \<Longrightarrow> phase_of b i < 4"
  by (simp add: phase_of_def)

lemma phase_of_leak_at: "phase_of (leak_at p) i = p mod 4"
proof -
  have "p mod 4 \<in> {0, 1, 2, 3}" by auto
  then show ?thesis by (auto simp: leak_at_def leak_msg_def phase_of_def)
qed

section \<open>Invariant and one turn of the loop\<close>

definition udp_server_inv :: "udp_server \<Rightarrow> bool" where
  "udp_server_inv s \<longleftrightarrow> length (us_buf s) = UDP_SERVER_BUFSIZE \<and> length (us_expected_msg s) = 4
     \<and> us_msg_index s < 4"

text \<open>What one datagram adds to the counter; the empty one adds nothing.\<close>

definition datagram_errors :: "nat \<Rightarrow> byte list \<Rightarrow> nat" where
  "datagram_errors i d =
     (if d = [] then 0 else mismatches (phase_of (hd d) i) (take UDP_SERVER_BUFSIZE d))"

lemma udp_server_step_datagram:
  assumes "udp_server_inv s" and "us_phase s = Receiving"
  shows "\<exists>i. i < 4 \<and> udp_server_step s (Datagram d) =
    Some (s\<lparr>us_buf := replicate UDP_SERVER_BUFSIZE 0, us_expected_msg := replicate 4 0,
            us_msg_index := i,
            us_errors := us_errors s + of_nat (datagram_errors (us_msg_index s) d),
            us_out := us_out s @ [Us_received (Some 0) (min (length d) UDP_SERVER_BUFSIZE)
              (sint (us_errors s + of_nat (datagram_errors (us_msg_index s) d)))]\<rparr>)"
proof -
  let ?n = "min (length d) UDP_SERVER_BUFSIZE"
  let ?buf = "mem_write (us_buf s) 0 (take ?n d)"
  have inv: "length (us_buf s) = UDP_SERVER_BUFSIZE" "length (us_expected_msg s) = 4"
    "us_msg_index s < 4" using assms(1) by (simp_all add: udp_server_inv_def)
  have msg: "mem_write (us_expected_msg s) 0 [0x4c, 0x45, 0x41, 0x4b] = leak_msg"
    using inv(2) by (simp add: leak_msg_def)
  have take: "take ?n ?buf = take UDP_SERVER_BUFSIZE d"
    by (simp add: mem_write_def min_def)
  have hd: "d \<noteq> [] \<Longrightarrow> ?buf ! 0 = hd d"
    by (cases d) (simp_all add: mem_write_def UDP_SERVER_BUFSIZE_def min_def)
  have ph: "phase_of (?buf ! 0) (us_msg_index s) < 4" using inv(3) by (rule phase_of_less)
  have err: "mismatches (phase_of (?buf ! 0) (us_msg_index s)) (take UDP_SERVER_BUFSIZE d)
      = datagram_errors (us_msg_index s) d"
    using hd by (simp add: datagram_errors_def)
  have z: "c_strlen (replicate UDP_SERVER_BUFSIZE 0) = Some 0"
    by (rule c_strlen_replicate_zero) (simp add: UDP_SERVER_BUFSIZE_def)
  show ?thesis
    by (rule exI [of _ "(phase_of (?buf ! 0) (us_msg_index s) + ?n) mod 4"])
      (simp add: assms(2) msg take udp_find_phase_eq udp_server_check_run [OF ph] err z Let_def)
qed

lemma udp_server_step_cases:
  assumes "udp_server_step s x = Some s'"
  obtains "us_phase s = Receiving" and "x = Recv_err"
      and "s' = udp_server_error ''ERROR in recvfrom'' s"
    | d where "us_phase s = Receiving" and "x = Datagram d"
  using assms by (cases x) (auto split: if_splits)

lemma udp_server_reach_inv: "udp_server_reach s \<Longrightarrow> udp_server_inv s"
proof (induction rule: udp_server_reach.induct)
  case (start heap_buf heap_msg sock bound argv)
  then show ?case
    by (simp add: udp_server_inv_def udp_server_start_def udp_server_error_def Let_def)
next
  case (step s x s')
  from step.hyps(2) show ?case
  proof (cases rule: udp_server_step_cases)
    case 1
    then show ?thesis using step.IH by (simp add: udp_server_inv_def udp_server_error_def)
  next
    case (2 d)
    then show ?thesis
      using step udp_server_step_datagram [OF step.IH 2(1), of d]
      by (auto simp: udp_server_inv_def)
  qed
qed

text \<open>A datagram adds no error exactly when the part the server looks at is a run of the pattern.\<close>

lemma datagram_errors_zero_iff:
  assumes "i < 4"
  shows "datagram_errors i d = 0 \<longleftrightarrow>
    (\<exists>p. take UDP_SERVER_BUFSIZE d = leak_run p (min (length d) UDP_SERVER_BUFSIZE))"
proof (cases d)
  case Nil
  then show ?thesis by (simp add: datagram_errors_def)
next
  case (Cons b bs)
  let ?t = "take UDP_SERVER_BUFSIZE d"
  have ne: "d \<noteq> []" and hd: "?t \<noteq> []" "hd ?t = hd d"
    using Cons by (simp_all add: UDP_SERVER_BUFSIZE_def)
  have len: "length ?t = min (length d) UDP_SERVER_BUFSIZE" by simp
  have "?t = leak_run p (length ?t) \<Longrightarrow> ?t = leak_run (phase_of (hd d) i) (length ?t)" for p
  proof -
    assume run: "?t = leak_run p (length ?t)"
    then have "hd d = leak_at p"
      using hd by (cases "length ?t") (metis length_0_conv, metis leak_run_Suc list.sel(1))
    then show ?thesis using run by (simp add: phase_of_leak_at)
  qed
  then show ?thesis
    using ne by (auto simp: datagram_errors_def mismatches_zero_iff len [symmetric] simp del: length_take)
qed

section \<open>Properties\<close>

definition demo_udp_server :: udp_server where
  "demo_udp_server = udp_server_start 3 (\<lambda>_. 0) (replicate 1024 0xaa) (replicate 4 0xaa)
     [''UDP_server'', ''5000'']"

lemma demo_udp_server_receiving:
  "udp_server_reach demo_udp_server" "us_phase demo_udp_server = Receiving"
  by (simp_all add: demo_udp_server_def udp_server_reach.start UDP_SERVER_BUFSIZE_def)
    (simp add: udp_server_start_def Let_def)

text \<open>In every reachable state a datagram leaves the error counter unchanged exactly when the
  part of it that fits the receive buffer is a run of the pattern, from any phase; otherwise at most
  1024 errors are added to it, so that it changes although it has 32 bits only. No other datagram
  influences the verdict.\<close>

theorem udp_server_detects:
  assumes "udp_server_reach s" and "us_phase s = Receiving"
  shows "\<exists>s'. udp_server_step s (Datagram d) = Some s' \<and> us_phase s' = Receiving
    \<and> (\<exists>k\<le>1024. us_errors s' = us_errors s + of_nat k)
    \<and> (us_errors s' = us_errors s \<longleftrightarrow> (\<exists>p. take 1024 d = leak_run p (min (length d) 1024)))"
proof -
  have inv: "udp_server_inv s" using udp_server_reach_inv [OF assms(1)] .
  then have "us_msg_index s < 4" by (simp add: udp_server_inv_def)
  note zero = datagram_errors_zero_iff [OF this, of d]
  let ?k = "datagram_errors (us_msg_index s) d"
  have le: "?k \<le> 1024" using mismatches_le [of _ "take UDP_SERVER_BUFSIZE d"] by (simp add: datagram_errors_def UDP_SERVER_BUFSIZE_def order_trans)
  have "(of_nat ?k :: c_int) = 0 \<longleftrightarrow> ?k = 0" using le by (intro counter_zero_iff) simp
  moreover obtain s' where "udp_server_step s (Datagram d) = Some s'" "us_phase s' = Receiving"
      "us_errors s' = us_errors s + of_nat ?k"
    using udp_server_step_datagram [OF inv assms(2), of d] assms(2) by (auto simp del: udp_server_step.simps)
  ultimately show ?thesis using le zero unfolding UDP_SERVER_BUFSIZE_def by auto
qed

theorem udp_server_detects_witness:
  "\<exists>s'. udp_server_step demo_udp_server (Datagram (leak_run 3 5)) = Some s' \<and> us_errors s' = 0"
proof -
  have "take 1024 (leak_run 3 5) = leak_run 3 (min (length (leak_run 3 5)) 1024)" by simp
  then show ?thesis
    using udp_server_detects [OF demo_udp_server_receiving, of "leak_run 3 5"]
    by (auto simp: demo_udp_server_def udp_server_start_def Let_def simp del: udp_server_step.simps)
qed

text \<open>Of each datagram the server looks at the first 1024 bytes only: what follows them has no
  influence on its state or its output, although the client sends datagrams
  of 64000 bytes.\<close>

theorem udp_server_ignores_tail:
  assumes "length d = 1024"
  shows "udp_server_step s (Datagram (d @ rest)) = udp_server_step s (Datagram d)"
  using assms by (simp add: UDP_SERVER_BUFSIZE_def)

theorem udp_server_ignores_tail_witness:
  "udp_server_step demo_udp_server (Datagram (leak_run 0 1024 @ [1, 2, 3]))
     = udp_server_step demo_udp_server (Datagram (leak_run 0 1024))"
  by (rule udp_server_ignores_tail) simp

text \<open>Every line the running server prints about a datagram gives 0 as the string length
  of the buffer, whatever was received: \<^verbatim>\<open>strlen(buf)\<close> is evaluated after
  \<^verbatim>\<open>explicit_bzero(buf, BUFSIZE)\<close>.\<close>

theorem udp_server_prints_zero_length:
  assumes "udp_server_reach s"
  shows "Us_received l n e \<in> set (us_out s) \<Longrightarrow> l = Some 0 \<and> n \<le> 1024"
  using assms
proof (induction rule: udp_server_reach.induct)
  case (start heap_buf heap_msg sock bound argv)
  then show ?case
    by (auto simp: udp_server_start_def udp_server_error_def Let_def split: if_splits)
next
  case (step s x s')
  from step.hyps(2) show ?case
  proof (cases rule: udp_server_step_cases)
    case 1
    then show ?thesis using step by (auto simp: udp_server_error_def)
  next
    case (2 d)
    then show ?thesis
      using step udp_server_step_datagram [OF udp_server_reach_inv [OF step.hyps(1)] 2(1), of d]
      by (auto simp: UDP_SERVER_BUFSIZE_def simp del: udp_server_step.simps)
  qed
qed

theorem udp_server_prints_zero_length_witness:
  "\<exists>s' l n e. udp_server_step demo_udp_server (Datagram [0x4c, 0x45]) = Some s'
     \<and> Us_received l n e \<in> set (us_out s') \<and> l = Some 0"
proof -
  obtain s' where s': "udp_server_step demo_udp_server (Datagram [0x4c, 0x45]) = Some s'"
      "\<exists>l n e. Us_received l n e \<in> set (us_out s')"
    using demo_udp_server_receiving(2) by (fastforce simp: Let_def split: prod.splits)
  have "udp_server_reach s'" using udp_server_reach.step [OF demo_udp_server_receiving(1) s'(1)] .
  then show ?thesis using s' udp_server_prints_zero_length by blast
qed

end
