(* ===== verification/Tool_Links.thy ===== *)
theory Tool_Links
  imports Tcp_Client Tcp_Server Udp_Client Udp_Server
begin

text \<open>
  The tools in pairs: \<^verbatim>\<open>TCP_client\<close> with \<^verbatim>\<open>TCP_server\<close> and
  \<^verbatim>\<open>UDP_client\<close> with \<^verbatim>\<open>UDP_server\<close>. The fill and check loops
  of each pair satisfy the contract \<open>pattern_pair\<close>; the properties here put a client, a
  network and a server together.
\<close>

interpretation tcp: pattern_pair "tcp_client_fill leak_msg" "tcp_server_check leak_msg"
  by unfold_locales (simp_all add: tcp_client_fill_run tcp_server_check_run)

interpretation udp: pattern_pair "udp_client_fill leak_msg" "udp_server_check leak_msg"
  by unfold_locales (simp_all add: udp_client_fill_run udp_server_check_run)

section \<open>Properties\<close>

text \<open>C20: End to end over a stream: when the client's kernel takes every buffer whole and the
  stream is delivered unchanged, cut into reads in any way, the server reports 0 errors.\<close>

theorem tcp_end_to_end:
  assumes "length argv = 4" and "0 \<le> tc_connect env (tcp_client_addr env (argv ! 1) (c_atoi (argv ! 2)))"
    and "full_writes env"
    and "tcp_server_reach s" and "ts_phase s = Accepting" and "0 \<le> fd" and "valid_reads segs"
    and "concat segs = wire_bytes (fst (tcp_client_main env argv))"
  shows "\<exists>s' out. tcp_server_run s (connection_inputs fd segs) = Some s' \<and> ts_phase s' = Accepting
    \<and> ts_out s' = out @ [Sv_closed 0, Sv_close, Sv_free (replicate 4 0)]"
proof -
  obtain evs where evs: "tcp_client_loop env leak_msg (c_atoi (argv ! 3)) 1 0 = (evs, None)"
      "wire_bytes evs = leak_run 0 (\<Sum>k = 1..nat (c_atoi (argv ! 3)). packet_size env k)"
    using tcp_client_loop_all_sent [OF assms(3)] by blast
  have "concat segs = leak_run 0 (\<Sum>k = 1..nat (c_atoi (argv ! 3)). packet_size env k)"
    using tcp_client_main_connected [OF assms(1,2)] evs assms(8) by (simp add: Let_def)
  then show ?thesis
    using tcp_server_connection [OF tcp_server_reach_inv [OF assms(4)] assms(5-7)] by auto
qed

theorem tcp_end_to_end_witness:
  "\<exists>s' out. tcp_server_run demo_server (connection_inputs 4 [leak_run 0 5, leak_run 1 4]) = Some s'
    \<and> ts_phase s' = Accepting \<and> ts_out s' = out @ [Sv_closed 0, Sv_close, Sv_free (replicate 4 0)]"
proof (rule tcp_end_to_end [OF _ _ _ demo_server_accepting])
  show "length demo_client_argv = 4" by (simp add: demo_client_argv_def)
  show "0 \<le> tc_connect demo_client_env
      (tcp_client_addr demo_client_env (demo_client_argv ! 1) (c_atoi (demo_client_argv ! 2)))"
    by (simp add: demo_client_env_def)
  show full: "full_writes demo_client_env" by (simp add: full_writes_def demo_client_env_def)
  have "leak_run 1 4 = leak_run (0 + 5) 4" by (rule leak_run_cong_mod) simp
  then have cat: "concat [leak_run 0 5, leak_run 1 4] = leak_run 0 9"
    using leak_run_append [of 0 5 4] by simp
  have "{1..nat 2} = {1, 2}" by auto
  then have sum: "(\<Sum>k = 1..nat 2. packet_size demo_client_env k) = 9"
    by (simp add: packet_size_def demo_client_env_def TCP_BUFSIZE_def)
  obtain evs where evs: "tcp_client_loop demo_client_env leak_msg 2 1 0 = (evs, None)"
      "wire_bytes evs = leak_run 0 9"
    using tcp_client_loop_all_sent [OF full, of 2] unfolding sum by blast
  have "wire_bytes (fst (tcp_client_main demo_client_env demo_client_argv)) = leak_run 0 9"
    using tcp_client_main_connected [of demo_client_argv demo_client_env] evs
    unfolding demo_client_argv_packets
    by (simp add: Let_def demo_client_env_def demo_client_argv_def)
  then show "concat [leak_run 0 5, leak_run 1 4]
      = wire_bytes (fst (tcp_client_main demo_client_env demo_client_argv))"
    using cat by simp
  show "valid_reads [leak_run 0 5, leak_run 1 4]"
    by (auto simp: valid_reads_def TCP_SERVER_BUFSIZE_def leak_run_def)
qed simp

text \<open>Two runs of the pattern agree everywhere or nowhere.\<close>

lemma leak_at_eq_iff: "leak_at p = leak_at q \<longleftrightarrow> p mod 4 = q mod 4"
proof -
  have "p mod 4 \<in> {0, 1, 2, 3}" and "q mod 4 \<in> {0, 1, 2, 3}" by auto
  then show ?thesis by (auto simp: leak_at_def leak_msg_def)
qed

lemma mod_4_Suc_eq_iff: "Suc p mod 4 = Suc q mod 4 \<longleftrightarrow> p mod 4 = q mod (4 :: nat)"
  by (simp add: mod_Suc)

lemma mismatches_runs: "mismatches p (leak_run q n) = (if p mod 4 = q mod 4 then 0 else n)"
  by (induction n arbitrary: p q) (simp_all add: leak_run_Suc leak_at_eq_iff mod_4_Suc_eq_iff)

text \<open>The client whose first \<^verbatim>\<open>write\<close> takes \<open>r\<close> bytes only.\<close>

definition short_first_write :: "tcp_client_env \<Rightarrow> nat \<Rightarrow> bool" where
  "short_first_write env r \<longleftrightarrow> (\<forall>k b. tc_write env k b = int (if k = 1 then min r (length b) else length b))"

lemma tcp_client_loop_short_write:
  assumes "short_first_write env r" and "r \<le> packet_size env 1" and "1 \<le> packets"
  shows "\<exists>evs. tcp_client_loop env leak_msg packets 1 0 = (evs, None)
    \<and> wire_bytes evs = leak_run 0 r
        @ leak_run (packet_size env 1) (\<Sum>k = 2..nat packets. packet_size env k)"
proof -
  let ?s = "packet_size env 1"
  have "\<forall>k b. nat 2 \<le> k \<longrightarrow> tc_write env k b = int (length b)"
    using assms(1) by (simp add: short_first_write_def)
  from tcp_client_loop_full_writes [OF this, of "?s mod 4" packets] assms(3) obtain evs where
    evs: "tcp_client_loop env leak_msg packets 2 (?s mod 4) = (evs, None)"
      "wire_bytes evs = leak_run ?s (\<Sum>k = 2..nat packets. packet_size env k)"
    by auto
  have w: "tc_write env (Suc 0) (leak_run 0 ?s) = int r"
    using assms(1,2) by (simp add: short_first_write_def)
  show ?thesis
    using evs w assms(2,3)
    by (simp add: tcp_client_loop.simps [of env leak_msg packets 1] tcp_client_fill_run
        packet_size_def [symmetric] Let_def take_leak_run)
qed

text \<open>A short \<^verbatim>\<open>write\<close> corrupts the measurement: the client ignores how much was
  written and goes on with the index of the whole packet. If only the first packet is written
  short, by a number of bytes that is not a multiple of four, the server counts every byte of
  all later packets as an error although the network delivered all bytes unchanged; if the
  number is a multiple of four, it notices nothing.\<close>

theorem tcp_short_write_errors:
  assumes "length argv = 4" and "0 \<le> tc_connect env (tcp_client_addr env (argv ! 1) (c_atoi (argv ! 2)))"
    and "1 \<le> c_atoi (argv ! 3)" and "short_first_write env r" and "r \<le> packet_size env 1"
    and "tcp_server_reach s" and "ts_phase s = Accepting" and "0 \<le> fd" and "valid_reads segs"
    and "concat segs = wire_bytes (fst (tcp_client_main env argv))"
  shows "\<exists>s' out. tcp_server_run s (connection_inputs fd segs) = Some s'
    \<and> ts_out s' = out @ [Sv_closed (sint (of_nat
          (if 4 dvd (packet_size env 1 - r) then 0
           else \<Sum>k = 2..nat (c_atoi (argv ! 3)). packet_size env k) :: c_int)),
        Sv_close, Sv_free (replicate 4 0)]"
proof -
  let ?n = "\<Sum>k = 2..nat (c_atoi (argv ! 3)). packet_size env k"
  from tcp_client_loop_short_write [OF assms(4,5,3)] obtain evs where
    evs: "tcp_client_loop env leak_msg (c_atoi (argv ! 3)) 1 0 = (evs, None)"
      "wire_bytes evs = leak_run 0 r @ leak_run (packet_size env 1) ?n" by blast
  have "concat segs = leak_run 0 r @ leak_run (packet_size env 1) ?n"
    using tcp_client_main_connected [OF assms(1,2)] evs assms(10) by (simp add: Let_def)
  moreover have "r mod 4 = packet_size env 1 mod 4 \<longleftrightarrow> 4 dvd (packet_size env 1 - r)"
    using mod_eq_dvd_iff_nat [OF assms(5), of 4] by auto
  ultimately have "mismatches 0 (concat segs) =
      (if 4 dvd (packet_size env 1 - r) then 0 else \<Sum>k = 2..nat (c_atoi (argv ! 3)). packet_size env k)"
    by (simp add: mismatches_append mismatches_runs)
  then show ?thesis
    using tcp_server_connection [OF tcp_server_reach_inv [OF assms(6)] assms(7-9)] by auto
qed

definition short_client_env :: tcp_client_env where
  "short_client_env = demo_client_env\<lparr>tc_write := (\<lambda>k b. int (if k = 1 then min 1 (length b) else length b))\<rparr>"

theorem tcp_short_write_errors_witness:
  "\<exists>s' out. tcp_server_run demo_server (connection_inputs 4 [leak_run 0 1, leak_run 3 6]) = Some s'
    \<and> ts_out s' = out @ [Sv_closed 6, Sv_close, Sv_free (replicate 4 0)]"
proof -
  let ?segs = "[leak_run 0 1, leak_run 3 6]"
  have short: "short_first_write short_client_env 1"
    by (simp add: short_first_write_def short_client_env_def)
  have size: "packet_size short_client_env 1 = 3" "packet_size short_client_env 2 = 6"
    by (simp_all add: packet_size_def short_client_env_def demo_client_env_def TCP_BUFSIZE_def)
  have two: "c_atoi (demo_client_argv ! 3) = 2" by (rule demo_client_argv_packets)
  have "\<exists>evs. tcp_client_loop short_client_env leak_msg 2 1 0 = (evs, None)
      \<and> wire_bytes evs = leak_run 0 1 @ leak_run 3 6"
    using tcp_client_loop_short_write [OF short, of 2] size by (simp del: One_nat_def)
  then have "wire_bytes (fst (tcp_client_main short_client_env demo_client_argv)) = concat ?segs"
    using tcp_client_main_connected [of demo_client_argv short_client_env] unfolding two
    by (auto simp: Let_def short_client_env_def demo_client_env_def demo_client_argv_def)
  moreover have "valid_reads ?segs" by (auto simp: valid_reads_def TCP_SERVER_BUFSIZE_def leak_run_def)
  ultimately show ?thesis
    using tcp_short_write_errors [OF _ _ _ short _ demo_server_accepting, of demo_client_argv 4 ?segs]
    unfolding two size
    by (simp add: demo_client_argv_def short_client_env_def demo_client_env_def size [unfolded short_client_env_def demo_client_env_def, simplified])
qed

text \<open>C34: End to end over datagrams: whatever datagrams of the client's run reach the server, in
  any order, some lost and some duplicated, the server reports no error for any of them, since
  each datagram is checked from the phase of its own first byte.\<close>

theorem udp_end_to_end:
  assumes "set ds \<subseteq> set (datagrams (fst (udp_client_main env argv)))" and "length argv = 4"
    and "udp_server_reach s" and "us_phase s = Receiving"
  shows "\<exists>s'. udp_server_run s (map Datagram ds) = Some s' \<and> us_phase s' = Receiving
    \<and> us_errors s' = us_errors s"
proof -
  have "d = leak_run 0 UDP_BUFSIZE" if "d \<in> set ds" for d
    using that assms(1,2) udp_client_loop_datagrams [where env = env and i = 1
        and addr = "udp_client_addr env (argv ! 1) (c_atoi (argv ! 2))" and packets = "c_atoi (argv ! 3)"]
    by (auto simp: udp_client_main_def udp_msg_bytes Let_def split_def split: option.splits)
  with assms(3,4) show ?thesis
  proof (induction ds arbitrary: s)
    case (Cons d ds)
    have d: "d = fst (udp_client_fill leak_msg 0 UDP_BUFSIZE)"
      using Cons.prems(3) by (simp add: udp.fill_run)
    have inv: "udp_server_inv s" by (rule udp_server_reach_inv [OF Cons.prems(1)])
    have "datagram_errors (us_msg_index s) d = 0"
      using inv unfolding d
      by (simp add: udp.fill_run datagram_errors_zero_iff udp_server_inv_def take_leak_run min.commute)
        blast
    then obtain s1 where s1: "udp_server_step s (Datagram d) = Some s1" "us_phase s1 = Receiving"
        "us_errors s1 = us_errors s"
      using udp_server_step_datagram [OF inv Cons.prems(2), of d] Cons.prems(2)
      by (auto simp del: udp_server_step.simps)
    have "udp_server_reach s1" using udp_server_reach.step [OF Cons.prems(1) s1(1)] .
    from Cons.IH [OF this s1(2)] Cons.prems(3) s1 show ?case by auto
  qed simp
qed

theorem udp_end_to_end_witness:
  "\<exists>s'. udp_server_run demo_udp_server (map Datagram [leak_run 0 64000]) = Some s'
    \<and> us_errors s' = 0"
proof -
  have three: "c_atoi (demo_udp_argv ! 3) = 3"
    by (simp add: demo_udp_argv_def c_atoi_def c_strtol10_def c_isspace_def c_isdigit_def)
  have "first_failure demo_udp_env addr 1 3 = Some 2" for addr
    by (simp add: first_failure_step demo_udp_env_def)
  then have "datagrams (fst (udp_client_main demo_udp_env demo_udp_argv)) = replicate 2 (leak_run 0 64000)"
    using udp_client_loop_datagrams [where env = demo_udp_env and i = 1 and packets = 3
        and addr = "udp_client_addr demo_udp_env (demo_udp_argv ! 1) (c_atoi (demo_udp_argv ! 2))"]
    unfolding three [symmetric]
    by (auto simp: three udp_client_main_def udp_msg_bytes UDP_BUFSIZE_def Let_def split_def
        demo_udp_argv_def [THEN arg_cong [where f = length]])
  then show ?thesis
    using udp_end_to_end [of "[leak_run 0 64000]" demo_udp_env demo_udp_argv demo_udp_server]
      demo_udp_server_receiving
    by (auto simp: demo_udp_argv_def demo_udp_server_def udp_server_start_def Let_def
        simp del: udp_server_run.simps)
qed

end
