(* ===== verification/Sslecho.thy ===== *)
theory Sslecho
  imports Leak_Pattern Tool_Libc "HOL-Library.Multiset"
begin

text \<open>
  \<^verbatim>\<open>src/tools/sslecho.c\<close>: a TLS echo server and a client that sends the
  pattern and reads it back. OpenSSL and the kernel are parameters: the record
  \<open>ssl_env\<close> holds what each call returns, and the echo server's calls, which repeat
  without bound, are the inputs of a step function. The actions of the program are a list of
  events; \<^verbatim>\<open>exit(status)\<close> inside a helper is the left value of a sum. Lines of
  constant text are the event \<open>Se_puts\<close>; the splash line holds the build date and is
  left out.
\<close>

section \<open>Actions, environment\<close>

datatype ssl_event =
    Se_puts string
  | Se_perror string
  | Se_err_print
  | Se_ctx_new bool "nat option"
  | Se_ctx_free "nat option"
  | Se_set_verify_peer
  | Se_socket int
  | Se_accepted int
  | Se_ssl_new "nat option"
  | Se_ssl_set_fd "nat option" int
  | Se_ssl_write "nat option" "byte list"
  | Se_received int
  | Se_read_returned int
  | Se_packet nat nat
  | Se_mismatch nat byte byte nat
  | Se_ssl_shutdown "nat option"
  | Se_ssl_free "nat option"
  | Se_close int
  | Se_totals u32 u32
  | Se_bzero string nat

record ssl_env =
  e_socket :: int
  e_setsockopt :: int
  e_bind :: "sockaddr_in \<Rightarrow> int"
  e_listen :: int
  e_ctx_new :: "bool \<Rightarrow> nat option"
  e_use_cert :: int
  e_use_key :: int
  e_load_verify :: int
  e_inet_pton :: "string \<Rightarrow> u32"
  e_connect :: "sockaddr_in \<Rightarrow> int"
  e_ssl_new :: "nat option"
  e_ssl_connect :: int
  e_random :: "nat \<Rightarrow> nat"
  e_ssl_write :: "nat \<Rightarrow> byte list \<Rightarrow> int"
  e_ssl_read :: "nat \<Rightarrow> int \<times> byte list"

text \<open>An action sequence that ends in \<^verbatim>\<open>exit(status)\<close> or in a value.\<close>

type_synonym 'a act = "ssl_event list \<times> (int + 'a)"

definition act_return :: "'a \<Rightarrow> 'a act" where "act_return x = ([], Inr x)"

definition act_fail :: "ssl_event list \<Rightarrow> 'a act" where "act_fail evs = (evs, Inl 1)"

definition act_bind :: "'a act \<Rightarrow> ('a \<Rightarrow> 'b act) \<Rightarrow> 'b act" where
  "act_bind m f = (case m of
       (evs, Inl st) \<Rightarrow> (evs, Inl st)
     | (evs, Inr x) \<Rightarrow> (case f x of (evs', r) \<Rightarrow> (evs @ evs', r)))"

definition act_emit :: "ssl_event list \<Rightarrow> unit act" where "act_emit evs = (evs, Inr ())"

section \<open>The helpers shared by client and server\<close>

definition server_port :: u16 where "server_port = 4433"

definition MAX_BUF_SIZE :: nat where "MAX_BUF_SIZE = 65536"

definition create_socket :: "ssl_env \<Rightarrow> bool \<Rightarrow> int act" where
  "create_socket env isServer =
     (let s = e_socket env
      in if s < 0 then act_fail [Se_socket s, Se_perror ''Unable to create socket'']
         else if isServer then
           let addr = \<lparr>sin_family = AF_INET, sin_port = htons server_port, sin_addr = INADDR_ANY\<rparr>
           in if e_setsockopt env < 0
              then act_fail [Se_socket s, Se_perror ''setsockopt(SO_REUSEADDR) failed'']
              else if e_bind env addr < 0 then act_fail [Se_socket s, Se_perror ''Unable to bind'']
              else if e_listen env < 0 then act_fail [Se_socket s, Se_perror ''Unable to listen'']
              else ([Se_socket s], Inr s)
         else ([Se_socket s], Inr s))"

definition create_context :: "ssl_env \<Rightarrow> bool \<Rightarrow> nat option act" where
  "create_context env isServer =
     (let ctx = e_ctx_new env isServer
      in if ctx = None
         then act_fail [Se_ctx_new isServer ctx, Se_perror ''Unable to create SSL context'', Se_err_print]
         else ([Se_ctx_new isServer ctx], Inr ctx))"

definition configure_server_context :: "ssl_env \<Rightarrow> unit act" where
  "configure_server_context env =
     (if e_use_cert env \<le> 0 then act_fail [Se_err_print]
      else if e_use_key env \<le> 0 then act_fail [Se_err_print]
      else act_return ())"

definition configure_client_context :: "ssl_env \<Rightarrow> unit act" where
  "configure_client_context env =
     (if e_load_verify env = 0 then act_fail [Se_set_verify_peer, Se_err_print]
      else act_emit [Se_set_verify_peer])"

definition ssl_usage :: "'a act" where
  "ssl_usage = act_fail [Se_puts ''Usage: sslecho s'', Se_puts ''       --or--'',
     Se_puts ''       sslecho c ip'', Se_puts ''       c=client, s=server, ip=dotted ip of server'']"

text \<open>The code after the label \<^verbatim>\<open>exit\<close>.\<close>

definition close_up :: "nat option \<Rightarrow> nat option \<Rightarrow> int \<Rightarrow> int \<Rightarrow> ssl_event list" where
  "close_up ssl ssl_ctx client_skt server_skt =
     [Se_bzero ''rxbuf'' MAX_BUF_SIZE, Se_bzero ''txbuf'' MAX_BUF_SIZE]
     @ (if ssl \<noteq> None then [Se_ssl_shutdown ssl, Se_ssl_free ssl] else [])
     @ [Se_ctx_free ssl_ctx]
     @ (if client_skt \<noteq> -1 then [Se_close client_skt] else [])
     @ (if server_skt \<noteq> -1 then [Se_close server_skt] else [])
     @ [Se_puts ''sslecho exiting'']"

section \<open>The echo server\<close>

datatype ssl_phase =
    Sp_accept | Sp_ssl_accept | Sp_read | Sp_write "byte list" | Sp_exited int

text \<open>
  Returning calls: \<open>In_accept fd ssl\<close> is \<^verbatim>\<open>accept\<close> and the
  \<^verbatim>\<open>SSL_new\<close> that follows it; \<open>In_read n bs\<close> is \<^verbatim>\<open>SSL_read\<close>
  returning \<open>n\<close> with \<open>bs\<close> stored when \<open>n\<close> is positive.
\<close>

datatype ssl_input = In_accept int "nat option" | In_ssl_accept int | In_read int "byte list" | In_write int

record ssl_server =
  ss_phase :: ssl_phase
  ss_running :: bool
  ss_ctx :: "nat option"
  ss_ssl :: "nat option"
  ss_client_skt :: int
  ss_server_skt :: int
  ss_trace :: "ssl_event list"

definition ss_emit :: "ssl_event list \<Rightarrow> ssl_server \<Rightarrow> ssl_server" where
  "ss_emit evs s = s\<lparr>ss_trace := ss_trace s @ evs\<rparr>"

text \<open>
  The end of the outer loop's body and its condition: cleanup for the next client while
  the server is running, otherwise the code after the loop and the label.
\<close>

definition ssl_server_next :: "ssl_server \<Rightarrow> ssl_server" where
  "ssl_server_next s =
     (if ss_running s
      then (ss_emit [Se_ssl_shutdown (ss_ssl s), Se_ssl_free (ss_ssl s), Se_close (ss_client_skt s)] s)
             \<lparr>ss_phase := Sp_accept\<rparr>
      else (ss_emit (Se_puts ''Server exiting...''
                     # close_up (ss_ssl s) (ss_ctx s) (ss_client_skt s) (ss_server_skt s)) s)
             \<lparr>ss_phase := Sp_exited 0\<rparr>)"

fun ssl_server_step :: "ssl_server \<Rightarrow> ssl_input \<Rightarrow> ssl_server option" where
  "ssl_server_step s (In_accept fd ssl) =
     (if ss_phase s \<noteq> Sp_accept then None
      else if fd < 0
      then Some ((ss_emit [Se_perror ''Unable to accept''] s)
                   \<lparr>ss_client_skt := fd, ss_phase := Sp_exited 1\<rparr>)
      else Some ((ss_emit [Se_accepted fd, Se_puts ''Client TCP connection accepted'',
                           Se_ssl_new ssl, Se_ssl_set_fd ssl fd] s)
                   \<lparr>ss_client_skt := fd, ss_ssl := ssl, ss_phase := Sp_ssl_accept\<rparr>))"
| "ssl_server_step s (In_ssl_accept r) =
     (if ss_phase s \<noteq> Sp_ssl_accept then None
      else if r \<le> 0 then Some (ssl_server_next ((ss_emit [Se_err_print] s)\<lparr>ss_running := False\<rparr>))
      else Some ((ss_emit [Se_puts ''Client SSL connection accepted''] s)\<lparr>ss_phase := Sp_read\<rparr>))"
| "ssl_server_step s (In_read rxlen rxbuf) =
     (if ss_phase s \<noteq> Sp_read \<or> (0 < rxlen \<and> rxlen \<noteq> int (length rxbuf)) \<or> MAX_BUF_SIZE < length rxbuf
      then None
      else if rxlen \<le> 0
      then Some (ssl_server_next (ss_emit
             [if rxlen = 0 then Se_puts ''Client closed connection'' else Se_read_returned rxlen,
              Se_err_print] s))
      else Some ((ss_emit [Se_received rxlen, Se_ssl_write (ss_ssl s) rxbuf] s)
                   \<lparr>ss_phase := Sp_write rxbuf\<rparr>))"
| "ssl_server_step s (In_write r) =
     (case ss_phase s of
        Sp_write rxbuf \<Rightarrow>
          Some ((if r \<le> 0 then ss_emit [Se_err_print] s else s)\<lparr>ss_phase := Sp_read\<rparr>)
      | _ \<Rightarrow> None)"

fun ssl_server_run :: "ssl_server \<Rightarrow> ssl_input list \<Rightarrow> ssl_server option" where
  "ssl_server_run s [] = Some s"
| "ssl_server_run s (x # xs) =
     (case ssl_server_step s x of None \<Rightarrow> None | Some s' \<Rightarrow> ssl_server_run s' xs)"

text \<open>The server's branch of \<^verbatim>\<open>main\<close> up to its loop.\<close>

definition ssl_server_start :: "ssl_env \<Rightarrow> ssl_server" where
  "ssl_server_start env =
     (let (evs, r) =
        act_bind (create_context env True) (\<lambda>ctx.
        act_bind (act_emit [Se_puts ''We are the server on port: 4433'']) (\<lambda>_.
        act_bind (configure_server_context env) (\<lambda>_.
        act_bind (create_socket env True) (\<lambda>skt. act_return (ctx, skt)))))
      in case r of
           Inl st \<Rightarrow> \<lparr>ss_phase = Sp_exited st, ss_running = True, ss_ctx = None, ss_ssl = None,
                      ss_client_skt = -1, ss_server_skt = -1, ss_trace = evs\<rparr>
         | Inr (ctx, skt) \<Rightarrow>
                     \<lparr>ss_phase = Sp_accept, ss_running = True, ss_ctx = ctx, ss_ssl = None,
                      ss_client_skt = -1, ss_server_skt = skt, ss_trace = evs\<rparr>)"

inductive ssl_server_reach :: "ssl_env \<Rightarrow> ssl_server \<Rightarrow> bool" for env where
  start: "ssl_server_reach env (ssl_server_start env)"
| step: "ssl_server_reach env s \<Longrightarrow> ssl_server_step s x = Some s' \<Longrightarrow> ssl_server_reach env s'"

section \<open>Resources of the server\<close>

text \<open>
  Descriptors and SSL objects as multisets over the trace: the kernel may hand out a
  number again once it is closed. A null SSL object is no resource.
\<close>

fun opened_fds :: "ssl_event list \<Rightarrow> int multiset" where
  "opened_fds [] = {#}"
| "opened_fds (Se_accepted fd # evs) = add_mset fd (opened_fds evs)"
| "opened_fds (Se_socket fd # evs) = add_mset fd (opened_fds evs)"
| "opened_fds (_ # evs) = opened_fds evs"

fun closed_fds :: "ssl_event list \<Rightarrow> int multiset" where
  "closed_fds [] = {#}"
| "closed_fds (Se_close fd # evs) = add_mset fd (closed_fds evs)"
| "closed_fds (_ # evs) = closed_fds evs"

fun new_ssls :: "ssl_event list \<Rightarrow> nat multiset" where
  "new_ssls [] = {#}"
| "new_ssls (Se_ssl_new (Some h) # evs) = add_mset h (new_ssls evs)"
| "new_ssls (_ # evs) = new_ssls evs"

fun freed_ssls :: "ssl_event list \<Rightarrow> nat multiset" where
  "freed_ssls [] = {#}"
| "freed_ssls (Se_ssl_free (Some h) # evs) = add_mset h (freed_ssls evs)"
| "freed_ssls (_ # evs) = freed_ssls evs"

lemma opened_fds_append [simp]: "opened_fds (xs @ ys) = opened_fds xs + opened_fds ys"
  by (induction xs rule: opened_fds.induct) simp_all

lemma closed_fds_append [simp]: "closed_fds (xs @ ys) = closed_fds xs + closed_fds ys"
  by (induction xs rule: closed_fds.induct) simp_all

lemma new_ssls_append [simp]: "new_ssls (xs @ ys) = new_ssls xs + new_ssls ys"
  by (induction xs rule: new_ssls.induct) simp_all

lemma freed_ssls_append [simp]: "freed_ssls (xs @ ys) = freed_ssls xs + freed_ssls ys"
  by (induction xs rule: freed_ssls.induct) simp_all

text \<open>What the program still owes to the kernel and to OpenSSL in each phase.\<close>

definition in_connection :: "ssl_phase \<Rightarrow> bool" where
  "in_connection p \<longleftrightarrow> (case p of Sp_ssl_accept \<Rightarrow> True | Sp_read \<Rightarrow> True | Sp_write _ \<Rightarrow> True | _ \<Rightarrow> False)"

definition ssl_handles :: "nat option \<Rightarrow> nat multiset" where
  "ssl_handles h = (case h of None \<Rightarrow> {#} | Some x \<Rightarrow> {#x#})"

definition ssl_server_inv :: "ssl_server \<Rightarrow> bool" where
  "ssl_server_inv s \<longleftrightarrow> (case ss_phase s of
       Sp_exited st \<Rightarrow> closed_fds (ss_trace s) \<subseteq># opened_fds (ss_trace s)
         \<and> freed_ssls (ss_trace s) \<subseteq># new_ssls (ss_trace s)
         \<and> (st = 0 \<longrightarrow>
              opened_fds (ss_trace s) = closed_fds (ss_trace s) \<and> new_ssls (ss_trace s) = freed_ssls (ss_trace s))
     | p \<Rightarrow> ss_running s \<and> 0 \<le> ss_server_skt s
         \<and> (in_connection p \<longrightarrow> 0 \<le> ss_client_skt s)
         \<and> opened_fds (ss_trace s) = closed_fds (ss_trace s) + {#ss_server_skt s#}
             + (if in_connection p then {#ss_client_skt s#} else {#})
         \<and> new_ssls (ss_trace s) = freed_ssls (ss_trace s)
             + (if in_connection p then ssl_handles (ss_ssl s) else {#}))"

lemmas act_defs = act_bind_def act_emit_def act_return_def act_fail_def

lemmas ssl_start_defs = create_context_def create_socket_def configure_server_context_def
  ssl_server_start_def

lemma ssl_server_inv_start: "ssl_server_inv (ssl_server_start env)"
  by (auto simp: ssl_server_inv_def ssl_start_defs act_defs in_connection_def Let_def
      split: sum.splits if_splits option.splits)

lemma freed_ssls_handle: "freed_ssls (Se_ssl_free h # evs) = ssl_handles h + freed_ssls evs"
  by (cases h) (simp_all add: ssl_handles_def)

lemma new_ssls_handle: "new_ssls (Se_ssl_new h # evs) = ssl_handles h + new_ssls evs"
  by (cases h) (simp_all add: ssl_handles_def)

text \<open>
  The invariant with the phase known: idle (blocked in \<^verbatim>\<open>accept\<close>), within a
  connection, or exited.
\<close>

definition nothing_twice :: "ssl_server \<Rightarrow> bool" where
  "nothing_twice s \<longleftrightarrow> closed_fds (ss_trace s) \<subseteq># opened_fds (ss_trace s)
     \<and> freed_ssls (ss_trace s) \<subseteq># new_ssls (ss_trace s)"

definition balance :: "ssl_server \<Rightarrow> int multiset \<Rightarrow> nat multiset \<Rightarrow> bool" where
  "balance s fds hs \<longleftrightarrow> opened_fds (ss_trace s) = closed_fds (ss_trace s) + fds
     \<and> new_ssls (ss_trace s) = freed_ssls (ss_trace s) + hs"

lemma ssl_server_inv_phase:
  "ss_phase s = Sp_accept \<Longrightarrow> ssl_server_inv s \<longleftrightarrow>
     ss_running s \<and> 0 \<le> ss_server_skt s \<and> balance s {#ss_server_skt s#} {#}"
  "in_connection (ss_phase s) \<Longrightarrow> ssl_server_inv s \<longleftrightarrow>
     ss_running s \<and> 0 \<le> ss_server_skt s \<and> 0 \<le> ss_client_skt s
     \<and> balance s {#ss_server_skt s, ss_client_skt s#} (ssl_handles (ss_ssl s))"
  "ss_phase s = Sp_exited st \<Longrightarrow> ssl_server_inv s \<longleftrightarrow> nothing_twice s \<and> (st = 0 \<longrightarrow> balance s {#} {#})"
  by (auto simp: ssl_server_inv_def in_connection_def balance_def nothing_twice_def split: ssl_phase.splits)

lemma balance_nothing_twice: "balance s fds hs \<Longrightarrow> nothing_twice s"
  by (simp add: balance_def nothing_twice_def)

lemma in_connection_simps [simp]:
  "in_connection Sp_ssl_accept" "in_connection Sp_read" "in_connection (Sp_write b)"
  "\<not> in_connection Sp_accept" "\<not> in_connection (Sp_exited st)"
  by (simp_all add: in_connection_def)

text \<open>Leaving a connection, to the next client or to the exit, settles the account.\<close>

lemma ssl_server_next_inv:
  assumes "0 \<le> ss_server_skt s" and "0 \<le> ss_client_skt s"
    and "balance s {#ss_server_skt s, ss_client_skt s#} (ssl_handles (ss_ssl s))"
  shows "ssl_server_inv (ssl_server_next s)"
proof (cases "ss_running s")
  case True
  then show ?thesis using assms
    by (simp add: ssl_server_next_def ssl_server_inv_phase(1) balance_def ss_emit_def freed_ssls_handle
        del: freed_ssls.simps(2))
next
  case False
  have "balance (ssl_server_next s) {#} {#}" using assms False
    by (cases "ss_ssl s") (simp_all add: ssl_server_next_def balance_def ss_emit_def close_up_def
        ssl_handles_def)
  moreover have "ss_phase (ssl_server_next s) = Sp_exited 0"
    using False by (simp add: ssl_server_next_def)
  ultimately show ?thesis by (simp add: ssl_server_inv_phase(3) balance_nothing_twice)
qed

lemma ssl_server_inv_step:
  assumes st: "ssl_server_step s x = Some s'" and inv: "ssl_server_inv s"
  shows "ssl_server_inv s'"
proof (cases x)
  case (In_accept fd h)
  then have ph: "ss_phase s = Sp_accept" using st by (simp split: if_splits)
  show ?thesis
  proof (cases "fd < 0")
    case True
    then have "ss_phase s' = Sp_exited 1" using st ph In_accept by auto
    moreover have "nothing_twice s'" using True st ph In_accept inv
      by (auto simp: ssl_server_inv_phase(1) balance_def nothing_twice_def ss_emit_def)
    ultimately show ?thesis by (simp add: ssl_server_inv_phase(3))
  next
    case False
    then show ?thesis using st ph In_accept inv
      by (auto simp: ssl_server_inv_phase(1,2) balance_def ss_emit_def new_ssls_handle
          simp del: new_ssls.simps(2))
  qed
next
  case (In_ssl_accept r)
  then have ph: "ss_phase s = Sp_ssl_accept" using st by (simp split: if_splits)
  then show ?thesis using st In_ssl_accept inv
    by (auto simp: ssl_server_inv_phase(2) balance_def ss_emit_def split: if_splits
        intro!: ssl_server_next_inv)
next
  case (In_read n bs)
  then have ph: "ss_phase s = Sp_read" using st by (simp split: if_splits)
  then show ?thesis using st In_read inv
    by (auto simp: ssl_server_inv_phase(2) balance_def ss_emit_def split: if_splits
        intro!: ssl_server_next_inv)
next
  case (In_write r)
  then obtain b where ph: "ss_phase s = Sp_write b" using st by (auto split: ssl_phase.splits)
  then show ?thesis using st In_write inv
    by (auto simp: ssl_server_inv_phase(2) balance_def ss_emit_def)
qed

lemma ssl_server_reach_inv: "ssl_server_reach env s \<Longrightarrow> ssl_server_inv s"
  by (induction rule: ssl_server_reach.induct) (auto intro: ssl_server_inv_start ssl_server_inv_step)

section \<open>The echo: what is written is what was read\<close>

fun written :: "ssl_event list \<Rightarrow> byte list list" where
  "written [] = []"
| "written (Se_ssl_write h b # evs) = b # written evs"
| "written (_ # evs) = written evs"

fun received :: "ssl_input list \<Rightarrow> byte list list" where
  "received [] = []"
| "received (In_read n b # xs) = (if 0 < n then b # received xs else received xs)"
| "received (_ # xs) = received xs"

lemma written_append [simp]: "written (xs @ ys) = written xs @ written ys"
  by (induction xs rule: written.induct) simp_all

lemma written_close_up [simp]: "written (close_up a b c d) = []"
  by (simp add: close_up_def)

lemma ssl_server_step_written:
  "ssl_server_step s x = Some s' \<Longrightarrow> written (ss_trace s') = written (ss_trace s) @ received [x]"
  by (cases x) (auto simp: ss_emit_def ssl_server_next_def split: if_splits ssl_phase.splits)

lemma received_Cons: "received (x # xs) = received [x] @ received xs"
  by (cases x) simp_all

lemma ssl_server_run_written:
  "ssl_server_run s xs = Some s' \<Longrightarrow> written (ss_trace s') = written (ss_trace s) @ received xs"
proof (induction xs arbitrary: s)
  case (Cons x xs)
  from Cons.prems obtain s1 where s1: "ssl_server_step s x = Some s1" "ssl_server_run s1 xs = Some s'"
    by (auto split: option.splits)
  have "written (ss_trace s') = written (ss_trace s1) @ received xs" by (rule Cons.IH [OF s1(2)])
  then show ?case
    unfolding received_Cons [of x xs] by (simp add: ssl_server_step_written [OF s1(1)])
qed simp

section \<open>Properties\<close>

text \<open>C32: In every reachable state of the echo server, the exits with status 1 after a failed call
  included, no descriptor and no SSL object has been
  released more often than it was obtained, and once the server exits through the end of
  \<^verbatim>\<open>main\<close> (status 0) every descriptor and SSL object it ever obtained has been released
  exactly once: no leak, no double close and no double free, on every sequence of clients,
  handshake failures and read errors.\<close>

theorem ssl_server_releases_all:
  assumes "ssl_server_reach env s"
  shows "closed_fds (ss_trace s) \<subseteq># opened_fds (ss_trace s) \<and> freed_ssls (ss_trace s) \<subseteq># new_ssls (ss_trace s)
    \<and> (ss_phase s = Sp_exited 0 \<longrightarrow>
        closed_fds (ss_trace s) = opened_fds (ss_trace s)
        \<and> freed_ssls (ss_trace s) = new_ssls (ss_trace s))"
proof -
  note inv = ssl_server_reach_inv [OF assms]
  have "nothing_twice s \<and> (ss_phase s = Sp_exited 0 \<longrightarrow> balance s {#} {#})"
  proof (cases "in_connection (ss_phase s)")
    case True
    then show ?thesis using inv balance_nothing_twice by (auto simp: ssl_server_inv_phase(2))
  next
    case False
    then show ?thesis using inv balance_nothing_twice
      by (cases "ss_phase s") (auto simp: ssl_server_inv_phase(1,3))
  qed
  then show ?thesis by (simp add: balance_def nothing_twice_def)
qed

text \<open>A server that serves one client and stops at the failing handshake of the second.\<close>

definition demo_server_env :: ssl_env where
  "demo_server_env = \<lparr>e_socket = 3, e_setsockopt = 0, e_bind = (\<lambda>_. 0), e_listen = 0,
     e_ctx_new = (\<lambda>_. Some 7), e_use_cert = 1, e_use_key = 1, e_load_verify = 1,
     e_inet_pton = (\<lambda>_. 0), e_connect = (\<lambda>_. 0), e_ssl_new = Some 9, e_ssl_connect = 1,
     e_random = (\<lambda>_. 0), e_ssl_write = (\<lambda>_ b. int (length b)), e_ssl_read = (\<lambda>_. (0, []))\<rparr>"

definition demo_server_inputs :: "ssl_input list" where
  "demo_server_inputs = [In_accept 4 (Some 9), In_ssl_accept 1, In_read 4 leak_msg, In_write 4,
     In_read 0 [], In_accept 4 (Some 9), In_ssl_accept (-1)]"

lemma ssl_server_reach_run:
  "ssl_server_reach env s \<Longrightarrow> ssl_server_run s xs = Some s' \<Longrightarrow> ssl_server_reach env s'"
  by (induction xs arbitrary: s) (auto split: option.splits intro: ssl_server_reach.step)

lemma demo_server_run:
  "map_option ss_phase (ssl_server_run (ssl_server_start demo_server_env) demo_server_inputs)
     = Some (Sp_exited 0)"
  by (simp add: demo_server_inputs_def demo_server_env_def ssl_start_defs act_defs ss_emit_def
      ssl_server_next_def leak_msg_def MAX_BUF_SIZE_def Let_def)

theorem ssl_server_releases_all_witness:
  "\<exists>s. ssl_server_reach demo_server_env s \<and> ss_phase s = Sp_exited 0
     \<and> closed_fds (ss_trace s) = opened_fds (ss_trace s)
     \<and> freed_ssls (ss_trace s) = new_ssls (ss_trace s)"
proof -
  obtain s where s: "ssl_server_run (ssl_server_start demo_server_env) demo_server_inputs = Some s"
      "ss_phase s = Sp_exited 0"
    using demo_server_run by auto
  have "ssl_server_reach demo_server_env s"
    by (rule ssl_server_reach_run [OF ssl_server_reach.start s(1)])
  then show ?thesis using s(2) ssl_server_releases_all by blast
qed

text \<open>The echo server echoes: whatever the sequence of clients, handshakes, reads and
  writes, the byte strings it hands to \<^verbatim>\<open>SSL_write\<close> are, in order and in full, the byte
  strings that \<^verbatim>\<open>SSL_read\<close> delivered.\<close>

theorem ssl_server_echoes:
  assumes "ssl_server_run (ssl_server_start env) xs = Some s"
  shows "written (ss_trace s) = received xs"
proof -
  have "written (ss_trace (ssl_server_start env)) = []"
    by (auto simp: ssl_start_defs act_defs Let_def split: sum.splits if_splits option.splits)
  then show ?thesis using ssl_server_run_written [OF assms] by simp
qed

theorem ssl_server_echoes_witness:
  "\<exists>s. ssl_server_run (ssl_server_start demo_server_env) demo_server_inputs = Some s
     \<and> written (ss_trace s) = [leak_msg]"
proof -
  obtain s where s: "ssl_server_run (ssl_server_start demo_server_env) demo_server_inputs = Some s"
    using demo_server_run by auto
  then show ?thesis
    using ssl_server_echoes [OF s] by (simp add: demo_server_inputs_def)
qed

end
