(* ===== verification/Sslecho_Client.thy ===== *)
theory Sslecho_Client
  imports Sslecho
begin

text \<open>
  The client of \<^verbatim>\<open>src/tools/sslecho.c\<close>: its branch of \<^verbatim>\<open>main\<close>,
  the packet loop, the loop that reads the outstanding bytes, and the choice of the role.
\<close>

section \<open>The client\<close>

definition ssl_msg :: "byte list" where
  "ssl_msg = [0x78, 0x78, 0x4c, 0x45, 0x41, 0x4b, 0x78, 0x78]"

text \<open>\<open>txbuf[i] = msg[2 + (i % 4)]\<close> for the first \<open>n\<close> bytes.\<close>

definition ssl_fill :: "byte list \<Rightarrow> nat \<Rightarrow> byte list" where
  "ssl_fill msg n = map (\<lambda>i. msg ! (2 + i mod 4)) [0..<n]"

text \<open>
  The comparison loop, from index \<open>j\<close>, \<open>n\<close> times. It compares with \<open>txbuf\<close>,
  the buffer the client sent from.
\<close>

fun ssl_check :: "byte list \<Rightarrow> byte list \<Rightarrow> nat \<Rightarrow> nat \<Rightarrow> nat \<Rightarrow> ssl_event list \<times> nat" where
  "ssl_check msg txbuf msg_idx j 0 = ([], msg_idx)"
| "ssl_check msg txbuf msg_idx j (Suc n) =
     (let (evs, idx') = ssl_check msg txbuf ((msg_idx + 1) mod 4) (j + 1) n
      in ((if msg ! (2 + msg_idx) \<noteq> txbuf ! j
           then [Se_mismatch msg_idx (msg ! (2 + msg_idx)) (txbuf ! j) j] else []) @ evs, idx'))"

text \<open>\<open>sc_reads\<close> counts the calls of \<^verbatim>\<open>SSL_read\<close>, to index the environment.\<close>

record ssl_client =
  sc_sent :: u32
  sc_received :: u32
  sc_msg_idx :: nat
  sc_reads :: nat

text \<open>\<open>txlen = (random() & ~0xf) % (MAX_BUF_SIZE/2)\<close>\<close>

definition ssl_txlen :: "ssl_env \<Rightarrow> nat \<Rightarrow> nat" where
  "ssl_txlen env i = unat ((of_nat (e_random env i) :: u64) AND NOT 0xf) mod (MAX_BUF_SIZE div 2)"

text \<open>
  One \<^verbatim>\<open>SSL_read\<close> with the code that follows it; the flag is \<open>True\<close> where
  the code breaks out of its loop.
\<close>

definition ssl_client_read ::
  "ssl_env \<Rightarrow> byte list \<Rightarrow> byte list \<Rightarrow> ssl_client \<Rightarrow> ssl_event list \<times> ssl_client \<times> bool" where
  "ssl_client_read env msg txbuf c =
     (let rxlen = fst (e_ssl_read env (sc_reads c));
          c1 = c\<lparr>sc_reads := sc_reads c + 1\<rparr>
      in if rxlen \<le> 0 then ([Se_puts ''Server closed connection'', Se_err_print], c1, True)
         else let (evs, idx) = ssl_check msg txbuf (sc_msg_idx c) 0 (nat rxlen)
              in (Se_received rxlen # evs,
                  c1\<lparr>sc_received := sc_received c + word_of_int rxlen, sc_msg_idx := idx\<rparr>, False))"

text \<open>The loop over 100 packets.\<close>

function ssl_client_packets ::
  "ssl_env \<Rightarrow> byte list \<Rightarrow> byte list \<Rightarrow> nat option \<Rightarrow> nat \<Rightarrow> ssl_client \<Rightarrow> ssl_event list \<times> ssl_client" where
  "ssl_client_packets env msg txbuf ssl i c =
     (if i < 100 then
        let txlen = ssl_txlen env i;
            c1 = c\<lparr>sc_sent := sc_sent c + of_nat txlen\<rparr>;
            evs0 = [Se_packet i txlen, Se_ssl_write ssl (take txlen txbuf)]
        in if e_ssl_write env i (take txlen txbuf) \<le> 0
           then (evs0 @ [Se_puts ''Server closed connection'', Se_err_print], c1)
           else let (evs1, c2, brk) = ssl_client_read env msg txbuf c1
                in if brk then (evs0 @ Se_puts ''start read'' # evs1, c2)
                   else let (evs2, c3) = ssl_client_packets env msg txbuf ssl (i + 1) c2
                        in (evs0 @ Se_puts ''start read'' # evs1 @ evs2, c3)
      else ([], c))"
  by pat_completeness auto
termination
  by (relation "measure (\<lambda>(env, msg, txbuf, ssl, i, c). 100 - i)") auto

declare ssl_client_packets.simps [simp del]

text \<open>The loop that reads what is still missing; \<open>None\<close> if it never ends.\<close>

partial_function (option) ssl_client_drain ::
  "ssl_env \<Rightarrow> byte list \<Rightarrow> byte list \<Rightarrow> ssl_event list \<Rightarrow> ssl_client
    \<Rightarrow> (ssl_event list \<times> ssl_client) option" where
  "ssl_client_drain env msg txbuf evs c =
     (if sc_received c < sc_sent c then
        let (evs1, c1, brk) = ssl_client_read env msg txbuf c
        in if brk then Some (evs @ evs1, c1)
           else ssl_client_drain env msg txbuf (evs @ evs1) c1
      else Some (evs, c))"

text \<open>The client's branch of \<^verbatim>\<open>main\<close>, the label included.\<close>

definition ssl_client_session :: "ssl_env \<Rightarrow> nat option \<Rightarrow> ssl_event list option" where
  "ssl_client_session env ssl =
     (if e_ssl_connect env = 1 then
        let msg = ssl_msg; txbuf = ssl_fill msg MAX_BUF_SIZE;
            (evs, c) = ssl_client_packets env msg txbuf ssl 0
                \<lparr>sc_sent = 0, sc_received = 0, sc_msg_idx = 0, sc_reads = 0\<rparr>
        in map_option (\<lambda>(evs', c'). Se_puts ''SSL connection to server successful'' # evs'
               @ [Se_totals (sc_sent c') (sc_received c'), Se_bzero ''msg'' 8])
             (ssl_client_drain env msg txbuf evs c)
      else Some [Se_puts ''SSL connection to server failed'', Se_err_print])"

definition ssl_client_main :: "ssl_env \<Rightarrow> string \<Rightarrow> (ssl_event list \<times> int) option" where
  "ssl_client_main env rem_server_ip =
     (let (evs, r) =
        act_bind (create_context env False) (\<lambda>ctx.
        act_bind (act_emit [Se_puts ''We are the client'']) (\<lambda>_.
        act_bind (configure_client_context env) (\<lambda>_.
        act_bind (create_socket env False) (\<lambda>skt. act_return (ctx, skt)))))
      in case r of
           Inl st \<Rightarrow> Some (evs, st)
         | Inr (ctx, skt) \<Rightarrow>
             let addr = \<lparr>sin_family = AF_INET, sin_port = htons server_port,
                         sin_addr = e_inet_pton env rem_server_ip\<rparr>
             in if e_connect env addr \<noteq> 0
                then Some (evs @ Se_perror ''Unable to TCP connect to server''
                             # close_up None ctx skt (- 1), 0)
                else let ssl = e_ssl_new env
                     in map_option (\<lambda>evs1. (evs @ Se_puts ''TCP connection to server successful''
                            # Se_ssl_new ssl # Se_ssl_set_fd ssl skt # evs1 @ close_up ssl ctx skt (- 1), 0))
                          (ssl_client_session env ssl))"

text \<open>
  \<^verbatim>\<open>main\<close> up to the choice of the role; the missing first character of an empty
  argument is its terminating NUL.
\<close>

datatype ssl_role = Role_usage "ssl_event list" int | Role_server | Role_client string

definition sslecho_role :: "string list \<Rightarrow> ssl_role" where
  "sslecho_role argv =
     (if length argv < 2
      then case ssl_usage of (evs, Inl st) \<Rightarrow> Role_usage evs st | (evs, Inr u) \<Rightarrow> Role_usage evs u
      else if argv ! 1 \<noteq> [] \<and> hd (argv ! 1) = CHR ''s'' then Role_server
      else if length argv \<noteq> 3
      then case ssl_usage of (evs, Inl st) \<Rightarrow> Role_usage evs st | (evs, Inr u) \<Rightarrow> Role_usage evs u
      else Role_client (argv ! 2))"

section \<open>Properties of the client's loops\<close>

lemma ssl_fill_leak: "ssl_fill ssl_msg n = leak_run 0 n"
proof -
  have "ssl_msg ! (2 + i mod 4) = leak_at i" for i
  proof -
    have "i mod 4 \<in> {0, 1, 2, 3}" by auto
    then show ?thesis by (auto simp: ssl_msg_def leak_at_def leak_msg_def)
  qed
  then show ?thesis by (simp add: ssl_fill_def leak_run_def)
qed

lemma ssl_msg_leak: "i < 4 \<Longrightarrow> ssl_msg ! (2 + i) = leak_at i"
proof -
  assume "i < 4"
  then have "i \<in> {0, 1, 2, 3}" by auto
  then show ?thesis by (auto simp: ssl_msg_def leak_at_def leak_msg_def)
qed

text \<open>\<open>txlen\<close> is a multiple of 16 below half the buffer.\<close>

lemma ssl_txlen_bounds: "ssl_txlen env i < 32768 \<and> 16 dvd ssl_txlen env i"
proof -
  let ?w = "(of_nat (e_random env i) :: u64) AND NOT 0xf"
  have "(0xf :: u64) = mask 4" by (simp add: mask_eq_exp_minus_1)
  then have "take_bit 4 ?w = 0"
    by (intro bit_word_eqI) (auto simp: bit_simps)
  then have "unat ?w mod 2 ^ 4 = 0"
    by (metis unat_0 take_bit_eq_mod unsigned_take_bit_eq)
  then have "16 dvd unat ?w" by (simp add: dvd_eq_mod_eq_0)
  then show ?thesis by (simp add: ssl_txlen_def MAX_BUF_SIZE_def dvd_mod)
qed

lemma ssl_check_idx: "idx < 4 \<Longrightarrow> snd (ssl_check msg txbuf idx j n) = (idx + n) mod 4"
  by (induction n arbitrary: idx j) (simp_all add: split_def mod_simps)

text \<open>In phase with the buffer, the comparison reports nothing.\<close>

lemma ssl_check_silent:
  assumes "idx = j mod 4" and "j + n \<le> m"
  shows "fst (ssl_check ssl_msg (leak_run 0 m) idx j n) = []"
  using assms
proof (induction n arbitrary: idx j)
  case (Suc n)
  have "leak_run 0 m ! j = leak_at j" using Suc.prems by (simp add: leak_run_def)
  moreover have "ssl_msg ! (2 + idx) = leak_at j"
    using ssl_msg_leak [of idx] Suc.prems(1) by simp
  ultimately show ?case
    using Suc.IH [of "(idx + 1) mod 4" "j + 1"] Suc.prems by (simp add: split_def mod_simps)
qed simp

text \<open>One turn of the packet loop, with the state before its \<^verbatim>\<open>SSL_read\<close> named.\<close>

definition ssl_sent_state :: "ssl_env \<Rightarrow> nat \<Rightarrow> ssl_client \<Rightarrow> ssl_client" where
  "ssl_sent_state env i c = c\<lparr>sc_sent := sc_sent c + of_nat (ssl_txlen env i)\<rparr>"

lemma ssl_client_packets_done: "100 \<le> i \<Longrightarrow> ssl_client_packets env msg txbuf ssl i c = ([], c)"
  by (simp add: ssl_client_packets.simps)

lemma ssl_client_packets_turn:
  assumes "i < 100"
  shows "ssl_client_packets env msg txbuf ssl i c =
    (let b = take (ssl_txlen env i) txbuf;
         rd = ssl_client_read env msg txbuf (ssl_sent_state env i c);
         rest = ssl_client_packets env msg txbuf ssl (i + 1) (fst (snd rd))
     in if e_ssl_write env i b \<le> 0
        then ([Se_packet i (ssl_txlen env i), Se_ssl_write ssl b,
               Se_puts ''Server closed connection'', Se_err_print], ssl_sent_state env i c)
        else if snd (snd rd)
        then (Se_packet i (ssl_txlen env i) # Se_ssl_write ssl b # Se_puts ''start read'' # fst rd,
              fst (snd rd))
        else (Se_packet i (ssl_txlen env i) # Se_ssl_write ssl b # Se_puts ''start read'' # fst rd
                @ fst rest, snd rest))"
  using assms
  by (subst ssl_client_packets.simps) (simp add: ssl_sent_state_def Let_def split_def)

lemma ssl_client_packets_induct [case_names finish turn]:
  fixes c :: ssl_client
  assumes "\<And>i c. 100 \<le> i \<Longrightarrow> P i c"
    and "\<And>i c. i < 100 \<Longrightarrow>
      P (i + 1) (fst (snd (ssl_client_read env msg txbuf (ssl_sent_state env i c)))) \<Longrightarrow> P i c"
  shows "P i c"
proof (induction "100 - i" arbitrary: i c)
  case 0
  then show ?case using assms(1) by simp
next
  case (Suc n i c)
  have "i < 100" and "n = 100 - (i + 1)" using Suc.hyps(2) by simp_all
  then show ?case using assms(2) Suc.hyps(1) by blast
qed

text \<open>The received bytes are never looked at: only the lengths the reads return matter.\<close>

definition same_lengths :: "ssl_env \<Rightarrow> ssl_env \<Rightarrow> bool" where
  "same_lengths env env' \<longleftrightarrow>
     env' = env\<lparr>e_ssl_read := e_ssl_read env'\<rparr> \<and> (\<forall>k. fst (e_ssl_read env' k) = fst (e_ssl_read env k))"

lemma same_lengths_fields:
  assumes "same_lengths env env'"
  shows "e_ssl_connect env' = e_ssl_connect env" "e_ssl_write env' = e_ssl_write env"
    "e_random env' = e_random env" "e_ssl_new env' = e_ssl_new env" "e_connect env' = e_connect env"
    "e_inet_pton env' = e_inet_pton env" "e_socket env' = e_socket env"
    "e_ctx_new env' = e_ctx_new env" "e_load_verify env' = e_load_verify env"
    "fst (e_ssl_read env' k) = fst (e_ssl_read env k)"
  using assms unfolding same_lengths_def by (metis ssl_env.simps ssl_env.surjective ssl_env.update_convs)+

lemma same_lengths_sym: "same_lengths env env' \<Longrightarrow> same_lengths env' env"
  unfolding same_lengths_def
  by (metis ssl_env.surjective ssl_env.update_convs(15))

lemma ssl_client_read_cong:
  "same_lengths env env' \<Longrightarrow> ssl_client_read env' msg txbuf c = ssl_client_read env msg txbuf c"
  by (simp add: ssl_client_read_def same_lengths_fields)

lemma ssl_client_packets_cong:
  assumes "same_lengths env env'"
  shows "ssl_client_packets env' msg txbuf ssl i c = ssl_client_packets env msg txbuf ssl i c"
proof (induction i c rule: ssl_client_packets_induct [where env = env and msg = msg and txbuf = txbuf])
  case (finish i c)
  then show ?case by (simp add: ssl_client_packets_done)
next
  case (turn i c)
  have tx: "ssl_txlen env' i = ssl_txlen env i"
    using assms by (simp add: ssl_txlen_def same_lengths_fields)
  then have st: "ssl_sent_state env' i c = ssl_sent_state env i c"
    by (simp add: ssl_sent_state_def)
  show ?case
    using turn assms
    by (simp add: ssl_client_packets_turn tx st same_lengths_fields ssl_client_read_cong Let_def)
qed

lemma ssl_client_drain_cong_Some:
  assumes "same_lengths env env'" and "ssl_client_drain env msg txbuf evs c = Some r"
  shows "ssl_client_drain env' msg txbuf evs c = Some r"
proof (rule ssl_client_drain.raw_induct
    [where P = "\<lambda>e m t evs c r. e = env \<longrightarrow> ssl_client_drain env' m t evs c = Some r",
      OF _ assms(2), THEN mp, OF _ refl])
  fix f e m t evs c r
  assume IH: "\<And>e m t evs c r. f e m t evs c = Some r \<Longrightarrow>
      e = env \<longrightarrow> ssl_client_drain env' m t evs c = Some r"
    and eq: "(if sc_received c < sc_sent c then
        let (evs1, c1, brk) = ssl_client_read e m t c
        in if brk then Some (evs @ evs1, c1) else f e m t (evs @ evs1) c1
      else Some (evs, c)) = Some r"
  show "e = env \<longrightarrow> ssl_client_drain env' m t evs c = Some r"
  proof
    assume e: "e = env"
    obtain evs1 c1 brk where rd: "ssl_client_read env m t c = (evs1, c1, brk)"
      by (metis prod_cases3)
    have "f env m t (evs @ evs1) c1 = Some r \<Longrightarrow> ssl_client_drain env' m t (evs @ evs1) c1 = Some r"
      using IH by blast
    then show "ssl_client_drain env' m t evs c = Some r"
      using eq e assms(1) rd
      by (subst ssl_client_drain.simps) (auto simp: ssl_client_read_cong split: if_splits)
  qed
qed

lemma ssl_client_drain_cong:
  assumes "same_lengths env env'"
  shows "ssl_client_drain env' msg txbuf evs c = ssl_client_drain env msg txbuf evs c"
  using ssl_client_drain_cong_Some [OF assms] ssl_client_drain_cong_Some [OF same_lengths_sym [OF assms]]
  by (metis option.exhaust)

text \<open>Lengths no larger than the buffer that \<^verbatim>\<open>SSL_read\<close> is given.\<close>

definition bounded_reads :: "ssl_env \<Rightarrow> bool" where
  "bounded_reads env \<longleftrightarrow> (\<forall>k. fst (e_ssl_read env k) \<le> int MAX_BUF_SIZE)"

lemma ssl_client_read_progress:
  assumes "ssl_client_read env msg txbuf c = (evs, c', False)" and "bounded_reads env"
  shows "\<exists>n. 0 < n \<and> n \<le> MAX_BUF_SIZE \<and> sc_received c' = sc_received c + of_nat n
    \<and> sc_sent c' = sc_sent c"
proof -
  let ?n = "fst (e_ssl_read env (sc_reads c))"
  have "0 < ?n" "sc_received c' = sc_received c + word_of_int ?n" "sc_sent c' = sc_sent c"
    using assms(1) by (auto simp: ssl_client_read_def Let_def split: if_splits prod.splits)
  moreover have "?n \<le> int MAX_BUF_SIZE" using assms(2) by (simp add: bounded_reads_def)
  ultimately show ?thesis by (intro exI [of _ "nat ?n"]) (simp add: nat_le_iff)
qed

text \<open>The last loop ends: the missing count shrinks, and adding to it cannot wrap around.\<close>

lemma unat_add_of_nat:
  fixes x :: u32
  assumes "unat x + n < 2 ^ 32"
  shows "unat (x + of_nat n) = unat x + n"
  using assms by (simp add: unat_word_ariths unat_of_nat take_bit_nat_eq_self)

lemma ssl_client_drain_returns:
  assumes "bounded_reads env" and "unat (sc_sent c) < 2 ^ 32 - MAX_BUF_SIZE"
  shows "\<exists>evs' c'. ssl_client_drain env msg txbuf evs c = Some (evs', c')"
  using assms
proof (induction "unat (sc_sent c) - unat (sc_received c)" arbitrary: c evs rule: less_induct)
  case less
  show ?case
  proof (cases "sc_received c < sc_sent c")
    case False
    then show ?thesis by (subst ssl_client_drain.simps) simp
  next
    case True
    obtain evs1 c1 brk where rd: "ssl_client_read env msg txbuf c = (evs1, c1, brk)"
      by (metis prod_cases3)
    show ?thesis
    proof (cases brk)
      case True
      then show ?thesis using rd \<open>sc_received c < sc_sent c\<close>
        by (subst ssl_client_drain.simps) simp
    next
      case False
      then obtain n where n: "0 < n" "n \<le> MAX_BUF_SIZE" "sc_received c1 = sc_received c + of_nat n"
          "sc_sent c1 = sc_sent c"
        using ssl_client_read_progress [of env msg txbuf c evs1 c1] rd less.prems(1) by auto
      have lt: "unat (sc_received c) < unat (sc_sent c)" using True by (simp add: word_less_nat_alt)
      then have "unat (sc_received c1) = unat (sc_received c) + n"
        unfolding n(3) using n(2) less.prems(2) by (intro unat_add_of_nat) simp
      then have "unat (sc_sent c1) - unat (sc_received c1) < unat (sc_sent c) - unat (sc_received c)"
        using lt n(1,4) by simp
      then show ?thesis
        using less.hyps [of c1] less.prems n(4) rd True False
        by (subst ssl_client_drain.simps) simp
    qed
  qed
qed

lemma ssl_client_read_sent: "sc_sent (fst (snd (ssl_client_read env msg txbuf c))) = sc_sent c"
  by (simp add: ssl_client_read_def Let_def split: prod.split)

lemma ssl_client_packets_sent:
  assumes "unat (sc_sent c) \<le> 32767 * i" and "i \<le> 100"
  shows "unat (sc_sent (snd (ssl_client_packets env msg txbuf ssl i c))) \<le> 3276700"
  using assms
proof (induction i c rule: ssl_client_packets_induct [where env = env and msg = msg and txbuf = txbuf])
  case (finish i c)
  then show ?case by (simp add: ssl_client_packets_done)
next
  case (turn i c)
  have "ssl_txlen env i < 32768" using ssl_txlen_bounds [of env i] by simp
  then have "unat (sc_sent (ssl_sent_state env i c)) \<le> 32767 * (i + 1)"
    using unat_add_of_nat [of "sc_sent c" "ssl_txlen env i"] turn
    by (simp add: ssl_sent_state_def)
  then show ?case
    using turn by (simp add: ssl_client_packets_turn ssl_client_read_sent Let_def)
qed

text \<open>Reads in whole patterns keep the index at 0 and report nothing.\<close>

definition mismatch_free :: "ssl_event list \<Rightarrow> bool" where
  "mismatch_free evs \<longleftrightarrow> list_all (\<lambda>e. case e of Se_mismatch _ _ _ _ \<Rightarrow> False | _ \<Rightarrow> True) evs"

lemma mismatch_free_simps [simp]:
  "mismatch_free []" "mismatch_free (xs @ ys) \<longleftrightarrow> mismatch_free xs \<and> mismatch_free ys"
  "mismatch_free (e # xs) \<longleftrightarrow>
     (case e of Se_mismatch _ _ _ _ \<Rightarrow> False | _ \<Rightarrow> True) \<and> mismatch_free xs"
  by (simp_all add: mismatch_free_def)

definition aligned_reads :: "ssl_env \<Rightarrow> bool" where
  "aligned_reads env \<longleftrightarrow> (\<forall>k. 4 dvd fst (e_ssl_read env k))"

lemma nat_dvd_4: "4 dvd (x :: int) \<Longrightarrow> nat x mod 4 = 0"
  by (cases "0 \<le> x") (auto simp: nat_mod_distrib [symmetric, of x 4, simplified] dvd_eq_mod_eq_0)

lemma ssl_client_read_silent:
  assumes "bounded_reads env" and "aligned_reads env" and "sc_msg_idx c = 0"
    and "ssl_client_read env ssl_msg (leak_run 0 MAX_BUF_SIZE) c = (evs, c', brk)"
  shows "mismatch_free evs \<and> sc_msg_idx c' = 0"
proof -
  let ?n = "fst (e_ssl_read env (sc_reads c))"
  have "?n \<le> int MAX_BUF_SIZE" and dvd: "4 dvd ?n"
    using assms(1,2) by (simp_all add: bounded_reads_def aligned_reads_def)
  then have "nat ?n \<le> MAX_BUF_SIZE" and "nat ?n mod 4 = 0"
    by (simp_all add: nat_le_iff nat_dvd_4)
  then have "fst (ssl_check ssl_msg (leak_run 0 MAX_BUF_SIZE) 0 0 (nat ?n)) = []"
    and "snd (ssl_check ssl_msg (leak_run 0 MAX_BUF_SIZE) 0 0 (nat ?n)) = 0"
    by (simp_all add: ssl_check_silent ssl_check_idx)
  then show ?thesis
    using assms(3,4)
    by (auto simp: ssl_client_read_def Let_def split_def mismatch_free_def split: if_splits)
qed

lemma ssl_client_packets_silent:
  assumes "bounded_reads env" and "aligned_reads env" and "sc_msg_idx c = 0"
  shows "mismatch_free (fst (ssl_client_packets env ssl_msg (leak_run 0 MAX_BUF_SIZE) ssl i c))
    \<and> sc_msg_idx (snd (ssl_client_packets env ssl_msg (leak_run 0 MAX_BUF_SIZE) ssl i c)) = 0"
  using assms(3)
proof (induction i c rule: ssl_client_packets_induct
    [where env = env and msg = ssl_msg and txbuf = "leak_run 0 MAX_BUF_SIZE"])
  case (finish i c)
  then show ?case by (simp add: ssl_client_packets_done)
next
  case (turn i c)
  let ?rd = "ssl_client_read env ssl_msg (leak_run 0 MAX_BUF_SIZE) (ssl_sent_state env i c)"
  have z: "sc_msg_idx (ssl_sent_state env i c) = 0" using turn.prems by (simp add: ssl_sent_state_def)
  have rd: "mismatch_free (fst ?rd)" "sc_msg_idx (fst (snd ?rd)) = 0"
    using ssl_client_read_silent [OF assms(1,2) z, of "fst ?rd" "fst (snd ?rd)" "snd (snd ?rd)"] by simp_all
  show ?case
    using turn.IH [OF rd(2)] rd z turn.hyps
    by (simp add: ssl_client_packets_turn Let_def)
qed

lemma ssl_client_drain_silent:
  assumes "bounded_reads env" and "aligned_reads env"
    and "ssl_client_drain env ssl_msg (leak_run 0 MAX_BUF_SIZE) evs c = Some r"
  shows "sc_msg_idx c = 0 \<longrightarrow> mismatch_free evs \<longrightarrow> mismatch_free (fst r)"
proof (rule ssl_client_drain.raw_induct
    [where P = "\<lambda>e m t evs c r. e = env \<and> m = ssl_msg \<and> t = leak_run 0 MAX_BUF_SIZE \<longrightarrow>
        sc_msg_idx c = 0 \<longrightarrow> mismatch_free evs \<longrightarrow> mismatch_free (fst r)",
      OF _ assms(3), THEN mp])
  fix f e m t evs c r
  assume IH: "\<And>e m t evs c r. f e m t evs c = Some r \<Longrightarrow>
      e = env \<and> m = ssl_msg \<and> t = leak_run 0 MAX_BUF_SIZE \<longrightarrow>
        sc_msg_idx c = 0 \<longrightarrow> mismatch_free evs \<longrightarrow> mismatch_free (fst r)"
    and eq: "(if sc_received c < sc_sent c then
        let (evs1, c1, brk) = ssl_client_read e m t c
        in if brk then Some (evs @ evs1, c1) else f e m t (evs @ evs1) c1
      else Some (evs, c)) = Some r"
  show "e = env \<and> m = ssl_msg \<and> t = leak_run 0 MAX_BUF_SIZE \<longrightarrow>
      sc_msg_idx c = 0 \<longrightarrow> mismatch_free evs \<longrightarrow> mismatch_free (fst r)"
  proof (intro impI)
    assume e: "e = env \<and> m = ssl_msg \<and> t = leak_run 0 MAX_BUF_SIZE"
      and z: "sc_msg_idx c = 0" and free: "mismatch_free evs"
    obtain evs1 c1 brk where
      rd: "ssl_client_read env ssl_msg (leak_run 0 MAX_BUF_SIZE) c = (evs1, c1, brk)"
      by (metis prod_cases3)
    have "mismatch_free evs1" "sc_msg_idx c1 = 0"
      using ssl_client_read_silent [OF assms(1,2) z rd] by simp_all
    then show "mismatch_free (fst r)"
      using eq e rd free IH [of env ssl_msg "leak_run 0 MAX_BUF_SIZE" "evs @ evs1" c1 r]
      by (auto split: if_splits)
  qed
qed simp

lemma ssl_client_session_returns:
  assumes "bounded_reads env"
  shows "\<exists>evs. ssl_client_session env ssl = Some evs"
proof -
  let ?p = "ssl_client_packets env ssl_msg (ssl_fill ssl_msg MAX_BUF_SIZE) ssl 0
    \<lparr>sc_sent = 0, sc_received = 0, sc_msg_idx = 0, sc_reads = 0\<rparr>"
  have "unat (sc_sent (snd ?p)) \<le> 3276700" by (rule ssl_client_packets_sent) simp_all
  then have "unat (sc_sent (snd ?p)) < 2 ^ 32 - MAX_BUF_SIZE" by (simp add: MAX_BUF_SIZE_def)
  from ssl_client_drain_returns [OF assms this] show ?thesis
    by (fastforce simp: ssl_client_session_def Let_def split_def)
qed

section \<open>Properties\<close>

text \<open>The client's output does not depend on the bytes the server sends back: replacing
  everything the reads deliver, with the same return values, leaves the whole run of the client
  unchanged, mismatch reports included. (The comparison loop reads \<^verbatim>\<open>txbuf\<close>, the
  buffer that was sent, where the received bytes are in \<^verbatim>\<open>rxbuf\<close>.)\<close>

theorem ssl_client_ignores_received_bytes:
  "ssl_client_main (env\<lparr>e_ssl_read := (\<lambda>k. (fst (e_ssl_read env k), payload k))\<rparr>) ip
     = ssl_client_main env ip"
proof -
  let ?env = "env\<lparr>e_ssl_read := (\<lambda>k. (fst (e_ssl_read env k), payload k))\<rparr>"
  have same: "same_lengths env ?env" by (simp add: same_lengths_def)
  have "ssl_client_session ?env ssl = ssl_client_session env ssl" for ssl
    by (simp add: ssl_client_session_def ssl_client_packets_cong [OF same]
        ssl_client_drain_cong [OF same] Let_def split_def)
  moreover have "create_context ?env False = create_context env False"
    and "configure_client_context ?env = configure_client_context env"
    and "create_socket ?env False = create_socket env False"
    by (simp_all add: create_context_def configure_client_context_def create_socket_def Let_def)
  ultimately show ?thesis by (simp add: ssl_client_main_def Let_def split: prod.split sum.split)
qed

text \<open>C35: The client always ends: when \<^verbatim>\<open>SSL_read\<close> returns at most the size of the
  buffer it is given, the packet loop and the loop that waits for the outstanding bytes both stop,
  whatever is sent back, and no 32-bit byte counter wraps around on the way.\<close>

theorem ssl_client_terminates:
  assumes "bounded_reads env"
  shows "\<exists>evs st. ssl_client_main env ip = Some (evs, st)"
proof -
  obtain evs' where "ssl_client_session env (e_ssl_new env) = Some evs'"
    using ssl_client_session_returns [OF assms] by blast
  then show ?thesis
    by (simp add: ssl_client_main_def Let_def split: prod.split sum.split)
qed

definition demo_ssl_env :: ssl_env where
  "demo_ssl_env = \<lparr>e_socket = 3, e_setsockopt = 0, e_bind = (\<lambda>_. 0), e_listen = 0,
     e_ctx_new = (\<lambda>_. Some 1), e_use_cert = 1, e_use_key = 1, e_load_verify = 1,
     e_inet_pton = (\<lambda>_. 0x0100007f), e_connect = (\<lambda>_. 0), e_ssl_new = Some 7, e_ssl_connect = 1,
     e_random = (\<lambda>i. 16 * i + 40), e_ssl_write = (\<lambda>_ b. int (length b)),
     e_ssl_read = (\<lambda>k. (8, replicate 8 0))\<rparr>"

theorem ssl_client_terminates_witness:
  "bounded_reads demo_ssl_env \<and> (\<exists>evs st. ssl_client_main demo_ssl_env ''127.0.0.1'' = Some (evs, st))"
proof -
  have "bounded_reads demo_ssl_env" by (simp add: bounded_reads_def demo_ssl_env_def MAX_BUF_SIZE_def)
  then show ?thesis using ssl_client_terminates [of demo_ssl_env "''127.0.0.1''"] by simp
qed

text \<open>A client whose reads all return a multiple of four bytes reports no mismatch in the
  whole session.\<close>

theorem ssl_client_aligned_silent:
  assumes "bounded_reads env" and "aligned_reads env" and "ssl_client_session env ssl = Some evs"
  shows "mismatch_free evs"
proof (cases "e_ssl_connect env = 1")
  case True
  let ?p = "ssl_client_packets env ssl_msg (leak_run 0 MAX_BUF_SIZE) ssl 0
    \<lparr>sc_sent = 0, sc_received = 0, sc_msg_idx = 0, sc_reads = 0\<rparr>"
  have p: "mismatch_free (fst ?p)" "sc_msg_idx (snd ?p) = 0"
    using ssl_client_packets_silent [OF assms(1,2)] by simp_all
  obtain r where r: "ssl_client_drain env ssl_msg (leak_run 0 MAX_BUF_SIZE) (fst ?p) (snd ?p) = Some r"
    and evs: "evs = Se_puts ''SSL connection to server successful'' # fst r
      @ [Se_totals (sc_sent (snd r)) (sc_received (snd r)), Se_bzero ''msg'' 8]"
    using assms(3) True by (auto simp: ssl_client_session_def ssl_fill_leak Let_def split_def)
  have "mismatch_free (fst r)" using ssl_client_drain_silent [OF assms(1,2) r] p by blast
  then show ?thesis unfolding evs by (simp add: mismatch_free_def)
next
  case False
  then show ?thesis using assms(3) by (auto simp: ssl_client_session_def mismatch_free_def)
qed

theorem ssl_client_aligned_silent_witness:
  "\<exists>evs. ssl_client_session demo_ssl_env (Some 7) = Some evs \<and> mismatch_free evs"
proof -
  have b: "bounded_reads demo_ssl_env" by (simp add: bounded_reads_def demo_ssl_env_def MAX_BUF_SIZE_def)
  have a: "aligned_reads demo_ssl_env" by (simp add: aligned_reads_def demo_ssl_env_def)
  obtain evs where "ssl_client_session demo_ssl_env (Some 7) = Some evs"
    using ssl_client_session_returns [OF b] by blast
  then show ?thesis using ssl_client_aligned_silent [OF b a] by blast
qed

text \<open>The drain loop only appends to the events it is given.\<close>

lemma ssl_client_drain_extends:
  assumes "ssl_client_drain env msg txbuf evs c = Some r"
  shows "\<exists>ys. fst r = evs @ ys"
proof (rule ssl_client_drain.raw_induct
    [where P = "\<lambda>e m t evs c r. \<exists>ys. fst r = evs @ ys", OF _ assms])
  fix f e m t evs c r
  assume IH: "\<And>e m t evs c r. f e m t evs c = Some r \<Longrightarrow> \<exists>ys. fst r = evs @ ys"
    and eq: "(if sc_received c < sc_sent c then
        let (evs1, c1, brk) = ssl_client_read e m t c
        in if brk then Some (evs @ evs1, c1) else f e m t (evs @ evs1) c1
      else Some (evs, c)) = Some r"
  obtain evs1 c1 brk where rd: "ssl_client_read e m t c = (evs1, c1, brk)" by (metis prod_cases3)
  have "f e m t (evs @ evs1) c1 = Some r \<Longrightarrow> \<exists>ys. fst r = evs @ ys"
    using IH [of e m t "evs @ evs1" c1 r] by auto
  then show "\<exists>ys. fst r = evs @ ys" using eq rd by (auto split: if_splits)
qed

text \<open>Out of phase with the buffer, the first byte compared is reported.\<close>

lemma leak_at_neq: "0 < idx \<Longrightarrow> idx < 4 \<Longrightarrow> leak_at idx \<noteq> leak_at 0"
proof -
  assume "0 < idx" "idx < 4"
  then have "idx \<in> {1, 2, 3}" by auto
  then show ?thesis by (auto simp: leak_at_def leak_msg_def)
qed

lemma ssl_check_out_of_phase:
  assumes "0 < idx" and "idx < 4" and "0 < n"
  shows "\<not> mismatch_free (fst (ssl_check ssl_msg (leak_run 0 MAX_BUF_SIZE) idx 0 n))"
proof -
  obtain k where n: "n = Suc k" using assms(3) by (cases n) simp_all
  have "leak_run 0 MAX_BUF_SIZE ! 0 = leak_at 0" by (simp add: leak_run_def MAX_BUF_SIZE_def)
  then show ?thesis
    unfolding n using ssl_msg_leak [OF assms(2)] leak_at_neq [OF assms(1,2)]
    by (simp add: split_def Let_def)
qed

lemma ssl_client_read_out_of_phase:
  assumes "0 < sc_msg_idx c" and "sc_msg_idx c < 4" and "0 < fst (e_ssl_read env (sc_reads c))"
    and "rd = ssl_client_read env ssl_msg (leak_run 0 MAX_BUF_SIZE) c"
  shows "\<not> mismatch_free (fst rd)" and "\<not> snd (snd rd)"
  using assms ssl_check_out_of_phase [OF assms(1,2), of "nat (fst (e_ssl_read env (sc_reads c)))"]
  by (simp_all add: ssl_client_read_def Let_def split_def)

text \<open>The mismatch reports are not about the echo: as soon as one \<^verbatim>\<open>SSL_read\<close> returns a
  number of bytes that is not a multiple of four, the next successful one reports a mismatch,
  even if every byte was echoed correctly. (The comparison loop restarts at the beginning of
  the buffer while the pattern index goes on.) Here for the first two packets.\<close>

theorem ssl_client_false_alarm:
  assumes "e_ssl_connect env = 1"
    and "0 < e_ssl_write env 0 (leak_run 0 (ssl_txlen env 0))"
    and "0 < e_ssl_write env 1 (leak_run 0 (ssl_txlen env 1))"
    and "0 < fst (e_ssl_read env 0)" and "fst (e_ssl_read env 0) mod 4 \<noteq> 0"
    and "0 < fst (e_ssl_read env 1)"
    and "ssl_client_session env ssl = Some evs"
  shows "\<not> mismatch_free evs"
proof -
  let ?t = "leak_run 0 MAX_BUF_SIZE"
  let ?c = "\<lparr>sc_sent = 0, sc_received = 0, sc_msg_idx = 0, sc_reads = 0\<rparr>"
  let ?p = "ssl_client_packets env ssl_msg ?t ssl 0 ?c"
  let ?c0 = "ssl_sent_state env 0 ?c"
  let ?r0 = "ssl_client_read env ssl_msg ?t ?c0"
  let ?c1 = "ssl_sent_state env 1 (fst (snd ?r0))"
  let ?r1 = "ssl_client_read env ssl_msg ?t ?c1"
  let ?idx = "nat (fst (e_ssl_read env 0)) mod 4"
  have idx: "0 < ?idx" "?idx < 4" using assms(4,5) by (auto simp: nat_mod_distrib [symmetric, of _ 4, simplified])
  have w: "take (ssl_txlen env i) ?t = leak_run 0 (ssl_txlen env i)" for i
    using ssl_txlen_bounds [of env i] by (simp add: take_leak_run MAX_BUF_SIZE_def)
  have c1: "sc_reads ?c1 = 1" "sc_msg_idx ?c1 = ?idx" and b0: "\<not> snd (snd ?r0)"
    using assms(4) by (simp_all add: ssl_client_read_def ssl_sent_state_def Let_def split_def ssl_check_idx)
  have r1: "\<not> mismatch_free (fst ?r1)" and b1: "\<not> snd (snd ?r1)"
    using ssl_client_read_out_of_phase [of ?c1 env ?r1] assms(6) idx unfolding c1 by simp_all
  have "\<not> mismatch_free (fst (ssl_client_packets env ssl_msg ?t ssl 1 (fst (snd ?r0))))"
    using assms(3) b1 r1 by (simp add: ssl_client_packets_turn [of 1] w Let_def del: One_nat_def)
  then have p: "\<not> mismatch_free (fst ?p)"
    using assms(2) b0 by (simp add: ssl_client_packets_turn [of 0] w Let_def del: One_nat_def)
  obtain r where r: "ssl_client_drain env ssl_msg ?t (fst ?p) (snd ?p) = Some r"
    and evs: "evs = Se_puts ''SSL connection to server successful'' # fst r
      @ [Se_totals (sc_sent (snd r)) (sc_received (snd r)), Se_bzero ''msg'' 8]"
    using assms(1,7) by (auto simp: ssl_client_session_def ssl_fill_leak Let_def split_def)
  show ?thesis using ssl_client_drain_extends [OF r] p by (auto simp: evs)
qed

theorem ssl_client_false_alarm_witness:
  "\<exists>evs. ssl_client_session (demo_ssl_env\<lparr>e_ssl_read := (\<lambda>k. (6, leak_run (6 * k) 6)),
      e_ssl_write := (\<lambda>_ b. int (length b) + 1)\<rparr>) (Some 7) = Some evs \<and> \<not> mismatch_free evs"
proof -
  let ?env = "demo_ssl_env\<lparr>e_ssl_read := (\<lambda>k. (6, leak_run (6 * k) 6)),
      e_ssl_write := (\<lambda>_ b. int (length b) + 1)\<rparr>"
  have "bounded_reads ?env" by (simp add: bounded_reads_def demo_ssl_env_def MAX_BUF_SIZE_def)
  then obtain evs where evs: "ssl_client_session ?env (Some 7) = Some evs"
    using ssl_client_session_returns by blast
  have "\<not> mismatch_free evs"
    by (rule ssl_client_false_alarm [OF _ _ _ _ _ _ evs]) (simp_all add: demo_ssl_env_def)
  with evs show ?thesis by blast
qed

end
