(* ===== verification/Sendfile.thy ===== *)
theory Sendfile
  imports Tool_Libc "HOL-Library.Multiset"
begin

text \<open>
  \<^verbatim>\<open>src/tools/sendfile.c\<close>: a connected pair of local sockets, the kernel TLS
  layer on both ends, then a string and the program's own image sent from one end to the
  other. Every system call is a parameter (the record \<open>sf_env\<close>) and an event of the
  trace; the program reads few of the results, and which ones is what the properties are about.
\<close>

datatype sf_event =
    Sf_socket int
  | Sf_bind int sockaddr_in
  | Sf_listen int nat
  | Sf_getsockname int
  | Sf_connect int sockaddr_in
  | Sf_accept int int
  | Sf_close int
  | Sf_set_ulp int
  | Sf_set_tls_tx int u16 u16
  | Sf_set_tls_rx int u16 u16
  | Sf_puts string
  | Sf_perror string
  | Sf_open int
  | Sf_fstat int
  | Sf_malloc nat
  | Sf_send int "byte list"
  | Sf_recv int nat
  | Sf_sendfile int int nat
  | Sf_string_report nat int
  | Sf_file_report nat int

record sf_env =
  sv_socket_fd :: int
  sv_socket_sfd :: int
  sv_getsockname :: "sockaddr_in \<Rightarrow> sockaddr_in"
  sv_accept :: int
  sv_ulp_fd :: int
  sv_ulp_cfd :: int
  sv_tls_tx :: int
  sv_tls_rx :: int
  sv_open :: int
  sv_st_size :: nat
  sv_send :: int
  sv_recv_string :: int
  sv_sendfile :: int
  sv_recv_file :: int

text \<open>
  \<^verbatim>\<open>ulp_sock_pair\<close>: the trace and the three out parameters. The results of
  \<^verbatim>\<open>bind\<close>, \<^verbatim>\<open>listen\<close> and \<^verbatim>\<open>connect\<close> are stored in
  \<open>ret\<close> and never read.
\<close>

definition ulp_sock_pair :: "sf_env \<Rightarrow> sf_event list \<times> int \<times> int \<times> bool" where
  "ulp_sock_pair env =
     (let addr = \<lparr>sin_family = AF_INET, sin_port = 0, sin_addr = htonl INADDR_ANY\<rparr>;
          fd = sv_socket_fd env;
          sfd = sv_socket_sfd env;
          addr' = sv_getsockname env addr;
          cfd = sv_accept env;
          evs = [Sf_socket fd, Sf_socket sfd, Sf_bind sfd addr, Sf_listen sfd 10, Sf_getsockname sfd,
                 Sf_connect fd addr', Sf_accept sfd cfd, Sf_close sfd, Sf_set_ulp fd]
      in if sv_ulp_fd env \<noteq> 0
         then (evs @ [Sf_puts ''Failure setting TCP_ULP, testing without it''], fd, cfd, True)
         else if sv_ulp_cfd env \<noteq> 0
         then (evs @ [Sf_set_ulp cfd, Sf_puts ''Failure setting TCP_ULP, testing without it''],
               fd, cfd, True)
         else (evs @ [Sf_set_ulp cfd], fd, cfd, False))"

text \<open>
  \<^verbatim>\<open>setup_tls\<close>: the events carry the two fields of \<^verbatim>\<open>crypto_info\<close> that
  the code sets, version and cipher; key, salt, IV and sequence number are never written.
\<close>

definition TLS_1_2_VERSION :: u16 where "TLS_1_2_VERSION = 0x0303"

definition TLS_CIPHER_AES_GCM_128 :: u16 where "TLS_CIPHER_AES_GCM_128 = 51"

definition setup_tls :: "sf_env \<Rightarrow> int \<Rightarrow> int \<Rightarrow> sf_event list" where
  "setup_tls env fd cfd =
     [Sf_set_tls_tx fd TLS_1_2_VERSION TLS_CIPHER_AES_GCM_128]
     @ (if sv_tls_tx env \<noteq> 0 then [Sf_puts ''Failure setting AES GCM 128, testing without it''] else [])
     @ [Sf_set_tls_rx cfd TLS_1_2_VERSION TLS_CIPHER_AES_GCM_128]
     @ (if sv_tls_rx env \<noteq> 0 then [Sf_puts ''Failure setting AES GCM 128, testing without it''] else [])"

text \<open>The test string with its terminating NUL, as \<open>strlen(test_str) + 1\<close> bytes are sent.\<close>

definition test_str :: "byte list" where
  "test_str = map (\<lambda>c. of_char c) ''test_send'' @ [0]"

definition sendfile_test :: "sf_env \<Rightarrow> int \<Rightarrow> int \<Rightarrow> sf_event list" where
  "sendfile_test env fd cfd =
     (let filefd = sv_open env;
          to_send = length test_str;
          st_size = sv_st_size env
      in [Sf_open filefd, Sf_fstat filefd, Sf_malloc st_size, Sf_send fd test_str]
         @ (if sv_send env < 0 then [Sf_perror (''cannot send string'' @ [CHR 0x0A])] else [])
         @ [Sf_recv cfd to_send, Sf_sendfile fd filefd st_size]
         @ (if sv_sendfile env < 0 then [Sf_perror (''cannot send file'' @ [CHR 0x0A])] else [])
         @ [Sf_recv cfd st_size, Sf_string_report to_send (sv_recv_string env),
            Sf_file_report st_size (sv_recv_file env), Sf_close filefd])"

definition sendfile_main :: "sf_env \<Rightarrow> sf_event list \<times> int" where
  "sendfile_main env =
     (let (evs, fd, cfd, notls) = ulp_sock_pair env
      in (evs @ setup_tls env fd cfd @ Sf_puts ''Testing sendfile...'' # sendfile_test env fd cfd
            @ [Sf_close fd, Sf_close cfd], 0))"

section \<open>The control message of a TLS record\<close>

text \<open>
  \<^verbatim>\<open>tls_send_cmsg\<close>: one data vector and a control buffer of
  \<^verbatim>\<open>CMSG_SPACE(1)\<close> bytes. On this target \<^verbatim>\<open>struct cmsghdr\<close> is 16
  bytes (an 8-byte length, two 4-byte integers) and control data is padded to 8.
\<close>

definition CMSG_LEN :: "nat \<Rightarrow> nat" where "CMSG_LEN n = 16 + n"

definition CMSG_SPACE :: "nat \<Rightarrow> nat" where "CMSG_SPACE n = 16 + (n + 7) div 8 * 8"

definition SOL_TLS :: u32 where "SOL_TLS = 282"

definition TLS_SET_RECORD_TYPE :: u32 where "TLS_SET_RECORD_TYPE = 1"

record msghdr =
  msg_iov :: "(byte list \<times> nat) list"
  msg_control :: "byte list"
  msg_controllen :: nat

definition bytes_le :: "nat \<Rightarrow> nat \<Rightarrow> byte list" where
  "bytes_le k v = map (\<lambda>i. of_nat (v div 256 ^ i)) [0..<k]"

definition tls_send_cmsg ::
  "(int \<Rightarrow> msghdr \<Rightarrow> int \<Rightarrow> int) \<Rightarrow> byte list \<Rightarrow> int \<Rightarrow> byte \<Rightarrow> byte list \<Rightarrow> nat \<Rightarrow> int \<Rightarrow> int" where
  "tls_send_cmsg sendmsg cbuf0 fd record_type data len flags =
     (let cbuf1 = mem_write cbuf0 8 (bytes_le 4 (unat SOL_TLS));
          cbuf2 = mem_write cbuf1 12 (bytes_le 4 (unat TLS_SET_RECORD_TYPE));
          cbuf3 = mem_write cbuf2 0 (bytes_le 8 (CMSG_LEN 1));
          cbuf4 = mem_write cbuf3 16 [record_type];
          msg = \<lparr>msg_iov = [(data, len)], msg_control = cbuf4, msg_controllen = CMSG_LEN 1\<rparr>
      in sendmsg fd msg flags)"

section \<open>Properties\<close>

text \<open>Descriptors the trace opens and closes, in any order.\<close>

fun sf_opened :: "sf_event list \<Rightarrow> int multiset" where
  "sf_opened [] = {#}"
| "sf_opened (Sf_socket fd # evs) = add_mset fd (sf_opened evs)"
| "sf_opened (Sf_accept sfd fd # evs) = add_mset fd (sf_opened evs)"
| "sf_opened (Sf_open fd # evs) = add_mset fd (sf_opened evs)"
| "sf_opened (_ # evs) = sf_opened evs"

fun sf_closed :: "sf_event list \<Rightarrow> int multiset" where
  "sf_closed [] = {#}"
| "sf_closed (Sf_close fd # evs) = add_mset fd (sf_closed evs)"
| "sf_closed (_ # evs) = sf_closed evs"

lemma sf_opened_append [simp]: "sf_opened (xs @ ys) = sf_opened xs + sf_opened ys"
  by (induction xs rule: sf_opened.induct) simp_all

lemma sf_closed_append [simp]: "sf_closed (xs @ ys) = sf_closed xs + sf_closed ys"
  by (induction xs rule: sf_closed.induct) simp_all

text \<open>On every outcome of the system calls the program of \<^verbatim>\<open>sendfile.c\<close> passes
  what its four opening calls returned to \<^verbatim>\<open>close\<close>, each exactly once, and exits with
  status 0: no descriptor leaks and none is closed twice.\<close>

theorem sendfile_closes_all:
  "sf_opened (fst (sendfile_main env)) = sf_closed (fst (sendfile_main env))
     \<and> size (sf_closed (fst (sendfile_main env))) = 4 \<and> snd (sendfile_main env) = 0"
  by (simp add: sendfile_main_def ulp_sock_pair_def setup_tls_def sendfile_test_def Let_def)

text \<open>The TLS keys are configured on both ends whether or not attaching the TLS layer
  succeeded: the flag \<^verbatim>\<open>notls\<close> that \<^verbatim>\<open>ulp_sock_pair\<close> returns is not read,
  although its message says the test goes on without TLS.\<close>

theorem sendfile_ignores_notls:
  "Sf_set_tls_tx (sv_socket_fd env) 0x0303 51 \<in> set (fst (sendfile_main env))
     \<and> Sf_set_tls_rx (sv_accept env) 0x0303 51 \<in> set (fst (sendfile_main env))
     \<and> (snd (snd (snd (ulp_sock_pair env))) \<longleftrightarrow> sv_ulp_fd env \<noteq> 0 \<or> sv_ulp_cfd env \<noteq> 0)"
  by (simp add: sendfile_main_def ulp_sock_pair_def setup_tls_def TLS_1_2_VERSION_def
      TLS_CIPHER_AES_GCM_128_def Let_def)

lemma list_as_nth_17:
  assumes "length xs = 17"
  shows "\<exists>h. xs = [h 0, h 1, h 2, h 3, h 4, h 5, h 6, h 7, h 8, h 9, h 10, h 11, h 12, h 13,
    h 14, h 15, h (16 :: nat)]"
proof -
  have "xs = map (nth xs) [0..<17]" using map_nth [of xs] assms by simp
  then show ?thesis by (intro exI [of _ "nth xs"]) (simp add: upt_rec eval_nat_numeral)
qed

text \<open>\<^verbatim>\<open>tls_send_cmsg\<close> stays inside its control buffer and hands the kernel a
  well-formed control message: length, level, type and the record type in their places, with
  the announced length within the buffer.\<close>

theorem tls_send_cmsg_layout:
  assumes "length cbuf0 = CMSG_SPACE 1"
  shows "\<exists>pad. length pad = 7 \<and> tls_send_cmsg sendmsg cbuf0 fd rt data len flags =
    sendmsg fd \<lparr>msg_iov = [(data, len)],
      msg_control = [17,0,0,0,0,0,0,0, 0x1a,1,0,0, 1,0,0,0, rt] @ pad,
      msg_controllen = 17\<rparr> flags"
proof -
  have len: "length cbuf0 = 24" using assms by (simp add: CMSG_SPACE_def)
  define hd where "hd = take 17 cbuf0"
  define pad where "pad = drop 17 cbuf0"
  have parts: "cbuf0 = hd @ pad" "length hd = 17" "length pad = 7"
    using len by (simp_all add: hd_def pad_def)
  have fields: "bytes_le 4 (unat SOL_TLS) = [0x1a, 1, 0, 0]"
    "bytes_le 4 (unat TLS_SET_RECORD_TYPE) = [1, 0, 0, 0]"
    "bytes_le 8 17 = [17, 0, 0, 0, 0, 0, 0, 0]"
    by (simp_all add: bytes_le_def SOL_TLS_def TLS_SET_RECORD_TYPE_def upt_rec)
  obtain h where "hd = [h 0, h 1, h 2, h 3, h 4, h 5, h 6, h 7, h 8, h 9, h 10, h 11, h 12, h 13,
      h 14, h 15, h (16 :: nat)]"
    using list_as_nth_17 [OF parts(2)] by blast
  then have "tls_send_cmsg sendmsg cbuf0 fd rt data len flags = sendmsg fd \<lparr>msg_iov = [(data, len)],
      msg_control = [17,0,0,0,0,0,0,0, 0x1a,1,0,0, 1,0,0,0, rt] @ pad, msg_controllen = 17\<rparr> flags"
    using parts(1) by (simp add: tls_send_cmsg_def fields mem_write_def CMSG_LEN_def)
  then show ?thesis using parts(3) by blast
qed

theorem tls_send_cmsg_layout_witness:
  "\<exists>pad. length pad = 7 \<and> tls_send_cmsg (\<lambda>_ m _. int (msg_controllen m)) (replicate 24 9) 5 23 [1, 2] 2 0
     = (\<lambda>_ m _. int (msg_controllen m)) (5 :: int) \<lparr>msg_iov = [([1, 2], 2)],
      msg_control = [17,0,0,0,0,0,0,0, 0x1a,1,0,0, 1,0,0,0, 23] @ pad,
      msg_controllen = 17\<rparr> (0 :: int)"
  using tls_send_cmsg_layout [of "replicate 24 9" "\<lambda>_ m _. int (msg_controllen m)" 5 23 "[1, 2]" 2 0]
  by (simp add: CMSG_SPACE_def)

end
