(* ===== verification/Byte_Words.thy ===== *)
theory Byte_Words
  imports Prelude
begin

text \<open>
  Words in memory: loads and stores on a little-endian target, the byte swaps
  \<^verbatim>\<open>SWAP_BE32\<close>, \<^verbatim>\<open>SWAP_BE64\<close> and \<^verbatim>\<open>bb_bswap_64\<close>, and the
  rotations the hash functions are built from. The lemma \<open>bit_le_word\<close> describes a
  load bit by bit; the round trips between words and bytes follow from it.
\<close>

section \<open>Loads and stores\<close>

text \<open>The word a little-endian load of the bytes gives, and the bytes a store of \<open>k\<close> bytes writes.\<close>

fun le_word :: "byte list \<Rightarrow> 'a :: len word" where
  "le_word [] = 0"
| "le_word (b # bs) = ucast b OR push_bit 8 (le_word bs)"

definition le_bytes :: "nat \<Rightarrow> 'a :: len word \<Rightarrow> byte list" where
  "le_bytes k w = map (\<lambda>i. ucast (drop_bit (8 * i) w)) [0..<k]"

lemma length_le_bytes [simp, buf_simps]: "length (le_bytes k w) = k"
  by (simp add: le_bytes_def)

lemma bit_le_word:
  "bit (le_word bs :: 'a :: len word) n \<longleftrightarrow>
     n < LENGTH('a) \<and> n div 8 < length bs \<and> bit (bs ! (n div 8)) (n mod 8)"
proof (induction bs arbitrary: n)
  case (Cons b bs)
  show ?case
  proof (cases "n < 8")
    case True
    then show ?thesis by (auto simp: bit_simps)
  next
    case False
    then have "n div 8 = Suc ((n - 8) div 8)" and "n mod 8 = (n - 8) mod 8"
      by (simp_all add: le_div_geq le_mod_geq)
    moreover have "\<not> bit b n" using False bit_imp_le_length [of b n] by auto
    ultimately show ?thesis using False Cons.IH [of "n - 8"] by (auto simp: bit_simps)
  qed
qed simp

lemma le_word_xor: "le_word (b # bs) = ucast b XOR push_bit 8 (le_word bs)"
  by (rule bit_word_eqI) (auto simp: bit_simps dest: bit_imp_le_length)

lemma bit_le_bytes_nth:
  "i < k \<Longrightarrow> bit (le_bytes k (w :: 'a :: len word) ! i) n \<longleftrightarrow> n < 8 \<and> bit w (8 * i + n)"
  by (auto simp: le_bytes_def bit_simps dest: bit_imp_le_length)

lemma le_bytes_le_word:
  assumes "8 * length bs \<le> LENGTH('a)"
  shows "le_bytes (length bs) (le_word bs :: 'a :: len word) = bs"
proof (rule nth_equalityI)
  fix i assume "i < length (le_bytes (length bs) (le_word bs :: 'a word))"
  then have i: "i < length bs" by simp
  show "le_bytes (length bs) (le_word bs :: 'a word) ! i = bs ! i"
  proof (rule bit_word_eqI)
    fix n assume n: "n < LENGTH(8)"
    then have "(8 * i + n) div 8 = i" and "(8 * i + n) mod 8 = n" by simp_all
    moreover have "8 * i + n < LENGTH('a)" using assms i n by simp
    ultimately show "bit (le_bytes (length bs) (le_word bs :: 'a word) ! i) n = bit (bs ! i) n"
      using i n by (simp add: bit_le_bytes_nth bit_le_word)
  qed
qed simp

lemma le_word_le_bytes:
  assumes "LENGTH('a) \<le> 8 * k"
  shows "le_word (le_bytes k (w :: 'a :: len word)) = w"
proof (rule bit_word_eqI)
  fix n assume n: "n < LENGTH('a)"
  then have "n div 8 < k" using assms by (simp add: less_mult_imp_div_less mult.commute)
  then show "bit (le_word (le_bytes k w) :: 'a word) n = bit w n"
    using n by (simp add: bit_le_word bit_le_bytes_nth)
qed

section \<open>Byte swaps\<close>

definition bswap32 :: "u32 \<Rightarrow> u32" where "bswap32 w = le_word (rev (le_bytes 4 w))"

definition bswap64 :: "u64 \<Rightarrow> u64" where "bswap64 w = le_word (rev (le_bytes 8 w))"

lemma bswap32_le_word: "length bs = 4 \<Longrightarrow> bswap32 (le_word bs) = le_word (rev bs)"
  using le_bytes_le_word [of bs, where 'a = 32] by (simp add: bswap32_def)

lemma bswap64_le_word: "length bs = 8 \<Longrightarrow> bswap64 (le_word bs) = le_word (rev bs)"
  using le_bytes_le_word [of bs, where 'a = 64] by (simp add: bswap64_def)

lemma le_bytes_bswap32: "le_bytes 4 (bswap32 w) = rev (le_bytes 4 w)"
  using le_bytes_le_word [of "rev (le_bytes 4 w)", where 'a = 32] by (simp add: bswap32_def)

lemma le_bytes_bswap64: "le_bytes 8 (bswap64 w) = rev (le_bytes 8 w)"
  using le_bytes_le_word [of "rev (le_bytes 8 w)", where 'a = 64] by (simp add: bswap64_def)

lemma bswap32_involution: "bswap32 (bswap32 w) = w"
  using le_bytes_bswap32 [of w] le_word_le_bytes [of 4 w] by (simp add: bswap32_def)

lemma bswap64_involution: "bswap64 (bswap64 w) = w"
  using le_bytes_bswap64 [of w] le_word_le_bytes [of 8 w] by (simp add: bswap64_def)

text \<open>The words of a block, as the array access \<^verbatim>\<open>((uint32_t*)wbuffer)[i]\<close> reads them.\<close>

definition words32 :: "byte list \<Rightarrow> u32 list" where
  "words32 bs = map (\<lambda>i. le_word (take 4 (drop (4 * i) bs))) [0..<length bs div 4]"

definition words64 :: "byte list \<Rightarrow> u64 list" where
  "words64 bs = map (\<lambda>i. le_word (take 8 (drop (8 * i) bs))) [0..<length bs div 8]"

lemma length_words32 [simp, buf_simps]: "length (words32 bs) = length bs div 4"
  by (simp add: words32_def)

lemma length_words64 [simp, buf_simps]: "length (words64 bs) = length bs div 8"
  by (simp add: words64_def)

section \<open>Rotations\<close>

text \<open>\<open>rotl32(x, n)\<close> and its relatives: two shifts, joined with \<open>or\<close>.\<close>

definition rotl32 :: "u32 \<Rightarrow> nat \<Rightarrow> u32" where
  "rotl32 x n = push_bit n x OR drop_bit (32 - n) x"

definition rotr32 :: "u32 \<Rightarrow> nat \<Rightarrow> u32" where
  "rotr32 x n = drop_bit n x OR push_bit (32 - n) x"

definition rotr64 :: "u64 \<Rightarrow> nat \<Rightarrow> u64" where
  "rotr64 x n = drop_bit n x OR push_bit (64 - n) x"

definition rotl64 :: "u64 \<Rightarrow> nat \<Rightarrow> u64" where
  "rotl64 x n = push_bit n x OR drop_bit (64 - n) x"

lemma bit_rotate:
  fixes x :: "'a :: len word"
  assumes "n < LENGTH('a)"
  shows "bit (push_bit n x OR drop_bit (LENGTH('a) - n) x) i \<longleftrightarrow>
    i < LENGTH('a) \<and> bit x ((i + LENGTH('a) - n) mod LENGTH('a))"
proof (cases "n \<le> i")
  case True
  then have "(i + LENGTH('a) - n) mod LENGTH('a) = i - n" if "i < LENGTH('a)"
    using that assms by (simp add: le_mod_geq)
  moreover have "\<not> bit x (LENGTH('a) - n + i)" using True bit_imp_le_length [of x] by force
  ultimately show ?thesis using True by (auto simp: bit_simps)
next
  case False
  then have "(i + LENGTH('a) - n) mod LENGTH('a) = LENGTH('a) - n + i" and "i < LENGTH('a)"
    using assms by simp_all
  then show ?thesis using False assms by (auto simp: bit_simps)
qed

lemma bit_rotl32: "n < 32 \<Longrightarrow> bit (rotl32 x n) i \<longleftrightarrow> i < 32 \<and> bit x ((i + 32 - n) mod 32)"
  using bit_rotate [of n x i] by (simp add: rotl32_def)

lemma bit_rotl64: "n < 64 \<Longrightarrow> bit (rotl64 x n) i \<longleftrightarrow> i < 64 \<and> bit x ((i + 64 - n) mod 64)"
  using bit_rotate [of n x i] by (simp add: rotl64_def)

lemma rotl32_rotr32: "0 < n \<Longrightarrow> n < 32 \<Longrightarrow> rotl32 x n = rotr32 x (32 - n)"
  by (simp add: rotl32_def rotr32_def or.commute)

end
