(* ===== verification/Hash_Common.thy ===== *)
theory Hash_Common
  imports Byte_Words
begin

text \<open>
  What the block hashes of \<^verbatim>\<open>libbb/hash_md5_sha.c\<close> share: the loop that copies data
  into the block buffer and processes full blocks, the loop that pads the last block, the
  message-level meaning of both (\<open>absorb\<close>, \<open>leftover\<close>, \<open>md_pad\<close>), and the
  contract of a hash that takes its message in pieces as the locale
  \<open>streaming_hash\<close>, which each hash function interprets.
\<close>

section \<open>Messages in blocks\<close>

text \<open>Feed the full blocks of a message to \<open>f\<close>, and the bytes left after them.\<close>

function absorb :: "(byte list \<Rightarrow> 'h \<Rightarrow> 'h) \<Rightarrow> nat \<Rightarrow> 'h \<Rightarrow> byte list \<Rightarrow> 'h" where
  "absorb f B h m =
     (if 0 < B \<and> B \<le> length m then absorb f B (f (take B m) h) (drop B m) else h)"
  by pat_completeness auto
termination
  by (relation "measure (\<lambda>(f, B, h, m). length m)") auto

declare absorb.simps [simp del]

definition leftover :: "nat \<Rightarrow> byte list \<Rightarrow> byte list" where
  "leftover B m = drop (length m div B * B) m"

lemma length_leftover [simp, buf_simps]: "length (leftover B m) = length m mod B"
  by (simp add: leftover_def modulo_nat_def)

lemma absorb_short: "length m < B \<Longrightarrow> absorb f B h m = h"
  by (simp add: absorb.simps)

lemma leftover_short: "length m < B \<Longrightarrow> leftover B m = m"
  by (simp add: leftover_def)

lemma absorb_cons:
  "length b = B \<Longrightarrow> 0 < B \<Longrightarrow> absorb f B h (b @ m) = absorb f B (f b h) m"
  by (simp add: absorb.simps [of f B h "b @ m"])

lemma absorb_one: "length b = B \<Longrightarrow> 0 < B \<Longrightarrow> absorb f B h b = f b h"
  using absorb_cons [of b B f h "[]"] by (simp add: absorb_short)

lemma leftover_cons: "length b = B \<Longrightarrow> 0 < B \<Longrightarrow> leftover B (b @ m) = leftover B m"
  by (simp add: leftover_def le_div_geq)

text \<open>Splitting a message anywhere: the leftover of the first part starts the second.\<close>

lemma absorb_leftover:
  assumes "0 < B"
  shows "absorb f B h (m @ d) = absorb f B (absorb f B h m) (leftover B m @ d)"
    and "leftover B (m @ d) = leftover B (leftover B m @ d)"
proof -
  have "absorb f B h (m @ d) = absorb f B (absorb f B h m) (leftover B m @ d)
      \<and> leftover B (m @ d) = leftover B (leftover B m @ d)"
  proof (induction m arbitrary: h rule: length_induct)
    case (1 m)
    show ?case
    proof (cases "B \<le> length m")
      case True
      obtain b m' where m: "m = b @ m'" and b: "length b = B"
        using True by (metis append_take_drop_id length_take min.absorb2)
      have "length m' < length m" using m b assms by simp
      with 1 [rule_format, of m' "f b h"] show ?thesis
        unfolding m by (simp add: absorb_cons [OF b assms] leftover_cons [OF b assms])
    next
      case False
      then show ?thesis by (simp add: absorb_short leftover_short)
    qed
  qed
  then show "absorb f B h (m @ d) = absorb f B (absorb f B h m) (leftover B m @ d)"
    and "leftover B (m @ d) = leftover B (leftover B m @ d)" by simp_all
qed

text \<open>A compression function that only touches a prefix of the state.\<close>

lemma absorb_frame:
  assumes "\<And>b x. length x = k \<Longrightarrow> f b (x @ r) = f b x @ r"
    and "\<And>b x. length x = k \<Longrightarrow> length (f b x) = k"
    and "length x = k"
  shows "absorb f B (x @ r) m = absorb f B x m @ r \<and> length (absorb f B x m) = k"
  using assms(3)
proof (induction "length m" arbitrary: x m rule: less_induct)
  case less
  show ?case
  proof (cases "0 < B \<and> B \<le> length m")
    case True
    have "length (f (take B m) x) = k" using assms(2) [OF less.prems] .
    moreover have "length (drop B m) < length m" using True by auto
    ultimately show ?thesis
      using less True by (simp add: absorb.simps [of f B _ m] assms(1))
  next
    case False
    then show ?thesis using less.prems by (auto simp: absorb.simps [of f B _ m])
  qed
qed

section \<open>The buffering loop\<close>

text \<open>
  The loop of \<^verbatim>\<open>md5_hash\<close> and \<^verbatim>\<open>sha512_hash\<close> for blocks of \<open>B\<close> bytes,
  with the buffer, the fill position, the hash state and the data still to be consumed.
\<close>

function buffer_loop ::
  "nat \<Rightarrow> (byte list \<Rightarrow> 'h \<Rightarrow> 'h) \<Rightarrow> byte list \<Rightarrow> nat \<Rightarrow> 'h \<Rightarrow> byte list \<Rightarrow> byte list \<times> 'h" where
  "buffer_loop B f wbuffer bufpos h buffer =
     (let remaining = min (B - bufpos) (length buffer);
          wbuffer' = mem_write wbuffer bufpos (take remaining buffer);
          buffer' = drop remaining buffer
      in if B = 0 \<or> bufpos + remaining \<noteq> B then (wbuffer', h)
         else buffer_loop B f wbuffer' 0 (f wbuffer' h) buffer')"
  by pat_completeness auto
termination
  by (relation "measure (\<lambda>(B, f, w, p, h, d). 2 * length d + (if p = B then 1 else 0))") auto

declare buffer_loop.simps [simp del]

lemma buffer_loop_absorb:
  assumes "0 < B" and "length w = B" and "p < B"
  shows "\<exists>w'. buffer_loop B f w p h d = (w', absorb f B h (take p w @ d)) \<and> length w' = B
    \<and> take ((p + length d) mod B) w' = leftover B (take p w @ d)"
  using assms
proof (induction "length d" arbitrary: w p h d rule: less_induct)
  case less
  show ?case
  proof (cases "length d < B - p")
    case True
    then have "length (take p w @ d) < B" "mem_write w p d = take p w @ d @ drop (p + length d) w"
      using less.prems by (simp_all add: mem_write_def)
    then show ?thesis
      using True less.prems
      by (simp add: buffer_loop.simps [of B f w p] absorb_short leftover_short)
  next
    case False
    define r where "r = B - p"
    define b where "b = take p w @ take r d"
    have b: "length b = B" "mem_write w p (take r d) = b"
      using False less.prems by (auto simp: b_def r_def mem_write_def)
    have msg: "take p w @ d = b @ drop r d" by (simp add: b_def)
    have step: "buffer_loop B f w p h d = buffer_loop B f b 0 (f b h) (drop r d)"
      using False less.prems b(2) by (simp add: buffer_loop.simps [of B f w p] r_def min_def)
    have lt: "length (drop r d) < length d" using False less.prems by (simp add: r_def)
    have len: "(p + length d) mod B = length (drop r d) mod B"
      using False less.prems(3) by (simp add: r_def le_mod_geq [of B "p + length d"] add.commute)
    show ?thesis
      using less.hyps [OF lt less.prems(1) b(1) less.prems(1), of "f b h"]
      unfolding step msg absorb_cons [OF b(1) less.prems(1)] leftover_cons [OF b(1) less.prems(1)] len
      by simp
  qed
qed

section \<open>The padding loop\<close>

text \<open>
  The loop of \<^verbatim>\<open>common64_end\<close> and \<^verbatim>\<open>sha512_end\<close>: the rest of the block
  is zeroed and, if there is room for \<open>L\<close> bytes, \<open>store\<close> writes the message length. The
  position is positive at first and 0 in the second turn, so there are at most two turns.
\<close>

function end_loop ::
  "nat \<Rightarrow> nat \<Rightarrow> (byte list \<Rightarrow> byte list) \<Rightarrow> (byte list \<Rightarrow> 'h \<Rightarrow> 'h) \<Rightarrow> byte list \<Rightarrow> nat \<Rightarrow> 'h
    \<Rightarrow> byte list \<times> 'h" where
  "end_loop B L store f wbuffer bufpos h =
     (let remaining = B - bufpos;
          wbuffer1 = mem_write wbuffer bufpos (replicate remaining 0);
          wbuffer2 = (if remaining \<ge> L then store wbuffer1 else wbuffer1)
      in if remaining \<ge> L \<or> bufpos = 0 then (wbuffer2, f wbuffer2 h)
         else end_loop B L store f wbuffer2 0 (f wbuffer2 h))"
  by pat_completeness auto
termination
  by (relation "measure (\<lambda>(B, L, st, f, w, p, h). p)") auto

declare end_loop.simps [simp del]

text \<open>The padded message: one byte 0x80, zeros up to a block less \<open>L\<close> bytes, the length.\<close>

definition md_pad :: "nat \<Rightarrow> byte list \<Rightarrow> byte list \<Rightarrow> byte list" where
  "md_pad B cnt m =
     m @ [0x80] @ replicate ((B - (length m + 1 + length cnt) mod B) mod B) 0 @ cnt"

lemma length_md_pad: "0 < B \<Longrightarrow> B dvd length (md_pad B cnt m)"
proof -
  assume B: "0 < B"
  let ?k = "length m + 1 + length cnt"
  have "(?k + (B - ?k mod B) mod B) mod B = (?k mod B + (B - ?k mod B)) mod B"
    unfolding mod_add_right_eq by (rule mod_add_left_eq [symmetric])
  also have "?k mod B + (B - ?k mod B) = B" using mod_less_divisor [OF B, of ?k] by simp
  also have "B mod B = 0" by simp
  finally have "(?k + (B - ?k mod B) mod B) mod B = 0" .
  moreover have "length (md_pad B cnt m) = ?k + (B - ?k mod B) mod B" by (simp add: md_pad_def)
  ultimately show ?thesis unfolding dvd_eq_mod_eq_0 by (rule ssubst [rotated])
qed

lemma end_loop_pad:
  assumes B: "length cnt < B" and w: "length w = B" "take (length m mod B) w = leftover B m"
    and store: "\<And>v. length v = B \<Longrightarrow> store v = mem_write v (B - length cnt) cnt"
  shows "snd (end_loop B (length cnt) store f (w[length m mod B := 0x80]) (length m mod B + 1)
      (absorb f B s m)) = absorb f B s (md_pad B cnt m)"
proof -
  define r where "r = length m mod B"
  define h where "h = absorb f B s m"
  define t where "t = leftover B m"
  have r: "r < B" using B by (simp add: r_def)
  have t: "length t = r" by (simp add: t_def r_def)
  define head where "head = t @ [0x80]"
  have w': "mem_write (w[r := 0x80]) (Suc r) (replicate (B - Suc r) 0)
      = head @ replicate (B - Suc r) 0"
    using w r by (simp add: mem_write_def head_def t_def r_def take_Suc_conv_app_nth)
  have "(length m + 1 + length cnt) mod B = (r + 1 + length cnt) mod B"
    unfolding r_def by (metis mod_add_left_eq)
  then have pad: "absorb f B s (md_pad B cnt m)
      = absorb f B h (head @ replicate ((B - (r + 1 + length cnt) mod B) mod B) 0 @ cnt)"
    using B by (simp add: md_pad_def absorb_leftover(1) [of B f s m] h_def t_def head_def)
  show ?thesis
  proof (cases "r + 1 + length cnt \<le> B")
    case True
    then have z: "(B - (r + 1 + length cnt) mod B) mod B = B - (r + 1 + length cnt)"
      by (cases "r + 1 + length cnt = B") simp_all
    let ?b = "head @ replicate (B - (r + 1 + length cnt)) 0 @ cnt"
    have "mem_write (head @ replicate (B - (r + 1)) 0) (B - length cnt) cnt = ?b"
    proof -
      have "B - length cnt = length head + (B - (r + 1 + length cnt))"
        using True t by (simp add: head_def)
      then have "take (B - length cnt) (head @ replicate (B - (r + 1)) 0)
          = head @ replicate (B - (r + 1 + length cnt)) 0" by (simp add: take_replicate min_def)
      then show ?thesis using True t by (simp add: mem_write_def head_def)
    qed
    moreover have "length ?b = B" and "length cnt \<le> B - Suc r" using True t by (simp_all add: head_def)
    ultimately show ?thesis
      using True B t unfolding pad z h_def [symmetric] r_def [symmetric]
      by (simp add: end_loop.simps [of B _ _ _ "w[r := 0x80]"] w' store absorb_one head_def
          Let_def del: append_assoc)
  next
    case False
    then have "(r + 1 + length cnt) mod B = r + 1 + length cnt - B"
      using B r by (simp add: le_mod_geq)
    then have z: "(B - (r + 1 + length cnt) mod B) mod B = (B - (r + 1)) + (B - length cnt)"
      using False B r by simp
    let ?b1 = "head @ replicate (B - (r + 1)) 0"
    let ?b2 = "replicate (B - length cnt) 0 @ cnt"
    have b: "length ?b1 = B" "length ?b2 = B" using B r t by (simp_all add: head_def)
    have "mem_write (replicate B 0) (B - length cnt) cnt = ?b2"
      using B by (simp add: mem_write_def min_def)
    moreover have "mem_write ?b1 0 (replicate B 0) = replicate B 0" using b(1) by simp
    ultimately have two: "snd (end_loop B (length cnt) store f ?b1 0 (f ?b1 h)) = f ?b2 (f ?b1 h)"
      using B by (subst end_loop.simps) (simp add: store Let_def)
    have split: "head @ replicate ((B - (r + 1)) + (B - length cnt)) 0 @ cnt = ?b1 @ ?b2"
      by (simp only: replicate_add append_assoc)
    have B0: "0 < B" using B by simp
    have "absorb f B s (md_pad B cnt m) = f ?b2 (f ?b1 h)"
      unfolding pad z split absorb_cons [OF b(1) B0] absorb_one [OF b(2) B0] by (rule refl)
    moreover have "\<not> length cnt \<le> B - Suc r" using False r by simp
    ultimately show ?thesis
      using two unfolding h_def [symmetric] r_def [symmetric]
      by (simp add: end_loop.simps [of B _ _ _ "w[r := 0x80]"] w' Let_def)
  qed
qed

section \<open>Hashing in pieces\<close>

text \<open>
  The contract a client of a hash relies on: a context represents the bytes fed so far, an
  update appends an acceptable piece to them, and the result is the digest of the whole message.
\<close>

locale streaming_hash =
  fixes ok :: "byte list \<Rightarrow> bool"
    and rep :: "byte list \<Rightarrow> 'c \<Rightarrow> bool"
    and update :: "'c \<Rightarrow> byte list \<Rightarrow> 'c"
    and finish :: "'c \<Rightarrow> byte list"
    and digest :: "byte list \<Rightarrow> byte list"
  assumes update_rep: "ok d \<Longrightarrow> rep m c \<Longrightarrow> rep (m @ d) (update c d)"
    and finish_rep: "rep m c \<Longrightarrow> finish c = digest m"
begin

lemma updates_rep: "list_all ok ds \<Longrightarrow> rep m c \<Longrightarrow> rep (m @ concat ds) (foldl update c ds)"
proof (induction ds arbitrary: m c)
  case (Cons d ds)
  then have "ok d" by simp
  from Cons.IH [OF _ update_rep [OF this Cons.prems(2)]] Cons.prems(1) show ?case by simp
qed simp

lemma finish_updates:
  "list_all ok ds \<Longrightarrow> rep m c \<Longrightarrow> finish (foldl update c ds) = digest (m @ concat ds)"
  by (rule finish_rep [OF updates_rep])

lemma chunks_irrelevant:
  assumes "list_all ok ds" and "list_all ok es" and "rep m c" and "rep m c'" and "concat ds = concat es"
  shows "finish (foldl update c ds) = finish (foldl update c' es)"
  using assms by (simp add: finish_updates)

end

text \<open>Every piece is acceptable where the code's counter takes any length.\<close>

definition any_piece :: "byte list \<Rightarrow> bool" where "any_piece d \<longleftrightarrow> True"

lemma all_any_piece [simp]: "list_all any_piece ds"
  by (simp add: any_piece_def list_all_iff)

end
