(* ===== verification/Md5_Block.thy ===== *)
theory Md5_Block
  imports Hash_Common
begin

text \<open>
  \<^verbatim>\<open>md5_process_block64\<close> of \<^verbatim>\<open>libbb/hash_md5_sha.c\<close> in its four
  configurations \<^verbatim>\<open>MD5_SMALL\<close> 0 to 3, from fully unrolled to one loop. The four
  registers are a tuple. Straight-line code is a list of the state transformers its macro
  calls stand for, run in order. All configurations are proved equal to the algorithm of
  RFC 1321.
\<close>

type_synonym md5_state = "u32 \<times> u32 \<times> u32 \<times> u32"

section \<open>Round functions and tables\<close>

definition md5_FF :: "u32 \<Rightarrow> u32 \<Rightarrow> u32 \<Rightarrow> u32" where
  "md5_FF b c d = d XOR (b AND (c XOR d))"

definition md5_FG :: "u32 \<Rightarrow> u32 \<Rightarrow> u32 \<Rightarrow> u32" where "md5_FG b c d = md5_FF d b c"

definition md5_FH :: "u32 \<Rightarrow> u32 \<Rightarrow> u32 \<Rightarrow> u32" where "md5_FH b c d = b XOR c XOR d"

definition md5_FI :: "u32 \<Rightarrow> u32 \<Rightarrow> u32 \<Rightarrow> u32" where "md5_FI b c d = c XOR (b OR NOT d)"

definition md5_C_array :: "u32 list" where
  "md5_C_array =
     [0xd76aa478, 0xe8c7b756, 0x242070db, 0xc1bdceee,
      0xf57c0faf, 0x4787c62a, 0xa8304613, 0xfd469501,
      0x698098d8, 0x8b44f7af, 0xffff5bb1, 0x895cd7be,
      0x6b901122, 0xfd987193, 0xa679438e, 0x49b40821,
      0xf61e2562, 0xc040b340, 0x265e5a51, 0xe9b6c7aa,
      0xd62f105d, 0x02441453, 0xd8a1e681, 0xe7d3fbc8,
      0x21e1cde6, 0xc33707d6, 0xf4d50d87, 0x455a14ed,
      0xa9e3e905, 0xfcefa3f8, 0x676f02d9, 0x8d2a4c8a,
      0xfffa3942, 0x8771f681, 0x6d9d6122, 0xfde5380c,
      0xa4beea44, 0x4bdecfa9, 0xf6bb4b60, 0xbebfbc70,
      0x289b7ec6, 0xeaa127fa, 0xd4ef3085, 0x4881d05,
      0xd9d4d039, 0xe6db99e5, 0x1fa27cf8, 0xc4ac5665,
      0xf4292244, 0x432aff97, 0xab9423a7, 0xfc93a039,
      0x655b59c3, 0x8f0ccc92, 0xffeff47d, 0x85845dd1,
      0x6fa87e4f, 0xfe2ce6e0, 0xa3014314, 0x4e0811a1,
      0xf7537e82, 0xbd3af235, 0x2ad7d2bb, 0xeb86d391]"

definition md5_P_array :: "nat list" where
  "md5_P_array =
     [0, 1, 2, 3, 4, 5, 6, 7, 8, 9, 10, 11, 12, 13, 14, 15,
      1, 6, 11, 0, 5, 10, 15, 4, 9, 14, 3, 8, 13, 2, 7, 12,
      5, 8, 11, 14, 1, 4, 7, 10, 13, 0, 3, 6, 9, 12, 15, 2,
      0, 7, 14, 5, 12, 3, 10, 1, 8, 15, 6, 13, 4, 11, 2, 9]"

definition md5_S_array :: "nat list" where
  "md5_S_array = [7, 12, 17, 22, 5, 9, 14, 20, 4, 11, 16, 23, 6, 10, 15, 21]"

section \<open>The loops: MD5_SMALL 3 and 2\<close>

text \<open>\<open>temp = A + F(B, C, D) + words[k] + T\<close>, rotated, with the registers shifted.\<close>

fun md5_turn :: "(u32 \<Rightarrow> u32 \<Rightarrow> u32 \<Rightarrow> u32) \<Rightarrow> u32 list \<Rightarrow> nat \<Rightarrow> nat \<Rightarrow> u32 \<Rightarrow> md5_state \<Rightarrow> md5_state" where
  "md5_turn F words k s T (A, B, C, D) =
     (let temp = A + F B C D + (words ! k + T);
          temp = rotl32 temp s;
          temp = temp + B
      in (D, temp, B, C))"

text \<open>The \<^verbatim>\<open>switch (i >> 4)\<close>.\<close>

definition md5_F :: "nat \<Rightarrow> u32 \<Rightarrow> u32 \<Rightarrow> u32 \<Rightarrow> u32" where
  "md5_F r = (if r = 0 then md5_FF else if r = 1 then md5_FG else if r = 2 then md5_FH else md5_FI)"

text \<open>
  One loop of 64 turns; \<open>pp\<close> and \<open>pc\<close> advance with \<open>i\<close>, \<open>ps\<close> by 4 at each
  multiple of 16, starting 4 before the array.
\<close>

definition md5_rounds_small3 :: "u32 list \<Rightarrow> md5_state \<Rightarrow> md5_state" where
  "md5_rounds_small3 words =
     fold (\<lambda>i. md5_turn (md5_F (i div 16)) words (md5_P_array ! i)
                 (md5_S_array ! (4 * (i div 16) + i mod 4)) (md5_C_array ! i)) [0..<64]"

text \<open>Four loops of 16 turns; the pointers go on from one loop to the next.\<close>

definition md5_loop16 :: "(u32 \<Rightarrow> u32 \<Rightarrow> u32 \<Rightarrow> u32) \<Rightarrow> nat \<Rightarrow> u32 list \<Rightarrow> md5_state \<Rightarrow> md5_state" where
  "md5_loop16 F r words =
     fold (\<lambda>i. md5_turn F words (md5_P_array ! (16 * r + i)) (md5_S_array ! (4 * r + i mod 4))
                 (md5_C_array ! (16 * r + i))) [0..<16]"

definition md5_rounds_small2 :: "u32 list \<Rightarrow> md5_state \<Rightarrow> md5_state" where
  "md5_rounds_small2 words st =
     md5_loop16 md5_FI 3 words (md5_loop16 md5_FH 2 words
       (md5_loop16 md5_FG 1 words (md5_loop16 md5_FF 0 words st)))"

section \<open>The macro code: MD5_SMALL 1 and 0\<close>

text \<open>
  \<^verbatim>\<open>OP(f, a, b, c, d, k, s, T)\<close> updates its first register; the four orders in which
  the code names the registers.
\<close>

fun md5_OP_A :: "(u32 \<Rightarrow> u32 \<Rightarrow> u32 \<Rightarrow> u32) \<Rightarrow> u32 list \<Rightarrow> nat \<Rightarrow> nat \<Rightarrow> u32 \<Rightarrow> md5_state \<Rightarrow> md5_state" where
  "md5_OP_A f words k s T (A, B, C, D) = (rotl32 (A + (f B C D + words ! k + T)) s + B, B, C, D)"

fun md5_OP_D :: "(u32 \<Rightarrow> u32 \<Rightarrow> u32 \<Rightarrow> u32) \<Rightarrow> u32 list \<Rightarrow> nat \<Rightarrow> nat \<Rightarrow> u32 \<Rightarrow> md5_state \<Rightarrow> md5_state" where
  "md5_OP_D f words k s T (A, B, C, D) = (A, B, C, rotl32 (D + (f A B C + words ! k + T)) s + A)"

fun md5_OP_C :: "(u32 \<Rightarrow> u32 \<Rightarrow> u32 \<Rightarrow> u32) \<Rightarrow> u32 list \<Rightarrow> nat \<Rightarrow> nat \<Rightarrow> u32 \<Rightarrow> md5_state \<Rightarrow> md5_state" where
  "md5_OP_C f words k s T (A, B, C, D) = (A, B, rotl32 (C + (f D A B + words ! k + T)) s + D, D)"

fun md5_OP_B :: "(u32 \<Rightarrow> u32 \<Rightarrow> u32 \<Rightarrow> u32) \<Rightarrow> u32 list \<Rightarrow> nat \<Rightarrow> nat \<Rightarrow> u32 \<Rightarrow> md5_state \<Rightarrow> md5_state" where
  "md5_OP_B f words k s T (A, B, C, D) = (A, rotl32 (B + (f C D A + words ! k + T)) s + C, C, D)"

text \<open>Straight-line code.\<close>

definition run_ops :: "('s \<Rightarrow> 's) list \<Rightarrow> 's \<Rightarrow> 's" where "run_ops ops = fold (\<lambda>op. op) ops"

text \<open>
  \<^verbatim>\<open>MD5_SMALL == 1\<close>: rounds of four turns with four macro calls each. In the first
  round \<open>words\<close> itself advances, in the others \<open>pp\<close> runs through the array, which has no
  entries for the first round in this configuration.
\<close>

definition md5_round1_small1 :: "u32 list \<Rightarrow> md5_state \<Rightarrow> md5_state" where
  "md5_round1_small1 words =
     fold (\<lambda>i. run_ops
       [md5_OP_A md5_FF words (4 * i) 7 (md5_C_array ! (4 * i)),
        md5_OP_D md5_FF words (4 * i + 1) 12 (md5_C_array ! (4 * i + 1)),
        md5_OP_C md5_FF words (4 * i + 2) 17 (md5_C_array ! (4 * i + 2)),
        md5_OP_B md5_FF words (4 * i + 3) 22 (md5_C_array ! (4 * i + 3))]) [0..<4]"

definition md5_round_small1 ::
  "(u32 \<Rightarrow> u32 \<Rightarrow> u32 \<Rightarrow> u32) \<Rightarrow> nat \<Rightarrow> nat \<Rightarrow> nat \<Rightarrow> nat \<Rightarrow> nat \<Rightarrow> u32 list \<Rightarrow> md5_state \<Rightarrow> md5_state" where
  "md5_round_small1 F r s1 s2 s3 s4 words =
     (let P = drop 16 md5_P_array; pp = 16 * (r - 1); pc = 16 * r
      in fold (\<lambda>i. run_ops
           [md5_OP_A F words (P ! (pp + 4 * i)) s1 (md5_C_array ! (pc + 4 * i)),
            md5_OP_D F words (P ! (pp + 4 * i + 1)) s2 (md5_C_array ! (pc + 4 * i + 1)),
            md5_OP_C F words (P ! (pp + 4 * i + 2)) s3 (md5_C_array ! (pc + 4 * i + 2)),
            md5_OP_B F words (P ! (pp + 4 * i + 3)) s4 (md5_C_array ! (pc + 4 * i + 3))]) [0..<4])"

definition md5_rounds_small1 :: "u32 list \<Rightarrow> md5_state \<Rightarrow> md5_state" where
  "md5_rounds_small1 words st =
     md5_round_small1 md5_FI 3 6 10 15 21 words (md5_round_small1 md5_FH 2 4 11 16 23 words
       (md5_round_small1 md5_FG 1 5 9 14 20 words (md5_round1_small1 words st)))"

text \<open>\<^verbatim>\<open>MD5_SMALL == 0\<close>: all 64 calls written out, with their constants.\<close>

definition md5_round1_small0 :: "u32 list \<Rightarrow> md5_state \<Rightarrow> md5_state" where
  "md5_round1_small0 words = run_ops
     [md5_OP_A md5_FF words 0 7 0xd76aa478,
      md5_OP_D md5_FF words 1 12 0xe8c7b756,
      md5_OP_C md5_FF words 2 17 0x242070db,
      md5_OP_B md5_FF words 3 22 0xc1bdceee,
      md5_OP_A md5_FF words 4 7 0xf57c0faf,
      md5_OP_D md5_FF words 5 12 0x4787c62a,
      md5_OP_C md5_FF words 6 17 0xa8304613,
      md5_OP_B md5_FF words 7 22 0xfd469501,
      md5_OP_A md5_FF words 8 7 0x698098d8,
      md5_OP_D md5_FF words 9 12 0x8b44f7af,
      md5_OP_C md5_FF words 10 17 0xffff5bb1,
      md5_OP_B md5_FF words 11 22 0x895cd7be,
      md5_OP_A md5_FF words 12 7 0x6b901122,
      md5_OP_D md5_FF words 13 12 0xfd987193,
      md5_OP_C md5_FF words 14 17 0xa679438e,
      md5_OP_B md5_FF words 15 22 0x49b40821]"

definition md5_round2_small0 :: "u32 list \<Rightarrow> md5_state \<Rightarrow> md5_state" where
  "md5_round2_small0 words = run_ops
     [md5_OP_A md5_FG words 1 5 0xf61e2562,
      md5_OP_D md5_FG words 6 9 0xc040b340,
      md5_OP_C md5_FG words 11 14 0x265e5a51,
      md5_OP_B md5_FG words 0 20 0xe9b6c7aa,
      md5_OP_A md5_FG words 5 5 0xd62f105d,
      md5_OP_D md5_FG words 10 9 0x02441453,
      md5_OP_C md5_FG words 15 14 0xd8a1e681,
      md5_OP_B md5_FG words 4 20 0xe7d3fbc8,
      md5_OP_A md5_FG words 9 5 0x21e1cde6,
      md5_OP_D md5_FG words 14 9 0xc33707d6,
      md5_OP_C md5_FG words 3 14 0xf4d50d87,
      md5_OP_B md5_FG words 8 20 0x455a14ed,
      md5_OP_A md5_FG words 13 5 0xa9e3e905,
      md5_OP_D md5_FG words 2 9 0xfcefa3f8,
      md5_OP_C md5_FG words 7 14 0x676f02d9,
      md5_OP_B md5_FG words 12 20 0x8d2a4c8a]"

definition md5_round3_small0 :: "u32 list \<Rightarrow> md5_state \<Rightarrow> md5_state" where
  "md5_round3_small0 words = run_ops
     [md5_OP_A md5_FH words 5 4 0xfffa3942,
      md5_OP_D md5_FH words 8 11 0x8771f681,
      md5_OP_C md5_FH words 11 16 0x6d9d6122,
      md5_OP_B md5_FH words 14 23 0xfde5380c,
      md5_OP_A md5_FH words 1 4 0xa4beea44,
      md5_OP_D md5_FH words 4 11 0x4bdecfa9,
      md5_OP_C md5_FH words 7 16 0xf6bb4b60,
      md5_OP_B md5_FH words 10 23 0xbebfbc70,
      md5_OP_A md5_FH words 13 4 0x289b7ec6,
      md5_OP_D md5_FH words 0 11 0xeaa127fa,
      md5_OP_C md5_FH words 3 16 0xd4ef3085,
      md5_OP_B md5_FH words 6 23 0x04881d05,
      md5_OP_A md5_FH words 9 4 0xd9d4d039,
      md5_OP_D md5_FH words 12 11 0xe6db99e5,
      md5_OP_C md5_FH words 15 16 0x1fa27cf8,
      md5_OP_B md5_FH words 2 23 0xc4ac5665]"

definition md5_round4_small0 :: "u32 list \<Rightarrow> md5_state \<Rightarrow> md5_state" where
  "md5_round4_small0 words = run_ops
     [md5_OP_A md5_FI words 0 6 0xf4292244,
      md5_OP_D md5_FI words 7 10 0x432aff97,
      md5_OP_C md5_FI words 14 15 0xab9423a7,
      md5_OP_B md5_FI words 5 21 0xfc93a039,
      md5_OP_A md5_FI words 12 6 0x655b59c3,
      md5_OP_D md5_FI words 3 10 0x8f0ccc92,
      md5_OP_C md5_FI words 10 15 0xffeff47d,
      md5_OP_B md5_FI words 1 21 0x85845dd1,
      md5_OP_A md5_FI words 8 6 0x6fa87e4f,
      md5_OP_D md5_FI words 15 10 0xfe2ce6e0,
      md5_OP_C md5_FI words 6 15 0xa3014314,
      md5_OP_B md5_FI words 13 21 0x4e0811a1,
      md5_OP_A md5_FI words 4 6 0xf7537e82,
      md5_OP_D md5_FI words 11 10 0xbd3af235,
      md5_OP_C md5_FI words 2 15 0x2ad7d2bb,
      md5_OP_B md5_FI words 9 21 0xeb86d391]"

definition md5_rounds_small0 :: "u32 list \<Rightarrow> md5_state \<Rightarrow> md5_state" where
  "md5_rounds_small0 words st =
     md5_round4_small0 words (md5_round3_small0 words (md5_round2_small0 words
       (md5_round1_small0 words st)))"

section \<open>The block function\<close>

text \<open>
  The whole function for a configuration: the registers from the hash, the rounds on the
  words of the buffer, the sums. Words beyond the fourth are not touched.
\<close>

definition md5_rounds :: "nat \<Rightarrow> u32 list \<Rightarrow> md5_state \<Rightarrow> md5_state" where
  "md5_rounds small =
     (if small = 0 then md5_rounds_small0 else if small = 1 then md5_rounds_small1
      else if small = 2 then md5_rounds_small2 else md5_rounds_small3)"

definition md5_process_block64 :: "nat \<Rightarrow> byte list \<Rightarrow> u32 list \<Rightarrow> u32 list" where
  "md5_process_block64 small wbuffer hash =
     (case md5_rounds small (words32 wbuffer) (hash ! 0, hash ! 1, hash ! 2, hash ! 3) of
        (A, B, C, D) \<Rightarrow> [hash ! 0 + A, hash ! 1 + B, hash ! 2 + C, hash ! 3 + D] @ drop 4 hash)"

section \<open>The configurations agree\<close>

lemma fold_upt_shift: "fold g [k..<k + n] = fold (\<lambda>i. g (k + i)) [0..<n]"
proof -
  have "[k..<k + n] = map (\<lambda>i. k + i) [0..<n]" by (simp add: map_add_upt add.commute)
  then show ?thesis by (simp add: fold_map comp_def)
qed

lemma md5_small3_loop16:
  assumes "r < 4"
  shows "fold (\<lambda>i. md5_turn (md5_F (i div 16)) words (md5_P_array ! i)
      (md5_S_array ! (4 * (i div 16) + i mod 4)) (md5_C_array ! i)) [16 * r..<16 * r + 16]
    = md5_loop16 (md5_F r) r words"
proof -
  have "(16 * r + i) div 16 = r \<and> (16 * r + i) mod 4 = i mod 4" if "i < 16" for i :: nat
  proof
    show "(16 * r + i) div 16 = r" using that by simp
    have "16 * r + i = i + 4 * (4 * r)" by simp
    then show "(16 * r + i) mod 4 = i mod 4" by (metis mod_mult_self2)
  qed
  then show ?thesis
    unfolding fold_upt_shift md5_loop16_def by (auto intro!: ext fold_cong)
qed

lemma md5_small3_small2: "md5_rounds_small3 words = md5_rounds_small2 words"
proof -
  have "[0..<64] = [16 * 0..<16 * 0 + 16] @ [16 * 1..<16 * 1 + 16] @ [16 * 2..<16 * 2 + 16]
      @ [16 * 3..<16 * 3 + 16 :: nat]"
    using upt_add_eq_append [of 0 16 48] upt_add_eq_append [of 16 32 32]
      upt_add_eq_append [of 32 48 16] by (simp add: upt_rec)
  then show ?thesis
    unfolding md5_rounds_small3_def md5_rounds_small2_def
    by (simp only: fold_append md5_small3_loop16 comp_def fun_eq_iff) (simp add: md5_F_def)
qed

text \<open>Four macro calls are four turns: the registers come back to their places.\<close>

lemma md5_quad:
  "md5_OP_B F w k4 s4 T4 (md5_OP_C F w k3 s3 T3 (md5_OP_D F w k2 s2 T2 (md5_OP_A F w k1 s1 T1 st)))
    = md5_turn F w k4 s4 T4 (md5_turn F w k3 s3 T3 (md5_turn F w k2 s2 T2 (md5_turn F w k1 s1 T1 st)))"
  by (cases st) (simp add: Let_def add.assoc)

lemma upt_16: "[0..<16 :: nat] = [0, 1, 2, 3, 4, 5, 6, 7, 8, 9, 10, 11, 12, 13, 14, 15]"
  by (simp add: upt_rec)

lemma upt_4: "[0..<4 :: nat] = [0, 1, 2, 3]"
  by (simp add: upt_rec)

lemmas md5_unroll = run_ops_def md5_quad fold_simps upt_16 upt_4 numeral_2_eq_2 [symmetric]

lemmas md5_tables = md5_C_array_def md5_P_array_def md5_S_array_def

lemma md5_round1_small1: "md5_round1_small1 words st = md5_loop16 md5_FF 0 words st"
  by (simp add: md5_round1_small1_def md5_loop16_def md5_unroll md5_P_array_def md5_S_array_def)

lemma md5_round_small1:
  "md5_round_small1 F 1 5 9 14 20 words st = md5_loop16 F 1 words st"
  "md5_round_small1 F 2 4 11 16 23 words st = md5_loop16 F 2 words st"
  "md5_round_small1 F 3 6 10 15 21 words st = md5_loop16 F 3 words st"
  by (simp_all add: md5_round_small1_def md5_loop16_def md5_unroll md5_P_array_def md5_S_array_def Let_def)

lemma md5_small1_small2: "md5_rounds_small1 words = md5_rounds_small2 words"
  by (simp add: fun_eq_iff md5_rounds_small1_def md5_rounds_small2_def md5_round1_small1 md5_round_small1
      del: One_nat_def)

lemma md5_round_small0:
  "md5_round1_small0 words st = md5_loop16 md5_FF 0 words st"
  "md5_round2_small0 words st = md5_loop16 md5_FG 1 words st"
  "md5_round3_small0 words st = md5_loop16 md5_FH 2 words st"
  "md5_round4_small0 words st = md5_loop16 md5_FI 3 words st"
  by (simp_all add: md5_round1_small0_def md5_round2_small0_def md5_round3_small0_def
      md5_round4_small0_def md5_loop16_def md5_unroll md5_tables)

lemma md5_small0_small2: "md5_rounds_small0 words = md5_rounds_small2 words"
  by (simp add: fun_eq_iff md5_rounds_small0_def md5_rounds_small2_def md5_round_small0)

section \<open>RFC 1321\<close>

text \<open>The round functions and word order as section 3.4 of the RFC gives them.\<close>

definition rfc1321_F :: "nat \<Rightarrow> u32 \<Rightarrow> u32 \<Rightarrow> u32 \<Rightarrow> u32" where
  "rfc1321_F r x y z =
     (if r = 0 then (x AND y) OR (NOT x AND z) else if r = 1 then (x AND z) OR (y AND NOT z)
      else if r = 2 then x XOR y XOR z else y XOR (x OR NOT z))"

definition rfc1321_k :: "nat \<Rightarrow> nat" where
  "rfc1321_k i =
     (if i < 16 then i else if i < 32 then (5 * i + 1) mod 16
      else if i < 48 then (3 * i + 5) mod 16 else 7 * i mod 16)"

definition rfc1321_rounds :: "u32 list \<Rightarrow> md5_state \<Rightarrow> md5_state" where
  "rfc1321_rounds words =
     fold (\<lambda>i. md5_turn (rfc1321_F (i div 16)) words (rfc1321_k i)
                 (md5_S_array ! (4 * (i div 16) + i mod 4)) (md5_C_array ! i)) [0..<64]"

lemma md5_F_rfc: "r < 4 \<Longrightarrow> md5_F r = rfc1321_F r"
proof -
  have "md5_FF b c d = (b AND c) OR (NOT b AND d)" for b c d
    unfolding md5_FF_def by (rule bit_word_eqI) (auto simp: bit_simps)
  moreover have "md5_FF d b c = (b AND d) OR (c AND NOT d)" for b c d
    unfolding md5_FF_def by (rule bit_word_eqI) (auto simp: bit_simps)
  ultimately show ?thesis
    by (simp add: fun_eq_iff md5_F_def rfc1321_F_def md5_FG_def md5_FH_def md5_FI_def)
qed

lemma md5_P_rfc: "i < 64 \<Longrightarrow> md5_P_array ! i = rfc1321_k i"
proof -
  have "md5_P_array = map rfc1321_k [0..<64]"
    by (simp add: md5_P_array_def rfc1321_k_def upt_rec)
  moreover assume "i < 64"
  then have "map rfc1321_k [0..<64] ! i = rfc1321_k i" by (subst nth_map) simp_all
  ultimately show ?thesis by (rule ssubst)
qed

lemma md5_rounds_rfc: "md5_rounds small words = rfc1321_rounds words"
proof -
  have "md5_rounds_small3 words = rfc1321_rounds words"
    unfolding md5_rounds_small3_def rfc1321_rounds_def
    by (intro ext fold_cong) (auto simp: md5_F_rfc md5_P_rfc)
  then show ?thesis
    by (simp add: md5_rounds_def md5_small0_small2 md5_small1_small2 md5_small3_small2)
qed

lemma md5_block_frame:
  assumes "length x = 4"
  shows "md5_process_block64 small b (x @ r) = md5_process_block64 small b x @ r"
    and "length (md5_process_block64 small b x) = 4"
  using assms by (simp_all add: md5_process_block64_def nth_append split: prod.split)

section \<open>Properties\<close>

text \<open>The four configurations of \<^verbatim>\<open>md5_process_block64\<close>, from the fully unrolled code
  to the single loop, compute the same function on every block and hash state, and it is the
  compression function of RFC 1321 with its round functions and word order.\<close>

theorem md5_variants_rfc1321:
  "md5_process_block64 small wbuffer hash =
     (case rfc1321_rounds (words32 wbuffer) (hash ! 0, hash ! 1, hash ! 2, hash ! 3) of
        (A, B, C, D) \<Rightarrow> [hash ! 0 + A, hash ! 1 + B, hash ! 2 + C, hash ! 3 + D] @ drop 4 hash)"
  by (simp add: md5_process_block64_def md5_rounds_rfc)

end
