(* ===== verification/Sha1_Block.thy ===== *)
theory Sha1_Block
  imports Md5_Block
begin

text \<open>
  \<^verbatim>\<open>sha1_process_block64\<close> of \<^verbatim>\<open>libbb/hash_md5_sha.c\<close> in its three portable
  configurations: fully unrolled, middle-sized (\<^verbatim>\<open>CONFIG_SHA1_SMALL == 1\<close>) and compact.
  The work array is a function from indices to words, since it starts uninitialised: its first
  contents \<open>W0\<close> are arbitrary. The three are proved equal to the algorithm of FIPS 180.
\<close>

type_synonym sha1_state = "u32 \<times> u32 \<times> u32 \<times> u32 \<times> u32"
type_synonym warray = "nat \<Rightarrow> u32"

definition sha1_rconsts :: "u32 list" where
  "sha1_rconsts = [0x5A827999, 0x6ED9EBA1, 0x8F1BBCDC, 0xCA62C1D6]"

text \<open>The three expressions \<^verbatim>\<open>EXPR(b, c, d)\<close>.\<close>

definition sha1_ch :: "u32 \<Rightarrow> u32 \<Rightarrow> u32 \<Rightarrow> u32" where
  "sha1_ch b c d = ((c XOR d) AND b) XOR d"

definition sha1_parity :: "u32 \<Rightarrow> u32 \<Rightarrow> u32 \<Rightarrow> u32" where
  "sha1_parity b c d = c XOR d XOR b"

definition sha1_maj :: "u32 \<Rightarrow> u32 \<Rightarrow> u32 \<Rightarrow> u32" where
  "sha1_maj b c d = ((b OR c) AND d) OR (b AND c)"

section \<open>Fully unrolled\<close>

text \<open>The store into \<open>W[n & 15]\<close> that the macro does first.\<close>

definition sha1_W16 :: "u32 list \<Rightarrow> nat \<Rightarrow> warray \<Rightarrow> warray" where
  "sha1_W16 words n W =
     (if n \<le> 15 then W(n mod 16 := bswap32 (words ! n))
      else W(n mod 16 := rotl32 (W ((n + 13) mod 16) XOR W ((n + 8) mod 16) XOR W ((n + 2) mod 16)
                                  XOR W (n mod 16)) 1))"

text \<open>
  \<^verbatim>\<open>OP(A, B, C, D, E, n)\<close> changes \<open>E\<close> and \<open>B\<close>; \<open>w\<close> is the word and \<open>k\<close> the
  constant of the step. The five orders of the registers in \<^verbatim>\<open>OP20\<close>.
\<close>

fun sha1_op_a :: "(u32 \<Rightarrow> u32 \<Rightarrow> u32 \<Rightarrow> u32) \<Rightarrow> u32 \<Rightarrow> u32 \<Rightarrow> sha1_state \<Rightarrow> sha1_state" where
  "sha1_op_a F w k (a, b, c, d, e) = (a, rotl32 b 30, c, d, e + ((F b c d + w) + rotl32 a 5 + k))"

fun sha1_op_e :: "(u32 \<Rightarrow> u32 \<Rightarrow> u32 \<Rightarrow> u32) \<Rightarrow> u32 \<Rightarrow> u32 \<Rightarrow> sha1_state \<Rightarrow> sha1_state" where
  "sha1_op_e F w k (a, b, c, d, e) = (rotl32 a 30, b, c, d + ((F a b c + w) + rotl32 e 5 + k), e)"

fun sha1_op_d :: "(u32 \<Rightarrow> u32 \<Rightarrow> u32 \<Rightarrow> u32) \<Rightarrow> u32 \<Rightarrow> u32 \<Rightarrow> sha1_state \<Rightarrow> sha1_state" where
  "sha1_op_d F w k (a, b, c, d, e) = (a, b, c + ((F e a b + w) + rotl32 d 5 + k), d, rotl32 e 30)"

fun sha1_op_c :: "(u32 \<Rightarrow> u32 \<Rightarrow> u32 \<Rightarrow> u32) \<Rightarrow> u32 \<Rightarrow> u32 \<Rightarrow> sha1_state \<Rightarrow> sha1_state" where
  "sha1_op_c F w k (a, b, c, d, e) = (a, b + ((F d e a + w) + rotl32 c 5 + k), c, rotl32 d 30, e)"

fun sha1_op_b :: "(u32 \<Rightarrow> u32 \<Rightarrow> u32 \<Rightarrow> u32) \<Rightarrow> u32 \<Rightarrow> u32 \<Rightarrow> sha1_state \<Rightarrow> sha1_state" where
  "sha1_op_b F w k (a, b, c, d, e) = (a + ((F c d e + w) + rotl32 b 5 + k), b, rotl32 c 30, d, e)"

definition sha1_OP ::
  "((u32 \<Rightarrow> u32 \<Rightarrow> u32 \<Rightarrow> u32) \<Rightarrow> u32 \<Rightarrow> u32 \<Rightarrow> sha1_state \<Rightarrow> sha1_state)
    \<Rightarrow> (u32 \<Rightarrow> u32 \<Rightarrow> u32 \<Rightarrow> u32) \<Rightarrow> u32 list \<Rightarrow> nat \<Rightarrow> warray \<times> sha1_state \<Rightarrow> warray \<times> sha1_state" where
  "sha1_OP op F words n WS =
     (let W' = sha1_W16 words n (fst WS)
      in (W', op F (W' (n mod 16)) (sha1_rconsts ! (n div 20)) (snd WS)))"

definition sha1_OP20 :: "(u32 \<Rightarrow> u32 \<Rightarrow> u32 \<Rightarrow> u32) \<Rightarrow> u32 list \<Rightarrow> nat \<Rightarrow> warray \<times> sha1_state \<Rightarrow> warray \<times> sha1_state" where
  "sha1_OP20 F words n = run_ops
     [sha1_OP sha1_op_a F words (n + 0), sha1_OP sha1_op_e F words (n + 1),
      sha1_OP sha1_op_d F words (n + 2), sha1_OP sha1_op_c F words (n + 3),
      sha1_OP sha1_op_b F words (n + 4),
      sha1_OP sha1_op_a F words (n + 5), sha1_OP sha1_op_e F words (n + 6),
      sha1_OP sha1_op_d F words (n + 7), sha1_OP sha1_op_c F words (n + 8),
      sha1_OP sha1_op_b F words (n + 9),
      sha1_OP sha1_op_a F words (n + 10), sha1_OP sha1_op_e F words (n + 11),
      sha1_OP sha1_op_d F words (n + 12), sha1_OP sha1_op_c F words (n + 13),
      sha1_OP sha1_op_b F words (n + 14),
      sha1_OP sha1_op_a F words (n + 15), sha1_OP sha1_op_e F words (n + 16),
      sha1_OP sha1_op_d F words (n + 17), sha1_OP sha1_op_c F words (n + 18),
      sha1_OP sha1_op_b F words (n + 19)]"

definition sha1_rounds_unrolled :: "warray \<Rightarrow> u32 list \<Rightarrow> sha1_state \<Rightarrow> sha1_state" where
  "sha1_rounds_unrolled W0 words st = snd (run_ops
     [sha1_OP20 sha1_ch words 0, sha1_OP20 sha1_parity words 20,
      sha1_OP20 sha1_maj words 40, sha1_OP20 sha1_parity words 60] (W0, st))"

section \<open>Middle-sized\<close>

text \<open>\<open>work\<close> and the rotation of the registers, common to all loops.\<close>

fun sha1_turn :: "(u32 \<Rightarrow> u32 \<Rightarrow> u32 \<Rightarrow> u32) \<Rightarrow> u32 \<Rightarrow> u32 \<Rightarrow> sha1_state \<Rightarrow> sha1_state" where
  "sha1_turn F w k (a, b, c, d, e) =
     (let work = F b c d + w; work = work + (e + rotl32 a 5 + k)
      in (work, a, rotl32 b 30, c, d))"

text \<open>\<open>W[n] = W[n+16] = v\<close>, with the two values the loops store.\<close>

definition sha1_load32 :: "u32 list \<Rightarrow> nat \<Rightarrow> warray \<Rightarrow> warray" where
  "sha1_load32 words n W = (let v = bswap32 (words ! n) in W(n + 16 := v, n := v))"

definition sha1_next32 :: "nat \<Rightarrow> warray \<Rightarrow> warray" where
  "sha1_next32 n W =
     (let v = rotl32 (W (n + 13) XOR W (n + 8) XOR W (n + 2) XOR W n) 1 in W(n + 16 := v, n := v))"

text \<open>The body of the first loop, and of the four others.\<close>

fun sha1_mid_load :: "u32 list \<Rightarrow> nat \<times> warray \<times> sha1_state \<Rightarrow> nat \<times> warray \<times> sha1_state" where
  "sha1_mid_load words (n, W, st) =
     (let W' = sha1_load32 words n W
      in ((n + 1) mod 16, W', sha1_turn sha1_ch (W' n) (sha1_rconsts ! 0) st))"

fun sha1_mid_body ::
  "(u32 \<Rightarrow> u32 \<Rightarrow> u32 \<Rightarrow> u32) \<Rightarrow> u32 \<Rightarrow> nat \<times> warray \<times> sha1_state \<Rightarrow> nat \<times> warray \<times> sha1_state" where
  "sha1_mid_body F k (n, W, st) =
     (let W' = sha1_next32 n W in ((n + 1) mod 16, W', sha1_turn F (W' n) k st))"

text \<open>
  The five \<^verbatim>\<open>do\<close> loops: 16 turns until \<open>n\<close> is back at 0, 4 turns until \<open>n\<close> is 4,
  and three times 20 turns while \<open>j\<close> counts down from 19.
\<close>

definition sha1_rounds_mid :: "warray \<Rightarrow> u32 list \<Rightarrow> sha1_state \<Rightarrow> sha1_state" where
  "sha1_rounds_mid W0 words st =
     (let l1 = (sha1_mid_load words ^^ 16) (0, W0, st);
          l2 = (sha1_mid_body sha1_ch (sha1_rconsts ! 0) ^^ 4) l1;
          l3 = (sha1_mid_body sha1_parity (sha1_rconsts ! 1) ^^ 20) l2;
          l4 = (sha1_mid_body sha1_maj (sha1_rconsts ! 2) ^^ 20) l3;
          l5 = (sha1_mid_body sha1_parity (sha1_rconsts ! 3) ^^ 20) l4
      in snd (snd l5))"

section \<open>Compact\<close>

text \<open>
  One turn of the inner loop. In the first round (\<open>i = 0\<close>) the first 16 words are used as
  they are; from \<open>j = 3\<close> downwards, and in all other rounds, the code goes on at
  \<open>ge16\<close>.
\<close>

fun sha1_small_body :: "nat \<Rightarrow> nat \<Rightarrow> nat \<times> warray \<times> sha1_state \<Rightarrow> nat \<times> warray \<times> sha1_state" where
  "sha1_small_body i j (n, W, (a, b, c, d, e)) =
     (let work = c XOR d;
          work = (if i = 0 then (work AND b) XOR d
                  else if i = 2 then ((b OR c) AND d) OR (b AND c)
                  else work XOR b);
          W' = (if i = 0 \<and> \<not> j \<le> 3 then W else sha1_next32 n W);
          work = work + W' n;
          work = work + (e + rotl32 a 5 + sha1_rconsts ! i)
      in ((n + 1) mod 16, W', (work, a, rotl32 b 30, c, d)))"

definition sha1_rounds_small :: "warray \<Rightarrow> u32 list \<Rightarrow> sha1_state \<Rightarrow> sha1_state" where
  "sha1_rounds_small W0 words st =
     (let W = fold (sha1_load32 words) [0..<16] W0
      in snd (snd (fold (\<lambda>i. fold (sha1_small_body i) (rev [0..<20])) [0..<4] (0, W, st))))"

section \<open>The block function\<close>

text \<open>
  \<open>small\<close> is \<^verbatim>\<open>CONFIG_SHA1_SMALL\<close>; for 0 the portable code is meant (on x86 an
  assembler version takes its place).
\<close>

definition sha1_rounds :: "nat \<Rightarrow> warray \<Rightarrow> u32 list \<Rightarrow> sha1_state \<Rightarrow> sha1_state" where
  "sha1_rounds small =
     (if small = 0 then sha1_rounds_unrolled else if small = 1 then sha1_rounds_mid
      else sha1_rounds_small)"

definition sha1_process_block64 :: "nat \<Rightarrow> warray \<Rightarrow> byte list \<Rightarrow> u32 list \<Rightarrow> u32 list" where
  "sha1_process_block64 small W0 wbuffer hash =
     (case sha1_rounds small W0 (words32 wbuffer) (hash ! 0, hash ! 1, hash ! 2, hash ! 3, hash ! 4) of
        (a, b, c, d, e) \<Rightarrow>
          [hash ! 0 + a, hash ! 1 + b, hash ! 2 + c, hash ! 3 + d, hash ! 4 + e] @ drop 5 hash)"

section \<open>FIPS 180\<close>

text \<open>The message schedule and the 80 steps of the standard.\<close>

function fips_W :: "u32 list \<Rightarrow> nat \<Rightarrow> u32" where
  "fips_W words t =
     (if t < 16 then bswap32 (words ! t)
      else rotl32 (fips_W words (t - 3) XOR fips_W words (t - 8) XOR fips_W words (t - 14)
                   XOR fips_W words (t - 16)) 1)"
  by pat_completeness auto
termination
  by (relation "measure snd") auto

declare fips_W.simps [simp del]

definition fips_f :: "nat \<Rightarrow> u32 \<Rightarrow> u32 \<Rightarrow> u32 \<Rightarrow> u32" where
  "fips_f t x y z =
     (if t < 20 then (x AND y) XOR (NOT x AND z)
      else if t < 40 then x XOR y XOR z
      else if t < 60 then (x AND y) XOR (x AND z) XOR (y AND z)
      else x XOR y XOR z)"

definition fips_step :: "u32 list \<Rightarrow> nat \<Rightarrow> sha1_state \<Rightarrow> sha1_state" where
  "fips_step words t st =
     (case st of (a, b, c, d, e) \<Rightarrow>
        (rotl32 a 5 + fips_f t b c d + e + sha1_rconsts ! (t div 20) + fips_W words t,
         a, rotl32 b 30, c, d))"

definition fips_rounds :: "u32 list \<Rightarrow> nat \<Rightarrow> sha1_state \<Rightarrow> sha1_state" where
  "fips_rounds words t = fold (fips_step words) [0..<t]"

lemma fips_rounds_0 [simp]: "fips_rounds words 0 st = st"
  by (simp add: fips_rounds_def)

lemma fips_rounds_Suc [simp]: "fips_rounds words (Suc t) st = fips_step words t (fips_rounds words t st)"
  by (simp add: fips_rounds_def)

text \<open>The code's expressions are the standard's functions.\<close>

lemma sha1_exprs:
  "sha1_ch b c d = (b AND c) XOR (NOT b AND d)"
  "sha1_parity b c d = b XOR c XOR d"
  "sha1_maj b c d = (b AND c) XOR (b AND d) XOR (c AND d)"
  unfolding sha1_ch_def sha1_parity_def sha1_maj_def
  by (rule bit_word_eqI; auto simp: bit_simps)+

definition sha1_F :: "nat \<Rightarrow> u32 \<Rightarrow> u32 \<Rightarrow> u32 \<Rightarrow> u32" where
  "sha1_F i = (if i = 0 then sha1_ch else if i = 2 then sha1_maj else sha1_parity)"

lemma sha1_F_fips: "t < 80 \<Longrightarrow> sha1_F (t div 20) = fips_f t"
proof -
  assume "t < 80"
  then have "t div 20 = 0 \<and> t < 20 \<or> t div 20 = 1 \<and> 20 \<le> t \<and> t < 40
      \<or> t div 20 = 2 \<and> 40 \<le> t \<and> t < 60 \<or> t div 20 = 3 \<and> 60 \<le> t" by linarith
  then show ?thesis by (auto simp: fun_eq_iff sha1_F_def fips_f_def sha1_exprs)
qed

lemma fips_step_turn:
  "t < 80 \<Longrightarrow> fips_step words t st =
     sha1_turn (sha1_F (t div 20)) (fips_W words t) (sha1_rconsts ! (t div 20)) st"
  by (cases st) (simp add: fips_step_def sha1_F_fips Let_def ac_simps)

section \<open>The circular message schedule\<close>

text \<open>
  Before step \<open>t\<close> the last 16 schedule words are in the array, each at its index modulo 16;
  the loops that use 32 entries keep a second copy 16 higher.
\<close>

definition window :: "u32 list \<Rightarrow> nat \<Rightarrow> warray \<Rightarrow> bool" where
  "window words t W \<longleftrightarrow> (\<forall>s<t. t \<le> s + 16 \<longrightarrow> W (s mod 16) = fips_W words s)"

definition window32 :: "u32 list \<Rightarrow> nat \<Rightarrow> warray \<Rightarrow> bool" where
  "window32 words t W \<longleftrightarrow> window words t W \<and> (\<forall>k<16. k < t \<longrightarrow> W (k + 16) = W k)"

lemma mod_16_neq:
  fixes s t :: nat
  assumes "s < t" and "t < s + 16"
  shows "s mod 16 \<noteq> t mod 16"
proof
  assume "s mod 16 = t mod 16"
  then have "16 dvd t - s" using assms(1) mod_eq_dvd_iff_nat [of s t 16] by simp
  then have "16 \<le> t - s" using assms(1) by (intro dvd_imp_le) simp_all
  then show False using assms(2) by simp
qed

lemma window_upd:
  assumes "window words t W" and "v = fips_W words t"
  shows "window words (Suc t) (W(t mod 16 := v))"
  unfolding window_def
proof (intro allI impI)
  fix s assume s: "s < Suc t" "Suc t \<le> s + 16"
  show "(W(t mod 16 := v)) (s mod 16) = fips_W words s"
  proof (cases "s = t")
    case True
    then show ?thesis using assms(2) by simp
  next
    case False
    then have "s < t" "t < s + 16" using s by simp_all
    then show ?thesis using assms(1) mod_16_neq [of s t] by (simp add: window_def)
  qed
qed

lemma window_recurrence:
  assumes "window words t W" and "16 \<le> t"
  shows "rotl32 (W ((t + 13) mod 16) XOR W ((t + 8) mod 16) XOR W ((t + 2) mod 16) XOR W (t mod 16)) 1
    = fips_W words t"
proof -
  have at: "W ((t + (16 - j)) mod 16) = fips_W words (t - j)" if "0 < j" "j \<le> 16" for j
  proof -
    have "t + (16 - j) = (t - j) + 16" using that assms(2) by simp
    then have "(t + (16 - j)) mod 16 = (t - j) mod 16" by simp
    then show ?thesis using assms that by (simp add: window_def)
  qed
  show ?thesis
    using at [of 3] at [of 8] at [of 14] at [of 16] assms(2)
    by (subst fips_W.simps) simp
qed

lemma sha1_W16_step:
  assumes "window words t W"
  shows "sha1_W16 words t W (t mod 16) = fips_W words t" and "window words (Suc t) (sha1_W16 words t W)"
proof -
  have eq: "sha1_W16 words t W = W(t mod 16 := fips_W words t)"
  proof (cases "t \<le> 15")
    case True
    then show ?thesis by (simp add: sha1_W16_def fips_W.simps [of words t])
  next
    case False
    then show ?thesis using window_recurrence [OF assms] by (simp add: sha1_W16_def)
  qed
  show "sha1_W16 words t W (t mod 16) = fips_W words t" by (simp add: eq)
  show "window words (Suc t) (sha1_W16 words t W)"
    unfolding eq by (rule window_upd [OF assms refl])
qed

lemma window32_upd:
  assumes "window32 words t W" and "v = fips_W words t" and "n = t mod 16"
  shows "window32 words (Suc t) (W(n + 16 := v, n := v))"
proof -
  have "window words (Suc t) (W(t mod 16 := v))"
    using assms window_upd by (simp add: window32_def)
  moreover have "(W(n + 16 := v, n := v)) (s mod 16) = (W(n := v)) (s mod 16)" for s
  proof -
    have "s mod 16 < n + 16" by (rule less_le_trans [OF mod_less_divisor]) simp_all
    then show ?thesis by (metis fun_upd_apply less_irrefl)
  qed
  moreover have "(W(n + 16 := v, n := v)) (k + 16) = (W(n + 16 := v, n := v)) k"
    if "k < 16" "k < Suc t" for k
  proof (cases "k = n")
    case False
    have "k \<noteq> t \<Longrightarrow> k < t" using that by simp
    moreover have "k = t \<Longrightarrow> k = n" using assms(3) that by simp
    ultimately have "k < t" using False by blast
    moreover have "n < 16" using assms(3) by simp
    ultimately show ?thesis using assms(1) False that by (simp add: window32_def)
  qed (use assms(3) in simp)
  ultimately show ?thesis using assms(3) by (auto simp: window32_def window_def)
qed

lemma sha1_load32_step:
  assumes "window32 words t W" and "t < 16"
  shows "sha1_load32 words t W t = fips_W words t" and "window32 words (Suc t) (sha1_load32 words t W)"
proof -
  have v: "bswap32 (words ! t) = fips_W words t" using assms(2) by (simp add: fips_W.simps [of words t])
  show "sha1_load32 words t W t = fips_W words t" by (simp add: sha1_load32_def v Let_def)
  show "window32 words (Suc t) (sha1_load32 words t W)"
    unfolding sha1_load32_def Let_def v by (rule window32_upd [OF assms(1) refl]) (simp add: assms(2))
qed

lemma sha1_next32_step:
  assumes "window32 words t W" and "16 \<le> t" and n: "n = t mod 16"
  shows "sha1_next32 n W n = fips_W words t" and "window32 words (Suc t) (sha1_next32 n W)"
proof -
  have dup: "W (n + j) = W ((t + j) mod 16)" if "j < 16" for j
  proof (cases "n + j < 16")
    case True
    then have "(t + j) mod 16 = n + j" using n by (metis mod_add_left_eq mod_less)
    then show ?thesis by simp
  next
    case False
    have lt: "n + j - 16 < 16" using that n by (simp add: less_diff_conv)
    have "(t + j) mod 16 = (n + j) mod 16" by (simp add: n mod_simps)
    then have "(t + j) mod 16 = n + j - 16" using False lt by (simp add: le_mod_geq not_less)
    moreover have "W (n + j - 16 + 16) = W (n + j - 16)"
      using assms(1,2) lt by (simp add: window32_def)
    ultimately show ?thesis using False by simp
  qed
  have v: "rotl32 (W (n + 13) XOR W (n + 8) XOR W (n + 2) XOR W n) 1 = fips_W words t"
    using window_recurrence [of words t W] assms(1,2) dup [of 13] dup [of 8] dup [of 2] dup [of 0]
    by (simp add: window32_def)
  show "sha1_next32 n W n = fips_W words t" unfolding sha1_next32_def v by (simp add: Let_def)
  show "window32 words (Suc t) (sha1_next32 n W)"
    unfolding sha1_next32_def v Let_def by (rule window32_upd [OF assms(1) refl n])
qed

section \<open>The configurations agree\<close>

lemma funpow_inv:
  assumes "\<And>m x. m < k \<Longrightarrow> P (a + m) x \<Longrightarrow> P (Suc (a + m)) (g x)" and "P (a :: nat) x"
  shows "P (a + k) ((g ^^ k) x)"
proof -
  have "m \<le> k \<Longrightarrow> P (a + m) ((g ^^ m) x)" for m
    by (induction m) (simp_all add: assms Suc_le_eq)
  then show ?thesis by simp
qed

lemma fold_inv:
  assumes "\<And>m x. m < k \<Longrightarrow> P (a + m) x \<Longrightarrow> P (Suc (a + m)) (g m x)" and "P (a :: nat) x"
  shows "P (a + k) (fold g [0..<k] x)"
proof -
  have "m \<le> k \<Longrightarrow> P (a + m) (fold g [0..<m] x)" for m
    by (induction m) (simp_all add: assms Suc_le_eq)
  then show ?thesis by simp
qed

text \<open>The invariant of the loops before step \<open>t\<close>, for the hash state \<open>st\<close> they started with.\<close>

definition sha1_loop_inv ::
  "u32 list \<Rightarrow> sha1_state \<Rightarrow> (nat \<Rightarrow> nat) \<Rightarrow> nat \<Rightarrow> nat \<times> warray \<times> sha1_state \<Rightarrow> bool" where
  "sha1_loop_inv words st g t x \<longleftrightarrow>
     fst x = t mod 16 \<and> window32 words (g t) (fst (snd x)) \<and> snd (snd x) = fips_rounds words t st"

lemma sha1_mid_load_inv:
  "t < 16 \<Longrightarrow> sha1_loop_inv words st id t x \<Longrightarrow> sha1_loop_inv words st id (Suc t) (sha1_mid_load words x)"
  using sha1_load32_step [of words t "fst (snd x)"]
  by (cases x) (auto simp: sha1_loop_inv_def Let_def mod_Suc_eq fips_step_turn sha1_F_def)

lemma sha1_mid_body_inv:
  assumes "16 \<le> t" and "t < 80" and "F = sha1_F (t div 20)" and "k = sha1_rconsts ! (t div 20)"
    and "sha1_loop_inv words st id t x"
  shows "sha1_loop_inv words st id (Suc t) (sha1_mid_body F k x)"
  using assms sha1_next32_step [of words t "fst (snd x)" "t mod 16"]
  by (cases x) (auto simp: sha1_loop_inv_def Let_def mod_Suc_eq fips_step_turn)

lemma sha1_mid_loop:
  assumes "16 \<le> a" and "a + k \<le> 80" and "\<And>m. m < k \<Longrightarrow> (a + m) div 20 = i"
    and "sha1_loop_inv words st id a x"
  shows "sha1_loop_inv words st id (a + k) ((sha1_mid_body (sha1_F i) (sha1_rconsts ! i) ^^ k) x)"
  using assms by (intro funpow_inv [where P = "sha1_loop_inv words st id"] sha1_mid_body_inv) auto

lemma sha1_mid_fips: "sha1_rounds_mid W0 words st = fips_rounds words 80 st"
proof -
  let ?inv = "sha1_loop_inv words st id"
  let ?l1 = "(sha1_mid_load words ^^ 16) (0, W0, st)"
  let ?l2 = "(sha1_mid_body (sha1_F 0) (sha1_rconsts ! 0) ^^ 4) ?l1"
  let ?l3 = "(sha1_mid_body (sha1_F 1) (sha1_rconsts ! 1) ^^ 20) ?l2"
  let ?l4 = "(sha1_mid_body (sha1_F 2) (sha1_rconsts ! 2) ^^ 20) ?l3"
  let ?l5 = "(sha1_mid_body (sha1_F 3) (sha1_rconsts ! 3) ^^ 20) ?l4"
  have "?inv 0 (0, W0, st)" by (simp add: sha1_loop_inv_def window32_def window_def)
  then have "?inv (0 + 16) ?l1"
    using sha1_mid_load_inv by (intro funpow_inv [where P = ?inv and a = 0]) simp_all
  then have "?inv (16 + 4) ?l2" by (intro sha1_mid_loop) simp_all
  then have "?inv (20 + 20) ?l3" by (intro sha1_mid_loop) simp_all
  then have "?inv (40 + 20) ?l4" by (intro sha1_mid_loop) simp_all
  then have "?inv (60 + 20) ?l5" by (intro sha1_mid_loop) simp_all
  then show ?thesis by (simp add: sha1_loop_inv_def sha1_rounds_mid_def sha1_F_def Let_def)
qed

lemma sha1_small_body_turn:
  "i < 4 \<Longrightarrow> sha1_small_body i j (n, W, st) =
    (let W' = (if i = 0 \<and> \<not> j \<le> 3 then W else sha1_next32 n W)
     in ((n + 1) mod 16, W', sha1_turn (sha1_F i) (W' n) (sha1_rconsts ! i) st))"
  by (cases st) (simp add: Let_def sha1_F_def sha1_ch_def sha1_maj_def sha1_parity_def xor.assoc)

lemma sha1_small_body_inv:
  assumes "i < 4" and "m < 20" and "t = 20 * i + m" and "sha1_loop_inv words st (max 16) t x"
  shows "sha1_loop_inv words st (max 16) (Suc t) (sha1_small_body i (19 - m) x)"
proof -
  obtain n W r where x: "x = (n, W, r)" by (cases x)
  have t: "t div 20 = i" "t < 80" using assms(1-3) by simp_all
  have inv: "n = t mod 16" "window32 words (max 16 t) W" "r = fips_rounds words t st"
    using assms(4) by (simp_all add: sha1_loop_inv_def x)
  show ?thesis
  proof (cases "t < 16")
    case True
    then have "i = 0 \<and> \<not> 19 - m \<le> 3" and "W t = fips_W words t"
      using assms(2,3) inv(2) by (auto simp: window32_def window_def max_def)
    moreover have "max 16 t = 16" "max 16 (Suc t) = 16" using True by simp_all
    ultimately show ?thesis
      using True inv t unfolding x sha1_small_body_turn [OF assms(1)]
      by (simp add: sha1_loop_inv_def fips_step_turn Let_def mod_Suc_eq del: max.absorb1 max.absorb2)
  next
    case False
    then have "(if i = 0 \<and> \<not> 19 - m \<le> 3 then W else sha1_next32 n W) = sha1_next32 n W"
      using assms(2,3) by auto
    then show ?thesis
      using False inv t sha1_next32_step [of words t W n] unfolding x sha1_small_body_turn [OF assms(1)]
      by (simp add: sha1_loop_inv_def fips_step_turn max_def Let_def mod_Suc_eq)
  qed
qed

lemma rev_upt_20: "rev [0..<20] = map (\<lambda>m. 19 - m) [0..<20 :: nat]"
  by (simp add: upt_rec)

lemma sha1_small_fips: "sha1_rounds_small W0 words st = fips_rounds words 80 st"
proof -
  let ?inv = "sha1_loop_inv words st (max 16)"
  let ?W = "fold (sha1_load32 words) [0..<16] W0"
  have "window32 words 0 W0" by (simp add: window32_def window_def)
  then have "window32 words (0 + 16) ?W"
    using sha1_load32_step(2) by (intro fold_inv [where P = "window32 words" and a = 0]) simp_all
  then have start: "?inv (20 * 0) (0, ?W, st)" by (simp add: sha1_loop_inv_def)
  have round: "?inv (20 * Suc i) (fold (sha1_small_body i) (rev [0..<20]) x)"
    if "i < 4" "?inv (20 * i) x" for i x
    using fold_inv [where P = ?inv and g = "\<lambda>m. sha1_small_body i (19 - m)" and k = 20
        and a = "20 * i" and x = x] that sha1_small_body_inv [OF that(1)]
    by (simp add: rev_upt_20 fold_map comp_def add.commute)
  have "?inv (20 * (0 + 4)) (fold (\<lambda>i. fold (sha1_small_body i) (rev [0..<20])) [0..<4] (0, ?W, st))"
    using start by (intro fold_inv [where P = "\<lambda>i. ?inv (20 * i)"]) (simp_all add: round [unfolded mult_Suc_right])
  then show ?thesis by (simp add: sha1_loop_inv_def sha1_rounds_small_def Let_def)
qed

text \<open>Five macro calls are five turns.\<close>

lemma sha1_quint:
  "sha1_op_b F w5 k (sha1_op_c F w4 k (sha1_op_d F w3 k (sha1_op_e F w2 k (sha1_op_a F w1 k st))))
    = sha1_turn F w5 k (sha1_turn F w4 k (sha1_turn F w3 k (sha1_turn F w2 k (sha1_turn F w1 k st))))"
  by (cases st) (simp add: Let_def ac_simps)

lemma sha1_OP_step:
  "window words t W \<Longrightarrow> sha1_OP op F words t (W, r)
    = (sha1_W16 words t W, op F (fips_W words t) (sha1_rconsts ! (t div 20)) r)"
  using sha1_W16_step(1) [of words t W] by (simp add: sha1_OP_def Let_def)

definition sha1_five :: "(u32 \<Rightarrow> u32 \<Rightarrow> u32 \<Rightarrow> u32) \<Rightarrow> u32 list \<Rightarrow> nat \<Rightarrow> warray \<times> sha1_state \<Rightarrow> warray \<times> sha1_state" where
  "sha1_five F words t = run_ops
     [sha1_OP sha1_op_a F words t, sha1_OP sha1_op_e F words (t + 1), sha1_OP sha1_op_d F words (t + 2),
      sha1_OP sha1_op_c F words (t + 3), sha1_OP sha1_op_b F words (t + 4)]"

definition sha1_unrolled_inv :: "u32 list \<Rightarrow> sha1_state \<Rightarrow> nat \<Rightarrow> warray \<times> sha1_state \<Rightarrow> bool" where
  "sha1_unrolled_inv words st t x \<longleftrightarrow> window words t (fst x) \<and> snd x = fips_rounds words t st"

lemma sha1_five_inv:
  assumes "sha1_unrolled_inv words st t x" and "t = 20 * i + 5 * m" and "m < 4" and "i < 4"
  shows "sha1_unrolled_inv words st (t + 5) (sha1_five (sha1_F i) words t x)"
proof -
  obtain W r where x: "x = (W, r)" by (cases x)
  have W: "window words t W" and r: "r = fips_rounds words t st"
    using assms(1) by (simp_all add: sha1_unrolled_inv_def x)
  have w: "window words (u + 1) (sha1_W16 words u V)" if "window words u V" for u V
    using sha1_W16_step(2) [OF that] by simp
  note w1 = w [OF W]
  note w2 = w [OF w1, unfolded add.assoc one_add_one]
  have w3: "window words (t + 3) (sha1_W16 words (t + 2) (sha1_W16 words (t + 1) (sha1_W16 words t W)))"
    using w [OF w2] by (simp add: numeral_3_eq_3)
  have w4: "window words (t + 4) (sha1_W16 words (t + 3) (sha1_W16 words (t + 2) (sha1_W16 words (t + 1)
      (sha1_W16 words t W))))"
    using w [OF w3] by (simp add: add.commute)
  have k: "(t + j) div 20 = i" "t + j < 80" if "j < 5" for j using that assms(2-4) by simp_all
  have turn: "fips_step words (t + j) y = sha1_turn (sha1_F i) (fips_W words (t + j)) (sha1_rconsts ! i) y"
    if "j < 5" for j y using k [OF that] fips_step_turn [of "t + j"] by simp
  have five: "sha1_five (sha1_F i) words t (W, r)
      = (sha1_W16 words (t + 4) (sha1_W16 words (t + 3) (sha1_W16 words (t + 2) (sha1_W16 words (t + 1)
           (sha1_W16 words t W)))),
         fips_step words (t + 4) (fips_step words (t + 3) (fips_step words (t + 2) (fips_step words (t + 1)
           (fips_step words t r)))))"
    using k(1) [of 0] k(1) [of 1] k(1) [of 2] k(1) [of 3] k(1) [of 4]
    by (simp only: sha1_five_def run_ops_def fold_simps id_apply sha1_OP_step [OF W] sha1_OP_step [OF w1]
        sha1_OP_step [OF w2] sha1_OP_step [OF w3] sha1_OP_step [OF w4])
      (simp add: sha1_quint turn [of 0, simplified] turn [of 1, simplified] turn [of 2, simplified]
        turn [of 3] turn [of 4])
  have rounds: "fips_rounds words (t + 5) st = fips_step words (t + 4) (fips_step words (t + 3)
      (fips_step words (t + 2) (fips_step words (t + 1) (fips_step words t (fips_rounds words t st)))))"
    by (simp add: eval_nat_numeral)
  show ?thesis
    unfolding x sha1_unrolled_inv_def five
    using w [OF w4] by (simp add: rounds r add.commute)
qed

lemma sha1_OP20_fives:
  "sha1_OP20 F words n x =
    sha1_five F words (n + 5 * 3) (sha1_five F words (n + 5 * 2) (sha1_five F words (n + 5 * 1)
      (sha1_five F words (n + 5 * 0) x)))"
  by (simp add: sha1_OP20_def sha1_five_def run_ops_def add.commute [of _ n] del: add_2_eq_Suc' add_2_eq_Suc One_nat_def)

lemma sha1_OP20_inv:
  assumes "sha1_unrolled_inv words st (20 * i) x" and "i < 4"
  shows "sha1_unrolled_inv words st (20 * i + 20) (sha1_OP20 (sha1_F i) words (20 * i) x)"
proof -
  have step: "sha1_unrolled_inv words st (20 * i + 5 * (m + 1))
      (sha1_five (sha1_F i) words (20 * i + 5 * m) y)"
    if "sha1_unrolled_inv words st (20 * i + 5 * m) y" "m < 4" for m y
    using sha1_five_inv [OF that(1) refl that(2) assms(2)] by (simp add: algebra_simps)
  from step [of 0 x] step [of 1] step [of 2] step [of 3] assms show ?thesis
    unfolding sha1_OP20_fives by simp
qed

lemma sha1_unrolled_fips: "sha1_rounds_unrolled W0 words st = fips_rounds words 80 st"
proof -
  let ?inv = "sha1_unrolled_inv words st"
  let ?op = "\<lambda>i. sha1_OP20 (sha1_F i) words (20 * i)"
  have "?inv (20 * 0) (W0, st)" by (simp add: sha1_unrolled_inv_def window_def)
  then have "?inv (20 * 1) (?op 0 (W0, st))" using sha1_OP20_inv [of words st 0] by simp
  then have "?inv (20 * 2) (?op 1 (?op 0 (W0, st)))" using sha1_OP20_inv [of words st 1] by simp
  then have "?inv (20 * 3) (?op 2 (?op 1 (?op 0 (W0, st))))" using sha1_OP20_inv [of words st 2] by simp
  then have "?inv (20 * 4) (?op 3 (?op 2 (?op 1 (?op 0 (W0, st)))))"
    using sha1_OP20_inv [of words st 3] by simp
  then show ?thesis
    by (simp add: sha1_unrolled_inv_def sha1_rounds_unrolled_def run_ops_def sha1_F_def)
qed

lemma sha1_rounds_fips: "sha1_rounds small W0 words st = fips_rounds words 80 st"
  by (simp add: sha1_rounds_def sha1_unrolled_fips sha1_mid_fips sha1_small_fips)

lemma sha1_block_frame:
  assumes "length x = 5"
  shows "sha1_process_block64 small W0 b (x @ r) = sha1_process_block64 small W0 b x @ r"
    and "length (sha1_process_block64 small W0 b x) = 5"
  using assms by (simp_all add: sha1_process_block64_def nth_append split: prod.split)

section \<open>Properties\<close>

text \<open>The three portable configurations of \<^verbatim>\<open>sha1_process_block64\<close> (unrolled with a
  circular array of 16 words, middle-sized and compact with a doubled array of 32 words) compute
  the compression function of FIPS 180 on every block and hash state, whatever the work array
  held before.\<close>

theorem sha1_variants_fips180:
  "sha1_process_block64 small W0 wbuffer hash =
     (case fips_rounds (words32 wbuffer) 80 (hash ! 0, hash ! 1, hash ! 2, hash ! 3, hash ! 4) of
        (a, b, c, d, e) \<Rightarrow>
          [hash ! 0 + a, hash ! 1 + b, hash ! 2 + c, hash ! 3 + d, hash ! 4 + e] @ drop 5 hash)"
  by (simp add: sha1_process_block64_def sha1_rounds_fips)

end
