(* ===== verification/Sha2_Block.thy ===== *)
theory Sha2_Block
  imports Hash_Common
begin

text \<open>
  \<^verbatim>\<open>sha256_process_block64\<close> and \<^verbatim>\<open>sha512_process_block128\<close> of
  \<^verbatim>\<open>libbb/hash_md5_sha.c\<close> with the table \<^verbatim>\<open>sha_K\<close>, whose upper halves
  are the constants of SHA-256. The work array is filled from index 0 upwards before it is
  read, so it is a growing list.
\<close>

text \<open>The macro \<^verbatim>\<open>K(v)\<close> in a build with SHA-512, which keeps both halves of an entry.\<close>

definition K64 :: "u64 \<Rightarrow> u64" where "K64 v = v"

definition sha_K :: "u64 list" where
  "sha_K =
     [K64 0x428a2f98d728ae22, K64 0x7137449123ef65cd,
      K64 0xb5c0fbcfec4d3b2f, K64 0xe9b5dba58189dbbc,
      K64 0x3956c25bf348b538, K64 0x59f111f1b605d019,
      K64 0x923f82a4af194f9b, K64 0xab1c5ed5da6d8118,
      K64 0xd807aa98a3030242, K64 0x12835b0145706fbe,
      K64 0x243185be4ee4b28c, K64 0x550c7dc3d5ffb4e2,
      K64 0x72be5d74f27b896f, K64 0x80deb1fe3b1696b1,
      K64 0x9bdc06a725c71235, K64 0xc19bf174cf692694,
      K64 0xe49b69c19ef14ad2, K64 0xefbe4786384f25e3,
      K64 0x0fc19dc68b8cd5b5, K64 0x240ca1cc77ac9c65,
      K64 0x2de92c6f592b0275, K64 0x4a7484aa6ea6e483,
      K64 0x5cb0a9dcbd41fbd4, K64 0x76f988da831153b5,
      K64 0x983e5152ee66dfab, K64 0xa831c66d2db43210,
      K64 0xb00327c898fb213f, K64 0xbf597fc7beef0ee4,
      K64 0xc6e00bf33da88fc2, K64 0xd5a79147930aa725,
      K64 0x06ca6351e003826f, K64 0x142929670a0e6e70,
      K64 0x27b70a8546d22ffc, K64 0x2e1b21385c26c926,
      K64 0x4d2c6dfc5ac42aed, K64 0x53380d139d95b3df,
      K64 0x650a73548baf63de, K64 0x766a0abb3c77b2a8,
      K64 0x81c2c92e47edaee6, K64 0x92722c851482353b,
      K64 0xa2bfe8a14cf10364, K64 0xa81a664bbc423001,
      K64 0xc24b8b70d0f89791, K64 0xc76c51a30654be30,
      K64 0xd192e819d6ef5218, K64 0xd69906245565a910,
      K64 0xf40e35855771202a, K64 0x106aa07032bbd1b8,
      K64 0x19a4c116b8d2d0c8, K64 0x1e376c085141ab53,
      K64 0x2748774cdf8eeb99, K64 0x34b0bcb5e19b48a8,
      K64 0x391c0cb3c5c95a63, K64 0x4ed8aa4ae3418acb,
      K64 0x5b9cca4f7763e373, K64 0x682e6ff3d6b2b8a3,
      K64 0x748f82ee5defb2fc, K64 0x78a5636f43172f60,
      K64 0x84c87814a1f0ab72, K64 0x8cc702081a6439ec,
      K64 0x90befffa23631e28, K64 0xa4506cebde82bde9,
      K64 0xbef9a3f7b2c67915, K64 0xc67178f2e372532b,
      K64 0xca273eceea26619c, K64 0xd186b8c721c0c207,
      K64 0xeada7dd6cde0eb1e, K64 0xf57d4f7fee6ed178,
      K64 0x06f067aa72176fba, K64 0x0a637dc5a2c898a6,
      K64 0x113f9804bef90dae, K64 0x1b710b35131c471b,
      K64 0x28db77f523047d84, K64 0x32caab7b40c72493,
      K64 0x3c9ebe0a15c9bebc, K64 0x431d67c49c100d4c,
      K64 0x4cc5d4becb3e42b6, K64 0x597f299cfc657e2a,
      K64 0x5fcb6fab3ad6faec, K64 0x6c44198c4a475817]"

text \<open>The initial hash of SHA-256, which is the upper half of the one of SHA-512.\<close>

definition init256 :: "u32 list" where
  "init256 = [0, 0, 0x6a09e667, 0xbb67ae85, 0x3c6ef372, 0xa54ff53a, 0x510e527f, 0x9b05688c,
              0x1f83d9ab, 0x5be0cd19]"

section \<open>SHA-256\<close>

definition sha256_Ch :: "u32 \<Rightarrow> u32 \<Rightarrow> u32 \<Rightarrow> u32" where
  "sha256_Ch x y z = (x AND y) XOR (NOT x AND z)"

definition sha256_Maj :: "u32 \<Rightarrow> u32 \<Rightarrow> u32 \<Rightarrow> u32" where
  "sha256_Maj x y z = (x AND y) XOR (x AND z) XOR (y AND z)"

definition sha256_S0 :: "u32 \<Rightarrow> u32" where
  "sha256_S0 x = rotr32 x 2 XOR rotr32 x 13 XOR rotr32 x 22"

definition sha256_S1 :: "u32 \<Rightarrow> u32" where
  "sha256_S1 x = rotr32 x 6 XOR rotr32 x 11 XOR rotr32 x 25"

definition sha256_R0 :: "u32 \<Rightarrow> u32" where
  "sha256_R0 x = rotr32 x 7 XOR rotr32 x 18 XOR drop_bit 3 x"

definition sha256_R1 :: "u32 \<Rightarrow> u32" where
  "sha256_R1 x = rotr32 x 17 XOR rotr32 x 19 XOR drop_bit 10 x"

definition sha256_W :: "u32 list \<Rightarrow> u32 list" where
  "sha256_W words =
     fold (\<lambda>t W. W @ [sha256_R1 (W ! (t - 2)) + W ! (t - 7) + sha256_R0 (W ! (t - 15)) + W ! (t - 16)])
       [16..<64] (map (\<lambda>t. bswap32 (words ! t)) [0..<16])"

text \<open>One step on the eight registers.\<close>

fun sha256_step :: "u32 \<Rightarrow> u32 \<Rightarrow> u32 list \<Rightarrow> u32 list" where
  "sha256_step K_t W_t [a, b, c, d, e, f, g, h] =
     (let T1 = h + sha256_S1 e + sha256_Ch e f g + K_t + W_t;
          T2 = sha256_S0 a + sha256_Maj a b c
      in [T1 + T2, a, b, c, d + T1, e, f, g])"
| "sha256_step K_t W_t st = st"

definition sha256_process_block64 :: "byte list \<Rightarrow> u32 list \<Rightarrow> u32 list" where
  "sha256_process_block64 wbuffer hash =
     (let W = sha256_W (words32 wbuffer);
          regs = fold (\<lambda>t. sha256_step (ucast (drop_bit 32 (sha_K ! t))) (W ! t)) [0..<64] hash
      in map2 (+) hash regs)"

section \<open>SHA-512\<close>

definition sha512_Ch :: "u64 \<Rightarrow> u64 \<Rightarrow> u64 \<Rightarrow> u64" where
  "sha512_Ch x y z = (x AND y) XOR (NOT x AND z)"

definition sha512_Maj :: "u64 \<Rightarrow> u64 \<Rightarrow> u64 \<Rightarrow> u64" where
  "sha512_Maj x y z = (x AND y) XOR (x AND z) XOR (y AND z)"

definition sha512_S0 :: "u64 \<Rightarrow> u64" where
  "sha512_S0 x = rotr64 x 28 XOR rotr64 x 34 XOR rotr64 x 39"

definition sha512_S1 :: "u64 \<Rightarrow> u64" where
  "sha512_S1 x = rotr64 x 14 XOR rotr64 x 18 XOR rotr64 x 41"

definition sha512_R0 :: "u64 \<Rightarrow> u64" where
  "sha512_R0 x = rotr64 x 1 XOR rotr64 x 8 XOR drop_bit 7 x"

definition sha512_R1 :: "u64 \<Rightarrow> u64" where
  "sha512_R1 x = rotr64 x 19 XOR rotr64 x 61 XOR drop_bit 6 x"

definition sha512_W :: "u64 list \<Rightarrow> u64 list" where
  "sha512_W words =
     fold (\<lambda>t W. W @ [sha512_R1 (W ! (t - 2)) + W ! (t - 7) + sha512_R0 (W ! (t - 15)) + W ! (t - 16)])
       [16..<80] (map (\<lambda>t. bswap64 (words ! t)) [0..<16])"

fun sha512_step :: "u64 \<Rightarrow> u64 \<Rightarrow> u64 list \<Rightarrow> u64 list" where
  "sha512_step K_t W_t [a, b, c, d, e, f, g, h] =
     (let T1 = h + sha512_S1 e + sha512_Ch e f g + K_t + W_t;
          T2 = sha512_S0 a + sha512_Maj a b c
      in [T1 + T2, a, b, c, d + T1, e, f, g])"
| "sha512_step K_t W_t st = st"

definition sha512_process_block128 :: "byte list \<Rightarrow> u64 list \<Rightarrow> u64 list" where
  "sha512_process_block128 wbuffer hash =
     (let W = sha512_W (words64 wbuffer);
          regs = fold (\<lambda>t. sha512_step (sha_K ! t) (W ! t)) [0..<80] hash
      in map2 (+) hash regs)"

section \<open>The message schedules\<close>

text \<open>A list filled by a recurrence that looks back at most as far as the seed is long.\<close>

lemma fold_snoc_schedule:
  assumes "length W = k" and "t < n" and "k \<le> n"
  shows "fold (\<lambda>t V. V @ [g t V]) [k..<n] W ! t =
      (if t < k then W ! t else g t (take t (fold (\<lambda>t V. V @ [g t V]) [k..<n] W)))
    \<and> length (fold (\<lambda>t V. V @ [g t V]) [k..<n] W) = n"
  using assms(2,3)
proof (induction n arbitrary: t)
  case (Suc n)
  show ?case
  proof (cases "k \<le> n")
    case True
    let ?V = "fold (\<lambda>t V. V @ [g t V]) [k..<n] W"
    have len: "length ?V = n"
    proof (cases "n = 0")
      case True
      with \<open>k \<le> n\<close> assms(1) show ?thesis by simp
    next
      case False
      then show ?thesis using Suc.IH [of 0] True by simp
    qed
    then show ?thesis
      using Suc.IH [of t] Suc.prems True by (cases "t = n") (auto simp: nth_append)
  next
    case False
    then show ?thesis using Suc.prems assms(1) by simp
  qed
qed simp

lemma length_sha256_W: "length (sha256_W words) = 64"
  using fold_snoc_schedule [of "map (\<lambda>t. bswap32 (words ! t)) [0..<16]" 16 0 64
      "\<lambda>t W. sha256_R1 (W ! (t - 2)) + W ! (t - 7) + sha256_R0 (W ! (t - 15)) + W ! (t - 16)"]
  by (simp add: sha256_W_def del: upt_rec_numeral)

lemma length_sha512_W: "length (sha512_W words) = 80"
  using fold_snoc_schedule [of "map (\<lambda>t. bswap64 (words ! t)) [0..<16]" 16 0 80
      "\<lambda>t W. sha512_R1 (W ! (t - 2)) + W ! (t - 7) + sha512_R0 (W ! (t - 15)) + W ! (t - 16)"]
  by (simp add: sha512_W_def del: upt_rec_numeral)

text \<open>The recurrence of FIPS 180, with every index in range.\<close>

lemma sha256_W_nth:
  assumes "t < 64"
  shows "sha256_W words ! t =
    (if t < 16 then bswap32 (words ! t)
     else sha256_R1 (sha256_W words ! (t - 2)) + sha256_W words ! (t - 7)
            + sha256_R0 (sha256_W words ! (t - 15)) + sha256_W words ! (t - 16))"
  using fold_snoc_schedule [of "map (\<lambda>t. bswap32 (words ! t)) [0..<16]" 16 t 64
      "\<lambda>t W. sha256_R1 (W ! (t - 2)) + W ! (t - 7) + sha256_R0 (W ! (t - 15)) + W ! (t - 16)"] assms
  by (simp add: sha256_W_def [symmetric] del: upt_rec_numeral)

lemma sha512_W_nth:
  assumes "t < 80"
  shows "sha512_W words ! t =
    (if t < 16 then bswap64 (words ! t)
     else sha512_R1 (sha512_W words ! (t - 2)) + sha512_W words ! (t - 7)
            + sha512_R0 (sha512_W words ! (t - 15)) + sha512_W words ! (t - 16))"
  using fold_snoc_schedule [of "map (\<lambda>t. bswap64 (words ! t)) [0..<16]" 16 t 80
      "\<lambda>t W. sha512_R1 (W ! (t - 2)) + W ! (t - 7) + sha512_R0 (W ! (t - 15)) + W ! (t - 16)"] assms
  by (simp add: sha512_W_def [symmetric] del: upt_rec_numeral)

section \<open>The registers stay eight\<close>

lemma length_sha256_step [simp]: "length (sha256_step k w st) = length st"
  by (induction k w st rule: sha256_step.induct) (simp_all add: Let_def)

lemma length_sha512_step [simp]: "length (sha512_step k w st) = length st"
  by (induction k w st rule: sha512_step.induct) (simp_all add: Let_def)

lemma length_fold_steps:
  "(\<And>t st. length (f t st) = length st) \<Longrightarrow> length (fold f ts st) = length (st :: 'a list)"
  by (induction ts arbitrary: st) simp_all

lemma length_sha256_block: "length (sha256_process_block64 b h) = length h"
  by (simp add: sha256_process_block64_def Let_def length_fold_steps)

lemma length_sha512_block: "length (sha512_process_block128 b h) = length h"
  by (simp add: sha512_process_block128_def Let_def length_fold_steps)

end
