(* ===== verification/Sha256_Fips.thy ===== *)
theory Sha256_Fips
  imports Sha2_Block
begin

text \<open>
  SHA-256 as FIPS 180-4 states it, independently of the code: the constants are the leading bits of
  the fractional parts of roots of primes, the message schedule is a recurrence on the words of a
  block in big-endian order, a round works on eight variables. The block function of
  \<^verbatim>\<open>hash_md5_sha.c\<close>, its table and its initial hash are proved equal to it.
\<close>

section \<open>The standard\<close>

definition int_root :: "nat \<Rightarrow> nat \<Rightarrow> nat" where "int_root n x = Max {c. c ^ n \<le> x}"

text \<open>The first 64 primes.\<close>

definition fips256_primes :: "nat list" where
  "fips256_primes =
     [2, 3, 5, 7, 11, 13, 17, 19, 23, 29, 31, 37, 41, 43, 47, 53,
      59, 61, 67, 71, 73, 79, 83, 89, 97, 101, 103, 107, 109, 113, 127, 131,
      137, 139, 149, 151, 157, 163, 167, 173, 179, 181, 191, 193, 197, 199, 211, 223,
      227, 229, 233, 239, 241, 251, 257, 263, 269, 271, 277, 281, 283, 293, 307, 311]"

text \<open>
  The first 32 bits of the fractional parts of the cube roots of these primes, and of the square roots of
  the first eight of them: the root is taken of the prime times \<open>2\<^sup>9\<^sup>6\<close> or \<open>2\<^sup>6\<^sup>4\<close>, which moves 32
  bits before the point, and the conversion to a word drops what was there already.
\<close>

definition fips256_K :: "nat \<Rightarrow> u32" where
  "fips256_K t = of_nat (int_root 3 (fips256_primes ! t * 2 ^ 96))"

definition fips256_H0 :: "u32 list" where
  "fips256_H0 = map (\<lambda>p. of_nat (int_root 2 (p * 2 ^ 64))) (take 8 fips256_primes)"

definition fips256_Ch :: "u32 \<Rightarrow> u32 \<Rightarrow> u32 \<Rightarrow> u32" where
  "fips256_Ch x y z = (x AND y) XOR (NOT x AND z)"

definition fips256_Maj :: "u32 \<Rightarrow> u32 \<Rightarrow> u32 \<Rightarrow> u32" where
  "fips256_Maj x y z = (x AND y) XOR (x AND z) XOR (y AND z)"

definition fips256_Sigma0 :: "u32 \<Rightarrow> u32" where
  "fips256_Sigma0 x = word_rotr 2 x XOR word_rotr 13 x XOR word_rotr 22 x"

definition fips256_Sigma1 :: "u32 \<Rightarrow> u32" where
  "fips256_Sigma1 x = word_rotr 6 x XOR word_rotr 11 x XOR word_rotr 25 x"

definition fips256_sigma0 :: "u32 \<Rightarrow> u32" where
  "fips256_sigma0 x = word_rotr 7 x XOR word_rotr 18 x XOR drop_bit 3 x"

definition fips256_sigma1 :: "u32 \<Rightarrow> u32" where
  "fips256_sigma1 x = word_rotr 17 x XOR word_rotr 19 x XOR drop_bit 10 x"

text \<open>The words of a block of 64 bytes, most significant byte first, and the message schedule.\<close>

definition fips256_M :: "byte list \<Rightarrow> nat \<Rightarrow> u32" where
  "fips256_M b t = push_bit 24 (ucast (b ! (4 * t))) OR push_bit 16 (ucast (b ! (4 * t + 1)))
     OR push_bit 8 (ucast (b ! (4 * t + 2))) OR ucast (b ! (4 * t + 3))"

function fips256_W :: "byte list \<Rightarrow> nat \<Rightarrow> u32" where
  "fips256_W b t =
     (if t < 16 then fips256_M b t
      else fips256_sigma1 (fips256_W b (t - 2)) + fips256_W b (t - 7) + fips256_sigma0 (fips256_W b (t - 15))
             + fips256_W b (t - 16))"
  by pat_completeness auto
termination
  by (relation "measure snd") auto

declare fips256_W.simps [simp del]

type_synonym fips256_vars = "u32 \<times> u32 \<times> u32 \<times> u32 \<times> u32 \<times> u32 \<times> u32 \<times> u32"

definition fips256_round :: "byte list \<Rightarrow> nat \<Rightarrow> fips256_vars \<Rightarrow> fips256_vars" where
  "fips256_round blk t = (\<lambda>(a, b, c, d, e, f, g, h).
     let T1 = h + fips256_Sigma1 e + fips256_Ch e f g + fips256_K t + fips256_W blk t;
         T2 = fips256_Sigma0 a + fips256_Maj a b c
     in (T1 + T2, a, b, c, d + T1, e, f, g))"

definition fips256_block :: "byte list \<Rightarrow> u32 list \<Rightarrow> u32 list" where
  "fips256_block blk H =
     (let (a, b, c, d, e, f, g, h) =
            fold (fips256_round blk) [0..<64] (H ! 0, H ! 1, H ! 2, H ! 3, H ! 4, H ! 5, H ! 6, H ! 7)
      in [a + H ! 0, b + H ! 1, c + H ! 2, d + H ! 3, e + H ! 4, f + H ! 5, g + H ! 6, h + H ! 7])"

section \<open>The constants of the code\<close>

lemma int_root_unique:
  assumes "c ^ n \<le> x" and "x < (c + 1) ^ n" and "0 < n"
  shows "int_root n x = c"
  unfolding int_root_def
proof (rule Max_eqI)
  have bound: "d \<le> c" if "d ^ n \<le> x" for d
  proof (rule ccontr)
    assume "\<not> d \<le> c"
    then have "(c + 1) ^ n \<le> d ^ n" by (intro power_mono) simp_all
    then show False using that assms(2) by simp
  qed
  show "finite {d. d ^ n \<le> x}" by (rule finite_subset [of _ "{..c}"]) (auto dest: bound)
  show "d \<le> c" if "d \<in> {d. d ^ n \<le> x}" for d using that bound by simp
qed (use assms(1) in simp)

definition cube_roots :: "nat list" where
  "cube_roots =
     [0x1428a2f98, 0x171374491, 0x1b5c0fbcf, 0x1e9b5dba5, 0x23956c25b, 0x259f111f1, 0x2923f82a4, 0x2ab1c5ed5,
      0x2d807aa98, 0x312835b01, 0x3243185be, 0x3550c7dc3, 0x372be5d74, 0x380deb1fe, 0x39bdc06a7, 0x3c19bf174,
      0x3e49b69c1, 0x3efbe4786, 0x40fc19dc6, 0x4240ca1cc, 0x42de92c6f, 0x44a7484aa, 0x45cb0a9dc, 0x476f988da,
      0x4983e5152, 0x4a831c66d, 0x4b00327c8, 0x4bf597fc7, 0x4c6e00bf3, 0x4d5a79147, 0x506ca6351, 0x514292967,
      0x527b70a85, 0x52e1b2138, 0x54d2c6dfc, 0x553380d13, 0x5650a7354, 0x5766a0abb, 0x581c2c92e, 0x592722c85,
      0x5a2bfe8a1, 0x5a81a664b, 0x5c24b8b70, 0x5c76c51a3, 0x5d192e819, 0x5d6990624, 0x5f40e3585, 0x6106aa070,
      0x619a4c116, 0x61e376c08, 0x62748774c, 0x634b0bcb5, 0x6391c0cb3, 0x64ed8aa4a, 0x65b9cca4f, 0x6682e6ff3,
      0x6748f82ee, 0x678a5636f, 0x684c87814, 0x68cc70208, 0x690befffa, 0x6a4506ceb, 0x6bef9a3f7, 0x6c67178f2]"

definition is_root :: "nat \<Rightarrow> nat \<Rightarrow> nat \<Rightarrow> bool" where
  "is_root n x c \<longleftrightarrow> c ^ n \<le> x \<and> x < (c + 1) ^ n"

lemma cube_roots_correct: "list_all2 (\<lambda>p. is_root 3 (p * 2 ^ 96)) fips256_primes cube_roots"
  by (simp add: fips256_primes_def cube_roots_def is_root_def)

lemma cube_roots_sha_K: "map of_nat cube_roots = map (\<lambda>k. ucast (drop_bit 32 k) :: u32) (take 64 sha_K)"
  by (simp add: cube_roots_def sha_K_def K64_def)

lemma fips256_K_sha_K:
  assumes "t < 64"
  shows "fips256_K t = ucast (drop_bit 32 (sha_K ! t))"
proof -
  have l: "length cube_roots = 64" "length sha_K = 80" by (simp_all add: cube_roots_def sha_K_def)
  have "is_root 3 (fips256_primes ! t * 2 ^ 96) (cube_roots ! t)"
    using list_all2_nthD2 [OF cube_roots_correct] assms l by simp
  then have "fips256_K t = of_nat (cube_roots ! t)"
    unfolding fips256_K_def is_root_def by (intro arg_cong [where f = of_nat] int_root_unique) simp_all
  also have "\<dots> = map of_nat cube_roots ! t" using assms l by simp
  finally show ?thesis using assms l unfolding cube_roots_sha_K by simp
qed

lemma square_root: "is_root 2 (p * 2 ^ 64) c \<Longrightarrow> of_nat (int_root 2 (p * 2 ^ 64)) = (of_nat c :: u32)"
  using int_root_unique [of c 2] by (simp add: is_root_def)

lemma fips256_H0_init256: "fips256_H0 = drop 2 init256"
proof -
  have r: "is_root 2 (2 * 2 ^ 64) 0x16a09e667" "is_root 2 (3 * 2 ^ 64) 0x1bb67ae85" "is_root 2 (5 * 2 ^ 64) 0x23c6ef372" "is_root 2 (7 * 2 ^ 64) 0x2a54ff53a"
    "is_root 2 (11 * 2 ^ 64) 0x3510e527f" "is_root 2 (13 * 2 ^ 64) 0x39b05688c" "is_root 2 (17 * 2 ^ 64) 0x41f83d9ab" "is_root 2 (19 * 2 ^ 64) 0x45be0cd19"
    by (simp_all add: is_root_def)
  show ?thesis by (simp add: fips256_H0_def fips256_primes_def init256_def r [THEN square_root, simplified])
qed

section \<open>The block function of the code\<close>

lemma rotr32_word_rotr: "n < 32 \<Longrightarrow> rotr32 x n = word_rotr n x"
proof (rule bit_word_eqI)
  fix i assume n: "n < 32" and "i < LENGTH(32)"
  then have i: "i < 32" by simp
  show "bit (rotr32 x n) i = bit (word_rotr n x) i"
  proof (cases "i + n < 32")
    case True
    then have "\<not> 32 - n \<le> i" using n by simp
    then show ?thesis using True n i by (simp add: rotr32_def bit_simps add.commute)
  next
    case False
    then have "(i + n) mod 32 = i + n - 32" using n i by (simp add: mod_if)
    moreover have "\<not> bit x (n + i)" using False using bit_imp_le_length [of x "n + i"] by auto
    ultimately show ?thesis using False n i by (auto simp: rotr32_def bit_simps)
  qed
qed

lemma sha256_functions:
  "sha256_Ch = fips256_Ch" "sha256_Maj = fips256_Maj" "sha256_S0 = fips256_Sigma0" "sha256_S1 = fips256_Sigma1"
  "sha256_R0 = fips256_sigma0" "sha256_R1 = fips256_sigma1"
  by (simp_all add: fun_eq_iff sha256_Ch_def fips256_Ch_def sha256_Maj_def fips256_Maj_def sha256_S0_def fips256_Sigma0_def
      sha256_S1_def fips256_Sigma1_def sha256_R0_def fips256_sigma0_def sha256_R1_def fips256_sigma1_def rotr32_word_rotr)

lemma fips256_M_words32:
  assumes "length b = 64" and "t < 16"
  shows "bswap32 (words32 b ! t) = fips256_M b t"
proof -
  have "take 4 (drop (4 * t) b) = [b ! (4 * t), b ! (4 * t + 1), b ! (4 * t + 2), b ! (4 * t + 3)]"
    using assms by (intro nth_equalityI) (auto simp: less_Suc_eq numeral_eq_Suc)
  moreover have "words32 b ! t = le_word (take 4 (drop (4 * t) b))" using assms by (simp add: words32_def)
  ultimately have "bswap32 (words32 b ! t) = le_word (rev [b ! (4 * t), b ! (4 * t + 1), b ! (4 * t + 2), b ! (4 * t + 3)])"
    using bswap32_le_word [of "[b ! (4 * t), b ! (4 * t + 1), b ! (4 * t + 2), b ! (4 * t + 3)]"] by simp
  also have "\<dots> = fips256_M b t"
    by (simp add: fips256_M_def push_bit_or or.assoc or.commute or.left_commute)
  finally show ?thesis .
qed

lemma sha256_W_fips:
  assumes "length b = 64" and "t < 64"
  shows "sha256_W (words32 b) ! t = fips256_W b t"
  using assms(2)
proof (induction t rule: less_induct)
  case (less t)
  then show ?case
    using fips256_M_words32 [OF assms(1), of t]
    by (simp add: sha256_W_nth [OF less.prems] fips256_W.simps [of b t] sha256_functions)
qed

fun vars_list :: "fips256_vars \<Rightarrow> u32 list" where
  "vars_list (a, b, c, d, e, f, g, h) = [a, b, c, d, e, f, g, h]"

lemma vars_cases:
  obtains a b c d e f g h where "s = ((a, b, c, d, e, f, g, h) :: fips256_vars)"
  by (cases s) auto

lemma sha256_step_fips:
  assumes "length b = 64" and "t < 64"
  shows "sha256_step (ucast (drop_bit 32 (sha_K ! t))) (sha256_W (words32 b) ! t) (vars_list s) = vars_list (fips256_round b t s)"
  by (cases s rule: vars_cases) (simp add: fips256_round_def Let_def fips256_K_sha_K [OF assms(2)] sha256_W_fips [OF assms] sha256_functions)

lemma sha256_steps_fips:
  assumes "length b = 64" and "set ts \<subseteq> {..<64}"
  shows "fold (\<lambda>t. sha256_step (ucast (drop_bit 32 (sha_K ! t))) (sha256_W (words32 b) ! t)) ts (vars_list s)
    = vars_list (fold (fips256_round b) ts s)"
  using assms(2) by (induction ts arbitrary: s) (simp_all add: sha256_step_fips [OF assms(1)])

lemma sha256_block_fips:
  assumes "length b = 64" and "length H = 8"
  shows "sha256_process_block64 b H = fips256_block b H"
proof -
  obtain a0 a1 a2 a3 a4 a5 a6 a7 where H: "H = vars_list (a0, a1, a2, a3, a4, a5, a6, a7)"
    using assms(2) by (auto simp: length_Suc_conv numeral_eq_Suc)
  have "set [0..<64] \<subseteq> {..<64}" by auto
  note f = sha256_steps_fips [OF assms(1) this, of "(a0, a1, a2, a3, a4, a5, a6, a7)"]
  show ?thesis
    unfolding sha256_process_block64_def Let_def H f fips256_block_def
    by (cases "fold (fips256_round b) [0..<64] (a0, a1, a2, a3, a4, a5, a6, a7)" rule: vars_cases)
      (simp add: add.commute numeral_eq_Suc del: upt_rec_numeral)
qed

lemma absorb_fips256:
  "length H = 8 \<Longrightarrow> absorb sha256_process_block64 64 H m = absorb fips256_block 64 H m"
proof (induction "length m" arbitrary: H m rule: less_induct)
  case less
  show ?case
  proof (cases "64 \<le> length m")
    case True
    then have b: "sha256_process_block64 (take 64 m) H = fips256_block (take 64 m) H"
      using less.prems by (intro sha256_block_fips) simp_all
    have "length (fips256_block (take 64 m) H) = 8" using less.prems b length_sha256_block by metis
    then show ?thesis using less.hyps [of "drop 64 m"] True b by (simp add: absorb.simps [of _ _ _ m])
  next
    case False
    then show ?thesis by (simp add: absorb_short)
  qed
qed

end
