(* ===== verification/Hash_Md5_Sha.thy ===== *)
theory Hash_Md5_Sha
  imports Sha1_Block Sha256_Fips
begin

text \<open>
  The context of MD5, SHA-1 and SHA-256 in \<^verbatim>\<open>libbb/hash_md5_sha.c\<close> and its
  operations: \<^verbatim>\<open>md5_begin\<close>, \<^verbatim>\<open>sha1_begin\<close>, \<^verbatim>\<open>sha256_begin\<close>,
  the shared \<^verbatim>\<open>md5_hash\<close> and \<^verbatim>\<open>common64_end\<close>, \<^verbatim>\<open>md5_end\<close> and
  \<^verbatim>\<open>sha1_end\<close>. The function pointer \<^verbatim>\<open>process_block\<close> is an enumeration; the
  build configuration and the assembler code for the SHA instructions are the record
  \<open>hash_target\<close>.
\<close>

section \<open>Context and target\<close>

datatype block_fn = Md5_fn | Sha1_fn | Sha1_shaNI_fn | Sha256_fn | Sha256_shaNI_fn

record md5_ctx =
  cx_wbuffer :: "byte list"
  cx_process_block :: block_fn
  cx_total64 :: u64
  cx_hash :: "u32 list"

record hash_target =
  tg_md5_small :: nat
  tg_sha1_small :: nat
  tg_stack :: "nat \<Rightarrow> u32"
  tg_sha1_shaNI :: "byte list \<Rightarrow> u32 list \<Rightarrow> u32 list"
  tg_sha256_shaNI :: "byte list \<Rightarrow> u32 list \<Rightarrow> u32 list"

text \<open>The call \<^verbatim>\<open>ctx->process_block(ctx)\<close>: what it makes of \<open>hash\<close>.\<close>

definition call_block :: "hash_target \<Rightarrow> block_fn \<Rightarrow> byte list \<Rightarrow> u32 list \<Rightarrow> u32 list" where
  "call_block tgt fn = (case fn of
       Md5_fn \<Rightarrow> md5_process_block64 (tg_md5_small tgt)
     | Sha1_fn \<Rightarrow> sha1_process_block64 (tg_sha1_small tgt) (tg_stack tgt)
     | Sha1_shaNI_fn \<Rightarrow> tg_sha1_shaNI tgt
     | Sha256_fn \<Rightarrow> sha256_process_block64
     | Sha256_shaNI_fn \<Rightarrow> tg_sha256_shaNI tgt)"

section \<open>Operations\<close>

definition md5_begin :: "md5_ctx \<Rightarrow> md5_ctx" where
  "md5_begin ctx = ctx\<lparr>
     cx_hash := mem_write (cx_hash ctx) 0 [0x67452301, 0xefcdab89, 0x98badcfe, 0x10325476],
     cx_total64 := 0, cx_process_block := Md5_fn\<rparr>"

definition md5_hash :: "hash_target \<Rightarrow> md5_ctx \<Rightarrow> byte list \<Rightarrow> md5_ctx" where
  "md5_hash tgt ctx buffer =
     (let bufpos = unat (cx_total64 ctx AND 63);
          (wbuffer, hash) = buffer_loop 64 (call_block tgt (cx_process_block ctx)) (cx_wbuffer ctx) bufpos
                              (cx_hash ctx) buffer
      in ctx\<lparr>cx_total64 := cx_total64 ctx + of_nat (length buffer), cx_wbuffer := wbuffer,
             cx_hash := hash\<rparr>)"

definition common64_end :: "hash_target \<Rightarrow> md5_ctx \<Rightarrow> bool \<Rightarrow> md5_ctx" where
  "common64_end tgt ctx swap_needed =
     (let bufpos = unat (cx_total64 ctx AND 63);
          t = push_bit 3 (cx_total64 ctx);
          t = (if swap_needed then bswap64 t else t);
          (wbuffer, hash) = end_loop 64 8 (\<lambda>w. mem_write w (64 - 8) (le_bytes 8 t))
                              (call_block tgt (cx_process_block ctx)) ((cx_wbuffer ctx)[bufpos := 0x80])
                              (bufpos + 1) (cx_hash ctx)
      in ctx\<lparr>cx_wbuffer := wbuffer, cx_hash := hash\<rparr>)"

text \<open>The end functions: the context, the bytes stored at \<open>resbuf\<close>, and the return value.\<close>

definition md5_end :: "hash_target \<Rightarrow> md5_ctx \<Rightarrow> md5_ctx \<times> byte list \<times> nat" where
  "md5_end tgt ctx =
     (let ctx = common64_end tgt ctx False
      in (ctx, concat (map (le_bytes 4) (take 4 (cx_hash ctx))), 4 * 4))"

text \<open>
  The static variable \<^verbatim>\<open>shaNI\<close> is 0 until the processor was asked, then 1 or -1;
  \<open>ebx\<close> is what \<^verbatim>\<open>cpuid\<close> leaf 7 reports.
\<close>

definition probe_shaNI :: "u32 \<Rightarrow> int \<Rightarrow> int" where
  "probe_shaNI ebx shaNI =
     (if shaNI = 0 then sint (ucast ((drop_bit 28 ebx AND 2) - 1) :: 8 word) else shaNI)"

definition sha1_begin :: "u32 \<Rightarrow> int \<Rightarrow> md5_ctx \<Rightarrow> md5_ctx \<times> int" where
  "sha1_begin ebx shaNI ctx =
     (let ctx = ctx\<lparr>cx_hash := mem_write (cx_hash ctx) 0
                    [0x67452301, 0xefcdab89, 0x98badcfe, 0x10325476, 0xc3d2e1f0],
                  cx_total64 := 0, cx_process_block := Sha1_fn\<rparr>;
          shaNI = probe_shaNI ebx shaNI
      in (if 0 < shaNI then ctx\<lparr>cx_process_block := Sha1_shaNI_fn\<rparr> else ctx, shaNI))"

text \<open>The copy covers \<open>total64\<close> and the eight words of \<open>hash\<close> that follow it.\<close>

definition sha256_begin :: "u32 \<Rightarrow> int \<Rightarrow> md5_ctx \<Rightarrow> md5_ctx \<times> int" where
  "sha256_begin ebx shaNI ctx =
     (let ctx = ctx\<lparr>cx_total64 := le_word (concat (map (le_bytes 4) (take 2 init256))),
                  cx_hash := drop 2 init256, cx_process_block := Sha256_fn\<rparr>;
          shaNI = probe_shaNI ebx shaNI
      in (if 0 < shaNI then ctx\<lparr>cx_process_block := Sha256_shaNI_fn\<rparr> else ctx, shaNI))"

definition sha1_end :: "hash_target \<Rightarrow> md5_ctx \<Rightarrow> md5_ctx \<times> byte list \<times> nat" where
  "sha1_end tgt ctx =
     (let ctx = common64_end tgt ctx True;
          hash_size = (if cx_process_block ctx = Sha1_fn then 5 else 8);
          ctx = ctx\<lparr>cx_hash := map bswap32 (take hash_size (cx_hash ctx)) @ drop hash_size (cx_hash ctx)\<rparr>
      in (ctx, concat (map (le_bytes 4) (take hash_size (cx_hash ctx))), hash_size * 4))"

lemma probe_shaNI_bit: "probe_shaNI ebx 0 = (if bit ebx 29 then 1 else - 1)"
proof -
  have two: "(2 :: u32) = push_bit 1 1" by simp
  have "drop_bit 28 ebx AND push_bit 1 1 = (if bit ebx 29 then push_bit 1 1 else (0 :: u32))"
  proof (rule bit_word_eqI)
    fix n
    show "bit (drop_bit 28 ebx AND push_bit 1 1) n = bit (if bit ebx 29 then push_bit 1 1 else 0 :: u32) n"
      by (cases "n = 1") (auto simp: bit_simps)
  qed
  then have "drop_bit 28 ebx AND 2 = (if bit ebx 29 then 2 else 0 :: u32)" by (simp only: two)
  moreover have "(ucast (- 1 :: u32) :: 8 word) = - 1" by (rule bit_word_eqI) (simp add: bit_simps)
  ultimately show ?thesis by (simp add: probe_shaNI_def)
qed

section \<open>A context represents a message\<close>

text \<open>\<open>init\<close> is the hash state after the begin function.\<close>

definition ctx_rep :: "hash_target \<Rightarrow> block_fn \<Rightarrow> u32 list \<Rightarrow> byte list \<Rightarrow> md5_ctx \<Rightarrow> bool" where
  "ctx_rep tgt fn init m ctx \<longleftrightarrow>
     cx_process_block ctx = fn \<and> length (cx_wbuffer ctx) = 64 \<and> cx_total64 ctx = of_nat (length m)
     \<and> take (length m mod 64) (cx_wbuffer ctx) = leftover 64 m
     \<and> cx_hash ctx = absorb (call_block tgt fn) 64 init m"

lemma unat_and_63: "unat ((of_nat n :: u64) AND 63) = n mod 64"
proof -
  have "(of_nat n :: u64) AND 63 = take_bit 6 (of_nat n)"
    by (simp add: take_bit_eq_mask mask_eq_exp_minus_1)
  then have "unat ((of_nat n :: u64) AND 63) = take_bit 6 (take_bit 64 n)"
    by (simp add: unsigned_take_bit_eq unsigned_of_nat)
  then show ?thesis by (simp add: take_bit_take_bit take_bit_eq_mod [of 6])
qed

lemma ctx_rep_hash:
  assumes "ctx_rep tgt fn init m ctx"
  shows "ctx_rep tgt fn init (m @ d) (md5_hash tgt ctx d)"
proof -
  let ?r = "length m mod 64"
  have rep: "cx_process_block ctx = fn" "length (cx_wbuffer ctx) = 64"
    "cx_total64 ctx = of_nat (length m)" "take ?r (cx_wbuffer ctx) = leftover 64 m"
    "cx_hash ctx = absorb (call_block tgt fn) 64 init m"
    using assms by (simp_all add: ctx_rep_def)
  have r: "?r < 64" by simp
  obtain w' where loop: "buffer_loop 64 (call_block tgt fn) (cx_wbuffer ctx) ?r (cx_hash ctx) d
      = (w', absorb (call_block tgt fn) 64 (cx_hash ctx) (leftover 64 m @ d))"
      "length w' = 64" "take ((?r + length d) mod 64) w' = leftover 64 (leftover 64 m @ d)"
    using buffer_loop_absorb [OF _ rep(2) r] rep(4) by fastforce
  have "(?r + length d) mod 64 = length (m @ d) mod 64" by (simp add: mod_simps)
  then show ?thesis
    using loop rep
    by (simp add: ctx_rep_def md5_hash_def unat_and_63 absorb_leftover(1) [of 64 _ _ m]
        absorb_leftover(2) [of 64 m])
qed

text \<open>The bytes of the bit count, in the order the end functions store them.\<close>

definition bit_count :: "bool \<Rightarrow> byte list \<Rightarrow> byte list" where
  "bit_count swap m = (let b = le_bytes 8 (of_nat (8 * length m) :: u64) in if swap then rev b else b)"

lemma length_bit_count [simp]: "length (bit_count swap m) = 8"
  by (simp add: bit_count_def Let_def)

lemma ctx_rep_end:
  assumes "ctx_rep tgt fn init m ctx"
  shows "cx_hash (common64_end tgt ctx swap)
      = absorb (call_block tgt fn) 64 init (md_pad 64 (bit_count swap m) m)"
    and "cx_process_block (common64_end tgt ctx swap) = fn"
proof -
  have rep: "cx_process_block ctx = fn" "length (cx_wbuffer ctx) = 64"
    "cx_total64 ctx = of_nat (length m)" "take (length m mod 64) (cx_wbuffer ctx) = leftover 64 m"
    "cx_hash ctx = absorb (call_block tgt fn) 64 init m"
    using assms by (simp_all add: ctx_rep_def)
  let ?t = "push_bit 3 (cx_total64 ctx)"
  have "?t = of_nat (8 * length m)" by (simp add: rep(3) push_bit_eq_mult)
  then have cnt: "le_bytes 8 ?t = bit_count False m" "le_bytes 8 (bswap64 ?t) = bit_count True m"
    by (simp_all add: bit_count_def Let_def le_bytes_bswap64)
  show "cx_hash (common64_end tgt ctx swap)
      = absorb (call_block tgt fn) 64 init (md_pad 64 (bit_count swap m) m)"
    using end_loop_pad [of "bit_count swap m" 64 "cx_wbuffer ctx" m
        "\<lambda>w. mem_write w (64 - 8) (bit_count swap m)" "call_block tgt fn" init] rep
    by (cases swap) (simp_all add: common64_end_def Let_def split_def cnt [unfolded rep(3)] unat_and_63)
  show "cx_process_block (common64_end tgt ctx swap) = fn"
    by (simp add: common64_end_def Let_def split_def rep(1))
qed

section \<open>MD5\<close>

definition md5_init :: "u32 list" where
  "md5_init = [0x67452301, 0xefcdab89, 0x98badcfe, 0x10325476]"

lemma length_md5_init [simp]: "length md5_init = 4"
  by (simp add: md5_init_def)

text \<open>The MD5 digest of RFC 1321, for messages of any length.\<close>

definition rfc1321_block :: "byte list \<Rightarrow> u32 list \<Rightarrow> u32 list" where
  "rfc1321_block b h =
     (case rfc1321_rounds (words32 b) (h ! 0, h ! 1, h ! 2, h ! 3) of
        (A, B, C, D) \<Rightarrow> [h ! 0 + A, h ! 1 + B, h ! 2 + C, h ! 3 + D])"

lemma length_rfc1321_block [simp]: "length (rfc1321_block b h) = 4"
  by (simp add: rfc1321_block_def split: prod.split)

definition md5_digest :: "byte list \<Rightarrow> byte list" where
  "md5_digest m = concat (map (le_bytes 4) (absorb rfc1321_block 64 md5_init (md_pad 64 (bit_count False m) m)))"

definition md5_rep :: "hash_target \<Rightarrow> byte list \<Rightarrow> md5_ctx \<Rightarrow> bool" where
  "md5_rep tgt m ctx \<longleftrightarrow> (\<exists>r. length r = 4 \<and> ctx_rep tgt Md5_fn (md5_init @ r) m ctx)"

lemma absorb_cong:
  assumes "\<And>b x. length x = k \<Longrightarrow> f b x = g b x" and "\<And>b x. length x = k \<Longrightarrow> length (f b x) = k"
    and "length x = k"
  shows "absorb f B x m = absorb g B x m"
  using assms(3)
proof (induction "length m" arbitrary: x m rule: less_induct)
  case less
  show ?case
  proof (cases "0 < B \<and> B \<le> length m")
    case True
    moreover have "length (drop B m) < length m" using True by auto
    moreover have "length (f (take B m) x) = k" using assms(2) [OF less.prems] .
    ultimately show ?thesis
      using less assms(1) [OF less.prems, of "take B m"]
      by (simp add: absorb.simps [of _ B x m])
  next
    case False
    then show ?thesis by (auto simp: absorb.simps [of _ B x m])
  qed
qed

lemma md5_absorb:
  assumes "length x = 4"
  shows "absorb (call_block tgt Md5_fn) 64 (x @ r) m = absorb rfc1321_block 64 x m @ r"
    and "length (absorb rfc1321_block 64 x m) = 4"
proof -
  let ?f = "call_block tgt Md5_fn"
  have frame: "absorb ?f 64 (x @ r) m = absorb ?f 64 x m @ r \<and> length (absorb ?f 64 x m) = 4"
    by (rule absorb_frame) (simp_all add: call_block_def md5_block_frame assms)
  have "?f b y = rfc1321_block b y" if "length y = 4" for b y
    using that
    by (simp add: call_block_def md5_process_block64_def md5_rounds_rfc rfc1321_block_def split: prod.split)
  then have "absorb ?f 64 x m = absorb rfc1321_block 64 x m"
    using assms by (intro absorb_cong [where k = 4]) (simp_all add: call_block_def md5_block_frame)
  then show "absorb ?f 64 (x @ r) m = absorb rfc1321_block 64 x m @ r"
    and "length (absorb rfc1321_block 64 x m) = 4" using frame by simp_all
qed

lemma md5_rep_begin:
  assumes "length (cx_wbuffer ctx) = 64" and "length (cx_hash ctx) = 8"
  shows "md5_rep tgt [] (md5_begin ctx)"
  unfolding md5_rep_def md5_begin_def md5_init_def [symmetric]
  by (rule exI [of _ "drop 4 (cx_hash ctx)"])
    (use assms in \<open>simp add: ctx_rep_def mem_write_def absorb_short leftover_short\<close>)

interpretation md5: streaming_hash any_piece "md5_rep tgt" "md5_hash tgt" "\<lambda>c. fst (snd (md5_end tgt c))" md5_digest
  for tgt
proof
  fix m c d
  show "md5_rep tgt m c \<Longrightarrow> md5_rep tgt (m @ d) (md5_hash tgt c d)"
    unfolding md5_rep_def using ctx_rep_hash by blast
  assume "md5_rep tgt m c"
  then obtain r where rep: "ctx_rep tgt Md5_fn (md5_init @ r) m c" by (auto simp: md5_rep_def)
  show "fst (snd (md5_end tgt c)) = md5_digest m"
    by (simp add: md5_absorb md5_end_def Let_def ctx_rep_end [OF rep] md5_digest_def)
qed

section \<open>SHA-1\<close>

definition sha1_init :: "u32 list" where
  "sha1_init = [0x67452301, 0xefcdab89, 0x98badcfe, 0x10325476, 0xc3d2e1f0]"

lemma length_sha1_init [simp]: "length sha1_init = 5"
  by (simp add: sha1_init_def)

definition be_bytes :: "nat \<Rightarrow> 'a :: len word \<Rightarrow> byte list" where
  "be_bytes k w = rev (le_bytes k w)"

text \<open>The SHA-1 digest of FIPS 180.\<close>

definition fips180_block :: "byte list \<Rightarrow> u32 list \<Rightarrow> u32 list" where
  "fips180_block b h =
     (case fips_rounds (words32 b) 80 (h ! 0, h ! 1, h ! 2, h ! 3, h ! 4) of
        (a, b, c, d, e) \<Rightarrow> [h ! 0 + a, h ! 1 + b, h ! 2 + c, h ! 3 + d, h ! 4 + e])"

lemma length_fips180_block [simp]: "length (fips180_block b h) = 5"
  by (simp add: fips180_block_def split: prod.split)

definition sha1_digest :: "byte list \<Rightarrow> byte list" where
  "sha1_digest m = concat (map (be_bytes 4) (absorb fips180_block 64 sha1_init (md_pad 64 (bit_count True m) m)))"

definition sha1_rep :: "hash_target \<Rightarrow> byte list \<Rightarrow> md5_ctx \<Rightarrow> bool" where
  "sha1_rep tgt m ctx \<longleftrightarrow> (\<exists>r. length r = 3 \<and> ctx_rep tgt Sha1_fn (sha1_init @ r) m ctx)"

lemma sha1_absorb:
  assumes "length x = 5"
  shows "absorb (call_block tgt Sha1_fn) 64 (x @ r) m = absorb fips180_block 64 x m @ r"
    and "length (absorb fips180_block 64 x m) = 5"
proof -
  let ?f = "call_block tgt Sha1_fn"
  have frame: "absorb ?f 64 (x @ r) m = absorb ?f 64 x m @ r \<and> length (absorb ?f 64 x m) = 5"
    by (rule absorb_frame) (simp_all add: call_block_def sha1_block_frame assms)
  have "?f b y = fips180_block b y" if "length y = 5" for b y
    using that
    by (simp add: call_block_def sha1_process_block64_def sha1_rounds_fips fips180_block_def
        split: prod.split)
  then have "absorb ?f 64 x m = absorb fips180_block 64 x m"
    using assms by (intro absorb_cong [where k = 5]) (simp_all add: call_block_def sha1_block_frame)
  then show "absorb ?f 64 (x @ r) m = absorb fips180_block 64 x m @ r"
    and "length (absorb fips180_block 64 x m) = 5" using frame by simp_all
qed

lemma sha1_rep_begin:
  assumes "length (cx_wbuffer ctx) = 64" and "length (cx_hash ctx) = 8" and "\<not> 0 < probe_shaNI ebx ni"
  shows "sha1_rep tgt [] (fst (sha1_begin ebx ni ctx))"
  unfolding sha1_rep_def sha1_begin_def sha1_init_def [symmetric]
  by (rule exI [of _ "drop 5 (cx_hash ctx)"])
    (use assms in \<open>simp add: ctx_rep_def mem_write_def absorb_short leftover_short Let_def\<close>)

lemma map_le_bytes_bswap32: "map (le_bytes 4) (map bswap32 h) = map (be_bytes 4) h"
  by (simp add: be_bytes_def le_bytes_bswap32)

interpretation sha1: streaming_hash any_piece "sha1_rep tgt" "md5_hash tgt" "\<lambda>c. fst (snd (sha1_end tgt c))" sha1_digest
  for tgt
proof
  fix m c d
  show "sha1_rep tgt m c \<Longrightarrow> sha1_rep tgt (m @ d) (md5_hash tgt c d)"
    unfolding sha1_rep_def using ctx_rep_hash by blast
  assume "sha1_rep tgt m c"
  then obtain r where rep: "ctx_rep tgt Sha1_fn (sha1_init @ r) m c" by (auto simp: sha1_rep_def)
  show "fst (snd (sha1_end tgt c)) = sha1_digest m"
    by (simp add: sha1_end_def Let_def ctx_rep_end [OF rep] sha1_digest_def sha1_absorb
        map_le_bytes_bswap32 del: map_map)
qed

section \<open>SHA-256\<close>

text \<open>The digest of FIPS 180-4: its block function over the padded message, from its initial hash.\<close>

definition sha256_digest :: "byte list \<Rightarrow> byte list" where
  "sha256_digest m = concat (map (be_bytes 4)
     (absorb fips256_block 64 fips256_H0 (md_pad 64 (bit_count True m) m)))"

text \<open>A target whose SHA instructions compute the portable function.\<close>

definition sha256_shaNI_ok :: "hash_target \<Rightarrow> bool" where
  "sha256_shaNI_ok tgt \<longleftrightarrow> tg_sha256_shaNI tgt = sha256_process_block64"

definition sha256_rep :: "hash_target \<Rightarrow> byte list \<Rightarrow> md5_ctx \<Rightarrow> bool" where
  "sha256_rep tgt m ctx \<longleftrightarrow>
     (\<exists>fn. fn \<noteq> Sha1_fn \<and> call_block tgt fn = sha256_process_block64 \<and> ctx_rep tgt fn (drop 2 init256) m ctx)"

lemma length_absorb:
  assumes "\<And>b x. length x = k \<Longrightarrow> length (f b x) = k" and "length x = k"
  shows "length (absorb f B x m) = k"
  using assms absorb_frame [where f = f and k = k and r = "[]" and x = x] by simp

lemma init256_state: "length (drop 2 init256) = 8" "take 2 init256 = [0, 0]"
  by (simp_all add: init256_def)

lemma sha256_digest_code:
  "sha256_digest m = concat (map (be_bytes 4)
     (absorb sha256_process_block64 64 (drop 2 init256) (md_pad 64 (bit_count True m) m)))"
  using absorb_fips256 [OF init256_state(1)] by (simp add: sha256_digest_def fips256_H0_init256)

lemma sha256_rep_begin:
  assumes "length (cx_wbuffer ctx) = 64" and "0 < probe_shaNI ebx ni \<longrightarrow> sha256_shaNI_ok tgt"
  shows "sha256_rep tgt [] (fst (sha256_begin ebx ni ctx))"
proof -
  have zero: "le_word (concat (map (le_bytes 4) (take 2 init256))) = (0 :: u64)"
    unfolding init256_state(2) by (rule bit_word_eqI) (simp add: le_bytes_def upt_rec)
  show ?thesis
    unfolding sha256_rep_def
    by (rule exI [of _ "if 0 < probe_shaNI ebx ni then Sha256_shaNI_fn else Sha256_fn"])
      (use assms in \<open>simp add: sha256_begin_def ctx_rep_def call_block_def sha256_shaNI_ok_def zero
        absorb_short leftover_short Let_def\<close>)
qed

interpretation sha256: streaming_hash any_piece "sha256_rep tgt" "md5_hash tgt" "\<lambda>c. fst (snd (sha1_end tgt c))"
  sha256_digest
  for tgt
proof
  fix m c d
  show "sha256_rep tgt m c \<Longrightarrow> sha256_rep tgt (m @ d) (md5_hash tgt c d)"
    unfolding sha256_rep_def using ctx_rep_hash by blast
  assume "sha256_rep tgt m c"
  then obtain fn where fn: "fn \<noteq> Sha1_fn" "call_block tgt fn = sha256_process_block64"
      "ctx_rep tgt fn (drop 2 init256) m c" by (auto simp: sha256_rep_def)
  let ?h = "absorb sha256_process_block64 64 (drop 2 init256) (md_pad 64 (bit_count True m) m)"
  have "length ?h = 8" by (rule length_absorb) (simp_all add: length_sha256_block init256_def)
  then show "fst (snd (sha1_end tgt c)) = sha256_digest m"
    using fn(1)
    by (simp add: sha1_end_def Let_def ctx_rep_end [OF fn(3)] fn(2) sha256_digest_code
        map_le_bytes_bswap32 del: map_map)
qed

section \<open>Properties\<close>

text \<open>C19: MD5 in pieces: for every configuration, a message fed to \<^verbatim>\<open>md5_hash\<close> in any
  number of pieces of any lengths between \<^verbatim>\<open>md5_begin\<close> and \<^verbatim>\<open>md5_end\<close> gives the 16
  bytes of the RFC 1321 digest of the whole message, however the pieces cut it and whatever the
  context held before.\<close>

theorem md5_stream_digest:
  assumes "length (cx_wbuffer ctx) = 64" and "length (cx_hash ctx) = 8"
  shows "fst (snd (md5_end tgt (foldl (md5_hash tgt) (md5_begin ctx) ds))) = md5_digest (concat ds)"
  using md5.finish_updates [OF all_any_piece md5_rep_begin [OF assms]] by simp

definition demo_target :: hash_target where
  "demo_target = \<lparr>tg_md5_small = 1, tg_sha1_small = 3, tg_stack = (\<lambda>_. 0),
     tg_sha1_shaNI = (\<lambda>b h. h), tg_sha256_shaNI = sha256_process_block64\<rparr>"

definition demo_ctx :: md5_ctx where
  "demo_ctx = \<lparr>cx_wbuffer = replicate 64 0xaa, cx_process_block = Sha256_fn, cx_total64 = 77,
     cx_hash = replicate 8 0xdeadbeef\<rparr>"

theorem md5_stream_digest_witness:
  "fst (snd (md5_end demo_target (foldl (md5_hash demo_target) (md5_begin demo_ctx) [[0x61], [], [0x62, 0x63]])))
     = md5_digest [0x61, 0x62, 0x63]"
  using md5_stream_digest [of demo_ctx demo_target "[[0x61], [], [0x62, 0x63]]"]
  by (simp add: demo_ctx_def)

text \<open>C25: SHA-1 in pieces: for every configuration of the portable code, on a processor without
  the SHA instructions, feeding a message in pieces gives the 20 bytes of its FIPS 180 digest.\<close>

theorem sha1_stream_digest:
  assumes "length (cx_wbuffer ctx) = 64" and "length (cx_hash ctx) = 8" and "\<not> bit ebx 29"
  shows "fst (snd (sha1_end tgt (foldl (md5_hash tgt) (fst (sha1_begin ebx 0 ctx)) ds)))
    = sha1_digest (concat ds)"
proof -
  have "\<not> 0 < probe_shaNI ebx 0"
    using assms(3) by (simp add: probe_shaNI_bit)
  from sha1.finish_updates [OF all_any_piece sha1_rep_begin [OF assms(1,2) this]] show ?thesis by simp
qed

theorem sha1_stream_digest_witness:
  "fst (snd (sha1_end demo_target (foldl (md5_hash demo_target) (fst (sha1_begin 0 0 demo_ctx)) [[0x61], [0x62, 0x63]])))
     = sha1_digest [0x61, 0x62, 0x63]"
  using sha1_stream_digest [of demo_ctx 0 demo_target "[[0x61], [0x62, 0x63]]"]
  by (simp add: demo_ctx_def)

text \<open>C24: SHA-256 in pieces: on every processor, whether or not the SHA instructions are used, and
  provided the assembler code for them computes the portable block function, feeding a message
  in pieces gives the 32 bytes of its FIPS 180-4 digest, where schedule, rounds and constants are
  those of the standard and not those of the code.\<close>

theorem sha256_stream_digest:
  assumes "length (cx_wbuffer ctx) = 64" and "sha256_shaNI_ok tgt"
  shows "fst (snd (sha1_end tgt (foldl (md5_hash tgt) (fst (sha256_begin ebx ni ctx)) ds)))
    = sha256_digest (concat ds)"
  using sha256.finish_updates [OF all_any_piece sha256_rep_begin [OF assms(1)]] assms(2) by simp

theorem sha256_stream_digest_witness:
  "fst (snd (sha1_end demo_target (foldl (md5_hash demo_target) (fst (sha256_begin 0x20000000 0 demo_ctx)) [[0x61], [0x62, 0x63]])))
     = sha256_digest [0x61, 0x62, 0x63]"
  using sha256_stream_digest [where ctx = demo_ctx and tgt = demo_target and ebx = "0x20000000" and ni = 0
      and ds = "[[0x61], [0x62, 0x63]]"]
  by (simp add: demo_ctx_def demo_target_def sha256_shaNI_ok_def)

lemma md5_hash_process_block [simp]: "cx_process_block (foldl (md5_hash tgt) c ds) = cx_process_block c"
  by (induction ds arbitrary: c) (simp_all add: md5_hash_def Let_def split_def)

lemma common64_end_process_block [simp]: "cx_process_block (common64_end tgt c sw) = cx_process_block c"
  by (simp add: common64_end_def Let_def split_def)

text \<open>On a processor with the SHA instructions \<^verbatim>\<open>sha1_end\<close> returns 32 instead of the
  20 of \<^verbatim>\<open>SHA1_OUTSIZE\<close>, whatever the message: it recognises SHA-1 by the pointer to the
  portable function only, and \<^verbatim>\<open>sha1_begin\<close> has replaced it. Without the instructions it
  returns 20.\<close>

theorem sha1_end_size:
  "snd (snd (sha1_end tgt (foldl (md5_hash tgt) (fst (sha1_begin ebx 0 ctx)) ds)))
     = (if bit ebx 29 then 32 else 20)"
  by (simp add: sha1_end_def sha1_begin_def probe_shaNI_bit Let_def)

end
