(* ===== verification/Sha512.thy ===== *)
theory Sha512
  imports Sha2_Block
begin

text \<open>
  SHA-512 of \<^verbatim>\<open>libbb/hash_md5_sha.c\<close>: \<^verbatim>\<open>sha512_begin\<close>,
  \<^verbatim>\<open>sha512_hash\<close> with its 128-bit byte counter in two words, and
  \<^verbatim>\<open>sha512_end\<close>.
\<close>

record sha512_ctx =
  s5_total64 :: "u64 \<times> u64"
  s5_hash :: "u64 list"
  s5_wbuffer :: "byte list"

definition init512_lo :: "u32 list" where
  "init512_lo = [0, 0, 0xf3bcc908, 0x84caa73b, 0xfe94f82b, 0x5f1d36f1, 0xade682d1, 0x2b3e6c1f,
                 0xfb41bd6b, 0x137e2179]"

text \<open>The loop writes ten words from \<open>total64\<close> on: the two counters and the hash.\<close>

definition sha512_begin :: "sha512_ctx \<Rightarrow> sha512_ctx" where
  "sha512_begin ctx =
     (let tp = map (\<lambda>i. push_bit 32 (ucast (init256 ! i)) + ucast (init512_lo ! i)) [0..<10]
      in ctx\<lparr>s5_total64 := (tp ! 0, tp ! 1), s5_hash := drop 2 tp\<rparr>)"

definition sha512_hash :: "sha512_ctx \<Rightarrow> byte list \<Rightarrow> sha512_ctx" where
  "sha512_hash ctx buffer =
     (let (lo, hi) = s5_total64 ctx;
          bufpos = unat (lo AND 127);
          len = of_nat (length buffer);
          lo' = lo + len;
          hi' = (if lo' < len then hi + 1 else hi);
          (wbuffer, hash) = buffer_loop 128 sha512_process_block128 (s5_wbuffer ctx) bufpos
                              (s5_hash ctx) buffer
      in ctx\<lparr>s5_total64 := (lo', hi'), s5_wbuffer := wbuffer, s5_hash := hash\<rparr>)"

text \<open>The store of the bit count: the low word first, then the high word before it.\<close>

definition sha512_store_count :: "u64 \<times> u64 \<Rightarrow> byte list \<Rightarrow> byte list" where
  "sha512_store_count total64 wbuffer =
     (let (lo, hi) = total64;
          wbuffer = mem_write wbuffer (128 - 8) (le_bytes 8 (bswap64 (push_bit 3 lo)))
      in mem_write wbuffer (128 - 16) (le_bytes 8 (bswap64 (push_bit 3 hi OR drop_bit 61 lo))))"

definition sha512_end :: "sha512_ctx \<Rightarrow> sha512_ctx \<times> byte list \<times> nat" where
  "sha512_end ctx =
     (let bufpos = unat (fst (s5_total64 ctx) AND 127);
          (wbuffer, hash) = end_loop 128 16 (sha512_store_count (s5_total64 ctx)) sha512_process_block128
                              ((s5_wbuffer ctx)[bufpos := 0x80]) (bufpos + 1) (s5_hash ctx);
          hash = map bswap64 hash
      in (ctx\<lparr>s5_wbuffer := wbuffer, s5_hash := hash\<rparr>, concat (map (le_bytes 8) hash), 8 * 8))"

section \<open>The two-word counter\<close>

text \<open>A counter of \<open>n\<close> bytes, modulo \<open>2 ^ 128\<close>.\<close>

definition counter :: "nat \<Rightarrow> u64 \<times> u64" where
  "counter n = (of_nat n, of_nat (n div 2 ^ 64))"

lemma unat_of_nat_64: "unat (of_nat n :: u64) = n mod 2 ^ 64"
  by (simp add: unsigned_of_nat take_bit_eq_mod)

lemma wrap_carry:
  fixes r k M :: nat
  assumes "r < M" and "k < M"
  shows "(r + k) mod M < k \<longleftrightarrow> M \<le> r + k"
proof (cases "r + k < M")
  case False
  then have "(r + k) mod M = r + k - M" using assms by (simp add: le_mod_geq)
  then show ?thesis using False assms by simp
qed simp

lemma counter_add:
  assumes "k < 2 ^ 64"
  shows "(let lo = fst (counter n) + of_nat k
          in (lo, if lo < of_nat k then snd (counter n) + 1 else snd (counter n))) = counter (n + k)"
proof -
  have k: "unat (of_nat k :: u64) = k" using assms by (simp add: unat_of_nat_64)
  have "(of_nat n + of_nat k :: u64) < of_nat k \<longleftrightarrow> (n mod 2 ^ 64 + k) mod 2 ^ 64 < k"
    using assms by (simp add: word_less_nat_alt k unat_word_ariths(1) unat_of_nat_64)
  also have "\<dots> \<longleftrightarrow> 2 ^ 64 \<le> n mod 2 ^ 64 + k"
    using assms by (intro wrap_carry) simp_all
  finally have carry: "(of_nat n + of_nat k :: u64) < of_nat k \<longleftrightarrow> 2 ^ 64 \<le> n mod 2 ^ 64 + k" .
  have "(n + k) div 2 ^ 64 = n div 2 ^ 64 + (if 2 ^ 64 \<le> n mod 2 ^ 64 + k then 1 else 0)"
    using assms div_add1_eq [of n k "2 ^ 64"] by (simp add: div_nat_eqI not_le)
  then show ?thesis by (simp add: counter_def Let_def carry)
qed

text \<open>The count in bits, as \<^verbatim>\<open>sha512_end\<close> computes and stores it.\<close>

definition bit_count128 :: "byte list \<Rightarrow> byte list" where
  "bit_count128 m = rev (le_bytes 8 (of_nat (8 * length m div 2 ^ 64) :: u64))
     @ rev (le_bytes 8 (of_nat (8 * length m) :: u64))"

lemma length_bit_count128 [simp]: "length (bit_count128 m) = 16"
  by (simp add: bit_count128_def)

lemma counter_bits_hi:
  "push_bit 3 (snd (counter n)) OR drop_bit 61 (fst (counter n)) = (of_nat (8 * n div 2 ^ 64) :: u64)"
proof -
  let ?q = "of_nat (n div 2 ^ 64) :: u64" and ?r = "of_nat (n mod 2 ^ 64 div 2 ^ 61) :: u64"
  have lo: "drop_bit 61 (of_nat n :: u64) = ?r"
  proof (rule word_unat_eq_iff [THEN iffD2])
    have "unat (drop_bit 61 (of_nat n :: u64)) = n mod 2 ^ 64 div 2 ^ 61"
      by (simp only: unat_drop_bit_eq unat_of_nat_64) (simp only: drop_bit_eq_div)
    moreover have "n mod 2 ^ 64 div 2 ^ 61 < (2 :: nat) ^ 64" by (simp add: less_mult_imp_div_less)
    ultimately show "unat (drop_bit 61 (of_nat n :: u64)) = unat ?r"
      by (simp add: unat_of_nat_64)
  qed
  have "push_bit 3 ?q AND ?r = 0"
  proof (rule bit_word_eqI)
    fix i
    have "\<not> bit ?r i" if "3 \<le> i"
      unfolding lo [symmetric] using that bit_imp_le_length [of "of_nat n :: u64" "61 + i"]
      by (auto simp: bit_simps)
    then show "bit (push_bit 3 ?q AND ?r) i = bit (0 :: u64) i" by (auto simp: bit_simps)
  qed
  then have "push_bit 3 ?q OR ?r = push_bit 3 ?q + ?r" by (simp add: disjunctive_add_eq_or)
  moreover have "8 * n div 2 ^ 64 = 8 * (n div 2 ^ 64) + n mod 2 ^ 64 div 2 ^ 61"
  proof -
    have "n = q * M + r \<Longrightarrow> 8 * n = r * 8 + q * 8 * M" for q M r :: nat
      by (simp add: algebra_simps)
    from this [OF div_mult_mod_eq [symmetric]]
    have "8 * n = (n mod 2 ^ 64) * 8 + (n div 2 ^ 64) * 8 * 2 ^ 64" .
    moreover have "(n mod 2 ^ 64) * 8 div (2 ^ 61 * 8) = n mod 2 ^ 64 div (2 ^ 61 :: nat)"
      by (rule div_mult_mult2) simp
    ultimately show ?thesis by (simp add: ac_simps)
  qed
  ultimately show ?thesis by (simp add: counter_def lo push_bit_eq_mult)
qed

lemma sha512_store_count:
  assumes "length w = 128"
  shows "sha512_store_count (counter (length m)) w = mem_write w (128 - length (bit_count128 m)) (bit_count128 m)"
proof -
  have lo: "push_bit 3 (fst (counter (length m))) = of_nat (8 * length m)"
    by (simp add: counter_def push_bit_eq_mult)
  show ?thesis
    using assms
    by (simp add: sha512_store_count_def split_def Let_def lo counter_bits_hi le_bytes_bswap64
        bit_count128_def mem_write_def)
qed

section \<open>A context represents a message\<close>

definition sha512_init :: "u64 list" where
  "sha512_init = map (\<lambda>i. push_bit 32 (ucast (init256 ! i)) + ucast (init512_lo ! i)) [2..<10]"

definition sha512_rep :: "byte list \<Rightarrow> sha512_ctx \<Rightarrow> bool" where
  "sha512_rep m ctx \<longleftrightarrow>
     length (s5_wbuffer ctx) = 128 \<and> s5_total64 ctx = counter (length m)
     \<and> take (length m mod 128) (s5_wbuffer ctx) = leftover 128 m
     \<and> s5_hash ctx = absorb sha512_process_block128 128 sha512_init m"

definition sha512_digest :: "byte list \<Rightarrow> byte list" where
  "sha512_digest m = concat (map (\<lambda>w. rev (le_bytes 8 w))
     (absorb sha512_process_block128 128 sha512_init (md_pad 128 (bit_count128 m) m)))"

text \<open>A piece whose length fits the type \<^verbatim>\<open>size_t\<close>.\<close>

definition size_t_piece :: "byte list \<Rightarrow> bool" where
  "size_t_piece d \<longleftrightarrow> length d < 2 ^ 64"

lemma unat_and_127: "unat ((of_nat n :: u64) AND 127) = n mod 128"
proof -
  have "(of_nat n :: u64) AND 127 = take_bit 7 (of_nat n)"
    by (simp add: take_bit_eq_mask mask_eq_exp_minus_1)
  then have "unat ((of_nat n :: u64) AND 127) = take_bit 7 (take_bit 64 n)"
    by (simp add: unsigned_take_bit_eq unsigned_of_nat)
  then show ?thesis by (simp add: take_bit_take_bit take_bit_eq_mod [of 7])
qed

lemma sha512_rep_begin:
  assumes "length (s5_wbuffer ctx) = 128"
  shows "sha512_rep [] (sha512_begin ctx)"
proof -
  have "[0..<10 :: nat] = 0 # 1 # [2..<10]" by (simp add: upt_rec)
  then show ?thesis
    using assms
    by (simp add: sha512_rep_def sha512_begin_def sha512_init_def counter_def absorb_short leftover_short
        init256_def init512_lo_def Let_def del: upt_rec_numeral)
qed

lemma sha512_rep_hash:
  assumes "sha512_rep m ctx" and "size_t_piece d"
  shows "sha512_rep (m @ d) (sha512_hash ctx d)"
proof -
  let ?r = "length m mod 128" and ?f = sha512_process_block128
  have rep: "length (s5_wbuffer ctx) = 128" "s5_total64 ctx = counter (length m)"
    "take ?r (s5_wbuffer ctx) = leftover 128 m" "s5_hash ctx = absorb ?f 128 sha512_init m"
    using assms(1) by (simp_all add: sha512_rep_def)
  obtain w' where loop: "buffer_loop 128 ?f (s5_wbuffer ctx) ?r (s5_hash ctx) d
      = (w', absorb ?f 128 (s5_hash ctx) (leftover 128 m @ d))"
      "length w' = 128" "take ((?r + length d) mod 128) w' = leftover 128 (leftover 128 m @ d)"
    using buffer_loop_absorb [OF _ rep(1), of ?r ?f "s5_hash ctx" d] rep(3) by auto
  have "(?r + length d) mod 128 = length (m @ d) mod 128" by (simp add: mod_simps)
  moreover have "s5_total64 (sha512_hash ctx d) = counter (length (m @ d))"
    using counter_add [of "length d" "length m"] assms(2) rep(2)
    by (simp add: sha512_hash_def Let_def split_def size_t_piece_def)
  ultimately show ?thesis
    using loop rep
    by (simp add: sha512_rep_def sha512_hash_def Let_def split_def counter_def unat_and_127
        absorb_leftover(1) [of 128 _ _ m] absorb_leftover(2) [of 128 m])
qed

interpretation sha512: streaming_hash size_t_piece sha512_rep sha512_hash "\<lambda>c. fst (snd (sha512_end c))"
  sha512_digest
proof
  fix m c d
  show "size_t_piece d \<Longrightarrow> sha512_rep m c \<Longrightarrow> sha512_rep (m @ d) (sha512_hash c d)"
    using sha512_rep_hash by blast
  assume rep: "sha512_rep m c"
  let ?f = sha512_process_block128
  have "snd (end_loop 128 16 (sha512_store_count (counter (length m))) ?f
        ((s5_wbuffer c)[length m mod 128 := 0x80]) (length m mod 128 + 1) (absorb ?f 128 sha512_init m))
      = absorb ?f 128 sha512_init (md_pad 128 (bit_count128 m) m)"
    using end_loop_pad [of "bit_count128 m" 128 "s5_wbuffer c" m "sha512_store_count (counter (length m))"
        ?f sha512_init] rep sha512_store_count
    by (simp add: sha512_rep_def)
  then show "fst (snd (sha512_end c)) = sha512_digest m"
    using rep
    by (simp add: sha512_end_def sha512_digest_def sha512_rep_def Let_def split_def counter_def unat_and_127
        comp_def le_bytes_bswap64)
qed

section \<open>Properties\<close>

text \<open>C10: SHA-512 in pieces: a message fed to \<^verbatim>\<open>sha512_hash\<close> in any number of pieces, each of a
  length that fits \<^verbatim>\<open>size_t\<close>, gives the digest of the whole message with its full
  128-bit length: the carry into the second counter word is right for every sequence of
  lengths.\<close>

theorem sha512_stream_digest:
  assumes "length (s5_wbuffer ctx) = 128" and "list_all size_t_piece ds"
  shows "fst (snd (sha512_end (foldl sha512_hash (sha512_begin ctx) ds))) = sha512_digest (concat ds)"
  using sha512.finish_updates [OF assms(2) sha512_rep_begin [OF assms(1)]] by simp

theorem sha512_stream_digest_witness:
  "fst (snd (sha512_end (foldl sha512_hash (sha512_begin
      \<lparr>s5_total64 = (5, 6), s5_hash = [], s5_wbuffer = replicate 128 0xaa\<rparr>) [[0x61], [0x62, 0x63]])))
     = sha512_digest [0x61, 0x62, 0x63]"
  using sha512_stream_digest [of "\<lparr>s5_total64 = (5, 6), s5_hash = [], s5_wbuffer = replicate 128 0xaa\<rparr>"
      "[[0x61], [0x62, 0x63]]"]
  by (simp add: size_t_piece_def)

end
