(* ===== verification/Sha3_Perm.thy ===== *)
theory Sha3_Perm
  imports Md5_Block
begin

text \<open>
  \<^verbatim>\<open>sha3_process_block72\<close> of \<^verbatim>\<open>libbb/hash_md5_sha.c\<close>, the native 64-bit code in
  its configurations (\<^verbatim>\<open>SHA3_SMALL\<close> or unrolled, chi on 64-bit or on 32-bit words),
  proved equal to Keccak-f[1600] as FIPS 202 defines it on lanes \<open>A[x, y]\<close>. The state is
  the list of its 25 lanes.
\<close>

section \<open>The code\<close>

definition IOTA_CONST :: "u16 list" where
  "IOTA_CONST =
     [0x0001, 0x8082, 0x808a, 0x8000, 0x808b, 0x0001, 0x8081, 0x8009, 0x008a, 0x0088, 0x8009, 0x000a,
      0x808b, 0x008b, 0x8089, 0x8003, 0x8002, 0x0080, 0x800a, 0x000a, 0x8081, 0x8080, 0x0001, 0x8008]"

definition IOTA_CONST_bit63 :: u32 where "IOTA_CONST_bit63 = 0x3307dd00"

definition IOTA_CONST_bit31 :: u32 where "IOTA_CONST_bit31 = 0x16381b00"

definition ROT_CONST :: "nat list" where
  "ROT_CONST = [1, 3, 6, 10, 15, 21, 28, 36, 45, 55, 2, 14,
                27, 41, 56, 8, 25, 43, 62, 18, 39, 61, 20, 44]"

definition PI_LANE :: "nat list" where
  "PI_LANE = [10, 7, 11, 17, 18, 3, 5, 16, 8, 21, 24, 4,
              15, 23, 19, 13, 12, 2, 20, 14, 22, 9, 6, 1]"

definition sha3_theta :: "u64 list \<Rightarrow> u64 list" where
  "sha3_theta state =
     (let C = map (\<lambda>x. state ! x XOR state ! (x + 5) XOR state ! (x + 10) XOR state ! (x + 15)
                        XOR state ! (x + 20)) [0, 1, 2, 3, 4];
          BC = C @ C
      in fold (\<lambda>x st.
           let temp = BC ! (x + 4) XOR rotl64 (BC ! (x + 1)) 1;
               st = st[x := st ! x XOR temp];
               st = st[x + 5 := st ! (x + 5) XOR temp];
               st = st[x + 10 := st ! (x + 10) XOR temp];
               st = st[x + 15 := st ! (x + 15) XOR temp]
           in st[x + 20 := st ! (x + 20) XOR temp]) [0, 1, 2, 3, 4] state)"

text \<open>Rho and pi with the index tables, and the macro \<^verbatim>\<open>RhoPi_twice\<close> of the unrolled code.\<close>

definition sha3_rhopi_small :: "u64 list \<Rightarrow> u64 list" where
  "sha3_rhopi_small state =
     fst (fold (\<lambda>x (st, t1).
       let t0 = st ! (PI_LANE ! x) in (st[PI_LANE ! x := rotl64 t1 (ROT_CONST ! x)], t0))
       [0..<24] (state, state ! 1))"

fun RhoPi_twice :: "nat \<Rightarrow> u64 list \<times> u64 \<Rightarrow> u64 list \<times> u64" where
  "RhoPi_twice x (st, t1) =
     (let t0 = st ! (PI_LANE ! x);
          st = st[PI_LANE ! x := rotl64 t1 (ROT_CONST ! x)];
          t1 = st ! (PI_LANE ! (x + 1));
          st = st[PI_LANE ! (x + 1) := rotl64 t0 (ROT_CONST ! (x + 1))]
      in (st, t1))"

definition sha3_rhopi_unrolled :: "u64 list \<Rightarrow> u64 list" where
  "sha3_rhopi_unrolled state = fst (run_ops
     [RhoPi_twice 0, RhoPi_twice 2, RhoPi_twice 4, RhoPi_twice 6, RhoPi_twice 8, RhoPi_twice 10,
      RhoPi_twice 12, RhoPi_twice 14, RhoPi_twice 16, RhoPi_twice 18, RhoPi_twice 20, RhoPi_twice 22]
     (state, state ! 1))"

definition sha3_chi_row :: "nat \<Rightarrow> u64 list \<Rightarrow> u64 list" where
  "sha3_chi_row x st =
     (let BC0 = st ! (x + 0); BC1 = st ! (x + 1); BC2 = st ! (x + 2);
          st = st[x + 0 := BC0 XOR (NOT BC1 AND BC2)];
          BC3 = st ! (x + 3);
          st = st[x + 1 := BC1 XOR (NOT BC2 AND BC3)];
          BC4 = st ! (x + 4);
          st = st[x + 2 := BC2 XOR (NOT BC3 AND BC4)];
          st = st[x + 3 := BC3 XOR (NOT BC4 AND BC0)]
      in st[x + 4 := BC4 XOR (NOT BC0 AND BC1)])"

definition sha3_chi64 :: "u64 list \<Rightarrow> u64 list" where
  "sha3_chi64 state = fold sha3_chi_row [0, 5, 10, 15, 20] state"

text \<open>
  Chi on 32-bit halves: the state seen as 50 words, low half first; the loop treats \<open>x\<close> and
  \<open>x + 1\<close>, then moves on by 10.
\<close>

definition to_s32 :: "u64 list \<Rightarrow> u32 list" where
  "to_s32 st = concat (map (\<lambda>w. [ucast w, ucast (drop_bit 32 w)]) st)"

definition join_halves :: "u32 \<Rightarrow> u32 \<Rightarrow> u64" where
  "join_halves lo hi = ucast lo OR push_bit 32 (ucast hi)"

fun of_s32 :: "u32 list \<Rightarrow> u64 list" where
  "of_s32 (lo # hi # ws) = join_halves lo hi # of_s32 ws"
| "of_s32 ws = []"

definition sha3_chi_half :: "nat \<Rightarrow> u32 list \<Rightarrow> u32 list" where
  "sha3_chi_half x s32 =
     (let BC0 = s32 ! (x + 0 * 2); BC1 = s32 ! (x + 1 * 2); BC2 = s32 ! (x + 2 * 2);
          s32 = s32[x + 0 * 2 := BC0 XOR (NOT BC1 AND BC2)];
          BC3 = s32 ! (x + 3 * 2);
          s32 = s32[x + 1 * 2 := BC1 XOR (NOT BC2 AND BC3)];
          BC4 = s32 ! (x + 4 * 2);
          s32 = s32[x + 2 * 2 := BC2 XOR (NOT BC3 AND BC4)];
          s32 = s32[x + 3 * 2 := BC3 XOR (NOT BC4 AND BC0)]
      in s32[x + 4 * 2 := BC4 XOR (NOT BC0 AND BC1)])"

definition sha3_chi32 :: "u64 list \<Rightarrow> u64 list" where
  "sha3_chi32 state =
     of_s32 (fold sha3_chi_half [0, 1, 10, 11, 20, 21, 30, 31, 40, 41] (to_s32 state))"

definition sha3_iota_const :: "nat \<Rightarrow> u64" where
  "sha3_iota_const round =
     ucast (IOTA_CONST ! round)
     OR ucast (push_bit round IOTA_CONST_bit31 AND 0x80000000)
     OR push_bit 32 (ucast (push_bit round IOTA_CONST_bit63 AND 0x80000000))"

definition sha3_iota :: "nat \<Rightarrow> u64 list \<Rightarrow> u64 list" where
  "sha3_iota round st = st[0 := st ! 0 XOR sha3_iota_const round]"

text \<open>\<open>small\<close> is \<^verbatim>\<open>SHA3_SMALL\<close>, \<open>long64\<close> tells that \<^verbatim>\<open>long\<close> has 64 bits.\<close>

definition sha3_process_block72 :: "bool \<Rightarrow> bool \<Rightarrow> u64 list \<Rightarrow> u64 list" where
  "sha3_process_block72 small long64 state =
     fold (\<lambda>round st.
       sha3_iota round
         ((if long64 then sha3_chi64 else sha3_chi32)
           ((if small then sha3_rhopi_small else sha3_rhopi_unrolled) (sha3_theta st))))
       [0..<24] state"

section \<open>FIPS 202\<close>

text \<open>Lane \<open>A[x, y]\<close> is at index \<open>x + 5 y\<close>; coordinates are taken modulo 5.\<close>

definition lane :: "u64 list \<Rightarrow> nat \<Rightarrow> nat \<Rightarrow> u64" where
  "lane A x y = A ! (x mod 5 + 5 * (y mod 5))"

definition of_lanes :: "(nat \<Rightarrow> nat \<Rightarrow> u64) \<Rightarrow> u64 list" where
  "of_lanes f = map (\<lambda>i. f (i mod 5) (i div 5))
     [0, 1, 2, 3, 4, 5, 6, 7, 8, 9, 10, 11, 12, 13, 14, 15, 16, 17, 18, 19, 20, 21, 22, 23, 24]"

definition fips202_theta :: "u64 list \<Rightarrow> u64 list" where
  "fips202_theta A =
     (let C = \<lambda>x. lane A x 0 XOR lane A x 1 XOR lane A x 2 XOR lane A x 3 XOR lane A x 4;
          D = \<lambda>x. C (x + 4) XOR rotl64 (C (x + 1)) 1
      in of_lanes (\<lambda>x y. lane A x y XOR D x))"

definition fips202_offset :: "nat \<Rightarrow> nat \<Rightarrow> nat" where
  "fips202_offset x y =
     [0, 1, 62, 28, 27, 36, 44, 6, 55, 20, 3, 10, 43, 25, 39, 41, 45, 15, 21, 8, 18, 2, 61, 56, 14]
       ! (x mod 5 + 5 * (y mod 5))"

definition fips202_rho :: "u64 list \<Rightarrow> u64 list" where
  "fips202_rho A = of_lanes (\<lambda>x y. rotl64 (lane A x y) (fips202_offset x y))"

definition fips202_pi :: "u64 list \<Rightarrow> u64 list" where
  "fips202_pi A = of_lanes (\<lambda>x y. lane A (x + 3 * y) x)"

definition fips202_chi :: "u64 list \<Rightarrow> u64 list" where
  "fips202_chi A = of_lanes (\<lambda>x y. lane A x y XOR (NOT (lane A (x + 1) y) AND lane A (x + 2) y))"

definition fips202_RC :: "u64 list" where
  "fips202_RC =
     [0x0000000000000001, 0x0000000000008082, 0x800000000000808a, 0x8000000080008000,
      0x000000000000808b, 0x0000000080000001, 0x8000000080008081, 0x8000000000008009,
      0x000000000000008a, 0x0000000000000088, 0x0000000080008009, 0x000000008000000a,
      0x000000008000808b, 0x800000000000008b, 0x8000000000008089, 0x8000000000008003,
      0x8000000000008002, 0x8000000000000080, 0x000000000000800a, 0x800000008000000a,
      0x8000000080008081, 0x8000000000008080, 0x0000000080000001, 0x8000000080008008]"

definition fips202_iota :: "nat \<Rightarrow> u64 list \<Rightarrow> u64 list" where
  "fips202_iota r A = A[0 := A ! 0 XOR fips202_RC ! r]"

definition keccak_f1600 :: "u64 list \<Rightarrow> u64 list" where
  "keccak_f1600 A =
     fold (\<lambda>r A. fips202_iota r (fips202_chi (fips202_pi (fips202_rho (fips202_theta A))))) [0..<24] A"

text \<open>The offsets are those of the walk that the standard describes.\<close>

fun rho_walk :: "nat \<Rightarrow> nat \<times> nat" where
  "rho_walk 0 = (1, 0)"
| "rho_walk (Suc t) = (case rho_walk t of (x, y) \<Rightarrow> (y, (2 * x + 3 * y) mod 5))"

lemma fips202_offset_walk:
  "list_all (\<lambda>t. fips202_offset (fst (rho_walk t)) (snd (rho_walk t)) = ((t + 1) * (t + 2) div 2) mod 64)
     [0..<24]"
  by code_simp

section \<open>The code computes the standard's permutation\<close>

lemma upt_25: "[0..<25 :: nat] =
    [0, 1, 2, 3, 4, 5, 6, 7, 8, 9, 10, 11, 12, 13, 14, 15, 16, 17, 18, 19, 20, 21, 22, 23, 24]"
  by (simp add: upt_rec)

lemma list_as_nth_25:
  assumes "length xs = 25"
  shows "\<exists>h. xs = [h 0, h 1, h 2, h 3, h 4, h 5, h 6, h 7, h 8, h 9, h 10, h 11, h 12, h 13, h 14,
    h 15, h 16, h 17, h 18, h 19, h 20, h 21, h 22, h 23, h (24 :: nat)]"
proof -
  have "xs = map (nth xs) [0..<25]" using map_nth [of xs] assms by (simp del: upt_rec_numeral)
  then show ?thesis unfolding upt_25 list.map by (rule exI [of _ "nth xs"])
qed

lemma length_of_lanes [simp]: "length (of_lanes f) = 25"
  by (simp add: of_lanes_def)

lemma theta_fips202: "length st = 25 \<Longrightarrow> sha3_theta st = fips202_theta st"
  by (drule list_as_nth_25)
    (auto simp: sha3_theta_def fips202_theta_def of_lanes_def lane_def Let_def ac_simps)

lemma upt_24: "[0..<24 :: nat] =
    [0, 1, 2, 3, 4, 5, 6, 7, 8, 9, 10, 11, 12, 13, 14, 15, 16, 17, 18, 19, 20, 21, 22, 23]"
  by (simp add: upt_rec)

lemma rotl64_0 [simp]: "rotl64 x 0 = x"
  by (rule bit_word_eqI) (simp add: bit_rotl64)

lemma rhopi_small_fips202: "length st = 25 \<Longrightarrow> sha3_rhopi_small st = fips202_pi (fips202_rho st)"
  by (drule list_as_nth_25)
    (auto simp: sha3_rhopi_small_def fips202_pi_def fips202_rho_def fips202_offset_def of_lanes_def
      lane_def upt_24 PI_LANE_def ROT_CONST_def)

lemma rhopi_unrolled_small: "sha3_rhopi_unrolled st = sha3_rhopi_small st"
  by (simp add: sha3_rhopi_unrolled_def sha3_rhopi_small_def run_ops_def upt_24 PI_LANE_def
      ROT_CONST_def Let_def)

lemma chi64_fips202: "length st = 25 \<Longrightarrow> sha3_chi64 st = fips202_chi st"
  by (drule list_as_nth_25)
    (auto simp: sha3_chi64_def sha3_chi_row_def fips202_chi_def of_lanes_def lane_def Let_def)

text \<open>Chi works bit by bit, so it may be done on the halves of the lanes.\<close>

lemma chi_join:
  "join_halves (ucast a XOR (NOT (ucast b) AND ucast c))
     (ucast (drop_bit 32 a) XOR (NOT (ucast (drop_bit 32 b)) AND ucast (drop_bit 32 c)))
   = a XOR (NOT b AND c)"
proof (rule bit_word_eqI)
  fix i assume "i < LENGTH(64)"
  then show "bit (join_halves (ucast a XOR (NOT (ucast b) AND ucast c))
      (ucast (drop_bit 32 a) XOR (NOT (ucast (drop_bit 32 b)) AND ucast (drop_bit 32 c)))) i
    = bit (a XOR (NOT b AND c)) i"
    by (cases "i < 32") (auto simp: join_halves_def bit_simps)
qed

lemma chi_halves:
  assumes "x = length pre"
  shows "sha3_chi_half (x + 1) (sha3_chi_half x (pre @ [a, a', b, b', c, c', d, d', e, e'] @ post))
    = pre @ [a XOR (NOT b AND c), a' XOR (NOT b' AND c'), b XOR (NOT c AND d), b' XOR (NOT c' AND d'),
             c XOR (NOT d AND e), c' XOR (NOT d' AND e'), d XOR (NOT e AND a), d' XOR (NOT e' AND a'),
             e XOR (NOT a AND b), e' XOR (NOT a' AND b')] @ post"
  using assms by (simp add: sha3_chi_half_def Let_def nth_append list_update_append)

text \<open>One row of five lanes, in halves and joined again.\<close>

fun row_s32 :: "u64 list \<Rightarrow> u32 list" where
  "row_s32 [a, b, c, d, e] =
     [ucast a XOR (NOT (ucast b) AND ucast c),
      ucast (drop_bit 32 a) XOR (NOT (ucast (drop_bit 32 b)) AND ucast (drop_bit 32 c)),
      ucast b XOR (NOT (ucast c) AND ucast d),
      ucast (drop_bit 32 b) XOR (NOT (ucast (drop_bit 32 c)) AND ucast (drop_bit 32 d)),
      ucast c XOR (NOT (ucast d) AND ucast e),
      ucast (drop_bit 32 c) XOR (NOT (ucast (drop_bit 32 d)) AND ucast (drop_bit 32 e)),
      ucast d XOR (NOT (ucast e) AND ucast a),
      ucast (drop_bit 32 d) XOR (NOT (ucast (drop_bit 32 e)) AND ucast (drop_bit 32 a)),
      ucast e XOR (NOT (ucast a) AND ucast b),
      ucast (drop_bit 32 e) XOR (NOT (ucast (drop_bit 32 a)) AND ucast (drop_bit 32 b))]"
| "row_s32 _ = []"

lemma chi_halves_row:
  assumes "x = length pre"
  shows "sha3_chi_half (x + 1) (sha3_chi_half x (pre @ to_s32 [a, b, c, d, e] @ post))
    = pre @ row_s32 [a, b, c, d, e] @ post"
proof -
  have "to_s32 [a, b, c, d, e] = [ucast a, ucast (drop_bit 32 a), ucast b, ucast (drop_bit 32 b),
      ucast c, ucast (drop_bit 32 c), ucast d, ucast (drop_bit 32 d), ucast e, ucast (drop_bit 32 e)]"
    by (simp add: to_s32_def)
  then show ?thesis unfolding row_s32.simps using chi_halves [OF assms] by (simp only:)
qed

lemma of_s32_row:
  "of_s32 (row_s32 [a, b, c, d, e] @ ws) =
    [a XOR (NOT b AND c), b XOR (NOT c AND d), c XOR (NOT d AND e), d XOR (NOT e AND a),
     e XOR (NOT a AND b)] @ of_s32 ws"
  by (simp add: chi_join)

lemma length_s32 [simp]: "length (to_s32 st) = 2 * length st" "length (row_s32 [a, b, c, d, e]) = 10"
  by (induction st) (simp_all add: to_s32_def)

lemma to_s32_append: "to_s32 (xs @ ys) = to_s32 xs @ to_s32 ys"
  by (simp add: to_s32_def)

lemma chi32_fips202:
  assumes "length st = 25"
  shows "sha3_chi32 st = fips202_chi st"
proof -
  obtain h where h: "st = [h 0, h 1, h 2, h 3, h 4] @ [h 5, h 6, h 7, h 8, h 9] @ [h 10, h 11, h 12, h 13, h 14]
      @ [h 15, h 16, h 17, h 18, h 19] @ [h 20, h 21, h 22, h 23, h (24 :: nat)]"
    using list_as_nth_25 [OF assms] by auto
  let ?r = "\<lambda>i. [h (5 * i), h (5 * i + 1), h (5 * i + 2), h (5 * i + 3), h (5 * i + 4)]"
  have st: "st = ?r 0 @ ?r 1 @ ?r 2 @ ?r 3 @ ?r 4" unfolding h by (simp add: numeral_2_eq_2)
  define two where "two = (\<lambda>x s. sha3_chi_half (x + 1) (sha3_chi_half x s))"
  have row: "x = length pre \<Longrightarrow> two x (pre @ to_s32 (?r i) @ post) = pre @ row_s32 (?r i) @ post" for x pre i post
    unfolding two_def by (rule chi_halves_row)
  have "fold sha3_chi_half [0, 1, 10, 11, 20, 21, 30, 31, 40, 41] s
      = two 40 (two 30 (two 20 (two 10 (two 0 s))))" for s
    by (simp add: two_def)
  moreover have "two 0 (to_s32 st)
      = row_s32 (?r 0) @ to_s32 (?r 1) @ to_s32 (?r 2) @ to_s32 (?r 3) @ to_s32 (?r 4)"
    unfolding st to_s32_append using row [of 0 "[]" 0] by simp
  moreover have "two 10 (row_s32 (?r 0) @ to_s32 (?r 1) @ to_s32 (?r 2) @ to_s32 (?r 3) @ to_s32 (?r 4))
      = (row_s32 (?r 0) @ row_s32 (?r 1)) @ to_s32 (?r 2) @ to_s32 (?r 3) @ to_s32 (?r 4)"
    by (subst row) simp_all
  moreover have "two 20 ((row_s32 (?r 0) @ row_s32 (?r 1)) @ to_s32 (?r 2) @ to_s32 (?r 3) @ to_s32 (?r 4))
      = (row_s32 (?r 0) @ row_s32 (?r 1) @ row_s32 (?r 2)) @ to_s32 (?r 3) @ to_s32 (?r 4)"
    by (subst row) simp_all
  moreover have "two 30 ((row_s32 (?r 0) @ row_s32 (?r 1) @ row_s32 (?r 2)) @ to_s32 (?r 3) @ to_s32 (?r 4))
      = (row_s32 (?r 0) @ row_s32 (?r 1) @ row_s32 (?r 2) @ row_s32 (?r 3)) @ to_s32 (?r 4) @ []"
    by (subst row) simp_all
  moreover have "two 40 ((row_s32 (?r 0) @ row_s32 (?r 1) @ row_s32 (?r 2) @ row_s32 (?r 3)) @ to_s32 (?r 4) @ [])
      = row_s32 (?r 0) @ row_s32 (?r 1) @ row_s32 (?r 2) @ row_s32 (?r 3) @ row_s32 (?r 4) @ []"
    by (subst row) simp_all
  ultimately have "sha3_chi32 st = of_s32 (row_s32 (?r 0) @ row_s32 (?r 1) @ row_s32 (?r 2) @ row_s32 (?r 3)
      @ row_s32 (?r 4) @ [])"
    unfolding sha3_chi32_def by (simp only:)
  then show ?thesis
    unfolding of_s32_row by (simp add: st fips202_chi_def of_lanes_def lane_def)
qed

lemma iota_const_fips202: "r < 24 \<Longrightarrow> sha3_iota_const r = fips202_RC ! r"
proof -
  have "map sha3_iota_const [0, 1, 2, 3, 4, 5, 6, 7, 8, 9, 10, 11, 12, 13, 14, 15, 16, 17, 18, 19, 20,
      21, 22, 23] = fips202_RC"
    by (simp add: sha3_iota_const_def IOTA_CONST_def IOTA_CONST_bit31_def IOTA_CONST_bit63_def fips202_RC_def)
  then have "map sha3_iota_const [0..<24] = fips202_RC" unfolding upt_24 .
  moreover assume "r < 24"
  then have "map sha3_iota_const [0..<24] ! r = sha3_iota_const r" by (subst nth_map) simp_all
  ultimately show ?thesis by simp
qed

lemma fold_length_cong:
  assumes "\<And>r st. r \<in> set rs \<Longrightarrow> length st = n \<Longrightarrow> f r st = g r st \<and> length (g r st) = n"
    and "length st = n"
  shows "fold f rs st = fold g rs st \<and> length (fold g rs st) = n"
  using assms by (induction rs arbitrary: st) simp_all

lemma keccak_step:
  assumes "length st = 25" and "r < 24"
  shows "sha3_iota r ((if long64 then sha3_chi64 else sha3_chi32)
      ((if small then sha3_rhopi_small else sha3_rhopi_unrolled) (sha3_theta st)))
    = fips202_iota r (fips202_chi (fips202_pi (fips202_rho (fips202_theta st))))"
proof -
  have "length (fips202_theta st) = 25" and len: "length (fips202_pi (fips202_rho (fips202_theta st))) = 25"
    by (simp_all add: fips202_theta_def fips202_pi_def Let_def)
  then have "(if small then sha3_rhopi_small else sha3_rhopi_unrolled) (sha3_theta st)
      = fips202_pi (fips202_rho (fips202_theta st))"
    using assms(1) by (simp add: theta_fips202 rhopi_unrolled_small rhopi_small_fips202)
  then show ?thesis
    using len assms(2)
    by (simp add: chi64_fips202 chi32_fips202 sha3_iota_def fips202_iota_def iota_const_fips202)
qed

lemma sha3_process_block72_keccak:
  assumes "length st = 25"
  shows "sha3_process_block72 small long64 st = keccak_f1600 st" and "length (keccak_f1600 st) = 25"
proof -
  have len: "length (fips202_iota r (fips202_chi A)) = 25" for r A
    by (simp add: fips202_iota_def fips202_chi_def)
  have "sha3_process_block72 small long64 st = keccak_f1600 st \<and> length (keccak_f1600 st) = 25"
    unfolding sha3_process_block72_def keccak_f1600_def
    by (rule fold_length_cong) (use assms keccak_step len in auto)
  then show "sha3_process_block72 small long64 st = keccak_f1600 st" and "length (keccak_f1600 st) = 25"
    by simp_all
qed

section \<open>Properties\<close>

text \<open>In all four configurations (rho and pi by table or unrolled, chi on 64-bit lanes or on
  their 32-bit halves, the round constants rebuilt from a 16-bit table and two bit strings)
  \<^verbatim>\<open>sha3_process_block72\<close> is the permutation Keccak-f[1600] of FIPS 202.\<close>

theorem sha3_variants_keccak:
  assumes "length state = 25"
  shows "sha3_process_block72 small long64 state = keccak_f1600 state"
  using assms by (rule sha3_process_block72_keccak)

theorem sha3_variants_keccak_witness:
  "sha3_process_block72 False False (replicate 25 1) = keccak_f1600 (replicate 25 1)"
  by (rule sha3_variants_keccak) simp

end
