(* ===== verification/Sha3.thy ===== *)
theory Sha3
  imports Sha3_Perm
begin

text \<open>
  The sponge of \<^verbatim>\<open>libbb/hash_md5_sha.c\<close>: \<^verbatim>\<open>sha3_begin\<close>, the two versions of
  \<^verbatim>\<open>sha3_hash\<close> (one byte at a time, or whole blocks a \<^verbatim>\<open>long\<close> at a time) and
  \<^verbatim>\<open>sha3_end\<close>. Data is xored into the bytes of the state in memory; on a little-endian
  target byte \<open>p\<close> is bits \<open>8 (p mod 8)\<close> upwards of lane \<open>p div 8\<close>.
\<close>

record sha3_ctx =
  s3_state :: "u64 list"
  s3_bytes_queued :: nat
  s3_input_block_bytes :: nat

record sha3_config =
  s3_small :: bool
  s3_long64 :: bool

definition sha3_begin :: sha3_ctx where
  "sha3_begin = \<lparr>s3_state = replicate 25 0, s3_bytes_queued = 0,
     s3_input_block_bytes = (1600 - 512 * 2) div 8\<rparr>"

text \<open>\<open>buf[p] ^= b\<close> with \<open>buf\<close> the state as bytes, and a run of such assignments.\<close>

definition xor_byte :: "nat \<Rightarrow> byte \<Rightarrow> u64 list \<Rightarrow> u64 list" where
  "xor_byte p b st = st[p div 8 := st ! (p div 8) XOR push_bit (8 * (p mod 8)) (ucast b)]"

fun xor_bytes :: "nat \<Rightarrow> byte list \<Rightarrow> u64 list \<Rightarrow> u64 list" where
  "xor_bytes p [] st = st"
| "xor_bytes p (b # bs) st = xor_bytes (p + 1) bs (xor_byte p b st)"

section \<open>Absorbing\<close>

text \<open>\<^verbatim>\<open>SHA3_SMALL\<close>: fill up the block byte by byte, permute when it is full.\<close>

function sha3_hash_small_loop ::
  "sha3_config \<Rightarrow> nat \<Rightarrow> u64 list \<Rightarrow> nat \<Rightarrow> byte list \<Rightarrow> u64 list \<times> nat" where
  "sha3_hash_small_loop cfg iblk st bufpos data =
     (let remaining = min (iblk - bufpos) (length data);
          st' = xor_bytes bufpos (take remaining data) st;
          data' = drop remaining data
      in if iblk = 0 \<or> bufpos + remaining \<noteq> iblk then (st', bufpos + remaining)
         else sha3_hash_small_loop cfg iblk (sha3_process_block72 (s3_small cfg) (s3_long64 cfg) st') 0 data')"
  by pat_completeness auto
termination
  by (relation "measure (\<lambda>(cfg, iblk, st, p, d). 2 * length d + (if p = iblk then 1 else 0))") auto

declare sha3_hash_small_loop.simps [simp del]

text \<open>
  Otherwise: first the bytes of a block that was begun (\<open>None\<close>: the data ran out before it was
  full), then whole blocks word by word, then the rest byte by byte.
\<close>

fun sha3_queue :: "nat \<Rightarrow> u64 list \<Rightarrow> nat \<Rightarrow> byte list \<Rightarrow> (u64 list \<times> byte list) option \<times> u64 list \<times> nat" where
  "sha3_queue iblk st bufpos [] = (None, st, bufpos)"
| "sha3_queue iblk st bufpos (b # data) =
     (let st' = xor_byte bufpos b st
      in if bufpos + 1 = iblk then (Some (st', data), st', 0) else sha3_queue iblk st' (bufpos + 1) data)"

definition xor_words :: "nat \<Rightarrow> byte list \<Rightarrow> u64 list \<Rightarrow> u64 list" where
  "xor_words count data st =
     fold (\<lambda>k st. st[k := st ! k XOR le_word (take 8 (drop (8 * k) data))]) [0..<count] st"

function sha3_blocks :: "sha3_config \<Rightarrow> nat \<Rightarrow> u64 list \<Rightarrow> byte list \<Rightarrow> u64 list \<times> byte list" where
  "sha3_blocks cfg iblk st data =
     (if 0 < iblk \<and> iblk \<le> length data
      then sha3_blocks cfg iblk
             (sha3_process_block72 (s3_small cfg) (s3_long64 cfg) (xor_words (iblk div 8) data st))
             (drop iblk data)
      else (st, data))"
  by pat_completeness auto
termination
  by (relation "measure (\<lambda>(cfg, iblk, st, d). length d)") auto

declare sha3_blocks.simps [simp del]

definition sha3_hash_fast ::
  "sha3_config \<Rightarrow> nat \<Rightarrow> u64 list \<Rightarrow> nat \<Rightarrow> byte list \<Rightarrow> u64 list \<times> nat" where
  "sha3_hash_fast cfg iblk st bufpos data =
     (let (full, st, bufpos, data) =
        (if bufpos \<noteq> 0 then
           (case sha3_queue iblk st bufpos data of
              (None, st, bufpos) \<Rightarrow> (False, st, bufpos, [])
            | (Some (st, data), _, bufpos) \<Rightarrow> (True, st, bufpos, data))
         else (False, st, bufpos, data));
        st = (if full then sha3_process_block72 (s3_small cfg) (s3_long64 cfg) st else st);
        (st, data) = sha3_blocks cfg iblk st data
      in (xor_bytes bufpos data st, bufpos + length data))"

definition sha3_hash :: "sha3_config \<Rightarrow> sha3_ctx \<Rightarrow> byte list \<Rightarrow> sha3_ctx" where
  "sha3_hash cfg ctx data =
     (let (st, bufpos) =
        (if s3_small cfg
         then sha3_hash_small_loop cfg (s3_input_block_bytes ctx) (s3_state ctx) (s3_bytes_queued ctx) data
         else sha3_hash_fast cfg (s3_input_block_bytes ctx) (s3_state ctx) (s3_bytes_queued ctx) data)
      in ctx\<lparr>s3_state := st, s3_bytes_queued := bufpos\<rparr>)"

definition sha3_end :: "sha3_config \<Rightarrow> sha3_ctx \<Rightarrow> sha3_ctx \<times> byte list \<times> nat" where
  "sha3_end cfg ctx =
     (let st = xor_byte (s3_bytes_queued ctx) 6 (s3_state ctx);
          st = xor_byte (s3_input_block_bytes ctx - 1) 0x80 st;
          st = sha3_process_block72 (s3_small cfg) (s3_long64 cfg) st
      in (ctx\<lparr>s3_state := st\<rparr>, take 64 (concat (map (le_bytes 8) st)), 64))"

section \<open>Xoring into the state\<close>

lemma length_xor_byte [simp]: "length (xor_byte p b st) = length st"
  by (simp add: xor_byte_def)

lemma length_xor_bytes [simp]: "length (xor_bytes p bs st) = length st"
  by (induction p bs st rule: xor_bytes.induct) simp_all

lemma xor_bytes_append: "xor_bytes p (xs @ ys) st = xor_bytes (p + length xs) ys (xor_bytes p xs st)"
  by (induction p xs st rule: xor_bytes.induct) simp_all

lemma xor_byte_zero [simp]: "xor_byte p 0 st = st"
  by (cases "p div 8 < length st") (simp_all add: xor_byte_def)

lemma xor_bytes_zeros [simp]: "xor_bytes p (replicate n 0) st = st"
  by (induction n arbitrary: p) simp_all

text \<open>Eight bytes at a lane boundary are one word.\<close>

lemma xor_bytes_lane:
  assumes "length bs = 8"
  shows "xor_bytes (8 * k) bs st = st[k := st ! k XOR le_word bs]"
proof (cases "k < length st")
  case True
  obtain b0 b1 b2 b3 b4 b5 b6 b7 where bs: "bs = [b0, b1, b2, b3, b4, b5, b6, b7]"
    using assms by (auto simp: numeral_eq_Suc length_Suc_conv)
  have div: "(8 * k + j) div 8 = k" "(8 * k + j) mod 8 = j" if "j < 8" for j
    using that by simp_all
  show ?thesis
    using True div [of 0] div [of 1] div [of 2] div [of 3] div [of 4] div [of 5] div [of 6] div [of 7]
    unfolding bs
    by (simp add: xor_byte_def le_word_xor xor.assoc del: le_word.simps(2))
next
  case False
  have "xor_bytes p bs st = st" if "8 * length st \<le> p" for p
    using that
  proof (induction p bs st rule: xor_bytes.induct)
    case (2 p b bs st)
    have "length st \<le> p div 8" using 2(2) by (simp add: less_eq_div_iff_mult_less_eq mult.commute)
    then have "xor_byte p b st = st" by (simp add: xor_byte_def list_update_beyond)
    then show ?case using 2 by simp
  qed simp
  from this [of "8 * k"] show ?thesis using False by (simp add: list_update_beyond)
qed

lemma xor_words_bytes:
  assumes "8 * count \<le> length data"
  shows "xor_words count data st = xor_bytes 0 (take (8 * count) data) st"
  using assms
proof (induction count)
  case (Suc c)
  have "take (8 * Suc c) data = take (8 * c) data @ take 8 (drop (8 * c) data)"
    using take_add [of "8 * c" 8 data] by (simp add: add.commute)
  moreover have "length (take (8 * c) data) = 8 * c" using Suc.prems by simp
  ultimately have "xor_bytes 0 (take (8 * Suc c) data) st
      = xor_bytes (8 * c) (take 8 (drop (8 * c) data)) (xor_bytes 0 (take (8 * c) data) st)"
    by (simp add: xor_bytes_append)
  also have "\<dots> = xor_words (Suc c) data st"
    using Suc xor_bytes_lane [of "take 8 (drop (8 * c) data)" c]
    by (simp add: xor_words_def)
  finally show ?case by simp
qed (simp add: xor_words_def)

section \<open>A context represents a message\<close>

text \<open>One full block into the sponge.\<close>

definition sponge_block :: "byte list \<Rightarrow> u64 list \<Rightarrow> u64 list" where
  "sponge_block b st = keccak_f1600 (xor_bytes 0 b st)"

definition sponge_state :: "nat \<Rightarrow> byte list \<Rightarrow> u64 list" where
  "sponge_state r m = xor_bytes 0 (leftover r m) (absorb sponge_block r (replicate 25 0) m)"

text \<open>Rates the code is used with: whole words, at most the state.\<close>

definition rate_ok :: "nat \<Rightarrow> bool" where
  "rate_ok r \<longleftrightarrow> 0 < r \<and> r \<le> 200 \<and> 8 dvd r"

lemma length_absorb_sponge:
  "length h = 25 \<Longrightarrow> length (absorb sponge_block r h m) = 25"
  by (rule absorb_frame [where r = "[]" and k = 25, THEN conjunct2])
    (simp_all add: sponge_block_def sha3_process_block72_keccak(2))

lemma length_sponge_state [simp]: "length (sponge_state r m) = 25"
  by (simp add: sponge_state_def length_absorb_sponge)

text \<open>Both versions of the loop, from a state with the bytes \<open>t\<close> already in it.\<close>

lemma small_loop_sponge:
  assumes "0 < r" and "length h = 25" and "length t < r"
  shows "sha3_hash_small_loop cfg r (xor_bytes 0 t h) (length t) d
    = (xor_bytes 0 (leftover r (t @ d)) (absorb sponge_block r h (t @ d)), length (t @ d) mod r)"
  using assms(2,3)
proof (induction "length d" arbitrary: h t d rule: less_induct)
  case less
  show ?case
  proof (cases "length d < r - length t")
    case True
    then have "length t + length d \<noteq> r" by simp
    then show ?thesis
      using less.prems True
      by (subst sha3_hash_small_loop.simps)
        (simp add: absorb_short leftover_short xor_bytes_append Let_def)
  next
    case False
    let ?k = "r - length t"
    let ?b = "t @ take ?k d"
    have b: "length ?b = r" using False less.prems by simp
    have msg: "t @ d = ?b @ drop ?k d" by simp
    have lt: "length (drop ?k d) < length d" using False less.prems by simp
    have fold_b: "xor_bytes (length t) (take ?k d) (xor_bytes 0 t h) = xor_bytes 0 ?b h"
      by (simp add: xor_bytes_append)
    have len: "length (t @ d) mod r = length (drop ?k d) mod r"
      using False less.prems(2) by (simp add: le_mod_geq add.commute [of "length t"])
    have "sha3_hash_small_loop cfg r (xor_bytes 0 t h) (length t) d
        = sha3_hash_small_loop cfg r (xor_bytes 0 [] (sponge_block ?b h)) (length ([] :: byte list)) (drop ?k d)"
      using False less.prems assms(1) b
      by (subst sha3_hash_small_loop.simps)
        (simp add: fold_b sponge_block_def sha3_process_block72_keccak(1) min_def Let_def
          del: xor_bytes.simps(2))
    also have "\<dots> = (xor_bytes 0 (leftover r ([] @ drop ?k d))
        (absorb sponge_block r (sponge_block ?b h) ([] @ drop ?k d)), length ([] @ drop ?k d) mod r)"
      using assms(1) less.prems(1)
      by (intro less.hyps [OF lt]) (simp_all add: sponge_block_def sha3_process_block72_keccak(2))
    finally show ?thesis
      unfolding len unfolding msg absorb_cons [OF b assms(1)] leftover_cons [OF b assms(1)] by simp
  qed
qed

lemma sha3_blocks_absorb:
  assumes "0 < r" and "8 dvd r" and "length h = 25"
  shows "sha3_blocks cfg r h d = (absorb sponge_block r h d, leftover r d)"
  using assms(3)
proof (induction "length d" arbitrary: h d rule: less_induct)
  case less
  show ?case
  proof (cases "r \<le> length d")
    case True
    let ?b = "take r d"
    have b: "length ?b = r" and d: "d = ?b @ drop r d" using True by simp_all
    have "8 * (r div 8) = r" using assms(2) by simp
    then have "xor_words (r div 8) d h = xor_bytes 0 ?b h"
      using xor_words_bytes [of "r div 8" d h] True by simp
    then have "sha3_blocks cfg r h d = sha3_blocks cfg r (sponge_block ?b h) (drop r d)"
      using True assms(1) less.prems
      by (subst sha3_blocks.simps) (simp add: sponge_block_def sha3_process_block72_keccak(1))
    also have "\<dots> = (absorb sponge_block r (sponge_block ?b h) (drop r d), leftover r (drop r d))"
      using True assms(1) less.prems
      by (intro less.hyps) (simp_all add: sponge_block_def sha3_process_block72_keccak(2))
    also have "\<dots> = (absorb sponge_block r h (?b @ drop r d), leftover r (?b @ drop r d))"
      by (simp only: absorb_cons [OF b assms(1)] leftover_cons [OF b assms(1)])
    finally show ?thesis using d by simp
  next
    case False
    then show ?thesis by (subst sha3_blocks.simps) (simp add: absorb_short leftover_short)
  qed
qed

lemma sha3_queue_bytes:
  assumes "p < r"
  shows "sha3_queue r st p d =
    (if p + length d < r then (None, xor_bytes p d st, p + length d)
     else (Some (xor_bytes p (take (r - p) d) st, drop (r - p) d), xor_bytes p (take (r - p) d) st, 0))"
  using assms
proof (induction r st p d rule: sha3_queue.induct)
  case (2 r st p b d)
  show ?case
  proof (cases "p + 1 = r")
    case True
    then have "r - p = 1" by simp
    then show ?thesis using True by (simp add: Let_def)
  next
    case False
    then have "r - p = Suc (r - (p + 1))" and lt: "p + 1 < r" using "2.prems" by simp_all
    then show ?thesis using False "2.IH" [OF refl False lt] by simp
  qed
qed simp

lemma fast_loop_sponge:
  assumes "0 < r" and "8 dvd r" and "length h = 25" and "length t < r"
  shows "sha3_hash_fast cfg r (xor_bytes 0 t h) (length t) d
    = (xor_bytes 0 (leftover r (t @ d)) (absorb sponge_block r h (t @ d)), length (t @ d) mod r)"
proof (cases "t = []")
  case True
  then show ?thesis
    using assms by (simp add: sha3_hash_fast_def sha3_blocks_absorb)
next
  case False
  then have ne: "length t \<noteq> 0" by simp
  show ?thesis
  proof (cases "length t + length d < r")
    case True
    have "sha3_blocks cfg r (xor_bytes (length t) d (xor_bytes 0 t h)) []
        = (xor_bytes (length t) d (xor_bytes 0 t h), [])"
      using assms(1) by (subst sha3_blocks.simps) simp
    then show ?thesis
      using True ne
      by (simp add: sha3_hash_fast_def sha3_queue_bytes [OF assms(4)] absorb_short leftover_short
          xor_bytes_append)
  next
    case False
    let ?k = "r - length t"
    let ?b = "t @ take ?k d"
    have b: "length ?b = r" using False assms(4) by simp
    have msg: "t @ d = ?b @ drop ?k d" by simp
    have len: "length (t @ d) mod r = length (drop ?k d) mod r"
      using False assms(4) by (simp add: le_mod_geq add.commute [of "length t"])
    have fold_b: "xor_bytes (length t) (take ?k d) (xor_bytes 0 t h) = xor_bytes 0 ?b h"
      by (simp add: xor_bytes_append)
    have blk: "length (sponge_block ?b h) = 25"
      using assms(3) by (simp add: sponge_block_def sha3_process_block72_keccak(2))
    have "sha3_hash_fast cfg r (xor_bytes 0 t h) (length t) d
        = (xor_bytes 0 (leftover r (drop ?k d)) (absorb sponge_block r (sponge_block ?b h) (drop ?k d)),
           length (drop ?k d) mod r)"
      using False ne sha3_blocks_absorb [OF assms(1,2) blk, of cfg "drop ?k d"] assms(3)
      by (simp add: sha3_hash_fast_def sha3_queue_bytes [OF assms(4)] fold_b sha3_process_block72_keccak(1)
          sponge_block_def)
    then show ?thesis
      unfolding len unfolding msg absorb_cons [OF b assms(1)] leftover_cons [OF b assms(1)] by simp
  qed
qed

text \<open>The padding of SHA-3: the bits 01, then 1, zeros and 1 up to the end of the block.\<close>

definition sha3_pad :: "nat \<Rightarrow> byte list \<Rightarrow> byte list" where
  "sha3_pad r m =
     (let k = r - length m mod r
      in m @ (if k = 1 then [0x86] else 0x06 # replicate (k - 2) 0 @ [0x80]))"

definition sha3_digest :: "nat \<Rightarrow> byte list \<Rightarrow> byte list" where
  "sha3_digest r m =
     take 64 (concat (map (le_bytes 8) (absorb sponge_block r (replicate 25 0) (sha3_pad r m))))"

definition sha3_rep :: "nat \<Rightarrow> byte list \<Rightarrow> sha3_ctx \<Rightarrow> bool" where
  "sha3_rep r m ctx \<longleftrightarrow>
     rate_ok r \<and> s3_input_block_bytes ctx = r \<and> s3_bytes_queued ctx = length m mod r
     \<and> s3_state ctx = sponge_state r m"

lemma sha3_hash_rep:
  assumes "sha3_rep r m ctx"
  shows "sha3_rep r (m @ d) (sha3_hash cfg ctx d)"
proof -
  let ?h = "absorb sponge_block r (replicate 25 0) m"
  have r: "0 < r" "8 dvd r" and ctx: "s3_input_block_bytes ctx = r"
    "s3_bytes_queued ctx = length (leftover r m)" "s3_state ctx = xor_bytes 0 (leftover r m) ?h"
    using assms by (simp_all add: sha3_rep_def rate_ok_def sponge_state_def)
  have h: "length ?h = 25" by (simp add: length_absorb_sponge)
  have lt: "length (leftover r m) < r" using r(1) by simp
  have state: "xor_bytes 0 (leftover r (leftover r m @ d)) (absorb sponge_block r ?h (leftover r m @ d))
      = sponge_state r (m @ d)"
    using r(1) by (simp add: sponge_state_def absorb_leftover(1) [of r _ _ m] absorb_leftover(2) [of r m])
  have len: "length (leftover r m @ d) mod r = length (m @ d) mod r" by (simp add: mod_simps)
  have "sha3_hash cfg ctx d = ctx\<lparr>s3_state := sponge_state r (m @ d), s3_bytes_queued := length (m @ d) mod r\<rparr>"
    using small_loop_sponge [OF r(1) h lt, of cfg d] fast_loop_sponge [OF r h lt, of cfg d]
    unfolding state len by (simp add: sha3_hash_def ctx)
  then show ?thesis using assms by (simp add: sha3_rep_def)
qed

lemma xor_byte_twice: "xor_byte p b (xor_byte p c st) = xor_byte p (c XOR b) st"
proof (cases "p div 8 < length st")
  case True
  have "push_bit n (ucast c) XOR push_bit n (ucast b) = push_bit n (ucast (c XOR b) :: u64)" for n
    by (rule bit_word_eqI) (auto simp: bit_simps)
  then show ?thesis using True by (simp add: xor_byte_def xor.assoc)
next
  case False
  then show ?thesis by (simp add: xor_byte_def list_update_beyond)
qed

lemma sponge_pad:
  assumes "0 < r"
  shows "absorb sponge_block r (replicate 25 0) (sha3_pad r m)
    = keccak_f1600 (xor_byte (r - 1) 0x80 (xor_byte (length m mod r) 6 (sponge_state r m)))"
proof -
  let ?h = "absorb sponge_block r (replicate 25 0) m"
  define k where "k = r - length m mod r"
  define tail where "tail = (if k = 1 then [0x86] else 0x06 # replicate (k - 2) 0 @ [0x80 :: byte])"
  let ?b = "leftover r m @ tail"
  have k: "0 < k" "k \<le> r" "length m mod r + k = r" using assms by (simp_all add: k_def)
  have b: "length ?b = r" using k by (auto simp: tail_def)
  have "sha3_pad r m = m @ tail"
    unfolding sha3_pad_def Let_def k_def [symmetric] tail_def [symmetric] by (rule refl)
  then have "absorb sponge_block r (replicate 25 0) (sha3_pad r m) = sponge_block ?b ?h"
    using absorb_leftover(1) [OF assms, of sponge_block "replicate 25 0" m tail] absorb_one [OF b assms]
    by simp
  also have "\<dots> = keccak_f1600 (xor_bytes (length m mod r) tail (sponge_state r m))"
    by (simp add: sponge_block_def sponge_state_def xor_bytes_append)
  also have "xor_bytes (length m mod r) tail (sponge_state r m)
      = xor_byte (r - 1) 0x80 (xor_byte (length m mod r) 6 (sponge_state r m))"
  proof (cases "k = 1")
    case True
    then have "r - 1 = length m mod r" using k(3) by simp
    then show ?thesis using True by (simp add: tail_def xor_byte_twice)
  next
    case False
    then have "length m mod r + 1 + (k - 2) = r - 1" using k by simp
    then show ?thesis using False by (simp add: tail_def xor_bytes_append)
  qed
  finally show ?thesis .
qed

interpretation sha3: streaming_hash any_piece "sha3_rep r" "sha3_hash cfg" "\<lambda>c. fst (snd (sha3_end cfg c))"
  "sha3_digest r"
  for r cfg
proof
  fix m c d
  show "sha3_rep r m c \<Longrightarrow> sha3_rep r (m @ d) (sha3_hash cfg c d)" by (rule sha3_hash_rep)
  assume rep: "sha3_rep r m c"
  then have "0 < r" by (simp add: sha3_rep_def rate_ok_def)
  then show "fst (snd (sha3_end cfg c)) = sha3_digest r m"
    using rep
    by (simp add: sha3_end_def sha3_digest_def sha3_rep_def Let_def sponge_pad sha3_process_block72_keccak(1))
qed

lemma sha3_rep_begin:
  assumes "rate_ok r"
  shows "sha3_rep r [] (sha3_begin\<lparr>s3_input_block_bytes := r\<rparr>)"
proof -
  have "0 < r" using assms by (simp add: rate_ok_def)
  then show ?thesis
    using assms
    by (simp add: sha3_rep_def sha3_begin_def sponge_state_def absorb_short leftover_short)
qed

section \<open>Properties\<close>

text \<open>C23: SHA-3 in pieces: in every configuration, for every rate of the code's users (a positive
  multiple of 8 within the state), a message fed to \<^verbatim>\<open>sha3_hash\<close> in any pieces gives the first
  64 bytes of the sponge of FIPS 202 over the padded message. In particular the version that
  works a byte at a time and the one that jumps into the middle of its block loop and xors whole
  words agree on every input.\<close>

theorem sha3_stream_digest:
  assumes "rate_ok r"
  shows "fst (snd (sha3_end cfg (foldl (sha3_hash cfg) (sha3_begin\<lparr>s3_input_block_bytes := r\<rparr>) ds)))
    = sha3_digest r (concat ds)"
  using sha3.finish_updates [OF all_any_piece sha3_rep_begin [OF assms]] by simp

theorem sha3_stream_digest_witness:
  "fst (snd (sha3_end \<lparr>s3_small = False, s3_long64 = True\<rparr>
      (foldl (sha3_hash \<lparr>s3_small = False, s3_long64 = True\<rparr>) (sha3_begin\<lparr>s3_input_block_bytes := 72\<rparr>)
        [[0x61], [0x62, 0x63]])))
    = sha3_digest 72 [0x61, 0x62, 0x63]"
  using sha3_stream_digest [of 72 "\<lparr>s3_small = False, s3_long64 = True\<rparr>" "[[0x61], [0x62, 0x63]]"]
  by (simp add: rate_ok_def)

end
