(* ===== verification/Tls_Aes.thy ===== *)
theory Tls_Aes
  imports Byte_Words
begin

text \<open>
  \<^verbatim>\<open>networking/tls_aes.c\<close>: AES with keys of 128, 192 and 256 bits and its CBC mode.
  The state \<^verbatim>\<open>astate\<close> is an array of sixteen \<^verbatim>\<open>unsigned\<close> that hold bytes; that they
  stay below 256, so that the table accesses are in range, is an invariant of every step.
\<close>

section \<open>Tables\<close>

definition sbox :: "byte list" where
  "sbox =
     [0x63, 0x7c, 0x77, 0x7b, 0xf2, 0x6b, 0x6f, 0xc5, 0x30, 0x01, 0x67, 0x2b, 0xfe, 0xd7, 0xab, 0x76,
      0xca, 0x82, 0xc9, 0x7d, 0xfa, 0x59, 0x47, 0xf0, 0xad, 0xd4, 0xa2, 0xaf, 0x9c, 0xa4, 0x72, 0xc0,
      0xb7, 0xfd, 0x93, 0x26, 0x36, 0x3f, 0xf7, 0xcc, 0x34, 0xa5, 0xe5, 0xf1, 0x71, 0xd8, 0x31, 0x15,
      0x04, 0xc7, 0x23, 0xc3, 0x18, 0x96, 0x05, 0x9a, 0x07, 0x12, 0x80, 0xe2, 0xeb, 0x27, 0xb2, 0x75,
      0x09, 0x83, 0x2c, 0x1a, 0x1b, 0x6e, 0x5a, 0xa0, 0x52, 0x3b, 0xd6, 0xb3, 0x29, 0xe3, 0x2f, 0x84,
      0x53, 0xd1, 0x00, 0xed, 0x20, 0xfc, 0xb1, 0x5b, 0x6a, 0xcb, 0xbe, 0x39, 0x4a, 0x4c, 0x58, 0xcf,
      0xd0, 0xef, 0xaa, 0xfb, 0x43, 0x4d, 0x33, 0x85, 0x45, 0xf9, 0x02, 0x7f, 0x50, 0x3c, 0x9f, 0xa8,
      0x51, 0xa3, 0x40, 0x8f, 0x92, 0x9d, 0x38, 0xf5, 0xbc, 0xb6, 0xda, 0x21, 0x10, 0xff, 0xf3, 0xd2,
      0xcd, 0x0c, 0x13, 0xec, 0x5f, 0x97, 0x44, 0x17, 0xc4, 0xa7, 0x7e, 0x3d, 0x64, 0x5d, 0x19, 0x73,
      0x60, 0x81, 0x4f, 0xdc, 0x22, 0x2a, 0x90, 0x88, 0x46, 0xee, 0xb8, 0x14, 0xde, 0x5e, 0x0b, 0xdb,
      0xe0, 0x32, 0x3a, 0x0a, 0x49, 0x06, 0x24, 0x5c, 0xc2, 0xd3, 0xac, 0x62, 0x91, 0x95, 0xe4, 0x79,
      0xe7, 0xc8, 0x37, 0x6d, 0x8d, 0xd5, 0x4e, 0xa9, 0x6c, 0x56, 0xf4, 0xea, 0x65, 0x7a, 0xae, 0x08,
      0xba, 0x78, 0x25, 0x2e, 0x1c, 0xa6, 0xb4, 0xc6, 0xe8, 0xdd, 0x74, 0x1f, 0x4b, 0xbd, 0x8b, 0x8a,
      0x70, 0x3e, 0xb5, 0x66, 0x48, 0x03, 0xf6, 0x0e, 0x61, 0x35, 0x57, 0xb9, 0x86, 0xc1, 0x1d, 0x9e,
      0xe1, 0xf8, 0x98, 0x11, 0x69, 0xd9, 0x8e, 0x94, 0x9b, 0x1e, 0x87, 0xe9, 0xce, 0x55, 0x28, 0xdf,
      0x8c, 0xa1, 0x89, 0x0d, 0xbf, 0xe6, 0x42, 0x68, 0x41, 0x99, 0x2d, 0x0f, 0xb0, 0x54, 0xbb, 0x16]"

definition rsbox :: "byte list" where
  "rsbox =
     [0x52, 0x09, 0x6a, 0xd5, 0x30, 0x36, 0xa5, 0x38, 0xbf, 0x40, 0xa3, 0x9e, 0x81, 0xf3, 0xd7, 0xfb,
      0x7c, 0xe3, 0x39, 0x82, 0x9b, 0x2f, 0xff, 0x87, 0x34, 0x8e, 0x43, 0x44, 0xc4, 0xde, 0xe9, 0xcb,
      0x54, 0x7b, 0x94, 0x32, 0xa6, 0xc2, 0x23, 0x3d, 0xee, 0x4c, 0x95, 0x0b, 0x42, 0xfa, 0xc3, 0x4e,
      0x08, 0x2e, 0xa1, 0x66, 0x28, 0xd9, 0x24, 0xb2, 0x76, 0x5b, 0xa2, 0x49, 0x6d, 0x8b, 0xd1, 0x25,
      0x72, 0xf8, 0xf6, 0x64, 0x86, 0x68, 0x98, 0x16, 0xd4, 0xa4, 0x5c, 0xcc, 0x5d, 0x65, 0xb6, 0x92,
      0x6c, 0x70, 0x48, 0x50, 0xfd, 0xed, 0xb9, 0xda, 0x5e, 0x15, 0x46, 0x57, 0xa7, 0x8d, 0x9d, 0x84,
      0x90, 0xd8, 0xab, 0x00, 0x8c, 0xbc, 0xd3, 0x0a, 0xf7, 0xe4, 0x58, 0x05, 0xb8, 0xb3, 0x45, 0x06,
      0xd0, 0x2c, 0x1e, 0x8f, 0xca, 0x3f, 0x0f, 0x02, 0xc1, 0xaf, 0xbd, 0x03, 0x01, 0x13, 0x8a, 0x6b,
      0x3a, 0x91, 0x11, 0x41, 0x4f, 0x67, 0xdc, 0xea, 0x97, 0xf2, 0xcf, 0xce, 0xf0, 0xb4, 0xe6, 0x73,
      0x96, 0xac, 0x74, 0x22, 0xe7, 0xad, 0x35, 0x85, 0xe2, 0xf9, 0x37, 0xe8, 0x1c, 0x75, 0xdf, 0x6e,
      0x47, 0xf1, 0x1a, 0x71, 0x1d, 0x29, 0xc5, 0x89, 0x6f, 0xb7, 0x62, 0x0e, 0xaa, 0x18, 0xbe, 0x1b,
      0xfc, 0x56, 0x3e, 0x4b, 0xc6, 0xd2, 0x79, 0x20, 0x9a, 0xdb, 0xc0, 0xfe, 0x78, 0xcd, 0x5a, 0xf4,
      0x1f, 0xdd, 0xa8, 0x33, 0x88, 0x07, 0xc7, 0x31, 0xb1, 0x12, 0x10, 0x59, 0x27, 0x80, 0xec, 0x5f,
      0x60, 0x51, 0x7f, 0xa9, 0x19, 0xb5, 0x4a, 0x0d, 0x2d, 0xe5, 0x7a, 0x9f, 0x93, 0xc9, 0x9c, 0xef,
      0xa0, 0xe0, 0x3b, 0x4d, 0xae, 0x2a, 0xf5, 0xb0, 0xc8, 0xeb, 0xbb, 0x3c, 0x83, 0x53, 0x99, 0x61,
      0x17, 0x2b, 0x04, 0x7e, 0xba, 0x77, 0xd6, 0x26, 0xe1, 0x69, 0x14, 0x63, 0x55, 0x21, 0x0c, 0x7d]"

section \<open>Key expansion\<close>

definition Subword :: "u32 \<Rightarrow> u32" where
  "Subword x = push_bit 24 (ucast (sbox ! unat (drop_bit 24 x)))
     OR push_bit 16 (ucast (sbox ! unat (drop_bit 16 x AND 255)))
     OR push_bit 8 (ucast (sbox ! unat (drop_bit 8 x AND 255)))
     OR ucast (sbox ! unat (x AND 255))"

definition Rcon :: "byte list" where
  "Rcon = [0x01, 0x02, 0x04, 0x08, 0x10, 0x20, 0x40, 0x80, 0x1b, 0x36]"

text \<open>
  The body of the second loop for index \<open>i\<close>, on the round key words written so far (a list
  of length \<open>i\<close>) and the counters \<open>j\<close> and \<open>k\<close>.
\<close>

fun KeyExpansion_step :: "nat \<Rightarrow> nat \<Rightarrow> u32 list \<times> nat \<times> nat \<Rightarrow> u32 list \<times> nat \<times> nat" where
  "KeyExpansion_step words_key i (RoundKey, j, k) =
     (let tempa = RoundKey ! (i - 1);
          tempa = (if j = 0 then
                     let tempa = push_bit 8 tempa OR drop_bit 24 tempa;
                         tempa = Subword tempa
                     in tempa XOR push_bit 24 (ucast (Rcon ! k))
                   else if words_key > 6 \<and> j = 4 then Subword tempa
                   else tempa);
          RoundKey' = RoundKey @ [RoundKey ! (i - words_key) XOR tempa]
      in if j + 1 = words_key then (RoundKey', 0, k + 1) else (RoundKey', j + 1, k))"

definition KeyExpansion :: "byte list \<Rightarrow> u32 list \<times> nat" where
  "KeyExpansion key =
     (let key_len = length key;
          words_key = key_len div 4;
          rounds = 6 + key_len div 4;
          words_RoundKey = 28 + key_len;
          first = map (\<lambda>i. bswap32 (le_word (take 4 (drop (4 * i) key)))) [0..<words_key];
          (RoundKey, j, k) = fold (KeyExpansion_step words_key) [words_key..<words_RoundKey] (first, 0, 0)
      in (RoundKey, rounds))"

record tls_aes =
  aes_key :: "u32 list"
  aes_rounds :: nat

definition aes_setkey :: "byte list \<Rightarrow> tls_aes" where
  "aes_setkey key = (case KeyExpansion key of (RoundKey, rounds) \<Rightarrow>
     \<lparr>aes_key = RoundKey, aes_rounds = rounds\<rparr>)"

section \<open>The steps of a round\<close>

text \<open>\<open>keys\<close> is the array from the position \<^verbatim>\<open>RoundKeys\<close> points to.\<close>

definition AddRoundKey :: "u32 list \<Rightarrow> u32 list \<Rightarrow> u32 list" where
  "AddRoundKey astate keys =
     fold (\<lambda>i st.
       let n = keys ! (i div 4);
           st = st[i + 0 := st ! (i + 0) XOR drop_bit 24 n];
           st = st[i + 1 := st ! (i + 1) XOR (drop_bit 16 n AND 255)];
           st = st[i + 2 := st ! (i + 2) XOR (drop_bit 8 n AND 255)]
       in st[i + 3 := st ! (i + 3) XOR (n AND 255)]) [0, 4, 8, 12] astate"

definition SubBytes :: "u32 list \<Rightarrow> u32 list" where
  "SubBytes astate = map (\<lambda>x. ucast (sbox ! unat x)) astate"

definition InvSubBytes :: "u32 list \<Rightarrow> u32 list" where
  "InvSubBytes astate = map (\<lambda>x. ucast (rsbox ! unat x)) astate"

text \<open>\<open>ASTATE(col, row)\<close> is \<open>astate[col * 4 + row]\<close>; assignments in the order of the code.\<close>

definition ASTATE :: "nat \<Rightarrow> nat \<Rightarrow> nat" where "ASTATE col row = col * 4 + row"

definition ShiftRows :: "u32 list \<Rightarrow> u32 list" where
  "ShiftRows st =
     (let v = st ! ASTATE 0 1;
          st = st[ASTATE 0 1 := st ! ASTATE 1 1];
          st = st[ASTATE 1 1 := st ! ASTATE 2 1];
          st = st[ASTATE 2 1 := st ! ASTATE 3 1];
          st = st[ASTATE 3 1 := v];
          v = st ! ASTATE 0 2;
          st = st[ASTATE 0 2 := st ! ASTATE 2 2];
          st = st[ASTATE 2 2 := v];
          v = st ! ASTATE 1 2;
          st = st[ASTATE 1 2 := st ! ASTATE 3 2];
          st = st[ASTATE 3 2 := v];
          v = st ! ASTATE 3 3;
          st = st[ASTATE 3 3 := st ! ASTATE 2 3];
          st = st[ASTATE 2 3 := st ! ASTATE 1 3];
          st = st[ASTATE 1 3 := st ! ASTATE 0 3]
      in st[ASTATE 0 3 := v])"

definition InvShiftRows :: "u32 list \<Rightarrow> u32 list" where
  "InvShiftRows st =
     (let v = st ! ASTATE 3 1;
          st = st[ASTATE 3 1 := st ! ASTATE 2 1];
          st = st[ASTATE 2 1 := st ! ASTATE 1 1];
          st = st[ASTATE 1 1 := st ! ASTATE 0 1];
          st = st[ASTATE 0 1 := v];
          v = st ! ASTATE 0 2;
          st = st[ASTATE 0 2 := st ! ASTATE 2 2];
          st = st[ASTATE 2 2 := v];
          v = st ! ASTATE 1 2;
          st = st[ASTATE 1 2 := st ! ASTATE 3 2];
          st = st[ASTATE 3 2 := v];
          v = st ! ASTATE 0 3;
          st = st[ASTATE 0 3 := st ! ASTATE 1 3];
          st = st[ASTATE 1 3 := st ! ASTATE 2 3];
          st = st[ASTATE 2 3 := st ! ASTATE 3 3]
      in st[ASTATE 3 3 := v])"

text \<open>\<open>x ^ ((-(int)(x >> 8)) & 0x11b)\<close>\<close>

definition mix_reduce :: "u32 \<Rightarrow> u32" where
  "mix_reduce x = x XOR ((- drop_bit 8 x) AND 0x11b)"

fun mix_column :: "u32 list \<Rightarrow> u32 list" where
  "mix_column [a, b, c, d] =
     (let x = push_bit 1 a XOR b XOR push_bit 1 b XOR c XOR d;
          y = a XOR push_bit 1 b XOR c XOR push_bit 1 c XOR d;
          z = a XOR b XOR push_bit 1 c XOR d XOR push_bit 1 d;
          t = a XOR push_bit 1 a XOR b XOR c XOR push_bit 1 d
      in [mix_reduce x, mix_reduce y, mix_reduce z, mix_reduce t])"
| "mix_column st = st"

text \<open>The loop \<^verbatim>\<open>for (i = 0; i < 16; i += 4)\<close> over the four columns.\<close>

definition each_column :: "(u32 list \<Rightarrow> u32 list) \<Rightarrow> u32 list \<Rightarrow> u32 list" where
  "each_column f astate = fold (\<lambda>i st. mem_write st i (f (take 4 (drop i st)))) [0, 4, 8, 12] astate"

definition MixColumns :: "u32 list \<Rightarrow> u32 list" where "MixColumns = each_column mix_column"

definition Multiply :: "u32 \<Rightarrow> u32" where
  "Multiply x =
     (let y = drop_bit 8 x
      in (x XOR y XOR push_bit 1 y XOR push_bit 3 y XOR push_bit 4 y) AND 255)"

fun inv_mix_column :: "u32 list \<Rightarrow> u32 list" where
  "inv_mix_column [a, b, c, d] =
     (let x = push_bit 1 a XOR push_bit 2 a XOR push_bit 3 a XOR b XOR push_bit 1 b XOR push_bit 3 b
                XOR c XOR push_bit 2 c XOR push_bit 3 c XOR d XOR push_bit 3 d;
          y = a XOR push_bit 3 a XOR push_bit 1 b XOR push_bit 2 b XOR push_bit 3 b
                XOR c XOR push_bit 1 c XOR push_bit 3 c XOR d XOR push_bit 2 d XOR push_bit 3 d;
          z = a XOR push_bit 2 a XOR push_bit 3 a XOR b XOR push_bit 3 b
                XOR push_bit 1 c XOR push_bit 2 c XOR push_bit 3 c XOR d XOR push_bit 1 d XOR push_bit 3 d;
          t = a XOR push_bit 1 a XOR push_bit 3 a XOR b XOR push_bit 2 b XOR push_bit 3 b
                XOR c XOR push_bit 3 c XOR push_bit 1 d XOR push_bit 2 d XOR push_bit 3 d
      in [Multiply x, Multiply y, Multiply z, Multiply t])"
| "inv_mix_column st = st"

definition InvMixColumns :: "u32 list \<Rightarrow> u32 list" where "InvMixColumns = each_column inv_mix_column"

section \<open>Blocks\<close>

text \<open>
  The loop of \<^verbatim>\<open>aes_encrypt_1\<close> from the round key at word \<open>4 o\<close>; the number counts the
  rounds after the current one, the value of \<^verbatim>\<open>--rounds\<close>.
\<close>

fun aes_encrypt_loop :: "u32 list \<Rightarrow> nat \<Rightarrow> nat \<Rightarrow> u32 list \<Rightarrow> u32 list" where
  "aes_encrypt_loop key off 0 astate =
     AddRoundKey (ShiftRows (SubBytes (AddRoundKey astate (drop (4 * off) key)))) (drop (4 * (off + 1)) key)"
| "aes_encrypt_loop key off (Suc n) astate =
     aes_encrypt_loop key (off + 1) n
       (MixColumns (ShiftRows (SubBytes (AddRoundKey astate (drop (4 * off) key)))))"

definition aes_encrypt_1 :: "tls_aes \<Rightarrow> u32 list \<Rightarrow> u32 list" where
  "aes_encrypt_1 aes astate = aes_encrypt_loop (aes_key aes) 0 (aes_rounds aes - 1) astate"

text \<open>The loop of \<^verbatim>\<open>aes_decrypt_1\<close>, down from round \<open>off + n\<close> to round \<open>off\<close>.\<close>

fun aes_decrypt_loop :: "u32 list \<Rightarrow> nat \<Rightarrow> nat \<Rightarrow> u32 list \<Rightarrow> u32 list" where
  "aes_decrypt_loop key off 0 astate =
     AddRoundKey (InvSubBytes (InvShiftRows astate)) (drop (4 * off) key)"
| "aes_decrypt_loop key off (Suc n) astate =
     aes_decrypt_loop key off n
       (InvMixColumns (AddRoundKey (InvSubBytes (InvShiftRows astate)) (drop (4 * (off + Suc n)) key)))"

definition aes_decrypt_1 :: "tls_aes \<Rightarrow> u32 list \<Rightarrow> u32 list" where
  "aes_decrypt_1 aes astate =
     aes_decrypt_loop (aes_key aes) 0 (aes_rounds aes - 1)
       (AddRoundKey astate (drop (aes_rounds aes * 4) (aes_key aes)))"

text \<open>The conversion loops between bytes and \<^verbatim>\<open>unsigned\<close>.\<close>

definition load_astate :: "byte list \<Rightarrow> u32 list" where
  "load_astate pt = map ucast (take 16 pt)"

definition store_astate :: "u32 list \<Rightarrow> byte list" where
  "store_astate astate = map ucast astate"

definition aes_encrypt_one_block :: "tls_aes \<Rightarrow> byte list \<Rightarrow> byte list" where
  "aes_encrypt_one_block aes data = store_astate (aes_encrypt_1 aes (load_astate data))"

text \<open>
  The function of this name is compiled out; the same steps, load, \<^verbatim>\<open>aes_decrypt_1\<close> and store, stand in
  the loop of \<^verbatim>\<open>aes_cbc_decrypt\<close>, where the store also adds the previous block.
\<close>

definition aes_decrypt_one_block :: "tls_aes \<Rightarrow> byte list \<Rightarrow> byte list" where
  "aes_decrypt_one_block aes data = store_astate (aes_decrypt_1 aes (load_astate data))"

section \<open>CBC\<close>

text \<open>
  The loops subtract 16 from an unsigned length until it is 0: \<open>None\<close> where the length is no
  multiple of 16 and the subtraction would wrap around.
\<close>

function aes_cbc_encrypt :: "tls_aes \<Rightarrow> byte list \<Rightarrow> byte list \<Rightarrow> byte list option" where
  "aes_cbc_encrypt aes iv2 pt =
     (if pt = [] then Some []
      else if length pt < 16 then None
      else let astate = map2 (\<lambda>p v. ucast (p XOR v)) (take 16 pt) iv2;
               ct = store_astate (aes_encrypt_1 aes astate)
           in map_option (\<lambda>rest. ct @ rest) (aes_cbc_encrypt aes ct (drop 16 pt)))"
  by pat_completeness auto
termination
  by (relation "measure (\<lambda>(aes, iv, pt). length pt)") auto

function aes_cbc_decrypt :: "tls_aes \<Rightarrow> byte list \<Rightarrow> byte list \<Rightarrow> byte list option" where
  "aes_cbc_decrypt aes ivbuf ct =
     (if ct = [] then Some []
      else if length ct < 16 then None
      else let ivnext = take 16 ct;
               astate = aes_decrypt_1 aes (load_astate ct);
               pt = map2 (\<lambda>a v. ucast (a XOR ucast v)) astate ivbuf
           in map_option (\<lambda>rest. pt @ rest) (aes_cbc_decrypt aes ivnext (drop 16 ct)))"
  by pat_completeness auto
termination
  by (relation "measure (\<lambda>(aes, iv, ct). length ct)") auto

declare aes_cbc_encrypt.simps [simp del] aes_cbc_decrypt.simps [simp del]

end
