(* ===== verification/Aes_Fips.thy ===== *)
theory Aes_Fips
  imports Tls_Aes
begin

text \<open>
  The AES code against FIPS 197. The standard's transformations are written on bytes, with
  multiplication in GF(2^8) (\<open>gf_mul\<close>), the state as sixteen bytes in column order and the key
  schedule as a recursion on the word index (\<open>fips_word\<close>). Each routine of
  \<^verbatim>\<open>tls_aes.c\<close> on an array of bytes held in \<^verbatim>\<open>unsigned\<close> computes the byte
  transformation, the inverse routines undo it, and so decryption undoes encryption, block by
  block and in CBC mode.
\<close>

section \<open>Bytes in words\<close>

definition all_bytes :: "byte list" where "all_bytes = map word_of_nat [0..<256]"

lemma byte_in_all: "b \<in> set all_bytes"
proof -
  have "b = word_of_nat (unat b)" and "unat b < 256" using unsigned_less [of b] by simp_all
  then show ?thesis unfolding all_bytes_def set_map by (metis atLeast0LessThan imageI lessThan_iff set_upt)
qed

lemma all_bytes_conv: "(\<forall>b. P b) \<longleftrightarrow> list_all P all_bytes"
  using byte_in_all by (auto simp: list_all_iff)

lemma rsbox_sbox: "rsbox ! unat (sbox ! unat b) = b"
proof -
  have "list_all (\<lambda>b. rsbox ! unat (sbox ! unat b) = b) all_bytes" by code_simp
  then show ?thesis using byte_in_all by (auto simp: list_all_iff)
qed


lemma less_8_cases: "n < (8 :: nat) \<longleftrightarrow> n = 0 \<or> n = 1 \<or> n = 2 \<or> n = 3 \<or> n = 4 \<or> n = 5 \<or> n = 6 \<or> n = 7"
  by auto

lemma byte_eq_bitsI:
  fixes a b :: byte
  assumes "bit a 0 = bit b 0" "bit a 1 = bit b 1" "bit a 2 = bit b 2" "bit a 3 = bit b 3"
    "bit a 4 = bit b 4" "bit a 5 = bit b 5" "bit a 6 = bit b 6" "bit a 7 = bit b 7"
  shows "a = b"
  by (rule bit_word_eqI) (use assms less_8_cases in auto)

lemma bit_byte_8: "8 \<le> n \<Longrightarrow> \<not> bit (b :: byte) n"
  using bit_imp_le_length [of b n] by auto

lemma and_255: "(x :: u32) AND 255 = ucast (ucast x :: byte)"
proof -
  have "(255 :: u32) = mask 8" by (simp add: mask_eq_exp_minus_1)
  then show ?thesis
    by (intro bit_word_eqI) (simp only: bit_and_iff bit_ucast_iff bit_mask_iff, auto)
qed

lemma ucast_byte_u32 [simp]: "(ucast (ucast (b :: byte) :: u32) :: byte) = b"
  by (rule bit_word_eqI) (simp add: bit_ucast_iff)

lemma unat_ucast_byte [simp]: "unat (ucast (b :: byte) :: u32) = unat b"
proof -
  have "unat b < 2 ^ 32" using unsigned_less [of b, where ?'a = nat] by simp
  then show ?thesis by (simp add: unsigned_ucast_eq take_bit_nat_eq_self)
qed

lemma xor_left_self [simp]: "a XOR (a XOR b) = (b :: 'a :: len word)"
  by (simp add: xor.assoc [symmetric])

lemmas xor_ac = xor.assoc xor.commute xor.left_commute

section \<open>The field\<close>

text \<open>Arithmetic in GF(2^8) modulo \<open>x^8 + x^4 + x^3 + x + 1\<close>.\<close>

definition xtime :: "byte \<Rightarrow> byte" where
  "xtime b = push_bit 1 b XOR (if bit b 7 then 0x1b else 0)"

fun gf_mul_bits :: "nat \<Rightarrow> byte \<Rightarrow> byte \<Rightarrow> byte" where
  "gf_mul_bits 0 x y = 0"
| "gf_mul_bits (Suc k) x y = (if bit x 0 then y else 0) XOR gf_mul_bits k (drop_bit 1 x) (xtime y)"

definition gf_mul :: "byte \<Rightarrow> byte \<Rightarrow> byte" where "gf_mul x y = gf_mul_bits 8 x y"

lemma bit_xtime:
  "bit (xtime b) 0 = bit b 7"
  "bit (xtime b) 1 = (bit b 0 \<noteq> bit b 7)"
  "bit (xtime b) 2 = bit b 1"
  "bit (xtime b) 3 = (bit b 2 \<noteq> bit b 7)"
  "bit (xtime b) 4 = (bit b 3 \<noteq> bit b 7)"
  "bit (xtime b) 5 = bit b 4"
  "bit (xtime b) 6 = bit b 5"
  "bit (xtime b) 7 = bit b 6"
  by (simp_all add: xtime_def bit_xor_iff bit_push_bit_iff del: push_bit_Suc)


lemma xtime_xor: "xtime (x XOR y) = xtime x XOR xtime y"
  by (rule byte_eq_bitsI) (simp_all only: bit_xtime bit_xor_iff, argo+)

section \<open>Column mixing\<close>

lemma Multiply_ucast: "Multiply x = ucast (ucast (Multiply x) :: byte)"
  by (simp add: Multiply_def Let_def and_255)

lemma bit_Multiply:
  "n < 8 \<Longrightarrow> bit (Multiply x) n \<longleftrightarrow> (bit x n \<noteq> (bit x (n + 8) \<noteq> ((1 \<le> n \<and> bit x (n + 7)) \<noteq>
     ((3 \<le> n \<and> bit x (n + 5)) \<noteq> (4 \<le> n \<and> bit x (n + 4))))))"
  unfolding Multiply_def Let_def less_8_cases
  by (elim disjE; hypsubst; simp add: bit_xor_iff bit_push_bit_iff bit_drop_bit_eq bit_and_iff del: push_bit_Suc)


lemma Multiply_eq_byteI:
  assumes "\<And>n. n < 8 \<Longrightarrow> bit (Multiply x) n = bit (q :: byte) n"
  shows "Multiply x = ucast q"
proof -
  have "(ucast (Multiply x) :: byte) = q"
    by (rule bit_word_eqI) (use assms in \<open>auto simp: bit_ucast_iff\<close>)
  then show ?thesis using Multiply_ucast [of x] by simp
qed

lemma Multiply_push:
  "Multiply (ucast q) = ucast q"
  "Multiply (push_bit 1 (ucast q)) = ucast (xtime q)"
  "Multiply (push_bit 2 (ucast q)) = ucast (xtime (xtime q))"
  "Multiply (push_bit 3 (ucast q)) = ucast (xtime (xtime (xtime q)))"
  by (rule Multiply_eq_byteI; simp only: bit_Multiply; simp only: less_8_cases; elim disjE; hypsubst;
    simp add: bit_push_bit_iff bit_ucast_iff bit_xtime bit_xtime [unfolded One_nat_def] bit_byte_8 del: push_bit_Suc; argo)+

lemma Multiply_xor: "Multiply (x XOR y) = Multiply x XOR Multiply y"
proof -
  have "Multiply (x XOR y) = ucast (ucast (Multiply x) XOR ucast (Multiply y) :: byte)"
    by (rule Multiply_eq_byteI) (simp add: bit_Multiply bit_xor_iff bit_ucast_iff; argo)
  then show ?thesis using Multiply_ucast [of x] Multiply_ucast [of y] by (simp add: unsigned_xor_eq)
qed

lemma drop_sum: "drop_bit 8 (push_bit 1 (ucast p) XOR ucast q :: u32) = of_bool (bit (p :: byte) 7)" for q :: byte
proof (rule bit_word_eqI)
  fix n assume "n < LENGTH(32)"
  show "bit (drop_bit 8 (push_bit 1 (ucast p) XOR ucast q :: u32)) n = bit (of_bool (bit p 7) :: u32) n"
    by (cases n) (auto simp: bit_drop_bit_eq bit_xor_iff bit_push_bit_iff bit_ucast_iff bit_byte_8 bit_of_bool_iff simp del: push_bit_Suc)
qed

lemma push_1_byte: "push_bit 1 (ucast p) = (ucast (push_bit 1 p) XOR push_bit 8 (of_bool (bit p 7)) :: u32)" for p :: byte
proof (rule bit_word_eqI)
  fix n assume "n < LENGTH(32)"
  show "bit (push_bit 1 (ucast p) :: u32) n = bit (ucast (push_bit 1 p) XOR push_bit 8 (of_bool (bit p 7)) :: u32) n"
    using bit_byte_8 [of "n - 1" p]
    by (cases "n = 8"; cases "n < 8") (auto simp: bit_xor_iff bit_push_bit_iff bit_ucast_iff bit_of_bool_iff simp del: push_bit_Suc)
qed

lemma mix_reduce_byte:
  fixes p q :: byte
  shows "mix_reduce (push_bit 1 (ucast p) XOR ucast q) = ucast (xtime p XOR q)"
proof -
  have "(0x11b :: u32) = ucast (0x1b :: byte) XOR push_bit 8 1" by simp
  then show ?thesis
    unfolding mix_reduce_def drop_sum xtime_def
    by (simp only: push_1_byte) (simp add: unsigned_xor_eq xor.assoc xor.left_commute xor.commute del: push_bit_Suc)
qed


section \<open>The FIPS 197 cipher on bytes\<close>

fun fips_mix_column :: "byte list \<Rightarrow> byte list" where
  "fips_mix_column [a, b, c, d] =
     [gf_mul 2 a XOR gf_mul 3 b XOR c XOR d,
      a XOR gf_mul 2 b XOR gf_mul 3 c XOR d,
      a XOR b XOR gf_mul 2 c XOR gf_mul 3 d,
      gf_mul 3 a XOR b XOR c XOR gf_mul 2 d]"
| "fips_mix_column st = st"

fun fips_inv_mix_column :: "byte list \<Rightarrow> byte list" where
  "fips_inv_mix_column [a, b, c, d] =
     [gf_mul 0xe a XOR gf_mul 0xb b XOR gf_mul 0xd c XOR gf_mul 0x9 d,
      gf_mul 0x9 a XOR gf_mul 0xe b XOR gf_mul 0xb c XOR gf_mul 0xd d,
      gf_mul 0xd a XOR gf_mul 0x9 b XOR gf_mul 0xe c XOR gf_mul 0xb d,
      gf_mul 0xb a XOR gf_mul 0xd b XOR gf_mul 0x9 c XOR gf_mul 0xe d]"
| "fips_inv_mix_column st = st"

lemma gf_mul_bits_0: "gf_mul_bits k 0 y = 0"
  by (induction k arbitrary: y) simp_all

lemma gf_mul_const:
  "gf_mul 2 y = xtime y"
  "gf_mul 3 y = y XOR xtime y"
  "gf_mul 0x9 y = y XOR xtime (xtime (xtime y))"
  "gf_mul 0xb y = y XOR xtime y XOR xtime (xtime (xtime y))"
  "gf_mul 0xd y = y XOR xtime (xtime y) XOR xtime (xtime (xtime y))"
  "gf_mul 0xe y = xtime y XOR xtime (xtime y) XOR xtime (xtime (xtime y))"
proof -
  have *: "gf_mul x y = (if bit x 0 then y else 0) XOR (if bit x 1 then xtime y else 0)
      XOR (if bit x 2 then xtime (xtime y) else 0) XOR (if bit x 3 then xtime (xtime (xtime y)) else 0)"
    if "drop_bit (Suc (Suc (Suc (Suc 0)))) x = 0" for x
  proof -
    have "gf_mul x y = gf_mul_bits (Suc (Suc (Suc (Suc 4)))) x y" by (simp add: gf_mul_def)
    also have "\<dots> = (if bit x 0 then y else 0) XOR (if bit x 1 then xtime y else 0)
      XOR (if bit x 2 then xtime (xtime y) else 0) XOR (if bit x 3 then xtime (xtime (xtime y)) else 0)"
      using that by (simp only: gf_mul_bits.simps drop_bit_drop_bit bit_drop_bit_eq)
        (simp add: gf_mul_bits_0 numeral_3_eq_3 numeral_2_eq_2 bit_drop_bit_eq xor.assoc)
    finally show ?thesis .
  qed
  show "gf_mul 2 y = xtime y"
  "gf_mul 3 y = y XOR xtime y"
  "gf_mul 0x9 y = y XOR xtime (xtime (xtime y))"
  "gf_mul 0xb y = y XOR xtime y XOR xtime (xtime (xtime y))"
  "gf_mul 0xd y = y XOR xtime (xtime y) XOR xtime (xtime (xtime y))"
  "gf_mul 0xe y = xtime y XOR xtime (xtime y) XOR xtime (xtime (xtime y))"
    by (subst *; simp)+
qed

lemma fips_inv_mix_column: "fips_inv_mix_column (fips_mix_column [a, b, c, d]) = [a, b, c, d]"
  by (simp add: gf_mul_const xtime_xor xor_ac)

lemma mix_column_byte: "mix_column [ucast a, ucast b, ucast c, ucast d] = map ucast (fips_mix_column [a, b, c, d])"
proof -
  have *: "mix_reduce x = ucast (xtime p XOR q)" if "x = push_bit 1 (ucast p) XOR ucast q" for x p and q :: byte
    using that by (simp only: mix_reduce_byte)
  show ?thesis
    unfolding mix_column.simps Let_def fips_mix_column.simps list.map gf_mul_const
    apply (subst * [where p = "a XOR b" and q = "b XOR c XOR d"], simp only: unsigned_xor_eq push_bit_xor xor_ac)
    apply (subst * [where p = "b XOR c" and q = "a XOR c XOR d"], simp only: unsigned_xor_eq push_bit_xor xor_ac)
    apply (subst * [where p = "c XOR d" and q = "a XOR b XOR d"], simp only: unsigned_xor_eq push_bit_xor xor_ac)
    apply (subst * [where p = "a XOR d" and q = "a XOR b XOR c"], simp only: unsigned_xor_eq push_bit_xor xor_ac)
    by (simp only: xtime_xor xor_ac)
qed

lemma inv_mix_column_byte:
  "inv_mix_column [ucast a, ucast b, ucast c, ucast d] = map ucast (fips_inv_mix_column [a, b, c, d])"
  unfolding inv_mix_column.simps Let_def fips_inv_mix_column.simps list.map gf_mul_const Multiply_xor Multiply_push
  by (simp only: unsigned_xor_eq xor_ac)


definition fips_columns :: "(byte list \<Rightarrow> byte list) \<Rightarrow> byte list \<Rightarrow> byte list" where
  "fips_columns f st = concat (map (\<lambda>c. f (take 4 (drop (4 * c) st))) [0, 1, 2, 3])"

text \<open>Row \<open>r\<close> is rotated left by \<open>r\<close> positions; byte \<open>4 c + r\<close> is in column \<open>c\<close>.\<close>

definition fips_ShiftRows :: "byte list \<Rightarrow> byte list" where
  "fips_ShiftRows st = map (\<lambda>i. st ! (4 * ((i div 4 + i mod 4) mod 4) + i mod 4)) [0..<16]"

definition fips_InvShiftRows :: "byte list \<Rightarrow> byte list" where
  "fips_InvShiftRows st = map (\<lambda>i. st ! (4 * ((i div 4 + 4 - i mod 4) mod 4) + i mod 4)) [0..<16]"

definition fips_SubBytes :: "byte list \<Rightarrow> byte list" where
  "fips_SubBytes st = map (\<lambda>b. sbox ! unat b) st"

definition fips_InvSubBytes :: "byte list \<Rightarrow> byte list" where
  "fips_InvSubBytes st = map (\<lambda>b. rsbox ! unat b) st"

definition fips_AddRoundKey :: "byte list \<Rightarrow> u32 list \<Rightarrow> byte list" where
  "fips_AddRoundKey st ws = map2 (XOR) st (concat (map (\<lambda>w. rev (le_bytes 4 w)) ws))"

lemma list_16:
  assumes "length xs = 16"
  obtains b0 b1 b2 b3 b4 b5 b6 b7 b8 b9 b10 b11 b12 b13 b14 b15 where "xs = [b0, b1, b2, b3, b4, b5, b6, b7, b8, b9, b10, b11, b12, b13, b14, b15]"
proof -
  have "xs = map (\<lambda>i. xs ! i) [0..<16]" using map_nth [of xs] assms by simp
  moreover have "[0..<16] = [0, 1, 2, 3, 4, 5, 6, 7, 8, 9, 10, 11, 12, 13, 14, 15]" by (simp add: upt_conv_Cons)
  ultimately show ?thesis by (intro that) (simp only: list.map)
qed

lemma list_4:
  assumes "length xs = 4"
  obtains a b c d where "xs = [a, b, c, d]"
  using assms by (auto simp: numeral_eq_Suc length_Suc_conv)

abbreviation astate_of :: "byte list \<Rightarrow> u32 list" where "astate_of \<equiv> map ucast"

lemma each_column_append:
  assumes "length c0 = 4" "length c1 = 4" "length c2 = 4" "length c3 = 4" and "\<And>c. length c = 4 \<Longrightarrow> length (f c) = 4"
  shows "each_column f (c0 @ c1 @ c2 @ c3) = f c0 @ f c1 @ f c2 @ f c3"
  using assms by (simp add: each_column_def mem_write_def)

lemma ShiftRows_16: "ShiftRows [b0, b1, b2, b3, b4, b5, b6, b7, b8, b9, b10, b11, b12, b13, b14, b15] = [b0, b5, b10, b15, b4, b9, b14, b3, b8, b13, b2, b7, b12, b1, b6, b11]"
  by (simp add: ShiftRows_def ASTATE_def Let_def)

lemma InvShiftRows_16: "InvShiftRows [b0, b1, b2, b3, b4, b5, b6, b7, b8, b9, b10, b11, b12, b13, b14, b15] = [b0, b13, b10, b7, b4, b1, b14, b11, b8, b5, b2, b15, b12, b9, b6, b3]"
  by (simp add: InvShiftRows_def ASTATE_def Let_def)

lemma fips_ShiftRows_16: "fips_ShiftRows [b0, b1, b2, b3, b4, b5, b6, b7, b8, b9, b10, b11, b12, b13, b14, b15] = [b0, b5, b10, b15, b4, b9, b14, b3, b8, b13, b2, b7, b12, b1, b6, b11]"
  by (simp add: fips_ShiftRows_def upt_conv_Cons)

lemma fips_InvShiftRows_16: "fips_InvShiftRows [b0, b1, b2, b3, b4, b5, b6, b7, b8, b9, b10, b11, b12, b13, b14, b15] = [b0, b13, b10, b7, b4, b1, b14, b11, b8, b5, b2, b15, b12, b9, b6, b3]"
  by (simp add: fips_InvShiftRows_def upt_conv_Cons)

lemma ShiftRows_byte:
  assumes "length st = 16"
  shows "ShiftRows (astate_of st) = astate_of (fips_ShiftRows st)"
    and "InvShiftRows (astate_of st) = astate_of (fips_InvShiftRows st)"
    and "fips_InvShiftRows (fips_ShiftRows st) = st"
  by (rule list_16 [OF assms];
      simp add: ShiftRows_16 InvShiftRows_16 fips_ShiftRows_16 fips_InvShiftRows_16)+

lemma columns_16:
  assumes "length st = 16"
  shows "st = take 4 st @ take 4 (drop 4 st) @ take 4 (drop 8 st) @ take 4 (drop 12 st)"
  by (rule list_16 [OF assms]) simp

lemma map_columns_16:
  assumes "length st = 16"
  shows "map g st = map g (take 4 st) @ map g (take 4 (drop 4 st)) @ map g (take 4 (drop 8 st)) @ map g (take 4 (drop 12 st))"
  using arg_cong [OF columns_16 [OF assms], of "map g"] by (simp only: map_append)

lemma length_column_maps:
  "length c = 4 \<Longrightarrow> length (mix_column c) = 4"
  "length c = 4 \<Longrightarrow> length (inv_mix_column c) = 4"
  by (erule list_4; simp)+

lemma length_fips_column_maps:
  "length c = 4 \<Longrightarrow> length (fips_mix_column c) = 4"
  "length c = 4 \<Longrightarrow> length (fips_inv_mix_column c) = 4"
  by (erule list_4; simp)+

lemma column_maps_byte:
  "length c = 4 \<Longrightarrow> mix_column (astate_of c) = astate_of (fips_mix_column c)"
  "length c = 4 \<Longrightarrow> inv_mix_column (astate_of c) = astate_of (fips_inv_mix_column c)"
  using mix_column_byte inv_mix_column_byte by (auto elim!: list_4 simp del: mix_column.simps inv_mix_column.simps)

lemma fips_columns_append:
  assumes "length c0 = 4" "length c1 = 4" "length c2 = 4" "length c3 = 4"
  shows "fips_columns f (c0 @ c1 @ c2 @ c3) = f c0 @ f c1 @ f c2 @ f c3"
  using assms by (simp add: fips_columns_def)

lemma length_columns_16:
  assumes "length st = 16"
  shows "length (take 4 st) = 4" "length (take 4 (drop 4 st)) = 4" "length (take 4 (drop 8 st)) = 4" "length (take 4 (drop 12 st)) = 4"
  using assms by simp_all

lemma MixColumns_byte:
  assumes "length st = 16"
  shows "MixColumns (astate_of st) = astate_of (fips_columns fips_mix_column st)" (is ?mix)
    and "InvMixColumns (astate_of st) = astate_of (fips_columns fips_inv_mix_column st)" (is ?inv)
    and "fips_columns fips_inv_mix_column (fips_columns fips_mix_column st) = st" (is ?id)
proof -
  have "\<exists>c0 c1 c2 c3. st = c0 @ c1 @ c2 @ c3 \<and> length c0 = 4 \<and> length c1 = 4 \<and> length c2 = 4 \<and> length c3 = 4"
    using columns_16 [OF assms] length_columns_16 [OF assms] by blast
  then obtain c0 c1 c2 c3 where st: "st = c0 @ c1 @ c2 @ c3"
    and len: "length c0 = 4" "length c1 = 4" "length c2 = 4" "length c3 = 4" by blast
  show ?mix and ?inv
    unfolding st MixColumns_def InvMixColumns_def
    by (simp_all add: each_column_append fips_columns_append len length_column_maps column_maps_byte)
  have "fips_inv_mix_column (fips_mix_column c) = c" if "length c = 4" for c
    using that by (auto elim!: list_4 simp: fips_inv_mix_column simp del: fips_mix_column.simps fips_inv_mix_column.simps)
  then show ?id
    unfolding st by (simp add: fips_columns_append len length_fips_column_maps)
qed

lemma SubBytes_byte:
  "SubBytes (astate_of st) = astate_of (fips_SubBytes st)"
  "InvSubBytes (astate_of st) = astate_of (fips_InvSubBytes st)"
  "fips_InvSubBytes (fips_SubBytes st) = st"
  by (simp_all add: SubBytes_def InvSubBytes_def fips_SubBytes_def fips_InvSubBytes_def comp_def rsbox_sbox)

lemma length_fips_steps:
  "length st = 16 \<Longrightarrow> length (fips_ShiftRows st) = 16"
  "length st = 16 \<Longrightarrow> length (fips_SubBytes st) = 16"
  "length st = 16 \<Longrightarrow> length (fips_columns fips_mix_column st) = 16"
  "length st = 16 \<Longrightarrow> length ws = 4 \<Longrightarrow> length (fips_AddRoundKey st ws) = 16"
  by (simp_all add: fips_ShiftRows_def fips_SubBytes_def fips_columns_def length_fips_column_maps fips_AddRoundKey_def length_concat comp_def sum_list_triv)

lemma xor_key_byte:
  fixes b :: byte and n :: u32
  shows "ucast b XOR drop_bit 24 n = ucast (b XOR ucast (drop_bit 24 n))"
    and "ucast b XOR (n AND 255) = ucast (b XOR ucast n)"
proof -
  have "drop_bit 24 n = ucast (ucast (drop_bit 24 n) :: byte)"
    by (rule bit_word_eqI) (auto simp: bit_simps dest: bit_imp_le_length)
  then show "ucast b XOR drop_bit 24 n = ucast (b XOR ucast (drop_bit 24 n))"
    by (metis unsigned_xor_eq)
  show "ucast b XOR (n AND 255) = ucast (b XOR ucast n)"
    by (simp add: and_255 unsigned_xor_eq)
qed

lemma rev_le_bytes_4:
  "rev (le_bytes 4 (w :: u32)) = [ucast (drop_bit 24 w), ucast (drop_bit 16 w), ucast (drop_bit 8 w), ucast w]"
  by (simp add: le_bytes_def upt_conv_Cons)

lemma AddRoundKey_byte:
  assumes "length st = 16" and "length keys \<ge> 4"
  shows "AddRoundKey (astate_of st) keys = astate_of (fips_AddRoundKey st (take 4 keys))"
proof -
  obtain k0 k1 k2 k3 where k: "take 4 keys = [k0, k1, k2, k3]" by (rule list_4 [of "take 4 keys"]) (use assms(2) in simp_all)
  then have nth: "keys ! 0 = k0" "keys ! Suc 0 = k1" "keys ! 2 = k2" "keys ! 3 = k3"
    using nth_take [of 0 4 keys] nth_take [of 1 4 keys] nth_take [of 2 4 keys] nth_take [of 3 4 keys] by simp_all
  show ?thesis
    unfolding AddRoundKey_def fips_AddRoundKey_def k
    by (rule list_16 [OF assms(1)]) (simp add: nth Let_def rev_le_bytes_4 xor_key_byte)
qed

lemma map2_xor_twice: "length a = length b \<Longrightarrow> map2 (XOR) (map2 (XOR) a b) b = (a :: byte list)"
  by (induction a b rule: list_induct2) (simp_all add: xor.assoc)

lemma fips_AddRoundKey_twice:
  assumes "length st = 16" and "length ws = 4"
  shows "fips_AddRoundKey (fips_AddRoundKey st ws) ws = st"
  using assms by (simp add: fips_AddRoundKey_def map2_xor_twice length_concat comp_def sum_list_triv)

text \<open>The cipher of FIPS 197 (section 5.1) with the round keys \<open>w\<close>, and its inverse.\<close>

definition round_key :: "u32 list \<Rightarrow> nat \<Rightarrow> u32 list" where
  "round_key w r = take 4 (drop (4 * r) w)"

definition fips_round :: "u32 list \<Rightarrow> nat \<Rightarrow> byte list \<Rightarrow> byte list" where
  "fips_round w r st =
     fips_AddRoundKey (fips_columns fips_mix_column (fips_ShiftRows (fips_SubBytes st))) (round_key w r)"

definition fips_cipher :: "u32 list \<Rightarrow> nat \<Rightarrow> byte list \<Rightarrow> byte list" where
  "fips_cipher w nr st =
     fips_AddRoundKey
       (fips_ShiftRows (fips_SubBytes (fold (fips_round w) [1..<nr] (fips_AddRoundKey st (round_key w 0)))))
       (round_key w nr)"

lemma length_round_key: "4 * r + 4 \<le> length w \<Longrightarrow> length (round_key w r) = 4"
  by (simp add: round_key_def)

lemma AddRoundKey_drop:
  "length st = 16 \<Longrightarrow> 4 * r + 4 \<le> length w \<Longrightarrow>
   AddRoundKey (astate_of st) (drop (4 * r) w) = astate_of (fips_AddRoundKey st (round_key w r))"
  by (simp add: AddRoundKey_byte round_key_def)

lemmas byte_steps = AddRoundKey_drop SubBytes_byte(1,2) ShiftRows_byte(1,2) MixColumns_byte(1,2)
  length_fips_steps length_round_key

lemma aes_encrypt_loop_byte:
  assumes "length st = 16" and "4 * (off + n + 1) + 4 \<le> length w"
  shows "aes_encrypt_loop w off n (astate_of st) =
    astate_of (fips_AddRoundKey (fips_ShiftRows (fips_SubBytes
      (fold (fips_round w) [off + 1..<off + n + 1] (fips_AddRoundKey st (round_key w off))))) (round_key w (off + n + 1)))"
  using assms
proof (induction n arbitrary: off st)
  case 0
  then show ?case using AddRoundKey_drop [of _ "off + 1"] by (simp add: byte_steps)
next
  case (Suc n)
  let ?s1 = "fips_columns fips_mix_column (fips_ShiftRows (fips_SubBytes (fips_AddRoundKey st (round_key w off))))"
  have 1: "aes_encrypt_loop w off (Suc n) (astate_of st) = aes_encrypt_loop w (off + 1) n (astate_of ?s1)"
    using Suc.prems by (simp add: byte_steps)
  have 2: "[off + 1..<off + Suc n + 1] = (off + 1) # [off + 1 + 1..<off + 1 + n + 1]"
    by (simp add: upt_conv_Cons)
  have 3: "length ?s1 = 16" using Suc.prems by (simp add: byte_steps)
  show ?case
    unfolding 1 2 using Suc.IH [OF 3, of "off + 1"] Suc.prems by (simp add: fips_round_def)
qed

lemma aes_encrypt_1_byte:
  assumes "length st = 16" and "0 < aes_rounds aes" and "4 * aes_rounds aes + 4 \<le> length (aes_key aes)"
  shows "aes_encrypt_1 aes (astate_of st) = astate_of (fips_cipher (aes_key aes) (aes_rounds aes) st)"
  using assms aes_encrypt_loop_byte [of st 0 "aes_rounds aes - 1" "aes_key aes"]
  by (simp add: aes_encrypt_1_def fips_cipher_def)

lemma length_fips_rounds:
  "length st = 16 \<Longrightarrow> \<forall>r \<in> set rs. 4 * r + 4 \<le> length w \<Longrightarrow> length (fold (fips_round w) rs st) = 16"
  by (induction rs arbitrary: st) (simp_all add: fips_round_def byte_steps)

lemma length_fips_cipher:
  "length st = 16 \<Longrightarrow> 4 * nr + 4 \<le> length w \<Longrightarrow> length (fips_cipher w nr st) = 16"
  unfolding fips_cipher_def
  by (intro length_fips_steps length_round_key length_fips_rounds) auto

lemma aes_decrypt_loop_byte:
  assumes "length st = 16" and "4 * (off + n) + 4 \<le> length w"
  shows "aes_decrypt_loop w off n (astate_of (fips_ShiftRows (fips_SubBytes
      (fold (fips_round w) [off + 1..<off + n + 1] (fips_AddRoundKey st (round_key w off)))))) = astate_of st"
  using assms
proof (induction n)
  case 0
  then show ?case by (simp add: byte_steps ShiftRows_byte(3) SubBytes_byte(3) fips_AddRoundKey_twice)
next
  case (Suc n)
  let ?y = "fold (fips_round w) [off + 1..<off + n + 1] (fips_AddRoundKey st (round_key w off))"
  let ?s = "fips_ShiftRows (fips_SubBytes ?y)"
  have y: "length ?y = 16"
    using Suc.prems by (intro length_fips_rounds length_fips_steps length_round_key) auto
  have upt: "[off + 1..<off + Suc n + 1] = [off + 1..<off + n + 1] @ [off + Suc n]" by simp
  let ?z = "fips_round w (off + Suc n) ?y"
  have z: "length ?z = 16" using y Suc.prems by (simp add: fips_round_def byte_steps)
  have *: "InvMixColumns (AddRoundKey (InvSubBytes (InvShiftRows (astate_of (fips_ShiftRows (fips_SubBytes ?z)))))
      (drop (4 * (off + Suc n)) w)) = astate_of ?s"
    using y z Suc.prems
    by (simp only: byte_steps ShiftRows_byte(3) SubBytes_byte(3) fips_round_def fips_AddRoundKey_twice MixColumns_byte(3))
  show ?case unfolding aes_decrypt_loop.simps upt fold_append comp_apply fold.simps id_apply *
    using Suc.IH Suc.prems by simp
qed

lemma aes_decrypt_1_byte:
  assumes "length st = 16" and "0 < aes_rounds aes" and "4 * aes_rounds aes + 4 \<le> length (aes_key aes)"
  shows "aes_decrypt_1 aes (astate_of (fips_cipher (aes_key aes) (aes_rounds aes) st)) = astate_of st"
proof -
  let ?w = "aes_key aes" and ?n = "aes_rounds aes"
  let ?y = "fips_ShiftRows (fips_SubBytes (fold (fips_round ?w) [1..<?n] (fips_AddRoundKey st (round_key ?w 0))))"
  have y: "length ?y = 16"
    using assms by (intro length_fips_steps length_round_key length_fips_rounds) auto
  have "AddRoundKey (astate_of (fips_cipher ?w ?n st)) (drop (?n * 4) ?w) = astate_of ?y"
    using AddRoundKey_drop [OF length_fips_cipher [OF assms(1,3)] assms(3)] y assms
    by (simp add: mult.commute fips_cipher_def fips_AddRoundKey_twice length_round_key)
  then show ?thesis
    using aes_decrypt_loop_byte [of st 0 "?n - 1" ?w] assms by (simp add: aes_decrypt_1_def)
qed

section \<open>The key schedule of FIPS 197\<close>

definition fips_SubWord :: "u32 \<Rightarrow> u32" where
  "fips_SubWord w = le_word (map (\<lambda>b. sbox ! unat b) (le_bytes 4 w))"

definition fips_RotWord :: "u32 \<Rightarrow> u32" where
  "fips_RotWord w = le_word (rev (rotate1 (rev (le_bytes 4 w))))"

definition fips_temp :: "nat \<Rightarrow> nat \<Rightarrow> u32 \<Rightarrow> u32" where
  "fips_temp nk i w =
     (if i mod nk = 0 then fips_SubWord (fips_RotWord w) XOR push_bit 24 (ucast ((xtime ^^ (i div nk - 1)) 1))
      else if nk > 6 \<and> i mod nk = 4 then fips_SubWord w
      else w)"

function fips_word :: "byte list \<Rightarrow> nat \<Rightarrow> u32" where
  "fips_word key i =
     (let nk = length key div 4
      in if nk = 0 then 0
         else if i < nk then le_word (rev (take 4 (drop (4 * i) key)))
         else fips_word key (i - nk) XOR fips_temp nk i (fips_word key (i - 1)))"
  by pat_completeness auto
termination
  by (relation "measure snd") auto

declare fips_word.simps [simp del]

lemma le_bytes_4: "le_bytes 4 (w :: u32) = [ucast w, ucast (drop_bit 8 w), ucast (drop_bit 16 w), ucast (drop_bit 24 w)]"
  by (simp add: le_bytes_def upt_conv_Cons)

lemma Subword_fips: "Subword x = fips_SubWord x"
proof -
  have "drop_bit 24 x = ucast (ucast (drop_bit 24 x) :: byte)"
    by (rule bit_word_eqI) (auto simp: bit_simps dest: bit_imp_le_length)
  then have "unat (drop_bit 24 x) = unat (ucast (drop_bit 24 x) :: byte)"
    by (metis unat_ucast_byte)
  then show ?thesis
    by (simp add: Subword_def fips_SubWord_def le_bytes_4 and_255 push_bit_or or.assoc or.commute or.left_commute)
qed

lemma rotate_fips: "push_bit 8 t OR drop_bit 24 t = fips_RotWord t"
proof (rule bit_word_eqI)
  fix n assume n: "n < LENGTH(32)"
  have "16 \<le> n \<Longrightarrow> 8 + (n - 16) = n - 8" and "24 \<le> n \<Longrightarrow> 16 + (n - 24) = n - 8" by simp_all
  then show "bit (push_bit 8 t OR drop_bit 24 t) n = bit (fips_RotWord t) n"
    unfolding fips_RotWord_def le_bytes_4 using n
    by (cases "n < 16"; cases "n < 24") (auto simp: bit_simps dest: bit_imp_le_length)
qed

lemma Rcon_xtime:
  assumes "k < 10"
  shows "Rcon ! k = (xtime ^^ k) 1"
proof -
  have "Rcon = map (\<lambda>k. (xtime ^^ k) 1) [0..<10]" by code_simp
  then show ?thesis using nth_map_upt [of k 10 0 "\<lambda>k. (xtime ^^ k) 1"] assms by simp
qed

lemma KeyExpansion_step_fips:
  assumes nk: "nk = length key div 4" "0 < nk" "nk \<le> i" and k: "i div nk - 1 < 10"
  shows "KeyExpansion_step nk i (map (fips_word key) [0..<i], i mod nk, i div nk - 1) =
    (map (fips_word key) [0..<Suc i], Suc i mod nk, Suc i div nk - 1)"
proof -
  have w: "map (fips_word key) [0..<i] ! (i - 1) = fips_word key (i - 1)"
    "map (fips_word key) [0..<i] ! (i - nk) = fips_word key (i - nk)"
    using nk by simp_all
  have "fips_word key i = fips_word key (i - nk) XOR fips_temp nk i (fips_word key (i - 1))"
    using nk by (subst fips_word.simps) (simp add: Let_def)
  moreover have "i div nk > 0" using nk by (simp add: div_greater_zero_iff)
  ultimately show ?thesis
    using nk k
    by (auto simp: Let_def w fips_temp_def Subword_fips rotate_fips Rcon_xtime mod_Suc div_Suc)
qed

lemma KeyExpansion_fold:
  assumes nk: "nk = length key div 4" "0 < nk" and "nk \<le> m" and "\<forall>i < m. i div nk - 1 < 10"
  shows "fold (KeyExpansion_step nk) [nk..<m] (map (fips_word key) [0..<nk], 0, 0) =
    (map (fips_word key) [0..<m], m mod nk, m div nk - 1)"
  using assms(3,4)
proof (induction m rule: dec_induct)
  case base
  then show ?case using nk by simp
next
  case (step m)
  then show ?case using KeyExpansion_step_fips [OF nk, of m] by simp
qed

abbreviation fips_key_words :: "byte list \<Rightarrow> u32 list" where
  "fips_key_words key \<equiv> map (fips_word key) [0..<28 + length key]"

lemma KeyExpansion_fips:
  assumes "length key \<in> {16, 24, 32}"
  shows "KeyExpansion key = (fips_key_words key, 6 + length key div 4)"
proof -
  let ?nk = "length key div 4"
  have nk: "0 < ?nk" "?nk \<le> 28 + length key" using assms by auto
  have "bswap32 (le_word (take 4 (drop (4 * i) key))) = fips_word key i" if "i < ?nk" for i
    using that assms by (subst fips_word.simps) (auto simp: bswap32_le_word)
  then have first: "map (\<lambda>i. bswap32 (le_word (take 4 (drop (4 * i) key)))) [0..<?nk] = map (fips_word key) [0..<?nk]"
    by simp
  have "i div ?nk - 1 < 10" if "i < 28 + length key" for i
    using that assms by (auto simp: div_less_iff_less_mult less_mult_imp_div_less)
  then show ?thesis
    using KeyExpansion_fold [OF refl nk] unfolding KeyExpansion_def Let_def first by simp
qed

section \<open>Blocks and chains\<close>

lemma aes_setkey_fips:
  assumes "length key \<in> {16, 24, 32}"
  shows "aes_key (aes_setkey key) = fips_key_words key" "aes_rounds (aes_setkey key) = 6 + length key div 4"
  using KeyExpansion_fips [OF assms] by (simp_all add: aes_setkey_def)

abbreviation fips_aes :: "byte list \<Rightarrow> byte list \<Rightarrow> byte list" where
  "fips_aes key \<equiv> fips_cipher (fips_key_words key) (6 + length key div 4)"

lemma setkey_encrypt:
  assumes "length key \<in> {16, 24, 32}" and "length st = 16"
  shows "aes_encrypt_1 (aes_setkey key) (astate_of st) = astate_of (fips_aes key st)"
    and "aes_decrypt_1 (aes_setkey key) (astate_of (fips_aes key st)) = astate_of st"
    and "length (fips_aes key st) = 16"
  using aes_encrypt_1_byte [of st "aes_setkey key"] aes_decrypt_1_byte [of st "aes_setkey key"]
    length_fips_cipher [of st "6 + length key div 4" "fips_key_words key"] assms
  by (auto simp: aes_setkey_fips)

lemma store_astate_of: "store_astate (astate_of st) = st"
  by (simp add: store_astate_def comp_def)

lemma aes_block_fips:
  assumes "length key \<in> {16, 24, 32}" and "length data = 16"
  shows "aes_encrypt_one_block (aes_setkey key) data = fips_aes key data"
  using assms by (simp add: aes_encrypt_one_block_def load_astate_def setkey_encrypt store_astate_of)

text \<open>CBC on a list of blocks: each block is xored with the ciphertext before it and encrypted.\<close>

fun cbc_spec :: "(byte list \<Rightarrow> byte list) \<Rightarrow> byte list \<Rightarrow> byte list list \<Rightarrow> byte list list" where
  "cbc_spec E iv [] = []"
| "cbc_spec E iv (p # ps) = (let c = E (map2 (XOR) p iv) in c # cbc_spec E c ps)"

lemma aes_cbc_encrypt_block:
  assumes "length p = 16"
  shows "aes_cbc_encrypt aes iv (p @ rest) =
    (let ct = store_astate (aes_encrypt_1 aes (map2 (\<lambda>p v. ucast (p XOR v)) p iv))
     in map_option (\<lambda>r. ct @ r) (aes_cbc_encrypt aes ct rest))"
proof -
  have "p \<noteq> []" using assms by auto
  then show ?thesis using assms by (subst aes_cbc_encrypt.simps) simp
qed

lemma aes_cbc_decrypt_block:
  assumes "length c = 16"
  shows "aes_cbc_decrypt aes iv (c @ rest) =
    map_option (\<lambda>r. map2 (\<lambda>a v. ucast (a XOR ucast v)) (aes_decrypt_1 aes (astate_of c)) iv @ r)
      (aes_cbc_decrypt aes c rest)"
proof -
  have "c \<noteq> []" using assms by auto
  then show ?thesis using assms by (subst aes_cbc_decrypt.simps) (simp add: load_astate_def)
qed

lemma map2_xor_widen:
  "map2 (\<lambda>p v. ucast (p XOR v)) p iv = astate_of (map2 (XOR) p iv)"
  "map2 (\<lambda>a v. ucast (a XOR ucast v)) (astate_of p) iv = map2 (XOR) p (iv :: byte list)"
  by (induction p iv rule: list_induct2') (simp_all flip: unsigned_xor_eq)

lemma cbc_encrypt_spec:
  assumes "length key \<in> {16, 24, 32}" and "length iv = 16" and "\<forall>p \<in> set ps. length p = 16"
  shows "aes_cbc_encrypt (aes_setkey key) iv (concat ps) = Some (concat (cbc_spec (fips_aes key) iv ps))"
  using assms(2,3)
proof (induction ps arbitrary: iv)
  case Nil
  then show ?case by (simp add: aes_cbc_encrypt.simps)
next
  case (Cons p ps)
  have len: "length (map2 (XOR) p iv) = 16" using Cons.prems by simp
  note c = setkey_encrypt(3) [OF assms(1) len]
  have "aes_cbc_encrypt (aes_setkey key) iv (p @ concat ps) =
    (let ct = fips_aes key (map2 (XOR) p iv) in map_option (\<lambda>r. ct @ r) (aes_cbc_encrypt (aes_setkey key) ct (concat ps)))"
    using Cons.prems setkey_encrypt(1) [OF assms(1) len]
    by (simp only: aes_cbc_encrypt_block list.set_intros map2_xor_widen(1) store_astate_of)
  then show ?case using Cons.IH [OF c] Cons.prems by (simp add: Let_def)
qed

lemma cbc_decrypt_spec:
  assumes "length key \<in> {16, 24, 32}" and "length iv = 16" and "\<forall>p \<in> set ps. length p = 16"
  shows "aes_cbc_decrypt (aes_setkey key) iv (concat (cbc_spec (fips_aes key) iv ps)) = Some (concat ps)"
  using assms(2,3)
proof (induction ps arbitrary: iv)
  case Nil
  then show ?case by (simp add: aes_cbc_decrypt.simps)
next
  case (Cons p ps)
  let ?c = "fips_aes key (map2 (XOR) p iv)"
  have len: "length (map2 (XOR) p iv) = 16" using Cons.prems by simp
  note c = setkey_encrypt(3) [OF assms(1) len]
  have "aes_cbc_decrypt (aes_setkey key) iv (?c @ rest) = map_option (\<lambda>r. p @ r) (aes_cbc_decrypt (aes_setkey key) ?c rest)" for rest
    using Cons.prems map2_xor_twice [of p iv]
    by (simp only: aes_cbc_decrypt_block [OF c] setkey_encrypt(2) [OF assms(1) len] map2_xor_widen(2)) simp
  then show ?case using Cons.IH [OF c] Cons.prems by (simp add: Let_def)
qed

lemma cbc_spec_block:
  assumes "length key \<in> {16, 24, 32}" and "length iv = 16" and "\<forall>p \<in> set ps. length p = 16"
  shows "cbc_spec (aes_encrypt_one_block (aes_setkey key)) iv ps = cbc_spec (fips_aes key) iv ps"
  using assms(2,3)
proof (induction ps arbitrary: iv)
  case (Cons p ps)
  have len: "length (map2 (XOR) p iv) = 16" using Cons.prems by simp
  have "aes_encrypt_one_block (aes_setkey key) (map2 (XOR) p iv) = fips_aes key (map2 (XOR) p iv)"
    by (rule aes_block_fips [OF assms(1) len])
  then show ?case using Cons.IH [OF setkey_encrypt(3) [OF assms(1) len]] Cons.prems by (simp add: Let_def)
qed simp

lemma length_cbc_spec:
  assumes "length key \<in> {16, 24, 32}" and "length iv = 16" and "\<forall>p \<in> set ps. length p = 16"
  shows "length (concat (cbc_spec (fips_aes key) iv ps)) = length (concat ps)"
  using assms(2,3)
proof (induction ps arbitrary: iv)
  case (Cons p ps)
  have len: "length (map2 (XOR) p iv) = 16" using Cons.prems by simp
  show ?case using Cons.IH [OF setkey_encrypt(3) [OF assms(1) len]] Cons.prems setkey_encrypt(3) [OF assms(1) len]
    by (simp add: Let_def)
qed simp

lemma cbc_ragged:
  "length pt mod 16 \<noteq> 0 \<Longrightarrow> aes_cbc_encrypt aes iv pt = None \<and> aes_cbc_decrypt aes iv pt = None"
proof (induction "length pt" arbitrary: iv pt rule: less_induct)
  case less
  show ?case
  proof (cases "length pt < 16")
    case True
    then show ?thesis using less.prems by (auto simp: aes_cbc_encrypt.simps aes_cbc_decrypt.simps)
  next
    case False
    then have "length (drop 16 pt) mod 16 \<noteq> 0" "length (drop 16 pt) < length pt" "pt \<noteq> []"
      using less.prems by (auto simp: le_mod_geq)
    then show ?thesis
      using less.hyps False by (subst aes_cbc_encrypt.simps, subst aes_cbc_decrypt.simps) (simp add: Let_def)
  qed
qed

lemma split_blocks_16:
  assumes "length pt mod 16 = 0"
  obtains ps where "pt = concat ps" and "\<forall>p \<in> set ps. length (p :: byte list) = 16"
proof -
  have "\<exists>ps. pt = concat ps \<and> (\<forall>p \<in> set ps. length p = 16)"
    using assms
  proof (induction "length pt" arbitrary: pt rule: less_induct)
    case less
    show ?case
    proof (cases "pt = []")
      case True
      then show ?thesis by (intro exI [of _ "[]"]) simp
    next
      case False
      then have "length pt \<ge> 16" using less.prems by (cases "length pt < 16") auto
      then obtain ps where "drop 16 pt = concat ps" "\<forall>p \<in> set ps. length p = 16"
        using less.hyps [of "drop 16 pt"] less.prems False by (auto simp: le_mod_geq)
      then show ?thesis using \<open>length pt \<ge> 16\<close> append_take_drop_id [of 16 pt]
        by (intro exI [of _ "take 16 pt # ps"]) auto
    qed
  qed
  then show ?thesis using that by blast
qed
lemma cbc_total:
  assumes "length key \<in> {16, 24, 32}" and "length iv = 16" and "length pt mod 16 = 0"
  obtains ct where "aes_cbc_encrypt (aes_setkey key) iv pt = Some ct" and "length ct = length pt"
    and "aes_cbc_decrypt (aes_setkey key) iv ct = Some pt"
proof -
  obtain ps where ps: "pt = concat ps" "\<forall>p \<in> set ps. length p = 16" using split_blocks_16 [OF assms(3)] .
  show ?thesis
    using that cbc_encrypt_spec [OF assms(1,2) ps(2)] cbc_decrypt_spec [OF assms(1,2) ps(2)]
      length_cbc_spec [OF assms(1,2) ps(2)] ps(1) by metis
qed

section \<open>Properties\<close>

text \<open>C21: The cipher of \<^verbatim>\<open>tls_aes.c\<close> is the AES of FIPS 197 for keys of 16, 24 and 32
  bytes: \<^verbatim>\<open>KeyExpansion\<close> computes the standard's key schedule, with 6 + length / 4
  rounds, and \<^verbatim>\<open>aes_encrypt_one_block\<close> the standard's sequence of rounds on it.\<close>

theorem aes_encrypt_fips197:
  assumes "length key \<in> {16, 24, 32}" and "length data = 16"
  shows "KeyExpansion key = (map (fips_word key) [0..<28 + length key], 6 + length key div 4)
    \<and> aes_encrypt_one_block (aes_setkey key) data =
      fips_cipher (map (fips_word key) [0..<28 + length key]) (6 + length key div 4) data"
  using assms
  by (simp add: KeyExpansion_fips aes_encrypt_one_block_def load_astate_def setkey_encrypt store_astate_of)

theorem aes_encrypt_fips197_witness:
  "aes_encrypt_one_block (aes_setkey (replicate 24 7)) (replicate 16 1) =
     fips_cipher (map (fips_word (replicate 24 7)) [0..<52]) 12 (replicate 16 1)"
  using aes_encrypt_fips197 [of "replicate 24 7" "replicate 16 1"] by simp

text \<open>C11: Decryption undoes encryption: for every key of 16, 24 or 32 bytes and every block,
  \<^verbatim>\<open>aes_decrypt_one_block\<close> gives back what \<^verbatim>\<open>aes_encrypt_one_block\<close> was given.\<close>

theorem aes_decrypt_encrypt:
  assumes "length key \<in> {16, 24, 32}" and "length data = 16"
  shows "aes_decrypt_one_block (aes_setkey key) (aes_encrypt_one_block (aes_setkey key) data) = data"
  using assms
  by (simp add: aes_encrypt_one_block_def aes_decrypt_one_block_def load_astate_def setkey_encrypt store_astate_of)

theorem aes_decrypt_encrypt_witness:
  "aes_decrypt_one_block (aes_setkey (replicate 32 9)) (aes_encrypt_one_block (aes_setkey (replicate 32 9)) (replicate 16 5))
     = replicate 16 5"
  using aes_decrypt_encrypt [of "replicate 32 9" "replicate 16 5"] by simp

text \<open>C37: CBC mode. A message whose length is a multiple of 16 is encrypted, block by block as the
  mode prescribes, to a message of the same length from which \<^verbatim>\<open>aes_cbc_decrypt\<close>
  recovers it; for any other length neither loop meets its exit condition before the unsigned
  length wraps around.\<close>

theorem aes_cbc_roundtrip:
  assumes "length key \<in> {16, 24, 32}" and "length iv = 16"
  shows "if length pt mod 16 = 0
    then \<exists>ps. pt = concat ps \<and> (\<forall>p \<in> set ps. length p = 16)
      \<and> aes_cbc_encrypt (aes_setkey key) iv pt =
          Some (concat (cbc_spec (aes_encrypt_one_block (aes_setkey key)) iv ps))
      \<and> length (concat (cbc_spec (aes_encrypt_one_block (aes_setkey key)) iv ps)) = length pt
      \<and> aes_cbc_decrypt (aes_setkey key) iv (concat (cbc_spec (aes_encrypt_one_block (aes_setkey key)) iv ps)) = Some pt
    else aes_cbc_encrypt (aes_setkey key) iv pt = None \<and> aes_cbc_decrypt (aes_setkey key) iv pt = None"
proof (cases "length pt mod 16 = 0")
  case True
  then obtain ps where ps: "pt = concat ps" "\<forall>p \<in> set ps. length p = 16" by (rule split_blocks_16)
  moreover have "cbc_spec (aes_encrypt_one_block (aes_setkey key)) iv ps = cbc_spec (fips_aes key) iv ps"
    by (rule cbc_spec_block [OF assms ps(2)])
  ultimately show ?thesis
    using True cbc_encrypt_spec [OF assms ps(2)] cbc_decrypt_spec [OF assms ps(2)] length_cbc_spec [OF assms ps(2)] by auto
next
  case False
  then show ?thesis using cbc_ragged by simp
qed

theorem aes_cbc_roundtrip_witness:
  "\<exists>ps. replicate 32 3 = concat ps \<and> (\<forall>p \<in> set ps. length p = 16)
      \<and> aes_cbc_encrypt (aes_setkey (replicate 16 0)) (replicate 16 1) (replicate 32 3) =
          Some (concat (cbc_spec (aes_encrypt_one_block (aes_setkey (replicate 16 0))) (replicate 16 1) ps))
      \<and> length (concat (cbc_spec (aes_encrypt_one_block (aes_setkey (replicate 16 0))) (replicate 16 1) ps)) = 32
      \<and> aes_cbc_decrypt (aes_setkey (replicate 16 0)) (replicate 16 1)
          (concat (cbc_spec (aes_encrypt_one_block (aes_setkey (replicate 16 0))) (replicate 16 1) ps)) = Some (replicate 32 3)"
  using aes_cbc_roundtrip [of "replicate 16 0" "replicate 16 1" "replicate 32 3"] by simp

end
