(* ===== verification/Tls_Aesgcm.thy ===== *)
theory Tls_Aesgcm
  imports Byte_Words
begin

text \<open>
  \<^verbatim>\<open>networking/tls_aesgcm.c\<close>: the authentication function GHASH of AES-GCM, and the xor
  helpers of \<^verbatim>\<open>networking/tls.c\<close> it calls. The file has five versions of the one-bit shift,
  for bytes and for 32- and 64-bit words on little-endian and big-endian targets; all of them
  and the field multiplication built on them are compared with the 128-bit arithmetic of NIST SP
  800-38D.
\<close>

section \<open>Xor of buffers\<close>

text \<open>
  \<^verbatim>\<open>xorbuf3\<close> on the bytes from the three pointers on; the result is the buffer
  \<^verbatim>\<open>dst\<close>.
\<close>

fun xorbuf3 :: "byte list \<Rightarrow> byte list \<Rightarrow> byte list \<Rightarrow> nat \<Rightarrow> byte list" where
  "xorbuf3 (d # dst) (a # src1) (b # src2) (Suc count) = (a XOR b) # xorbuf3 dst src1 src2 count"
| "xorbuf3 dst src1 src2 count = dst"

definition xorbuf :: "byte list \<Rightarrow> byte list \<Rightarrow> nat \<Rightarrow> byte list" where
  "xorbuf dst src count = xorbuf3 dst dst src count"

text \<open>The word version for \<^verbatim>\<open>unsigned long\<close> of 64 bits.\<close>

definition xorbuf_aligned_AES_BLOCK_SIZE :: "byte list \<Rightarrow> byte list \<Rightarrow> byte list" where
  "xorbuf_aligned_AES_BLOCK_SIZE dst src =
     (let d0 = le_word (take 8 dst) :: u64; s0 = le_word (take 8 src);
          dst = mem_write dst 0 (le_bytes 8 (d0 XOR s0));
          d1 = le_word (take 8 (drop 8 dst)) :: u64; s1 = le_word (take 8 (drop 8 src))
      in mem_write dst 8 (le_bytes 8 (d1 XOR s1)))"

section \<open>The shift\<close>

text \<open>The versions of \<^verbatim>\<open>RIGHTSHIFTX\<close>, by the conditions of the preprocessor.\<close>

datatype shift_config = Shift_bytes | Shift_be32 | Shift_be64 | Shift_le32 | Shift_le64

fun shift_bytes_loop :: "byte \<Rightarrow> byte list \<Rightarrow> byte list" where
  "shift_bytes_loop carryIn [] = []"
| "shift_bytes_loop carryIn (b # bs) = (drop_bit 1 b XOR carryIn) # shift_bytes_loop (push_bit 7 b) bs"

text \<open>
  The loop over the words of \<^verbatim>\<open>l\<close>, given how the target reads and writes a word: directly
  where it is big-endian, with \<^verbatim>\<open>SWAP_BE32\<close> or \<^verbatim>\<open>SWAP_BE64\<close> where it is
  little-endian.
\<close>

fun shift_words_loop :: "(byte list \<Rightarrow> 'a :: len word) \<Rightarrow> ('a word \<Rightarrow> byte list) \<Rightarrow> 'a word \<Rightarrow> byte list list \<Rightarrow> byte list"
  where
  "shift_words_loop load store carryIn [] = []"
| "shift_words_loop load store carryIn (l # ls) =
     (let ti = load l; carryOut = push_bit (LENGTH('a) - 1) ti; ti = drop_bit 1 ti XOR carryIn
      in store ti @ shift_words_loop load store carryOut ls)"

text \<open>Memory accesses of a big-endian target.\<close>

definition be_load :: "byte list \<Rightarrow> 'a :: len word" where "be_load bs = le_word (rev bs)"

definition be_store :: "nat \<Rightarrow> 'a :: len word \<Rightarrow> byte list" where "be_store k w = rev (le_bytes k w)"

definition chunks :: "nat \<Rightarrow> nat \<Rightarrow> 'a list \<Rightarrow> 'a list list" where
  "chunks n k x = map (\<lambda>i. take k (drop (k * i) x)) [0..<n]"

definition RIGHTSHIFTX :: "shift_config \<Rightarrow> byte list \<Rightarrow> byte list" where
  "RIGHTSHIFTX cfg x =
     (let bit0 = x ! 15 AND 1 \<noteq> 0
      in case cfg of
        Shift_bytes \<Rightarrow> shift_bytes_loop (if bit0 then 0xE1 else 0) x
      | Shift_be32 \<Rightarrow> shift_words_loop be_load (be_store 4) (if bit0 then push_bit (32 - 8) 0xE1 else 0 :: u32) (chunks 4 4 x)
      | Shift_be64 \<Rightarrow> shift_words_loop be_load (be_store 8) (if bit0 then push_bit (64 - 8) 0xE1 else 0 :: u64) (chunks 2 8 x)
      | Shift_le32 \<Rightarrow> shift_words_loop (\<lambda>l. bswap32 (le_word l)) (\<lambda>t. le_bytes 4 (bswap32 t))
          (if bit0 then push_bit (32 - 8) 0xE1 else 0) (chunks 4 4 x)
      | Shift_le64 \<Rightarrow> shift_words_loop (\<lambda>l. bswap64 (le_word l)) (\<lambda>t. le_bytes 8 (bswap64 t))
          (if bit0 then push_bit (64 - 8) 0xE1 else 0) (chunks 2 8 x))"

section \<open>Multiplication\<close>

text \<open>
  The inner loop over the bits of a byte, from \<open>y = 0x800000 | Y[i]\<close> until \<open>(int32_t)y < 0\<close>;
  the loop has no other exit, so it is a partial function.
\<close>

partial_function (option) GMULT_loop ::
    "shift_config \<Rightarrow> u32 \<Rightarrow> byte list \<Rightarrow> byte list \<Rightarrow> (byte list \<times> byte list) option" where
  [code]: "GMULT_loop cfg y Z X =
     (let Z = (if y AND 0x80 \<noteq> 0 then xorbuf_aligned_AES_BLOCK_SIZE Z X else Z);
          X = RIGHTSHIFTX cfg X;
          y = push_bit 1 y
      in if sint y < 0 then Some (Z, X) else GMULT_loop cfg y Z X)"

fun GMULT_bytes :: "shift_config \<Rightarrow> byte list \<Rightarrow> byte list \<Rightarrow> byte list \<Rightarrow> byte list option" where
  "GMULT_bytes cfg [] Z X = Some Z"
| "GMULT_bytes cfg (b # Y) Z X =
     (case GMULT_loop cfg (0x800000 OR ucast b) Z X of
        None \<Rightarrow> None
      | Some (Z, X) \<Rightarrow> GMULT_bytes cfg Y Z X)"

text \<open>The result is what \<^verbatim>\<open>X\<close> holds at the end.\<close>

definition GMULT :: "shift_config \<Rightarrow> byte list \<Rightarrow> byte list \<Rightarrow> byte list option" where
  "GMULT cfg X Y = GMULT_bytes cfg (take 16 Y) (replicate 16 0) X"

section \<open>GHASH\<close>

text \<open>The loop over the full blocks and the partial block after it.\<close>

function GHASH_blocks :: "shift_config \<Rightarrow> byte list \<Rightarrow> byte list \<Rightarrow> byte list \<Rightarrow> byte list option" where
  "GHASH_blocks cfg h x c =
     (if 16 \<le> length c then
        (case GMULT cfg (xorbuf_aligned_AES_BLOCK_SIZE x c) h of
           None \<Rightarrow> None
         | Some x \<Rightarrow> GHASH_blocks cfg h x (drop 16 c))
      else if length c \<noteq> 0 then GMULT cfg (xorbuf x c (length c)) h
      else Some x)"
  by pat_completeness auto
termination
  by (relation "measure (\<lambda>(cfg, h, x, c). length c)") auto

declare GHASH_blocks.simps [simp del]

definition aSz :: nat where "aSz = 13"

text \<open>\<open>P32(x)[i] ^= SWAP_BE32(v)\<close>\<close>

definition xor_P32 :: "nat \<Rightarrow> u32 \<Rightarrow> byte list \<Rightarrow> byte list" where
  "xor_P32 i v x = mem_write x (4 * i) (le_bytes 4 (le_word (take 4 (drop (4 * i) x)) XOR bswap32 v))"

definition aesgcm_GHASH :: "shift_config \<Rightarrow> byte list \<Rightarrow> byte list \<Rightarrow> byte list \<Rightarrow> byte list option" where
  "aesgcm_GHASH cfg h a c =
     (case GMULT cfg (take 16 a) h of
        None \<Rightarrow> None
      | Some x \<Rightarrow>
          (case GHASH_blocks cfg h x c of
             None \<Rightarrow> None
           | Some x \<Rightarrow>
               GMULT cfg (xor_P32 3 (word_of_nat (length c) * 8) (xor_P32 1 (word_of_nat (aSz * 8)) x)) h))"

section \<open>Byte strings and big-endian words\<close>

lemma bit_be_load:
  "bit (be_load bs :: 'a :: len word) n \<longleftrightarrow>
     n < LENGTH('a) \<and> n div 8 < length bs \<and> bit (bs ! (length bs - 1 - n div 8)) (n mod 8)"
  by (auto simp: be_load_def bit_le_word rev_nth)

lemma bit_be_store:
  assumes "i < k" and "j < 8"
  shows "bit (be_store k (w :: 'a :: len word) ! i) j \<longleftrightarrow> bit w (8 * (k - 1 - i) + j)"
  using assms by (simp add: be_store_def rev_nth bit_le_bytes_nth)

lemma length_be_store [simp]: "length (be_store k w) = k"
  by (simp add: be_store_def)

lemma be_store_load: "8 * length bs \<le> LENGTH('a) \<Longrightarrow> be_store (length bs) (be_load bs :: 'a :: len word) = bs"
  using le_bytes_le_word [of "rev bs", where 'a = 'a] by (simp add: be_store_def be_load_def)

lemma be_load_store: "LENGTH('a) \<le> 8 * k \<Longrightarrow> be_load (be_store k (w :: 'a :: len word)) = w"
  by (simp add: be_store_def be_load_def le_word_le_bytes)

lemma be_load_inject:
  "length a = length b \<Longrightarrow> 8 * length a \<le> LENGTH('a) \<Longrightarrow> (be_load a :: 'a :: len word) = be_load b \<longleftrightarrow> a = b"
  by (metis be_store_load)

lemma be_load_map2_xor:
  "length a = length b \<Longrightarrow> (be_load (map2 (XOR) a b) :: 'a :: len word) = be_load a XOR be_load b"
  by (rule bit_word_eqI) (auto simp: bit_be_load bit_xor_iff)

lemma le_bytes_xor:
  assumes "length a = k" and "length b = k" and "8 * k \<le> LENGTH('a)"
  shows "le_bytes k (le_word a XOR le_word b :: 'a :: len word) = map2 (XOR) a b"
proof (rule nth_equalityI)
  fix i assume "i < length (le_bytes k (le_word a XOR le_word b :: 'a word))"
  then have i: "i < k" by simp
  show "le_bytes k (le_word a XOR le_word b :: 'a word) ! i = map2 (XOR) a b ! i"
  proof (rule bit_word_eqI)
    fix n assume n: "n < LENGTH(8)"
    then have "(8 * i + n) div 8 = i" "(8 * i + n) mod 8 = n" "8 * i + n < LENGTH('a)" using i assms(3) by simp_all
    then show "bit (le_bytes k (le_word a XOR le_word b :: 'a word) ! i) n = bit (map2 (XOR) a b ! i) n"
      using i n assms by (simp add: bit_le_bytes_nth bit_xor_iff bit_le_word)
  qed
qed (use assms in simp)

section \<open>Xor of buffers\<close>

lemma xorbuf3_map2:
  "length src1 = length src2 \<Longrightarrow> length src1 \<le> length dst \<Longrightarrow>
   xorbuf3 dst src1 src2 (length src1) = map2 (XOR) src1 src2 @ drop (length src1) dst"
proof (induction src1 src2 arbitrary: dst rule: list_induct2)
  case (Cons x xs y ys)
  then show ?case by (cases dst) simp_all
qed simp

lemma xorbuf3_take:
  "xorbuf3 dst src1 src2 n = xorbuf3 dst (take n src1) (take n src2) n"
  by (induction dst src1 src2 n rule: xorbuf3.induct) simp_all

lemma xorbuf_map2:
  assumes "length src = n" and "n \<le> length dst"
  shows "xorbuf dst src n = map2 (XOR) (take n dst) src @ drop n dst"
  using xorbuf3_take [of dst dst src n] xorbuf3_map2 [of "take n dst" src dst] assms by (simp add: xorbuf_def)

lemma xorbuf_aligned_map2:
  assumes "length dst = 16" and "length src \<ge> 16"
  shows "xorbuf_aligned_AES_BLOCK_SIZE dst src = map2 (XOR) dst (take 16 src)"
proof -
  have "map2 (XOR) (take 8 dst @ drop 8 dst) (take 8 src @ take 8 (drop 8 src)) =
    map2 (XOR) (take 8 dst) (take 8 src) @ map2 (XOR) (drop 8 dst) (take 8 (drop 8 src))"
    using assms by (simp del: append_take_drop_id)
  then have "map2 (XOR) dst (take 16 src) = map2 (XOR) (take 8 dst) (take 8 src) @ map2 (XOR) (drop 8 dst) (take 8 (drop 8 src))"
    using take_add [of 8 8 src] by simp
  then show ?thesis
    using assms by (simp add: xorbuf_aligned_AES_BLOCK_SIZE_def Let_def mem_write_def le_bytes_xor)
qed

section \<open>The shift in GF(2^128)\<close>

lemma nth_shift_bytes:
  "i < length bs \<Longrightarrow> shift_bytes_loop c bs ! i = drop_bit 1 (bs ! i) XOR (if i = 0 then c else push_bit 7 (bs ! (i - 1)))"
proof (induction bs arbitrary: c i)
  case (Cons b bs)
  then show ?case by (cases i) (auto simp: nth_Cons')
qed simp

lemma length_shift_bytes [simp]: "length (shift_bytes_loop c bs) = length bs"
  by (induction bs arbitrary: c) simp_all

lemma shift_bytes_append:
  "a \<noteq> [] \<Longrightarrow> shift_bytes_loop c (a @ b) = shift_bytes_loop c a @ shift_bytes_loop (push_bit 7 (last a)) b"
  by (induction a arbitrary: c) simp_all

lemma shift_word:
  assumes "length bs = k" and "0 < k" and "LENGTH('a) = 8 * k"
  shows "be_store k (drop_bit 1 (be_load bs) XOR push_bit (8 * k - 8) (ucast c) :: 'a :: len word) = shift_bytes_loop c bs"
proof (rule nth_equalityI)
  fix i assume "i < length (be_store k (drop_bit 1 (be_load bs) XOR push_bit (8 * k - 8) (ucast c) :: 'a :: len word))"
  then have i: "i < k" by simp
  show "be_store k (drop_bit 1 (be_load bs) XOR push_bit (8 * k - 8) (ucast c) :: 'a :: len word) ! i = shift_bytes_loop c bs ! i"
  proof (rule bit_word_eqI)
    fix j assume j: "j < LENGTH(8)"
    let ?p = "8 * (k - 1 - i) + j"
    have p: "?p < 8 * k" using i j by simp
    have carry: "bit (push_bit (8 * k - 8) (ucast c) :: 'a word) ?p \<longleftrightarrow> i = 0 \<and> bit c j"
    proof (cases "i = 0")
      case True
      obtain k' where "k = Suc k'" using assms(2) by (cases k) auto
      then show ?thesis using p True j assms(3) by (simp add: bit_push_bit_iff bit_ucast_iff)
    next
      case False
      then have "?p < 8 * k - 8" using i j by simp
      then show ?thesis using False by (simp add: bit_push_bit_iff)
    qed
    have shift: "bit (drop_bit 1 (be_load bs) :: 'a word) ?p \<longleftrightarrow>
        (if j = 7 then i \<noteq> 0 \<and> bit (bs ! (i - 1)) 0 else bit (bs ! i) (j + 1))"
    proof (cases "j = 7")
      case True
      then have "1 + ?p = 8 * (k - i)" using i by simp
      then have "(1 + ?p) div 8 = k - i" "(1 + ?p) mod 8 = 0" by simp_all
      then show ?thesis
        using True i assms by (simp add: bit_drop_bit_eq bit_be_load del: One_nat_def) (auto simp: less_Suc_eq)
    next
      case False
      then have "(1 + ?p) div 8 = k - 1 - i" "(1 + ?p) mod 8 = j + 1" using j by simp_all
      then show ?thesis using False i j p assms by (simp add: bit_drop_bit_eq bit_be_load del: One_nat_def) auto
    qed
    show "bit (be_store k (drop_bit 1 (be_load bs) XOR push_bit (8 * k - 8) (ucast c) :: 'a word) ! i) j =
      bit (shift_bytes_loop c bs ! i) j"
      using i j assms carry shift bit_imp_le_length [of "bs ! i" 8]
      by (auto simp: bit_be_store nth_shift_bytes bit_xor_iff bit_drop_bit_eq bit_push_bit_iff)
  qed
qed (use assms in simp)

lemma shift_word_carry:
  assumes "length bs = k" and "0 < k" and "LENGTH('a) = 8 * k"
  shows "push_bit (LENGTH('a) - 1) (be_load bs :: 'a :: len word) = push_bit (8 * k - 8) (ucast (push_bit 7 (last bs)))"
proof (rule bit_word_eqI)
  fix n assume n: "n < LENGTH('a)"
  have l: "last bs = bs ! (k - 1)" using assms by (auto simp: last_conv_nth)
  show "bit (push_bit (LENGTH('a) - 1) (be_load bs :: 'a word)) n = bit (push_bit (8 * k - 8) (ucast (push_bit 7 (last bs))) :: 'a word) n"
  proof (cases "n = 8 * k - 1")
    case True
    obtain k' where "k = Suc k'" using assms(2) by (cases k) auto
    then show ?thesis using True n assms
      by (simp add: bit_push_bit_iff bit_ucast_iff bit_be_load l)
  next
    case False
    then have "n - (8 * k - 8) \<noteq> 7" "n < 8 * k - 1" using n assms by simp_all
    then show ?thesis using n assms by (auto simp: bit_push_bit_iff bit_ucast_iff)
  qed
qed

lemma shift_words_bytes:
  fixes load :: "byte list \<Rightarrow> 'a :: len word"
  assumes load: "\<And>l. length l = k \<Longrightarrow> load l = be_load l" and store: "\<And>t. store t = be_store k t"
    and k: "0 < k" "LENGTH('a) = 8 * k" and "\<forall>l \<in> set ls. length l = k"
  shows "shift_words_loop load store (push_bit (8 * k - 8) (ucast c)) ls = shift_bytes_loop c (concat ls)"
  using assms(5)
proof (induction ls arbitrary: c)
  case (Cons l ls)
  then have l: "length l = k" "l \<noteq> []" using k by auto
  show ?case
    using Cons shift_word [OF l(1) k] shift_word_carry [OF l(1) k]
    by (simp add: load [OF l(1)] store shift_bytes_append [OF l(2)])
qed simp

definition gcm_shift :: "128 word \<Rightarrow> 128 word" where
  "gcm_shift v = drop_bit 1 v XOR (if bit v 0 then push_bit 120 0xE1 else 0)"

lemma chunks_16:
  assumes "length x = 16"
  shows "concat (chunks 4 4 x) = x" "\<forall>l \<in> set (chunks 4 4 x). length l = 4"
    "concat (chunks 2 8 x) = x" "\<forall>l \<in> set (chunks 2 8 x). length l = 8"
proof -
  have "x = take 8 x @ drop 8 x" by simp
  also have "\<dots> = (take 4 x @ take 4 (drop 4 x)) @ (take 4 (drop 8 x) @ drop 12 x)"
    using take_add [of 4 4 x] append_take_drop_id [of 4 "drop 8 x"] by simp
  finally show "concat (chunks 4 4 x) = x" using assms by (simp add: chunks_def upt_conv_Cons)
qed (use assms in \<open>auto simp: chunks_def upt_conv_Cons\<close>)

lemma RIGHTSHIFTX_bytes:
  assumes "length x = 16"
  shows "RIGHTSHIFTX cfg x = shift_bytes_loop (if bit (x ! 15) 0 then 0xE1 else 0) x"
proof -
  have odd: "x ! 15 AND 1 \<noteq> 0 \<longleftrightarrow> bit (x ! 15) 0" by (simp add: and_one_eq bit_0 odd_iff_mod_2_eq_one)
  have c32: "(if b then push_bit (32 - 8) 0xE1 else 0) = push_bit (8 * 4 - 8) (ucast (if b then 0xE1 else 0 :: byte) :: u32)" for b by simp
  have c64: "(if b then push_bit (64 - 8) 0xE1 else 0) = push_bit (8 * 8 - 8) (ucast (if b then 0xE1 else 0 :: byte) :: u64)" for b by simp
  have le32: "bswap32 (le_word l) = be_load l" if "length l = 4" for l
    using that by (simp add: bswap32_le_word be_load_def)
  have le64: "bswap64 (le_word l) = be_load l" if "length l = 8" for l
    using that by (simp add: bswap64_le_word be_load_def)
  have be: "shift_words_loop be_load (be_store 4) (push_bit (8 * 4 - 8) (ucast c) :: u32) ls = shift_bytes_loop c (concat ls)"
    "shift_words_loop (\<lambda>l. bswap32 (le_word l)) (\<lambda>t. le_bytes 4 (bswap32 t)) (push_bit (8 * 4 - 8) (ucast c)) ls
      = shift_bytes_loop c (concat ls)"
    if "\<forall>l \<in> set ls. length l = 4" for c ls
    by (rule shift_words_bytes; use that in \<open>simp add: le32 be_store_def le_bytes_bswap32\<close>)+
  have be': "shift_words_loop be_load (be_store 8) (push_bit (8 * 8 - 8) (ucast c) :: u64) ls = shift_bytes_loop c (concat ls)"
    "shift_words_loop (\<lambda>l. bswap64 (le_word l)) (\<lambda>t. le_bytes 8 (bswap64 t)) (push_bit (8 * 8 - 8) (ucast c)) ls
      = shift_bytes_loop c (concat ls)"
    if "\<forall>l \<in> set ls. length l = 8" for c ls
    by (rule shift_words_bytes; use that in \<open>simp add: le64 be_store_def le_bytes_bswap64\<close>)+
  show ?thesis
    unfolding RIGHTSHIFTX_def Let_def odd c32 c64
    by (cases cfg) (simp_all only: shift_config.case be [OF chunks_16(2) [OF assms]] be' [OF chunks_16(4) [OF assms]] chunks_16(1,3) [OF assms])
qed

lemma RIGHTSHIFTX_gcm:
  assumes "length x = 16"
  shows "be_load (RIGHTSHIFTX cfg x) = gcm_shift (be_load x)" and "length (RIGHTSHIFTX cfg x) = 16"
proof -
  have b: "bit (be_load x :: 128 word) 0 = bit (x ! 15) 0"
    using assms by (simp add: bit_be_load)
  have "be_store 16 (gcm_shift (be_load x)) = RIGHTSHIFTX cfg x"
    using shift_word [of x 16 "if bit (x ! 15) 0 then 0xE1 else 0", where 'a = 128] assms
    by (cases "bit (x ! 15) 0") (simp_all add: RIGHTSHIFTX_bytes gcm_shift_def b)
  then show "be_load (RIGHTSHIFTX cfg x) = gcm_shift (be_load x)"
    using be_load_store [of 16 "gcm_shift (be_load x)"] by simp
  show "length (RIGHTSHIFTX cfg x) = 16" using assms by (simp add: RIGHTSHIFTX_bytes)
qed

section \<open>Multiplication in GF(2^128)\<close>

text \<open>Algorithm 1 of SP 800-38D for \<open>x \<bullet> y\<close>: bit 0 of a block is its most significant one.\<close>

definition gcm_step :: "bool \<Rightarrow> 128 word \<times> 128 word \<Rightarrow> 128 word \<times> 128 word" where
  "gcm_step b zv = (case zv of (z, v) \<Rightarrow> (if b then z XOR v else z, gcm_shift v))"

definition gcm_mul :: "128 word \<Rightarrow> 128 word \<Rightarrow> 128 word" where
  "gcm_mul v y = fst (fold (\<lambda>i. gcm_step (bit y (127 - i))) [0..<128] (0, v))"

definition msb_bits :: "byte \<Rightarrow> bool list" where
  "msb_bits b = map (\<lambda>i. bit b (7 - i)) [0..<8]"

definition blk :: "byte list \<Rightarrow> 128 word" where "blk x = be_load x"

lemma GMULT_step:
  fixes y :: u32
  assumes "length Z = 16" and "length X = 16"
  defines "Z' \<equiv> if y AND 0x80 \<noteq> 0 then xorbuf_aligned_AES_BLOCK_SIZE Z X else Z"
  shows "length Z' = 16" and "(blk Z', blk (RIGHTSHIFTX cfg X)) = gcm_step (bit y 7) (blk Z, blk X)"
proof -
  have bit: "y AND 0x80 \<noteq> 0 \<longleftrightarrow> bit y 7"
  proof -
    have "y AND push_bit 7 1 = push_bit 7 (of_bool (bit y 7))"
      by (rule bit_word_eqI) (simp only: bit_and_iff bit_push_bit_iff bit_1_iff bit_of_bool_iff, auto)
    then show ?thesis by simp
  qed
  show "length Z' = 16" using assms by (simp add: xorbuf_aligned_map2)
  show "(blk Z', blk (RIGHTSHIFTX cfg X)) = gcm_step (bit y 7) (blk Z, blk X)"
    using assms by (simp add: Z'_def bit blk_def gcm_step_def RIGHTSHIFTX_gcm xorbuf_aligned_map2 be_load_map2_xor)
qed


lemma bit_800000: "bit (0x800000 OR ucast (b :: byte) :: u32) n \<longleftrightarrow> n = 23 \<or> bit b n"
proof -
  have "bit (push_bit 23 1 OR ucast b :: u32) n \<longleftrightarrow> n = 23 \<or> bit b n"
    by (simp only: bit_or_iff bit_push_bit_iff bit_1_iff bit_ucast_iff) (auto dest: bit_imp_le_length)
  then show ?thesis by simp
qed

lemma GMULT_loop_bits:
  fixes b :: byte
  assumes "m < 8" and "length Z = 16" and "length X = 16"
  shows "\<exists>Z' X'. GMULT_loop cfg (push_bit m (0x800000 OR ucast b)) Z X = Some (Z', X') \<and> length Z' = 16 \<and> length X' = 16
    \<and> (blk Z', blk X') = fold gcm_step (map (\<lambda>i. bit b (7 - i)) [m..<8]) (blk Z, blk X)"
  using assms
proof (induction "7 - m" arbitrary: m Z X)
  case 0
  then have m: "m = 7" by simp
  let ?y = "push_bit m (0x800000 OR ucast b) :: u32"
  have "sint (push_bit 1 ?y) < 0" "bit ?y 7 = bit b 0"
    unfolding bit_last_iff [symmetric] m by (simp_all only: push_bit_push_bit bit_push_bit_iff) (simp_all add: bit_800000)
  then show ?case
    using GMULT_step(1) [OF 0(3,4), of ?y] GMULT_step(2) [OF 0(3,4), of ?y cfg] RIGHTSHIFTX_gcm(2) [OF 0(4)]
    by (subst GMULT_loop.simps) (simp add: m del: push_bit_Suc)
next
  case (Suc n)
  let ?y = "push_bit m (0x800000 OR ucast b) :: u32"
  have m: "m < 7" using Suc by simp
  then have "\<not> sint (push_bit 1 ?y) < 0" "bit ?y 7 = bit b (7 - m)"
    unfolding bit_last_iff [symmetric]
    by (simp_all only: push_bit_push_bit bit_push_bit_iff bit_800000) (auto dest: bit_imp_le_length)
  moreover have "push_bit 1 ?y = push_bit (Suc m) (0x800000 OR ucast b)" by (simp add: push_bit_push_bit del: push_bit_Suc)
  moreover have upt: "[m..<8] = m # [Suc m..<8]" using m by (simp add: upt_conv_Cons)
  moreover define Z1 where "Z1 = (if ?y AND 0x80 \<noteq> 0 then xorbuf_aligned_AES_BLOCK_SIZE Z X else Z)"
  ultimately have "GMULT_loop cfg ?y Z X = GMULT_loop cfg (push_bit (Suc m) (0x800000 OR ucast b)) Z1 (RIGHTSHIFTX cfg X)"
    by (subst GMULT_loop.simps) (simp only: Let_def if_False)
  then show ?case
    using Suc.hyps(1) [of "Suc m" Z1 "RIGHTSHIFTX cfg X"] Suc.hyps(2) m upt \<open>bit ?y 7 = bit b (7 - m)\<close>
      GMULT_step(1) [OF Suc.prems(2,3), of ?y, folded Z1_def] GMULT_step(2) [OF Suc.prems(2,3), of ?y cfg, folded Z1_def]
      RIGHTSHIFTX_gcm(2) [OF Suc.prems(3)]
    by (simp del: push_bit_Suc push_bit_or push_bit_numeral)
qed

lemma GMULT_bytes_bits:
  assumes "length Z = 16" and "length X = 16"
  shows "\<exists>Z'. GMULT_bytes cfg Y Z X = Some Z' \<and> length Z' = 16
    \<and> blk Z' = fst (fold gcm_step (concat (map msb_bits Y)) (blk Z, blk X))"
  using assms
proof (induction Y arbitrary: Z X)
  case (Cons b Y)
  obtain Z' X' where step: "GMULT_loop cfg (0x800000 OR ucast b) Z X = Some (Z', X')" "length Z' = 16" "length X' = 16"
    "(blk Z', blk X') = fold gcm_step (msb_bits b) (blk Z, blk X)"
    using GMULT_loop_bits [of 0, OF _ Cons.prems, of cfg b] by (auto simp: msb_bits_def)
  then show ?case using Cons.IH [OF step(2,3)] by (simp flip: step(4))
qed simp

lemma nth_concat_blocks:
  assumes "\<forall>x \<in> set xs. length x = k" and "0 < k" and "i < length xs * k"
  shows "concat xs ! i = xs ! (i div k) ! (i mod k)"
  using assms(1,3)
proof (induction xs arbitrary: i)
  case (Cons x xs)
  then show ?case using assms(2) by (cases "i < k") (auto simp: nth_append le_div_geq le_mod_geq)
qed simp

lemma concat_msb_bits:
  assumes "length Y = 16"
  shows "concat (map msb_bits Y) = map (\<lambda>i. bit (blk Y) (127 - i)) [0..<128]"
proof (rule nth_equalityI)
  show len: "length (concat (map msb_bits Y)) = length (map (\<lambda>i. bit (blk Y) (127 - i)) [0..<128])"
    using assms by (simp add: length_concat comp_def msb_bits_def sum_list_triv)
  fix i assume "i < length (concat (map msb_bits Y))"
  then have i: "i < 128" using len by simp
  have "concat (map msb_bits Y) ! i = msb_bits (Y ! (i div 8)) ! (i mod 8)"
    using i assms nth_concat_blocks [of "map msb_bits Y" 8 i] by (simp add: msb_bits_def less_mult_imp_div_less)
  also have "\<dots> = bit (Y ! (i div 8)) (7 - i mod 8)" by (simp add: msb_bits_def)
  also have "\<dots> = bit (blk Y) (127 - i)"
  proof -
    have "i = 8 * (i div 8) + i mod 8" "i mod 8 < 8" "i div 8 < 16" using i by simp_all
    then have "127 - i = 8 * (15 - i div 8) + (7 - i mod 8)" by linarith
    moreover have "(8 * a + b) div 8 = a" "(8 * a + b) mod 8 = b" if "b < 8" for a b :: nat using that by simp_all
    moreover have "7 - i mod 8 < 8" by simp
    ultimately have "(127 - i) div 8 = 15 - i div 8" "(127 - i) mod 8 = 7 - i mod 8" by metis+
    moreover have "127 - i < 128" "15 - i div 8 < 16" "15 - (15 - i div 8) = i div 8" using i by simp_all
    ultimately show ?thesis using i assms by (simp add: blk_def bit_be_load less_mult_imp_div_less)
  qed
  finally show "concat (map msb_bits Y) ! i = map (\<lambda>i. bit (blk Y) (127 - i)) [0..<128] ! i"
    using i by simp
qed

lemma fold_map_step: "fold gcm_step (map g xs) = fold (\<lambda>i. gcm_step (g i)) xs"
  by (induction xs) simp_all

lemma GMULT_gcm:
  assumes "length X = 16" and "length Y = 16"
  obtains Z where "GMULT cfg X Y = Some Z" and "length Z = 16" and "blk Z = gcm_mul (blk X) (blk Y)"
proof -
  have "blk (replicate 16 0) = 0" by (rule bit_word_eqI) (auto simp: blk_def bit_be_load)
  then show ?thesis
    using GMULT_bytes_bits [of "replicate 16 0" X cfg Y] assms that
    by (auto simp: GMULT_def gcm_mul_def concat_msb_bits fold_map_step)
qed

section \<open>GHASH\<close>

text \<open>
  SP 800-38D, algorithm 2, on the blocks of the padded associated data, the padded ciphertext
  and the two 64-bit lengths in bits.
\<close>

definition ghash :: "128 word \<Rightarrow> byte list list \<Rightarrow> 128 word" where
  "ghash h bs = fold (\<lambda>b y. gcm_mul (y XOR blk b) h) bs 0"

function pad_blocks :: "byte list \<Rightarrow> byte list list" where
  "pad_blocks c = (if c = [] then [] else take 16 (c @ replicate 15 0) # pad_blocks (drop 16 c))"
  by pat_completeness auto
termination
  by (relation "measure length") auto

declare pad_blocks.simps [simp del]

definition length_block :: "nat \<Rightarrow> nat \<Rightarrow> byte list" where
  "length_block a c = be_store 8 (word_of_nat (8 * a) :: u64) @ be_store 8 (word_of_nat (8 * c) :: u64)"


lemma length_pad_block: "c \<noteq> [] \<Longrightarrow> length (take 16 (c @ replicate 15 0)) = 16"
  by (cases c) auto

lemma map2_xor_zero: "length y \<le> n \<Longrightarrow> map2 (XOR) y (replicate n (0 :: byte)) = y"
  by (intro nth_equalityI) simp_all

lemma xorbuf_partial:
  assumes "length x = 16" and "length c < 16" and "c \<noteq> []"
  shows "xorbuf x c (length c) = map2 (XOR) x (take 16 (c @ replicate 15 0))"
proof -
  have "map2 (XOR) (take (length c) x @ drop (length c) x) (c @ replicate (16 - length c) 0) =
    map2 (XOR) (take (length c) x) c @ drop (length c) x"
    using assms map2_xor_zero [of "drop (length c) x" "16 - length c"] by (simp del: append_take_drop_id)
  moreover have "take 16 (c @ replicate 15 0) = c @ replicate (16 - length c) 0"
    using assms by (cases c) (auto simp: min_def)
  ultimately show ?thesis
    using assms xorbuf_map2 [of c "length c" x] by simp
qed

lemma GHASH_blocks_ghash:
  assumes "length h = 16" and "length x = 16"
  shows "\<exists>x'. GHASH_blocks cfg h x c = Some x' \<and> length x' = 16
    \<and> blk x' = fold (\<lambda>b y. gcm_mul (y XOR blk b) (blk h)) (pad_blocks c) (blk x)"
  using assms(2)
proof (induction "length c" arbitrary: c x rule: less_induct)
  case less
  consider "16 \<le> length c" | "c \<noteq> []" "length c < 16" | "c = []" by force
  then show ?case
  proof cases
    case 1
    have len: "length (map2 (XOR) x (take 16 c)) = 16" using less.prems 1 by simp
    obtain z where z: "GMULT cfg (map2 (XOR) x (take 16 c)) h = Some z" "length z = 16"
      "blk z = gcm_mul (blk (map2 (XOR) x (take 16 c))) (blk h)" using GMULT_gcm [OF len assms(1)] .
    have "c \<noteq> []" using 1 by auto
    then show ?thesis
      using less.hyps [of "drop 16 c" z] 1 z less.prems
      by (subst GHASH_blocks.simps, subst pad_blocks.simps)
        (simp add: xorbuf_aligned_map2 blk_def be_load_map2_xor)
  next
    case 2
    let ?p = "take 16 (c @ replicate 15 0)"
    have len: "length (map2 (XOR) x ?p) = 16" using less.prems length_pad_block [OF 2(1)] by simp
    obtain z where z: "GMULT cfg (map2 (XOR) x ?p) h = Some z" "length z = 16"
      "blk z = gcm_mul (blk (map2 (XOR) x ?p)) (blk h)" using GMULT_gcm [OF len assms(1)] .
    have "pad_blocks c = [?p]" using 2 by (subst pad_blocks.simps) (simp add: pad_blocks.simps)
    then show ?thesis
      using 2 z less.prems length_pad_block [OF 2(1)]
      by (subst GHASH_blocks.simps) (simp add: xorbuf_partial blk_def be_load_map2_xor)
  next
    case 3
    then show ?thesis using less.prems by (simp add: GHASH_blocks.simps pad_blocks.simps)
  qed
qed


lemma be_store_halves:
  assumes "n < 2 ^ 32"
  shows "be_store 8 (word_of_nat n :: u64) = replicate 4 0 @ be_store 4 (word_of_nat n :: u32)"
proof (rule nth_equalityI)
  fix i assume "i < length (be_store 8 (word_of_nat n :: u64))"
  then have i: "i < 8" by simp
  show "be_store 8 (word_of_nat n :: u64) ! i = (replicate 4 0 @ be_store 4 (word_of_nat n :: u32)) ! i"
  proof (rule bit_word_eqI)
    fix j assume j: "j < LENGTH(8)"
    have "\<not> bit n m" if "32 \<le> m" for m
    proof -
      have "n < 2 ^ m" using assms that by (meson less_le_trans one_le_numeral power_increasing)
      then show ?thesis by (simp add: bit_iff_odd)
    qed
    then show "bit (be_store 8 (word_of_nat n :: u64) ! i) j = bit ((replicate 4 0 @ be_store 4 (word_of_nat n :: u32)) ! i) j"
      using i j by (cases "i < 4") (auto simp: bit_be_store nth_append bit_of_nat_iff algebra_simps)
  qed
qed simp

lemma xor_P32_map2:
  assumes "length x = 16" and "i < 4"
  shows "xor_P32 i v x = map2 (XOR) x (replicate (4 * i) 0 @ be_store 4 v @ replicate (12 - 4 * i) 0)"
proof -
  let ?a = "take (4 * i) x" and ?b = "take 4 (drop (4 * i) x)" and ?c = "drop (4 * i + 4) x"
  have x: "x = ?a @ ?b @ ?c"
    using append_take_drop_id [of 4 "drop (4 * i) x"] by (simp add: add.commute)
  have b: "le_bytes 4 (le_word ?b XOR bswap32 v) = map2 (XOR) ?b (be_store 4 v)"
    using assms by (simp add: bswap32_def be_store_def le_bytes_xor)
  have "map2 (XOR) (?a @ ?b @ ?c) (replicate (4 * i) 0 @ be_store 4 v @ replicate (12 - 4 * i) 0) =
    ?a @ map2 (XOR) ?b (be_store 4 v) @ ?c"
    using assms map2_xor_zero [of ?a "4 * i"] map2_xor_zero [of ?c "12 - 4 * i"] by (simp del: append_take_drop_id)
  then show ?thesis
    unfolding x [symmetric] using assms b by (simp add: xor_P32_def mem_write_def)
qed

lemma length_block_xor:
  assumes "length x = 16" and "8 * c < 2 ^ 32"
  shows "xor_P32 3 (word_of_nat c * 8) (xor_P32 1 (word_of_nat (aSz * 8)) x) = map2 (XOR) x (length_block aSz c)"
proof -
  have w: "word_of_nat (8 * c) = (word_of_nat c * 8 :: u32)" by simp
  have a: "8 * aSz < 2 ^ 32" by (simp add: aSz_def)
  have m: "map2 (XOR) (map2 (XOR) x y) z = map2 (XOR) x (map2 (XOR) y z)" for x y z :: "byte list"
    by (rule nth_equalityI) (simp_all add: xor.assoc)
  have "replicate 12 (0 :: byte) = replicate 4 0 @ replicate 4 0 @ replicate 4 0" by (simp flip: replicate_add)
  moreover have "map2 (XOR) (replicate 4 0) y = y" if "length y = 4" for y :: "byte list"
    using that by (intro nth_equalityI) simp_all
  ultimately have zero: "map2 (XOR) (replicate 4 0 @ a @ replicate 8 0) (replicate 12 0 @ b) = replicate 4 0 @ a @ replicate 4 0 @ b"
    if "length a = 4" "length b = 4" for a b :: "byte list"
    using that replicate_add [of 4 4 "0 :: byte"] by (simp add: map2_xor_zero)
  show ?thesis
    using assms unfolding length_block_def be_store_halves [OF assms(2)] be_store_halves [OF a] w
    by (simp add: xor_P32_map2 m mult.commute zero)
qed


lemma aesgcm_GHASH_ghash:
  assumes "length h = 16" and "length a = 16" and "8 * length c < 2 ^ 32"
  obtains s where "aesgcm_GHASH cfg h a c = Some s" and "length s = 16"
    and "be_load s = ghash (be_load h) ([a] @ pad_blocks c @ [length_block aSz (length c)])"
proof -
  obtain x1 where 1: "GMULT cfg a h = Some x1" "length x1 = 16" "blk x1 = gcm_mul (blk a) (blk h)"
    using GMULT_gcm [OF assms(2,1)] .
  obtain x2 where 2: "GHASH_blocks cfg h x1 c = Some x2" "length x2 = 16"
    "blk x2 = fold (\<lambda>b y. gcm_mul (y XOR blk b) (blk h)) (pad_blocks c) (blk x1)"
    using GHASH_blocks_ghash [OF assms(1) 1(2)] by blast
  let ?x3 = "map2 (XOR) x2 (length_block aSz (length c))"
  have len: "length (length_block aSz (length c)) = 16" by (simp add: length_block_def)
  then have 3: "length ?x3 = 16" using 2 by simp
  obtain s where 4: "GMULT cfg ?x3 h = Some s" "length s = 16" "blk s = gcm_mul (blk ?x3) (blk h)"
    using GMULT_gcm [OF 3 assms(1)] .
  have b: "blk ?x3 = blk x2 XOR blk (length_block aSz (length c))"
    using 2(2) len by (simp add: blk_def be_load_map2_xor)
  have "be_load s = ghash (be_load h) ([a] @ pad_blocks c @ [length_block aSz (length c)])"
    using 4(3) by (simp add: ghash_def flip: blk_def 1(3) 2(3) b)
  moreover have "aesgcm_GHASH cfg h a c = Some s"
    using 1 2 4 assms(2) length_block_xor [OF 2(2) assms(3)] by (simp add: aesgcm_GHASH_def)
  ultimately show ?thesis using that 4(2) by blast
qed
section \<open>Properties\<close>

text \<open>The five versions of \<^verbatim>\<open>RIGHTSHIFTX\<close> (bytes, and 32- and 64-bit words on targets
  of either endianness) do the same to every block: the multiplication by x of SP 800-38D on the
  128-bit big-endian value, a shift to the right by one bit and, if a bit is lost, an xor with
  E1 in the top byte.\<close>

theorem RIGHTSHIFTX_variants:
  assumes "length x = 16"
  shows "RIGHTSHIFTX cfg x = be_store 16 (gcm_shift (be_load x))"
  using RIGHTSHIFTX_gcm [OF assms, of cfg] be_store_load [of "RIGHTSHIFTX cfg x", where 'a = 128] by simp

theorem RIGHTSHIFTX_variants_witness:
  "RIGHTSHIFTX Shift_le64 (replicate 16 3) = be_store 16 (gcm_shift (be_load (replicate 16 3)))"
  by (rule RIGHTSHIFTX_variants) simp

text \<open>C22: \<^verbatim>\<open>aesgcm_GHASH\<close> returns, and its result is the GHASH of SP 800-38D on the 13 bytes
  of associated data (zero-padded by the caller to a block), the ciphertext padded with zeros to
  whole blocks and the block with the two lengths in bits, for every version of the shift and
  every ciphertext whose length in bits fits the 32-bit counter.\<close>

theorem aesgcm_GHASH_sp800_38d:
  assumes "length h = 16" and "length a = 16" and "8 * length c < 2 ^ 32"
  shows "\<exists>s. aesgcm_GHASH cfg h a c = Some s \<and> length s = 16
    \<and> be_load s = ghash (be_load h) ([a] @ pad_blocks c @ [length_block aSz (length c)])"
  using aesgcm_GHASH_ghash [OF assms, of cfg] by blast

theorem aesgcm_GHASH_sp800_38d_witness:
  "\<exists>s. aesgcm_GHASH Shift_le64 (replicate 16 7) (replicate 13 1 @ replicate 3 0) (replicate 21 9) = Some s \<and> length s = 16
    \<and> be_load s = ghash (be_load (replicate 16 7))
        ([replicate 13 1 @ replicate 3 0] @ pad_blocks (replicate 21 9) @ [length_block aSz 21])"
  using aesgcm_GHASH_sp800_38d [of "replicate 16 7" "replicate 13 1 @ replicate 3 0" "replicate 21 9" Shift_le64] by simp

end
