(* ===== verification/Tls_Hmac.thy ===== *)
theory Tls_Hmac
  imports Hash_Md5_Sha
begin

text \<open>
  HMAC and the TLS pseudorandom function of \<^verbatim>\<open>networking/tls.c\<close>, on top of the hash
  contexts of \<^verbatim>\<open>hash_md5_sha.c\<close>. What the code relies on is the contract
  \<open>streaming_hash\<close>: the two lemmas on nested hashing are proved in it once and used through its
  interpretations for SHA-1 and SHA-256.
\<close>

section \<open>The code\<close>

text \<open>
  The begin functions as the callers see them. The static variable they keep memoises a function
  of the processor, so its value makes no difference (\<open>probe_shaNI_idem\<close>).
\<close>

definition begin_sha256 :: "u32 \<Rightarrow> md5_ctx \<Rightarrow> md5_ctx" where
  "begin_sha256 ebx ctx = fst (sha256_begin ebx 0 ctx)"

definition begin_sha1 :: "u32 \<Rightarrow> md5_ctx \<Rightarrow> md5_ctx" where
  "begin_sha1 ebx ctx = fst (sha1_begin ebx 0 ctx)"

record hmac_precomputed =
  hashed_key_xor_ipad :: md5_ctx
  hashed_key_xor_opad :: md5_ctx

definition SHA_INSIZE :: nat where "SHA_INSIZE = 64"

text \<open>\<open>None\<close> where the program dies with \<^verbatim>\<open>HMAC key>64\<close>.\<close>

definition hmac_begin ::
    "hash_target \<Rightarrow> (md5_ctx \<Rightarrow> md5_ctx) \<Rightarrow> hmac_precomputed \<Rightarrow> byte list \<Rightarrow> hmac_precomputed option" where
  "hmac_begin tgt begin_fn pre key =
     (if length key > SHA_INSIZE then None
      else let key_xor_ipad = map (\<lambda>b. b XOR 0x36) key @ replicate (SHA_INSIZE - length key) 0x36;
               key_xor_opad = map (\<lambda>b. b XOR 0x5c) key @ replicate (SHA_INSIZE - length key) 0x5c
           in Some \<lparr>hashed_key_xor_ipad = md5_hash tgt (begin_fn (hashed_key_xor_ipad pre)) key_xor_ipad,
                    hashed_key_xor_opad = md5_hash tgt (begin_fn (hashed_key_xor_opad pre)) key_xor_opad\<rparr>)"

text \<open>
  \<open>texts\<close> are the pairs of pointer and size up to the \<^verbatim>\<open>NULL\<close>. The result is the context
  pair, the bytes left at \<open>out\<close> and the return value. All texts are read before \<open>out\<close> is
  written, so that a caller may pass \<open>out\<close> among them.
\<close>

definition hmac_sha_precomputed_v ::
    "hash_target \<Rightarrow> hmac_precomputed \<Rightarrow> byte list list \<Rightarrow> hmac_precomputed \<times> byte list \<times> nat" where
  "hmac_sha_precomputed_v tgt pre texts =
     (let ipad = foldl (md5_hash tgt) (hashed_key_xor_ipad pre) texts;
          (ipad, out, len) = sha1_end tgt ipad;
          opad = md5_hash tgt (hashed_key_xor_opad pre) (take len out);
          (opad, out, len) = sha1_end tgt opad
      in (\<lparr>hashed_key_xor_ipad = ipad, hashed_key_xor_opad = opad\<rparr>, out, len))"

text \<open>The copy of the structure leaves the caller's contexts alone.\<close>

definition hmac_sha_precomputed :: "hash_target \<Rightarrow> hmac_precomputed \<Rightarrow> byte list list \<Rightarrow> byte list \<times> nat" where
  "hmac_sha_precomputed tgt pre_init texts = snd (hmac_sha_precomputed_v tgt pre_init texts)"

text \<open>
  \<open>tls_sha1\<close> is \<^verbatim>\<open>ENABLE_FEATURE_TLS_SHA1\<close>; \<open>pre\<close> is the uninitialised local
  structure.
\<close>

definition hmac ::
    "hash_target \<Rightarrow> u32 \<Rightarrow> bool \<Rightarrow> nat \<Rightarrow> hmac_precomputed \<Rightarrow> byte list \<Rightarrow> byte list list \<Rightarrow> (byte list \<times> nat) option" where
  "hmac tgt ebx tls_sha1 MAC_size pre key texts =
     (case hmac_begin tgt (if tls_sha1 \<and> MAC_size = 20 then begin_sha1 ebx else begin_sha256 ebx) pre key of
        None \<Rightarrow> None
      | Some pre \<Rightarrow> Some (snd (hmac_sha_precomputed_v tgt pre texts)))"

text \<open>The loop of \<^verbatim>\<open>prf_hmac_sha256\<close>, with the array \<open>a\<close>; the bytes it stores at \<open>out_p\<close>.\<close>

function prf_loop :: "hash_target \<Rightarrow> hmac_precomputed \<Rightarrow> byte list \<Rightarrow> byte list \<Rightarrow> byte list \<Rightarrow> nat \<Rightarrow> byte list" where
  "prf_loop tgt pre label seed a outbuf_size =
     (if outbuf_size \<le> 32 then
        take outbuf_size (fst (hmac_sha_precomputed tgt pre [take 32 a, label, seed]))
      else fst (hmac_sha_precomputed tgt pre [take 32 a, label, seed])
           @ prf_loop tgt pre label seed (fst (hmac_sha_precomputed tgt pre [take 32 a])) (outbuf_size - 32))"
  by pat_completeness auto
termination
  by (relation "measure (\<lambda>(tgt, pre, label, seed, a, n). n)") auto

declare prf_loop.simps [simp del]

definition prf_hmac_sha256 ::
    "hash_target \<Rightarrow> u32 \<Rightarrow> hmac_precomputed \<Rightarrow> nat \<Rightarrow> byte list \<Rightarrow> byte list \<Rightarrow> byte list \<Rightarrow> byte list option" where
  "prf_hmac_sha256 tgt ebx pre outbuf_size secret label seed =
     (case hmac_begin tgt (begin_sha256 ebx) pre secret of
        None \<Rightarrow> None
      | Some pre \<Rightarrow>
          let a = fst (hmac_sha_precomputed tgt pre [label, seed])
          in Some (prf_loop tgt pre label seed a outbuf_size))"

section \<open>RFC 2104 and RFC 5246\<close>

definition hmac_pad :: "byte \<Rightarrow> byte list \<Rightarrow> byte list" where
  "hmac_pad p key = map (\<lambda>b. b XOR p) (key @ replicate (64 - length key) 0)"

definition rfc2104_hmac :: "(byte list \<Rightarrow> byte list) \<Rightarrow> byte list \<Rightarrow> byte list \<Rightarrow> byte list" where
  "rfc2104_hmac H key m = H (hmac_pad 0x5c key @ H (hmac_pad 0x36 key @ m))"

fun prf_A :: "(byte list \<Rightarrow> byte list) \<Rightarrow> byte list \<Rightarrow> nat \<Rightarrow> byte list" where
  "prf_A mac seed 0 = seed"
| "prf_A mac seed (Suc i) = mac (prf_A mac seed i)"

definition P_hash :: "(byte list \<Rightarrow> byte list) \<Rightarrow> byte list \<Rightarrow> nat \<Rightarrow> byte list" where
  "P_hash mac seed n = concat (map (\<lambda>i. mac (prf_A mac seed (Suc i) @ seed)) [0..<n])"

section \<open>Nested hashing\<close>

context streaming_hash
begin

text \<open>An inner and an outer context, each primed with a block, compute the nested digest.\<close>

lemma nested_digest:
  assumes "rep k1 c1" and "rep k2 c2" and "list_all ok ds" and "ok (digest (k1 @ concat ds))"
  shows "finish (update c2 (finish (foldl update c1 ds))) = digest (k2 @ digest (k1 @ concat ds))"
  using finish_updates [OF assms(3,1)] finish_rep [OF update_rep [OF assms(4,2)]] by simp

end

lemma hmac_pad_code:
  "length key \<le> 64 \<Longrightarrow> map (\<lambda>b. b XOR p) key @ replicate (SHA_INSIZE - length key) p = hmac_pad p key"
  by (simp add: hmac_pad_def SHA_INSIZE_def map_replicate_const)

lemma probe_shaNI_idem: "probe_shaNI ebx (probe_shaNI ebx 0) = probe_shaNI ebx 0"
  by (simp add: probe_shaNI_bit probe_shaNI_def)

definition raw_pre :: "hmac_precomputed \<Rightarrow> bool" where
  "raw_pre pre \<longleftrightarrow>
     length (cx_wbuffer (hashed_key_xor_ipad pre)) = 64 \<and> length (cx_hash (hashed_key_xor_ipad pre)) = 8
     \<and> length (cx_wbuffer (hashed_key_xor_opad pre)) = 64 \<and> length (cx_hash (hashed_key_xor_opad pre)) = 8"

definition primed :: "(byte list \<Rightarrow> md5_ctx \<Rightarrow> bool) \<Rightarrow> byte list \<Rightarrow> hmac_precomputed \<Rightarrow> bool" where
  "primed rep key pre \<longleftrightarrow>
     rep (hmac_pad 0x36 key) (hashed_key_xor_ipad pre) \<and> rep (hmac_pad 0x5c key) (hashed_key_xor_opad pre)"

lemma length_sha256_digest: "length (sha256_digest m) = 32"
proof -
  let ?h = "absorb sha256_process_block64 64 (drop 2 init256) (md_pad 64 (bit_count True m) m)"
  have "length ?h = 8" by (rule length_absorb) (simp_all add: length_sha256_block init256_def)
  then show ?thesis by (simp add: sha256_digest_code length_concat comp_def be_bytes_def sum_list_triv)
qed

lemma length_sha1_digest: "length (sha1_digest m) = 20"
  by (simp add: sha1_digest_def length_concat comp_def be_bytes_def sum_list_triv sha1_absorb(2))

section \<open>HMAC\<close>

lemma hmac_v_result:
  "snd (hmac_sha_precomputed_v tgt pre texts) =
     (let c = foldl (md5_hash tgt) (hashed_key_xor_ipad pre) texts
      in snd (sha1_end tgt (md5_hash tgt (hashed_key_xor_opad pre)
           (take (snd (snd (sha1_end tgt c))) (fst (snd (sha1_end tgt c)))))))"
  by (simp add: hmac_sha_precomputed_v_def Let_def split_def)

text \<open>A hash whose end function is \<^verbatim>\<open>sha1_end\<close> and stores \<open>outsize\<close> bytes.\<close>

locale mac_hash =
  streaming_hash any_piece rep "md5_hash tgt" "\<lambda>c. fst (snd (sha1_end tgt c))" digest
  for rep :: "byte list \<Rightarrow> md5_ctx \<Rightarrow> bool" and tgt :: hash_target and digest :: "byte list \<Rightarrow> byte list" +
  fixes outsize :: nat
  assumes size_rep: "rep m c \<Longrightarrow> snd (snd (sha1_end tgt c)) = outsize"
    and digest_length: "length (digest m) = outsize"
begin

lemma begin_primed:
  assumes "\<And>c. length (cx_wbuffer c) = 64 \<Longrightarrow> length (cx_hash c) = 8 \<Longrightarrow> rep [] (begin_fn c)"
    and "raw_pre pre" and "length key \<le> 64"
  obtains pre' where "hmac_begin tgt begin_fn pre key = Some pre'" and "primed rep key pre'"
proof -
  have upd: "any_piece d \<Longrightarrow> rep m c \<Longrightarrow> rep (m @ d) (md5_hash tgt c d)" for m c d by (rule update_rep)
  show ?thesis
    using that assms(2,3) upd [OF _ assms(1), of "hmac_pad 0x36 key" "hashed_key_xor_ipad pre"]
      upd [OF _ assms(1), of "hmac_pad 0x5c key" "hashed_key_xor_opad pre"]
    by (simp add: hmac_begin_def SHA_INSIZE_def hmac_pad_code [unfolded SHA_INSIZE_def] primed_def raw_pre_def any_piece_def)
qed

lemma precomputed_v:
  assumes "primed rep key pre"
  shows "snd (hmac_sha_precomputed_v tgt pre texts) = (rfc2104_hmac digest key (concat texts), outsize)"
proof -
  have k: "rep (hmac_pad 0x36 key) (hashed_key_xor_ipad pre)" "rep (hmac_pad 0x5c key) (hashed_key_xor_opad pre)"
    using assms by (simp_all add: primed_def)
  note inner = finish_updates [OF all_any_piece k(1), of texts] size_rep [OF updates_rep [OF all_any_piece k(1)], of texts]
  have p: "any_piece x" for x by (simp add: any_piece_def)
  have "fst (snd (hmac_sha_precomputed_v tgt pre texts)) = rfc2104_hmac digest key (concat texts)"
    using nested_digest [OF k all_any_piece p, of texts]
    by (simp add: hmac_v_result rfc2104_hmac_def inner digest_length)
  moreover have "snd (snd (hmac_sha_precomputed_v tgt pre texts)) = outsize"
    using size_rep [OF update_rep [OF p k(2)]] by (simp add: hmac_v_result Let_def)
  ultimately show ?thesis by (simp add: prod_eq_iff)
qed

lemma mac_length: "length (rfc2104_hmac digest key m) = outsize"
  by (simp add: rfc2104_hmac_def digest_length)

end

interpretation mac_sha256: mac_hash "sha256_rep tgt" tgt sha256_digest 32 for tgt
proof unfold_locales
  show "sha256_rep tgt m c \<Longrightarrow> snd (snd (sha1_end tgt c)) = 32" for m c
    by (auto simp: sha256_rep_def ctx_rep_def sha1_end_def Let_def)
qed (rule length_sha256_digest)

interpretation mac_sha1: mac_hash "sha1_rep tgt" tgt sha1_digest 20 for tgt
proof unfold_locales
  show "sha1_rep tgt m c \<Longrightarrow> snd (snd (sha1_end tgt c)) = 20" for m c
    by (auto simp: sha1_rep_def ctx_rep_def sha1_end_def Let_def)
qed (rule length_sha1_digest)

lemma begin_sha256_rep: "sha256_shaNI_ok tgt \<Longrightarrow> length (cx_wbuffer c) = 64 \<Longrightarrow> sha256_rep tgt [] (begin_sha256 ebx c)"
  by (simp add: begin_sha256_def sha256_rep_begin)

lemma begin_sha1_rep:
  "\<not> bit ebx 29 \<Longrightarrow> length (cx_wbuffer c) = 64 \<Longrightarrow> length (cx_hash c) = 8 \<Longrightarrow> sha1_rep tgt [] (begin_sha1 ebx c)"
  by (simp add: begin_sha1_def sha1_rep_begin probe_shaNI_bit)

lemma hmac_sha256_code:
  assumes "sha256_shaNI_ok tgt" and "raw_pre pre" and "length key \<le> 64" and "\<not> (tls_sha1 \<and> MAC_size = 20)"
  shows "hmac tgt ebx tls_sha1 MAC_size pre key texts = Some (rfc2104_hmac sha256_digest key (concat texts), 32)"
proof -
  obtain pre' where "hmac_begin tgt (begin_sha256 ebx) pre key = Some pre'" "primed (sha256_rep tgt) key pre'"
    using mac_sha256.begin_primed [OF begin_sha256_rep [OF assms(1)] assms(2,3)] .
  then show ?thesis using assms(4) by (auto simp: hmac_def mac_sha256.precomputed_v)
qed

lemma hmac_sha1_code:
  assumes "\<not> bit ebx 29" and "raw_pre pre" and "length key \<le> 64"
  shows "hmac tgt ebx True 20 pre key texts = Some (rfc2104_hmac sha1_digest key (concat texts), 20)"
proof -
  obtain pre' where "hmac_begin tgt (begin_sha1 ebx) pre key = Some pre'" "primed (sha1_rep tgt) key pre'"
    using mac_sha1.begin_primed [OF begin_sha1_rep [OF assms(1)] assms(2,3)] .
  then show ?thesis by (simp add: hmac_def mac_sha1.precomputed_v)
qed

section \<open>The pseudorandom function\<close>

lemma P_hash_Suc: "P_hash mac seed (Suc n) = P_hash mac seed n @ mac (prf_A mac seed (Suc n) @ seed)"
  by (simp add: P_hash_def)

lemma length_P_hash: "(\<And>m. length (mac m) = k) \<Longrightarrow> length (P_hash mac seed n) = k * n"
  by (induction n) (simp_all add: P_hash_Suc, simp_all add: P_hash_def)

lemma prf_loop_P_hash:
  assumes "primed (sha256_rep tgt) key pre" and "sz \<le> 32 * n"
  defines "mac \<equiv> rfc2104_hmac sha256_digest key"
  shows "prf_loop tgt pre label seed (prf_A mac (label @ seed) (Suc i)) sz =
    take sz (concat (map (\<lambda>j. mac (prf_A mac (label @ seed) (Suc j) @ label @ seed)) [i..<i + n]))"
  using assms(2)
proof (induction n arbitrary: i sz)
  case 0
  then show ?case
    by (simp add: prf_loop.simps)
next
  case (Suc n)
  have len: "length (mac m) = 32" for m by (simp add: mac_def mac_sha256.mac_length)
  have A: "take 32 (prf_A mac (label @ seed) (Suc i)) = prf_A mac (label @ seed) (Suc i)" by (simp add: len)
  have h: "hmac_sha_precomputed tgt pre texts = (mac (concat texts), 32)" for texts
    using mac_sha256.precomputed_v [OF assms(1)] by (simp add: hmac_sha_precomputed_def mac_def)
  have upt: "[i..<i + Suc n] = i # [Suc i..<Suc i + n]" by (simp add: upt_conv_Cons)
  show ?case
  proof (cases "sz \<le> 32")
    case True
    then show ?thesis unfolding upt by (subst prf_loop.simps) (simp add: A h len)
  next
    case False
    then show ?thesis
      using Suc.IH [of "sz - 32" "Suc i"] Suc.prems unfolding upt
      by (subst prf_loop.simps) (simp add: A h len)
  qed
qed

lemma prf_code:
  assumes "sha256_shaNI_ok tgt" and "raw_pre pre" and "length secret \<le> 64" and "sz \<le> 32 * n"
  shows "prf_hmac_sha256 tgt ebx pre sz secret label seed =
    Some (take sz (P_hash (rfc2104_hmac sha256_digest secret) (label @ seed) n))"
proof -
  obtain pre' where pre': "hmac_begin tgt (begin_sha256 ebx) pre secret = Some pre'" "primed (sha256_rep tgt) secret pre'"
    using mac_sha256.begin_primed [OF begin_sha256_rep [OF assms(1)] assms(2,3)] .
  then show ?thesis
    using prf_loop_P_hash [OF pre'(2) assms(4), of label seed 0] mac_sha256.precomputed_v [OF pre'(2), of "[label, seed]"]
    by (simp add: prf_hmac_sha256_def hmac_sha_precomputed_def P_hash_def)
qed

section \<open>Properties\<close>

text \<open>C26: \<^verbatim>\<open>hmac\<close> is the HMAC of RFC 2104, over SHA-1 where the build has
  \<^verbatim>\<open>FEATURE_TLS_SHA1\<close> and the MAC has 20 bytes and over SHA-256 otherwise, of the
  concatenation of the texts it is given; the return value is the size of the MAC, and a key of
  more than 64 bytes ends the program. For SHA-1 this is on a processor without the SHA
  instructions.\<close>

theorem hmac_rfc2104:
  assumes "sha256_shaNI_ok tgt" and "raw_pre pre" and "tls_sha1 \<and> MAC_size = 20 \<longrightarrow> \<not> bit ebx 29"
  shows "hmac tgt ebx tls_sha1 MAC_size pre key texts =
    (if 64 < length key then None
     else if tls_sha1 \<and> MAC_size = 20 then Some (rfc2104_hmac sha1_digest key (concat texts), 20)
     else Some (rfc2104_hmac sha256_digest key (concat texts), 32))"
proof (cases "64 < length key")
  case True
  then show ?thesis by (simp add: hmac_def hmac_begin_def SHA_INSIZE_def)
next
  case False
  then show ?thesis
    using assms hmac_sha1_code [of ebx pre key tgt texts]
      hmac_sha256_code [of tgt pre key tls_sha1 MAC_size ebx texts] by auto
qed

definition demo_pre :: hmac_precomputed where
  "demo_pre = \<lparr>hashed_key_xor_ipad = demo_ctx, hashed_key_xor_opad = demo_ctx\<rparr>"

lemma raw_demo_pre: "raw_pre demo_pre"
  by (simp add: raw_pre_def demo_pre_def demo_ctx_def)

lemma demo_target_ok: "sha256_shaNI_ok demo_target"
  by (simp add: sha256_shaNI_ok_def demo_target_def)

theorem hmac_rfc2104_witness:
  "hmac demo_target 0 True 20 demo_pre [1, 2, 3] [[4], [5, 6]] = Some (rfc2104_hmac sha1_digest [1, 2, 3] [4, 5, 6], 20)"
  using hmac_rfc2104 [OF demo_target_ok raw_demo_pre, of True 20 0 "[1, 2, 3]" "[[4], [5, 6]]"] by simp

text \<open>C27: \<^verbatim>\<open>prf_hmac_sha256\<close> is the pseudorandom function of RFC 5246: for every output size
  it stores that many bytes of the iterated HMAC-SHA-256 of label and seed, however many
  iterations are computed beyond it.\<close>

theorem prf_rfc5246:
  assumes "sha256_shaNI_ok tgt" and "raw_pre pre" and "length secret \<le> 64" and "outbuf_size \<le> 32 * n"
  shows "prf_hmac_sha256 tgt ebx pre outbuf_size secret label seed =
    Some (take outbuf_size (P_hash (rfc2104_hmac sha256_digest secret) (label @ seed) n))"
  by (rule prf_code [OF assms])

theorem prf_rfc5246_witness:
  "prf_hmac_sha256 demo_target 0 demo_pre 80 (replicate 48 1) [0x6b] [7, 8] =
     Some (take 80 (P_hash (rfc2104_hmac sha256_digest (replicate 48 1)) [0x6b, 7, 8] 3))"
  using prf_rfc5246 [OF demo_target_ok raw_demo_pre, of "replicate 48 1" 80 3 0 "[0x6b]" "[7, 8]"] by simp

end
