(* ===== verification/Tls_Record.thy ===== *)
theory Tls_Record
  imports Tls_Hmac Aes_Fips Tls_Aesgcm
begin

text \<open>
  The sending half of the TLS record layer of \<^verbatim>\<open>networking/tls.c\<close>: the output buffer,
  the records protected by HMAC and AES-CBC, those protected by AES-GCM, and the unprotected
  handshake records. \<open>None\<close> is the end of the program. The bytes of the output buffer are a list
  in which \<^verbatim>\<open>buf\<close> is the position \<open>OUTBUF_PFX\<close>; every \<^verbatim>\<open>xwrite\<close> appends its
  bytes to \<open>tls_sent\<close>.
\<close>

section \<open>State\<close>

text \<open>
  The build and its environment: \<^verbatim>\<open>ENABLE_FEATURE_TLS_SHA1\<close>,
  \<^verbatim>\<open>ALLOW_RSA_NULL_SHA256\<close> (0 in the sources), the version of the GHASH shift, the hash
  code with the processor's feature word, the uninitialised local structure of \<^verbatim>\<open>hmac\<close>,
  and what \<^verbatim>\<open>realloc\<close> leaves in new memory.
\<close>

record tls_env =
  te_tls_sha1 :: bool
  te_allow_null :: bool
  te_shift :: shift_config
  te_target :: hash_target
  te_ebx :: u32
  te_pre :: hmac_precomputed
  te_fresh :: "nat \<Rightarrow> byte"

text \<open>\<^verbatim>\<open>tls_state_t\<close>; of the handshake data the hash context, absent once it is freed.\<close>

record tls_state =
  tls_flags :: u32
  tls_sent :: "byte list list"
  tls_min_encrypted_len_on_read :: nat
  tls_cipher_id :: u16
  tls_MAC_size :: nat
  tls_outbuf :: "byte list"
  tls_inbuf :: "byte list"
  tls_ofs_to_buffered :: nat
  tls_buffered_size :: nat
  tls_hsd :: "md5_ctx option"
  tls_write_seq64_be :: u64
  tls_client_write_MAC_key :: "byte list"
  tls_client_write_IV :: "byte list"
  tls_server_write_IV :: "byte list"
  tls_aes_encrypt :: tls_aes
  tls_aes_decrypt :: tls_aes
  tls_H :: "byte list"

definition TLS_MAJ :: byte where "TLS_MAJ = 3"
definition TLS_MIN :: byte where "TLS_MIN = 3"
definition RECORD_TYPE_ALERT :: byte where "RECORD_TYPE_ALERT = 21"
definition RECORD_TYPE_HANDSHAKE :: byte where "RECORD_TYPE_HANDSHAKE = 22"
definition RECORD_TYPE_APPLICATION_DATA :: byte where "RECORD_TYPE_APPLICATION_DATA = 23"
definition TLS_RSA_WITH_NULL_SHA256 :: u16 where "TLS_RSA_WITH_NULL_SHA256 = 0x003B"
definition AES_BLOCK_SIZE :: nat where "AES_BLOCK_SIZE = 16"
definition TLS_MAX_OUTBUF :: nat where "TLS_MAX_OUTBUF = 16384"
definition RECHDR_LEN :: nat where "RECHDR_LEN = 5"
definition OUTBUF_PFX :: nat where "OUTBUF_PFX = 8 + AES_BLOCK_SIZE"
definition OUTBUF_SFX :: nat where "OUTBUF_SFX = 32 + 16"
definition ENCRYPTION_AESGCM :: u32 where "ENCRYPTION_AESGCM = push_bit 5 1"
definition ENCRYPT_ON_WRITE :: u32 where "ENCRYPT_ON_WRITE = push_bit 6 1"

lemmas tls_consts = TLS_MAJ_def TLS_MIN_def RECORD_TYPE_ALERT_def RECORD_TYPE_HANDSHAKE_def
  RECORD_TYPE_APPLICATION_DATA_def TLS_RSA_WITH_NULL_SHA256_def AES_BLOCK_SIZE_def TLS_MAX_OUTBUF_def
  RECHDR_LEN_def OUTBUF_PFX_def OUTBUF_SFX_def

text \<open>The five bytes of \<^verbatim>\<open>struct record_hdr\<close>.\<close>

definition record_hdr :: "byte \<Rightarrow> nat \<Rightarrow> byte list" where
  "record_hdr type sz = [type, TLS_MAJ, TLS_MIN, word_of_nat (sz div 256), word_of_nat (sz mod 256)]"

definition TLS_MAC_SIZE :: "tls_env \<Rightarrow> tls_state \<Rightarrow> nat" where
  "TLS_MAC_SIZE env tls = (if te_tls_sha1 env then tls_MAC_size tls else 32)"

section \<open>The output buffer\<close>

definition tls_free_outbuf :: "tls_state \<Rightarrow> tls_state" where
  "tls_free_outbuf tls = tls\<lparr>tls_outbuf := []\<rparr>"

definition tls_get_outbuf :: "tls_env \<Rightarrow> tls_state \<Rightarrow> nat \<Rightarrow> tls_state option" where
  "tls_get_outbuf env tls len =
     (if len > TLS_MAX_OUTBUF then None
      else let len = len + OUTBUF_PFX + OUTBUF_SFX;
               old = length (tls_outbuf tls)
           in Some (if old < len
                    then tls\<lparr>tls_outbuf := tls_outbuf tls @ map (te_fresh env) [old..<len]\<rparr>
                    else tls))"

definition tls_get_zeroed_outbuf :: "tls_env \<Rightarrow> tls_state \<Rightarrow> nat \<Rightarrow> tls_state option" where
  "tls_get_zeroed_outbuf env tls len =
     map_option (\<lambda>tls. tls\<lparr>tls_outbuf := mem_write (tls_outbuf tls) OUTBUF_PFX (replicate len 0)\<rparr>)
       (tls_get_outbuf env tls len)"

definition xwrite :: "byte list \<Rightarrow> tls_state \<Rightarrow> tls_state" where
  "xwrite bs tls = tls\<lparr>tls_sent := tls_sent tls @ [bs]\<rparr>"

definition mem_read :: "byte list \<Rightarrow> nat \<Rightarrow> nat \<Rightarrow> byte list" where
  "mem_read buf off len = take len (drop off buf)"

section \<open>Records with HMAC and AES-CBC\<close>

text \<open>The loop that stores the padding: \<open>buf[size++] = padding_length\<close> until \<open>(size & 15) == 0\<close>.\<close>

function pad_loop :: "byte \<Rightarrow> byte list \<Rightarrow> nat \<Rightarrow> byte list \<times> nat" where
  "pad_loop padding_length outbuf sz =
     (let outbuf = outbuf[OUTBUF_PFX + sz := padding_length]; sz = sz + 1
      in if sz mod 16 \<noteq> 0 then pad_loop padding_length outbuf sz else (outbuf, sz))"
  by pat_completeness auto
termination
proof (relation "measure (\<lambda>(p, outbuf, sz). 16 - sz mod 16)")
  fix p :: byte and outbuf :: "byte list" and sz x xa
  assume "x = outbuf[OUTBUF_PFX + sz := p]" and "xa = sz + 1" and "xa mod 16 \<noteq> (0 :: nat)"
  moreover have "sz mod 16 < 16" by simp
  ultimately show "((p, x, xa), (p, outbuf, sz)) \<in> measure (\<lambda>(p, outbuf, sz). 16 - sz mod 16)"
    by (auto simp: mod_Suc split: if_splits)
qed simp

declare pad_loop.simps [simp del]

text \<open>\<open>iv\<close> is what \<^verbatim>\<open>tls_get_random\<close> delivers.\<close>

definition xwrite_encrypted_and_hmac_signed ::
    "tls_env \<Rightarrow> byte list \<Rightarrow> tls_state \<Rightarrow> nat \<Rightarrow> byte \<Rightarrow> tls_state option" where
  "xwrite_encrypted_and_hmac_signed env iv tls sz type =
     (let null = (te_allow_null env \<and> tls_cipher_id tls = TLS_RSA_WITH_NULL_SHA256);
          xhdr = (if null then OUTBUF_PFX - RECHDR_LEN else OUTBUF_PFX - RECHDR_LEN - AES_BLOCK_SIZE);
          outbuf = mem_write (tls_outbuf tls) xhdr (record_hdr type sz)
      in case hmac (te_target env) (te_ebx env) (te_tls_sha1 env) (tls_MAC_size tls) (te_pre env)
                (take (TLS_MAC_SIZE env tls) (tls_client_write_MAC_key tls))
                [le_bytes 8 (tls_write_seq64_be tls), mem_read outbuf xhdr RECHDR_LEN, mem_read outbuf OUTBUF_PFX sz] of
           None \<Rightarrow> None
         | Some (mac, len) \<Rightarrow>
             let outbuf = mem_write outbuf (OUTBUF_PFX + sz) (take len mac);
                 tls = tls\<lparr>tls_write_seq64_be := bswap64 (1 + bswap64 (tls_write_seq64_be tls))\<rparr>;
                 sz = sz + TLS_MAC_SIZE env tls
             in if null then
                  let outbuf = mem_write outbuf xhdr (record_hdr type sz)
                  in Some (xwrite (mem_read outbuf xhdr (RECHDR_LEN + sz)) (tls\<lparr>tls_outbuf := outbuf\<rparr>))
                else
                  let outbuf = mem_write outbuf (OUTBUF_PFX - AES_BLOCK_SIZE) iv;
                      padding_length = ucast ((NOT (word_of_nat sz) :: u32) AND word_of_nat (AES_BLOCK_SIZE - 1));
                      (outbuf, sz) = pad_loop padding_length outbuf sz
                  in case aes_cbc_encrypt (tls_aes_encrypt tls)
                            (mem_read outbuf (OUTBUF_PFX - AES_BLOCK_SIZE) AES_BLOCK_SIZE) (mem_read outbuf OUTBUF_PFX sz) of
                       None \<Rightarrow> None
                     | Some ct \<Rightarrow>
                         let outbuf = mem_write outbuf OUTBUF_PFX ct;
                             sz = sz + AES_BLOCK_SIZE;
                             outbuf = mem_write outbuf xhdr (record_hdr type sz)
                         in Some (xwrite (mem_read outbuf xhdr (RECHDR_LEN + sz)) (tls\<lparr>tls_outbuf := outbuf\<rparr>)))"

section \<open>Records with AES-GCM\<close>

text \<open>The nonce block: twelve bytes and \<open>COUNTER(nonce) = htonl(cnt)\<close>.\<close>

definition nonce_block :: "byte list \<Rightarrow> nat \<Rightarrow> byte list" where
  "nonce_block nonce cnt = nonce @ le_bytes 4 (bswap32 (word_of_nat cnt))"

text \<open>
  The loop over the content, given the bytes from \<^verbatim>\<open>buf\<close> on that remain; the bytes it leaves
  there.
\<close>

function gcm_encrypt_loop :: "tls_aes \<Rightarrow> byte list \<Rightarrow> nat \<Rightarrow> byte list \<Rightarrow> byte list" where
  "gcm_encrypt_loop aes nonce cnt buf =
     (if length buf \<noteq> 0 then
        let cnt = cnt + 1;
            scratch = aes_encrypt_one_block aes (nonce_block nonce cnt);
            n = (if length buf > AES_BLOCK_SIZE then AES_BLOCK_SIZE else length buf)
        in xorbuf (take n buf) scratch n @ gcm_encrypt_loop aes nonce cnt (drop n buf)
      else [])"
  by pat_completeness auto
termination
  by (relation "measure (\<lambda>(aes, nonce, cnt, buf). length buf)") (auto simp: AES_BLOCK_SIZE_def)

declare gcm_encrypt_loop.simps [simp del]

definition xwrite_encrypted_aesgcm :: "tls_env \<Rightarrow> tls_state \<Rightarrow> nat \<Rightarrow> byte \<Rightarrow> tls_state option" where
  "xwrite_encrypted_aesgcm env tls sz type =
     (let xhdr = OUTBUF_PFX - 8 - RECHDR_LEN;
          t64 = tls_write_seq64_be tls;
          aad = le_bytes 8 t64 @ [type, TLS_MAJ, TLS_MIN, word_of_nat (sz div 256)]
                @ le_bytes 4 (word_of_nat (sz mod 256) :: u32);
          nonce = take 4 (tls_client_write_IV tls) @ le_bytes 8 t64;
          outbuf = mem_write (tls_outbuf tls) xhdr [type];
          outbuf = mem_write outbuf (OUTBUF_PFX - 8) (le_bytes 8 t64);
          tls = tls\<lparr>tls_write_seq64_be := bswap64 (1 + bswap64 t64)\<rparr>;
          outbuf = mem_write outbuf OUTBUF_PFX
                     (gcm_encrypt_loop (tls_aes_encrypt tls) nonce 1 (mem_read outbuf OUTBUF_PFX sz))
      in case aesgcm_GHASH (te_shift env) (tls_H tls) aad (mem_read outbuf OUTBUF_PFX sz) of
           None \<Rightarrow> None
         | Some authtag \<Rightarrow>
             let scratch = aes_encrypt_one_block (tls_aes_encrypt tls) (nonce_block nonce 1);
                 authtag = xorbuf_aligned_AES_BLOCK_SIZE authtag scratch;
                 outbuf = mem_write outbuf (OUTBUF_PFX + sz) authtag;
                 sz = sz + (8 + AES_BLOCK_SIZE);
                 outbuf = mem_write outbuf (xhdr + 1) (tl (record_hdr type sz));
                 sz = sz + RECHDR_LEN
             in Some (xwrite (mem_read outbuf xhdr sz) (tls\<lparr>tls_outbuf := outbuf\<rparr>)))"

section \<open>Choice of the protection\<close>

definition xwrite_encrypted :: "tls_env \<Rightarrow> byte list \<Rightarrow> tls_state \<Rightarrow> nat \<Rightarrow> byte \<Rightarrow> tls_state option" where
  "xwrite_encrypted env iv tls sz type =
     (if tls_flags tls AND ENCRYPTION_AESGCM = 0 then xwrite_encrypted_and_hmac_signed env iv tls sz type
      else xwrite_encrypted_aesgcm env tls sz type)"

definition xwrite_handshake_record :: "tls_state \<Rightarrow> nat \<Rightarrow> tls_state" where
  "xwrite_handshake_record tls sz =
     (let xhdr = OUTBUF_PFX - RECHDR_LEN;
          outbuf = mem_write (tls_outbuf tls) xhdr (record_hdr RECORD_TYPE_HANDSHAKE sz)
      in xwrite (mem_read outbuf xhdr (RECHDR_LEN + sz)) (tls\<lparr>tls_outbuf := outbuf\<rparr>))"

text \<open>\<open>None\<close> where the handshake data was freed and the pointer is null.\<close>

definition hash_handshake :: "tls_env \<Rightarrow> tls_state \<Rightarrow> byte list \<Rightarrow> tls_state option" where
  "hash_handshake env tls buffer =
     map_option (\<lambda>ctx. tls\<lparr>tls_hsd := Some (md5_hash (te_target env) ctx buffer)\<rparr>) (tls_hsd tls)"

definition xwrite_and_update_handshake_hash ::
    "tls_env \<Rightarrow> byte list \<Rightarrow> tls_state \<Rightarrow> nat \<Rightarrow> tls_state option" where
  "xwrite_and_update_handshake_hash env iv tls sz =
     (if tls_flags tls AND ENCRYPT_ON_WRITE = 0 then
        let tls = xwrite_handshake_record tls sz
        in hash_handshake env tls (mem_read (tls_outbuf tls) OUTBUF_PFX sz)
      else xwrite_encrypted env iv tls sz RECORD_TYPE_HANDSHAKE)"

definition tls_xwrite :: "tls_env \<Rightarrow> byte list \<Rightarrow> tls_state \<Rightarrow> nat \<Rightarrow> tls_state option" where
  "tls_xwrite env iv tls len = xwrite_encrypted env iv tls len RECORD_TYPE_APPLICATION_DATA"

section \<open>Reads after writes\<close>

lemma mem_read_write_same:
  "off + length xs \<le> length buf \<Longrightarrow> mem_read (mem_write buf off xs) off (length xs) = xs"
  by (simp add: mem_read_def mem_write_def)

lemma mem_read_write_after:
  "off + length xs \<le> a \<Longrightarrow> a \<le> length buf \<Longrightarrow> mem_read (mem_write buf off xs) a n = mem_read buf a n"
  by (simp add: mem_read_def mem_write_def)

lemma mem_read_write_before:
  "a + n \<le> off \<Longrightarrow> off + length xs \<le> length buf \<Longrightarrow> mem_read (mem_write buf off xs) a n = mem_read buf a n"
  by (intro nth_equalityI) (auto simp: mem_read_def mem_write_def nth_append)

lemma mem_read_append:
  "mem_read buf a (m + n) = mem_read buf a m @ mem_read buf (a + m) n"
  by (simp add: mem_read_def take_add add.commute)

lemma length_mem_read [simp]: "a + n \<le> length buf \<Longrightarrow> length (mem_read buf a n) = n"
  by (simp add: mem_read_def)

lemma length_record_hdr [simp]: "length (record_hdr type sz) = 5"
  by (simp add: record_hdr_def)

lemma mem_write_append:
  "off + length xs \<le> length buf \<Longrightarrow>
   mem_write (mem_write buf off xs) (off + length xs) ys = mem_write buf off (xs @ ys)"
  by (simp add: mem_write_def add.assoc add.left_commute add.commute)

lemma pad_loop_spec:
  assumes "OUTBUF_PFX + sz + (16 - sz mod 16) \<le> length buf"
  shows "pad_loop p buf sz = (mem_write buf (OUTBUF_PFX + sz) (replicate (16 - sz mod 16) p), sz + (16 - sz mod 16))"
  using assms
proof (induction p buf sz rule: pad_loop.induct)
  case (1 p buf sz)
  have upd: "buf[OUTBUF_PFX + sz := p] = mem_write buf (OUTBUF_PFX + sz) [p]"
    using 1(2) by (simp add: mem_write_def upd_conv_take_nth_drop)
  show ?case
  proof (cases "(sz + 1) mod 16 = 0")
    case True
    then have "16 - sz mod 16 = 1" by (simp add: mod_Suc split: if_splits)
    then show ?thesis using True by (subst pad_loop.simps) (simp add: upd)
  next
    case False
    then have k: "16 - sz mod 16 = Suc (16 - (sz + 1) mod 16)" by (auto simp: mod_Suc split: if_splits)
    have "pad_loop p buf sz = pad_loop p (buf[OUTBUF_PFX + sz := p]) (sz + 1)"
      using False by (subst pad_loop.simps) simp
    also have "\<dots> = (mem_write (buf[OUTBUF_PFX + sz := p]) (OUTBUF_PFX + (sz + 1)) (replicate (16 - (sz + 1) mod 16) p),
        (sz + 1) + (16 - (sz + 1) mod 16))"
      using 1(1) [OF refl refl] False 1(2) k by simp
    also have "mem_write (buf[OUTBUF_PFX + sz := p]) (OUTBUF_PFX + (sz + 1)) (replicate (16 - (sz + 1) mod 16) p)
        = mem_write buf (OUTBUF_PFX + sz) (replicate (16 - sz mod 16) p)"
      using mem_write_append [of "OUTBUF_PFX + sz" "[p]" buf "replicate (16 - (sz + 1) mod 16) p"] 1(2) k
      by (simp add: upd)
    finally show ?thesis using k by simp
  qed
qed

lemma padding_length_value: "ucast ((NOT (word_of_nat sz) :: u32) AND word_of_nat (AES_BLOCK_SIZE - 1)) = (word_of_nat (15 - sz mod 16) :: byte)"
proof -
  have "word_of_nat (AES_BLOCK_SIZE - 1) = (mask 4 :: u32)" by (simp add: AES_BLOCK_SIZE_def mask_eq_exp_minus_1)
  then have "(NOT (word_of_nat sz) :: u32) AND word_of_nat (AES_BLOCK_SIZE - 1) = take_bit 4 (NOT (word_of_nat sz))"
    by (simp add: take_bit_eq_mask)
  also have "\<dots> = mask 4 - take_bit 4 (word_of_nat sz)"
    by (simp add: take_bit_not_eq_mask_diff)
  also have "take_bit 4 (word_of_nat sz :: u32) = word_of_nat (sz mod 16)"
    using take_bit_of_nat [of 4 sz, where 'a = "32 word"] take_bit_eq_mod [of 4 sz] by simp
  also have "mask 4 - word_of_nat (sz mod 16) = (word_of_nat (15 - sz mod 16) :: u32)"
    by (simp add: mask_eq_exp_minus_1 of_nat_diff)
  finally have "(NOT (word_of_nat sz) :: u32) AND word_of_nat (AES_BLOCK_SIZE - 1) = word_of_nat (15 - sz mod 16)" .
  moreover have "ucast (word_of_nat m :: u32) = (word_of_nat m :: byte)" if "m < 16" for m
    using that by (simp add: unsigned_of_nat take_bit_nat_eq_self)
  moreover have "15 - sz mod 16 < 16" by simp
  ultimately show ?thesis by (simp only:)
qed

text \<open>The fragment a CBC record carries: content, MAC and padding.\<close>

definition cbc_plain :: "byte list \<Rightarrow> byte list \<Rightarrow> byte list" where
  "cbc_plain content mac =
     (let k = 16 - (length content + length mac) mod 16
      in content @ mac @ replicate k (word_of_nat (k - 1)))"

lemma length_cbc_plain: "length (cbc_plain content mac) mod 16 = 0"
proof -
  define n where "n = length content + length mac"
  have "(n + (16 - n mod 16)) mod 16 = 0"
    by (metis le_add_diff_inverse mod_add_left_eq mod_less_divisor mod_self nat_less_le zero_less_numeral)
  then show ?thesis by (simp add: cbc_plain_def Let_def n_def add.assoc)
qed

definition record_mac :: "tls_env \<Rightarrow> tls_state \<Rightarrow> byte \<Rightarrow> byte list \<Rightarrow> byte list" where
  "record_mac env tls type content =
     (if te_tls_sha1 env \<and> tls_MAC_size tls = 20 then rfc2104_hmac sha1_digest else rfc2104_hmac sha256_digest)
       (take (TLS_MAC_SIZE env tls) (tls_client_write_MAC_key tls))
       (le_bytes 8 (tls_write_seq64_be tls) @ record_hdr type (length content) @ content)"

text \<open>What the handshake establishes for the sending side.\<close>

definition cbc_ready :: "tls_env \<Rightarrow> tls_state \<Rightarrow> byte list \<Rightarrow> bool" where
  "cbc_ready env tls key \<longleftrightarrow>
     sha256_shaNI_ok (te_target env) \<and> raw_pre (te_pre env)
     \<and> length key \<in> {16, 24, 32} \<and> tls_aes_encrypt tls = aes_setkey key
     \<and> (if te_tls_sha1 env then tls_MAC_size tls \<in> {20, 32} else True)
     \<and> (te_tls_sha1 env \<and> tls_MAC_size tls = 20 \<longrightarrow> \<not> bit (te_ebx env) 29)
     \<and> length (tls_client_write_MAC_key tls) = 32"

lemma record_mac_hmac:
  assumes "cbc_ready env tls key"
  shows "hmac (te_target env) (te_ebx env) (te_tls_sha1 env) (tls_MAC_size tls) (te_pre env)
      (take (TLS_MAC_SIZE env tls) (tls_client_write_MAC_key tls))
      [le_bytes 8 (tls_write_seq64_be tls), record_hdr type (length content), content]
    = Some (record_mac env tls type content, TLS_MAC_SIZE env tls)"
    and "length (record_mac env tls type content) = TLS_MAC_SIZE env tls"
    and "TLS_MAC_SIZE env tls \<le> 32"
  using assms hmac_sha1_code [of "te_ebx env" "te_pre env" _ "te_target env"]
    hmac_sha256_code [of "te_target env" "te_pre env" _ "te_tls_sha1 env" "tls_MAC_size tls" "te_ebx env"]
  by (auto simp: cbc_ready_def record_mac_def TLS_MAC_SIZE_def mac_sha1.mac_length mac_sha256.mac_length)

lemma cbc_record:
  fixes type :: byte
  assumes ready: "cbc_ready env tls key" and content: "mem_read (tls_outbuf tls) OUTBUF_PFX sz = content"
    and fits: "OUTBUF_PFX + sz + OUTBUF_SFX \<le> length (tls_outbuf tls)" and iv: "length iv = 16"
    and nn: "\<not> (te_allow_null env \<and> tls_cipher_id tls = TLS_RSA_WITH_NULL_SHA256)"
  defines "plain \<equiv> cbc_plain content (record_mac env tls type content)"
  shows "\<exists>ct outbuf'. aes_cbc_encrypt (aes_setkey key) iv plain = Some ct \<and> length ct = length plain
    \<and> length outbuf' = length (tls_outbuf tls)
    \<and> xwrite_encrypted_and_hmac_signed env iv tls sz type =
        Some (tls\<lparr>tls_write_seq64_be := bswap64 (1 + bswap64 (tls_write_seq64_be tls)), tls_outbuf := outbuf',
          tls_sent := tls_sent tls @ [record_hdr type (length plain + 16) @ iv @ ct]\<rparr>)"
proof -
  let ?mac = "record_mac env tls type content"
  let ?m = "TLS_MAC_SIZE env tls"
  let ?b = "tls_outbuf tls"
  have pfx: "OUTBUF_PFX = 24" "OUTBUF_SFX = 48" by (simp_all add: tls_consts)
  have sz: "length content = sz" using content fits by (auto simp: mem_read_def)
  note mac = record_mac_hmac(1,2) [OF ready, of type content] record_mac_hmac(3) [OF ready]
  define b1 where "b1 = mem_write ?b 3 (record_hdr type sz)"
  have b1: "length b1 = length ?b" "mem_read b1 3 5 = record_hdr type sz" "mem_read b1 24 sz = content"
    using fits content pfx unfolding b1_def
    by (simp_all add: mem_read_write_same [of 3 "record_hdr type sz" ?b, simplified] mem_read_write_after)
  define b2 where "b2 = mem_write b1 (24 + sz) ?mac"
  have b2: "length b2 = length ?b" "mem_read b2 24 (sz + ?m) = content @ ?mac"
    using fits pfx b1 mac(2,3) mem_read_write_same [of "24 + sz" ?mac b1]
    unfolding b2_def by (simp_all add: mem_read_append mem_read_write_before)
  define b3 where "b3 = mem_write b2 8 iv"
  have b3: "length b3 = length ?b" "mem_read b3 24 (sz + ?m) = content @ ?mac" "mem_read b3 8 16 = iv"
    using fits pfx b2 iv mem_read_write_same [of 8 iv b2] unfolding b3_def by (simp_all add: mem_read_write_after)
  define k where "k = 16 - (sz + ?m) mod 16"
  define p where "p = (word_of_nat (15 - (sz + ?m) mod 16) :: byte)"
  have p: "p = word_of_nat (k - 1)" by (simp add: p_def k_def)
  have plain: "plain = content @ ?mac @ replicate k p"
    using mac(2) sz by (simp add: plain_def cbc_plain_def Let_def p k_def)
  define b4 where "b4 = mem_write b3 (24 + (sz + ?m)) (replicate k p)"
  have k: "24 + (sz + ?m) + k \<le> length ?b" using fits pfx mac(3) by (simp add: k_def)
  have b4: "length b4 = length ?b" "mem_read b4 24 (sz + ?m + k) = plain" "mem_read b4 8 16 = iv"
    using k b3 mem_read_write_same [of "24 + (sz + ?m)" "replicate k p" b3] unfolding b4_def plain
    by (simp_all add: mem_read_append [of _ 24 "sz + ?m" k] mem_read_write_before)
  have pad: "pad_loop p b3 (sz + ?m) = (b4, sz + ?m + k)"
    using pad_loop_spec [of "sz + ?m" b3 p] k b3(1) by (simp add: pfx b4_def k_def add.assoc)
  have len: "length plain = sz + ?m + k" using sz mac(2) by (simp add: plain)
  have key: "length key \<in> {16, 24, 32}" "tls_aes_encrypt tls = aes_setkey key" using ready by (simp_all add: cbc_ready_def)
  have mod: "length plain mod 16 = 0" by (simp add: plain_def length_cbc_plain)
  obtain ct where ct: "aes_cbc_encrypt (aes_setkey key) iv plain = Some ct" "length ct = length plain"
    using cbc_total [OF key(1) iv mod] by metis
  define b5 where "b5 = mem_write (mem_write b4 24 ct) 3 (record_hdr type (length plain + 16))"
  have fit: "24 + length ct \<le> length b4" using k len b4(1) ct(2) by simp
  have w: "length (mem_write b4 24 ct) = length ?b" "mem_read (mem_write b4 24 ct) 24 (length ct) = ct"
    "mem_read (mem_write b4 24 ct) 8 16 = iv"
    using fit b4 by (simp_all add: mem_read_write_same mem_read_write_before)
  have "mem_read b5 3 5 = record_hdr type (length plain + 16)" "mem_read b5 8 16 = iv" "mem_read b5 24 (length ct) = ct"
    using w fit b4(1) mem_read_write_same [of 3 "record_hdr type (length plain + 16)" "mem_write b4 24 ct"]
    unfolding b5_def by (simp_all add: mem_read_write_after)
  then have b5: "length b5 = length ?b" "mem_read b5 3 (5 + (length plain + 16)) = record_hdr type (length plain + 16) @ iv @ ct"
    using w fit b4(1) mem_read_append [of b5 3 5 "16 + length plain"] mem_read_append [of b5 8 16 "length plain"] ct(2)
    by (simp_all add: b5_def add.commute)
  have c: "OUTBUF_PFX - RECHDR_LEN - AES_BLOCK_SIZE = 3" "OUTBUF_PFX - AES_BLOCK_SIZE = 8" by (simp_all add: tls_consts)
  have m': "TLS_MAC_SIZE env (tls\<lparr>tls_write_seq64_be := s\<rparr>) = ?m" for s by (simp add: TLS_MAC_SIZE_def)
  have null: "(te_allow_null env \<and> tls_cipher_id tls = TLS_RSA_WITH_NULL_SHA256) = False" using nn by simp
  have "xwrite_encrypted_and_hmac_signed env iv tls sz type =
        Some (tls\<lparr>tls_write_seq64_be := bswap64 (1 + bswap64 (tls_write_seq64_be tls)), tls_outbuf := b5,
          tls_sent := tls_sent tls @ [record_hdr type (length plain + 16) @ iv @ ct]\<rparr>)"
    unfolding xwrite_encrypted_and_hmac_signed_def null Let_def if_False
    unfolding c unfolding m' pfx(1) RECHDR_LEN_def
    using mac(1,2) sz b1(2,3) b4(2,3) pad ct b5 key(2) len padding_length_value [of "sz + ?m", folded p_def]
    by (simp add: xwrite_def flip: b1_def) (simp add: AES_BLOCK_SIZE_def b5_def xwrite_def flip: b2_def b3_def)
  then show ?thesis using ct b5(1) by blast
qed

section \<open>AES-GCM records\<close>

lemma length_aes_block:
  assumes "length key \<in> {16, 24, 32}" and "length data = 16"
  shows "length (aes_encrypt_one_block (aes_setkey key) data) = 16"
  using aes_block_fips [OF assms] setkey_encrypt(3) [OF assms] by simp

text \<open>The keystream of the counter mode of SP 800-38D, from counter value \<open>cnt + 1\<close> on.\<close>

definition gcm_keystream :: "byte list \<Rightarrow> byte list \<Rightarrow> nat \<Rightarrow> nat \<Rightarrow> byte list" where
  "gcm_keystream key nonce cnt n =
     concat (map (\<lambda>i. aes_encrypt_one_block (aes_setkey key) (nonce_block nonce (cnt + 1 + i))) [0..<n])"

lemma length_nonce_block: "length nonce = 12 \<Longrightarrow> length (nonce_block nonce cnt) = 16"
  by (simp add: nonce_block_def)

lemma gcm_keystream_Suc:
  "gcm_keystream key nonce cnt (Suc n) =
     aes_encrypt_one_block (aes_setkey key) (nonce_block nonce (cnt + 1)) @ gcm_keystream key nonce (cnt + 1) n"
proof -
  have "[0..<Suc n] = 0 # map Suc [0..<n]" by (simp add: map_Suc_upt upt_conv_Cons)
  then show ?thesis by (simp add: gcm_keystream_def comp_def)
qed

lemma gcm_encrypt_loop_ctr:
  assumes key: "length key \<in> {16, 24, 32}" "length nonce = 12" and "length buf \<le> 16 * n"
  shows "gcm_encrypt_loop (aes_setkey key) nonce cnt buf = map2 (XOR) buf (gcm_keystream key nonce cnt n)"
  using assms(3)
proof (induction n arbitrary: cnt buf)
  case 0
  then show ?case by (simp add: gcm_encrypt_loop.simps)
next
  case (Suc n)
  let ?s = "aes_encrypt_one_block (aes_setkey key) (nonce_block nonce (cnt + 1))"
  have s: "length ?s = 16" using length_aes_block [OF key(1) length_nonce_block [OF key(2)]] .
  define m where "m = min 16 (length buf)"
  have x: "xorbuf (take m buf) ?s m = map2 (XOR) (take m buf) ?s"
  proof -
    have "xorbuf (take m buf) ?s m = xorbuf (take m buf) (take m ?s) m"
      unfolding xorbuf_def by (subst xorbuf3_take) (simp add: xorbuf3_take [of _ _ "take m ?s"])
    also have "\<dots> = map2 (XOR) (take m buf) (take m ?s)"
      using s by (simp add: xorbuf_map2 m_def)
    also have "\<dots> = map2 (XOR) (take m buf) ?s"
      by (rule nth_equalityI) (auto simp: s m_def)
    finally show ?thesis .
  qed
  show ?case
  proof (cases "buf = []")
    case True
    then show ?thesis by (simp add: gcm_encrypt_loop.simps)
  next
    case False
    have m: "(if length buf > AES_BLOCK_SIZE then AES_BLOCK_SIZE else length buf) = m"
      by (simp add: m_def AES_BLOCK_SIZE_def)
    have "gcm_encrypt_loop (aes_setkey key) nonce cnt buf =
        xorbuf (take m buf) ?s m @ gcm_encrypt_loop (aes_setkey key) nonce (cnt + 1) (drop m buf)"
      by (subst gcm_encrypt_loop.simps) (use False in \<open>simp add: Let_def flip: m\<close>)
    also have "\<dots> = map2 (XOR) (take m buf) ?s @ map2 (XOR) (drop m buf) (gcm_keystream key nonce (cnt + 1) n)"
      using Suc.IH [of "drop m buf" "cnt + 1"] Suc.prems x by (simp add: m_def)
    also have "\<dots> = map2 (XOR) buf (?s @ gcm_keystream key nonce (cnt + 1) n)"
    proof (cases "length buf < 16")
      case True
      then have "m = length buf" by (simp add: m_def)
      then show ?thesis using True s by (simp add: zip_append2)
    next
      case False
      then have "m = 16" by (simp add: m_def)
      then show ?thesis using False s by (simp add: zip_append2)
    qed
    finally show ?thesis by (simp add: gcm_keystream_Suc)
  qed
qed

definition gcm_aad :: "tls_state \<Rightarrow> byte \<Rightarrow> nat \<Rightarrow> byte list" where
  "gcm_aad tls type n = le_bytes 8 (tls_write_seq64_be tls) @ record_hdr type n @ replicate 3 0"

definition gcm_nonce :: "tls_state \<Rightarrow> byte list" where
  "gcm_nonce tls = take 4 (tls_client_write_IV tls) @ le_bytes 8 (tls_write_seq64_be tls)"

text \<open>The authentication tag of SP 800-38D.\<close>

definition gcm_tag :: "byte list \<Rightarrow> byte list \<Rightarrow> byte list \<Rightarrow> byte list \<Rightarrow> byte list \<Rightarrow> byte list" where
  "gcm_tag key h nonce aad ct =
     be_store 16 (ghash (be_load h) ([aad] @ pad_blocks ct @ [length_block aSz (length ct)])
       XOR be_load (aes_encrypt_one_block (aes_setkey key) (nonce_block nonce 1)))"

definition gcm_ready :: "tls_state \<Rightarrow> byte list \<Rightarrow> bool" where
  "gcm_ready tls key \<longleftrightarrow> length key \<in> {16, 24, 32} \<and> tls_aes_encrypt tls = aes_setkey key
     \<and> length (tls_H tls) = 16 \<and> length (tls_client_write_IV tls) = 4"

lemma le_bytes_small: "n < 256 \<Longrightarrow> le_bytes 4 (word_of_nat n :: u32) = [word_of_nat n, 0, 0, 0]"
proof -
  assume n: "n < 256"
  have d: "drop_bit (8 * Suc i) (word_of_nat n :: u32) = 0" for i
  proof (rule bit_word_eqI)
    fix j
    have "n < 2 ^ (8 * Suc i + j)" using n power_increasing [of 8 "8 * Suc i + j" "2 :: nat"] by simp
    then have "\<not> bit n (8 * Suc i + j)" by (simp add: bit_iff_odd)
    then show "bit (drop_bit (8 * Suc i) (word_of_nat n :: u32)) j = bit (0 :: u32) j"
      by (simp add: bit_drop_bit_eq bit_of_nat_iff)
  qed
  have "ucast (word_of_nat n :: u32) = (word_of_nat n :: byte)"
    using n by (simp add: unsigned_of_nat take_bit_nat_eq_self)
  then show ?thesis using d [of 0] d [of 1] d [of 2] by (simp add: le_bytes_def upt_conv_Cons)
qed

lemma gcm_record:
  fixes type :: byte
  assumes ready: "gcm_ready tls key" and content: "mem_read (tls_outbuf tls) OUTBUF_PFX sz = content"
    and fits: "OUTBUF_PFX + sz + OUTBUF_SFX \<le> length (tls_outbuf tls)" and small: "sz \<le> TLS_MAX_OUTBUF"
    and n: "sz \<le> 16 * n"
  defines "ct \<equiv> map2 (XOR) content (gcm_keystream key (gcm_nonce tls) 1 n)"
  shows "\<exists>outbuf'. length outbuf' = length (tls_outbuf tls) \<and> length ct = sz
    \<and> xwrite_encrypted_aesgcm env tls sz type =
        Some (tls\<lparr>tls_write_seq64_be := bswap64 (1 + bswap64 (tls_write_seq64_be tls)), tls_outbuf := outbuf',
          tls_sent := tls_sent tls @ [record_hdr type (sz + 24) @ le_bytes 8 (tls_write_seq64_be tls) @ ct
            @ gcm_tag key (tls_H tls) (gcm_nonce tls) (gcm_aad tls type sz) ct]\<rparr>)"
proof -
  let ?b = "tls_outbuf tls" and ?seq = "tls_write_seq64_be tls"
  have pfx: "OUTBUF_PFX = 24" "OUTBUF_SFX = 48" by (simp_all add: tls_consts)
  have sz: "length content = sz" using content fits by (auto simp: mem_read_def)
  have key: "length key \<in> {16, 24, 32}" "tls_aes_encrypt tls = aes_setkey key" "length (tls_H tls) = 16"
    using ready by (simp_all add: gcm_ready_def)
  have nonce: "length (gcm_nonce tls) = 12" using ready by (simp add: gcm_ready_def gcm_nonce_def)
  define b2 where "b2 = mem_write (mem_write ?b 11 [type]) 16 (le_bytes 8 ?seq)"
  have b2: "length b2 = length ?b" "mem_read b2 11 1 = [type]" "mem_read b2 16 8 = le_bytes 8 ?seq" "mem_read b2 24 sz = content"
    using fits content pfx mem_read_write_same [of 11 "[type]" ?b] mem_read_write_same [of 16 "le_bytes 8 ?seq" "mem_write ?b 11 [type]"]
    unfolding b2_def by (simp_all add: mem_read_write_after mem_read_write_before)
  have loop: "gcm_encrypt_loop (aes_setkey key) (gcm_nonce tls) 1 content = ct"
    using gcm_encrypt_loop_ctr [OF key(1) nonce, of content n 1] sz n by (simp add: ct_def)
  have ks: "length (gcm_keystream key (gcm_nonce tls) 1 n) = 16 * n"
    unfolding gcm_keystream_def
    by (simp add: length_concat comp_def length_aes_block [OF key(1) length_nonce_block [OF nonce]] sum_list_triv)
  have ct: "length ct = sz" using ks sz n by (simp add: ct_def)
  define b3 where "b3 = mem_write b2 24 ct"
  have b3: "length b3 = length ?b" "mem_read b3 11 1 = [type]" "mem_read b3 16 8 = le_bytes 8 ?seq" "mem_read b3 24 sz = ct"
    using fits pfx b2 ct mem_read_write_same [of 24 ct b2] unfolding b3_def by (simp_all add: mem_read_write_before)
  have aad: "length (gcm_aad tls type sz) = 16" by (simp add: gcm_aad_def)
  have bits: "8 * length ct < 2 ^ 32" using small ct by (simp add: tls_consts)
  obtain s where s: "aesgcm_GHASH (te_shift env) (tls_H tls) (gcm_aad tls type sz) ct = Some s" "length s = 16"
      "be_load s = ghash (be_load (tls_H tls)) ([gcm_aad tls type sz] @ pad_blocks ct @ [length_block aSz (length ct)])"
    using aesgcm_GHASH_ghash [OF key(3) aad bits] .
  let ?e = "aes_encrypt_one_block (aes_setkey key) (nonce_block (gcm_nonce tls) 1)"
  have e: "length ?e = 16" using length_aes_block [OF key(1) length_nonce_block [OF nonce]] .
  define tag where "tag = xorbuf_aligned_AES_BLOCK_SIZE s ?e"
  have tag: "tag = gcm_tag key (tls_H tls) (gcm_nonce tls) (gcm_aad tls type sz) ct" "length tag = 16"
  proof -
    have t: "tag = map2 (XOR) s ?e" using s(2) e by (simp add: tag_def xorbuf_aligned_map2)
    then show "length tag = 16" using s(2) e by simp
    then show "tag = gcm_tag key (tls_H tls) (gcm_nonce tls) (gcm_aad tls type sz) ct"
      using be_store_load [of tag, where 'a = 128] s e by (simp add: gcm_tag_def t be_load_map2_xor)
  qed
  define b4 where "b4 = mem_write b3 (24 + sz) tag"
  have b4: "length b4 = length ?b" "mem_read b4 11 1 = [type]" "mem_read b4 16 8 = le_bytes 8 ?seq" "mem_read b4 24 sz = ct"
    "mem_read b4 (24 + sz) 16 = tag"
    using fits pfx b3 tag(2) mem_read_write_same [of "24 + sz" tag b3] unfolding b4_def by (simp_all add: mem_read_write_before)
  define b5 where "b5 = mem_write b4 12 (tl (record_hdr type (sz + 24)))"
  have b5: "length b5 = length ?b" "mem_read b5 11 1 = [type]" "mem_read b5 16 8 = le_bytes 8 ?seq" "mem_read b5 24 sz = ct"
    "mem_read b5 (24 + sz) 16 = tag" "mem_read b5 12 4 = tl (record_hdr type (sz + 24))"
    using fits pfx b4 mem_read_write_same [of 12 "tl (record_hdr type (sz + 24))" b4] unfolding b5_def
    by (simp_all add: mem_read_write_before mem_read_write_after)
  have out: "mem_read b5 11 (sz + 24 + 5) = record_hdr type (sz + 24) @ le_bytes 8 ?seq @ ct @ tag"
  proof -
    have "sz + 24 + 5 = 1 + (4 + (8 + (sz + 16)))" by simp
    then show ?thesis
      by (simp only: mem_read_append) (use b5 in \<open>simp add: record_hdr_def\<close>)
  qed
  have hdr: "le_bytes 8 ?seq @ [type, TLS_MAJ, TLS_MIN, word_of_nat (sz div 256)] @ le_bytes 4 (word_of_nat (sz mod 256) :: u32)
      = gcm_aad tls type sz"
    by (simp add: gcm_aad_def record_hdr_def le_bytes_small numeral_3_eq_3)
  have c: "OUTBUF_PFX - 8 - RECHDR_LEN = 11" "OUTBUF_PFX - 8 = 16" by (simp_all add: tls_consts)
  have "xwrite_encrypted_aesgcm env tls sz type =
        Some (tls\<lparr>tls_write_seq64_be := bswap64 (1 + bswap64 ?seq), tls_outbuf := b5,
          tls_sent := tls_sent tls @ [record_hdr type (sz + 24) @ le_bytes 8 ?seq @ ct @ tag]\<rparr>)"
    unfolding xwrite_encrypted_aesgcm_def Let_def hdr unfolding c(1) unfolding c(2) unfolding gcm_nonce_def [symmetric] pfx(1) b2_def [symmetric]
    using b2(4) loop b3(4) s(1) key(2) out
    by (simp del: One_nat_def flip: b3_def)
      (simp add: AES_BLOCK_SIZE_def RECHDR_LEN_def xwrite_def b5_def del: One_nat_def flip: b3_def b4_def tag_def)
  then show ?thesis using b5(1) ct tag(1) by blast
qed
section \<open>Properties\<close>

text \<open>C28: A record protected by HMAC and AES-CBC: in a buffer that \<^verbatim>\<open>tls_get_outbuf\<close> made large
  enough, the program sends one record with the header, the random IV and the CBC encryption of
  content, MAC and padding, where the MAC is the HMAC of sequence number, header and content of
  RFC 5246 and the padding fills the last block; the sequence number goes up by one in its
  big-endian reading, and the buffer keeps its size.\<close>

theorem tls_cbc_record_format:
  assumes "cbc_ready env tls key" and "mem_read (tls_outbuf tls) OUTBUF_PFX sz = content"
    and "OUTBUF_PFX + sz + OUTBUF_SFX \<le> length (tls_outbuf tls)" and "length iv = 16"
    and "\<not> (te_allow_null env \<and> tls_cipher_id tls = TLS_RSA_WITH_NULL_SHA256)"
  shows "\<exists>ct outbuf'. aes_cbc_encrypt (aes_setkey key) iv (cbc_plain content (record_mac env tls type content)) = Some ct
    \<and> length ct = length (cbc_plain content (record_mac env tls type content))
    \<and> length outbuf' = length (tls_outbuf tls)
    \<and> xwrite_encrypted_and_hmac_signed env iv tls sz type =
        Some (tls\<lparr>tls_write_seq64_be := bswap64 (1 + bswap64 (tls_write_seq64_be tls)), tls_outbuf := outbuf',
          tls_sent := tls_sent tls @
            [record_hdr type (length (cbc_plain content (record_mac env tls type content)) + 16) @ iv @ ct]\<rparr>)"
  by (rule cbc_record [OF assms])

definition demo_env :: tls_env where
  "demo_env = \<lparr>te_tls_sha1 = True, te_allow_null = False, te_shift = Shift_le64, te_target = demo_target,
     te_ebx = 0, te_pre = demo_pre, te_fresh = (\<lambda>_. 0xAA)\<rparr>"

definition demo_tls :: tls_state where
  "demo_tls = \<lparr>tls_flags = 0, tls_sent = [], tls_min_encrypted_len_on_read = 0, tls_cipher_id = 0x2F, tls_MAC_size = 20,
     tls_outbuf = replicate 100 5, tls_inbuf = [], tls_ofs_to_buffered = 0, tls_buffered_size = 0, tls_hsd = Some demo_ctx,
     tls_write_seq64_be = 0, tls_client_write_MAC_key = replicate 32 1, tls_client_write_IV = replicate 4 2,
     tls_server_write_IV = replicate 4 3, tls_aes_encrypt = aes_setkey (replicate 16 7),
     tls_aes_decrypt = aes_setkey (replicate 16 7), tls_H = replicate 16 9\<rparr>"

lemma demo_tls_ready: "cbc_ready demo_env demo_tls (replicate 16 7)" "gcm_ready demo_tls (replicate 16 7)"
  by (simp_all add: cbc_ready_def gcm_ready_def demo_env_def demo_tls_def demo_target_ok raw_demo_pre)

theorem tls_cbc_record_format_witness:
  "\<exists>tls'. xwrite_encrypted_and_hmac_signed demo_env (replicate 16 4) demo_tls 28 23 = Some tls'
     \<and> tls_write_seq64_be tls' = bswap64 (1 + bswap64 0)"
  using tls_cbc_record_format [OF demo_tls_ready(1), of 28 "replicate 28 5" "replicate 16 4" 23]
  by (auto simp: demo_tls_def demo_env_def tls_consts mem_read_def)

text \<open>C29: A record protected by AES-GCM: the program sends one record with the header, the sequence
  number as explicit nonce, the content encrypted in counter mode from counter 2 on, and the tag
  of SP 800-38D over sequence number, type, version, length and ciphertext; the nonce is the
  implicit part followed by the sequence number, which goes up by one.\<close>

theorem tls_gcm_record_format:
  assumes "gcm_ready tls key" and "mem_read (tls_outbuf tls) OUTBUF_PFX sz = content"
    and "OUTBUF_PFX + sz + OUTBUF_SFX \<le> length (tls_outbuf tls)" and "sz \<le> TLS_MAX_OUTBUF" and "sz \<le> 16 * n"
  shows "\<exists>ct outbuf'. ct = map2 (XOR) content (gcm_keystream key (gcm_nonce tls) 1 n) \<and> length ct = sz
    \<and> length outbuf' = length (tls_outbuf tls)
    \<and> xwrite_encrypted_aesgcm env tls sz type =
        Some (tls\<lparr>tls_write_seq64_be := bswap64 (1 + bswap64 (tls_write_seq64_be tls)), tls_outbuf := outbuf',
          tls_sent := tls_sent tls @ [record_hdr type (sz + 24) @ le_bytes 8 (tls_write_seq64_be tls) @ ct
            @ gcm_tag key (tls_H tls) (gcm_nonce tls) (gcm_aad tls type sz) ct]\<rparr>)"
  using gcm_record [OF assms, of env type] by blast

theorem tls_gcm_record_format_witness:
  "\<exists>tls'. xwrite_encrypted_aesgcm demo_env demo_tls 28 23 = Some tls' \<and> tls_write_seq64_be tls' = bswap64 (1 + bswap64 0)"
  using tls_gcm_record_format [OF demo_tls_ready(2), of 28 "replicate 28 5" 2 demo_env 23]
  by (auto simp: demo_tls_def tls_consts mem_read_def)

end
