(* ===== verification/Tls_Read.thy ===== *)
theory Tls_Read
  imports Tls_Record
begin

text \<open>
  The receiving half of the TLS record layer of \<^verbatim>\<open>networking/tls.c\<close>: the loop that
  collects a record from reads of any size, the decryption in place, and the treatment of alerts
  and handshake messages. What the kernel has to deliver is a list of read results.
\<close>

section \<open>Input\<close>

text \<open>
  One element per packet of bytes the descriptor has ready; a read takes at most \<open>rem\<close> bytes of the
  first. The end of the list is the end of the stream.
\<close>

datatype input = Packet "byte list" | Read_error

fun safe_read :: "nat \<Rightarrow> input list \<Rightarrow> byte list option \<times> input list" where
  "safe_read rem [] = (Some [], [])"
| "safe_read rem (Read_error # inp) = (None, inp)"
| "safe_read rem (Packet d # inp) =
     (if length d \<le> rem then (Some d, inp) else (Some (take rem d), Packet (drop rem d) # inp))"

fun input_bytes :: "input list \<Rightarrow> byte list" where
  "input_bytes [] = []"
| "input_bytes (Read_error # inp) = input_bytes inp"
| "input_bytes (Packet d # inp) = d @ input_bytes inp"

text \<open>The ways the program ends, and the null pointer it would follow.\<close>

datatype tls_error =
    Bad_record nat
  | Short_read nat
  | Bad_encrypted_len int
  | Encrypted_too_short
  | Alert_from_peer byte
  | Null_hsd
  | Read_past_end

definition MAX_INBUF :: nat where "MAX_INBUF = RECHDR_LEN + 16384 + 2048"

section \<open>Collecting a record\<close>

definition hdr_len :: "byte list \<Rightarrow> nat" where
  "hdr_len inbuf = RECHDR_LEN + (0x100 * unat (inbuf ! 3) + unat (inbuf ! 4))"

text \<open>The size of the record, looked up in the header once the header is there, and its checks.\<close>

definition fill_target :: "byte list \<Rightarrow> nat \<Rightarrow> nat \<Rightarrow> nat" where
  "fill_target inbuf tot target = (if RECHDR_LEN \<le> tot \<and> target = MAX_INBUF then hdr_len inbuf else target)"

definition fill_bad :: "byte list \<Rightarrow> nat \<Rightarrow> nat \<Rightarrow> bool" where
  "fill_bad inbuf tot target \<longleftrightarrow>
     RECHDR_LEN \<le> tot \<and> target = MAX_INBUF
     \<and> (hdr_len inbuf > MAX_INBUF \<or> inbuf ! 1 \<noteq> TLS_MAJ \<or> inbuf ! 2 \<noteq> TLS_MIN)"

text \<open>The input buffer is enlarged when it is full.\<close>

definition grow_inbuf :: "tls_env \<Rightarrow> byte list \<Rightarrow> nat \<Rightarrow> byte list" where
  "grow_inbuf env inbuf tot =
     (if length inbuf - tot = 0
      then let n = length inbuf + MAX_INBUF div 8;
               n = (if n > MAX_INBUF then MAX_INBUF else n)
           in inbuf @ map (te_fresh env) [length inbuf..<n]
      else inbuf)"

text \<open>
  The loop of \<^verbatim>\<open>tls_xread_record\<close>: the buffer, the number of bytes in it with the size of the
  record (\<open>None\<close> at the end of the stream before a record), and the rest of the input.
\<close>

function tls_fill :: "tls_env \<Rightarrow> byte list \<Rightarrow> nat \<Rightarrow> nat \<Rightarrow> input list
    \<Rightarrow> tls_error + (byte list \<times> (nat \<times> nat) option \<times> input list)" where
  "tls_fill env inbuf tot target inp =
     (if fill_bad inbuf tot target then Inl (Bad_record (min tot (hdr_len inbuf)))
      else if fill_target inbuf tot target \<le> tot then Inr (inbuf, Some (tot, fill_target inbuf tot target), inp)
      else case safe_read (length (grow_inbuf env inbuf tot) - tot) inp of
             (None, inp) \<Rightarrow> Inl (Short_read tot)
           | (Some d, inp) \<Rightarrow>
               if d = [] then (if tot = 0 then Inr (grow_inbuf env inbuf tot, None, inp) else Inl (Short_read tot))
               else tls_fill env (mem_write (grow_inbuf env inbuf tot) tot d) (tot + length d) (fill_target inbuf tot target) inp)"
  by pat_completeness auto

lemma safe_read_bytes:
  "safe_read rem inp = (Some d, inp') \<Longrightarrow> input_bytes inp = d @ input_bytes inp'"
  by (induction rem inp rule: safe_read.induct) (auto split: if_splits)

lemma safe_read_length: "safe_read rem inp = (Some d, inp') \<Longrightarrow> length d \<le> rem"
  by (induction rem inp rule: safe_read.induct) (auto split: if_splits)

termination tls_fill
  by (relation "measure (\<lambda>(env, inbuf, tot, target, inp). length (input_bytes inp))")
    (auto dest!: safe_read_bytes [OF sym])

declare tls_fill.simps [simp del]

section \<open>Decryption\<close>

text \<open>
  The loop of \<^verbatim>\<open>tls_aesgcm_decrypt\<close> on the bytes that remain from \<^verbatim>\<open>buf + 8\<close> on; the
  bytes it stores from \<^verbatim>\<open>buf\<close> on. A byte is read before a store reaches it, the stores being
  eight bytes behind.
\<close>

function gcm_decrypt_loop :: "tls_aes \<Rightarrow> byte list \<Rightarrow> nat \<Rightarrow> byte list \<Rightarrow> byte list" where
  "gcm_decrypt_loop aes nonce cnt src =
     (if length src \<noteq> 0 then
        let cnt = cnt + 1;
            scratch = aes_encrypt_one_block aes (nonce_block nonce cnt);
            n = (if length src > AES_BLOCK_SIZE then AES_BLOCK_SIZE else length src)
        in xorbuf3 (take n src) scratch (take n src) n @ gcm_decrypt_loop aes nonce cnt (drop n src)
      else [])"
  by pat_completeness auto
termination
  by (relation "measure (\<lambda>(aes, nonce, cnt, src). length src)") (auto simp: AES_BLOCK_SIZE_def)

declare gcm_decrypt_loop.simps [simp del]

text \<open>\<open>buf\<close> is a position in the input buffer.\<close>

definition tls_aesgcm_decrypt :: "tls_state \<Rightarrow> byte list \<Rightarrow> nat \<Rightarrow> nat \<Rightarrow> byte list" where
  "tls_aesgcm_decrypt tls inbuf buf sz =
     (let nonce = take 4 (tls_server_write_IV tls) @ mem_read inbuf buf 8
      in mem_write inbuf buf (gcm_decrypt_loop (tls_aes_decrypt tls) nonce 1 (mem_read inbuf (buf + 8) sz)))"

text \<open>
  The part of \<^verbatim>\<open>tls_xread_record\<close> between the loop and the alerts: the buffer and the size
  of the content. A negative size given to the GCM loop would make it run past the buffer.
\<close>

definition tls_decrypt :: "tls_env \<Rightarrow> tls_state \<Rightarrow> byte list \<Rightarrow> nat \<Rightarrow> tls_error + (byte list \<times> int)" where
  "tls_decrypt env tls inbuf sz =
     (let p = RECHDR_LEN
      in if tls_min_encrypted_len_on_read tls \<noteq> 0 then
           if sz < tls_min_encrypted_len_on_read tls then Inl (Bad_encrypted_len (int sz))
           else if tls_flags tls AND ENCRYPTION_AESGCM \<noteq> 0 then
             if sz < 8 + AES_BLOCK_SIZE then Inl Read_past_end
             else let sz = sz - (8 + AES_BLOCK_SIZE)
                  in Inr (tls_aesgcm_decrypt tls inbuf p sz, int sz)
           else if tls_min_encrypted_len_on_read tls > TLS_MAC_SIZE env tls then
             if sz mod AES_BLOCK_SIZE \<noteq> 0 then Inl (Bad_encrypted_len (int sz))
             else let sz = sz - AES_BLOCK_SIZE
                  in case aes_cbc_decrypt (tls_aes_decrypt tls) (mem_read inbuf p AES_BLOCK_SIZE)
                           (mem_read inbuf (p + AES_BLOCK_SIZE) sz) of
                       None \<Rightarrow> Inl Read_past_end
                     | Some plain \<Rightarrow>
                         let inbuf = mem_write inbuf p plain;
                             padding_len = unat (inbuf ! (p + sz - 1)) + 1
                         in Inr (inbuf, int sz - int (TLS_MAC_SIZE env tls + padding_len))
           else Inr (inbuf, int sz - int (tls_min_encrypted_len_on_read tls))
         else Inr (inbuf, int sz))"

section \<open>Reading a record\<close>

text \<open>What is done with a decrypted record: return a size, or read the next record.\<close>

datatype tls_verdict = Return nat | Again

definition tls_dispatch :: "tls_env \<Rightarrow> tls_state \<Rightarrow> int \<Rightarrow> tls_error + (tls_state \<times> tls_verdict)" where
  "tls_dispatch env tls sz =
     (let inbuf = tls_inbuf tls; p0 = inbuf ! RECHDR_LEN; p1 = inbuf ! (RECHDR_LEN + 1)
      in if sz < 0 then Inl Encrypted_too_short
         else if inbuf ! 0 = RECORD_TYPE_ALERT \<and> 2 \<le> sz then
           if p0 = 2 then Inl (Alert_from_peer p1)
           else if p0 = 1 then (if p1 = 0 then Inr (tls, Return 0) else Inr (tls, Again))
           else Inr (tls, Return 0)
         else if inbuf ! 0 = RECORD_TYPE_HANDSHAKE then
           (case hash_handshake env tls (mem_read inbuf RECHDR_LEN (nat sz)) of
              None \<Rightarrow> Inl Null_hsd
            | Some tls \<Rightarrow> Inr (tls, Return (nat sz)))
         else Inr (tls, Return (nat sz)))"

text \<open>One pass from the label \<^verbatim>\<open>again\<close>; a return value 0 is also the end of the stream.\<close>

definition tls_read_once :: "tls_env \<Rightarrow> tls_state \<Rightarrow> input list
    \<Rightarrow> tls_error + (tls_state \<times> tls_verdict \<times> input list)" where
  "tls_read_once env tls inp =
     (let tot = tls_buffered_size tls;
          inbuf = (if tot \<noteq> 0 then mem_write (tls_inbuf tls) 0 (mem_read (tls_inbuf tls) (tls_ofs_to_buffered tls) tot)
                   else tls_inbuf tls)
      in case tls_fill env inbuf tot MAX_INBUF inp of
           Inl e \<Rightarrow> Inl e
         | Inr (inbuf, None, inp) \<Rightarrow> Inr (tls\<lparr>tls_inbuf := inbuf, tls_buffered_size := 0\<rparr>, Return 0, inp)
         | Inr (inbuf, Some (tot, target), inp) \<Rightarrow>
             let tls = tls\<lparr>tls_inbuf := inbuf, tls_buffered_size := tot - target, tls_ofs_to_buffered := target\<rparr>
             in case tls_decrypt env tls inbuf (target - RECHDR_LEN) of
                  Inl e \<Rightarrow> Inl e
                | Inr (inbuf, sz) \<Rightarrow>
                    (case tls_dispatch env (tls\<lparr>tls_inbuf := inbuf\<rparr>) sz of
                       Inl e \<Rightarrow> Inl e
                     | Inr (tls, v) \<Rightarrow> Inr (tls, v, inp)))"

definition tls_has_buffered_record :: "tls_state \<Rightarrow> nat" where
  "tls_has_buffered_record tls =
     (let buffered = tls_buffered_size tls
      in if buffered < RECHDR_LEN then 0
         else let rec_size = hdr_len (drop (tls_ofs_to_buffered tls) (tls_inbuf tls))
              in if buffered < rec_size then 0 else rec_size)"

section \<open>The loop\<close>

lemma hdr_len_ge: "5 \<le> hdr_len inbuf" by (simp add: hdr_len_def RECHDR_LEN_def)

lemma fill_target_ge: "5 \<le> target \<Longrightarrow> 5 \<le> fill_target inbuf tot target"
  using hdr_len_ge by (simp add: fill_target_def)

lemma tls_fill_step:
  "\<not> fill_bad inbuf tot target \<Longrightarrow> \<not> fill_target inbuf tot target \<le> tot \<Longrightarrow>
   safe_read (length (grow_inbuf env inbuf tot) - tot) inp = (Some d, inp') \<Longrightarrow> d \<noteq> [] \<Longrightarrow>
   tls_fill env inbuf tot target inp =
     tls_fill env (mem_write (grow_inbuf env inbuf tot) tot d) (tot + length d) (fill_target inbuf tot target) inp'"
  by (subst tls_fill.simps) simp

lemma tls_fill_done:
  "\<not> fill_bad inbuf tot target \<Longrightarrow> fill_target inbuf tot target \<le> tot \<Longrightarrow>
   tls_fill env inbuf tot target inp = Inr (inbuf, Some (tot, fill_target inbuf tot target), inp)"
  by (subst tls_fill.simps) simp

lemma tls_fill_record_cases:
  assumes "tls_fill env inbuf tot target inp = Inr (inbuf', Some (tot', target'), inp')"
  obtains (full) "fill_target inbuf tot target \<le> tot" "inbuf' = inbuf" "tot' = tot" "target' = fill_target inbuf tot target" "inp' = inp"
    "\<not> fill_bad inbuf tot target"
  | (more) d inp1 where "\<not> fill_bad inbuf tot target" "\<not> fill_target inbuf tot target \<le> tot"
    "safe_read (length (grow_inbuf env inbuf tot) - tot) inp = (Some d, inp1)" "d \<noteq> []"
    "tls_fill env (mem_write (grow_inbuf env inbuf tot) tot d) (tot + length d) (fill_target inbuf tot target) inp1
       = Inr (inbuf', Some (tot', target'), inp')"
  using assms by (subst (asm) tls_fill.simps) (auto split: if_splits option.splits prod.splits)

lemma tls_fill_conserve:
  "tls_fill env inbuf tot target inp = Inr (inbuf', Some (tot', target'), inp') \<Longrightarrow> 5 \<le> target \<Longrightarrow>
   tot' + length (input_bytes inp') = tot + length (input_bytes inp) \<and> target' \<le> tot' \<and> 5 \<le> target'"
proof (induction env inbuf tot target inp rule: tls_fill.induct)
  case (1 env inbuf tot target inp)
  from 1(2) show ?case
  proof (cases rule: tls_fill_record_cases)
    case full
    then show ?thesis using fill_target_ge [OF 1(3)] by simp
  next
    case (more d inp1)
    then show ?thesis
      using 1(1) [OF more(1,2) more(3) [symmetric] refl more(4,5)] fill_target_ge [OF 1(3)] safe_read_bytes [OF more(3)] by simp
  qed
qed

lemma length_grow:
  assumes "tot \<le> length inbuf" "length inbuf \<le> MAX_INBUF" "tot < MAX_INBUF"
  shows "tot < length (grow_inbuf env inbuf tot)" "length (grow_inbuf env inbuf tot) \<le> MAX_INBUF"
    "take tot (grow_inbuf env inbuf tot) = take tot inbuf"
  using assms by (auto simp: grow_inbuf_def Let_def MAX_INBUF_def RECHDR_LEN_def)

definition good_input :: "input list \<Rightarrow> bool" where
  "good_input inp \<longleftrightarrow> (\<forall>x \<in> set inp. \<exists>d. x = Packet d \<and> d \<noteq> [])"

lemma safe_read_good:
  assumes "good_input inp" and "0 < rem" and "input_bytes inp \<noteq> []"
  obtains d inp' where "safe_read rem inp = (Some d, inp')" and "d \<noteq> []" and "good_input inp'"
proof (cases inp)
  case (Cons x xs)
  then obtain d where "x = Packet d" "d \<noteq> []" "good_input xs" using assms(1) by (auto simp: good_input_def)
  then show ?thesis using that assms(2) Cons by (cases "length d \<le> rem") (auto simp: good_input_def)
qed (use assms in simp)

text \<open>A stream that starts with a well-formed record.\<close>

definition starts_with_record :: "byte list \<Rightarrow> bool" where
  "starts_with_record S \<longleftrightarrow>
     hdr_len S \<le> length S \<and> hdr_len S \<le> MAX_INBUF \<and> S ! 1 = TLS_MAJ \<and> S ! 2 = TLS_MIN"

lemma hdr_prefix:
  assumes "take tot inbuf @ rest = S" and "5 \<le> tot" and "tot \<le> length inbuf"
  shows "hdr_len inbuf = hdr_len S" "inbuf ! 1 = S ! 1" "inbuf ! 2 = S ! 2"
proof -
  have "inbuf ! i = S ! i" if "i < 5" for i using assms that by (auto simp: nth_append)
  then show "hdr_len inbuf = hdr_len S" "inbuf ! 1 = S ! 1" "inbuf ! 2 = S ! 2" by (simp_all add: hdr_len_def)
qed

lemma tls_fill_reassemble:
  assumes S: "starts_with_record S"
    and "take tot inbuf @ input_bytes inp = S" and "tot \<le> length inbuf" and "length inbuf \<le> MAX_INBUF"
    and "good_input inp" and "target = MAX_INBUF \<or> (target = hdr_len S \<and> 5 \<le> tot)"
  shows "\<exists>inbuf' tot' inp'. tls_fill env inbuf tot target inp = Inr (inbuf', Some (tot', hdr_len S), inp')
    \<and> hdr_len S \<le> tot' \<and> tot' \<le> length inbuf' \<and> length inbuf' \<le> MAX_INBUF
    \<and> take tot' inbuf' @ input_bytes inp' = S \<and> good_input inp'"
  using assms(2-)
proof (induction "length (input_bytes inp)" arbitrary: inbuf tot target inp rule: less_induct)
  case less
  have len: "length S = tot + length (input_bytes inp)" using less.prems(1,2) by auto
  have hdr: "hdr_len inbuf = hdr_len S \<and> inbuf ! 1 = S ! 1 \<and> inbuf ! 2 = S ! 2" if "5 \<le> tot"
    using hdr_prefix [OF less.prems(1) that less.prems(2)] by simp
  have bad: "\<not> fill_bad inbuf tot target"
    using hdr S by (auto simp: fill_bad_def starts_with_record_def RECHDR_LEN_def)
  have tgt: "fill_target inbuf tot target = (if 5 \<le> tot then hdr_len S else MAX_INBUF)"
    using hdr less.prems(5) by (auto simp: fill_target_def RECHDR_LEN_def)
  show ?case
  proof (cases "fill_target inbuf tot target \<le> tot")
    case True
    then have "5 \<le> tot" using tgt by (auto simp: MAX_INBUF_def split: if_splits)
    then have "tls_fill env inbuf tot target inp = Inr (inbuf, Some (tot, hdr_len S), inp)"
      using tls_fill_done [OF bad True] tgt by simp
    then show ?thesis using True tgt \<open>5 \<le> tot\<close> less.prems by auto
  next
    case False
    have tot: "tot < MAX_INBUF" using False tgt S by (auto simp: starts_with_record_def split: if_splits)
    let ?g = "grow_inbuf env inbuf tot"
    note g = length_grow [OF less.prems(2,3) tot, of env]
    have "input_bytes inp \<noteq> []"
      using False tgt S len hdr_len_ge [of S] by (auto simp: starts_with_record_def split: if_splits)
    then obtain d inp1 where d: "safe_read (length ?g - tot) inp = (Some d, inp1)" "d \<noteq> []" "good_input inp1"
      using safe_read_good [OF less.prems(4), of "length ?g - tot"] g(1) by auto
    have b: "input_bytes inp = d @ input_bytes inp1" by (rule safe_read_bytes [OF d(1)])
    have fit: "tot + length d \<le> length ?g" using safe_read_length [OF d(1)] g(1) by simp
    have "take (tot + length d) (mem_write ?g tot d) = take tot inbuf @ d" using take_mem_write [OF fit] g(3) by simp
    then have ih: "take (tot + length d) (mem_write ?g tot d) @ input_bytes inp1 = S"
      "tot + length d \<le> length (mem_write ?g tot d)" "length (mem_write ?g tot d) \<le> MAX_INBUF"
      using less.prems(1) b fit g(2) by simp_all
    have tg: "fill_target inbuf tot target = MAX_INBUF \<or> fill_target inbuf tot target = hdr_len S \<and> 5 \<le> tot + length d"
      using tgt by auto
    have "length (input_bytes inp1) < length (input_bytes inp)" using b d(2) by simp
    from less.hyps [OF this ih d(3) tg] show ?thesis using tls_fill_step [OF bad False d(1,2)] by simp
  qed
qed

section \<open>The whole function\<close>

lemma tls_dispatch_again: "tls_dispatch env tls sz = Inr (tls', Again) \<Longrightarrow> tls' = tls"
  by (auto simp: tls_dispatch_def Let_def split: if_splits option.splits)

lemma tls_read_once_again:
  assumes "tls_read_once env tls inp = Inr (tls', Again, inp')"
  shows "tls_buffered_size tls' + length (input_bytes inp') < tls_buffered_size tls + length (input_bytes inp)"
proof -
  define inbuf where "inbuf = (if tls_buffered_size tls \<noteq> 0
    then mem_write (tls_inbuf tls) 0 (mem_read (tls_inbuf tls) (tls_ofs_to_buffered tls) (tls_buffered_size tls)) else tls_inbuf tls)"
  obtain inbuf' tot target where f: "tls_fill env inbuf (tls_buffered_size tls) MAX_INBUF inp = Inr (inbuf', Some (tot, target), inp')"
    and b: "tls_buffered_size tls' = tot - target"
    using assms
    by (auto simp: tls_read_once_def Let_def inbuf_def split: sum.splits option.splits prod.splits if_splits dest!: tls_dispatch_again)
  have "tot + length (input_bytes inp') = tls_buffered_size tls + length (input_bytes inp) \<and> target \<le> tot \<and> 5 \<le> target"
    by (rule tls_fill_conserve [OF f]) (simp add: MAX_INBUF_def)
  then show ?thesis using b by linarith
qed

function tls_xread_record :: "tls_env \<Rightarrow> tls_state \<Rightarrow> input list \<Rightarrow> tls_error + (tls_state \<times> nat \<times> input list)" where
  "tls_xread_record env tls inp =
     (case tls_read_once env tls inp of
        Inl e \<Rightarrow> Inl e
      | Inr (tls, Return sz, inp) \<Rightarrow> Inr (tls, sz, inp)
      | Inr (tls, Again, inp) \<Rightarrow> tls_xread_record env tls inp)"
  by pat_completeness auto
termination
  by (relation "measure (\<lambda>(env, tls, inp). tls_buffered_size tls + length (input_bytes inp))")
    (auto dest: tls_read_once_again)

declare tls_xread_record.simps [simp del]

text \<open>The bytes the program still has to process: those kept in the buffer and those to be read.\<close>

definition stream :: "tls_state \<Rightarrow> input list \<Rightarrow> byte list" where
  "stream tls inp = mem_read (tls_inbuf tls) (tls_ofs_to_buffered tls) (tls_buffered_size tls) @ input_bytes inp"

definition inbuf_ok :: "tls_state \<Rightarrow> bool" where
  "inbuf_ok tls \<longleftrightarrow> tls_ofs_to_buffered tls + tls_buffered_size tls \<le> length (tls_inbuf tls)
     \<and> length (tls_inbuf tls) \<le> MAX_INBUF"

text \<open>The state after the loop has collected the record \<open>r\<close>, for a stream \<open>r @ rest\<close>.\<close>

lemma tls_read_once_record:
  assumes ok: "inbuf_ok tls" "good_input inp" and st: "stream tls inp = r @ rest" and r: "starts_with_record r" "hdr_len r = length r"
  obtains inbuf tot inp' where "tls_read_once env tls inp =
      (let tls = tls\<lparr>tls_inbuf := inbuf, tls_buffered_size := tot - length r, tls_ofs_to_buffered := length r\<rparr>
       in case tls_decrypt env tls inbuf (length r - RECHDR_LEN) of
            Inl e \<Rightarrow> Inl e
          | Inr (inbuf, sz) \<Rightarrow>
              (case tls_dispatch env (tls\<lparr>tls_inbuf := inbuf\<rparr>) sz of
                 Inl e \<Rightarrow> Inl e
               | Inr (tls, v) \<Rightarrow> Inr (tls, v, inp')))"
    and "length r \<le> tot" "tot \<le> length inbuf" "length inbuf \<le> MAX_INBUF" "take tot inbuf @ input_bytes inp' = r @ rest"
    and "good_input inp'" "take (length r) inbuf = r" "mem_read inbuf (length r) (tot - length r) @ input_bytes inp' = rest"
proof -
  let ?b = "tls_buffered_size tls" and ?o = "tls_ofs_to_buffered tls"
  define inbuf0 where "inbuf0 = (if ?b \<noteq> 0 then mem_write (tls_inbuf tls) 0 (mem_read (tls_inbuf tls) ?o ?b) else tls_inbuf tls)"
  have len: "length (mem_read (tls_inbuf tls) ?o ?b) = ?b" "?b \<le> length (tls_inbuf tls)" using ok(1) by (simp_all add: inbuf_ok_def)
  have i0: "take ?b inbuf0 = mem_read (tls_inbuf tls) ?o ?b" "?b \<le> length inbuf0" "length inbuf0 \<le> MAX_INBUF"
    using len ok(1) take_mem_write [of 0 "mem_read (tls_inbuf tls) ?o ?b" "tls_inbuf tls"]
    by (auto simp: inbuf0_def inbuf_ok_def mem_read_def)
  have hl: "hdr_len (r @ rest) = hdr_len r" and five: "5 \<le> length r"
    using hdr_len_ge [of r] r(2) by (simp_all add: hdr_len_def nth_append)
  have S: "starts_with_record (r @ rest)"
    using r hl five by (simp add: starts_with_record_def nth_append)
  have st': "take ?b inbuf0 @ input_bytes inp = r @ rest" using st i0(1) by (simp add: stream_def)
  obtain inbuf tot inp' where f: "tls_fill env inbuf0 ?b MAX_INBUF inp = Inr (inbuf, Some (tot, hdr_len (r @ rest)), inp')"
    "hdr_len (r @ rest) \<le> tot" "tot \<le> length inbuf" "length inbuf \<le> MAX_INBUF"
    "take tot inbuf @ input_bytes inp' = r @ rest" "good_input inp'"
    using tls_fill_reassemble [OF S st' i0(2,3) ok(2), of MAX_INBUF env] by auto
  have t: "length r \<le> tot" using f(2) hl r(2) by simp
  have tk: "take (length r) inbuf = r"
    using arg_cong [OF f(5), of "take (length r)"] t f(3) by (simp add: min_def)
  have rest: "mem_read inbuf (length r) (tot - length r) @ input_bytes inp' = rest"
    using arg_cong [OF f(5), of "drop (length r)"] t f(3) by (simp add: mem_read_def drop_take)
  have "tls_read_once env tls inp =
      (let tls = tls\<lparr>tls_inbuf := inbuf, tls_buffered_size := tot - length r, tls_ofs_to_buffered := length r\<rparr>
       in case tls_decrypt env tls inbuf (length r - RECHDR_LEN) of
            Inl e \<Rightarrow> Inl e
          | Inr (inbuf, sz) \<Rightarrow>
              (case tls_dispatch env (tls\<lparr>tls_inbuf := inbuf\<rparr>) sz of
                 Inl e \<Rightarrow> Inl e
               | Inr (tls, v) \<Rightarrow> Inr (tls, v, inp')))"
    unfolding tls_read_once_def Let_def inbuf0_def [symmetric] f(1) using hl r(2) by simp
  with t f(3-6) tk rest show ?thesis using that by blast
qed

end
