(* ===== verification/Tls_Delivery.thy ===== *)
theory Tls_Delivery
  imports Tls_Read
begin

text \<open>
  What the receiving half of the record layer makes of the records the sending half produces: the
  content comes back whatever the packets are, the stream keeps its order, and what happens to
  alerts and to records nobody authenticated.
\<close>

section \<open>Records come back\<close>

lemma record_starts:
  assumes "length body \<le> 16384 + 2048"
  shows "starts_with_record (record_hdr type (length body) @ body)"
    and "hdr_len (record_hdr type (length body) @ body) = length (record_hdr type (length body) @ body)"
proof -
  have "length body div 256 < 256" using assms by simp
  then have "unat (word_of_nat (length body div 256) :: byte) = length body div 256"
    "unat (word_of_nat (length body mod 256) :: byte) = length body mod 256"
    by (simp_all add: unsigned_of_nat take_bit_nat_eq_self)
  then show l: "hdr_len (record_hdr type (length body) @ body) = length (record_hdr type (length body) @ body)"
    by (simp add: hdr_len_def record_hdr_def RECHDR_LEN_def)
  show "starts_with_record (record_hdr type (length body) @ body)"
    using l assms by (simp add: starts_with_record_def MAX_INBUF_def record_hdr_def RECHDR_LEN_def)
qed

lemma read_prefix:
  assumes "take (length r) inbuf = r" and "a + n \<le> length r"
  shows "mem_read inbuf a n = mem_read r a n"
proof -
  have "mem_read r a n = mem_read (take (length r) inbuf) a n" using assms(1) by simp
  also have "\<dots> = mem_read inbuf a n" using assms(2) by (simp add: mem_read_def drop_take min_def)
  finally show ?thesis ..
qed

definition cbc_min :: "tls_env \<Rightarrow> tls_state \<Rightarrow> nat" where
  "cbc_min env tls = AES_BLOCK_SIZE + (TLS_MAC_SIZE env tls + AES_BLOCK_SIZE - 1) div AES_BLOCK_SIZE * AES_BLOCK_SIZE"

lemma cbc_plain_parts:
  obtains k where "1 \<le> k" "k \<le> 16" "cbc_plain content mac = content @ mac @ replicate k (word_of_nat (k - 1))"
    "length (cbc_plain content mac) mod 16 = 0"
proof
  show "1 \<le> 16 - (length content + length mac) mod 16" by (simp add: Suc_le_eq)
  show "16 - (length content + length mac) mod 16 \<le> 16" by simp
  show "cbc_plain content mac = content @ mac @ replicate (16 - (length content + length mac) mod 16)
      (word_of_nat (16 - (length content + length mac) mod 16 - 1))"
    by (simp add: cbc_plain_def Let_def)
qed (rule length_cbc_plain)

lemma tls_decrypt_cbc:
  assumes r: "take (length r) inbuf = r" "r = record_hdr type (16 + length ct) @ iv @ ct" "length r \<le> length inbuf"
    and iv: "length iv = 16" and dec: "aes_cbc_decrypt (tls_aes_decrypt tls) iv ct = Some (cbc_plain content mac)"
      "length ct = length (cbc_plain content mac)"
    and mac: "length mac = TLS_MAC_SIZE env tls" and min: "tls_min_encrypted_len_on_read tls = cbc_min env tls"
    and gcm: "tls_flags tls AND ENCRYPTION_AESGCM = 0"
  shows "tls_decrypt env tls inbuf (length r - RECHDR_LEN) = Inr (mem_write inbuf 5 (cbc_plain content mac), int (length content))"
proof -
  obtain k where k: "1 \<le> k" "k \<le> 16" "cbc_plain content mac = content @ mac @ replicate k (word_of_nat (k - 1))"
    "length (cbc_plain content mac) mod 16 = 0" by (rule cbc_plain_parts)
  let ?p = "cbc_plain content mac" and ?m = "TLS_MAC_SIZE env tls"
  have len: "length ?p = length content + ?m + k" using k(3) mac by simp
  have sz: "length r - RECHDR_LEN = 16 + length ct" using r(2) iv by (simp add: RECHDR_LEN_def)
  have min_le: "cbc_min env tls \<le> 16 + length ct"
  proof -
    obtain q where q: "length ?p = 16 * q" using k(4) by (auto simp: mod_eq_0_iff_dvd)
    have "?m < 16 * q" using len k(1) q by simp
    then have "(?m + 15) div 16 \<le> q" by (simp add: less_eq_div_iff_mult_less_eq div_le_mono le_div_geq)
    then show ?thesis using dec(2) q by (simp add: cbc_min_def AES_BLOCK_SIZE_def)
  qed
  have mac_lt: "?m < cbc_min env tls" by (simp add: cbc_min_def AES_BLOCK_SIZE_def)
  have "mem_read r 5 16 = iv" "mem_read r 21 (length ct) = ct" using iv by (simp_all add: r(2) mem_read_def)
  then have rd: "mem_read inbuf 5 16 = iv" "mem_read inbuf 21 (length ct) = ct"
    using read_prefix [OF r(1), of 5 16] read_prefix [OF r(1), of 21 "length ct"] iv by (simp_all add: r(2))
  have last: "mem_write inbuf 5 ?p ! (4 + length ct) = word_of_nat (k - 1)"
  proof -
    have pos: "0 < length ?p" using len k(1) by simp
    have in5: "5 + length ?p \<le> length inbuf" using r(2,3) iv dec(2) by simp
    have "mem_write inbuf 5 ?p ! (5 + (length ?p - 1)) = ?p ! (length ?p - 1)"
      using in5 pos by (simp add: mem_write_def nth_append del: add_diff_assoc)
    moreover have "4 + length ct = 5 + (length ?p - 1)" using pos dec(2) by simp
    ultimately have "mem_write inbuf 5 ?p ! (4 + length ct) = ?p ! (length ?p - 1)" by (simp only:)
    also have "\<dots> = last ?p" using pos by (simp add: last_conv_nth)
    also have "\<dots> = word_of_nat (k - 1)" using k(1) unfolding k(3) by simp
    finally show ?thesis .
  qed
  have "unat (word_of_nat (k - 1) :: byte) = k - 1" using k(2) by (simp add: unsigned_of_nat take_bit_nat_eq_self)
  then have padv: "unat (mem_write inbuf 5 ?p ! (4 + length ct)) = k - 1" unfolding last .
  have content: "int (length ct) - int (?m + (k - 1 + 1)) = int (length content)" using dec(2) len k(1) by simp
  have "length ct mod 16 = 0" using k(4) dec(2) by simp
  then show ?thesis
    using min min_le mac_lt gcm rd dec(1)
    unfolding sz tls_decrypt_def Let_def content [symmetric]
    by (simp add: RECHDR_LEN_def AES_BLOCK_SIZE_def padv)
qed

lemma gcm_decrypt_loop_eq: "length nonce = 12 \<Longrightarrow> length key \<in> {16, 24, 32} \<Longrightarrow>
  gcm_decrypt_loop (aes_setkey key) nonce cnt src = gcm_encrypt_loop (aes_setkey key) nonce cnt src"
proof (induction "length src" arbitrary: src cnt rule: less_induct)
  case less
  show ?case
  proof (cases "src = []")
    case True
    then show ?thesis by (simp add: gcm_decrypt_loop.simps gcm_encrypt_loop.simps)
  next
    case False
    let ?s = "aes_encrypt_one_block (aes_setkey key) (nonce_block nonce (cnt + 1))"
    have s: "length ?s = 16" using length_aes_block [OF less.prems(2) length_nonce_block [OF less.prems(1)]] .
    define n where "n = (if length src > AES_BLOCK_SIZE then AES_BLOCK_SIZE else length src)"
    have n: "n \<le> length src" "n \<le> 16" "0 < n" using False by (auto simp: n_def AES_BLOCK_SIZE_def)
    have c: "map2 (XOR) a b = map2 (XOR) b a" if "length a = length b" for a b :: "byte list"
      using that by (intro nth_equalityI) (simp_all add: xor.commute)
    have "xorbuf3 (take n src) ?s (take n src) n = xorbuf3 (take n src) (take n ?s) (take n src) n"
      by (subst xorbuf3_take) simp
    also have "\<dots> = map2 (XOR) (take n ?s) (take n src)"
      using xorbuf3_map2 [of "take n ?s" "take n src" "take n src"] n s by simp
    also have "\<dots> = map2 (XOR) (take n src) (take n ?s)" using c n s by simp
    also have "\<dots> = xorbuf3 (take n src) (take n src) (take n ?s) n"
      using xorbuf3_map2 [of "take n src" "take n ?s" "take n src"] n s by simp
    also have "\<dots> = xorbuf (take n src) ?s n" unfolding xorbuf_def by (subst (2) xorbuf3_take) simp
    finally have x: "xorbuf3 (take n src) ?s (take n src) n = xorbuf (take n src) ?s n" .
    have "gcm_decrypt_loop (aes_setkey key) nonce cnt src =
        xorbuf3 (take n src) ?s (take n src) n @ gcm_decrypt_loop (aes_setkey key) nonce (cnt + 1) (drop n src)"
      by (subst gcm_decrypt_loop.simps) (use False in \<open>simp add: Let_def flip: n_def\<close>)
    also have "\<dots> = xorbuf (take n src) ?s n @ gcm_encrypt_loop (aes_setkey key) nonce (cnt + 1) (drop n src)"
      using less.hyps [of "drop n src" "cnt + 1"] less.prems n x by simp
    also have "\<dots> = gcm_encrypt_loop (aes_setkey key) nonce cnt src"
      by (subst (2) gcm_encrypt_loop.simps) (use False in \<open>simp add: Let_def flip: n_def\<close>)
    finally show ?thesis .
  qed
qed

lemma gcm_crypt_twice:
  assumes "length nonce = 12" "length key \<in> {16, 24, 32}" "length content \<le> 16 * n"
  shows "gcm_decrypt_loop (aes_setkey key) nonce 1 (map2 (XOR) content (gcm_keystream key nonce 1 n)) = content"
proof -
  let ?k = "gcm_keystream key nonce 1 n"
  have l: "length ?k = 16 * n"
    unfolding gcm_keystream_def
    by (simp add: length_concat comp_def length_aes_block [OF assms(2) length_nonce_block [OF assms(1)]] sum_list_triv)
  have "gcm_decrypt_loop (aes_setkey key) nonce 1 (map2 (XOR) content ?k) = map2 (XOR) (map2 (XOR) content ?k) ?k"
    using gcm_decrypt_loop_eq [OF assms(1,2)] gcm_encrypt_loop_ctr [OF assms(2,1), of "map2 (XOR) content ?k" n 1] l assms(3)
    by simp
  also have "\<dots> = content" using l assms(3) by (intro nth_equalityI) (simp_all add: xor.assoc)
  finally show ?thesis .
qed

lemma tls_decrypt_gcm:
  assumes r: "take (length r) inbuf = r" "r = record_hdr type (length content + 24) @ expl @ ct @ tag" "length r \<le> length inbuf"
    and l: "length expl = 8" "length tag = 16" "length content \<le> 16 * n" "length key \<in> {16, 24, 32}" "length (tls_server_write_IV tls) = 4"
    and ct: "ct = map2 (XOR) content (gcm_keystream key (take 4 (tls_server_write_IV tls) @ expl) 1 n)" "length ct = length content"
    and tls: "tls_aes_decrypt tls = aes_setkey key" "tls_min_encrypted_len_on_read tls = 24" "tls_flags tls AND ENCRYPTION_AESGCM \<noteq> 0"
  shows "tls_decrypt env tls inbuf (length r - RECHDR_LEN) = Inr (mem_write inbuf 5 content, int (length content))"
proof -
  have sz: "length r - RECHDR_LEN = length content + 24" using r(2) l ct(2) by (simp add: RECHDR_LEN_def)
  have "mem_read r 5 8 = expl" "mem_read r 13 (length content) = ct" using l ct(2) by (simp_all add: r(2) mem_read_def)
  then have rd: "mem_read inbuf 5 8 = expl" "mem_read inbuf 13 (length content) = ct"
    using read_prefix [OF r(1), of 5 8] read_prefix [OF r(1), of 13 "length content"] l ct(2) by (simp_all add: r(2))
  have "gcm_decrypt_loop (aes_setkey key) (take 4 (tls_server_write_IV tls) @ expl) 1 ct = content"
    unfolding ct(1) by (rule gcm_crypt_twice) (use l in simp_all)
  then show ?thesis
    unfolding sz tls_decrypt_def Let_def tls_aesgcm_decrypt_def
    using tls rd by (simp add: RECHDR_LEN_def AES_BLOCK_SIZE_def)
qed

text \<open>
  A record whose decryption leaves \<open>p\<close> in the place of the body: the program goes on with the
  dispatch on a state that keeps the rest of the stream.
\<close>

lemma tls_xread_decrypted:
  assumes ok: "inbuf_ok tls" "good_input inp" and st: "stream tls inp = r @ rest" and r: "starts_with_record r" "hdr_len r = length r"
    and dec: "\<And>inbuf tls'. take (length r) inbuf = r \<Longrightarrow> length r \<le> length inbuf \<Longrightarrow>
      (\<exists>b off. tls' = tls\<lparr>tls_inbuf := inbuf, tls_buffered_size := b, tls_ofs_to_buffered := off\<rparr>) \<Longrightarrow>
      tls_decrypt env tls' inbuf (length r - RECHDR_LEN) = Inr (mem_write inbuf 5 p, int n)"
    and p: "5 + length p \<le> length r" "n \<le> length p"
  obtains tls1 inp1 where
    "tls_xread_record env tls inp =
       (case tls_dispatch env tls1 (int n) of
          Inl e \<Rightarrow> Inl e
        | Inr (tls', Return sz) \<Rightarrow> Inr (tls', sz, inp1)
        | Inr (tls', Again) \<Rightarrow> tls_xread_record env tls' inp1)"
    and "tls_inbuf tls1 ! 0 = r ! 0" "mem_read (tls_inbuf tls1) 5 n = take n p"
      "stream tls1 inp1 = rest" "inbuf_ok tls1" "good_input inp1" "tls_hsd tls1 = tls_hsd tls"
      "\<exists>b n off. tls1 = tls\<lparr>tls_inbuf := b, tls_buffered_size := n, tls_ofs_to_buffered := off\<rparr>"
      "take 5 (tls_inbuf tls1) = take 5 r"
proof -
  obtain inbuf tot inp' where once: "tls_read_once env tls inp =
      (let tls = tls\<lparr>tls_inbuf := inbuf, tls_buffered_size := tot - length r, tls_ofs_to_buffered := length r\<rparr>
       in case tls_decrypt env tls inbuf (length r - RECHDR_LEN) of
            Inl e \<Rightarrow> Inl e
          | Inr (inbuf, sz) \<Rightarrow>
              (case tls_dispatch env (tls\<lparr>tls_inbuf := inbuf\<rparr>) sz of
                 Inl e \<Rightarrow> Inl e
               | Inr (tls, v) \<Rightarrow> Inr (tls, v, inp')))"
    and t: "length r \<le> tot" "tot \<le> length inbuf" "length inbuf \<le> MAX_INBUF"
    and good: "good_input inp'" and pre: "take (length r) inbuf = r"
    and rest: "mem_read inbuf (length r) (tot - length r) @ input_bytes inp' = rest"
    by (rule tls_read_once_record [OF ok st r])
  let ?tls1 = "tls\<lparr>tls_inbuf := inbuf, tls_buffered_size := tot - length r, tls_ofs_to_buffered := length r\<rparr>"
  let ?w = "mem_write inbuf 5 p"
  have d: "tls_decrypt env ?tls1 inbuf (length r - RECHDR_LEN) = Inr (?w, int n)"
    by (rule dec) (use pre t in auto)
  have five: "5 \<le> length r" using hdr_len_ge [of r] r(2) by simp
  have "inbuf ! 0 = take (length r) inbuf ! 0"
    by (rule nth_take [symmetric]) (use five in linarith)
  then have first: "inbuf ! 0 = r ! 0" unfolding pre .
  have w: "length ?w = length inbuf" "?w ! 0 = r ! 0"
    using p t five first by (simp_all add: mem_write_def nth_append)
  show thesis
  proof (rule that [of inp' "?tls1\<lparr>tls_inbuf := ?w\<rparr>"])
    show "tls_xread_record env tls inp =
       (case tls_dispatch env (?tls1\<lparr>tls_inbuf := ?w\<rparr>) (int n) of
          Inl e \<Rightarrow> Inl e
        | Inr (tls', Return sz) \<Rightarrow> Inr (tls', sz, inp')
        | Inr (tls', Again) \<Rightarrow> tls_xread_record env tls' inp')"
      by (subst tls_xread_record.simps) (simp add: once d Let_def split: sum.splits prod.splits)
    have "mem_read ?w (length r) (tot - length r) = mem_read inbuf (length r) (tot - length r)"
      by (rule mem_read_write_after) (use p t in auto)
    then show "stream (?tls1\<lparr>tls_inbuf := ?w\<rparr>) inp' = rest" using rest by (simp add: stream_def)
    show "mem_read (tls_inbuf (?tls1\<lparr>tls_inbuf := ?w\<rparr>)) 5 n = take n p"
      using p t five by (simp add: mem_read_def mem_write_def)
    show "\<exists>b n off. ?tls1\<lparr>tls_inbuf := ?w\<rparr> = tls\<lparr>tls_inbuf := b, tls_buffered_size := n, tls_ofs_to_buffered := off\<rparr>"
      by (rule exI [of _ ?w], rule exI [of _ "tot - length r"], rule exI [of _ "length r"]) simp
    have "take 5 ?w = take 5 (take (length r) inbuf)" using five t by (simp add: mem_write_def min_def)
    then show "take 5 (tls_inbuf (?tls1\<lparr>tls_inbuf := ?w\<rparr>)) = take 5 r" using pre by simp
  qed (use w t good in \<open>simp_all add: inbuf_ok_def\<close>)
qed

text \<open>Application data and other records that are neither alert nor handshake are returned as they are.\<close>

lemma tls_dispatch_plain:
  assumes "tls_inbuf tls ! 0 \<noteq> RECORD_TYPE_ALERT" "tls_inbuf tls ! 0 \<noteq> RECORD_TYPE_HANDSHAKE"
  shows "tls_dispatch env tls (int n) = Inr (tls, Return n)"
  using assms by (simp add: tls_dispatch_def)

lemma tls_xread_plain:
  assumes ok: "inbuf_ok tls" "good_input inp" and st: "stream tls inp = r @ rest" and r: "starts_with_record r" "hdr_len r = length r"
    and type: "r ! 0 \<noteq> RECORD_TYPE_ALERT" "r ! 0 \<noteq> RECORD_TYPE_HANDSHAKE"
    and dec: "\<And>inbuf tls'. take (length r) inbuf = r \<Longrightarrow> length r \<le> length inbuf \<Longrightarrow>
      (\<exists>b off. tls' = tls\<lparr>tls_inbuf := inbuf, tls_buffered_size := b, tls_ofs_to_buffered := off\<rparr>) \<Longrightarrow>
      tls_decrypt env tls' inbuf (length r - RECHDR_LEN) = Inr (mem_write inbuf 5 p, int n)"
    and p: "5 + length p \<le> length r" "n \<le> length p"
  shows "\<exists>tls' inp'. tls_xread_record env tls inp = Inr (tls', n, inp')
    \<and> mem_read (tls_inbuf tls') 5 n = take n p \<and> stream tls' inp' = rest \<and> inbuf_ok tls' \<and> good_input inp'"
  by (rule tls_xread_decrypted [OF ok st r dec p]) (use type tls_dispatch_plain in auto)

text \<open>What the handshake establishes for the receiving side.\<close>

definition cbc_reader :: "tls_env \<Rightarrow> tls_state \<Rightarrow> byte list \<Rightarrow> bool" where
  "cbc_reader env tls key \<longleftrightarrow> length key \<in> {16, 24, 32} \<and> tls_aes_decrypt tls = aes_setkey key
     \<and> tls_min_encrypted_len_on_read tls = cbc_min env tls \<and> tls_flags tls AND ENCRYPTION_AESGCM = 0"

definition gcm_reader :: "tls_state \<Rightarrow> byte list \<Rightarrow> bool" where
  "gcm_reader tls key \<longleftrightarrow> length key \<in> {16, 24, 32} \<and> tls_aes_decrypt tls = aes_setkey key
     \<and> tls_min_encrypted_len_on_read tls = 8 + AES_BLOCK_SIZE \<and> tls_flags tls AND ENCRYPTION_AESGCM \<noteq> 0
     \<and> length (tls_server_write_IV tls) = 4"

definition delivers :: "tls_env \<Rightarrow> tls_state \<Rightarrow> input list \<Rightarrow> byte list \<Rightarrow> byte list \<Rightarrow> bool" where
  "delivers env tls inp content rest \<longleftrightarrow>
     (case tls_xread_record env tls inp of
        Inl e \<Rightarrow> False
      | Inr (tls', n, inp') \<Rightarrow> n = length content \<and> mem_read (tls_inbuf tls') RECHDR_LEN n = content
          \<and> stream tls' inp' = rest \<and> inbuf_ok tls' \<and> good_input inp')"

text \<open>What the loop collects for a record \<open>r\<close> decrypts to \<open>p\<close>, of which \<open>n\<close> bytes are content.\<close>

definition decrypts :: "tls_env \<Rightarrow> tls_state \<Rightarrow> byte list \<Rightarrow> byte list \<Rightarrow> nat \<Rightarrow> bool" where
  "decrypts env tls r p n \<longleftrightarrow> starts_with_record r \<and> hdr_len r = length r \<and> 5 + length p \<le> length r \<and> n \<le> length p
     \<and> (\<forall>inbuf tls'. take (length r) inbuf = r \<longrightarrow> length r \<le> length inbuf \<longrightarrow>
         (\<exists>b off. tls' = tls\<lparr>tls_inbuf := inbuf, tls_buffered_size := b, tls_ofs_to_buffered := off\<rparr>) \<longrightarrow>
         tls_decrypt env tls' inbuf (length r - RECHDR_LEN) = Inr (mem_write inbuf 5 p, int n))"

lemma cbc_decrypts:
  assumes iv: "length iv = 16" and reader: "cbc_reader env tls key" and mac: "length mac = TLS_MAC_SIZE env tls"
    and enc: "aes_cbc_encrypt (aes_setkey key) iv (cbc_plain content mac) = Some ct" and small: "16 + length ct \<le> 16384 + 2048"
  shows "decrypts env tls (record_hdr type (16 + length ct) @ iv @ ct) (cbc_plain content mac) (length content)"
proof -
  let ?r = "record_hdr type (16 + length ct) @ iv @ ct"
  have key: "length key \<in> {16, 24, 32}" "tls_aes_decrypt tls = aes_setkey key"
      "tls_min_encrypted_len_on_read tls = cbc_min env tls" "tls_flags tls AND ENCRYPTION_AESGCM = 0"
    using reader by (simp_all add: cbc_reader_def)
  obtain k where k: "cbc_plain content mac = content @ mac @ replicate k (word_of_nat (k - 1))"
    "length (cbc_plain content mac) mod 16 = 0" by (rule cbc_plain_parts)
  have ct: "length ct = length (cbc_plain content mac)" "aes_cbc_decrypt (aes_setkey key) iv ct = Some (cbc_plain content mac)"
    using cbc_total [OF key(1) iv k(2)] enc by auto
  have len: "length (iv @ ct) = 16 + length ct" using iv by simp
  have "tls_decrypt env tls' inbuf (length ?r - RECHDR_LEN) = Inr (mem_write inbuf 5 (cbc_plain content mac), int (length content))"
    if "take (length ?r) inbuf = ?r" "length ?r \<le> length inbuf"
      "\<exists>b off. tls' = tls\<lparr>tls_inbuf := inbuf, tls_buffered_size := b, tls_ofs_to_buffered := off\<rparr>" for inbuf tls'
    using that ct mac key iv by (intro tls_decrypt_cbc [OF _ refl, where mac = mac]) (auto simp: cbc_min_def TLS_MAC_SIZE_def)
  moreover have "5 + length (cbc_plain content mac) \<le> length ?r" "length content \<le> length (cbc_plain content mac)"
    using ct(1) iv k(1) by simp_all
  ultimately show ?thesis
    using record_starts [of "iv @ ct" type] small unfolding len decrypts_def by simp
qed

lemma gcm_decrypts:
  assumes l: "length expl = 8" "length tag = 16" "length content \<le> 16 * n" and reader: "gcm_reader tls key"
    and ct: "ct = map2 (XOR) content (gcm_keystream key (take 4 (tls_server_write_IV tls) @ expl) 1 n)" "length ct = length content"
    and small: "length content + 24 \<le> 16384 + 2048"
  shows "decrypts env tls (record_hdr type (length content + 24) @ expl @ ct @ tag) content (length content)"
proof -
  let ?r = "record_hdr type (length content + 24) @ expl @ ct @ tag"
  have len: "length (expl @ ct @ tag) = length content + 24" using l ct(2) by simp
  have "tls_decrypt env tls' inbuf (length ?r - RECHDR_LEN) = Inr (mem_write inbuf 5 content, int (length content))"
    if "take (length ?r) inbuf = ?r" "length ?r \<le> length inbuf"
      "\<exists>b off. tls' = tls\<lparr>tls_inbuf := inbuf, tls_buffered_size := b, tls_ofs_to_buffered := off\<rparr>" for inbuf tls'
    using that l ct reader by (intro tls_decrypt_gcm [OF _ refl, where n = n and key = key]) (auto simp: gcm_reader_def AES_BLOCK_SIZE_def)
  then show ?thesis
    using record_starts [of "expl @ ct @ tag" type] small l ct(2) unfolding len decrypts_def by simp
qed

lemma tls_xread_decrypts:
  assumes ok: "inbuf_ok tls" "good_input inp" and st: "stream tls inp = r @ rest" and d: "decrypts env tls r p n"
    and type: "r ! 0 \<noteq> RECORD_TYPE_ALERT" "r ! 0 \<noteq> RECORD_TYPE_HANDSHAKE"
  shows "\<exists>tls' inp'. tls_xread_record env tls inp = Inr (tls', n, inp')
    \<and> mem_read (tls_inbuf tls') 5 n = take n p \<and> stream tls' inp' = rest \<and> inbuf_ok tls' \<and> good_input inp'"
  by (rule tls_xread_plain [OF ok st _ _ type]) (use d in \<open>auto simp: decrypts_def\<close>)

lemma cbc_read:
  assumes ok: "inbuf_ok tls" "good_input inp" and st: "stream tls inp = record_hdr type (16 + length ct) @ iv @ ct @ rest"
    and type: "type \<noteq> RECORD_TYPE_ALERT" "type \<noteq> RECORD_TYPE_HANDSHAKE" and iv: "length iv = 16"
    and reader: "cbc_reader env tls key" and mac: "length mac = TLS_MAC_SIZE env tls"
    and enc: "aes_cbc_encrypt (aes_setkey key) iv (cbc_plain content mac) = Some ct" and small: "16 + length ct \<le> 16384 + 2048"
  shows "delivers env tls inp content rest"
  using tls_xread_decrypts [OF ok _ cbc_decrypts [OF iv reader mac enc small, of type]] st type
  by (auto simp: delivers_def record_hdr_def cbc_plain_def Let_def RECHDR_LEN_def)

lemma gcm_read:
  assumes ok: "inbuf_ok tls" "good_input inp"
    and st: "stream tls inp = record_hdr type (length content + 24) @ expl @ ct @ tag @ rest"
    and type: "type \<noteq> RECORD_TYPE_ALERT" "type \<noteq> RECORD_TYPE_HANDSHAKE"
    and l: "length expl = 8" "length tag = 16" "length content \<le> 16 * n" and reader: "gcm_reader tls key"
    and ct: "ct = map2 (XOR) content (gcm_keystream key (take 4 (tls_server_write_IV tls) @ expl) 1 n)" "length ct = length content"
    and small: "length content + 24 \<le> 16384 + 2048"
  shows "delivers env tls inp content rest"
  using tls_xread_decrypts [OF ok _ gcm_decrypts [OF l reader ct small, of env type]] st type
  by (auto simp: delivers_def record_hdr_def RECHDR_LEN_def)

section \<open>The buffer and the stream\<close>

lemma tls_fill_keeps:
  assumes "tot \<le> length inbuf" "length inbuf \<le> MAX_INBUF" "target \<le> MAX_INBUF"
    and "tls_fill env inbuf tot target inp = Inr (inbuf', res, inp')"
  shows "length inbuf \<le> length inbuf' \<and> length inbuf' \<le> MAX_INBUF
    \<and> (case res of None \<Rightarrow> tot = 0 \<and> input_bytes inp' = input_bytes inp
       | Some (tot', target') \<Rightarrow> target' \<le> tot' \<and> tot' \<le> length inbuf' \<and> take tot' inbuf' @ input_bytes inp' = take tot inbuf @ input_bytes inp)"
  using assms
proof (induction env inbuf tot target inp rule: tls_fill.induct)
  case (1 env inbuf tot target inp)
  let ?g = "grow_inbuf env inbuf tot"
  show ?case
  proof (cases "fill_bad inbuf tot target \<or> fill_target inbuf tot target \<le> tot")
    case True
    then show ?thesis using 1(2-) by (subst (asm) tls_fill.simps) (auto split: if_splits)
  next
    case False
    then have nb: "\<not> fill_bad inbuf tot target" "\<not> fill_target inbuf tot target \<le> tot" by auto
    have tgt: "fill_target inbuf tot target \<le> MAX_INBUF" using nb(1) 1(4) by (auto simp: fill_target_def fill_bad_def)
    then have tot: "tot < MAX_INBUF" using nb(2) by simp
    note g = length_grow [OF 1(2,3) tot, of env]
    have gl: "length inbuf \<le> length ?g" by (simp add: grow_inbuf_def Let_def)
    obtain d inp1 where d: "safe_read (length ?g - tot) inp = (Some d, inp1)"
      using 1(5) nb by (subst (asm) tls_fill.simps) (auto split: prod.splits option.splits)
    have b: "input_bytes inp = d @ input_bytes inp1" by (rule safe_read_bytes [OF d])
    show ?thesis
    proof (cases "d = []")
      case True
      then show ?thesis using 1(5) nb d b g gl by (subst (asm) tls_fill.simps) (auto split: if_splits)
    next
      case False
      have fit: "tot + length d \<le> length ?g" using safe_read_length [OF d] g(1) by simp
      have tk: "take (tot + length d) (mem_write ?g tot d) = take tot inbuf @ d" using take_mem_write [OF fit] g(3) by simp
      have f: "tls_fill env (mem_write ?g tot d) (tot + length d) (fill_target inbuf tot target) inp1 = Inr (inbuf', res, inp')"
        using 1(5) tls_fill_step [OF nb d False] by simp
      show ?thesis
        using 1(1) [OF nb d [symmetric] refl False _ _ tgt f] fit g gl tk b False
        by (auto split: option.splits)
    qed
  qed
qed

lemma length_aes_steps:
  "length (AddRoundKey st ks) = length st"
  "length (InvSubBytes st) = length st"
  "length (InvShiftRows st) = length st"
  by (simp_all add: AddRoundKey_def InvSubBytes_def InvShiftRows_def Let_def)

lemma length_InvMixColumns: "length st = 16 \<Longrightarrow> length (InvMixColumns st) = 16"
  by (simp add: InvMixColumns_def each_column_def length_column_maps)

lemma length_aes_decrypt_loop: "length st = 16 \<Longrightarrow> length (aes_decrypt_loop key off n st) = 16"
  by (induction key off n st rule: aes_decrypt_loop.induct) (simp_all add: length_aes_steps length_InvMixColumns)

lemma length_aes_cbc_decrypt:
  "aes_cbc_decrypt aes iv ct = Some pt \<Longrightarrow> length iv = 16 \<Longrightarrow> length pt = length ct"
proof (induction aes iv ct arbitrary: pt rule: aes_cbc_decrypt.induct)
  case (1 aes iv ct)
  show ?case
  proof (cases "length ct < 16")
    case True
    then show ?thesis using 1(2) by (subst (asm) aes_cbc_decrypt.simps) (auto split: if_splits)
  next
    case False
    let ?s = "aes_decrypt_1 aes (load_astate ct)"
    have "length ?s = 16"
      using False by (simp add: aes_decrypt_1_def length_aes_decrypt_loop length_aes_steps load_astate_def)
    moreover obtain r where r: "aes_cbc_decrypt aes (take 16 ct) (drop 16 ct) = Some r" "pt = map2 (\<lambda>a v. ucast (a XOR ucast v)) ?s iv @ r"
      using 1(2) False unfolding aes_cbc_decrypt.simps [of aes iv ct] by (auto simp: Let_def simp del: aes_cbc_decrypt.simps split: if_splits)
    moreover have "length r = length (drop 16 ct)"
      by (rule 1(1) [OF _ _ refl refl refl r(1)]) (use False in auto)
    ultimately show ?thesis using 1(3) False by simp
  qed
qed

lemma length_xorbuf3 [simp]: "length (xorbuf3 dst a b n) = length dst"
  by (induction dst a b n rule: xorbuf3.induct) simp_all

lemma length_gcm_decrypt_loop [simp]: "length (gcm_decrypt_loop aes nonce cnt src) = length src"
proof (induction aes nonce cnt src rule: gcm_decrypt_loop.induct)
  case (1 aes nonce cnt src)
  then show ?case by (subst gcm_decrypt_loop.simps) (auto simp: Let_def)
qed

lemma tls_decrypt_keeps:
  assumes "tls_decrypt env tls inbuf sz = Inr (inbuf', n)" and "5 + sz \<le> length inbuf"
  shows "length inbuf' = length inbuf \<and> drop (5 + sz) inbuf' = drop (5 + sz) inbuf \<and> n \<le> int sz"
proof -
  have w: "length (mem_write inbuf 5 p) = length inbuf \<and> drop (5 + sz) (mem_write inbuf 5 p) = drop (5 + sz) inbuf"
    if "length p \<le> sz" for p :: "byte list"
    using that assms(2) by (simp add: mem_write_def add.commute)
  have rd: "length (mem_read inbuf a k) \<le> k" for a k by (simp add: mem_read_def)
  have iv: "length (mem_read inbuf 5 16) = 16" if "16 \<le> sz" using that assms(2) by (simp add: mem_read_def)
  show ?thesis
  proof (cases "tls_flags tls AND ENCRYPTION_AESGCM = 0")
    case True
    show ?thesis
    proof (cases "tls_min_encrypted_len_on_read tls \<noteq> 0 \<and> TLS_MAC_SIZE env tls < tls_min_encrypted_len_on_read tls")
      case cbc: True
      obtain pt b where pt: "sz mod 16 = 0" "tls_min_encrypted_len_on_read tls \<le> sz"
        "aes_cbc_decrypt (tls_aes_decrypt tls) (mem_read inbuf 5 16) (mem_read inbuf 21 (sz - 16)) = Some pt"
        "inbuf' = mem_write inbuf 5 pt" "n = int (sz - 16) - int (TLS_MAC_SIZE env tls + (unat (b :: byte) + 1))"
        using assms(1) True cbc
        by (auto simp: tls_decrypt_def Let_def RECHDR_LEN_def AES_BLOCK_SIZE_def split: if_splits option.splits)
      have "0 < sz" using pt(2) cbc by simp
      then have "16 \<le> sz" using pt(1) by (auto elim: dvdE simp flip: dvd_eq_mod_eq_0 intro: dvd_imp_le)
      then have "length pt \<le> sz" using length_aes_cbc_decrypt [OF pt(3) iv] rd [of 21 "sz - 16"] by simp
      moreover have "n \<le> int sz" unfolding pt(5) by linarith
      ultimately show ?thesis using w pt(4) by simp
    next
      case False
      then show ?thesis using assms(1) True by (auto simp: tls_decrypt_def Let_def split: if_splits)
    qed
  next
    case False
    then have g: "inbuf' = inbuf \<and> n = int sz \<or> (inbuf' = tls_aesgcm_decrypt tls inbuf 5 (sz - 24) \<and> n = int (sz - 24))"
      using assms(1) by (auto simp: tls_decrypt_def Let_def RECHDR_LEN_def AES_BLOCK_SIZE_def split: if_splits)
    have "length (mem_read inbuf 13 (sz - 24)) \<le> sz" using rd [of 13 "sz - 24"] by simp
    then show ?thesis using g w by (auto simp: tls_aesgcm_decrypt_def Let_def)
  qed
qed

lemma tls_dispatch_keeps:
  assumes "tls_dispatch env tls sz = Inr (tls', v)"
  shows "(\<exists>h. tls' = tls\<lparr>tls_hsd := h\<rparr>) \<and> 0 \<le> sz \<and> (\<forall>n. v = Return n \<longrightarrow> int n \<le> sz)"
proof -
  have "\<exists>h. tls = tls\<lparr>tls_hsd := h\<rparr>" by (rule exI [of _ "tls_hsd tls"]) simp
  then show ?thesis using assms
    by (auto simp: tls_dispatch_def Let_def hash_handshake_def split: if_splits option.splits)
qed

text \<open>What one pass and then the whole function keeps: the buffer and the order of the stream.\<close>

definition read_keeps :: "tls_state \<Rightarrow> input list \<Rightarrow> tls_state \<Rightarrow> input list \<Rightarrow> bool" where
  "read_keeps tls inp tls' inp' \<longleftrightarrow> inbuf_ok tls' \<and> length (tls_inbuf tls) \<le> length (tls_inbuf tls')
     \<and> (\<exists>used. stream tls inp = used @ stream tls' inp')"

lemma tls_read_once_keeps:
  assumes ok: "inbuf_ok tls" and r: "tls_read_once env tls inp = Inr (tls', v, inp')"
  shows "read_keeps tls inp tls' inp' \<and> (\<forall>n. v = Return n \<longrightarrow> n = 0 \<or> RECHDR_LEN + n \<le> tls_ofs_to_buffered tls')"
proof -
  let ?b = "tls_buffered_size tls" and ?o = "tls_ofs_to_buffered tls"
  define inbuf0 where "inbuf0 = (if ?b \<noteq> 0 then mem_write (tls_inbuf tls) 0 (mem_read (tls_inbuf tls) ?o ?b) else tls_inbuf tls)"
  have len: "length (mem_read (tls_inbuf tls) ?o ?b) = ?b" "?b \<le> length (tls_inbuf tls)" using ok by (simp_all add: inbuf_ok_def)
  have i0: "take ?b inbuf0 = mem_read (tls_inbuf tls) ?o ?b" "?b \<le> length inbuf0" "length inbuf0 \<le> MAX_INBUF"
    "length inbuf0 = length (tls_inbuf tls)"
    using len ok take_mem_write [of 0 "mem_read (tls_inbuf tls) ?o ?b" "tls_inbuf tls"]
    by (auto simp: inbuf0_def inbuf_ok_def mem_read_def)
  obtain inbuf res inp1 where f: "tls_fill env inbuf0 ?b MAX_INBUF inp = Inr (inbuf, res, inp1)"
    using r by (auto simp: tls_read_once_def Let_def inbuf0_def split: sum.splits)
  note k = tls_fill_keeps [OF i0(2,3) order_refl f]
  show ?thesis
  proof (cases res)
    case None
    then have "tls' = tls\<lparr>tls_inbuf := inbuf, tls_buffered_size := 0\<rparr>" "v = Return 0" "inp' = inp1"
      using r f by (auto simp: tls_read_once_def Let_def inbuf0_def)
    then show ?thesis
      using k None ok i0 by (auto simp: read_keeps_def inbuf_ok_def stream_def mem_read_def)
  next
    case (Some p)
    obtain tot target where p: "p = (tot, target)" by (cases p)
    let ?tls1 = "tls\<lparr>tls_inbuf := inbuf, tls_buffered_size := tot - target, tls_ofs_to_buffered := target\<rparr>"
    have five: "5 \<le> target" using tls_fill_conserve [of env inbuf0 ?b MAX_INBUF inp inbuf tot target inp1] f Some p
      by (simp add: MAX_INBUF_def)
    have t: "target \<le> tot" "tot \<le> length inbuf" "length inbuf \<le> MAX_INBUF" "length (tls_inbuf tls) \<le> length inbuf"
      "take tot inbuf @ input_bytes inp1 = stream tls inp"
      using k Some p i0 by (auto simp: stream_def)
    obtain inbuf' sz where d: "tls_decrypt env ?tls1 inbuf (target - RECHDR_LEN) = Inr (inbuf', sz)"
      "tls_dispatch env (?tls1\<lparr>tls_inbuf := inbuf'\<rparr>) sz = Inr (tls', v)" "inp' = inp1"
      using r f Some p by (auto simp: tls_read_once_def Let_def inbuf0_def split: sum.splits)
    have "5 + (target - 5) \<le> length inbuf" using t five by simp
    then have keep: "length inbuf' = length inbuf" "drop target inbuf' = drop target inbuf" "sz \<le> int (target - 5)"
      using tls_decrypt_keeps [OF d(1)] five by (simp_all add: RECHDR_LEN_def)
    obtain h where h: "tls' = ?tls1\<lparr>tls_inbuf := inbuf'\<rparr>\<lparr>tls_hsd := h\<rparr>" "\<And>n. v = Return n \<Longrightarrow> int n \<le> sz"
      using tls_dispatch_keeps [OF d(2)] by blast
    have "stream tls inp = take target inbuf @ stream tls' inp'"
      using h(1) d(3) keep(2) t unfolding t(5) [symmetric]
      by (simp add: stream_def mem_read_def flip: take_add)
    then show ?thesis
      using h keep t five by (fastforce simp: read_keeps_def inbuf_ok_def RECHDR_LEN_def)
  qed
qed

lemma read_keeps_trans:
  assumes "read_keeps a i b j" "read_keeps b j c k"
  shows "read_keeps a i c k"
  using assms unfolding read_keeps_def by (metis append.assoc order_trans)

lemma tls_xread_record_keeps:
  "inbuf_ok tls \<Longrightarrow> tls_xread_record env tls inp = Inr (tls', n, inp') \<Longrightarrow>
   read_keeps tls inp tls' inp' \<and> (n = 0 \<or> RECHDR_LEN + n \<le> tls_ofs_to_buffered tls')"
proof (induction env tls inp rule: tls_xread_record.induct)
  case (1 env tls inp)
  obtain tls1 v inp1 where o1: "tls_read_once env tls inp = Inr (tls1, v, inp1)"
    using 1(3) by (subst (asm) tls_xread_record.simps) (auto split: sum.splits)
  note k = tls_read_once_keeps [OF 1(2) o1]
  show ?case
  proof (cases v)
    case (Return m)
    then show ?thesis using 1(3) o1 k by (subst (asm) tls_xread_record.simps) auto
  next
    case Again
    have x: "tls_xread_record env tls1 inp1 = Inr (tls', n, inp')"
      using 1(3) o1 Again by (subst (asm) tls_xread_record.simps) auto
    have "inbuf_ok tls1" using k by (simp add: read_keeps_def)
    with 1(1) [OF o1 refl refl Again this x] k read_keeps_trans show ?thesis by blast
  qed
qed

section \<open>Properties\<close>

text \<open>C2: What one side sends with HMAC and AES-CBC the other side receives: \<^verbatim>\<open>tls_xwrite\<close>
  on an output buffer filled with up to 16384 bytes sends one record, and a receiver with the same
  key and MAC size that reads it, however the bytes are cut into packets and whatever follows,
  gets the content back and keeps what follows for the next call.\<close>

theorem tls_cbc_delivery:
  assumes "cbc_ready env tls key" and "mem_read (tls_outbuf tls) OUTBUF_PFX sz = content"
    and "OUTBUF_PFX + sz + OUTBUF_SFX \<le> length (tls_outbuf tls)" and "length iv = 16" and "sz \<le> TLS_MAX_OUTBUF"
    and "\<not> (te_allow_null env \<and> tls_cipher_id tls = TLS_RSA_WITH_NULL_SHA256)"
    and "tls_flags tls AND ENCRYPTION_AESGCM = 0"
  shows "\<exists>tls' r. tls_xwrite env iv tls sz = Some tls' \<and> tls_sent tls' = tls_sent tls @ [r]
    \<and> (\<forall>rcv inp rest. cbc_reader env rcv key \<and> TLS_MAC_SIZE env rcv = TLS_MAC_SIZE env tls \<and> inbuf_ok rcv \<and> good_input inp
          \<and> stream rcv inp = r @ rest \<longrightarrow> delivers env rcv inp content rest)"
proof -
  let ?type = RECORD_TYPE_APPLICATION_DATA
  let ?mac = "record_mac env tls ?type content"
  let ?plain = "cbc_plain content ?mac"
  obtain ct outbuf' where ct: "aes_cbc_encrypt (aes_setkey key) iv ?plain = Some ct" "length ct = length ?plain"
    and x: "xwrite_encrypted_and_hmac_signed env iv tls sz ?type =
        Some (tls\<lparr>tls_write_seq64_be := bswap64 (1 + bswap64 (tls_write_seq64_be tls)), tls_outbuf := outbuf',
          tls_sent := tls_sent tls @ [record_hdr ?type (length ?plain + 16) @ iv @ ct]\<rparr>)"
    using cbc_record [OF assms(1-4,6), of ?type] by blast
  have mac: "length ?mac = TLS_MAC_SIZE env tls" "TLS_MAC_SIZE env tls \<le> 32"
    using record_mac_hmac(2) [OF assms(1)] assms(1) by (auto simp: cbc_ready_def TLS_MAC_SIZE_def)
  obtain k where k: "k \<le> 16" "?plain = content @ ?mac @ replicate k (word_of_nat (k - 1))"
    by (rule cbc_plain_parts)
  have "length content = sz" using assms(2,3) by (auto simp: mem_read_def)
  then have "length ?plain \<le> sz + 32 + 16" using k mac by (subst k(2)) simp
  then have small: "16 + length ct \<le> 16384 + 2048" using ct(2) assms(5) by (simp add: TLS_MAX_OUTBUF_def)
  have "delivers env rcv inp content rest"
    if "cbc_reader env rcv key \<and> TLS_MAC_SIZE env rcv = TLS_MAC_SIZE env tls \<and> inbuf_ok rcv \<and> good_input inp
      \<and> stream rcv inp = (record_hdr ?type (length ?plain + 16) @ iv @ ct) @ rest" for rcv inp rest
    using that mac ct small assms(4)
    by (intro cbc_read [where type = ?type and iv = iv and ct = ct and key = key and mac = ?mac])
      (auto simp: tls_consts add.commute)
  then show ?thesis
    using x assms(7) by (intro exI conjI) (auto simp: tls_xwrite_def xwrite_encrypted_def)
qed

definition bytewise :: "byte list \<Rightarrow> input list" where "bytewise bs = map (\<lambda>b. Packet [b]) bs"

lemma bytewise_input: "input_bytes (bytewise bs) = bs" "good_input (bytewise bs)"
  by (induction bs) (auto simp: bytewise_def good_input_def)

definition demo_rcv :: tls_state where "demo_rcv = demo_tls\<lparr>tls_min_encrypted_len_on_read := 48\<rparr>"

lemma demo_rcv_reader: "cbc_reader demo_env demo_rcv (replicate 16 7)" "inbuf_ok demo_rcv"
  "stream demo_rcv (bytewise bs) = bs"
  by (simp_all add: cbc_reader_def demo_rcv_def demo_tls_def cbc_min_def TLS_MAC_SIZE_def demo_env_def AES_BLOCK_SIZE_def
      inbuf_ok_def MAX_INBUF_def stream_def bytewise_input mem_read_def)

theorem tls_cbc_delivery_witness:
  "\<exists>r. tls_sent (the (tls_xwrite demo_env (replicate 16 4) demo_tls 28)) = [r]
     \<and> delivers demo_env demo_rcv (bytewise (r @ [23, 3, 3])) (replicate 28 5) [23, 3, 3]"
proof -
  obtain tls' r where "tls_xwrite demo_env (replicate 16 4) demo_tls 28 = Some tls'" "tls_sent tls' = tls_sent demo_tls @ [r]"
    and d: "\<forall>rcv inp rest. cbc_reader demo_env rcv (replicate 16 7) \<and> TLS_MAC_SIZE demo_env rcv = TLS_MAC_SIZE demo_env demo_tls
       \<and> inbuf_ok rcv \<and> good_input inp \<and> stream rcv inp = r @ rest \<longrightarrow> delivers demo_env rcv inp (replicate 28 5) rest"
    using tls_cbc_delivery [OF demo_tls_ready(1), of 28 "replicate 28 5" "replicate 16 4"]
    by (auto simp: demo_tls_def demo_env_def tls_consts mem_read_def)
  moreover have "delivers demo_env demo_rcv (bytewise (r @ [23, 3, 3])) (replicate 28 5) [23, 3, 3]"
    by (rule d [rule_format]) (simp add: demo_rcv_reader bytewise_input, simp add: demo_rcv_def TLS_MAC_SIZE_def)
  moreover have "tls_sent demo_tls = []" by (simp add: demo_tls_def)
  ultimately show ?thesis by simp
qed

text \<open>C3: The same for AES-GCM: a receiver whose implicit nonce is the sender's, with the same key,
  decrypts the record in place over the explicit nonce and gets the content back.\<close>

theorem tls_gcm_delivery:
  assumes "gcm_ready tls key" and "mem_read (tls_outbuf tls) OUTBUF_PFX sz = content"
    and "OUTBUF_PFX + sz + OUTBUF_SFX \<le> length (tls_outbuf tls)" and "sz \<le> TLS_MAX_OUTBUF"
    and "tls_flags tls AND ENCRYPTION_AESGCM \<noteq> 0"
  shows "\<exists>tls' r. tls_xwrite env iv tls sz = Some tls' \<and> tls_sent tls' = tls_sent tls @ [r]
    \<and> (\<forall>rcv inp rest. gcm_reader rcv key \<and> tls_server_write_IV rcv = tls_client_write_IV tls \<and> inbuf_ok rcv \<and> good_input inp
          \<and> stream rcv inp = r @ rest \<longrightarrow> delivers env rcv inp content rest)"
proof -
  let ?type = RECORD_TYPE_APPLICATION_DATA and ?seq = "le_bytes 8 (tls_write_seq64_be tls)"
  let ?ct = "map2 (XOR) content (gcm_keystream key (gcm_nonce tls) 1 sz)"
  let ?tag = "gcm_tag key (tls_H tls) (gcm_nonce tls) (gcm_aad tls ?type sz) ?ct"
  let ?r = "record_hdr ?type (sz + 24) @ ?seq @ ?ct @ ?tag"
  obtain outbuf' where ct: "length ?ct = sz" and x: "xwrite_encrypted_aesgcm env tls sz ?type =
        Some (tls\<lparr>tls_write_seq64_be := bswap64 (1 + bswap64 (tls_write_seq64_be tls)), tls_outbuf := outbuf',
          tls_sent := tls_sent tls @ [?r]\<rparr>)"
    using gcm_record [OF assms(1-4), of sz env ?type] by auto
  have sz: "length content = sz" using assms(2,3) by (auto simp: mem_read_def)
  have "delivers env rcv inp content rest"
    if "gcm_reader rcv key \<and> tls_server_write_IV rcv = tls_client_write_IV tls \<and> inbuf_ok rcv \<and> good_input inp
      \<and> stream rcv inp = ?r @ rest" for rcv inp rest
    using that ct sz assms(4)
    by (intro gcm_read [where type = ?type and ct = ?ct and expl = ?seq and tag = ?tag and n = sz and key = key])
      (auto simp: tls_consts gcm_nonce_def gcm_tag_def)
  then show ?thesis
    using x assms(5) by (intro exI conjI) (auto simp: tls_xwrite_def xwrite_encrypted_def)
qed

definition demo_gcm :: tls_state where
  "demo_gcm = demo_tls\<lparr>tls_flags := 32, tls_min_encrypted_len_on_read := 24, tls_server_write_IV := replicate 4 2\<rparr>"

lemma demo_gcm_ready: "gcm_ready demo_gcm (replicate 16 7)" "gcm_reader demo_gcm (replicate 16 7)" "inbuf_ok demo_gcm"
  "stream demo_gcm (bytewise bs) = bs" "tls_flags demo_gcm AND ENCRYPTION_AESGCM \<noteq> 0"
proof -
  have e: "ENCRYPTION_AESGCM = 32" by (simp add: ENCRYPTION_AESGCM_def)
  show "gcm_ready demo_gcm (replicate 16 7)" "gcm_reader demo_gcm (replicate 16 7)" "inbuf_ok demo_gcm"
    "stream demo_gcm (bytewise bs) = bs" "tls_flags demo_gcm AND ENCRYPTION_AESGCM \<noteq> 0"
    by (simp_all add: gcm_ready_def gcm_reader_def demo_gcm_def demo_tls_def AES_BLOCK_SIZE_def
      inbuf_ok_def MAX_INBUF_def stream_def bytewise_input mem_read_def e)
qed

theorem tls_gcm_delivery_witness:
  "\<exists>r. tls_sent (the (tls_xwrite demo_env [] demo_gcm 28)) = [r]
     \<and> delivers demo_env demo_gcm (bytewise (r @ [21])) (replicate 28 5) [21]"
proof -
  obtain tls' r where "tls_xwrite demo_env [] demo_gcm 28 = Some tls'" "tls_sent tls' = tls_sent demo_gcm @ [r]"
    and d: "\<forall>rcv inp rest. gcm_reader rcv (replicate 16 7) \<and> tls_server_write_IV rcv = tls_client_write_IV demo_gcm
       \<and> inbuf_ok rcv \<and> good_input inp \<and> stream rcv inp = r @ rest \<longrightarrow> delivers demo_env rcv inp (replicate 28 5) rest"
    using tls_gcm_delivery [OF demo_gcm_ready(1) _ _ _ demo_gcm_ready(5), of 28 "replicate 28 5" demo_env "[]"]
    by (auto simp: demo_gcm_def demo_tls_def tls_consts mem_read_def)
  moreover have "delivers demo_env demo_gcm (bytewise (r @ [21])) (replicate 28 5) [21]"
    by (rule d [rule_format]) (simp add: demo_gcm_ready bytewise_input, simp add: demo_gcm_def demo_tls_def)
  moreover have "tls_sent demo_gcm = []" by (simp add: demo_gcm_def demo_tls_def)
  ultimately show ?thesis by simp
qed

text \<open>C38: The receiver does not authenticate: a CBC record is accepted and its content delivered
  whatever the bytes in the place of the MAC are, and a GCM record whatever its tag is.\<close>

theorem tls_read_any_mac:
  assumes "inbuf_ok tls" and "good_input inp" and "type \<noteq> RECORD_TYPE_ALERT" and "type \<noteq> RECORD_TYPE_HANDSHAKE"
    and "length content \<le> 16384"
  shows "(\<forall>key iv ct mac. cbc_reader env tls key \<and> length iv = 16 \<and> length mac = TLS_MAC_SIZE env tls \<and> TLS_MAC_SIZE env tls \<le> 32
           \<and> aes_cbc_encrypt (aes_setkey key) iv (cbc_plain content mac) = Some ct
           \<and> stream tls inp = record_hdr type (16 + length ct) @ iv @ ct @ rest
           \<longrightarrow> delivers env tls inp content rest)
    \<and> (\<forall>key expl tag. gcm_reader tls key \<and> length expl = 8 \<and> length tag = 16
           \<and> stream tls inp = record_hdr type (length content + 24) @ expl
               @ map2 (XOR) content (gcm_keystream key (take 4 (tls_server_write_IV tls) @ expl) 1 (length content)) @ tag @ rest
           \<longrightarrow> delivers env tls inp content rest)"
proof (intro conjI allI impI)
  fix key iv ct mac
  assume a: "cbc_reader env tls key \<and> length iv = 16 \<and> length mac = TLS_MAC_SIZE env tls \<and> TLS_MAC_SIZE env tls \<le> 32
           \<and> aes_cbc_encrypt (aes_setkey key) iv (cbc_plain content mac) = Some ct
           \<and> stream tls inp = record_hdr type (16 + length ct) @ iv @ ct @ rest"
  then have key: "length key \<in> {16, 24, 32}" by (simp add: cbc_reader_def)
  obtain k where k: "k \<le> 16" "cbc_plain content mac = content @ mac @ replicate k (word_of_nat (k - 1))"
    "length (cbc_plain content mac) mod 16 = 0" by (rule cbc_plain_parts)
  obtain ct' where "aes_cbc_encrypt (aes_setkey key) iv (cbc_plain content mac) = Some ct'" "length ct' = length (cbc_plain content mac)"
    using a by (auto intro: cbc_total [OF key _ k(3)])
  then have "length ct = length (cbc_plain content mac)" using a by simp
  also have "\<dots> \<le> 16384 + 32 + 16" using k(1) a assms(5) by (subst k(2)) simp
  finally show "delivers env tls inp content rest"
    using a by (intro cbc_read [OF assms(1,2) _ assms(3,4), where key = key and iv = iv and ct = ct and mac = mac]) auto
next
  fix key expl tag
  let ?ks = "gcm_keystream key (take 4 (tls_server_write_IV tls) @ expl) 1 (length content)"
  assume a: "gcm_reader tls key \<and> length expl = 8 \<and> length tag = 16
    \<and> stream tls inp = record_hdr type (length content + 24) @ expl @ map2 (XOR) content ?ks @ tag @ rest"
  then have key: "length key \<in> {16, 24, 32}" and nonce: "length (take 4 (tls_server_write_IV tls) @ expl) = 12"
    by (simp_all add: gcm_reader_def)
  have "length ?ks = 16 * length content"
    unfolding gcm_keystream_def
    by (simp add: length_concat comp_def length_aes_block [OF key length_nonce_block [OF nonce]] sum_list_triv)
  then show "delivers env tls inp content rest"
    using a assms(5)
    by (intro gcm_read [OF assms(1,2) _ assms(3,4), where key = key and expl = expl and tag = tag and n = "length content"
        and ct = "map2 (XOR) content ?ks"]) auto
qed

theorem tls_read_any_mac_witness:
  "delivers demo_env demo_gcm
     (bytewise (record_hdr 23 27 @ replicate 8 0 @ map2 (XOR) [1, 2, 3] (gcm_keystream (replicate 16 7) (replicate 4 2 @ replicate 8 0) 1 3)
        @ replicate 16 0 @ [9])) [1, 2, 3] [9]"
  using tls_read_any_mac [OF demo_gcm_ready(3) bytewise_input(2), of 23 "[1, 2, 3]" demo_env
      "record_hdr 23 27 @ replicate 8 0 @ map2 (XOR) [1, 2, 3] (gcm_keystream (replicate 16 7) (replicate 4 2 @ replicate 8 0) 1 3)
        @ replicate 16 0 @ [9]" "[9]", THEN conjunct2, rule_format, of "replicate 16 7" "replicate 8 0" "replicate 16 0"]
  by (simp add: demo_gcm_ready RECORD_TYPE_ALERT_def RECORD_TYPE_HANDSHAKE_def)
    (simp add: demo_gcm_def numeral_3_eq_3)

text \<open>C12: Every input keeps the input buffer well formed: whatever the peer sends, a call that
  returns leaves a buffer of at most \<open>MAX_INBUF\<close> bytes that never shrinks, with the kept bytes
  inside it; the bytes consumed are a prefix of the stream, so none is lost, repeated or moved; and
  the content reported lies before the kept bytes.\<close>

theorem tls_xread_record_invariant:
  assumes "inbuf_ok tls" and "tls_xread_record env tls inp = Inr (tls', n, inp')"
  shows "inbuf_ok tls' \<and> length (tls_inbuf tls) \<le> length (tls_inbuf tls')
    \<and> (\<exists>used. stream tls inp = used @ stream tls' inp') \<and> (n = 0 \<or> RECHDR_LEN + n \<le> tls_ofs_to_buffered tls')"
  using tls_xread_record_keeps [OF assms] by (simp add: read_keeps_def)

theorem tls_xread_record_invariant_witness:
  "\<exists>tls'. tls_xread_record demo_env demo_tls [] = Inr (tls', 0, []) \<and> inbuf_ok tls'"
proof -
  have "tls_xread_record demo_env demo_tls [] = Inr (demo_tls\<lparr>tls_inbuf := grow_inbuf demo_env [] 0\<rparr>, 0, [])"
    by (subst tls_xread_record.simps)
      (simp add: tls_read_once_def demo_tls_def tls_fill.simps fill_bad_def fill_target_def RECHDR_LEN_def MAX_INBUF_def)
  moreover have "inbuf_ok demo_tls" by (simp add: inbuf_ok_def demo_tls_def)
  ultimately show ?thesis using tls_xread_record_invariant by blast
qed

text \<open>Alerts on an unencrypted connection: a fatal alert ends the program with its code,
  \<^verbatim>\<open>close_notify\<close> and an alert of undefined level read as the end of the stream, and any other
  warning is dropped and the next record read.\<close>

theorem tls_xread_alert:
  assumes "inbuf_ok tls" and "good_input inp" and "tls_min_encrypted_len_on_read tls = 0"
    and "stream tls inp = record_hdr RECORD_TYPE_ALERT 2 @ [level, code] @ rest"
  shows "\<exists>tls' inp'. stream tls' inp' = rest \<and> inbuf_ok tls' \<and> good_input inp' \<and> tls_xread_record env tls inp =
    (if level = 2 then Inl (Alert_from_peer code)
     else if level = 1 \<and> code \<noteq> 0 then tls_xread_record env tls' inp'
     else Inr (tls', 0, inp'))"
proof -
  let ?r = "record_hdr RECORD_TYPE_ALERT 2 @ [level, code]"
  have starts: "starts_with_record ?r" "hdr_len ?r = length ?r"
    using record_starts [of "[level, code]" RECORD_TYPE_ALERT] by (simp_all add: numeral_2_eq_2)
  obtain inp1 tls1 where x: "tls_xread_record env tls inp =
       (case tls_dispatch env tls1 (int 2) of
          Inl e \<Rightarrow> Inl e
        | Inr (tls', Return sz) \<Rightarrow> Inr (tls', sz, inp1)
        | Inr (tls', Again) \<Rightarrow> tls_xread_record env tls' inp1)"
    and t: "tls_inbuf tls1 ! 0 = ?r ! 0" "mem_read (tls_inbuf tls1) 5 2 = take 2 [level, code]"
      "stream tls1 inp1 = rest" "inbuf_ok tls1" "good_input inp1"
  proof (rule tls_xread_decrypted [OF assms(1,2) _ starts, where env = env and p = "[level, code]" and n = 2 and rest = rest])
    fix inbuf tls'
    assume a: "take (length ?r) inbuf = ?r" "length ?r \<le> length inbuf"
      "\<exists>b off. tls' = tls\<lparr>tls_inbuf := inbuf, tls_buffered_size := b, tls_ofs_to_buffered := off\<rparr>"
    have "mem_read inbuf 5 2 = mem_read ?r 5 2" by (rule read_prefix [OF a(1)]) simp
    then have "mem_write inbuf 5 [level, code] = inbuf"
      using a(2) append_take_drop_id [of 5 inbuf] append_take_drop_id [of 2 "drop 5 inbuf"]
      by (simp add: mem_write_def mem_read_def record_hdr_def)
    then show "tls_decrypt env tls' inbuf (length ?r - RECHDR_LEN) = Inr (mem_write inbuf 5 [level, code], int 2)"
      using a(3) assms(3) by (auto simp: tls_decrypt_def RECHDR_LEN_def)
  qed (use assms(4) in simp_all)
  have "tls_inbuf tls1 ! 5 = level" "tls_inbuf tls1 ! 6 = code"
    using arg_cong [OF t(2), of "\<lambda>l. l ! 0"] arg_cong [OF t(2), of "\<lambda>l. l ! 1"] arg_cong [OF t(2), of length]
    by (auto simp: mem_read_def)
  then show ?thesis
    using t x by (intro exI [of _ tls1] exI [of _ inp1]) (auto simp: tls_dispatch_def Let_def RECHDR_LEN_def record_hdr_def)
qed

theorem tls_xread_alert_witness:
  "tls_xread_record demo_env demo_tls (bytewise [21, 3, 3, 0, 2, 2, 40, 7]) = Inl (Alert_from_peer 40)"
proof -
  have "stream demo_tls (bytewise [21, 3, 3, 0, 2, 2, 40, 7]) = record_hdr RECORD_TYPE_ALERT 2 @ [2, 40] @ [7]"
    "inbuf_ok demo_tls"
    by (simp_all add: stream_def bytewise_input demo_tls_def mem_read_def record_hdr_def tls_consts inbuf_ok_def)
  from tls_xread_alert [OF this(2) bytewise_input(2) _ this(1), of demo_env] show ?thesis
    by (auto simp: demo_tls_def)
qed

text \<open>After the handshake its data is freed and the pointer set to null; a handshake record that
  the peer sends then, correctly encrypted (a request to renegotiate, say), makes the receiver hash
  it through the null pointer.\<close>

theorem tls_handshake_record_after_handshake:
  assumes "inbuf_ok tls" and "good_input inp" and "gcm_reader tls key" and "tls_hsd tls = None"
    and "stream tls inp = record_hdr RECORD_TYPE_HANDSHAKE (length content + 24) @ expl @ ct @ tag @ rest"
    and "length expl = 8" and "length tag = 16" and "length content \<le> 16384" and "length ct = length content"
    and "ct = map2 (XOR) content (gcm_keystream key (take 4 (tls_server_write_IV tls) @ expl) 1 (length content))"
  shows "tls_xread_record env tls inp = Inl Null_hsd"
proof -
  let ?r = "record_hdr RECORD_TYPE_HANDSHAKE (length content + 24) @ expl @ ct @ tag"
  have len: "length (expl @ ct @ tag) = length content + 24" using assms by simp
  have starts: "starts_with_record ?r" "hdr_len ?r = length ?r"
    using record_starts [of "expl @ ct @ tag" RECORD_TYPE_HANDSHAKE] assms(8) unfolding len by simp_all
  have dec: "tls_decrypt env tls' inbuf (length ?r - RECHDR_LEN) = Inr (mem_write inbuf 5 content, int (length content))"
    if "take (length ?r) inbuf = ?r" "length ?r \<le> length inbuf"
      "\<exists>b off. tls' = tls\<lparr>tls_inbuf := inbuf, tls_buffered_size := b, tls_ofs_to_buffered := off\<rparr>" for inbuf tls'
    using that assms by (intro tls_decrypt_gcm [OF _ refl, where n = "length content" and key = key])
      (auto simp: gcm_reader_def AES_BLOCK_SIZE_def)
  have st: "stream tls inp = ?r @ rest" using assms(5) by simp
  have p: "5 + length content \<le> length ?r" using assms by simp
  show ?thesis
    by (rule tls_xread_decrypted [OF assms(1,2) st starts dec p order_refl])
      (use assms(4) in \<open>auto simp: tls_dispatch_def Let_def hash_handshake_def record_hdr_def RECORD_TYPE_ALERT_def RECORD_TYPE_HANDSHAKE_def\<close>)
qed

theorem tls_handshake_record_after_handshake_witness:
  "tls_xread_record demo_env (demo_gcm\<lparr>tls_hsd := None\<rparr>)
     (bytewise (record_hdr 22 24 @ replicate 8 0 @ replicate 16 0)) = Inl Null_hsd"
  by (rule tls_handshake_record_after_handshake [where key = "replicate 16 7" and content = "[]" and expl = "replicate 8 0" and ct = "[]"
      and tag = "replicate 16 0" and rest = "[]"])
    (use demo_gcm_ready bytewise_input in \<open>simp_all add: inbuf_ok_def gcm_reader_def stream_def RECORD_TYPE_HANDSHAKE_def\<close>)

end
