(* ===== verification/Tls_Fe.thy ===== *)
theory Tls_Fe
  imports Byte_Words
begin

text \<open>
  \<^verbatim>\<open>networking/tls_fe.c\<close>: arithmetic modulo \<open>2\<^sup>2\<^sup>5\<^sup>5 - 19\<close> on numbers of 32 bytes, least
  significant byte first, and the scalar multiplication of X25519. The numbers are kept only
  partly reduced; \<^verbatim>\<open>fe_normalize\<close> reduces the result. The 32-bit accumulators are words.
\<close>

section \<open>Field elements\<close>

definition F25519_SIZE :: nat where "F25519_SIZE = 32"

text \<open>
  The two forms of the loops over the bytes of a result, for the statement \<open>f i\<close> that adds to the
  accumulator: shift before adding, or after storing.
\<close>

fun shift_add_loop :: "(nat \<Rightarrow> u32 \<Rightarrow> u32) \<Rightarrow> nat list \<Rightarrow> u32 \<Rightarrow> byte list \<times> u32" where
  "shift_add_loop f [] c = ([], c)"
| "shift_add_loop f (i # is) c =
     (let c = drop_bit 8 c; c = f i c; (r, c') = shift_add_loop f is c in (ucast c # r, c'))"

fun add_shift_loop :: "(nat \<Rightarrow> u32 \<Rightarrow> u32) \<Rightarrow> nat list \<Rightarrow> u32 \<Rightarrow> byte list \<times> u32" where
  "add_shift_loop f [] c = ([], c)"
| "add_shift_loop f (i # is) c =
     (let c = f i c; (r, c') = add_shift_loop f is (drop_bit 8 c) in (ucast c # r, c'))"

definition fe_reduce :: "byte list \<Rightarrow> u32 \<Rightarrow> byte list" where
  "fe_reduce x c =
     (let x = x[31 := ucast (c AND 127)];
          c = drop_bit 7 c * 19
      in fst (add_shift_loop (\<lambda>i c. c + ucast (x ! i)) [0..<F25519_SIZE] c))"

definition fe_normalize :: "byte list \<Rightarrow> byte list" where
  "fe_normalize x =
     (let x = fe_reduce x (ucast (x ! 31));
          (minusp, c) = add_shift_loop (\<lambda>i c. c + ucast (x ! i)) [0..<F25519_SIZE - 1] 19;
          c = c + (ucast (x ! 31) - 128);
          minusp = minusp @ [ucast c]
      in if c AND push_bit 15 1 = 0 then minusp else x)"

definition lm_add :: "byte list \<Rightarrow> byte list \<Rightarrow> byte list" where
  "lm_add a b =
     (let (r, c) = shift_add_loop (\<lambda>i c. c + (ucast (a ! i) + ucast (b ! i))) [0..<F25519_SIZE] 0
      in fe_reduce r c)"

text \<open>The loop leaves \<^verbatim>\<open>r[31]\<close> alone, which \<^verbatim>\<open>fe_reduce\<close> overwrites.\<close>

definition lm_sub :: "byte list \<Rightarrow> byte list \<Rightarrow> byte list" where
  "lm_sub a b =
     (let (r, c) = add_shift_loop (\<lambda>i c. c + (65280 + ucast (a ! i) - ucast (b ! i))) [0..<F25519_SIZE - 1] 218;
          c = c + (ucast (a ! 31) - ucast (b ! 31))
      in fe_reduce (r @ [0]) c)"

definition fe_mul__distinct :: "byte list \<Rightarrow> byte list \<Rightarrow> byte list" where
  "fe_mul__distinct a b =
     (let (r, c) = shift_add_loop
            (\<lambda>i c. let c = fold (\<lambda>j c. c + ucast (a ! j) * ucast (b ! (i - j))) [0..<i + 1] c
                   in fold (\<lambda>j c. c + ucast (a ! j) * ucast (b ! (i + F25519_SIZE - j)) * 38) [i + 1..<F25519_SIZE] c)
            [0..<F25519_SIZE] 0
      in fe_reduce r c)"

definition fe_mul_c :: "byte list \<Rightarrow> u32 \<Rightarrow> byte list" where
  "fe_mul_c a b =
     (let (r, c) = shift_add_loop (\<lambda>i c. c + b * ucast (a ! i)) [0..<F25519_SIZE] 0
      in fe_reduce r c)"

definition fe_inv__distinct :: "byte list \<Rightarrow> byte list" where
  "fe_inv__distinct x =
     (let square_times_x = (\<lambda>r. let s = fe_mul__distinct r r in fe_mul__distinct s x);
          r = x;
          r = (square_times_x ^^ 249) r;
          s = fe_mul__distinct r r;
          r = fe_mul__distinct s s;
          s = fe_mul__distinct r x;
          r = fe_mul__distinct s s
      in (square_times_x ^^ 2) r)"

section \<open>The ladder\<close>

definition xc_diffadd :: "byte list \<Rightarrow> byte list \<Rightarrow> byte list \<Rightarrow> byte list \<Rightarrow> byte list \<Rightarrow> byte list
    \<Rightarrow> byte list \<times> byte list" where
  "xc_diffadd x1 z1 x2 z2 x3 z3 =
     (let a = lm_add x2 z2;
          b = lm_sub x3 z3;
          da = fe_mul__distinct a b;
          b = lm_sub x2 z2;
          a = lm_add x3 z3;
          cb = fe_mul__distinct a b;
          a = lm_add da cb;
          b = fe_mul__distinct a a;
          x5 = fe_mul__distinct z1 b;
          a = lm_sub da cb;
          b = fe_mul__distinct a a;
          z5 = fe_mul__distinct x1 b
      in (x5, z5))"

definition xc_double :: "byte list \<Rightarrow> byte list \<Rightarrow> byte list \<times> byte list" where
  "xc_double x1 z1 =
     (let x1sq = fe_mul__distinct x1 x1;
          z1sq = fe_mul__distinct z1 z1;
          x1z1 = fe_mul__distinct x1 z1;
          a = lm_sub x1sq z1sq;
          x3 = fe_mul__distinct a a;
          a = fe_mul_c x1z1 486662;
          a = lm_add x1sq a;
          a = lm_add z1sq a;
          x1sq = fe_mul__distinct x1z1 a;
          z3 = fe_mul_c x1sq 4
      in (x3, z3))"

text \<open>The part of \<^verbatim>\<open>struct Z\<close> that the loop changes, in the order of its fields.\<close>

record ladder =
  lad_xm1 :: "byte list"
  lad_zm1 :: "byte list"
  lad_xm :: "byte list"
  lad_zm :: "byte list"
  lad_xms :: "byte list"
  lad_zms :: "byte list"

definition fe_small :: "byte \<Rightarrow> byte list" where "fe_small v = v # replicate 31 0"

text \<open>
  One pass. The \<^verbatim>\<open>memmove\<close> of four elements from \<^verbatim>\<open>xm\<close> to \<^verbatim>\<open>xm1\<close> assigns
  the last four fields to the first four.
\<close>

definition ladder_pass :: "byte list \<Rightarrow> byte list \<Rightarrow> nat \<Rightarrow> ladder \<Rightarrow> ladder" where
  "ladder_pass e q i z =
     (let bit = drop_bit (i AND 7) (e ! (drop_bit 3 i)) AND 1;
          (xm1, zm1) = xc_diffadd q (fe_small 1) (lad_xm z) (lad_zm z) (lad_xm1 z) (lad_zm1 z);
          (xm, zm) = xc_double (lad_xm z) (lad_zm z);
          (xms, zms) = xc_diffadd xm1 zm1 xm zm q (fe_small 1)
      in if bit \<noteq> 0
         then \<lparr>lad_xm1 = xm, lad_zm1 = zm, lad_xm = xms, lad_zm = zms, lad_xms = xms, lad_zms = zms\<rparr>
         else \<lparr>lad_xm1 = xm1, lad_zm1 = zm1, lad_xm = xm, lad_zm = zm, lad_xms = xms, lad_zms = zms\<rparr>)"

text \<open>\<open>None\<close> for \<open>q\<close> is the null pointer that stands for the base point.\<close>

definition curve25519 :: "byte list \<Rightarrow> byte list option \<Rightarrow> byte list" where
  "curve25519 e q_opt =
     (let q = (case q_opt of None \<Rightarrow> fe_small 9 | Some q \<Rightarrow> q);
          z = \<lparr>lad_xm1 = fe_small 1, lad_zm1 = fe_small 0, lad_xm = q, lad_zm = fe_small 1,
               lad_xms = fe_small 0, lad_zms = fe_small 0\<rparr>;
          z = fold (ladder_pass e q) (rev [0..<254]) z;
          zm1 = fe_inv__distinct (lad_zm z)
      in fe_normalize (fe_mul__distinct zm1 (lad_xm z)))"

text \<open>\<open>random\<close> is what \<^verbatim>\<open>tls_get_random\<close> delivers; public key and premaster secret.\<close>

definition curve_x25519_compute_pubkey_and_premaster :: "byte list \<Rightarrow> byte list \<Rightarrow> byte list \<times> byte list" where
  "curve_x25519_compute_pubkey_and_premaster random peerkey32 =
     (let privkey = random[0 := random ! 0 AND 0xf8];
          privkey = privkey[31 := (privkey ! 31 AND 0x7f) OR 0x40]
      in (curve25519 privkey None, curve25519 privkey (Some peerkey32)))"

section \<open>Numbers\<close>

fun lval :: "byte list \<Rightarrow> int" where
  "lval [] = 0"
| "lval (b # bs) = uint b + 256 * lval bs"

definition p25519 :: int where "p25519 = 2 ^ 255 - 19"

lemma lval_append: "lval (xs @ ys) = lval xs + 256 ^ length xs * lval ys"
  by (induction xs) (simp_all add: algebra_simps)

lemma lval_ge [simp]: "0 \<le> lval xs" by (induction xs) simp_all

lemma uint_byte: "uint (b :: byte) < 256" using uint_lt2p [of b] by simp

lemma lval_less: "lval xs < 256 ^ length xs"
proof (induction xs)
  case (Cons b bs)
  then have "lval bs \<le> 256 ^ length bs - 1" by simp
  then show ?case using uint_byte [of b] by simp
qed simp

lemma lval_take_last: "length xs = Suc n \<Longrightarrow> lval xs = lval (take n xs) + 256 ^ n * uint (xs ! n)"
proof -
  assume n: "length xs = Suc n"
  then have "xs = take n xs @ [xs ! n]" by (metis take_Suc_conv_app_nth lessI order_refl take_all)
  then have "lval xs = lval (take n xs @ [xs ! n])" by simp
  also have "\<dots> = lval (take n xs) + 256 ^ n * uint (xs ! n)" using n by (simp add: lval_append)
  finally show ?thesis .
qed

lemma lval_sum: "lval xs = (\<Sum>i < length xs. uint (xs ! i) * 256 ^ i)"
  by (induction xs) (simp_all add: sum.lessThan_Suc_shift sum_distrib_left mult.assoc mult.left_commute del: sum.lessThan_Suc)

lemma uint_ucast_byte: "uint (ucast (c :: u32) :: byte) = uint c mod 256"
  by (simp add: unsigned_ucast_eq take_bit_eq_mod)

lemma uint_shift8: "uint (drop_bit 8 (c :: u32)) = uint c div 256"
  by (simp add: drop_bit_eq_div uint_div)

lemma uint_of_byte: "uint (ucast (b :: byte) :: u32) = uint b"
  by (simp add: unsigned_ucast_eq take_bit_int_eq_self less_trans [OF uint_byte])

lemma uint_add32: "uint a + uint b < 2 ^ 32 \<Longrightarrow> uint (a + b :: u32) = uint a + uint b"
  by (simp add: uint_word_ariths)

lemma uint_mult32: "uint a * uint b < 2 ^ 32 \<Longrightarrow> uint (a * b :: u32) = uint a * uint b"
  by (simp add: uint_word_ariths)

lemma uint_add_byte: "uint c < 2 ^ 31 \<Longrightarrow> uint (c + ucast (b :: byte) :: u32) = uint c + uint b"
  using uint_add32 [of c "ucast b"] uint_byte [of b] by (simp add: uint_of_byte)

lemma uint_and_127: "uint (ucast (c AND 127 :: u32) :: byte) = uint c mod 128"
proof -
  have "c AND 127 = take_bit 7 c" unfolding take_bit_eq_mask by (simp add: mask_eq_exp_minus_1)
  then show ?thesis by (simp add: unsigned_ucast_eq unsigned_take_bit_eq flip: take_bit_eq_mod [of 7, simplified])
qed

section \<open>The loops\<close>

text \<open>
  Both loops write the digits of a sum of numbers \<open>D i * 256 ^ i\<close> if the accumulator does not
  overflow.
\<close>

lemma carry_step:
  fixes q :: int
  assumes "l + w * c = q div 256 + s"
  shows "q mod 256 + 256 * l + 256 * w * c = q + 256 * s"
proof -
  have "256 * (l + w * c) = 256 * (q div 256) + 256 * s" using assms by simp
  moreover have "q = 256 * (q div 256) + q mod 256" by simp
  ultimately show ?thesis by (simp only: distrib_left mult.assoc)
qed

lemma add_shift_loop_value:
  assumes "\<And>i c. i < N \<Longrightarrow> uint c < 2 ^ 30 \<Longrightarrow> uint (f i c) = uint c + D i"
    and "a + n \<le> N" and "uint c < 2 ^ 30" and "add_shift_loop f [a..<a + n] c = (r, c')"
  shows "length r = n \<and> lval r + 256 ^ n * uint c' = uint c + (\<Sum>i < n. D (a + i) * 256 ^ i) \<and> uint c' < 2 ^ 30"
  using assms(2-)
proof (induction n arbitrary: a c r)
  case (Suc n)
  let ?c = "f a c"
  have c: "uint ?c = uint c + D a" using assms(1) Suc.prems(1,2) by simp
  obtain r1 where r: "add_shift_loop f [Suc a..<Suc a + n] (drop_bit 8 ?c) = (r1, c')" "r = ucast ?c # r1"
    using Suc.prems(3) by (auto simp: upt_conv_Cons Let_def split: prod.splits simp del: upt_Suc)
  have small: "uint (drop_bit 8 ?c) < 2 ^ 30"
    unfolding uint_shift8 using uint_lt2p [of ?c] by simp
  have sum: "(\<Sum>i < Suc n. D (a + i) * 256 ^ i) = D a + 256 * (\<Sum>i < n. D (Suc a + i) * 256 ^ i)"
    by (simp add: sum.lessThan_Suc_shift sum_distrib_left mult.left_commute del: sum.lessThan_Suc)
  let ?S = "\<Sum>i < n. D (Suc a + i) * 256 ^ i"
  note ih = Suc.IH [OF _ small r(1)]
  then have "lval r1 + 256 ^ n * uint c' = uint ?c div 256 + ?S" using Suc.prems(1) unfolding uint_shift8 by simp
  from carry_step [OF this] have "lval r + 256 ^ Suc n * uint c' = uint c + (D a + 256 * ?S)"
    unfolding r(2) c by (simp add: uint_ucast_byte c)
  then show ?case using ih Suc.prems(1) unfolding sum r(2) by simp
qed simp

lemma shift_add_loop_value:
  assumes "\<And>i c. i < N \<Longrightarrow> uint c < 2 ^ 24 \<Longrightarrow> uint (f i c) = uint c + D i"
    and "a + Suc n \<le> N" and "shift_add_loop f [a..<a + Suc n] c = (r, c')"
  shows "length r = Suc n \<and> lval (take n r) + 256 ^ n * uint c' = uint c div 256 + (\<Sum>i < Suc n. D (a + i) * 256 ^ i)"
  using assms(2-)
proof (induction n arbitrary: a c r)
  case 0
  have "uint (drop_bit 8 c) < 2 ^ 24" unfolding uint_shift8 using uint_lt2p [of c] by simp
  then show ?case using 0 assms(1) by (auto simp: uint_shift8 Let_def)
next
  case (Suc n)
  let ?c = "f a (drop_bit 8 c)"
  have "uint (drop_bit 8 c) < 2 ^ 24" unfolding uint_shift8 using uint_lt2p [of c] by simp
  then have c: "uint ?c = uint c div 256 + D a" using assms(1) Suc.prems(1) by (simp add: uint_shift8)
  obtain r1 where r: "shift_add_loop f [Suc a..<Suc a + Suc n] ?c = (r1, c')" "r = ucast ?c # r1"
    using Suc.prems(2) by (subst (asm) upt_conv_Cons) (auto simp: Let_def split: prod.splits simp del: upt_Suc)
  have sum: "(\<Sum>i < Suc (Suc n). D (a + i) * 256 ^ i) = D a + 256 * (\<Sum>i < Suc n. D (Suc a + i) * 256 ^ i)"
    by (simp add: sum.lessThan_Suc_shift [of _ "Suc n"] sum_distrib_left mult.left_commute del: sum.lessThan_Suc)
  let ?S = "\<Sum>i < Suc n. D (Suc a + i) * 256 ^ i"
  note ih = Suc.IH [OF _ r(1)]
  then have "lval (take n r1) + 256 ^ n * uint c' = uint ?c div 256 + ?S" using Suc.prems(1) by simp
  from carry_step [OF this] have "lval (take (Suc n) r) + 256 ^ Suc n * uint c' = uint c div 256 + (D a + 256 * ?S)"
    unfolding r(2) c by (simp add: uint_ucast_byte c del: sum.lessThan_Suc)
  then show ?case using ih Suc.prems(1) unfolding sum r(2) by simp
qed


section \<open>The operations\<close>

lemma fe_reduce_value:
  assumes "length x = 32"
  shows "length (fe_reduce x c) = 32"
    and "lval (fe_reduce x c) = lval (take 31 x) + 256 ^ 31 * (uint c mod 128) + uint c div 128 * 19"
proof -
  let ?x = "x[31 := ucast (c AND 127)]" and ?c = "drop_bit 7 c * 19"
  have c7: "uint (drop_bit 7 c) = uint c div 128" by (simp add: drop_bit_eq_div uint_div)
  have "uint c div 128 \<le> 2 ^ 25" using uint_lt2p [of c] by simp
  then have c: "uint ?c = uint c div 128 * 19" "uint ?c < 2 ^ 30"
    using uint_mult32 [of "drop_bit 7 c" 19] by (simp_all add: c7)
  obtain r c' where l: "add_shift_loop (\<lambda>i c. c + ucast (?x ! i)) [0..<0 + 32] ?c = (r, c')" by fastforce
  have "length r = 32 \<and> lval r + 256 ^ 32 * uint c' = uint ?c + (\<Sum>i < 32. uint (?x ! (0 + i)) * 256 ^ i) \<and> uint c' < 2 ^ 30"
    by (rule add_shift_loop_value [OF _ _ c(2) l, where N = 32])
      (simp_all add: uint_add_byte)
  moreover have "(\<Sum>i < 32. uint (?x ! (0 + i)) * 256 ^ i) = lval ?x" using assms by (simp add: lval_sum)
  ultimately have r: "length r = 32" "lval r + 256 ^ 32 * uint c' = uint ?c + lval ?x" by simp_all
  have x: "lval ?x = lval (take 31 x) + 256 ^ 31 * (uint c mod 128)"
    using lval_take_last [of ?x 31] assms
    by (simp add: uint_and_127)
  have "lval (take 31 x) < 256 ^ 31" using lval_less [of "take 31 x"] assms by simp
  then have "uint ?c + lval ?x < 256 ^ 32" using c x by simp
  then have "256 ^ 32 * uint c' < 256 ^ 32" using r(2) lval_ge [of r] by linarith
  then have "uint c' < 1" by simp
  then have "uint c' = 0" using uint_ge_0 [of c'] by linarith
  then show "length (fe_reduce x c) = 32"
    "lval (fe_reduce x c) = lval (take 31 x) + 256 ^ 31 * (uint c mod 128) + uint c div 128 * 19"
    using r l c x by (simp_all add: fe_reduce_def F25519_SIZE_def)
qed


definition fe_rep :: "byte list \<Rightarrow> int \<Rightarrow> bool" where
  "fe_rep x n \<longleftrightarrow> length x = 32 \<and> lval x mod p25519 = n mod p25519"

definition fe_red :: "byte list \<Rightarrow> bool" where "fe_red x \<longleftrightarrow> lval x < 2 ^ 255 + 2 ^ 30"

lemma fe_reduce_rep:
  assumes "length x = 32"
  shows "fe_rep (fe_reduce x c) (lval (take 31 x) + 256 ^ 31 * uint c) \<and> fe_red (fe_reduce x c)"
proof -
  note v = fe_reduce_value [OF assms, of c]
  have "256 ^ 31 * uint c = 256 ^ 31 * (128 * (uint c div 128) + uint c mod 128)" by simp
  also have "\<dots> = 256 ^ 31 * (uint c mod 128) + 256 ^ 31 * 128 * (uint c div 128)"
    by (simp only: distrib_left mult.assoc add.commute)
  finally have "256 ^ 31 * uint c = 256 ^ 31 * (uint c mod 128) + 256 ^ 31 * 128 * (uint c div 128)" .
  then have "lval (take 31 x) + 256 ^ 31 * uint c = lval (fe_reduce x c) + p25519 * (uint c div 128)"
    unfolding v(2) p25519_def by simp
  then have rep: "lval (fe_reduce x c) mod p25519 = (lval (take 31 x) + 256 ^ 31 * uint c) mod p25519" by simp
  have "lval (take 31 x) < 256 ^ 31" using lval_less [of "take 31 x"] assms by simp
  moreover have "256 ^ 31 * (uint c mod 128) \<le> (256 ^ 31 * 127 :: int)" by (intro mult_left_mono) simp_all
  moreover have "uint c div 128 * 19 < 2 ^ 30" using uint_lt2p [of c] by simp
  ultimately have "lval (fe_reduce x c) < 2 ^ 255 + 2 ^ 30" unfolding v(2) by simp
  then show ?thesis using v(1) rep by (simp add: fe_rep_def fe_red_def)
qed

lemma shift_add_loop_rep:
  assumes "\<And>i c. i < 32 \<Longrightarrow> uint c < 2 ^ 24 \<Longrightarrow> uint (f i c) = uint c + D i"
    and "shift_add_loop f [0..<F25519_SIZE] 0 = (r, c)"
  shows "fe_rep (fe_reduce r c) (\<Sum>i < 32. D i * 256 ^ i) \<and> fe_red (fe_reduce r c)"
proof -
  have l: "shift_add_loop f [0..<0 + Suc 31] 0 = (r, c)" using assms(2) by (simp add: F25519_SIZE_def)
  have "length r = Suc 31 \<and> lval (take 31 r) + 256 ^ 31 * uint c = uint (0 :: u32) div 256 + (\<Sum>i < Suc 31. D (0 + i) * 256 ^ i)"
    by (rule shift_add_loop_value [where N = 32, OF assms(1) _ l]) simp_all
  then have "length r = 32" "lval (take 31 r) + 256 ^ 31 * uint c = (\<Sum>i < 32. D i * 256 ^ i)" by (simp_all del: sum.lessThan_Suc)
  then show ?thesis using fe_reduce_rep [of r c] by simp
qed

lemma lval_32: "length a = 32 \<Longrightarrow> lval a = (\<Sum>i < 32. uint (a ! i) * 256 ^ i)"
  by (simp add: lval_sum)

lemma fe_rep_cong: "fe_rep x m \<Longrightarrow> m mod p25519 = n mod p25519 \<Longrightarrow> fe_rep x n"
  by (simp add: fe_rep_def)

lemma fe_rep_lval: "length x = 32 \<Longrightarrow> fe_rep x (lval x)"
  by (simp add: fe_rep_def)

lemma lm_add_rep:
  assumes "fe_rep a m" and "fe_rep b n"
  shows "fe_rep (lm_add a b) (m + n) \<and> fe_red (lm_add a b)"
proof -
  let ?D = "\<lambda>i. uint (a ! i) + uint (b ! i)"
  obtain r c where l: "shift_add_loop (\<lambda>i c. c + (ucast (a ! i) + ucast (b ! i))) [0..<F25519_SIZE] 0 = (r, c)" by fastforce
  have d: "uint (ucast (a ! i) + ucast (b ! i) :: u32) = ?D i" for i
    using uint_add_byte [of "ucast (a ! i)" "b ! i"] uint_byte [of "a ! i"] by (simp add: uint_of_byte)
  have "fe_rep (fe_reduce r c) (\<Sum>i < 32. ?D i * 256 ^ i) \<and> fe_red (fe_reduce r c)"
  proof (rule shift_add_loop_rep [OF _ l])
    fix i and c :: u32 assume "uint c < 2 ^ 24"
    then show "uint (c + (ucast (a ! i) + ucast (b ! i))) = uint c + ?D i"
      using uint_add32 [of c "ucast (a ! i) + ucast (b ! i)"] d [of i] uint_byte [of "a ! i"] uint_byte [of "b ! i"] by simp
  qed
  moreover have "(\<Sum>i < 32. ?D i * 256 ^ i) = lval a + lval b"
    using assms by (simp add: lval_32 fe_rep_def sum.distrib distrib_right)
  moreover have "(lval a + lval b) mod p25519 = (m + n) mod p25519" using assms by (auto simp: fe_rep_def intro: mod_add_cong)
  ultimately show ?thesis using fe_rep_cong by (auto simp: lm_add_def l)
qed

lemma fe_mul_c_rep:
  assumes "fe_rep a m" and "uint k < 2 ^ 23"
  shows "fe_rep (fe_mul_c a k) (uint k * m) \<and> fe_red (fe_mul_c a k)"
proof -
  let ?D = "\<lambda>i. uint k * uint (a ! i)"
  obtain r c where l: "shift_add_loop (\<lambda>i c. c + k * ucast (a ! i)) [0..<F25519_SIZE] 0 = (r, c)" by fastforce
  have small: "?D i \<le> 2 ^ 23 * 256" for i
    using assms(2) uint_byte [of "a ! i"] by (intro mult_mono) simp_all
  have d: "uint (k * ucast (a ! i) :: u32) = ?D i" for i
    using uint_mult32 [of k "ucast (a ! i)"] small [of i] by (simp add: uint_of_byte)
  have "fe_rep (fe_reduce r c) (\<Sum>i < 32. ?D i * 256 ^ i) \<and> fe_red (fe_reduce r c)"
  proof (rule shift_add_loop_rep [OF _ l])
    fix i and c :: u32 assume "uint c < 2 ^ 24"
    then show "uint (c + k * ucast (a ! i)) = uint c + ?D i"
      using uint_add32 [of c "k * ucast (a ! i)"] d [of i] small [of i] by simp
  qed
  moreover have "(\<Sum>i < 32. ?D i * 256 ^ i) = uint k * lval a"
    using assms by (simp add: lval_32 fe_rep_def sum_distrib_left mult.assoc)
  moreover have "(uint k * lval a) mod p25519 = (uint k * m) mod p25519" using assms by (auto simp: fe_rep_def intro: mod_mult_cong)
  ultimately show ?thesis using fe_rep_cong by (auto simp: fe_mul_c_def l)
qed


lemma fold_add_value:
  assumes "uint c + (\<Sum>j\<leftarrow>js. uint (g j)) < 2 ^ 32"
  shows "uint (fold (\<lambda>j c. c + g j) js c :: u32) = uint c + (\<Sum>j\<leftarrow>js. uint (g j))"
  using assms
proof (induction js arbitrary: c)
  case (Cons j js)
  have "0 \<le> (\<Sum>j\<leftarrow>js. uint (g j))" by (rule sum_list_nonneg) auto
  then have "uint (c + g j) = uint c + uint (g j)" using Cons.prems by (intro uint_add32) simp
  then show ?case using Cons by simp
qed simp

lemma byte_product: "uint (a :: byte) * uint (b :: byte) \<le> 65025"
proof -
  have "uint a * uint b \<le> 255 * 255" using uint_byte [of a] uint_byte [of b] by (intro mult_mono) simp_all
  then show ?thesis by simp
qed

lemma uint_product: "uint (ucast (a :: byte) * ucast (b :: byte) :: u32) = uint a * uint b"
  using uint_mult32 [of "ucast a" "ucast b"] byte_product [of a b] by (simp add: uint_of_byte)

lemma uint_product_38: "uint (ucast (a :: byte) * ucast (b :: byte) * 38 :: u32) = uint a * uint b * 38"
  using uint_mult32 [of "ucast a * ucast b" 38] byte_product [of a b] by (simp add: uint_product)

definition mul_digit :: "byte list \<Rightarrow> byte list \<Rightarrow> nat \<Rightarrow> nat \<Rightarrow> int" where
  "mul_digit a b i j = uint (a ! j) * (if j \<le> i then uint (b ! (i - j)) else 38 * uint (b ! (i + 32 - j)))"

lemma fe_mul_inner:
  assumes "i < 32" and "uint c < 2 ^ 24"
  shows "uint (let c = fold (\<lambda>j c. c + ucast (a ! j) * ucast (b ! (i - j))) [0..<i + 1] c
           in fold (\<lambda>j c. c + ucast (a ! j) * ucast (b ! (i + F25519_SIZE - j)) * 38) [i + 1..<F25519_SIZE] c :: u32)
    = uint c + (\<Sum>j < 32. mul_digit a b i j)"
proof -
  let ?g = "\<lambda>j. ucast (a ! j) * ucast (b ! (i - j)) :: u32" and ?h = "\<lambda>j. ucast (a ! j) * ucast (b ! (i + 32 - j)) * 38 :: u32"
  have le: "mul_digit a b i j \<le> 65025 * 38" for j
    using byte_product [of "a ! j" "b ! (i - j)"] byte_product [of "a ! j" "b ! (i + 32 - j)"] by (simp add: mul_digit_def)
  have ge: "0 \<le> mul_digit a b i j" for j by (simp add: mul_digit_def)
  have all: "(\<Sum>j\<leftarrow>[0..<32]. mul_digit a b i j) \<le> 32 * (65025 * 38)"
    using sum_list_mono [of "[0..<32]" "mul_digit a b i" "\<lambda>_. 65025 * 38"] le by (simp add: sum_list_triv)
  have split: "[0..<32] = [0..<i + 1] @ [i + 1..<32]" using assms(1) upt_add_eq_append [of 0 "i + 1" "31 - i"] by simp
  have g: "(\<Sum>j\<leftarrow>[0..<i + 1]. uint (?g j)) = (\<Sum>j\<leftarrow>[0..<i + 1]. mul_digit a b i j)"
    by (intro arg_cong [of _ _ sum_list] map_cong) (auto simp: mul_digit_def uint_product)
  have h: "(\<Sum>j\<leftarrow>[i + 1..<32]. uint (?h j)) = (\<Sum>j\<leftarrow>[i + 1..<32]. mul_digit a b i j)"
    by (intro arg_cong [of _ _ sum_list] map_cong) (auto simp: mul_digit_def uint_product_38)
  have pos: "0 \<le> (\<Sum>j\<leftarrow>[i + 1..<32]. mul_digit a b i j)" by (rule sum_list_nonneg) (auto simp: ge)
  have sum: "(\<Sum>j\<leftarrow>[0..<i + 1]. mul_digit a b i j) + (\<Sum>j\<leftarrow>[i + 1..<32]. mul_digit a b i j) = (\<Sum>j\<leftarrow>[0..<32]. mul_digit a b i j)"
    unfolding split by simp
  have c1: "uint (fold (\<lambda>j c. c + ?g j) [0..<i + 1] c) = uint c + (\<Sum>j\<leftarrow>[0..<i + 1]. mul_digit a b i j)"
    using fold_add_value [of c ?g "[0..<i + 1]"] assms(2) all sum pos unfolding g by simp
  have "uint (fold (\<lambda>j c. c + ?h j) [i + 1..<32] (fold (\<lambda>j c. c + ?g j) [0..<i + 1] c)) = uint c + (\<Sum>j\<leftarrow>[0..<32]. mul_digit a b i j)"
    using fold_add_value [of "fold (\<lambda>j c. c + ?g j) [0..<i + 1] c" ?h "[i + 1..<32]"] assms(2) all sum unfolding h c1 by simp
  moreover have "(\<Sum>j\<leftarrow>[0..<32]. mul_digit a b i j) = (\<Sum>j < 32. mul_digit a b i j)"
    by (simp add: sum_list_distinct_conv_sum_set atLeast0LessThan del: upt_rec_numeral)
  ultimately show ?thesis by (simp add: F25519_SIZE_def Let_def)
qed

lemma mul_column:
  assumes "length b = 32" and "j < 32"
  shows "(\<Sum>i < 32. mul_digit a b i j * 256 ^ i) = uint (a ! j) * (256 ^ j * lval b - 2 * p25519 * lval (drop (32 - j) b))"
proof -
  let ?B = "\<lambda>i. (if j \<le> i then uint (b ! (i - j)) else 38 * uint (b ! (i + 32 - j))) * 256 ^ i :: int"
  have "(\<Sum>i < 32. ?B i) = (\<Sum>i < j. ?B i) + (\<Sum>i \<in> {j..<32}. ?B i)"
    using assms(2) by (subst sum.union_disjoint [symmetric]) (auto intro: sum.cong)
  also have "(\<Sum>i < j. ?B i) = 38 * lval (drop (32 - j) b)"
    using assms by (simp add: lval_sum sum_distrib_left mult.assoc add.commute)
  also have "(\<Sum>i \<in> {j..<32}. ?B i) = (\<Sum>k < 32 - j. ?B (k + j))"
    using assms(2) by (intro sum.reindex_bij_witness [where i = "\<lambda>k. k + j" and j = "\<lambda>i. i - j"]) auto
  also have "\<dots> = 256 ^ j * lval (take (32 - j) b)"
    using assms by (simp add: lval_sum sum_distrib_left power_add mult.commute mult.left_commute)
  finally have s: "(\<Sum>i < 32. ?B i) = 38 * lval (drop (32 - j) b) + 256 ^ j * lval (take (32 - j) b)" .
  have "lval b = lval (take (32 - j) b) + 256 ^ (32 - j) * lval (drop (32 - j) b)"
    using lval_append [of "take (32 - j) b" "drop (32 - j) b"] assms by simp
  then have "256 ^ j * lval b = 256 ^ j * lval (take (32 - j) b) + 256 ^ (j + (32 - j)) * lval (drop (32 - j) b)"
    by (simp only: distrib_left mult.assoc power_add)
  moreover have "j + (32 - j) = 32" using assms(2) by simp
  ultimately have "256 ^ j * lval b = 256 ^ j * lval (take (32 - j) b) + 256 ^ 32 * lval (drop (32 - j) b)" by (simp only:)
  with s have "(\<Sum>i < 32. ?B i) = 256 ^ j * lval b - 2 * p25519 * lval (drop (32 - j) b)"
    by (simp add: p25519_def)
  then show ?thesis unfolding mul_digit_def mult.assoc [of "uint (a ! j)"] sum_distrib_left [symmetric] by (simp only:)
qed

lemma fe_mul_rep:
  assumes "fe_rep a m" and "fe_rep b n"
  shows "fe_rep (fe_mul__distinct a b) (m * n) \<and> fe_red (fe_mul__distinct a b)"
proof -
  have len: "length a = 32" "length b = 32" using assms by (simp_all add: fe_rep_def)
  let ?f = "\<lambda>i c. let c = fold (\<lambda>j c. c + ucast (a ! j) * ucast (b ! (i - j))) [0..<i + 1] c
                   in fold (\<lambda>j c. c + ucast (a ! j) * ucast (b ! (i + F25519_SIZE - j)) * 38) [i + 1..<F25519_SIZE] c :: u32"
  obtain r c where l: "shift_add_loop ?f [0..<F25519_SIZE] 0 = (r, c)" by fastforce
  have rep: "fe_rep (fe_reduce r c) (\<Sum>i < 32. (\<Sum>j < 32. mul_digit a b i j) * 256 ^ i) \<and> fe_red (fe_reduce r c)"
    by (rule shift_add_loop_rep [OF fe_mul_inner l])
  let ?S = "\<Sum>j < 32. uint (a ! j) * lval (drop (32 - j) b)"
  have "(\<Sum>i < 32. (\<Sum>j < 32. mul_digit a b i j) * 256 ^ i) = (\<Sum>j < 32. \<Sum>i < 32. mul_digit a b i j * 256 ^ i)"
    unfolding sum_distrib_right by (rule sum.swap)
  also have "\<dots> = (\<Sum>j < 32. uint (a ! j) * 256 ^ j * lval b - 2 * p25519 * (uint (a ! j) * lval (drop (32 - j) b)))"
    by (rule sum.cong) (simp_all add: mul_column len algebra_simps)
  also have "\<dots> = lval a * lval b - p25519 * (2 * ?S)"
    unfolding sum_subtractf lval_32 [OF len(1)] sum_distrib_left sum_distrib_right by (simp add: mult.assoc mult.left_commute)
  finally have "(\<Sum>i < 32. (\<Sum>j < 32. mul_digit a b i j) * 256 ^ i) mod p25519 = (lval a * lval b) mod p25519"
    by (simp add: mod_diff_right_eq [symmetric])
  also have "\<dots> = (m * n) mod p25519" using assms by (auto simp: fe_rep_def intro: mod_mult_cong)
  finally show ?thesis using rep fe_rep_cong l by (auto simp: fe_mul__distinct_def)
qed


lemma sub_constant: "(\<Sum>i < n. 65280 * 256 ^ i) = (256 * (256 ^ n - 1) :: int)"
  by (induction n) simp_all

lemma lm_sub_rep:
  assumes "fe_rep a m" and "fe_rep b n" and "fe_red b"
  shows "fe_rep (lm_sub a b) (m - n) \<and> fe_red (lm_sub a b)"
proof -
  have len: "length a = 32" "length b = 32" using assms by (simp_all add: fe_rep_def)
  let ?f = "\<lambda>i c. c + (65280 + ucast (a ! i) - ucast (b ! i)) :: u32"
  let ?D = "\<lambda>i. 65280 + uint (a ! i) - uint (b ! i)"
  obtain r c where l: "add_shift_loop ?f [0..<0 + 31] 218 = (r, c)" by fastforce
  have f: "uint (?f i c) = uint c + ?D i" if "uint c < 2 ^ 30" for i and c :: u32
  proof -
    have small: "uint c < 1073741824" using that by simp
    have "uint (?f i c) = (uint c + ?D i) mod 4294967296" by (simp add: uint_word_ariths uint_of_byte mod_simps)
    also have "\<dots> = uint c + ?D i"
      using small uint_byte [of "a ! i"] uint_byte [of "b ! i"] uint_ge_0 [of c] uint_ge_0 [of "a ! i"] uint_ge_0 [of "b ! i"]
      by (intro mod_pos_pos_trivial) linarith+
    finally show ?thesis .
  qed
  have "length r = 31 \<and> lval r + 256 ^ 31 * uint c = uint (218 :: u32) + (\<Sum>i < 31. ?D (0 + i) * 256 ^ i) \<and> uint c < 2 ^ 30"
    by (rule add_shift_loop_value [where N = 31, OF f _ _ l]) simp_all
  moreover have "(\<Sum>i < 31. ?D i * 256 ^ i) = 256 * (256 ^ 31 - 1) + lval (take 31 a) - lval (take 31 b)"
    unfolding left_diff_distrib distrib_right sum_subtractf sum.distrib sub_constant using len by (simp add: lval_sum)
  ultimately have r: "length r = 31" "uint c < 2 ^ 30"
    and v: "lval r + 256 ^ 31 * uint c = 2 * p25519 + lval (take 31 a) - lval (take 31 b)"
    by (simp_all add: p25519_def)
  have ab: "lval a = lval (take 31 a) + 256 ^ 31 * uint (a ! 31)" "lval b = lval (take 31 b) + 256 ^ 31 * uint (b ! 31)"
    using lval_take_last [of a 31] lval_take_last [of b 31] len by simp_all
  let ?k = "uint c + uint (a ! 31) - uint (b ! 31)"
  have eq: "lval r + 256 ^ 31 * ?k = 2 * p25519 + lval a - lval b"
    using v unfolding ab by (simp only: distrib_left right_diff_distrib)
  have "0 < 2 * p25519 + lval a - lval b" proof -
    have "lval b < 2 * p25519" using assms(3) unfolding fe_red_def p25519_def by simp
    then show ?thesis using lval_ge [of a] by linarith
  qed
  then have "- (256 ^ 31) < 256 ^ 31 * ?k" using lval_less [of r] r(1) unfolding eq [symmetric] by simp
  then have "0 \<le> ?k" by simp
  moreover have "uint c < 1073741824" using r(2) by simp
  ultimately have "?k mod 4294967296 = ?k"
    using uint_byte [of "a ! 31"] uint_ge_0 [of "b ! 31"] by (intro mod_pos_pos_trivial) linarith+
  then have k: "uint (c + (ucast (a ! 31) - ucast (b ! 31))) = ?k"
    by (simp add: uint_word_ariths uint_of_byte mod_simps add_diff_eq)
  have "fe_rep (fe_reduce (r @ [0]) (c + (ucast (a ! 31) - ucast (b ! 31)))) (2 * p25519 + lval a - lval b)
      \<and> fe_red (fe_reduce (r @ [0]) (c + (ucast (a ! 31) - ucast (b ! 31))))"
    using fe_reduce_rep [of "r @ [0]" "c + (ucast (a ! 31) - ucast (b ! 31))"] r(1) unfolding k eq [symmetric] by simp
  moreover have "(2 * p25519 + lval a - lval b) mod p25519 = (lval a - lval b) mod p25519"
    using mod_mult_self3 [of 2 p25519 "lval a - lval b"] by (simp add: add_diff_eq)
  moreover have "\<dots> = (m - n) mod p25519" using assms by (auto simp: fe_rep_def intro: mod_diff_cong)
  ultimately show ?thesis using fe_rep_cong l by (auto simp: lm_sub_def F25519_SIZE_def)
qed

lemma and_bit15: "c AND push_bit 15 1 = (0 :: u32) \<longleftrightarrow> even (uint c div 2 ^ 15)"
proof -
  have "bit c 15 \<longleftrightarrow> odd (uint c div 2 ^ 15)"
    by (metis bit_iff_odd bit_uint_iff nat_less_numeral_power_cancel_iff bit_imp_le_length)
  moreover have "c AND push_bit 15 1 = 0 \<longleftrightarrow> \<not> bit c 15"
    unfolding push_bit_of_1 by (rule and_exp_eq_0_iff_not_bit)
  ultimately show ?thesis by simp
qed

lemma fe_normalize_value:
  assumes "length x = 32"
  shows "length (fe_normalize x) = 32 \<and> lval (fe_normalize x) = lval x mod p25519"
proof -
  define y where "y = fe_reduce x (ucast (x ! 31))"
  have y: "length y = 32" "lval y = lval (take 31 x) + 256 ^ 31 * (uint (x ! 31) mod 128) + uint (x ! 31) div 128 * 19"
    using fe_reduce_value [OF assms, of "ucast (x ! 31)"] by (simp_all add: y_def uint_of_byte)
  have ymod: "lval y mod p25519 = lval x mod p25519"
    using fe_reduce_rep [OF assms, of "ucast (x ! 31)"] lval_take_last [of x 31] assms by (simp add: fe_rep_def y_def uint_of_byte)
  have ylt: "lval y < 2 ^ 255 + 19"
  proof -
    have "lval (take 31 x) < 256 ^ 31" using lval_less [of "take 31 x"] assms by simp
    moreover have "256 ^ 31 * (uint (x ! 31) mod 128) \<le> (256 ^ 31 * 127 :: int)" by (intro mult_left_mono) simp_all
    moreover have "uint (x ! 31) div 128 \<le> 1" using uint_byte [of "x ! 31"] by simp
    ultimately show ?thesis unfolding y(2) by simp
  qed
  obtain r c where l: "add_shift_loop (\<lambda>i c. c + ucast (y ! i)) [0..<0 + 31] 19 = (r, c)" by fastforce
  have "length r = 31 \<and> lval r + 256 ^ 31 * uint c = uint (19 :: u32) + (\<Sum>i < 31. uint (y ! (0 + i)) * 256 ^ i) \<and> uint c < 2 ^ 30"
    by (rule add_shift_loop_value [where N = 31, OF _ _ _ l]) (simp_all add: uint_add_byte)
  moreover have "(\<Sum>i < 31. uint (y ! i) * 256 ^ i) = lval (take 31 y)" using y(1) by (simp add: lval_sum)
  ultimately have r: "length r = 31" "lval r + 256 ^ 31 * uint c = 19 + lval (take 31 y)" "uint c < 2 ^ 30" by simp_all
  let ?k = "uint c + uint (y ! 31) - 128" and ?c = "c + (ucast (y ! 31) - 128)"
  have eq: "lval r + 256 ^ 31 * ?k = lval y - p25519"
    using r(2) lval_take_last [of y 31] y(1) by (simp add: p25519_def)
  have rlt: "lval r < 256 ^ 31" using lval_less [of r] r(1) by simp
  have norm: "fe_normalize x = (if ?c AND push_bit 15 1 = 0 then r @ [ucast ?c] else y)"
    using l by (simp add: fe_normalize_def F25519_SIZE_def flip: y_def)
  have p: "0 < p25519" "2 ^ 255 + 19 < 2 * p25519" by (simp_all add: p25519_def)
  show ?thesis
  proof (cases "p25519 \<le> lval y")
    case True
    then have "0 \<le> lval r + 256 ^ 31 * ?k" unfolding eq by simp
    then have "- (256 ^ 31) < 256 ^ 31 * ?k" using rlt by linarith
    then have k0: "0 \<le> ?k" by simp
    have "256 ^ 31 * ?k \<le> lval y - p25519" using eq lval_ge [of r] by linarith
    also have "\<dots> < 256 ^ 31" using ylt by (simp add: p25519_def)
    finally have k1: "?k < 1" by simp
    have k: "uint ?c = ?k" using k0 k1 by (simp add: uint_word_ariths uint_of_byte mod_simps)
    have "?c AND push_bit 15 1 = 0" unfolding and_bit15 k using k0 k1 by simp
    then have n: "fe_normalize x = r @ [ucast ?c]" using norm by simp
    have "lval (fe_normalize x) = lval r + 256 ^ 31 * ?k" unfolding n using r(1) k k0 k1 by (simp add: lval_append uint_ucast_byte)
    also have "\<dots> = lval y - p25519" by (rule eq)
    also have "\<dots> = lval y mod p25519" using True ylt p by (intro mod_pos_pos_trivial [symmetric, of "lval y - p25519" p25519, simplified]) simp_all
    finally show ?thesis using n r(1) ymod by simp
  next
    case False
    have "256 ^ 31 * ?k < 0" using eq False lval_ge [of r] by linarith
    then have k0: "?k < 0" by (simp add: mult_less_0_iff)
    have k1: "- 128 \<le> ?k" using uint_ge_0 [of c] uint_ge_0 [of "y ! 31"] by linarith
    have k: "uint ?c = 2 ^ 32 + ?k"
    proof -
      have "uint ?c = ?k mod 2 ^ 32" by (simp add: uint_word_ariths uint_of_byte mod_simps add_diff_eq)
      also have "\<dots> = (?k + 2 ^ 32) mod 2 ^ 32" by (rule mod_add_self2 [symmetric])
      also have "\<dots> = ?k + 2 ^ 32" using k0 k1 by (intro mod_pos_pos_trivial) simp_all
      finally show ?thesis by simp
    qed
    have "(2 ^ 32 + ?k) div 2 ^ 15 = 2 ^ 17 - 1" using k0 k1 by (intro int_div_pos_eq [where r = "2 ^ 15 + ?k"]) simp_all
    then have "\<not> even (uint ?c div 2 ^ 15)" unfolding k by simp
    then have "fe_normalize x = y" using norm and_bit15 by simp
    then show ?thesis using y(1) ymod False by (simp add: mod_pos_pos_trivial flip: ymod)
  qed
qed


lemmas fe_rules = fe_mul_rep [THEN conjunct1] fe_mul_rep [THEN conjunct2] lm_add_rep [THEN conjunct1] lm_add_rep [THEN conjunct2]
  lm_sub_rep [THEN conjunct1] lm_sub_rep [THEN conjunct2]

lemma square_times_rep:
  assumes "fe_rep x m" and "fe_rep r (m ^ k)"
  shows "fe_rep (((\<lambda>r. let s = fe_mul__distinct r r in fe_mul__distinct s x) ^^ n) r) (m ^ (2 ^ n * (k + 1) - 1))"
proof (induction n)
  case (Suc n)
  let ?f = "\<lambda>r. let s = fe_mul__distinct r r in fe_mul__distinct s x" and ?k = "2 ^ n * (k + 1) - 1"
  have "fe_rep (?f ((?f ^^ n) r)) (m ^ ?k * m ^ ?k * m)" using fe_mul_rep assms(1) Suc by (simp add: Let_def)
  moreover have "m ^ ?k * m ^ ?k * m = m ^ (2 ^ Suc n * (k + 1) - 1)"
  proof -
    obtain j where "2 ^ n * (k + 1) = Suc j" by (cases "2 ^ n * (k + 1)") auto
    then have "2 ^ Suc n * (k + 1) - 1 = ?k + ?k + 1" by (simp only: power_Suc mult.assoc) simp
    then show ?thesis by (simp only: power_add power_one_right)
  qed
  ultimately show ?case by simp
qed (use assms in simp)

lemma fe_inv_rep:
  assumes "fe_rep x m"
  shows "fe_rep (fe_inv__distinct x) (m ^ nat (p25519 - 2))"
proof -
  let ?f = "\<lambda>r. let s = fe_mul__distinct r r in fe_mul__distinct s x"
  define r1 where "r1 = (?f ^^ 249) x"
  have r1: "fe_rep r1 (m ^ (2 ^ 249 * (1 + 1) - 1))"
    unfolding r1_def by (rule square_times_rep [OF assms, of x 1]) (use assms in simp)
  define K where "K = (2 ^ 249 * (1 + 1) - 1 :: nat)"
  note r1 = r1 [folded K_def]
  define r2 where "r2 = (let s = fe_mul__distinct r1 r1; r = fe_mul__distinct s s; s = fe_mul__distinct r x in fe_mul__distinct s s)"
  have "fe_rep r2 ((m ^ K * m ^ K) * (m ^ K * m ^ K) * m * ((m ^ K * m ^ K) * (m ^ K * m ^ K) * m))"
    unfolding r2_def Let_def using fe_mul_rep assms r1 by simp
  moreover have "(m ^ K * m ^ K) * (m ^ K * m ^ K) * m * ((m ^ K * m ^ K) * (m ^ K * m ^ K) * m) = m ^ (8 * K + 2)"
    by (simp add: power_add power_mult [symmetric] numeral_eq_Suc mult.assoc mult.left_commute)
  ultimately have r2: "fe_rep r2 (m ^ (8 * K + 2))" by simp
  have "fe_rep ((?f ^^ 2) r2) (m ^ (2 ^ 2 * (8 * K + 2 + 1) - 1))" by (rule square_times_rep [OF assms r2])
  moreover have "2 ^ 2 * (8 * K + 2 + 1) - 1 = nat (p25519 - 2)" by (simp add: K_def p25519_def)
  moreover have "fe_inv__distinct x = (?f ^^ 2) r2"
    unfolding fe_inv__distinct_def r2_def r1_def Let_def ..
  ultimately show ?thesis by simp
qed

lemma fe_small_rep: "fe_rep (fe_small v) (uint v)" "fe_red (fe_small v)"
proof -
  have "lval (replicate n 0) = 0" for n by (induction n) simp_all
  then have "lval (fe_small v) = uint v" by (simp add: fe_small_def)
  then show "fe_rep (fe_small v) (uint v)" "fe_red (fe_small v)"
    using uint_byte [of v] by (simp_all add: fe_rep_def fe_red_def fe_small_def)
qed

section \<open>Properties\<close>

text \<open>C13: The operations on 32-byte numbers compute modulo \<open>2\<^sup>2\<^sup>5\<^sup>5 - 19\<close>: sum, difference, product,
  product with a small constant and the power \<open>p - 2\<close> that inverts; every result has 32 bytes and
  is below \<open>2\<^sup>2\<^sup>5\<^sup>5 + 2\<^sup>3\<^sup>0\<close>, as the subtrahend of \<^verbatim>\<open>lm_sub\<close> has to be; and
  \<^verbatim>\<open>fe_normalize\<close> gives the least remainder.\<close>

theorem fe_field_arithmetic:
  assumes "length a = 32" and "length b = 32" and "lval b < 2 ^ 255 + 2 ^ 30" and "uint k < 2 ^ 23"
  shows "lval (lm_add a b) mod p25519 = (lval a + lval b) mod p25519
    \<and> lval (lm_sub a b) mod p25519 = (lval a - lval b) mod p25519
    \<and> lval (fe_mul__distinct a b) mod p25519 = lval a * lval b mod p25519
    \<and> lval (fe_mul_c a k) mod p25519 = uint k * lval a mod p25519
    \<and> lval (fe_inv__distinct a) mod p25519 = lval a ^ nat (p25519 - 2) mod p25519
    \<and> (\<forall>r \<in> {lm_add a b, lm_sub a b, fe_mul__distinct a b, fe_mul_c a k}. length r = 32 \<and> lval r < 2 ^ 255 + 2 ^ 30)
    \<and> length (fe_inv__distinct a) = 32
    \<and> length (fe_normalize a) = 32 \<and> lval (fe_normalize a) = lval a mod p25519"
proof -
  have a: "fe_rep a (lval a)" and b: "fe_rep b (lval b)" "fe_red b"
    using assms by (simp_all add: fe_rep_lval fe_red_def)
  show ?thesis
    using lm_add_rep [OF a b(1)] lm_sub_rep [OF a b] fe_mul_rep [OF a b(1)] fe_mul_c_rep [OF a assms(4)] fe_inv_rep [OF a]
      fe_normalize_value [OF assms(1)]
    unfolding fe_rep_def fe_red_def by simp
qed

theorem fe_field_arithmetic_witness:
  "lval (lm_sub (fe_small 3) (fe_small 5)) mod p25519 = (lval (fe_small 3) - lval (fe_small 5)) mod p25519"
  using fe_field_arithmetic [of "fe_small 3" "fe_small 5" 0] fe_small_rep [of 3] fe_small_rep [of 5]
  by (simp add: fe_rep_def fe_red_def)

end
