(* ===== verification/Tls_X25519.thy ===== *)
theory Tls_X25519
  imports Tls_Fe
begin

text \<open>
  The scalar multiplication of \<^verbatim>\<open>networking/tls_fe.c\<close> against Montgomery's ladder on
  numbers, and the key agreement built on it.
\<close>

section \<open>The ladder on numbers\<close>

text \<open>
  Montgomery's formulas on the coordinates \<open>(X, Z)\<close> of points modulo \<open>p\<close>, where \<open>X / Z\<close> is the
  x-coordinate on \<open>y\<^sup>2 = x\<^sup>3 + 486662 x\<^sup>2 + x\<close>: the sum of two points from their difference, and
  the double. The ladder keeps the coordinates of \<open>(n - 1) P\<close> and \<open>n P\<close>, by the binary digits of
  the number \<open>n\<close>.
\<close>

definition mont_diffadd :: "int \<times> int \<Rightarrow> int \<times> int \<Rightarrow> int \<times> int \<Rightarrow> int \<times> int" where
  "mont_diffadd D P Q =
     (let (x1, z1) = D; (x2, z2) = P; (x3, z3) = Q;
          da = (x2 + z2) * (x3 - z3); cb = (x3 + z3) * (x2 - z2)
      in (z1 * (da + cb) ^ 2 mod p25519, x1 * (da - cb) ^ 2 mod p25519))"

definition mont_double :: "int \<times> int \<Rightarrow> int \<times> int" where
  "mont_double P =
     (let (x, z) = P
      in ((x ^ 2 - z ^ 2) ^ 2 mod p25519, 4 * x * z * (x ^ 2 + 486662 * x * z + z ^ 2) mod p25519))"

fun mont_ladder :: "int \<Rightarrow> nat \<Rightarrow> (int \<times> int) \<times> (int \<times> int)" where
  "mont_ladder u n =
     (if n \<le> 1 then ((1, 0), (u, 1))
      else let (P1, P) = mont_ladder u (n div 2);
               P1' = mont_diffadd (u, 1) P P1;
               P' = mont_double P
           in if even n then (P1', P') else (P', mont_diffadd P1' P' (u, 1)))"

declare mont_ladder.simps [simp del]

definition pt_rep :: "byte list \<times> byte list \<Rightarrow> int \<times> int \<Rightarrow> bool" where
  "pt_rep b P \<longleftrightarrow> fe_rep (fst b) (fst P) \<and> fe_rep (snd b) (snd P) \<and> fe_red (snd b)"

lemma fe_rep_mod [simp]: "fe_rep x (n mod p25519) = fe_rep x n"
  by (simp add: fe_rep_def)

lemma xc_diffadd_rep:
  assumes "pt_rep (x1, z1) D" and "pt_rep (x2, z2) P" and "pt_rep (x3, z3) Q"
  shows "pt_rep (xc_diffadd x1 z1 x2 z2 x3 z3) (mont_diffadd D P Q)"
proof -
  obtain m1 n1 m2 n2 m3 n3 where e: "D = (m1, n1)" "P = (m2, n2)" "Q = (m3, n3)" by (metis surj_pair)
  have a: "fe_rep x1 m1" "fe_rep z1 n1" "fe_rep x2 m2" "fe_rep z2 n2" "fe_red z2" "fe_rep x3 m3" "fe_rep z3 n3" "fe_red z3"
    using assms by (simp_all add: pt_rep_def e)
  let ?da = "fe_mul__distinct (lm_add x2 z2) (lm_sub x3 z3)" and ?cb = "fe_mul__distinct (lm_add x3 z3) (lm_sub x2 z2)"
  have da: "fe_rep ?da ((m2 + n2) * (m3 - n3))" and c: "fe_rep (lm_add x3 z3) (m3 + n3)" and b: "fe_rep (lm_sub x2 z2) (m2 - n2)"
    by (intro fe_rules a)+
  have cb: "fe_rep ?cb ((m3 + n3) * (m2 - n2))" "fe_red ?cb" using fe_mul_rep [OF c b] by simp_all
  have s: "fe_rep (lm_add ?da ?cb) ((m2 + n2) * (m3 - n3) + (m3 + n3) * (m2 - n2))"
    and d: "fe_rep (lm_sub ?da ?cb) ((m2 + n2) * (m3 - n3) - (m3 + n3) * (m2 - n2))"
    by (intro fe_rules da cb)+
  show ?thesis
    unfolding xc_diffadd_def mont_diffadd_def pt_rep_def e Let_def power2_eq_square
    using fe_mul_rep [OF a(2) conjunct1 [OF fe_mul_rep [OF s s]]] fe_mul_rep [OF a(1) conjunct1 [OF fe_mul_rep [OF d d]]] by simp
qed

lemma xc_double_rep:
  assumes "pt_rep (x, z) P"
  shows "pt_rep (xc_double x z) (mont_double P)"
proof -
  obtain m n where e: "P = (m, n)" by (metis surj_pair)
  have a: "fe_rep x m" "fe_rep z n" using assms by (simp_all add: pt_rep_def e)
  let ?xx = "fe_mul__distinct x x" and ?zz = "fe_mul__distinct z z" and ?xz = "fe_mul__distinct x z"
  have sq: "fe_rep ?xx (m * m)" "fe_rep ?zz (n * n)" "fe_red ?zz" "fe_rep ?xz (m * n)"
    using fe_mul_rep [OF a(1,1)] fe_mul_rep [OF a(2,2)] fe_mul_rep [OF a] by simp_all
  have d: "fe_rep (lm_sub ?xx ?zz) (m * m - n * n)" by (intro fe_rules sq)
  have k: "fe_rep (fe_mul_c ?xz 486662) (486662 * (m * n))" using fe_mul_c_rep [OF sq(4), of 486662] by simp
  have s: "fe_rep (lm_add ?zz (lm_add ?xx (fe_mul_c ?xz 486662))) (n * n + (m * m + 486662 * (m * n)))"
    by (intro fe_rules sq k)
  have z3: "fe_rep (fe_mul_c (fe_mul__distinct ?xz (lm_add ?zz (lm_add ?xx (fe_mul_c ?xz 486662)))) 4)
      (4 * (m * n * (n * n + (m * m + 486662 * (m * n)))))"
    "fe_red (fe_mul_c (fe_mul__distinct ?xz (lm_add ?zz (lm_add ?xx (fe_mul_c ?xz 486662)))) 4)"
    using fe_mul_c_rep [OF conjunct1 [OF fe_mul_rep [OF sq(4) s]], of 4] by simp_all
  have eq: "4 * (m * n * (n * n + (m * m + 486662 * (m * n)))) = 4 * m * n * (m ^ 2 + 486662 * m * n + n ^ 2)"
    by (simp add: power2_eq_square algebra_simps)
  have "fe_rep (fe_mul__distinct (lm_sub ?xx ?zz) (lm_sub ?xx ?zz)) ((m ^ 2 - n ^ 2) ^ 2)"
    unfolding power2_eq_square by (intro fe_rules d)
  then show ?thesis
    using z3(2) z3(1) [unfolded eq] unfolding xc_double_def mont_double_def pt_rep_def e Let_def by simp
qed

section \<open>Bits of the scalar\<close>

lemma lval_bit: "i < 8 * length bs \<Longrightarrow> bit (lval bs) i = bit (bs ! (i div 8)) (i mod 8)"
proof (induction bs arbitrary: i)
  case (Cons b bs)
  show ?case
  proof (cases "i < 8")
    case True
    have "take_bit 8 (uint b + 256 * lval bs) = uint b"
      using uint_byte [of b] by (simp add: take_bit_eq_mod)
    then have "bit (uint b + 256 * lval bs) i = bit (uint b) i" using True bit_take_bit_iff [of 8 "uint b + 256 * lval bs" i] by simp
    then show ?thesis using True by (simp add: bit_uint_iff)
  next
    case False
    have "drop_bit 8 (uint b + 256 * lval bs) = lval bs" using uint_byte [of b] by (simp add: drop_bit_eq_div)
    then have "bit (uint b + 256 * lval bs) (8 + (i - 8)) = bit (lval bs) (i - 8)" by (metis bit_drop_bit_eq comp_apply)
    then have "bit (lval (b # bs)) i = bit (lval bs) (i - 8)" using False by simp
    also have "\<dots> = bit (bs ! ((i - 8) div 8)) ((i - 8) mod 8)" using Cons False by simp
    finally show ?thesis using False by (simp add: le_div_geq le_mod_geq)
  qed
qed simp

lemma scalar_bit:
  assumes "length e = 32" and "i < 254"
  shows "(drop_bit (i AND 7) (e ! drop_bit 3 i) AND 1 \<noteq> 0) = odd (lval e div 2 ^ i)"
proof -
  have "i AND 7 = i mod 8" using take_bit_eq_mask [of 3 i] by (simp add: take_bit_eq_mod mask_eq_exp_minus_1)
  moreover have "drop_bit 3 i = i div 8" by (simp add: drop_bit_eq_div)
  moreover have "bit (lval e) i = bit (e ! (i div 8)) (i mod 8)" using assms by (intro lval_bit) simp
  ultimately have "(drop_bit (i AND 7) (e ! drop_bit 3 i) AND 1 \<noteq> 0) = bit (lval e) i"
    by (simp add: bit_iff_odd_drop_bit and_one_eq odd_iff_mod_2_eq_one)
  then show ?thesis by (simp only: bit_iff_odd)
qed


definition scalar_prefix :: "nat \<Rightarrow> nat \<Rightarrow> nat" where
  "scalar_prefix n i = 2 ^ (254 - i) + n div 2 ^ i mod 2 ^ (254 - i)"

lemma scalar_prefix_step:
  assumes "i < 254"
  shows "scalar_prefix n i = 2 * scalar_prefix n (Suc i) + n div 2 ^ i mod 2"
proof -
  have "254 - i = Suc (254 - Suc i)" using assms by simp
  then have "scalar_prefix n i = 2 * 2 ^ (254 - Suc i) + n div 2 ^ i mod (2 * 2 ^ (254 - Suc i))"
    by (simp add: scalar_prefix_def)
  moreover have "n div 2 ^ i mod (2 * 2 ^ (254 - Suc i)) = 2 * (n div 2 ^ i div 2 mod 2 ^ (254 - Suc i)) + n div 2 ^ i mod 2"
    by (rule mod_mult2_eq)
  moreover have "n div 2 ^ i div 2 = n div 2 ^ Suc i" by (simp add: mult.commute flip: div_mult2_eq)
  ultimately show ?thesis by (simp only: scalar_prefix_def distrib_left add.assoc)
qed

definition ladder_rep :: "ladder \<Rightarrow> (int \<times> int) \<times> (int \<times> int) \<Rightarrow> bool" where
  "ladder_rep z st \<longleftrightarrow> pt_rep (lad_xm1 z, lad_zm1 z) (fst st) \<and> pt_rep (lad_xm z, lad_zm z) (snd st)"

lemma ladder_pass_rep:
  assumes z: "ladder_rep z (mont_ladder u m)" and m: "1 \<le> m" and e: "length e = 32" and i: "i < 254"
    and q: "pt_rep (q, fe_small 1) (u, 1)"
  shows "ladder_rep (ladder_pass e q i z) (mont_ladder u (2 * m + of_bool (odd (lval e div 2 ^ i))))"
proof -
  obtain P1 P where mP: "mont_ladder u m = (P1, P)" by (metis surj_pair)
  obtain xm1 zm1 where d: "xc_diffadd q (fe_small 1) (lad_xm z) (lad_zm z) (lad_xm1 z) (lad_zm1 z) = (xm1, zm1)" by (metis surj_pair)
  obtain xm zm where b: "xc_double (lad_xm z) (lad_zm z) = (xm, zm)" by (metis surj_pair)
  obtain xms zms where s: "xc_diffadd xm1 zm1 xm zm q (fe_small 1) = (xms, zms)" by (metis surj_pair)
  have P: "pt_rep (lad_xm1 z, lad_zm1 z) P1" "pt_rep (lad_xm z, lad_zm z) P" using z by (simp_all add: ladder_rep_def mP)
  have D: "pt_rep (xm1, zm1) (mont_diffadd (u, 1) P P1)" using xc_diffadd_rep [OF q P(2,1)] d by simp
  have E: "pt_rep (xm, zm) (mont_double P)" using xc_double_rep [OF P(2)] b by simp
  have S: "pt_rep (xms, zms) (mont_diffadd (mont_diffadd (u, 1) P P1) (mont_double P) (u, 1))" using xc_diffadd_rep [OF D E q] s by simp
  have two: "mont_ladder u (2 * m) = (mont_diffadd (u, 1) P P1, mont_double P)"
    "mont_ladder u (2 * m + 1) = (mont_double P, mont_diffadd (mont_diffadd (u, 1) P P1) (mont_double P) (u, 1))"
    using m mP by (simp_all add: mont_ladder.simps [of u "2 * m"] mont_ladder.simps [of u "Suc (2 * m)"] Let_def)
  show ?thesis
  proof (cases "odd (lval e div 2 ^ i)")
    case True
    then show ?thesis
      using E S two(2) scalar_bit [OF e i] unfolding ladder_pass_def by (simp add: d b s ladder_rep_def)
  next
    case False
    then show ?thesis
      using E D two(1) scalar_bit [OF e i] unfolding ladder_pass_def by (simp add: d b s ladder_rep_def)
  qed
qed

lemma ladder_loop_rep:
  assumes z: "ladder_rep z (mont_ladder u 1)" and e: "length e = 32" and q: "pt_rep (q, fe_small 1) (u, 1)" and "k \<le> 254"
  shows "ladder_rep (fold (ladder_pass e q) (rev [254 - k..<254]) z) (mont_ladder u (scalar_prefix (nat (lval e)) (254 - k)))"
  using assms(4)
proof (induction k)
  case 0
  then show ?case using z by (simp add: scalar_prefix_def)
next
  case (Suc k)
  define i where "i = 254 - Suc k"
  have i: "i < 254" "254 - k = Suc i" using Suc.prems by (simp_all add: i_def)
  have "[i..<254] = i # [Suc i..<254]" using i(1) by (rule upt_conv_Cons)
  then have fold: "fold (ladder_pass e q) (rev [i..<254]) z = ladder_pass e q i (fold (ladder_pass e q) (rev [Suc i..<254]) z)" by simp
  have bit: "nat (lval e) div 2 ^ i mod 2 = of_bool (odd (lval e div 2 ^ i))"
  proof -
    have "int (nat (lval e) div 2 ^ i mod 2) = lval e div 2 ^ i mod 2" by (simp add: zdiv_int zmod_int)
    then show ?thesis by (simp add: odd_iff_mod_2_eq_one)
  qed
  have "1 \<le> scalar_prefix (nat (lval e)) (Suc i)" by (simp add: scalar_prefix_def Suc_le_eq trans_less_add1)
  from ladder_pass_rep [OF _ this e i(1) q] show ?case
    using Suc i unfolding i_def [symmetric] fold scalar_prefix_step [OF i(1)] bit by simp
qed

text \<open>The scalar as the code reads it: bit 254 is taken to be set, bit 255 is not looked at.\<close>

definition x25519_scalar :: "byte list \<Rightarrow> nat" where "x25519_scalar e = 2 ^ 254 + nat (lval e) mod 2 ^ 254"

definition x25519_result :: "int \<Rightarrow> nat \<Rightarrow> int" where
  "x25519_result u n = (case snd (mont_ladder u n) of (X, Z) \<Rightarrow> X * Z ^ nat (p25519 - 2) mod p25519)"

lemma curve25519_rep:
  assumes "length e = 32" and q: "length q = 32" "q = (case q_opt of None \<Rightarrow> fe_small 9 | Some q \<Rightarrow> q)" and u: "fe_rep q u"
  shows "length (curve25519 e q_opt) = 32 \<and> lval (curve25519 e q_opt) = x25519_result u (x25519_scalar e)"
proof -
  define z where "z = \<lparr>lad_xm1 = fe_small 1, lad_zm1 = fe_small 0, lad_xm = q, lad_zm = fe_small 1,
               lad_xms = fe_small 0, lad_zms = fe_small 0\<rparr>"
  define z' where "z' = fold (ladder_pass e q) (rev [0..<254]) z"
  have pq: "pt_rep (q, fe_small 1) (u, 1)" using u fe_small_rep [of 1] by (simp add: pt_rep_def)
  have "ladder_rep z (mont_ladder u 1)"
    using pq fe_small_rep [of 1] fe_small_rep [of 0] by (simp add: ladder_rep_def z_def mont_ladder.simps pt_rep_def)
  from ladder_loop_rep [OF this assms(1) pq, of 254] have "ladder_rep z' (mont_ladder u (x25519_scalar e))"
    by (simp add: z'_def scalar_prefix_def x25519_scalar_def)
  then obtain X Z where XZ: "snd (mont_ladder u (x25519_scalar e)) = (X, Z)" "fe_rep (lad_xm z') X" "fe_rep (lad_zm z') Z"
    by (cases "snd (mont_ladder u (x25519_scalar e))") (simp add: ladder_rep_def pt_rep_def)
  have m: "fe_rep (fe_mul__distinct (fe_inv__distinct (lad_zm z')) (lad_xm z')) (Z ^ nat (p25519 - 2) * X)"
    by (intro fe_rules fe_inv_rep XZ)
  have "curve25519 e q_opt = fe_normalize (fe_mul__distinct (fe_inv__distinct (lad_zm z')) (lad_xm z'))"
    unfolding curve25519_def Let_def q(2) [symmetric] z'_def z_def ..
  then show ?thesis
    using fe_normalize_value m XZ(1) by (simp add: fe_rep_def x25519_result_def mult.commute)
qed


section \<open>Properties\<close>

text \<open>C5: \<^verbatim>\<open>curve25519\<close> computes the Montgomery ladder modulo \<open>2\<^sup>2\<^sup>5\<^sup>5 - 19\<close>: for every 32-byte
  scalar and every 32-byte coordinate, or the base point 9, the result is the least remainder of
  \<open>X\<close> times \<open>Z\<close> to the power \<open>p - 2\<close> for the coordinates \<open>(X, Z)\<close> that the ladder on numbers gives for the
  scalar with bit 254 set. The coordinate counts with all its 256 bits.\<close>

theorem curve25519_ladder:
  assumes "length e = 32" and "length q = 32"
  shows "length (curve25519 e (Some q)) = 32 \<and> lval (curve25519 e (Some q)) = x25519_result (lval q) (x25519_scalar e)
    \<and> length (curve25519 e None) = 32 \<and> lval (curve25519 e None) = x25519_result 9 (x25519_scalar e)"
proof -
  have nine: "fe_rep (fe_small 9) 9" using fe_small_rep(1) [of 9] by simp
  have "length (curve25519 e (Some q)) = 32 \<and> lval (curve25519 e (Some q)) = x25519_result (lval q) (x25519_scalar e)"
    by (rule curve25519_rep [OF assms]) (simp_all add: fe_rep_lval assms(2))
  moreover have "length (curve25519 e None) = 32 \<and> lval (curve25519 e None) = x25519_result 9 (x25519_scalar e)"
    by (rule curve25519_rep [OF assms(1) _ _ nine]) (simp_all add: fe_small_def)
  ultimately show ?thesis by simp
qed

theorem curve25519_ladder_witness:
  "lval (curve25519 (fe_small 8) (Some (fe_small 9))) = x25519_result 9 (x25519_scalar (fe_small 8))"
proof -
  have "length (fe_small v) = 32" for v by (simp add: fe_small_def)
  moreover have "lval (replicate n 0) = 0" for n by (induction n) simp_all
  then have "lval (fe_small 9) = 9" by (simp add: fe_small_def)
  ultimately show ?thesis using curve25519_ladder [of "fe_small 8" "fe_small 9"] by simp
qed

text \<open>The scalar of RFC 7748 for a number of 256 bits: the lowest three bits and the highest one cleared, bit 254 set.\<close>

definition rfc7748_clamp :: "int \<Rightarrow> int" where "rfc7748_clamp r = 2 ^ 254 + 8 * (r mod 2 ^ 254 div 8)"

lemma rfc7748_clamp_bit: "bit (rfc7748_clamp r) i \<longleftrightarrow> i = 254 \<or> 3 \<le> i \<and> i < 254 \<and> bit r i"
proof -
  let ?x = "push_bit 3 (drop_bit 3 (take_bit 254 r))" and ?t = "push_bit 254 1 :: int"
  have x: "bit ?x j \<longleftrightarrow> 3 \<le> j \<and> j < 254 \<and> bit r j" for j by (auto simp: bit_simps)
  have t: "bit ?t j \<longleftrightarrow> j = 254" for j by (auto simp: bit_simps simp del: push_bit_of_1)
  have "rfc7748_clamp r = ?t + ?x"
    by (simp add: rfc7748_clamp_def take_bit_eq_mod drop_bit_eq_div push_bit_eq_mult)
  also have "\<dots> = ?t OR ?x" by (rule disjunctive_add) (auto simp only: x t)
  finally show ?thesis by (simp only: bit_or_iff x t)
qed

lemma clamp_masks:
  assumes "j < 8"
  shows "bit (0xf8 :: byte) j \<longleftrightarrow> 3 \<le> j" and "bit (0x7f :: byte) j \<longleftrightarrow> j < 7" and "bit (0x40 :: byte) j \<longleftrightarrow> j = 6"
proof -
  have "j = 0 \<or> j = 1 \<or> j = 2 \<or> j = 3 \<or> j = 4 \<or> j = 5 \<or> j = 6 \<or> j = 7" using assms by linarith
  then show "bit (0xf8 :: byte) j \<longleftrightarrow> 3 \<le> j" and "bit (0x7f :: byte) j \<longleftrightarrow> j < 7" and "bit (0x40 :: byte) j \<longleftrightarrow> j = 6"
    by (elim disjE; simp)+
qed

lemma clamp_value:
  assumes "length random = 32" and "r0 = random[0 := random ! 0 AND 0xf8]" and "priv = r0[31 := (r0 ! 31 AND 0x7f) OR 0x40]"
  shows "length priv = 32" and "lval priv = rfc7748_clamp (lval random)"
proof -
  show len: "length priv = 32" using assms by simp
  show "lval priv = rfc7748_clamp (lval random)"
  proof (rule bit_eqI)
    fix i
    show "bit (lval priv) i \<longleftrightarrow> bit (rfc7748_clamp (lval random)) i"
    proof (cases "i < 256")
      case True
      then have b: "bit (lval priv) i = bit (priv ! (i div 8)) (i mod 8)" "bit (lval random) i = bit (random ! (i div 8)) (i mod 8)"
        using lval_bit len assms(1) by simp_all
      have i: "i = 8 * (i div 8) + i mod 8" "i mod 8 < 8" "i div 8 < 32" using True by simp_all
      note m = clamp_masks [OF i(2)]
      consider "i div 8 = 0" | "i div 8 = 31" | "i div 8 \<noteq> 0" "i div 8 \<noteq> 31" by blast
      then show ?thesis
      proof cases
        case 1
        then have "3 \<le> i mod 8 \<longleftrightarrow> 3 \<le> i" "i < 254" "i \<noteq> 254" using i by linarith+
        then show ?thesis using b 1 m(1) assms by (auto simp: rfc7748_clamp_bit bit_and_iff)
      next
        case 2
        then have "i mod 8 = 6 \<longleftrightarrow> i = 254" "i mod 8 < 7 \<longleftrightarrow> i < 255" "3 \<le> i" using i by linarith+
        then show ?thesis using b 2 m(2,3) assms by (auto simp: rfc7748_clamp_bit bit_and_iff bit_or_iff)
      next
        case 3
        then have "3 \<le> i" "i < 254" using i by linarith+
        then show ?thesis using b 3 assms by (auto simp: rfc7748_clamp_bit)
      qed
    next
      case False
      have "lval priv < 2 ^ 256" using lval_less [of priv] len by simp
      then have "lval priv = take_bit 256 (lval priv)" by (simp add: take_bit_int_eq_self)
      then have "\<not> bit (lval priv) i" using False by (metis bit_take_bit_iff)
      then show ?thesis using False by (simp add: rfc7748_clamp_bit)
    qed
  qed
qed

lemma x25519_scalar_clamp:
  assumes "lval e = rfc7748_clamp r"
  shows "x25519_scalar e = nat (rfc7748_clamp r)"
proof -
  have "r mod 2 ^ 254 div 8 * 8 \<le> r mod 2 ^ 254" by (simp add: div_times_less_eq_dividend)
  moreover have "0 \<le> r mod 2 ^ 254 div 8" "r mod 2 ^ 254 < 2 ^ 254" by simp_all
  ultimately have "2 ^ 254 \<le> lval e" "lval e < 2 ^ 254 + 2 ^ 254" unfolding assms rfc7748_clamp_def by linarith+
  then have "2 ^ 254 \<le> nat (lval e)" "nat (lval e) < 2 ^ 254 + 2 ^ 254" by (simp_all add: nat_less_iff le_nat_iff)
  then show ?thesis unfolding assms [symmetric] by (simp add: x25519_scalar_def mod_if)
qed

text \<open>C30: Key agreement: the scalar is the clamped number of the 32 random bytes, as RFC 7748 asks: the lowest
  three bits and bit 255 cleared, bit 254 set, all other bits those of the random bytes. Both the
  public key and the premaster secret are results of the ladder for this scalar, from 9 and from
  the peer's key.\<close>

theorem x25519_key_agreement:
  assumes "length random = 32" and "length peerkey32 = 32"
    and "curve_x25519_compute_pubkey_and_premaster random peerkey32 = (pubkey, premaster)"
  shows "length pubkey = 32 \<and> lval pubkey = x25519_result 9 (nat (2 ^ 254 + 8 * (lval random mod 2 ^ 254 div 8)))
    \<and> length premaster = 32
    \<and> lval premaster = x25519_result (lval peerkey32) (nat (2 ^ 254 + 8 * (lval random mod 2 ^ 254 div 8)))"
proof -
  define r0 where "r0 = random[0 := random ! 0 AND 0xf8]"
  define priv where "priv = r0[31 := (r0 ! 31 AND 0x7f) OR 0x40]"
  note v = clamp_value [OF assms(1) r0_def priv_def]
  have n: "x25519_scalar priv = nat (2 ^ 254 + 8 * (lval random mod 2 ^ 254 div 8))"
    using x25519_scalar_clamp [OF v(2)] by (simp only: rfc7748_clamp_def)
  have c: "pubkey = curve25519 priv None" "premaster = curve25519 priv (Some peerkey32)"
    using assms(3) by (simp_all add: curve_x25519_compute_pubkey_and_premaster_def priv_def r0_def Let_def)
  have nine: "fe_rep (fe_small 9) 9" using fe_small_rep(1) [of 9] by simp
  have "length pubkey = 32 \<and> lval pubkey = x25519_result 9 (x25519_scalar priv)"
    unfolding c using curve25519_rep [OF v(1) _ _ nine, of None] by (simp add: fe_small_def)
  moreover have "length premaster = 32 \<and> lval premaster = x25519_result (lval peerkey32) (x25519_scalar priv)"
    unfolding c using curve25519_rep [OF v(1) assms(2) _ fe_rep_lval [OF assms(2)], of "Some peerkey32"] by simp
  ultimately show ?thesis unfolding n by blast
qed

lemma clamp_47: "2 ^ 254 + 8 * (47 mod 2 ^ 254 div 8) = (2 ^ 254 + 40 :: int)"
  by simp

theorem x25519_key_agreement_witness:
  "lval (fst (curve_x25519_compute_pubkey_and_premaster (fe_small 0x2f) (fe_small 9))) = x25519_result 9 (nat (2 ^ 254 + 40))"
proof -
  have "length (fe_small v) = 32" for v by (simp add: fe_small_def)
  moreover have "lval (replicate n 0) = 0" for n by (induction n) simp_all
  then have "lval (fe_small 0x2f) = 47" by (simp add: fe_small_def)
  ultimately show ?thesis
    using x25519_key_agreement [of "fe_small 0x2f" "fe_small 9"] by (metis (no_types) prod.collapse clamp_47)
qed

end
