(* ===== verification/Tls_Der.thy ===== *)
theory Tls_Der
  imports Tls_Record
begin

text \<open>
  The certificate parser of \<^verbatim>\<open>networking/tls.c\<close>, from \<^verbatim>\<open>get_der_len\<close> to
  \<^verbatim>\<open>find_key_in_der_cert\<close>. Pointers are positions in a memory of bytes; a read outside the
  memory is a fault, \<^verbatim>\<open>xfunc_die\<close> ends the program. Of the public key the byte strings are
  kept that \<^verbatim>\<open>binary_to_pstm\<close> is called with.
\<close>

section \<open>Reading items\<close>

datatype 'a der = Die | Fault | Ok 'a

fun der_bind :: "'a der \<Rightarrow> ('a \<Rightarrow> 'b der) \<Rightarrow> 'b der" where
  "der_bind Die f = Die"
| "der_bind Fault f = Fault"
| "der_bind (Ok x) f = f x"

definition rd :: "byte list \<Rightarrow> nat \<Rightarrow> byte der" where
  "rd mem i = (if i < length mem then Ok (mem ! i) else Fault)"

definition rd_bytes :: "byte list \<Rightarrow> nat \<Rightarrow> nat \<Rightarrow> byte list der" where
  "rd_bytes mem i n = (if i + n \<le> length mem then Ok (mem_read mem i n) else Fault)"

text \<open>The check at the end of \<^verbatim>\<open>get_der_len\<close>: the position of the body and its length.\<close>

definition der_body :: "nat \<Rightarrow> nat \<Rightarrow> nat \<Rightarrow> (nat \<times> nat) der" where
  "der_body der end_pos len = (if int end_pos - int der < int len then Die else Ok (der, len))"

definition get_der_len :: "byte list \<Rightarrow> nat \<Rightarrow> nat \<Rightarrow> (nat \<times> nat) der" where
  "get_der_len mem der end_pos =
     (if int end_pos - int der < 2 then Die
      else der_bind (rd mem (der + 1)) (\<lambda>b.
        let len = unat b
        in if len \<ge> 0x80 then
             if len = 0x80 \<or> int end_pos - int der < int (len - 0x7e) then Die
             else der_bind (rd mem (der + 2)) (\<lambda>b2.
               let len1 = unat b2
               in if len > 0x82 then Die
                  else if len = 0x82 then
                    der_bind (rd mem (der + 3)) (\<lambda>b3. der_body (der + 1 + 1 + 2) end_pos (0x100 * len1 + unat b3))
                  else der_body (der + 1 + 2) end_pos len1)
           else der_body (der + 2) end_pos len))"

definition enter_der_item :: "byte list \<Rightarrow> nat \<Rightarrow> nat \<Rightarrow> (nat \<times> nat) der" where
  "enter_der_item mem der end_pos = der_bind (get_der_len mem der end_pos) (\<lambda>(new_der, len). Ok (new_der, new_der + len))"

definition skip_der_item :: "byte list \<Rightarrow> nat \<Rightarrow> nat \<Rightarrow> nat der" where
  "skip_der_item mem der end_pos = der_bind (get_der_len mem der end_pos) (\<lambda>(new_der, len). Ok (new_der + len))"

definition der_binary_to_pstm :: "byte list \<Rightarrow> nat \<Rightarrow> nat \<Rightarrow> byte list der" where
  "der_binary_to_pstm mem der end_pos = der_bind (get_der_len mem der end_pos) (\<lambda>(bin_ptr, len). rd_bytes mem bin_ptr len)"

section \<open>The key of a certificate\<close>

definition GOT_CERT_RSA_KEY_ALG :: u32 where "GOT_CERT_RSA_KEY_ALG = push_bit 1 1"

definition OID_RSA_KEY_ALG :: "byte list" where
  "OID_RSA_KEY_ALG = [0x30, 0x0d, 0x06, 0x09, 0x2a, 0x86, 0x48, 0x86, 0xf7, 0x0d, 0x01, 0x01, 0x01]"

definition OID_ECDSA_KEY_ALG :: "byte list" where
  "OID_ECDSA_KEY_ALG = [0x30, 0x13, 0x06, 0x07, 0x2a, 0x86, 0x48, 0xce, 0x3d, 0x02, 0x01]"

text \<open>The comparisons that choose the kind of key; the new flags.\<close>

definition cert_key_alg :: "byte list \<Rightarrow> nat \<Rightarrow> u32 \<Rightarrow> u32 der" where
  "cert_key_alg mem der flags =
     der_bind (rd_bytes mem der (length OID_RSA_KEY_ALG)) (\<lambda>x.
       if x = OID_RSA_KEY_ALG then Ok (flags OR GOT_CERT_RSA_KEY_ALG)
       else der_bind (rd_bytes mem der (length OID_ECDSA_KEY_ALG)) (\<lambda>y.
         if y = OID_ECDSA_KEY_ALG then Ok flags else Die))"

text \<open>The part for RSA keys: modulus and exponent.\<close>

definition rsa_key :: "byte list \<Rightarrow> nat \<Rightarrow> nat \<Rightarrow> (byte list \<times> byte list) der" where
  "rsa_key mem der end_pos =
     der_bind (skip_der_item mem der end_pos) (\<lambda>der.
     der_bind (enter_der_item mem der end_pos) (\<lambda>(der, end_pos).
       if int end_pos - int der < 14 then Die
       else der_bind (rd mem der) (\<lambda>b.
         if b \<noteq> 0 then Die
         else der_bind (enter_der_item mem (der + 1) end_pos) (\<lambda>(der, end_pos).
              der_bind (der_binary_to_pstm mem der end_pos) (\<lambda>N.
              der_bind (skip_der_item mem der end_pos) (\<lambda>der.
              der_bind (der_binary_to_pstm mem der end_pos) (\<lambda>e. Ok (N, e))))))))"

fun skip_der_items :: "nat \<Rightarrow> byte list \<Rightarrow> nat \<Rightarrow> nat \<Rightarrow> nat der" where
  "skip_der_items 0 mem der end_pos = Ok der"
| "skip_der_items (Suc n) mem der end_pos =
     der_bind (skip_der_item mem der end_pos) (\<lambda>der. skip_der_items n mem der end_pos)"

text \<open>The parts inside \<^verbatim>\<open>subjectPublicKeyInfo\<close> and inside \<^verbatim>\<open>tbsCertificate\<close>.\<close>

definition spki_key :: "byte list \<Rightarrow> nat \<Rightarrow> nat \<Rightarrow> u32 \<Rightarrow> (u32 \<times> (byte list \<times> byte list) option) der" where
  "spki_key mem der end_pos flags =
     der_bind (cert_key_alg mem der flags) (\<lambda>flags.
       if flags AND GOT_CERT_RSA_KEY_ALG \<noteq> 0
       then der_bind (rsa_key mem der end_pos) (\<lambda>key. Ok (flags, Some key))
       else Ok (flags, None))"

definition tbs_key :: "byte list \<Rightarrow> nat \<Rightarrow> nat \<Rightarrow> u32 \<Rightarrow> (u32 \<times> (byte list \<times> byte list) option) der" where
  "tbs_key mem der end_pos flags =
     der_bind (rd mem der) (\<lambda>b.
     der_bind (if b = 0xa0 then skip_der_item mem der end_pos else Ok der) (\<lambda>der.
     der_bind (skip_der_items 5 mem der end_pos) (\<lambda>der.
     der_bind (enter_der_item mem der end_pos) (\<lambda>(der, end_pos). spki_key mem der end_pos flags))))"

definition find_key_in_der_cert :: "byte list \<Rightarrow> nat \<Rightarrow> nat \<Rightarrow> u32 \<Rightarrow> (u32 \<times> (byte list \<times> byte list) option) der" where
  "find_key_in_der_cert mem der len flags =
     der_bind (enter_der_item mem der (der + len)) (\<lambda>(der, end_pos).
     der_bind (enter_der_item mem der end_pos) (\<lambda>(der, end_pos). tbs_key mem der end_pos flags))"

section \<open>Bounds\<close>

text \<open>Inside the memory an item is read without a fault, and its body ends before the end given.\<close>

fun no_fault :: "('a \<Rightarrow> bool) \<Rightarrow> 'a der \<Rightarrow> bool" where
  "no_fault P Die = True"
| "no_fault P Fault = False"
| "no_fault P (Ok x) = P x"

lemma no_fault_bind:
  assumes "no_fault P r" and "\<And>x. P x \<Longrightarrow> no_fault Q (f x)"
  shows "no_fault Q (der_bind r f)"
  using assms by (cases r) auto

lemma no_fault_mono: "no_fault P r \<Longrightarrow> (\<And>x. P x \<Longrightarrow> Q x) \<Longrightarrow> no_fault Q r"
  by (cases r) auto

lemma rd_bounds: "i < length mem \<Longrightarrow> no_fault (\<lambda>x. x = mem ! i) (rd mem i)"
  by (simp add: rd_def)

lemma get_der_len_bounds:
  assumes "end_pos \<le> length mem"
  shows "no_fault (\<lambda>(d, n). der + 2 \<le> d \<and> d + n \<le> end_pos) (get_der_len mem der end_pos)"
proof -
  have body: "no_fault (\<lambda>(d, n). der + 2 \<le> d \<and> d + n \<le> end_pos) (der_body pos end_pos len)" if "der + 2 \<le> pos" for pos len
    using that by (auto simp: der_body_def)
  have long: "int end_pos - int der < int (n - 0x7e) \<or> n \<le> 0x80 \<or> der + 3 \<le> length mem" for n
    using assms by linarith
  have longer: "int end_pos - int der < 4 \<or> der + 4 \<le> length mem" using assms by linarith
  show ?thesis
  proof (cases "int end_pos - int der < 2")
    case False
    then have "der + 1 < length mem" using assms by linarith
    then show ?thesis
      using False body long [of "unat (mem ! (der + 1))"] longer
      unfolding get_der_len_def Let_def by (auto simp: rd_def simp del: of_nat_diff unat_eq_nat_uint)
  qed (simp add: get_der_len_def)
qed

lemma enter_bounds:
  "end_pos \<le> length mem \<Longrightarrow> no_fault (\<lambda>(d, e). der + 2 \<le> d \<and> d \<le> e \<and> e \<le> end_pos) (enter_der_item mem der end_pos)"
  unfolding enter_der_item_def by (rule no_fault_bind [OF get_der_len_bounds]) auto

lemma skip_bounds:
  "end_pos \<le> length mem \<Longrightarrow> no_fault (\<lambda>d. der + 2 \<le> d \<and> d \<le> end_pos) (skip_der_item mem der end_pos)"
  unfolding skip_der_item_def by (rule no_fault_bind [OF get_der_len_bounds]) auto

lemma skips_bounds:
  "end_pos \<le> length mem \<Longrightarrow> der \<le> end_pos \<Longrightarrow> no_fault (\<lambda>d. d \<le> end_pos) (skip_der_items n mem der end_pos)"
  by (induction n mem der end_pos rule: skip_der_items.induct) (auto intro!: no_fault_bind [OF skip_bounds])

lemma binary_bounds:
  "end_pos \<le> length mem \<Longrightarrow> no_fault (\<lambda>_. True) (der_binary_to_pstm mem der end_pos)"
  unfolding der_binary_to_pstm_def by (rule no_fault_bind [OF get_der_len_bounds]) (auto simp: rd_bytes_def)

lemmas bounds_rules = no_fault_bind [OF enter_bounds] no_fault_bind [OF skip_bounds] no_fault_bind [OF rd_bounds]
  no_fault_bind [OF binary_bounds] no_fault_bind [OF skips_bounds]

lemma rsa_key_bounds: "end_pos \<le> length mem \<Longrightarrow> no_fault (\<lambda>_. True) (rsa_key mem der end_pos)"
  unfolding rsa_key_def by (auto intro!: bounds_rules)

lemma spki_key_bounds:
  "end_pos \<le> length mem \<Longrightarrow> der + 13 \<le> length mem \<Longrightarrow> no_fault (\<lambda>_. True) (spki_key mem der end_pos flags)"
  using rsa_key_bounds [of end_pos mem der]
  unfolding spki_key_def cert_key_alg_def
  by (auto simp: rd_bytes_def OID_RSA_KEY_ALG_def OID_ECDSA_KEY_ALG_def intro: no_fault_bind)

lemma tbs_key_bounds:
  assumes "end_pos + 13 \<le> length mem" and "der \<le> end_pos"
  shows "no_fault (\<lambda>_. True) (tbs_key mem der end_pos flags)"
proof -
  have "no_fault (\<lambda>d. d \<le> end_pos) (if b = 0xa0 then skip_der_item mem der end_pos else Ok der)" for b :: byte
    using assms skip_bounds [of end_pos mem der] by (auto elim: no_fault_mono)
  then show ?thesis
    unfolding tbs_key_def using assms
    by (auto intro!: skips_bounds bounds_rules spki_key_bounds no_fault_bind [where P = "\<lambda>d. d \<le> end_pos"])
qed

lemma find_key_bounds:
  "der + len + 13 \<le> length mem \<Longrightarrow> no_fault (\<lambda>_. True) (find_key_in_der_cert mem der len flags)"
  unfolding find_key_in_der_cert_def by (auto intro!: bounds_rules tbs_key_bounds)


section \<open>Encoded items\<close>

definition der_length :: "nat \<Rightarrow> byte list" where
  "der_length n =
     (if n < 0x80 then [word_of_nat n]
      else if n < 0x100 then [0x81, word_of_nat n]
      else [0x82, word_of_nat (n div 256), word_of_nat (n mod 256)])"

definition der_item :: "byte \<Rightarrow> byte list \<Rightarrow> byte list" where
  "der_item tag body = tag # der_length (length body) @ body"

definition at_pos :: "byte list \<Rightarrow> nat \<Rightarrow> byte list \<Rightarrow> bool" where
  "at_pos mem pos bs \<longleftrightarrow> pos + length bs \<le> length mem \<and> mem_read mem pos (length bs) = bs"

lemma at_pos_append: "at_pos mem pos (xs @ ys) \<longleftrightarrow> at_pos mem pos xs \<and> at_pos mem (pos + length xs) ys"
  unfolding at_pos_def by (auto simp: mem_read_append)

lemma at_pos_nth: "at_pos mem pos bs \<Longrightarrow> i < length bs \<Longrightarrow> pos + i < length mem \<and> mem ! (pos + i) = bs ! i"
proof -
  assume a: "at_pos mem pos bs" "i < length bs"
  then have bs: "mem_read mem pos (length bs) = bs" "pos + length bs \<le> length mem" by (simp_all add: at_pos_def)
  have "bs ! i = mem_read mem pos (length bs) ! i" using bs(1) by simp
  also have "\<dots> = mem ! (pos + i)" using a(2) bs(2) unfolding mem_read_def by simp
  finally show ?thesis using a(2) bs(2) by simp
qed

lemma at_pos_Cons: "at_pos mem pos (b # bs) \<longleftrightarrow> at_pos mem pos [b] \<and> at_pos mem (pos + 1) bs"
  using at_pos_append [of mem pos "[b]" bs] by simp

lemma rd_at: "at_pos mem pos (b # bs) \<Longrightarrow> rd mem pos = Ok b"
  using at_pos_nth [of mem pos "b # bs" 0] by (simp add: rd_def)

definition der_hdr_len :: "byte list \<Rightarrow> nat" where "der_hdr_len body = 1 + length (der_length (length body))"

lemma length_der_item: "length (der_item tag body) = der_hdr_len body + length body"
  by (simp add: der_item_def der_hdr_len_def)

lemma at_pos_body: "at_pos mem pos (der_item tag body) \<Longrightarrow> at_pos mem (pos + der_hdr_len body) body"
  unfolding der_item_def using at_pos_append [of mem pos "tag # der_length (length body)" body] by (simp add: der_hdr_len_def)

lemma get_der_len_item:
  assumes at: "at_pos mem der (der_item tag body)" and small: "length body < 65536"
    and fits: "der + length (der_item tag body) \<le> end_pos"
  shows "get_der_len mem der end_pos = Ok (der + der_hdr_len body, length body)"
proof -
  have rds: "rd mem (der + i) = Ok (der_item tag body ! i)" if "i < length (der_item tag body)" for i
    using at_pos_nth [OF at that] by (simp add: rd_def)
  have u: "unat (word_of_nat n :: byte) = n" if "n < 256" for n
    using that by (simp add: unsigned_of_nat take_bit_nat_eq_self)
  have body: "der_body pos end_pos n = Ok (pos, n)" if "pos + n \<le> end_pos" for pos n
    using that by (simp add: der_body_def)
  note l = length_der_item [of tag body]
  consider "length body < 0x80" | "0x80 \<le> length body" "length body < 0x100" | "0x100 \<le> length body" by linarith
  then show ?thesis
  proof cases
    case 1
    then have h: "der_length (length body) = [word_of_nat (length body)]" by (simp add: der_length_def)
    have "rd mem (der + 1) = Ok (word_of_nat (length body))" using rds [of 1] h by (simp add: der_item_def)
    then show ?thesis
      using 1 u [of "length body"] fits l h body
      by (simp add: get_der_len_def der_hdr_len_def)
  next
    case 2
    then have h: "der_length (length body) = [0x81, word_of_nat (length body)]" by (simp add: der_length_def)
    have "rd mem (der + 1) = Ok 0x81" "rd mem (der + 2) = Ok (word_of_nat (length body))"
      using rds [of 1] rds [of 2] h by (simp_all add: der_item_def)
    then show ?thesis
      using 2 u [of "length body"] fits l h body
      by (simp add: get_der_len_def der_hdr_len_def)
  next
    case 3
    then have h: "der_length (length body) = [0x82, word_of_nat (length body div 256), word_of_nat (length body mod 256)]"
      by (simp add: der_length_def)
    have "rd mem (der + 1) = Ok 0x82" "rd mem (der + 2) = Ok (word_of_nat (length body div 256))"
      "rd mem (der + 3) = Ok (word_of_nat (length body mod 256))"
      using rds [of 1] rds [of 2] rds [of 3] h by (simp_all add: der_item_def)
    then show ?thesis
      using 3 u [of "length body div 256"] u [of "length body mod 256"] small fits l h body
      by (simp add: get_der_len_def der_hdr_len_def)
  qed
qed

lemma skip_item:
  assumes "at_pos mem der (der_item tag body)" "length body < 65536" "der + length (der_item tag body) \<le> end_pos"
  shows "skip_der_item mem der end_pos = Ok (der + length (der_item tag body))"
  by (simp add: skip_der_item_def get_der_len_item [OF assms] length_der_item add.assoc)

lemma enter_item:
  assumes "at_pos mem der (der_item tag body)" "length body < 65536" "der + length (der_item tag body) \<le> end_pos"
  shows "enter_der_item mem der end_pos = Ok (der + der_hdr_len body, der + der_hdr_len body + length body)"
  by (simp add: enter_der_item_def get_der_len_item [OF assms])

lemma binary_item:
  assumes "at_pos mem der (der_item tag body)" "length body < 65536" "der + length (der_item tag body) \<le> end_pos"
  shows "der_binary_to_pstm mem der end_pos = Ok body"
  using at_pos_body [OF assms(1)] by (simp add: der_binary_to_pstm_def get_der_len_item [OF assms] rd_bytes_def at_pos_def)

lemma skip_items:
  assumes "at_pos mem der (concat (map (\<lambda>(t, b). der_item t b) fs))" "der + length (concat (map (\<lambda>(t, b). der_item t b) fs)) \<le> end_pos"
    and "\<forall>(t, b) \<in> set fs. length b < 65536"
  shows "skip_der_items (length fs) mem der end_pos = Ok (der + length (concat (map (\<lambda>(t, b). der_item t b) fs)))"
  using assms
proof (induction fs arbitrary: der)
  case (Cons f fs)
  obtain t b where f: "f = (t, b)" by force
  have "skip_der_item mem der end_pos = Ok (der + length (der_item t b))"
    by (rule skip_item) (use Cons.prems f in \<open>auto simp: at_pos_append\<close>)
  then show ?case using Cons.IH [of "der + length (der_item t b)"] Cons.prems f by (simp add: at_pos_append add.assoc)
qed simp

section \<open>Certificates with an RSA key\<close>

definition rsa_spki :: "byte list \<Rightarrow> byte list \<Rightarrow> byte list" where
  "rsa_spki N e = OID_RSA_KEY_ALG @ [5, 0] @ der_item 3 (0 # der_item 0x30 (der_item 2 N @ der_item 2 e))"

definition tbs_body :: "byte list option \<Rightarrow> (byte \<times> byte list) list \<Rightarrow> byte list \<Rightarrow> byte list \<Rightarrow> byte list" where
  "tbs_body version flds spki extensions =
     (case version of None \<Rightarrow> [] | Some v \<Rightarrow> der_item 0xa0 v)
     @ concat (map (\<lambda>(t, b). der_item t b) flds) @ der_item 0x30 spki @ extensions"

definition certificate :: "byte list \<Rightarrow> byte list \<Rightarrow> byte list" where
  "certificate tbs sig_fields = der_item 0x30 (der_item 0x30 tbs @ sig_fields)"

lemma rsa_alg_item: "OID_RSA_KEY_ALG @ [5, 0] = der_item 0x30 (drop 2 OID_RSA_KEY_ALG @ [5, 0])"
  by (simp add: OID_RSA_KEY_ALG_def der_item_def der_length_def)

lemma rsa_key_item:
  assumes at: "at_pos mem der (rsa_spki N e)" and end_pos: "der + length (rsa_spki N e) = end_pos"
    and len: "length (rsa_spki N e) < 65536" "9 \<le> length N"
  shows "rsa_key mem der end_pos = Ok (N, e)"
proof -
  let ?key = "der_item 2 N @ der_item 2 e" and ?alg = "OID_RSA_KEY_ALG @ [5, 0]"
  let ?bits = "0 # der_item 0x30 ?key"
  have l: "length ?alg = 15" by (simp add: OID_RSA_KEY_ALG_def)
  have total: "length (rsa_spki N e) = 15 + length (der_item 3 ?bits)" by (simp add: rsa_spki_def OID_RSA_KEY_ALG_def)
  have a: "at_pos mem der ?alg" "at_pos mem (der + 15) (der_item 3 ?bits)"
    using at l unfolding rsa_spki_def append.assoc [symmetric, of OID_RSA_KEY_ALG] at_pos_append by (simp_all add: add.commute)
  let ?d1 = "der + 15 + der_hdr_len ?bits"
  have bits: "at_pos mem ?d1 ?bits" by (rule at_pos_body [OF a(2)])
  then have key0: "rd mem ?d1 = Ok 0" and seq: "at_pos mem (?d1 + 1) (der_item 0x30 ?key)"
    using rd_at [OF bits] at_pos_Cons [THEN iffD1, OF bits] by simp_all
  let ?d2 = "?d1 + 1 + der_hdr_len ?key"
  have k: "at_pos mem ?d2 (der_item 2 N)" "at_pos mem (?d2 + length (der_item 2 N)) (der_item 2 e)"
    using at_pos_body [OF seq] unfolding at_pos_append by simp_all
  have s1: "skip_der_item mem der end_pos = Ok (der + 15)"
    using skip_item [of mem der "0x30" "drop 2 OID_RSA_KEY_ALG @ [5, 0]" end_pos] a(1) l total end_pos
    unfolding rsa_alg_item [symmetric] by (simp add: OID_RSA_KEY_ALG_def)
  have small: "length ?bits < 65536" "length ?key < 65536" "length N < 65536" "length e < 65536"
    using total len by (simp_all add: length_der_item)
  have s2: "enter_der_item mem (der + 15) end_pos = Ok (?d1, ?d1 + length ?bits)"
    by (rule enter_item [OF a(2) small(1)]) (use total end_pos in simp)
  have s3: "enter_der_item mem (?d1 + 1) (?d1 + length ?bits) = Ok (?d2, ?d2 + length ?key)"
    by (rule enter_item [OF seq small(2)]) simp
  have s4: "der_binary_to_pstm mem ?d2 (?d2 + length ?key) = Ok N"
    by (rule binary_item [OF k(1) small(3)]) simp
  have s5: "skip_der_item mem ?d2 (?d2 + length ?key) = Ok (?d2 + length (der_item 2 N))"
    by (rule skip_item [OF k(1) small(3)]) simp
  have s6: "der_binary_to_pstm mem (?d2 + length (der_item 2 N)) (?d2 + length ?key) = Ok e"
    by (rule binary_item [OF k(2) small(4)]) simp
  have long: "\<not> int (?d1 + length ?bits) - int ?d1 < 14" using len(2) by (simp add: length_der_item der_hdr_len_def der_length_def)
  show ?thesis
    unfolding rsa_key_def s1 der_bind.simps s2 prod.case key0 using long s3 s4 s5 s6 by simp
qed

lemma got_rsa: "(flags OR GOT_CERT_RSA_KEY_ALG) AND GOT_CERT_RSA_KEY_ALG \<noteq> 0"
proof
  assume "(flags OR GOT_CERT_RSA_KEY_ALG) AND GOT_CERT_RSA_KEY_ALG = 0"
  then have "\<not> bit ((flags OR GOT_CERT_RSA_KEY_ALG) AND GOT_CERT_RSA_KEY_ALG) 1" by simp
  then show False by (simp add: GOT_CERT_RSA_KEY_ALG_def bit_simps)
qed

lemma spki_key_item:
  assumes "at_pos mem der (rsa_spki N e)" and "der + length (rsa_spki N e) = end_pos"
    and "length (rsa_spki N e) < 65536" "9 \<le> length N"
  shows "spki_key mem der end_pos flags = Ok (flags OR GOT_CERT_RSA_KEY_ALG, Some (N, e))"
proof -
  have "at_pos mem der OID_RSA_KEY_ALG" using assms(1) unfolding rsa_spki_def at_pos_append by simp
  then have "cert_key_alg mem der flags = Ok (flags OR GOT_CERT_RSA_KEY_ALG)"
    by (simp add: cert_key_alg_def rd_bytes_def at_pos_def)
  then show ?thesis using rsa_key_item [OF assms] got_rsa by (simp add: spki_key_def)
qed

lemma tbs_key_item:
  assumes at: "at_pos mem der (tbs_body version flds (rsa_spki N e) extensions)"
    and end_pos: "der + length (tbs_body version flds (rsa_spki N e) extensions) = end_pos"
    and len: "length (tbs_body version flds (rsa_spki N e) extensions) < 65536" "9 \<le> length N"
    and flds: "length flds = 5" "fst (hd flds) \<noteq> 0xa0"
  shows "tbs_key mem der end_pos flags = Ok (flags OR GOT_CERT_RSA_KEY_ALG, Some (N, e))"
proof -
  let ?ver = "case version of None \<Rightarrow> [] | Some v \<Rightarrow> der_item 0xa0 v"
  let ?fs = "concat (map (\<lambda>(t, b). der_item t b) flds)" and ?spki = "der_item 0x30 (rsa_spki N e)"
  let ?d1 = "der + length ?ver" and ?d2 = "der + length ?ver + length ?fs"
  have parts: "at_pos mem der ?ver" "at_pos mem ?d1 ?fs" "at_pos mem ?d2 ?spki"
    using at unfolding tbs_body_def at_pos_append by (simp_all add: add.assoc)
  have total: "?d2 + length ?spki + length extensions = end_pos" using end_pos by (simp add: tbs_body_def)
  have small: "length ?ver + length ?fs + length ?spki < 65536" using len(1) by (simp add: tbs_body_def)
  obtain t b fs' where f: "flds = (t, b) # fs'" using flds(1) by (cases flds) auto
  have "\<exists>b. rd mem der = Ok b \<and> (if b = 0xa0 then skip_der_item mem der end_pos else Ok der) = Ok ?d1"
  proof (cases version)
    case None
    then have "at_pos mem der (t # (der_length (length b) @ b) @ concat (map (\<lambda>(t, b). der_item t b) fs'))"
      using parts(2) f by (simp add: der_item_def)
    from rd_at [OF this] show ?thesis using None flds(2) f by simp
  next
    case (Some v)
    then have v: "at_pos mem der (der_item 0xa0 v)" "length v < 65536" using parts(1) small by (simp_all add: length_der_item)
    have "skip_der_item mem der end_pos = Ok ?d1"
      using skip_item [OF v, of end_pos] Some total by simp
    moreover have "rd mem der = Ok 0xa0" using rd_at v(1) unfolding der_item_def by blast
    ultimately show ?thesis by simp
  qed
  moreover have "skip_der_items 5 mem ?d1 end_pos = Ok ?d2"
  proof -
    have "length b < 65536" if "(t, b) \<in> set flds" for t b
    proof -
      have "length (der_item t b) \<le> length ?fs"
        using that by (auto simp: length_concat intro!: member_le_sum_list image_eqI [of _ _ "(t, b)"])
      then show ?thesis using small by (simp add: length_der_item)
    qed
    then show ?thesis using skip_items [OF parts(2), of end_pos] total flds(1) by auto
  qed
  moreover have "enter_der_item mem ?d2 end_pos = Ok (?d2 + der_hdr_len (rsa_spki N e), ?d2 + der_hdr_len (rsa_spki N e) + length (rsa_spki N e))"
    by (rule enter_item [OF parts(3)]) (use small total in \<open>simp_all add: length_der_item\<close>)
  moreover have "spki_key mem (?d2 + der_hdr_len (rsa_spki N e)) (?d2 + der_hdr_len (rsa_spki N e) + length (rsa_spki N e)) flags
      = Ok (flags OR GOT_CERT_RSA_KEY_ALG, Some (N, e))"
    by (rule spki_key_item [OF at_pos_body [OF parts(3)] refl]) (use small len(2) in \<open>simp_all add: length_der_item\<close>)
  ultimately show ?thesis by (auto simp: tbs_key_def)
qed

lemma find_key_item:
  assumes "at_pos mem der (certificate (tbs_body version flds (rsa_spki N e) extensions) sig_fields)"
    and "len = length (certificate (tbs_body version flds (rsa_spki N e) extensions) sig_fields)" and "len < 65536"
    and "length flds = 5" and "fst (hd flds) \<noteq> 0xa0" and "9 \<le> length N"
  shows "find_key_in_der_cert mem der len flags = Ok (flags OR GOT_CERT_RSA_KEY_ALG, Some (N, e))"
proof -
  let ?tbs = "tbs_body version flds (rsa_spki N e) extensions"
  let ?in = "der_item 0x30 ?tbs @ sig_fields"
  have at: "at_pos mem der (der_item 0x30 ?in)" using assms(1) by (simp add: certificate_def)
  have len: "len = length (der_item 0x30 ?in)" using assms(2) by (simp add: certificate_def)
  have small: "length ?in < 65536" "length ?tbs < 65536" using len assms(3) by (simp_all add: length_der_item)
  let ?d1 = "der + der_hdr_len ?in"
  have e1: "enter_der_item mem der (der + len) = Ok (?d1, ?d1 + length ?in)"
    by (rule enter_item [OF at small(1)]) (simp add: len)
  have a1: "at_pos mem ?d1 (der_item 0x30 ?tbs)" using at_pos_body [OF at] by (simp add: at_pos_append)
  let ?d2 = "?d1 + der_hdr_len ?tbs"
  have e2: "enter_der_item mem ?d1 (?d1 + length ?in) = Ok (?d2, ?d2 + length ?tbs)"
    by (rule enter_item [OF a1 small(2)]) simp
  have "tbs_key mem ?d2 (?d2 + length ?tbs) flags = Ok (flags OR GOT_CERT_RSA_KEY_ALG, Some (N, e))"
    by (rule tbs_key_item [OF at_pos_body [OF a1] refl small(2) assms(6,4,5)])
  then show ?thesis by (simp only: find_key_in_der_cert_def e1 e2 der_bind.simps prod.case)
qed

section \<open>Properties\<close>

text \<open>C8: Parsing undoes encoding: for a certificate in DER whose parts are below 64 KB, with or without
  a version, five fields of any content before the key and anything after it, wherever it lies in
  memory, \<^verbatim>\<open>find_key_in_der_cert\<close> finds the RSA key and passes exactly the bytes of modulus and
  exponent on.\<close>

theorem find_key_rsa:
  assumes "at_pos mem der (certificate (tbs_body version flds (rsa_spki N e) extensions) sig_fields)"
    and "len = length (certificate (tbs_body version flds (rsa_spki N e) extensions) sig_fields)" and "len < 65536"
    and "length flds = 5" and "fst (hd flds) \<noteq> 0xa0" and "9 \<le> length N"
  shows "find_key_in_der_cert mem der len flags = Ok (flags OR GOT_CERT_RSA_KEY_ALG, Some (N, e))"
  by (rule find_key_item [OF assms])

definition demo_fields :: "(byte \<times> byte list) list" where
  "demo_fields = [(2, [1]), (0x30, []), (0x30, [7]), (0x30, []), (0x30, [])]"

theorem find_key_rsa_witness:
  "find_key_in_der_cert (certificate (tbs_body (Some [2, 1, 2]) demo_fields (rsa_spki (replicate 200 9) [1, 0, 1]) []) [])
     0 (length (certificate (tbs_body (Some [2, 1, 2]) demo_fields (rsa_spki (replicate 200 9) [1, 0, 1]) []) [])) 0
   = Ok (GOT_CERT_RSA_KEY_ALG, Some (replicate 200 9, [1, 0, 1]))"
proof -
  have "length (certificate (tbs_body (Some [2, 1, 2]) demo_fields (rsa_spki (replicate 200 9) [1, 0, 1]) []) []) < 65536"
    by (simp add: certificate_def tbs_body_def rsa_spki_def der_item_def der_length_def demo_fields_def OID_RSA_KEY_ALG_def)
  then show ?thesis
    using find_key_rsa [of _ 0 "Some [2, 1, 2]" demo_fields "replicate 200 9" "[1, 0, 1]" "[]" "[]" _ 0, OF _ refl]
    by (simp add: at_pos_def mem_read_def demo_fields_def)
qed

text \<open>C33: Bounds of the parser: with 13 readable bytes after the certificate it never reads outside the
  memory, whatever the certificate holds; an item it enters or skips ends before the item around
  it. The 13 bytes are needed: the first byte of an empty \<^verbatim>\<open>tbsCertificate\<close> and the comparison
  with the object identifiers are read without a check.\<close>

theorem find_key_memory_safe:
  assumes "der + len + 13 \<le> length mem"
  shows "find_key_in_der_cert mem der len flags \<noteq> Fault \<and> find_key_in_der_cert [0x30, 2, 0x30, 0] 0 4 flags = Fault"
proof
  show "find_key_in_der_cert mem der len flags \<noteq> Fault"
    using find_key_bounds [OF assms, of flags] by (cases "find_key_in_der_cert mem der len flags") auto
  show "find_key_in_der_cert [0x30, 2, 0x30, 0] 0 4 flags = Fault"
    by (simp add: find_key_in_der_cert_def enter_der_item_def get_der_len_def rd_def der_body_def tbs_key_def)
qed

theorem find_key_memory_safe_witness:
  "find_key_in_der_cert (replicate 17 0x30) 0 4 0 \<noteq> Fault"
  using find_key_memory_safe [of 0 4 "replicate 17 0x30" 0] by simp

end
