(* ===== verification/Tls_Sp.thy ===== *)
theory Tls_Sp
  imports Byte_Words
begin

text \<open>
  \<^verbatim>\<open>networking/tls_sp_c32.c\<close>: arithmetic on numbers of 256 bits for the curve P-256, in the C
  code that does not depend on the processor. A number is a list of eight 32-bit words, least
  significant word first; an operation that changes an array returns the new list, with the carry or
  the overflow where the C function returns one. The last section has the versions that use the arrays as
  64-bit words.
\<close>

unbundle bit_operations_syntax

section \<open>Numbers of 256 bits\<close>

definition p256_mod :: "u32 list" where
  "p256_mod = [0xffffffff, 0xffffffff, 0xffffffff, 0, 0, 0, 1, 0xffffffff]"

definition sp_256_to_bin_8 :: "u32 list \<Rightarrow> byte list" where
  "sp_256_to_bin_8 r = concat (map (\<lambda>i. le_bytes 4 (bswap32 (r ! (7 - i)))) [0..<8])"

definition sp_256_from_bin_8 :: "byte list \<Rightarrow> u32 list" where
  "sp_256_from_bin_8 a = rev (map (\<lambda>i. bswap32 (le_word (take 4 (drop (4 * i) a)))) [0..<8])"

fun cmp_loop :: "'a :: len word list \<Rightarrow> 'a word list \<Rightarrow> nat list \<Rightarrow> int" where
  "cmp_loop a b [] = 0"
| "cmp_loop a b (i # is) =
     (if a ! i = b ! i then cmp_loop a b is
      else of_bool (a ! i > b ! i) * 2 - 1)"

definition sp_256_cmp_8 :: "u32 list \<Rightarrow> u32 list \<Rightarrow> int" where
  "sp_256_cmp_8 a b = cmp_loop a b (rev [0..<8])"

definition sp_256_cmp_equal_8 :: "u32 list \<Rightarrow> u32 list \<Rightarrow> bool" where
  "sp_256_cmp_equal_8 a b \<longleftrightarrow> sp_256_cmp_8 a b = 0"

fun add_loop :: "u32 list \<Rightarrow> u32 list \<Rightarrow> nat list \<Rightarrow> u32 \<Rightarrow> u32 list \<times> u32" where
  "add_loop a b [] carry = ([], carry)"
| "add_loop a b (i # is) carry =
     (let w = b ! i + carry;
          v = a ! i;
          (v, carry) = (if w \<noteq> 0 then let v = a ! i + w in (v, of_bool (v < a ! i)) else (v, carry));
          (r, carry) = add_loop a b is carry
      in (v # r, carry))"

definition sp_256_add_8 :: "u32 list \<Rightarrow> u32 list \<Rightarrow> u32 list \<times> u32" where
  "sp_256_add_8 a b = add_loop a b [0..<8] 0"

fun sub_loop :: "u32 list \<Rightarrow> u32 list \<Rightarrow> nat list \<Rightarrow> u32 \<Rightarrow> u32 list \<times> u32" where
  "sub_loop a b [] borrow = ([], borrow)"
| "sub_loop a b (i # is) borrow =
     (let w = b ! i + borrow;
          v = a ! i;
          (v, borrow) = (if w \<noteq> 0 then let v = a ! i - w in (v, of_bool (v > a ! i)) else (v, borrow));
          (r, borrow) = sub_loop a b is borrow
      in (v # r, borrow))"

definition sp_256_sub_8 :: "u32 list \<Rightarrow> u32 list \<Rightarrow> u32 list \<times> u32" where
  "sp_256_sub_8 a b = sub_loop a b [0..<8] 0"

definition sp_256_sub_8_p256_mod :: "u32 list \<Rightarrow> u32 list" where
  "sp_256_sub_8_p256_mod r = fst (sp_256_sub_8 r p256_mod)"

text \<open>
  The product by columns: \<^verbatim>\<open>acc_hi\<close> counts the overflows of the 64-bit sum. The inner loop runs
  \<^verbatim>\<open>i\<close> from \<open>max 0 (k - 7)\<close> while it is not 8 and at most \<^verbatim>\<open>k\<close>.
\<close>

definition column_sum :: "u32 list \<Rightarrow> u32 list \<Rightarrow> nat \<Rightarrow> u64 \<Rightarrow> u64 \<times> u32" where
  "column_sum a b k acc =
     fold (\<lambda>i (acc, acc_hi).
            let m = ucast (a ! i) * ucast (b ! (k - i));
                acc = acc + m
            in (acc, if acc < m then acc_hi + 1 else acc_hi))
          [k - 7..<min 8 (k + 1)] (acc, 0)"

fun mul_loop :: "u32 list \<Rightarrow> u32 list \<Rightarrow> nat list \<Rightarrow> u64 \<Rightarrow> u32 list \<times> u64" where
  "mul_loop a b [] acc = ([], acc)"
| "mul_loop a b (k # ks) acc =
     (let (acc, acc_hi) = column_sum a b k acc;
          (r, acc') = mul_loop a b ks (drop_bit 32 acc OR push_bit 32 (ucast acc_hi))
      in (ucast acc # r, acc'))"

definition sp_256to512_mul_8 :: "u32 list \<Rightarrow> u32 list \<Rightarrow> u32 list" where
  "sp_256to512_mul_8 a b = (let (r, acc) = mul_loop a b [0..<15] 0 in r @ [ucast acc])"

fun rshift_loop :: "nat \<Rightarrow> 'a :: len word list \<Rightarrow> nat list \<Rightarrow> 'a word \<Rightarrow> 'a word list" where
  "rshift_loop h r [] carry = r"
| "rshift_loop h r (i # is) carry =
     (let c = push_bit h (r ! i)
      in rshift_loop h (r[i := drop_bit 1 (r ! i) OR carry]) is c)"

definition sp_256_rshift1_8 :: "u32 list \<Rightarrow> u32 \<Rightarrow> u32 list" where
  "sp_256_rshift1_8 r carry = rshift_loop 31 r (rev [0..<8]) (push_bit 31 (of_bool (carry \<noteq> 0)))"

definition sp_256_div2_8 :: "u32 list \<Rightarrow> u32 list" where
  "sp_256_div2_8 r =
     (let (r, carry) = (if r ! 0 AND 1 \<noteq> 0 then sp_256_add_8 r p256_mod else (r, 0))
      in sp_256_rshift1_8 r carry)"

section \<open>Numbers in Montgomery form\<close>

definition sp_256_mont_add_8 :: "u32 list \<Rightarrow> u32 list \<Rightarrow> u32 list" where
  "sp_256_mont_add_8 a b =
     (let (r, carry) = sp_256_add_8 a b in if carry \<noteq> 0 then sp_256_sub_8_p256_mod r else r)"

definition sp_256_mont_sub_8 :: "u32 list \<Rightarrow> u32 list \<Rightarrow> u32 list" where
  "sp_256_mont_sub_8 a b =
     (let (r, borrow) = sp_256_sub_8 a b in if borrow \<noteq> 0 then fst (sp_256_add_8 r p256_mod) else r)"

definition sp_256_mont_dbl_8 :: "u32 list \<Rightarrow> u32 list" where
  "sp_256_mont_dbl_8 a =
     (let (r, carry) = sp_256_add_8 a a in if carry \<noteq> 0 then sp_256_sub_8_p256_mod r else r)"

definition sp_256_mont_tpl_8 :: "u32 list \<Rightarrow> u32 list" where
  "sp_256_mont_tpl_8 a =
     (let (r, carry) = sp_256_add_8 a a;
          r = (if carry \<noteq> 0 then sp_256_sub_8_p256_mod r else r);
          (r, carry) = sp_256_add_8 r a
      in if carry \<noteq> 0 then sp_256_sub_8_p256_mod r else r)"

definition sp_512to256_mont_shift_8 :: "u32 list \<Rightarrow> u32 list" where
  "sp_512to256_mont_shift_8 a = take 8 (drop 8 a)"

text \<open>The first argument is the array, the second the index of the word that \<^verbatim>\<open>r\<close> points to.\<close>

definition sp_256_mul_add_8 :: "u32 list \<Rightarrow> nat \<Rightarrow> u32 list \<times> bool" where
  "sp_256_mul_add_8 r i =
     (let b = r ! i;
          r = r[i + 3 := r ! (i + 3) + b];
          t32 = of_bool (r ! (i + 3) < b) :: u32;
          (r, t32) =
            (if t32 \<noteq> 0 then
               let r = r[i + 4 := r ! (i + 4) + 1];
                   t32 = of_bool (r ! (i + 4) = 0)
               in if t32 \<noteq> 0 then
                    let r = r[i + 5 := r ! (i + 5) + 1]
                    in (r, of_bool (r ! (i + 5) = 0))
                  else (r, t32)
             else (r, t32));
          t = ucast t32 + ucast b + ucast (r ! (i + 6)) :: u64;
          r = r[i + 6 := ucast t];
          t = drop_bit 32 t;
          m = push_bit 32 (ucast b) - ucast b + ucast (r ! (i + 7));
          t = t + m;
          r = r[i + 7 := ucast t];
          t = drop_bit 32 t;
          r = r[i + 8 := r ! (i + 8) + ucast t]
      in (r, r ! (i + 8) < ucast t))"

text \<open>
  The label \<^verbatim>\<open>inc_next_word\<close>, for the words that are left in the array: the incremented
  words, and what is added to \<^verbatim>\<open>word16th\<close>.
\<close>

fun inc_next_word :: "'a :: len word list \<Rightarrow> 'a word list \<times> u32" where
  "inc_next_word [] = ([], 1)"
| "inc_next_word (w # ws) =
     (if w + 1 = 0 then let (ws, c) = inc_next_word ws in (0 # ws, c) else ((w + 1) # ws, 0))"

text \<open>
  The body of the loop, for numbers of \<open>2 * n\<close> words; the two branches on \<^verbatim>\<open>mp\<close> are the
  same code.
\<close>

definition mont_reduce_pass :: "('a word list \<Rightarrow> nat \<Rightarrow> 'a word list \<times> bool) \<Rightarrow> nat \<Rightarrow> nat
    \<Rightarrow> 'a :: len word list \<times> u32 \<Rightarrow> 'a word list \<times> u32" where
  "mont_reduce_pass mul_add n i = (\<lambda>(a, carry).
     let (a, overflow) = mul_add a i
     in if overflow
        then let (ws, c) = inc_next_word (drop (i + n + 1) a) in (take (i + n + 1) a @ ws, carry + c)
        else (a, carry))"

definition sp_512to256_mont_reduce_8 :: "u32 list \<Rightarrow> u32 list" where
  "sp_512to256_mont_reduce_8 a =
     (let (a, word16th) = fold (mont_reduce_pass sp_256_mul_add_8 8) [0..<8] (a, 0);
          r = sp_512to256_mont_shift_8 a
      in if word16th \<noteq> 0 then sp_256_sub_8_p256_mod r else r)"

definition sp_256_mont_mul_8 :: "u32 list \<Rightarrow> u32 list \<Rightarrow> u32 list" where
  "sp_256_mont_mul_8 a b = sp_512to256_mont_reduce_8 (sp_256to512_mul_8 a b)"

definition sp_256_mont_sqr_8 :: "u32 list \<Rightarrow> u32 list" where
  "sp_256_mont_sqr_8 a = sp_256_mont_mul_8 a a"

definition sp_256_mont_mul_and_reduce_8 :: "u32 list \<Rightarrow> u32 list \<Rightarrow> u32 list" where
  "sp_256_mont_mul_and_reduce_8 a b = sp_512to256_mont_reduce_8 (sp_256_mont_mul_8 a b @ replicate 8 0)"

definition mont_inv_pass :: "u32 list \<Rightarrow> nat \<Rightarrow> u32 list \<Rightarrow> u32 list" where
  "mont_inv_pass a i r =
     (let r = sp_256_mont_sqr_8 r
      in if i \<ge> 224 \<or> i = 192 \<or> (i \<le> 95 \<and> i \<noteq> 1) then sp_256_mont_mul_8 r a else r)"

definition sp_256_mont_inv_8 :: "u32 list \<Rightarrow> u32 list" where
  "sp_256_mont_inv_8 a = fold (mont_inv_pass a) (rev [0..<255]) a"

text \<open>
  The 64-bit numbers \<^verbatim>\<open>t[i]\<close> are signed: \<^verbatim>\<open>>>\<close> on them is the arithmetic shift.
\<close>

definition norm_carry :: "u64 list \<Rightarrow> nat \<Rightarrow> u64 list" where
  "norm_carry t i = t[Suc i := t ! Suc i + signed_drop_bit 32 (t ! i), i := t ! i AND 0xffffffff]"

fun norm_store :: "u64 list \<Rightarrow> u32 list" where
  "norm_store [t, t'] = [ucast t, ucast t' + ucast (signed_drop_bit 32 t)]"
| "norm_store (t # t' # ts) = ucast t # norm_store ((t' + signed_drop_bit 32 t) # ts)"
| "norm_store _ = []"

definition sp_256_mod_mul_norm_8 :: "u32 list \<Rightarrow> u32 list" where
  "sp_256_mod_mul_norm_8 a =
     (let A = (\<lambda>n. ucast (a ! n) :: u64);
          t = [0 + A 0 + A 1 - A 3 - A 4 - A 5 - A 6,
               0 + A 1 + A 2 - A 4 - A 5 - A 6 - A 7,
               0 + A 2 + A 3 - A 5 - A 6 - A 7,
               0 - A 0 - A 1 + 2 * A 3 + 2 * A 4 + A 5 - A 7,
               0 - A 1 - A 2 + 2 * A 4 + 2 * A 5 + A 6,
               0 - A 2 - A 3 + 2 * A 5 + 2 * A 6 + A 7,
               0 - A 0 - A 1 + A 5 + 3 * A 6 + 2 * A 7,
               0 + A 0 - A 2 - A 3 - A 4 - A 5 + 3 * A 7];
          t = fold (\<lambda>i t. norm_carry t i) [0..<7] t;
          ov = ucast (signed_drop_bit 32 (t ! 7)) :: u32;
          t = t[0 := t ! 0 + scast ov];
          t = t[3 := t ! 3 - scast ov];
          t = t[6 := t ! 6 - scast ov];
          t = t[7 := t ! 7 + scast ov]
      in norm_store t)"


section \<open>The versions for 64-bit processors\<close>

text \<open>
  With \<^verbatim>\<open>UNALIGNED_LE_64BIT\<close> some functions use the array of 32-bit words as an array of
  64-bit words. These are the little-endian views.
\<close>

fun join64 :: "u32 list \<Rightarrow> u64 list" where
  "join64 (lo # hi # ws) = (ucast lo OR push_bit 32 (ucast hi)) # join64 ws"
| "join64 _ = []"

fun split64 :: "u64 list \<Rightarrow> u32 list" where
  "split64 [] = []"
| "split64 (w # ws) = ucast w # ucast (drop_bit 32 w) # split64 ws"

definition sp_256_to_bin_8_le64 :: "u32 list \<Rightarrow> byte list" where
  "sp_256_to_bin_8_le64 rr =
     (let r = join64 rr in concat (map (\<lambda>i. le_bytes 8 (bswap64 (r ! (3 - i)))) [0..<4]))"

definition sp_256_from_bin_8_le64 :: "byte list \<Rightarrow> u32 list" where
  "sp_256_from_bin_8_le64 a = split64 (rev (map (\<lambda>i. bswap64 (le_word (take 8 (drop (8 * i) a)))) [0..<4]))"

definition sp_256_cmp_8_le64 :: "u32 list \<Rightarrow> u32 list \<Rightarrow> int" where
  "sp_256_cmp_8_le64 aa bb = cmp_loop (join64 aa) (join64 bb) (rev [0..<4])"

definition sp_256_rshift1_8_le64 :: "u32 list \<Rightarrow> u64 \<Rightarrow> u32 list" where
  "sp_256_rshift1_8_le64 rr carry =
     split64 (rshift_loop 63 (join64 rr) (rev [0..<4]) (push_bit 63 (of_bool (carry \<noteq> 0))))"

definition sp_256_mul_add_4 :: "u64 list \<Rightarrow> nat \<Rightarrow> u64 list \<times> bool" where
  "sp_256_mul_add_4 r i =
     (let b = r ! i;
          r = r[i + 1 := r ! (i + 1) + push_bit 32 b];
          t64 = of_bool (r ! (i + 1) < push_bit 32 b);
          t64 = t64 + drop_bit 32 b;
          r = r[i + 2 := r ! (i + 2) + t64];
          t64 = of_bool (r ! (i + 2) < t64);
          t64 = t64 + b;
          t64u = of_bool (t64 < b);
          t64 = t64 + r ! (i + 3);
          t64u = t64u + of_bool (t64 < r ! (i + 3));
          hi = push_bit 32 b - b;
          b = drop_bit 32 b - of_bool (push_bit 32 b < b);
          lo = push_bit 32 hi;
          t64 = t64 + lo;
          t64u = t64u + of_bool (t64 < lo);
          hi = drop_bit 32 hi;
          hi = hi OR push_bit 32 b;
          t64u = t64u + hi;
          r = r[i + 3 := t64];
          r = r[i + 4 := r ! (i + 4) + t64u]
      in (r, r ! (i + 4) < t64u))"

definition sp_512to256_mont_reduce_8_le64 :: "u32 list \<Rightarrow> u32 list" where
  "sp_512to256_mont_reduce_8_le64 aa =
     (let (a, carry) = fold (mont_reduce_pass sp_256_mul_add_4 4) [0..<4] (join64 aa, 0);
          r = sp_512to256_mont_shift_8 (split64 a)
      in if carry \<noteq> 0 then sp_256_sub_8_p256_mod r else r)"

end
