(* ===== verification/Tls_P256.thy ===== *)
theory Tls_P256
  imports Tls_Sp
begin

text \<open>
  \<^verbatim>\<open>networking/tls_sp_c32.c\<close>: the points of the curve P-256 in Jacobian coordinates, their
  sum and their double, multiplication by a scalar, and the key agreement that \<^verbatim>\<open>tls.c\<close> calls.
\<close>

section \<open>Points\<close>

record sp_point =
  sp_x :: "u32 list"
  sp_y :: "u32 list"
  sp_z :: "u32 list"
  sp_infinity :: bool

definition sp_one :: "u32 list" where "sp_one = 1 # replicate 7 0"

definition sp_256_point_from_bin2x32 :: "byte list \<Rightarrow> sp_point" where
  "sp_256_point_from_bin2x32 bin2x32 =
     \<lparr>sp_x = sp_256_from_bin_8 bin2x32, sp_y = sp_256_from_bin_8 (drop 32 bin2x32), sp_z = sp_one,
      sp_infinity = False\<rparr>"

definition reduce_to_modulus :: "u32 list \<Rightarrow> u32 list" where
  "reduce_to_modulus r = (if sp_256_cmp_8 r p256_mod \<ge> 0 then sp_256_sub_8_p256_mod r else r)"

text \<open>\<^verbatim>\<open>sp_256_map_8\<close> leaves \<^verbatim>\<open>infinity\<close> of its result \<open>r\<close> as it was.\<close>

definition sp_256_map_8 :: "sp_point \<Rightarrow> sp_point \<Rightarrow> sp_point" where
  "sp_256_map_8 r p =
     (let t1 = sp_256_mont_inv_8 (sp_z p);
          t2 = sp_256_mont_sqr_8 t1;
          t1 = sp_256_mont_mul_8 t2 t1;
          r = r\<lparr>sp_x := sp_256_mont_mul_and_reduce_8 (sp_x p) t2\<rparr>;
          r = r\<lparr>sp_x := reduce_to_modulus (sp_x r)\<rparr>;
          r = r\<lparr>sp_y := sp_256_mont_mul_and_reduce_8 (sp_y p) t1\<rparr>;
          r = r\<lparr>sp_y := reduce_to_modulus (sp_y r)\<rparr>
      in r\<lparr>sp_z := sp_one\<rparr>)"

definition sp_256_proj_point_dbl_8 :: "sp_point \<Rightarrow> sp_point" where
  "sp_256_proj_point_dbl_8 p =
     (let r = p in
      if sp_infinity r then r
      else
        let t1 = sp_256_mont_sqr_8 (sp_z r);
            r = r\<lparr>sp_z := sp_256_mont_mul_8 (sp_y r) (sp_z r)\<rparr>;
            r = r\<lparr>sp_z := sp_256_mont_dbl_8 (sp_z r)\<rparr>;
            t2 = sp_256_mont_sub_8 (sp_x r) t1;
            t1 = sp_256_mont_add_8 (sp_x r) t1;
            t2 = sp_256_mont_mul_8 t1 t2;
            t1 = sp_256_mont_tpl_8 t2;
            r = r\<lparr>sp_y := sp_256_mont_dbl_8 (sp_y r)\<rparr>;
            r = r\<lparr>sp_y := sp_256_mont_sqr_8 (sp_y r)\<rparr>;
            t2 = sp_256_mont_sqr_8 (sp_y r);
            t2 = sp_256_div2_8 t2;
            r = r\<lparr>sp_y := sp_256_mont_mul_8 (sp_y r) (sp_x r)\<rparr>;
            r = r\<lparr>sp_x := sp_256_mont_mul_8 t1 t1\<rparr>;
            r = r\<lparr>sp_x := sp_256_mont_sub_8 (sp_x r) (sp_y r)\<rparr>;
            r = r\<lparr>sp_x := sp_256_mont_sub_8 (sp_x r) (sp_y r)\<rparr>;
            r = r\<lparr>sp_y := sp_256_mont_sub_8 (sp_y r) (sp_x r)\<rparr>;
            r = r\<lparr>sp_y := sp_256_mont_mul_8 (sp_y r) t1\<rparr>
        in r\<lparr>sp_y := sp_256_mont_sub_8 (sp_y r) t2\<rparr>)"

text \<open>
  The result is one of the two points: \<open>p\<close> is the one that is overwritten, the other way
  round when \<^verbatim>\<open>q == r\<close>.
\<close>

definition sp_256_proj_point_add_8 :: "sp_point \<Rightarrow> sp_point \<Rightarrow> sp_point" where
  "sp_256_proj_point_add_8 p q =
     (let t1 = fst (sp_256_sub_8 p256_mod (sp_y q)) in
      if sp_256_cmp_equal_8 (sp_x p) (sp_x q) \<and> sp_256_cmp_equal_8 (sp_z p) (sp_z q)
         \<and> (sp_256_cmp_equal_8 (sp_y p) (sp_y q) \<or> sp_256_cmp_equal_8 (sp_y p) t1)
      then sp_256_proj_point_dbl_8 p
      else if sp_infinity p \<or> sp_infinity q then (if sp_infinity p then q else p)
      else
        let r = p;
            t1 = sp_256_mont_sqr_8 (sp_z q);
            t3 = sp_256_mont_mul_8 t1 (sp_z q);
            t1 = sp_256_mont_mul_8 t1 (sp_x r);
            t2 = sp_256_mont_sqr_8 (sp_z r);
            t4 = sp_256_mont_mul_8 t2 (sp_z r);
            t2 = sp_256_mont_mul_8 t2 (sp_x q);
            t3 = sp_256_mont_mul_8 t3 (sp_y r);
            t4 = sp_256_mont_mul_8 t4 (sp_y q);
            t2 = sp_256_mont_sub_8 t2 t1;
            t4 = sp_256_mont_sub_8 t4 t3;
            r = r\<lparr>sp_z := sp_256_mont_mul_8 (sp_z r) (sp_z q)\<rparr>;
            r = r\<lparr>sp_z := sp_256_mont_mul_8 (sp_z r) t2\<rparr>;
            r = r\<lparr>sp_x := sp_256_mont_sqr_8 t4\<rparr>;
            t5 = sp_256_mont_sqr_8 t2;
            r = r\<lparr>sp_y := sp_256_mont_mul_8 t1 t5\<rparr>;
            t5 = sp_256_mont_mul_8 t5 t2;
            r = r\<lparr>sp_x := sp_256_mont_sub_8 (sp_x r) t5\<rparr>;
            t1 = sp_256_mont_dbl_8 (sp_y r);
            r = r\<lparr>sp_x := sp_256_mont_sub_8 (sp_x r) t1\<rparr>;
            r = r\<lparr>sp_y := sp_256_mont_sub_8 (sp_y r) (sp_x r)\<rparr>;
            r = r\<lparr>sp_y := sp_256_mont_mul_8 (sp_y r) t4\<rparr>;
            t5 = sp_256_mont_mul_8 t5 t3
        in r\<lparr>sp_y := sp_256_mont_sub_8 (sp_y r) t5\<rparr>)"

text \<open>
  One pass over the bit \<open>c - 1\<close> of the scalar: \<open>t[y XOR 1] = t[0] + t[1]\<close>, then \<open>t[y]\<close> is
  doubled in \<open>t[2]\<close>.
\<close>

definition mulmod_pass :: "nat \<Rightarrow> u32 \<times> sp_point list \<Rightarrow> u32 \<times> sp_point list" where
  "mulmod_pass y = (\<lambda>(n, t).
     let t = (if y = 0 then t[1 := sp_256_proj_point_add_8 (t ! 1) (t ! 0)]
              else t[0 := sp_256_proj_point_add_8 (t ! 0) (t ! 1)]);
         t = t[2 := t ! y];
         t = t[2 := sp_256_proj_point_dbl_8 (t ! 2)];
         t = t[y := t ! 2]
     in (push_bit 1 n, t))"

fun mulmod_loop :: "u32 list \<Rightarrow> nat \<Rightarrow> u32 \<times> sp_point list \<Rightarrow> sp_point list" where
  "mulmod_loop k 0 (n, t) = t"
| "mulmod_loop k (Suc c) (n, t) =
     (let n = (if Suc c AND 0x1f = 0 then k ! (Suc c div 32 - 1) else n);
          y = unat (drop_bit 31 n)
      in mulmod_loop k c (mulmod_pass y (n, t)))"

definition sp_zero :: sp_point where
  "sp_zero = \<lparr>sp_x = replicate 8 0, sp_y = replicate 8 0, sp_z = replicate 8 0, sp_infinity = False\<rparr>"

definition sp_256_ecc_mulmod_8 :: "sp_point \<Rightarrow> sp_point \<Rightarrow> u32 list \<Rightarrow> sp_point" where
  "sp_256_ecc_mulmod_8 r g k =
     (let t = [sp_zero\<lparr>sp_infinity := True\<rparr>,
               sp_zero\<lparr>sp_x := sp_256_mod_mul_norm_8 (sp_x g), sp_y := sp_256_mod_mul_norm_8 (sp_y g),
                        sp_z := sp_256_mod_mul_norm_8 (sp_z g)\<rparr>,
               sp_zero];
          t = mulmod_loop k 256 (0, t)
      in sp_256_map_8 r (t ! 0))"

definition p256_base_bin :: "byte list" where
  "p256_base_bin =
     [0x6b,0x17,0xd1,0xf2,0xe1,0x2c,0x42,0x47,0xf8,0xbc,0xe6,0xe5,0x63,0xa4,0x40,0xf2,
      0x77,0x03,0x7d,0x81,0x2d,0xeb,0x33,0xa0,0xf4,0xa1,0x39,0x45,0xd8,0x98,0xc2,0x96,
      0x4f,0xe3,0x42,0xe2,0xfe,0x1a,0x7f,0x9b,0x8e,0xe7,0xeb,0x4a,0x7c,0x0f,0x9e,0x16,
      0x2b,0xce,0x33,0x57,0x6b,0x31,0x5e,0xce,0xcb,0xb6,0x40,0x68,0x37,0xbf,0x51,0xf5]"

definition sp_256_ecc_mulmod_base_8 :: "sp_point \<Rightarrow> u32 list \<Rightarrow> sp_point" where
  "sp_256_ecc_mulmod_base_8 r k = sp_256_ecc_mulmod_8 r (sp_256_point_from_bin2x32 p256_base_bin) k"

definition sp_ecc_secret_gen_256 :: "u32 list \<Rightarrow> byte list \<Rightarrow> byte list" where
  "sp_ecc_secret_gen_256 priv pub2x32 =
     (let point = sp_256_point_from_bin2x32 pub2x32;
          point = sp_256_ecc_mulmod_8 point point priv
      in sp_256_to_bin_8 (sp_x point))"

text \<open>\<open>random\<close> holds the 32 bytes that \<^verbatim>\<open>tls_get_random\<close> stores.\<close>

definition sp_256_ecc_gen_k_8 :: "byte list \<Rightarrow> u32 list" where
  "sp_256_ecc_gen_k_8 random =
     (let k = words32 random;
          k = (if k ! 0 = 0 then k[0 := 1] else k)
      in if k ! 7 \<ge> 0xffffffff then k[7 := 0xfffffffe] else k)"

text \<open>\<open>point\<close> is a local variable without an initial value, which is never read.\<close>

definition sp_ecc_make_key_256 :: "byte list \<Rightarrow> u32 list \<times> byte list" where
  "sp_ecc_make_key_256 random =
     (let privkey = sp_256_ecc_gen_k_8 random;
          point = sp_256_ecc_mulmod_base_8 sp_zero privkey
      in (privkey, sp_256_to_bin_8 (sp_x point) @ sp_256_to_bin_8 (sp_y point)))"

definition curve_P256_compute_pubkey_and_premaster :: "byte list \<Rightarrow> byte list \<Rightarrow> byte list \<times> byte list" where
  "curve_P256_compute_pubkey_and_premaster random peerkey2x32 =
     (let (privkey, pubkey2x32) = sp_ecc_make_key_256 random
      in (pubkey2x32, sp_ecc_secret_gen_256 privkey peerkey2x32))"

end
