(* ===== verification/Tls_Pstm.thy ===== *)
theory Tls_Pstm
  imports Tls_Sp
begin

text \<open>
  \<^verbatim>\<open>networking/tls_pstm.c\<close>, \<^verbatim>\<open>tls_pstm_mul_comba.c\<close>, \<^verbatim>\<open>tls_pstm_sqr_comba.c\<close> and
  \<^verbatim>\<open>tls_pstm_montgomery_reduce.c\<close>: numbers of any size, with 32-bit digits, in the C code that does not depend
  on the processor. An operation that writes to a number takes the old number as its last argument and returns the
  new one; where the source passes the same object twice, the callers here pass the same record twice, and
  an operation whose effect depends on that has a flag for it. Every operation reads a digit before it writes
  that digit, so the loops work on lists of digits. An access outside an allocation is the error
  \<open>Ps_undefined\<close>; the operations that stay below \<^verbatim>\<open>used\<close> do not check, because \<^verbatim>\<open>used\<close>
  is at most \<^verbatim>\<open>alloc\<close> in every number they are given.
\<close>

unbundle bit_operations_syntax

section \<open>Numbers\<close>

datatype ps_error = PS_FAILURE | PS_ARG_FAIL | PS_PLATFORM_FAIL | PS_MEM_FAIL | PS_LIMIT_FAIL
  | Ps_die string | Ps_undefined | Ps_loops

fun ps_bind :: "ps_error + 'a \<Rightarrow> ('a \<Rightarrow> ps_error + 'b) \<Rightarrow> ps_error + 'b" where
  "ps_bind (Inl e) f = Inl e"
| "ps_bind (Inr x) f = f x"

text \<open>The continuation, when the accesses it stands for are inside the allocations.\<close>

definition ps_within :: "bool \<Rightarrow> ps_error + 'a \<Rightarrow> ps_error + 'a" where
  "ps_within ok r = (if ok then r else Inl Ps_undefined)"

text \<open>An error code that the caller replaces by another one; a run that has stopped stays so.\<close>

fun ps_stops :: "ps_error \<Rightarrow> bool" where
  "ps_stops (Ps_die m) = True"
| "ps_stops Ps_undefined = True"
| "ps_stops Ps_loops = True"
| "ps_stops _ = False"

fun ps_code :: "ps_error \<Rightarrow> ps_error + 'a \<Rightarrow> ps_error + 'a" where
  "ps_code e' (Inr x) = Inr x"
| "ps_code e' (Inl e) = Inl (if ps_stops e then e else e')"

record pstm_int =
  pm_used :: nat
  pm_alloc :: nat
  pm_sign :: bool
  pm_dp :: "u32 list"

abbreviation (input) PSTM_ZPOS :: bool where "PSTM_ZPOS \<equiv> False"
abbreviation (input) PSTM_NEG :: bool where "PSTM_NEG \<equiv> True"
abbreviation (input) PSTM_LT :: int where "PSTM_LT \<equiv> - 1"
abbreviation (input) PSTM_GT :: int where "PSTM_GT \<equiv> 1"
abbreviation (input) PSTM_MAX_SIZE :: nat where "PSTM_MAX_SIZE \<equiv> 4096"

definition pstm_init_size :: "nat \<Rightarrow> pstm_int" where
  "pstm_init_size sz = \<lparr>pm_used = 0, pm_alloc = sz, pm_sign = PSTM_ZPOS, pm_dp = replicate sz 0\<rparr>"

definition pstm_init :: pstm_int where
  "pstm_init = \<lparr>pm_used = 0, pm_alloc = 64, pm_sign = PSTM_ZPOS, pm_dp = replicate 64 0\<rparr>"

definition pstm_grow :: "pstm_int \<Rightarrow> nat \<Rightarrow> pstm_int" where
  "pstm_grow a sz =
     (if pm_alloc a < sz then a\<lparr>pm_alloc := sz, pm_dp := pm_dp a @ replicate (sz - pm_alloc a) 0\<rparr> else a)"

text \<open>The digits that a loop writes from digit 0 on, the rest of the old ones cleared.\<close>

definition pm_store :: "pstm_int \<Rightarrow> u32 list \<Rightarrow> pstm_int" where
  "pm_store c r = c\<lparr>pm_used := length r,
     pm_dp := r @ replicate (pm_used c - length r) 0 @ drop (max (length r) (pm_used c)) (pm_dp c)\<rparr>"

definition pm_digits :: "pstm_int \<Rightarrow> u32 list" where "pm_digits a = take (pm_used a) (pm_dp a)"

definition pstm_copy :: "pstm_int \<Rightarrow> pstm_int \<Rightarrow> pstm_int" where
  "pstm_copy a b =
     (let b = (if pm_alloc b < pm_used a then pstm_grow b (pm_used a) else b)
      in (pm_store b (pm_digits a))\<lparr>pm_sign := pm_sign a\<rparr>)"

primrec clamp_loop :: "u32 list \<Rightarrow> nat \<Rightarrow> nat" where
  "clamp_loop dp 0 = 0"
| "clamp_loop dp (Suc n) = (if dp ! n = 0 then clamp_loop dp n else Suc n)"

definition pstm_clamp :: "pstm_int \<Rightarrow> pstm_int" where
  "pstm_clamp a =
     (let used = clamp_loop (pm_dp a) (pm_used a)
      in a\<lparr>pm_used := used, pm_sign := (if used = 0 then PSTM_ZPOS else pm_sign a)\<rparr>)"

definition pstm_clear :: "pstm_int \<Rightarrow> pstm_int" where
  "pstm_clear a = \<lparr>pm_used = 0, pm_alloc = 0, pm_sign = PSTM_ZPOS, pm_dp = []\<rparr>"

definition pstm_zero :: "pstm_int \<Rightarrow> pstm_int" where
  "pstm_zero a = a\<lparr>pm_sign := PSTM_ZPOS, pm_used := 0, pm_dp := replicate (pm_alloc a) 0\<rparr>"

definition pstm_cmp_mag :: "pstm_int \<Rightarrow> pstm_int \<Rightarrow> int" where
  "pstm_cmp_mag a b =
     (if pm_used a > pm_used b then PSTM_GT
      else if pm_used a < pm_used b then PSTM_LT
      else cmp_loop (pm_dp a) (pm_dp b) (rev [0..<pm_used a]))"

definition pstm_cmp :: "pstm_int \<Rightarrow> pstm_int \<Rightarrow> int" where
  "pstm_cmp a b =
     (if pm_sign a \<noteq> pm_sign b then if pm_sign a = PSTM_NEG then PSTM_LT else PSTM_GT
      else if pm_sign a = PSTM_NEG then pstm_cmp_mag b a else pstm_cmp_mag a b)"

definition pstm_init_for_read_unsigned_bin :: "nat \<Rightarrow> pstm_int" where
  "pstm_init_for_read_unsigned_bin len = pstm_init_size (((len div 4) * (4 * 8)) div 32 + 2)"

text \<open>For a little-endian build: the digits are written as bytes.\<close>

definition pstm_read_unsigned_bin :: "pstm_int \<Rightarrow> byte list \<Rightarrow> pstm_int" where
  "pstm_read_unsigned_bin a b =
     (let a = pstm_zero a;
          b = (if length b > PSTM_MAX_SIZE * 4 then drop (length b - PSTM_MAX_SIZE * 4) b else b);
          used = (length b + 4 - 1) div 4;
          a = a\<lparr>pm_used := used\<rparr>;
          a = (if pm_alloc a < used then pstm_grow a used else a)
      in pstm_clamp (a\<lparr>pm_dp := words32 (mem_write (concat (map (le_bytes 4) (pm_dp a))) 0 (rev b))\<rparr>))"

function digit_bits :: "u32 \<Rightarrow> nat" where
  "digit_bits q = (if q > 0 then Suc (digit_bits (drop_bit 1 q)) else 0)"
  by auto

termination
proof (relation "measure unat")
  fix q :: u32 assume "q > 0"
  then have "0 < unat q" by (simp add: unat_gt_0)
  then show "(drop_bit 1 q, q) \<in> measure unat" by (simp add: drop_bit_eq_div unat_div)
qed simp

declare digit_bits.simps [simp del]

definition pstm_count_bits :: "pstm_int \<Rightarrow> nat" where
  "pstm_count_bits a =
     (if pm_used a = 0 then 0 else (pm_used a - 1) * 32 + digit_bits (pm_dp a ! (pm_used a - 1)))"

definition pstm_unsigned_bin_size :: "pstm_int \<Rightarrow> nat" where
  "pstm_unsigned_bin_size a = (let sz = pstm_count_bits a in sz div 8 + (if sz mod 8 \<noteq> 0 then 1 else 0))"

definition pstm_set :: "pstm_int \<Rightarrow> u32 \<Rightarrow> ps_error + pstm_int" where
  "pstm_set a b =
     ps_within (0 < length (pm_dp a))
       (Inr ((pstm_zero a)\<lparr>pm_dp := (replicate (pm_alloc a) 0)[0 := b], pm_used := (if b \<noteq> 0 then 1 else 0)\<rparr>))"

section \<open>Shifts, sums and differences\<close>

definition pstm_rshd :: "pstm_int \<Rightarrow> nat \<Rightarrow> pstm_int" where
  "pstm_rshd a x =
     (if x \<ge> pm_used a then pstm_zero a
      else pstm_clamp (pm_store a (drop x (pm_digits a))))"

definition pstm_lshd :: "pstm_int \<Rightarrow> nat \<Rightarrow> pstm_int" where
  "pstm_lshd a b =
     (if b = 0 then a
      else let a = (if pm_alloc a < pm_used a + b then pstm_grow a (pm_used a + b) else a)
           in pm_store a (replicate b 0 @ pm_digits a))"

definition pstm_2expt :: "pstm_int \<Rightarrow> nat \<Rightarrow> ps_error + pstm_int" where
  "pstm_2expt a b =
     (let a = pstm_zero a; z = b div 32
      in if z \<ge> PSTM_MAX_SIZE then Inl PS_LIMIT_FAIL
         else let a = a\<lparr>pm_used := z + 1\<rparr>;
                  a = (if z + 1 > pm_alloc a then pstm_grow a (z + 1) else a)
              in Inr (a\<lparr>pm_dp := (pm_dp a)[z := push_bit (b mod 32) 1]\<rparr>))"

fun mul_2_loop :: "u32 list \<Rightarrow> u32 \<Rightarrow> u32 list \<times> u32" where
  "mul_2_loop [] r = ([], r)"
| "mul_2_loop (w # ws) r =
     (let rr = drop_bit 31 w; (ds, r') = mul_2_loop ws rr in ((push_bit 1 w OR r) # ds, r'))"

definition pstm_mul_2 :: "pstm_int \<Rightarrow> pstm_int \<Rightarrow> pstm_int" where
  "pstm_mul_2 a b =
     (let b = (if pm_alloc b < pm_used a + 1 then pstm_grow b (pm_used a + 1) else b);
          (ds, r) = mul_2_loop (pm_digits a) 0
      in (pm_store b (if r \<noteq> 0 \<and> pm_used a \<noteq> PSTM_MAX_SIZE - 1 then ds @ [1] else ds))\<lparr>pm_sign := pm_sign a\<rparr>)"

text \<open>
  The difference of the digits. The borrow of the first loop is one bit; the one of the second loop is the upper half
  of the 64-bit difference.
\<close>

fun s_sub_loop :: "u32 list \<Rightarrow> u32 list \<Rightarrow> u64 \<Rightarrow> u32 list" where
  "s_sub_loop (a # as) (b # bs) t =
     (let t = ucast a - (ucast b + t) in ucast t # s_sub_loop as bs (drop_bit 32 t AND 1))"
| "s_sub_loop (a # as) [] t =
     (let t = ucast a - t in ucast t # s_sub_loop as [] (drop_bit 32 t))"
| "s_sub_loop [] bs t = []"

definition s_pstm_sub :: "pstm_int \<Rightarrow> pstm_int \<Rightarrow> pstm_int \<Rightarrow> ps_error + pstm_int" where
  "s_pstm_sub a b c =
     (if pm_used b > pm_used a then Inl PS_LIMIT_FAIL
      else let c = (if pm_alloc c < pm_used a then pstm_grow c (pm_used a) else c)
           in Inr (pstm_clamp (pm_store c (s_sub_loop (pm_digits a) (pm_digits b) 0))))"

fun s_add_loop :: "(nat \<Rightarrow> u64) \<Rightarrow> (nat \<Rightarrow> u64) \<Rightarrow> nat list \<Rightarrow> u64 \<Rightarrow> u32 list \<times> u64" where
  "s_add_loop adp bdp [] t = ([], t)"
| "s_add_loop adp bdp (x # xs) t =
     (let t = t + (adp x + bdp x); (ds, t') = s_add_loop adp bdp xs (drop_bit 32 t) in (ucast t # ds, t'))"

text \<open>\<open>same\<close>: the arguments \<^verbatim>\<open>a\<close> and \<^verbatim>\<open>c\<close> are one object, whose \<^verbatim>\<open>used\<close> is set before the loop.\<close>

definition s_pstm_add :: "bool \<Rightarrow> pstm_int \<Rightarrow> pstm_int \<Rightarrow> pstm_int \<Rightarrow> ps_error + pstm_int" where
  "s_pstm_add same a b c =
     (let y = max (pm_used a) (pm_used b);
          c = (if y > pm_alloc c then pstm_grow c y else c);
          a_used = (if same then y else pm_used a);
          a_dp = (if same then pm_dp c else pm_dp a)
      in ps_within (min y (a_used + 1) \<le> length a_dp \<and> min y (pm_used b + 1) \<le> length (pm_dp b))
           (let (ds, t) = s_add_loop (\<lambda>x. if a_used < x then 0 else ucast (a_dp ! x))
                            (\<lambda>x. if pm_used b < x then 0 else ucast (pm_dp b ! x)) [0..<y] 0
            in if t \<noteq> 0 \<and> y < PSTM_MAX_SIZE
               then let c = (if y = pm_alloc c then pstm_grow c (pm_alloc c + 1) else c)
                    in Inr (pstm_clamp (pm_store c (ds @ [ucast t])))
               else Inr (pstm_clamp (pm_store c ds))))"

definition pstm_sub :: "bool \<Rightarrow> pstm_int \<Rightarrow> pstm_int \<Rightarrow> pstm_int \<Rightarrow> ps_error + pstm_int" where
  "pstm_sub same a b c =
     (if pm_sign a \<noteq> pm_sign b then s_pstm_add same a b (c\<lparr>pm_sign := pm_sign a\<rparr>)
      else if pstm_cmp_mag a b \<noteq> PSTM_LT then s_pstm_sub a b (c\<lparr>pm_sign := pm_sign a\<rparr>)
      else s_pstm_sub b a (c\<lparr>pm_sign := (if pm_sign a = PSTM_ZPOS then PSTM_NEG else PSTM_ZPOS)\<rparr>))"

definition pstm_add :: "bool \<Rightarrow> pstm_int \<Rightarrow> pstm_int \<Rightarrow> pstm_int \<Rightarrow> ps_error + pstm_int" where
  "pstm_add same a b c =
     (if pm_sign a = pm_sign b then s_pstm_add same a b (c\<lparr>pm_sign := pm_sign a\<rparr>)
      else if pstm_cmp_mag a b = PSTM_LT then s_pstm_sub b a (c\<lparr>pm_sign := pm_sign b\<rparr>)
      else s_pstm_sub a b (c\<lparr>pm_sign := pm_sign a\<rparr>))"

section \<open>Montgomery setup\<close>

definition pstm_montgomery_setup :: "pstm_int \<Rightarrow> ps_error + u32" where
  "pstm_montgomery_setup a =
     ps_within (0 < length (pm_dp a))
       (let b = pm_dp a ! 0
        in if b AND 1 = 0 then Inl (Ps_die ''pstm_montogomery_setup failure'')
           else let x = push_bit 1 ((b + 2) AND 4) + b;
                    x = x * (2 - b * x);
                    x = x * (2 - b * x);
                    x = x * (2 - b * x)
                in Inr (ucast (push_bit 32 1 - ucast x :: u64)))"

primrec norm_loop :: "pstm_int \<Rightarrow> nat \<Rightarrow> pstm_int \<Rightarrow> ps_error + pstm_int" where
  "norm_loop b 0 a = Inr a"
| "norm_loop b (Suc n) a =
     (let a = pstm_mul_2 a a
      in if pstm_cmp_mag a b \<noteq> PSTM_LT
         then ps_bind (ps_code PS_MEM_FAIL (s_pstm_sub a b a)) (norm_loop b n)
         else norm_loop b n a)"

definition pstm_montgomery_calc_normalization :: "pstm_int \<Rightarrow> pstm_int \<Rightarrow> ps_error + pstm_int" where
  "pstm_montgomery_calc_normalization a b =
     (let bits = pstm_count_bits b mod 32;
          bits = (if bits = 0 then 32 else bits)
      in if pm_used b > 1
         then ps_bind (pstm_2expt a ((pm_used b - 1) * 32 + bits - 1)) (norm_loop b (32 - (bits - 1)))
         else ps_bind (pstm_set a 1) (norm_loop b (32 - (1 - 1))))"

section \<open>Shifts by bits, products with a digit\<close>

fun shl_loop :: "nat \<Rightarrow> u32 list \<Rightarrow> u32 \<Rightarrow> u32 list \<times> u32" where
  "shl_loop b [] carry = ([], carry)"
| "shl_loop b (w # ws) carry =
     (let (ds, c) = shl_loop b ws (drop_bit (32 - b) w) in ((push_bit b w + carry) # ds, c))"

definition pstm_mul_2d :: "pstm_int \<Rightarrow> nat \<Rightarrow> pstm_int \<Rightarrow> pstm_int" where
  "pstm_mul_2d a b c =
     (let c = pstm_copy a c;
          c = (if b \<ge> 32 then pstm_lshd c (b div 32) else c);
          b = b mod 32
      in if b \<noteq> 0
         then let (ds, carry) = shl_loop b (pm_digits c) 0
              in if carry \<noteq> 0 \<and> pm_used c < PSTM_MAX_SIZE
                 then let c = (if pm_used c = pm_alloc c then pstm_grow c (pm_alloc c + 1) else c)
                      in pstm_clamp (pm_store c (ds @ [carry]))
                 else pstm_clamp (pm_store c ds)
         else pstm_clamp c)"

text \<open>The mask of the last digit is a shift by \<open>DIGIT_BIT - b\<close>, not by \<open>DIGIT_BIT - b % DIGIT_BIT\<close>.\<close>

definition pstm_mod_2d :: "pstm_int \<Rightarrow> nat \<Rightarrow> pstm_int \<Rightarrow> ps_error + pstm_int" where
  "pstm_mod_2d a b c =
     (if b = 0 then Inr (pstm_zero c)
      else let c = pstm_copy a c
           in if b \<ge> 32 * pm_used a then Inr c
              else let x = b div 32 + (if b mod 32 = 0 then 0 else 1);
                       dp = take x (pm_dp c) @ replicate (pm_used c - x) 0 @ drop (max x (pm_used c)) (pm_dp c)
                   in ps_within (b \<le> 32 \<and> b div 32 < length dp)
                        (Inr (pstm_clamp (c\<lparr>pm_dp := dp[b div 32 := dp ! (b div 32) AND drop_bit (32 - b) (- 1)]\<rparr>))))"

fun mul_d_loop :: "u32 list \<Rightarrow> u32 \<Rightarrow> u64 \<Rightarrow> u32 list \<times> u64" where
  "mul_d_loop [] b w = ([], w)"
| "mul_d_loop (a # as) b w =
     (let w = ucast a * ucast b + w; (ds, w') = mul_d_loop as b (drop_bit 32 w) in (ucast w # ds, w'))"

definition pstm_mul_d :: "pstm_int \<Rightarrow> u32 \<Rightarrow> pstm_int \<Rightarrow> pstm_int" where
  "pstm_mul_d a b c =
     (let c = (if pm_alloc c < pm_used a + 1 then pstm_grow c (pm_used a + 1) else c);
          c = c\<lparr>pm_sign := pm_sign a\<rparr>;
          (ds, w) = mul_d_loop (pm_digits a) b 0
      in pstm_clamp (pm_store c (if w \<noteq> 0 \<and> pm_used a \<noteq> PSTM_MAX_SIZE then ds @ [ucast w] else ds)))"

fun shr_loop :: "nat \<Rightarrow> u32 list \<Rightarrow> u32 list \<times> u32" where
  "shr_loop D [] = ([], 0)"
| "shr_loop D (w # ws) =
     (let (ds, r) = shr_loop D ws
      in ((drop_bit D w OR push_bit (32 - D) r) # ds, w AND (push_bit D 1 - 1)))"

definition pstm_div_2d :: "pstm_int \<Rightarrow> nat \<Rightarrow> pstm_int \<Rightarrow> pstm_int option \<Rightarrow> ps_error + (pstm_int \<times> pstm_int option)" where
  "pstm_div_2d a b c d =
     (if b = 0 then Inr (pstm_copy a c, map_option pstm_zero d)
      else ps_bind (case d of None \<Rightarrow> Inr None
                            | Some d \<Rightarrow> ps_bind (pstm_mod_2d a b pstm_init) (\<lambda>t. Inr (Some (pstm_copy t d))))
             (\<lambda>d. let c = pstm_copy a c;
                      c = (if b \<ge> 32 then pstm_rshd c (b div 32) else c);
                      D = b mod 32;
                      c = (if D \<noteq> 0 then pm_store c (fst (shr_loop D (pm_digits c))) else c)
                  in Inr (pstm_clamp c, d)))"

definition pstm_init_copy :: "pstm_int \<Rightarrow> bool \<Rightarrow> pstm_int" where
  "pstm_init_copy b toSqr =
     (let x = pm_alloc b;
          x = (if toSqr \<and> pm_used b * 2 + 2 \<ge> x then pm_used b * 2 + 3 else x)
      in pstm_copy b (pstm_init_size x))"

end
