(* ===== verification/Tls_Pstm_Expt.thy ===== *)
theory Tls_Pstm_Expt
  imports Tls_Pstm
begin

text \<open>
  The operations of \<^verbatim>\<open>tls_pstm.c\<close> that are built from those of Tls_Pstm: division, products (column by
  column, from \<^verbatim>\<open>tls_pstm_mul_comba.c\<close> and \<^verbatim>\<open>tls_pstm_sqr_comba.c\<close>), Montgomery reduction, powers
  modulo an odd number, and bytes.
\<close>

unbundle bit_operations_syntax

section \<open>Products\<close>

type_synonym comba = "u32 \<times> u32 \<times> u32"

fun comba_forward :: "comba \<Rightarrow> comba" where
  "comba_forward (c0, c1, c2) = (c1, c2, 0)"

fun muladd :: "u32 \<times> u32 \<Rightarrow> comba \<Rightarrow> comba" where
  "muladd (i, j) (c0, c1, c2) =
     (let t = ucast c0 + ucast i * ucast j :: u64; c0 = ucast t;
          t = ucast c1 + drop_bit 32 t
      in (c0, ucast t, c2 + ucast (drop_bit 32 t)))"

fun sqradd2 :: "u32 \<times> u32 \<Rightarrow> comba \<Rightarrow> comba" where
  "sqradd2 (i, j) (c0, c1, c2) =
     (let t = ucast i * ucast j :: u64;
          tt = ucast c0 + t; c0 = ucast tt :: u32;
          tt = ucast c1 + drop_bit 32 tt; c1 = ucast tt :: u32; c2 = c2 + ucast (drop_bit 32 tt);
          tt = ucast c0 + t; c0 = ucast tt;
          tt = ucast c1 + drop_bit 32 tt; c1 = ucast tt; c2 = c2 + ucast (drop_bit 32 tt)
      in (c0, c1, c2))"

text \<open>The pairs of digits of the column \<open>ix\<close>, in the order of the loop; \<open>ty\<close> is one more than in the source.\<close>

definition mul_column :: "u32 list \<Rightarrow> u32 list \<Rightarrow> nat \<Rightarrow> (u32 \<times> u32) list" where
  "mul_column a b ix =
     (let ty = min (ix + 1) (length b); tx = ix + 1 - ty; iy = min (length a - tx) ty
      in map (\<lambda>iz. (a ! (tx + iz), b ! (ty - 1 - iz))) [0..<iy])"

fun mul_columns :: "u32 list \<Rightarrow> u32 list \<Rightarrow> nat list \<Rightarrow> comba \<Rightarrow> u32 list" where
  "mul_columns a b [] c = []"
| "mul_columns a b (ix # is) c =
     (let c = fold muladd (mul_column a b ix) (comba_forward c) in fst c # mul_columns a b is c)"

definition pstm_mul_comba :: "pstm_int \<Rightarrow> pstm_int \<Rightarrow> pstm_int \<Rightarrow> pstm_int" where
  "pstm_mul_comba A B C =
     (let pa = pm_used A + pm_used B;
          C = (if pm_alloc C < pa then pstm_grow C pa else C);
          dst = mul_columns (pm_digits A) (pm_digits B) [0..<pa] (0, 0, 0)
      in pstm_clamp ((pm_store C dst)\<lparr>pm_sign := (pm_sign A \<noteq> pm_sign B)\<rparr>))"

definition sqr_column :: "u32 list \<Rightarrow> nat \<Rightarrow> (u32 \<times> u32) list" where
  "sqr_column a ix =
     (let ty = min (length a) (ix + 1); tx = ix + 1 - ty; iy = min (length a - tx) ty; iy = min iy ((ty - tx) div 2)
      in map (\<lambda>iz. (a ! (tx + iz), a ! (ty - 1 - iz))) [0..<iy])"

fun sqr_columns :: "u32 list \<Rightarrow> nat list \<Rightarrow> comba \<Rightarrow> u32 list" where
  "sqr_columns a [] c = []"
| "sqr_columns a (ix # is) c =
     (let c = fold sqradd2 (sqr_column a ix) (comba_forward c);
          c = (if even ix then muladd (a ! (ix div 2), a ! (ix div 2)) c else c)
      in fst c # sqr_columns a is c)"

definition pstm_sqr_comba :: "pstm_int \<Rightarrow> pstm_int \<Rightarrow> pstm_int" where
  "pstm_sqr_comba A B =
     (let pa = pm_used A + pm_used A;
          B = (if pm_alloc B < pa then pstm_grow B pa else B)
      in pstm_clamp (pm_store B (sqr_columns (pm_digits A) [0..<pa] (0, 0, 0))))"

section \<open>Montgomery reduction\<close>

fun propcarry :: "u32 list \<Rightarrow> u32 \<Rightarrow> ps_error + u32 list" where
  "propcarry cs cy =
     (if cy = 0 then Inr cs
      else case cs of [] \<Rightarrow> Inl Ps_undefined
         | c # cs \<Rightarrow> let t = c + cy in ps_bind (propcarry cs (if t < cy then 1 else 0)) (\<lambda>cs. Inr (t # cs)))"

fun innermul :: "u32 \<Rightarrow> u32 list \<Rightarrow> u32 list \<Rightarrow> u32 \<Rightarrow> ps_error + u32 list" where
  "innermul mu [] cs cy = propcarry cs cy"
| "innermul mu (m # ms) [] cy = Inl Ps_undefined"
| "innermul mu (m # ms) (c # cs) cy =
     (let t = ucast c + ucast cy + ucast mu * ucast m :: u64
      in ps_bind (innermul mu ms cs (ucast (drop_bit 32 t))) (\<lambda>cs. Inr (ucast t # cs)))"

fun mont_rounds :: "u32 \<Rightarrow> u32 list \<Rightarrow> nat list \<Rightarrow> u32 list \<Rightarrow> ps_error + u32 list" where
  "mont_rounds mp m [] c = Inr c"
| "mont_rounds mp m (x # xs) c =
     ps_within (x < length c)
       (ps_bind (innermul (c ! x * mp) m (drop x c) 0) (\<lambda>cs. mont_rounds mp m xs (take x c @ cs)))"

text \<open>
  \<open>paDlen\<close> is the length of the scratch buffer in bytes. The test compares it with a number of digits, and the
  buffer that is allocated when it is too short has that number of bytes.
\<close>

definition pstm_montgomery_reduce :: "pstm_int \<Rightarrow> pstm_int \<Rightarrow> u32 \<Rightarrow> nat \<Rightarrow> ps_error + pstm_int" where
  "pstm_montgomery_reduce a m mp paDlen =
     (let pa = pm_used m
      in if pa > pm_alloc a then Inl PS_LIMIT_FAIL
         else let size_c = (if paDlen \<ge> 2 * pa + 1 then paDlen div 4 else (2 * pa + 1) div 4)
              in ps_within (pm_used a \<le> size_c \<and> 2 * pa + 1 \<le> size_c \<and> pa + 1 \<le> length (pm_dp a))
                   (ps_bind (mont_rounds mp (pm_digits m) [0..<pa] (pm_digits a @ replicate (size_c - pm_used a) 0)) (\<lambda>c.
                      let a = pstm_clamp (pm_store a (take (pa + 1) (drop pa c)))
                      in if pstm_cmp_mag a m \<noteq> PSTM_LT then ps_code PS_MEM_FAIL (s_pstm_sub a m a) else Inr a)))"

section \<open>Division\<close>

text \<open>The estimate of a digit of the quotient, too large at first; \<open>t1\<close> is the scratch number of the loop.\<close>

definition qhat_left :: "pstm_int \<Rightarrow> nat \<Rightarrow> u32 \<Rightarrow> pstm_int \<Rightarrow> pstm_int" where
  "qhat_left y t q t1 =
     (let t1 = (pstm_zero t1)\<lparr>pm_dp := (replicate (pm_alloc t1) 0)[0 := (if t = 0 then 0 else pm_dp y ! (t - 1)), 1 := pm_dp y ! t],
                              pm_used := 2\<rparr>
      in pstm_mul_d t1 q t1)"

definition qhat_right :: "pstm_int \<Rightarrow> nat \<Rightarrow> pstm_int" where
  "qhat_right x i =
     \<lparr>pm_used = 3, pm_alloc = 3, pm_sign = PSTM_ZPOS,
      pm_dp = [if i < 2 then 0 else pm_dp x ! (i - 2), if i < 1 then 0 else pm_dp x ! (i - 1), pm_dp x ! i]\<rparr>"

lemma mul_d_loop_zero: "mul_d_loop as 0 0 = (replicate (length as) 0, 0)"
  by (induction "as") simp_all

lemma clamp_loop_zero: "(\<And>i. i < n \<Longrightarrow> dp ! i = 0) \<Longrightarrow> clamp_loop dp n = 0"
  by (induction n) simp_all

lemma qhat_left_zero: "pm_used (qhat_left y t 0 t1) = 0"
  by (simp add: qhat_left_def pstm_mul_d_def mul_d_loop_zero pstm_clamp_def pm_store_def Let_def clamp_loop_zero nth_append)

function qhat_loop :: "pstm_int \<Rightarrow> nat \<Rightarrow> pstm_int \<Rightarrow> nat \<Rightarrow> u32 \<Rightarrow> pstm_int \<Rightarrow> u32 \<times> pstm_int" where
  "qhat_loop y t x i q t1 =
     (let t1 = qhat_left y t q t1
      in if pstm_cmp_mag t1 (qhat_right x i) = PSTM_GT then qhat_loop y t x i (q - 1) t1 else (q, t1))"
  by auto

termination
proof (relation "measure (\<lambda>(y, t, x, i, q, t1). unat q)")
  fix y :: pstm_int and t x i and q :: u32 and t1 t1' :: pstm_int
  assume "t1' = qhat_left y t q t1" and "pstm_cmp_mag t1' (qhat_right x i) = PSTM_GT"
  then have "q \<noteq> 0" using qhat_left_zero [of y t t1] by (auto simp: pstm_cmp_mag_def qhat_right_def)
  then show "((y, t, x, i, q - 1, t1'), (y, t, x, i, q, t1)) \<in> measure (\<lambda>(y, t, x, i, q, t1). unat q)"
    by (simp add: measure_unat)
qed simp

declare qhat_loop.simps [simp del]

primrec div_while :: "nat \<Rightarrow> pstm_int \<Rightarrow> pstm_int \<Rightarrow> u32 \<Rightarrow> ps_error + (pstm_int \<times> u32)" where
  "div_while 0 y x q = Inl Ps_loops"
| "div_while (Suc n) y x q =
     (if pstm_cmp x y \<noteq> PSTM_LT then ps_bind (pstm_sub True x y x) (\<lambda>x. div_while n y x (q + 1)) else Inr (x, q))"

definition div_step :: "pstm_int \<Rightarrow> nat \<Rightarrow> nat \<Rightarrow> pstm_int \<times> pstm_int \<times> u32 list \<Rightarrow> ps_error + (pstm_int \<times> pstm_int \<times> u32 list)" where
  "div_step y t i = (\<lambda>(x, t1, qdp).
     if i > pm_used x then Inr (x, t1, qdp)
     else ps_within (i < length (pm_dp x) \<and> t < length (pm_dp y) \<and> 2 \<le> length (pm_dp t1) \<and> pm_dp y ! t \<noteq> 0)
       (let q = (if pm_dp x ! i = pm_dp y ! t then ucast (push_bit 32 1 - 1 :: u64)
                 else ucast ((push_bit 32 (ucast (pm_dp x ! i)) OR ucast (pm_dp x ! (i - 1)) :: u64) div ucast (pm_dp y ! t)));
            (q, t1) = qhat_loop y t x i (q + 1 - 1) t1;
            t1 = pstm_lshd (pstm_mul_d y q t1) (i - t - 1)
        in ps_bind (pstm_sub True x t1 x) (\<lambda>x.
             if pm_sign x = PSTM_NEG
             then let t1 = pstm_lshd (pstm_copy y t1) (i - t - 1)
                  in ps_bind (pstm_add True x t1 x) (\<lambda>x. Inr (x, t1, qdp[i - t - 1 := q - 1]))
             else Inr (x, t1, qdp[i - t - 1 := q]))))"

fun div_loop :: "pstm_int \<Rightarrow> nat \<Rightarrow> nat list \<Rightarrow> pstm_int \<times> pstm_int \<times> u32 list \<Rightarrow> ps_error + (pstm_int \<times> pstm_int \<times> u32 list)" where
  "div_loop y t [] s = Inr s"
| "div_loop y t (i # is) s = ps_bind (div_step y t i s) (div_loop y t is)"

text \<open>
  The first digit of the quotient is at most 3, because the leading digit of the divisor has 31 bits; the fuel of
  \<open>div_while\<close> leaves room for the last test.
\<close>

definition pstm_div :: "pstm_int \<Rightarrow> pstm_int \<Rightarrow> pstm_int option \<Rightarrow> pstm_int option \<Rightarrow> ps_error + (pstm_int option \<times> pstm_int option)" where
  "pstm_div a b c d =
     (if pm_used b = 0 then Inl PS_LIMIT_FAIL
      else if pstm_cmp_mag a b = PSTM_LT then Inr (map_option pstm_zero c, map_option (pstm_copy a) d)
      else let t1 = pstm_init_size (pm_alloc a);
               x = pstm_init_copy a False;
               y = pstm_copy b (pstm_init_size (pm_used b * 3));
               neg = (if pm_sign a = pm_sign b then PSTM_ZPOS else PSTM_NEG);
               x = x\<lparr>pm_sign := PSTM_ZPOS\<rparr>;
               y = y\<lparr>pm_sign := PSTM_ZPOS\<rparr>;
               norm = pstm_count_bits y mod 32;
               (norm, x, y) = (if norm < 31 then (31 - norm, pstm_mul_2d x (31 - norm) x, pstm_mul_2d y (31 - norm) y) else (0, x, y));
               n = pm_used x - 1;
               t = pm_used y - 1;
               q = (pstm_init_size (n - t + 1))\<lparr>pm_used := n - t + 1\<rparr>;
               y = pstm_lshd y (n - t)
           in ps_bind (div_while 5 y x (pm_dp q ! (n - t))) (\<lambda>(x, qtop).
                let qdp = (pm_dp q)[n - t := qtop]; y = pstm_rshd y (n - t)
                in ps_bind (div_loop y t (rev [t + 1..<n + 1]) (x, t1, qdp)) (\<lambda>(x, t1, qdp).
                     let x = x\<lparr>pm_sign := (if pm_used x = 0 then PSTM_ZPOS else pm_sign a)\<rparr>;
                         c = map_option (\<lambda>c. (pstm_copy (pstm_clamp (q\<lparr>pm_dp := qdp\<rparr>)) c)\<lparr>pm_sign := neg\<rparr>) c
                     in case d of None \<Rightarrow> Inr (c, None)
                        | Some d \<Rightarrow>
                            ps_bind (pstm_div_2d x norm x None) (\<lambda>(x, _).
                              let dp = take (pm_used b) (pm_dp x) @ replicate (pm_used x - pm_used b) 0
                                         @ drop (max (pm_used b) (pm_used x)) (pm_dp x)
                              in Inr (c, Some (pstm_copy (pstm_clamp (x\<lparr>pm_dp := dp\<rparr>)) d))))))"

definition pstm_exch :: "pstm_int \<Rightarrow> pstm_int \<Rightarrow> pstm_int \<times> pstm_int" where
  "pstm_exch a b = (b, a)"

definition pstm_mod :: "pstm_int \<Rightarrow> pstm_int \<Rightarrow> pstm_int \<Rightarrow> ps_error + pstm_int" where
  "pstm_mod a b c =
     ps_bind (pstm_div a b None (Some (pstm_init_size (pm_alloc b)))) (\<lambda>(_, t).
       if pm_sign (the t) \<noteq> pm_sign b then pstm_add False (the t) b c else Inr (snd (pstm_exch (the t) c)))"

text \<open>\<open>same\<close>: the arguments \<^verbatim>\<open>a\<close> and \<^verbatim>\<open>d\<close> are one object.\<close>

definition pstm_mulmod :: "bool \<Rightarrow> pstm_int \<Rightarrow> pstm_int \<Rightarrow> pstm_int \<Rightarrow> pstm_int \<Rightarrow> ps_error + pstm_int" where
  "pstm_mulmod same a b c d =
     (let sz = pm_used a + pm_used b + 1;
          sz = (if same \<and> sz < pm_alloc a then pm_alloc a else sz)
      in pstm_mod (pstm_mul_comba a b (pstm_init_size sz)) c d)"

section \<open>Powers\<close>

record mont_env =
  me_P :: pstm_int
  me_mp :: u32
  me_paDlen :: nat
  me_winsize :: nat

definition mont_sqr :: "mont_env \<Rightarrow> pstm_int \<Rightarrow> ps_error + pstm_int" where
  "mont_sqr me a = pstm_montgomery_reduce (pstm_sqr_comba a a) (me_P me) (me_mp me) (me_paDlen me)"

definition mont_mul :: "mont_env \<Rightarrow> pstm_int \<Rightarrow> pstm_int \<Rightarrow> pstm_int \<Rightarrow> ps_error + pstm_int" where
  "mont_mul me a b c = pstm_montgomery_reduce (pstm_mul_comba a b c) (me_P me) (me_mp me) (me_paDlen me)"

primrec mont_sqrs :: "mont_env \<Rightarrow> nat \<Rightarrow> pstm_int \<Rightarrow> ps_error + pstm_int" where
  "mont_sqrs me 0 a = Inr a"
| "mont_sqrs me (Suc n) a = ps_bind (mont_sqr me a) (mont_sqrs me n)"

fun expt_table :: "mont_env \<Rightarrow> nat list \<Rightarrow> (nat \<Rightarrow> pstm_int) \<Rightarrow> ps_error + (nat \<Rightarrow> pstm_int)" where
  "expt_table me [] M = Inr M"
| "expt_table me (x # xs) M =
     ps_bind (mont_mul me (M (x - 1)) (M 1) (M x)) (\<lambda>m. expt_table me xs (M(x := m)))"

text \<open>What the loop over the bits of the exponent keeps, next to its position.\<close>

record expt_state =
  es_mode :: nat
  es_bitcpy :: nat
  es_bitbuf :: nat
  es_res :: pstm_int

definition expt_bit :: "mont_env \<Rightarrow> (nat \<Rightarrow> pstm_int) \<Rightarrow> bool \<Rightarrow> expt_state \<Rightarrow> ps_error + expt_state" where
  "expt_bit me M y st =
     (if es_mode st = 0 \<and> \<not> y then Inr st
      else if es_mode st = 1 \<and> \<not> y then ps_bind (mont_sqr me (es_res st)) (\<lambda>res. Inr (st\<lparr>es_res := res\<rparr>))
      else let bitcpy = es_bitcpy st + 1;
               bitbuf = es_bitbuf st OR push_bit (me_winsize me - bitcpy) (of_bool y)
           in if bitcpy = me_winsize me
              then ps_bind (mont_sqrs me (me_winsize me) (es_res st)) (\<lambda>res.
                   ps_bind (mont_mul me res (M bitbuf) res) (\<lambda>res.
                     Inr \<lparr>es_mode = 1, es_bitcpy = 0, es_bitbuf = 0, es_res = res\<rparr>))
              else Inr (st\<lparr>es_mode := 2, es_bitcpy := bitcpy, es_bitbuf := bitbuf\<rparr>))"

text \<open>\<open>digidx\<close> is the number of digits that are left, one more than in the source.\<close>

function expt_loop :: "mont_env \<Rightarrow> (nat \<Rightarrow> pstm_int) \<Rightarrow> u32 list \<Rightarrow> nat \<Rightarrow> nat \<Rightarrow> u32 \<Rightarrow> expt_state \<Rightarrow> ps_error + expt_state" where
  "expt_loop me M X bitcnt digidx buf st =
     (if bitcnt > 1
      then ps_bind (expt_bit me M (bit buf 31) st) (\<lambda>st. expt_loop me M X (bitcnt - 1) digidx (push_bit 1 buf) st)
      else if digidx = 0 then Inr st
      else let buf = X ! (digidx - 1)
           in ps_bind (expt_bit me M (bit buf 31) st) (\<lambda>st. expt_loop me M X 32 (digidx - 1) (push_bit 1 buf) st))"
  by auto

termination
  by (relation "measure (\<lambda>(me, M, X, bitcnt, digidx, buf, st). 33 * digidx + bitcnt)") auto

declare expt_loop.simps [simp del]

primrec expt_rest :: "mont_env \<Rightarrow> pstm_int \<Rightarrow> nat \<Rightarrow> nat \<Rightarrow> pstm_int \<Rightarrow> ps_error + pstm_int" where
  "expt_rest me M1 0 bitbuf res = Inr res"
| "expt_rest me M1 (Suc n) bitbuf res =
     ps_bind (mont_sqr me res) (\<lambda>res.
       let bitbuf = push_bit 1 bitbuf
       in if bitbuf AND push_bit (me_winsize me) 1 \<noteq> 0
          then ps_bind (mont_mul me res M1 res) (expt_rest me M1 n bitbuf)
          else expt_rest me M1 n bitbuf res)"

definition pstm_exptmod :: "pstm_int \<Rightarrow> pstm_int \<Rightarrow> pstm_int \<Rightarrow> pstm_int \<Rightarrow> ps_error + pstm_int" where
  "pstm_exptmod G X P Y =
     (let winsize = (if pstm_count_bits X < 50 then 2 else 3)
      in ps_bind (pstm_montgomery_setup P) (\<lambda>mp.
         ps_bind (pstm_montgomery_calc_normalization (pstm_init_size (pm_used P * 2 + 1)) P) (\<lambda>res.
         let M1 = pstm_init_size (pm_used res)
         in ps_bind (if pstm_cmp_mag P G \<noteq> PSTM_GT then pstm_mod G P M1 else Inr (pstm_copy G M1)) (\<lambda>M1.
            ps_bind (pstm_mulmod True M1 res P M1) (\<lambda>M1.
            let me = \<lparr>me_P = P, me_mp = mp, me_paDlen = (pm_used M1 + 3) * 2 * 4, me_winsize = winsize\<rparr>;
                half = push_bit (winsize - 1) 1
            in ps_bind (mont_sqrs me (winsize - 1) (pstm_init_copy M1 True)) (\<lambda>Mh.
               let M = (\<lambda>x. if x = half then Mh else if x = 1 then M1 else pstm_init_size (pm_alloc Mh + 1))
               in ps_bind (expt_table me [half + 1..<push_bit winsize 1] M) (\<lambda>M.
                  ps_bind (expt_loop me M (pm_digits X) 1 (pm_used X) 0 \<lparr>es_mode = 0, es_bitcpy = 0, es_bitbuf = 0, es_res = res\<rparr>) (\<lambda>st.
                  ps_bind (if es_mode st = 2 \<and> es_bitcpy st > 0
                           then expt_rest me (M 1) (es_bitcpy st) (es_bitbuf st) (es_res st) else Inr (es_res st)) (\<lambda>res.
                  ps_bind (pstm_montgomery_reduce res P mp (me_paDlen me)) (\<lambda>res. Inr (pstm_copy res Y)))))))))))"

section \<open>Bytes\<close>

function reverse_loop :: "byte list \<Rightarrow> nat \<Rightarrow> nat \<Rightarrow> byte list" where
  "reverse_loop s ix iy = (if ix < iy then reverse_loop (s[ix := s ! iy, iy := s ! ix]) (ix + 1) (iy - 1) else s)"
  by auto

termination by (relation "measure (\<lambda>(s, ix, iy). iy)") auto

declare reverse_loop.simps [simp del]

definition pstm_reverse :: "byte list \<Rightarrow> byte list" where
  "pstm_reverse s = reverse_loop s 0 (length s - 1)"

primrec to_bin_loop :: "nat \<Rightarrow> pstm_int \<Rightarrow> byte list \<Rightarrow> ps_error + byte list" where
  "to_bin_loop 0 t b = Inl Ps_loops"
| "to_bin_loop (Suc n) t b =
     (if pm_used t = 0 then Inr b
      else ps_bind (pstm_div_2d t 8 t None) (\<lambda>(t', _). to_bin_loop n t' (b @ [ucast (pm_dp t ! 0 AND 255)])))"

text \<open>
  A number of \<open>n\<close> digits has at most \<open>4 * n\<close> bytes. The function stores to the caller's buffer without knowing its size; here
  it returns the bytes, and the caller \<^verbatim>\<open>psRsaCrypt\<close> stores them, with the check that they fit (\<open>ps_within\<close>).
\<close>

definition pstm_to_unsigned_bin :: "pstm_int \<Rightarrow> ps_error + byte list" where
  "pstm_to_unsigned_bin a =
     ps_bind (to_bin_loop (4 * pm_used a + 1) (pstm_init_copy a False) []) (\<lambda>b. Inr (pstm_reverse b))"

end
