(* ===== verification/Tls_Rsa.thy ===== *)
theory Tls_Rsa
  imports Tls_Pstm_Expt
begin

text \<open>
  \<^verbatim>\<open>networking/tls_rsa.c\<close> and the part of \<^verbatim>\<open>tls.c\<close> that makes an RSA key of the bytes of a certificate.
  A buffer that the caller owns is an argument and part of the result. \<^verbatim>\<open>psTraceCrypto\<close> ends the program.
\<close>

unbundle bit_operations_syntax

section \<open>Keys\<close>

record psRsaKey =
  rk_e :: pstm_int
  rk_d :: pstm_int
  rk_N :: pstm_int
  rk_qP :: pstm_int
  rk_dP :: pstm_int
  rk_dQ :: pstm_int
  rk_p :: pstm_int
  rk_q :: pstm_int
  rk_size :: nat
  rk_optimized :: bool

definition PUBKEY_TYPE :: byte where "PUBKEY_TYPE = 1"
definition PRIVKEY_TYPE :: byte where "PRIVKEY_TYPE = 2"

definition binary_to_pstm :: "byte list \<Rightarrow> pstm_int" where
  "binary_to_pstm bin = pstm_read_unsigned_bin (pstm_init_for_read_unsigned_bin (length bin)) bin"

text \<open>The key in the zeroed structure, and the key after the certificate has been read.\<close>

definition zero_rsa_key :: psRsaKey where
  "zero_rsa_key = (let z = pstm_init_size 0
     in \<lparr>rk_e = z, rk_d = z, rk_N = z, rk_qP = z, rk_dP = z, rk_dQ = z, rk_p = z, rk_q = z, rk_size = 0, rk_optimized = False\<rparr>)"

fun server_rsa_pub_key :: "(byte list \<times> byte list) option \<Rightarrow> psRsaKey" where
  "server_rsa_pub_key None = zero_rsa_key"
| "server_rsa_pub_key (Some (modulus, exponent)) =
     (let N = binary_to_pstm modulus
      in zero_rsa_key\<lparr>rk_N := N, rk_e := binary_to_pstm exponent, rk_size := pstm_unsigned_bin_size N\<rparr>)"

definition psRsaKey_clear :: "psRsaKey \<Rightarrow> psRsaKey" where
  "psRsaKey_clear key = key\<lparr>rk_N := pstm_clear (rk_N key), rk_e := pstm_clear (rk_e key), rk_d := pstm_clear (rk_d key),
     rk_p := pstm_clear (rk_p key), rk_q := pstm_clear (rk_q key), rk_dP := pstm_clear (rk_dP key), rk_dQ := pstm_clear (rk_dQ key),
     rk_qP := pstm_clear (rk_qP key)\<rparr>"

section \<open>Encryption\<close>

text \<open>\<open>rnd\<close> gives the random bytes; the result is what the function writes to \<^verbatim>\<open>out\<close>.\<close>

definition pkcs1Pad :: "(nat \<Rightarrow> byte list) \<Rightarrow> byte list \<Rightarrow> nat \<Rightarrow> byte \<Rightarrow> ps_error + byte list" where
  "pkcs1Pad rnd inp outlen cryptType =
     (let randomLen = sint (of_nat outlen - 3 - of_nat (length inp) :: u32)
      in if randomLen < 8 then Inl (Ps_die ''pkcs1Pad failure'')
         else Inr ([0, cryptType]
                   @ (if cryptType = PUBKEY_TYPE then replicate (nat randomLen) 0xff
                      else map (\<lambda>c. if c = 0 then 1 else c) (rnd (nat randomLen)))
                   @ [0] @ inp))"

definition psRsaPrivate :: "psRsaKey \<Rightarrow> pstm_int \<Rightarrow> ps_error + pstm_int" where
  "psRsaPrivate key tmp =
     (if rk_optimized key
      then let tmpa = pstm_init_size (pm_alloc (rk_p key)); tmpb = pstm_init_size (pm_alloc (rk_q key))
           in ps_bind (ps_code (Ps_die ''decrypt error: pstm_exptmod dP, p'') (pstm_exptmod tmp (rk_dP key) (rk_p key) tmpa)) (\<lambda>tmpa.
              ps_bind (ps_code (Ps_die ''decrypt error: pstm_exptmod dQ, q'') (pstm_exptmod tmp (rk_dQ key) (rk_q key) tmpb)) (\<lambda>tmpb.
              ps_bind (ps_code (Ps_die ''decrypt error: sub tmpb, tmp'') (pstm_sub False tmpa tmpb tmp)) (\<lambda>tmp.
              ps_bind (ps_code (Ps_die ''decrypt error: pstm_mulmod qP, p'') (pstm_mulmod True tmp (rk_qP key) (rk_p key) tmp)) (\<lambda>tmp.
              let tmp = pstm_mul_comba tmp (rk_q key) tmp
              in ps_code (Ps_die ''decrypt error: pstm_add tmp '') (pstm_add True tmp tmpb tmp)))))
      else ps_code (Ps_die ''psRsaCrypt error: pstm_exptmod'') (pstm_exptmod tmp (rk_d key) (rk_N key) tmp))"

definition psRsaCrypt :: "byte list \<Rightarrow> byte list \<Rightarrow> nat \<Rightarrow> psRsaKey \<Rightarrow> byte \<Rightarrow> ps_error + (byte list \<times> nat)" where
  "psRsaCrypt inp out outlen key type =
     (let tmp = pstm_read_unsigned_bin (pstm_init_for_read_unsigned_bin (length inp + 4)) inp
      in if pstm_cmp (rk_N key) tmp = PSTM_LT then Inl PS_LIMIT_FAIL
         else ps_bind
           (if type = PRIVKEY_TYPE then psRsaPrivate key tmp
            else if type = PUBKEY_TYPE
            then ps_code (Ps_die ''psRsaCrypt error: pstm_exptmod'') (pstm_exptmod tmp (rk_e key) (rk_N key) tmp)
            else Inl (Ps_die ''psRsaCrypt error: invalid type param'')) (\<lambda>tmp.
           let x = pstm_unsigned_bin_size (rk_N key)
           in if x > outlen then Inl (Ps_die ''psRsaCrypt error: pstm_unsigned_bin_size'')
              else let pad = rk_size key - x;
                       x = x + pad
                   in ps_within (pad + x \<le> length out \<and> pstm_unsigned_bin_size tmp \<le> x)
                        (let out = mem_write (mem_write out 0 (replicate pad 0)) pad (replicate x 0)
                         in ps_bind (ps_code (Ps_die ''psRsaCrypt error: pstm_to_unsigned_bin'') (pstm_to_unsigned_bin tmp)) (\<lambda>bin.
                              Inr (mem_write out (pad + (x - pstm_unsigned_bin_size tmp)) bin, x)))))"

definition psRsaEncryptPub :: "(nat \<Rightarrow> byte list) \<Rightarrow> psRsaKey \<Rightarrow> byte list \<Rightarrow> byte list \<Rightarrow> ps_error + (byte list \<times> nat)" where
  "psRsaEncryptPub rnd key inp out =
     (let sz = rk_size key
      in if length out < sz then Inl (Ps_die ''RSA crypt outlen:%d < size:%d'')
         else ps_bind (ps_code (Ps_die ''Error padding psRsaEncryptPub. Likely data too long'') (pkcs1Pad rnd inp sz PRIVKEY_TYPE)) (\<lambda>pad.
              let out = mem_write out 0 pad
              in ps_bind (ps_code (Ps_die ''Error performing psRsaEncryptPub'') (psRsaCrypt (take sz out) out (length out) key PUBKEY_TYPE)) (\<lambda>(out, outlen).
                   if outlen \<noteq> sz then Inl (Ps_die ''Encrypted size error in psRsaEncryptPub'') else Inr (out, sz))))"

end
