(* ===== verification/Tls_Handshake.thy ===== *)
theory Tls_Handshake
  imports Tls_Delivery Tls_X25519 Tls_Der Tls_P256 Tls_Rsa
begin

text \<open>
  The handshake of \<^verbatim>\<open>networking/tls.c\<close>: the messages the client sends and reads, the choice
  of the cipher parameters, the derivation of the keys, and \<^verbatim>\<open>tls_handshake\<close> that joins them.
  The random bytes are arguments.
\<close>

section \<open>State\<close>

text \<open>
  \<^verbatim>\<open>tls_state_t\<close> with the members that only the handshake uses, and
  \<^verbatim>\<open>struct tls_handshake_data\<close>, whose hash context is in \<open>tls_hsd\<close>.
\<close>

record tls_conn =
  cn_tls :: tls_state
  cn_key_size :: nat
  cn_IV_size :: nat
  cn_rand32 :: "byte list"
  cn_master_secret :: "byte list"
  cn_rsa_key :: "(byte list \<times> byte list) option"
  cn_ecc_pub_key32 :: "byte list"

text \<open>The zeroed structure of \<^verbatim>\<open>new_tls_state\<close>; the pointers into the keys are null.\<close>

definition new_tls_state :: tls_conn where
  "new_tls_state = \<lparr>cn_tls = \<lparr>tls_flags = 0, tls_sent = [], tls_min_encrypted_len_on_read = 0, tls_cipher_id = 0, tls_MAC_size = 0,
     tls_outbuf = [], tls_inbuf = [], tls_ofs_to_buffered = 0, tls_buffered_size = 0, tls_hsd = None, tls_write_seq64_be = 0,
     tls_client_write_MAC_key = replicate 32 0, tls_client_write_IV = [], tls_server_write_IV = [],
     tls_aes_encrypt = \<lparr>aes_key = replicate 60 0, aes_rounds = 0\<rparr>, tls_aes_decrypt = \<lparr>aes_key = replicate 60 0, aes_rounds = 0\<rparr>,
     tls_H = replicate 16 0\<rparr>, cn_key_size = 0, cn_IV_size = 0, cn_rand32 = [], cn_master_secret = [], cn_rsa_key = None,
     cn_ecc_pub_key32 = []\<rparr>"

text \<open>What the handshake takes from outside.\<close>

record hs_env =
  he_rand32 :: "byte list"
  he_rsa_premaster :: "byte list"
  he_ec_random :: "byte list"
  he_iv :: "byte list"
  he_rsa_pad :: "nat \<Rightarrow> byte list"

datatype hs_error =
    Record_error tls_error
  | Bad_handshake nat
  | Tls_error_die
  | Cert_die
  | Cert_fault
  | Not_rsa_cert
  | No_ec_key
  | Compressed_point
  | Unknown_curve u32
  | Send_died
  | Rsa_failed ps_error

definition HANDSHAKE_CLIENT_HELLO :: byte where "HANDSHAKE_CLIENT_HELLO = 1"
definition HANDSHAKE_SERVER_HELLO :: byte where "HANDSHAKE_SERVER_HELLO = 2"
definition HANDSHAKE_CERTIFICATE :: byte where "HANDSHAKE_CERTIFICATE = 11"
definition HANDSHAKE_SERVER_KEY_EXCHANGE :: byte where "HANDSHAKE_SERVER_KEY_EXCHANGE = 12"
definition HANDSHAKE_CERTIFICATE_REQUEST :: byte where "HANDSHAKE_CERTIFICATE_REQUEST = 13"
definition HANDSHAKE_SERVER_HELLO_DONE :: byte where "HANDSHAKE_SERVER_HELLO_DONE = 14"
definition HANDSHAKE_CLIENT_KEY_EXCHANGE :: byte where "HANDSHAKE_CLIENT_KEY_EXCHANGE = 16"
definition HANDSHAKE_FINISHED :: byte where "HANDSHAKE_FINISHED = 20"
definition RECORD_TYPE_CHANGE_CIPHER_SPEC :: byte where "RECORD_TYPE_CHANGE_CIPHER_SPEC = 20"
definition NEED_EC_KEY :: u32 where "NEED_EC_KEY = push_bit 0 1"
definition GOT_EC_KEY :: u32 where "GOT_EC_KEY = push_bit 3 1"
definition GOT_EC_CURVE_X25519 :: u32 where "GOT_EC_CURVE_X25519 = push_bit 4 1"

fun hs_bind :: "'e + 'a \<Rightarrow> ('a \<Rightarrow> 'e + 'b) \<Rightarrow> 'e + 'b" where
  "hs_bind (Inl e) f = Inl e"
| "hs_bind (Inr x) f = f x"

definition sent_or_died :: "tls_conn \<Rightarrow> tls_state option \<Rightarrow> hs_error + tls_conn" where
  "sent_or_died cn r = (case r of None \<Rightarrow> Inl Send_died | Some tls \<Rightarrow> Inr (cn\<lparr>cn_tls := tls\<rparr>))"

text \<open>Stores into the output buffer, each at its offset from the start of the message.\<close>

definition poke :: "(nat \<times> byte list) list \<Rightarrow> tls_state \<Rightarrow> tls_state" where
  "poke ws tls = tls\<lparr>tls_outbuf := fold (\<lambda>(off, bs) buf. mem_write buf (OUTBUF_PFX + off) bs) ws (tls_outbuf tls)\<rparr>"

section \<open>Messages\<close>

definition tls_xread_handshake_block ::
    "tls_env \<Rightarrow> tls_conn \<Rightarrow> input list \<Rightarrow> nat \<Rightarrow> hs_error + (tls_conn \<times> nat \<times> input list)" where
  "tls_xread_handshake_block env cn inp min_len =
     (case tls_xread_record env (cn_tls cn) inp of
        Inl e \<Rightarrow> Inl (Record_error e)
      | Inr (tls, len, inp) \<Rightarrow>
          if len < min_len \<or> tls_inbuf tls ! 0 \<noteq> RECORD_TYPE_HANDSHAKE then Inl (Bad_handshake len)
          else Inr (cn\<lparr>cn_tls := tls\<rparr>, len, inp))"

definition fill_handshake_record_hdr :: "byte \<Rightarrow> nat \<Rightarrow> byte list" where
  "fill_handshake_record_hdr type len =
     (let len = len - 4 in [type, word_of_nat (len div 65536), word_of_nat (len div 256), word_of_nat (len mod 256)])"

definition NUM_CIPHERS :: "tls_env \<Rightarrow> nat" where
  "NUM_CIPHERS env = 4 * of_bool (te_tls_sha1 env) + 4 + 2 * of_bool (te_tls_sha1 env) + 3 + of_bool (te_allow_null env)"

definition ciphers :: "tls_env \<Rightarrow> byte list" where
  "ciphers env =
     [0x00, word_of_nat (2 * (1 + NUM_CIPHERS env)),
      0x00, 0xFF]
     @ (if te_tls_sha1 env then [0xC0, 0x09, 0xC0, 0x0A, 0xC0, 0x13, 0xC0, 0x14] else [])
     @ [0xC0, 0x23, 0xC0, 0x27, 0xC0, 0x2B, 0xC0, 0x2F]
     @ (if te_tls_sha1 env then [0x00, 0x2F, 0x00, 0x35] else [])
     @ [0x00, 0x3C, 0x00, 0x3D, 0x00, 0x9C]
     @ (if te_allow_null env then [0x00, 0x3B] else [])
     @ [0x01, 0x00]"

definition extensions :: "tls_env \<Rightarrow> byte list" where
  "extensions env =
     (let sigalgs = 3 + 3 * of_bool (te_tls_sha1 env)
      in [0x00, 0x0a, 0x00, 2 * (1 + 1 + 1), 0x00, 2 * (0 + 1 + 1), 0x00, 0x17, 0x00, 0x1d,
          0x00, 0x0d, 0x00, word_of_nat (2 * (1 + sigalgs)), 0x00, word_of_nat (2 * (0 + sigalgs))]
         @ (if te_tls_sha1 env then [0x02, 0x01, 0x02, 0x02, 0x02, 0x03] else [])
         @ [0x04, 0x01, 0x04, 0x02, 0x04, 0x03])"

text \<open>The size of \<^verbatim>\<open>struct client_hello\<close>.\<close>

definition client_hello_size :: "tls_env \<Rightarrow> nat" where
  "client_hello_size env = 4 + 2 + 32 + 1 + 2 + 2 * (1 + NUM_CIPHERS env) + 1 + 1"

text \<open>
  The context that \<^verbatim>\<open>xzalloc\<close> gives; the null function pointer, which the type has no value
  for, is set by \<^verbatim>\<open>sha256_begin\<close>.
\<close>

definition zeroed_ctx :: md5_ctx where
  "zeroed_ctx = \<lparr>cx_wbuffer = replicate 64 0, cx_process_block = Sha256_fn, cx_total64 = 0, cx_hash = replicate 8 0\<rparr>"

text \<open>
  The length of the extensions and the stores into the message, each at its offset. \<open>sni\<close> is the
  host name up to its terminating zero, empty for a null pointer.
\<close>

definition client_hello_ext_len :: "tls_env \<Rightarrow> byte list \<Rightarrow> nat" where
  "client_hello_ext_len env sni =
     (let sni_len = min (length sni) (127 - 5)
      in length (extensions env) + (if sni_len \<noteq> 0 then 9 + sni_len else 0))"

definition client_hello_fields :: "tls_env \<Rightarrow> byte list \<Rightarrow> byte list \<Rightarrow> (nat \<times> byte list) list" where
  "client_hello_fields env rand32 sni =
     (let sni_len = min (length sni) (127 - 5);
          ext_len = client_hello_ext_len env sni;
          size_rec = client_hello_size env;
          len = size_rec + 2 + ext_len
      in [(0, fill_handshake_record_hdr HANDSHAKE_CLIENT_HELLO len),
          (4, [TLS_MAJ, TLS_MIN]),
          (6, rand32),
          (39, ciphers env),
          (size_rec, [word_of_nat (ext_len div 256), word_of_nat ext_len])]
         @ (if sni_len \<noteq> 0
            then [(size_rec + 2 + 3, [word_of_nat (sni_len + 5)]),
                  (size_rec + 2 + 5, [word_of_nat (sni_len + 3)]),
                  (size_rec + 2 + 8, [word_of_nat sni_len]),
                  (size_rec + 2 + 9, take sni_len sni),
                  (size_rec + 2 + 9 + sni_len, extensions env)]
            else [(size_rec + 2, extensions env)]))"

definition send_client_hello_and_alloc_hsd :: "tls_env \<Rightarrow> hs_env \<Rightarrow> byte list \<Rightarrow> tls_conn \<Rightarrow> hs_error + tls_conn" where
  "send_client_hello_and_alloc_hsd env he sni cn =
     (let len = client_hello_size env + 2 + client_hello_ext_len env sni
      in case tls_get_zeroed_outbuf env (cn_tls cn) len of
           None \<Rightarrow> Inl Send_died
         | Some tls \<Rightarrow>
             let tls = poke (client_hello_fields env (he_rand32 he) sni) tls;
                 tls = tls\<lparr>tls_hsd := Some (begin_sha256 (te_ebx env) zeroed_ctx)\<rparr>;
                 cn = cn\<lparr>cn_rand32 := he_rand32 he @ replicate 32 0, cn_master_secret := replicate 48 0,
                         cn_rsa_key := None, cn_ecc_pub_key32 := replicate 64 0\<rparr>
             in sent_or_died cn (xwrite_and_update_handshake_hash env (he_iv he) tls len))"

text \<open>The parameters of the cipher that the server chose.\<close>

definition select_cipher :: "tls_env \<Rightarrow> byte \<Rightarrow> byte \<Rightarrow> tls_conn \<Rightarrow> tls_conn" where
  "select_cipher env c0 c1 cn =
     (let tls = (cn_tls cn)\<lparr>tls_cipher_id := 0x100 * ucast c0 + ucast c1, tls_MAC_size := 32\<rparr>;
          key_size = 32;
          IV_size = cn_IV_size cn
      in if c0 = 0xC0 then
           let tls = tls\<lparr>tls_flags := tls_flags tls OR NEED_EC_KEY\<rparr>;
               key_size = (if c1 AND 1 \<noteq> 0 then 16 else key_size);
               (tls, IV_size) =
                 (if te_tls_sha1 env \<and> c1 \<le> 0x19 then (tls\<lparr>tls_MAC_size := 20\<rparr>, IV_size)
                  else if 0x2B \<le> c1 \<and> c1 \<le> 0x30
                  then (tls\<lparr>tls_flags := tls_flags tls OR ENCRYPTION_AESGCM, tls_MAC_size := 0\<rparr>, 4)
                  else (tls, IV_size))
           in cn\<lparr>cn_tls := tls, cn_key_size := key_size, cn_IV_size := IV_size\<rparr>
         else
           let key_size = (if te_tls_sha1 env \<and> c1 = 0x2F \<or> c1 = 0x3C \<or> c1 = 0x9C then 16 else key_size);
               (tls, IV_size) =
                 (if te_tls_sha1 env \<and> c1 \<le> 0x35 then (tls\<lparr>tls_MAC_size := 20\<rparr>, IV_size)
                  else if c1 = 0x9C
                  then (tls\<lparr>tls_flags := tls_flags tls OR ENCRYPTION_AESGCM, tls_MAC_size := 0\<rparr>, 4)
                  else (tls, IV_size))
           in cn\<lparr>cn_tls := tls, cn_key_size := key_size, cn_IV_size := IV_size\<rparr>)"

text \<open>
  The members of \<^verbatim>\<open>struct server_hello\<close> by their offsets in the input buffer: the type at 5,
  the length at 6, the version at 9, the random bytes at 11, the session id from 43 on, the cipher
  at 76.
\<close>

definition get_server_hello :: "tls_env \<Rightarrow> tls_conn \<Rightarrow> input list \<Rightarrow> hs_error + (tls_conn \<times> input list)" where
  "get_server_hello env cn inp =
     hs_bind (tls_xread_handshake_block env cn inp (74 - 32)) (\<lambda>(cn, len, inp).
       let hp = tls_inbuf (cn_tls cn)
       in if hp ! 5 \<noteq> HANDSHAKE_SERVER_HELLO \<or> hp ! 6 \<noteq> 0 \<or> hp ! 7 \<noteq> 0 \<or> hp ! 9 \<noteq> TLS_MAJ \<or> hp ! 10 \<noteq> TLS_MIN
          then Inl (Bad_handshake len)
          else if hp ! 43 \<noteq> 32 \<and> hp ! 43 \<noteq> 0 then Inl (Bad_handshake len)
          else let cipherid = (if hp ! 43 \<noteq> 32 then 76 - 32 else 76);
                   len24 = (if hp ! 43 \<noteq> 32 then unat (hp ! 8) + 32 else unat (hp ! 8))
               in if len24 < 70 then Inl (Bad_handshake len)
                  else let cn = cn\<lparr>cn_rand32 := mem_write (cn_rand32 cn) 32 (mem_read hp 11 32)\<rparr>
                       in Inr (select_cipher env (hp ! cipherid) (hp ! (cipherid + 1)) cn, inp))"

definition get24be :: "byte list \<Rightarrow> nat \<Rightarrow> nat" where
  "get24be buf i = 0x100 * (0x100 * unat (buf ! i) + unat (buf ! (i + 1))) + unat (buf ! (i + 2))"

definition get_server_cert :: "tls_env \<Rightarrow> tls_conn \<Rightarrow> input list \<Rightarrow> hs_error + (tls_conn \<times> input list)" where
  "get_server_cert env cn inp =
     hs_bind (tls_xread_handshake_block env cn inp 10) (\<lambda>(cn, len, inp).
       let inbuf = tls_inbuf (cn_tls cn); certbuf = RECHDR_LEN
       in if inbuf ! certbuf \<noteq> HANDSHAKE_CERTIFICATE then Inl (Bad_handshake len)
          else let len1 = get24be inbuf (certbuf + 1); len2 = get24be inbuf (certbuf + 4); len3 = get24be inbuf (certbuf + 7)
               in if int len1 > int len - 4 then Inl Tls_error_die
                  else if int len2 > int len1 - 3 then Inl Tls_error_die
                  else if int len3 > int len2 - 3 then Inl Tls_error_die
                  else if len3 \<noteq> 0 then
                    (case find_key_in_der_cert inbuf (certbuf + 10) len3 (tls_flags (cn_tls cn)) of
                       Die \<Rightarrow> Inl Cert_die
                     | Fault \<Rightarrow> Inl Cert_fault
                     | Ok (flags, key) \<Rightarrow>
                         Inr (cn\<lparr>cn_tls := (cn_tls cn)\<lparr>tls_flags := flags\<rparr>,
                                 cn_rsa_key := (case key of None \<Rightarrow> cn_rsa_key cn | Some k \<Rightarrow> Some k)\<rparr>, inp))
                  else Inr (cn, inp))"

text \<open>For a little-endian build.\<close>

definition process_server_key :: "tls_conn \<Rightarrow> nat \<Rightarrow> hs_error + tls_conn" where
  "process_server_key cn len =
     (let inbuf = tls_inbuf (cn_tls cn); keybuf = RECHDR_LEN; len1 = get24be inbuf (keybuf + 1)
      in if int len1 > int len - 4 then Inl Tls_error_die
         else if len1 < 1 + 2 + 1 + 32 then Inl Tls_error_die
         else let t32 = le_word (mem_read inbuf (keybuf + 4) 4) :: u32; keybuf = keybuf + 8
              in if t32 = 0x201d0003 then
                   Inr (cn\<lparr>cn_tls := (cn_tls cn)\<lparr>tls_flags := (tls_flags (cn_tls cn) OR GOT_EC_CURVE_X25519) OR GOT_EC_KEY\<rparr>,
                           cn_ecc_pub_key32 := mem_write (cn_ecc_pub_key32 cn) 0 (mem_read inbuf keybuf 32)\<rparr>)
                 else if t32 = 0x41170003 then
                   if inbuf ! keybuf \<noteq> 4 then Inl Compressed_point
                   else Inr (cn\<lparr>cn_tls := (cn_tls cn)\<lparr>tls_flags := tls_flags (cn_tls cn) OR GOT_EC_KEY\<rparr>,
                                cn_ecc_pub_key32 := mem_write (cn_ecc_pub_key32 cn) 0 (mem_read inbuf (keybuf + 1) (2 * 32))\<rparr>)
                 else Inl (Unknown_curve t32))"

definition send_empty_client_cert :: "tls_env \<Rightarrow> hs_env \<Rightarrow> tls_conn \<Rightarrow> hs_error + tls_conn" where
  "send_empty_client_cert env he cn =
     (case tls_get_zeroed_outbuf env (cn_tls cn) 7 of
        None \<Rightarrow> Inl Send_died
      | Some tls \<Rightarrow>
          sent_or_died cn (xwrite_and_update_handshake_hash env (he_iv he) (poke [(0, [HANDSHAKE_CERTIFICATE]), (3, [3])] tls) 7))"

section \<open>Keys\<close>

text \<open>
  The first part of \<^verbatim>\<open>send_client_key_exchange\<close>: the bytes for \<^verbatim>\<open>record->key\<close>, by
  offset, their number, and the premaster secret. \<^verbatim>\<open>psRsaEncryptPub\<close> is given the zeroed bytes of
  \<^verbatim>\<open>record->key\<close> from offset 2 on and changes the first \<open>len\<close> of them.
\<close>

definition key_exchange :: "hs_env \<Rightarrow> tls_conn \<Rightarrow> hs_error + ((nat \<times> byte list) list \<times> nat \<times> byte list)" where
  "key_exchange he cn =
     (let flags = tls_flags (cn_tls cn)
      in if flags AND NEED_EC_KEY = 0 then
           if flags AND GOT_CERT_RSA_KEY_ALG = 0 then Inl Not_rsa_cert
           else let premaster = [TLS_MAJ, TLS_MIN] @ drop 2 (he_rsa_premaster he)
                in case psRsaEncryptPub (he_rsa_pad he) (server_rsa_pub_key (cn_rsa_key cn)) premaster (replicate (4 * 1024) 0) of
                     Inl e \<Rightarrow> Inl (Rsa_failed e)
                   | Inr (out, len) \<Rightarrow>
                       Inr ([(2, take len out), (0, [word_of_nat (len div 256), word_of_nat (len mod 256)])], len + 2, premaster)
         else if flags AND GOT_EC_KEY = 0 then Inl No_ec_key
         else if flags AND GOT_EC_CURVE_X25519 \<noteq> 0 then
           let (pubkey, premaster) = curve_x25519_compute_pubkey_and_premaster (he_ec_random he) (take 32 (cn_ecc_pub_key32 cn))
           in Inr ([(1, pubkey), (0, [32])], 32 + 1, premaster)
         else
           let (pubkey, premaster) = curve_P256_compute_pubkey_and_premaster (he_ec_random he) (cn_ecc_pub_key32 cn); len = 1 + 32 * 2
           in Inr ([(2, pubkey), (1, [4]), (0, [word_of_nat len])], len + 1, premaster))"

definition ascii :: "string \<Rightarrow> byte list" where "ascii s = map (\<lambda>c. word_of_nat (of_char c)) s"

text \<open>
  The last part, from the premaster secret on. The six arrays from
  \<^verbatim>\<open>client_write_MAC_key\<close> on are contiguous and were zeroed with the structure; the PRF fills
  them in one go, and the pointers are set into them.
\<close>

definition derive_keys :: "tls_env \<Rightarrow> byte list \<Rightarrow> tls_conn \<Rightarrow> hs_error + tls_conn" where
  "derive_keys env premaster cn =
     (let prf = prf_hmac_sha256 (te_target env) (te_ebx env) (te_pre env)
      in case prf 48 premaster (ascii ''master secret'') (cn_rand32 cn) of
           None \<Rightarrow> Inl Send_died
         | Some master_secret \<Rightarrow>
             let tmp64 = drop 32 (cn_rand32 cn) @ take 32 (cn_rand32 cn);
                 MAC_size = tls_MAC_size (cn_tls cn); key_size = cn_key_size cn; IV_size = cn_IV_size cn
             in case prf (2 * (MAC_size + key_size + IV_size)) master_secret (ascii ''key expansion'') tmp64 of
                  None \<Rightarrow> Inl Send_died
                | Some key_block \<Rightarrow>
                    let keys = mem_write (tls_client_write_MAC_key (cn_tls cn) @ replicate (32 + 32 + 32 + 4 + 4) 0) 0 key_block;
                        client_write_key = 2 * MAC_size;
                        server_write_key = client_write_key + key_size;
                        client_write_IV = server_write_key + key_size;
                        server_write_IV = client_write_IV + IV_size;
                        aes_encrypt = aes_setkey (mem_read keys client_write_key key_size)
                    in Inr (cn\<lparr>cn_master_secret := master_secret,
                               cn_tls := (cn_tls cn)\<lparr>tls_client_write_MAC_key := take 32 keys,
                                 tls_client_write_IV := mem_read keys client_write_IV IV_size,
                                 tls_server_write_IV := mem_read keys server_write_IV IV_size,
                                 tls_aes_decrypt := aes_setkey (mem_read keys server_write_key key_size),
                                 tls_aes_encrypt := aes_encrypt,
                                 tls_H := aes_encrypt_one_block aes_encrypt (replicate 16 0)\<rparr>\<rparr>))"

definition send_client_key_exchange :: "tls_env \<Rightarrow> hs_env \<Rightarrow> tls_conn \<Rightarrow> hs_error + tls_conn" where
  "send_client_key_exchange env he cn =
     (case tls_get_zeroed_outbuf env (cn_tls cn) (4 + 2 + 4 * 1024) of
        None \<Rightarrow> Inl Send_died
      | Some tls \<Rightarrow>
          hs_bind (key_exchange he (cn\<lparr>cn_tls := tls\<rparr>)) (\<lambda>(key, len, premaster).
            let tls = poke (map (\<lambda>(off, bs). (4 + off, bs)) key
                            @ [(0, [HANDSHAKE_CLIENT_KEY_EXCHANGE]), (2, [word_of_nat (len div 256)]), (3, [word_of_nat (len mod 256)])]) tls
            in hs_bind (sent_or_died cn (xwrite_and_update_handshake_hash env (he_iv he) tls (len + 4)))
                 (derive_keys env premaster)))"

definition rec_CHANGE_CIPHER_SPEC :: "byte list" where
  "rec_CHANGE_CIPHER_SPEC = [RECORD_TYPE_CHANGE_CIPHER_SPEC, TLS_MAJ, TLS_MIN, 0, 1, 1]"

definition send_change_cipher_spec :: "tls_conn \<Rightarrow> tls_conn" where
  "send_change_cipher_spec cn = cn\<lparr>cn_tls := xwrite rec_CHANGE_CIPHER_SPEC (cn_tls cn)\<rparr>"

definition send_client_finished :: "tls_env \<Rightarrow> hs_env \<Rightarrow> tls_conn \<Rightarrow> hs_error + tls_conn" where
  "send_client_finished env he cn =
     (case tls_get_outbuf env (cn_tls cn) 16 of
        None \<Rightarrow> Inl Send_died
      | Some tls \<Rightarrow>
          let tls = poke [(0, fill_handshake_record_hdr HANDSHAKE_FINISHED 16)] tls
          in case tls_hsd tls of
               None \<Rightarrow> Inl (Record_error Null_hsd)
             | Some ctx \<Rightarrow>
                 let (ctx, handshake_hash, len) = sha1_end (te_target env) ctx;
                     tls = tls\<lparr>tls_hsd := Some ctx\<rparr>
                 in case prf_hmac_sha256 (te_target env) (te_ebx env) (te_pre env) 12 (cn_master_secret cn)
                           (ascii ''client finished'') (take len handshake_hash) of
                      None \<Rightarrow> Inl Send_died
                    | Some prf_result \<Rightarrow>
                        sent_or_died cn (xwrite_encrypted env (he_iv he) (poke [(4, prf_result)] tls) 16 RECORD_TYPE_HANDSHAKE))"

section \<open>The handshake\<close>

text \<open>
  The server's messages: from the one that may be a request for a certificate to
  \<^verbatim>\<open>SERVER_HELLO_DONE\<close>, from the one that may be its key on, and from the hello on. The
  flag tells whether it asked for a certificate.
\<close>

definition read_flight_end :: "tls_env \<Rightarrow> tls_conn \<Rightarrow> nat \<Rightarrow> input list \<Rightarrow> hs_error + (tls_conn \<times> bool \<times> input list)" where
  "read_flight_end env cn len inp =
     (let got_cert_req = (tls_inbuf (cn_tls cn) ! RECHDR_LEN = HANDSHAKE_CERTIFICATE_REQUEST)
      in hs_bind (if got_cert_req then tls_xread_handshake_block env cn inp 4 else Inr (cn, len, inp)) (\<lambda>(cn, len, inp).
         if tls_inbuf (cn_tls cn) ! RECHDR_LEN \<noteq> HANDSHAKE_SERVER_HELLO_DONE then Inl (Bad_handshake len)
         else Inr (cn, got_cert_req, inp)))"

definition read_flight_kx :: "tls_env \<Rightarrow> tls_conn \<Rightarrow> input list \<Rightarrow> hs_error + (tls_conn \<times> bool \<times> input list)" where
  "read_flight_kx env cn inp =
     hs_bind (tls_xread_handshake_block env cn inp 4) (\<lambda>(cn, len, inp).
     hs_bind (if tls_inbuf (cn_tls cn) ! RECHDR_LEN = HANDSHAKE_SERVER_KEY_EXCHANGE
              then hs_bind (if tls_flags (cn_tls cn) AND NEED_EC_KEY \<noteq> 0 then process_server_key cn len else Inr cn)
                     (\<lambda>cn. tls_xread_handshake_block env cn inp 4)
              else Inr (cn, len, inp)) (\<lambda>(cn, len, inp). read_flight_end env cn len inp))"

definition read_server_flight :: "tls_env \<Rightarrow> tls_conn \<Rightarrow> input list \<Rightarrow> hs_error + (tls_conn \<times> bool \<times> input list)" where
  "read_server_flight env cn inp =
     hs_bind (get_server_hello env cn inp) (\<lambda>(cn, inp).
     hs_bind (get_server_cert env cn inp) (\<lambda>(cn, inp). read_flight_kx env cn inp))"

text \<open>The client's answer up to its \<^verbatim>\<open>FINISHED\<close>.\<close>

definition send_client_flight :: "tls_env \<Rightarrow> hs_env \<Rightarrow> bool \<Rightarrow> tls_conn \<Rightarrow> hs_error + tls_conn" where
  "send_client_flight env he got_cert_req cn =
     hs_bind (if got_cert_req then send_empty_client_cert env he cn else Inr cn) (\<lambda>cn.
     hs_bind (send_client_key_exchange env he cn) (\<lambda>cn.
     let cn = send_change_cipher_spec cn;
         cn = cn\<lparr>cn_tls := (cn_tls cn)\<lparr>tls_flags := tls_flags (cn_tls cn) OR ENCRYPT_ON_WRITE\<rparr>\<rparr>
     in send_client_finished env he cn))"

definition min_encrypted_len :: "tls_env \<Rightarrow> tls_state \<Rightarrow> nat" where
  "min_encrypted_len env tls =
     (if te_allow_null env \<and> tls_cipher_id tls = TLS_RSA_WITH_NULL_SHA256 then tls_MAC_size tls
      else if tls_flags tls AND ENCRYPTION_AESGCM = 0 then
        let mac_blocks = (TLS_MAC_SIZE env tls + AES_BLOCK_SIZE - 1) div AES_BLOCK_SIZE
        in AES_BLOCK_SIZE + mac_blocks * AES_BLOCK_SIZE
      else 8 + AES_BLOCK_SIZE)"

definition read_server_finished :: "tls_env \<Rightarrow> tls_conn \<Rightarrow> input list \<Rightarrow> hs_error + (tls_conn \<times> input list)" where
  "read_server_finished env cn inp =
     (case tls_xread_record env (cn_tls cn) inp of
        Inl e \<Rightarrow> Inl (Record_error e)
      | Inr (tls, len, inp) \<Rightarrow>
          if len \<noteq> 1 \<or> mem_read (tls_inbuf tls) 0 6 \<noteq> rec_CHANGE_CIPHER_SPEC then Inl (Bad_handshake len)
          else let tls = tls\<lparr>tls_min_encrypted_len_on_read := min_encrypted_len env tls\<rparr>
               in case tls_xread_record env tls inp of
                    Inl e \<Rightarrow> Inl (Record_error e)
                  | Inr (tls, len, inp) \<Rightarrow>
                      if len < 4 \<or> tls_inbuf tls ! RECHDR_LEN \<noteq> HANDSHAKE_FINISHED then Inl (Bad_handshake len)
                      else Inr (cn\<lparr>cn_tls := tls\<lparr>tls_hsd := None\<rparr>\<rparr>, inp))"

definition tls_handshake :: "tls_env \<Rightarrow> hs_env \<Rightarrow> byte list \<Rightarrow> tls_conn \<Rightarrow> input list \<Rightarrow> hs_error + (tls_conn \<times> input list)" where
  "tls_handshake env he sni cn inp =
     hs_bind (send_client_hello_and_alloc_hsd env he sni cn) (\<lambda>cn.
     hs_bind (read_server_flight env cn inp) (\<lambda>(cn, got_cert_req, inp).
     hs_bind (send_client_flight env he got_cert_req cn) (\<lambda>cn.
       read_server_finished env cn inp)))"

end
