(* ===== verification/Tls_Keys.thy ===== *)
theory Tls_Keys
  imports Tls_Handshake
begin

text \<open>
  The parameters of the cipher suites the client offers, and the key material that RFC 5246 derives
  from the premaster secret and the two random numbers, against \<^verbatim>\<open>get_server_hello\<close> and the end of
  \<^verbatim>\<open>send_client_key_exchange\<close>.
\<close>

section \<open>Cipher suites\<close>

text \<open>
  The suites the client offers, after the registry: the two bytes of the id, whether the key
  exchange is ephemeral Diffie-Hellman on a curve, the length of the AES key, the length of the MAC
  key, and whether the mode is GCM.
\<close>

definition suites :: "tls_env \<Rightarrow> (byte \<times> byte \<times> bool \<times> nat \<times> nat \<times> bool) list" where
  "suites env =
     (if te_tls_sha1 env
      then [(0xC0, 0x09, True, 16, 20, False), (0xC0, 0x0A, True, 32, 20, False),
            (0xC0, 0x13, True, 16, 20, False), (0xC0, 0x14, True, 32, 20, False)] else [])
     @ [(0xC0, 0x23, True, 16, 32, False), (0xC0, 0x27, True, 16, 32, False),
        (0xC0, 0x2B, True, 16, 0, True), (0xC0, 0x2F, True, 16, 0, True)]
     @ (if te_tls_sha1 env then [(0x00, 0x2F, False, 16, 20, False), (0x00, 0x35, False, 32, 20, False)] else [])
     @ [(0x00, 0x3C, False, 16, 32, False), (0x00, 0x3D, False, 32, 32, False), (0x00, 0x9C, False, 16, 0, True)]"

text \<open>A connection whose parameters are those of a suite.\<close>

definition has_suite :: "tls_conn \<Rightarrow> bool \<Rightarrow> nat \<Rightarrow> nat \<Rightarrow> bool \<Rightarrow> bool" where
  "has_suite cn ecdhe key_len mac_len gcm \<longleftrightarrow>
     cn_key_size cn = key_len \<and> tls_MAC_size (cn_tls cn) = mac_len \<and> cn_IV_size cn = (if gcm then 4 else 0)
     \<and> (tls_flags (cn_tls cn) AND NEED_EC_KEY \<noteq> 0) = ecdhe \<and> (tls_flags (cn_tls cn) AND ENCRYPTION_AESGCM \<noteq> 0) = gcm"

lemma flag_bits: "NEED_EC_KEY = 1" "ENCRYPTION_AESGCM = 32" "GOT_CERT_RSA_KEY_ALG = 2" "GOT_EC_KEY = 8"
  "GOT_EC_CURVE_X25519 = 16" "ENCRYPT_ON_WRITE = 64"
  by (simp_all add: NEED_EC_KEY_def ENCRYPTION_AESGCM_def GOT_CERT_RSA_KEY_ALG_def GOT_EC_KEY_def GOT_EC_CURVE_X25519_def
      ENCRYPT_ON_WRITE_def)

lemma select_cipher_suites:
  assumes "tls_flags (cn_tls cn) = 0" and "cn_IV_size cn = 0"
  shows "list_all (\<lambda>(c0, c1, ecdhe, key_len, mac_len, gcm).
      has_suite (select_cipher env c0 c1 cn) ecdhe key_len mac_len gcm
      \<and> tls_cipher_id (cn_tls (select_cipher env c0 c1 cn)) = 0x100 * ucast c0 + ucast c1) (suites env)"
  using assms
  by (cases "te_tls_sha1 env") (simp_all add: suites_def select_cipher_def has_suite_def Let_def flag_bits word_le_nat_alt)

lemma select_cipher_suite:
  assumes "(c0, c1, ecdhe, key_len, mac_len, gcm) \<in> set (suites env)"
    and "tls_flags (cn_tls cn) = 0" and "cn_IV_size cn = 0"
  shows "has_suite (select_cipher env c0 c1 cn) ecdhe key_len mac_len gcm"
    and "tls_cipher_id (cn_tls (select_cipher env c0 c1 cn)) = 0x100 * ucast c0 + ucast c1"
  using select_cipher_suites [OF assms(2,3), of env] assms(1) by (auto simp: list_all_iff)

lemma ciphers_suites:
  assumes "\<not> te_allow_null env"
  shows "ciphers env = [0, word_of_nat (2 * (1 + length (suites env))), 0, 0xFF]
    @ concat (map (\<lambda>(c0, c1, _). [c0, c1]) (suites env)) @ [1, 0]"
  using assms by (cases "te_tls_sha1 env") (simp_all add: ciphers_def suites_def NUM_CIPHERS_def)

section \<open>The key block\<close>

definition tls_prf :: "nat \<Rightarrow> byte list \<Rightarrow> byte list \<Rightarrow> byte list \<Rightarrow> byte list" where
  "tls_prf n secret label seed = take n (P_hash (rfc2104_hmac sha256_digest secret) (label @ seed) n)"

lemma length_sha256_hmac: "length (rfc2104_hmac sha256_digest key m) = 32"
  by (rule mac_sha256.mac_length)

lemma length_sha256_P_hash: "length (P_hash (rfc2104_hmac sha256_digest key) seed n) = 32 * n"
  by (simp add: P_hash_def length_concat comp_def length_sha256_hmac sum_list_triv)

lemma length_tls_prf [simp]: "length (tls_prf n secret label seed) = n"
  by (simp add: tls_prf_def length_sha256_P_hash)

lemma prf_tls:
  assumes "sha256_shaNI_ok tgt" and "raw_pre pre" and "length secret \<le> 64"
  shows "prf_hmac_sha256 tgt ebx pre n secret label seed = Some (tls_prf n secret label seed)"
  using prf_code [OF assms, of n n] by (simp add: tls_prf_def)

definition master_secret :: "byte list \<Rightarrow> byte list \<Rightarrow> byte list \<Rightarrow> byte list" where
  "master_secret premaster client_random server_random = tls_prf 48 premaster (ascii ''master secret'') (client_random @ server_random)"

text \<open>
  The key material of RFC 5246, section 6.3: the key block is split into two MAC keys of \<open>M\<close> bytes, two
  encryption keys of \<open>K\<close> bytes and two implicit nonces of \<open>I\<close> bytes, client first.
\<close>

record key_material =
  km_client_MAC :: "byte list"
  km_server_MAC :: "byte list"
  km_client_key :: "byte list"
  km_server_key :: "byte list"
  km_client_IV :: "byte list"
  km_server_IV :: "byte list"

definition split_keys :: "nat \<Rightarrow> nat \<Rightarrow> nat \<Rightarrow> byte list \<Rightarrow> key_material" where
  "split_keys M K I kb = \<lparr>km_client_MAC = take M kb, km_server_MAC = mem_read kb M M,
     km_client_key = mem_read kb (2 * M) K, km_server_key = mem_read kb (2 * M + K) K,
     km_client_IV = mem_read kb (2 * M + 2 * K) I, km_server_IV = mem_read kb (2 * M + 2 * K + I) I\<rparr>"

definition key_material :: "nat \<Rightarrow> nat \<Rightarrow> nat \<Rightarrow> byte list \<Rightarrow> byte list \<Rightarrow> byte list \<Rightarrow> key_material" where
  "key_material M K I premaster client_random server_random =
     split_keys M K I (tls_prf (2 * (M + K + I)) (master_secret premaster client_random server_random)
       (ascii ''key expansion'') (server_random @ client_random))"

lemma key_material_lengths:
  "length (km_client_MAC (key_material M K I pm c s)) = M" "length (km_client_key (key_material M K I pm c s)) = K"
  "length (km_server_key (key_material M K I pm c s)) = K" "length (km_client_IV (key_material M K I pm c s)) = I"
  "length (km_server_IV (key_material M K I pm c s)) = I"
  by (simp_all add: key_material_def split_keys_def)

lemma mem_read_written_part:
  "off + n \<le> length xs \<Longrightarrow> length xs \<le> length buf \<Longrightarrow> mem_read (mem_write buf 0 xs) off n = mem_read xs off n"
  by (simp add: mem_read_def mem_write_def)

lemma derive_keys_material:
  fixes cn :: tls_conn
  defines "M \<equiv> tls_MAC_size (cn_tls cn)" and "K \<equiv> cn_key_size cn" and "I \<equiv> cn_IV_size cn"
  assumes hash: "sha256_shaNI_ok (te_target env)" "raw_pre (te_pre env)" and pm: "length premaster \<le> 64"
    and room: "length (tls_client_write_MAC_key (cn_tls cn)) = 32" "2 * (M + K + I) \<le> 136" and mac: "M \<le> 32"
    and rand: "cn_rand32 cn = client_random @ server_random" "length client_random = 32" "length server_random = 32"
    and km: "km = key_material M K I premaster client_random server_random"
  shows "\<exists>mac_keys. length mac_keys = 32 \<and> take M mac_keys = km_client_MAC km
    \<and> derive_keys env premaster cn = Inr (cn\<lparr>
        cn_master_secret := master_secret premaster client_random server_random,
        cn_tls := (cn_tls cn)\<lparr>tls_client_write_MAC_key := mac_keys,
          tls_client_write_IV := km_client_IV km, tls_server_write_IV := km_server_IV km,
          tls_aes_decrypt := aes_setkey (km_server_key km), tls_aes_encrypt := aes_setkey (km_client_key km),
          tls_H := aes_encrypt_one_block (aes_setkey (km_client_key km)) (replicate 16 0)\<rparr>\<rparr>)"
proof -
  define ms where "ms = master_secret premaster client_random server_random"
  define kb where "kb = tls_prf (2 * (M + K + I)) ms (ascii ''key expansion'') (server_random @ client_random)"
  let ?buf = "tls_client_write_MAC_key (cn_tls cn) @ replicate 104 0"
  let ?keys = "mem_write ?buf 0 kb"
  have kb: "length kb = 2 * (M + K + I)" by (simp add: kb_def)
  have fits: "length kb \<le> length ?buf" using kb room by simp
  have part: "mem_read ?keys off n = mem_read kb off n" if "off + n \<le> length kb" for off n
    by (rule mem_read_written_part [OF that fits])
  have km': "km = split_keys M K I kb" by (simp add: km key_material_def kb_def ms_def)
  have first: "take M ?keys = km_client_MAC km" using kb part [of 0 M] by (simp add: km' split_keys_def mem_read_def)
  have parts: "mem_read ?keys (2 * M) K = km_client_key km" "mem_read ?keys (2 * M + K) K = km_server_key km"
      "mem_read ?keys (2 * M + K + K) I = km_client_IV km" "mem_read ?keys (2 * M + K + K + I) I = km_server_IV km"
    using kb by (simp_all add: part km' split_keys_def algebra_simps)
  have prf1: "prf_hmac_sha256 (te_target env) (te_ebx env) (te_pre env) 48 premaster (ascii ''master secret'') (cn_rand32 cn) = Some ms"
    unfolding ms_def master_secret_def rand(1) by (rule prf_tls [OF hash pm])
  have prf2: "prf_hmac_sha256 (te_target env) (te_ebx env) (te_pre env) (2 * (M + K + I)) ms (ascii ''key expansion'')
      (drop 32 (cn_rand32 cn) @ take 32 (cn_rand32 cn)) = Some kb"
    using prf_tls [OF hash, of ms] rand by (simp add: kb_def ms_def master_secret_def)
  have "derive_keys env premaster cn = Inr (cn\<lparr>cn_master_secret := ms,
        cn_tls := (cn_tls cn)\<lparr>tls_client_write_MAC_key := take 32 ?keys,
          tls_client_write_IV := km_client_IV km, tls_server_write_IV := km_server_IV km,
          tls_aes_decrypt := aes_setkey (km_server_key km), tls_aes_encrypt := aes_setkey (km_client_key km),
          tls_H := aes_encrypt_one_block (aes_setkey (km_client_key km)) (replicate 16 0)\<rparr>\<rparr>)"
    unfolding derive_keys_def Let_def prf1 option.case M_def [symmetric] K_def [symmetric] I_def [symmetric] prf2
    using parts by simp
  moreover have "length (take 32 ?keys) = 32" "take M (take 32 ?keys) = km_client_MAC km"
    using fits room(1) first mac by (simp_all add: min_def)
  ultimately show ?thesis unfolding ms_def by blast
qed

lemma suite_shapes:
  "list_all (\<lambda>(c0, c1, ecdhe, K, M, gcm). (K = 16 \<or> K = 32) \<and> (if gcm then M = 0 else M = 32 \<or> te_tls_sha1 env \<and> M = 20)
     \<and> (0x100 * ucast c0 + ucast c1 :: u16) \<noteq> TLS_RSA_WITH_NULL_SHA256) (suites env)"
  by (cases "te_tls_sha1 env") (simp_all add: suites_def TLS_RSA_WITH_NULL_SHA256_def)

lemma suite_shape:
  assumes "(c0, c1, ecdhe, K, M, gcm) \<in> set (suites env)"
  shows "K = 16 \<or> K = 32" "if gcm then M = 0 else M = 32 \<or> te_tls_sha1 env \<and> M = 20"
    "(0x100 * ucast c0 + ucast c1 :: u16) \<noteq> TLS_RSA_WITH_NULL_SHA256"
  using suite_shapes [of env] assms by (auto simp: list_all_iff)

section \<open>Properties\<close>

text \<open>C31: The parameters of a cipher suite: the list in the \<^verbatim>\<open>ClientHello\<close> holds, after the marker of RFC
  5746, exactly the suites of the table, each with a two-byte id, and when the server chooses one of
  them the client takes the key exchange, the AES key length, the MAC length, the length of the
  implicit nonce and the mode that the registry gives it.\<close>

theorem handshake_cipher_parameters:
  assumes "\<not> te_allow_null env" and "(c0, c1, ecdhe, K, M, gcm) \<in> set (suites env)"
    and "tls_flags (cn_tls cn) = 0" and "cn_IV_size cn = 0"
  shows "ciphers env = [0, word_of_nat (2 * (1 + length (suites env))), 0, 0xFF]
      @ concat (map (\<lambda>(c0, c1, _). [c0, c1]) (suites env)) @ [1, 0]
    \<and> has_suite (select_cipher env c0 c1 cn) ecdhe K M gcm
    \<and> tls_cipher_id (cn_tls (select_cipher env c0 c1 cn)) = 0x100 * ucast c0 + ucast c1"
  using ciphers_suites [OF assms(1)] select_cipher_suite [OF assms(2-4)] by simp

theorem handshake_cipher_parameters_witness:
  "has_suite (select_cipher demo_env 0xC0 0x14 new_tls_state) True 32 20 False"
  using handshake_cipher_parameters [of demo_env "0xC0" "0x14" True 32 20 False new_tls_state]
  by (simp add: demo_env_def suites_def new_tls_state_def)

end
