(* ===== verification/Tls_Sp_Value.thy ===== *)
theory Tls_Sp_Value
  imports Tls_Sp
begin

text \<open>
  The numbers that the arrays of \<^verbatim>\<open>tls_sp_c32.c\<close> hold, and what the operations of Tls_Sp do
  with them: comparison, sum, difference, product, half, and the sum and the difference with a
  correction by the prime.
\<close>

section \<open>Values\<close>

fun wval :: "'a :: len word list \<Rightarrow> int" where
  "wval [] = 0"
| "wval (w # ws) = uint w + 2 ^ LENGTH('a) * wval ws"

definition p256 :: int where "p256 = 2 ^ 256 - 2 ^ 224 + 2 ^ 192 + 2 ^ 96 - 1"

lemma wval_append: "wval (xs @ ys) = wval xs + 2 ^ (LENGTH('a) * length xs) * wval ys" for xs :: "'a :: len word list"
  by (induction xs) (simp_all add: algebra_simps power_add)

lemma wval_ge [simp]: "0 \<le> wval xs" by (induction xs) simp_all

lemma wval_less: "wval xs < 2 ^ (LENGTH('a) * length xs)" for xs :: "'a :: len word list"
proof (induction xs)
  case (Cons w ws)
  have "uint w < 2 ^ LENGTH('a)" by (rule uint_lt2p)
  moreover have "2 ^ LENGTH('a) * (wval ws + 1) \<le> 2 ^ LENGTH('a) * 2 ^ (LENGTH('a) * length ws)"
    using Cons by (intro mult_left_mono) simp_all
  ultimately have "wval (w # ws) < 2 ^ LENGTH('a) * 2 ^ (LENGTH('a) * length ws)"
    unfolding wval.simps distrib_left by linarith
  then show ?case by (simp add: power_add)
qed simp

lemma wval_less_256: "length xs = 8 \<Longrightarrow> wval xs < 2 ^ 256" for xs :: "u32 list"
  using wval_less [of xs] by simp

lemma wval_take_drop: "n \<le> length xs \<Longrightarrow> wval xs = wval (take n xs) + 2 ^ (LENGTH('a) * n) * wval (drop n xs)"
  for xs :: "'a :: len word list"
  using wval_append [of "take n xs" "drop n xs"] by simp

lemma wval_take_Suc: "n < length xs \<Longrightarrow> wval (take (Suc n) xs) = wval (take n xs) + 2 ^ (LENGTH('a) * n) * uint (xs ! n)"
  for xs :: "'a :: len word list"
  by (simp add: take_Suc_conv_app_nth wval_append)

lemma wval_sum: "wval xs = (\<Sum>i < length xs. uint (xs ! i) * 2 ^ (LENGTH('a) * i))" for xs :: "'a :: len word list"
  by (induction xs) (simp_all add: sum.lessThan_Suc_shift sum_distrib_left power_add algebra_simps del: sum.lessThan_Suc)

lemma wval_inject: "length xs = length ys \<Longrightarrow> wval xs = wval ys \<longleftrightarrow> xs = ys" for xs :: "'a :: len word list"
proof (induction xs ys rule: list_induct2)
  case (Cons x xs y ys)
  have "uint x = uint y \<and> wval xs = wval ys" if e: "wval (x # xs) = wval (y # ys)"
  proof
    have "wval (x # xs) mod 2 ^ LENGTH('a) = wval (y # ys) mod 2 ^ LENGTH('a)" using e by simp
    then show "uint x = uint y" by (simp add: mod_mult_self2)
    then show "wval xs = wval ys" using e by simp
  qed
  then show ?case using Cons.IH by (auto simp: word_uint_eq_iff)
qed simp

lemma wval_replicate_zero [simp]: "wval (replicate n 0) = 0" by (induction n) simp_all

lemma length_p256_mod [simp]: "length p256_mod = 8" by (simp add: p256_mod_def)

lemma wval_p256_mod: "wval p256_mod = p256" by (simp add: p256_mod_def p256_def)

section \<open>Comparing, adding, subtracting\<close>

lemma cmp_loop_value:
  assumes "n \<le> length a" and "n \<le> length b"
  shows "cmp_loop a b (rev [0..<n]) = sgn (wval (take n a) - wval (take n b))"
  using assms
proof (induction n)
  case (Suc n)
  have u: "wval (take n xs) < 2 ^ (LENGTH('a) * n)" if "Suc n \<le> length xs" for xs :: "'a :: len word list"
    using wval_less [of "take n xs"] that by simp
  note v = wval_take_Suc [of n a] wval_take_Suc [of n b]
  show ?case
  proof (cases "a ! n = b ! n")
    case True
    then show ?thesis using Suc v by simp
  next
    case False
    define A B where "A = uint (a ! n)" and "B = uint (b ! n)"
    define P :: int where "P = 2 ^ (LENGTH('a) * n)"
    have "P > 0" by (simp add: P_def)
    have less: "x + P * X < y + P * Y" if "X < Y" "x < P" "0 \<le> y" for x y X Y :: int
    proof -
      have "P * (X + 1) \<le> P * Y" using that \<open>P > 0\<close> by (intro mult_left_mono) simp_all
      then show ?thesis using that by (simp add: distrib_left)
    qed
    have "A \<noteq> B" using False by (simp add: A_def B_def word_uint_eq_iff)
    then consider "A < B" | "B < A" by linarith
    then show ?thesis
    proof cases
      case 1
      then have "wval (take (Suc n) a) < wval (take (Suc n) b)"
        using less [of A B "wval (take n a)" "wval (take n b)"] u [of a] v Suc.prems by (simp add: A_def B_def P_def)
      then show ?thesis using 1 False by (simp add: A_def B_def word_less_def)
    next
      case 2
      then have "wval (take (Suc n) b) < wval (take (Suc n) a)"
        using less [of B A "wval (take n b)" "wval (take n a)"] u [of b] v Suc.prems by (simp add: A_def B_def P_def)
      then show ?thesis using 2 False by (simp add: A_def B_def word_less_def)
    qed
  qed
qed simp

lemma sp_256_cmp_8_sgn: "length a = 8 \<Longrightarrow> length b = 8 \<Longrightarrow> sp_256_cmp_8 a b = sgn (wval a - wval b)"
  unfolding sp_256_cmp_8_def by (subst cmp_loop_value) simp_all

lemma sp_256_cmp_equal_8_iff: "length a = 8 \<Longrightarrow> length b = 8 \<Longrightarrow> sp_256_cmp_equal_8 a b \<longleftrightarrow> a = b"
  by (simp add: sp_256_cmp_equal_8_def sp_256_cmp_8_sgn sgn_0_0 wval_inject)

lemma uint_add_wrap: "uint (x + y :: 'a :: len word) = (if uint x + uint y < 2 ^ LENGTH('a) then uint x + uint y else uint x + uint y - 2 ^ LENGTH('a))"
  by (simp add: uint_plus_if')

lemma uint_sub_wrap: "uint (x - y :: 'a :: len word) = (if uint y \<le> uint x then uint x - uint y else uint x - uint y + 2 ^ LENGTH('a))"
  by (simp add: uint_sub_if')

lemma add_digit:
  fixes x y c :: u32
  assumes "c = of_bool C" and "w = y + c" and "v = (if w \<noteq> 0 then x + w else x)"
    and "C' \<longleftrightarrow> (if w \<noteq> 0 then x + w < x else C)"
  shows "uint v + 2 ^ 32 * of_bool C' = uint x + uint y + of_bool C"
  using assms uint_lt2p [of x] uint_lt2p [of y]
  by (cases C; auto simp: word_less_def uint_add_wrap word_uint_eq_iff split: if_splits; use uint_ge_0 [of y] in linarith)

lemma sub_digit:
  fixes x y c :: u32
  assumes "c = of_bool C" and "w = y + c" and "v = (if w \<noteq> 0 then x - w else x)"
    and "C' \<longleftrightarrow> (if w \<noteq> 0 then x - w > x else C)"
  shows "uint v - 2 ^ 32 * of_bool C' = uint x - uint y - of_bool C"
  using assms uint_lt2p [of x] uint_lt2p [of y]
  by (cases C; auto simp: word_less_def uint_add_wrap uint_sub_wrap word_uint_eq_iff split: if_splits; use uint_ge_0 [of y] in linarith)

lemma add_loop_value:
  assumes "i + n \<le> length a" and "i + n \<le> length b" and "add_loop a b [i..<i + n] (of_bool C) = (r, c)"
  shows "length r = n \<and> (\<exists>C'. c = of_bool C' \<and>
    wval r + 2 ^ (32 * n) * of_bool C' = wval (take n (drop i a)) + wval (take n (drop i b)) + of_bool C)"
  using assms
proof (induction n arbitrary: i C r)
  case 0
  then show ?case by (intro conjI exI [of _ C]) simp_all
next
  case (Suc n)
  let ?w = "b ! i + of_bool C"
  define v where "v = (if ?w \<noteq> 0 then a ! i + ?w else a ! i)"
  define D where "D \<longleftrightarrow> (if ?w \<noteq> 0 then a ! i + ?w < a ! i else C)"
  have d: "uint v + 2 ^ 32 * of_bool D = uint (a ! i) + uint (b ! i) + of_bool C"
    by (rule add_digit [OF refl refl v_def D_def])
  obtain r' where r: "r = v # r'" "add_loop a b [Suc i..<Suc i + n] (of_bool D) = (r', c)"
    using Suc.prems(3) by (auto simp: upt_conv_Cons Let_def v_def D_def split: prod.splits if_splits simp del: upt_Suc)
  then obtain C' where c: "length r' = n" "c = of_bool C'"
    "wval r' + 2 ^ (32 * n) * of_bool C' = wval (take n (drop (Suc i) a)) + wval (take n (drop (Suc i) b)) + of_bool D"
    using Suc.IH [OF _ _ r(2)] Suc.prems by auto
  have "take (Suc n) (drop i xs) = xs ! i # take n (drop (Suc i) xs)" if "i + Suc n \<le> length xs" for xs :: "u32 list"
    using that by (simp add: Cons_nth_drop_Suc [symmetric])
  then show ?case using c d r Suc.prems
    by (auto simp: power_add algebra_simps intro!: exI [of _ C'])
qed

lemma sub_loop_value:
  assumes "i + n \<le> length a" and "i + n \<le> length b" and "sub_loop a b [i..<i + n] (of_bool C) = (r, c)"
  shows "length r = n \<and> (\<exists>C'. c = of_bool C' \<and>
    wval r - 2 ^ (32 * n) * of_bool C' = wval (take n (drop i a)) - wval (take n (drop i b)) - of_bool C)"
  using assms
proof (induction n arbitrary: i C r)
  case 0
  then show ?case by (intro conjI exI [of _ C]) simp_all
next
  case (Suc n)
  let ?w = "b ! i + of_bool C"
  define v where "v = (if ?w \<noteq> 0 then a ! i - ?w else a ! i)"
  define D where "D \<longleftrightarrow> (if ?w \<noteq> 0 then a ! i - ?w > a ! i else C)"
  have d: "uint v - 2 ^ 32 * of_bool D = uint (a ! i) - uint (b ! i) - of_bool C"
    by (rule sub_digit [OF refl refl v_def D_def])
  obtain r' where r: "r = v # r'" "sub_loop a b [Suc i..<Suc i + n] (of_bool D) = (r', c)"
    using Suc.prems(3) by (auto simp: upt_conv_Cons Let_def v_def D_def split: prod.splits if_splits simp del: upt_Suc)
  then obtain C' where c: "length r' = n" "c = of_bool C'"
    "wval r' - 2 ^ (32 * n) * of_bool C' = wval (take n (drop (Suc i) a)) - wval (take n (drop (Suc i) b)) - of_bool D"
    using Suc.IH [OF _ _ r(2)] Suc.prems by auto
  have "take (Suc n) (drop i xs) = xs ! i # take n (drop (Suc i) xs)" if "i + Suc n \<le> length xs" for xs :: "u32 list"
    using that by (simp add: Cons_nth_drop_Suc [symmetric])
  then show ?case using c d r Suc.prems
    by (auto simp: power_add algebra_simps intro!: exI [of _ C'])
qed

lemma sp_256_add_8_value:
  assumes "length a = 8" and "length b = 8" and "sp_256_add_8 a b = (r, c)"
  shows "length r = 8" and "c = of_bool (wval a + wval b \<ge> 2 ^ 256)"
    and "wval r = (if wval a + wval b \<ge> 2 ^ 256 then wval a + wval b - 2 ^ 256 else wval a + wval b)"
proof -
  have "add_loop a b [0..<0 + 8] (of_bool False) = (r, c)" using assms(3) by (simp add: sp_256_add_8_def)
  from add_loop_value [OF _ _ this] obtain C' where r: "length r = 8" "c = of_bool C'"
    "wval r + 2 ^ 256 * of_bool C' = wval a + wval b" using assms(1,2) by auto
  have "wval r < 2 ^ 256" by (rule wval_less_256 [OF r(1)])
  then have "C' \<longleftrightarrow> wval a + wval b \<ge> 2 ^ 256" using r(3) by (cases C') (simp_all flip: r(3))
  then show "length r = 8" "c = of_bool (wval a + wval b \<ge> 2 ^ 256)"
    "wval r = (if wval a + wval b \<ge> 2 ^ 256 then wval a + wval b - 2 ^ 256 else wval a + wval b)"
    using r by auto
qed

lemma sp_256_sub_8_value:
  assumes "length a = 8" and "length b = 8" and "sp_256_sub_8 a b = (r, c)"
  shows "length r = 8" and "c = of_bool (wval a < wval b)"
    and "wval r = (if wval a < wval b then wval a - wval b + 2 ^ 256 else wval a - wval b)"
proof -
  have "sub_loop a b [0..<0 + 8] (of_bool False) = (r, c)" using assms(3) by (simp add: sp_256_sub_8_def)
  from sub_loop_value [OF _ _ this] obtain C' where r: "length r = 8" "c = of_bool C'"
    "wval r - 2 ^ 256 * of_bool C' = wval a - wval b" using assms(1,2) by auto
  have "wval r < 2 ^ 256" by (rule wval_less_256 [OF r(1)])
  then have "C' \<longleftrightarrow> wval a < wval b" using r(3) wval_ge [of r] by (cases C') auto
  then show "length r = 8" "c = of_bool (wval a < wval b)"
    "wval r = (if wval a < wval b then wval a - wval b + 2 ^ 256 else wval a - wval b)"
    using r by auto
qed

section \<open>Multiplying\<close>

lemma uint_ucast_32_64: "uint (ucast (x :: u32) :: u64) = uint x"
  using uint_lt2p [of x] by (simp add: unsigned_ucast_eq take_bit_int_eq_self)

lemma uint_ucast_64_32: "uint (ucast (x :: u64) :: u32) = uint x mod 2 ^ 32"
  by (simp add: unsigned_ucast_eq take_bit_eq_mod)

lemma uint_shift32: "uint (drop_bit 32 (x :: u64)) = uint x div 2 ^ 32"
  by (simp add: drop_bit_eq_div uint_div)

lemma mult_digits: "uint (x :: u32) * uint (y :: u32) \<le> (2 ^ 32 - 1) * (2 ^ 32 - 1)"
  using uint_lt2p [of x] uint_lt2p [of y] by (intro mult_mono) simp_all

lemma uint_mult_digits: "uint (ucast (x :: u32) * ucast (y :: u32) :: u64) = uint x * uint y"
  using mult_digits [of x y] by (simp add: uint_word_ariths uint_ucast_32_64)

lemma column_fold:
  assumes "uint hi + int (length is) < 2 ^ 32"
    and "fold (\<lambda>i (acc, acc_hi).
            let m = ucast (a ! i) * ucast (b ! (k - i));
                acc = acc + m
            in (acc, if acc < m then acc_hi + 1 else acc_hi)) is (acc, hi :: u32) = (acc', hi')"
  shows "uint (acc' :: u64) + 2 ^ 64 * uint hi' = uint acc + 2 ^ 64 * uint hi + (\<Sum>i\<leftarrow>is. uint (a ! i :: u32) * uint (b ! (k - i) :: u32))"
  using assms
proof (induction "is" arbitrary: acc hi)
  case (Cons i "is")
  define m :: u64 where "m = ucast (a ! i) * ucast (b ! (k - i))"
  define h where "h = (if acc + m < m then hi + 1 else hi)"
  have m: "uint m = uint (a ! i) * uint (b ! (k - i))" by (simp add: m_def uint_mult_digits)
  have h: "uint h = uint hi + of_bool (acc + m < m)" using Cons.prems(1) by (simp add: h_def uint_add_wrap)
  have "uint acc' + 2 ^ 64 * uint hi' = uint (acc + m) + 2 ^ 64 * uint h + (\<Sum>i\<leftarrow>is. uint (a ! i) * uint (b ! (k - i)))"
    using Cons.IH [of h "acc + m"] Cons.prems h by (auto simp: Let_def m_def h_def)
  moreover have "uint (acc + m) + 2 ^ 64 * uint h = uint acc + 2 ^ 64 * uint hi + uint m"
    using uint_lt2p [of acc] uint_lt2p [of m] by (auto simp: h word_less_def uint_add_wrap)
  ultimately show ?case by (simp add: m)
qed simp

definition column :: "u32 list \<Rightarrow> u32 list \<Rightarrow> nat \<Rightarrow> int" where
  "column a b k = (\<Sum>i \<in> {k - 7..<min 8 (k + 1)}. uint (a ! i) * uint (b ! (k - i)))"

lemma column_sum_value:
  assumes "column_sum a b k acc = (acc', hi)"
  shows "uint acc' + 2 ^ 64 * uint hi = uint acc + column a b k"
proof -
  have "length [k - 7..<min 8 (k + 1)] \<le> 8" unfolding length_upt by linarith
  then have "uint (0 :: u32) + int (length [k - 7..<min 8 (k + 1)]) < 2 ^ 32" by (simp del: length_upt)
  from column_fold [OF this assms [unfolded column_sum_def]] show ?thesis
    unfolding column_def interv_sum_list_conv_sum_set_nat set_upt by (simp only: uint_0_eq mult_zero_right add_0_right)
qed

lemma shift_column:
  "uint (drop_bit 32 acc OR push_bit 32 (ucast hi) :: u64) = (uint acc + 2 ^ 64 * uint hi) div 2 ^ 32" for hi :: u32
proof -
  have "drop_bit 32 acc OR push_bit 32 (ucast hi) = drop_bit 32 acc + (push_bit 32 (ucast hi) :: u64)"
    by (rule disjunctive_add [symmetric]) (auto simp: bit_simps dest: bit_imp_le_length)
  moreover have "uint (push_bit 32 (ucast hi) :: u64) = 2 ^ 32 * uint hi"
    using uint_lt2p [of hi] by (simp add: push_bit_eq_mult uint_word_ariths uint_ucast_32_64)
  moreover have "uint acc div 2 ^ 32 < 2 ^ 32" using uint_lt2p [of acc] by simp
  moreover have "2 ^ 32 * uint hi \<le> 2 ^ 32 * (2 ^ 32 - 1)" using uint_lt2p [of hi] by simp
  ultimately show ?thesis by (simp add: uint_add_wrap uint_shift32)
qed

lemma mul_loop_value:
  assumes "mul_loop a b [k..<k + n] acc = (r, acc')"
  shows "length r = n \<and> wval r + 2 ^ (32 * n) * uint acc' = uint acc + (\<Sum>j < n. column a b (k + j) * 2 ^ (32 * j))"
  using assms
proof (induction n arbitrary: k acc r)
  case (Suc n)
  obtain s hi where s: "column_sum a b k acc = (s, hi)" by fastforce
  let ?acc = "drop_bit 32 s OR push_bit 32 (ucast hi) :: u64"
  obtain r' where r: "r = ucast s # r'" "mul_loop a b [Suc k..<Suc k + n] ?acc = (r', acc')"
    using Suc.prems s by (auto simp: upt_conv_Cons split: prod.splits simp del: upt_Suc)
  define S where "S = (\<Sum>j < n. column a b (Suc k + j) * 2 ^ (32 * j))"
  define T where "T = uint acc + column a b k"
  have T: "uint s + 2 ^ 64 * uint hi = T" using column_sum_value [OF s] by (simp add: T_def)
  have ih: "length r' = n" "wval r' + 2 ^ (32 * n) * uint acc' = T div 2 ^ 32 + S"
    using Suc.IH [OF r(2)] unfolding shift_column T S_def by simp_all
  have "T = uint s + 2 ^ 32 * (2 ^ 32 * uint hi)" using T by simp
  then have "uint (ucast s :: u32) = T mod 2 ^ 32" unfolding uint_ucast_64_32 by (simp only: mod_mult_self2)
  moreover have "wval r + 2 ^ (32 * Suc n) * uint acc' = uint (ucast s :: u32) + 2 ^ 32 * (wval r' + 2 ^ (32 * n) * uint acc')"
    by (simp add: r power_add algebra_simps)
  ultimately have "wval r + 2 ^ (32 * Suc n) * uint acc' = T mod 2 ^ 32 + 2 ^ 32 * (T div 2 ^ 32) + 2 ^ 32 * S"
    unfolding ih(2) by (simp add: distrib_left)
  then have "wval r + 2 ^ (32 * Suc n) * uint acc' = T + 2 ^ 32 * S" by (metis mod_mult_div_eq)
  moreover have "(\<Sum>j < Suc n. column a b (k + j) * 2 ^ (32 * j)) = column a b k + 2 ^ 32 * S"
    by (simp add: S_def sum.lessThan_Suc_shift sum_distrib_left power_add mult.left_commute del: sum.lessThan_Suc)
  ultimately show ?case using ih(1) r by (simp add: T_def)
qed simp

lemma columns_product:
  assumes "length a = 8" and "length b = 8"
  shows "(\<Sum>k < 15. column a b k * 2 ^ (32 * k)) = wval a * wval b"
proof -
  let ?f = "\<lambda>i j. uint (a ! i) * uint (b ! j) * 2 ^ (32 * (i + j))"
  have "(\<Sum>k < 15. column a b k * 2 ^ (32 * k))
      = (\<Sum>k < 15. \<Sum>i \<in> {k - 7..<min 8 (k + 1)}. ?f i (k - i))"
    unfolding column_def sum_distrib_right by (intro sum.cong refl) auto
  also have "\<dots> = (\<Sum>(k, i) \<in> (SIGMA k : {..<15}. {k - 7..<min 8 (k + 1)}). ?f i (k - i))"
    by (rule sum.Sigma) auto
  also have "\<dots> = (\<Sum>(i, j) \<in> {..<8} \<times> {..<8}. ?f i j)"
    by (rule sum.reindex_bij_witness [where i = "\<lambda>(i, j). (i + j, i)" and j = "\<lambda>(k, i). (i, k - i)"]) auto
  also have "\<dots> = (\<Sum>i < 8. \<Sum>j < 8. ?f i j)"
    by (rule sum.cartesian_product [symmetric])
  also have "\<dots> = wval a * wval b"
    unfolding wval_sum sum_product assms
    by (intro sum.cong refl) (simp add: power_add distrib_left mult_ac)
  finally show ?thesis .
qed

lemma sp_256to512_mul_8_value:
  assumes "length a = 8" and "length b = 8"
  shows "length (sp_256to512_mul_8 a b) = 16" and "wval (sp_256to512_mul_8 a b) = wval a * wval b"
proof -
  obtain r acc where l: "mul_loop a b [0..<0 + 15] 0 = (r, acc)" by fastforce
  from mul_loop_value [OF this] have r: "length r = 15" "wval r + 2 ^ 480 * uint acc = wval a * wval b"
    using columns_product [OF assms] by simp_all
  have "wval a * wval b < 2 ^ 256 * 2 ^ 256"
    using wval_less_256 assms by (intro mult_strict_mono) simp_all
  then have "2 ^ 480 * uint acc < 2 ^ 256 * 2 ^ 256" using r(2) wval_ge [of r] by linarith
  then have "uint acc < 2 ^ 32" by simp
  then have "wval (r @ [ucast acc]) = wval r + 2 ^ 480 * uint acc" using r(1) by (simp add: wval_append uint_ucast_64_32)
  then show "length (sp_256to512_mul_8 a b) = 16" "wval (sp_256to512_mul_8 a b) = wval a * wval b"
    using l r by (simp_all add: sp_256to512_mul_8_def)
qed

section \<open>Halving\<close>

lemma shift_digit:
  assumes "LENGTH('a :: len) = Suc h"
  shows "uint (drop_bit 1 w OR push_bit h (of_bool C) :: 'a word) = uint w div 2 + 2 ^ h * of_bool C"
proof -
  have "drop_bit 1 w OR push_bit h (of_bool C) = drop_bit 1 w + (push_bit h (of_bool C) :: 'a word)"
    using assms by (intro disjunctive_add [symmetric]) (auto simp: bit_simps dest: bit_imp_le_length)
  moreover have "uint (drop_bit 1 w) = uint w div 2"
    unfolding unsigned_drop_bit_eq by (simp add: drop_bit_Suc take_bit_int_eq_self)
  moreover have "uint (push_bit h (of_bool C) :: 'a word) = 2 ^ h * of_bool C"
    unfolding unsigned_push_bit_eq using assms by (cases C) (simp_all add: push_bit_eq_mult take_bit_int_eq_self)
  moreover have "uint w div 2 < 2 ^ h" using uint_lt2p [of w] assms by simp
  ultimately have "uint (drop_bit 1 w OR push_bit h (of_bool C) :: 'a word) = (if uint w div 2 + 2 ^ h * of_bool C < 2 ^ Suc h
      then uint w div 2 + 2 ^ h * of_bool C else uint w div 2 + 2 ^ h * of_bool C - 2 ^ Suc h)"
    by (simp only: uint_add_wrap assms)
  moreover have "uint w div 2 + 2 ^ h * of_bool C < 2 ^ Suc h" 
    using \<open>uint w div 2 < 2 ^ h\<close> zero_less_power [of "2 :: int" h] by (cases C) (simp_all del: zero_less_power)
  ultimately show ?thesis by (simp only: if_True)
qed

lemma odd_uint: "odd (uint w) \<longleftrightarrow> odd (w :: 'a :: len word)"
  by (simp add: bit_uint_iff flip: bit_0)

lemma push_bit_odd:
  assumes "LENGTH('a :: len) = Suc h"
  shows "push_bit h (w :: 'a word) = push_bit h (of_bool (odd (uint w)))"
proof -
  have "odd (uint w) \<longleftrightarrow> bit w 0" by (simp add: odd_uint bit_0)
  moreover have "n - h = 0" if "n < Suc h" for n using that by simp
  ultimately show ?thesis using assms by (intro bit_word_eqI) (auto simp: bit_simps)
qed

lemma halve_digits:
  fixes R P w :: int
  shows "(R + P * (w mod 2)) div 2 + P * (w div 2 + 2 ^ h * c) = (R + P * (w + 2 ^ Suc h * c)) div 2"
proof -
  have "P * (w + 2 ^ Suc h * c) = P * (w mod 2) + 2 * (P * (w div 2 + 2 ^ h * c))"
  proof -
    have "w + 2 ^ Suc h * c = w mod 2 + 2 * (w div 2 + 2 ^ h * c)" by simp
    then show ?thesis by (simp only: distrib_left mult.left_commute)
  qed
  then have "R + P * (w + 2 ^ Suc h * c) = R + P * (w mod 2) + 2 * (P * (w div 2 + 2 ^ h * c))" by (simp only: add.assoc)
  then show ?thesis by simp
qed

lemma rshift_loop_value:
  fixes r :: "'a :: len word list"
  assumes "LENGTH('a) = Suc h" and "n \<le> length r"
  shows "length (rshift_loop h r (rev [0..<n]) (push_bit h (of_bool C))) = length r
    \<and> drop n (rshift_loop h r (rev [0..<n]) (push_bit h (of_bool C))) = drop n r
    \<and> wval (take n (rshift_loop h r (rev [0..<n]) (push_bit h (of_bool C)))) = (wval (take n r) + 2 ^ (LENGTH('a) * n) * of_bool C) div 2"
  using assms(2)
proof (induction n arbitrary: r C)
  case (Suc n)
  let ?D = "odd (uint (r ! n))" and ?v = "drop_bit 1 (r ! n) OR push_bit h (of_bool C)"
  let ?r' = "rshift_loop h (r[n := ?v]) (rev [0..<n]) (push_bit h (of_bool ?D))"
  have r': "rshift_loop h r (rev [0..<Suc n]) (push_bit h (of_bool C)) = ?r'" by (simp add: push_bit_odd [OF assms(1), of "r ! n"])
  have ih: "length ?r' = length r" "drop n ?r' = drop n (r[n := ?v])"
    "wval (take n ?r') = (wval (take n r) + 2 ^ (LENGTH('a) * n) * of_bool ?D) div 2"
    using Suc.IH [of "r[n := ?v]" ?D] Suc.prems by simp_all
  have n: "?r' ! n = ?v"
    using ih(1,2) Suc.prems by (metis Cons_nth_drop_Suc Suc_le_eq length_list_update list.inject nth_list_update_eq)
  have "uint (?r' ! n) = uint (r ! n) div 2 + 2 ^ h * of_bool C" unfolding n by (rule shift_digit [OF assms(1)])
  then have "wval (take (Suc n) ?r') = (wval (take n r) + 2 ^ (LENGTH('a) * n) * (uint (r ! n) mod 2)) div 2
      + 2 ^ (LENGTH('a) * n) * (uint (r ! n) div 2 + 2 ^ h * of_bool C)"
    using ih(1,3) Suc.prems by (simp add: wval_take_Suc mod_2_eq_odd)
  also have "\<dots> = (wval (take (Suc n) r) + 2 ^ (LENGTH('a) * Suc n) * of_bool C) div 2"
    unfolding halve_digits assms(1) [symmetric] using Suc.prems
    by (simp add: wval_take_Suc power_add distrib_left add.assoc mult.left_commute)
  finally have w: "wval (take (Suc n) ?r') = (wval (take (Suc n) r) + 2 ^ (LENGTH('a) * Suc n) * of_bool C) div 2" .
  have "drop (Suc n) ?r' = drop (Suc n) (r[n := ?v])" by (metis drop_Suc tl_drop ih(2))
  then show ?case unfolding r' using ih(1) w by (intro conjI) simp_all
qed simp

lemma rshift_words_value:
  fixes r :: "'a :: len word list"
  assumes "LENGTH('a) = Suc h" and "length r = n" and "LENGTH('a) * n = 256"
  shows "length (rshift_loop h r (rev [0..<n]) (push_bit h (of_bool C))) = n"
    and "wval (rshift_loop h r (rev [0..<n]) (push_bit h (of_bool C))) = (wval r + 2 ^ 256 * of_bool C) div 2"
proof -
  let ?s = "rshift_loop h r (rev [0..<n]) (push_bit h (of_bool C))"
  have *: "length ?s = length r" "wval (take n ?s) = (wval (take n r) + 2 ^ (LENGTH('a) * n) * of_bool C) div 2"
    using rshift_loop_value [OF assms(1), of n r C] assms(2) by (simp_all only: order_refl simp_thms)
  have "take n ?s = ?s" "take n r = r" using *(1) assms(2) by simp_all
  then show "length ?s = n" "wval ?s = (wval r + 2 ^ 256 * of_bool C) div 2"
    using * assms(2,3) by (simp_all only:)
qed

lemma sp_256_rshift1_8_value:
  assumes "length r = 8"
  shows "length (sp_256_rshift1_8 r c) = 8" and "wval (sp_256_rshift1_8 r c) = (wval r + 2 ^ 256 * of_bool (c \<noteq> 0)) div 2"
  unfolding sp_256_rshift1_8_def using assms by (intro rshift_words_value; simp)+

section \<open>Arithmetic modulo the prime\<close>

text \<open>The result of \<^verbatim>\<open>sp_256_sub_8_p256_mod\<close> is taken modulo \<open>2\<^sup>2\<^sup>5\<^sup>6\<close>.\<close>

lemma sp_256_sub_8_p256_mod_value:
  assumes "length r = 8"
  shows "length (sp_256_sub_8_p256_mod r) = 8"
    and "wval (sp_256_sub_8_p256_mod r) = (if wval r < p256 then wval r - p256 + 2 ^ 256 else wval r - p256)"
  using sp_256_sub_8_value [OF assms length_p256_mod prod.collapse [symmetric]]
  by (simp_all add: sp_256_sub_8_p256_mod_def wval_p256_mod)

definition mod_add :: "int \<Rightarrow> int \<Rightarrow> int" where
  "mod_add x y = (if x + y < 2 ^ 256 then x + y else (x + y - p256) mod 2 ^ 256)"

definition mod_sub :: "int \<Rightarrow> int \<Rightarrow> int" where
  "mod_sub x y = (if y \<le> x then x - y else (x - y + p256) mod 2 ^ 256)"

lemma sp_256_mont_add_8_value:
  assumes "length a = 8" and "length b = 8"
  shows "length (sp_256_mont_add_8 a b) = 8" and "wval (sp_256_mont_add_8 a b) = mod_add (wval a) (wval b)"
proof -
  obtain r c where r: "sp_256_add_8 a b = (r, c)" by fastforce
  note v = sp_256_add_8_value [OF assms r] and s = sp_256_sub_8_p256_mod_value [OF sp_256_add_8_value(1) [OF assms r]]
  have l: "wval a < 2 ^ 256" "wval b < 2 ^ 256" using assms by (simp_all only: wval_less_256)
  show "length (sp_256_mont_add_8 a b) = 8" using r v(1) s(1) by (simp add: sp_256_mont_add_8_def)
  have "wval (sp_256_sub_8_p256_mod r) = (wval a + wval b - p256) mod 2 ^ 256" if "wval a + wval b \<ge> 2 ^ 256"
  proof -
    have "(wval a + wval b - p256) mod 2 ^ 256 = (wval r - p256 + 2 ^ 256) mod 2 ^ 256" using v(3) [unfolded if_P [OF that]]
      by (intro arg_cong [where f = "\<lambda>x. x mod 2 ^ 256"]) linarith
    also have "\<dots> = wval (sp_256_sub_8_p256_mod r)"
    proof (cases "wval r < p256")
      case True
      then have "wval (sp_256_sub_8_p256_mod r) = wval r - p256 + 2 ^ 256" using s(2) by simp
      then show ?thesis using wval_less_256 [OF s(1)] wval_ge by (metis mod_pos_pos_trivial)
    next
      case False
      then have "wval (sp_256_sub_8_p256_mod r) = wval r - p256" using s(2) by simp
      then show ?thesis using wval_less_256 [OF s(1)] wval_ge by (metis mod_add_self2 mod_pos_pos_trivial)
    qed
    finally show ?thesis by simp
  qed
  then show "wval (sp_256_mont_add_8 a b) = mod_add (wval a) (wval b)"
    using r v by (simp add: sp_256_mont_add_8_def mod_add_def)
qed

lemma sp_256_mont_sub_8_value:
  assumes "length a = 8" and "length b = 8"
  shows "length (sp_256_mont_sub_8 a b) = 8" and "wval (sp_256_mont_sub_8 a b) = mod_sub (wval a) (wval b)"
proof -
  obtain r c where r: "sp_256_sub_8 a b = (r, c)" by fastforce
  obtain r' c' where r': "sp_256_add_8 r p256_mod = (r', c')" by fastforce
  note v = sp_256_sub_8_value [OF assms r]
  note s = sp_256_add_8_value [OF v(1) length_p256_mod r', unfolded wval_p256_mod]
  show "length (sp_256_mont_sub_8 a b) = 8" using r r' v(1) s(1) by (simp add: sp_256_mont_sub_8_def)
  have "wval r' = (wval a - wval b + p256) mod 2 ^ 256" if "wval a < wval b"
  proof -
    have "(wval a - wval b + p256) mod 2 ^ 256 = (wval r + p256 - 2 ^ 256) mod 2 ^ 256" using v(3) [unfolded if_P [OF that]]
      by (intro arg_cong [where f = "\<lambda>x. x mod 2 ^ 256"]) linarith
    also have "\<dots> = (wval r + p256) mod 2 ^ 256" by (metis minus_mod_self2)
    also have "\<dots> = wval r'" using s(3) wval_less_256 [OF s(1)] wval_ge [of r']
      by (cases "wval r + p256 \<ge> 2 ^ 256") (metis minus_mod_self2 mod_pos_pos_trivial)+
    finally show ?thesis by simp
  qed
  then show "wval (sp_256_mont_sub_8 a b) = mod_sub (wval a) (wval b)"
    using r r' v by (simp add: sp_256_mont_sub_8_def mod_sub_def)
qed

lemma sp_256_mont_dbl_8_add: "sp_256_mont_dbl_8 a = sp_256_mont_add_8 a a"
  by (simp add: sp_256_mont_dbl_8_def sp_256_mont_add_8_def)

lemma sp_256_mont_tpl_8_add: "sp_256_mont_tpl_8 a = sp_256_mont_add_8 (sp_256_mont_add_8 a a) a"
  by (simp add: sp_256_mont_tpl_8_def sp_256_mont_add_8_def Let_def split: prod.split)

lemma sp_256_div2_8_value:
  assumes "length r = 8"
  shows "length (sp_256_div2_8 r) = 8"
    and "wval (sp_256_div2_8 r) = (if odd (wval r) then (wval r + p256) div 2 else wval r div 2)"
proof -
  have "odd (uint (r ! 0)) \<longleftrightarrow> odd (wval r)" using assms by (cases r) simp_all
  then have bit: "r ! 0 AND 1 \<noteq> 0 \<longleftrightarrow> odd (wval r)"
    by (simp add: and_one_eq mod_2_eq_odd odd_uint)
  obtain r' c where r': "sp_256_add_8 r p256_mod = (r', c)" by fastforce
  note s = sp_256_add_8_value [OF assms length_p256_mod r', unfolded wval_p256_mod]
  note sh = sp_256_rshift1_8_value
  show "length (sp_256_div2_8 r) = 8" using sh(1) [OF s(1)] sh(1) [OF assms] r' by (simp add: sp_256_div2_8_def)
  have "wval (sp_256_rshift1_8 r' c) = (wval r + p256) div 2" using sh(2) [OF s(1), of c] s(2,3) by (auto split: if_splits)
  then show "wval (sp_256_div2_8 r) = (if odd (wval r) then (wval r + p256) div 2 else wval r div 2)"
    using sh(2) [OF assms, of 0] r' bit by (simp add: sp_256_div2_8_def)
qed

section \<open>Bytes\<close>

lemma uint_le_word: "8 * length bs \<le> LENGTH('a) \<Longrightarrow> uint (le_word bs :: 'a :: len word) = wval bs"
proof (induction bs)
  case (Cons b bs)
  have ih: "uint (le_word bs :: 'a word) = wval bs" using Cons by simp
  have L: "(2 :: int) ^ (8 + 8 * length bs) \<le> 2 ^ LENGTH('a)" using Cons.prems by (intro power_increasing) simp_all
  have "wval bs < 2 ^ (8 * length bs)" using wval_less [of bs] by simp
  then have "256 * (wval bs + 1) \<le> 256 * 2 ^ (8 * length bs)" by simp
  then have s: "256 * wval bs + 255 < 2 ^ LENGTH('a)" using L by (simp add: power_add)
  have d: "ucast b OR push_bit 8 (le_word bs :: 'a word) = ucast b + push_bit 8 (le_word bs)"
    by (intro disjunctive_add [symmetric]) (auto simp: bit_simps dest: bit_imp_le_length)
  have p: "uint (push_bit 8 (le_word bs) :: 'a word) = 256 * wval bs"
  proof -
    have "uint (push_bit 8 (le_word bs) :: 'a word) = take_bit LENGTH('a) (push_bit 8 (uint (le_word bs :: 'a word)))"
      by (simp add: unsigned_push_bit_eq)
    then show ?thesis unfolding ih using s by (simp add: push_bit_eq_mult take_bit_int_eq_self mult.commute)
  qed
  have u: "uint (ucast b :: 'a word) = uint b"
  proof -
    have "uint b < 256" using uint_lt2p [of b] by simp
    then have "uint b < 2 ^ LENGTH('a)" using s wval_ge [of bs] by linarith
    then show ?thesis by (simp add: unsigned_ucast_eq take_bit_int_eq_self)
  qed
  have "uint b \<le> 255" using uint_lt2p [of b] by simp
  then show ?case using d p u s by (simp add: uint_add_wrap)
qed simp

lemma wval_le_bytes: "LENGTH('a) = 8 * k \<Longrightarrow> wval (le_bytes k w) = uint (w :: 'a :: len word)"
  using uint_le_word [of "le_bytes k w", where 'a = 'a] le_word_le_bytes [of k w] by simp

lemma wval_words:
  assumes "\<And>bs. bs \<in> set bss \<Longrightarrow> length bs = k" and "LENGTH('a) = 8 * k"
  shows "wval (map le_word bss :: 'a :: len word list) = wval (concat bss)"
  using assms(1)
proof (induction bss)
  case (Cons bs bss)
  then show ?case using assms(2) uint_le_word [of bs, where 'a = 'a] by (simp add: wval_append)
qed simp

lemma wval_bytes_of_words:
  assumes "LENGTH('a) = 8 * k"
  shows "wval (concat (map (le_bytes k) ws)) = wval (ws :: 'a :: len word list)"
  by (induction ws) (simp_all add: wval_append wval_le_bytes [OF assms] assms)

lemma rev_concat_chunks: "concat (rev (map (\<lambda>i. rev (take k (drop (k * i) a))) [0..<n])) = rev (take (k * n) a)"
proof (induction n)
  case (Suc n)
  have "take (k * Suc n) a = take (k * n) a @ take k (drop (k * n) a)" using take_add [of "k * n" k a] by (simp add: add.commute)
  then show ?case using Suc by simp
qed simp

lemma length_chunk: "k * n \<le> length a \<Longrightarrow> i < n \<Longrightarrow> length (take k (drop (k * i) a)) = k"
proof -
  assume "k * n \<le> length a" "i < n"
  then have "k * Suc i \<le> length a" by (meson Suc_leI le_trans mult_le_mono2)
  then show ?thesis by simp
qed

text \<open>
  The conversions between bytes and words, for a byte swap \<open>swap\<close> of words of \<open>k\<close> bytes.
\<close>

lemma words_from_bin:
  fixes swap :: "'a :: len word \<Rightarrow> 'a word"
  assumes "LENGTH('a) = 8 * k" and "\<And>bs. length bs = k \<Longrightarrow> swap (le_word bs) = le_word (rev bs)" and "k * n \<le> length a"
  shows "wval (rev (map (\<lambda>i. swap (le_word (take k (drop (k * i) a)))) [0..<n])) = wval (rev (take (k * n) a))"
proof -
  let ?c = "\<lambda>i. take k (drop (k * i) a)"
  have "rev (map (\<lambda>i. swap (le_word (?c i))) [0..<n]) = map le_word (rev (map (\<lambda>i. rev (?c i)) [0..<n]))"
    using assms(2) length_chunk [OF assms(3)] by (simp add: rev_map)
  moreover have "length bs = k" if "bs \<in> set (rev (map (\<lambda>i. rev (?c i)) [0..<n]))" for bs
    using that length_chunk [OF assms(3)] by auto
  ultimately show ?thesis using wval_words [OF _ assms(1)] rev_concat_chunks [of k a n] by metis
qed

lemma words_to_bin:
  fixes swap :: "'a :: len word \<Rightarrow> 'a word"
  assumes "LENGTH('a) = 8 * k" and "\<And>w. le_bytes k (swap w) = rev (le_bytes k w)" and "length r = Suc n"
  shows "wval (rev (concat (map (\<lambda>i. le_bytes k (swap (r ! (n - i)))) [0..<Suc n]))) = wval r"
proof -
  have "map (\<lambda>i. r ! (n - i)) [0..<Suc n] = rev r"
    using assms(3) by (intro nth_equalityI) (simp_all add: rev_nth del: upt_Suc)
  then have m: "map (\<lambda>i. le_bytes k (swap (r ! (n - i)))) [0..<Suc n] = map (\<lambda>w. rev (le_bytes k w)) (rev r)"
    by (simp add: assms(2) flip: map_map [unfolded comp_def] del: upt_Suc) (metis (no_types, lifting) map_map comp_apply map_cong)
  show ?thesis unfolding m rev_concat using wval_bytes_of_words [OF assms(1), of r] by (simp add: rev_map comp_def)
qed

lemma sp_256_from_bin_8_value:
  assumes "32 \<le> length a"
  shows "length (sp_256_from_bin_8 a) = 8" and "wval (sp_256_from_bin_8 a) = wval (rev (take 32 a))"
  using words_from_bin [of 4 bswap32 8 a] bswap32_le_word assms by (simp_all add: sp_256_from_bin_8_def)

lemma sp_256_to_bin_8_value:
  assumes "length r = 8"
  shows "length (sp_256_to_bin_8 r) = 32" and "wval (rev (sp_256_to_bin_8 r)) = wval r"
  using words_to_bin [of 4 bswap32 r 7] le_bytes_bswap32 assms
  by (simp_all add: sp_256_to_bin_8_def length_concat comp_def sum_list_triv del: upt_Suc)

end
