(* ===== verification/Tls_Mont.thy ===== *)
theory Tls_Mont
  imports Tls_Sp_Value
begin

text \<open>
  Montgomery reduction. The locale \<open>mont_reduction\<close> has what the loop needs of the multiplication
  by the prime; it is interpreted here for words of 32 bits and in Tls_Sp_Le64 for words of 64 bits.
  Products, inverses and the conversion to Montgomery form refine numbers modulo the prime.
\<close>

section \<open>Montgomery reduction\<close>

lemma inc_next_word_value:
  "inc_next_word ws = (ws', c) \<Longrightarrow>
   length ws' = length ws \<and> uint c \<le> 1 \<and> wval ws' + 2 ^ (LENGTH('a) * length ws) * uint c = wval ws + 1"
  for ws :: "'a :: len word list"
proof (induction ws arbitrary: ws' c)
  case (Cons w ws)
  show ?case
  proof (cases "w + 1 = 0")
    case True
    obtain ws1 c1 where r: "inc_next_word ws = (ws1, c1)" by fastforce
    have "uint w + 1 = 2 ^ LENGTH('a)"
      using True uint_lt2p [of w] by (simp add: word_uint_eq_iff uint_add_wrap split: if_splits; use uint_ge_0 [of w] in linarith)
    moreover have "ws' = 0 # ws1" "c = c1" using Cons.prems True r by simp_all
    moreover have "2 ^ LENGTH('a) * (wval ws1 + 2 ^ (LENGTH('a) * length ws) * uint c1) = 2 ^ LENGTH('a) * (wval ws + 1)"
      using Cons.IH [OF r] by (simp only:)
    ultimately have "wval ws' + 2 ^ (LENGTH('a) * length (w # ws)) * uint c = wval (w # ws) + 1"
      by (simp add: power_add distrib_left mult.assoc del: mult_cancel_left)
    then show ?thesis using Cons.IH [OF r] \<open>ws' = 0 # ws1\<close> \<open>c = c1\<close> by simp
  next
    case False
    then have "uint (w + 1) = uint w + 1"
      using uint_lt2p [of w] by (auto simp: word_uint_eq_iff uint_add_wrap split: if_splits; use uint_lt2p [of w] in linarith)
    then show ?thesis using Cons.prems False by auto
  qed
qed simp

text \<open>
  What a pass of the reduction relies on: \<open>mul_add r i\<close> adds \<open>r ! i * (p + 1)\<close> at the word \<open>i\<close> of
  an array of \<open>2 * n\<close> words, leaves the words up to \<open>i\<close> and those past \<open>i + n\<close> alone, and
  reports the carry out of the word \<open>i + n\<close>.
\<close>

locale mont_reduction =
  fixes mul_add :: "'a :: len word list \<Rightarrow> nat \<Rightarrow> 'a word list \<times> bool" and n :: nat
  assumes width: "LENGTH('a) * n = 256"
    and mul_add: "length r = 2 * n \<Longrightarrow> i < n \<Longrightarrow> mul_add r i = (r', ov) \<Longrightarrow>
      length r' = 2 * n \<and> take (Suc i) r' = take (Suc i) r \<and> drop (i + n + 1) r' = drop (i + n + 1) r \<and>
      wval (take (i + n + 1) r') + 2 ^ (LENGTH('a) * (i + n + 1)) * of_bool ov
      = wval (take (i + n + 1) r) + 2 ^ (LENGTH('a) * i) * (uint (r ! i) * (p256 + 1))"
begin

lemma pass_value:
  assumes "length a = 2 * n" and "i < n" and "mont_reduce_pass mul_add n i (a, c) = (a', c')" and "uint c < 2 ^ 31"
  shows "length a' = 2 * n" and "take (Suc i) a' = take (Suc i) a" and "uint c' \<le> uint c + 1"
    and "wval a' + 2 ^ 512 * uint c' = wval a + 2 ^ 512 * uint c + 2 ^ (LENGTH('a) * i) * (uint (a ! i) * (p256 + 1))"
proof -
  let ?m = "i + n + 1" and ?P = "2 ^ (LENGTH('a) * (i + n + 1)) :: int"
  obtain r ov where r: "mul_add a i = (r, ov)" by fastforce
  note m = mul_add [OF assms(1,2) r]
  have P512: "?P * 2 ^ (LENGTH('a) * (n - i - 1)) = 2 ^ 512"
  proof -
    have "LENGTH('a) * ?m + LENGTH('a) * (n - i - 1) = LENGTH('a) * (n + n)"
      using assms(2) unfolding distrib_left [symmetric] by (intro arg_cong2 [where f = "(*)"]) simp_all
    then show ?thesis unfolding power_add [symmetric] using width by (simp only: distrib_left [of _ n n]) simp
  qed
  obtain ws d where w: "inc_next_word (drop ?m r) = (ws, d)" by fastforce
  note wv = inc_next_word_value [OF w]
  have lw: "length (drop ?m r) = n - i - 1" using m assms(1) by simp
  have a: "wval a = wval (take ?m a) + ?P * wval (drop ?m a)" "wval r = wval (take ?m r) + ?P * wval (drop ?m r)"
    using assms(1,2) m by (intro wval_take_drop; simp)+
  consider (ov) "ov" "a' = take ?m r @ ws" "c' = c + d" | (no) "\<not> ov" "a' = r" "c' = c"
    using assms(3) r w by (auto simp: mont_reduce_pass_def split: if_splits)
  then have *: "length a' = 2 * n \<and> take (Suc i) a' = take (Suc i) a \<and> uint c' \<le> uint c + 1
    \<and> wval a' + 2 ^ 512 * uint c' = wval a + 2 ^ 512 * uint c + 2 ^ (LENGTH('a) * i) * (uint (a ! i) * (p256 + 1))"
  proof cases
    case ov
    have c': "uint c' = uint c + uint d" using ov assms(4) wv by (auto simp: uint_add_wrap)
    have "length a' = 2 * n" using ov m wv assms(1,2) by simp
    moreover have "take (Suc i) a' = take (Suc i) a" using ov m assms(2) by simp
    moreover have "wval a' = wval (take ?m r) + ?P * wval ws"
      using ov m assms(2) by (simp add: wval_append)
    moreover have "?P * wval ws + 2 ^ 512 * uint d = ?P * wval (drop ?m r) + ?P"
    proof -
      have "?P * (wval ws + 2 ^ (LENGTH('a) * (n - i - 1)) * uint d) = ?P * (wval (drop ?m r) + 1)"
        using wv unfolding lw by (simp only:)
      then show ?thesis unfolding distrib_left P512 [symmetric] by (simp only: mult.assoc mult_1_right)
    qed
    ultimately show ?thesis using m a ov c' wv assms(1) by (simp add: distrib_left)
  next
    case no
    then show ?thesis using m a by simp
  qed
  then show "length a' = 2 * n" "take (Suc i) a' = take (Suc i) a" "uint c' \<le> uint c + 1"
    "wval a' + 2 ^ 512 * uint c' = wval a + 2 ^ 512 * uint c + 2 ^ (LENGTH('a) * i) * (uint (a ! i) * (p256 + 1))"
    by blast+
qed

lemma loop_value:
  assumes "length a = 2 * n" and "k \<le> n" and "fold (mont_reduce_pass mul_add n) [0..<k] (a, 0) = (a', c)"
  shows "length a' = 2 * n \<and> uint c \<le> int k \<and> wval a' + 2 ^ 512 * uint c = wval a + wval (take k a') * (p256 + 1)"
  using assms
proof (induction k arbitrary: a' c)
  case (Suc k)
  obtain b d where b: "fold (mont_reduce_pass mul_add n) [0..<k] (a, 0) = (b, d)" by fastforce
  then have p: "mont_reduce_pass mul_add n k (b, d) = (a', c)" using Suc.prems by simp
  have ih: "length b = 2 * n" "uint d \<le> int k" "wval b + 2 ^ 512 * uint d = wval a + wval (take k b) * (p256 + 1)"
    using Suc.IH [OF _ _ b] Suc.prems by simp_all
  have "n \<le> LENGTH('a) * n" using len_gt_0 [where 'a = 'a] by (cases "LENGTH('a)") simp_all
  then have "k < 256" using Suc.prems(2) width by linarith
  then have "uint d < 2 ^ 31" using ih(2) by simp
  note q = pass_value [OF ih(1) _ p this]
  have "take k a' = take k b" using q(2) Suc.prems(2) by (metis Suc_le_lessD lessI less_imp_le min.absorb1 take_take)
  moreover have "b ! k = a' ! k" using q(2) Suc.prems(2) by (metis Suc_le_lessD lessI nth_take)
  ultimately have "wval (take (Suc k) a') = wval (take k b) + 2 ^ (LENGTH('a) * k) * uint (b ! k)"
    using wval_take_Suc [of k a'] q(1) Suc.prems(2) by simp
  then show ?case using q ih Suc.prems(2) by (simp add: distrib_right)
qed simp

lemma reduction:
  assumes "length a = 2 * n" and "fold (mont_reduce_pass mul_add n) [0..<n] (a, 0) = (a', c)"
  obtains m where "0 \<le> m" and "m < 2 ^ 256" and "length a' = 2 * n" and "2 ^ 256 * (wval (drop n a') + 2 ^ 256 * uint c) = wval a + m * p256"
proof -
  have v: "length a' = 2 * n" "wval a' + 2 ^ 512 * uint c = wval a + wval (take n a') * (p256 + 1)"
    using loop_value [OF assms(1) order_refl assms(2)] by simp_all
  have "wval a' = wval (take n a') + 2 ^ 256 * wval (drop n a')"
    using wval_take_drop [of n a'] v(1) width by simp
  then have "2 ^ 256 * (wval (drop n a') + 2 ^ 256 * uint c) = wval a + wval (take n a') * p256"
    using v(2) by (simp add: algebra_simps)
  moreover have "wval (take n a') < 2 ^ 256" using wval_less [of "take n a'"] v(1) width by simp
  ultimately show ?thesis using that v(1) wval_ge by blast
qed

end

subsection \<open>The words of 32 bits\<close>

lemma list_update_Cons_numeral: "(x # xs)[numeral k := v] = x # xs[pred_numeral k := v]"
  by (simp add: numeral_eq_Suc)

lemma list_update_append_plus: "(xs @ ys)[length xs + i := v] = xs @ ys[i := v]"
  by (simp add: list_update_append)

lemma split_nine:
  assumes "i + 9 \<le> length r"
  obtains r0 r1 r2 r3 r4 r5 r6 r7 r8 where "r = take i r @ r0 # r1 # r2 # r3 # r4 # r5 # r6 # r7 # r8 # drop (i + 9) r"
proof -
  have "drop k r = r ! k # drop (Suc k) r" if "k < i + 9" for k
    using that assms by (simp add: Cons_nth_drop_Suc)
  then have "drop i r = r ! i # r ! (i + 1) # r ! (i + 2) # r ! (i + 3) # r ! (i + 4) # r ! (i + 5) # r ! (i + 6) # r ! (i + 7) # r ! (i + 8) # drop (i + 9) r"
    by (simp add: eval_nat_numeral)
  then show ?thesis using that append_take_drop_id [of i r] by metis
qed

lemma carry_two_words:
  fixes x y :: u32
  assumes "(x', y', c) = (if C then if x + 1 = 0 then (x + 1, y + 1, of_bool (y + 1 = 0)) else (x + 1, y, 0) else (x, y, 0 :: u32))"
  shows "uint x' + 2 ^ 32 * uint y' + 2 ^ 64 * uint c = uint x + 2 ^ 32 * uint y + of_bool C" and "uint c \<le> 1"
proof -
  show "uint x' + 2 ^ 32 * uint y' + 2 ^ 64 * uint c = uint x + 2 ^ 32 * uint y + of_bool C"
    using assms uint_lt2p [of x] uint_lt2p [of y]
    by (auto simp: word_uint_eq_iff uint_add_wrap split: if_splits; use uint_ge_0 [of x] uint_ge_0 [of y] in linarith)
  show "uint c \<le> 1" using assms by (auto split: if_splits)
qed

lemma top_words:
  fixes b r6 r7 r8 c :: u32
  assumes "uint c \<le> 1" and t: "t = ucast c + ucast b + (ucast r6 :: u64)"
    and s: "s = drop_bit 32 t + (push_bit 32 (ucast b) - ucast b + ucast r7)"
    and e: "e = r8 + ucast (drop_bit 32 s)"
  shows "uint (ucast t :: u32) + 2 ^ 32 * uint (ucast s :: u32) + 2 ^ 64 * uint e + 2 ^ 96 * of_bool (e < ucast (drop_bit 32 s))
       = uint r6 + 2 ^ 32 * uint r7 + 2 ^ 64 * uint r8 + uint c + uint b + 2 ^ 32 * ((2 ^ 32 - 1) * uint b)"
proof -
  note l = uint_lt2p [of b] uint_lt2p [of r6] uint_lt2p [of r7] uint_lt2p [of r8]
  have t': "uint t = uint c + uint b + uint r6" using l assms(1) by (simp add: t uint_add_wrap uint_ucast_32_64)
  have td: "uint t div 2 ^ 32 \<le> 1" using t' l assms(1) by simp
  have pb: "uint (push_bit 32 (ucast b) :: u64) = 2 ^ 32 * uint b"
    using l by (simp add: push_bit_eq_mult uint_word_ariths uint_ucast_32_64)
  have m: "uint (push_bit 32 (ucast b) - ucast b + ucast r7 :: u64) = (2 ^ 32 - 1) * uint b + uint r7"
    using l by (simp add: uint_add_wrap uint_sub_wrap pb uint_ucast_32_64)
  have s': "uint s = uint t div 2 ^ 32 + (2 ^ 32 - 1) * uint b + uint r7"
    using l td unfolding s uint_add_wrap [of "drop_bit 32 t"] m uint_shift32 by simp
  have sd: "uint (ucast (drop_bit 32 s) :: u32) = uint s div 2 ^ 32"
  proof -
    have "uint s div 2 ^ 32 < 2 ^ 32" using uint_lt2p [of s] by simp
    then show ?thesis unfolding uint_ucast_64_32 uint_shift32 by (intro mod_pos_pos_trivial) (simp_all add: div_int_pos_iff)
  qed
  have e': "uint e + 2 ^ 32 * of_bool (e < ucast (drop_bit 32 s)) = uint r8 + uint s div 2 ^ 32"
    using l uint_lt2p [of "ucast (drop_bit 32 s) :: u32"] unfolding e word_less_def uint_add_wrap sd by auto
  have "uint t = uint (ucast t :: u32) + 2 ^ 32 * (uint t div 2 ^ 32)" "uint s = uint (ucast s :: u32) + 2 ^ 32 * (uint s div 2 ^ 32)"
    by (simp_all add: uint_ucast_64_32)
  then show ?thesis using t' s' e' by simp
qed

lemma sp_256_mul_add_8_value:
  assumes "i + 9 \<le> length r" and "sp_256_mul_add_8 r i = (r', ov)"
  shows "length r' = length r \<and> take (Suc i) r' = take (Suc i) r \<and> drop (i + 9) r' = drop (i + 9) r \<and>
    wval (take (i + 9) r') + 2 ^ (32 * (i + 9)) * of_bool ov = wval (take (i + 9) r) + 2 ^ (32 * i) * (uint (r ! i) * (p256 + 1))"
proof -
  obtain b r1 r2 r3 r4 r5 r6 r7 r8 where r: "r = take i r @ b # r1 # r2 # r3 # r4 # r5 # r6 # r7 # r8 # drop (i + 9) r"
    using split_nine [OF assms(1)] .
  define xs ys where "xs = take i r" and "ys = drop (i + 9) r"
  have i: "i = length xs" using assms(1) by (simp add: xs_def)
  have rr: "r = xs @ b # r1 # r2 # r3 # r4 # r5 # r6 # r7 # r8 # ys" using r by (simp add: xs_def ys_def)
  define C where "C \<longleftrightarrow> r3 + b < b"
  obtain r4' r5' c where c: "(r4', r5', c) = (if C then if r4 + 1 = 0 then (r4 + 1, r5 + 1, of_bool (r5 + 1 = 0)) else (r4 + 1, r5, 0) else (r4, r5, 0 :: u32))"
    by (metis prod_cases3)
  define t where "t = ucast c + ucast b + (ucast r6 :: u64)"
  define s where "s = drop_bit 32 t + (push_bit 32 (ucast b) - ucast b + ucast r7)"
  define e where "e = r8 + ucast (drop_bit 32 s)"
  have m: "sp_256_mul_add_8 r i = (xs @ [b, r1, r2, r3 + b, r4', r5', ucast t, ucast s, e] @ ys, e < ucast (drop_bit 32 s))"
    using c unfolding sp_256_mul_add_8_def rr i
    by (auto simp: Let_def list_update_append_plus list_update_Cons_numeral C_def t_def s_def e_def split: if_splits)
  have "uint (r3 + b) + 2 ^ 32 * of_bool C = uint r3 + uint b"
    using uint_lt2p [of r3] uint_lt2p [of b] by (auto simp: C_def word_less_def uint_add_wrap)
  note v = this carry_two_words [OF c] top_words [OF carry_two_words(2) [OF c] t_def s_def e_def]
  let ?old = "[b, r1, r2, r3, r4, r5, r6, r7, r8]" and ?new = "[b, r1, r2, r3 + b, r4', r5', ucast t, ucast s, e]"
  have r': "r' = xs @ ?new @ ys" "ov \<longleftrightarrow> e < ucast (drop_bit 32 s)" using assms(2) m by simp_all
  have "wval ?new + 2 ^ 288 * of_bool ov = wval ?old + uint b * (p256 + 1)"
    using v unfolding r'(2) by (simp add: p256_def)
  then have "2 ^ (32 * i) * (wval ?new + 2 ^ 288 * of_bool ov) = 2 ^ (32 * i) * (wval ?old + uint b * (p256 + 1))" by (simp only:)
  moreover have "take (i + 9) r' = xs @ ?new" "take (i + 9) r = xs @ ?old" "r ! i = b" by (simp_all add: r' rr i)
  moreover have "length r' = length r" "take (Suc i) r' = take (Suc i) r" "drop (i + 9) r' = drop (i + 9) r"
    by (simp_all add: r' rr i)
  moreover have "(2 :: int) ^ (32 * (i + 9)) = 2 ^ (32 * i) * 2 ^ 288" by (simp add: power_add)
  ultimately show ?thesis
    by (simp only: wval_append distrib_left) (simp add: i)
qed

interpretation reduce32: mont_reduction sp_256_mul_add_8 8
proof
  fix r r' :: "u32 list" and i ov
  assume "length r = 2 * 8" and "i < 8" and "sp_256_mul_add_8 r i = (r', ov)"
  moreover have "LENGTH(32) = 32" "i + 8 + 1 = i + 9" by simp_all
  ultimately show "length r' = 2 * 8 \<and> take (Suc i) r' = take (Suc i) r \<and> drop (i + 8 + 1) r' = drop (i + 8 + 1) r \<and>
      wval (take (i + 8 + 1) r') + 2 ^ (LENGTH(32) * (i + 8 + 1)) * of_bool ov
      = wval (take (i + 8 + 1) r) + 2 ^ (LENGTH(32) * i) * (uint (r ! i) * (p256 + 1))"
    using sp_256_mul_add_8_value [of i r r' ov] by (simp only:)
qed simp

text \<open>Montgomery's reduction, on numbers.\<close>

definition p256_inv :: int where
  "p256_inv = 0xffffffff00000002000000000000000000000001000000000000000000000001"

definition REDC :: "int \<Rightarrow> int" where
  "REDC T = (let m = (T * p256_inv) mod 2 ^ 256; t = (T + m * p256) div 2 ^ 256 in if 2 ^ 256 \<le> t then t - p256 else t)"

lemma REDC_unique:
  assumes "0 \<le> m" and "m < 2 ^ 256" and "2 ^ 256 * t = T + m * p256"
  shows "REDC T = (if 2 ^ 256 \<le> t then t - p256 else t)"
proof -
  have e: "T * p256_inv = 2 ^ 256 * (t * p256_inv) - m * (p256 * p256_inv)"
    unfolding mult.assoc [symmetric] assms(3) by (simp add: algebra_simps)
  obtain k where "p256 * p256_inv = 2 ^ 256 * k - 1"
  proof
    show "p256 * p256_inv = 2 ^ 256 * ((p256 * p256_inv + 1) div 2 ^ 256) - 1" by (simp add: p256_def p256_inv_def)
  qed
  then have "T * p256_inv = m + 2 ^ 256 * (t * p256_inv - m * k)"
    unfolding e by (simp only: right_diff_distrib mult_1_right mult.left_commute [of m])
  then have "(T * p256_inv) mod 2 ^ 256 = m" using assms(1,2) by (simp only: mod_mult_self2 mod_pos_pos_trivial)
  then show ?thesis by (simp add: REDC_def flip: assms(3))
qed

lemma REDC_exists:
  assumes "0 \<le> T"
  obtains m t where "0 \<le> m" and "m < 2 ^ 256" and "2 ^ 256 * t = T + m * p256"
proof -
  define m where "m = (T * p256_inv) mod 2 ^ 256"
  have "(T + m * p256) mod 2 ^ 256 = (T * (1 + p256_inv * p256)) mod 2 ^ 256"
  proof -
    have "(T + m * p256) mod 2 ^ 256 = (T + T * p256_inv * p256) mod 2 ^ 256"
      unfolding m_def by (metis mod_add_right_eq mod_mult_left_eq)
    then show ?thesis by (simp only: distrib_left mult.assoc mult_1_right)
  qed
  also have "\<dots> = 0" by (simp add: p256_def p256_inv_def)
  finally have "2 ^ 256 * ((T + m * p256) div 2 ^ 256) = T + m * p256" by (metis add.right_neutral mult_div_mod_eq)
  moreover have "0 \<le> m" "m < 2 ^ 256" by (simp_all add: m_def)
  ultimately show ?thesis using that by blast
qed

lemma p256_pos: "0 < p256" and p256_less: "p256 < 2 ^ 256" and p256_large: "2 ^ 255 < p256"
  by (simp_all add: p256_def)

lemma REDC_properties:
  assumes "0 \<le> T" and "T < 2 ^ 512"
  shows "(REDC T * 2 ^ 256) mod p256 = T mod p256" and "0 \<le> REDC T" and "REDC T < 2 ^ 256"
proof -
  obtain m t where m: "0 \<le> m" "m < 2 ^ 256" "2 ^ 256 * t = T + m * p256" using REDC_exists [OF assms(1)] .
  note r = REDC_unique [OF m]
  have "(t * 2 ^ 256) mod p256 = T mod p256" using m(3) by (simp add: mult.commute)
  moreover have "((t - p256) * 2 ^ 256) mod p256 = (t * 2 ^ 256) mod p256"
    by (metis minus_mod_self2 mod_mult_left_eq)
  ultimately show "(REDC T * 2 ^ 256) mod p256 = T mod p256" using r by auto
  have "m * p256 \<le> (2 ^ 256 - 1) * p256" using m(2) p256_pos by (intro mult_right_mono) simp_all
  then have "m * p256 \<le> 2 ^ 256 * p256 - p256" by (simp only: left_diff_distrib mult_1_left)
  moreover have "(2 :: int) ^ 512 = 2 ^ 256 * 2 ^ 256" by simp
  ultimately have "2 ^ 256 * t < 2 ^ 256 * (2 ^ 256 + p256)"
    unfolding m(3) distrib_left using assms(2) p256_pos by linarith
  then have "t < 2 ^ 256 + p256" by simp
  moreover have "0 \<le> 2 ^ 256 * t" using m(1,3) assms(1) p256_pos by simp
  then have "0 \<le> t" by simp
  ultimately show "0 \<le> REDC T" "REDC T < 2 ^ 256" using r p256_less by simp_all
qed

lemma reduced_words:
  assumes "length r = 8" and "2 ^ 256 * (wval r + 2 ^ 256 * uint (c :: u32)) = T + m * p256" and "0 \<le> m" and "m < 2 ^ 256"
    and "0 \<le> T" and "T < 2 ^ 512" and "s = (if c \<noteq> 0 then sp_256_sub_8_p256_mod r else r)"
  shows "length s = 8" and "wval s = REDC T"
proof -
  note sub = sp_256_sub_8_p256_mod_value [OF assms(1)]
  show "length s = 8" using assms(1,7) sub(1) by simp
  let ?t = "wval r + 2 ^ 256 * uint c"
  have R: "REDC T = (if 2 ^ 256 \<le> ?t then ?t - p256 else ?t)" by (rule REDC_unique [OF assms(3,4,2)])
  have r: "0 \<le> wval r" "wval r < 2 ^ 256" using wval_less_256 [OF assms(1)] by simp_all
  consider "c = 0" | "uint c = 1" "c \<noteq> 0" | "2 \<le> uint c" using uint_ge_0 [of c] by (metis (no_types, opaque_lifting) uint_0_iff int_one_le_iff_zero_less le_less not_le zless_add1_eq one_add_one word_uint_eq_iff uint_0_eq)
  then show "wval s = REDC T"
  proof cases
    case 1
    then show ?thesis using R r assms(7) by simp
  next
    case 2
    then have "REDC T = wval r + 2 ^ 256 - p256" using R r by simp
    moreover have "wval r < p256" using REDC_properties(3) [OF assms(5,6)] calculation by linarith
    ultimately show ?thesis using assms(7) 2 sub(2) by simp
  next
    case 3
    then have "2 ^ 256 * 2 \<le> (2 ^ 256 * uint c :: int)" by simp
    then have "2 ^ 256 \<le> ?t" using r by linarith
    then have "REDC T = ?t - p256" using R by (simp only: if_True)
    then have "REDC T \<ge> 2 ^ 256" using \<open>2 ^ 256 * 2 \<le> (2 ^ 256 * uint c :: int)\<close> r p256_less by linarith
    then show ?thesis using REDC_properties(3) [OF assms(5,6)] by linarith
  qed
qed

lemma sp_512to256_mont_reduce_8_value:
  assumes "length a = 16"
  shows "length (sp_512to256_mont_reduce_8 a) = 8" and "wval (sp_512to256_mont_reduce_8 a) = REDC (wval a)"
proof -
  obtain a' c where f: "fold (mont_reduce_pass sp_256_mul_add_8 8) [0..<8] (a, 0) = (a', c)" by fastforce
  have "length a = 2 * 8" using assms by simp
  from reduce32.reduction [OF this f] obtain m where m: "0 \<le> m" "m < 2 ^ 256" "length a' = 2 * 8"
    "2 ^ 256 * (wval (drop 8 a') + 2 ^ 256 * uint c) = wval a + m * p256" .
  have l8: "length (drop 8 a') = 8" using m(3) by simp
  have small: "wval a < 2 ^ 512" using wval_less [of a] assms by simp
  have "sp_512to256_mont_shift_8 a' = drop 8 a'" using m(3) by (simp add: sp_512to256_mont_shift_8_def)
  then have "sp_512to256_mont_reduce_8 a = (if c \<noteq> 0 then sp_256_sub_8_p256_mod (drop 8 a') else drop 8 a')"
    unfolding sp_512to256_mont_reduce_8_def f by (simp add: Let_def)
  from reduced_words [OF l8 m(4,1,2) wval_ge small this]
  show "length (sp_512to256_mont_reduce_8 a) = 8" "wval (sp_512to256_mont_reduce_8 a) = REDC (wval a)" .
qed

section \<open>Products and inverses in Montgomery form\<close>

lemma sp_256_mont_mul_8_value:
  assumes "length a = 8" and "length b = 8"
  shows "length (sp_256_mont_mul_8 a b) = 8" and "wval (sp_256_mont_mul_8 a b) = REDC (wval a * wval b)"
  using sp_512to256_mont_reduce_8_value [OF sp_256to512_mul_8_value(1) [OF assms]] sp_256to512_mul_8_value(2) [OF assms]
  by (simp_all add: sp_256_mont_mul_8_def)

text \<open>\<open>mform a n\<close>: \<open>a\<close> is the Montgomery form of a number that is \<open>n\<close> modulo the prime.\<close>

definition mform :: "u32 list \<Rightarrow> int \<Rightarrow> bool" where
  "mform a n \<longleftrightarrow> length a = 8 \<and> wval a mod p256 = (n * 2 ^ 256) mod p256"

lemma mform_length [simp]: "mform a n \<Longrightarrow> length a = 8" by (simp add: mform_def)

lemma cancel_unit:
  fixes x y u p :: int
  assumes "(u * v) mod p = 1 mod p" and "(x * u) mod p = (y * u) mod p"
  shows "x mod p = y mod p"
proof -
  have "(z * u * v) mod p = z mod p" for z
    using assms(1) by (metis mod_mult_right_eq mult.assoc mult_1_right)
  then show ?thesis using assms(2) by (metis mod_mult_left_eq)
qed

lemma cancel_R: "(x * 2 ^ 256) mod p256 = (y * 2 ^ 256) mod p256 \<Longrightarrow> x mod p256 = y mod p256"
  by (rule cancel_unit [of _ "0xfffffffe00000003fffffffd0000000200000001fffffffe0000000300000000"])
    (simp_all add: p256_def)

lemma cancel_2: "(x * 2) mod p256 = (y * 2) mod p256 \<Longrightarrow> x mod p256 = y mod p256"
  by (rule cancel_unit [of _ "2 ^ 255 - 2 ^ 223 + 2 ^ 191 + 2 ^ 95"]) (simp_all add: p256_def)

lemma product_less:
  fixes a b :: "u32 list"
  assumes "length a = 8" and "length b = 8"
  shows "0 \<le> wval a * wval b" and "wval a * wval b < 2 ^ 512"
proof -
  have "wval a * wval b < 2 ^ 256 * 2 ^ 256" using wval_less_256 assms by (intro mult_strict_mono) simp_all
  then show "0 \<le> wval a * wval b" "wval a * wval b < 2 ^ 512" by simp_all
qed

lemma mform_mul:
  assumes "mform a m" and "mform b n"
  shows "mform (sp_256_mont_mul_8 a b) (m * n)"
proof -
  have l: "length a = 8" "length b = 8" using assms by simp_all
  note v = sp_256_mont_mul_8_value [OF l] and r = REDC_properties [OF product_less [OF l]]
  have "(wval a * wval b) mod p256 = (m * 2 ^ 256 * (n * 2 ^ 256)) mod p256"
    using assms unfolding mform_def by (metis mod_mult_eq)
  also have "m * 2 ^ 256 * (n * 2 ^ 256) = m * n * 2 ^ 256 * 2 ^ 256" by (simp only: mult_ac)
  finally have "(REDC (wval a * wval b) * 2 ^ 256) mod p256 = (m * n * 2 ^ 256 * 2 ^ 256) mod p256" using r(1) by (simp only:)
  then have "REDC (wval a * wval b) mod p256 = (m * n * 2 ^ 256) mod p256" by (rule cancel_R)
  then show ?thesis using v by (simp only: mform_def)
qed

lemma mform_sqr: "mform a m \<Longrightarrow> mform (sp_256_mont_sqr_8 a) (m * m)"
  unfolding sp_256_mont_sqr_8_def by (rule mform_mul)

text \<open>The sums and differences for which the reduction by one multiple of the prime is enough.\<close>

definition add_exact :: "u32 list \<Rightarrow> u32 list \<Rightarrow> bool" where
  "add_exact a b \<longleftrightarrow> wval a + wval b < 2 ^ 256 + p256"

definition sub_exact :: "u32 list \<Rightarrow> u32 list \<Rightarrow> bool" where
  "sub_exact a b \<longleftrightarrow> wval b \<le> wval a + p256"

lemma mod_add_exact: "0 \<le> x \<Longrightarrow> 0 \<le> y \<Longrightarrow> x + y < 2 ^ 256 + p256 \<Longrightarrow> mod_add x y mod p256 = (x + y) mod p256"
proof (cases "x + y < 2 ^ 256")
  case False
  assume "x + y < 2 ^ 256 + p256"
  then have "x + y - p256 < 2 ^ 256" "0 \<le> x + y - p256" using False p256_less by linarith+
  then have "mod_add x y = x + y - p256" using False by (simp only: mod_add_def if_False mod_pos_pos_trivial)
  then show ?thesis by (simp only: minus_mod_self2)
qed (simp add: mod_add_def)

lemma mod_sub_exact: "0 \<le> x \<Longrightarrow> x < 2 ^ 256 \<Longrightarrow> 0 \<le> y \<Longrightarrow> y \<le> x + p256 \<Longrightarrow> mod_sub x y mod p256 = (x - y) mod p256"
proof (cases "y \<le> x")
  case False
  assume "0 \<le> x" "x < 2 ^ 256" "0 \<le> y" "y \<le> x + p256"
  then have "x - y + p256 < 2 ^ 256" "0 \<le> x - y + p256" using False p256_less by linarith+
  then have "mod_sub x y = x - y + p256" using False by (simp only: mod_sub_def if_False mod_pos_pos_trivial)
  then show ?thesis by (simp only: mod_add_self2)
qed (simp add: mod_sub_def)

lemma mform_add:
  assumes "mform a m" and "mform b n" and "add_exact a b"
  shows "mform (sp_256_mont_add_8 a b) (m + n)"
proof -
  have l: "length a = 8" "length b = 8" using assms by simp_all
  have "mod_add (wval a) (wval b) mod p256 = (wval a + wval b) mod p256"
    using assms(3) mod_add_exact [OF wval_ge wval_ge] by (simp only: add_exact_def)
  also have "\<dots> = ((m + n) * 2 ^ 256) mod p256"
    using assms(1,2) unfolding mform_def distrib_right by (metis mod_add_eq)
  finally show ?thesis using sp_256_mont_add_8_value [OF l] by (simp only: mform_def)
qed

lemma mform_sub:
  assumes "mform a m" and "mform b n" and "sub_exact a b"
  shows "mform (sp_256_mont_sub_8 a b) (m - n)"
proof -
  have l: "length a = 8" "length b = 8" using assms by simp_all
  have "mod_sub (wval a) (wval b) mod p256 = (wval a - wval b) mod p256"
    using assms(3) mod_sub_exact [OF wval_ge wval_less_256 wval_ge] l by (simp only: sub_exact_def)
  also have "\<dots> = ((m - n) * 2 ^ 256) mod p256"
    using assms(1,2) unfolding mform_def left_diff_distrib by (metis mod_diff_eq)
  finally show ?thesis using sp_256_mont_sub_8_value [OF l] by (simp only: mform_def)
qed

lemma mform_div2:
  assumes "mform r (2 * n)"
  shows "mform (sp_256_div2_8 r) n"
proof -
  have l: "length r = 8" using assms by simp
  note v = sp_256_div2_8_value [OF l]
  have "odd p256" by (simp add: p256_def)
  then have "wval (sp_256_div2_8 r) * 2 = wval r + (if odd (wval r) then p256 else 0)" unfolding v(2) by simp
  then have "(wval (sp_256_div2_8 r) * 2) mod p256 = wval r mod p256" by simp
  also have "\<dots> = (n * 2 ^ 256 * 2) mod p256" using assms unfolding mform_def by (simp only: mult_ac)
  finally have "wval (sp_256_div2_8 r) mod p256 = (n * 2 ^ 256) mod p256" by (rule cancel_2)
  then show ?thesis using v(1) by (simp only: mform_def)
qed

lemma mform_inv_passes:
  assumes "mform r (n ^ e)" and "mform a n"
  shows "mform (fold (mont_inv_pass a) is r)
    (n ^ fold (\<lambda>i e. 2 * e + of_bool (i \<ge> 224 \<or> i = 192 \<or> (i \<le> 95 \<and> i \<noteq> 1))) is e)"
  using assms(1)
proof (induction "is" arbitrary: r e)
  case (Cons i "is")
  have "mform (mont_inv_pass a i r) (n ^ (2 * e + of_bool (i \<ge> 224 \<or> i = 192 \<or> (i \<le> 95 \<and> i \<noteq> 1))))"
  proof -
    have e: "n ^ e * n ^ e = n ^ (2 * e)" by (simp only: mult_2 power_add)
    note s = mform_sqr [OF Cons.prems, unfolded e]
    show ?thesis using s mform_mul [OF s assms(2)] by (auto simp: mont_inv_pass_def mult.commute Let_def)
  qed
  from Cons.IH [OF this] show ?case by simp
qed simp

lemma exponent_p_minus_2:
  "fold (\<lambda>i e. 2 * e + of_bool (i \<ge> 224 \<or> i = 192 \<or> (i \<le> 95 \<and> i \<noteq> 1))) (rev [0..<255]) (1 :: int) = p256 - 2"
  by code_simp

lemma exponent_int:
  "int (fold (\<lambda>i e. 2 * e + of_bool (P i)) is e) = fold (\<lambda>i e. 2 * e + of_bool (P i)) is (int e)"
  by (induction "is" arbitrary: e) simp_all

lemma mform_inv:
  assumes "mform a n"
  shows "mform (sp_256_mont_inv_8 a) (n ^ nat (p256 - 2))"
proof -
  let ?e = "fold (\<lambda>i e. 2 * e + of_bool (i \<ge> 224 \<or> i = 192 \<or> (i \<le> 95 \<and> i \<noteq> 1))) (rev [0..<255]) 1"
  have "int ?e = p256 - 2" unfolding exponent_int of_nat_1 by (rule exponent_p_minus_2)
  then have "?e = nat (p256 - 2)" by simp
  then show ?thesis
    using mform_inv_passes [of a n 1 a "rev [0..<255]"] assms by (simp only: sp_256_mont_inv_8_def power_one_right)
qed

lemma mont_mul_and_reduce_value:
  assumes "mform a m" and "mform b n"
  shows "length (sp_256_mont_mul_and_reduce_8 a b) = 8" and "wval (sp_256_mont_mul_and_reduce_8 a b) mod p256 = (m * n) mod p256"
proof -
  let ?p = "sp_256_mont_mul_8 a b"
  have p: "mform ?p (m * n)" by (rule mform_mul [OF assms])
  then have l: "length (?p @ replicate 8 0) = 16" by simp
  have w: "wval (?p @ replicate 8 0) = wval ?p" by (simp only: wval_append wval_replicate_zero mult_zero_right add_0_right)
  note v = sp_512to256_mont_reduce_8_value [OF l, unfolded w]
  have "wval ?p < 2 ^ 512" using wval_less_256 [of ?p] p by simp
  then have "(REDC (wval ?p) * 2 ^ 256) mod p256 = (m * n * 2 ^ 256) mod p256"
    using REDC_properties(1) [OF wval_ge, of ?p] p by (simp only: mform_def)
  then have "REDC (wval ?p) mod p256 = (m * n) mod p256" by (rule cancel_R)
  then show "length (sp_256_mont_mul_and_reduce_8 a b) = 8" "wval (sp_256_mont_mul_and_reduce_8 a b) mod p256 = (m * n) mod p256"
    using v by (simp_all only: sp_256_mont_mul_and_reduce_8_def)
qed

section \<open>Conversion to Montgomery form\<close>

lemma sint_word_of_int: "- (2 ^ 63) \<le> x \<Longrightarrow> x < 2 ^ 63 \<Longrightarrow> sint (word_of_int x :: u64) = x"
  by (simp add: int_word_sint)

lemma word_of_int_shift:
  assumes "- (2 ^ 63) \<le> x" and "x < 2 ^ 63"
  shows "signed_drop_bit 32 (word_of_int x :: u64) = word_of_int (x div 2 ^ 32)"
proof -
  have "sint (signed_drop_bit 32 (word_of_int x :: u64)) = x div 2 ^ 32"
    unfolding sint_signed_drop_bit_eq sint_word_of_int [OF assms] by (simp only: drop_bit_eq_div)
  then have "word_of_int (sint (signed_drop_bit 32 (word_of_int x :: u64))) = (word_of_int (x div 2 ^ 32) :: u64)" by (simp only:)
  then show ?thesis by (simp only: of_int_sint scast_id)
qed

lemma word_of_int_low: "(word_of_int x :: u64) AND 0xffffffff = word_of_int (x mod 2 ^ 32)"
proof -
  have m: "(0xffffffff :: u64) = mask 32" by (simp add: mask_eq_exp_minus_1)
  show ?thesis unfolding m take_bit_eq_mod [symmetric] by (rule bit_word_eqI) (auto simp: bit_simps)
qed

lemma ucast_word_of_int: "ucast (word_of_int x :: u64) = (word_of_int x :: u32)"
  by (rule ucast_down_wi) (simp add: is_down)

lemma scast_word_of_int: "- (2 ^ 31) \<le> x \<Longrightarrow> x < 2 ^ 31 \<Longrightarrow> scast (word_of_int x :: u32) = (word_of_int x :: u64)"
  by (simp add: scast_eq int_word_sint)


text \<open>The sum of the \<open>t[i] * 2 ^ (32 * i)\<close>.\<close>

definition norm_sum :: "u32 list \<Rightarrow> int" where
  "norm_sum a =
     (let A = (\<lambda>n. uint (a ! n))
      in (A 0 + A 1 - A 3 - A 4 - A 5 - A 6)
         + 2 ^ 32 * (A 1 + A 2 - A 4 - A 5 - A 6 - A 7)
         + 2 ^ 64 * (A 2 + A 3 - A 5 - A 6 - A 7)
         + 2 ^ 96 * (2 * A 3 + 2 * A 4 + A 5 - A 0 - A 1 - A 7)
         + 2 ^ 128 * (2 * A 4 + 2 * A 5 + A 6 - A 1 - A 2)
         + 2 ^ 160 * (2 * A 5 + 2 * A 6 + A 7 - A 2 - A 3)
         + 2 ^ 192 * (A 5 + 3 * A 6 + 2 * A 7 - A 0 - A 1)
         + 2 ^ 224 * (A 0 + 3 * A 7 - A 2 - A 3 - A 4 - A 5))"

lemma norm_sum_mod:
  assumes "length a = 8"
  shows "norm_sum a mod p256 = (wval a * 2 ^ 256) mod p256"
proof -
  obtain a0 a1 a2 a3 a4 a5 a6 a7 where a: "a = [a0, a1, a2, a3, a4, a5, a6, a7]"
    using assms by (auto simp: length_Suc_conv eval_nat_numeral)
  define k where "k = uint a0 + 0x100000001 * uint a1 + 0x10000000100000000 * uint a2 + 0x100000000ffffffffffffffff * uint a3
    + 0x100000000fffffffffffffffeffffffff * uint a4 + 0x100000000fffffffffffffffefffffffeffffffff * uint a5
    + 0x100000000fffffffffffffffefffffffefffffffeffffffff * uint a6
    + 0x100000000fffffffffffffffefffffffefffffffeffffffff00000000 * uint a7"
  have "wval a * 2 ^ 256 = norm_sum a + k * p256" unfolding k_def by (simp add: a norm_sum_def p256_def)
  then show ?thesis by (simp only: mod_mult_self1)
qed

lemma carry_words:
  fixes x y :: int
  assumes "\<bar>x\<bar> < 2 ^ 60"
  shows "word_of_int y + signed_drop_bit 32 (word_of_int x :: u64) = word_of_int (y + x div 2 ^ 32)"
proof -
  have "- (2 ^ 63) \<le> x" "x < 2 ^ 63" using assms by simp_all
  from word_of_int_shift [OF this] show ?thesis by simp
qed

lemma carry_bound: "\<bar>x\<bar> < 2 ^ 36 \<Longrightarrow> \<bar>y\<bar> < 2 ^ 35 \<Longrightarrow> \<bar>y + x div 2 ^ 32\<bar> < 2 ^ 36" for x y :: int
  by simp

lemma norm_carries:
  assumes "\<bar>x0\<bar> < 2 ^ 35" "\<bar>x1\<bar> < 2 ^ 35" "\<bar>x2\<bar> < 2 ^ 35" "\<bar>x3\<bar> < 2 ^ 35" "\<bar>x4\<bar> < 2 ^ 35" "\<bar>x5\<bar> < 2 ^ 35" "\<bar>x6\<bar> < 2 ^ 35" "\<bar>x7\<bar> < 2 ^ 35"
    and y: "y1 = x1 + x0 div 2 ^ 32" "y2 = x2 + y1 div 2 ^ 32" "y3 = x3 + y2 div 2 ^ 32" "y4 = x4 + y3 div 2 ^ 32"
      "y5 = x5 + y4 div 2 ^ 32" "y6 = x6 + y5 div 2 ^ 32" "y7 = x7 + y6 div 2 ^ 32"
  shows "fold (\<lambda>i t. norm_carry t i) [0..<7] (map word_of_int [x0, x1, x2, x3, x4, x5, x6, x7])
      = map word_of_int [x0 mod 2 ^ 32, y1 mod 2 ^ 32, y2 mod 2 ^ 32, y3 mod 2 ^ 32, y4 mod 2 ^ 32, y5 mod 2 ^ 32, y6 mod 2 ^ 32, y7]"
    and "\<bar>y7\<bar> < 2 ^ 36"
proof -
  have x0: "\<bar>x0\<bar> < 2 ^ 36" using assms(1) by simp
  have b1: "\<bar>y1\<bar> < 2 ^ 36" unfolding y by (rule carry_bound [OF x0 assms(2)])
  have b2: "\<bar>y2\<bar> < 2 ^ 36" unfolding y(2) by (rule carry_bound [OF b1 assms(3)])
  have b3: "\<bar>y3\<bar> < 2 ^ 36" unfolding y(3) by (rule carry_bound [OF b2 assms(4)])
  have b4: "\<bar>y4\<bar> < 2 ^ 36" unfolding y(4) by (rule carry_bound [OF b3 assms(5)])
  have b5: "\<bar>y5\<bar> < 2 ^ 36" unfolding y(5) by (rule carry_bound [OF b4 assms(6)])
  have b6: "\<bar>y6\<bar> < 2 ^ 36" unfolding y(6) by (rule carry_bound [OF b5 assms(7)])
  show b7: "\<bar>y7\<bar> < 2 ^ 36" unfolding y(7) by (rule carry_bound [OF b6 assms(8)])
  have step: "norm_carry (ps @ word_of_int x # word_of_int y # ts) i = ps @ word_of_int (x mod 2 ^ 32) # word_of_int (y + x div 2 ^ 32) # ts"
    if "\<bar>x\<bar> < 2 ^ 36" "length ps = i" for ps ts :: "u64 list" and x y i
  proof -
    have x: "\<bar>x\<bar> < 2 ^ 60" using that(1) by simp
    show ?thesis unfolding norm_carry_def that(2) [symmetric]
      by (simp add: nth_append list_update_append carry_words [OF x, simplified] word_of_int_low [simplified])
  qed
  have upt: "[0..<7] = [0, 1, 2, 3, 4, 5, 6]" by (simp add: upt_rec)
  show "fold (\<lambda>i t. norm_carry t i) [0..<7] (map word_of_int [x0, x1, x2, x3, x4, x5, x6, x7])
      = map word_of_int [x0 mod 2 ^ 32, y1 mod 2 ^ 32, y2 mod 2 ^ 32, y3 mod 2 ^ 32, y4 mod 2 ^ 32, y5 mod 2 ^ 32, y6 mod 2 ^ 32, y7]"
    unfolding upt
    using step [OF x0, of "[]" 0 x1] step [OF b1, of "[_]" 1 x2] step [OF b2, of "[_, _]" 2 x3] step [OF b3, of "[_, _, _]" 3 x4]
      step [OF b4, of "[_, _, _, _]" 4 x5] step [OF b5, of "[_, _, _, _, _]" 5 x6] step [OF b6, of "[_, _, _, _, _, _]" 6 x7]
    by (simp add: y [symmetric, simplified])
qed


lemma telescope:
  fixes x0 :: int
  shows "x0 + 2 ^ 32 * x1 + 2 ^ 64 * x2 + 2 ^ 96 * x3 + 2 ^ 128 * x4 + 2 ^ 160 * x5 + 2 ^ 192 * x6 + 2 ^ 224 * x7
    = (x0 - 2 ^ 32 * d0) + 2 ^ 32 * ((x1 + d0 - 2 ^ 32 * d1) + 2 ^ 32 * ((x2 + d1 - 2 ^ 32 * d2) + 2 ^ 32 * ((x3 + d2 - 2 ^ 32 * d3)
      + 2 ^ 32 * ((x4 + d3 - 2 ^ 32 * d4) + 2 ^ 32 * ((x5 + d4 - 2 ^ 32 * d5) + 2 ^ 32 * ((x6 + d5 - 2 ^ 32 * d6)
      + 2 ^ 32 * ((x7 + d6 - 2 ^ 32 * d7) + 2 ^ 32 * 0))))))) + 2 ^ 256 * d7"
  by simp

lemma carry_value:
  fixes x0 :: int
  assumes "y1 = x1 + x0 div 2 ^ 32" "y2 = x2 + y1 div 2 ^ 32" "y3 = x3 + y2 div 2 ^ 32" "y4 = x4 + y3 div 2 ^ 32"
    "y5 = x5 + y4 div 2 ^ 32" "y6 = x6 + y5 div 2 ^ 32" "y7 = x7 + y6 div 2 ^ 32"
  shows "x0 + 2 ^ 32 * x1 + 2 ^ 64 * x2 + 2 ^ 96 * x3 + 2 ^ 128 * x4 + 2 ^ 160 * x5 + 2 ^ 192 * x6 + 2 ^ 224 * x7
    = wval (map word_of_int [x0, y1, y2, y3, y4, y5, y6, y7] :: u32 list) + 2 ^ 256 * (y7 div 2 ^ 32)"
proof -
  have l32: "LENGTH(32) = 32" by simp
  have u: "uint (word_of_int z :: u32) = z - 2 ^ 32 * (z div 2 ^ 32)" for z
    by (simp add: uint_word_of_int minus_mult_div_eq_mod)
  show ?thesis
    unfolding list.map wval.simps u l32 telescope [of x0 x1 x2 x3 x4 x5 x6 x7 "x0 div 2 ^ 32" "y1 div 2 ^ 32" "y2 div 2 ^ 32"
        "y3 div 2 ^ 32" "y4 div 2 ^ 32" "y5 div 2 ^ 32" "y6 div 2 ^ 32" "y7 div 2 ^ 32"]
    by (simp only: assms [symmetric])
qed

lemma norm_stores:
  assumes "\<bar>x0\<bar> < 2 ^ 37" "\<bar>x1\<bar> < 2 ^ 37" "\<bar>x2\<bar> < 2 ^ 37" "\<bar>x3\<bar> < 2 ^ 37" "\<bar>x4\<bar> < 2 ^ 37" "\<bar>x5\<bar> < 2 ^ 37" "\<bar>x6\<bar> < 2 ^ 37"
  shows "length (norm_store (map word_of_int [x0, x1, x2, x3, x4, x5, x6, x7])) = 8"
    and "wval (norm_store (map word_of_int [x0, x1, x2, x3, x4, x5, x6, x7]))
      = (x0 + 2 ^ 32 * x1 + 2 ^ 64 * x2 + 2 ^ 96 * x3 + 2 ^ 128 * x4 + 2 ^ 160 * x5 + 2 ^ 192 * x6 + 2 ^ 224 * x7) mod 2 ^ 256"
proof -
  define z1 where "z1 = x1 + x0 div 2 ^ 32"
  define z2 where "z2 = x2 + z1 div 2 ^ 32"
  define z3 where "z3 = x3 + z2 div 2 ^ 32"
  define z4 where "z4 = x4 + z3 div 2 ^ 32"
  define z5 where "z5 = x5 + z4 div 2 ^ 32"
  define z6 where "z6 = x6 + z5 div 2 ^ 32"
  define z7 where "z7 = x7 + z6 div 2 ^ 32"
  have b: "\<bar>x + z div 2 ^ 32\<bar> < 2 ^ 38" if "\<bar>x\<bar> < 2 ^ 37" "\<bar>z\<bar> < 2 ^ 38" for x z :: int using that by simp
  have x0: "\<bar>x0\<bar> < 2 ^ 38" using assms(1) by simp
  have b1: "\<bar>z1\<bar> < 2 ^ 38" unfolding z1_def by (rule b [OF assms(2) x0])
  have b2: "\<bar>z2\<bar> < 2 ^ 38" unfolding z2_def by (rule b [OF assms(3) b1])
  have b3: "\<bar>z3\<bar> < 2 ^ 38" unfolding z3_def by (rule b [OF assms(4) b2])
  have b4: "\<bar>z4\<bar> < 2 ^ 38" unfolding z4_def by (rule b [OF assms(5) b3])
  have b5: "\<bar>z5\<bar> < 2 ^ 38" unfolding z5_def by (rule b [OF assms(6) b4])
  have b6: "\<bar>z6\<bar> < 2 ^ 38" unfolding z6_def by (rule b [OF assms(7) b5])
  have st: "word_of_int y + signed_drop_bit 32 (word_of_int x :: u64) = word_of_int (y + x div 2 ^ 32)" if "\<bar>x\<bar> < 2 ^ 38" for x y
    using that by (intro carry_words) simp
  have last: "ucast (word_of_int y :: u64) + ucast (signed_drop_bit 32 (word_of_int x :: u64)) = (word_of_int (y + x div 2 ^ 32) :: u32)"
    if "\<bar>x\<bar> < 2 ^ 38" for x y
  proof -
    have "- (2 ^ 63) \<le> x" "x < 2 ^ 63" using that by simp_all
    from word_of_int_shift [OF this] show ?thesis by (simp only: ucast_word_of_int of_int_add)
  qed
  have e: "norm_store (map word_of_int [x0, x1, x2, x3, x4, x5, x6, x7])
      = map word_of_int [x0, z1, z2, z3, z4, z5, z6, z7]"
    using st [OF x0, of x1] st [OF b1, of x2] st [OF b2, of x3] st [OF b3, of x4] st [OF b4, of x5] st [OF b5, of x6] last [OF b6, of x7]
    by (simp only: list.map norm_store.simps z1_def [symmetric] z2_def [symmetric] z3_def [symmetric] z4_def [symmetric]
        z5_def [symmetric] z6_def [symmetric] z7_def [symmetric] ucast_word_of_int)
  show "length (norm_store (map word_of_int [x0, x1, x2, x3, x4, x5, x6, x7])) = 8" unfolding e by simp
  let ?w = "wval (map word_of_int [x0, z1, z2, z3, z4, z5, z6, z7] :: u32 list)"
  let ?s = "x0 + 2 ^ 32 * x1 + 2 ^ 64 * x2 + 2 ^ 96 * x3 + 2 ^ 128 * x4 + 2 ^ 160 * x5 + 2 ^ 192 * x6 + 2 ^ 224 * x7"
  have "?s = ?w + 2 ^ 256 * (z7 div 2 ^ 32)"
    by (rule carry_value [OF z1_def z2_def z3_def z4_def z5_def z6_def z7_def])
  moreover have "?w < 2 ^ 256" by (rule wval_less_256) simp
  ultimately have "?s mod 2 ^ 256 = ?w" by (simp only: mod_mult_self2 mod_pos_pos_trivial wval_ge)
  then show "wval (norm_store (map word_of_int [x0, x1, x2, x3, x4, x5, x6, x7])) = ?s mod 2 ^ 256" unfolding e by simp
qed

lemma norm_correction:
  "e0 + 2 ^ 32 * e1 + 2 ^ 64 * e2 + 2 ^ 96 * e3 + 2 ^ 128 * e4 + 2 ^ 160 * e5 + 2 ^ 192 * e6 + 2 ^ 224 * e7 - q * p256 + q * 2 ^ 256
   = (e0 + q) + 2 ^ 32 * e1 + 2 ^ 64 * e2 + 2 ^ 96 * (e3 - q) + 2 ^ 128 * e4 + 2 ^ 160 * e5 + 2 ^ 192 * (e6 - q) + 2 ^ 224 * (e7 + q)"
  by (simp add: p256_def)

definition norm_exact :: "u32 list \<Rightarrow> bool" where
  "norm_exact a \<longleftrightarrow> (let n = norm_sum a - norm_sum a div 2 ^ 256 * p256 in 0 \<le> n \<and> n < 2 ^ 256)"

lemma sp_256_mod_mul_norm_8_value:
  assumes "length a = 8"
  shows "length (sp_256_mod_mul_norm_8 a) = 8"
    and "wval (sp_256_mod_mul_norm_8 a) = (norm_sum a - norm_sum a div 2 ^ 256 * p256) mod 2 ^ 256"
proof -
  define A where "A n = uint (a ! n)" for n
  have A: "0 \<le> A n" "A n < 2 ^ 32" for n using uint_lt2p [of "a ! n"] by (simp_all add: A_def)
  define x0 where "x0 = A 0 + A 1 - A 3 - A 4 - A 5 - A 6"
  define x1 where "x1 = A 1 + A 2 - A 4 - A 5 - A 6 - A 7"
  define x2 where "x2 = A 2 + A 3 - A 5 - A 6 - A 7"
  define x3 where "x3 = 2 * A 3 + 2 * A 4 + A 5 - A 0 - A 1 - A 7"
  define x4 where "x4 = 2 * A 4 + 2 * A 5 + A 6 - A 1 - A 2"
  define x5 where "x5 = 2 * A 5 + 2 * A 6 + A 7 - A 2 - A 3"
  define x6 where "x6 = A 5 + 3 * A 6 + 2 * A 7 - A 0 - A 1"
  define x7 where "x7 = A 0 + 3 * A 7 - A 2 - A 3 - A 4 - A 5"
  note xs = x0_def x1_def x2_def x3_def x4_def x5_def x6_def x7_def
  have e35: "(2 :: int) ^ 35 = 8 * 2 ^ 32" by simp
  have b: "\<bar>x0\<bar> < 2 ^ 35" "\<bar>x1\<bar> < 2 ^ 35" "\<bar>x2\<bar> < 2 ^ 35" "\<bar>x3\<bar> < 2 ^ 35" "\<bar>x4\<bar> < 2 ^ 35" "\<bar>x5\<bar> < 2 ^ 35" "\<bar>x6\<bar> < 2 ^ 35" "\<bar>x7\<bar> < 2 ^ 35"
    unfolding xs abs_less_iff e35
    using A [of 0] A [of 1] A [of 2] A [of 3] A [of 4] A [of 5] A [of 6] A [of 7] by linarith+
  define y1 where "y1 = x1 + x0 div 2 ^ 32"
  define y2 where "y2 = x2 + y1 div 2 ^ 32"
  define y3 where "y3 = x3 + y2 div 2 ^ 32"
  define y4 where "y4 = x4 + y3 div 2 ^ 32"
  define y5 where "y5 = x5 + y4 div 2 ^ 32"
  define y6 where "y6 = x6 + y5 div 2 ^ 32"
  define y7 where "y7 = x7 + y6 div 2 ^ 32"
  note ys = y1_def y2_def y3_def y4_def y5_def y6_def y7_def
  define q where "q = y7 div 2 ^ 32"
  note c = norm_carries [OF b ys]
  have q: "- (2 ^ 31) \<le> q" "q < 2 ^ 31" using c(2) by (auto simp: q_def abs_less_iff)
  have w: "(ucast (a ! n) :: u64) = word_of_int (A n)" for n by (simp only: ucast_eq A_def)
  have t: "[0 + ucast (a ! 0) + ucast (a ! 1) - ucast (a ! 3) - ucast (a ! 4) - ucast (a ! 5) - ucast (a ! 6),
            0 + ucast (a ! 1) + ucast (a ! 2) - ucast (a ! 4) - ucast (a ! 5) - ucast (a ! 6) - ucast (a ! 7),
            0 + ucast (a ! 2) + ucast (a ! 3) - ucast (a ! 5) - ucast (a ! 6) - ucast (a ! 7),
            0 - ucast (a ! 0) - ucast (a ! 1) + 2 * ucast (a ! 3) + 2 * ucast (a ! 4) + ucast (a ! 5) - ucast (a ! 7),
            0 - ucast (a ! 1) - ucast (a ! 2) + 2 * ucast (a ! 4) + 2 * ucast (a ! 5) + ucast (a ! 6),
            0 - ucast (a ! 2) - ucast (a ! 3) + 2 * ucast (a ! 5) + 2 * ucast (a ! 6) + ucast (a ! 7),
            0 - ucast (a ! 0) - ucast (a ! 1) + ucast (a ! 5) + 3 * ucast (a ! 6) + 2 * ucast (a ! 7),
            0 + ucast (a ! 0) - ucast (a ! 2) - ucast (a ! 3) - ucast (a ! 4) - ucast (a ! 5) + 3 * ucast (a ! 7) :: u64]
      = map word_of_int [x0, x1, x2, x3, x4, x5, x6, x7]"
    unfolding w xs by simp
  have o: "(ucast (signed_drop_bit 32 (word_of_int y7 :: u64)) :: u32) = word_of_int q"
  proof -
    have "- (2 ^ 63) \<le> y7" "y7 < 2 ^ 63" using c(2) by (simp_all add: abs_less_iff)
    from word_of_int_shift [OF this] show ?thesis by (simp only: q_def ucast_word_of_int)
  qed
  let ?z = "[x0 mod 2 ^ 32 + q, y1 mod 2 ^ 32, y2 mod 2 ^ 32, y3 mod 2 ^ 32 - q, y4 mod 2 ^ 32, y5 mod 2 ^ 32, y6 mod 2 ^ 32 - q, y7 + q]"
  have n: "sp_256_mod_mul_norm_8 a = norm_store (map word_of_int ?z)"
    unfolding sp_256_mod_mul_norm_8_def Let_def t c(1)
    by (simp add: list_update_Cons_numeral o [simplified] scast_word_of_int [OF q, simplified])
  have "\<bar>e\<bar> < 2 ^ 37 \<and> \<bar>e + q\<bar> < 2 ^ 37 \<and> \<bar>e - q\<bar> < 2 ^ 37" if "0 \<le> e" "e < 2 ^ 32" for e :: int
    using q that by (auto simp: abs_less_iff)
  from this [OF pos_mod_sign pos_mod_bound]
  have m: "\<bar>x mod 2 ^ 32\<bar> < 2 ^ 37" "\<bar>x mod 2 ^ 32 + q\<bar> < 2 ^ 37" "\<bar>x mod 2 ^ 32 - q\<bar> < 2 ^ 37" for x
    by simp_all
  note st = norm_stores [OF m(2) m(1) m(1) m(3) m(1) m(1) m(3), folded n]
  show "length (sp_256_mod_mul_norm_8 a) = 8" using st(1) n by (simp only:)
  let ?w = "wval (map word_of_int [x0, y1, y2, y3, y4, y5, y6, y7] :: u32 list)"
  have sum: "norm_sum a = x0 + 2 ^ 32 * x1 + 2 ^ 64 * x2 + 2 ^ 96 * x3 + 2 ^ 128 * x4 + 2 ^ 160 * x5 + 2 ^ 192 * x6 + 2 ^ 224 * x7"
    unfolding norm_sum_def Let_def xs A_def ..
  then have w: "norm_sum a = ?w + 2 ^ 256 * q" using carry_value [OF ys] unfolding q_def by (rule trans)
  moreover have "?w < 2 ^ 256" by (rule wval_less_256) simp
  ultimately have q_div: "norm_sum a div 2 ^ 256 = q" by (simp add: div_pos_pos_trivial del: list.map wval.simps)
  let ?m = "x0 mod 2 ^ 32 + 2 ^ 32 * (y1 mod 2 ^ 32) + 2 ^ 64 * (y2 mod 2 ^ 32) + 2 ^ 96 * (y3 mod 2 ^ 32)
    + 2 ^ 128 * (y4 mod 2 ^ 32) + 2 ^ 160 * (y5 mod 2 ^ 32) + 2 ^ 192 * (y6 mod 2 ^ 32)"
  have "?w = ?m + 2 ^ 224 * (y7 mod 2 ^ 32)" by (simp add: uint_word_of_int)
  moreover have "2 ^ 224 * y7 = 2 ^ 256 * q + 2 ^ 224 * (y7 mod 2 ^ 32)"
  proof -
    have "2 ^ 256 * q + 2 ^ 224 * e = 2 ^ 224 * (2 ^ 32 * q + e)" for e :: int by simp
    then show ?thesis by (simp only: q_def mult_div_mod_eq)
  qed
  ultimately have "norm_sum a = ?m + 2 ^ 224 * y7" using w by linarith
  note norm_correction [of "x0 mod 2 ^ 32" "y1 mod 2 ^ 32" "y2 mod 2 ^ 32" "y3 mod 2 ^ 32" "y4 mod 2 ^ 32" "y5 mod 2 ^ 32"
      "y6 mod 2 ^ 32" y7 q, folded this]
  moreover have "(norm_sum a - q * p256) mod 2 ^ 256 = (norm_sum a - q * p256 + q * 2 ^ 256) mod 2 ^ 256" by (simp only: mod_mult_self1)
  ultimately show "wval (sp_256_mod_mul_norm_8 a) = (norm_sum a - norm_sum a div 2 ^ 256 * p256) mod 2 ^ 256"
    using st(2) n q_div by (simp only:)
qed


lemma mform_norm:
  assumes "length a = 8" and "norm_exact a"
  shows "mform (sp_256_mod_mul_norm_8 a) (wval a)"
proof -
  note v = sp_256_mod_mul_norm_8_value [OF assms(1)]
  have "wval (sp_256_mod_mul_norm_8 a) = norm_sum a - norm_sum a div 2 ^ 256 * p256"
    unfolding v(2) using assms(2) by (intro mod_pos_pos_trivial) (simp_all only: norm_exact_def Let_def)
  then have "wval (sp_256_mod_mul_norm_8 a) mod p256 = norm_sum a mod p256" 
    unfolding diff_conv_add_uminus mult_minus_left [symmetric] by (simp only: mod_mult_self1)
  then show ?thesis using v(1) norm_sum_mod [OF assms(1)] by (simp only: mform_def)
qed

end
