(* ===== verification/Tls_Curve.thy ===== *)
theory Tls_Curve
  imports Tls_Mont Tls_P256
begin

text \<open>
  The formulas of Tls_P256 against the chord and tangent law on affine points, and the invariant
  of the ladder: the two points are the multiples of the base point by the bits read so far and by one more.
\<close>

section \<open>The curve\<close>

text \<open>
  Points with coordinates modulo the prime, in affine form: \<open>chord\<close> adds two points with different
  \<open>x\<close>, \<open>tangent\<close> doubles a point with \<open>y\<close> not zero, on the curve with \<open>a = -3\<close>; \<open>l\<close> is the slope.
\<close>

definition eqm :: "int \<Rightarrow> int \<Rightarrow> bool" where "eqm m n \<longleftrightarrow> m mod p256 = n mod p256"

definition chord :: "int \<times> int \<Rightarrow> int \<times> int \<Rightarrow> int \<times> int \<Rightarrow> bool" where
  "chord P Q R \<longleftrightarrow>
     (let (x1, y1) = P; (x2, y2) = Q; (x3, y3) = R
      in \<not> eqm x1 x2 \<and> (\<exists>l. eqm (l * (x2 - x1)) (y2 - y1) \<and> eqm x3 (l * l - x1 - x2) \<and> eqm y3 (l * (x1 - x3) - y1)))"

definition tangent :: "int \<times> int \<Rightarrow> int \<times> int \<Rightarrow> bool" where
  "tangent P R \<longleftrightarrow>
     (let (x1, y1) = P; (x3, y3) = R
      in \<not> eqm y1 0 \<and> (\<exists>l. eqm (l * (2 * y1)) (3 * (x1 * x1) - 3) \<and> eqm x3 (l * l - 2 * x1) \<and> eqm y3 (l * (x1 - x3) - y1)))"

lemma mform_cong: "mform a m \<Longrightarrow> eqm m n \<Longrightarrow> mform a n"
  unfolding mform_def eqm_def by (metis mod_mult_left_eq)

lemma mform_eq: "mform a m \<Longrightarrow> m = n \<Longrightarrow> mform a n" by simp

lemma mform_unique: "mform a m \<Longrightarrow> mform a n \<Longrightarrow> eqm m n"
  unfolding mform_def eqm_def by (metis cancel_R)

definition invertible :: "int \<Rightarrow> bool" where "invertible z \<longleftrightarrow> coprime z p256"

lemma invertible_inverse:
  assumes "invertible z"
  obtains w where "eqm (z * w) 1"
proof -
  obtain u v where "u * z + v * p256 = 1" using bezout_int [of z p256] assms by (auto simp: invertible_def)
  then have "z * u = 1 + (- v) * p256" by (simp add: algebra_simps)
  then have "eqm (z * u) 1" unfolding eqm_def by (metis mod_mult_self1)
  then show ?thesis using that by blast
qed

lemma invertibleI: "eqm (z * w) 1 \<Longrightarrow> invertible z"
proof -
  assume "eqm (z * w) 1"
  then have "p256 dvd z * w - 1" by (simp add: eqm_def mod_eq_dvd_iff)
  then obtain k where k: "z * w - 1 = p256 * k" by (rule dvdE)
  then have "z * w - p256 * k = 1" by simp
  then show ?thesis unfolding invertible_def by (intro coprimeI) (metis dvd_diff dvd_mult2)
qed

lemma invertible_mult [simp]: "invertible (x * y) \<longleftrightarrow> invertible x \<and> invertible y"
  by (simp add: invertible_def)

lemma invertible_power: "0 < n \<Longrightarrow> invertible (x ^ n) \<longleftrightarrow> invertible x"
  by (simp add: invertible_def)

lemma invertible_cong: "eqm x y \<Longrightarrow> invertible x \<longleftrightarrow> invertible y"
  unfolding invertible_def eqm_def by (metis coprime_mod_left_iff p256_pos less_irrefl)

lemma not_invertible_0 [simp]: "\<not> invertible 0" by (simp add: invertible_def p256_def)

lemma invertible_2: "invertible 2" by (simp add: invertible_def p256_def)

lemma mform_invertible: "mform a n \<Longrightarrow> invertible (wval a) \<longleftrightarrow> invertible n"
proof -
  assume "mform a n"
  then have "eqm (wval a) (n * 2 ^ 256)" by (simp only: mform_def eqm_def)
  from invertible_cong [OF this] show ?thesis using invertible_2 by (simp add: invertible_power del: power_numeral)
qed

text \<open>A point in Jacobian coordinates, in Montgomery form, that stands for \<open>(x, y)\<close>.\<close>

definition jacobian :: "sp_point \<Rightarrow> int \<Rightarrow> int \<times> int \<Rightarrow> bool" where
  "jacobian p Z = (\<lambda>(x, y). \<not> sp_infinity p \<and> mform (sp_x p) (x * Z ^ 2) \<and> mform (sp_y p) (y * Z ^ 3) \<and> mform (sp_z p) Z \<and> invertible Z)"

text \<open>The sums and differences of the doubling are in range.\<close>

definition point_dbl_exact :: "sp_point \<Rightarrow> bool" where
  "point_dbl_exact p =
     (let t1 = sp_256_mont_sqr_8 (sp_z p);
          z = sp_256_mont_mul_8 (sp_y p) (sp_z p);
          t2 = sp_256_mont_mul_8 (sp_256_mont_add_8 (sp_x p) t1) (sp_256_mont_sub_8 (sp_x p) t1);
          m = sp_256_mont_tpl_8 t2;
          y2 = sp_256_mont_sqr_8 (sp_256_mont_dbl_8 (sp_y p));
          t3 = sp_256_div2_8 (sp_256_mont_sqr_8 y2);
          s = sp_256_mont_mul_8 y2 (sp_x p);
          x1 = sp_256_mont_mul_8 m m;
          x2 = sp_256_mont_sub_8 x1 s;
          x3 = sp_256_mont_sub_8 x2 s;
          y3 = sp_256_mont_mul_8 (sp_256_mont_sub_8 s x3) m
      in add_exact z z \<and> sub_exact (sp_x p) t1 \<and> add_exact (sp_x p) t1 \<and> add_exact t2 t2 \<and> add_exact (sp_256_mont_add_8 t2 t2) t2
         \<and> add_exact (sp_y p) (sp_y p) \<and> sub_exact x1 s \<and> sub_exact x2 s \<and> sub_exact s x3 \<and> sub_exact y3 t3
         \<and> invertible (wval (sp_y p)))"

lemma eqm_refl [simp]: "eqm x x" by (simp add: eqm_def)

lemma eqm_mult: "eqm a b \<Longrightarrow> eqm (c * a) (c * b)"
  unfolding eqm_def by (metis mod_mult_right_eq)

lemma dbl_jacobian:
  assumes "jacobian p Z (x, y)" and "point_dbl_exact p" and "eqm (l * (2 * y)) (3 * (x * x) - 3)"
    and x': "x' = l * l - 2 * x" and y': "y' = l * (x - x') - y" and Z': "Z' = 2 * y * Z ^ 4" and "invertible y"
  shows "jacobian (sp_256_proj_point_dbl_8 p) Z' (x', y')"
proof -
  have p: "\<not> sp_infinity p" "mform (sp_x p) (x * Z ^ 2)" "mform (sp_y p) (y * Z ^ 3)" "mform (sp_z p) Z" "invertible Z"
    using assms(1) by (simp_all add: jacobian_def)
  define t1 where "t1 = sp_256_mont_sqr_8 (sp_z p)"
  define z where "z = sp_256_mont_mul_8 (sp_y p) (sp_z p)"
  define t2 where "t2 = sp_256_mont_mul_8 (sp_256_mont_add_8 (sp_x p) t1) (sp_256_mont_sub_8 (sp_x p) t1)"
  define m where "m = sp_256_mont_tpl_8 t2"
  define y2 where "y2 = sp_256_mont_sqr_8 (sp_256_mont_dbl_8 (sp_y p))"
  define t3 where "t3 = sp_256_div2_8 (sp_256_mont_sqr_8 y2)"
  define s where "s = sp_256_mont_mul_8 y2 (sp_x p)"
  define x1 where "x1 = sp_256_mont_mul_8 m m"
  define x2 where "x2 = sp_256_mont_sub_8 x1 s"
  define x3 where "x3 = sp_256_mont_sub_8 x2 s"
  define y3 where "y3 = sp_256_mont_mul_8 (sp_256_mont_sub_8 s x3) m"
  note d = t1_def z_def t2_def m_def y2_def t3_def s_def x1_def x2_def x3_def y3_def
  note e = assms(2) [unfolded point_dbl_exact_def Let_def, folded t1_def z_def y2_def, folded t2_def t3_def s_def, folded m_def, folded x1_def,
      folded x2_def, folded x3_def, folded y3_def]
  have t1: "mform t1 (Z * Z)" unfolding t1_def by (rule mform_sqr [OF p(4)])
  have z: "mform (sp_256_mont_dbl_8 z) Z'"
  proof -
    have "mform z (y * Z ^ 3 * Z)" unfolding z_def by (rule mform_mul [OF p(3,4)])
    from mform_add [OF this this] e show ?thesis by (simp add: sp_256_mont_dbl_8_add Z' power_Suc eval_nat_numeral algebra_simps)
  qed
  have m: "mform m (l * Z')"
  proof -
    have "mform t2 ((x * Z ^ 2 + Z * Z) * (x * Z ^ 2 - Z * Z))"
      unfolding t2_def using e by (intro mform_mul mform_add mform_sub p t1) simp_all
    then have "mform m ((x * Z ^ 2 + Z * Z) * (x * Z ^ 2 - Z * Z) + (x * Z ^ 2 + Z * Z) * (x * Z ^ 2 - Z * Z) + (x * Z ^ 2 + Z * Z) * (x * Z ^ 2 - Z * Z))"
      unfolding m_def sp_256_mont_tpl_8_add using e by (intro mform_add) simp_all
    then have "mform m (Z ^ 4 * (3 * (x * x) - 3))" by (rule mform_eq) algebra
    moreover have "eqm (Z ^ 4 * (3 * (x * x) - 3)) (Z ^ 4 * (l * (2 * y)))" using eqm_mult [OF assms(3)] by (simp add: eqm_def)
    ultimately show ?thesis by (rule mform_eq [OF mform_cong]) (simp add: Z')
  qed
  have y2: "mform y2 (4 * y ^ 2 * Z ^ 6)"
  proof -
    have "mform y2 ((y * Z ^ 3 + y * Z ^ 3) * (y * Z ^ 3 + y * Z ^ 3))"
      unfolding y2_def sp_256_mont_dbl_8_add using e by (intro mform_sqr mform_add p) simp_all
    then show ?thesis by (rule mform_eq) algebra
  qed
  have t3: "mform t3 (y * Z' ^ 3)"
    unfolding t3_def by (rule mform_div2, rule mform_eq [OF mform_sqr [OF y2]]) (simp only: Z', algebra)
  have s: "mform s (x * Z' ^ 2)"
    unfolding s_def by (rule mform_eq [OF mform_mul [OF y2 p(2)]]) (simp only: Z', algebra)
  have "mform x1 (l * Z' * (l * Z'))" unfolding x1_def by (rule mform_mul [OF m m])
  then have "mform x2 (l * Z' * (l * Z') - x * Z' ^ 2)" unfolding x2_def using e s by (intro mform_sub) simp_all
  then have "mform x3 (l * Z' * (l * Z') - x * Z' ^ 2 - x * Z' ^ 2)" unfolding x3_def using e s by (intro mform_sub) simp_all
  then have x3: "mform x3 (x' * Z' ^ 2)" by (rule mform_eq) (simp only: x', algebra)
  have "mform y3 ((x * Z' ^ 2 - x' * Z' ^ 2) * (l * Z'))"
    unfolding y3_def using e s x3 m by (intro mform_mul mform_sub) simp_all
  then have "mform (sp_256_mont_sub_8 y3 t3) ((x * Z' ^ 2 - x' * Z' ^ 2) * (l * Z') - y * Z' ^ 3)"
    using e t3 by (intro mform_sub) simp_all
  then have yr: "mform (sp_256_mont_sub_8 y3 t3) (y' * Z' ^ 3)" by (rule mform_eq) (simp only: y', algebra)
  have "sp_256_proj_point_dbl_8 p = \<lparr>sp_x = x3, sp_y = sp_256_mont_sub_8 y3 t3, sp_z = sp_256_mont_dbl_8 z, sp_infinity = False\<rparr>"
    using p(1) by (simp add: sp_256_proj_point_dbl_8_def Let_def d)
  moreover have "invertible Z'" using assms(7) p(5) invertible_2 by (simp add: Z' invertible_power)
  ultimately show ?thesis using z x3 yr by (simp add: jacobian_def)
qed

definition point_add_exact :: "sp_point \<Rightarrow> sp_point \<Rightarrow> bool" where
  "point_add_exact p q =
     (let q2 = sp_256_mont_sqr_8 (sp_z q);
          p2 = sp_256_mont_sqr_8 (sp_z p);
          u1 = sp_256_mont_mul_8 q2 (sp_x p);
          u2 = sp_256_mont_mul_8 p2 (sp_x q);
          s1 = sp_256_mont_mul_8 (sp_256_mont_mul_8 q2 (sp_z q)) (sp_y p);
          s2 = sp_256_mont_mul_8 (sp_256_mont_mul_8 p2 (sp_z p)) (sp_y q);
          h = sp_256_mont_sub_8 u2 u1;
          d = sp_256_mont_sub_8 s2 s1;
          h2 = sp_256_mont_sqr_8 h;
          v = sp_256_mont_mul_8 u1 h2;
          h3 = sp_256_mont_mul_8 h2 h;
          x1 = sp_256_mont_sqr_8 d;
          x2 = sp_256_mont_sub_8 x1 h3;
          x3 = sp_256_mont_sub_8 x2 (sp_256_mont_dbl_8 v);
          y1 = sp_256_mont_mul_8 (sp_256_mont_sub_8 v x3) d;
          t5 = sp_256_mont_mul_8 h3 s1
      in sub_exact u2 u1 \<and> sub_exact s2 s1 \<and> sub_exact x1 h3 \<and> add_exact v v \<and> sub_exact x2 (sp_256_mont_dbl_8 v)
         \<and> sub_exact v x3 \<and> sub_exact y1 t5 \<and> invertible (wval h))"

lemma eqm_dvd: "eqm x y \<longleftrightarrow> p256 dvd x - y" by (simp add: eqm_def mod_eq_dvd_iff)

lemma same_coordinates:
  assumes "jacobian p Z1 (a1, b1)" and "jacobian q Z2 (a2, b2)" and "sp_x p = sp_x q \<and> sp_z p = sp_z q"
  shows "\<not> invertible (a2 - a1)"
proof
  assume "invertible (a2 - a1)"
  then have "invertible ((a2 - a1) * Z1 ^ 2)" using assms(1) by (simp add: jacobian_def invertible_power)
  have "eqm (a2 * Z2 ^ 2) (a1 * Z1 ^ 2)" "eqm Z2 Z1"
    using assms mform_unique by (auto simp: jacobian_def)
  then have "eqm ((a2 - a1) * Z1 ^ 2) 0"
    unfolding eqm_dvd diff_0_right
  proof -
    assume d: "p256 dvd a2 * Z2 ^ 2 - a1 * Z1 ^ 2" "p256 dvd Z2 - Z1"
    have "(a2 - a1) * Z1 ^ 2 = (a2 * Z2 ^ 2 - a1 * Z1 ^ 2) - (Z2 - Z1) * (a2 * (Z2 + Z1))" by algebra
    then show "p256 dvd (a2 - a1) * Z1 ^ 2" using d by (simp add: dvd_diff)
  qed
  from invertible_cong [OF this] show False using \<open>invertible ((a2 - a1) * Z1 ^ 2)\<close> by simp
qed

lemma add_jacobian:
  assumes "jacobian p Z1 (a1, b1)" and "jacobian q Z2 (a2, b2)" and "point_add_exact p q" and "eqm (l * (a2 - a1)) (b2 - b1)"
    and x': "x' = l * l - a1 - a2" and y': "y' = l * (a1 - x') - b1" and Z': "Z' = (a2 - a1) * (Z1 * Z2) ^ 3" and "invertible (a2 - a1)"
  shows "jacobian (sp_256_proj_point_add_8 p q) Z' (x', y')"
proof -
  have p: "\<not> sp_infinity p" "mform (sp_x p) (a1 * Z1 ^ 2)" "mform (sp_y p) (b1 * Z1 ^ 3)" "mform (sp_z p) Z1" "invertible Z1"
    using assms(1) by (simp_all add: jacobian_def)
  have q: "\<not> sp_infinity q" "mform (sp_x q) (a2 * Z2 ^ 2)" "mform (sp_y q) (b2 * Z2 ^ 3)" "mform (sp_z q) Z2" "invertible Z2"
    using assms(2) by (simp_all add: jacobian_def)
  define q2 where "q2 = sp_256_mont_sqr_8 (sp_z q)"
  define p2 where "p2 = sp_256_mont_sqr_8 (sp_z p)"
  define u1 where "u1 = sp_256_mont_mul_8 q2 (sp_x p)"
  define u2 where "u2 = sp_256_mont_mul_8 p2 (sp_x q)"
  define s1 where "s1 = sp_256_mont_mul_8 (sp_256_mont_mul_8 q2 (sp_z q)) (sp_y p)"
  define s2 where "s2 = sp_256_mont_mul_8 (sp_256_mont_mul_8 p2 (sp_z p)) (sp_y q)"
  define h where "h = sp_256_mont_sub_8 u2 u1"
  define d where "d = sp_256_mont_sub_8 s2 s1"
  define h2 where "h2 = sp_256_mont_sqr_8 h"
  define v where "v = sp_256_mont_mul_8 u1 h2"
  define h3 where "h3 = sp_256_mont_mul_8 h2 h"
  define x1 where "x1 = sp_256_mont_sqr_8 d"
  define x2 where "x2 = sp_256_mont_sub_8 x1 h3"
  define x3 where "x3 = sp_256_mont_sub_8 x2 (sp_256_mont_dbl_8 v)"
  define y1 where "y1 = sp_256_mont_mul_8 (sp_256_mont_sub_8 v x3) d"
  define t5 where "t5 = sp_256_mont_mul_8 h3 s1"
  note ds = q2_def p2_def u1_def u2_def s1_def s2_def h_def d_def h2_def v_def h3_def x1_def x2_def x3_def y1_def t5_def
  note e = assms(3) [unfolded point_add_exact_def Let_def, folded q2_def p2_def, folded u1_def u2_def s1_def s2_def, folded h_def d_def,
      folded h2_def x1_def, folded v_def h3_def, folded x2_def t5_def, folded x3_def, folded y1_def]
  let ?W = "Z1 * Z2" and ?H = "(a2 - a1) * (Z1 * Z2) ^ 2"
  have q2: "mform q2 (Z2 * Z2)" and p2: "mform p2 (Z1 * Z1)" unfolding q2_def p2_def by (intro mform_sqr p q)+
  have u1: "mform u1 (a1 * ?W ^ 2)" unfolding u1_def by (rule mform_eq [OF mform_mul [OF q2 p(2)]]) algebra
  have u2: "mform u2 (a2 * ?W ^ 2)" unfolding u2_def by (rule mform_eq [OF mform_mul [OF p2 q(2)]]) algebra
  have s1: "mform s1 (b1 * ?W ^ 3)" unfolding s1_def by (rule mform_eq [OF mform_mul [OF mform_mul [OF q2 q(4)] p(3)]]) algebra
  have s2: "mform s2 (b2 * ?W ^ 3)" unfolding s2_def by (rule mform_eq [OF mform_mul [OF mform_mul [OF p2 p(4)] q(3)]]) algebra
  have "mform h (a2 * ?W ^ 2 - a1 * ?W ^ 2)" unfolding h_def using e by (intro mform_sub u1 u2) simp_all
  then have h: "mform h ?H" by (rule mform_eq) algebra
  have "mform d (b2 * ?W ^ 3 - b1 * ?W ^ 3)" unfolding d_def using e by (intro mform_sub s1 s2) simp_all
  then have "mform d (?W ^ 3 * (b2 - b1))" by (rule mform_eq) algebra
  moreover have "eqm (?W ^ 3 * (b2 - b1)) (?W ^ 3 * (l * (a2 - a1)))" using eqm_mult [OF assms(4)] by (simp add: eqm_def)
  ultimately have d: "mform d (l * Z')" by (rule mform_eq [OF mform_cong]) (simp add: Z')
  have z: "mform (sp_256_mont_mul_8 (sp_256_mont_mul_8 (sp_z p) (sp_z q)) h) Z'"
    by (rule mform_eq [OF mform_mul [OF mform_mul [OF p(4) q(4)] h]]) (simp only: Z', algebra)
  have h2: "mform h2 (?H * ?H)" unfolding h2_def by (rule mform_sqr [OF h])
  have v: "mform v (a1 * Z' ^ 2)" unfolding v_def by (rule mform_eq [OF mform_mul [OF u1 h2]]) (simp only: Z', algebra)
  have h3: "mform h3 (?H ^ 3)" unfolding h3_def by (rule mform_eq [OF mform_mul [OF h2 h]]) algebra
  have "mform x1 (l * Z' * (l * Z'))" unfolding x1_def by (rule mform_sqr [OF d])
  then have "mform x2 (l * Z' * (l * Z') - ?H ^ 3)" unfolding x2_def using e by (intro mform_sub h3) simp_all
  moreover have v2: "mform (sp_256_mont_dbl_8 v) (a1 * Z' ^ 2 + a1 * Z' ^ 2)"
    unfolding sp_256_mont_dbl_8_add using e by (intro mform_add v) simp_all
  ultimately have "mform x3 (l * Z' * (l * Z') - ?H ^ 3 - (a1 * Z' ^ 2 + a1 * Z' ^ 2))"
    unfolding x3_def using e by (intro mform_sub) simp_all
  then have x3: "mform x3 (x' * Z' ^ 2)" by (rule mform_eq) (simp only: x' Z', algebra)
  have "mform y1 ((a1 * Z' ^ 2 - x' * Z' ^ 2) * (l * Z'))" unfolding y1_def using e by (intro mform_mul mform_sub v x3 d) simp_all
  moreover have t5: "mform t5 (b1 * Z' ^ 3)" unfolding t5_def by (rule mform_eq [OF mform_mul [OF h3 s1]]) (simp only: Z', algebra)
  ultimately have "mform (sp_256_mont_sub_8 y1 t5) ((a1 * Z' ^ 2 - x' * Z' ^ 2) * (l * Z') - b1 * Z' ^ 3)"
    using e by (intro mform_sub) simp_all
  then have yr: "mform (sp_256_mont_sub_8 y1 t5) (y' * Z' ^ 3)" by (rule mform_eq) (simp only: y', algebra)
  have "\<not> (sp_x p = sp_x q \<and> sp_z p = sp_z q)" using same_coordinates [OF assms(1,2)] assms(8) by blast
  then have nd: "(sp_256_cmp_equal_8 (sp_x p) (sp_x q) \<and> sp_256_cmp_equal_8 (sp_z p) (sp_z q) \<and> C) = False" for C
    using p q by (auto simp: sp_256_cmp_equal_8_iff)
  have "sp_256_proj_point_add_8 p q = \<lparr>sp_x = x3, sp_y = sp_256_mont_sub_8 y1 t5,
      sp_z = sp_256_mont_mul_8 (sp_256_mont_mul_8 (sp_z p) (sp_z q)) h, sp_infinity = False\<rparr>"
    unfolding sp_256_proj_point_add_8_def Let_def nd using p(1) q(1) by (simp add: ds)
  moreover have "invertible Z'" using assms(8) p(5) q(5) by (simp add: Z' invertible_power)
  ultimately show ?thesis using z x3 yr by (simp add: jacobian_def)
qed


lemma add_exact_invertible:
  assumes "jacobian p Z1 (a1, b1)" and "jacobian q Z2 (a2, b2)" and "point_add_exact p q"
  shows "invertible (a2 - a1)"
proof -
  have "mform (sp_256_mont_mul_8 (sp_256_mont_sqr_8 (sp_z q)) (sp_x p)) (Z2 * Z2 * (a1 * Z1 ^ 2))"
    "mform (sp_256_mont_mul_8 (sp_256_mont_sqr_8 (sp_z p)) (sp_x q)) (Z1 * Z1 * (a2 * Z2 ^ 2))"
    using assms(1,2) by (auto simp: jacobian_def intro: mform_mul mform_sqr)
  then have "invertible (Z1 * Z1 * (a2 * Z2 ^ 2) - Z2 * Z2 * (a1 * Z1 ^ 2))"
    using assms(3) mform_invertible [OF mform_sub] by (auto simp: point_add_exact_def Let_def)
  moreover have "Z1 * Z1 * (a2 * Z2 ^ 2) - Z2 * Z2 * (a1 * Z1 ^ 2) = (a2 - a1) * (Z1 * Z2) ^ 2" by algebra
  ultimately show ?thesis by simp
qed

text \<open>The two formulas, as operations on affine points.\<close>

lemma point_add_chord:
  assumes "jacobian p Z1 P" and "jacobian q Z2 Q" and "point_add_exact p q"
  obtains Z R where "jacobian (sp_256_proj_point_add_8 p q) Z R" and "chord P Q R"
proof -
  obtain a1 b1 a2 b2 where PQ: "P = (a1, b1)" "Q = (a2, b2)" by (cases P, cases Q)
  have i: "invertible (a2 - a1)" using add_exact_invertible assms by (simp add: PQ)
  obtain w where w: "eqm ((a2 - a1) * w) 1" using invertible_inverse [OF i] .
  define l where "l = (b2 - b1) * w"
  have l: "eqm (l * (a2 - a1)) (b2 - b1)" using eqm_mult [OF w, of "b2 - b1"] by (simp add: l_def mult_ac)
  define x where "x = l * l - a1 - a2"
  define y where "y = l * (a1 - x) - b1"
  have "\<not> eqm a1 a2"
  proof
    assume "eqm a1 a2"
    then have "eqm (a2 - a1) 0" by (simp add: eqm_dvd dvd_diff_commute)
    then show False using i invertible_cong by fastforce
  qed
  then have "chord P Q (x, y)" using l unfolding chord_def PQ by (auto simp: x_def y_def intro!: exI [of _ l])
  then show ?thesis
    using that add_jacobian [OF assms(1) [unfolded PQ] assms(2) [unfolded PQ] assms(3) l x_def y_def refl i] by blast
qed

lemma point_dbl_tangent:
  assumes "jacobian p Z P" and "point_dbl_exact p"
  obtains Z' R where "jacobian (sp_256_proj_point_dbl_8 p) Z' R" and "tangent P R"
proof -
  obtain x y where P: "P = (x, y)" by (cases P)
  have "mform (sp_y p) (y * Z ^ 3)" using assms(1) by (simp add: jacobian_def P)
  moreover have "invertible (wval (sp_y p))" using assms(2) by (simp add: point_dbl_exact_def Let_def)
  ultimately have "invertible (y * Z ^ 3)" using mform_invertible by blast
  then have i: "invertible y" by simp
  then have "invertible (2 * y)" using invertible_2 by simp
  from invertible_inverse [OF this] obtain w where w: "eqm (2 * y * w) 1" .
  define l where "l = (3 * (x * x) - 3) * w"
  have l: "eqm (l * (2 * y)) (3 * (x * x) - 3)" using eqm_mult [OF w, of "3 * (x * x) - 3"] by (simp add: l_def mult_ac)
  define x' where "x' = l * l - 2 * x"
  define y' where "y' = l * (x - x') - y"
  have "\<not> eqm y 0" using i invertible_cong by fastforce
  then have "tangent P (x', y')" using l unfolding tangent_def P by (auto simp: x'_def y'_def intro!: exI [of _ l])
  then show ?thesis
    using that dbl_jacobian [OF assms(1) [unfolded P] assms(2) l x'_def y'_def refl i] by blast
qed

section \<open>The ladder\<close>

text \<open>
  \<open>ec_multiple G n P\<close>: chords and tangents lead from \<open>G\<close> to \<open>P\<close> as the \<open>n\<close>-fold sum of \<open>G\<close>.
\<close>

inductive ec_multiple :: "int \<times> int \<Rightarrow> nat \<Rightarrow> int \<times> int \<Rightarrow> bool" for G where
  ec_one: "ec_multiple G 1 G"
| ec_chord: "ec_multiple G m P \<Longrightarrow> ec_multiple G n Q \<Longrightarrow> chord P Q R \<Longrightarrow> ec_multiple G (m + n) R"
| ec_tangent: "ec_multiple G m P \<Longrightarrow> tangent P R \<Longrightarrow> ec_multiple G (2 * m) R"

abbreviation sp_inf :: sp_point where "sp_inf \<equiv> sp_zero\<lparr>sp_infinity := True\<rparr>"

lemma jacobian_z_nonzero: "jacobian p Z P \<Longrightarrow> sp_z p \<noteq> replicate 8 0"
proof
  assume "jacobian p Z P" "sp_z p = replicate 8 0"
  then have "mform (replicate 8 0) Z" "invertible Z" by (auto simp: jacobian_def)
  then show False using mform_invertible [of "replicate 8 0" Z] by (metis not_invertible_0 wval_replicate_zero)
qed

lemma add_infinity:
  assumes "jacobian p Z P"
  shows "sp_256_proj_point_add_8 p sp_inf = p" and "sp_256_proj_point_add_8 sp_inf p = p"
proof -
  have l: "length (sp_z p) = 8" "\<not> sp_infinity p" using assms by (auto simp: jacobian_def)
  have "\<not> sp_256_cmp_equal_8 (sp_z p) (replicate 8 0)" "\<not> sp_256_cmp_equal_8 (replicate 8 0) (sp_z p)"
    using jacobian_z_nonzero [OF assms] l by (auto simp: sp_256_cmp_equal_8_iff)
  then show "sp_256_proj_point_add_8 p sp_inf = p" "sp_256_proj_point_add_8 sp_inf p = p"
    using l by (simp_all add: sp_256_proj_point_add_8_def sp_zero_def)
qed

lemma dbl_infinity: "sp_256_proj_point_dbl_8 sp_inf = sp_inf"
  by (simp add: sp_256_proj_point_dbl_8_def)

text \<open>The points of \<^verbatim>\<open>t[0]\<close> and \<^verbatim>\<open>t[1]\<close> after a pass.\<close>

definition ladder_points :: "bool \<Rightarrow> sp_point \<times> sp_point \<Rightarrow> sp_point \<times> sp_point" where
  "ladder_points b = (\<lambda>(p, q).
     if b then (sp_256_proj_point_add_8 p q, sp_256_proj_point_dbl_8 q)
     else (sp_256_proj_point_dbl_8 p, sp_256_proj_point_add_8 q p))"

lemma mulmod_pass_points:
  assumes "length t = 3"
  shows "\<exists>t'. mulmod_pass (of_bool b) (n, t) = (push_bit 1 n, t') \<and> length t' = 3
    \<and> (t' ! 0, t' ! 1) = ladder_points b (t ! 0, t ! 1)"
proof -
  obtain p q r where t: "t = [p, q, r]" using assms by (auto simp: length_Suc_conv numeral_3_eq_3)
  show ?thesis by (cases b) (simp_all add: t mulmod_pass_def ladder_points_def list_update_Cons_numeral)
qed

definition scalar_bit :: "u32 list \<Rightarrow> nat \<Rightarrow> bool" where
  "scalar_bit k i \<longleftrightarrow> bit (k ! (i div 32)) (i mod 32)"

lemma top_bit: "r < 32 \<Longrightarrow> unat (drop_bit 31 (push_bit (31 - r) (w :: u32))) = of_bool (bit w r)"
proof -
  assume r: "r < 32"
  have "drop_bit 31 (push_bit (31 - r) w) = of_bool (bit w r)"
  proof (rule bit_word_eqI)
    fix n assume "n < LENGTH(32)"
    show "bit (drop_bit 31 (push_bit (31 - r) w)) n = bit (of_bool (bit w r) :: u32) n"
      using r by (cases "n = 0") (auto simp: bit_simps dest: bit_imp_le_length)
  qed
  then show ?thesis by simp
qed

lemma mulmod_loop_points:
  assumes "c \<le> 32 * length k" and "c mod 32 \<noteq> 0 \<Longrightarrow> n = push_bit (32 - c mod 32) (k ! (c div 32))" and "length t = 3"
  shows "(mulmod_loop k c (n, t) ! 0, mulmod_loop k c (n, t) ! 1)
    = fold ladder_points (map (scalar_bit k) (rev [0..<c])) (t ! 0, t ! 1)"
  using assms
proof (induction c arbitrary: n t)
  case (Suc c)
  let ?n = "if Suc c AND 0x1f = 0 then k ! (Suc c div 32 - 1) else n"
  have low: "Suc c AND 0x1f = Suc c mod 32"
  proof -
    have "(0x1f :: nat) = mask 5" by (simp add: mask_eq_exp_minus_1)
    then show ?thesis by (simp only: take_bit_eq_mask [symmetric] take_bit_eq_mod) simp
  qed
  have n: "?n = push_bit (31 - c mod 32) (k ! (c div 32))"
  proof (cases "Suc c mod 32 = 0")
    case True
    then have "c mod 32 = 31" "Suc c div 32 - 1 = c div 32" by (simp_all add: mod_Suc div_Suc split: if_splits)
    then show ?thesis using True low by simp
  next
    case False
    then have "Suc c mod 32 = Suc (c mod 32)" "Suc c div 32 = c div 32" by (simp_all add: mod_Suc div_Suc split: if_splits)
    then show ?thesis using False low Suc.prems(2) by simp
  qed
  obtain t' where t': "mulmod_pass (of_bool (scalar_bit k c)) (?n, t) = (push_bit 1 ?n, t')" "length t' = 3"
    "(t' ! 0, t' ! 1) = ladder_points (scalar_bit k c) (t ! 0, t ! 1)"
    using mulmod_pass_points [OF Suc.prems(3)] by blast
  have "unat (drop_bit 31 ?n) = of_bool (scalar_bit k c)" unfolding n by (simp add: top_bit scalar_bit_def)
  then have "mulmod_loop k (Suc c) (n, t) = mulmod_loop k c (push_bit 1 ?n, t')" using t'(1) by (simp add: Let_def)
  moreover have "push_bit 1 ?n = push_bit (32 - c mod 32) (k ! (c div 32))"
  proof -
    have "1 + (31 - c mod 32) = 32 - c mod 32" using mod_less_divisor [of 32 c] by linarith
    then show ?thesis unfolding n push_bit_push_bit by (simp only:)
  qed
  ultimately show ?case using Suc.IH [of "push_bit 1 ?n" t'] Suc.prems(1) t' by simp
qed simp


text \<open>The bits of the scalar, as a number.\<close>

lemma odd_wval: "i < 32 * length k \<Longrightarrow> odd (wval k div 2 ^ i) \<longleftrightarrow> scalar_bit k i" for k :: "u32 list"
proof (induction k arbitrary: i)
  case (Cons w ws)
  show ?case
  proof (cases "i < 32")
    case True
    then have "(2 :: int) ^ 32 = 2 ^ i * (2 * 2 ^ (31 - i))" by (simp flip: power_add power_Suc)
    then have "wval (w # ws) = uint w + 2 ^ i * (2 * 2 ^ (31 - i) * wval ws)" by (simp only: wval.simps mult.assoc) simp
    then have "wval (w # ws) div 2 ^ i = uint w div 2 ^ i + 2 * 2 ^ (31 - i) * wval ws" by (simp only:) (subst div_mult_self2; simp)
    then show ?thesis using True by (simp add: scalar_bit_def bit_iff_odd [of "uint w", symmetric] bit_uint_iff)
  next
    case False
    then obtain j where j: "i = 32 + j" using le_Suc_ex not_less by blast
    have "wval (w # ws) div 2 ^ 32 = wval ws" using uint_lt2p [of w] by simp
    then have "wval (w # ws) div 2 ^ i = wval ws div 2 ^ j" unfolding j power_add by (simp only: zdiv_zmult2_eq zero_le_power zero_le_numeral)
    then show ?thesis using Cons.IH [of j] Cons.prems unfolding j by (simp add: scalar_bit_def div_add_self1)
  qed
qed simp

lemma scalar_step:
  fixes k :: "u32 list"
  assumes "c < 32 * length k"
  shows "nat (wval k div 2 ^ c) = 2 * nat (wval k div 2 ^ Suc c) + of_bool (scalar_bit k c)"
proof -
  let ?m = "wval k div 2 ^ c"
  have "wval k div 2 ^ Suc c = ?m div 2" unfolding power_Suc2 by (rule zdiv_zmult2_eq) simp
  moreover have "?m mod 2 = of_bool (scalar_bit k c)" using odd_wval [OF assms] by (simp add: mod_2_eq_odd)
  moreover have "0 \<le> ?m" by (simp add: pos_imp_zdiv_nonneg_iff)
  moreover have "nat M = 2 * nat (M div 2) + nat (M mod 2)" if "0 \<le> M" for M :: int
    using that by (simp add: nat_div_distrib nat_mod_distrib)
  ultimately show ?thesis by (metis nat_of_bool)
qed

definition denotes :: "int \<times> int \<Rightarrow> sp_point \<Rightarrow> nat \<Rightarrow> bool" where
  "denotes G p m \<longleftrightarrow> (\<exists>Z P. jacobian p Z P \<and> ec_multiple G m P)"

lemma denotes_finite: "denotes G p m \<Longrightarrow> \<not> sp_infinity p"
  by (auto simp: denotes_def jacobian_def)

lemma denotes_add: "denotes G p m \<Longrightarrow> denotes G q n \<Longrightarrow> point_add_exact p q \<Longrightarrow> denotes G (sp_256_proj_point_add_8 p q) (m + n)"
  unfolding denotes_def by (meson point_add_chord ec_chord)

lemma denotes_dbl: "denotes G p m \<Longrightarrow> point_dbl_exact p \<Longrightarrow> denotes G (sp_256_proj_point_dbl_8 p) (2 * m)"
  unfolding denotes_def by (meson point_dbl_tangent ec_tangent)

lemma denotes_infinity:
  "denotes G p m \<Longrightarrow> sp_256_proj_point_add_8 p sp_inf = p"
  "denotes G p m \<Longrightarrow> sp_256_proj_point_add_8 sp_inf p = p"
  unfolding denotes_def by (auto simp: add_infinity)

definition ladder_inv :: "int \<times> int \<Rightarrow> nat \<Rightarrow> sp_point \<times> sp_point \<Rightarrow> bool" where
  "ladder_inv G m = (\<lambda>(p, q). (if m = 0 then p = sp_inf else denotes G p m) \<and> denotes G q (m + 1))"

definition pass_exact :: "bool \<Rightarrow> sp_point \<times> sp_point \<Rightarrow> bool" where
  "pass_exact b = (\<lambda>(p, q).
     if b then (sp_infinity p \<or> point_add_exact p q) \<and> point_dbl_exact q
     else sp_infinity p \<or> point_add_exact q p \<and> point_dbl_exact p)"

lemma ladder_inv_pass:
  assumes "ladder_inv G m t" and "pass_exact b t"
  shows "ladder_inv G (2 * m + of_bool b) (ladder_points b t)"
proof -
  obtain p q where t: "t = (p, q)" by (cases t)
  have q: "denotes G q (m + 1)" using assms(1) by (simp add: ladder_inv_def t)
  show ?thesis
  proof (cases "m = 0")
    case True
    then show ?thesis using assms q denotes_infinity [OF q] denotes_dbl [OF q]
      by (cases b) (auto simp: ladder_inv_def ladder_points_def pass_exact_def t dbl_infinity numeral_2_eq_2)
  next
    case False
    then have p: "denotes G p m" using assms(1) by (simp add: ladder_inv_def t)
    have "2 * m + 1 = m + (m + 1)" "2 * m + 2 = 2 * (m + 1)" by simp_all
    then show ?thesis
      using assms(2) False denotes_finite [OF p] denotes_add [OF p q] denotes_add [OF q p] denotes_dbl [OF p] denotes_dbl [OF q]
      by (cases b) (auto simp: ladder_inv_def ladder_points_def pass_exact_def t add.commute simp flip: mult_2)
  qed
qed

fun ladder_exact :: "bool list \<Rightarrow> sp_point \<times> sp_point \<Rightarrow> bool" where
  "ladder_exact [] t \<longleftrightarrow> True"
| "ladder_exact (b # bs) t \<longleftrightarrow> pass_exact b t \<and> ladder_exact bs (ladder_points b t)"

lemma ladder_inv_loop:
  assumes "ladder_inv G (nat (wval k div 2 ^ c)) t" and "ladder_exact (map (scalar_bit k) (rev [0..<c])) t" and "c \<le> 32 * length k"
  shows "ladder_inv G (nat (wval k)) (fold ladder_points (map (scalar_bit k) (rev [0..<c])) t)"
  using assms
proof (induction c arbitrary: t)
  case (Suc c)
  then have "ladder_inv G (nat (wval k div 2 ^ c)) (ladder_points (scalar_bit k c) t)"
    using ladder_inv_pass [of G "nat (wval k div 2 ^ Suc c)" t "scalar_bit k c"] scalar_step [of c k] by simp
  then show ?case using Suc by simp
qed simp

end
