(* ===== verification/Tls_Sp_Le64.thy ===== *)
theory Tls_Sp_Le64
  imports Tls_Mont
begin

text \<open>
  The versions of \<^verbatim>\<open>tls_sp_c32.c\<close> for 64-bit processors compute the same as those for
  words of 32 bits.
\<close>

lemma join_word: "uint (ucast lo OR push_bit 32 (ucast hi) :: u64) = uint lo + 2 ^ 32 * uint hi" for lo hi :: u32
proof -
  have "ucast lo OR push_bit 32 (ucast hi) = ucast lo + (push_bit 32 (ucast hi) :: u64)"
    by (rule disjunctive_add [symmetric]) (auto simp: bit_simps dest: bit_imp_le_length)
  moreover have "uint (push_bit 32 (ucast hi) :: u64) = 2 ^ 32 * uint hi"
    using uint_lt2p [of hi] by (simp add: push_bit_eq_mult uint_word_ariths uint_ucast_32_64)
  ultimately show ?thesis
    using uint_lt2p [of lo] uint_lt2p [of hi] by (simp add: uint_add_wrap uint_ucast_32_64)
qed

lemma split_word: "uint (ucast w :: u32) + 2 ^ 32 * uint (ucast (drop_bit 32 w) :: u32) = uint w" for w :: u64
proof -
  have "uint w div 2 ^ 32 < 2 ^ 32" "0 \<le> uint w div 2 ^ 32" using uint_lt2p [of w] by (simp_all add: div_int_pos_iff)
  then have "uint w div 2 ^ 32 mod 2 ^ 32 = uint w div 2 ^ 32" by (intro mod_pos_pos_trivial)
  then show ?thesis unfolding uint_ucast_64_32 uint_shift32 by (simp only: mod_mult_div_eq)
qed

lemma join64_value: "even (length ws) \<Longrightarrow> length (join64 ws) = length ws div 2 \<and> wval (join64 ws) = wval ws"
  by (induction ws rule: join64.induct) (simp_all add: join_word)

lemma split64_value: "length (split64 ws) = 2 * length ws \<and> wval (split64 ws) = wval ws"
proof (induction ws)
  case (Cons w ws)
  then show ?case using split_word [of w] by simp
qed simp

lemma eq_by_value: "length a = length b \<Longrightarrow> wval a = wval b \<Longrightarrow> a = b" for a :: "'a :: len word list"
  by (simp add: wval_inject)

lemma from_bin_le64: "32 \<le> length a \<Longrightarrow> sp_256_from_bin_8_le64 a = sp_256_from_bin_8 a"
  using words_from_bin [of 8 bswap64 4 a] bswap64_le_word sp_256_from_bin_8_value [of a]
  by (intro eq_by_value) (simp_all add: sp_256_from_bin_8_le64_def split64_value)

lemma to_bin_le64:
  assumes "length r = 8"
  shows "sp_256_to_bin_8_le64 r = sp_256_to_bin_8 r"
proof -
  have "length (join64 r) = 4" "wval (join64 r) = wval r" using join64_value [of r] assms by simp_all
  then have "wval (rev (sp_256_to_bin_8_le64 r)) = wval (rev (sp_256_to_bin_8 r))"
    using words_to_bin [of 8 bswap64 "join64 r" 3] le_bytes_bswap64 sp_256_to_bin_8_value(2) [OF assms]
    by (simp add: sp_256_to_bin_8_le64_def comp_def del: upt_Suc)
  then have "rev (sp_256_to_bin_8_le64 r) = rev (sp_256_to_bin_8 r)"
    using sp_256_to_bin_8_value(1) [OF assms]
    by (intro eq_by_value) (simp_all add: sp_256_to_bin_8_le64_def length_concat comp_def sum_list_triv)
  then show ?thesis by simp
qed

lemma cmp_le64:
  assumes "length a = 8" and "length b = 8"
  shows "sp_256_cmp_8_le64 a b = sp_256_cmp_8 a b"
  using join64_value [of a] join64_value [of b] cmp_loop_value [of 4 "join64 a" "join64 b"] assms
  by (simp add: sp_256_cmp_8_le64_def sp_256_cmp_8_sgn)

lemma rshift1_le64:
  assumes "length r = 8" and "c \<noteq> 0 \<longleftrightarrow> c' \<noteq> 0"
  shows "sp_256_rshift1_8_le64 r c = sp_256_rshift1_8 r c'"
proof -
  have j: "length (join64 r) = 4" "wval (join64 r) = wval r" using join64_value [of r] assms by simp_all
  show ?thesis
    using rshift_words_value [of 63 "join64 r" 4 "c \<noteq> 0"] sp_256_rshift1_8_value [OF assms(1), of c'] j assms(2)
    by (intro eq_by_value) (simp_all add: sp_256_rshift1_8_le64_def split64_value)
qed

lemma split_five:
  assumes "i + 5 \<le> length r"
  obtains r0 r1 r2 r3 r4 where "r = take i r @ r0 # r1 # r2 # r3 # r4 # drop (i + 5) r"
proof -
  have "drop k r = r ! k # drop (Suc k) r" if "k < i + 5" for k
    using that assms by (simp add: Cons_nth_drop_Suc)
  then have "drop i r = r ! i # r ! (i + 1) # r ! (i + 2) # r ! (i + 3) # r ! (i + 4) # drop (i + 5) r"
    by (simp add: eval_nat_numeral)
  then show ?thesis using that append_take_drop_id [of i r] by metis
qed

lemma add_carry: "uint (x + y) + 2 ^ LENGTH('a) * of_bool (x + y < y) = uint x + uint (y :: 'a :: len word)"
  and add_carry': "uint (x + y) + 2 ^ LENGTH('a) * of_bool (x + y < x) = uint x + uint (y :: 'a :: len word)"
  using uint_lt2p [of x] uint_lt2p [of y] by (auto simp: word_less_def uint_add_wrap)


lemma uint_push32: "uint (push_bit 32 w) = 2 ^ 32 * (uint w mod 2 ^ 32)" for w :: u64
  unfolding unsigned_push_bit_eq by (simp add: push_bit_eq_mult take_bit_eq_mod mult.commute mod_mult_mult1 [symmetric])

lemma shift_join: "uint (drop_bit 32 a OR push_bit 32 w) = uint a div 2 ^ 32 + 2 ^ 32 * (uint w mod 2 ^ 32)" for a w :: u64
proof -
  have "drop_bit 32 a OR push_bit 32 w = drop_bit 32 a + push_bit 32 w"
    by (rule disjunctive_add [symmetric]) (auto simp: bit_simps dest: bit_imp_le_length)
  moreover have "uint a div 2 ^ 32 < 2 ^ 32" using uint_lt2p [of a] by simp
  moreover have "uint w mod 2 ^ 32 < 2 ^ 32" by simp
  ultimately show ?thesis by (simp only: uint_add_wrap uint_push32 uint_shift32) simp
qed

lemma mid_words:
  fixes b r1 r2 :: u64
  assumes s1: "s1 = r1 + push_bit 32 b" and t: "t = of_bool (s1 < push_bit 32 b) + drop_bit 32 b" and s2: "s2 = r2 + t"
  shows "uint s1 + 2 ^ 64 * uint s2 + 2 ^ 128 * of_bool (s2 < t) = uint r1 + 2 ^ 64 * uint r2 + 2 ^ 32 * uint b"
proof -
  note pb = uint_push32 [of b]
  have bd: "uint b div 2 ^ 32 < 2 ^ 32" using uint_lt2p [of b] by simp
  have t': "uint t = of_bool (s1 < push_bit 32 b) + uint b div 2 ^ 32" using bd by (simp add: t uint_add_wrap uint_shift32)
  have c1: "uint s1 + 2 ^ 64 * of_bool (s1 < push_bit 32 b) = uint r1 + 2 ^ 32 * (uint b mod 2 ^ 32)"
    using add_carry [of r1 "push_bit 32 b"] pb by (simp add: s1)
  have c2: "uint s2 + 2 ^ 64 * of_bool (s2 < t) = uint r2 + (of_bool (s1 < push_bit 32 b) + uint b div 2 ^ 32)"
    using add_carry [of r2 t] t' by (simp add: s2)
  have "2 ^ 32 * uint b = 2 ^ 32 * (uint b mod 2 ^ 32) + 2 ^ 64 * (uint b div 2 ^ 32)"
    by (subst mult_div_mod_eq [symmetric, of "uint b" "2 ^ 32"]) (simp only: distrib_left, simp)
  then show ?thesis using c1 c2 by simp
qed

lemma high_words:
  fixes b r3 r4 c t64 :: u64
  assumes "uint c \<le> 1" and t1: "t1 = c + b" and t2: "t2 = t1 + r3"
    and hi: "hi = push_bit 32 b - b" and t3: "t3 = t2 + push_bit 32 hi"
    and u: "u = of_bool (t1 < b) + of_bool (t2 < r3) + of_bool (t3 < push_bit 32 hi)
      + (drop_bit 32 hi OR push_bit 32 (drop_bit 32 b - of_bool (push_bit 32 b < b)))"
    and e: "e = r4 + u"
  shows "uint t3 + 2 ^ 64 * uint e + 2 ^ 128 * of_bool (e < u) = uint r3 + 2 ^ 64 * uint r4 + uint c + uint b + (2 ^ 64 - 2 ^ 32) * uint b"
proof -
  define B where "B = uint b"
  define bl bh where "bl = B mod 2 ^ 32" and "bh = B div 2 ^ 32"
  have B: "B = 2 ^ 32 * bh + bl" by (simp add: bl_def bh_def)
  have bl: "0 \<le> bl" "bl < 2 ^ 32" by (simp_all add: bl_def)
  have bh: "0 \<le> bh" "bh < 2 ^ 32" using uint_lt2p [of b] by (simp_all add: bh_def B_def div_int_pos_iff)
  define X where "X = (2 ^ 32 - 1) * B"
  define k where "k = bh - of_bool (2 ^ 32 * bl < B)"
  have k: "0 \<le> k" "k < 2 ^ 32"
  proof -
    have "1 \<le> bh" if "2 ^ 32 * bl < B"
    proof (rule ccontr)
      assume "\<not> 1 \<le> bh"
      then have "B = bl" using bh B by simp
      then show False using that bl by simp
    qed
    then show "0 \<le> k" "k < 2 ^ 32" using bh by (auto simp: k_def)
  qed
  have less: "push_bit 32 b < b \<longleftrightarrow> 2 ^ 32 * bl < B" unfolding word_less_def uint_push32 by (simp add: bl_def B_def)
  have hi': "uint hi = X - 2 ^ 64 * k"
    unfolding hi uint_sub_wrap uint_push32 B_def [symmetric] bl_def [symmetric] using B by (auto simp: X_def k_def)
  have "uint (drop_bit 32 b) = bh" by (simp add: uint_shift32 bh_def B_def)
  then have w: "uint (drop_bit 32 b - of_bool (push_bit 32 b < b)) = k"
    using k(1) less by (auto simp: uint_sub_wrap k_def)
  have Xk: "(X - 2 ^ 64 * k) div 2 ^ 32 = X div 2 ^ 32 - 2 ^ 32 * k" "(X - 2 ^ 64 * k) mod 2 ^ 32 = X mod 2 ^ 32"
  proof -
    have ne: "(2 :: int) ^ 32 \<noteq> 0" by simp
    have "X - 2 ^ 64 * k = X + 2 ^ 32 * (- (2 ^ 32 * k))" by simp
    then show "(X - 2 ^ 64 * k) div 2 ^ 32 = X div 2 ^ 32 - 2 ^ 32 * k" "(X - 2 ^ 64 * k) mod 2 ^ 32 = X mod 2 ^ 32"
      by (simp_all only: div_mult_self2 [OF ne] mod_mult_self2 add.commute diff_conv_add_uminus)
  qed
  let ?h = "drop_bit 32 hi OR push_bit 32 (drop_bit 32 b - of_bool (push_bit 32 b < b))"
  have h: "uint ?h = X div 2 ^ 32" unfolding shift_join w hi' Xk using k by simp
  have lo: "uint (push_bit 32 hi) = 2 ^ 32 * (X mod 2 ^ 32)" unfolding uint_push32 hi' Xk ..
  have "X < (2 ^ 64 - 2 ^ 32) * 2 ^ 32" using uint_lt2p [of b] by (simp add: X_def B_def)
  then have X: "X div 2 ^ 32 < 2 ^ 64 - 2 ^ 32" "0 \<le> X div 2 ^ 32"
    using uint_ge_0 [of b] by (simp_all add: X_def B_def div_int_pos_iff)
  have u': "uint u = of_bool (t1 < b) + of_bool (t2 < r3) + of_bool (t3 < push_bit 32 hi) + X div 2 ^ 32"
    unfolding u uint_add_wrap h using X by auto
  have "uint t1 + 2 ^ 64 * of_bool (t1 < b) = uint c + B" using add_carry [of c b] by (simp add: t1 B_def)
  moreover have "uint t2 + 2 ^ 64 * of_bool (t2 < r3) = uint t1 + uint r3" using add_carry [of t1 r3] by (simp add: t2)
  moreover have "uint t3 + 2 ^ 64 * of_bool (t3 < push_bit 32 hi) = uint t2 + 2 ^ 32 * (X mod 2 ^ 32)"
    using add_carry [of t2 "push_bit 32 hi"] lo by (simp add: t3)
  moreover have "uint e + 2 ^ 64 * of_bool (e < u) = uint r4 + uint u" using add_carry [of r4 u] by (simp add: e)
  moreover have "(2 ^ 64 - 2 ^ 32) * B = 2 ^ 32 * (X mod 2 ^ 32) + 2 ^ 64 * (X div 2 ^ 32)"
  proof -
    have "(2 ^ 64 - 2 ^ 32) * B = 2 ^ 32 * X" by (simp add: X_def)
    moreover have "2 ^ 32 * m + 2 ^ 64 * q = 2 ^ 32 * (2 ^ 32 * q + m)" for m q :: int by simp
    ultimately show ?thesis by (simp only: mult_div_mod_eq)
  qed
  ultimately show ?thesis unfolding u' by (simp add: B_def)
qed


lemma list_five:
  "(x0 # x1 # ys) ! 1 = x1" "(x0 # x1 # x2 # ys) ! 2 = x2" "(x0 # x1 # x2 # x3 # ys) ! 3 = x3" "(x0 # x1 # x2 # x3 # x4 # ys) ! 4 = x4"
  "(x0 # x1 # ys)[1 := v] = x0 # v # ys" "(x0 # x1 # x2 # ys)[2 := v] = x0 # x1 # v # ys"
  "(x0 # x1 # x2 # x3 # ys)[3 := v] = x0 # x1 # x2 # v # ys" "(x0 # x1 # x2 # x3 # x4 # ys)[4 := v] = x0 # x1 # x2 # x3 # v # ys"
  by (simp_all add: list_update_Cons_numeral)

lemma sp_256_mul_add_4_value:
  assumes "i + 5 \<le> length r" and "sp_256_mul_add_4 r i = (r', ov)"
  shows "length r' = length r \<and> take (Suc i) r' = take (Suc i) r \<and> drop (i + 5) r' = drop (i + 5) r \<and>
    wval (take (i + 5) r') + 2 ^ (64 * (i + 5)) * of_bool ov = wval (take (i + 5) r) + 2 ^ (64 * i) * (uint (r ! i) * (p256 + 1))"
proof -
  obtain b r1 r2 r3 r4 where r: "r = take i r @ b # r1 # r2 # r3 # r4 # drop (i + 5) r"
    using split_five [OF assms(1)] .
  define xs ys where "xs = take i r" and "ys = drop (i + 5) r"
  have i: "i = length xs" using assms(1) by (simp add: xs_def)
  have rr: "r = xs @ b # r1 # r2 # r3 # r4 # ys" using r by (simp add: xs_def ys_def)
  define s1 where "s1 = r1 + push_bit 32 b"
  define t where "t = of_bool (s1 < push_bit 32 b) + drop_bit 32 b"
  define s2 where "s2 = r2 + t"
  define c where "c = (of_bool (s2 < t) :: u64)"
  define t1 where "t1 = c + b"
  define t2 where "t2 = t1 + r3"
  define hi where "hi = push_bit 32 b - b"
  define t3 where "t3 = t2 + push_bit 32 hi"
  define u where "u = of_bool (t1 < b) + of_bool (t2 < r3) + of_bool (t3 < push_bit 32 hi)
      + (drop_bit 32 hi OR push_bit 32 (drop_bit 32 b - of_bool (push_bit 32 b < b)))"
  define e where "e = r4 + u"
  have m: "sp_256_mul_add_4 r i = (xs @ [b, s1, s2, t3, e] @ ys, e < u)"
    unfolding sp_256_mul_add_4_def rr i
    by (simp only: Let_def list_update_append_plus nth_append_length_plus nth_append_length list_five s1_def [symmetric] t_def [symmetric]
        s2_def [symmetric] c_def [symmetric] t1_def [symmetric] t2_def [symmetric] hi_def [symmetric] t3_def [symmetric]
        u_def [symmetric] e_def [symmetric] append.simps)
  have c: "uint c \<le> 1" by (simp add: c_def)
  have v: "uint s1 + 2 ^ 64 * uint s2 + 2 ^ 128 * uint c = uint r1 + 2 ^ 64 * uint r2 + 2 ^ 32 * uint b"
    using mid_words [OF s1_def t_def s2_def] by (auto simp: c_def)
  note v' = high_words [OF c t1_def t2_def hi_def t3_def u_def e_def]
  let ?old = "[b, r1, r2, r3, r4]" and ?new = "[b, s1, s2, t3, e]"
  have r': "r' = xs @ ?new @ ys" "ov \<longleftrightarrow> e < u" using assms(2) m by simp_all
  have "wval ?new + 2 ^ 320 * of_bool ov = wval ?old + uint b * (p256 + 1)"
    using v v' unfolding r'(2) by (simp add: p256_def)
  then have "2 ^ (64 * i) * (wval ?new + 2 ^ 320 * of_bool ov) = 2 ^ (64 * i) * (wval ?old + uint b * (p256 + 1))" by (simp only:)
  moreover have "take (i + 5) r' = xs @ ?new" "take (i + 5) r = xs @ ?old" "r ! i = b" by (simp_all add: r' rr i)
  moreover have "length r' = length r" "take (Suc i) r' = take (Suc i) r" "drop (i + 5) r' = drop (i + 5) r"
    by (simp_all add: r' rr i)
  moreover have "(2 :: int) ^ (64 * (i + 5)) = 2 ^ (64 * i) * 2 ^ 320" by (simp add: power_add)
  ultimately show ?thesis
    by (simp only: wval_append distrib_left) (simp add: i)
qed

interpretation reduce64: mont_reduction sp_256_mul_add_4 4
proof
  fix r r' :: "u64 list" and i ov
  assume "length r = 2 * 4" and "i < 4" and "sp_256_mul_add_4 r i = (r', ov)"
  moreover have "LENGTH(64) = 64" "i + 4 + 1 = i + 5" by simp_all
  ultimately show "length r' = 2 * 4 \<and> take (Suc i) r' = take (Suc i) r \<and> drop (i + 4 + 1) r' = drop (i + 4 + 1) r \<and>
      wval (take (i + 4 + 1) r') + 2 ^ (LENGTH(64) * (i + 4 + 1)) * of_bool ov
      = wval (take (i + 4 + 1) r) + 2 ^ (LENGTH(64) * i) * (uint (r ! i) * (p256 + 1))"
    using sp_256_mul_add_4_value [of i r r' ov] by (simp only:)
qed simp

lemma drop_split64: "drop (2 * n) (split64 ws) = split64 (drop n ws)"
proof (induction n arbitrary: ws)
  case (Suc n)
  then show ?case by (cases ws) simp_all
qed simp

lemma mont_reduce_le64_value:
  assumes "length a = 16"
  shows "length (sp_512to256_mont_reduce_8_le64 a) = 8" and "wval (sp_512to256_mont_reduce_8_le64 a) = REDC (wval a)"
proof -
  have j: "length (join64 a) = 2 * 4" "wval (join64 a) = wval a" using join64_value [of a] assms by simp_all
  obtain a' c where f: "fold (mont_reduce_pass sp_256_mul_add_4 4) [0..<4] (join64 a, 0) = (a', c)" by fastforce
  from reduce64.reduction [OF j(1) f] obtain m where m: "0 \<le> m" "m < 2 ^ 256" "length a' = 2 * 4"
    "2 ^ 256 * (wval (drop 4 a') + 2 ^ 256 * uint c) = wval (join64 a) + m * p256" .
  let ?r = "split64 (drop 4 a')"
  have l8: "length ?r = 8" and w: "wval ?r = wval (drop 4 a')" using m(3) by (simp_all add: split64_value)
  have small: "wval a < 2 ^ 512" using wval_less [of a] assms by simp
  have "sp_512to256_mont_shift_8 (split64 a') = ?r"
    using drop_split64 [of 4 a'] m(3) l8 by (simp add: sp_512to256_mont_shift_8_def)
  then have "sp_512to256_mont_reduce_8_le64 a = (if c \<noteq> 0 then sp_256_sub_8_p256_mod ?r else ?r)"
    unfolding sp_512to256_mont_reduce_8_le64_def f by (simp add: Let_def)
  from reduced_words [OF l8 m(4) [folded w, unfolded j(2)] m(1,2) wval_ge small this]
  show "length (sp_512to256_mont_reduce_8_le64 a) = 8" "wval (sp_512to256_mont_reduce_8_le64 a) = REDC (wval a)" .
qed

text \<open>C14: the functions that \<^verbatim>\<open>tls_sp_c32.c\<close> has twice compute the same: the versions on 64-bit
  words agree with the versions on 32-bit words, for the conversions, the comparison, the shift and
  the Montgomery reduction with its unrolled multiplication by the prime.
\<close>

theorem sp_256_le64_equivalent:
  "(\<forall>a. 32 \<le> length a \<longrightarrow> sp_256_from_bin_8_le64 a = sp_256_from_bin_8 a)
   \<and> (\<forall>r. length r = 8 \<longrightarrow> sp_256_to_bin_8_le64 r = sp_256_to_bin_8 r)
   \<and> (\<forall>a b. length a = 8 \<and> length b = 8 \<longrightarrow> sp_256_cmp_8_le64 a b = sp_256_cmp_8 a b)
   \<and> (\<forall>r c. length r = 8 \<longrightarrow> sp_256_rshift1_8_le64 r (of_bool c) = sp_256_rshift1_8 r (of_bool c))
   \<and> (\<forall>a. length a = 16 \<longrightarrow> sp_512to256_mont_reduce_8_le64 a = sp_512to256_mont_reduce_8 a)"
  using from_bin_le64 to_bin_le64 cmp_le64 rshift1_le64 [of _ "of_bool _" "of_bool _"]
  by (auto intro: eq_by_value simp: mont_reduce_le64_value sp_512to256_mont_reduce_8_value)

theorem sp_256_le64_equivalent_witness:
  "sp_256_from_bin_8_le64 (replicate 32 7) = sp_256_from_bin_8 (replicate 32 7)
   \<and> sp_256_to_bin_8_le64 p256_mod = sp_256_to_bin_8 p256_mod
   \<and> sp_256_cmp_8_le64 p256_mod (replicate 8 1) = sp_256_cmp_8 p256_mod (replicate 8 1)
   \<and> sp_256_rshift1_8_le64 p256_mod 1 = sp_256_rshift1_8 p256_mod 1
   \<and> sp_512to256_mont_reduce_8_le64 (p256_mod @ p256_mod) = sp_512to256_mont_reduce_8 (p256_mod @ p256_mod)"
proof -
  have "length (p256_mod @ p256_mod) = 16" "32 \<le> length (replicate 32 (7 :: byte))" "length (replicate 8 (1 :: u32)) = 8" by simp_all
  moreover have "(of_bool True :: u32) = 1" "(of_bool True :: u64) = 1" by simp_all
  ultimately show ?thesis using sp_256_le64_equivalent length_p256_mod by metis
qed

end
