(* ===== verification/Primality.thy ===== *)
theory Primality
  imports Main
begin

text \<open>
  The number theory behind the inversion of \<^verbatim>\<open>tls_sp_c32.c\<close>, which raises a number to the power
  \<open>p - 2\<close>: Fermat's theorem, Pocklington's criterion for a prime, and powers modulo a number by
  repeated squaring with given quotients, as certificates for the criterion.
\<close>

section \<open>Primes\<close>

definition is_prime :: "nat \<Rightarrow> bool" where
  "is_prime p \<longleftrightarrow> 1 < p \<and> (\<forall>d. d dvd p \<longrightarrow> d = 1 \<or> d = p)"

lemma is_prime_coprime: "is_prime p \<Longrightarrow> \<not> p dvd a \<Longrightarrow> coprime a p"
  unfolding is_prime_def coprime_iff_gcd_eq_1 by (metis gcd_dvd1 gcd_dvd2)

lemma least_divisor:
  assumes "1 < (N :: nat)" and "\<not> is_prime N"
  obtains d where "is_prime d" and "d dvd N" and "d * d \<le> N"
proof -
  define d where "d = (LEAST d. 1 < d \<and> d dvd N)"
  have d: "1 < d" "d dvd N" using LeastI [of "\<lambda>d. 1 < d \<and> d dvd N" N] assms(1) by (simp_all add: d_def)
  have min: "d \<le> e" if "1 < e" "e dvd N" for e unfolding d_def using that by (intro Least_le) simp
  have prime: "is_prime d"
    unfolding is_prime_def
  proof (intro conjI allI impI)
    fix e assume "e dvd d"
    moreover from this have "e dvd N" "e \<le> d" using d by (auto intro: dvd_trans dvd_imp_le)
    moreover from \<open>e dvd d\<close> have "e \<noteq> 0" using d(1) by (intro notI) simp
    ultimately show "e = 1 \<or> e = d" using min [of e] by (cases "e = 1") auto
  qed (rule d(1))
  obtain e where e: "N = d * e" using d(2) by (auto elim: dvdE)
  have "e \<noteq> 1" using prime assms(2) by (auto simp: e)
  moreover have "e \<noteq> 0" using assms(1) unfolding e by (intro notI) simp
  ultimately have "d \<le> e" using min [of e] by (simp add: e)
  then show ?thesis using that [OF prime d(2)] by (simp add: e)
qed

section \<open>Fermat's theorem\<close>

lemma prod_mod: "finite A \<Longrightarrow> (\<Prod>i\<in>A. f i mod p) mod p = (\<Prod>i\<in>A. f i) mod (p :: nat)"
proof (induction rule: finite_induct)
  case (insert x A)
  have "(f x mod p * (\<Prod>i\<in>A. f i mod p)) mod p = (f x * ((\<Prod>i\<in>A. f i mod p) mod p)) mod p" by (simp only: mod_mult_left_eq mod_mult_right_eq)
  also have "\<dots> = (f x * (\<Prod>i\<in>A. f i)) mod p" unfolding insert.IH by (rule mod_mult_right_eq)
  finally show ?case by (simp only: prod.insert [OF insert.hyps])
qed simp

lemma mod_cancel_coprime:
  assumes "coprime c p" and "(a * c) mod p = (b * c) mod (p :: nat)"
  shows "a mod p = b mod p"
proof -
  have "int (a * c) mod int p = int (b * c) mod int p" using assms(2) by (simp only: zmod_int [symmetric])
  then have "int p dvd (int a - int b) * int c" by (simp only: mod_eq_dvd_iff of_nat_mult left_diff_distrib)
  moreover have "coprime (int p) (int c)" using assms(1) by (simp add: ac_simps)
  ultimately have "int p dvd int a - int b" by (simp add: coprime_dvd_mult_left_iff)
  then have "int (a mod p) = int (b mod p)" by (simp only: mod_eq_dvd_iff zmod_int)
  then show ?thesis by (simp only: of_nat_eq_iff)
qed

lemma residues_permuted:
  assumes "is_prime p" and "\<not> p dvd a"
  shows "(\<lambda>i. a * i mod p) ` {1..<p} = {1..<p}"
proof (rule endo_inj_surj)
  have c: "coprime a p" using is_prime_coprime [OF assms] .
  show "(\<lambda>i. a * i mod p) ` {1..<p} \<subseteq> {1..<p}"
  proof safe
    fix i assume i: "i \<in> {1..<p}"
    have "\<not> p dvd i" using i by (auto dest: dvd_imp_le)
    then have "\<not> p dvd a * i" using c by (metis coprime_commute coprime_dvd_mult_right_iff)
    moreover have "a * i mod p < p" using i by (intro mod_less_divisor) auto
    ultimately show "a * i mod p \<in> {1..<p}" by (simp add: dvd_eq_mod_eq_0 Suc_le_eq)
  qed
  show "inj_on (\<lambda>i. a * i mod p) {1..<p}"
  proof (rule inj_onI)
    fix i j assume "i \<in> {1..<p}" "j \<in> {1..<p}" "a * i mod p = a * j mod p"
    then show "i = j" using mod_cancel_coprime [OF c, of i j] by (simp add: mult.commute)
  qed
qed simp

theorem fermat:
  assumes "is_prime p" and "\<not> p dvd a"
  shows "a ^ (p - 1) mod p = 1"
proof -
  let ?A = "{1..<p}" and ?P = "\<Prod>i\<in>{1..<p}. i"
  have p: "1 < p" using assms(1) by (simp add: is_prime_def)
  have inj: "inj_on (\<lambda>i. a * i mod p) ?A"
    by (rule eq_card_imp_inj_on) (simp_all only: residues_permuted [OF assms] finite_atLeastLessThan)
  have "(\<Prod>i\<in>?A. a * i mod p) = prod id ((\<lambda>i. a * i mod p) ` ?A)" by (subst prod.reindex [OF inj]) (simp add: comp_def)
  then have "(\<Prod>i\<in>?A. a * i mod p) = ?P" by (simp only: residues_permuted [OF assms] id_apply id_def)
  then have "(\<Prod>i\<in>?A. a * i) mod p = ?P mod p" using prod_mod [of ?A "\<lambda>i. a * i" p] by simp
  then have "(a ^ (p - 1) * ?P) mod p = (1 * ?P) mod p" by (simp add: prod.distrib)
  moreover have "coprime ?P p"
  proof (rule prod_coprime_left)
    fix i assume "i \<in> ?A"
    then have "\<not> p dvd i" by (auto dest: dvd_imp_le)
    then show "coprime i p" by (rule is_prime_coprime [OF assms(1)])
  qed
  ultimately show ?thesis using mod_cancel_coprime [of ?P p "a ^ (p - 1)" 1] p by simp
qed

section \<open>Pocklington's criterion\<close>

text \<open>A number with two coprime exponents that give one modulo \<open>d\<close> is one modulo \<open>d\<close>.\<close>

lemma power_one_coprime:
  assumes "(b :: nat) ^ m mod d = 1" and "b ^ n mod d = 1" and "coprime m n" and "1 < d" and "0 < m"
  shows "b mod d = 1"
proof -
  obtain x y where xy: "m * x = n * y + 1" using bezout_nat [of m n] assms(3,5) by (auto simp: coprime_iff_gcd_eq_1)
  have "b ^ (m * x) mod d = (b ^ m mod d) ^ x mod d" by (simp add: power_mult power_mod)
  then have 1: "b ^ (m * x) mod d = 1" using assms(1,4) by simp
  have "b ^ (n * y) mod d = (b ^ n mod d) ^ y mod d" by (simp add: power_mult power_mod)
  then have 2: "b ^ (n * y) mod d = 1" using assms(2,4) by simp
  have "b ^ (m * x) mod d = (b ^ (n * y) mod d) * b mod d" unfolding xy power_add power_one_right mod_mult_left_eq ..
  then show ?thesis using 1 2 assms(4) by simp
qed

text \<open>
  A number \<open>b\<close> whose power with a prime exponent \<open>q\<close> is one modulo \<open>N\<close>, while \<open>b - 1\<close> has the
  inverse \<open>u\<close>: \<open>q\<close> divides \<open>d - 1\<close> for every prime factor \<open>d\<close> of \<open>N\<close>.
\<close>

lemma pocklington_factor:
  assumes "is_prime q" and "1 < N" and "b ^ q mod N = 1" and "u * b mod N = (u + 1) mod N"
    and d: "is_prime d" "d dvd N"
  shows "q dvd d - 1"
proof (rule ccontr)
  assume "\<not> q dvd d - 1"
  then have c: "coprime q (d - 1)" using is_prime_coprime [OF assms(1), of "d - 1"] coprime_commute by blast
  have d1: "1 < d" using d(1) by (simp add: is_prime_def)
  have md: "x mod d = y mod d" if "x mod N = y mod N" for x y using that d(2) by (metis mod_mod_cancel)
  have b1: "b ^ q mod d = 1" using md [of "b ^ q" 1] assms(2,3) d1 by simp
  have q: "0 < q" using assms(1) by (simp add: is_prime_def)
  have "\<not> d dvd b"
  proof
    assume "d dvd b"
    then have "d dvd b ^ q" using q by (simp add: dvd_power_same dvd_power dvd_trans)
    then show False using b1 by (simp add: dvd_eq_mod_eq_0)
  qed
  from fermat [OF d(1) this] have b2: "b ^ (d - 1) mod d = 1" .
  from power_one_coprime [OF b1 b2 c d1 q] have b: "b mod d = 1" .
  have "u * b mod d = (u + 1) mod d" by (rule md [OF assms(4)])
  moreover have "u * b mod d = u * (b mod d) mod d" by (simp add: mod_mult_right_eq)
  ultimately have "u mod d = (u + 1) mod d" using b by simp
  then have "d dvd 1" by (metis add_diff_cancel_left' le_add1 mod_eq_dvd_iff_nat)
  then show False using d1 by simp
qed

theorem pocklington:
  assumes "1 < N" and "N < F * F" and "\<And>d. is_prime d \<Longrightarrow> d dvd N \<Longrightarrow> F dvd d - 1"
  shows "is_prime N"
proof (rule ccontr)
  assume "\<not> is_prime N"
  from least_divisor [OF assms(1) this] obtain d where d: "is_prime d" "d dvd N" "d * d \<le> N" .
  have "F dvd d - 1" using assms(3) d by blast
  moreover have "0 < d - 1" using d(1) by (simp add: is_prime_def)
  ultimately have "F \<le> d - 1" by (rule dvd_imp_le)
  then have "F \<le> d" by linarith
  then have "F * F \<le> d * d" using mult_le_mono by blast
  then show False using d(3) assms(2) by simp
qed

section \<open>Certificates\<close>

text \<open>
  \<open>pw n a e r\<close>: \<open>r\<close> is the power of \<open>a\<close> with exponent \<open>e\<close> modulo \<open>n\<close>. A certificate lists
  the quotients that are subtracted after each squaring; \<open>f\<close> multiplies by \<open>n\<close>.
\<close>

definition pw :: "int \<Rightarrow> int \<Rightarrow> nat \<Rightarrow> int \<Rightarrow> bool" where "pw n a e r \<longleftrightarrow> a ^ e mod n = r mod n"

fun squares :: "(int \<Rightarrow> int) \<Rightarrow> int list \<Rightarrow> int \<Rightarrow> int" where
  "squares f [] r = r"
| "squares f (k # ks) r = squares f ks (r ^ 2 - f k)"

lemma pw_base: "pw n a 1 a" by (simp add: pw_def)

lemma pw_minus: "f = (*) n \<Longrightarrow> pw n a e (r - f k) \<longleftrightarrow> pw n a e r"
  by (simp add: pw_def mod_diff_eq [symmetric, of r "n * k"])

lemma pw_mult: "pw n a e r \<Longrightarrow> pw n a j m \<Longrightarrow> pw n a (e + j) (r * m)"
  unfolding pw_def power_add by (metis mod_mult_eq)

lemma pw_squares: "f = (*) n \<Longrightarrow> pw n a e r \<Longrightarrow> pw n a (e * 2 ^ length ks) (squares f ks r)"
proof (induction ks arbitrary: e r)
  case (Cons k ks)
  have "pw n a (e + e) (r ^ 2)" unfolding power2_eq_square by (rule pw_mult [OF Cons.prems(2,2)])
  then have "pw n a (2 * e) (r ^ 2 - f k)" by (simp only: pw_minus [OF Cons.prems(1)] mult_2)
  from Cons.IH [OF Cons.prems(1) this] show ?case by (simp add: mult.assoc mult.left_commute mult.commute)
qed simp

lemma pw_times:
  assumes "pw n a e r" and "pw n a j m" and "f = (*) n" and "r * m - f k = r'" and "e + j = e'"
  shows "pw n a e' r'"
  using pw_mult [OF assms(1,2)] pw_minus [OF assms(3)] assms(4,5) by metis

lemma pw_window:
  assumes "pw n a e r" and "pw n a j m" and "f = (*) n" and "squares f ks r * m - f k = r'" and "e * 2 ^ length ks + j = e'"
  shows "pw n a e' r'"
  using pw_times [OF pw_squares [OF assms(3,1)] assms(2,3,4,5)] .

lemma pw_zeros:
  assumes "pw n a e r" and "f = (*) n" and "squares f ks r = r'" and "e * 2 ^ length ks = e'"
  shows "pw n a e' r'"
  using pw_squares [OF assms(2,1)] assms(3,4) by metis

lemma pw_power: "pw n a e r \<Longrightarrow> pw n r j s \<Longrightarrow> pw n a (e * j) s"
  unfolding pw_def by (metis power_mod power_mult)

lemmas pw_eval = squares.simps power_numeral Num.pow.simps Num.sqr.simps arith_simps

text \<open>The criterion for one and for two prime factors, with the inverse \<open>u\<close> of \<open>b - 1\<close>.\<close>

lemma pw_factor:
  assumes "is_prime q" and "pw n b q 1" and "is_prime d" and "d dvd N"
    and "n = int N" and "1 < N" and "0 \<le> b" and "0 \<le> u" and "u * b - (u + 1) = n * v"
  shows "q dvd d - 1"
proof (rule pocklington_factor [OF assms(1,6) _ _ assms(3,4)])
  have b: "int (nat b) = b" and u: "int (nat u) = u" using assms(7,8) by simp_all
  have "int (nat b ^ q mod N) = int 1" using assms(2,5,6,7) by (simp add: pw_def zmod_int)
  then show "nat b ^ q mod N = 1" by (simp only: of_nat_eq_iff)
  have "(u * b) mod int N = (u + 1) mod int N" by (simp add: mod_eq_dvd_iff assms(9) assms(5) [symmetric])
  then have "int (nat u * nat b mod N) = int ((nat u + 1) mod N)" using b u by (simp add: zmod_int add.commute)
  then show "nat u * nat b mod N = (nat u + 1) mod N" by (simp only: of_nat_eq_iff)
qed

lemma two_primes_dvd:
  assumes "is_prime p" and "is_prime q" and "p \<noteq> q" and "p dvd n" and "q dvd (n :: nat)"
  shows "p * q dvd n"
proof -
  have "\<not> p dvd q" using assms(1,2,3) unfolding is_prime_def by auto
  then have "coprime p q" using is_prime_coprime [OF assms(1)] coprime_commute by blast
  with assms(4,5) show ?thesis by (simp add: divides_mult)
qed

text \<open>Trial division.\<close>

lemma is_prime_trial:
  assumes "1 < N" and "N < m * m" and "\<forall>d\<in>set [2..<m]. \<not> d dvd N"
  shows "is_prime N"
proof (rule ccontr)
  assume "\<not> is_prime N"
  from least_divisor [OF assms(1) this] obtain d where d: "is_prime d" "d dvd N" "d * d \<le> N" .
  have "d < m" using d(3) assms(2) by (metis le_trans mult_le_mono not_le)
  then show False using assms(3) d(1,2) by (auto simp: is_prime_def)
qed

end
