(* ===== verification/P256_Prime.thy ===== *)
theory P256_Prime
  imports Primality Tls_Sp_Value
begin

text \<open>
  The modulus \<open>p256\<close> of \<^verbatim>\<open>tls_sp_c32.c\<close> is a prime, by Pocklington's criterion with the factor of 160
  bits of \<open>p256 - 1\<close>, whose own certificate goes down to primes found by trial division. The lemmas
  of a certificate are the windows of one power, with the quotients of the reductions.
\<close>

section \<open>Small primes\<close>

lemma prime_5: "is_prime 5"
  by (rule is_prime_trial [where m = 3]) simp_all

lemma prime_107: "is_prime 107"
  by (rule is_prime_trial [where m = 11]) simp_all

lemma prime_313: "is_prime 313"
  by (rule is_prime_trial [where m = 18]) simp_all

lemma prime_3769: "is_prime 3769"
  by (rule is_prime_trial [where m = 62]) simp_all

lemma prime_18169: "is_prime 18169"
  by (rule is_prime_trial [where m = 135]) simp_all

lemma prime_28_a_0: "pw 204061199 58449175 3 150547468"
  by (rule pw_window [OF pw_base pw_base refl, where k = 54574068 and ks = "[16741575]"])
    (simp_all only: pw_eval, simp_all)

lemma prime_28_a_1: "pw 204061199 58449175 7 19562765"
  by (rule pw_window [OF prime_28_a_0 pw_base refl, where k = 11863340 and ks = "[111067367]"])
    (simp_all only: pw_eval, simp_all)

lemma prime_28_a_2: "pw 204061199 58449175 29 34553920"
  by (rule pw_window [OF prime_28_a_1 pw_base refl, where k = 50898470 and ks = "[1875426, 45397933]"])
    (simp_all only: pw_eval, simp_all)

lemma prime_28_a_3: "pw 204061199 58449175 117 23217055"
  by (rule pw_window [OF prime_28_a_2 pw_base refl, where k = 27242430 and ks = "[5851055, 38513350]"])
    (simp_all only: pw_eval, simp_all)

lemma prime_28_a_4: "pw 204061199 58449175 235 111620436"
  by (rule pw_window [OF prime_28_a_3 pw_base refl, where k = 31092436 and ks = "[2641519]"])
    (simp_all only: pw_eval, simp_all)

lemma prime_28_a_5: "pw 204061199 58449175 471 109090024"
  by (rule pw_window [OF prime_28_a_4 pw_base refl, where k = 40780449 and ks = "[61055809]"])
    (simp_all only: pw_eval, simp_all)

lemma prime_28_a_6: "pw 204061199 58449175 3769 1"
  by (rule pw_window [OF prime_28_a_5 pw_base refl, where k = 697276 and ks = "[58318942, 56514529, 66120362]"])
    (simp_all only: pw_eval, simp_all)

lemma prime_28_b_0: "pw 204061199 116529309 3 11229968"
  by (rule pw_window [OF pw_base pw_base refl, where k = 2476553 and ks = "[66544154]"])
    (simp_all only: pw_eval, simp_all)

lemma prime_28_b_1: "pw 204061199 116529309 13 100071807"
  by (rule pw_window [OF prime_28_b_0 pw_base refl, where k = 4402527 and ks = "[618011, 65516295]"])
    (simp_all only: pw_eval, simp_all)

lemma prime_28_b_2: "pw 204061199 116529309 53 77628227"
  by (rule pw_window [OF prime_28_b_1 pw_base refl, where k = 70637219 and ks = "[49075309, 126095948]"])
    (simp_all only: pw_eval, simp_all)

lemma prime_28_b_3: "pw 204061199 116529309 107 1"
  by (rule pw_window [OF prime_28_b_2 pw_base refl, where k = 89332090 and ks = "[29531050]"])
    (simp_all only: pw_eval, simp_all)

lemma prime_28: "is_prime 204061199"
proof (rule pocklington)
  fix d assume d: "is_prime d" "d dvd 204061199"
  have "3769 dvd d - 1"
    by (rule pw_factor [OF prime_3769 prime_28_a_6 d, where
      u = 108819925 and v = 31169251]) simp_all
  moreover have "107 dvd d - 1"
    by (rule pw_factor [OF prime_107 prime_28_b_3 d, where
      u = 70558875 and v = 40292701]) simp_all
  ultimately show "3769 * 107 dvd d - 1" by (intro two_primes_dvd prime_3769 prime_107) simp_all
qed simp_all

lemma prime_35_a_0: "pw 34282281433 29889646155 3 14303633998"
  by (rule pw_window [OF pw_base pw_base refl, where k = 21179531069 and ks = "[26059845200]"])
    (simp_all only: pw_eval, simp_all)

lemma prime_35_a_1: "pw 34282281433 29889646155 97 9532006879"
  by (rule pw_window [OF prime_35_a_0 pw_base refl, where k = 15432370622 and ks = "[5967920949, 796965069, 9821970377,
      4162886263, 29501733]"])
    (simp_all only: pw_eval, simp_all)

lemma prime_35_a_2: "pw 34282281433 29889646155 389 30225565681"
  by (rule pw_window [OF prime_35_a_1 pw_base refl, where k = 16349271188 and ks = "[2650324054, 32590777178]"])
    (simp_all only: pw_eval, simp_all)

lemma prime_35_a_3: "pw 34282281433 29889646155 3113 14584133755"
  by (rule pw_window [OF prime_35_a_2 pw_base refl, where k = 12873701450 and ks = "[26648892155, 33342326,
      19695901581]"])
    (simp_all only: pw_eval, simp_all)

lemma prime_35_a_4: "pw 34282281433 29889646155 6227 9946477710"
  by (rule pw_window [OF prime_35_a_3 pw_base refl, where k = 161151705 and ks = "[6204282460]"])
    (simp_all only: pw_eval, simp_all)

lemma prime_35_a_5: "pw 34282281433 29889646155 24909 6141951875"
  by (rule pw_window [OF prime_35_a_4 pw_base refl, where k = 14294074990 and ks = "[2885817824, 24179609525]"])
    (simp_all only: pw_eval, simp_all)

lemma prime_35_a_6: "pw 34282281433 29889646155 49819 12950988080"
  by (rule pw_window [OF prime_35_a_5 pw_base refl, where k = 25683726520 and ks = "[1100381049]"])
    (simp_all only: pw_eval, simp_all)

lemma prime_35_a_7: "pw 34282281433 29889646155 99639 24043389013"
  by (rule pw_window [OF prime_35_a_6 pw_base refl, where k = 3063745019 and ks = "[4892559224]"])
    (simp_all only: pw_eval, simp_all)

lemma prime_35_a_8: "pw 34282281433 29889646155 398557 5475047694"
  by (rule pw_window [OF prime_35_a_7 pw_base refl, where k = 8639338062 and ks = "[16862487881, 32648268956]"])
    (simp_all only: pw_eval, simp_all)

lemma prime_35_a_9: "pw 34282281433 29889646155 25507649 20838029347"
  by (rule pw_window [OF prime_35_a_8 pw_base refl, where k = 27742192436 and ks = "[874391843, 1482544758, 14340146794,
      18237190848, 4577901737, 418599603]"])
    (simp_all only: pw_eval, simp_all)

lemma prime_35_a_10: "pw 34282281433 29889646155 51015299 16296901146"
  by (rule pw_window [OF prime_35_a_9 pw_base refl, where k = 9907729173 and ks = "[12666119316]"])
    (simp_all only: pw_eval, simp_all)

lemma prime_35_a_11: "pw 34282281433 29889646155 102030599 21513029127"
  by (rule pw_window [OF prime_35_a_10 pw_base refl, where k = 17202466281 and ks = "[7747121132]"])
    (simp_all only: pw_eval, simp_all)

lemma prime_35_a_12: "pw 34282281433 29889646155 204061199 1"
  by (rule pw_window [OF prime_35_a_11 pw_base refl, where k = 11359076573 and ks = "[13499988999]"])
    (simp_all only: pw_eval, simp_all)

lemma prime_35: "is_prime 34282281433"
proof (rule pocklington)
  fix d assume d: "is_prime d" "d dvd 34282281433"
  show "204061199 dvd d - 1"
    by (rule pw_factor [OF prime_28 prime_35_a_12 d, where
      u = 5692688330 and v = 4963276443]) simp_all
qed simp_all

lemma prime_20_a_0: "pw 704251 148689 9 639887"
  by (rule pw_window [OF pw_base pw_base refl, where k = 135841 and ks = "[31392, 463495, 114]"])
    (simp_all only: pw_eval, simp_all)

lemma prime_20_a_1: "pw 704251 148689 19 626711"
  by (rule pw_window [OF prime_20_a_0 pw_base refl, where k = 67585 and ks = "[581405]"])
    (simp_all only: pw_eval, simp_all)

lemma prime_20_a_2: "pw 704251 148689 39 442842"
  by (rule pw_window [OF prime_20_a_1 pw_base refl, where k = 55065 and ks = "[557708]"])
    (simp_all only: pw_eval, simp_all)

lemma prime_20_a_3: "pw 704251 148689 313 1"
  by (rule pw_window [OF prime_20_a_2 pw_base refl, where k = 108791 and ks = "[278464, 336076, 216998]"])
    (simp_all only: pw_eval, simp_all)

lemma prime_20_b_0: "pw 704251 574807 5 1"
  by (rule pw_window [OF pw_base pw_base refl, where k = 61098 and ks = "[469155, 62229]"])
    (simp_all only: pw_eval, simp_all)

lemma prime_20: "is_prime 704251"
proof (rule pocklington)
  fix d assume d: "is_prime d" "d dvd 704251"
  have "313 dvd d - 1"
    by (rule pw_factor [OF prime_313 prime_20_a_3 d, where
      u = 512127 and v = 108125]) simp_all
  moreover have "5 dvd d - 1"
    by (rule pw_factor [OF prime_5 prime_20_b_0 d, where
      u = 306580 and v = 250229]) simp_all
  ultimately show "313 * 5 dvd d - 1" by (intro two_primes_dvd prime_313 prime_5) simp_all
qed simp_all

lemma prime_56_a_0: "pw 46076956964474543 14924512230972257 5 28670286212499028"
  by (rule pw_window [OF pw_base pw_base refl, where k = 155383955755462 and ks = "[4834109715712659,
      34060180864278014]"])
    (simp_all only: pw_eval, simp_all)

lemma prime_56_a_1: "pw 46076956964474543 14924512230972257 21 14209385879001285"
  by (rule pw_window [OF prime_56_a_0 pw_base refl, where k = 5203393058566210 and ks = "[17839400986058274,
      38582618381850063]"])
    (simp_all only: pw_eval, simp_all)

lemma prime_56_a_2: "pw 46076956964474543 14924512230972257 85 1015511865026321"
  by (rule pw_window [OF prime_56_a_1 pw_base refl, where k = 5605485388188473 and ks = "[4381944042312335,
      44045319802765640]"])
    (simp_all only: pw_eval, simp_all)

lemma prime_56_a_3: "pw 46076956964474543 14924512230972257 171 8555301586343832"
  by (rule pw_window [OF prime_56_a_2 pw_base refl, where k = 13298686998782070 and ks = "[22381346684945]"])
    (simp_all only: pw_eval, simp_all)

lemma prime_56_a_4: "pw 46076956964474543 14924512230972257 343 2613100648073922"
  by (rule pw_window [OF prime_56_a_3 pw_base refl, where k = 2578442086225722 and ks = "[1588498678194600]"])
    (simp_all only: pw_eval, simp_all)

lemma prime_56_a_5: "pw 46076956964474543 14924512230972257 687 25291484605186331"
  by (rule pw_window [OF prime_56_a_4 pw_base refl, where k = 7669343316780752 and ks = "[148193271578871]"])
    (simp_all only: pw_eval, simp_all)

lemma prime_56_a_6: "pw 46076956964474543 14924512230972257 1375 5249274636206881"
  by (rule pw_window [OF prime_56_a_5 pw_base refl, where k = 13632708030879949 and ks = "[13882409683164539]"])
    (simp_all only: pw_eval, simp_all)

lemma prime_56_a_7: "pw 46076956964474543 14924512230972257 5501 11168935376211814"
  by (rule pw_window [OF prime_56_a_6 pw_base refl, where k = 5638347814739506 and ks = "[598018749970180,
      29892891891967115]"])
    (simp_all only: pw_eval, simp_all)

lemma prime_56_a_8: "pw 46076956964474543 14924512230972257 11003 10809619143948697"
  by (rule pw_window [OF prime_56_a_7 pw_base refl, where k = 13831297248415590 and ks = "[2707321091845855]"])
    (simp_all only: pw_eval, simp_all)

lemma prime_56_a_9: "pw 46076956964474543 14924512230972257 22007 43186381257681452"
  by (rule pw_window [OF prime_56_a_8 pw_base refl, where k = 14795821728548906 and ks = "[2535928449600353]"])
    (simp_all only: pw_eval, simp_all)

lemma prime_56_a_10: "pw 46076956964474543 14924512230972257 44015 27323129502832818"
  by (rule pw_window [OF prime_56_a_9 pw_base refl, where k = 3289985575365 and ks = "[40477141916550365]"])
    (simp_all only: pw_eval, simp_all)

lemma prime_56_a_11: "pw 46076956964474543 14924512230972257 88031 39507750673421065"
  by (rule pw_window [OF prime_56_a_10 pw_base refl, where k = 5999381149683423 and ks = "[16202315756315414]"])
    (simp_all only: pw_eval, simp_all)

lemma prime_56_a_12: "pw 46076956964474543 14924512230972257 352125 8552902305302312"
  by (rule pw_window [OF prime_56_a_11 pw_base refl, where k = 11809704757479364 and ks = "[33875118195774770,
      2560779519976811]"])
    (simp_all only: pw_eval, simp_all)

lemma prime_56_a_13: "pw 46076956964474543 14924512230972257 704251 1"
  by (rule pw_window [OF prime_56_a_12 pw_base refl, where k = 9512679661726209 and ks = "[1587607834007920]"])
    (simp_all only: pw_eval, simp_all)

lemma prime_56_b_0: "pw 46076956964474543 41210264490737322 17 7052612326471987"
  by (rule pw_window [OF pw_base pw_base refl, where k = 26283137398492969 and ks = "[36857596752882539,
      10873260755811405, 4380246853022633, 4134816484282784]"])
    (simp_all only: pw_eval, simp_all)

lemma prime_56_b_1: "pw 46076956964474543 41210264490737322 35 28123135975103299"
  by (rule pw_window [OF prime_56_b_0 pw_base refl, where k = 17366622091418887 and ks = "[1079484061107893]"])
    (simp_all only: pw_eval, simp_all)

lemma prime_56_b_2: "pw 46076956964474543 41210264490737322 141 30247368459370275"
  by (rule pw_window [OF prime_56_b_1 pw_base refl, where k = 27976286557202259 and ks = "[17164995893369080,
      11981990665886975]"])
    (simp_all only: pw_eval, simp_all)

lemma prime_56_b_3: "pw 46076956964474543 41210264490737322 283 43290495570384524"
  by (rule pw_window [OF prime_56_b_2 pw_base refl, where k = 21750415737964862 and ks = "[19855983532556210]"])
    (simp_all only: pw_eval, simp_all)

lemma prime_56_b_4: "pw 46076956964474543 41210264490737322 567 36721317040245462"
  by (rule pw_window [OF prime_56_b_3 pw_base refl, where k = 26825619547393512 and ks = "[40672542854216539]"])
    (simp_all only: pw_eval, simp_all)

lemma prime_56_b_5: "pw 46076956964474543 41210264490737322 1135 1057507439209552"
  by (rule pw_window [OF prime_56_b_4 pw_base refl, where k = 15872401184223754 and ks = "[29265281694055539]"])
    (simp_all only: pw_eval, simp_all)

lemma prime_56_b_6: "pw 46076956964474543 41210264490737322 2271 22383050864119151"
  by (rule pw_window [OF prime_56_b_5 pw_base refl, where k = 5221377206445851 and ks = "[24270743071114]"])
    (simp_all only: pw_eval, simp_all)

lemma prime_56_b_7: "pw 46076956964474543 41210264490737322 18169 1"
  by (rule pw_window [OF prime_56_b_6 pw_base refl, where k = 15477037256480443 and ks = "[10873134837702458,
      8991780526789073, 27257205614959275]"])
    (simp_all only: pw_eval, simp_all)

lemma prime_56: "is_prime 46076956964474543"
proof (rule pocklington)
  fix d assume d: "is_prime d" "d dvd 46076956964474543"
  have "704251 dvd d - 1"
    by (rule pw_factor [OF prime_20 prime_56_a_13 d, where
      u = 14499061334772664 and v = 4696304454204081]) simp_all
  moreover have "18169 dvd d - 1"
    by (rule pw_factor [OF prime_18169 prime_56_b_7 d, where
      u = 45323124291732652 and v = 40536052349310437]) simp_all
  ultimately show "704251 * 18169 dvd d - 1" by (intro two_primes_dvd prime_20 prime_18169) simp_all
qed simp_all

section \<open>The primes of 150 and 160 bits\<close>

lemma prime_150_a_t2: "pw 774023187263532362759620327192479577272145303 239904036708680826588713273592995675716678834
      2 180836970888392937109762415412400018745385904"
  by (rule pw_times [OF pw_base pw_base refl, where k = 74356876869018956304737472191396132438729484]) (simp_all only:
      pw_eval)

lemma prime_150_a_t3: "pw 774023187263532362759620327192479577272145303 239904036708680826588713273592995675716678834
      3 41213398885168315346372176758996142059693377"
  by (rule pw_times [OF pw_base prime_150_a_t2 refl, where k = 56049379419333648184268323934430166060570553]) (simp_all
      only: pw_eval)

lemma prime_150_a_t5: "pw 774023187263532362759620327192479577272145303 239904036708680826588713273592995675716678834
      5 513322048639056445280604907601721794067888378"
  by (rule pw_times [OF prime_150_a_t3 prime_150_a_t2 refl, where k = 9628789339965097151330797791147306121658810])
      (simp_all only: pw_eval)

lemma prime_150_a_t7: "pw 774023187263532362759620327192479577272145303 239904036708680826588713273592995675716678834
      7 587585782269809624223999094381111369954074095"
  by (rule pw_times [OF prime_150_a_t5 prime_150_a_t2 refl, where k = 119928712593601122578070687323649145258867639])
      (simp_all only: pw_eval)

lemma prime_150_a_t9: "pw 774023187263532362759620327192479577272145303 239904036708680826588713273592995675716678834
      9 359450241934397865910749288681788084490472423"
  by (rule pw_times [OF prime_150_a_t7 prime_150_a_t2 refl, where k = 137279134205809856754676322395764193160817919])
      (simp_all only: pw_eval)

lemma prime_150_a_t11: "pw 774023187263532362759620327192479577272145303 239904036708680826588713273592995675716678834
      11 116391828880229200768352032163611941869715395"
  by (rule pw_times [OF prime_150_a_t9 prime_150_a_t2 refl, where k = 83979257993966597722518678644527387561775099])
      (simp_all only: pw_eval)

lemma prime_150_a_t13: "pw 774023187263532362759620327192479577272145303 239904036708680826588713273592995675716678834
      13 322127580341921061238012862270746379859152020"
  by (rule pw_times [OF prime_150_a_t11 prime_150_a_t2 refl, where k = 27192913748841748168977413162866790959778020])
      (simp_all only: pw_eval)

lemma prime_150_a_t15: "pw 774023187263532362759620327192479577272145303 239904036708680826588713273592995675716678834
      15 137476682762989951019375528077723634328471783"
  by (rule pw_times [OF prime_150_a_t13 prime_150_a_t2 refl, where k = 75259471327448914806895054619672255015613199])
      (simp_all only: pw_eval)

lemma prime_150_a_0: "pw 774023187263532362759620327192479577272145303 239904036708680826588713273592995675716678834
      327 338439033845167259999918773546032742814963657"
  by (rule pw_window [OF prime_150_a_t5 prime_150_a_t7 refl, where k = 521227266881380420384480587776130495755679546 and
      ks = "[340428465134964895048841608283573266688366379, 203526257392972596421053394208778435486868763,
      21864481916407103095032379975814558610524583, 207595629435992003814647200009818296244011098,
      283387163544585913199030740782819982573391795, 31022545196199772622229371081733855580161465]"])
    (simp_all only: pw_eval, simp_all)

lemma prime_150_a_1: "pw 774023187263532362759620327192479577272145303 239904036708680826588713273592995675716678834
      2619 110766790945911079730407655412476546616449490"
  by (rule pw_window [OF prime_150_a_0 prime_150_a_t3 refl, where k = 35911298530664246259802696523174436289432309 and
      ks = "[147981328614968741156537666870529456283256121, 26683816681476324057338374179847386965790144,
      57480473353967471891758192687760239541515325]"])
    (simp_all only: pw_eval, simp_all)

lemma prime_150_a_2: "pw 774023187263532362759620327192479577272145303 239904036708680826588713273592995675716678834
      83813 1295145514798491210489618866064724193698886"
  by (rule pw_window [OF prime_150_a_1 prime_150_a_t5 refl, where k = 293651768813044658297604897385731151937558224 and
      ks = "[15851310630411173206651586066549402687881843, 106960801228702229080801246159679146827470083,
      504381515060563782493746137996242274677653574, 349111100136370483289924510852664309478613209,
      323130499396819020149753040099751756240049486]"])
    (simp_all only: pw_eval, simp_all)

lemma prime_150_a_3: "pw 774023187263532362759620327192479577272145303 239904036708680826588713273592995675716678834
      2682031 45075884828769655415942873684759006327818191"
  by (rule pw_window [OF prime_150_a_2 prime_150_a_t15 refl, where k = 27890694007119485106424859470222404514036434 and
      ks = "[2167121001158770579936570733795668644963, 597011285122086539768021594461113226860032051,
      3943417688849233837912368996779698706990525, 238695965320957078440764817159295414909920867,
      536155959019133470141048220725665592058243]"])
    (simp_all only: pw_eval, simp_all)

lemma prime_150_a_4: "pw 774023187263532362759620327192479577272145303 239904036708680826588713273592995675716678834
      21456255 365135437974502483289255617137177668516892635"
  by (rule pw_window [OF prime_150_a_3 prime_150_a_t7 refl, where k = 348000785043870449206913201412165832945354930 and
      ks = "[2625031687073640062082246801501208554721729, 3645483749636081244844014824581839789698319,
      136221765835717284467173791953161921926144142]"])
    (simp_all only: pw_eval, simp_all)

lemma prime_150_a_5: "pw 774023187263532362759620327192479577272145303 239904036708680826588713273592995675716678834
      686600163 264122995258262077506412993277521877370598308"
  by (rule pw_window [OF prime_150_a_4 prime_150_a_t3 refl, where k = 8387849953716999003221828650233037239202804 and ks
      = "[172247925202580329712256845076505946256707489, 344267608663249716968686136104964498975387394,
      9086848282711980244728155857698614820626409, 87865208922144846329194724339625976512473974,
      117766221189030741375687357780552631910490103]"])
    (simp_all only: pw_eval, simp_all)

lemma prime_150_a_6: "pw 774023187263532362759620327192479577272145303 239904036708680826588713273592995675716678834
      43942410435 4529131834650322936260844183729603177343270"
  by (rule pw_window [OF prime_150_a_5 prime_150_a_t3 refl, where k = 19017421080513880603309667248467086980173969 and
      ks = "[90127734894903551450719717928419077808388725, 723834686706933825546252177364629100071552366,
      109184542067986277357929146980032298750235027, 465268602960532994580283949675390311385887979,
      263516864795270649972253137534824254351330096, 542012518067447053458895177852743237963350300]"])
    (simp_all only: pw_eval, simp_all)

lemma prime_150_a_7: "pw 774023187263532362759620327192479577272145303 239904036708680826588713273592995675716678834
      2812314267851 179424857306776720527791497966625525847554910"
  by (rule pw_window [OF prime_150_a_6 prime_150_a_t11 refl, where k = 35531178862803253223472495440804553706150760 and
      ks = "[26501835491730441994910311088990225183535, 705176816221265764658707104240688499690612284,
      58173741851042239646450001698711533096441325, 483359077561611060561561593011899499698378008,
      25178937580145758880547508013067260811066239, 682357103499623207362190418295521723136327929]"])
    (simp_all only: pw_eval, simp_all)

lemma prime_150_a_8: "pw 774023187263532362759620327192479577272145303 239904036708680826588713273592995675716678834
      89994056571239 58879420444759787673844649935737846485059308"
  by (rule pw_window [OF prime_150_a_7 prime_150_a_t7 refl, where k = 311456986315322339442181812536457599180196324 and
      ks = "[41592138257992926315286455922942538770747198, 210360753466355049724361386048940519736466,
      479056878774813708404709476938199859036976079, 3179614561474255323994329779092201963334242,
      461839432821643023316567219299330775595671815]"])
    (simp_all only: pw_eval, simp_all)

lemma prime_150_a_9: "pw 774023187263532362759620327192479577272145303 239904036708680826588713273592995675716678834
      1439904905139829 468258671804389894967266956674505999713518461"
  by (rule pw_window [OF prime_150_a_8 prime_150_a_t5 refl, where k = 143629922444568369822185242950468818466456201 and
      ks = "[4478917697759430441239599853650325971029290, 93324355285529034915745795087183870489155607,
      433754125766790196023854312021565074588116755, 659999827748473577076925871022292330268687454]"])
    (simp_all only: pw_eval, simp_all)

lemma prime_150_a_10: "pw 774023187263532362759620327192479577272145303 239904036708680826588713273592995675716678834
      46076956964474543 1"
  by (rule pw_window [OF prime_150_a_9 prime_150_a_t15 refl, where k = 51854939360325496703971558664101036762127930 and
      ks = "[283281156595839260678979641206572268414954562, 770394264135131650515562670869554878284373416,
      688398923826614238814475094026810051303332237, 9941561055884307374801545910566774001304172,
      479761191793901744326282186841462238080744329]"])
    (simp_all only: pw_eval, simp_all)

lemma prime_150_b_t2: "pw 774023187263532362759620327192479577272145303 698029168169450376428688776093377774925254396
      2 579530944352409071361608606755066460181977481"
  by (rule pw_times [OF pw_base pw_base refl, where k = 629496283358036135522874947517619127924812945]) (simp_all only:
      pw_eval)

lemma prime_150_b_t3: "pw 774023187263532362759620327192479577272145303 698029168169450376428688776093377774925254396
      3 597342617142239423775845907251896004729002101"
  by (rule pw_times [OF pw_base prime_150_b_t2 refl, where k = 522632279848016516833352423446171667801480625]) (simp_all
      only: pw_eval)

lemma prime_150_b_t5: "pw 774023187263532362759620327192479577272145303 698029168169450376428688776093377774925254396
      5 38755047341776304552284837818830384487071521"
  by (rule pw_times [OF prime_150_b_t3 prime_150_b_t2 refl, where k = 447245685543678474171174626976490906377570020])
      (simp_all only: pw_eval)

lemma prime_150_b_t7: "pw 774023187263532362759620327192479577272145303 698029168169450376428688776093377774925254396
      7 338740478298012342298266504782540089062962661"
  by (rule pw_times [OF prime_150_b_t5 prime_150_b_t2 refl, where k = 29016894524575853416003066659230171264053980])
      (simp_all only: pw_eval)

lemma prime_150_b_t9: "pw 774023187263532362759620327192479577272145303 698029168169450376428688776093377774925254396
      9 441336176197198486084639960954458630680603459"
  by (rule pw_times [OF prime_150_b_t7 prime_150_b_t2 refl, where k = 253623654315146223871398726144526915817025094])
      (simp_all only: pw_eval)

lemma prime_150_b_t11: "pw 774023187263532362759620327192479577272145303 698029168169450376428688776093377774925254396
      11 48692680432301033272841474255967675237447359"
  by (rule pw_times [OF prime_150_b_t9 prime_150_b_t2 refl, where k = 330439675680364459580939083584738557704739140])
      (simp_all only: pw_eval)

lemma prime_150_b_t13: "pw 774023187263532362759620327192479577272145303 698029168169450376428688776093377774925254396
      13 467507670244239074109740730352373633805853805"
  by (rule pw_times [OF prime_150_b_t11 prime_150_b_t2 refl, where k = 36457454425552976480887845145066145863337158])
      (simp_all only: pw_eval)

lemma prime_150_b_t15: "pw 774023187263532362759620327192479577272145303 698029168169450376428688776093377774925254396
      15 293933718686647566661501543375737876616391561"
  by (rule pw_times [OF prime_150_b_t13 prime_150_b_t2 refl, where k = 350034942217296895699784781815153921421129748])
      (simp_all only: pw_eval)

lemma prime_150_b_0: "pw 774023187263532362759620327192479577272145303 698029168169450376428688776093377774925254396
      255 425172002819714129186695790639413308181081955"
  by (rule pw_window [OF prime_150_b_t15 prime_150_b_t15 refl, where k = 246342714843426364253288919303290448103470063
      and ks = "[111620727134038162820361261481547940402141041, 763869335590569569450598012062619205893869843,
      13695710398796488703476552435266234857900303, 139050911906684774547051050949724906306648284]"])
    (simp_all only: pw_eval, simp_all)

lemma prime_150_b_1: "pw 774023187263532362759620327192479577272145303 698029168169450376428688776093377774925254396
      8173 67066657710742728175884096063231715675081082"
  by (rule pw_window [OF prime_150_b_0 prime_150_b_t13 refl, where k = 436063713480038415471081781585971837019215131 and
      ks = "[233547566734818833458967814938249994208218622, 30497145350261281385951079852226986034096858,
      8480793360050470816912017014786859552283623, 642638825266530453136361937796332719622429037,
      95627858626081834595565362137246179545088922]"])
    (simp_all only: pw_eval, simp_all)

lemma prime_150_b_2: "pw 774023187263532362759620327192479577272145303 698029168169450376428688776093377774925254396
      16347 695347958307008086837378385785263337879604085"
  by (rule pw_window [OF prime_150_b_1 pw_base refl, where k = 91737514942074677710891058481223882659162261 and ks =
      "[5811113478902164427573369141262190369569622]"])
    (simp_all only: pw_eval, simp_all)

lemma prime_150_b_3: "pw 774023187263532362759620327192479577272145303 698029168169450376428688776093377774925254396
      261553 573212170381865897884984972078474981144168148"
  by (rule pw_window [OF prime_150_b_2 pw_base refl, where k = 686128987577413120088102826362795908858985248 and ks =
      "[624669636617880791413379031617183868182426220, 441259618615888573636298749527438266324453651,
      652879378149025838157253098706883225324372117, 99468312861095424149395092076975952518339354]"])
    (simp_all only: pw_eval, simp_all)

lemma prime_150_b_4: "pw 774023187263532362759620327192479577272145303 698029168169450376428688776093377774925254396
      16739395 636451126065633269993525331401065034686868629"
  by (rule pw_window [OF prime_150_b_3 prime_150_b_t3 refl, where k = 172364124873977633121646381557223148563133594 and
      ks = "[424499159302342700563961299259155594989608418, 51030615428228353535356888069803086998089110,
      27244862687303977441442599791659607122799047, 453676562333888374422412238187758092643711500,
      348070407608766866406238135418778225436811603, 768437560179385496387757856429303630185610231]"])
    (simp_all only: pw_eval, simp_all)

lemma prime_150_b_5: "pw 774023187263532362759620327192479577272145303 698029168169450376428688776093377774925254396
      535660647 773534992865683890172779507024872889147262389"
  by (rule pw_window [OF prime_150_b_4 prime_150_b_t7 refl, where k = 171938222812278940651608727943821180753463967 and
      ks = "[523330621789626126433482059937177627654370391, 357697986247305782884905953273259454004255564,
      338886960865761604893743151682222704338018192, 134254456838041467557238837304932961341202466,
      724777153988775387624729466114443990967476882]"])
    (simp_all only: pw_eval, simp_all)

lemma prime_150_b_6: "pw 774023187263532362759620327192479577272145303 698029168169450376428688776093377774925254396
      4285285179 370440716368213660071032740618932276406896200"
  by (rule pw_window [OF prime_150_b_5 prime_150_b_t3 refl, where k = 391125031766172709108957675125163907596650784 and
      ks = "[773047106383378533592132593941791492291895704, 371035666580781335258523056102943411046247831,
      6595606720647294728995677847981509481301064]"])
    (simp_all only: pw_eval, simp_all)

lemma prime_150_b_7: "pw 774023187263532362759620327192479577272145303 698029168169450376428688776093377774925254396
      34282281433 1"
  by (rule pw_window [OF prime_150_b_6 pw_base refl, where k = 56168035654981535218157410556602290017506281 and ks =
      "[177289681499778831861314762066448968999506488, 586186368417630836470484284335927584653179255,
      100252882312510419770124910124358278386833099]"])
    (simp_all only: pw_eval, simp_all)

lemma prime_150: "is_prime 774023187263532362759620327192479577272145303"
proof (rule pocklington)
  fix d assume d: "is_prime d" "d dvd 774023187263532362759620327192479577272145303"
  have "46076956964474543 dvd d - 1"
    by (rule pw_factor [OF prime_56 prime_150_a_10 d, where
      u = 632032488684931311808149900400938671518447982 and v = 195894836048269483691189999882415607806979835]) simp_all
  moreover have "34282281433 dvd d - 1"
    by (rule pw_factor [OF prime_35 prime_150_b_7 d, where
      u = 596433626971722769764445466971315030968158209 and v = 537875447859951926046752772011491486450717718]) simp_all
  ultimately show "46076956964474543 * 34282281433 dvd d - 1" by (intro two_primes_dvd prime_56 prime_35) simp_all
qed simp_all

lemma prime_160_a_t2: "pw 835945042244614951780389953367877943453916927241
      759074791811550622595041579907670563367995104130 2 647332857910852564228259594691936466030803962468"
  by (rule pw_times [OF pw_base pw_base refl, where k = 689273230231255300807902159637831919060980321952]) (simp_all
      only: pw_eval)

lemma prime_160_a_t3: "pw 835945042244614951780389953367877943453916927241
      759074791811550622595041579907670563367995104130 3 768904080837567207247036716382026698850824493234"
  by (rule pw_times [OF pw_base prime_160_a_t2 refl, where k = 587806649384577838661024227737898480686110913766])
      (simp_all only: pw_eval)

lemma prime_160_a_t5: "pw 835945042244614951780389953367877943453916927241
      759074791811550622595041579907670563367995104130 5 396762730134177709461117717012375746493956457843"
  by (rule pw_times [OF prime_160_a_t3 prime_160_a_t2 refl, where k = 595418180567726122531945862871104166437117998509])
      (simp_all only: pw_eval)

lemma prime_160_a_t7: "pw 835945042244614951780389953367877943453916927241
      759074791811550622595041579907670563367995104130 7 728248801313103070132034492042030464517216364279"
  by (rule pw_times [OF prime_160_a_t5 prime_160_a_t2 refl, where k = 307242149939222411766891922704126721619257250445])
      (simp_all only: pw_eval)

lemma prime_160_a_t9: "pw 835945042244614951780389953367877943453916927241
      759074791811550622595041579907670563367995104130 9 288012833365562854476213329696859943711547055414"
  by (rule pw_times [OF prime_160_a_t7 prime_160_a_t2 refl, where k = 563935849847670379841210195742338203319653990038])
      (simp_all only: pw_eval)

lemma prime_160_a_t11: "pw 835945042244614951780389953367877943453916927241
      759074791811550622595041579907670563367995104130 11 561376559966260998983856778245232329004698792712"
  by (rule pw_times [OF prime_160_a_t9 prime_160_a_t2 refl, where k = 223029219764157263779314882424977189889775703440])
      (simp_all only: pw_eval)

lemma prime_160_a_t13: "pw 835945042244614951780389953367877943453916927241
      759074791811550622595041579907670563367995104130 13 32935091439034507557383852320337717082341264847"
  by (rule pw_times [OF prime_160_a_t11 prime_160_a_t2 refl, where k =
      434714574000410365093665013968233076149245875209]) (simp_all only: pw_eval)

lemma prime_160_a_t15: "pw 835945042244614951780389953367877943453916927241
      759074791811550622595041579907670563367995104130 15 141874405700009971728465331164433399818781515080"
  by (rule pw_times [OF prime_160_a_t13 prime_160_a_t2 refl, where k = 25504029319366182312836484046737017157769497076])
      (simp_all only: pw_eval)

lemma prime_160_a_0: "pw 835945042244614951780389953367877943453916927241
      759074791811550622595041579907670563367995104130 69 185665639081793809088332295594383557676216914203"
  by (rule pw_window [OF pw_base prime_160_a_t5 refl, where k = 187122258975440333537893892421011096688003437410 and ks
      = "[689273230231255300807902159637831919060980321952, 501276767915099666124679438404411616115335513061,
      443882921256948393968160602109980930362556787879, 228193013769427511907738116315774183577158868152,
      425561314635182295733297494154471754106562384295, 43015159677502593340812070116841642201010096850]"])
    (simp_all only: pw_eval, simp_all)

lemma prime_160_a_1: "pw 835945042244614951780389953367877943453916927241
      759074791811550622595041579907670563367995104130 2221 227463855420172958768259354356817233852448964239"
  by (rule pw_window [OF prime_160_a_0 prime_160_a_t13 refl, where k = 26743003890499029312686657680105749056985772446
      and ks = "[41236837104853328082743962635371621669352534453, 491544606446590218543531916967213651334576801238,
      384998914069627420192540694555293912802503021374, 26918795634257099469686665906024557577309619971,
      55228907507220744814098278834118049956484161806]"])
    (simp_all only: pw_eval, simp_all)

lemma prime_160_a_2: "pw 835945042244614951780389953367877943453916927241
      759074791811550622595041579907670563367995104130 35541 3431830406959465402298739682291141893404560217"
  by (rule pw_window [OF prime_160_a_1 prime_160_a_t5 refl, where k = 161062460718748126324552245510856994872449839506
      and ks = "[61893788356805878464087155812289728684174252496, 5436902715715328592151909170826501447545889138,
      138211733266441964662587760889590007470958411757, 668632283493366281387997569494773269680883428543]"])
    (simp_all only: pw_eval, simp_all)

lemma prime_160_a_3: "pw 835945042244614951780389953367877943453916927241
      759074791811550622595041579907670563367995104130 284331 355844824024740234031765643006791719808566884540"
  by (rule pw_window [OF prime_160_a_2 prime_160_a_t3 refl, where k = 309631760603926608696997732275855120932175075046
      and ks = "[14088796926778398834334666628864335114247235, 75064413137435808366258676665287377236875492184,
      29832560910616756797757396207408046853416733895]"])
    (simp_all only: pw_eval, simp_all)

lemma prime_160_a_4: "pw 835945042244614951780389953367877943453916927241
      759074791811550622595041579907670563367995104130 18197197 747258594715876583420527798254489847950127534659"
  by (rule pw_window [OF prime_160_a_3 prime_160_a_t13 refl, where k = 4252259123688013756474779233580180458471673927
      and ks = "[151475913350946187213446936293675669254368492768, 705860974369530856050779382733414305760180560066,
      93104018622628185781903405222091136373870200515, 3799772348514339245936541581638527881585086377,
      338553973303103517053320958294637093535239717957, 324984256457363317855771711935952476528371270963]"])
    (simp_all only: pw_eval, simp_all)

lemma prime_160_a_5: "pw 835945042244614951780389953367877943453916927241
      759074791811550622595041579907670563367995104130 145577581 827865149579084092876773537338883878442219900449"
  by (rule pw_window [OF prime_160_a_4 prime_160_a_t5 refl, where k = 157163835923945975205564117798393905486276170234
      and ks = "[667981002527853444936881986114133658518888127952, 36241858029221322189088783037593724717267234450,
      402193579509380986240716108193418654318126702200]"])
    (simp_all only: pw_eval, simp_all)

lemma prime_160_a_6: "pw 835945042244614951780389953367877943453916927241
      759074791811550622595041579907670563367995104130 2329241303 748986048453348613894226106838220100068956586361"
  by (rule pw_window [OF prime_160_a_5 prime_160_a_t7 refl, where k = 201131858920492014522329928725163558973336567365
      and ks = "[819863353752684191715723674094635547071587542048, 446232819259274764556167649189820148752750636814,
      293694447894593920843879390106646034485535785147, 495305809707634595267043484531128710413727982410]"])
    (simp_all only: pw_eval, simp_all)

lemma prime_160_a_7: "pw 835945042244614951780389953367877943453916927241
      759074791811550622595041579907670563367995104130 18633930425 193100513721356317636394386299178116557489739316"
  by (rule pw_window [OF prime_160_a_6 pw_base refl, where k = 349014958211117860677073161180211120854311161334 and ks =
      "[671072944306794993428075860613461477610981460782, 258947745869315152799205560193194637118479882517,
      67184184707344877954692315759676512075684085259]"])
    (simp_all only: pw_eval, simp_all)

lemma prime_160_a_8: "pw 835945042244614951780389953367877943453916927241
      759074791811550622595041579907670563367995104130 19081144755211
      585450273931736673116220269398984303732315015668"
  by (rule pw_window [OF prime_160_a_7 prime_160_a_t11 refl, where k = 306293138976330228527316197702722914524240773548
      and ks = "[44605573949370381195885470509127337529470568837, 12978346774443743532117860252459826384046704129,
      36766983918737488900476559301016989362017568342, 84425502095825686693497444762180405773465927364,
      660013194190710059314440133017385620094091591193, 466773580096773113871830304734218895236354931476,
      202816531282257300642113498029459967477670106208, 274003773066683748969927616381670255379031827877,
      403094130763723220201671248574621265597274991493, 150702005040415278657737167516757109824558324641]"])
    (simp_all only: pw_eval, simp_all)

lemma prime_160_a_9: "pw 835945042244614951780389953367877943453916927241
      759074791811550622595041579907670563367995104130 305298316083381
      513300866846812495742450126985035411525215605159"
  by (rule pw_window [OF prime_160_a_8 prime_160_a_t5 refl, where k = 27520394951267113064808294975764701753513132644
      and ks = "[410017412539961113317490338314702922168974057295, 1227614155196353791737414771777364423902071958,
      7027947622717781074082226871284312281126614025, 2515671029071943647522754914901564109635295]"])
    (simp_all only: pw_eval, simp_all)

lemma prime_160_a_10: "pw 835945042244614951780389953367877943453916927241
      759074791811550622595041579907670563367995104130 4884773057334103
      497369096813225019131333128712092287448845669830"
  by (rule pw_window [OF prime_160_a_9 prime_160_a_t7 refl, where k = 593907963218649382351245899689662992330643694030
      and ks = "[315185528462755137291357672935646441991371869544, 521441503961367850635430136244013866450245996495,
      86745615013615812023701447734989357637646343437, 816183840825294780188061156011254368093247782941]"])
    (simp_all only: pw_eval, simp_all)

lemma prime_160_a_11: "pw 835945042244614951780389953367877943453916927241
      759074791811550622595041579907670563367995104130 40016060885680971791
      443083719347173428748762152761909438581602665837"
  by (rule pw_window [OF prime_160_a_10 prime_160_a_t15 refl, where k = 77699443125370856762670784458569248284909173083
      and ks = "[295923782023478787748894583165005680568252164801, 588357006820363141117657733071801514090241356430,
      476384487229673670356044742562573731627422244252, 47579866448654782379223731598763553898856352901,
      143786562075278045172010718581130543983630575805, 634760289338806928550229458313966116156796106322,
      138769434466674695205334917423385925280589178616, 45500837297536826416983720702884056570936773093,
      256436190507620087673813011955486246223068483087, 49342969104721508968683289160129803085495344854,
      6928533841912641735191954336044681774002580999, 3630984466832201470616945588576831191907216071,
      499595156105115965494684229113573285271185750653]"])
    (simp_all only: pw_eval, simp_all)

lemma prime_160_a_12: "pw 835945042244614951780389953367877943453916927241
      759074791811550622595041579907670563367995104130 320128487085447774329
      446341605677506210825105173848353398490118735468"
  by (rule pw_window [OF prime_160_a_11 pw_base refl, where k = 538415950078888397230186330899388248372170362512 and ks
      = "[234851781432153636513739320476855161772513602545, 342839557438113923986869047074969212506399307156,
      319012483015600083335577509819370325174607150658]"])
    (simp_all only: pw_eval, simp_all)

lemma prime_160_a_13: "pw 835945042244614951780389953367877943453916927241
      759074791811550622595041579907670563367995104130 40976446346937315114125
      543987977307325234056889089812215126776786471090"
  by (rule pw_window [OF prime_160_a_12 prime_160_a_t13 refl, where k = 20478462229394935001343530696970869919117831993
      and ks = "[238318093763487235945537696001306643860595948141, 569370463306809810552154688469349180376134789,
      175799928028290591710702520613038058329215493955, 4068221589510526649747823776076456939448001921,
      96581346542954586306497782368577339490698686384, 58483837281678299893255271078133850612191307245,
      448568652561561350236815187503266783075101053052]"])
    (simp_all only: pw_eval, simp_all)

lemma prime_160_a_14: "pw 835945042244614951780389953367877943453916927241
      759074791811550622595041579907670563367995104130 327811570775498520913007
      87577820914376687981510211250399105421454072283"
  by (rule pw_window [OF prime_160_a_13 prime_160_a_t7 refl, where k = 497468574871648073268286281596906228257372117721
      and ks = "[353998055494564170799414078973126307128965138812, 98292105435191047766980141663830941661325974616,
      399314410677063615929818086647551211569631386108]"])
    (simp_all only: pw_eval, simp_all)

lemma prime_160_a_15: "pw 835945042244614951780389953367877943453916927241
      759074791811550622595041579907670563367995104130 20979940529631905338432455
      428733464043627810994879705088254312137766971753"
  by (rule pw_window [OF prime_160_a_14 prime_160_a_t7 refl, where k = 134738206924500802171571341028116037640766409124
      and ks = "[9175094448214060386204253358876784942756926965, 7336536161003164677356946298419202697712619136,
      701586317748481004687034281865826497294267143347, 437082566796924808482688830084062076154752472269,
      9531248385653371778077022786431401047854927898, 520067970492842961484440461421684749637488402081]"])
    (simp_all only: pw_eval, simp_all)

lemma prime_160_a_16: "pw 835945042244614951780389953367877943453916927241
      759074791811550622595041579907670563367995104130 1342716193896441941659677123
      140246818418290753412295156587253799982069248672"
  by (rule pw_window [OF prime_160_a_15 prime_160_a_t3 refl, where k = 318358350857070701653031681170600724712870892934
      and ks = "[219885726814396686868737797473375912993577801800, 400124706314853837531860282561012543803263392552,
      709459344608884904458958072050050650431464614915, 57400566578758770284741594681769330235459102431,
      32832460042577847060618767481815989096545587996, 78897584510332071135429663383702205469355928342]"])
    (simp_all only: pw_eval, simp_all)

lemma prime_160_a_17: "pw 835945042244614951780389953367877943453916927241
      759074791811550622595041579907670563367995104130 171867672818744568532438671757
      504000976525410158170077421949244201909072530972"
  by (rule pw_window [OF prime_160_a_16 prime_160_a_t13 refl, where k = 4812079310569566245381636831487295004162659051
      and ks = "[23529262191254684382013851209291676807799842146, 601231831998859972871332421003449589604617272968,
      217909832332889220067033187800449774188115426764, 27399324915045367995535504170612188197547113609,
      66385840909416110780029811474562745518056121275, 147050304438483945387032350107916410774500702084,
      718912357822669417832130097890558168408690675927]"])
    (simp_all only: pw_eval, simp_all)

lemma prime_160_a_18: "pw 835945042244614951780389953367877943453916927241
      759074791811550622595041579907670563367995104130 2749882765099913096519018748127
      297711088177804081715916790927087546355660830761"
  by (rule pw_window [OF prime_160_a_17 prime_160_a_t15 refl, where k = 95048387082386151707644588201025474584359134439
      and ks = "[303868043354262007261738599908531907886456652429, 286208593443436520094356595251295128648405244378,
      9753631856541296857720403518943118737295038325, 372877445182420265978741522552170088508077125399]"])
    (simp_all only: pw_eval, simp_all)

lemma prime_160_a_19: "pw 835945042244614951780389953367877943453916927241
      759074791811550622595041579907670563367995104130 87996248483197219088608599940071
      89651430555780134794480892858389562488072173169"
  by (rule pw_window [OF prime_160_a_18 prime_160_a_t7 refl, where k = 184688683949880208445987659569383630614100625053
      and ks = "[106025979633810301817657250653266871798171640407, 38436799666772019389063665557729083120719717959,
      588902013882939689785736404949046802293337654062, 9986697754476368246160282667893934029914235277,
      597085079875071078729864529985741747603934996646]"])
    (simp_all only: pw_eval, simp_all)

lemma prime_160_a_20: "pw 835945042244614951780389953367877943453916927241
      759074791811550622595041579907670563367995104130 2815879951462311010835475198082275
      374161351346742659646230753179666666933398834855"
  by (rule pw_window [OF prime_160_a_19 prime_160_a_t3 refl, where k = 630489855143519200840052896334778165998916746325
      and ks = "[9614721775389109019033840206050921298458188217, 46732994756959110816758183268517930545749685639,
      466169427896035924643981710952742813649893181785, 621870410731856004756508116219174556294190691694,
      735442820730292986248316958888898935925491843154]"])
    (simp_all only: pw_eval, simp_all)

lemma prime_160_a_21: "pw 835945042244614951780389953367877943453916927241
      759074791811550622595041579907670563367995104130 180216316893587904693470412677265605
      476485132061903049755387944691225119204822385201"
  by (rule pw_window [OF prime_160_a_20 prime_160_a_t5 refl, where k = 53338368773965690577918816541159209212737319903
      and ks = "[167471196988874115852853642919651149799402864484, 24036813410424673076711576236314170681496136964,
      257739637411421324290324191745108626941096527120, 339096385989241718298249192640608507719292865521,
      225417734072741366711502543040879858394921091380, 11735957435346815315355172168418379417697935352]"])
    (simp_all only: pw_eval, simp_all)

lemma prime_160_a_22: "pw 835945042244614951780389953367877943453916927241
      759074791811550622595041579907670563367995104130 720865267574351618773881650709062421
      381118870174985666043432125222943368628977314183"
  by (rule pw_window [OF prime_160_a_21 pw_base refl, where k = 219464677341304686757492504967520178817600098587 and ks
      = "[271594506340302108759175293782805529715439098998, 652950472258367544558842448939311436425889950524]"])
    (simp_all only: pw_eval, simp_all)

lemma prime_160_a_23: "pw 835945042244614951780389953367877943453916927241
      759074791811550622595041579907670563367995104130 46135377124758503601528425645379994945
      638543572790337134565929942265034103130989032125"
  by (rule pw_window [OF prime_160_a_22 pw_base refl, where k = 65166624825270947662738720085951100417134908245 and ks =
      "[173757347508682195719794307475299732018903657960, 406217586194077841722604132997620025306903070275,
      189067382023558518158137616993027331626920324434, 66769730621588809067288450364809414647793222293,
      271844701959572607123003179724691361991690729856, 143469512896223198058537962729041199772502359076]"])
    (simp_all only: pw_eval, simp_all)

lemma prime_160_a_24: "pw 835945042244614951780389953367877943453916927241
      759074791811550622595041579907670563367995104130 5905328271969088460995638482608639352967
      605854722994094937206122215282778140128119109561"
  by (rule pw_window [OF prime_160_a_23 prime_160_a_t7 refl, where k = 178462716006661202293194812823808287652112027401
      and ks = "[487756818626523976603352311245899379748377699926, 332207674474238195636279694657959807118325293978,
      261870128889521300369985576435959943598551319716, 2521337007125016066434136329949659402498898337,
      199519180000839041178982644861834304238328826790, 276827197530008954036187351434191948396863755649,
      3364372425116155873899307085367613098947589051]"])
    (simp_all only: pw_eval, simp_all)

lemma prime_160_a_25: "pw 835945042244614951780389953367877943453916927241
      759074791811550622595041579907670563367995104130 188970504703010830751860431443476459294957
      176438508138095114675217012505258985453581494959"
  by (rule pw_window [OF prime_160_a_24 prime_160_a_t13 refl, where k = 14032552116778983660906097033022580200475296911
      and ks = "[439095785996469985780442101542743532051672244288, 1927174992368819555695470563826473508084766805,
      23647854948816377567027834536624305930768889998, 518721336247894541665045122689612691049347487628,
      15599014395048196556396633336408383817774639526]"])
    (simp_all only: pw_eval, simp_all)

lemma prime_160_a_26: "pw 835945042244614951780389953367877943453916927241
      759074791811550622595041579907670563367995104130 6047056150496346584059533806191246697438635
      585376404572727195020205464330081697957679108051"
  by (rule pw_window [OF prime_160_a_25 prime_160_a_t11 refl, where k = 150131295487709849867754621846938731249859416317
      and ks = "[37239944710249515099386852004066991367149026357, 205499465878410914103577968904549738087380751859,
      73368349587765234642116855815503983384910303136, 416035740347938438489816459809527135006178508973,
      237484744068161769082582726121832794434912760817]"])
    (simp_all only: pw_eval, simp_all)

lemma prime_160_a_27: "pw 835945042244614951780389953367877943453916927241
      759074791811550622595041579907670563367995104130 387011593631766181379810163596239788636072651
      605925974814297474496688051396989196144256378798"
  by (rule pw_window [OF prime_160_a_26 prime_160_a_t11 refl, where k = 97629032088032517088115461229420795825114252378
      and ks = "[409913950934375069568226846549711913309582311335, 18215542754574836357914965423112370910766108445,
      4242387296389249430334234642487317133990935839, 750676796903496481987014333822400724029151536182,
      627333282770241194023241674823970574104636060422, 96793544135309576400981747032507903519800081601]"])
    (simp_all only: pw_eval, simp_all)

lemma prime_160_a_28: "pw 835945042244614951780389953367877943453916927241
      759074791811550622595041579907670563367995104130 774023187263532362759620327192479577272145303 1"
  by (rule pw_window [OF prime_160_a_27 pw_base refl, where k = 28184634038567004694859909001647680984861329039 and ks =
      "[439199072188793479940178158621264770397258265664]"])
    (simp_all only: pw_eval, simp_all)

lemma prime_160: "is_prime 835945042244614951780389953367877943453916927241"
proof (rule pocklington)
  fix d assume d: "is_prime d" "d dvd 835945042244614951780389953367877943453916927241"
  show "774023187263532362759620327192479577272145303 dvd d - 1"
    by (rule pw_factor [OF prime_150 prime_160_a_28 d, where
      u = 829816007257442285709994915664332448456883264405 and v = 753509359011803945872605034392251507628474740084]) simp_all
qed simp_all

section \<open>The prime of the curve\<close>

text \<open>A product with the prime of the curve, by shifts.\<close>

definition times_p256 :: "int \<Rightarrow> int" where
  "times_p256 k = (((k * 0x100000000 - k) * 0x100000000 + k) * 0x1000000000000000000000000 + k) * 0x1000000000000000000000000 - k"

lemma times_p256_eq: "times_p256 = (*) p256"
  by (simp add: fun_eq_iff times_p256_def p256_def algebra_simps)

lemma prime_256_a_t2: "pw p256 49835480456766173544607506164699712169824023691580347094409044481755491731278 2
      93113400196744933169596744545737750910068619147406646832811164272688935346003"
  by (rule pw_times [OF pw_base pw_base times_p256_eq, where k =
      21448573294544170472655412528810831098693183198980888702170054916863537234831]) (simp_all only: pw_eval
      times_p256_def)

lemma prime_256_a_t3: "pw p256 49835480456766173544607506164699712169824023691580347094409044481755491731278 3
      76512115423202864959102132563882055235838762081657459913659422924478118294853"
  by (rule pw_times [OF pw_base prime_256_a_t2 times_p256_eq, where k =
      40074853709029584911662887520700379484459611614460368890427359241070197089531]) (simp_all only: pw_eval
      times_p256_def)

lemma prime_256_a_t5: "pw p256 49835480456766173544607506164699712169824023691580347094409044481755491731278 5
      6536891976038862324907099223530744739773663665885923024274972477388406405213"
  by (rule pw_times [OF prime_256_a_t3 prime_256_a_t2 times_p256_eq, where k =
      61526683488348727729288535589065753705900344850487662607995978470902434715646]) (simp_all only: pw_eval
      times_p256_def)

lemma prime_256_a_t7: "pw p256 49835480456766173544607506164699712169824023691580347094409044481755491731278 7
      3620087802978014161067946293858962068192049401933433626867529268767577909643"
  by (rule pw_times [OF prime_256_a_t5 prime_256_a_t2 times_p256_eq, where k =
      5256596048647499157842623269012785847825767330917315584408830792166007709796]) (simp_all only: pw_eval
      times_p256_def)

lemma prime_256_a_t9: "pw p256 49835480456766173544607506164699712169824023691580347094409044481755491731278 9
      16346905657406051443772244718933393580989117033493703202305667065823044347149"
  by (rule pw_times [OF prime_256_a_t7 prime_256_a_t2 times_p256_eq, where k =
      2911068335019722649649628169244405086651927170108445966139055614182626678780]) (simp_all only: pw_eval
      times_p256_def)

lemma prime_256_a_t11: "pw p256 49835480456766173544607506164699712169824023691580347094409044481755491731278 11
      6349716428820925243141316137025241104773572673973461030833552339850929646728"
  by (rule pw_times [OF prime_256_a_t9 prime_256_a_t2 times_p256_eq, where k =
      13145250067051627321863254820720766266104830872018831982864019823327254681169]) (simp_all only: pw_eval
      times_p256_def)

lemma prime_256_a_t13: "pw p256 49835480456766173544607506164699712169824023691580347094409044481755491731278 13
      111235403918031815610895893689607219468218530305207940370216467441399239103137"
  by (rule pw_times [OF prime_256_a_t11 prime_256_a_t2 times_p256_eq, where k =
      5106080139020145072630891625296500915596689378670005795221510333364137781897]) (simp_all only: pw_eval
      times_p256_def)

lemma prime_256_a_t15: "pw p256 49835480456766173544607506164699712169824023691580347094409044481755491731278 15
      23377031292485198231865214502022855991365248240907928773318479232233150087166"
  by (rule pw_times [OF prime_256_a_t13 prime_256_a_t2 times_p256_eq, where k =
      89449173529031617791775020744858954513462168403699643486564989023638090593995]) (simp_all only: pw_eval
      times_p256_def)

lemma prime_256_a_0: "pw p256 49835480456766173544607506164699712169824023691580347094409044481755491731278 585
      99712949985582419183957345880312879965244343946945906913280940783172915829843"
  by (rule pw_window [OF prime_256_a_t9 prime_256_a_t9 times_p256_eq, where k =
      3115099685904165708699230918905735973310684519989858398377017793957349086104 and ks =
      "[2307768401057869049033309135123235413591482885653443070215356069943334613975,
      32491612864603856485014642652131876530273391378890038849427686569677890237923,
      85747924075175954760895717507042556377688908473550011068836150817310585861143,
      95705431626590014227822598625737009179293036220842372171847413365435961919938,
      50285210095590743986403445554730676858171830114557166027570012961965253898242,
      2316970980556688004569514864037995159396037736728278833779567981767574335171]"])
    (simp_all only: pw_eval times_p256_def, simp_all)

lemma prime_256_a_1: "pw p256 49835480456766173544607506164699712169824023691580347094409044481755491731278 9371
      78212725842336451567463347567907317486783962539190005264838377906488072719668"
  by (rule pw_window [OF prime_256_a_0 prime_256_a_t11 times_p256_eq, where k =
      2272556373364993578796816126261277437990724020371008847486732279802228995724 and ks =
      "[85866594709805142326815908693010423644084991661556727362196407046179452585081,
      8886433981369345434454833353148766584910385474482412613213520315803354803772,
      9977921404377666921983441518892118941203689302630576316469813280142075044090,
      38258795084889170223035577329066569420941219819480395233631332522265268357857]"])
    (simp_all only: pw_eval times_p256_def, simp_all)

lemma prime_256_a_2: "pw p256 49835480456766173544607506164699712169824023691580347094409044481755491731278 37485
      65732466738261353030761595034184240685705317071310742572481075174737085670804"
  by (rule pw_window [OF prime_256_a_1 pw_base times_p256_eq, where k =
      480471926309750713389958210724011821571568383067769987191149612576366061256 and ks =
      "[52829433559795978199145516942699259993636962819839621689223097964303658692282,
      35878083469167850522915543142614979757925268891988454583103211249461916164294]"])
    (simp_all only: pw_eval times_p256_def, simp_all)

lemma prime_256_a_3: "pw p256 49835480456766173544607506164699712169824023691580347094409044481755491731278 4798089
      59819354489464390897308805586596641166292903142703745348832039346685963654660"
  by (rule pw_window [OF prime_256_a_2 prime_256_a_t9 times_p256_eq, where k =
      14609551449751959391665131952408215257880981799450297516136638849180152964352 and ks =
      "[37314787331000103410517824808644404553340765725667404550511857873628197628424,
      33194323246051795140912862749207237132654909670127159622360090837179829936053,
      969292316855022109437698916587575552133806280299256230933329327665451755290,
      10356312950830990762870066394031648792056950134064950008432323979844153924190,
      54211553057401529307834365996113110184302218590873305274831456213599784565312,
      4283329008217750518755911864125666697177031285703698818213151973364962232,
      263933630804307847109237647698214482173492296362814464864732079386306299043]"])
    (simp_all only: pw_eval times_p256_def, simp_all)

lemma prime_256_a_4: "pw p256 49835480456766173544607506164699712169824023691580347094409044481755491731278 153538855
      53888963088259672647858293054688037337443277845255679715780820621645198979783"
  by (rule pw_window [OF prime_256_a_3 prime_256_a_t7 times_p256_eq, where k =
      3512519817992917237018978793849270028005533187401652238333787296248091826438 and ks =
      "[30903278418575779006245842980098606992596106363539661963643946430303822144500,
      11189643593835701372204138363905077822868379384718104410695506233904189847656,
      62788673110066985663714308585467197086574128812545423356352776692071213442739,
      17670874887377913166752376483748491765032770366039941122172044423943735814605,
      13768964712858683138973830782038893234015837834774008193773350036669912319]"])
    (simp_all only: pw_eval times_p256_def, simp_all)

lemma prime_256_a_5: "pw p256 49835480456766173544607506164699712169824023691580347094409044481755491731278 4913243373
      74678783810389891989124886061264596317547742349567568055622603957283639459654"
  by (rule pw_window [OF prime_256_a_4 prime_256_a_t13 times_p256_eq, where k =
      65541374953627009493152055032954443664619010528333469079280845708047098601429 and ks =
      "[25079609173059836316930608699323533055952942792943268770450417182407406355758,
      1999844081634072009469716579545880516062023739657975281818832169232017901201,
      80341629010561887912189246568481625211349546790388381182875099577887658532821,
      17809678080923747923613325157974915547500271034653556197296573033805137579028,
      85001725133792128268129240909228303715724579424008473856717954860419776645560]"])
    (simp_all only: pw_eval times_p256_def, simp_all)

lemma prime_256_a_6: "pw p256 49835480456766173544607506164699712169824023691580347094409044481755491731278
      19652973495 57986702283224612543641536006196476045026128787086276926861403780121925929667"
  by (rule pw_window [OF prime_256_a_5 prime_256_a_t3 times_p256_eq, where k =
      50339965769370067079627321120581710709650444587079299446558417498167679717961 and ks =
      "[48163227638699182125039113690335108328909432589949550632663134902720437317690,
      13066751215860893806395195103704085038751566287871936570490191133940344690350]"])
    (simp_all only: pw_eval times_p256_def, simp_all)

lemma prime_256_a_7: "pw p256 49835480456766173544607506164699712169824023691580347094409044481755491731278
      157223787961 14696119337392869370339922458537940632164065576737879198946643049192133920707"
  by (rule pw_window [OF prime_256_a_6 pw_base times_p256_eq, where k =
      24582268908463685755126433444855519794807087905460133919874452753498980955919 and ks =
      "[29038750959703678658443949335514997946471504409833733242709839503405520911884,
      54924718535403301499861657754842619487440425600690220363754916049563857089385,
      5522403455910132617199385587905069200093888747860803492136777261217602669458]"])
    (simp_all only: pw_eval times_p256_def, simp_all)

lemma prime_256_a_8: "pw p256 49835480456766173544607506164699712169824023691580347094409044481755491731278
      80498579436047 9563348912510295691093332796353715796634117396751513245533344440679342031032"
  by (rule pw_window [OF prime_256_a_7 prime_256_a_t15 times_p256_eq, where k =
      6966741872496953494801066992658318297873704052555058997128906088044281165994 and ks =
      "[1865204480303790116592572740284164621542271384562142134788944226883566633886,
      17832436238968999847047197951290724193293934742627016661724578261259701710566,
      355549220671341032350642960795311721003166279726116575030110308082457382678,
      6846535090315098640150181769092922735766332420590056532483714868547162323671,
      57497444529565828536537008344873257457281816379878075431736918698344102761392,
      4528760418130104772686374035157421017635301403325758820695490598269270823256,
      764623941147782735250866558491941322040210977788112544175037442167981266525,
      836904984420529169493105569806208567262688568674474936347493723969726256530,
      23254898355461150935638044402594869299302212954708919083337629097767791362720]"])
    (simp_all only: pw_eval times_p256_def, simp_all)

lemma prime_256_a_9: "pw p256 49835480456766173544607506164699712169824023691580347094409044481755491731278
      1287977270976765 105852879624554335934854489404282093698137956579677389662471174209492118249375"
  by (rule pw_window [OF prime_256_a_8 prime_256_a_t13 times_p256_eq, where k =
      93535821992144816050093947030700194277027305060990303678625755296693208275910 and ks =
      "[789843615795404771571270586747954252860892313549023496167508040489567822909,
      73426286962458672698809456179247062026086153153960963862951303558423687184039,
      43410926189639893733707646194083981152992945729457756269037275818404694397821,
      61668324873627141979347434490766573825240196189723377532769951131475730262320]"])
    (simp_all only: pw_eval times_p256_def, simp_all)

lemma prime_256_a_10: "pw p256 49835480456766173544607506164699712169824023691580347094409044481755491731278
      20607636335628247 17199332338816805296750950910631214482584621311557462067630183693193152422094"
  by (rule pw_window [OF prime_256_a_9 prime_256_a_t7 times_p256_eq, where k =
      1968984485647778059651751857187394758471352606500752809207658936620068402364 and ks =
      "[96766818883929846590990262709383068893754590403972012048086514731895648262096,
      63959301232027271355734237693261873410250778612321267221068486700601349128261,
      18660476063208982272370004457139503963085733199974776523025917769330494763169,
      28380949551893328558766823486139483468908692966570699580478726353391872202205]"])
    (simp_all only: pw_eval times_p256_def, simp_all)

lemma prime_256_a_11: "pw p256 49835480456766173544607506164699712169824023691580347094409044481755491731278
      5275554901920831241 65132432664402522771345331464259961935253701481644184889197605120338931863700"
  by (rule pw_window [OF prime_256_a_10 prime_256_a_t9 times_p256_eq, where k =
      15591545293136878198685955488091106634503339628762575939782764718359529089035 and ks =
      "[2554725758196374111892535980911703446240928013511748479018965960903566917099,
      24766419913183378188961934114372255871025820279434011490156298277643958176684,
      12824420251845158207926527743159561281014622806774254686500058849618391844572,
      14665887140982819131120189718091872308624861416080767946832226772967199591527,
      49806724132932761802139768884508341340990645593443068298134847805430177000910,
      32129514821540204929018748097758420178006674530364416292385456539146679246175,
      37615592055132409936655658924773620260449935552854569226483768467078578626153,
      1514799555128092328684842070831292882341168886691538145975734253341464284329]"])
    (simp_all only: pw_eval times_p256_def, simp_all)

lemma prime_256_a_12: "pw p256 49835480456766173544607506164699712169824023691580347094409044481755491731278
      84408878430733299871 3128046580474756285620083440318150349824629831406211978565272894371775842143"
  by (rule pw_window [OF prime_256_a_11 prime_256_a_t15 times_p256_eq, where k =
      21750521767652018836787817687722319064492881826227853046829931107329299561005 and ks =
      "[36636646024031756492749694231461245397575954393644232509545902314647234119353,
      20403537908023391693731708440576962474418872338849722810849410057506229616314,
      68256541921373401632976958972968143070222254009194026941895214333678510531591,
      57838340865063360069624763604432714566318780201348576380697921724025643014503]"])
    (simp_all only: pw_eval times_p256_def, simp_all)

lemma prime_256_a_13: "pw p256 49835480456766173544607506164699712169824023691580347094409044481755491731278
      675271027445866398975 34915575739461385685762276360103417594424383506959106004141949048094735887784"
  by (rule pw_window [OF prime_256_a_12 prime_256_a_t7 times_p256_eq, where k =
      2473173456073372040130510261583556170256646976236046582212187850738209829446 and ks =
      "[84502106114039188779671462949929383387388964587042897074700210835292972181,
      92002159098559005443910232714516561354341990724279723545244296950635802188341,
      26426202260388883496161205438806153373660624127020651105016117951511780451829]"])
    (simp_all only: pw_eval times_p256_def, simp_all)

lemma prime_256_a_14: "pw p256 49835480456766173544607506164699712169824023691580347094409044481755491731278
      10804336439133862383607 45692936729085080829289415916302928799869897198407316793690908533013529164309"
  by (rule pw_window [OF prime_256_a_13 prime_256_a_t7 times_p256_eq, where k =
      2358955071149541100610225809718977421750199609641966424692752980424598071779 and ks =
      "[10528330886260842041352088711537819588787019057646281864211872506170196252884,
      514324689609109452103641187852179339477087769987294558014088214303591603657,
      111340295326248850685099175314204665283934865886313656214548034410175825852119,
      75178176651968711257294702013618265441918410127894321529181176202236986013334]"])
    (simp_all only: pw_eval times_p256_def, simp_all)

lemma prime_256_a_15: "pw p256 49835480456766173544607506164699712169824023691580347094409044481755491731278
      345738766052283596275437 111639483961410939709924864934269731236110070614374367906309619695691919932726"
  by (rule pw_window [OF prime_256_a_14 prime_256_a_t13 times_p256_eq, where k =
      80481289820389765139210515244701717374105664967300587677305185714092909528409 and ks =
      "[18030976737411169577663260850720617224812613254663736367794662256202054652371,
      6552728265838491154033969474987705574748108423111108979852538955077024170955,
      532902244984543089135545030922483698646207061161142732273562140117415567885,
      29007270211533476485055871768658609793104301016017825777611002048937503923026,
      13017016741598379652109426834198489169037138317457026173581304520691311576921]"])
    (simp_all only: pw_eval times_p256_def, simp_all)

lemma prime_256_a_16: "pw p256 49835480456766173544607506164699712169824023691580347094409044481755491731278
      22127281027346150161627979 63856821307023458796180262764336637979213532499526882708912958100239176241034"
  by (rule pw_window [OF prime_256_a_15 prime_256_a_t11 times_p256_eq, where k =
      1442828062065139137933326684870372646616623051452348122435498511007365026466 and ks =
      "[107635801928819739296007726538424450292187946064714197420340286584673689430845,
      96411216562837208413017960510578471147809872976830958240103555992992568040536,
      52867949322830487444180935056756516051125727915947161034680652861678245789478,
      91634851132695367001604799216280829741450746087508850803631286241731858586871,
      9034361037175730834199672612818463238643705649713488931723488184453159534279,
      56423359392261096327939016587416601278087851615575054264531852800042428700]"])
    (simp_all only: pw_eval times_p256_def, simp_all)

lemma prime_256_a_17: "pw p256 49835480456766173544607506164699712169824023691580347094409044481755491731278
      177018248218769201293023839 111849726940930410437641472923405341987419659420361430934408716468213014325685"
  by (rule pw_window [OF prime_256_a_16 prime_256_a_t7 times_p256_eq, where k =
      15763371802111261598319154863011658066130058019208094068438324648889444825 and ks =
      "[35215649490780784444936293805900235338028902266426675019070793065487631447914,
      17875238705855517619936880577933572482922355561475727613563849666536364142338,
      61421500947703539892912786684068110535647671817193588276876728562586048809456]"])
    (simp_all only: pw_eval times_p256_def, simp_all)

lemma prime_256_a_18: "pw p256 49835480456766173544607506164699712169824023691580347094409044481755491731278
      5664583943000614441376762863 54855546909140491044872692218925142090624204480562840010000664082489747495500"
  by (rule pw_window [OF prime_256_a_17 prime_256_a_t15 times_p256_eq, where k =
      19019532546143989524307538473432823261370202946045250170398266893062242342976 and ks =
      "[108041589905450885401308781684105286144657302232154332547045033004218587266118,
      3779180870016943503290055584245654259114656581516221290465672733113376938582,
      60297084859478633714311523031448919796329544308423277028645188163014560066298,
      90277357676525053864242345062576270621677578692295068756645799363207215781278,
      21375878463613373309202778252599448489831675708100153918225803203809416932073]"])
    (simp_all only: pw_eval times_p256_def, simp_all)

lemma prime_256_a_19: "pw p256 49835480456766173544607506164699712169824023691580347094409044481755491731278
      362533372352039324248112823239 88026898029129039678343162944886907989480857143825522437460799227285921016361"
  by (rule pw_window [OF prime_256_a_18 prime_256_a_t7 times_p256_eq, where k =
      486259287470070529388874387298668385687878542056656209138123386770586433951 and ks =
      "[25987362757004139856970839459814968428051687779843999674541332140502506192057,
      1514642710304727059794098434128550205877053824957404418635842161367445879872,
      11330120532621854569058735753028100540047926700327262241739261154871251286623,
      83735649819038087069648873389015072451361146047991536542676129017688246552686,
      11761888142505169883694275756035164536713205599163363307906326109963719915253,
      115515956941740188776341075214654586238375260662894160002733557063059647956525]"])
    (simp_all only: pw_eval times_p256_def, simp_all)

lemma prime_256_a_20: "pw p256 49835480456766173544607506164699712169824023691580347094409044481755491731278
      11601067915265258375939610343661 3056443355678070558211962723928452487463751397167241722809539860942047091046"
  by (rule pw_window [OF prime_256_a_19 prime_256_a_t13 times_p256_eq, where k =
      87306499780958809839510341270214131640640434129851968912817902642124232103793 and ks =
      "[66919379635285553406415496634046540032374181124304715127054479840843749885565,
      34815882607365094090154822369705875803492962226931000251464432391681063571340,
      3642509308210957380973669229063056189557957097879928632830798014748844877550,
      1017627297117093415408200036622943530395350408847429779267041947480862508903,
      4780165359726925746927100219082380735404043449928589129150237596607646458012]"])
    (simp_all only: pw_eval times_p256_def, simp_all)

lemma prime_256_a_21: "pw p256 49835480456766173544607506164699712169824023691580347094409044481755491731278
      185617086644244134015033765498587
      101118482909306627999439708412601761858974251304032414972287714649189859553245"
  by (rule pw_window [OF prime_256_a_20 prime_256_a_t11 times_p256_eq, where k =
      3792117499116530112089428643602907546686358655390222572468023116948163072245 and ks =
      "[80677756573659831784974802320881688714551671322263823203582304162549199999,
      19015053059548394494821266047461865438275760242059958916892067731941556369904,
      65493744112928153121502919766321690138709447622012635524207554574476329269116,
      88884191928383420041340315820521299808717005402515561694446243518200766611876]"])
    (simp_all only: pw_eval times_p256_def, simp_all)

lemma prime_256_a_22: "pw p256 49835480456766173544607506164699712169824023691580347094409044481755491731278
      5939746772615812288481080495954799
      40693098457891914149453313239224640872617524016637167969535283013756341290227"
  by (rule pw_window [OF prime_256_a_21 prime_256_a_t15 times_p256_eq, where k =
      7883773761860773549710703181933292230125360100320826722525863733626800889243 and ks =
      "[88304370839223398236070001067364501497129691188395633523311184666983251410140,
      84628977351445471316874992822738177282552385985275039281639548441126335253958,
      47913173084594559550558239438479940034508323539597298858377833750302970073346,
      219097269854199047634757573125605483656422515205744496414803041182509255405,
      13336907193368638871176177988230039525919838051859246357349074820293884600816]"])
    (simp_all only: pw_eval times_p256_def, simp_all)

lemma prime_256_a_23: "pw p256 49835480456766173544607506164699712169824023691580347094409044481755491731278
      24329202780634367133618505711430856709
      40261213722415956002709728437481862883666932303654234360513387139383651656607"
  by (rule pw_window [OF prime_256_a_22 prime_256_a_t5 times_p256_eq, where k =
      293000562642528682701616351231019685674071969455650917447313412949499073788 and ks =
      "[14300875590001720569293780799228659672938344591731629937527113122546456559985,
      81942643980791038059061350045850453227754683468079016071373554915908334106822,
      68036695883669284877059919163793716192105269413472819881229720612223158225652,
      89440221718024009620647620756696152260143105603571774414375863168861039424752,
      43483487083263417852267483010533256845581550777418274334650246050853112272796,
      3647115555244471123658054635196393442623789219537887666894849588202567386553,
      105453932500308992153457367438089291052375870684559562904129860789515834477839,
      72178458423556715412522519010593014060504937526668492646084746154224903166672,
      2391564545831146848488809775049057880929315930042792552124817099910616907662,
      79853415768969647078179905169541107845761977320215882968079345605715976301859,
      19747685699650461839423593659081539349744263289278034988633261184078718196924,
      67098203632731390468728701423586943866552364456262440494874563426167579358486]"])
    (simp_all only: pw_eval times_p256_def, simp_all)

lemma prime_256_a_24: "pw p256 49835480456766173544607506164699712169824023691580347094409044481755491731278
      778534488980299748275792182765787414697
      71884594981801130587268487250139953863028209933364751650580965742376080794672"
  by (rule pw_window [OF prime_256_a_23 prime_256_a_t9 times_p256_eq, where k =
      3102246253774018603144667410725260404759895707612438170097533486704391432494 and ks =
      "[13998929818575883167669354992008367590469819738517323603647324674299712058980,
      63870439474182845453733960620308147107004907206829887137806814261928850826089,
      113951905133239915251346296605320988894070473661092521272518455954712360663176,
      3910849788194818176281804102234441128457837369500807377551606687270425877410,
      27866107637149933175402477004482520298274774560547331957365445646126528528582]"])
    (simp_all only: pw_eval times_p256_def, simp_all)

lemma prime_256_a_25: "pw p256 49835480456766173544607506164699712169824023691580347094409044481755491731278
      12456551823684795972412674924252598635165
      4362670284183359197785983536380213342288858623580865270248633622920543570211"
  by (rule pw_window [OF prime_256_a_24 prime_256_a_t13 times_p256_eq, where k =
      13223730520424331787577796601116612937192909697184658683204632836427548343972 and ks =
      "[44626494183986320291477912382331154091573970870523950345386957292576683928230,
      99618855955101914659666992497892781898210954005538824795318918535781308061636,
      33653117814946789571644705906443797358605660320328334715987535121025063632403,
      18495581778368929708069452888973942827529855309365174067772524033557989162550]"])
    (simp_all only: pw_eval times_p256_def, simp_all)

lemma prime_256_a_26: "pw p256 49835480456766173544607506164699712169824023691580347094409044481755491731278
      99652414589478367779301399394020789081325
      88873672713801783519465768767797980057178931055339114031370074983499828909071"
  by (rule pw_window [OF prime_256_a_25 prime_256_a_t5 times_p256_eq, where k =
      1311521550398830228913489517094439619138018091893753587646305793530681470593 and ks =
      "[164371263514556592080177752032073388310414927424248509317477104064927222896,
      47711316514066183236524228626439672711466720906930035169910310067011974856971,
      3436087908522506110222371971522832533639148789128013786868356521971568359638]"])
    (simp_all only: pw_eval times_p256_def, simp_all)

lemma prime_256_a_27: "pw p256 49835480456766173544607506164699712169824023691580347094409044481755491731278
      3188877266863307768937644780608665250602405
      43397137597308600875577173611519796160176819810118936664503002635184468261712"
  by (rule pw_window [OF prime_256_a_26 prime_256_a_t5 times_p256_eq, where k =
      5619332592516068234242483612328844985744885257919917357610673873995311902622 and ks =
      "[68213033856664575364472111852385340810027124875139825383562697632622614103735,
      22455109398812329593494139960643631980539962260368444211114213558467128714202,
      25913272123397147343602659186806384166169505754458314683846340879879585902966,
      49374834987165461648192467478926637752718355898567580881775921345935304432658,
      115491946822882101384480151096724437411768933443772714082103355135597907446]"])
    (simp_all only: pw_eval times_p256_def, simp_all)

lemma prime_256_a_28: "pw p256 49835480456766173544607506164699712169824023691580347094409044481755491731278
      12755509067453231075750579122434661002409621
      112577199809091590152931888625242148119181186618620531032127314713958698990224"
  by (rule pw_window [OF prime_256_a_27 pw_base times_p256_eq, where k =
      10331439248832171370991891517268358956117027247564726414944751224083816934270 and ks =
      "[16264596005504109355609364235877726018987419649297541851855785967703586653585,
      59592575189817221229289881187527139010769590208311296953253306888052616352558]"])
    (simp_all only: pw_eval times_p256_def, simp_all)

lemma prime_256_a_29: "pw p256 49835480456766173544607506164699712169824023691580347094409044481755491731278
      816352580317006788848037063835818304154215749
      54658313070214774521339934226174119475280086270884381734498285042088240430800"
  by (rule pw_window [OF prime_256_a_28 prime_256_a_t5 times_p256_eq, where k =
      2460270887277527816917062738284948636348687765738655396902417188386800349869 and ks =
      "[109451569647666603113992072928007002021733101539469573700715173861074003256337,
      8469148963351992542138097158399431038058190709959411796456537758649303013861,
      80596526075639674952584365223142752175948847220320481273657700787557646105,
      443265978434751657170072765381968039755513140967649073215135489683386635024,
      8411658572731309369203520324669413016574903986928174176889238098519191855916,
      26257159318956533193107969128284184858323716842553511845465234343102539396662]"])
    (simp_all only: pw_eval times_p256_def, simp_all)

lemma prime_256_a_30: "pw p256 49835480456766173544607506164699712169824023691580347094409044481755491731278
      3265410321268027155392148255343273216616862997
      19926031798188344465829606593786486185758220895505622089032912020799547574973"
  by (rule pw_window [OF prime_256_a_29 pw_base times_p256_eq, where k =
      31928385079272143100080373259022425588805464792028610268597232536970542134129 and ks =
      "[25800822906427112903775981223669175782999186594731582382036653530031311450396,
      22904061902609562369704840440964340853216429632083217908034625741881893105882]"])
    (simp_all only: pw_eval times_p256_def, simp_all)

lemma prime_256_a_31: "pw p256 49835480456766173544607506164699712169824023691580347094409044481755491731278
      835945042244614951780389953367877943453916927241 1"
  by (rule pw_window [OF prime_256_a_30 prime_256_a_t9 times_p256_eq, where k =
      13903303227363970971741908346668085052536629027131492781688513603121573113181 and ks =
      "[3428962599518429267235581151543716853068790756261327745201803439215827398422,
      1357921758002776208456239174078887499929470051311845547434833397125314397344,
      83811339244402431013538067112560384170486449279133532692398936180441277316140,
      51446391267114787626665038387933520169718175151893524780909026287322775488414,
      85295520566795094904836115824058419480539136635917681580087552107125619917076,
      5485514002874502188626736255849751618480218201751788880672746499237250776032,
      99665171285692011706045900640734270527743076382054313775764114706232812631311,
      8317263701698343550888636363248435379971026089785323018826954326952965172276]"])
    (simp_all only: pw_eval times_p256_def, simp_all)

theorem prime_p256: "is_prime (nat p256)"
proof (rule pocklington)
  fix d assume d: "is_prime d" "d dvd nat p256"
  show "835945042244614951780389953367877943453916927241 dvd d - 1"
    by (rule pw_factor [OF prime_160 prime_256_a_31 d, where
      u = 35893950584104763925847036954507472337811148100266109799856099637894785463246 and v =
      15448311581982382821756396509525202587693568224294205004967363464185155815691]) (simp_all add: p256_def)
qed (simp_all add: p256_def)

text \<open>Fermat's theorem for it, on the integers.\<close>

lemma p256_numeral: "p256 = 0xffffffff00000001000000000000000000000000ffffffffffffffffffffffff"
  by (simp add: p256_def)

lemma fermat_p256:
  assumes "coprime z p256"
  shows "z ^ nat (p256 - 1) mod p256 = 1"
proof -
  define a where "a = nat (z mod p256)"
  have p: "0 < p256" "int (nat p256) = p256" by (simp_all add: p256_def)
  have a: "int a = z mod p256" using p(1) by (simp add: a_def)
  have "coprime (int a) p256" using assms p(1) by (simp add: a coprime_mod_left_iff)
  moreover have "\<not> p256 dvd 1" by (simp add: p256_def)
  ultimately have "\<not> p256 dvd int a" using coprime_common_divisor dvd_refl by blast
  then have "\<not> nat p256 dvd a" using p by (metis int_dvd_int_iff)
  from fermat [OF prime_p256 this] have "int (a ^ (nat p256 - 1) mod nat p256) = 1" by simp
  then have "int a ^ (nat p256 - 1) mod p256 = 1" using p(2) by (simp add: zmod_int)
  moreover have "nat p256 - 1 = nat (p256 - 1)" by (simp add: p256_def)
  ultimately show ?thesis by (simp add: a power_mod)
qed

end
