(* ===== verification/Tls_Ecdh.thy ===== *)
theory Tls_Ecdh
  imports Tls_Curve Tls_Sp_Le64 P256_Prime
begin

text \<open>
  The result of a scalar multiplication in affine coordinates and the key agreement on P-256.
\<close>

section \<open>From the ladder to affine coordinates\<close>

lemma reduce_to_modulus_value:
  assumes "length r = 8"
  shows "length (reduce_to_modulus r) = 8" and "wval (reduce_to_modulus r) = wval r mod p256"
proof -
  note s = sp_256_sub_8_p256_mod_value [OF assms]
  have c: "sp_256_cmp_8 r p256_mod \<ge> 0 \<longleftrightarrow> p256 \<le> wval r"
    using sp_256_cmp_8_sgn [OF assms length_p256_mod] by (simp add: wval_p256_mod sgn_if)
  show "length (reduce_to_modulus r) = 8" using s(1) assms by (simp add: reduce_to_modulus_def)
  have "wval r < 2 * p256" using wval_less_256 [OF assms] p256_large by simp
  then have "wval r - p256 = wval r mod p256" if "p256 \<le> wval r"
    using that by (metis diff_ge_0_iff_ge diff_less_eq minus_mod_self2 mod_pos_pos_trivial mult_2)
  then show "wval (reduce_to_modulus r) = wval r mod p256"
    using s(2) c by (auto simp: reduce_to_modulus_def)
qed

text \<open>
  The power that \<^verbatim>\<open>sp_256_mont_inv_8\<close> computes is an inverse, by Fermat's theorem.
\<close>

lemma power_inverse:
  assumes "invertible Z"
  shows "eqm (Z * Z ^ nat (p256 - 2)) 1"
proof -
  have "Suc (nat (p256 - 2)) = nat (p256 - 1)" by (simp add: p256_def)
  then have "Z * Z ^ nat (p256 - 2) = Z ^ nat (p256 - 1)" by (metis power_Suc)
  moreover have "Z ^ nat (p256 - 1) mod p256 = 1" using assms fermat_p256 by (simp only: invertible_def)
  ultimately show ?thesis by (simp add: eqm_def p256_def)
qed

lemma sp_256_map_8_value:
  assumes "jacobian p Z (x, y)" and "r' = sp_256_map_8 r p"
  shows "length (sp_x r') = 8" and "wval (sp_x r') = x mod p256" and "length (sp_y r') = 8" and "wval (sp_y r') = y mod p256"
    and "sp_z r' = sp_one" and "sp_infinity r' = sp_infinity r"
proof -
  have p: "mform (sp_x p) (x * Z ^ 2)" "mform (sp_y p) (y * Z ^ 3)" "mform (sp_z p) Z" "invertible Z"
    using assms(1) by (simp_all add: jacobian_def)
  define w where "w = Z ^ nat (p256 - 2)"
  define t1 where "t1 = sp_256_mont_inv_8 (sp_z p)"
  define t2 where "t2 = sp_256_mont_sqr_8 t1"
  have t1: "mform t1 w" unfolding t1_def w_def by (rule mform_inv [OF p(3)])
  have t2: "mform t2 (w * w)" unfolding t2_def by (rule mform_sqr [OF t1])
  have t3: "mform (sp_256_mont_mul_8 t2 t1) (w * w * w)" by (rule mform_mul [OF t2 t1])
  have zw: "eqm (Z * w) 1" unfolding w_def by (rule power_inverse [OF p(4)])
  have pw: "eqm (n * (Z * w) ^ k) n" for n k
    using zw unfolding eqm_def by (metis mod_mult_right_eq mult_1_right power_mod power_one)
  let ?x = "sp_256_mont_mul_and_reduce_8 (sp_x p) t2" and ?y = "sp_256_mont_mul_and_reduce_8 (sp_y p) (sp_256_mont_mul_8 t2 t1)"
  note vx = mont_mul_and_reduce_value [OF p(1) t2] and vy = mont_mul_and_reduce_value [OF p(2) t3]
  have "x * Z ^ 2 * (w * w) = x * (Z * w) ^ 2" "y * Z ^ 3 * (w * w * w) = y * (Z * w) ^ 3" by algebra+
  then have m: "wval ?x mod p256 = x mod p256" "wval ?y mod p256 = y mod p256"
    using vx(2) vy(2) pw [of x 2] pw [of y 3] by (simp_all only: eqm_def)
  have r': "r' = r\<lparr>sp_x := reduce_to_modulus ?x, sp_y := reduce_to_modulus ?y, sp_z := sp_one\<rparr>"
    unfolding assms(2) sp_256_map_8_def t1_def [symmetric] Let_def t2_def [symmetric] by simp
  show "length (sp_x r') = 8" "wval (sp_x r') = x mod p256" "length (sp_y r') = 8" "wval (sp_y r') = y mod p256"
    "sp_z r' = sp_one" "sp_infinity r' = sp_infinity r"
    using reduce_to_modulus_value [OF vx(1)] reduce_to_modulus_value [OF vy(1)] m by (simp_all add: r')
qed

section \<open>Scalar multiplication\<close>

definition norm_point :: "sp_point \<Rightarrow> sp_point" where
  "norm_point g = sp_zero\<lparr>sp_x := sp_256_mod_mul_norm_8 (sp_x g), sp_y := sp_256_mod_mul_norm_8 (sp_y g),
     sp_z := sp_256_mod_mul_norm_8 (sp_z g)\<rparr>"

definition scalar_bits :: "u32 list \<Rightarrow> bool list" where "scalar_bits k = map (scalar_bit k) (rev [0..<256])"

text \<open>
  The runs whose sums and differences stay in the range in which one correction by the prime is
  enough (\<open>norm_exact\<close> for the conversion of the coordinates, \<open>add_exact\<close> and \<open>sub_exact\<close> in every
  pass), and in which no two points that are added have the same \<open>x\<close> and no point that is doubled
  has \<open>y = 0\<close> modulo the prime.
\<close>

definition mulmod_exact :: "sp_point \<Rightarrow> u32 list \<Rightarrow> bool" where
  "mulmod_exact g k \<longleftrightarrow>
     norm_exact (sp_x g) \<and> norm_exact (sp_y g) \<and> ladder_exact (scalar_bits k) (sp_inf, norm_point g)"

definition affine :: "sp_point \<Rightarrow> bool" where
  "affine g \<longleftrightarrow> length (sp_x g) = 8 \<and> length (sp_y g) = 8 \<and> sp_z g = sp_one"

lemma sp_one_value: "length sp_one = 8" "wval sp_one = 1" by (simp_all add: sp_one_def)

lemma norm_exact_one: "norm_exact sp_one"
  by (simp add: norm_exact_def norm_sum_def sp_one_def p256_def)

lemma ladder_start:
  assumes "affine g" and "norm_exact (sp_x g)" and "norm_exact (sp_y g)"
  shows "ladder_inv (wval (sp_x g), wval (sp_y g)) 0 (sp_inf, norm_point g)"
proof -
  have "jacobian (norm_point g) 1 (wval (sp_x g), wval (sp_y g))"
    using assms mform_norm [OF _ norm_exact_one] sp_one_value
    by (auto simp: jacobian_def norm_point_def sp_zero_def affine_def invertible_def intro: mform_norm)
  then have "denotes (wval (sp_x g), wval (sp_y g)) (norm_point g) 1" unfolding denotes_def using ec_one by blast
  then show ?thesis by (simp add: ladder_inv_def)
qed

lemma sp_256_ecc_mulmod_8_points:
  assumes "length k = 8"
  shows "sp_256_ecc_mulmod_8 r g k = sp_256_map_8 r (fst (fold ladder_points (scalar_bits k) (sp_inf, norm_point g)))"
proof -
  let ?t = "[sp_inf, norm_point g, sp_zero]"
  have "(mulmod_loop k 256 (0, ?t) ! 0, mulmod_loop k 256 (0, ?t) ! 1) = fold ladder_points (scalar_bits k) (?t ! 0, ?t ! 1)"
    unfolding scalar_bits_def using assms by (intro mulmod_loop_points) simp_all
  then have "mulmod_loop k 256 (0, ?t) ! 0 = fst (fold ladder_points (scalar_bits k) (sp_inf, norm_point g))"
    by (metis fst_conv nth_Cons_0 nth_Cons_Suc One_nat_def)
  then show ?thesis by (simp only: sp_256_ecc_mulmod_8_def Let_def norm_point_def)
qed

lemma sp_256_ecc_mulmod_8_multiple:
  assumes "affine g" and "length k = 8" and "0 < wval k" and "mulmod_exact g k" and "r' = sp_256_ecc_mulmod_8 r g k"
  obtains x y where "ec_multiple (wval (sp_x g), wval (sp_y g)) (nat (wval k)) (x, y)"
    and "length (sp_x r') = 8" and "wval (sp_x r') = x mod p256" and "length (sp_y r') = 8" and "wval (sp_y r') = y mod p256"
proof -
  let ?G = "(wval (sp_x g), wval (sp_y g))" and ?t = "fold ladder_points (scalar_bits k) (sp_inf, norm_point g)"
  have "ladder_inv ?G 0 (sp_inf, norm_point g)" using ladder_start assms by (simp add: mulmod_exact_def)
  moreover have "wval k div 2 ^ 256 = 0" using wval_less_256 [OF assms(2)] by (intro div_pos_pos_trivial) simp_all
  ultimately have "ladder_inv ?G (nat (wval k)) ?t"
    using ladder_inv_loop [of ?G k 256 "(sp_inf, norm_point g)"] assms by (simp add: mulmod_exact_def scalar_bits_def)
  then have "denotes ?G (fst ?t) (nat (wval k))" using assms(3) by (cases ?t) (simp add: ladder_inv_def)
  then obtain Z x y where j: "jacobian (fst ?t) Z (x, y)" "ec_multiple ?G (nat (wval k)) (x, y)" by (auto simp: denotes_def)
  note m = sp_256_map_8_value [OF j(1) assms(5) [unfolded sp_256_ecc_mulmod_8_points [OF assms(2)]]]
  show ?thesis using that j(2) m by blast
qed

section \<open>Lengths\<close>

definition sp_wf :: "sp_point \<Rightarrow> bool" where
  "sp_wf p \<longleftrightarrow> length (sp_x p) = 8 \<and> length (sp_y p) = 8 \<and> length (sp_z p) = 8"

lemmas sp_lengths = sp_256_mont_mul_8_value(1) sp_256_mont_add_8_value(1) sp_256_mont_sub_8_value(1) sp_256_div2_8_value(1)

lemma sp_length_dbl_tpl [simp]:
  "length a = 8 \<Longrightarrow> length (sp_256_mont_dbl_8 a) = 8"
  "length a = 8 \<Longrightarrow> length (sp_256_mont_tpl_8 a) = 8"
  "length a = 8 \<Longrightarrow> length (sp_256_mont_sqr_8 a) = 8"
  by (simp_all add: sp_256_mont_dbl_8_add sp_256_mont_tpl_8_add sp_256_mont_sqr_8_def sp_lengths)

lemma sp_wf_dbl: "sp_wf p \<Longrightarrow> sp_wf (sp_256_proj_point_dbl_8 p)"
  by (simp add: sp_wf_def sp_256_proj_point_dbl_8_def Let_def sp_lengths)

lemma sp_wf_add: "sp_wf p \<Longrightarrow> sp_wf q \<Longrightarrow> sp_wf (sp_256_proj_point_add_8 p q)"
  using sp_wf_dbl [of p] by (simp add: sp_wf_def sp_256_proj_point_add_8_def Let_def sp_lengths)

lemma sp_wf_ladder:
  "sp_wf (fst t) \<and> sp_wf (snd t) \<Longrightarrow> sp_wf (fst (fold ladder_points bs t)) \<and> sp_wf (snd (fold ladder_points bs t))"
proof (induction bs arbitrary: t)
  case (Cons b bs)
  then show ?case by (auto simp: ladder_points_def sp_wf_add sp_wf_dbl split: prod.splits)
qed simp

lemma mont_inv_length: "length a = 8 \<Longrightarrow> length (sp_256_mont_inv_8 a) = 8"
proof -
  assume a: "length a = 8"
  have "length r = 8 \<Longrightarrow> length (fold (mont_inv_pass a) is r) = 8" for "is" r
    by (induction "is" arbitrary: r) (simp_all add: mont_inv_pass_def Let_def sp_lengths a)
  then show ?thesis using a by (simp add: sp_256_mont_inv_8_def)
qed

lemma mul_and_reduce_length: "length a = 8 \<Longrightarrow> length b = 8 \<Longrightarrow> length (sp_256_mont_mul_and_reduce_8 a b) = 8"
  unfolding sp_256_mont_mul_and_reduce_8_def by (rule sp_512to256_mont_reduce_8_value(1)) (simp add: sp_lengths)

lemma sp_wf_map: "sp_wf p \<Longrightarrow> sp_wf (sp_256_map_8 r p)"
  by (simp add: sp_wf_def sp_256_map_8_def Let_def sp_lengths mont_inv_length mul_and_reduce_length
      reduce_to_modulus_value sp_one_value)

lemma sp_wf_mulmod: "sp_wf g \<Longrightarrow> length k = 8 \<Longrightarrow> sp_wf (sp_256_ecc_mulmod_8 r g k)"
  unfolding sp_256_ecc_mulmod_8_points
  by (intro sp_wf_map conjunct1 [OF sp_wf_ladder]) (simp add: sp_wf_def norm_point_def sp_zero_def sp_256_mod_mul_norm_8_value)

lemma sp_wf_from_bin: "sp_wf (sp_256_point_from_bin2x32 a)"
  by (simp add: sp_wf_def sp_256_point_from_bin2x32_def sp_256_from_bin_8_def sp_one_value)

section \<open>The key agreement\<close>

definition p256_order :: int where "p256_order = 0xffffffff00000000ffffffffffffffffbce6faada7179e84f3b9cac2fc632551"

lemma sp_256_ecc_gen_k_8_value:
  assumes "length random = 32"
  shows "length (sp_256_ecc_gen_k_8 random) = 8" and "0 < wval (sp_256_ecc_gen_k_8 random)"
    and "wval (sp_256_ecc_gen_k_8 random) < p256_order"
proof -
  let ?k = "sp_256_ecc_gen_k_8 random"
  show l: "length ?k = 8" using assms by (simp add: sp_256_ecc_gen_k_8_def Let_def)
  have k0: "?k ! 0 \<noteq> 0" using assms by (simp add: sp_256_ecc_gen_k_8_def Let_def)
  have "wval ?k = uint (?k ! 0) + 2 ^ 32 * wval (tl ?k)" using l by (cases ?k) simp_all
  moreover have "0 < uint (?k ! 0)" using k0 by (simp add: word_uint_eq_iff less_le)
  moreover have "0 \<le> 2 ^ 32 * wval (tl ?k)" by simp
  ultimately show "0 < wval ?k" by linarith
  have "?k ! 7 < 0xffffffff" using assms by (auto simp: sp_256_ecc_gen_k_8_def Let_def not_le)
  then have "uint (?k ! 7) < 0xffffffff" by (simp add: word_less_def)
  moreover have "wval ?k = wval (take 7 ?k) + 2 ^ 224 * uint (?k ! 7)"
    using wval_take_Suc [of 7 ?k] l by simp
  moreover have "wval (take 7 ?k) < 2 ^ 224" using wval_less [of "take 7 ?k"] l by simp
  ultimately show "wval ?k < p256_order" by (simp add: p256_order_def)
qed

lemma P256_lengths:
  assumes "length random = 32"
  shows "length (fst (curve_P256_compute_pubkey_and_premaster random peer)) = 64"
    and "length (snd (curve_P256_compute_pubkey_and_premaster random peer)) = 32"
  using sp_wf_mulmod [OF sp_wf_from_bin sp_256_ecc_gen_k_8_value(1) [OF assms]]
  by (simp_all add: curve_P256_compute_pubkey_and_premaster_def sp_ecc_make_key_256_def sp_ecc_secret_gen_256_def
      sp_256_ecc_mulmod_base_8_def Let_def sp_wf_def sp_256_to_bin_8_value)


text \<open>The number in a sequence of bytes, most significant byte first, and the base point.\<close>

definition be_val :: "byte list \<Rightarrow> int" where "be_val bs = wval (rev bs)"

definition P256_G :: "int \<times> int" where
  "P256_G = (0x6b17d1f2e12c4247f8bce6e563a440f277037d812deb33a0f4a13945d898c296,
             0x4fe342e2fe1a7f9b8ee7eb4a7c0f9e162bce33576b315ececbb6406837bf51f5)"

lemma point_from_bin_value:
  assumes "64 \<le> length a"
  shows "affine (sp_256_point_from_bin2x32 a)"
    and "wval (sp_x (sp_256_point_from_bin2x32 a)) = be_val (take 32 a)"
    and "wval (sp_y (sp_256_point_from_bin2x32 a)) = be_val (take 32 (drop 32 a))"
  using sp_256_from_bin_8_value [of a] sp_256_from_bin_8_value [of "drop 32 a"] assms
  by (simp_all add: affine_def sp_256_point_from_bin2x32_def be_val_def)

lemma base_point_value:
  "length p256_base_bin = 64" "(be_val (take 32 p256_base_bin), be_val (take 32 (drop 32 p256_base_bin))) = P256_G"
  by (simp_all add: p256_base_bin_def be_val_def P256_G_def)

section \<open>The base point\<close>

text \<open>The values of the numbers in the first two passes over the base point, for the scalar three.\<close>

definition has :: "u32 list \<Rightarrow> int \<Rightarrow> bool" where "has a A \<longleftrightarrow> length a = 8 \<and> wval a = A"

lemma has_add: "has a A \<Longrightarrow> has b B \<Longrightarrow> C = mod_add A B \<Longrightarrow> has (sp_256_mont_add_8 a b) C"
  using sp_256_mont_add_8_value by (simp add: has_def)

lemma has_sub: "has a A \<Longrightarrow> has b B \<Longrightarrow> C = mod_sub A B \<Longrightarrow> has (sp_256_mont_sub_8 a b) C"
  using sp_256_mont_sub_8_value by (simp add: has_def)

lemma has_div2: "has a A \<Longrightarrow> C = (if odd A then (A + p256) div 2 else A div 2) \<Longrightarrow> has (sp_256_div2_8 a) C"
  using sp_256_div2_8_value by (simp add: has_def)

lemma has_norm: "length a = 8 \<Longrightarrow> C = (norm_sum a - norm_sum a div 2 ^ 256 * p256) mod 2 ^ 256 \<Longrightarrow> has (sp_256_mod_mul_norm_8 a) C"
  using sp_256_mod_mul_norm_8_value by (simp add: has_def)

abbreviation base_point :: sp_point where "base_point \<equiv> sp_256_point_from_bin2x32 p256_base_bin"

definition base_x :: "u32 list" where "base_x = [0xd898c296,0xf4a13945,0x2deb33a0,0x77037d81,0x63a440f2,0xf8bce6e5,0xe12c4247,0x6b17d1f2]"
definition base_y :: "u32 list" where "base_y = [0x37bf51f5,0xcbb64068,0x6b315ece,0x2bce3357,0x7c0f9e16,0x8ee7eb4a,0xfe1a7f9b,0x4fe342e2]"

lemma base_words: "sp_x base_point = base_x" "sp_y base_point = base_y" "sp_z base_point = sp_one"
proof -
  note v = point_from_bin_value [of p256_base_bin]
  have "length (sp_x base_point) = 8" "length (sp_y base_point) = 8" using v(1) base_point_value(1) by (simp_all add: affine_def)
  moreover have "wval (sp_x base_point) = wval base_x" "wval (sp_y base_point) = wval base_y"
    using v(2,3) base_point_value by (simp_all add: P256_G_def base_x_def base_y_def)
  ultimately show "sp_x base_point = base_x" "sp_y base_point = base_y" "sp_z base_point = sp_one"
    by (auto intro: eq_by_value simp: base_x_def base_y_def sp_256_point_from_bin2x32_def)
qed

lemma base_norm_exact: "norm_exact (sp_x base_point)" "norm_exact (sp_y base_point)"
  unfolding base_words by (simp_all add: norm_exact_def norm_sum_def base_x_def base_y_def p256_def)

lemma norm_point_sel:
  "sp_x (norm_point g) = sp_256_mod_mul_norm_8 (sp_x g)" "sp_y (norm_point g) = sp_256_mod_mul_norm_8 (sp_y g)"
  "sp_z (norm_point g) = sp_256_mod_mul_norm_8 (sp_z g)"
  by (simp_all add: norm_point_def)

lemma base_norm_values:
  "has (sp_x (norm_point base_point)) 0x18905f76a53755c679fb732b7762251075ba95fc5fedb60179e730d418a9143c"
  "has (sp_y (norm_point base_point)) 0x8571ff1825885d85d2e88688dd21f3258b4ab8e4ba19e45cddf25357ce95560a"
  "has (sp_z (norm_point base_point)) 0xfffffffeffffffffffffffffffffffff000000000000000000000001"
  unfolding norm_point_sel base_words
  by (rule has_norm; simp add: norm_sum_def base_x_def base_y_def sp_one_def p256_def)+

text \<open>
  The values of a doubling and of an addition, given the Montgomery products that occur in them.
\<close>

definition redc :: "int \<Rightarrow> int \<Rightarrow> int \<Rightarrow> bool" where "redc A B C \<longleftrightarrow> C = REDC (A * B)"

lemma redc_small:
  assumes "0 \<le> m" and "m < 2 ^ 256" and "A * B + times_p256 m = C * 2 ^ 256" and "C < 2 ^ 256"
  shows "redc A B C"
proof -
  have "2 ^ 256 * C = A * B + m * p256" using assms(3) by (simp only: times_p256_eq mult.commute)
  from REDC_unique [OF assms(1,2) this] show ?thesis using assms(4) by (simp add: redc_def)
qed

lemma redc_big:
  assumes "0 \<le> m" and "m < 2 ^ 256" and "A * B + times_p256 m = (C + 0xffffffff00000001000000000000000000000000ffffffffffffffffffffffff) * 2 ^ 256" and "2 ^ 256 \<le> C + 0xffffffff00000001000000000000000000000000ffffffffffffffffffffffff"
  shows "redc A B C"
proof -
  have "2 ^ 256 * (C + p256) = A * B + m * p256" using assms(3) by (simp only: times_p256_eq p256_numeral mult.commute)
  from REDC_unique [OF assms(1,2) this] show ?thesis using assms(4) unfolding redc_def p256_numeral by (simp only: if_True)
qed

lemma inverse_certificate: "a * w = times_p256 k + 1 \<Longrightarrow> invertible a"
  by (rule invertibleI [of a w]) (simp add: times_p256_eq eqm_dvd)

lemmas redc_eval = times_p256_def power_numeral Num.pow.simps Num.sqr.simps arith_simps rel_simps mult_1_left

lemma has_redc: "redc A B C \<Longrightarrow> has a A \<Longrightarrow> has b B \<Longrightarrow> has (sp_256_mont_mul_8 a b) C"
  using sp_256_mont_mul_8_value by (simp add: redc_def has_def)

definition has_point :: "sp_point \<Rightarrow> int \<Rightarrow> int \<Rightarrow> int \<Rightarrow> bool" where
  "has_point p X Y Z \<longleftrightarrow> has (sp_x p) X \<and> has (sp_y p) Y \<and> has (sp_z p) Z \<and> \<not> sp_infinity p"

lemma has_sqr: "redc A A C \<Longrightarrow> has a A \<Longrightarrow> has (sp_256_mont_sqr_8 a) C"
  unfolding sp_256_mont_sqr_8_def by (rule has_redc)

lemma has_dbl: "has a A \<Longrightarrow> C = mod_add A A \<Longrightarrow> has (sp_256_mont_dbl_8 a) C"
  unfolding sp_256_mont_dbl_8_add by (rule has_add)

lemma has_tpl: "has a A \<Longrightarrow> C = mod_add (mod_add A A) A \<Longrightarrow> has (sp_256_mont_tpl_8 a) C"
  unfolding sp_256_mont_tpl_8_add by (rule has_add [OF has_add [OF _ _ refl]])

lemma has_add_exact: "has a A \<Longrightarrow> has b B \<Longrightarrow> A + B < 2 ^ 256 + p256 \<Longrightarrow> add_exact a b"
  by (simp add: has_def add_exact_def)

lemma has_sub_exact: "has a A \<Longrightarrow> has b B \<Longrightarrow> B \<le> A + p256 \<Longrightarrow> sub_exact a b"
  by (simp add: has_def sub_exact_def)

lemma has_invertible: "has a A \<Longrightarrow> invertible A \<Longrightarrow> invertible (wval a)"
  by (simp add: has_def)

lemma point_dbl_values:
  assumes p: "has_point p X Y Z"
    and t1: "redc Z Z T1" and zz: "redc Y Z ZZ" and xa: "A = mod_add X T1" and xs: "B = mod_sub X T1" and t2: "redc A B T2"
    and yd: "YD = mod_add Y Y" and y2: "redc YD YD Y2" and y4: "redc Y2 Y2 Y4" and t3: "T3 = (if odd Y4 then (Y4 + p256) div 2 else Y4 div 2)"
    and s: "redc Y2 X S" and m: "M = mod_add (mod_add T2 T2) T2" and x1: "redc M M X1"
    and sx: "SX = mod_sub S (mod_sub (mod_sub X1 S) S)" and y3: "redc SX M Y3"
    and i: "invertible Y"
    and r: "X' = mod_sub (mod_sub X1 S) S" "Y' = mod_sub Y3 T3" "Z' = mod_add ZZ ZZ"
    and e: "ZZ + ZZ < 2 ^ 256 + p256" "T1 \<le> X + p256" "X + T1 < 2 ^ 256 + p256" "T2 + T2 < 2 ^ 256 + p256"
      "mod_add T2 T2 + T2 < 2 ^ 256 + p256" "Y + Y < 2 ^ 256 + p256" "S \<le> X1 + p256" "S \<le> mod_sub X1 S + p256" "X' \<le> S + p256"
      "T3 \<le> Y3 + p256"
  shows "point_dbl_exact p" and "has_point (sp_256_proj_point_dbl_8 p) X' Y' Z'"
proof -
  have x: "has (sp_x p) X" and y: "has (sp_y p) Y" and z: "has (sp_z p) Z" and inf: "\<not> sp_infinity p"
    using p by (simp_all add: has_point_def)
  note T1 = has_sqr [OF t1 z] and ZZ = has_redc [OF zz y z]
  note A = has_add [OF x T1 xa] and B = has_sub [OF x T1 xs]
  note T2 = has_redc [OF t2 A B]
  note D2 = has_add [OF T2 T2 refl]
  note M = has_tpl [OF T2 m]
  note Y2 = has_sqr [OF y2 has_dbl [OF y yd]]
  note Y4 = has_sqr [OF y4 Y2]
  note T3 = has_div2 [OF Y4 t3]
  note S = has_redc [OF s Y2 x]
  note X1 = has_redc [OF x1 M M]
  note X2 = has_sub [OF X1 S refl]
  note X3 = has_sub [OF X2 S r(1)]
  have sx': "SX = mod_sub S X'" using sx r(1) by simp
  note SX = has_sub [OF S X3 sx']
  note Y3 = has_redc [OF y3 SX M]
  show "point_dbl_exact p"
    unfolding point_dbl_exact_def Let_def
    by (intro conjI has_add_exact [OF ZZ ZZ e(1)] has_sub_exact [OF x T1 e(2)] has_add_exact [OF x T1 e(3)] has_add_exact [OF T2 T2 e(4)]
        has_add_exact [OF D2 T2 e(5)] has_add_exact [OF y y e(6)] has_sub_exact [OF X1 S e(7)] has_sub_exact [OF X2 S e(8)]
        has_sub_exact [OF S X3 e(9)] has_sub_exact [OF Y3 T3 e(10)] has_invertible [OF y i])
  show "has_point (sp_256_proj_point_dbl_8 p) X' Y' Z'"
    using X3 has_sub [OF Y3 T3 r(2)] has_dbl [OF ZZ r(3)] inf
    by (simp add: has_point_def sp_256_proj_point_dbl_8_def Let_def)
qed

lemma point_add_values:
  assumes p: "has_point p X1 Y1 Z1" and q: "has_point q X2 Y2 Z2"
    and q2: "redc Z2 Z2 Q2" and p2: "redc Z1 Z1 P2" and u1: "redc Q2 X1 U1" and u2: "redc P2 X2 U2"
    and q3: "redc Q2 Z2 Q3" and p3: "redc P2 Z1 P3" and s1: "redc Q3 Y1 S1" and s2: "redc P3 Y2 S2"
    and h: "H = mod_sub U2 U1" and d: "D = mod_sub S2 S1"
    and h2: "redc H H H2" and v: "redc U1 H2 V" and h3: "redc H2 H H3" and x1: "redc D D W"
    and x3: "X' = mod_sub (mod_sub W H3) (mod_add V V)" and vx: "VX = mod_sub V X'" and y1: "redc VX D Y'" and t5: "redc H3 S1 T5"
    and i: "invertible H"
    and e: "U1 \<le> U2 + p256" "S1 \<le> S2 + p256" "H3 \<le> W + p256" "V + V < 2 ^ 256 + p256" "mod_add V V \<le> mod_sub W H3 + p256"
      "X' \<le> V + p256" "T5 \<le> Y' + p256"
  shows "point_add_exact p q"
proof -
  have px: "has (sp_x p) X1" and py: "has (sp_y p) Y1" and pz: "has (sp_z p) Z1" using p by (simp_all add: has_point_def)
  have qx: "has (sp_x q) X2" and qy: "has (sp_y q) Y2" and qz: "has (sp_z q) Z2" using q by (simp_all add: has_point_def)
  note Q2 = has_sqr [OF q2 qz] and P2 = has_sqr [OF p2 pz]
  note U1 = has_redc [OF u1 Q2 px] and U2 = has_redc [OF u2 P2 qx]
  note S1 = has_redc [OF s1 has_redc [OF q3 Q2 qz] py] and S2 = has_redc [OF s2 has_redc [OF p3 P2 pz] qy]
  note H = has_sub [OF U2 U1 h] and D = has_sub [OF S2 S1 d]
  note H2 = has_sqr [OF h2 H]
  note V = has_redc [OF v U1 H2] and H3 = has_redc [OF h3 H2 H] and W = has_sqr [OF x1 D]
  note X2 = has_sub [OF W H3 refl] and VV = has_dbl [OF V refl]
  note X3 = has_sub [OF X2 VV x3]
  note Y = has_redc [OF y1 has_sub [OF V X3 vx] D] and T5 = has_redc [OF t5 H3 S1]
  show ?thesis
    unfolding point_add_exact_def Let_def
    by (intro conjI has_sub_exact [OF U2 U1 e(1)] has_sub_exact [OF S2 S1 e(2)] has_sub_exact [OF W H3 e(3)] has_add_exact [OF V V e(4)]
        has_sub_exact [OF X2 VV e(5)] has_sub_exact [OF V X3 e(6)] has_sub_exact [OF Y T5 e(7)] has_invertible [OF H i])
qed

lemma base_norm: "has_point (norm_point base_point) 0x18905f76a53755c679fb732b7762251075ba95fc5fedb60179e730d418a9143c
     0x8571ff1825885d85d2e88688dd21f3258b4ab8e4ba19e45cddf25357ce95560a 0xfffffffeffffffffffffffffffffffff000000000000000000000001"
  using base_norm_values by (simp add: has_point_def norm_point_def sp_zero_def)

lemma base_dbl:
  "point_dbl_exact (norm_point base_point)"
  "has_point (sp_256_proj_point_dbl_8 (norm_point base_point)) 0x5de4f991e25e717ad2aad563a7090a86c6b2e33a31355d9bf26ac1b54f2bf829
     0xf9f84f1f77bd1fdeda98128dce880027cf48a95eaa13daa3dab967123ccc950d 0xae3fe314b10bb0aa5d10d11ba43e64b169571c87433c8b9bbe4a6af9d2aac15"
proof -
  have t1: "redc 0xfffffffeffffffffffffffffffffffff000000000000000000000001 0xfffffffeffffffffffffffffffffffff000000000000000000000001 0xfffffffeffffffffffffffffffffffff000000000000000000000001"
    by (rule redc_small [of "0xfffffffeffffffffffffffffffffffff000000000000000000000001"]) (simp_all only: redc_eval)
  have zz: "redc 0x8571ff1825885d85d2e88688dd21f3258b4ab8e4ba19e45cddf25357ce95560a 0xfffffffeffffffffffffffffffffffff000000000000000000000001 0x8571ff1825885d85d2e88688dd21f3258b4ab8e4ba19e45cddf25357ce95560a"
    by (rule redc_small [of "0x8571ff1825885d85d2e88688dd21f3258b4ab8e4ba19e45cddf25357ce95560a"]) (simp_all only: redc_eval)
  have t2: "redc 0x18905f77a53755c579fb732b7762251075ba95fb5fedb60179e730d418a9143d 0x18905f75a53755c779fb732b7762251075ba95fd5fedb60179e730d418a9143b 0xec775623ee15be185e57eb53eb9b15e129cf115b4ce8a1bc0b265d0755686dc6"
    by (rule redc_small [of "0xea1bf2d310242cfa02eb02f6428cd47150ba93ef409407b37e4826d6f8d16e0f"]) (simp_all only: redc_eval)
  have y2: "redc 0xae3fe314b10bb0aa5d10d11ba43e64b169571c87433c8b9bbe4a6af9d2aac15 0xae3fe314b10bb0aa5d10d11ba43e64b169571c87433c8b9bbe4a6af9d2aac15 0x70731181003e91943950c48c85523d003740365312d36f0e89d03a7cb1e84e18"
    by (rule redc_small [of "0x6ffc7698ce8cbf7108771dd3b8230417c6d4169e51e00a0ecb67dee4ac9039b9"]) (simp_all only: redc_eval)
  have y4: "redc 0x70731181003e91943950c48c85523d003740365312d36f0e89d03a7cb1e84e18 0x70731181003e91943950c48c85523d003740365312d36f0e89d03a7cb1e84e18 0x9ea5c51bb6498723c4f02b7044b13b65de252263d64d601fce63d927e20099b5"
    by (rule redc_small [of "0x6d40e212883b0e93d433b71cb1ac65796f28659f9319d50eaf11960ad352a240"]) (simp_all only: redc_eval)
  have s: "redc 0x70731181003e91943950c48c85523d003740365312d36f0e89d03a7cb1e84e18 0x18905f76a53755c679fb732b7762251075ba95fc5fedb60179e730d418a9143c 0xfa0669271efb13a85c03778a187ae0d25d552b40afe00f58f46edaa8df62ab5b"
    by (rule redc_small [of "0xef3c34db4c85de6f506c9edb4aedb2e99fe2c09c8b682e5d910bd8ada6642da0"]) (simp_all only: redc_eval)
  have x1: "redc 0xc566026dca413a471b07c1fbc2d141a37d6d340fe6b9e5342173171600394954 0xc566026dca413a471b07c1fbc2d141a37d6d340fe6b9e5342173171600394954 0x51f1cbe2205498c98ab1c477d7fecc2b815d39b990f57c4ddb4877070df14ee1"
    by (rule redc_big [of "0xb9bba37ef144c65e01b7af0ada510391eb129afeebc6006dde7dbf41bc690390"]) (simp_all only: redc_eval)
  have y3: "redc 0x9c216f953c9ca22d8958a2267171d64b96a248067eaab1bd020418f39036b332 0xc566026dca413a471b07c1fbc2d141a37d6d340fe6b9e5342173171600394954 0xc94b31add2e1e3703d102845f0e09ddabe5b3a90153a8ab3c1eb53a62dcce1e8"
    by (rule redc_small [of "0x50e740029e389d24d1d42effd48be2b330d7651399e9a738a2f3a484d12e0e68"]) (simp_all only: redc_eval)
  have "invertible 0x8571ff1825885d85d2e88688dd21f3258b4ab8e4ba19e45cddf25357ce95560a"
    by (rule inverse_certificate [of _ "0x99a4430aae719b862f62e23be994f21ba0bcaf1e8b97c20a9320683a1ad9ba1"
        "0x5016c16f9123493a48a02a1c3369ef5a42f33a7a90e870c887da28d3a3ad5b7"]) (simp only: redc_eval)
  note v = point_dbl_values [OF base_norm t1 zz _ _ t2 _ y2 y4 _ s _ x1 _ y3 this, where ?T3.0 = "0xcf52e28d5b24c392627815b822589db2ef1291326b26b00fe731ec93f1004cda"
    and X' = "0x5de4f991e25e717ad2aad563a7090a86c6b2e33a31355d9bf26ac1b54f2bf829" and Y' = "0xf9f84f1f77bd1fdeda98128dce880027cf48a95eaa13daa3dab967123ccc950d"
    and Z' = "0xae3fe314b10bb0aa5d10d11ba43e64b169571c87433c8b9bbe4a6af9d2aac15"]
  show "point_dbl_exact (norm_point base_point)"
    by (rule v(1)) (simp_all add: mod_add_def mod_sub_def p256_def)
  show "has_point (sp_256_proj_point_dbl_8 (norm_point base_point)) 0x5de4f991e25e717ad2aad563a7090a86c6b2e33a31355d9bf26ac1b54f2bf829
     0xf9f84f1f77bd1fdeda98128dce880027cf48a95eaa13daa3dab967123ccc950d 0xae3fe314b10bb0aa5d10d11ba43e64b169571c87433c8b9bbe4a6af9d2aac15"
    by (rule v(2)) (simp_all add: mod_add_def mod_sub_def p256_def)
qed

lemma base_dbl_dbl:
  "point_dbl_exact (sp_256_proj_point_dbl_8 (norm_point base_point))"
  "has_point (sp_256_proj_point_dbl_8 (sp_256_proj_point_dbl_8 (norm_point base_point))) 0x3e35dff2b451c7d8ce9dcddfbb570ff2de32e996da32066fcc8549a79b3697f
     0x56ebe54d2dccf10b993568a94a8b98ff3781eaeaa6619cec3a5c2e851e113a3 0xdc9c519b96db8ec35be36d7604f9ac381c237dddb650b87819cc271ab95f0b4b"
proof -
  have t1: "redc 0xae3fe314b10bb0aa5d10d11ba43e64b169571c87433c8b9bbe4a6af9d2aac15 0xae3fe314b10bb0aa5d10d11ba43e64b169571c87433c8b9bbe4a6af9d2aac15 0x70731181003e91943950c48c85523d003740365312d36f0e89d03a7cb1e84e18"
    by (rule redc_small [of "0x6ffc7698ce8cbf7108771dd3b8230417c6d4169e51e00a0ecb67dee4ac9039b9"]) (simp_all only: redc_eval)
  have zz: "redc 0xf9f84f1f77bd1fdeda98128dce880027cf48a95eaa13daa3dab967123ccc950d 0xae3fe314b10bb0aa5d10d11ba43e64b169571c87433c8b9bbe4a6af9d2aac15 0xee4e28cd4b6dc7622df1b6bb027cd61c0e11beef5b285c3c0ce6138d5caf85a5"
    by (rule redc_small [of "0xe3abd6544b309a9a1c0a5b8f341f6da0779435d4dca85b6511d17834de0ef611"]) (simp_all only: redc_eval)
  have t2: "redc 0xce580b12e29d030f0bfb99f02c5b4786fdf3198d4408ccaa7c3afc3201144641 0xed71e80fe21fdfe7995a10d721b6cd868f72ace81e61ee8d689a87389d43aa10 0xc22826290f7cf72a3b72a72662325e07e797830ba7ee6bbaf1fab5cabd2ea25f"
    by (rule redc_small [of "0x2c4d3ff1bab39a318994e2d5d2b91ad2f370d0033cb3d4d337e5473c7ee8e10"]) (simp_all only: redc_eval)
  have y2: "redc 0xf3f09e3fef7a3fbcb530251b9d10004f9e9152bc5427b547b572ce2479992a1b 0xf3f09e3fef7a3fbcb530251b9d10004f9e9152bc5427b547b572ce2479992a1b 0xf6a2bdf6e29a315dce0c7914d83e3a07497fa2189cd8a6c8c14ea5de94e21979"
    by (rule redc_small [of "0xe300f6076742af3cfa5a8046bf17b93dc6b09f7672723d29aa57108e132ded9"]) (simp_all only: redc_eval)
  have y4: "redc 0xf6a2bdf6e29a315dce0c7914d83e3a07497fa2189cd8a6c8c14ea5de94e21979 0xf6a2bdf6e29a315dce0c7914d83e3a07497fa2189cd8a6c8c14ea5de94e21979 0xde2b999258fae39f7b15376ce630c3f9451c6b8d2c7815eee978a2fbbc3369f4"
    by (rule redc_big [of "0xf08e6d06d49bb5efa699c148f14515a507e315986a190ab1fb4c5d00e42cdb31"]) (simp_all only: redc_eval)
  have s: "redc 0xf6a2bdf6e29a315dce0c7914d83e3a07497fa2189cd8a6c8c14ea5de94e21979 0x5de4f991e25e717ad2aad563a7090a86c6b2e33a31355d9bf26ac1b54f2bf829 0x4dd2ef84b8c5b941ba64fe77dca058bbc8613a96c45ce0ec16eb810085bd7556"
    by (rule redc_big [of "0xf35d371ff4e5b7167e1b546d1282969ddf666b1dbd67c66459c734447f364c61"]) (simp_all only: redc_eval)
  have x1: "redc 0x4678727d2e76e57cb257f57326971a17b6c68920f7cb4330d5f02160378be71f 0x4678727d2e76e57cb257f57326971a17b6c68920f7cb4330d5f02160378be71f 0x9f893d089cd08f0101b3d9cdb4f62276bea5a3c6f65ce23f2a9f569b852e542b"
    by (rule redc_small [of "0x8c2325c12afb6531fd2eb03fc4d603aa8eb6555021cbcd06b6b0bf041e52f5c1"]) (simp_all only: redc_eval)
  have y3: "redc 0x49ef91858d809cc42d7b2199e0eae7bc9a7e0bfd56b9c0851a232c660c0a0bd7 0x4678727d2e76e57cb257f57326971a17b6c68920f7cb4330d5f02160378be71f 0x74848b1dff5a40e0771df24107c11b8c9606547540a224c6386214662ffac89d"
    by (rule redc_small [of "0x602a3ff6ce06179c0343a0be6d57a3d6e38b6aefd32b1abdbb2c4ed824a37009"]) (simp_all only: redc_eval)
  have "invertible 0xf9f84f1f77bd1fdeda98128dce880027cf48a95eaa13daa3dab967123ccc950d"
    by (rule inverse_certificate [of _ "0xb48b510514ba1a3b7e39e2770b0d376a1d80a4addef3429687b1a0560c80d892"
        "0xb04aa0924db13d600c9d4d9cd6cd9f0f0cfa7609e4015ead3c74a4a793100697"]) (simp only: redc_eval)
  note v = point_dbl_values [OF base_dbl(2) t1 zz _ _ t2 _ y2 y4 _ s _ x1 _ y3 this, where ?T3.0 = "0x6f15ccc92c7d71cfbd8a9bb6731861fca28e35c6963c0af774bc517dde19b4fa"
    and X' = "0x3e35dff2b451c7d8ce9dcddfbb570ff2de32e996da32066fcc8549a79b3697f" and Y' = "0x56ebe54d2dccf10b993568a94a8b98ff3781eaeaa6619cec3a5c2e851e113a3"
    and Z' = "0xdc9c519b96db8ec35be36d7604f9ac381c237dddb650b87819cc271ab95f0b4b"]
  show "point_dbl_exact (sp_256_proj_point_dbl_8 (norm_point base_point))"
    by (rule v(1)) (simp_all add: mod_add_def mod_sub_def p256_def)
  show "has_point (sp_256_proj_point_dbl_8 (sp_256_proj_point_dbl_8 (norm_point base_point))) 0x3e35dff2b451c7d8ce9dcddfbb570ff2de32e996da32066fcc8549a79b3697f
     0x56ebe54d2dccf10b993568a94a8b98ff3781eaeaa6619cec3a5c2e851e113a3 0xdc9c519b96db8ec35be36d7604f9ac381c237dddb650b87819cc271ab95f0b4b"
    by (rule v(2)) (simp_all add: mod_add_def mod_sub_def p256_def)
qed

lemma base_add_dbl: "point_add_exact (norm_point base_point) (sp_256_proj_point_dbl_8 (norm_point base_point))"
proof -
  have q2: "redc 0xae3fe314b10bb0aa5d10d11ba43e64b169571c87433c8b9bbe4a6af9d2aac15 0xae3fe314b10bb0aa5d10d11ba43e64b169571c87433c8b9bbe4a6af9d2aac15 0x70731181003e91943950c48c85523d003740365312d36f0e89d03a7cb1e84e18"
    by (rule redc_small [of "0x6ffc7698ce8cbf7108771dd3b8230417c6d4169e51e00a0ecb67dee4ac9039b9"]) (simp_all only: redc_eval)
  have p2: "redc 0xfffffffeffffffffffffffffffffffff000000000000000000000001 0xfffffffeffffffffffffffffffffffff000000000000000000000001 0xfffffffeffffffffffffffffffffffff000000000000000000000001"
    by (rule redc_small [of "0xfffffffeffffffffffffffffffffffff000000000000000000000001"]) (simp_all only: redc_eval)
  have u1: "redc 0x70731181003e91943950c48c85523d003740365312d36f0e89d03a7cb1e84e18 0x18905f76a53755c679fb732b7762251075ba95fc5fedb60179e730d418a9143c 0xfa0669271efb13a85c03778a187ae0d25d552b40afe00f58f46edaa8df62ab5b"
    by (rule redc_small [of "0xef3c34db4c85de6f506c9edb4aedb2e99fe2c09c8b682e5d910bd8ada6642da0"]) (simp_all only: redc_eval)
  have u2: "redc 0xfffffffeffffffffffffffffffffffff000000000000000000000001 0x5de4f991e25e717ad2aad563a7090a86c6b2e33a31355d9bf26ac1b54f2bf829 0x5de4f991e25e717ad2aad563a7090a86c6b2e33a31355d9bf26ac1b54f2bf829"
    by (rule redc_small [of "0x5de4f991e25e717ad2aad563a7090a86c6b2e33a31355d9bf26ac1b54f2bf829"]) (simp_all only: redc_eval)
  have q3: "redc 0x70731181003e91943950c48c85523d003740365312d36f0e89d03a7cb1e84e18 0xae3fe314b10bb0aa5d10d11ba43e64b169571c87433c8b9bbe4a6af9d2aac15 0xc976e6983d1a282d6b8123571d7ebb0f8f93fb09a54a1d501babad1590d6dc01"
    by (rule redc_small [of "0xc4ae4239a00559d1a78111a7f60819a5b61fbe39a1d05ab49cc22e2c347687f8"]) (simp_all only: redc_eval)
  have p3: "redc 0xfffffffeffffffffffffffffffffffff000000000000000000000001 0xfffffffeffffffffffffffffffffffff000000000000000000000001 0xfffffffeffffffffffffffffffffffff000000000000000000000001"
    by (rule redc_small [of "0xfffffffeffffffffffffffffffffffff000000000000000000000001"]) (simp_all only: redc_eval)
  have s1: "redc 0xc976e6983d1a282d6b8123571d7ebb0f8f93fb09a54a1d501babad1590d6dc01 0x8571ff1825885d85d2e88688dd21f3258b4ab8e4ba19e45cddf25357ce95560a 0xcf52e28d5b24c392627815b822589db2ef1291326b26b00fe731ec93f1004cda"
    by (rule redc_small [of "0x664e66847020d7704ab0192774fc641ceee37009ccc57a4e913f4aedb0e1ee0a"]) (simp_all only: redc_eval)
  have s2: "redc 0xfffffffeffffffffffffffffffffffff000000000000000000000001 0xf9f84f1f77bd1fdeda98128dce880027cf48a95eaa13daa3dab967123ccc950d 0xf9f84f1f77bd1fdeda98128dce880027cf48a95eaa13daa3dab967123ccc950d"
    by (rule redc_small [of "0xf9f84f1f77bd1fdeda98128dce880027cf48a95eaa13daa3dab967123ccc950d"]) (simp_all only: redc_eval)
  have h2: "redc 0x63de9069c3635dd376a75dd98e8e29b4695db7fa81554e42fdfbe70c6fc94ccd 0x63de9069c3635dd376a75dd98e8e29b4695db7fa81554e42fdfbe70c6fc94ccd 0x15b7660ddc7d5ba3984b79d9b1297d7e2c1f5b467a733781e0293e390095cdbb"
    by (rule redc_big [of "0xeec180dd3539fa16f00b51c0e8d1d430f87322b660990e95c047581b76f45c29"]) (simp_all only: redc_eval)
  have v: "redc 0xfa0669271efb13a85c03778a187ae0d25d552b40afe00f58f46edaa8df62ab5b 0x15b7660ddc7d5ba3984b79d9b1297d7e2c1f5b467a733781e0293e390095cdbb 0xa16ecd2edf99bba8d6ad839e9d4d7ef17a0e7dd416e9f09fea66f67e26465c37"
    by (rule redc_small [of "0x8c39284df3c0478abfcc38a1a4aac3546e8df203fd4b4e884a6829edec420a79"]) (simp_all only: redc_eval)
  have h3: "redc 0x15b7660ddc7d5ba3984b79d9b1297d7e2c1f5b467a733781e0293e390095cdbb 0x63de9069c3635dd376a75dd98e8e29b4695db7fa81554e42fdfbe70c6fc94ccd 0xfc12656b21618f1463144e781e6196e6f46f955fec594e3cfae85e6db4e9d793"
    by (rule redc_small [of "0xf39997aa167daf4340a1e548248c658fbcf663418dd9e1850a848b688ddc42bf"]) (simp_all only: redc_eval)
  have x1: "redc 0x2aa56c921c985c4c781ffcd5ac2f6274e036182c3eed2a93f3877a7e4bcc4833 0x2aa56c921c985c4c781ffcd5ac2f6274e036182c3eed2a93f3877a7e4bcc4833 0x435b24fd7042dcaf4d96fc92895753e4d6459e97fce184fad33c06242e7f6584"
    by (rule redc_small [of "0x3c40727898bcd8f2693a8f67d9b8297d1cecff0fa67007a46023038507a4ba29"]) (simp_all only: redc_eval)
  have y1: "redc 0x9d03a7fc4febe55d9985dcc16cf2bfd68c55704234359b21e6e13bc3f93d86b6 0x2aa56c921c985c4c781ffcd5ac2f6274e036182c3eed2a93f3877a7e4bcc4833 0x782c68e53d8c68a0e8f24ca53b506aeb2ef5f638adc02968b33762893be7c74b"
    by (rule redc_small [of "0x5e045963c85672937bc50e26b1e00a1749b1b4ce8c2844bd2c52b336a02d0642"]) (simp_all only: redc_eval)
  have t5: "redc 0xfc12656b21618f1463144e781e6196e6f46f955fec594e3cfae85e6db4e9d793 0xcf52e28d5b24c392627815b822589db2ef1291326b26b00fe731ec93f1004cda 0xfd2e431b3fd3a90926b2681ffec915dbdc977470a597806b0074ec9b5e20e8b4"
    by (rule redc_small [of "0x3109c621e725ae8a8a7b40f1c98d18d80006ba0559f02afb4a5e6c7bde21372e"]) (simp_all only: redc_eval)
  have i: "invertible 0x63de9069c3635dd376a75dd98e8e29b4695db7fa81554e42fdfbe70c6fc94ccd"
    by (rule inverse_certificate [of _ "0x592489d730c4e6c7d7b566b7a22047da0d46636568ebd8775ae18662bdce2278"
        "0x22c6a14744ce14c46f327ae41ac7ab15473687b37e0a6b17a742c529b77ac5e9"]) (simp only: redc_eval)
  show ?thesis
    by (rule point_add_values [OF base_norm base_dbl(2) q2 p2 u1 u2 q3 p3 s1 s2 _ _ h2 v h3 x1 _ _ y1 t5 i, where
        X' = "0x46b25328fadd64b3d27a6dd305abf1aedb90d91e2b4557e0385baba2d08d581"])
      (simp_all add: mod_add_def mod_sub_def p256_def)
qed

text \<open>The scalar three.\<close>

definition sp_three :: "u32 list" where "sp_three = [3, 0, 0, 0, 0, 0, 0, 0]"

lemma sp_three_value: "length sp_three = 8" "wval sp_three = 3" by (simp_all add: sp_three_def)

lemma scalar_bits_three: "scalar_bits sp_three = replicate 254 False @ [True, True]"
proof -
  have odd: "scalar_bit sp_three i \<longleftrightarrow> odd (3 div 2 ^ i :: int)" if "i < 256" for i
    using odd_wval [of i sp_three] that unfolding sp_three_value by simp
  have bit: "\<not> scalar_bit sp_three i" if "1 < i" "i < 256" for i
  proof -
    have "(2 :: int) ^ 2 \<le> 2 ^ i" using that(1) by (intro power_increasing) simp_all
    then show ?thesis using odd [OF that(2)] by (simp add: div_pos_pos_trivial)
  qed
  have "rev [0..<256] = rev [2..<256] @ [1, 0::nat]" by (simp add: upt_conv_Cons)
  moreover have "map (scalar_bit sp_three) (rev [2..<256]) = replicate 254 False"
    using bit by (intro replicate_eqI) (auto simp del: upt_rec_numeral)
  ultimately show ?thesis using odd [of 0] odd [of 1] by (simp add: scalar_bits_def)
qed

lemma leading_zeros:
  assumes "denotes G q m"
  shows "fold ladder_points (replicate n False) (sp_inf, q) = (sp_inf, q)"
    and "ladder_exact (replicate n False @ bs) (sp_inf, q) \<longleftrightarrow> ladder_exact bs (sp_inf, q)"
proof -
  have "ladder_points False (sp_inf, q) = (sp_inf, q)" using denotes_infinity [OF assms] dbl_infinity by (simp add: ladder_points_def)
  moreover have "pass_exact False (sp_inf, q)" by (simp add: pass_exact_def)
  ultimately show "fold ladder_points (replicate n False) (sp_inf, q) = (sp_inf, q)"
    "ladder_exact (replicate n False @ bs) (sp_inf, q) \<longleftrightarrow> ladder_exact bs (sp_inf, q)"
    by (induction n) simp_all
qed

lemma base_mulmod_exact: "mulmod_exact base_point sp_three"
proof -
  let ?q = "norm_point base_point"
  have a: "affine base_point" using point_from_bin_value(1) base_point_value(1) by simp
  have d: "denotes (wval (sp_x base_point), wval (sp_y base_point)) ?q 1"
    using ladder_start [OF a base_norm_exact] by (simp add: ladder_inv_def)
  note l = leading_zeros [OF d, of 254]
  have first: "ladder_points True (sp_inf, ?q) = (?q, sp_256_proj_point_dbl_8 ?q)"
    using denotes_infinity [OF d] by (simp add: ladder_points_def)
  have "ladder_exact (scalar_bits sp_three) (sp_inf, ?q)"
    unfolding scalar_bits_three l(2) using base_dbl(1) base_dbl_dbl(1) base_add_dbl
    by (simp add: pass_exact_def first)
  then show ?thesis using base_norm_exact by (simp add: mulmod_exact_def)
qed

lemma gen_k_three: "sp_256_ecc_gen_k_8 (3 # replicate 31 0) = sp_three"
proof -
  have "3 # replicate 31 (0 :: byte) = [3, 0, 0, 0, 0, 0, 0, 0, 0, 0, 0, 0, 0, 0, 0, 0, 0, 0, 0, 0, 0, 0, 0, 0, 0, 0, 0, 0, 0, 0, 0, 0]"
    by (simp add: eval_nat_numeral)
  then show ?thesis
    by (simp only: sp_256_ecc_gen_k_8_def sp_three_def Let_def) (simp add: words32_def upt_rec)
qed

lemma mod_add_inexact:
  assumes "x < 2 ^ 256" and "y < 2 ^ 256" and "2 ^ 256 + p256 \<le> x + y"
  shows "mod_add x y mod p256 \<noteq> (x + y) mod p256"
proof
  assume e: "mod_add x y mod p256 = (x + y) mod p256"
  have "(x + y - p256) mod 2 ^ 256 = (x + y - p256 - 2 ^ 256) mod 2 ^ 256" by (simp only: minus_mod_self2)
  also have "\<dots> = x + y - p256 - 2 ^ 256" using assms p256_pos by (intro mod_pos_pos_trivial) linarith+
  finally have "(x + y - p256) mod 2 ^ 256 = x + y - p256 - 2 ^ 256" .
  moreover have "\<not> x + y < 2 ^ 256" using assms(3) p256_pos by linarith
  ultimately have "mod_add x y = x + y - p256 - 2 ^ 256" by (simp only: mod_add_def if_False)
  then have "p256 dvd (x + y - p256 - 2 ^ 256) - (x + y)" using e by (simp only: mod_eq_dvd_iff)
  moreover have "(x + y - p256 - 2 ^ 256) - (x + y) = - (p256 + 2 ^ 256)" by simp
  ultimately have "p256 dvd - (p256 + 2 ^ 256)" by (simp only:)
  then show False by (simp add: p256_def)
qed

lemma mod_sub_inexact:
  assumes "0 \<le> x" and "y < 2 ^ 256" and "x + p256 < y"
  shows "mod_sub x y mod p256 \<noteq> (x - y) mod p256"
proof
  assume e: "mod_sub x y mod p256 = (x - y) mod p256"
  have "(x - y + p256) mod 2 ^ 256 = (x - y + p256 + 2 ^ 256) mod 2 ^ 256" by (simp only: mod_add_self2)
  also have "\<dots> = x - y + p256 + 2 ^ 256" using assms p256_pos by (intro mod_pos_pos_trivial) linarith+
  finally have "(x - y + p256) mod 2 ^ 256 = x - y + p256 + 2 ^ 256" .
  moreover have "\<not> y \<le> x" using assms(3) p256_pos by linarith
  ultimately have "mod_sub x y = x - y + p256 + 2 ^ 256" by (simp only: mod_sub_def if_False)
  then have "p256 dvd (x - y + p256 + 2 ^ 256) - (x - y)" using e by (simp only: mod_eq_dvd_iff)
  then have "p256 dvd p256 + 2 ^ 256" by simp
  then show False by (simp add: p256_def)
qed

text \<open>C36: \<^verbatim>\<open>sp_256_mont_add_8\<close> and \<^verbatim>\<open>sp_256_mont_sub_8\<close> correct an overflow once. Their results
  are the sum and the difference modulo the prime exactly when the sum is below
  \<open>2\<^sup>2\<^sup>5\<^sup>6 + p\<close> and the subtrahend at most \<open>p\<close> above the minuend; for the
  arguments that the multiplication may return, any number of 256 bits, this is not always so.
\<close>

theorem sp_256_mont_add_sub_exact:
  assumes "length a = 8" and "length b = 8"
  shows "(wval (sp_256_mont_add_8 a b) mod p256 = (wval a + wval b) mod p256 \<longleftrightarrow> wval a + wval b < 2 ^ 256 + p256)
    \<and> (wval (sp_256_mont_sub_8 a b) mod p256 = (wval a - wval b) mod p256 \<longleftrightarrow> wval b \<le> wval a + p256)"
proof -
  note l = wval_less_256 [OF assms(1)] wval_less_256 [OF assms(2)]
  have "wval (sp_256_mont_add_8 a b) mod p256 = (wval a + wval b) mod p256 \<longleftrightarrow> wval a + wval b < 2 ^ 256 + p256"
    unfolding sp_256_mont_add_8_value(2) [OF assms]
    using mod_add_exact [of "wval a" "wval b"] mod_add_inexact [OF l] by (meson not_le wval_ge)
  moreover have "wval (sp_256_mont_sub_8 a b) mod p256 = (wval a - wval b) mod p256 \<longleftrightarrow> wval b \<le> wval a + p256"
    unfolding sp_256_mont_sub_8_value(2) [OF assms]
    using mod_sub_exact [OF wval_ge l(1) wval_ge] mod_sub_inexact [OF wval_ge l(2)] by (meson not_le)
  ultimately show ?thesis ..
qed

theorem sp_256_mont_add_sub_exact_witness:
  "wval (sp_256_mont_add_8 (replicate 8 0xffffffff) (replicate 8 0xffffffff)) mod p256
     \<noteq> (wval (replicate 8 (0xffffffff :: u32)) + wval (replicate 8 (0xffffffff :: u32))) mod p256
   \<and> wval (sp_256_mont_sub_8 (replicate 8 0) (replicate 8 0xffffffff)) mod p256
     \<noteq> (wval (replicate 8 (0 :: u32)) - wval (replicate 8 (0xffffffff :: u32))) mod p256"
proof -
  have "replicate 8 x = [x, x, x, x, x, x, x, x]" for x :: u32 by (simp add: eval_nat_numeral)
  then have w: "wval (replicate 8 (0xffffffff :: u32)) = 2 ^ 256 - 1" by simp
  have p: "\<not> (2 ^ 256 - 1 + (2 ^ 256 - 1) < 2 ^ 256 + p256)" "\<not> (2 ^ 256 - 1 \<le> 0 + p256)" by (simp_all add: p256_def)
  show ?thesis
    using sp_256_mont_add_sub_exact [of "replicate 8 0xffffffff" "replicate 8 0xffffffff"]
      sp_256_mont_add_sub_exact [of "replicate 8 0" "replicate 8 0xffffffff"] p
    unfolding w wval_replicate_zero length_replicate by blast
qed

text \<open>C15: the product of eight by eight words is exact, and \<^verbatim>\<open>sp_256_mont_mul_8\<close> reduces it as
  Montgomery's algorithm does: the result has 256 bits and is, times \<open>2\<^sup>2\<^sup>5\<^sup>6\<close>, the product modulo
  the prime. \<^verbatim>\<open>sp_256_mont_inv_8\<close> is the power with exponent \<open>p - 2\<close> of the number it is given in
  Montgomery form.
\<close>

theorem sp_256_montgomery:
  assumes "length a = 8" and "length b = 8" and "wval a mod p256 = (n * 2 ^ 256) mod p256"
  shows "wval (sp_256to512_mul_8 a b) = wval a * wval b
    \<and> wval (sp_256_mont_mul_8 a b) = REDC (wval a * wval b)
    \<and> wval (sp_256_mont_mul_8 a b) < 2 ^ 256
    \<and> (wval (sp_256_mont_mul_8 a b) * 2 ^ 256) mod p256 = (wval a * wval b) mod p256
    \<and> wval (sp_256_mont_inv_8 a) mod p256 = (n ^ nat (p256 - 2) * 2 ^ 256) mod p256"
proof -
  have "mform a n" using assms(1,3) by (simp only: mform_def)
  from mform_inv [OF this] show ?thesis
    using sp_256to512_mul_8_value(2) [OF assms(1,2)] sp_256_mont_mul_8_value(2) [OF assms(1,2)]
      REDC_properties [OF product_less [OF assms(1,2)]] by (simp only: mform_def)
qed

theorem sp_256_montgomery_witness:
  "wval (sp_256_mont_mul_8 sp_one (replicate 8 0xffffffff)) < 2 ^ 256
   \<and> wval (sp_256_mont_inv_8 sp_one) mod p256
     = (0xfffffffe00000003fffffffd0000000200000001fffffffe0000000300000000 ^ nat (p256 - 2) * 2 ^ 256) mod p256"
proof -
  have "wval sp_one mod p256 = (0xfffffffe00000003fffffffd0000000200000001fffffffe0000000300000000 * 2 ^ 256) mod p256"
    by (simp add: sp_one_value p256_def)
  from sp_256_montgomery [OF sp_one_value(1) length_replicate this, of "0xffffffff"] show ?thesis by blast
qed

text \<open>bytes and words: what \<^verbatim>\<open>sp_256_to_bin_8\<close> writes \<^verbatim>\<open>sp_256_from_bin_8\<close> reads, the
  other way round for 32 bytes, and both keep the number, most significant byte first in the bytes.
\<close>

theorem sp_256_bin_roundtrip:
  assumes "length r = 8" and "length bs = 32"
  shows "sp_256_from_bin_8 (sp_256_to_bin_8 r) = r \<and> be_val (sp_256_to_bin_8 r) = wval r
    \<and> sp_256_to_bin_8 (sp_256_from_bin_8 bs) = bs \<and> wval (sp_256_from_bin_8 bs) = be_val bs"
proof -
  note t = sp_256_to_bin_8_value [OF assms(1)] and f = sp_256_from_bin_8_value [of bs]
  note t2 = sp_256_to_bin_8_value [OF f(1)]
  have "rev (sp_256_to_bin_8 (sp_256_from_bin_8 bs)) = rev bs" using assms(2) f t2 by (intro eq_by_value) simp_all
  moreover have "sp_256_from_bin_8 (sp_256_to_bin_8 r) = r"
    using t sp_256_from_bin_8_value [of "sp_256_to_bin_8 r"] assms(1) by (intro eq_by_value) simp_all
  ultimately show ?thesis using t f assms(2) by (simp add: be_val_def)
qed

theorem sp_256_bin_roundtrip_witness:
  "sp_256_from_bin_8 (sp_256_to_bin_8 base_x) = base_x \<and> sp_256_to_bin_8 (sp_256_from_bin_8 (take 32 p256_base_bin)) = take 32 p256_base_bin"
  using sp_256_bin_roundtrip [of base_x "take 32 p256_base_bin"] by (simp add: base_x_def base_point_value)

text \<open>C4: the key agreement on P-256. For 32 random bytes the private scalar lies between 1 and the
  order of the curve, exclusively; the public key is the affine point that chords and tangents give
  as that multiple of the base point, and the premaster secret is the \<open>x\<close> coordinate of the same
  multiple of the peer's point, as big-endian numbers below the prime. This holds for the runs of
  the base point and of the peer's point that \<open>mulmod_exact\<close> describes: no sum or difference leaves
  the range in which one correction by the prime is enough, no two points that are added have the
  same \<open>x\<close>, and no point that is doubled has \<open>y = 0\<close>. That the power of \<^verbatim>\<open>sp_256_mont_inv_8\<close> is an inverse is no
  assumption: the modulus is proved to be prime.
\<close>

theorem P256_key_agreement:
  assumes "length random = 32" and "length peer = 64" and "k = sp_256_ecc_gen_k_8 random"
    and "mulmod_exact (sp_256_point_from_bin2x32 p256_base_bin) k" and "mulmod_exact (sp_256_point_from_bin2x32 peer) k"
    and "curve_P256_compute_pubkey_and_premaster random peer = (pubkey, premaster)"
  shows "0 < wval k \<and> wval k < p256_order \<and>
    (\<exists>x y. ec_multiple P256_G (nat (wval k)) (x, y) \<and>
       length pubkey = 64 \<and> be_val (take 32 pubkey) = x mod p256 \<and> be_val (drop 32 pubkey) = y mod p256) \<and>
    (\<exists>x y. ec_multiple (be_val (take 32 peer), be_val (drop 32 peer)) (nat (wval k)) (x, y) \<and>
       length premaster = 32 \<and> be_val premaster = x mod p256)"
proof -
  note r = assms(1) and p = assms(2) and k = assms(3) and e1 = assms(4) and e2 = assms(5) and c = assms(6)
  note kv = sp_256_ecc_gen_k_8_value [OF r, folded k]
  let ?B = "sp_256_point_from_bin2x32 p256_base_bin" and ?P = "sp_256_point_from_bin2x32 peer"
  define b where "b = sp_256_ecc_mulmod_8 sp_zero ?B k"
  define q where "q = sp_256_ecc_mulmod_8 ?P ?P k"
  have out: "pubkey = sp_256_to_bin_8 (sp_x b) @ sp_256_to_bin_8 (sp_y b)" "premaster = sp_256_to_bin_8 (sp_x q)"
    using c k by (simp_all add: curve_P256_compute_pubkey_and_premaster_def sp_ecc_make_key_256_def sp_ecc_secret_gen_256_def
        sp_256_ecc_mulmod_base_8_def Let_def b_def q_def)
  note vb = point_from_bin_value [of p256_base_bin] and vp = point_from_bin_value [of peer]
  have "affine ?B" using vb(1) base_point_value(1) by simp
  from sp_256_ecc_mulmod_8_multiple [OF this kv(1,2) e1 b_def]
  obtain x y where b: "ec_multiple (wval (sp_x ?B), wval (sp_y ?B)) (nat (wval k)) (x, y)"
    "length (sp_x b) = 8" "wval (sp_x b) = x mod p256" "length (sp_y b) = 8" "wval (sp_y b) = y mod p256" .
  have "affine ?P" using vp(1) p by simp
  from sp_256_ecc_mulmod_8_multiple [OF this kv(1,2) e2 q_def]
  obtain x' y' where q: "ec_multiple (wval (sp_x ?P), wval (sp_y ?P)) (nat (wval k)) (x', y')"
    "length (sp_x q) = 8" "wval (sp_x q) = x' mod p256" .
  have "(wval (sp_x ?B), wval (sp_y ?B)) = P256_G" using vb(2,3) base_point_value by simp
  then have B: "ec_multiple P256_G (nat (wval k)) (x, y)" using b(1) by (simp only:)
  have "(wval (sp_x ?P), wval (sp_y ?P)) = (be_val (take 32 peer), be_val (drop 32 peer))" using vp(2,3) p by simp
  then have P: "ec_multiple (be_val (take 32 peer), be_val (drop 32 peer)) (nat (wval k)) (x', y')" using q(1) by (simp only:)
  note bin = sp_256_to_bin_8_value [OF b(2)] sp_256_to_bin_8_value [OF b(4)] sp_256_to_bin_8_value [OF q(2)]
  have "length pubkey = 64" "take 32 pubkey = sp_256_to_bin_8 (sp_x b)" "drop 32 pubkey = sp_256_to_bin_8 (sp_y b)"
    "length premaster = 32"
    using bin(1,3,5) by (simp_all add: out)
  moreover have "be_val (sp_256_to_bin_8 (sp_x b)) = x mod p256" "be_val (sp_256_to_bin_8 (sp_y b)) = y mod p256"
    "be_val premaster = x' mod p256"
    using bin(2,4,6) b(3,5) q(3) by (simp_all only: out be_val_def)
  ultimately show ?thesis using kv(2,3) B P by metis
qed

theorem P256_key_agreement_witness:
  "\<exists>x y pubkey premaster. curve_P256_compute_pubkey_and_premaster (3 # replicate 31 0) p256_base_bin = (pubkey, premaster)
     \<and> ec_multiple P256_G 3 (x, y) \<and> be_val (take 32 pubkey) = x mod p256 \<and> be_val (drop 32 pubkey) = y mod p256"
proof -
  obtain pubkey premaster where c: "curve_P256_compute_pubkey_and_premaster (3 # replicate 31 0) p256_base_bin = (pubkey, premaster)"
    by fastforce
  have l: "length (3 # replicate 31 (0 :: byte)) = 32" by simp
  have "nat (wval sp_three) = 3" by (simp only: sp_three_value nat_numeral)
  then show ?thesis
    using P256_key_agreement [OF l base_point_value(1) gen_k_three [symmetric] base_mulmod_exact base_mulmod_exact c] c by metis
qed

end
