(* ===== verification/Tls_Pstm_Value.thy ===== *)
theory Tls_Pstm_Value
  imports Tls_Pstm Tls_Sp_Value
begin

text \<open>
  Numbers of \<^verbatim>\<open>tls_pstm.c\<close> and their values: the invariant of the structure, copies, comparison, shifts by whole
  digits, differences and doubling. \<open>pm_wf\<close> is the invariant between the fields, \<open>pstm_ok\<close> adds that the number has no
  leading zero digits; \<open>pm_abs\<close> is the magnitude.
\<close>

unbundle bit_operations_syntax

section \<open>Numbers and their values\<close>

definition pm_wf :: "pstm_int \<Rightarrow> bool" where
  "pm_wf a \<longleftrightarrow> pm_alloc a = length (pm_dp a) \<and> pm_used a \<le> pm_alloc a
     \<and> drop (pm_used a) (pm_dp a) = replicate (pm_alloc a - pm_used a) 0"

definition pm_abs :: "pstm_int \<Rightarrow> int" where "pm_abs a = wval (pm_digits a)"

definition pm_val :: "pstm_int \<Rightarrow> int" where "pm_val a = (if pm_sign a then - pm_abs a else pm_abs a)"

definition pstm_ok :: "pstm_int \<Rightarrow> bool" where
  "pstm_ok a \<longleftrightarrow> pm_wf a \<and> (0 < pm_used a \<longrightarrow> pm_dp a ! (pm_used a - 1) \<noteq> 0) \<and> (pm_used a = 0 \<longrightarrow> pm_sign a = PSTM_ZPOS)"

named_theorems pm_simps "digits, sizes and values of numbers"

lemma pstm_ok_wf [simp]: "pstm_ok a \<Longrightarrow> pm_wf a" by (simp add: pstm_ok_def)

lemma pm_used_alloc: "pm_wf a \<Longrightarrow> pm_used a \<le> pm_alloc a" unfolding pm_wf_def by blast

lemma pm_wf_sign [simp]: "pm_wf (a\<lparr>pm_sign := s\<rparr>) = pm_wf a" "pm_digits (a\<lparr>pm_sign := s\<rparr>) = pm_digits a"
  "pm_abs (a\<lparr>pm_sign := s\<rparr>) = pm_abs a"
  by (simp_all add: pm_wf_def pm_digits_def pm_abs_def)

lemma pstm_init_size_spec [simp]:
  "pstm_ok (pstm_init_size n)" "pm_alloc (pstm_init_size n) = n" "pm_used (pstm_init_size n) = 0" "pm_abs (pstm_init_size n) = 0"
  "pm_val (pstm_init_size n) = 0"
  by (simp_all add: pstm_init_size_def pstm_ok_def pm_wf_def pm_digits_def pm_abs_def pm_val_def)

lemma length_pm_dp [simp]: "pm_wf a \<Longrightarrow> length (pm_dp a) = pm_alloc a" by (simp only: pm_wf_def)

lemma pm_wfI: "pm_alloc a = length (pm_dp a) \<Longrightarrow> pm_used a \<le> pm_alloc a
    \<Longrightarrow> drop (pm_used a) (pm_dp a) = replicate (pm_alloc a - pm_used a) 0 \<Longrightarrow> pm_wf a"
  by (simp only: pm_wf_def)

lemma length_pm_digits [simp]: "pm_wf a \<Longrightarrow> length (pm_digits a) = pm_used a"
  using pm_used_alloc [of a] by (simp add: pm_digits_def)

lemma pm_abs_ge [simp]: "0 \<le> pm_abs a" by (simp add: pm_abs_def)

lemma pm_dp_digits: "pm_wf a \<Longrightarrow> pm_dp a = pm_digits a @ replicate (pm_alloc a - pm_used a) 0"
  by (metis append_take_drop_id pm_digits_def pm_wf_def)

lemma pm_dp_nth: "pm_wf a \<Longrightarrow> i < pm_alloc a \<Longrightarrow> pm_dp a ! i = (if i < pm_used a then pm_digits a ! i else 0)"
  by (subst pm_dp_digits) (auto simp: nth_append)

lemma wval_dp: "pm_wf a \<Longrightarrow> wval (pm_dp a) = pm_abs a"
  by (subst pm_dp_digits) (simp_all add: wval_append pm_abs_def)

lemma replicate_joined: "replicate m x @ replicate n x = replicate (m + n) x" by (simp add: replicate_add)

lemma pm_store_spec:
  assumes "pm_wf c" and "length r \<le> pm_alloc c"
  shows "pm_wf (pm_store c r)" and "pm_digits (pm_store c r) = r" and "pm_abs (pm_store c r) = wval r"
    and "pm_alloc (pm_store c r) = pm_alloc c" and "pm_used (pm_store c r) = length r" and "pm_sign (pm_store c r) = pm_sign c"
proof -
  have d: "drop (max (length r) (pm_used c)) (pm_dp c) = replicate (pm_alloc c - max (length r) (pm_used c)) 0"
    using assms by (subst pm_dp_digits) simp_all
  have "pm_used c \<le> pm_alloc c" using assms(1) by (rule pm_used_alloc)
  then have n: "pm_used c - length r + (pm_alloc c - max (length r) (pm_used c)) = pm_alloc c - length r" using assms(2) by simp
  show *: "pm_digits (pm_store c r) = r" by (simp add: pm_store_def pm_digits_def)
  show "pm_wf (pm_store c r)"
    using assms by (intro pm_wfI) (simp_all add: pm_store_def d n replicate_joined)
  show "pm_abs (pm_store c r) = wval r" by (simp add: pm_abs_def *)
qed (simp_all add: pm_store_def)

lemma pstm_grow_spec:
  assumes "pm_wf a"
  shows "pm_wf (pstm_grow a n)" and "pm_digits (pstm_grow a n) = pm_digits a" and "pm_alloc (pstm_grow a n) = max n (pm_alloc a)"
    and "pm_used (pstm_grow a n) = pm_used a" and "pm_sign (pstm_grow a n) = pm_sign a"
proof -
  have u: "pm_used a \<le> pm_alloc a" using assms by (rule pm_used_alloc)
  have d: "drop (pm_used a) (pm_dp a) = replicate (pm_alloc a - pm_used a) 0" using assms unfolding pm_wf_def by blast
  have "drop (pm_used a) (pm_dp a) @ replicate (n - pm_alloc a) 0 = replicate (n - pm_used a) 0" if "pm_alloc a < n"
    using u that unfolding d replicate_joined by simp
  then show "pm_wf (pstm_grow a n)" using assms u by (cases "pm_alloc a < n"; intro pm_wfI) (simp_all add: pstm_grow_def d)
  show "pm_digits (pstm_grow a n) = pm_digits a" using assms u by (auto simp: pstm_grow_def pm_digits_def)
qed (auto simp: pstm_grow_def)

text \<open>The guard around a call of \<^verbatim>\<open>pstm_grow\<close> changes nothing.\<close>

lemma pstm_grow_guard [simp]: "(if pm_alloc a < n then pstm_grow a n else a) = pstm_grow a n"
  by (simp add: pstm_grow_def)

lemma clamp_loop_spec:
  assumes "n \<le> length dp"
  shows "clamp_loop dp n \<le> n \<and> (0 < clamp_loop dp n \<longrightarrow> dp ! (clamp_loop dp n - 1) \<noteq> 0)
    \<and> take n dp = take (clamp_loop dp n) dp @ replicate (n - clamp_loop dp n) 0"
  using assms
proof (induction n)
  case (Suc n)
  let ?k = "clamp_loop dp n"
  have ih: "?k \<le> n" "0 < ?k \<longrightarrow> dp ! (?k - 1) \<noteq> 0" "take n dp = take ?k dp @ replicate (n - ?k) 0" using Suc by simp_all
  show ?case
  proof (cases "dp ! n = 0")
    case True
    have "take (Suc n) dp = take ?k dp @ replicate (n - ?k) 0 @ [0]"
      using Suc.prems True ih(3) by (simp add: take_Suc_conv_app_nth)
    then show ?thesis using True ih by (simp add: Suc_diff_le replicate_append_same)
  next
    case False
    then show ?thesis by simp
  qed
qed simp

lemma pstm_clamp_spec:
  assumes "pm_wf a"
  shows "pstm_ok (pstm_clamp a)" and "pm_abs (pstm_clamp a) = pm_abs a" and "pm_alloc (pstm_clamp a) = pm_alloc a"
    and "pm_sign (pstm_clamp a) = (pm_sign a \<and> pm_abs a \<noteq> 0)" and "pm_used (pstm_clamp a) \<le> pm_used a"
proof -
  let ?k = "clamp_loop (pm_dp a) (pm_used a)"
  have k: "?k \<le> pm_used a" "0 < ?k \<longrightarrow> pm_dp a ! (?k - 1) \<noteq> 0" "pm_digits a = take ?k (pm_dp a) @ replicate (pm_used a - ?k) 0"
    using clamp_loop_spec [of "pm_used a" "pm_dp a"] assms pm_used_alloc [of a] by (simp_all add: pm_digits_def)
  have u: "pm_used a \<le> pm_alloc a" using assms by (rule pm_used_alloc)
  have "drop ?k (pm_dp a) = replicate (pm_alloc a - ?k) 0"
  proof -
    have "pm_dp a = take ?k (pm_dp a) @ replicate (pm_used a - ?k) 0 @ replicate (pm_alloc a - pm_used a) 0"
      using pm_dp_digits [OF assms] k(3) by simp
    then have "drop ?k (pm_dp a) = replicate (pm_used a - ?k) 0 @ replicate (pm_alloc a - pm_used a) 0"
      using assms k(1) u by (metis append_eq_conv_conj append_take_drop_id)
    then show ?thesis using k(1) u by (simp add: replicate_joined)
  qed
  then have w: "pm_wf (pstm_clamp a)" using assms k(1) u by (intro pm_wfI) (simp_all add: pstm_clamp_def Let_def)
  show ok: "pstm_ok (pstm_clamp a)" using w k(2) by (simp add: pstm_ok_def pstm_clamp_def Let_def)
  show ab: "pm_abs (pstm_clamp a) = pm_abs a"
    unfolding pm_abs_def using k(3) by (simp add: pm_digits_def pstm_clamp_def Let_def wval_append)
  have "?k = 0 \<longleftrightarrow> pm_abs a = 0"
  proof
    assume "pm_abs a = 0"
    show "?k = 0"
    proof (rule ccontr)
      assume "?k \<noteq> 0"
      then obtain j where j: "?k = Suc j" by (cases ?k) auto
      then have "wval (take (Suc j) (pm_dp a)) = wval (take j (pm_dp a)) + 2 ^ (32 * j) * uint (pm_dp a ! j)"
        using k(1) u assms by (subst wval_take_Suc) simp_all
      moreover have "0 < uint (pm_dp a ! j)" using k(2) j by (simp add: word_neq_0_conv word_less_def)
      ultimately have "0 < wval (take ?k (pm_dp a))" using wval_ge [of "take j (pm_dp a)"] unfolding j by (simp add: add_nonneg_pos)
      then show False using \<open>pm_abs a = 0\<close> k(3) by (simp add: pm_abs_def wval_append)
    qed
  qed (use k(3) in \<open>simp add: pm_abs_def\<close>)
  then show "pm_sign (pstm_clamp a) = (pm_sign a \<and> pm_abs a \<noteq> 0)" by (simp add: pstm_clamp_def Let_def)
qed (use clamp_loop_spec [of "pm_used a" "pm_dp a"] assms pm_used_alloc [of a] in \<open>simp_all add: pstm_clamp_def Let_def\<close>)

lemma pm_abs_upper: "pm_wf a \<Longrightarrow> pm_abs a < 2 ^ (32 * pm_used a)"
  using wval_less [of "pm_digits a"] by (simp add: pm_abs_def)

lemma pm_abs_lower:
  assumes "pstm_ok a" and "0 < pm_used a"
  shows "2 ^ (32 * (pm_used a - 1)) \<le> pm_abs a"
proof -
  obtain n where n: "pm_used a = Suc n" using assms(2) by (cases "pm_used a") auto
  have "n < length (pm_dp a)" using assms n pm_used_alloc [of a] by simp
  then have "pm_abs a = wval (take n (pm_dp a)) + 2 ^ (32 * n) * uint (pm_dp a ! n)"
    using wval_take_Suc [of n "pm_dp a"] by (simp add: pm_abs_def pm_digits_def n)
  moreover have "1 \<le> uint (pm_dp a ! n)" using assms n by (simp add: pstm_ok_def word_neq_0_conv word_less_def)
  moreover from this have "2 ^ (32 * n) \<le> 2 ^ (32 * n) * uint (pm_dp a ! n)" by simp
  ultimately show ?thesis using n wval_ge [of "take n (pm_dp a)"] unfolding n diff_Suc_1 by linarith
qed

lemma pm_used_le: "pstm_ok a \<Longrightarrow> pm_used a \<le> n \<longleftrightarrow> pm_abs a < 2 ^ (32 * n)"
proof
  assume ok: "pstm_ok a" and "pm_used a \<le> n"
  then have "(2 :: int) ^ (32 * pm_used a) \<le> 2 ^ (32 * n)" by (intro power_increasing) simp_all
  then show "pm_abs a < 2 ^ (32 * n)" using pm_abs_upper [OF pstm_ok_wf [OF ok]] by linarith
next
  assume ok: "pstm_ok a" and l: "pm_abs a < 2 ^ (32 * n)"
  show "pm_used a \<le> n"
  proof (rule ccontr)
    assume "\<not> pm_used a \<le> n"
    then have "2 ^ (32 * (pm_used a - 1)) \<le> pm_abs a" "(2 :: int) ^ (32 * n) \<le> 2 ^ (32 * (pm_used a - 1))"
      using pm_abs_lower [OF ok] by (simp_all add: power_increasing)
    then show False using l by linarith
  qed
qed

lemma pm_used_less: "pstm_ok a \<Longrightarrow> n < pm_used a \<longleftrightarrow> 2 ^ (32 * n) \<le> pm_abs a"
  using pm_used_le [of a n] by linarith

lemma pm_used_zero: "pstm_ok a \<Longrightarrow> pm_used a = 0 \<longleftrightarrow> pm_abs a = 0"
  using pm_used_le [of a 0] pm_abs_ge [of a] by (auto simp del: pm_abs_ge)

lemma pstm_cmp_mag_spec:
  assumes "pstm_ok a" and "pstm_ok b"
  shows "pstm_cmp_mag a b = sgn (pm_abs a - pm_abs b)"
proof -
  consider "pm_used a < pm_used b" | "pm_used b < pm_used a" | "pm_used a = pm_used b" by linarith
  then show ?thesis
  proof cases
    case 1
    then have "2 ^ (32 * pm_used a) \<le> pm_abs b" using pm_used_less assms by simp
    then show ?thesis using 1 pm_abs_upper [of a] assms by (simp add: pstm_cmp_mag_def)
  next
    case 2
    then have "2 ^ (32 * pm_used b) \<le> pm_abs a" using pm_used_less assms by simp
    then show ?thesis using 2 pm_abs_upper [of b] assms by (simp add: pstm_cmp_mag_def)
  next
    case 3
    moreover have "pm_used b \<le> pm_alloc b" using assms by (simp add: pm_used_alloc)
    ultimately show ?thesis using cmp_loop_value [of "pm_used b" "pm_dp a" "pm_dp b"] assms pm_used_alloc [of a]
      by (simp add: pstm_cmp_mag_def pm_abs_def pm_digits_def)
  qed
qed

section \<open>Copies and shifts\<close>

lemma pstm_grow_abs [simp]: "pm_wf a \<Longrightarrow> pm_abs (pstm_grow a n) = pm_abs a"
  by (simp add: pm_abs_def pstm_grow_spec)

lemma pstm_ok_iff: "pstm_ok a \<longleftrightarrow> pm_wf a \<and> (0 < pm_used a \<longrightarrow> last (pm_digits a) \<noteq> 0) \<and> (pm_used a = 0 \<longrightarrow> pm_sign a = PSTM_ZPOS)"
proof -
  have "pm_dp a ! (pm_used a - 1) = last (pm_digits a)" if "pm_wf a" "0 < pm_used a"
  proof -
    have "pm_digits a \<noteq> []" using that length_pm_digits [of a] by (metis length_0_conv less_numeral_extra(3))
    then show ?thesis using that pm_used_alloc [of a] by (simp add: last_conv_nth) (simp add: pm_digits_def)
  qed
  then show ?thesis unfolding pstm_ok_def by auto
qed

lemma pstm_ok_by_value:
  assumes "pm_wf a" and "0 < pm_used a \<Longrightarrow> 2 ^ (32 * (pm_used a - 1)) \<le> pm_abs a" and "pm_used a = 0 \<Longrightarrow> pm_sign a = PSTM_ZPOS"
  shows "pstm_ok a"
proof -
  have "pm_dp a ! n \<noteq> 0" if n: "pm_used a = Suc n" for n
  proof
    assume "pm_dp a ! n = 0"
    then have "pm_abs a = wval (take n (pm_dp a))"
      using wval_take_Suc [of n "pm_dp a"] assms(1) n pm_used_alloc [of a] by (simp add: pm_abs_def pm_digits_def)
    then have "pm_abs a < 2 ^ (32 * n)" using wval_less [of "take n (pm_dp a)"] assms(1) n pm_used_alloc [of a] by simp
    then show False using assms(2) n by simp
  qed
  then show ?thesis using assms(1,3) by (cases "pm_used a") (simp_all add: pstm_ok_def)
qed

lemma pstm_grow_ok: "pstm_ok a \<Longrightarrow> pstm_ok (pstm_grow a n)"
  by (simp add: pstm_ok_iff pstm_grow_spec)

lemma pstm_copy_spec:
  assumes "pstm_ok a" and "pm_wf b"
  shows "pstm_ok (pstm_copy a b)" and "pm_abs (pstm_copy a b) = pm_abs a" and "pm_sign (pstm_copy a b) = pm_sign a"
    and "pm_alloc (pstm_copy a b) = max (pm_used a) (pm_alloc b)" and "pm_used (pstm_copy a b) = pm_used a"
    and "pm_val (pstm_copy a b) = pm_val a" and "pm_digits (pstm_copy a b) = pm_digits a"
proof -
  have "length (pm_digits a) \<le> pm_alloc (pstm_grow b (pm_used a))" using assms by (simp add: pstm_grow_spec)
  note s = pm_store_spec [OF pstm_grow_spec(1) [OF assms(2)] this]
  have e: "pstm_copy a b = (pm_store (pstm_grow b (pm_used a)) (pm_digits a))\<lparr>pm_sign := pm_sign a\<rparr>"
    by (simp add: pstm_copy_def Let_def)
  show "pstm_ok (pstm_copy a b)" "pm_abs (pstm_copy a b) = pm_abs a" "pm_sign (pstm_copy a b) = pm_sign a"
    "pm_alloc (pstm_copy a b) = max (pm_used a) (pm_alloc b)" "pm_used (pstm_copy a b) = pm_used a"
    "pm_val (pstm_copy a b) = pm_val a" "pm_digits (pstm_copy a b) = pm_digits a"
    using assms s by (simp_all add: e pstm_ok_iff pstm_grow_spec pm_val_def pm_abs_def)
qed

text \<open>A copy to itself leaves a number alone, as the source's test of the two pointers does.\<close>

lemma pstm_copy_same: "pm_wf a \<Longrightarrow> pstm_copy a a = a"
  using pm_used_alloc [of a] by (simp add: pstm_copy_def pstm_grow_def pm_store_def pm_digits_def Let_def)

lemma pstm_zero_spec [simp]:
  assumes "pm_wf a"
  shows "pstm_ok (pstm_zero a)" and "pm_abs (pstm_zero a) = 0" and "pm_alloc (pstm_zero a) = pm_alloc a"
    and "pm_used (pstm_zero a) = 0" and "pm_sign (pstm_zero a) = PSTM_ZPOS"
proof -
  have "pm_wf (pstm_zero a)" by (rule pm_wfI) (simp_all add: pstm_zero_def)
  then show "pstm_ok (pstm_zero a)" by (simp add: pstm_ok_def) (simp add: pstm_zero_def)
qed (simp_all add: pstm_zero_def pm_abs_def pm_digits_def)

lemma pstm_init_copy_spec:
  assumes "pstm_ok b"
  shows "pstm_ok (pstm_init_copy b s)" and "pm_abs (pstm_init_copy b s) = pm_abs b" and "pm_sign (pstm_init_copy b s) = pm_sign b"
    and "pm_alloc b \<le> pm_alloc (pstm_init_copy b s)" and "pm_used (pstm_init_copy b s) = pm_used b"
    and "pm_val (pstm_init_copy b s) = pm_val b" and "pm_digits (pstm_init_copy b s) = pm_digits b"
  using assms by (simp_all add: pstm_init_copy_def Let_def pstm_copy_spec)

lemma pstm_lshd_spec:
  assumes "pstm_ok a"
  shows "pm_wf (pstm_lshd a n)" and "pm_abs (pstm_lshd a n) = 2 ^ (32 * n) * pm_abs a" and "pm_sign (pstm_lshd a n) = pm_sign a"
    and "pm_alloc (pstm_lshd a n) = max (pm_used a + n) (pm_alloc a)"
    and "pm_used (pstm_lshd a n) = pm_used a + n" and "pm_used a \<noteq> 0 \<Longrightarrow> pstm_ok (pstm_lshd a n)"
    and "pm_digits (pstm_lshd a n) = replicate n 0 @ pm_digits a"
proof -
  have w: "pm_wf a" using assms by simp
  have "length (replicate n 0 @ pm_digits a) \<le> pm_alloc (pstm_grow a (pm_used a + n))" using w by (simp add: pstm_grow_spec)
  note s = pm_store_spec [OF pstm_grow_spec(1) [OF w] this]
  have e: "pstm_lshd a n = pm_store (pstm_grow a (pm_used a + n)) (replicate n 0 @ pm_digits a)" if "n \<noteq> 0"
    using that w by (simp add: pstm_lshd_def Let_def pstm_grow_spec)
  have z: "pstm_lshd a n = a" if "n = 0" using that by (simp add: pstm_lshd_def)
  have u: "pm_used a \<le> pm_alloc a" using w by (rule pm_used_alloc)
  show "pm_wf (pstm_lshd a n)" "pm_abs (pstm_lshd a n) = 2 ^ (32 * n) * pm_abs a" "pm_sign (pstm_lshd a n) = pm_sign a"
    "pm_alloc (pstm_lshd a n) = max (pm_used a + n) (pm_alloc a)" "pm_used (pstm_lshd a n) = pm_used a + n"
    "pm_digits (pstm_lshd a n) = replicate n 0 @ pm_digits a"
    using w u s z e by (cases "n = 0"; simp add: wval_append pm_abs_def pstm_grow_spec)+
  moreover have "pm_digits a \<noteq> []" if "pm_used a \<noteq> 0" using that length_pm_digits [OF w] by (metis list.size(3))
  ultimately show "pstm_ok (pstm_lshd a n)" if "pm_used a \<noteq> 0" using that assms by (simp add: pstm_ok_iff)
qed

lemma wval_drop: "wval (drop n xs) = wval xs div 2 ^ (LENGTH('a) * n)" for xs :: "'a :: len word list"
proof (cases "n \<le> length xs")
  case True
  have "wval (take n xs) < 2 ^ (LENGTH('a) * n)" using wval_less [of "take n xs"] True by simp
  then show ?thesis using wval_take_drop [OF True] wval_ge [of "take n xs"] by simp
next
  case False
  have "(2 :: int) ^ (LENGTH('a) * length xs) \<le> 2 ^ (LENGTH('a) * n)" using False by (intro power_increasing) simp_all
  then have "wval xs < 2 ^ (LENGTH('a) * n)" using wval_less [of xs] by linarith
  then show ?thesis using False by simp
qed

lemma pstm_rshd_spec:
  assumes "pm_wf a"
  shows "pstm_ok (pstm_rshd a n)" and "pm_abs (pstm_rshd a n) = pm_abs a div 2 ^ (32 * n)" and "pm_alloc (pstm_rshd a n) = pm_alloc a"
    and "pm_sign (pstm_rshd a n) = (pm_sign a \<and> pm_abs a div 2 ^ (32 * n) \<noteq> 0)"
proof -
  let ?s = "pm_store a (drop n (pm_digits a))"
  have "length (drop n (pm_digits a)) \<le> pm_alloc a" using assms pm_used_alloc [of a] by simp
  note s = pm_store_spec [OF assms this]
  have v: "wval (drop n (pm_digits a)) = pm_abs a div 2 ^ (32 * n)" by (simp add: wval_drop pm_abs_def)
  have z: "pm_abs a div 2 ^ (32 * n) = 0" if "pm_used a \<le> n" using that assms v by simp
  show "pstm_ok (pstm_rshd a n)" "pm_abs (pstm_rshd a n) = pm_abs a div 2 ^ (32 * n)" "pm_alloc (pstm_rshd a n) = pm_alloc a"
    "pm_sign (pstm_rshd a n) = (pm_sign a \<and> pm_abs a div 2 ^ (32 * n) \<noteq> 0)"
    using assms s z v pstm_clamp_spec [OF s(1)] by (cases "n \<ge> pm_used a"; simp add: pstm_rshd_def)+
qed

section \<open>Differences\<close>

lemma digit_split:
  fixes x y :: int
  assumes "0 \<le> x" and "x < 2 ^ 32"
  shows "(x + 2 ^ 32 * y) div 2 ^ 32 = y" and "(x + 2 ^ 32 * y) mod 2 ^ 32 = x"
  using assms by simp_all

lemma borrow_digit:
  fixes a b :: u32 and C :: bool
  defines "t \<equiv> ucast a - (ucast b + of_bool C) :: u64"
  obtains D where "drop_bit 32 t AND 1 = of_bool D" and "uint (ucast t :: u32) - 2 ^ 32 * of_bool D = uint a - uint b - of_bool C"
proof -
  define D where "D \<longleftrightarrow> uint a < uint b + of_bool C"
  have s: "uint (ucast b + of_bool C :: u64) = uint b + of_bool C"
    using uint_lt2p [of b] by (simp add: uint_add_wrap uint_ucast_32_64)
  have t: "uint t = uint a - uint b - of_bool C + 2 ^ 64 * of_bool D"
    unfolding t_def uint_sub_wrap s uint_ucast_32_64 D_def by auto
  have r: "- (2 ^ 32) \<le> uint a - uint b - of_bool C" "uint a - uint b - of_bool C < 2 ^ 32"
    using uint_lt2p [of a] uint_lt2p [of b] by (cases C; simp; use uint_ge_0 [of a] uint_ge_0 [of b] in linarith)+
  have q: "uint t = (uint a - uint b - of_bool C + 2 ^ 32 * of_bool D) + 2 ^ 32 * ((2 ^ 32 - 1) * of_bool D)"
    unfolding t by auto
  have lo: "0 \<le> uint a - uint b - of_bool C + 2 ^ 32 * of_bool D" "uint a - uint b - of_bool C + 2 ^ 32 * of_bool D < 2 ^ 32"
    using r by (auto simp: not_less D_def)
  have d: "uint t div 2 ^ 32 = (2 ^ 32 - 1) * of_bool D" "uint t mod 2 ^ 32 = uint a - uint b - of_bool C + 2 ^ 32 * of_bool D"
    unfolding q digit_split [OF lo] by (rule refl)+
  have "drop_bit 32 t = (if D then 0xffffffff else 0)"
    unfolding word_uint_eq_iff uint_shift32 d by simp
  then have "drop_bit 32 t AND 1 = of_bool D" by simp
  moreover have "uint (ucast t :: u32) - 2 ^ 32 * of_bool D = uint a - uint b - of_bool C"
    unfolding uint_ucast_64_32 d by simp
  ultimately show thesis by (rule that)
qed

lemma s_sub_low:
  assumes "length bs \<le> length as"
  obtains r D where "s_sub_loop as bs (of_bool C) = r @ s_sub_loop (drop (length bs) as) [] (of_bool D)" and "length r = length bs"
    and "wval r - 2 ^ (32 * length bs) * of_bool D = wval (take (length bs) as) - wval bs - of_bool C"
  using assms
proof (induction bs arbitrary: "as" C thesis)
  case Nil
  show ?case by (rule Nil(1) [of "[]" C]) simp_all
next
  case (Cons b bs)
  obtain a as' where "as": "as = a # as'" using Cons.prems(2) by (cases "as") auto
  obtain D where D: "drop_bit 32 (ucast a - (ucast b + of_bool C) :: u64) AND 1 = of_bool D"
    "uint (ucast (ucast a - (ucast b + of_bool C) :: u64) :: u32) - 2 ^ 32 * of_bool D = uint a - uint b - of_bool C"
    by (rule borrow_digit)
  obtain r E where r: "s_sub_loop as' bs (of_bool D) = r @ s_sub_loop (drop (length bs) as') [] (of_bool E)" "length r = length bs"
    "wval r - 2 ^ (32 * length bs) * of_bool E = wval (take (length bs) as') - wval bs - of_bool D"
    using Cons.IH [of as' D] Cons.prems(2) "as" by auto
  let ?d = "ucast (ucast a - (ucast b + of_bool C) :: u64) :: u32"
  have "2 ^ 32 * (wval r - 2 ^ (32 * length bs) * of_bool E) = 2 ^ 32 * (wval (take (length bs) as') - wval bs - of_bool D)"
    by (simp only: r(3))
  then have "wval (?d # r) - 2 ^ (32 * length (b # bs)) * of_bool E = wval (take (length (b # bs)) as) - wval (b # bs) - of_bool C"
    using D(2) by (simp add: "as" power_add right_diff_distrib mult.assoc)
  then show ?case using r D(1) by (intro Cons.prems(1) [of "?d # r" E]) (simp_all add: "as" Let_def)
qed

lemma ucast_ucast_digit: "ucast (ucast (a :: u32) :: u64) = a" "drop_bit 32 (ucast a :: u64) = 0"
  using uint_lt2p [of a] by (simp_all add: word_uint_eq_iff uint_shift32 uint_ucast_64_32 uint_ucast_32_64)

lemma s_sub_none: "s_sub_loop as [] 0 = as"
  by (induction "as") (simp_all add: ucast_ucast_digit)

lemma length_s_sub [simp]: "length (s_sub_loop as bs t) = length as"
  by (induction "as" bs t rule: s_sub_loop.induct) (simp_all add: Let_def)

lemma s_sub_one:
  "a \<noteq> 0 \<Longrightarrow> s_sub_loop (a # as) [] 1 = (a - 1) # as"
  "s_sub_loop (0 # as) [] 1 = 0xffffffff # s_sub_loop as [] 0xffffffff"
proof -
  assume "a \<noteq> 0"
  then have a: "1 \<le> uint a" by (simp add: word_neq_0_conv word_less_def)
  then have u: "uint (ucast a - 1 :: u64) = uint a - 1" by (simp add: uint_sub_wrap uint_ucast_32_64)
  have "drop_bit 32 (ucast a - 1 :: u64) = 0" using a uint_lt2p [of a] by (simp add: word_uint_eq_iff uint_shift32 u)
  moreover have "ucast (ucast a - 1 :: u64) = a - 1"
    using a uint_lt2p [of a] unfolding word_uint_eq_iff uint_ucast_64_32 u by (simp add: uint_sub_wrap)
  ultimately show "s_sub_loop (a # as) [] 1 = (a - 1) # as" by (simp add: s_sub_none)
next
  have "ucast (0 - 1 :: u64) = (0xffffffff :: u32)" "drop_bit 32 (0 - 1 :: u64) = 0xffffffff"
    by code_simp+
  then show "s_sub_loop (0 # as) [] 1 = 0xffffffff # s_sub_loop as [] 0xffffffff" unfolding s_sub_loop.simps Let_def ucast_0 by simp
qed

declare s_sub_loop.simps [simp del]

text \<open>When the borrow is not lost: it has no zero digit to cross, or at most one digit to go to.\<close>

definition borrow_fits :: "u32 list \<Rightarrow> u32 list \<Rightarrow> bool" where
  "borrow_fits as bs \<longleftrightarrow> wval bs \<le> wval (take (length bs) as) \<or> length as \<le> length bs + 1 \<or> as ! length bs \<noteq> 0"

lemma s_sub_value:
  assumes "wval bs \<le> wval as" and "length bs \<le> length as"
  shows "wval (s_sub_loop as bs 0) = wval as - wval bs \<longleftrightarrow> borrow_fits as bs"
proof -
  let ?n = "length bs" and ?P = "2 ^ (32 * length bs) :: int"
  obtain r D where r: "s_sub_loop as bs 0 = r @ s_sub_loop (drop ?n as) [] (of_bool D)" "length r = ?n"
    "wval r - ?P * of_bool D = wval (take ?n as) - wval bs"
    using s_sub_low [OF assms(2), of False] by (auto simp: of_bool_def)
  have D: "D \<longleftrightarrow> wval (take ?n as) < wval bs"
  proof -
    have "wval r < ?P" using wval_less [of r] r(2) by simp
    then show ?thesis using r(3) wval_ge [of r] by (cases D) auto
  qed
  have v: "wval as = wval (take ?n as) + ?P * wval (drop ?n as)" using wval_take_drop [OF assms(2)] by simp
  have w: "wval (s_sub_loop as bs 0) = wval r + ?P * wval (s_sub_loop (drop ?n as) [] (of_bool D))"
    by (simp add: r(1,2) wval_append)
  have iff: "wval (s_sub_loop as bs 0) = wval as - wval bs
    \<longleftrightarrow> wval (s_sub_loop (drop ?n as) [] (of_bool D)) = wval (drop ?n as) - of_bool D" (is "_ \<longleftrightarrow> ?S = _")
  proof -
    have "wval (s_sub_loop as bs 0) - (wval as - wval bs) = ?P * (?S - (wval (drop ?n as) - of_bool D))"
      using r(3) unfolding w v by (simp add: algebra_simps)
    then show ?thesis by (metis (no_types) diff_eq_diff_eq eq_iff_diff_eq_0 mult_eq_0_iff power_eq_0_iff zero_neq_numeral)
  qed
  show ?thesis
  proof (cases D)
    case False
    then show ?thesis using D iff by (simp add: s_sub_none borrow_fits_def)
  next
    case True
    have "0 < wval (drop ?n as)" using True D assms(1) v by (cases "wval (drop ?n as) = 0"; simp; use wval_ge [of "drop ?n as"] in linarith)
    then obtain a as' where "as": "drop ?n as = a # as'" by (cases "drop ?n as") auto
    have a: "a = as ! ?n" "length as = ?n + 1 + length as'" using "as"
      by (metis drop_eq_Nil hd_drop_conv_nth leI list.distinct(1) list.sel(1)) (metis "as" assms(2) length_Cons length_drop le_add_diff_inverse add.assoc plus_1_eq_Suc)
    show ?thesis
    proof (cases "a = 0")
      case False
      then have "uint (a - 1) = uint a - 1" by (auto simp: uint_sub_wrap word_neq_0_conv word_less_def)
      then show ?thesis using False True iff a D by (simp add: "as" s_sub_one borrow_fits_def)
    next
      case True0: True
      have "as' \<noteq> []" using \<open>0 < wval (drop ?n as)\<close> "as" True0 by auto
      then obtain b as2 where b: "as' = b # as2" by (cases as') auto
      have "?S \<noteq> wval (drop ?n as) - 1"
      proof
        assume e: "?S = wval (drop ?n as) - 1"
        let ?W = "s_sub_loop as2 [] (drop_bit 32 (ucast b - 0xffffffff))"
        have "ucast (ucast b - 0xffffffff :: u64) = (b + 1 :: u32)"
        proof -
          have "uint (ucast (ucast b - 0xffffffff :: u64) :: u32) = (uint b - 0xffffffff) mod 2 ^ 32"
            unfolding uint_ucast_64_32 uint_word_ariths uint_ucast_32_64 by (simp add: mod_mod_cancel)
          also have "\<dots> = (uint b + 1) mod 2 ^ 32" by (simp add: mod_eq_dvd_iff)
          finally show ?thesis by (simp add: word_uint_eq_iff uint_word_ariths)
        qed
        then have "s_sub_loop (b # as2) [] 0xffffffff = (b + 1) # ?W" by (simp only: s_sub_loop.simps Let_def)
        then have "?S = 2 ^ 32 - 1 + 2 ^ 32 * (uint (b + 1) + 2 ^ 32 * wval ?W)"
          using True True0 by (simp add: "as" b s_sub_one)
        then have "uint (b + 1) = uint b - 1 + 2 ^ 32 * (wval as2 - wval ?W)" using e True0 by (simp add: "as" b)
        then have "uint (b + 1) mod 2 ^ 32 = (uint b - 1) mod 2 ^ 32" by (simp only: mod_mult_self2)
        then have "(uint b + 1) mod 2 ^ 32 = (uint b - 1) mod 2 ^ 32" by (simp add: uint_word_ariths)
        then have "(2 ^ 32 :: int) dvd 2" by (simp only: mod_eq_dvd_iff) simp
        then show False by (auto dest: zdvd_imp_le)
      qed
      moreover have "\<not> borrow_fits as bs" using D True True0 a b by (simp add: borrow_fits_def)
      ultimately show ?thesis using iff True by simp
    qed
  qed
qed

lemma s_pstm_sub_run:
  assumes "pm_wf a" and "pm_wf b" and "pm_wf c" and "pm_used b \<le> pm_used a"
  obtains r where "s_pstm_sub a b c = Inr r" and "pstm_ok r" and "pm_abs r = wval (s_sub_loop (pm_digits a) (pm_digits b) 0)"
    and "pm_sign r = (pm_sign c \<and> pm_abs r \<noteq> 0)" and "pm_alloc r = max (pm_used a) (pm_alloc c)"
proof -
  let ?ds = "s_sub_loop (pm_digits a) (pm_digits b) 0"
  let ?c = "pstm_grow c (pm_used a)"
  have w: "pm_wf ?c" "pm_alloc ?c = max (pm_used a) (pm_alloc c)" "pm_sign ?c = pm_sign c" using assms(3) by (simp_all add: pstm_grow_spec)
  have "length ?ds \<le> pm_alloc ?c" using w assms by simp
  note st = pm_store_spec [OF w(1) this]
  note cl = pstm_clamp_spec [OF st(1)]
  have "s_pstm_sub a b c = Inr (pstm_clamp (pm_store ?c ?ds))" using assms(4) by (simp add: s_pstm_sub_def Let_def)
  then show thesis by (rule that) (use cl st w in auto)
qed

lemma s_pstm_sub_spec:
  assumes "pm_wf a" and "pm_wf b" and "pm_wf c" and "pm_used b \<le> pm_used a" and "pm_abs b \<le> pm_abs a" and "borrow_fits (pm_digits a) (pm_digits b)"
  obtains r where "s_pstm_sub a b c = Inr r" and "pstm_ok r" and "pm_abs r = pm_abs a - pm_abs b"
    and "pm_sign r = (pm_sign c \<and> pm_abs a \<noteq> pm_abs b)" and "pm_alloc r = max (pm_used a) (pm_alloc c)"
proof -
  have v: "wval (s_sub_loop (pm_digits a) (pm_digits b) 0) = pm_abs a - pm_abs b"
    using s_sub_value [of "pm_digits b" "pm_digits a"] assms by (simp add: pm_abs_def)
  obtain r where r: "s_pstm_sub a b c = Inr r" "pstm_ok r" "pm_abs r = pm_abs a - pm_abs b" "pm_sign r = (pm_sign c \<and> pm_abs r \<noteq> 0)"
    "pm_alloc r = max (pm_used a) (pm_alloc c)" using s_pstm_sub_run [OF assms(1-4)] unfolding v .
  then show thesis using that by simp
qed

lemma s_pstm_sub_ok:
  assumes "pstm_ok a" and "pstm_ok b" and "pm_wf c" and "pm_abs b \<le> pm_abs a" and "borrow_fits (pm_digits a) (pm_digits b)"
  obtains r where "s_pstm_sub a b c = Inr r" and "pstm_ok r" and "pm_abs r = pm_abs a - pm_abs b"
    and "pm_sign r = (pm_sign c \<and> pm_abs a \<noteq> pm_abs b)" and "pm_alloc r = max (pm_used a) (pm_alloc c)"
proof -
  have "pm_used b \<le> pm_used a" using assms pm_used_le [of b "pm_used a"] pm_abs_upper [of a] by simp
  then show thesis using s_pstm_sub_spec [of a b c] that assms by auto
qed

lemma borrow_fits_used: "pm_wf a \<Longrightarrow> pm_wf b \<Longrightarrow> pm_used a \<le> pm_used b + 1 \<Longrightarrow> borrow_fits (pm_digits a) (pm_digits b)"
  by (simp add: borrow_fits_def)

lemma borrow_fits_zero: "borrow_fits as []" by (simp add: borrow_fits_def)

section \<open>Doubling\<close>

lemma mul_2_loop_value:
  "mul_2_loop ws (of_bool C) = (ds, r) \<Longrightarrow>
   length ds = length ws \<and> (\<exists>D. r = of_bool D \<and> wval ds + 2 ^ (32 * length ws) * of_bool D = 2 * wval ws + of_bool C)"
proof (induction ws arbitrary: C ds r)
  case (Cons w ws)
  obtain D where D: "drop_bit 31 w = of_bool D" "uint (push_bit 1 w OR of_bool C) + 2 ^ 32 * of_bool D = 2 * uint w + of_bool C"
  proof
    show d: "drop_bit 31 w = of_bool (uint w div 2 ^ 31 = 1)"
    proof -
      have "uint w div 2 ^ 31 < 2" using uint_lt2p [of w] by simp
      moreover have "0 \<le> uint w div 2 ^ 31" by (simp add: pos_imp_zdiv_nonneg_iff)
      ultimately show ?thesis unfolding word_uint_eq_iff drop_bit_eq_div uint_div by auto
    qed
    have "push_bit 1 w OR of_bool C = push_bit 1 w + of_bool C"
      by (rule disjunctive_add [symmetric]) (simp only: bit_push_bit_iff bit_of_bool_iff, auto)
    moreover have "uint (push_bit 1 w + of_bool C) = 2 * uint w + of_bool C - 2 ^ 32 * of_bool (uint w div 2 ^ 31 = 1)"
    proof -
      have p: "uint (push_bit 1 w) = 2 * uint w - 2 ^ 32 * of_bool (uint w div 2 ^ 31 = 1)"
      proof -
        have a: "push_bit 1 w = w + w" by (simp only: push_bit_eq_mult power_one_right mult_2_right)
        have b: "uint w div 2 ^ 31 = 1 \<longleftrightarrow> 2 ^ 31 \<le> uint w"
        proof -
          have "uint w div 2 ^ 31 = 1" if "2 ^ 31 \<le> uint w"
            using uint_lt2p [of w] that by (intro int_div_pos_eq [of _ _ _ "uint w - 2 ^ 31"]) simp_all
          then show ?thesis by (cases "2 ^ 31 \<le> uint w") simp_all
        qed
        show ?thesis unfolding a b uint_add_wrap by auto
      qed
      have "even (uint (push_bit 1 w))" unfolding p by simp
      then have "uint (push_bit 1 w) + 1 < 2 ^ 32" using uint_lt2p [of "push_bit 1 w"] by (auto elim!: evenE)
      then show ?thesis using p by (auto simp: uint_add_wrap)
    qed
    ultimately show "uint (push_bit 1 w OR of_bool C) + 2 ^ 32 * of_bool (uint w div 2 ^ 31 = 1) = 2 * uint w + of_bool C" by simp
  qed
  obtain ds' where ds: "mul_2_loop ws (of_bool D) = (ds', r)" "ds = (push_bit 1 w OR of_bool C) # ds'"
    using Cons.prems D(1) by (auto simp: Let_def split: prod.splits)
  from Cons.IH [OF ds(1)] obtain E where ih: "length ds' = length ws" "r = of_bool E"
    "wval ds' + 2 ^ (32 * length ws) * of_bool E = 2 * wval ws + of_bool D" by blast
  have "2 ^ 32 * (wval ds' + 2 ^ (32 * length ws) * of_bool E) = 2 ^ 32 * (2 * wval ws + of_bool D)" by (simp only: ih(3))
  then have "wval ds + 2 ^ (32 * length (w # ws)) * of_bool E = 2 * wval (w # ws) + of_bool C"
    using D(2) by (simp add: ds(2) power_add distrib_left mult.assoc)
  then show ?case using ih(1,2) ds(2) by (intro conjI exI [of _ E]) simp_all
qed auto

lemma pstm_mul_2_spec:
  assumes "pstm_ok a" and "pm_wf b" and "pm_used a < 4095"
  shows "pstm_ok (pstm_mul_2 a b)" and "pm_abs (pstm_mul_2 a b) = 2 * pm_abs a" and "pm_sign (pstm_mul_2 a b) = pm_sign a"
    and "pm_alloc b \<le> pm_alloc (pstm_mul_2 a b)"
proof -
  obtain ds r where l: "mul_2_loop (pm_digits a) (of_bool False) = (ds, r)" by fastforce
  obtain D where d: "length ds = pm_used a" "r = of_bool D" "wval ds + 2 ^ (32 * pm_used a) * of_bool D = 2 * pm_abs a"
    using mul_2_loop_value [OF l] assms(1) by (auto simp: pm_abs_def)
  let ?ds = "if D then ds @ [1] else ds" and ?b = "pstm_grow b (pm_used a + 1)"
  have w: "pm_wf ?b" "pm_alloc ?b = max (pm_used a + 1) (pm_alloc b)" using assms(2) by (simp_all add: pstm_grow_spec)
  have "length ?ds \<le> pm_alloc ?b" using w d by auto
  note st = pm_store_spec [OF w(1) this]
  have e: "pstm_mul_2 a b = (pm_store ?b ?ds)\<lparr>pm_sign := pm_sign a\<rparr>"
    using l d(2) assms(3) unfolding pstm_mul_2_def Let_def pstm_grow_guard by simp
  have v: "wval ?ds = 2 * pm_abs a" using d by (auto simp: wval_append)
  have low: "2 ^ (32 * (pm_used a - 1)) \<le> pm_abs a" if "0 < pm_used a" using pm_abs_lower [OF assms(1) that] .
  have zero: "pm_abs a = 0" if "pm_used a = 0" using assms(1) that pm_used_zero by blast
  show "pstm_ok (pstm_mul_2 a b)"
  proof (rule pstm_ok_by_value)
    show "pm_wf (pstm_mul_2 a b)" using st by (simp add: e)
    have "2 ^ (32 * (length ?ds - 1)) \<le> 2 * pm_abs a" if "0 < length ?ds"
    proof (cases D)
      case True
      then have "2 ^ (32 * pm_used a) \<le> 2 * pm_abs a" using d(3) wval_ge [of ds] by (simp del: wval_ge)
      then show ?thesis using True d(1) by simp
    next
      case False
      then show ?thesis using that low d(1) pm_abs_ge [of a] by (simp del: pm_abs_ge)
    qed
    then show "2 ^ (32 * (pm_used (pstm_mul_2 a b) - 1)) \<le> pm_abs (pstm_mul_2 a b)" if "0 < pm_used (pstm_mul_2 a b)"
      using that st(3,5) v unfolding e by simp
    show "pm_sign (pstm_mul_2 a b) = PSTM_ZPOS" if "pm_used (pstm_mul_2 a b) = 0"
      using that st d assms(1) by (auto simp: e pstm_ok_def split: if_splits)
  qed
  show "pm_abs (pstm_mul_2 a b) = 2 * pm_abs a" "pm_sign (pstm_mul_2 a b) = pm_sign a" "pm_alloc b \<le> pm_alloc (pstm_mul_2 a b)"
    using st w v by (simp_all add: e)
qed

section \<open>Properties\<close>

text \<open>C18: \<^verbatim>\<open>s_pstm_sub\<close>, for numbers without leading zeros of which the second is not larger, always
  returns such a number, and this number is the difference exactly when the borrow out of the digits of the second
  number does not meet a zero digit of the first one that has another digit above it: the second
  loop keeps the whole upper half of its 64-bit difference as the borrow instead of one bit.\<close>

theorem s_pstm_sub_exact:
  assumes "pstm_ok a" and "pstm_ok b" and "pm_wf c" and "pm_abs b \<le> pm_abs a"
  shows "\<exists>r. s_pstm_sub a b c = Inr r \<and> pstm_ok r \<and> (pm_abs r = pm_abs a - pm_abs b \<longleftrightarrow> borrow_fits (pm_digits a) (pm_digits b))"
proof -
  have u: "pm_used b \<le> pm_used a" using assms pm_used_le [of b "pm_used a"] pm_abs_upper [of a] by simp
  have "wval (s_sub_loop (pm_digits a) (pm_digits b) 0) = pm_abs a - pm_abs b \<longleftrightarrow> borrow_fits (pm_digits a) (pm_digits b)"
    using s_sub_value [of "pm_digits b" "pm_digits a"] assms u by (simp add: pm_abs_def)
  then show ?thesis using s_pstm_sub_run [OF pstm_ok_wf [OF assms(1)] pstm_ok_wf [OF assms(2)] assms(3) u] by metis
qed

definition demo_num :: "u32 list \<Rightarrow> pstm_int" where
  "demo_num ds = \<lparr>pm_used = length ds, pm_alloc = length ds + 2, pm_sign = PSTM_ZPOS, pm_dp = ds @ [0, 0]\<rparr>"

lemma demo_num:
  "pm_wf (demo_num ds)" "ds \<noteq> [] \<Longrightarrow> last ds \<noteq> 0 \<Longrightarrow> pstm_ok (demo_num ds)" "pm_abs (demo_num ds) = wval ds" "pm_digits (demo_num ds) = ds"
  "pm_sign (demo_num ds) = PSTM_ZPOS" "pm_used (demo_num ds) = length ds" "pm_alloc (demo_num ds) = length ds + 2"
proof -
  show w: "pm_wf (demo_num ds)" by (rule pm_wfI) (simp_all add: demo_num_def numeral_2_eq_2)
  show d: "pm_digits (demo_num ds) = ds" by (simp add: pm_digits_def demo_num_def)
  show "pm_abs (demo_num ds) = wval ds" by (simp add: pm_abs_def d)
  show "pstm_ok (demo_num ds)" if "ds \<noteq> []" "last ds \<noteq> 0" using that w d by (simp add: pstm_ok_iff) (simp add: demo_num_def)
qed (simp_all add: demo_num_def)

text \<open>\<^verbatim>\<open>2 ^ 64 - 1\<close> comes out wrong.\<close>

theorem s_pstm_sub_exact_witness:
  "\<exists>r. s_pstm_sub (demo_num [0, 0, 1]) (demo_num [1]) (demo_num []) = Inr r \<and> pm_abs r \<noteq> 2 ^ 64 - 1"
proof -
  have "\<not> borrow_fits [0, 0, 1] [1]" by (simp add: borrow_fits_def)
  moreover have "pstm_ok (demo_num [0, 0, 1])" "pstm_ok (demo_num [1])" "pm_wf (demo_num [])" "pm_abs (demo_num [1]) \<le> pm_abs (demo_num [0, 0, 1])"
    by (simp_all add: demo_num)
  ultimately show ?thesis using s_pstm_sub_exact [of "demo_num [0, 0, 1]" "demo_num [1]" "demo_num []"] by (auto simp: demo_num)
qed

end
