(* ===== verification/Tls_Pstm_Digits.thy ===== *)
theory Tls_Pstm_Digits
  imports Tls_Pstm_Value
begin

text \<open>
  The operations on the digits of one number: shifts by bits, products with a digit, the number of bits, powers of two, the
  inverse of the lowest digit and \<^verbatim>\<open>R mod P\<close> for the Montgomery form.
\<close>

unbundle bit_operations_syntax

section \<open>Shifts by bits\<close>

lemma uint_drop32: "uint (drop_bit n (w :: u32)) = uint w div 2 ^ n"
proof -
  have "take_bit 32 (uint w) = uint w" using uint_lt2p [of w] by (simp add: take_bit_int_eq_self)
  moreover have "uint (drop_bit n w) = drop_bit n (take_bit 32 (uint w))" by (simp only: unsigned_drop_bit_eq) simp
  ultimately have "uint (drop_bit n w) = drop_bit n (uint w)" by (simp only:)
  then show ?thesis by (simp only: drop_bit_eq_div)
qed

lemma uint_push_u32: "uint (push_bit n (w :: u32)) = (2 ^ n * uint w) mod 2 ^ 32"
proof -
  have "uint (push_bit n w) = take_bit 32 (push_bit n (uint w))" by (simp only: unsigned_push_bit_eq) simp
  then show ?thesis by (simp only: push_bit_eq_mult take_bit_eq_mod mult.commute)
qed

lemma int_div_less: "x < a * b \<Longrightarrow> 0 < b \<Longrightarrow> x div b < a" for x a b :: int
proof (rule ccontr)
  assume x: "x < a * b" "0 < b" and "\<not> x div b < a"
  then have "a * b \<le> x div b * b" by (intro mult_right_mono) simp_all
  moreover have "x div b * b + x mod b = x" "0 \<le> x mod b" using x by simp_all
  ultimately show False using x(1) by linarith
qed

lemma shl_digit:
  fixes w c :: u32
  assumes "b < 32" and "uint c < 2 ^ b"
  shows "uint (push_bit b w + c) + 2 ^ 32 * uint (drop_bit (32 - b) w) = 2 ^ b * uint w + uint c"
    and "uint (drop_bit (32 - b) w) < 2 ^ b"
proof -
  define P Q :: int where "P = 2 ^ b" and "Q = 2 ^ (32 - b)"
  have PQ: "P * Q = 2 ^ 32" using assms(1) by (simp add: P_def Q_def flip: power_add)
  have pos: "0 < P" "0 < Q" by (simp_all add: P_def Q_def)
  have hi: "uint (drop_bit (32 - b) w) = uint w div Q" by (simp add: uint_drop32 Q_def)
  have "uint (push_bit b w) = (P * uint w) mod 2 ^ 32" by (simp add: uint_push_u32 P_def)
  also have "\<dots> = P * (uint w mod Q)" unfolding PQ [symmetric] by (rule mult_mod_right [symmetric])
  finally have lo: "uint (push_bit b w) = P * (uint w mod Q)" .
  have "P * (uint w mod Q) \<le> P * (Q - 1)" using pos by (intro mult_left_mono) simp_all
  moreover have "P * (Q - 1) = 2 ^ 32 - P" unfolding right_diff_distrib PQ by simp
  ultimately have "P * (uint w mod Q) + uint c < 2 ^ 32" using assms(2) unfolding P_def [symmetric] by linarith
  then have "uint (push_bit b w + c) = P * (uint w mod Q) + uint c" by (simp add: uint_add_wrap lo)
  moreover have "P * (uint w mod Q) + P * (Q * (uint w div Q)) = P * uint w" by (simp only: distrib_left [symmetric] mod_mult_div_eq)
  ultimately show "uint (push_bit b w + c) + 2 ^ 32 * uint (drop_bit (32 - b) w) = 2 ^ b * uint w + uint c"
    unfolding hi PQ [symmetric] P_def [symmetric] mult.assoc by linarith
  have "uint w < Q * P" using uint_lt2p [of w] unfolding mult.commute [of Q P] PQ by simp
  then show "uint (drop_bit (32 - b) w) < 2 ^ b" unfolding hi P_def [symmetric] using pos
    by (intro int_div_less) (simp_all only: mult.commute)
qed

lemma shl_loop_value:
  assumes "b < 32"
  shows "shl_loop b ws c = (ds, c') \<Longrightarrow> uint c < 2 ^ b \<Longrightarrow>
    length ds = length ws \<and> uint c' < 2 ^ b \<and> wval ds + 2 ^ (32 * length ws) * uint c' = 2 ^ b * wval ws + uint c"
proof (induction ws arbitrary: c ds)
  case (Cons w ws)
  obtain ds' where ds: "shl_loop b ws (drop_bit (32 - b) w) = (ds', c')" "ds = (push_bit b w + c) # ds'"
    using Cons.prems(1) by (auto simp: Let_def split: prod.splits)
  note d = shl_digit [OF assms Cons.prems(2), of w]
  have ih: "length ds' = length ws" "uint c' < 2 ^ b"
    "wval ds' + 2 ^ (32 * length ws) * uint c' = 2 ^ b * wval ws + uint (drop_bit (32 - b) w)"
    using Cons.IH [OF ds(1) d(2)] by simp_all
  have "2 ^ 32 * (wval ds' + 2 ^ (32 * length ws) * uint c') = 2 ^ 32 * (2 ^ b * wval ws + uint (drop_bit (32 - b) w))"
    by (simp only: ih(3))
  then have "wval ds + 2 ^ (32 * length (w # ws)) * uint c' = 2 ^ b * wval (w # ws) + uint c"
    using d(1) by (simp add: ds(2) power_add distrib_left mult.assoc mult.left_commute)
  then show ?case using ih ds by simp
qed auto

text \<open>Digits with one more digit for a carry, or none when it is zero.\<close>

lemma wval_carry: "wval (if c \<noteq> 0 then ds @ [c] else ds) = wval ds + 2 ^ (32 * length ds) * uint c" for c :: u32
  by (simp add: wval_append)

lemma pstm_mul_2d_spec:
  assumes "pstm_ok a" and "b < 32" and "pm_used a < 4096"
  shows "pstm_ok (pstm_mul_2d a b a)" and "pm_abs (pstm_mul_2d a b a) = 2 ^ b * pm_abs a" and "pm_sign (pstm_mul_2d a b a) = pm_sign a"
    and "pm_alloc a \<le> pm_alloc (pstm_mul_2d a b a)"
proof -
  have w: "pm_wf a" using assms(1) by simp
  have *: "pstm_ok (pstm_mul_2d a b a) \<and> pm_abs (pstm_mul_2d a b a) = 2 ^ b * pm_abs a
    \<and> pm_sign (pstm_mul_2d a b a) = (pm_sign a \<and> 2 ^ b * pm_abs a \<noteq> 0) \<and> pm_alloc a \<le> pm_alloc (pstm_mul_2d a b a)"
  proof (cases "b = 0")
    case True
    then show ?thesis using pstm_clamp_spec [OF w] by (simp add: pstm_mul_2d_def pstm_copy_same [OF w])
  next
    case False
    obtain ds c where l: "shl_loop b (pm_digits a) 0 = (ds, c)" by fastforce
    have d: "length ds = pm_used a" "wval ds + 2 ^ (32 * pm_used a) * uint c = 2 ^ b * pm_abs a"
      using shl_loop_value [OF assms(2) l] w by (simp_all add: pm_abs_def)
    let ?ds = "if c \<noteq> 0 then ds @ [c] else ds"
    let ?a = "if c \<noteq> 0 \<and> pm_used a = pm_alloc a then pstm_grow a (pm_alloc a + 1) else a"
    have e: "pstm_mul_2d a b a = pstm_clamp (pm_store ?a ?ds)"
      using False l assms(2,3) by (simp add: pstm_mul_2d_def pstm_copy_same [OF w] Let_def)
    have g: "pm_wf ?a" "pm_alloc a \<le> pm_alloc ?a" "pm_sign ?a = pm_sign a" using w by (simp_all add: pstm_grow_spec)
    have "length ?ds \<le> pm_alloc ?a" using w d(1) pm_used_alloc [OF w] by (auto simp: pstm_grow_spec)
    note st = pm_store_spec [OF g(1) this]
    have "wval ?ds = 2 ^ b * pm_abs a" using d by (simp only: wval_carry)
    then show ?thesis using pstm_clamp_spec [OF st(1)] st g unfolding e by simp
  qed
  then show "pstm_ok (pstm_mul_2d a b a)" "pm_abs (pstm_mul_2d a b a) = 2 ^ b * pm_abs a" "pm_alloc a \<le> pm_alloc (pstm_mul_2d a b a)"
    by blast+
  show "pm_sign (pstm_mul_2d a b a) = pm_sign a"
    using * assms(1) pm_used_zero [OF assms(1)] by (auto simp: pstm_ok_def)
qed

section \<open>Products with a digit\<close>

lemma mul_d_loop_value:
  "mul_d_loop ws b c = (ds, c') \<Longrightarrow> uint c < 2 ^ 32 \<Longrightarrow>
    length ds = length ws \<and> uint c' < 2 ^ 32 \<and> wval ds + 2 ^ (32 * length ws) * uint c' = uint b * wval ws + uint c"
proof (induction ws arbitrary: c ds)
  case (Cons w ws)
  define t where "t = ucast w * ucast b + c"
  obtain ds' where ds: "mul_d_loop ws b (drop_bit 32 t) = (ds', c')" "ds = ucast t # ds'"
    using Cons.prems(1) by (auto simp: Let_def t_def split: prod.splits)
  have t: "uint t = uint w * uint b + uint c"
    unfolding t_def uint_add_wrap uint_mult_digits using mult_digits [of w b] Cons.prems(2) by simp
  have "uint t < 2 ^ 64" using uint_lt2p [of t] by simp
  then have h: "uint (drop_bit 32 t) < 2 ^ 32" by (simp add: uint_shift32)
  have ih: "length ds' = length ws" "uint c' < 2 ^ 32" "wval ds' + 2 ^ (32 * length ws) * uint c' = uint b * wval ws + uint t div 2 ^ 32"
    using Cons.IH [OF ds(1) h] by (simp_all add: uint_shift32)
  have *: "2 ^ 32 * (wval ds' + 2 ^ (32 * length ws) * uint c') = 2 ^ 32 * (uint b * wval ws + uint t div 2 ^ 32)" by (simp only: ih(3))
  have "wval ds + 2 ^ (32 * length (w # ws)) * uint c' = uint t mod 2 ^ 32 + 2 ^ 32 * (uint t div 2 ^ 32) + 2 ^ 32 * (uint b * wval ws)"
  proof -
    have "wval ds = uint t mod 2 ^ 32 + 2 ^ 32 * wval ds'" by (simp add: ds(2) uint_ucast_64_32)
    moreover have "2 ^ (32 * length (w # ws)) * uint c' = 2 ^ 32 * (2 ^ (32 * length ws) * uint c')" by (simp add: power_add)
    ultimately show ?thesis using * unfolding distrib_left by linarith
  qed
  then have "wval ds + 2 ^ (32 * length (w # ws)) * uint c' = uint b * wval (w # ws) + uint c"
    unfolding mod_mult_div_eq t by (simp add: distrib_left mult_ac)
  then show ?case using ih ds by simp
qed auto

lemma pstm_mul_d_spec:
  assumes "pm_wf a" and "pm_wf c" and "pm_used a < 4096"
  shows "pstm_ok (pstm_mul_d a b c)" and "pm_abs (pstm_mul_d a b c) = uint b * pm_abs a"
    and "pm_sign (pstm_mul_d a b c) = (pm_sign a \<and> uint b * pm_abs a \<noteq> 0)" and "pm_alloc (pstm_mul_d a b c) = max (pm_used a + 1) (pm_alloc c)"
proof -
  obtain ds t where l: "mul_d_loop (pm_digits a) b 0 = (ds, t)" by fastforce
  have d: "length ds = pm_used a" "uint t < 2 ^ 32" "wval ds + 2 ^ (32 * pm_used a) * uint t = uint b * pm_abs a"
    using mul_d_loop_value [OF l] assms(1) by (simp_all add: pm_abs_def)
  let ?ds = "if (ucast t :: u32) \<noteq> 0 then ds @ [ucast t] else ds" and ?c = "(pstm_grow c (pm_used a + 1))\<lparr>pm_sign := pm_sign a\<rparr>"
  have t: "uint (ucast t :: u32) = uint t" using d(2) by (simp add: uint_ucast_64_32)
  then have tz: "(ucast t :: u32) = 0 \<longleftrightarrow> t = 0" by (simp add: word_uint_eq_iff)
  have e: "pstm_mul_d a b c = pstm_clamp (pm_store ?c ?ds)"
    using l assms(3) unfolding pstm_mul_d_def Let_def pstm_grow_guard tz by simp
  have g: "pm_wf ?c" "pm_alloc ?c = max (pm_used a + 1) (pm_alloc c)" "pm_sign ?c = pm_sign a" using assms(2) by (simp_all add: pstm_grow_spec)
  have "length ?ds \<le> pm_alloc ?c" using d(1) g(2) by auto
  note st = pm_store_spec [OF g(1) this]
  have "wval ?ds = uint b * pm_abs a" using d t by (simp only: wval_carry)
  then show "pstm_ok (pstm_mul_d a b c)" "pm_abs (pstm_mul_d a b c) = uint b * pm_abs a"
    "pm_sign (pstm_mul_d a b c) = (pm_sign a \<and> uint b * pm_abs a \<noteq> 0)" "pm_alloc (pstm_mul_d a b c) = max (pm_used a + 1) (pm_alloc c)"
    using pstm_clamp_spec [OF st(1)] st g unfolding e by simp_all
qed

section \<open>Shifts to the right\<close>

lemma shr_digit:
  fixes w r :: u32
  assumes "0 < D" and "D < 32" and "uint r < 2 ^ D"
  shows "uint (drop_bit D w OR push_bit (32 - D) r) = uint w div 2 ^ D + 2 ^ (32 - D) * uint r"
    and "uint (w AND (push_bit D 1 - 1)) = uint w mod 2 ^ D"
proof -
  have "drop_bit D w OR push_bit (32 - D) r = drop_bit D w + push_bit (32 - D) r"
    by (rule disjunctive_add [symmetric]) (auto simp: bit_simps dest: bit_imp_le_length)
  moreover have p: "uint (push_bit (32 - D) r) = 2 ^ (32 - D) * uint r"
  proof -
    have "2 ^ (32 - D) * uint r < 2 ^ (32 - D) * 2 ^ D" using assms(3) by simp
    then have "2 ^ (32 - D) * uint r < 2 ^ 32" using assms(2) by (simp flip: power_add)
    then show ?thesis by (simp add: uint_push_u32)
  qed
  moreover have "uint w div 2 ^ D + 2 ^ (32 - D) * uint r < 2 ^ 32"
  proof -
    have "uint w < 2 ^ (32 - D) * 2 ^ D" using uint_lt2p [of w] assms(2) by (simp flip: power_add)
    then have "uint w div 2 ^ D < 2 ^ (32 - D)" by (rule int_div_less) simp
    moreover have "2 ^ (32 - D) * uint r \<le> 2 ^ (32 - D) * (2 ^ D - 1)" using assms(3) by simp
    ultimately have "uint w div 2 ^ D + 2 ^ (32 - D) * uint r < 2 ^ (32 - D) * 2 ^ D" by (simp add: right_diff_distrib)
    then show ?thesis using assms(2) by (simp flip: power_add)
  qed
  ultimately show "uint (drop_bit D w OR push_bit (32 - D) r) = uint w div 2 ^ D + 2 ^ (32 - D) * uint r"
    by (simp add: uint_add_wrap uint_drop32)
  have "w AND (push_bit D 1 - 1) = take_bit D w" by (simp add: take_bit_eq_mask mask_eq_decr_exp push_bit_eq_mult)
  moreover have "uint (take_bit D w) = take_bit D (uint w)" by (rule unsigned_take_bit_eq)
  ultimately show "uint (w AND (push_bit D 1 - 1)) = uint w mod 2 ^ D" by (simp only: take_bit_eq_mod [of D "uint w"])
qed

lemma shr_loop_value:
  assumes "0 < D" and "D < 32"
  shows "shr_loop D ws = (ds, r) \<Longrightarrow> length ds = length ws \<and> wval ds = wval ws div 2 ^ D \<and> uint r = wval ws mod 2 ^ D"
proof (induction ws arbitrary: ds r)
  case (Cons w ws)
  obtain ds' r' where ds: "shr_loop D ws = (ds', r')" "ds = (drop_bit D w OR push_bit (32 - D) r') # ds'" "r = w AND (push_bit D 1 - 1)"
    using Cons.prems by (auto simp: Let_def split: prod.splits)
  have ih: "length ds' = length ws" "wval ds' = wval ws div 2 ^ D" "uint r' = wval ws mod 2 ^ D" using Cons.IH [OF ds(1)] by simp_all
  define P Q :: int where "P = 2 ^ D" and "Q = 2 ^ (32 - D)"
  have PQ: "2 ^ 32 = P * Q" using assms(2) by (simp add: P_def Q_def flip: power_add)
  have "uint r' < 2 ^ D" using ih(3) by simp
  note d = shr_digit [OF assms this, folded P_def Q_def]
  have "wval ds = uint w div P + Q * (wval ws mod P) + P * Q * (wval ws div P)" using ds(2) d ih PQ by (simp add: P_def)
  also have "\<dots> = uint w div P + Q * (wval ws mod P + P * (wval ws div P))" by (simp only: distrib_left mult_ac ac_simps)
  also have "\<dots> = uint w div P + Q * wval ws" by (simp only: mod_mult_div_eq)
  also have "\<dots> = (uint w + P * (Q * wval ws)) div P" by (simp add: P_def)
  moreover have ww: "wval (w # ws) = uint w + P * (Q * wval ws)" using PQ by (simp add: mult.assoc [symmetric])
  ultimately have "wval ds = wval (w # ws) div P" by (simp only:)
  moreover have "uint r = wval (w # ws) mod P" using d(2) ds(3) unfolding ww by simp
  ultimately show ?case using ih ds by (simp add: P_def)
qed auto

lemma pstm_div_2d_spec:
  assumes "pstm_ok a" and "n < 32"
  obtains r where "pstm_div_2d a n a None = Inr (r, None)" and "pstm_ok r" and "pm_abs r = pm_abs a div 2 ^ n"
    and "pm_sign r = (pm_sign a \<and> pm_abs r \<noteq> 0)" and "pm_alloc r = pm_alloc a"
proof (cases "n = 0")
  case True
  have w: "pm_wf a" using assms(1) by simp
  show thesis
    by (rule that [of a]) (use assms True pstm_copy_same [OF w] pm_used_zero [OF assms(1)] in \<open>auto simp: pstm_div_2d_def pstm_ok_def\<close>)
next
  case False
  have w: "pm_wf a" using assms(1) by simp
  obtain ds r where l: "shr_loop n (pm_digits a) = (ds, r)" by fastforce
  have d: "length ds = pm_used a" "wval ds = pm_abs a div 2 ^ n" using shr_loop_value [OF _ assms(2) l] False w by (simp_all add: pm_abs_def)
  have "length ds \<le> pm_alloc a" using d(1) pm_used_alloc [OF w] by simp
  note st = pm_store_spec [OF w this]
  have "pstm_div_2d a n a None = Inr (pstm_clamp (pm_store a ds), None)"
    using False assms(2) l by (simp add: pstm_div_2d_def pstm_copy_same [OF w] Let_def)
  then show thesis by (rule that) (use pstm_clamp_spec [OF st(1)] st d in auto)
qed

section \<open>The size in bits\<close>

lemma digit_bits_bounds: "uint q < 2 ^ digit_bits q \<and> (q \<noteq> 0 \<longrightarrow> 0 < digit_bits q \<and> 2 ^ (digit_bits q - 1) \<le> uint q)"
proof (induction q rule: digit_bits.induct)
  case (1 q)
  show ?case
  proof (cases "q = 0")
    case False
    let ?r = "drop_bit 1 q"
    have b: "digit_bits q = Suc (digit_bits ?r)" using False digit_bits.simps [of q] by (simp add: word_neq_0_conv)
    have r: "uint ?r = uint q div 2" using uint_drop32 [of 1 q] by simp
    have ih: "uint ?r < 2 ^ digit_bits ?r" "?r \<noteq> 0 \<longrightarrow> 0 < digit_bits ?r \<and> 2 ^ (digit_bits ?r - 1) \<le> uint ?r"
      using "1.IH" False by (simp_all add: word_neq_0_conv)
    have "uint q < 2 ^ digit_bits q" using ih(1) unfolding r b by simp
    moreover have "2 ^ (digit_bits q - 1) \<le> uint q"
    proof (cases "?r = 0")
      case True
      then have "digit_bits ?r = 0" by (simp add: digit_bits.simps)
      moreover have "1 \<le> uint q" using False by (simp add: word_neq_0_conv word_less_def)
      ultimately show ?thesis by (simp add: b)
    next
      case f: False
      then obtain k where "digit_bits ?r = Suc k" using ih(2) by (cases "digit_bits ?r") auto
      then show ?thesis using f ih(2) unfolding r b by simp
    qed
    ultimately show ?thesis using b by simp
  qed (simp add: digit_bits.simps)
qed

lemma digit_bits_le: "digit_bits q \<le> 32"
proof (rule ccontr)
  assume "\<not> digit_bits q \<le> 32"
  then have "q \<noteq> 0" by (auto simp: digit_bits.simps [of 0])
  moreover have "(2 :: int) ^ 32 \<le> 2 ^ (digit_bits q - 1)"
    by (rule power_increasing) (use \<open>\<not> digit_bits q \<le> 32\<close> in simp_all)
  ultimately show False using digit_bits_bounds [of q] uint_lt2p [of q] by simp
qed

lemma pm_abs_top:
  assumes "pm_wf a" and "pm_used a = Suc n"
  shows "pm_abs a = wval (take n (pm_dp a)) + 2 ^ (32 * n) * uint (pm_dp a ! n)" and "wval (take n (pm_dp a)) < 2 ^ (32 * n)"
  using wval_take_Suc [of n "pm_dp a"] wval_less [of "take n (pm_dp a)"] assms pm_used_alloc [of a] by (simp_all add: pm_abs_def pm_digits_def)

lemma pstm_count_bits_spec:
  assumes "pstm_ok a" and "0 < pm_used a"
  shows "0 < pstm_count_bits a" and "2 ^ (pstm_count_bits a - 1) \<le> pm_abs a" and "pm_abs a < 2 ^ pstm_count_bits a"
proof -
  obtain n where n: "pm_used a = Suc n" using assms(2) by (cases "pm_used a") auto
  let ?q = "pm_dp a ! n"
  have "?q \<noteq> 0" using assms n by (simp add: pstm_ok_def)
  then have q: "0 < digit_bits ?q" "2 ^ (digit_bits ?q - 1) \<le> uint ?q" "uint ?q + 1 \<le> 2 ^ digit_bits ?q" using digit_bits_bounds [of ?q] by auto
  have c: "pstm_count_bits a = 32 * n + digit_bits ?q" using n by (simp add: pstm_count_bits_def)
  note v = pm_abs_top [OF pstm_ok_wf [OF assms(1)] n]
  show "0 < pstm_count_bits a" using q c by simp
  have "32 * n + digit_bits ?q - 1 = 32 * n + (digit_bits ?q - 1)" using q(1) by simp
  then have "(2 :: int) ^ (pstm_count_bits a - 1) = 2 ^ (32 * n) * 2 ^ (digit_bits ?q - 1)" unfolding c by (simp add: power_add)
  also have "\<dots> \<le> 2 ^ (32 * n) * uint ?q" using q(2) by simp
  finally show "2 ^ (pstm_count_bits a - 1) \<le> pm_abs a" using v(1) wval_ge [of "take n (pm_dp a)"] by linarith
  have "pm_abs a < 2 ^ (32 * n) * (uint ?q + 1)" using v unfolding distrib_left by linarith
  also have "\<dots> \<le> 2 ^ (32 * n) * 2 ^ digit_bits ?q" using q(3) by (intro mult_left_mono) simp_all
  finally show "pm_abs a < 2 ^ pstm_count_bits a" unfolding c by (simp add: power_add)
qed

lemma pstm_count_bits_unique:
  assumes "pstm_ok a" and "2 ^ k \<le> pm_abs a" and "pm_abs a < 2 ^ Suc k"
  shows "pstm_count_bits a = Suc k"
proof -
  have "0 < pm_used a" using assms(1,2) pm_used_zero [of a] by (metis gr0I less_le_not_le zero_less_numeral zero_less_power)
  note b = pstm_count_bits_spec [OF assms(1) this]
  have "\<not> pstm_count_bits a \<le> k" using b(3) assms(2) power_increasing [of "pstm_count_bits a" k "2 :: int"] by fastforce
  moreover have "\<not> Suc k \<le> pstm_count_bits a - 1" using b(2) assms(3) power_increasing [of "Suc k" "pstm_count_bits a - 1" "2 :: int"] by fastforce
  ultimately show ?thesis by linarith
qed

section \<open>Montgomery setup\<close>

lemma and_4_low: "(16 * h + y :: u32) AND 4 = y AND 4"
proof -
  have low: "uint (z AND 4) = (uint z mod 8) AND 4" for z :: u32
  proof -
    have "mask 3 AND 4 = (4 :: int)" by (simp add: mask_eq_exp_minus_1)
    then have "uint (z AND 4) = uint z AND (mask 3 AND 4)" by (simp only: unsigned_and_eq) simp
    also have "\<dots> = take_bit 3 (uint z) AND 4" by (simp only: take_bit_eq_mask and.assoc)
    finally show ?thesis by (simp add: take_bit_eq_mod)
  qed
  have "uint (16 * h + y) mod 8 = (16 * uint h + uint y) mod 8"
    by (simp add: uint_word_ariths mod_mod_cancel mod_add_left_eq)
  moreover have "(16 * uint h + uint y) mod 8 = (uint y + 8 * (2 * uint h)) mod 8" by (simp add: add.commute)
  ultimately have "uint (16 * h + y) mod 8 = uint y mod 8" by (simp only: mod_mult_self2)
  then show ?thesis unfolding word_uint_eq_iff low by simp
qed

lemma first_inverse:
  fixes b :: u32
  assumes "odd b"
  obtains f where "(push_bit 1 ((b + 2) AND 4) + b) * b = 1 - 16 * f"
proof -
  define h where "h = (word_of_int (uint b div 16) :: u32)"
  define r where "r = uint b mod 16"
  have b: "b = 16 * h + word_of_int r"
  proof -
    have "word_of_int (16 * (uint b div 16) + uint b mod 16) = b" by simp
    then show ?thesis unfolding h_def r_def wi_hom_add [symmetric] wi_hom_mult [symmetric] by simp
  qed
  have "odd r" using assms unfolding r_def odd_uint [symmetric] by presburger
  moreover have "0 \<le> r" "r < 16" by (simp_all add: r_def)
  ultimately have "r \<in> {1, 3, 5, 7, 9, 11, 13, 15}" by (auto; presburger)
  have s: "(b + 2) AND 4 = (word_of_int r + 2) AND 4" using and_4_low [of h "word_of_int r + 2"] by (simp add: b add.assoc)
  define s where "s = (push_bit 1 ((word_of_int r + 2) AND 4) + word_of_int r :: u32)"
  have "s * word_of_int r = 1 - 16 * (if r = 1 then 0 else if r = 3 then - 2 else if r = 5 then - 4 else if r = 7 then - 3
      else if r = 9 then - 5 else if r = 11 then - 13 else if r = 13 then - 17 else - 14)"
    using \<open>r \<in> _\<close> unfolding s_def by auto
  then obtain g where g: "s * word_of_int r = 1 - 16 * g" by blast
  have "(push_bit 1 ((b + 2) AND 4) + b) * b = (16 * h + s) * (16 * h + word_of_int r)"
    unfolding s by (subst b) (simp only: b s_def ac_simps)
  also have "\<dots> = 1 - 16 * (g - 16 * h * h - h * word_of_int r - h * s)"
    using g by (simp add: algebra_simps)
  finally show thesis by (rule that)
qed

lemma newton_step: "x * b = 1 - e \<Longrightarrow> x * (2 - b * x) * b = 1 - e * e" for x b e :: "'a :: comm_ring_1"
proof -
  assume e: "x * b = 1 - e"
  have "x * (2 - b * x) * b = (x * b) * (2 - x * b)" by (simp add: algebra_simps)
  then show ?thesis unfolding e by (simp add: algebra_simps)
qed

lemma pstm_montgomery_setup_spec:
  assumes "pm_wf a" and "odd (pm_abs a)"
  obtains rho where "pstm_montgomery_setup a = Inr rho" and "rho * (pm_dp a ! 0) = - 1"
proof -
  have u: "0 < pm_used a"
  proof (rule ccontr)
    assume "\<not> 0 < pm_used a"
    then show False using assms(2) by (simp add: pm_abs_def pm_digits_def)
  qed
  then obtain b ds where dp: "pm_dp a = b # ds" using pm_used_alloc [OF assms(1)] length_pm_dp [OF assms(1)]
    by (cases "pm_dp a") auto
  have "odd (wval (pm_dp a))" using assms by (simp add: wval_dp)
  then have ob: "odd b" by (simp add: dp odd_uint)
  let ?x0 = "push_bit 1 ((b + 2) AND 4) + b"
  obtain f where f: "?x0 * b = 1 - 16 * f" using first_inverse [OF ob] by blast
  define x1 x2 x3 where "x1 = ?x0 * (2 - b * ?x0)" and "x2 = x1 * (2 - b * x1)" and "x3 = x2 * (2 - b * x2)"
  have "x3 * b = 1 - 4294967296 * (f * f * f * f * f * f * f * f)"
    using newton_step [OF newton_step [OF newton_step [OF f, folded x1_def], folded x2_def], folded x3_def] by (simp add: mult_ac)
  moreover have "(4294967296 :: u32) = 0" by (simp add: word_uint_eq_iff)
  ultimately have x3: "x3 * b = 1" by (simp only: mult_zero_left diff_zero)
  define rho where "rho = (ucast (push_bit 32 1 - ucast x3 :: u64) :: u32)"
  have "rho = - x3"
  proof -
    have "uint (push_bit 32 1 - ucast x3 :: u64) = 2 ^ 32 - uint x3"
      using uint_lt2p [of x3] by (simp add: uint_sub_wrap uint_ucast_32_64)
    then have "uint rho = (2 ^ 32 - uint x3) mod 2 ^ 32" unfolding rho_def uint_ucast_64_32 by (simp only:)
    also have "\<dots> = (- uint x3) mod 2 ^ 32" by (simp add: mod_eq_dvd_iff)
    finally show ?thesis by (simp add: word_uint_eq_iff uint_word_ariths)
  qed
  then have "rho * b = - 1" using x3 by simp
  moreover have "pstm_montgomery_setup a = Inr rho"
    using ob u pm_used_alloc [OF assms(1)] assms(1)
    by (simp add: dp pstm_montgomery_setup_def ps_within_def Let_def rho_def x3_def x2_def x1_def and_one_eq odd_iff_mod_2_eq_one)
  ultimately show thesis using that dp by simp
qed

lemma pstm_2expt_spec:
  assumes "pm_wf a" and "b < 4096 * 32"
  obtains r where "pstm_2expt a b = Inr r" and "pstm_ok r" and "pm_abs r = 2 ^ b" and "pm_sign r = PSTM_ZPOS" and "pm_alloc a \<le> pm_alloc r"
proof -
  let ?z = "b div 32" and ?d = "push_bit (b mod 32) 1 :: u32"
  let ?c = "pstm_grow (pstm_zero a) (?z + 1)"
  have z: "?z < 4096" using assms(2) by (simp add: less_mult_imp_div_less)
  have zw: "pm_wf (pstm_zero a)" using assms(1) by (intro pstm_ok_wf) simp
  have c: "pm_wf ?c" "pm_alloc ?c = max (?z + 1) (pm_alloc a)" "pm_used ?c = 0" "pm_sign ?c = PSTM_ZPOS"
    using zw assms(1) by (simp_all add: pstm_grow_spec)
  have dp: "pm_dp ?c = replicate (pm_alloc ?c) 0"
    using pm_dp_digits [OF c(1)] c(3) by (simp add: pm_digits_def)
  define r where "r = ?c\<lparr>pm_used := ?z + 1, pm_dp := (pm_dp ?c)[?z := ?d]\<rparr>"
  have e: "pstm_2expt a b = Inr r"
    using z assms(1) by (auto simp: pstm_2expt_def Let_def r_def pstm_grow_def)
  have nth: "pm_dp r = replicate ?z 0 @ ?d # replicate (pm_alloc ?c - (?z + 1)) 0"
  proof -
    have "pm_alloc ?c = ?z + Suc (pm_alloc ?c - (?z + 1))" using c(2) by simp
    then have "pm_dp ?c = replicate ?z 0 @ 0 # replicate (pm_alloc ?c - (?z + 1)) 0" unfolding dp by (metis replicate_Suc replicate_add)
    then show ?thesis by (simp add: r_def list_update_append)
  qed
  have alloc: "pm_alloc r = max (?z + 1) (pm_alloc a)" "pm_used r = ?z + 1" "pm_sign r = PSTM_ZPOS" using c by (simp_all add: r_def)
  have w: "pm_wf r" by (rule pm_wfI) (use c(2) alloc in \<open>simp_all add: nth\<close>)
  have d: "uint ?d = 2 ^ (b mod 32)"
  proof -
    have "(2 :: int) ^ (b mod 32) < 2 ^ 32" by (intro power_strict_increasing) simp_all
    then show ?thesis using uint_push_u32 [of "b mod 32" 1] by simp
  qed
  have v: "pm_abs r = 2 ^ b"
  proof -
    have "pm_digits r = replicate ?z 0 @ [?d]" by (simp add: pm_digits_def nth alloc)
    then have "pm_abs r = 2 ^ (32 * ?z) * 2 ^ (b mod 32)" unfolding pm_abs_def by (simp only: wval_append wval.simps d) simp
    also have "\<dots> = 2 ^ b" unfolding power_add [symmetric] by simp
    finally show ?thesis .
  qed
  have "pstm_ok r"
  proof (rule pstm_ok_by_value [OF w])
    have "32 * ?z \<le> b" by simp
    then show "2 ^ (32 * (pm_used r - 1)) \<le> pm_abs r" unfolding v alloc by (simp add: power_increasing)
  qed (simp add: alloc)
  then show thesis using that e v alloc by simp
qed

lemma pstm_set_one:
  assumes "pm_wf a" and "0 < pm_alloc a"
  obtains r where "pstm_set a 1 = Inr r" and "pstm_ok r" and "pm_abs r = 1" and "pm_sign r = PSTM_ZPOS" and "pm_alloc r = pm_alloc a"
proof -
  obtain r where r: "pstm_2expt a 0 = Inr r" "pstm_ok r" "pm_abs r = 2 ^ 0" "pm_sign r = PSTM_ZPOS" using pstm_2expt_spec [OF assms(1), of 0] by auto
  have "pstm_set a 1 = pstm_2expt a 0"
    using assms by (simp add: pstm_set_def pstm_2expt_def ps_within_def Let_def pstm_zero_def)
  moreover have "pm_alloc r = pm_alloc a" using r(1) assms by (auto simp: pstm_2expt_def Let_def pstm_zero_def)
  ultimately show thesis using that r by simp
qed

lemma norm_loop_spec:
  assumes "pstm_ok b" and "pm_used b < 4095"
  shows "pstm_ok a \<Longrightarrow> pm_sign a = PSTM_ZPOS \<Longrightarrow> pm_abs a < pm_abs b \<Longrightarrow>
    \<exists>r. norm_loop b n a = Inr r \<and> pstm_ok r \<and> pm_sign r = PSTM_ZPOS \<and> pm_abs r = (2 ^ n * pm_abs a) mod pm_abs b \<and> pm_alloc a \<le> pm_alloc r"
proof (induction n arbitrary: a)
  case 0
  then show ?case by simp
next
  case (Suc n)
  have u: "pm_used a \<le> pm_used b"
    using pm_used_le [OF Suc.prems(1), of "pm_used b"] Suc.prems(3) pm_abs_upper [OF pstm_ok_wf [OF assms(1)]] by simp
  let ?c = "pstm_mul_2 a a"
  have "pm_used a < 4095" using u assms(2) by simp
  note m = pstm_mul_2_spec [OF Suc.prems(1) pstm_ok_wf [OF Suc.prems(1)] this]
  have double: "(2 ^ Suc n * pm_abs a) mod pm_abs b = (2 ^ n * (2 * pm_abs a)) mod pm_abs b" by (simp add: mult_ac)
  show ?case
  proof (cases "pm_abs b \<le> 2 * pm_abs a")
    case True
    have "pm_abs ?c < 2 ^ (32 * (pm_used b + 1))"
      using m(2) Suc.prems(3) pm_abs_upper [OF pstm_ok_wf [OF assms(1)]] pm_abs_ge [of a] by (simp add: power_add del: pm_abs_ge)
    then have "borrow_fits (pm_digits ?c) (pm_digits b)" using pm_used_le [OF m(1)] assms(1) m(1) by (intro borrow_fits_used) simp_all
    moreover have "pm_abs b \<le> pm_abs ?c" using True m(2) by simp
    ultimately obtain r where r: "s_pstm_sub ?c b ?c = Inr r" "pstm_ok r" "pm_abs r = pm_abs ?c - pm_abs b"
      "pm_sign r = (pm_sign ?c \<and> pm_abs ?c \<noteq> pm_abs b)" "pm_alloc r = max (pm_used ?c) (pm_alloc ?c)"
      using s_pstm_sub_ok [OF m(1) assms(1) pstm_ok_wf [OF m(1)]] by metis
    have "pm_abs r < pm_abs b" "pm_sign r = PSTM_ZPOS" using r(3,4) m Suc.prems(2,3) by simp_all
    from Suc.IH [OF r(2) this(2,1)] obtain r' where r': "norm_loop b n r = Inr r'" "pstm_ok r'" "pm_sign r' = PSTM_ZPOS"
      "pm_abs r' = (2 ^ n * pm_abs r) mod pm_abs b" "pm_alloc r \<le> pm_alloc r'" by blast
    have "2 ^ n * pm_abs r = 2 ^ n * (2 * pm_abs a) - pm_abs b * 2 ^ n" unfolding r(3) m(2) by (simp add: algebra_simps)
    then have "(2 ^ n * pm_abs r) mod pm_abs b = (2 ^ n * (2 * pm_abs a)) mod pm_abs b" by (simp add: mod_diff_right_eq [symmetric])
    then show ?thesis using r r' m True pstm_cmp_mag_spec [OF m(1) assms(1)] unfolding double by (auto simp: Let_def sgn_if)
  next
    case False
    have "pm_abs ?c < pm_abs b" "pm_sign ?c = PSTM_ZPOS" using False m Suc.prems(2) by simp_all
    from Suc.IH [OF m(1) this(2,1)] show ?thesis using m pstm_cmp_mag_spec [OF m(1) assms(1)] False unfolding double by (auto simp: Let_def)
  qed
qed

lemma pstm_montgomery_calc_normalization_spec:
  assumes "pm_wf a" and "0 < pm_alloc a" and "pstm_ok b" and "odd (pm_abs b)" and "1 < pm_abs b" and "pm_used b < 4095"
  obtains r where "pstm_montgomery_calc_normalization a b = Inr r" and "pstm_ok r" and "pm_sign r = PSTM_ZPOS"
    and "pm_abs r = 2 ^ (32 * pm_used b) mod pm_abs b" and "pm_alloc a \<le> pm_alloc r"
proof (cases "pm_used b > 1")
  case True
  obtain n where n: "pm_used b = Suc n" using True by (cases "pm_used b") auto
  define q where "q = digit_bits (pm_dp b ! n)"
  have "pm_dp b ! n \<noteq> 0" using assms(3) n by (simp add: pstm_ok_def)
  then have q: "0 < q" "q \<le> 32" using digit_bits_bounds [of "pm_dp b ! n"] digit_bits_le by (simp_all add: q_def)
  have cb: "pstm_count_bits b = 32 * n + q" using n by (simp add: pstm_count_bits_def q_def)
  have bits: "(if (32 * n + q) mod 32 = 0 then 32 else (32 * n + q) mod 32) = q" using q by (cases "q = 32") simp_all
  have "32 * n + q - 1 < 4096 * 32" using assms(6) n q by simp
  then obtain s where s: "pstm_2expt a (32 * n + q - 1) = Inr s" "pstm_ok s" "pm_abs s = 2 ^ (32 * n + q - 1)" "pm_sign s = PSTM_ZPOS"
    "pm_alloc a \<le> pm_alloc s" using pstm_2expt_spec [OF assms(1)] by metis
  have "2 ^ (32 * n + q - 1) \<le> pm_abs b" using pstm_count_bits_spec [OF assms(3)] n unfolding cb by simp
  moreover have "even ((2 :: int) ^ (32 * n + q - 1))" using q True n by simp
  ultimately have "pm_abs s < pm_abs b" using assms(4) s(3) by (metis order_le_imp_less_or_eq)
  from norm_loop_spec [OF assms(3,6) s(2,4) this, of "32 - (q - 1)"] obtain r where r: "norm_loop b (32 - (q - 1)) s = Inr r" "pstm_ok r"
    "pm_sign r = PSTM_ZPOS" "pm_abs r = (2 ^ (32 - (q - 1)) * pm_abs s) mod pm_abs b" "pm_alloc s \<le> pm_alloc r" by blast
  have "32 - (q - 1) + (32 * n + q - 1) = 32 * pm_used b" using n q by simp
  then have "2 ^ (32 - (q - 1)) * pm_abs s = 2 ^ (32 * pm_used b)" unfolding s(3) power_add [symmetric] by simp
  moreover have "pstm_montgomery_calc_normalization a b = ps_bind (pstm_2expt a ((pm_used b - 1) * 32 + q - 1)) (norm_loop b (32 - (q - 1)))"
    unfolding pstm_montgomery_calc_normalization_def Let_def cb bits using True by (simp only: if_True)
  moreover have "(pm_used b - 1) * 32 = 32 * n" using n by simp
  ultimately have "pstm_montgomery_calc_normalization a b = Inr r" "pm_abs r = 2 ^ (32 * pm_used b) mod pm_abs b"
    by (simp_all only: s(1) ps_bind.simps r(1,4))
  then show thesis using that r s(5) by simp
next
  case False
  then have n: "pm_used b = 1" using assms(3,5) pm_used_zero [of b] by (cases "pm_used b") auto
  obtain s where s: "pstm_set a 1 = Inr s" "pstm_ok s" "pm_abs s = 1" "pm_sign s = PSTM_ZPOS" "pm_alloc s = pm_alloc a"
    using pstm_set_one [OF assms(1,2)] by metis
  have "pm_abs s < pm_abs b" using s assms(5) by simp
  from norm_loop_spec [OF assms(3,6) s(2,4) this, of 32] obtain r where r: "norm_loop b 32 s = Inr r" "pstm_ok r"
    "pm_sign r = PSTM_ZPOS" "pm_abs r = (2 ^ 32 * pm_abs s) mod pm_abs b" "pm_alloc s \<le> pm_alloc r" by blast
  then show thesis using that s n by (simp add: pstm_montgomery_calc_normalization_def Let_def)
qed

end
