(* ===== verification/Tls_Pstm_Mont.thy ===== *)
theory Tls_Pstm_Mont
  imports Tls_Pstm_Expt Tls_Pstm_Digits
begin

text \<open>
  The products of \<^verbatim>\<open>pstm_mul_comba\<close> and \<^verbatim>\<open>pstm_sqr_comba\<close>, column by column, are exact, and
  \<^verbatim>\<open>pstm_montgomery_reduce\<close> divides by a power of the base modulo an odd number.
\<close>

unbundle bit_operations_syntax

section \<open>Products\<close>

lemma less_drop: "0 \<le> a \<Longrightarrow> a + x < m \<Longrightarrow> x < m" for a x m :: int by linarith

fun cv :: "comba \<Rightarrow> int" where "cv (c0, c1, c2) = uint c0 + 2 ^ 32 * uint c1 + 2 ^ 64 * uint c2"

lemma cv_ge: "0 \<le> cv c" by (cases c) simp

lemma muladd_value:
  assumes "cv c + uint i * uint j < 2 ^ 96"
  shows "cv (muladd (i, j) c) = cv c + uint i * uint j"
proof -
  obtain c0 c1 c2 where c: "c = (c0, c1, c2)" by (cases c) auto
  define t :: u64 where "t = ucast c0 + ucast i * ucast j"
  define s where "s = ucast c1 + drop_bit 32 t"
  have t: "uint t = uint c0 + uint i * uint j"
    unfolding t_def uint_add_wrap uint_mult_digits uint_ucast_32_64 using mult_digits [of i j] uint_lt2p [of c0] by simp
  have "uint t < 2 ^ 64" using uint_lt2p [of t] by simp
  then have "uint t div 2 ^ 32 < 2 ^ 32" by simp
  then have s: "uint s = uint c1 + uint t div 2 ^ 32"
    unfolding s_def uint_add_wrap uint_ucast_32_64 uint_shift32 using uint_lt2p [of c1] by simp
  define h where "h = (ucast (drop_bit 32 s) :: u32)"
  have "uint s < 2 ^ 64" using uint_lt2p [of s] by simp
  then have "uint s div 2 ^ 32 < 2 ^ 32" "0 \<le> uint s div 2 ^ 32" by (simp_all add: pos_imp_zdiv_nonneg_iff)
  then have h: "uint h = uint s div 2 ^ 32" unfolding h_def uint_ucast_64_32 uint_shift32 by (rule mod_pos_pos_trivial [rotated])
  have m: "muladd (i, j) c = (ucast t, ucast s, c2 + h)" by (simp add: c t_def s_def h_def Let_def)
  have total: "uint t mod 2 ^ 32 + 2 ^ 32 * (uint s mod 2 ^ 32) + 2 ^ 64 * (uint c2 + uint h) = cv c + uint i * uint j"
  proof -
    have "2 ^ 32 * (uint s mod 2 ^ 32) + 2 ^ 64 * uint h = 2 ^ 32 * (uint s mod 2 ^ 32 + 2 ^ 32 * (uint s div 2 ^ 32))"
      unfolding h distrib_left mult.assoc [symmetric] power_add [symmetric] by (simp only: arith_simps)
    also have "\<dots> = 2 ^ 32 * uint s" by (simp only: mod_mult_div_eq)
    finally have "2 ^ 32 * (uint s mod 2 ^ 32) + 2 ^ 64 * uint h = 2 ^ 32 * uint c1 + 2 ^ 32 * (uint t div 2 ^ 32)" by (simp add: s)
    then show ?thesis using mod_mult_div_eq [of "uint t" "2 ^ 32"] t by (simp only: c cv.simps distrib_left)
  qed
  have "0 \<le> uint t mod 2 ^ 32 + 2 ^ 32 * (uint s mod 2 ^ 32)" by simp
  then have "2 ^ 64 * (uint c2 + uint h) < 2 ^ 96" by (rule less_drop) (simp only: total assms)
  then have "uint (c2 + h) = uint c2 + uint h" by (simp add: uint_add_wrap)
  then show ?thesis using total by (simp add: m uint_ucast_64_32)
qed

lemma fold_muladd_value:
  "cv c + int (length ps) * 2 ^ 64 \<le> 2 ^ 96 \<Longrightarrow> cv (fold muladd ps c) = cv c + (\<Sum>(i, j)\<leftarrow>ps. uint i * uint j)"
proof (induction ps arbitrary: c)
  case (Cons p ps)
  obtain i j where p: "p = (i, j)" by (cases p)
  have ij: "uint i * uint j < 2 ^ 64" using mult_digits [of i j] by simp
  have "cv c + 2 ^ 64 \<le> 2 ^ 96" using Cons.prems by (simp add: distrib_right; use mult_nonneg_nonneg [of "int (length ps)" "2 ^ 64"] in linarith)
  then have m: "cv (muladd (i, j) c) = cv c + uint i * uint j" using ij by (intro muladd_value) linarith
  have "cv (muladd (i, j) c) + int (length ps) * 2 ^ 64 \<le> 2 ^ 96" using Cons.prems ij unfolding m by (simp add: distrib_right)
  then show ?case using Cons.IH [of "muladd (i, j) c"] by (simp add: p m)
qed simp

lemma cv_forward: "cv (comba_forward c) = cv c div 2 ^ 32" "cv (comba_forward c) < 2 ^ 64" "uint (fst c) = cv c mod 2 ^ 32"
proof -
  obtain c0 c1 c2 where c: "c = (c0, c1, c2)" by (cases c) auto
  have e: "cv c = uint c0 + 2 ^ 32 * (uint c1 + 2 ^ 32 * uint c2)" by (simp add: c)
  have l: "0 \<le> uint c0" "uint c0 < 2 ^ 32" using uint_lt2p [of c0] by simp_all
  show "cv (comba_forward c) = cv c div 2 ^ 32" "uint (fst c) = cv c mod 2 ^ 32"
    unfolding e digit_split [OF l] by (simp_all add: c)
  show "cv (comba_forward c) < 2 ^ 64" using uint_lt2p [of c1] uint_lt2p [of c2] by (simp add: c)
qed

text \<open>Digits of a sum of columns, when every column adds its sum to the carries.\<close>

lemma comba_digits:
  fixes step :: "nat \<Rightarrow> comba \<Rightarrow> comba" and digits :: "nat list \<Rightarrow> comba \<Rightarrow> u32 list" and col :: "nat \<Rightarrow> int"
  assumes nil: "\<And>c. digits [] c = []" and cons: "\<And>i is c. digits (i # is) c = fst (step i (comba_forward c)) # digits is (step i (comba_forward c))"
    and step: "\<And>i c. i < N \<Longrightarrow> cv c < 2 ^ 64 \<Longrightarrow> cv (step i c) = cv c + col i"
  shows "k + n \<le> N \<Longrightarrow> length (digits [k..<k + n] c) = n \<and>
    wval (digits [k..<k + n] c) = (cv (comba_forward c) + (\<Sum>j < n. col (k + j) * 2 ^ (32 * j))) mod 2 ^ (32 * n)"
proof (induction n arbitrary: k c)
  case 0
  then show ?case by (simp add: nil)
next
  case (Suc n)
  define d where "d = step k (comba_forward c)"
  define S where "S = (\<Sum>j < n. col (Suc k + j) * 2 ^ (32 * j))"
  have d: "cv d = cv (comba_forward c) + col k" using step [of k] Suc.prems cv_forward(2) by (simp add: d_def)
  have ih: "length (digits [Suc k..<Suc k + n] d) = n" "wval (digits [Suc k..<Suc k + n] d) = (cv (comba_forward d) + S) mod 2 ^ (32 * n)"
    using Suc.IH [of "Suc k" d] Suc.prems by (simp_all add: S_def)
  have e: "digits [k..<k + Suc n] c = fst d # digits [Suc k..<Suc k + n] d" by (simp add: upt_conv_Cons cons d_def del: upt_Suc)
  have sum: "(\<Sum>j < Suc n. col (k + j) * 2 ^ (32 * j)) = col k + 2 ^ 32 * S"
    by (simp add: S_def sum.lessThan_Suc_shift sum_distrib_left power_add mult.left_commute del: sum.lessThan_Suc)
  have "wval (digits [k..<k + Suc n] c) = cv d mod 2 ^ 32 + 2 ^ 32 * ((cv d div 2 ^ 32 + S) mod 2 ^ (32 * n))"
    unfolding e wval.simps ih(2) cv_forward by simp
  also have "\<dots> = (cv d + 2 ^ 32 * S) mod (2 ^ 32 * 2 ^ (32 * n))"
  proof -
    have "(cv d + 2 ^ 32 * S) mod (2 ^ 32 * 2 ^ (32 * n)) = 2 ^ 32 * ((cv d + 2 ^ 32 * S) div 2 ^ 32 mod 2 ^ (32 * n)) + (cv d + 2 ^ 32 * S) mod 2 ^ 32"
      by (rule zmod_zmult2_eq) simp
    then show ?thesis by (simp add: add.commute)
  qed
  finally show ?case using ih(1) unfolding e d sum by (simp add: power_add add.assoc)
qed

lemma mul_columns_digits:
  assumes "length a + length b < 2 ^ 31"
  shows "length (mul_columns a b [0..<n] (0, 0, 0)) = n \<and>
    wval (mul_columns a b [0..<n] (0, 0, 0)) = (\<Sum>k < n. (\<Sum>(i, j)\<leftarrow>mul_column a b k. uint i * uint j) * 2 ^ (32 * k)) mod 2 ^ (32 * n)"
proof -
  have s: "cv (fold muladd (mul_column a b i) c) = cv c + (\<Sum>(i, j)\<leftarrow>mul_column a b i. uint i * uint j)" if "cv c < 2 ^ 64" for i c
  proof (rule fold_muladd_value)
    have "int (length (mul_column a b i)) * 2 ^ 64 \<le> 2 ^ 31 * 2 ^ 64"
      using assms by (intro mult_right_mono) (simp_all add: mul_column_def Let_def)
    then show "cv c + int (length (mul_column a b i)) * 2 ^ 64 \<le> 2 ^ 96" using that by simp
  qed
  show ?thesis
    using comba_digits [where step = "\<lambda>i. fold muladd (mul_column a b i)" and digits = "mul_columns a b" and N = n and k = 0 and n = n and c = "(0, 0, 0)",
      OF _ _ s] by (simp add: Let_def)
qed

definition pairs_of :: "nat \<Rightarrow> nat \<Rightarrow> nat \<Rightarrow> nat set" where
  "pairs_of la lb k = {k + 1 - lb..<min la (k + 1)}"

lemma mul_column_sum:
  "(\<Sum>(i, j)\<leftarrow>mul_column a b k. uint i * uint j) = (\<Sum>i \<in> pairs_of (length a) (length b) k. uint (a ! i) * uint (b ! (k - i)))"
proof -
  define ty tx iy where "ty = min (k + 1) (length b)" and "tx = k + 1 - ty" and "iy = min (length a - tx) ty"
  have set: "pairs_of (length a) (length b) k = (\<lambda>iz. tx + iz) ` {..<iy}"
  proof -
    have "pairs_of (length a) (length b) k = {tx..<tx + iy}" unfolding pairs_of_def tx_def iy_def ty_def by auto
    then show ?thesis by (simp add: image_add_atLeastLessThan lessThan_atLeast0 add.commute)
  qed
  have "(\<Sum>(i, j)\<leftarrow>mul_column a b k. uint i * uint j) = (\<Sum>iz < iy. uint (a ! (tx + iz)) * uint (b ! (ty - 1 - iz)))"
  proof -
    have "mul_column a b k = map (\<lambda>iz. (a ! (tx + iz), b ! (ty - 1 - iz))) [0..<iy]"
      unfolding mul_column_def Let_def ty_def tx_def iy_def ..
    then show ?thesis by (simp add: comp_def interv_sum_list_conv_sum_set_nat lessThan_atLeast0)
  qed
  also have "\<dots> = (\<Sum>iz < iy. uint (a ! (tx + iz)) * uint (b ! (k - (tx + iz))))"
    by (intro sum.cong refl) (auto simp: tx_def ty_def intro!: arg_cong2 [where f = "(*)"] arg_cong [where f = uint] arg_cong [where f = "(!) b"])
  also have "\<dots> = (\<Sum>i \<in> pairs_of (length a) (length b) k. uint (a ! i) * uint (b ! (k - i)))"
    unfolding set by (subst sum.reindex) (simp_all add: inj_on_def)
  finally show ?thesis .
qed

lemma columns_value:
  "(\<Sum>k < length a + length b. (\<Sum>i \<in> pairs_of (length a) (length b) k. uint (a ! i) * uint (b ! (k - i))) * 2 ^ (32 * k)) = wval a * wval b"
  for a b :: "u32 list"
proof -
  let ?f = "\<lambda>i j. uint (a ! i) * uint (b ! j) * 2 ^ (32 * (i + j))" and ?la = "length a" and ?lb = "length b"
  have "(\<Sum>k < ?la + ?lb. (\<Sum>i \<in> pairs_of ?la ?lb k. uint (a ! i) * uint (b ! (k - i))) * 2 ^ (32 * k))
      = (\<Sum>k < ?la + ?lb. \<Sum>i \<in> pairs_of ?la ?lb k. ?f i (k - i))"
    unfolding sum_distrib_right pairs_of_def by (intro sum.cong refl) auto
  also have "\<dots> = (\<Sum>(k, i) \<in> (SIGMA k : {..<?la + ?lb}. pairs_of ?la ?lb k). ?f i (k - i))"
    by (rule sum.Sigma) (auto simp: pairs_of_def)
  also have "\<dots> = (\<Sum>(i, j) \<in> {..<?la} \<times> {..<?lb}. ?f i j)"
    by (rule sum.reindex_bij_witness [where i = "\<lambda>(i, j). (i + j, i)" and j = "\<lambda>(k, i). (i, k - i)"]) (auto simp: pairs_of_def)
  also have "\<dots> = (\<Sum>i < ?la. \<Sum>j < ?lb. ?f i j)"
    by (rule sum.cartesian_product [symmetric])
  also have "\<dots> = wval a * wval b"
    unfolding wval_sum sum_product
    by (intro sum.cong refl) (simp add: power_add distrib_left mult_ac)
  finally show ?thesis .
qed

lemma product_digits: "(wval a * wval b) mod 2 ^ (32 * (length a + length b)) = wval a * wval b" for a b :: "u32 list"
proof -
  have "wval a * wval b < 2 ^ (32 * length a) * 2 ^ (32 * length b)" using wval_less [of a] wval_less [of b] by (intro mult_strict_mono) simp_all
  then show ?thesis by (simp add: power_add distrib_left)
qed

lemma pstm_mul_comba_spec:
  assumes "pm_wf a" and "pm_wf b" and "pm_wf c" and "pm_used a + pm_used b < 2 ^ 31"
  shows "pstm_ok (pstm_mul_comba a b c)" and "pm_abs (pstm_mul_comba a b c) = pm_abs a * pm_abs b"
    and "pm_sign (pstm_mul_comba a b c) = (pm_sign a \<noteq> pm_sign b \<and> pm_abs a * pm_abs b \<noteq> 0)"
    and "pm_alloc (pstm_mul_comba a b c) = max (pm_used a + pm_used b) (pm_alloc c)"
proof -
  let ?n = "pm_used a + pm_used b" and ?a = "pm_digits a" and ?b = "pm_digits b"
  let ?c = "pstm_grow c ?n" and ?ds = "mul_columns ?a ?b [0..<?n] (0, 0, 0)"
  have l: "length ?a = pm_used a" "length ?b = pm_used b" using assms by simp_all
  have "length ?a + length ?b < 2 ^ 31" using l assms(4) by simp
  from mul_columns_digits [OF this, of ?n] have ds: "length ?ds = ?n" "wval ?ds = pm_abs a * pm_abs b"
    unfolding mul_column_sum using columns_value [of ?a ?b] product_digits [of ?a ?b] l by (simp_all add: pm_abs_def)
  have g: "pm_wf ?c" "pm_alloc ?c = max ?n (pm_alloc c)" using assms(3) by (simp_all add: pstm_grow_spec)
  have "length ?ds \<le> pm_alloc ?c" using ds g by simp
  note st = pm_store_spec [OF g(1) this]
  let ?r = "(pm_store ?c ?ds)\<lparr>pm_sign := (pm_sign a \<noteq> pm_sign b)\<rparr>"
  have e: "pstm_mul_comba a b c = pstm_clamp ?r" unfolding pstm_mul_comba_def Let_def pstm_grow_guard ..
  have "pm_wf ?r" using st by simp
  from pstm_clamp_spec [OF this] show "pstm_ok (pstm_mul_comba a b c)" "pm_abs (pstm_mul_comba a b c) = pm_abs a * pm_abs b"
    "pm_sign (pstm_mul_comba a b c) = (pm_sign a \<noteq> pm_sign b \<and> pm_abs a * pm_abs b \<noteq> 0)"
    "pm_alloc (pstm_mul_comba a b c) = max ?n (pm_alloc c)"
    unfolding e using st ds g by simp_all
qed

section \<open>Squares\<close>

lemma sqradd2_twice: "sqradd2 p c = muladd p (muladd p c)"
  by (cases p; cases c) (simp add: Let_def)

lemma fold_sqradd2_value:
  assumes "cv c + int (length ps) * 2 ^ 65 \<le> 2 ^ 96"
  shows "cv (fold sqradd2 ps c) = cv c + 2 * (\<Sum>(i, j)\<leftarrow>ps. uint i * uint j)"
proof -
  have "fold sqradd2 ps c = fold muladd (concat (map (\<lambda>p. [p, p]) ps)) c" for c
    by (induction ps arbitrary: c) (simp_all add: sqradd2_twice)
  moreover have "length (concat (map (\<lambda>p. [p, p]) ps)) = 2 * length ps" by (induction ps) simp_all
  moreover have "(\<Sum>(i, j)\<leftarrow>concat (map (\<lambda>p. [p, p]) ps). uint i * uint j) = 2 * (\<Sum>(i, j)\<leftarrow>ps. uint i * uint j)"
    for ps :: "(u32 \<times> u32) list" by (induction ps) auto
  ultimately show ?thesis using fold_muladd_value [of c "concat (map (\<lambda>p. [p, p]) ps)"] assms by simp
qed

lemma sum_palindrome:
  fixes g :: "nat \<Rightarrow> int"
  assumes "\<And>i. i < m \<Longrightarrow> g (m - 1 - i) = g i"
  shows "(\<Sum>i < m. g i) = 2 * (\<Sum>i < m div 2. g i) + (if odd m then g (m div 2) else 0)"
proof -
  let ?h = "m div 2"
  have "(\<Sum>i < ?h. g i) = (\<Sum>i \<in> {m - ?h..<m}. g i)"
    by (rule sum.reindex_bij_witness [where i = "\<lambda>i. m - 1 - i" and j = "\<lambda>i. m - 1 - i"]) (use assms in auto)
  moreover have "(\<Sum>i < m. g i) = (\<Sum>i < ?h. g i) + (\<Sum>i \<in> {?h..<m - ?h}. g i) + (\<Sum>i \<in> {m - ?h..<m}. g i)"
  proof -
    have "?h \<le> m - ?h" "m - ?h \<le> m" by simp_all
    then show ?thesis unfolding lessThan_atLeast0 by (simp add: sum.atLeastLessThan_concat)
  qed
  moreover have "(\<Sum>i \<in> {?h..<m - ?h}. g i) = (if odd m then g ?h else 0)"
  proof (cases "odd m")
    case True
    then have "m - ?h = Suc ?h" by presburger
    then show ?thesis using True by simp
  next
    case False
    then have "m - ?h = ?h" by presburger
    then show ?thesis using False by simp
  qed
  ultimately show ?thesis by simp
qed

lemma sqr_column_sum:
  assumes "k < 2 * length a"
  shows "2 * (\<Sum>(i, j)\<leftarrow>sqr_column a k. uint i * uint j) + (if even k then uint (a ! (k div 2)) * uint (a ! (k div 2)) else 0)
    = (\<Sum>i \<in> pairs_of (length a) (length a) k. uint (a ! i) * uint (a ! (k - i)))"
proof -
  define ty tx where "ty = min (length a) (k + 1)" and "tx = k + 1 - ty"
  define g where "g = (\<lambda>iz. uint (a ! (tx + iz)) * uint (a ! (ty - 1 - iz)))"
  let ?m = "ty - tx"
  have t: "tx \<le> ty" "tx + ty = k + 1" "min (length a - tx) ty = ?m" using assms by (auto simp: tx_def ty_def)
  have "sqr_column a k = map (\<lambda>iz. (a ! (tx + iz), a ! (ty - 1 - iz))) [0..<min (min (length a - tx) ty) ((ty - tx) div 2)]"
    unfolding sqr_column_def Let_def tx_def ty_def ..
  moreover have "min ?m (?m div 2) = ?m div 2" by simp
  ultimately have c: "sqr_column a k = map (\<lambda>iz. (a ! (tx + iz), a ! (ty - 1 - iz))) [0..<?m div 2]" unfolding t(3) by (simp only:)
  have "(\<Sum>(i, j)\<leftarrow>sqr_column a k. uint i * uint j) = (\<Sum>iz < ?m div 2. g iz)"
    unfolding c by (simp add: comp_def interv_sum_list_conv_sum_set_nat lessThan_atLeast0 g_def)
  moreover have "(if even k then uint (a ! (k div 2)) * uint (a ! (k div 2)) else 0) = (if odd ?m then g (?m div 2) else 0)"
  proof -
    have "?m + 2 * tx = k + 1" using t(1,2) by linarith
    then have p: "odd ?m \<longleftrightarrow> even k" by (metis Suc_eq_plus1 dvd_triv_left even_Suc even_add)
    have "tx + ?m div 2 = k div 2" "ty - 1 - ?m div 2 = k div 2" if ev: "even k"
    proof -
      obtain q where "k = 2 * q" using ev by (elim evenE)
      then have "?m = 2 * (q - tx) + 1" "tx \<le> q" "ty - 1 = 2 * q - tx" using t(1,2) by linarith+
      then show "tx + ?m div 2 = k div 2" "ty - 1 - ?m div 2 = k div 2" using \<open>k = 2 * q\<close> by simp_all
    qed
    then show ?thesis unfolding p g_def by auto
  qed
  moreover have "(\<Sum>i < ?m. g i) = 2 * (\<Sum>i < ?m div 2. g i) + (if odd ?m then g (?m div 2) else 0)"
  proof (rule sum_palindrome)
    fix i assume "i < ?m"
    then have "tx + (?m - 1 - i) = ty - 1 - i" "ty - 1 - (?m - 1 - i) = tx + i" using t(1) by simp_all
    then show "g (?m - 1 - i) = g i" unfolding g_def by (simp only: mult.commute)
  qed
  moreover have "(\<Sum>i < ?m. g i) = (\<Sum>i \<in> pairs_of (length a) (length a) k. uint (a ! i) * uint (a ! (k - i)))"
  proof (rule sum.reindex_bij_witness [where i = "\<lambda>i. i - tx" and j = "\<lambda>i. tx + i"])
    have set: "pairs_of (length a) (length a) k = {tx..<ty}" unfolding pairs_of_def tx_def ty_def by auto
    show "i \<in> pairs_of (length a) (length a) k \<Longrightarrow> i - tx \<in> {..<?m}" for i unfolding set by auto
    show "i \<in> {..<?m} \<Longrightarrow> tx + i \<in> pairs_of (length a) (length a) k" for i unfolding set by auto
    show "i \<in> {..<?m} \<Longrightarrow> uint (a ! (tx + i)) * uint (a ! (k - (tx + i))) = g i" for i
    proof -
      have "k - (tx + i) = ty - 1 - i" using t(2) by simp
      then show ?thesis by (simp only: g_def)
    qed
    show "i \<in> pairs_of (length a) (length a) k \<Longrightarrow> tx + (i - tx) = i" for i unfolding set by auto
  qed simp_all
  ultimately show ?thesis by simp
qed

lemma sqr_columns_digits:
  assumes "length a < 2 ^ 29"
  shows "length (sqr_columns a [0..<2 * length a] (0, 0, 0)) = 2 * length a \<and> wval (sqr_columns a [0..<2 * length a] (0, 0, 0)) = wval a * wval a"
proof -
  define step where "step = (\<lambda>ix c. let c = fold sqradd2 (sqr_column a ix) c in if even ix then muladd (a ! (ix div 2), a ! (ix div 2)) c else c)"
  have s: "cv (step i c) = cv c + (\<Sum>j \<in> pairs_of (length a) (length a) i. uint (a ! j) * uint (a ! (i - j)))" if "i < 2 * length a" "cv c < 2 ^ 64" for i c
  proof -
    let ?S = "\<Sum>(i, j)\<leftarrow>sqr_column a i. uint i * uint j" and ?f = "fold sqradd2 (sqr_column a i) c"
    have n: "int (length (sqr_column a i)) \<le> 2 ^ 29" using assms by (simp add: sqr_column_def Let_def min_def)
    then have "int (length (sqr_column a i)) * 2 ^ 65 \<le> 2 ^ 29 * 2 ^ 65" by (intro mult_right_mono) simp_all
    then have f: "cv ?f = cv c + 2 * ?S" using that(2) by (intro fold_sqradd2_value) simp
    have "?S \<le> int (length (sqr_column a i)) * 2 ^ 64"
    proof -
      have "(\<Sum>(i, j)\<leftarrow>ps. uint i * uint j) \<le> int (length ps) * 2 ^ 64" for ps :: "(u32 \<times> u32) list"
      proof (induction ps)
        case (Cons p ps)
        then show ?case using mult_digits [of "fst p" "snd p"] by (cases p) (simp add: distrib_right)
      qed simp
      then show ?thesis .
    qed
    then have "?S \<le> 2 ^ 29 * 2 ^ 64" using n by (meson mult_right_mono order_trans zero_le_numeral zero_le_power)
    then have "cv ?f + uint (a ! (i div 2)) * uint (a ! (i div 2)) < 2 ^ 96"
      using f that(2) mult_digits [of "a ! (i div 2)" "a ! (i div 2)"] by simp
    then have "cv (step i c) = cv c + 2 * ?S + (if even i then uint (a ! (i div 2)) * uint (a ! (i div 2)) else 0)"
      using f by (simp add: step_def Let_def muladd_value)
    then show ?thesis using sqr_column_sum [OF that(1)] by simp
  qed
  have "length (sqr_columns a [0..<2 * length a] (0, 0, 0)) = 2 * length a \<and> wval (sqr_columns a [0..<2 * length a] (0, 0, 0))
      = (\<Sum>k < 2 * length a. (\<Sum>j \<in> pairs_of (length a) (length a) k. uint (a ! j) * uint (a ! (k - j))) * 2 ^ (32 * k)) mod 2 ^ (32 * (2 * length a))"
    using comba_digits [where step = step and digits = "sqr_columns a" and N = "2 * length a" and k = 0 and n = "2 * length a" and c = "(0, 0, 0)", OF _ _ s]
    by (simp add: step_def Let_def)
  then show ?thesis using columns_value [of a a] product_digits [of a a] by (simp add: mult_2)
qed

lemma pstm_sqr_comba_spec:
  assumes "pm_wf a" and "pm_used a < 2 ^ 29"
  shows "pstm_ok (pstm_sqr_comba a a)" and "pm_abs (pstm_sqr_comba a a) = pm_abs a * pm_abs a"
    and "pm_sign (pstm_sqr_comba a a) = (pm_sign a \<and> pm_abs a * pm_abs a \<noteq> 0)" and "pm_alloc (pstm_sqr_comba a a) = max (2 * pm_used a) (pm_alloc a)"
proof -
  let ?ds = "sqr_columns (pm_digits a) [0..<2 * pm_used a] (0, 0, 0)" and ?c = "pstm_grow a (2 * pm_used a)"
  have ds: "length ?ds = 2 * pm_used a" "wval ?ds = pm_abs a * pm_abs a"
    using sqr_columns_digits [of "pm_digits a"] assms by (simp_all add: pm_abs_def)
  have g: "pm_wf ?c" "pm_alloc ?c = max (2 * pm_used a) (pm_alloc a)" "pm_sign ?c = pm_sign a" using assms(1) by (simp_all add: pstm_grow_spec)
  have "length ?ds \<le> pm_alloc ?c" using ds g by simp
  note st = pm_store_spec [OF g(1) this]
  have e: "pstm_sqr_comba a a = pstm_clamp (pm_store ?c ?ds)" unfolding pstm_sqr_comba_def Let_def pstm_grow_guard mult_2 ..
  from pstm_clamp_spec [OF st(1)] show "pstm_ok (pstm_sqr_comba a a)" "pm_abs (pstm_sqr_comba a a) = pm_abs a * pm_abs a"
    "pm_sign (pstm_sqr_comba a a) = (pm_sign a \<and> pm_abs a * pm_abs a \<noteq> 0)" "pm_alloc (pstm_sqr_comba a a) = max (2 * pm_used a) (pm_alloc a)"
    unfolding e using st ds g by simp_all
qed

section \<open>Montgomery reduction\<close>

declare propcarry.simps [simp del]

lemma propcarry_value:
  "wval cs + uint cy < 2 ^ (32 * length cs) \<Longrightarrow> \<exists>r. propcarry cs cy = Inr r \<and> length r = length cs \<and> wval r = wval cs + uint cy"
proof (induction cs arbitrary: cy)
  case Nil
  then have "cy = 0" by (simp add: word_uint_eq_iff; use uint_ge_0 [of cy] in linarith)
  then show ?case by (simp add: propcarry.simps)
next
  case (Cons c cs)
  show ?case
  proof (cases "cy = 0")
    case True
    then show ?thesis by (simp add: propcarry.simps)
  next
    case False
    define d where "d = (if c + cy < cy then 1 else 0 :: u32)"
    have s: "uint (c + cy) + 2 ^ 32 * uint d = uint c + uint cy"
      unfolding d_def using uint_lt2p [of c] uint_lt2p [of cy] by (auto simp: word_less_def uint_add_wrap; use uint_ge_0 [of c] in linarith)
    have "uint (c + cy) + 2 ^ 32 * (wval cs + uint d) < 2 ^ 32 * 2 ^ (32 * length cs)"
      using Cons.prems s by (simp add: power_add distrib_left)
    then have "2 ^ 32 * (wval cs + uint d) < 2 ^ 32 * 2 ^ (32 * length cs)" using uint_ge_0 [of "c + cy"] by linarith
    then have "wval cs + uint d < 2 ^ (32 * length cs)" by simp
    from Cons.IH [OF this] obtain r where r: "propcarry cs d = Inr r" "length r = length cs" "wval r = wval cs + uint d" by blast
    have "propcarry (c # cs) cy = Inr ((c + cy) # r)" using False r(1) by (simp add: propcarry.simps [of "c # cs"] d_def)
    moreover have "wval ((c + cy) # r) = wval (c # cs) + uint cy" using s r(3) by (simp add: distrib_left)
    ultimately show ?thesis using r(2) by simp
  qed
qed

lemma innermul_value:
  "length ms \<le> length cs \<Longrightarrow> wval cs + uint mu * wval ms + uint cy < 2 ^ (32 * length cs) \<Longrightarrow>
   \<exists>r. innermul mu ms cs cy = Inr r \<and> length r = length cs \<and> wval r = wval cs + uint mu * wval ms + uint cy"
proof (induction ms arbitrary: cs cy)
  case Nil
  then show ?case using propcarry_value [of cs cy] by simp
next
  case (Cons m ms)
  obtain c cs' where cs: "cs = c # cs'" using Cons.prems(1) by (cases cs) auto
  define t :: u64 where "t = ucast c + ucast cy + ucast mu * ucast m"
  have "uint c + uint cy + uint mu * uint m < 2 ^ 64" using uint_lt2p [of c] uint_lt2p [of cy] mult_digits [of mu m] by simp
  moreover have "uint (ucast c + ucast cy :: u64) = uint c + uint cy"
    unfolding uint_add_wrap uint_ucast_32_64 using uint_lt2p [of c] uint_lt2p [of cy] by simp
  ultimately have t: "uint t = uint c + uint cy + uint mu * uint m" unfolding t_def uint_add_wrap [of "ucast c + ucast cy"] uint_mult_digits by simp
  define d where "d = (ucast (drop_bit 32 t) :: u32)"
  have d: "uint d = uint t div 2 ^ 32"
  proof -
    have "uint t < 2 ^ 64" using uint_lt2p [of t] by simp
    then have "uint t div 2 ^ 32 < 2 ^ 32" "0 \<le> uint t div 2 ^ 32" by (simp_all add: pos_imp_zdiv_nonneg_iff)
    then show ?thesis unfolding d_def uint_ucast_64_32 uint_shift32 by (rule mod_pos_pos_trivial [rotated])
  qed
  have v: "wval cs + uint mu * wval (m # ms) + uint cy = uint t mod 2 ^ 32 + 2 ^ 32 * (wval cs' + uint mu * wval ms + uint d)"
  proof -
    have "wval cs + uint mu * wval (m # ms) + uint cy = uint t + 2 ^ 32 * (wval cs' + uint mu * wval ms)"
      by (simp add: cs t algebra_simps)
    then show ?thesis unfolding d distrib_left using mod_mult_div_eq [of "uint t" "2 ^ 32"] by linarith
  qed
  have "2 ^ 32 * (wval cs' + uint mu * wval ms + uint d) < 2 ^ (32 * length cs)"
    by (rule less_drop [of "uint t mod 2 ^ 32"]) (use Cons.prems(2) in \<open>simp_all only: v [symmetric]\<close>, simp)
  then have "wval cs' + uint mu * wval ms + uint d < 2 ^ (32 * length cs')" by (simp add: cs power_add)
  moreover have "length ms \<le> length cs'" using Cons.prems(1) cs by simp
  ultimately obtain r where r: "innermul mu ms cs' d = Inr r" "length r = length cs'" "wval r = wval cs' + uint mu * wval ms + uint d"
    using Cons.IH by blast
  have "innermul mu (m # ms) cs cy = Inr (ucast t # r)" using r(1) unfolding d_def by (simp add: cs t_def Let_def)
  moreover have "wval (ucast t # r) = wval cs + uint mu * wval (m # ms) + uint cy" unfolding v by (simp add: uint_ucast_64_32 r(3))
  ultimately show ?case using r(2) cs by auto
qed

text \<open>
  One round makes the digit \<open>x\<close> zero. After all of them the low \<open>n\<close> digits are zero, and the number is the old one
  plus a multiple of the modulus below \<open>2 ^ (32 * n) * M\<close>.
\<close>

lemma mont_rounds_value:
  assumes m: "length m = n" "0 < n" "mp * m ! 0 = - 1"
  shows "x + k = n \<Longrightarrow> wval c + (2 ^ (32 * n) - 2 ^ (32 * x)) * wval m < 2 ^ (32 * length c) \<Longrightarrow> n \<le> length c \<Longrightarrow> 2 ^ (32 * x) dvd wval c \<Longrightarrow> 2 * n \<le> length c \<Longrightarrow>
    \<exists>c' q. mont_rounds mp m [x..<n] c = Inr c' \<and> length c' = length c \<and> wval c' = wval c + q * wval m \<and> 0 \<le> q \<and> q \<le> 2 ^ (32 * n) - 2 ^ (32 * x)
      \<and> 2 ^ (32 * n) dvd wval c'"
proof (induction k arbitrary: x c)
  case 0
  then show ?case by (intro exI [of _ c] exI [of _ 0]) simp_all
next
  case (Suc k)
  let ?P = "2 ^ (32 * x) :: int" and ?mu = "c ! x * mp"
  have x: "x < n" "x < length c" using Suc.prems by simp_all
  have take0: "wval (take x c) = 0"
  proof -
    have "wval c = wval (take x c) + ?P * wval (drop x c)" using wval_take_drop [of x c] x by simp
    then have "?P dvd wval (take x c)" using Suc.prems(4) by (metis dvd_add_left_iff dvd_triv_left)
    moreover have "wval (take x c) < ?P" using wval_less [of "take x c"] x by simp
    ultimately show ?thesis using wval_ge [of "take x c"] by (metis int_one_le_iff_zero_less less_le not_less zdvd_imp_le zero_less_one order_less_le)
  qed
  then have c: "wval c = ?P * wval (drop x c)" using wval_take_drop [of x c] x by simp
  have mu: "0 \<le> uint ?mu" "uint ?mu \<le> 2 ^ 32 - 1" using uint_lt2p [of ?mu] by simp_all
  have "?P * (2 ^ 32 - 1) \<le> 2 ^ (32 * n) - ?P"
  proof -
    have "(2 :: int) ^ (32 * Suc x) \<le> 2 ^ (32 * n)" using x by (intro power_increasing) simp_all
    then show ?thesis by (simp add: power_add right_diff_distrib)
  qed
  then have "?P * (2 ^ 32 - 1) * wval m \<le> (2 ^ (32 * n) - ?P) * wval m" by (intro mult_right_mono) simp_all
  moreover have "?P * (uint ?mu * wval m) \<le> ?P * ((2 ^ 32 - 1) * wval m)" using mu(2) by (intro mult_left_mono mult_right_mono) simp_all
  ultimately have "?P * (wval (drop x c) + uint ?mu * wval m) < 2 ^ (32 * length c)"
    using Suc.prems(2) unfolding c distrib_left mult.assoc by linarith
  also have "(2 :: int) ^ (32 * length c) = ?P * 2 ^ (32 * length (drop x c))"
  proof -
    have "32 * length c = 32 * x + 32 * length (drop x c)" using x by simp
    then show ?thesis by (simp only: power_add)
  qed
  finally have lt: "wval (drop x c) + uint ?mu * wval m + uint (0 :: u32) < 2 ^ (32 * length (drop x c))" by simp
  have "length m \<le> length (drop x c)" using Suc.prems m x by simp
  from innermul_value [OF this lt] obtain r where r: "innermul ?mu m (drop x c) 0 = Inr r" "length r = length c - x"
    "wval r = wval (drop x c) + uint ?mu * wval m" by auto
  let ?c = "take x c @ r"
  have v: "wval ?c = wval c + ?P * uint ?mu * wval m" using take0 r(3) c x by (simp add: wval_append distrib_left mult.assoc)
  have dvd: "2 ^ 32 dvd wval r"
  proof -
    obtain m0 ms where ms: "m = m0 # ms" using m by (cases m) auto
    obtain c0 cs where cs: "drop x c = c0 # cs" using x by (cases "drop x c") auto
    have c0: "c0 = c ! x" using cs x by (metis hd_drop_conv_nth list.sel(1))
    have "c0 + ?mu * m0 = 0" using m(3) unfolding ms c0 by (simp add: mult.assoc)
    then have "uint (c0 + ?mu * m0) = 0" by simp
    then have "(uint c0 + uint ?mu * uint m0) mod 2 ^ 32 = 0" by (simp add: uint_word_ariths mod_add_right_eq)
    moreover have "wval r = (uint c0 + uint ?mu * uint m0) + 2 ^ 32 * (wval cs + uint ?mu * wval ms)"
      by (simp add: r(3) cs ms distrib_left mult_ac)
    ultimately show ?thesis by (simp only: dvd_eq_mod_eq_0 mod_mult_self2)
  qed
  have dvd': "2 ^ (32 * Suc x) dvd wval ?c"
  proof -
    have "wval ?c = ?P * wval r" using take0 x by (simp add: wval_append)
    moreover have "(2 :: int) ^ (32 * Suc x) = ?P * 2 ^ 32" by (simp add: power_add)
    ultimately show ?thesis using dvd by (simp only: mult_dvd_mono dvd_refl)
  qed
  have q0: "?P * uint ?mu \<le> 2 ^ (32 * Suc x) - ?P"
  proof -
    have "?P * uint ?mu \<le> ?P * (2 ^ 32 - 1)" using mu(2) by (intro mult_left_mono) simp_all
    then show ?thesis by (simp add: power_add right_diff_distrib)
  qed
  have "wval ?c + (2 ^ (32 * n) - 2 ^ (32 * Suc x)) * wval m < 2 ^ (32 * length ?c)"
  proof -
    have "?P * uint ?mu * wval m \<le> (2 ^ (32 * Suc x) - ?P) * wval m" using q0 by (intro mult_right_mono) simp_all
    then show ?thesis using Suc.prems(2) r(2) x unfolding v by (simp add: left_diff_distrib)
  qed
  moreover have "Suc x + k = n" "n \<le> length ?c" "2 * n \<le> length ?c" using Suc.prems r(2) x by simp_all
  ultimately obtain c' q where c': "mont_rounds mp m [Suc x..<n] ?c = Inr c'" "length c' = length ?c" "wval c' = wval ?c + q * wval m" "0 \<le> q"
    "q \<le> 2 ^ (32 * n) - 2 ^ (32 * Suc x)" "2 ^ (32 * n) dvd wval c'"
    using Suc.IH [of "Suc x" ?c] dvd' by blast
  have "mont_rounds mp m [x..<n] c = Inr c'"
    using x r(1) c'(1) by (simp add: upt_conv_Cons ps_within_def)
  moreover have "wval c' = wval c + (?P * uint ?mu + q) * wval m" using c'(3) v by (simp add: distrib_right)
  moreover have "0 \<le> ?P * uint ?mu + q" "?P * uint ?mu + q \<le> 2 ^ (32 * n) - ?P" using c'(4,5) q0 mu(1) by simp_all
  ultimately show ?case using c' r(2) x by (intro exI [of _ c'] exI [of _ "?P * uint ?mu + q"]) simp
qed


lemma wval_take: "wval (take n xs) = wval xs mod 2 ^ (LENGTH('a) * n)" for xs :: "'a :: len word list"
proof (cases "n \<le> length xs")
  case True
  have "wval (take n xs) < 2 ^ (LENGTH('a) * n)" using wval_less [of "take n xs"] True by simp
  then show ?thesis using wval_take_drop [OF True] by simp
next
  case False
  have "(2 :: int) ^ (LENGTH('a) * length xs) \<le> 2 ^ (LENGTH('a) * n)" using False by (intro power_increasing) simp_all
  then have "wval xs < 2 ^ (LENGTH('a) * n)" using wval_less [of xs] by linarith
  then show ?thesis using False by simp
qed

lemma reduced_value:
  fixes A M R q :: int
  assumes "0 \<le> A" and "A < M * R" and "0 \<le> q" and "q < R" and "R dvd A + q * M" and "0 < M"
  shows "0 \<le> (A + q * M) div R" and "(A + q * M) div R < 2 * M" and "R * ((A + q * M) div R) = A + q * M"
proof -
  have R: "0 < R" using assms(3,4) by linarith
  show e: "R * ((A + q * M) div R) = A + q * M" using assms(5) by simp
  show "0 \<le> (A + q * M) div R" using assms R by (simp add: pos_imp_zdiv_nonneg_iff)
  have "q * M \<le> R * M" using assms by (intro mult_right_mono) simp_all
  moreover have "M * R = R * M" "R * (2 * M) = 2 * (R * M)" by simp_all
  ultimately have "R * ((A + q * M) div R) < R * (2 * M)" using assms(2) unfolding e by linarith
  then show "(A + q * M) div R < 2 * M" using R by simp
qed

lemma pstm_montgomery_reduce_spec:
  fixes m :: pstm_int
  defines "n \<equiv> pm_used m"
  assumes a: "pstm_ok a" "pm_sign a = PSTM_ZPOS" "pm_abs a < pm_abs m * 2 ^ (32 * n)" "n + 1 \<le> pm_alloc a"
    and m: "pstm_ok m" "0 < n" "mp * pm_dp m ! 0 = - 1" and len: "2 * n + 1 \<le> paDlen div 4"
  obtains r where "pstm_montgomery_reduce a m mp paDlen = Inr r" and "pstm_ok r" and "pm_sign r = PSTM_ZPOS" and "pm_abs r < pm_abs m"
    and "(2 ^ (32 * n) * pm_abs r) mod pm_abs m = pm_abs a mod pm_abs m" and "n + 1 \<le> pm_alloc r" and "pm_alloc a \<le> pm_alloc r"
proof -
  let ?R = "2 ^ (32 * n) :: int" and ?M = "pm_abs m"
  have wm: "pm_wf m" and wa: "pm_wf a" using m(1) a(1) by simp_all
  have "?M \<noteq> 0" using pm_used_zero [OF m(1)] m(2) by (simp add: n_def)
  then have M: "?M < ?R" "0 < ?M" using pm_abs_upper [OF wm] pm_abs_ge [of m] unfolding n_def by linarith+
  have "?M * ?R < ?R * ?R" using M by simp
  moreover have "?R * ?R = 2 ^ (32 * (2 * n))" by (simp add: power_add [symmetric])
  ultimately have "pm_abs a < 2 ^ (32 * (2 * n))" using a(3) by linarith
  then have ua: "pm_used a \<le> 2 * n" using pm_used_le [OF a(1)] by simp
  let ?s = "paDlen div 4"
  have sz: "(if paDlen \<ge> 2 * n + 1 then paDlen div 4 else (2 * n + 1) div 4) = ?s" using len by auto
  let ?c = "pm_digits a @ replicate (?s - pm_used a) 0"
  have c: "length ?c = ?s" "wval ?c = pm_abs a" using wa ua len by (simp_all add: wval_append pm_abs_def)
  have md: "length (pm_digits m) = n" "wval (pm_digits m) = ?M" using wm by (simp_all add: n_def pm_abs_def)
  have m0: "pm_digits m ! 0 = pm_dp m ! 0" using m(2) by (simp add: pm_digits_def n_def)
  have big: "2 * ?M * ?R < 2 ^ (32 * ?s)"
  proof -
    have "2 * ?M * ?R \<le> 2 * ?R * ?R" using M by (intro mult_right_mono) simp_all
    also have "\<dots> < 2 ^ 32 * (?R * ?R)" by simp
    also have "\<dots> = 2 ^ (32 * (2 * n + 1))" unfolding power_add [symmetric] by (intro arg_cong [where f = "power 2"]) simp
    also have "\<dots> \<le> 2 ^ (32 * ?s)" using len by (intro power_increasing) simp_all
    finally show ?thesis .
  qed
  have "pm_abs a + (?R - 1) * ?M < 2 ^ (32 * ?s)" 
  proof -
    have "(?R - 1) * ?M = ?M * ?R - ?M" "2 * ?M * ?R = 2 * (?M * ?R)" by (simp_all add: left_diff_distrib)
    then show ?thesis using a(3) M(2) big by linarith
  qed
  then have pre: "wval ?c + (2 ^ (32 * n) - 2 ^ (32 * 0)) * wval (pm_digits m) < 2 ^ (32 * length ?c)" unfolding c md by simp
  have "mp * pm_digits m ! 0 = - 1" "n \<le> length ?c" "2 ^ (32 * 0) dvd wval ?c" "2 * n \<le> length ?c" using m(3) m0 len c(1) by simp_all
  note rounds = mont_rounds_value [OF md(1) m(2) this(1) add_0 pre this(2,3,4)]
  obtain c' q where c0: "mont_rounds mp (pm_digits m) [0..<n] ?c = Inr c'" "length c' = length ?c" "wval c' = wval ?c + q * wval (pm_digits m)"
    "0 \<le> q" "q \<le> 2 ^ (32 * n) - 2 ^ (32 * 0)" "?R dvd wval c'"
    using rounds by blast
  have c': "length c' = ?s" "wval c' = pm_abs a + q * ?M" "q < ?R" using c0 unfolding c md by simp_all
  define T where "T = (pm_abs a + q * ?M) div ?R"
  have T: "0 \<le> T" "T < 2 * ?M" "?R * T = pm_abs a + q * ?M"
    using reduced_value [OF pm_abs_ge a(3) c0(4) c'(3) _ M(2)] c'(2) c0(6) by (simp_all add: T_def)
  let ?ds = "take (n + 1) (drop n c')"
  have "wval ?ds = T mod 2 ^ (32 * (n + 1))" by (simp add: wval_take wval_drop c'(2) T_def)
  moreover have "T < 2 ^ (32 * (n + 1))" using T(2) M by (simp add: power_add)
  ultimately have ds: "wval ?ds = T" "length ?ds = n + 1" using T(1) c'(1) len by simp_all
  have "length ?ds \<le> pm_alloc a" using ds(2) a(4) by simp
  note st = pm_store_spec [OF wa this]
  define b where "b = pstm_clamp (pm_store a ?ds)"
  have b: "pstm_ok b" "pm_abs b = T" "pm_sign b = PSTM_ZPOS" "pm_alloc b = pm_alloc a" "pm_used b \<le> n + 1"
    using pstm_clamp_spec [OF st(1)] st ds a(2) by (simp_all add: b_def)
  have e: "pstm_montgomery_reduce a m mp paDlen = (if pstm_cmp_mag b m \<noteq> PSTM_LT then ps_code PS_MEM_FAIL (s_pstm_sub b m b) else Inr b)"
    using a(4) wa ua len c0(1) unfolding pstm_montgomery_reduce_def Let_def n_def [symmetric] sz
    by (simp add: ps_within_def b_def)
  have mod: "(?R * T) mod ?M = pm_abs a mod ?M" unfolding T(3) by simp
  show thesis
  proof (cases "T < ?M")
    case True
    then show thesis using that [of b] e b a(4) mod pstm_cmp_mag_spec [OF b(1) m(1)] by simp
  next
    case False
    have "borrow_fits (pm_digits b) (pm_digits m)" using b wm by (intro borrow_fits_used) (simp_all add: n_def [symmetric])
    then obtain r where r: "s_pstm_sub b m b = Inr r" "pstm_ok r" "pm_abs r = T - ?M" "pm_sign r = PSTM_ZPOS" "pm_alloc r = max (pm_used b) (pm_alloc b)"
      using s_pstm_sub_ok [OF b(1) m(1) pstm_ok_wf [OF b(1)]] False b by (metis linorder_not_less)
    have "(?R * pm_abs r) mod ?M = (?R * T) mod ?M" unfolding r(3) right_diff_distrib by (simp add: mod_eq_dvd_iff)
    then show thesis using that [of r] e r b a(4) mod False T(2) pstm_cmp_mag_spec [OF b(1) m(1)] by (auto simp: sgn_if)
  qed
qed

section \<open>Properties\<close>

text \<open>C39: The squares of \<^verbatim>\<open>pstm_sqr_comba\<close>, which adds every mixed product once and doubles, have the digits
  that \<^verbatim>\<open>pstm_mul_comba\<close> computes for the product of the number with itself, and both are the square, for numbers
  of up to \<^verbatim>\<open>2 ^ 29\<close> digits: the three digits of the column sums do not overflow.\<close>

theorem comba_square:
  assumes "pm_wf a" and "pm_wf c" and "pm_used a < 2 ^ 29"
  shows "pm_digits (pstm_sqr_comba a a) = pm_digits (pstm_mul_comba a a c) \<and> pm_abs (pstm_sqr_comba a a) = pm_abs a * pm_abs a
    \<and> pstm_ok (pstm_sqr_comba a a)"
proof -
  have "pm_used a + pm_used a < 2 ^ 31" using assms(3) by simp
  note m = pstm_mul_comba_spec [OF assms(1,1,2) this] and s = pstm_sqr_comba_spec [OF assms(1,3)]
  have "pm_used (pstm_sqr_comba a a) = pm_used (pstm_mul_comba a a c)"
    using pm_used_le [OF s(1)] pm_used_le [OF m(1)] s(2) m(2) by (metis order_antisym order_refl)
  then have "length (pm_digits (pstm_sqr_comba a a)) = length (pm_digits (pstm_mul_comba a a c))" using s(1) m(1) by simp
  then have "pm_digits (pstm_sqr_comba a a) = pm_digits (pstm_mul_comba a a c)"
    using wval_inject [of "pm_digits (pstm_sqr_comba a a)" "pm_digits (pstm_mul_comba a a c)"] s(2) m(2) by (simp add: pm_abs_def)
  then show ?thesis using s by simp
qed

theorem comba_square_witness: "pm_abs (pstm_sqr_comba (demo_num [0xffffffff, 0xffffffff]) (demo_num [0xffffffff, 0xffffffff])) = (2 ^ 64 - 1) * (2 ^ 64 - 1)"
  using comba_square [of "demo_num [0xffffffff, 0xffffffff]" "demo_num []"] by (simp add: demo_num)

end
