(* ===== verification/Tls_Pstm_Div.thy ===== *)
theory Tls_Pstm_Div
  imports Tls_Pstm_Mont
begin

text \<open>
  \<^verbatim>\<open>pstm_div\<close>: the estimate of a digit of the quotient is at most one too large, and the remainder is exact
  unless it is so close to the divisor that the addition which corrects an estimate loses a borrow.
\<close>

unbundle bit_operations_syntax

section \<open>The estimate of a digit of the quotient\<close>

text \<open>
  \<open>V2\<close> is the leading part of the divisor and \<open>U3\<close> the leading part of the dividend; \<open>W\<close> is the divisor at the position of
  the digit.
\<close>

lemma estimate_too_large:
  fixes q :: int
  assumes "V2 * B \<le> W * C" and "X * C < (U3 + 1) * B" and "U3 < q * V2" and "0 \<le> q" and "0 < C" and "0 < B"
  shows "X < q * W"
proof -
  have "X * C < (U3 + 1) * B" by (rule assms(2))
  also have "\<dots> \<le> (q * V2) * B" using assms(3,6) by (intro mult_right_mono) simp_all
  also have "\<dots> \<le> q * (W * C)" using assms(1,4) unfolding mult.assoc by (intro mult_left_mono) simp_all
  finally show ?thesis using assms(5) by (simp add: mult.assoc [symmetric])
qed

lemma estimate_close:
  fixes q :: int
  assumes "W * C < (V2 + 1) * B" and "U3 * B \<le> X * C" and "q * V2 \<le> U3" and "0 < q" and "q \<le> V2 + 1" and "0 < C" and "0 < B"
  shows "(q - 1) * W \<le> X"
proof -
  have "(q - 1) * (W * C) \<le> (q - 1) * ((V2 + 1) * B)" using assms(1,4) by (intro mult_left_mono) simp_all
  also have "\<dots> = ((q - 1) * (V2 + 1)) * B" by (simp only: mult.assoc)
  also have "\<dots> \<le> U3 * B"
  proof (rule mult_right_mono)
    have "(q - 1) * (V2 + 1) = q * V2 + (q - 1 - V2)" by (simp add: algebra_simps)
    then show "(q - 1) * (V2 + 1) \<le> U3" using assms(3,5) by linarith
  qed (use assms(7) in simp)
  also have "\<dots> \<le> X * C" by (rule assms(2))
  finally show ?thesis using assms(6) by (simp add: mult.assoc [symmetric])
qed

lemma div_close:
  fixes q :: int
  assumes "0 < W" and "X div W \<le> q" and "(q - 1) * W \<le> X"
  shows "q = X div W \<or> q = X div W + 1"
proof -
  have "q - 1 \<le> X div W" using zdiv_mono1 [OF assms(3,1)] assms(1) by simp
  then show ?thesis using assms(2) by linarith
qed

section \<open>Digits of a number\<close>

lemma digit_value:
  assumes "pm_wf a" and "j < pm_alloc a"
  shows "uint (pm_dp a ! j) = pm_abs a div 2 ^ (32 * j) mod 2 ^ 32"
proof -
  obtain w ws where w: "drop j (pm_dp a) = w # ws" using assms by (cases "drop j (pm_dp a)") auto
  then have "w = pm_dp a ! j" using assms by (metis hd_drop_conv_nth length_pm_dp list.sel(1))
  moreover have "wval (drop j (pm_dp a)) = pm_abs a div 2 ^ (32 * j)" using assms by (simp add: wval_drop wval_dp)
  moreover have "wval (drop j (pm_dp a)) mod 2 ^ 32 = uint w" using uint_lt2p [of w] unfolding w by simp
  ultimately show ?thesis by simp
qed

lemma digit_join:
  assumes "pm_wf a" and "j < pm_alloc a"
  shows "pm_abs a div 2 ^ (32 * j) = 2 ^ 32 * (pm_abs a div 2 ^ (32 * Suc j)) + uint (pm_dp a ! j)"
proof -
  have "pm_abs a div 2 ^ (32 * Suc j) = pm_abs a div 2 ^ (32 * j) div 2 ^ 32" by (simp add: power_add zdiv_zmult2_eq mult.commute)
  then show ?thesis unfolding digit_value [OF assms] by simp
qed

lemma div_bounds: "0 < P \<Longrightarrow> X div P * P \<le> X \<and> X < (X div P + 1) * P" for X P :: int
  using div_mult_mod_eq [of X P] pos_mod_bound [of P X] pos_mod_sign [of P X] unfolding distrib_right by linarith

text \<open>The two leading digits of the divisor and the three of the dividend, as the source combines them.\<close>

definition lead2 :: "pstm_int \<Rightarrow> nat \<Rightarrow> int" where
  "lead2 y t = uint (pm_dp y ! t) * 2 ^ 32 + (if t = 0 then 0 else uint (pm_dp y ! (t - 1)))"

definition lead3 :: "pstm_int \<Rightarrow> nat \<Rightarrow> int" where
  "lead3 x i = uint (pm_dp x ! i) * 2 ^ 64 + (if i < 1 then 0 else uint (pm_dp x ! (i - 1))) * 2 ^ 32 + (if i < 2 then 0 else uint (pm_dp x ! (i - 2)))"

lemma top_digit:
  assumes "pm_wf a" and "pm_abs a < 2 ^ (32 * Suc t)" and "t < pm_alloc a"
  shows "uint (pm_dp a ! t) = pm_abs a div 2 ^ (32 * t)"
proof -
  have "pm_abs a < 2 ^ 32 * 2 ^ (32 * t)" using assms(2) by (simp add: power_add)
  then have "pm_abs a div 2 ^ (32 * t) < 2 ^ 32" by (rule int_div_less) simp
  moreover have "0 \<le> pm_abs a div 2 ^ (32 * t)" by (simp add: pos_imp_zdiv_nonneg_iff)
  ultimately show ?thesis unfolding digit_value [OF assms(1,3)] by simp
qed

lemma lead2_bounds:
  assumes "pm_wf y" and "pm_abs y < 2 ^ (32 * Suc t)" and "t < pm_alloc y"
  shows "lead2 y t * 2 ^ (32 * t) \<le> pm_abs y * 2 ^ 32" and "pm_abs y * 2 ^ 32 < (lead2 y t + 1) * 2 ^ (32 * t)"
proof -
  note top = top_digit [OF assms]
  have *: "lead2 y t * 2 ^ (32 * t) \<le> pm_abs y * 2 ^ 32 \<and> pm_abs y * 2 ^ 32 < (lead2 y t + 1) * 2 ^ (32 * t)"
  proof (cases t)
    case 0
    then show ?thesis using top by (simp add: lead2_def)
  next
    case (Suc s)
    have "lead2 y t = pm_abs y div 2 ^ (32 * s)" using digit_join [OF assms(1), of s] assms(3) top by (simp add: lead2_def Suc)
    moreover have "(2 :: int) ^ (32 * t) = 2 ^ (32 * s) * 2 ^ 32" by (simp add: Suc power_add)
    ultimately show ?thesis using div_bounds [of "2 ^ (32 * s)" "pm_abs y"] by (simp add: mult.assoc [symmetric])
  qed
  then show "lead2 y t * 2 ^ (32 * t) \<le> pm_abs y * 2 ^ 32" "pm_abs y * 2 ^ 32 < (lead2 y t + 1) * 2 ^ (32 * t)" by blast+
qed

lemma lead3_bounds:
  assumes "pm_wf x" and "pm_abs x < 2 ^ (32 * Suc i)" and "i < pm_alloc x" and "0 < i"
  shows "lead3 x i * 2 ^ (32 * i) \<le> pm_abs x * 2 ^ 64" and "pm_abs x * 2 ^ 64 < (lead3 x i + 1) * 2 ^ (32 * i)"
proof -
  note top = top_digit [OF assms(1-3)]
  obtain j where j: "i = Suc j" using assms(4) by (cases i) auto
  have d1: "pm_abs x div 2 ^ (32 * j) = 2 ^ 32 * uint (pm_dp x ! i) + uint (pm_dp x ! j)"
    using digit_join [OF assms(1), of j] assms(3) top by (simp add: j)
  have *: "lead3 x i * 2 ^ (32 * i) \<le> pm_abs x * 2 ^ 64 \<and> pm_abs x * 2 ^ 64 < (lead3 x i + 1) * 2 ^ (32 * i)"
  proof (cases j)
    case 0
    have "lead3 x i = pm_abs x * 2 ^ 32" using d1 by (simp add: lead3_def j 0)
    then show ?thesis by (simp add: j 0)
  next
    case (Suc s)
    have "lead3 x i = pm_abs x div 2 ^ (32 * s)" using digit_join [OF assms(1), of s] assms(3) d1 by (simp add: lead3_def j Suc)
    moreover have "(2 :: int) ^ (32 * i) = 2 ^ (32 * s) * 2 ^ 64" by (simp add: j Suc power_add)
    ultimately show ?thesis using div_bounds [of "2 ^ (32 * s)" "pm_abs x"] by (simp add: mult.assoc [symmetric])
  qed
  then show "lead3 x i * 2 ^ (32 * i) \<le> pm_abs x * 2 ^ 64" "pm_abs x * 2 ^ 64 < (lead3 x i + 1) * 2 ^ (32 * i)" by blast+
qed

section \<open>The loop of the estimate\<close>

lemma qhat_left_spec:
  assumes "pm_wf t1" and "2 \<le> pm_alloc t1"
  shows "pstm_ok (qhat_left y t q t1)" and "pm_abs (qhat_left y t q t1) = uint q * lead2 y t"
    and "pm_alloc (qhat_left y t q t1) = max 3 (pm_alloc t1)" and "pm_used (qhat_left y t q t1) \<le> 3"
proof -
  let ?a = "if t = 0 then 0 else pm_dp y ! (t - 1)" and ?b = "pm_dp y ! t"
  let ?z = "(pstm_zero t1)\<lparr>pm_dp := (replicate (pm_alloc t1) 0)[0 := ?a, 1 := ?b], pm_used := 2\<rparr>"
  obtain n where n: "pm_alloc t1 = Suc (Suc n)" using assms(2) by (cases "pm_alloc t1"; cases "pm_alloc t1 - 1") auto
  have dp: "pm_dp ?z = ?a # ?b # replicate n 0" by (simp add: n)
  have z: "pm_alloc ?z = pm_alloc t1" "pm_used ?z = 2" "pm_sign ?z = PSTM_ZPOS" by (simp_all add: pstm_zero_def)
  have w: "pm_wf ?z" by (rule pm_wfI) (use z n in \<open>simp_all add: dp numeral_2_eq_2\<close>)
  have v: "pm_abs ?z = lead2 y t" unfolding pm_abs_def pm_digits_def dp z by (simp add: lead2_def numeral_2_eq_2)
  have e: "qhat_left y t q t1 = pstm_mul_d ?z q ?z" unfolding qhat_left_def Let_def ..
  have "pm_used ?z < 4096" using z by simp
  from pstm_mul_d_spec [OF w w this, of q] show ok: "pstm_ok (qhat_left y t q t1)" and v': "pm_abs (qhat_left y t q t1) = uint q * lead2 y t"
    and "pm_alloc (qhat_left y t q t1) = max 3 (pm_alloc t1)" unfolding e using v z by simp_all
  have "pm_abs ?z < 2 ^ (32 * pm_used ?z)" by (rule pm_abs_upper [OF w])
  then have "lead2 y t < 2 ^ 64" unfolding v z by simp
  then have "uint q * lead2 y t < 2 ^ 32 * 2 ^ 64" using uint_lt2p [of q] v pm_abs_ge [of ?z] by (intro mult_strict_mono) simp_all
  then show "pm_used (qhat_left y t q t1) \<le> 3" using pm_used_le [OF ok, of 3] v' by simp
qed

lemma lead_ge: "0 \<le> lead3 x i" "0 \<le> lead2 y t"
  unfolding lead3_def lead2_def by (intro add_nonneg_nonneg; simp)+

lemma qhat_compare:
  fixes y x t1 :: pstm_int and t i :: nat and q :: u32
  assumes "pm_wf t1" and "2 \<le> pm_alloc t1"
  defines "c \<equiv> pstm_cmp_mag (qhat_left y t q t1) (qhat_right x i)"
  shows "c = PSTM_GT \<Longrightarrow> lead3 x i < uint q * lead2 y t"
    and "c \<noteq> PSTM_GT \<Longrightarrow> pm_dp x ! i \<noteq> 0 \<Longrightarrow> uint q * lead2 y t \<le> lead3 x i"
proof -
  let ?l = "qhat_left y t q t1" and ?r = "qhat_right x i"
  note l = qhat_left_spec [OF assms(1,2), of y t q]
  have r: "wval (take 3 (pm_dp ?r)) = lead3 x i"
    by (simp add: qhat_right_def lead3_def)
  have eq: "c = sgn (uint q * lead2 y t - lead3 x i)" if "pm_used ?l = 3"
  proof -
    have "length (pm_dp ?l) \<ge> 3" using that pm_used_alloc [OF pstm_ok_wf [OF l(1)]] l(1) by simp
    then have "cmp_loop (pm_dp ?l) (pm_dp ?r) (rev [0..<3]) = sgn (wval (take 3 (pm_dp ?l)) - wval (take 3 (pm_dp ?r)))"
      by (intro cmp_loop_value) (simp_all add: qhat_right_def)
    moreover have "wval (take 3 (pm_dp ?l)) = uint q * lead2 y t" using l(2) that by (simp add: pm_abs_def pm_digits_def)
    ultimately show ?thesis using that unfolding c_def pstm_cmp_mag_def r by (simp add: qhat_right_def)
  qed
  have less: "c = PSTM_LT" "uint q * lead2 y t < 2 ^ 64" if "pm_used ?l \<noteq> 3"
  proof -
    have "pm_used ?l \<le> 2" using that l(4) by simp
    then show "uint q * lead2 y t < 2 ^ 64" using pm_used_le [OF l(1), of 2] l(2) by simp
    show "c = PSTM_LT" using \<open>pm_used ?l \<le> 2\<close> by (simp add: c_def pstm_cmp_mag_def qhat_right_def)
  qed
  show "lead3 x i < uint q * lead2 y t" if "c = PSTM_GT"
    using that eq less by (cases "pm_used ?l = 3") (auto simp: sgn_if split: if_splits)
  show "uint q * lead2 y t \<le> lead3 x i" if "c \<noteq> PSTM_GT" "pm_dp x ! i \<noteq> 0"
  proof (cases "pm_used ?l = 3")
    case True
    then show ?thesis using that(1) eq by (auto simp: sgn_if split: if_splits)
  next
    case False
    have "1 \<le> uint (pm_dp x ! i)" using that(2) by (simp add: word_neq_0_conv word_less_def)
    then have "2 ^ 64 \<le> lead3 x i" by (auto simp: lead3_def intro!: add_nonneg_nonneg add_increasing2)
    then show ?thesis using less(2) False by simp
  qed
qed

lemma qhat_loop_spec:
  assumes W: "0 < W" and lb: "\<And>q :: u32. lead3 x i < uint q * lead2 y t \<Longrightarrow> X < uint q * W"
  shows "pm_wf t1 \<Longrightarrow> 2 \<le> pm_alloc t1 \<Longrightarrow> X div W \<le> uint q \<Longrightarrow>
    case qhat_loop y t x i q t1 of (q', t1') \<Rightarrow> X div W \<le> uint q' \<and> uint q' \<le> uint q \<and> pm_wf t1' \<and> 2 \<le> pm_alloc t1'
      \<and> (pm_dp x ! i \<noteq> 0 \<longrightarrow> uint q' * lead2 y t \<le> lead3 x i)"
proof (induction "unat q" arbitrary: q t1 rule: less_induct)
  case less
  let ?t = "qhat_left y t q t1"
  note l = qhat_left_spec [OF less.prems(1,2), of y t q] and c = qhat_compare [OF less.prems(1,2), of y t q x i]
  show ?case
  proof (cases "pstm_cmp_mag ?t (qhat_right x i) = PSTM_GT")
    case True
    have "X < uint q * W" by (rule lb [OF c(1) [OF True]])
    then have "X div W < uint q" using W by (intro int_div_less)
    moreover have "q \<noteq> 0" using c(1) [OF True] lead_ge(1) [of x i] by auto
    then have u: "uint (q - 1) = uint q - 1" by (auto simp: uint_sub_wrap word_neq_0_conv word_less_def)
    moreover have "unat (q - 1) < unat q" using \<open>q \<noteq> 0\<close> by (simp add: measure_unat)
    ultimately have "case qhat_loop y t x i (q - 1) ?t of (q', t1') \<Rightarrow> X div W \<le> uint q' \<and> uint q' \<le> uint (q - 1) \<and> pm_wf t1' \<and> 2 \<le> pm_alloc t1'
      \<and> (pm_dp x ! i \<noteq> 0 \<longrightarrow> uint q' * lead2 y t \<le> lead3 x i)"
      using less.hyps [of "q - 1" ?t] l by simp
    moreover have "qhat_loop y t x i q t1 = qhat_loop y t x i (q - 1) ?t" using True by (subst qhat_loop.simps) (simp add: Let_def)
    ultimately show ?thesis using u by (auto split: prod.splits)
  next
    case False
    then have "qhat_loop y t x i q t1 = (q, ?t)" by (subst qhat_loop.simps) (simp add: Let_def)
    then show ?thesis using l c(2) False less.prems(3) by simp
  qed
qed

section \<open>A digit of the quotient\<close>

text \<open>The first estimate, from two digits of the dividend and one of the divisor.\<close>

definition first_qhat :: "pstm_int \<Rightarrow> nat \<Rightarrow> pstm_int \<Rightarrow> nat \<Rightarrow> u32" where
  "first_qhat y t x i =
     (if pm_dp x ! i = pm_dp y ! t then ucast (push_bit 32 1 - 1 :: u64)
      else ucast ((push_bit 32 (ucast (pm_dp x ! i)) OR ucast (pm_dp x ! (i - 1)) :: u64) div ucast (pm_dp y ! t)))"

lemma join_digits: "uint (push_bit 32 (ucast h) OR ucast l :: u64) = uint h * 2 ^ 32 + uint l" for h l :: u32
proof -
  have "push_bit 32 (ucast h) OR ucast l = push_bit 32 (ucast h) + (ucast l :: u64)"
    by (rule disjunctive_add [symmetric]) (auto simp: bit_simps dest: bit_imp_le_length)
  moreover have "uint (push_bit 32 (ucast h) :: u64) = uint h * 2 ^ 32"
    using uint_lt2p [of h] by (simp add: push_bit_eq_mult uint_word_ariths uint_ucast_32_64)
  ultimately show ?thesis using uint_lt2p [of h] uint_lt2p [of l] by (simp add: uint_add_wrap uint_ucast_32_64)
qed

text \<open>What the step relies on: the divisor \<open>y\<close> with a leading digit of 31 bits, and a dividend below \<open>y * 2 ^ (32 * (i - t))\<close>.\<close>

definition div_state :: "pstm_int \<Rightarrow> nat \<Rightarrow> pstm_int \<Rightarrow> nat \<Rightarrow> bool" where
  "div_state y t x i \<longleftrightarrow> pstm_ok y \<and> pm_used y = Suc t \<and> pm_sign y = PSTM_ZPOS \<and> 2 ^ (32 * t + 30) \<le> pm_abs y \<and> pm_abs y < 2 ^ (32 * t + 31)
     \<and> Suc t < 4096 \<and> pstm_ok x \<and> pm_sign x = PSTM_ZPOS \<and> t < i \<and> i < pm_alloc x \<and> pm_abs x < pm_abs y * 2 ^ (32 * (i - t))"

lemma div_stateD:
  assumes "div_state y t x i"
  shows "pm_wf y" and "pm_wf x" and "t < pm_alloc y" and "pm_abs x < 2 ^ (32 * Suc i)" and "pm_abs y < 2 ^ (32 * Suc t)"
    and "uint (pm_dp y ! t) = pm_abs y div 2 ^ (32 * t)" and "uint (pm_dp x ! i) = pm_abs x div 2 ^ (32 * i)"
    and "2 ^ 30 \<le> uint (pm_dp y ! t)" and "uint (pm_dp x ! i) \<le> uint (pm_dp y ! t)"
proof -
  note d = assms [unfolded div_state_def]
  show w: "pm_wf y" "pm_wf x" using d by simp_all
  show ty: "t < pm_alloc y" using pm_used_alloc [OF w(1)] d by simp
  have "pm_abs y < 2 ^ (32 * t + 31)" using d by blast
  also have "\<dots> \<le> 2 ^ (32 * Suc t)" by (intro power_increasing) simp_all
  finally show y: "pm_abs y < 2 ^ (32 * Suc t)" .
  have "pm_abs y * 2 ^ (32 * (i - t)) < 2 ^ (32 * Suc t) * 2 ^ (32 * (i - t))" using y by simp
  also have "\<dots> = 2 ^ (32 * Suc i)" using d unfolding power_add [symmetric] by (intro arg_cong [where f = "power 2"]) auto
  finally show x: "pm_abs x < 2 ^ (32 * Suc i)" using d by linarith
  show ut: "uint (pm_dp y ! t) = pm_abs y div 2 ^ (32 * t)" by (rule top_digit [OF w(1) y ty])
  show ui: "uint (pm_dp x ! i) = pm_abs x div 2 ^ (32 * i)" by (rule top_digit [OF w(2) x]) (use d in blast)
  have "2 ^ 30 * 2 ^ (32 * t) \<le> pm_abs y" using d by (simp add: power_add mult.commute)
  then have "2 ^ 30 * 2 ^ (32 * t) div 2 ^ (32 * t) \<le> pm_abs y div 2 ^ (32 * t)" by (rule zdiv_mono1) simp
  then show "2 ^ 30 \<le> uint (pm_dp y ! t)" unfolding ut by simp
  have e: "(2 :: int) ^ (32 * i) = 2 ^ (32 * t) * 2 ^ (32 * (i - t))" using d unfolding power_add [symmetric] by (intro arg_cong [where f = "power 2"]) auto
  have "pm_abs x div 2 ^ (32 * i) \<le> (pm_abs y * 2 ^ (32 * (i - t))) div 2 ^ (32 * i)" using d by (intro zdiv_mono1) (auto intro: less_imp_le)
  also have "\<dots> = pm_abs y div 2 ^ (32 * t)" unfolding e by simp
  finally show "uint (pm_dp x ! i) \<le> uint (pm_dp y ! t)" unfolding ut ui .
qed

lemma first_qhat_bounds:
  assumes "div_state y t x i"
  defines "W \<equiv> pm_abs y * 2 ^ (32 * (i - t - 1))"
  shows "pm_abs x div W \<le> uint (first_qhat y t x i)"
    and "pm_dp x ! i = 0 \<Longrightarrow> 0 < uint (first_qhat y t x i) \<Longrightarrow> (uint (first_qhat y t x i) - 1) * W \<le> pm_abs x"
proof -
  let ?X = "pm_abs x" and ?h = "uint (pm_dp x ! i)" and ?l = "uint (pm_dp x ! (i - 1))" and ?v = "uint (pm_dp y ! t)"
  note d = assms(1) [unfolded div_state_def] and s = div_stateD [OF assms(1)]
  define B :: int where "B = 2 ^ (32 * (i - 1))"
  define U where "U = ?h * 2 ^ 32 + ?l"
  have i: "0 < i" "t \<le> i - 1" using d by auto
  have Bt: "B = 2 ^ (32 * t) * 2 ^ (32 * (i - t - 1))" using i d unfolding B_def power_add [symmetric] by (intro arg_cong [where f = "power 2"]) auto
  have U: "U = ?X div B"
  proof -
    have "i - 1 < pm_alloc x" using d by auto
    then show ?thesis using digit_join [OF s(2), of "i - 1"] i s(7) by (simp add: U_def B_def)
  qed
  have Ub: "U * B \<le> ?X" "?X < (U + 1) * B" using div_bounds [of B ?X] by (simp_all add: U B_def)
  have Wb: "?v * B \<le> W" "W < (?v + 1) * B"
  proof -
    have v: "?v * 2 ^ (32 * t) \<le> pm_abs y" "pm_abs y < (?v + 1) * 2 ^ (32 * t)" using div_bounds [of "2 ^ (32 * t)" "pm_abs y"] s(6) by simp_all
    show "?v * B \<le> W" using v(1) by (simp add: W_def Bt mult.assoc [symmetric])
    show "W < (?v + 1) * B" using v(2) by (simp add: W_def Bt mult.assoc [symmetric])
  qed
  have vpos: "0 < ?v" using s(8) by simp
  have Bpos: "0 < B" by (simp add: B_def)
  have Wpos: "0 < W" using Wb(1) vpos Bpos by (meson mult_pos_pos order_less_le_trans)
  have small: "?X div W < 2 ^ 32"
  proof (rule int_div_less [OF _ Wpos])
    have "2 ^ 32 * W = pm_abs y * 2 ^ (32 * (i - t))"
    proof -
      have "(2 :: int) ^ (32 * (i - t)) = 2 ^ 32 * 2 ^ (32 * (i - t - 1))" using d unfolding power_add [symmetric] by (intro arg_cong [where f = "power 2"]) auto
      then show ?thesis by (simp add: W_def)
    qed
    then show "?X < 2 ^ 32 * W" using d by simp
  qed
  have eq: "uint (first_qhat y t x i) = U div ?v" if "pm_dp x ! i \<noteq> pm_dp y ! t"
  proof -
    have "?h < ?v" using s(9) that by (simp add: word_uint_eq_iff)
    then have "U < 2 ^ 32 * ?v"
    proof -
      have "?h * 2 ^ 32 \<le> (?v - 1) * 2 ^ 32" using \<open>?h < ?v\<close> by (intro mult_right_mono) simp_all
      then show ?thesis using uint_lt2p [of "pm_dp x ! (i - 1)"] unfolding U_def by simp
    qed
    then have "U div ?v < 2 ^ 32" using vpos by (intro int_div_less)
    moreover have "0 \<le> U div ?v" using vpos by (simp add: U_def pos_imp_zdiv_nonneg_iff)
    moreover have "uint (first_qhat y t x i) = U div ?v mod 2 ^ 32"
      using that by (simp only: first_qhat_def if_False uint_ucast_64_32 uint_div join_digits uint_ucast_32_64 U_def)
    ultimately show ?thesis by simp
  qed
  show "?X div W \<le> uint (first_qhat y t x i)"
  proof (cases "pm_dp x ! i = pm_dp y ! t")
    case True
    have "ucast (push_bit 32 1 - 1 :: u64) = (- 1 :: u32)" by code_simp
    then have "uint (first_qhat y t x i) = 2 ^ 32 - 1" using True by (simp add: first_qhat_def)
    then show ?thesis using small by simp
  next
    case False
    have "?X div W * (?v * B) \<le> ?X div W * W" using Wb(1) Wpos by (intro mult_left_mono) (simp_all add: pos_imp_zdiv_nonneg_iff)
    also have "\<dots> \<le> ?X" using div_bounds [OF Wpos, of ?X] by simp
    also have "\<dots> < (U + 1) * B" by (rule Ub(2))
    finally have "?X div W * ?v < U + 1" using Bpos by (simp add: mult.assoc [symmetric])
    then have "?X div W * ?v div ?v \<le> U div ?v" using vpos by (intro zdiv_mono1) simp_all
    then show ?thesis using eq False vpos by simp
  qed
  show "(uint (first_qhat y t x i) - 1) * W \<le> ?X" if z: "pm_dp x ! i = 0" and pos: "0 < uint (first_qhat y t x i)"
  proof -
    have ne: "pm_dp x ! i \<noteq> pm_dp y ! t" using z vpos by (auto simp: word_uint_eq_iff)
    define q where "q = U div ?v"
    have q: "uint (first_qhat y t x i) = q" using eq [OF ne] by (simp add: q_def)
    have qv: "q * ?v \<le> U" using div_bounds [OF vpos, of U] by (simp add: q_def)
    have "U < 2 ^ 32" using z uint_lt2p [of "pm_dp x ! (i - 1)"] by (simp add: U_def)
    then have "U < 4 * ?v" using s(8) by simp
    then have "q < 4" unfolding q_def using vpos by (intro int_div_less)
    then have "q \<le> ?v + 1" using s(8) by simp
    have "(q - 1) * W \<le> (q - 1) * ((?v + 1) * B)" using Wb(2) pos q by (intro mult_left_mono) simp_all
    also have "\<dots> = ((q - 1) * (?v + 1)) * B" by (simp only: mult.assoc)
    also have "\<dots> \<le> U * B"
    proof (rule mult_right_mono)
      have "(q - 1) * (?v + 1) = q * ?v + (q - 1 - ?v)" by (simp add: algebra_simps)
      then show "(q - 1) * (?v + 1) \<le> U" using qv \<open>q \<le> ?v + 1\<close> by linarith
    qed (use Bpos in simp)
    also have "\<dots> \<le> ?X" by (rule Ub(1))
    finally show ?thesis unfolding q .
  qed
qed

section \<open>A step of the division\<close>

lemma div_step_skip:
  assumes "div_state y t x i" and "pm_used x < i"
  shows "pm_abs x mod (pm_abs y * 2 ^ (32 * (i - t - 1))) = pm_abs x"
proof -
  note d = assms(1) [unfolded div_state_def]
  have "pm_abs x < 2 ^ (32 * (i - 1))" using pm_used_le [of x "i - 1"] assms(2) d by auto
  also have "(2 :: int) ^ (32 * (i - 1)) = 2 ^ (32 * t) * 2 ^ (32 * (i - t - 1))" using d unfolding power_add [symmetric] by (intro arg_cong [where f = "power 2"]) auto
  also have "\<dots> \<le> pm_abs y * 2 ^ (32 * (i - t - 1))"
    using pm_abs_lower [of y] d by (intro mult_right_mono) auto
  finally show ?thesis by simp
qed

text \<open>Subtracting \<open>q * W\<close>, and adding \<open>W\<close> when the result is negative.\<close>

lemma pstm_sub_pos:
  assumes "pstm_ok x" and "pm_sign x = PSTM_ZPOS" and "pm_wf z" and "pm_sign z = PSTM_ZPOS" and "pm_abs z \<le> pm_abs x"
    and "pstm_ok z \<or> pm_used z < pm_used x" and "pm_abs z = 0 \<or> pm_used x \<le> pm_used z + 1"
  obtains r where "pstm_sub True x z x = Inr r" and "pstm_ok r" and "pm_sign r = PSTM_ZPOS" and "pm_abs r = pm_abs x - pm_abs z" and "pm_alloc r = pm_alloc x"
proof -
  have w: "pm_wf x" using assms(1) by simp
  have u: "pm_used z \<le> pm_used x" using assms(5,6) pm_used_le [of z "pm_used x"] pm_abs_upper [OF w] by auto
  have c: "pstm_cmp_mag x z \<noteq> PSTM_LT"
  proof (cases "pstm_ok z")
    case True
    then show ?thesis using pstm_cmp_mag_spec [OF assms(1) True] assms(5) by (simp add: sgn_if)
  next
    case False
    then show ?thesis using assms(6) by (simp add: pstm_cmp_mag_def)
  qed
  have "borrow_fits (pm_digits x) (pm_digits z)"
    using assms(7) borrow_fits_used [OF w assms(3)] by (auto simp: borrow_fits_def pm_abs_def)
  moreover have xe: "x\<lparr>pm_sign := PSTM_ZPOS\<rparr> = x" using assms(2) by simp
  ultimately obtain r where r: "s_pstm_sub x z x = Inr r" "pstm_ok r" "pm_abs r = pm_abs x - pm_abs z" "pm_sign r = (pm_sign x \<and> pm_abs x \<noteq> pm_abs z)"
    "pm_alloc r = max (pm_used x) (pm_alloc x)"
    using s_pstm_sub_spec [OF w assms(3) w u assms(5)] by metis
  have "pstm_sub True x z x = Inr r" using c assms(2,4) r(1) by (simp add: pstm_sub_def xe)
  then show thesis using that r assms(2) pm_used_alloc [OF w] by simp
qed

lemma pstm_sub_neg:
  assumes "pstm_ok x" and "pm_sign x = PSTM_ZPOS" and "pstm_ok z" and "pm_sign z = PSTM_ZPOS" and "pm_abs x < pm_abs z" and "pm_used z \<le> pm_used x + 1"
  obtains r where "pstm_sub True x z x = Inr r" and "pstm_ok r" and "pm_sign r = PSTM_NEG" and "pm_abs r = pm_abs z - pm_abs x"
    and "pm_alloc x \<le> pm_alloc r"
proof -
  let ?c = "x\<lparr>pm_sign := PSTM_NEG\<rparr>"
  have w: "pm_wf ?c" "borrow_fits (pm_digits z) (pm_digits x)" using assms by (simp_all add: borrow_fits_used)
  obtain r where r: "s_pstm_sub z x ?c = Inr r" "pstm_ok r" "pm_abs r = pm_abs z - pm_abs x" "pm_sign r = (pm_sign ?c \<and> pm_abs z \<noteq> pm_abs x)"
    "pm_alloc r = max (pm_used z) (pm_alloc ?c)" using s_pstm_sub_ok [OF assms(3,1) w(1) _ w(2)] assms(5) by (metis less_imp_le)
  have "pstm_sub True x z x = Inr r" using pstm_cmp_mag_spec [OF assms(1,3)] assms(2,4,5) r(1) by (simp add: pstm_sub_def)
  then show thesis using that r assms(5) by simp
qed

lemma pstm_add_back:
  assumes "pstm_ok x" and "pm_sign x = PSTM_NEG" and "pstm_ok z" and "pm_sign z = PSTM_ZPOS" and "pm_abs x \<le> pm_abs z" and "pm_used z \<le> pm_used x + 1"
  obtains r where "pstm_add True x z x = Inr r" and "pstm_ok r" and "pm_sign r = PSTM_ZPOS" and "pm_abs r = pm_abs z - pm_abs x"
    and "pm_alloc x \<le> pm_alloc r"
proof -
  let ?s = "pm_abs x = pm_abs z"
  let ?c = "x\<lparr>pm_sign := PSTM_ZPOS\<rparr>"
  have w: "pm_wf ?c" "borrow_fits (pm_digits z) (pm_digits x)" using assms by (simp_all add: borrow_fits_used)
  show thesis
  proof (cases ?s)
    case True
    have u: "pm_used x = pm_used z"
      using True pm_used_le [OF assms(1), of "pm_used z"] pm_used_le [OF assms(3), of "pm_used x"] pm_abs_upper [of x] pm_abs_upper [of z] assms(1,3) by simp
    then have "borrow_fits (pm_digits x) (pm_digits z)" using assms by (simp add: borrow_fits_used)
    moreover have xe: "x\<lparr>pm_sign := PSTM_NEG\<rparr> = x" using assms(2) by simp
    ultimately obtain r where r: "s_pstm_sub x z x = Inr r" "pstm_ok r" "pm_abs r = pm_abs x - pm_abs z" "pm_sign r = (pm_sign x \<and> pm_abs x \<noteq> pm_abs z)"
      "pm_alloc r = max (pm_used x) (pm_alloc x)" using s_pstm_sub_ok [OF assms(1,3) pstm_ok_wf [OF assms(1)]] True by (metis order_refl)
    have "pstm_add True x z x = Inr r"
      using pstm_cmp_mag_spec [OF assms(1,3)] assms(2,4) True r(1) by (simp add: pstm_add_def xe)
    then show thesis using that r True by simp
  next
    case False
    obtain r where r: "s_pstm_sub z x ?c = Inr r" "pstm_ok r" "pm_abs r = pm_abs z - pm_abs x" "pm_sign r = (pm_sign ?c \<and> pm_abs z \<noteq> pm_abs x)"
      "pm_alloc r = max (pm_used z) (pm_alloc ?c)" using s_pstm_sub_ok [OF assms(3,1) w(1) assms(5) w(2)] by metis
    have "pstm_add True x z x = Inr r"
      using pstm_cmp_mag_spec [OF assms(1,3)] assms(2,4,5) False r(1) by (simp add: pstm_add_def)
    then show thesis using that r by simp
  qed
qed


text \<open>The estimate that the test of the leading digits leaves is at most one too large.\<close>

lemma qhat_close:
  assumes st: "div_state y t x i" and t1: "pm_wf t1" "2 \<le> pm_alloc t1" and ql: "qhat_loop y t x i (first_qhat y t x i) t1 = (q, t1')"
  defines "W \<equiv> pm_abs y * 2 ^ (32 * (i - t - 1))"
  shows "uint q = pm_abs x div W \<or> uint q = pm_abs x div W + 1" and "pm_wf t1'" and "2 \<le> pm_alloc t1'" and "0 < W"
proof -
  let ?X = "pm_abs x" and ?V2 = "lead2 y t" and ?U3 = "lead3 x i" and ?q0 = "first_qhat y t x i"
  define k where "k = i - t - 1"
  have Wk: "W = pm_abs y * 2 ^ (32 * k)" by (simp add: W_def k_def)
  note d = st [unfolded div_state_def] and s = div_stateD [OF st]
  have i: "0 < i" "t < i" "i < pm_alloc x" using d by simp_all
  have "0 < pm_abs y" using d by (metis less_le_trans zero_less_numeral zero_less_power)
  then show Wpos: "0 < W" by (simp add: W_def)
  have pk: "(2 :: int) ^ (32 * i) = 2 ^ (32 * t) * (2 ^ 32 * 2 ^ (32 * k))"
    using i(2) unfolding power_add [symmetric] k_def by (intro arg_cong [where f = "power 2"]) auto
  have "W * 2 ^ 64 = (pm_abs y * 2 ^ 32) * (2 ^ 32 * 2 ^ (32 * k))" by (simp add: Wk)
  then have Wb: "?V2 * 2 ^ (32 * i) \<le> W * 2 ^ 64" "W * 2 ^ 64 < (?V2 + 1) * 2 ^ (32 * i)"
    using lead2_bounds [OF s(1,5,3)] unfolding pk mult.assoc [symmetric, of _ "2 ^ (32 * t)"] by simp_all
  note Xb = lead3_bounds [OF s(2,4) i(3,1)]
  have lb: "?X < uint q * W" if "?U3 < uint q * ?V2" for q :: u32
    by (rule estimate_too_large [OF Wb(1) Xb(2) that]) simp_all
  have "case qhat_loop y t x i ?q0 t1 of (q', t1') \<Rightarrow> ?X div W \<le> uint q' \<and> uint q' \<le> uint ?q0 \<and> pm_wf t1' \<and> 2 \<le> pm_alloc t1'
      \<and> (pm_dp x ! i \<noteq> 0 \<longrightarrow> uint q' * ?V2 \<le> ?U3)"
    by (rule qhat_loop_spec [OF Wpos _ t1]) (use lb first_qhat_bounds(1) [OF st] in \<open>simp_all add: W_def\<close>)
  then have q: "?X div W \<le> uint q" "uint q \<le> uint ?q0" "pm_dp x ! i \<noteq> 0 \<longrightarrow> uint q * ?V2 \<le> ?U3" and t1': "pm_wf t1'" "2 \<le> pm_alloc t1'"
    using ql by simp_all
  show "pm_wf t1'" "2 \<le> pm_alloc t1'" by (rule t1')+
  show "uint q = ?X div W \<or> uint q = ?X div W + 1"
  proof (cases "uint q = 0")
    case True
    then show ?thesis using q(1) Wpos pos_imp_zdiv_nonneg_iff [OF Wpos, of ?X] by simp
  next
    case False
    then have qpos: "0 < uint q" by (simp add: less_le)
    have "(uint q - 1) * W \<le> ?X"
    proof (cases "pm_dp x ! i = 0")
      case True
      have "(uint q - 1) * W \<le> (uint ?q0 - 1) * W" using q(2) Wpos by (intro mult_right_mono) simp_all
      also have "\<dots> \<le> ?X" using first_qhat_bounds(2) [OF st True] q(2) qpos by (simp add: W_def)
      finally show ?thesis .
    next
      case False
      have "uint (pm_dp y ! t) * 2 ^ 32 \<le> ?V2" by (simp add: lead2_def)
      then have "2 ^ 32 \<le> ?V2" using s(8) by simp
      then show ?thesis using q(3) False uint_lt2p [of q] qpos by (intro estimate_close [OF Wb(2) Xb(1)]) simp_all
    qed
    then show ?thesis by (rule div_close [OF Wpos q(1)])
  qed
qed

text \<open>What one step does with the estimate, when there is a digit to divide.\<close>

definition take_back :: "pstm_int \<Rightarrow> pstm_int \<Rightarrow> pstm_int \<Rightarrow> u32 \<Rightarrow> nat \<Rightarrow> u32 list \<Rightarrow> ps_error + (pstm_int \<times> pstm_int \<times> u32 list)" where
  "take_back x y z q k qdp = ps_bind (pstm_sub True x z x) (\<lambda>x.
     if pm_sign x = PSTM_NEG
     then let t1 = pstm_lshd (pstm_copy y z) k in ps_bind (pstm_add True x t1 x) (\<lambda>x. Inr (x, t1, qdp[k := q - 1]))
     else Inr (x, z, qdp[k := q]))"

lemma div_step_estimate:
  assumes "div_state y t x i" and "i \<le> pm_used x" and "pm_wf t1" and "2 \<le> pm_alloc t1" and "qhat_loop y t x i (first_qhat y t x i) t1 = (q, t1')"
  shows "div_step y t i (x, t1, qdp) = take_back x y (pstm_lshd (pstm_mul_d y q t1') (i - t - 1)) q (i - t - 1) qdp"
proof -
  note s = div_stateD [OF assms(1)]
  have "pm_dp y ! t \<noteq> 0" using s(8) by auto
  then have g: "i < length (pm_dp x) \<and> t < length (pm_dp y) \<and> 2 \<le> length (pm_dp t1) \<and> pm_dp y ! t \<noteq> 0" "\<not> pm_used x < i"
    using assms s by (simp_all add: div_state_def)
  have q1: "first_qhat y t x i + 1 - 1 = first_qhat y t x i" by simp
  show ?thesis
    unfolding div_step_def first_qhat_def [symmetric] prod.case q1 ps_within_def Let_def assms(5) take_back_def
    using g by (simp only: if_True if_False simp_thms)
qed

lemma take_back_exact:
  assumes x: "pstm_ok x" "pm_sign x = PSTM_ZPOS" and z: "pm_wf z" "pm_sign z = PSTM_ZPOS" "pm_abs z = pm_abs x div W * W" and W: "0 < W"
    and norm: "pstm_ok z \<or> pm_abs z = 0 \<and> pm_used z < pm_used x"
  obtains r where "take_back x y z q k qdp = Inr (r, z, qdp[k := q])" and "pstm_ok r" and "pm_sign r = PSTM_ZPOS" and "pm_abs r = pm_abs x mod W"
    and "pm_alloc r = pm_alloc x"
proof -
  let ?X = "pm_abs x"
  have le: "pm_abs z \<le> ?X" unfolding z(3) using div_bounds [OF W, of ?X] by simp
  have fit: "pm_abs z = 0 \<or> pm_used x \<le> pm_used z + 1"
  proof (cases "pm_abs z = 0")
    case False
    then have "0 < ?X div W" using z(3) pos_imp_zdiv_nonneg_iff [OF W, of ?X] by (auto simp: less_le)
    then have "1 * W \<le> pm_abs z" unfolding z(3) using W by (intro mult_right_mono) simp_all
    moreover have "?X < (?X div W + 1) * W" using div_bounds [OF W, of ?X] by simp
    ultimately have "?X < 2 * pm_abs z" unfolding z(3) by (simp add: distrib_right)
    also have "\<dots> < 2 * 2 ^ (32 * pm_used z)" using pm_abs_upper [OF z(1)] by linarith
    also have "\<dots> \<le> 2 ^ 32 * 2 ^ (32 * pm_used z)" by simp
    finally have "?X < 2 ^ (32 * (pm_used z + 1))" by (simp add: power_add)
    then show ?thesis using pm_used_le [OF x(1)] by simp
  qed simp
  have "pstm_ok z \<or> pm_used z < pm_used x" using norm by blast
  then obtain r where r: "pstm_sub True x z x = Inr r" "pstm_ok r" "pm_sign r = PSTM_ZPOS" "pm_abs r = ?X - pm_abs z" "pm_alloc r = pm_alloc x"
    using pstm_sub_pos [OF x z(1,2) le _ fit] by metis
  have "pm_abs r = ?X mod W" unfolding r(4) z(3) by (simp add: minus_div_mult_eq_mod)
  then show thesis using that r by (simp add: take_back_def)
qed

lemma take_back_over:
  assumes x: "pstm_ok x" "pm_sign x = PSTM_ZPOS" and z: "pstm_ok z" "pm_sign z = PSTM_ZPOS" "pm_abs z = (pm_abs x div W + 1) * W" and W: "0 < W"
    and u: "pm_used z \<le> pm_used x + 1" and y: "pstm_ok y" "pm_sign y = PSTM_ZPOS" "pm_abs y * 2 ^ (32 * k) = W"
    and clear: "2 ^ (32 * (pm_used y + k - 2)) \<le> W - pm_abs x mod W"
  obtains v w where "take_back x y z q k qdp = Inr (v, w, qdp[k := q - 1])" and "pstm_ok v" and "pm_sign v = PSTM_ZPOS" and "pm_abs v = pm_abs x mod W"
    and "pm_alloc x \<le> pm_alloc v" and "pm_wf w" and "pm_alloc z \<le> pm_alloc w"
proof -
  let ?X = "pm_abs x"
  have gt: "?X < pm_abs z" unfolding z(3) using div_bounds [OF W, of ?X] by simp
  obtain r where r: "pstm_sub True x z x = Inr r" "pstm_ok r" "pm_sign r = PSTM_NEG" "pm_abs r = pm_abs z - ?X" "pm_alloc x \<le> pm_alloc r"
    using pstm_sub_neg [OF x z(1,2) gt u] by metis
  have rm: "pm_abs r = W - ?X mod W"
  proof -
    have "?X div W * W + ?X mod W = ?X" by simp
    then show ?thesis unfolding r(4) z(3) distrib_right by linarith
  qed
  note cp = pstm_copy_spec [OF y(1) pstm_ok_wf [OF z(1)]]
  define w where "w = pstm_lshd (pstm_copy y z) k"
  note wl = pstm_lshd_spec [OF cp(1), of k, folded w_def]
  have "0 < pm_abs y" using W y(3) by (metis mult_zero_left not_less pm_abs_ge order_le_less)
  then have "pm_used y \<noteq> 0" using pm_used_zero [OF y(1)] by simp
  then have w: "pstm_ok w" "pm_abs w = W" "pm_sign w = PSTM_ZPOS" "pm_alloc z \<le> pm_alloc w" "pm_used w = pm_used y + k"
    using wl cp y by (simp_all add: mult.commute)
  have "pm_used y + k - 2 < pm_used r" using clear pm_used_less [OF r(2)] rm by simp
  then have "pm_used w \<le> pm_used r + 1" unfolding w(5) by linarith
  moreover have "pm_abs r \<le> pm_abs w" unfolding rm w(2) using W by simp
  ultimately obtain v where v: "pstm_add True r w r = Inr v" "pstm_ok v" "pm_sign v = PSTM_ZPOS" "pm_abs v = pm_abs w - pm_abs r" "pm_alloc r \<le> pm_alloc v"
    using pstm_add_back [OF r(2,3) w(1,3)] by metis
  have "pm_abs v = ?X mod W" unfolding v(4) w(2) rm by simp
  then show thesis using that [of v w] r v w wl(1) by (simp add: take_back_def w_def Let_def)
qed

lemma div_step_spec:
  assumes st: "div_state y t x i" and t1: "pm_wf t1" "2 \<le> pm_alloc t1"
  defines "k \<equiv> i - t - 1"
  defines "W \<equiv> pm_abs y * 2 ^ (32 * k)"
  assumes clear: "2 ^ (32 * (i - 2)) \<le> W - pm_abs x mod W"
  obtains x' t1' q' where "div_step y t i (x, t1, qdp) = Inr (x', t1', q')" and "pstm_ok x'" and "pm_sign x' = PSTM_ZPOS" and "pm_abs x' = pm_abs x mod W"
    and "pm_alloc x \<le> pm_alloc x'" and "pm_wf t1'" and "2 \<le> pm_alloc t1'"
proof (cases "pm_used x < i")
  case True
  have "div_step y t i (x, t1, qdp) = Inr (x, t1, qdp)" using True by (simp add: div_step_def)
  moreover have "pm_abs x = pm_abs x mod W" using div_step_skip [OF st True] by (simp add: W_def k_def)
  ultimately show thesis using that st t1 by (auto simp: div_state_def)
next
  case False
  then have usedx: "i \<le> pm_used x" by simp
  note s = div_stateD [OF st]
  have ok: "pstm_ok x" "pm_sign x = PSTM_ZPOS" "pstm_ok y" "pm_sign y = PSTM_ZPOS" "pm_used y = Suc t" "t < i" "Suc t < 4096"
    using st by (simp_all add: div_state_def)
  obtain q t1a where ql: "qhat_loop y t x i (first_qhat y t x i) t1 = (q, t1a)" by fastforce
  note c = qhat_close [OF st t1 ql, folded k_def, folded W_def]
  define z where "z = pstm_lshd (pstm_mul_d y q t1a) k"
  note head = div_step_estimate [OF st usedx t1 ql, of qdp, folded k_def, folded z_def]
  have my: "pstm_ok (pstm_mul_d y q t1a)" "pm_abs (pstm_mul_d y q t1a) = uint q * pm_abs y" "pm_sign (pstm_mul_d y q t1a) = PSTM_ZPOS"
    "2 \<le> pm_alloc (pstm_mul_d y q t1a)"
    using pstm_mul_d_spec [OF s(1) c(2), of q] ok by simp_all
  note zl = pstm_lshd_spec [OF my(1), of k, folded z_def]
  have z: "pm_wf z" "pm_abs z = uint q * W" "pm_sign z = PSTM_ZPOS" "2 \<le> pm_alloc z" using zl my by (simp_all add: W_def)
  have zok: "pstm_ok z \<or> pm_abs z = 0 \<and> pm_used z < pm_used x"
  proof (cases "pm_used (pstm_mul_d y q t1a) = 0")
    case True
    then have "pm_abs z = 0" "pm_used z = k" using zl(2,5) pm_used_zero [OF my(1)] by simp_all
    then show ?thesis using usedx ok(6) unfolding k_def by linarith
  qed (use zl(6) in simp)
  show thesis
  proof (cases "uint q = pm_abs x div W")
    case True
    have "pm_abs z = pm_abs x div W * W" unfolding z(2) True by (rule refl)
    then show thesis using take_back_exact [OF ok(1,2) z(1,3) _ c(4) zok] head that z by (metis order_refl)
  next
    case False
    then have za: "pm_abs z = (pm_abs x div W + 1) * W" using c(1) z(2) by simp
    have "0 < pm_abs z" unfolding za using pos_imp_zdiv_nonneg_iff [OF c(4), of "pm_abs x"] c(4) by simp
    then have zo: "pstm_ok z" using zok by simp
    have "pm_used z \<le> pm_used x + 1"
    proof -
      have "pm_abs z < 2 ^ 32 * W" unfolding z(2) using uint_lt2p [of q] c(4) by simp
      also have "W * 2 ^ 32 < 2 ^ (32 * Suc t) * (2 ^ (32 * k) * 2 ^ 32)" using s(5) by (simp add: W_def)
      then have "2 ^ 32 * W \<le> 2 ^ (32 * Suc t) * (2 ^ (32 * k) * 2 ^ 32)" by simp
      also have "\<dots> = 2 ^ (32 * Suc i)" unfolding power_add [symmetric] k_def using ok(6) by (intro arg_cong [where f = "power 2"]) auto
      finally have "pm_used z \<le> Suc i" using pm_used_le [OF zo] by blast
      then show ?thesis using usedx by simp
    qed
    moreover have "pm_used y + k - 2 = i - 2" using ok(5,6) by (simp add: k_def)
    ultimately show thesis using take_back_over [OF ok(1,2) zo z(3) za c(4) _ ok(3,4) W_def [THEN meta_eq_to_obj_eq, symmetric], of q qdp] clear head that z(4) by (metis order_trans)
  qed
qed

section \<open>Division\<close>

definition normal :: "pstm_int \<Rightarrow> nat \<Rightarrow> bool" where
  "normal y t \<longleftrightarrow> pstm_ok y \<and> pm_used y = Suc t \<and> pm_sign y = PSTM_ZPOS \<and> 2 ^ (32 * t + 30) \<le> pm_abs y \<and> pm_abs y < 2 ^ (32 * t + 31) \<and> Suc t < 4096"

lemma div_loop_spec:
  assumes y: "normal y t"
  shows "pstm_ok x \<Longrightarrow> pm_sign x = PSTM_ZPOS \<Longrightarrow> t + j < pm_alloc x \<Longrightarrow> pm_abs x < pm_abs y * 2 ^ (32 * j) \<Longrightarrow> pm_wf t1 \<Longrightarrow> 2 \<le> pm_alloc t1 \<Longrightarrow>
    (\<And>k. k < j \<Longrightarrow> 2 ^ (32 * (t + k - 1)) \<le> pm_abs y * 2 ^ (32 * k) - pm_abs x mod (pm_abs y * 2 ^ (32 * k))) \<Longrightarrow>
    \<exists>x' t1' q'. div_loop y t (rev [t + 1..<t + j + 1]) (x, t1, qdp) = Inr (x', t1', q') \<and> pstm_ok x' \<and> pm_sign x' = PSTM_ZPOS
      \<and> pm_abs x' = pm_abs x mod pm_abs y \<and> pm_alloc x \<le> pm_alloc x'"
proof (induction j arbitrary: x t1 qdp)
  case 0
  then show ?case by (intro exI [of _ x] exI [of _ t1] exI [of _ qdp]) simp
next
  case (Suc j)
  let ?i = "t + j + 1"
  have st: "div_state y t x ?i" using y Suc.prems by (simp add: div_state_def normal_def)
  have k: "?i - t - 1 = j" "?i - 2 = t + j - 1" by simp_all
  have clear: "2 ^ (32 * (?i - 2)) \<le> pm_abs y * 2 ^ (32 * (?i - t - 1)) - pm_abs x mod (pm_abs y * 2 ^ (32 * (?i - t - 1)))"
    unfolding k by (rule Suc.prems(7)) simp
  obtain x' t1' q' where s: "div_step y t ?i (x, t1, qdp) = Inr (x', t1', q')" "pstm_ok x'" "pm_sign x' = PSTM_ZPOS"
    "pm_abs x' = pm_abs x mod (pm_abs y * 2 ^ (32 * j))" "pm_alloc x \<le> pm_alloc x'" "pm_wf t1'" "2 \<le> pm_alloc t1'"
    using div_step_spec [OF st Suc.prems(5,6) clear, of qdp] unfolding k by metis
  have "0 < pm_abs y" using y by (auto simp: normal_def intro: less_le_trans [of 0 "2 ^ (32 * t + 30)"])
  then have lt: "pm_abs x' < pm_abs y * 2 ^ (32 * j)" unfolding s(4) by simp
  have mods: "pm_abs x' mod (pm_abs y * 2 ^ (32 * k)) = pm_abs x mod (pm_abs y * 2 ^ (32 * k))" if "k \<le> j" for k
  proof -
    have "(2 :: int) ^ (32 * k) dvd 2 ^ (32 * j)" using that by (intro le_imp_power_dvd) simp
    then show ?thesis unfolding s(4) by (intro mod_mod_cancel) (simp add: mult_dvd_mono)
  qed
  have "\<exists>x'' t1'' q''. div_loop y t (rev [t + 1..<t + j + 1]) (x', t1', q') = Inr (x'', t1'', q'') \<and> pstm_ok x'' \<and> pm_sign x'' = PSTM_ZPOS
      \<and> pm_abs x'' = pm_abs x' mod pm_abs y \<and> pm_alloc x' \<le> pm_alloc x''"
    using Suc.prems(3,7) s lt mods by (intro Suc.IH) simp_all
  moreover have "rev [t + 1..<t + Suc j + 1] = ?i # rev [t + 1..<t + j + 1]" by simp
  moreover have "pm_abs x' mod pm_abs y = pm_abs x mod pm_abs y" using mods [of 0] by simp
  ultimately show ?case using s(1,5) by (auto intro: order_trans)
qed

lemma div_while_spec:
  assumes y: "pstm_ok y" "pm_sign y = PSTM_ZPOS" "0 < pm_abs y"
  shows "pstm_ok x \<Longrightarrow> pm_sign x = PSTM_ZPOS \<Longrightarrow> pm_abs x < int n * pm_abs y \<Longrightarrow> n \<le> 5 \<Longrightarrow>
    \<exists>x' q'. div_while n y x q = Inr (x', q') \<and> pstm_ok x' \<and> pm_sign x' = PSTM_ZPOS \<and> pm_abs x' = pm_abs x mod pm_abs y \<and> pm_alloc x \<le> pm_alloc x'"
proof (induction n arbitrary: x q)
  case 0
  then show ?case using pm_abs_ge [of x] by (simp del: pm_abs_ge)
next
  case (Suc n)
  have c: "pstm_cmp x y = sgn (pm_abs x - pm_abs y)" using Suc.prems y pstm_cmp_mag_spec by (simp add: pstm_cmp_def)
  show ?case
  proof (cases "pm_abs x < pm_abs y")
    case True
    then show ?thesis using c Suc.prems by simp
  next
    case False
    have "pm_abs x < 5 * pm_abs y"
    proof -
      have "int (Suc n) * pm_abs y \<le> 5 * pm_abs y" using Suc.prems(4) by (intro mult_right_mono) simp_all
      then show ?thesis using Suc.prems(3) by linarith
    qed
    also have "\<dots> \<le> 5 * 2 ^ (32 * pm_used y)" using pm_abs_upper [of y] y(1) by simp
    also have "\<dots> \<le> 2 ^ 32 * 2 ^ (32 * pm_used y)" by simp
    finally have "pm_abs x < 2 ^ (32 * (pm_used y + 1))" by (simp add: power_add)
    then have u: "pm_used x \<le> pm_used y + 1" using pm_used_le [OF Suc.prems(1)] by simp
    obtain r where r: "pstm_sub True x y x = Inr r" "pstm_ok r" "pm_sign r = PSTM_ZPOS" "pm_abs r = pm_abs x - pm_abs y" "pm_alloc r = pm_alloc x"
      using pstm_sub_pos [OF Suc.prems(1,2) pstm_ok_wf [OF y(1)] y(2)] False u y(1) by (metis linorder_not_less)
    have "pm_abs r < int n * pm_abs y" using Suc.prems(3) unfolding r(4) by (simp add: distrib_right)
    moreover have "n \<le> 5" using Suc.prems(4) by simp
    ultimately obtain x' q' where x': "div_while n y r (q + 1) = Inr (x', q')" "pstm_ok x'" "pm_sign x' = PSTM_ZPOS" "pm_abs x' = pm_abs r mod pm_abs y"
      "pm_alloc r \<le> pm_alloc x'" using Suc.IH [OF r(2,3)] by blast
    have "pm_abs r mod pm_abs y = pm_abs x mod pm_abs y" unfolding r(4) by simp
    then show ?thesis using x' r c False by (auto simp: sgn_if)
  qed
qed

text \<open>
  When a remainder is too close to the divisor, from below, the borrow of the last addition is lost. \<open>rem_clear\<close> says that
  this does not happen: no remainder by the divisor at any digit position is within a fraction of \<open>2 ^ -62\<close> of it.
\<close>

definition rem_clear :: "int \<Rightarrow> int \<Rightarrow> nat \<Rightarrow> bool" where
  "rem_clear a b n \<longleftrightarrow> (\<forall>k < n. b * 2 ^ (32 * k) \<le> 2 ^ 62 * (b * 2 ^ (32 * k) - a mod (b * 2 ^ (32 * k))))"

lemma rem_clear_list [code]:
  "rem_clear a b n = list_all (\<lambda>k. let B = b * 2 ^ (32 * k) in B \<le> 2 ^ 62 * (B - a mod B)) [0..<n]"
  by (auto simp: rem_clear_def list_all_iff Let_def)

lemma rem_clear_scaled:
  assumes "rem_clear a b n" and "k < n" and "2 ^ (32 * t + 30) \<le> 2 ^ s * b" and "0 < b"
  shows "2 ^ (32 * (t + k - 1)) \<le> 2 ^ s * b * 2 ^ (32 * k) - (2 ^ s * a) mod (2 ^ s * b * 2 ^ (32 * k))"
proof -
  let ?B = "b * 2 ^ (32 * k)"
  have e: "2 ^ s * b * 2 ^ (32 * k) - (2 ^ s * a) mod (2 ^ s * b * 2 ^ (32 * k)) = 2 ^ s * (?B - a mod ?B)"
    by (simp only: right_diff_distrib mult.assoc mult_mod_right)
  have pos: "0 < ?B" using assms(4) by simp
  have d: "1 \<le> ?B - a mod ?B" using pos_mod_bound [OF pos, of a] by linarith
  show ?thesis
  proof (cases "t + k = 0")
    case True
    have "1 * 1 \<le> 2 ^ s * (?B - a mod ?B)" using d by (intro mult_mono) simp_all
    then show ?thesis unfolding e using True by simp
  next
    case False
    have "?B \<le> 2 ^ 62 * (?B - a mod ?B)" using assms(1,2) by (simp add: rem_clear_def)
    then have "2 ^ s * ?B \<le> 2 ^ s * (2 ^ 62 * (?B - a mod ?B))" by (intro mult_left_mono) simp_all
    moreover have "2 ^ (32 * t + 30) * 2 ^ (32 * k) \<le> 2 ^ s * b * 2 ^ (32 * k)" using assms(3) by (intro mult_right_mono) simp_all
    moreover have "(2 :: int) ^ (32 * t + 30) * 2 ^ (32 * k) = 2 ^ 62 * 2 ^ (32 * (t + k - 1))"
      using False unfolding power_add [symmetric] by (intro arg_cong [where f = "power 2"]) auto
    ultimately have "2 ^ 62 * 2 ^ (32 * (t + k - 1)) \<le> 2 ^ 62 * (2 ^ s * (?B - a mod ?B))" by (simp only: mult.assoc mult.left_commute [of "2 ^ s" "2 ^ 62"])
    then show ?thesis unfolding e by simp
  qed
qed


lemma normal_by_value:
  assumes "pstm_ok y" and "pm_sign y = PSTM_ZPOS" and "2 ^ (32 * t + 30) \<le> pm_abs y" and "pm_abs y < 2 ^ (32 * t + 31)" and "Suc t < 4096"
  shows "normal y t"
proof -
  have "(2 :: int) ^ (32 * t) \<le> 2 ^ (32 * t + 30)" "(2 :: int) ^ (32 * t + 31) \<le> 2 ^ (32 * Suc t)" by (intro power_increasing; simp)+
  then have "t < pm_used y" "pm_used y \<le> Suc t" using pm_used_less [OF assms(1), of t] pm_used_le [OF assms(1), of "Suc t"] assms(3,4) by linarith+
  then show ?thesis using assms by (simp add: normal_def)
qed

text \<open>Both numbers, shifted so that the leading digit of the divisor has 31 bits.\<close>

lemma pstm_normalize:
  assumes x: "pstm_ok x" "pm_sign x = PSTM_ZPOS" "pm_used x < 4095" and y: "pstm_ok y" "pm_sign y = PSTM_ZPOS" "0 < pm_abs y" "pm_used y < 4095"
  obtains s t x' y' where "(let norm = pstm_count_bits y mod 32
      in if norm < 31 then (31 - norm, pstm_mul_2d x (31 - norm) x, pstm_mul_2d y (31 - norm) y) else (0, x, y)) = (s, x', y')"
    and "s < 32" and "pstm_ok x'" and "pm_sign x' = PSTM_ZPOS" and "pm_abs x' = 2 ^ s * pm_abs x" and "pm_alloc x \<le> pm_alloc x'"
    and "normal y' t" and "pm_abs y' = 2 ^ s * pm_abs y" and "pm_used y - 1 \<le> t"
proof -
  let ?L = "pstm_count_bits y"
  define t where "t = ?L div 32"
  define s where "s = 31 - ?L mod 32"
  have "0 < pm_used y" using pm_used_zero [OF y(1)] y(3) by (cases "pm_used y") auto
  note L = pstm_count_bits_spec [OF y(1) this]
  have e: "?L + s = 32 * t + 31" unfolding s_def t_def using mod_less_divisor [of 32 ?L] div_mult_mod_eq [of ?L 32] by linarith
  have v: "2 ^ (32 * t + 30) \<le> 2 ^ s * pm_abs y" "2 ^ s * pm_abs y < 2 ^ (32 * t + 31)"
  proof -
    have "s + (?L - 1) = 32 * t + 30" using e L(1) by simp
    then have "(2 :: int) ^ (32 * t + 30) = 2 ^ s * 2 ^ (?L - 1)" by (simp only: power_add [symmetric])
    then show "2 ^ (32 * t + 30) \<le> 2 ^ s * pm_abs y" using L(2) by simp
    have "(2 :: int) ^ (32 * t + 31) = 2 ^ s * 2 ^ ?L" unfolding power_add [symmetric] using e by (intro arg_cong [where f = "power 2"]) simp
    then show "2 ^ s * pm_abs y < 2 ^ (32 * t + 31)" using L(3) by simp
  qed
  have t: "Suc t < 4096" "pm_used y - 1 \<le> t"
  proof -
    have "?L = (pm_used y - 1) * 32 + digit_bits (pm_dp y ! (pm_used y - 1))" using \<open>0 < pm_used y\<close> by (simp add: pstm_count_bits_def)
    then have "32 * (pm_used y - 1) \<le> ?L" "?L \<le> 32 * pm_used y" using digit_bits_le [of "pm_dp y ! (pm_used y - 1)"] \<open>0 < pm_used y\<close> by simp_all
    then have "pm_used y - 1 \<le> t" "t \<le> pm_used y" unfolding t_def by linarith+
    then show "Suc t < 4096" "pm_used y - 1 \<le> t" using y(4) by simp_all
  qed
  show thesis
  proof (cases "?L mod 32 < 31")
    case True
    have s: "s < 32" by (simp add: s_def)
    have "pm_used x < 4096" "pm_used y < 4096" using x(3) y(4) by simp_all
    note mx = pstm_mul_2d_spec [OF x(1) s this(1)] and my = pstm_mul_2d_spec [OF y(1) s this(2)]
    have "normal (pstm_mul_2d y s y) t" using my v t y(2) by (intro normal_by_value) simp_all
    then show thesis using that [of s "pstm_mul_2d x s x" "pstm_mul_2d y s y" t] True s mx my x(2) t by (simp add: s_def Let_def)
  next
    case False
    then have "?L mod 32 = 31" using mod_less_divisor [of 32 ?L] by linarith
    then have s: "s = 0" by (simp add: s_def)
    have "normal y t" using v t y by (intro normal_by_value) (simp_all add: s)
    then show thesis using that [of 0 x y t] False x y t by simp
  qed
qed

text \<open>The two loops, on numbers in this form.\<close>

lemma div_loops:
  assumes x: "pstm_ok x" "pm_sign x = PSTM_ZPOS" "pm_used x = t + j + 1" and y: "normal y t" and t1: "pm_wf t1" "2 \<le> pm_alloc t1"
    and clear: "\<And>k. k < j \<Longrightarrow> 2 ^ (32 * (t + k - 1)) \<le> pm_abs y * 2 ^ (32 * k) - pm_abs x mod (pm_abs y * 2 ^ (32 * k))"
  obtains x1 q1 x2 t2 q2 where "div_while 5 (pstm_lshd y j) x 0 = Inr (x1, q1)"
    and "div_loop (pstm_rshd (pstm_lshd y j) j) t (rev [t + 1..<t + j + 1]) (x1, t1, qdp q1) = Inr (x2, t2, q2)"
    and "pstm_ok x2" and "pm_sign x2 = PSTM_ZPOS" and "pm_abs x2 = pm_abs x mod pm_abs y"
proof -
  note yn = y [unfolded normal_def]
  define ys where "ys = pstm_lshd y j"
  define yr where "yr = pstm_rshd ys j"
  have ysl: "pstm_ok ys" "pm_abs ys = pm_abs y * 2 ^ (32 * j)" "pm_sign ys = PSTM_ZPOS"
    using pstm_lshd_spec [of y j] yn by (simp_all add: ys_def mult.commute)
  have ypos: "0 < pm_abs y" using yn by (metis less_le_trans zero_less_numeral zero_less_power)
  have "pm_abs x < int 5 * pm_abs ys"
  proof -
    have "pm_abs x < 2 ^ (32 * (t + j + 1))" using pm_abs_upper [of x] x(1,3) by simp
    also have "\<dots> = 2 ^ (2 + (32 * t + 30 + 32 * j))" by (intro arg_cong [where f = "power 2"]) simp
    also have "\<dots> = 4 * (2 ^ (32 * t + 30) * 2 ^ (32 * j))" by (simp only: power_add) simp
    also have "\<dots> \<le> 4 * pm_abs ys" unfolding ysl(2) using yn by simp
    finally show ?thesis using pm_abs_ge [of ys] by linarith
  qed
  moreover have "0 < pm_abs ys" using ypos by (simp add: ysl(2))
  ultimately obtain x1 q1 where x1: "div_while 5 ys x 0 = Inr (x1, q1)" "pstm_ok x1" "pm_sign x1 = PSTM_ZPOS" "pm_abs x1 = pm_abs x mod pm_abs ys"
    "pm_alloc x \<le> pm_alloc x1" using div_while_spec [OF ysl(1,3) _ x(1,2), of 5 0] by auto
  have "pstm_ok yr" "pm_abs yr = pm_abs y" "pm_sign yr = PSTM_ZPOS" using pstm_rshd_spec [of ys j] ysl by (simp_all add: yr_def)
  then have yr: "normal yr t" "pm_abs yr = pm_abs y" using yn by (auto intro: normal_by_value)
  have mods: "pm_abs x1 mod (pm_abs y * 2 ^ (32 * k)) = pm_abs x mod (pm_abs y * 2 ^ (32 * k))" if "k \<le> j" for k
  proof -
    have "(2 :: int) ^ (32 * k) dvd 2 ^ (32 * j)" using that by (intro le_imp_power_dvd) simp
    then show ?thesis unfolding x1(4) ysl(2) by (intro mod_mod_cancel) (simp add: mult_dvd_mono)
  qed
  have sc: "2 ^ (32 * (t + k - 1)) \<le> pm_abs yr * 2 ^ (32 * k) - pm_abs x1 mod (pm_abs yr * 2 ^ (32 * k))" if "k < j" for k
    using clear [OF that] mods [of k] that unfolding yr(2) by simp
  have "\<exists>x' t1' q'. div_loop yr t (rev [t + 1..<t + j + 1]) (x1, t1, qdp q1) = Inr (x', t1', q') \<and> pstm_ok x'
      \<and> pm_sign x' = PSTM_ZPOS \<and> pm_abs x' = pm_abs x1 mod pm_abs yr \<and> pm_alloc x1 \<le> pm_alloc x'"
  proof (rule div_loop_spec [OF yr(1) x1(2,3) _ _ t1 sc])
    show "t + j < pm_alloc x1" using x(3) pm_used_alloc [of x] x(1) x1(5) by simp
    show "pm_abs x1 < pm_abs yr * 2 ^ (32 * j)" using x1(4) ysl(2) ypos yr(2) by simp
  qed
  moreover have "pm_abs x1 mod pm_abs yr = pm_abs x mod pm_abs y" using mods [of 0] unfolding yr(2) by simp
  ultimately show thesis using that x1(1) unfolding ys_def yr_def by metis
qed

text \<open>The last part: the remainder is shifted back and copied.\<close>

lemma div_result:
  assumes x: "pstm_ok x" "pm_sign x = PSTM_ZPOS" "pm_abs x = 2 ^ s * r" "s < 32" and b: "pm_wf b" "r < pm_abs b" and d: "pm_wf d"
  obtains x' where "pstm_div_2d x s x None = Inr (x', None)"
    and "take (pm_used b) (pm_dp x') @ replicate (pm_used x' - pm_used b) 0 @ drop (max (pm_used b) (pm_used x')) (pm_dp x') = pm_dp x'"
    and "pstm_ok (pstm_copy (pstm_clamp x') d)" and "pm_sign (pstm_copy (pstm_clamp x') d) = PSTM_ZPOS" and "pm_abs (pstm_copy (pstm_clamp x') d) = r"
    and "pm_alloc (pstm_copy (pstm_clamp x') d) = max (pm_used (pstm_copy (pstm_clamp x') d)) (pm_alloc d)"
proof -
  obtain x' where x': "pstm_div_2d x s x None = Inr (x', None)" "pstm_ok x'" "pm_abs x' = r" "\<not> pm_sign x'"
    using pstm_div_2d_spec [OF x(1,4)] x(2,3) by (metis nonzero_mult_div_cancel_left power_not_zero zero_neq_numeral)
  have "pm_abs x' < 2 ^ (32 * pm_used b)" unfolding x'(3) using b(2) pm_abs_upper [OF b(1)] by simp
  then have "pm_used x' \<le> pm_used b" using pm_used_le [OF x'(2)] by blast
  then have dp: "take (pm_used b) (pm_dp x') @ replicate (pm_used x' - pm_used b) 0 @ drop (max (pm_used b) (pm_used x')) (pm_dp x') = pm_dp x'"
    by (simp add: max_absorb1)
  note cl = pstm_clamp_spec [OF pstm_ok_wf [OF x'(2)]]
  note cp = pstm_copy_spec [OF cl(1) d]
  show thesis by (rule that [OF x'(1) dp]) (use cl cp x' in simp_all)
qed

lemma pstm_div_spec:
  assumes a: "pstm_ok a" "pm_sign a = PSTM_ZPOS" "pm_used a < 4094" "2 \<le> pm_alloc a" and b: "pstm_ok b" "pm_sign b = PSTM_ZPOS" "0 < pm_abs b"
    and d: "pm_wf d" and clear: "rem_clear (pm_abs a) (pm_abs b) (pm_used a + 1)"
  obtains r where "pstm_div a b None (Some d) = Inr (None, Some r)" and "pstm_ok r" and "pm_sign r = PSTM_ZPOS"
    and "pm_abs r = pm_abs a mod pm_abs b" and "pm_alloc r = max (pm_used r) (pm_alloc d)"
proof -
  let ?A = "pm_abs a" and ?B = "pm_abs b"
  have bu: "pm_used b \<noteq> 0" using pm_used_zero [OF b(1)] b(3) by auto
  show thesis
  proof (cases "?A < ?B")
    case True
    note c = pstm_copy_spec [OF a(1) d]
    have "pstm_div a b None (Some d) = Inr (None, Some (pstm_copy a d))"
      using bu pstm_cmp_mag_spec [OF a(1) b(1)] True by (simp add: pstm_div_def)
    then show thesis by (rule that) (use c a True in simp_all)
  next
    case False
    have usedb: "pm_used b \<le> pm_used a" using False pm_used_le [OF b(1), of "pm_used a"] pm_abs_upper [of a] a(1) by simp
    define x0 y0 where "x0 = (pstm_init_copy a False)\<lparr>pm_sign := PSTM_ZPOS\<rparr>" and "y0 = (pstm_copy b (pstm_init_size (pm_used b * 3)))\<lparr>pm_sign := PSTM_ZPOS\<rparr>"
    have x0: "pstm_ok x0" "pm_sign x0 = PSTM_ZPOS" "pm_abs x0 = ?A" "pm_used x0 = pm_used a" "pm_alloc a \<le> pm_alloc x0"
      using pstm_init_copy_spec [OF a(1), of False] a(2) by (simp_all add: x0_def pstm_ok_iff)
    have y0: "pstm_ok y0" "pm_sign y0 = PSTM_ZPOS" "pm_abs y0 = ?B" "pm_used y0 = pm_used b"
      using pstm_copy_spec [OF b(1) pstm_ok_wf [OF pstm_init_size_spec(1)], of "pm_used b * 3"] b(2) by (simp_all add: y0_def pstm_ok_iff)
    have "pm_used x0 < 4095" "0 < pm_abs y0" "pm_used y0 < 4095" using x0 y0 a(3) usedb b(3) by simp_all
    then obtain s t x y where nrm: "(let norm = pstm_count_bits y0 mod 32
        in if norm < 31 then (31 - norm, pstm_mul_2d x0 (31 - norm) x0, pstm_mul_2d y0 (31 - norm) y0) else (0, x0, y0)) = (s, x, y)" "s < 32"
      and x: "pstm_ok x" "pm_sign x = PSTM_ZPOS" "pm_abs x = 2 ^ s * ?A"
      and y: "normal y t" "pm_abs y = 2 ^ s * ?B"
      using pstm_normalize [OF x0(1,2) _ y0(1,2)] x0(3) y0(3) by metis
    note yn = y(1) [unfolded normal_def]
    define j where "j = pm_used x - 1 - t"
    have "pm_abs y \<le> pm_abs x" unfolding x(3) y(2) using False by simp
    moreover have "(2 :: int) ^ (32 * t) \<le> 2 ^ (32 * t + 30)" "2 ^ (32 * t + 30) \<le> pm_abs y" using yn by (simp_all add: power_increasing)
    ultimately have "t < pm_used x" using pm_used_less [OF x(1), of t] by linarith
    then have n: "pm_used x = t + j + 1" "pm_used x - 1 = t + j" by (simp_all add: j_def)
    have "pm_used x \<le> pm_used a + 1"
    proof -
      have "pm_abs x < 2 ^ s * 2 ^ (32 * pm_used a)" unfolding x(3) using pm_abs_upper [of a] a(1) by simp
      also have "\<dots> \<le> 2 ^ (32 * (pm_used a + 1))" using nrm(2) unfolding power_add [symmetric] by (intro power_increasing) simp_all
      finally show ?thesis using pm_used_le [OF x(1)] by blast
    qed
    then have ja: "j \<le> pm_used a + 1" using n(1) by simp
    have sc: "2 ^ (32 * (t + k - 1)) \<le> pm_abs y * 2 ^ (32 * k) - pm_abs x mod (pm_abs y * 2 ^ (32 * k))" if "k < j" for k
      using rem_clear_scaled [OF clear, of k t s] that ja yn b(3) unfolding y(2) x(3) by simp
    have t1: "pm_wf (pstm_init_size (pm_alloc a))" "2 \<le> pm_alloc (pstm_init_size (pm_alloc a))" using a(4) by simp_all
    obtain x1 q1 x2 t2 q2 where loops: "div_while 5 (pstm_lshd y j) x 0 = Inr (x1, q1)"
      "div_loop (pstm_rshd (pstm_lshd y j) j) t (rev [t + 1..<t + j + 1]) (x1, pstm_init_size (pm_alloc a), (replicate (j + 1) 0)[j := q1]) = Inr (x2, t2, q2)"
      and x2: "pstm_ok x2" "pm_sign x2 = PSTM_ZPOS" "pm_abs x2 = pm_abs x mod pm_abs y"
      using div_loops [OF x(1,2) n(1) y(1) t1 sc, where qdp = "\<lambda>q. (replicate (j + 1) 0)[j := q]"] by metis
    have "pm_abs x2 = 2 ^ s * (?A mod ?B)" unfolding x2(3) x(3) y(2) by (rule mult_mod_right [symmetric])
    moreover have "?A mod ?B < ?B" using b(3) by simp
    ultimately obtain x3 where x3: "pstm_div_2d x2 s x2 None = Inr (x3, None)"
      "take (pm_used b) (pm_dp x3) @ replicate (pm_used x3 - pm_used b) 0 @ drop (max (pm_used b) (pm_used x3)) (pm_dp x3) = pm_dp x3"
      and r: "pstm_ok (pstm_copy (pstm_clamp x3) d)" "pm_sign (pstm_copy (pstm_clamp x3) d) = PSTM_ZPOS" "pm_abs (pstm_copy (pstm_clamp x3) d) = ?A mod ?B"
      "pm_alloc (pstm_copy (pstm_clamp x3) d) = max (pm_used (pstm_copy (pstm_clamp x3) d)) (pm_alloc d)"
      using div_result [OF x2(1,2) _ nrm(2) pstm_ok_wf [OF b(1)] _ d] by metis
    have nlt: "pstm_cmp_mag a b \<noteq> PSTM_LT" using pstm_cmp_mag_spec [OF a(1) b(1)] False by (simp add: sgn_if)
    have e: "pm_used y - 1 = t" "t + j - t = j" "x3\<lparr>pm_dp := pm_dp x3\<rparr> = x3" "x2\<lparr>pm_sign := (if pm_used x2 = 0 then PSTM_ZPOS else pm_sign a)\<rparr> = x2"
      using yn x2(2) a(2) by simp_all
    have q: "pm_dp (pstm_init_size (j + 1)\<lparr>pm_used := j + 1\<rparr>) = replicate (j + 1) 0" "replicate (j + 1) 0 ! j = (0 :: u32)"
      by (simp add: pstm_init_size_def) (simp add: nth_replicate del: replicate_Suc)
    have "pstm_div a b None (Some d) = Inr (None, Some (pstm_copy (pstm_clamp x3) d))"
      using bu nlt unfolding pstm_div_def Let_def x0_def [symmetric] y0_def [symmetric] nrm(1) [unfolded Let_def]
      by (simp only: if_False prod.case n(2) e q ps_bind.simps loops x3 option.case option.map)
    then show thesis using that r by blast
  qed
qed

section \<open>Remainders\<close>

lemma rem_clear_mono: "rem_clear a b n \<Longrightarrow> m \<le> n \<Longrightarrow> rem_clear a b m"
  by (simp add: rem_clear_def)

lemma pstm_mod_spec:
  assumes a: "pstm_ok a" "pm_sign a = PSTM_ZPOS" "pm_used a < 4094" "2 \<le> pm_alloc a" and b: "pstm_ok b" "pm_sign b = PSTM_ZPOS" "0 < pm_abs b"
    and clear: "rem_clear (pm_abs a) (pm_abs b) (pm_used a + 1)"
  obtains r where "pstm_mod a b c = Inr r" and "pstm_ok r" and "pm_sign r = PSTM_ZPOS" and "pm_abs r = pm_abs a mod pm_abs b" and "pm_alloc b \<le> pm_alloc r"
proof -
  obtain r where r: "pstm_div a b None (Some (pstm_init_size (pm_alloc b))) = Inr (None, Some r)" "pstm_ok r" "pm_sign r = PSTM_ZPOS"
    "pm_abs r = pm_abs a mod pm_abs b" "pm_alloc r = max (pm_used r) (pm_alloc (pstm_init_size (pm_alloc b)))"
    using pstm_div_spec [OF a b pstm_ok_wf [OF pstm_init_size_spec(1)] clear] by metis
  have "pstm_mod a b c = Inr r" using r(1,3) b(2) by (simp add: pstm_mod_def pstm_exch_def)
  then show thesis using that r by simp
qed

lemma pstm_mulmod_spec:
  assumes a: "pstm_ok a" "pm_sign a = PSTM_ZPOS" and b: "pstm_ok b" "pm_sign b = PSTM_ZPOS" "0 < pm_abs b" and u: "pm_used a + pm_used b < 4094"
    and m: "pstm_ok m" "pm_sign m = PSTM_ZPOS" "0 < pm_abs m" and clear: "rem_clear (pm_abs a * pm_abs b) (pm_abs m) (pm_used a + pm_used b + 1)"
  obtains r where "pstm_mulmod same a b m c = Inr r" and "pstm_ok r" and "pm_sign r = PSTM_ZPOS" and "pm_abs r = (pm_abs a * pm_abs b) mod pm_abs m"
    and "pm_alloc m \<le> pm_alloc r"
proof -
  define n where "n = (let sz = pm_used a + pm_used b + 1 in if same \<and> sz < pm_alloc a then pm_alloc a else sz)"
  define p where "p = pstm_mul_comba a b (pstm_init_size n)"
  have bu: "0 < pm_used b" using pm_used_zero [OF b(1)] b(3) by (cases "pm_used b") auto
  have "pm_used a + pm_used b < 2 ^ 31" using u by simp
  note c = pstm_mul_comba_spec [OF pstm_ok_wf [OF a(1)] pstm_ok_wf [OF b(1)] pstm_ok_wf [OF pstm_init_size_spec(1)] this, of n, folded p_def]
  have p: "pstm_ok p" "pm_sign p = PSTM_ZPOS" "pm_abs p = pm_abs a * pm_abs b" using c a b by simp_all
  have "pm_abs p < 2 ^ (32 * (pm_used a + pm_used b))"
  proof -
    have "pm_abs p < 2 ^ (32 * pm_used a) * 2 ^ (32 * pm_used b)"
      unfolding p(3) using pm_abs_upper [of a] pm_abs_upper [of b] a(1) b(1) by (intro mult_strict_mono) simp_all
    then show ?thesis by (simp only: power_add distrib_left)
  qed
  then have pu: "pm_used p \<le> pm_used a + pm_used b" using pm_used_le [OF p(1)] by blast
  have "2 \<le> pm_alloc p" using c(4) bu by (auto simp: n_def Let_def)
  moreover have "rem_clear (pm_abs p) (pm_abs m) (pm_used p + 1)" unfolding p(3) using clear by (rule rem_clear_mono) (use pu in simp)
  ultimately obtain r where r: "pstm_mod p m c = Inr r" "pstm_ok r" "pm_sign r = PSTM_ZPOS" "pm_abs r = pm_abs p mod pm_abs m" "pm_alloc m \<le> pm_alloc r"
    using pstm_mod_spec [OF p(1,2) _ _ m] pu u by (metis le_less_trans)
  have "pstm_mulmod same a b m c = Inr r" using r(1) by (simp add: pstm_mulmod_def Let_def p_def n_def)
  then show thesis using that r p(3) by simp
qed

section \<open>Properties\<close>

text \<open>C17: \<^verbatim>\<open>pstm_mod\<close> returns, and its result is the remainder, for every number of at most 4093 digits and every
  positive divisor, unless a remainder by the divisor at some digit position is within a fraction of \<open>2 ^ -62\<close> below it.\<close>

theorem pstm_mod_remainder:
  assumes "pstm_ok a" and "pm_sign a = PSTM_ZPOS" and "pm_used a < 4094" and "2 \<le> pm_alloc a"
    and "pstm_ok b" and "pm_sign b = PSTM_ZPOS" and "0 < pm_abs b" and "rem_clear (pm_abs a) (pm_abs b) (pm_used a + 1)"
  shows "\<exists>r. pstm_mod a b c = Inr r \<and> pstm_ok r \<and> pm_sign r = PSTM_ZPOS \<and> pm_abs r = pm_abs a mod pm_abs b"
  using pstm_mod_spec [OF assms] by metis

theorem pstm_mod_remainder_witness:
  "\<exists>r. pstm_mod (demo_num [7, 8, 9]) (demo_num [5, 6]) (demo_num []) = Inr r \<and> pm_abs r = (7 + 8 * 2 ^ 32 + 9 * 2 ^ 64) mod (5 + 6 * 2 ^ 32)"
proof -
  have "rem_clear (wval [7, 8, 9 :: u32]) (wval [5, 6 :: u32]) (Suc (Suc (Suc (Suc 0))))" by code_simp
  then show ?thesis using pstm_mod_remainder [of "demo_num [7, 8, 9]" "demo_num [5, 6]" "demo_num []"] by (auto simp: demo_num)
qed

end
