(* ===== verification/Tls_Pstm_Power.thy ===== *)
theory Tls_Pstm_Power
  imports Tls_Pstm_Div
begin

text \<open>
  \<^verbatim>\<open>pstm_exptmod\<close> computes powers modulo an odd number, and numbers are read from bytes and written to bytes,
  most significant first.
\<close>

unbundle bit_operations_syntax

section \<open>Montgomery form\<close>

definition mont_R :: "mont_env \<Rightarrow> int" where "mont_R me = 2 ^ (32 * pm_used (me_P me))"

definition mont_ok :: "mont_env \<Rightarrow> bool" where
  "mont_ok me \<longleftrightarrow> pstm_ok (me_P me) \<and> odd (pm_abs (me_P me)) \<and> 1 < pm_abs (me_P me) \<and> pm_used (me_P me) < 2 ^ 28
     \<and> me_mp me * pm_dp (me_P me) ! 0 = - 1 \<and> 2 * pm_used (me_P me) + 1 \<le> me_paDlen me div 4"

definition mont_rep :: "mont_env \<Rightarrow> pstm_int \<Rightarrow> int \<Rightarrow> bool" where
  "mont_rep me r v \<longleftrightarrow> pstm_ok r \<and> pm_sign r = PSTM_ZPOS \<and> pm_abs r < pm_abs (me_P me) \<and> pm_used (me_P me) + 1 \<le> pm_alloc r
     \<and> pm_abs r mod pm_abs (me_P me) = (v * mont_R me) mod pm_abs (me_P me)"

lemma mod_cancel_odd:
  fixes P :: int
  assumes "(2 ^ k * x) mod P = (2 ^ k * y) mod P" and "odd P"
  shows "x mod P = y mod P"
proof -
  have "P dvd 2 ^ k * (x - y)" using assms(1) unfolding mod_eq_dvd_iff right_diff_distrib .
  moreover have "coprime P (2 ^ k)" using assms(2) by (simp add: coprime_power_right_iff)
  ultimately have "P dvd x - y" by (simp add: coprime_dvd_mult_right_iff)
  then show ?thesis by (simp add: mod_eq_dvd_iff)
qed

lemma mont_used:
  assumes "mont_ok me" and "mont_rep me r v"
  shows "pm_used r \<le> pm_used (me_P me)" and "pm_used r < 2 ^ 28"
proof -
  have "pm_abs r < 2 ^ (32 * pm_used (me_P me))" using assms pm_abs_upper [of "me_P me"] by (simp add: mont_ok_def mont_rep_def)
  then show "pm_used r \<le> pm_used (me_P me)" using pm_used_le [of r] assms(2) by (simp add: mont_rep_def)
  then show "pm_used r < 2 ^ 28" using assms(1) by (simp add: mont_ok_def)
qed

lemma mont_reduce:
  assumes me: "mont_ok me" and a: "pstm_ok a" "pm_sign a = PSTM_ZPOS" "pm_abs a < pm_abs (me_P me) * mont_R me" "pm_used (me_P me) + 1 \<le> pm_alloc a"
    and v: "pm_abs a mod pm_abs (me_P me) = (v * mont_R me * mont_R me) mod pm_abs (me_P me)"
  obtains r where "pstm_montgomery_reduce a (me_P me) (me_mp me) (me_paDlen me) = Inr r" and "mont_rep me r v"
proof -
  let ?P = "pm_abs (me_P me)"
  note m = me [unfolded mont_ok_def]
  have n0: "0 < pm_used (me_P me)" using m pm_used_zero [of "me_P me"] by (cases "pm_used (me_P me)") auto
  obtain r where r: "pstm_montgomery_reduce a (me_P me) (me_mp me) (me_paDlen me) = Inr r" "pstm_ok r" "pm_sign r = PSTM_ZPOS" "pm_abs r < ?P"
    "(2 ^ (32 * pm_used (me_P me)) * pm_abs r) mod ?P = pm_abs a mod ?P" "pm_used (me_P me) + 1 \<le> pm_alloc r"
    using pstm_montgomery_reduce_spec [OF a(1,2) a(3) [unfolded mont_R_def] a(4)] m n0 by metis
  have "(2 ^ (32 * pm_used (me_P me)) * pm_abs r) mod ?P = (2 ^ (32 * pm_used (me_P me)) * (v * mont_R me)) mod ?P"
    unfolding r(5) v by (simp add: mont_R_def mult.commute mult.left_commute)
  then have "pm_abs r mod ?P = (v * mont_R me) mod ?P" by (rule mod_cancel_odd) (use m in simp)
  then show thesis using that r by (simp add: mont_rep_def)
qed

lemma mont_bound:
  assumes "mont_ok me" and "mont_rep me a v" and "mont_rep me b w"
  shows "pm_abs a * pm_abs b < pm_abs (me_P me) * mont_R me"
proof -
  have "pm_abs b < mont_R me" using assms(1,3) pm_abs_upper [of "me_P me"] by (simp add: mont_ok_def mont_rep_def mont_R_def)
  then show ?thesis using assms by (intro mult_strict_mono) (simp_all add: mont_ok_def mont_rep_def)
qed

lemma mont_values:
  assumes "mont_rep me a v" and "mont_rep me b w"
  shows "(pm_abs a * pm_abs b) mod pm_abs (me_P me) = (v * w * mont_R me * mont_R me) mod pm_abs (me_P me)"
proof -
  have "(pm_abs a * pm_abs b) mod pm_abs (me_P me) = ((v * mont_R me) * (w * mont_R me)) mod pm_abs (me_P me)"
    by (rule mod_mult_cong) (use assms in \<open>simp_all add: mont_rep_def\<close>)
  then show ?thesis by (simp add: mult.commute mult.left_commute)
qed

lemma mont_sqr_spec:
  assumes "mont_ok me" and "mont_rep me a v"
  obtains r where "mont_sqr me a = Inr r" and "mont_rep me r (v * v)"
proof -
  note a = assms(2) [unfolded mont_rep_def] and u = mont_used [OF assms]
  have "pm_wf a" "pm_used a < 2 ^ 29" using a u(2) by simp_all
  note c = pstm_sqr_comba_spec [OF this]
  have s: "pm_sign (pstm_sqr_comba a a) = PSTM_ZPOS" "pm_used (me_P me) + 1 \<le> pm_alloc (pstm_sqr_comba a a)"
    "pm_abs (pstm_sqr_comba a a) < pm_abs (me_P me) * mont_R me"
    using a mont_bound [OF assms assms(2)] c by (simp_all add: le_max_iff_disj)
  have "pm_abs (pstm_sqr_comba a a) mod pm_abs (me_P me) = (v * v * mont_R me * mont_R me) mod pm_abs (me_P me)"
    unfolding c(2) by (rule mont_values [OF assms(2,2)])
  then show thesis using mont_reduce [OF assms(1) c(1) s(1,3,2)] that by (metis mont_sqr_def)
qed

lemma mont_mul_spec:
  assumes "mont_ok me" and "mont_rep me a v" and "mont_rep me b w" and "pm_wf c" and "pm_used (me_P me) + 1 \<le> pm_alloc c"
  obtains r where "mont_mul me a b c = Inr r" and "mont_rep me r (v * w)"
proof -
  note a = assms(2) [unfolded mont_rep_def] and b = assms(3) [unfolded mont_rep_def] and u = mont_used [OF assms(1,2)] and u' = mont_used [OF assms(1,3)]
  have "pm_wf a" "pm_wf b" "pm_used a + pm_used b < 2 ^ 31" using a b u(2) u'(2) by simp_all
  note p = pstm_mul_comba_spec [OF this(1,2) assms(4) this(3)]
  have s: "pm_sign (pstm_mul_comba a b c) = PSTM_ZPOS" "pm_used (me_P me) + 1 \<le> pm_alloc (pstm_mul_comba a b c)"
    "pm_abs (pstm_mul_comba a b c) < pm_abs (me_P me) * mont_R me"
    using a b mont_bound [OF assms(1-3)] p assms(5) by (simp_all add: le_max_iff_disj)
  have "pm_abs (pstm_mul_comba a b c) mod pm_abs (me_P me) = (v * w * mont_R me * mont_R me) mod pm_abs (me_P me)"
    unfolding p(2) by (rule mont_values [OF assms(2,3)])
  then show thesis using mont_reduce [OF assms(1) p(1) s(1,3,2)] that by (metis mont_mul_def)
qed

lemma mont_sqrs_spec:
  assumes "mont_ok me" and "mont_rep me a v"
  shows "\<exists>r. mont_sqrs me n a = Inr r \<and> mont_rep me r (v ^ 2 ^ n)"
  using assms(2)
proof (induction n arbitrary: a v)
  case (Suc n)
  obtain r where r: "mont_sqr me a = Inr r" "mont_rep me r (v * v)" using mont_sqr_spec [OF assms(1) Suc.prems] .
  have "(v * v) ^ 2 ^ n = v ^ 2 ^ Suc n" by (simp add: power_mult power2_eq_square)
  then show ?case using Suc.IH [OF r(2)] r(1) by simp
qed simp

section \<open>The table of powers\<close>

lemma expt_table_spec:
  assumes me: "mont_ok me" and "1 < k" and "mont_rep me (M 1) g" and "mont_rep me (M (k - 1)) (g ^ (k - 1))"
    and "\<And>x. k \<le> x \<Longrightarrow> pm_wf (M x) \<and> pm_used (me_P me) + 1 \<le> pm_alloc (M x)"
  shows "\<exists>M'. expt_table me [k..<k + d] M = Inr M' \<and> (\<forall>x. k - 1 \<le> x \<longrightarrow> x < k + d \<longrightarrow> mont_rep me (M' x) (g ^ x)) \<and> (\<forall>x < k. M' x = M x)"
  using assms(2-5)
proof (induction d arbitrary: k M)
  case 0
  then show ?case by (auto simp: le_less Suc_le_eq elim: less_SucE)
next
  case (Suc d)
  obtain r where r: "mont_mul me (M (k - 1)) (M 1) (M k) = Inr r" "mont_rep me r (g ^ (k - 1) * g)"
    using mont_mul_spec [OF me Suc.prems(3,2), of "M k"] Suc.prems(4) [of k] by auto
  have p: "g ^ (k - 1) * g = g ^ k" using Suc.prems(1) by (metis Suc_diff_1 less_trans power_Suc2 zero_less_one)
  let ?M = "M(k := r)"
  have prems: "1 < Suc k" "mont_rep me (?M 1) g" "mont_rep me (?M (Suc k - 1)) (g ^ (Suc k - 1))"
    "\<And>x. Suc k \<le> x \<Longrightarrow> pm_wf (?M x) \<and> pm_used (me_P me) + 1 \<le> pm_alloc (?M x)"
    using Suc.prems r(2) p by simp_all
  obtain M' where M': "expt_table me [Suc k..<Suc k + d] ?M = Inr M'" "\<And>x. k \<le> x \<Longrightarrow> x < Suc k + d \<Longrightarrow> mont_rep me (M' x) (g ^ x)" "\<And>x. x < Suc k \<Longrightarrow> M' x = ?M x"
    using Suc.IH [OF prems] unfolding diff_Suc_1 by blast
  have l: "[k..<k + Suc d] = k # [Suc k..<Suc k + d]" by (simp add: upt_conv_Cons)
  have e: "expt_table me [k..<k + Suc d] M = Inr M'" unfolding l using r(1) M'(1) by simp
  have "mont_rep me (M' x) (g ^ x)" if "k - 1 \<le> x" "x < k + Suc d" for x
  proof (cases "k \<le> x")
    case False
    then have "x = k - 1" using that by simp
    moreover have "M' (k - 1) = M (k - 1)" using M'(3) [of "k - 1"] Suc.prems(1) by simp
    ultimately show ?thesis using Suc.prems(3) by simp
  qed (use M'(2) that in simp)
  moreover have "M' x = M x" if "x < k" for x using M'(3) [of x] that by simp
  ultimately show ?case using e by blast
qed

section \<open>The bits of the exponent\<close>

text \<open>What the loop has reached after the leading bits \<open>e\<close> of the exponent.\<close>

definition expt_inv :: "mont_env \<Rightarrow> int \<Rightarrow> nat \<Rightarrow> expt_state \<Rightarrow> bool" where
  "expt_inv me g e st \<longleftrightarrow>
     (es_mode st = 0 \<and> e = 0 \<and> es_bitcpy st = 0 \<and> es_bitbuf st = 0 \<and> mont_rep me (es_res st) 1)
   \<or> (es_mode st = 1 \<and> es_bitcpy st = 0 \<and> es_bitbuf st = 0 \<and> mont_rep me (es_res st) (g ^ e))
   \<or> (es_mode st = 2 \<and> 0 < es_bitcpy st \<and> es_bitcpy st < me_winsize me
      \<and> (\<exists>h b. e = h * 2 ^ es_bitcpy st + b \<and> 2 ^ (es_bitcpy st - 1) \<le> b \<and> b < 2 ^ es_bitcpy st
           \<and> es_bitbuf st = b * 2 ^ (me_winsize me - es_bitcpy st) \<and> mont_rep me (es_res st) (g ^ h)))"

definition table_ok :: "mont_env \<Rightarrow> int \<Rightarrow> (nat \<Rightarrow> pstm_int) \<Rightarrow> bool" where
  "table_ok me g M \<longleftrightarrow> 1 < me_winsize me \<and> (\<forall>x. 2 ^ (me_winsize me - 1) \<le> x \<longrightarrow> x < 2 ^ me_winsize me \<longrightarrow> mont_rep me (M x) (g ^ x))"

lemma window_bit:
  fixes b :: nat
  assumes "c < w"
  shows "(b * 2 ^ (w - c)) OR push_bit (w - Suc c) (of_bool y) = (2 * b + of_bool y) * 2 ^ (w - Suc c)"
proof -
  have e: "w - c = Suc (w - Suc c)" using assms by simp
  have "(b * 2 ^ (w - c)) OR push_bit (w - Suc c) (of_bool y) = push_bit (w - Suc c) (2 * b) OR push_bit (w - Suc c) (of_bool y)"
    unfolding e by (simp add: push_bit_eq_mult mult.assoc mult.left_commute [of b])
  also have "\<dots> = push_bit (w - Suc c) (2 * b OR of_bool y)" by (simp add: push_bit_or)
  also have "2 * b OR of_bool y = 2 * b + of_bool y" by (cases y) (simp_all add: or_Suc_0_eq)
  finally show ?thesis by (simp add: push_bit_eq_mult)
qed

lemma mont_wf: "mont_rep me r v \<Longrightarrow> pm_wf r \<and> pm_used (me_P me) + 1 \<le> pm_alloc r"
  by (simp add: mont_rep_def)

lemma expt_window:
  assumes me: "mont_ok me" "table_ok me g M" and c: "es_bitcpy st < me_winsize me"
    and e: "e = h * 2 ^ es_bitcpy st + b" "b < 2 ^ es_bitcpy st" "es_bitbuf st = b * 2 ^ (me_winsize me - es_bitcpy st)" "mont_rep me (es_res st) (g ^ h)"
    and b: "2 ^ es_bitcpy st \<le> 2 * b + of_bool y" and m: "es_mode st \<noteq> 0 \<or> y" "es_mode st \<noteq> 1 \<or> y"
  shows "\<exists>st'. expt_bit me M y st = Inr st' \<and> expt_inv me g (2 * e + of_bool y) st'"
proof -
  let ?w = "me_winsize me" and ?c = "es_bitcpy st" and ?b = "2 * b + of_bool y"
  have buf: "es_bitbuf st OR push_bit (?w - (?c + 1)) (of_bool y) = ?b * 2 ^ (?w - Suc ?c)" unfolding e(3) using window_bit [OF c] by simp
  have v: "2 * e + of_bool y = h * 2 ^ Suc ?c + ?b" using e(1) by simp
  have lt: "?b < 2 ^ Suc ?c" using e(2) by (cases y) simp_all
  show ?thesis
  proof (cases "?c + 1 = ?w")
    case True
    obtain r where r: "mont_sqrs me ?w (es_res st) = Inr r" "mont_rep me r ((g ^ h) ^ 2 ^ ?w)" using mont_sqrs_spec [OF me(1) e(4)] by blast
    have z: "?w - Suc ?c = 0" using True by simp
    have "mont_rep me (M ?b) (g ^ ?b)" using me(2) b lt True unfolding table_ok_def by (metis Suc_eq_plus1 diff_Suc_1)
    then obtain r' where r': "mont_mul me r (M ?b) r = Inr r'" "mont_rep me r' ((g ^ h) ^ 2 ^ ?w * g ^ ?b)"
      using mont_mul_spec [OF me(1) r(2)] mont_wf [OF r(2)] by metis
    have pw: "(g ^ h) ^ 2 ^ ?w * g ^ ?b = g ^ (2 * e + of_bool y)" unfolding v using True by (simp add: power_add power_mult)
    have "expt_bit me M y st = Inr \<lparr>es_mode = 1, es_bitcpy = 0, es_bitbuf = 0, es_res = r'\<rparr>"
      using m True r(1) r'(1) buf z by (auto simp: expt_bit_def Let_def)
    moreover have "expt_inv me g (2 * e + of_bool y) \<lparr>es_mode = 1, es_bitcpy = 0, es_bitbuf = 0, es_res = r'\<rparr>"
      using r'(2) unfolding pw by (simp add: expt_inv_def)
    ultimately show ?thesis by blast
  next
    case False
    let ?st = "st\<lparr>es_mode := 2, es_bitcpy := Suc ?c, es_bitbuf := ?b * 2 ^ (?w - Suc ?c)\<rparr>"
    have "expt_bit me M y st = Inr ?st" using m False buf by (auto simp: expt_bit_def Let_def)
    moreover have "expt_inv me g (2 * e + of_bool y) ?st"
    proof -
      have "\<exists>h b'. 2 * e + of_bool y = h * 2 ^ Suc ?c + b' \<and> 2 ^ ?c \<le> b' \<and> b' < 2 ^ Suc ?c \<and> ?b * 2 ^ (?w - Suc ?c) = b' * 2 ^ (?w - Suc ?c) \<and> mont_rep me (es_res st) (g ^ h)"
        using v b lt e(4) by blast
      then show ?thesis using c False by (simp add: expt_inv_def)
    qed
    ultimately show ?thesis by blast
  qed
qed

lemma expt_bit_spec:
  assumes me: "mont_ok me" "table_ok me g M" and inv: "expt_inv me g e st"
  shows "\<exists>st'. expt_bit me M y st = Inr st' \<and> expt_inv me g (2 * e + of_bool y) st'"
proof -
  have w: "1 < me_winsize me" using me(2) by (simp add: table_ok_def)
  from inv consider
      (none) "es_mode st = 0" "e = 0" "es_bitcpy st = 0" "es_bitbuf st = 0" "mont_rep me (es_res st) 1"
    | (full) "es_mode st = 1" "es_bitcpy st = 0" "es_bitbuf st = 0" "mont_rep me (es_res st) (g ^ e)"
    | (part) h b where "es_mode st = 2" "0 < es_bitcpy st" "es_bitcpy st < me_winsize me" "e = h * 2 ^ es_bitcpy st + b" "2 ^ (es_bitcpy st - 1) \<le> b"
        "b < 2 ^ es_bitcpy st" "es_bitbuf st = b * 2 ^ (me_winsize me - es_bitcpy st)" "mont_rep me (es_res st) (g ^ h)"
    unfolding expt_inv_def by (elim disjE conjE exE) metis+
  then show ?thesis
  proof cases
    case none
    show ?thesis
    proof (cases y)
      case True
      then show ?thesis using none w by (intro expt_window [OF me, where h = 0 and b = 0]) simp_all
    next
      case False
      then have "expt_bit me M y st = Inr st" using none by (simp add: expt_bit_def)
      moreover have "expt_inv me g (2 * e + of_bool y) st" using none False by (simp add: expt_inv_def)
      ultimately show ?thesis by blast
    qed
  next
    case full
    show ?thesis
    proof (cases y)
      case True
      then show ?thesis using full w by (intro expt_window [OF me, where h = e and b = 0]) simp_all
    next
      case False
      obtain r where r: "mont_sqr me (es_res st) = Inr r" "mont_rep me r (g ^ e * g ^ e)" using mont_sqr_spec [OF me(1) full(4)] .
      have "g ^ e * g ^ e = g ^ (2 * e)" by (simp add: mult_2 power_add)
      then have "expt_inv me g (2 * e + of_bool y) (st\<lparr>es_res := r\<rparr>)" using full r(2) False by (simp add: expt_inv_def)
      moreover have "expt_bit me M y st = Inr (st\<lparr>es_res := r\<rparr>)" using full r(1) False by (simp add: expt_bit_def)
      ultimately show ?thesis by blast
    qed
  next
    case part
    have "(2 :: nat) ^ es_bitcpy st = 2 * 2 ^ (es_bitcpy st - 1)" using part(2) by (simp add: power_eq_if)
    then have "2 ^ es_bitcpy st \<le> 2 * b + of_bool y" using part(5) by simp
    then show ?thesis using part by (intro expt_window [OF me part(3,4,6,7,8)]) simp_all
  qed
qed


lemma next_bit:
  fixes buf :: u32
  assumes "n < 32"
  shows "unat buf div 2 ^ (32 - Suc n) = of_bool (bit buf 31) * 2 ^ n + unat (push_bit 1 buf) div 2 ^ (32 - n)"
proof -
  have b: "of_bool (bit buf 31) = unat buf div 2 ^ 31"
  proof -
    have "unat buf < 2 * 2 ^ 31" using unsigned_less [of buf, where ?'a = nat] by simp
    then have "unat buf div 2 ^ 31 < 2" by (simp only: less_mult_imp_div_less)
    moreover have "bit buf 31 \<longleftrightarrow> bit (unat buf) 31" by (simp add: bit_unsigned_iff)
    then have "bit buf 31 \<longleftrightarrow> odd (unat buf div 2 ^ 31)" by (simp only: bit_iff_odd)
    ultimately show ?thesis by (auto simp: less_Suc_eq numeral_2_eq_2)
  qed
  let ?l = "unat buf mod 2 ^ 31"
  have v: "unat buf = unat buf div 2 ^ 31 * 2 ^ 31 + ?l" by simp
  have "unat (push_bit 1 buf) = (2 * unat buf) mod 2 ^ 32" unfolding unsigned_push_bit_eq by (simp add: push_bit_eq_mult take_bit_eq_mod mult.commute)
  also have "\<dots> = 2 * ?l" using mult_mod_right [of 2 "unat buf" "2 ^ 31"] by simp
  finally have p: "unat (push_bit 1 buf) = 2 * ?l" .
  have e: "(2 :: nat) ^ (32 - n) = 2 * 2 ^ (31 - n)" using assms by (simp add: power_Suc [symmetric] Suc_diff_le del: power_Suc)
  have "(2 :: nat) ^ 31 = 2 ^ n * 2 ^ (31 - n)" using assms unfolding power_add [symmetric] by simp
  then have "unat buf = ?l + unat buf div 2 ^ 31 * 2 ^ n * 2 ^ (31 - n)" using v by (simp only: mult.assoc add.commute)
  then have "unat buf div 2 ^ (31 - n) = (?l + unat buf div 2 ^ 31 * 2 ^ n * 2 ^ (31 - n)) div 2 ^ (31 - n)" by (rule arg_cong)
  also have "\<dots> = unat buf div 2 ^ 31 * 2 ^ n + ?l div 2 ^ (31 - n)" by (subst div_mult_self1) simp_all
  finally show ?thesis unfolding p e b by simp
qed


lemma expt_loop_bits:
  assumes me: "mont_ok me" "table_ok me g M"
  shows "n < 32 \<Longrightarrow> expt_inv me g e st \<Longrightarrow>
    \<exists>st' buf'. expt_loop me M X (Suc n) k buf st = expt_loop me M X 1 k buf' st' \<and> expt_inv me g (e * 2 ^ n + unat buf div 2 ^ (32 - n)) st'"
proof (induction n arbitrary: e st buf)
  case 0
  have "unat buf < 2 ^ 32" using unsigned_less [of buf, where ?'a = nat] by simp
  then have "unat buf div 2 ^ (32 - 0) = 0" by simp
  then show ?case using 0 by auto
next
  case (Suc n)
  obtain st1 where s1: "expt_bit me M (bit buf 31) st = Inr st1" "expt_inv me g (2 * e + of_bool (bit buf 31)) st1"
    using expt_bit_spec [OF me Suc.prems(2)] by blast
  have l: "expt_loop me M X (Suc (Suc n)) k buf st = expt_loop me M X (Suc n) k (push_bit 1 buf) st1"
    by (subst expt_loop.simps) (simp add: s1(1))
  obtain st' buf' where s': "expt_loop me M X (Suc n) k (push_bit 1 buf) st1 = expt_loop me M X 1 k buf' st'"
    "expt_inv me g ((2 * e + of_bool (bit buf 31)) * 2 ^ n + unat (push_bit 1 buf) div 2 ^ (32 - n)) st'"
    using Suc.IH [OF _ s1(2), of "push_bit 1 buf"] Suc.prems(1) by auto
  have "(2 * e + of_bool (bit buf 31)) * 2 ^ n + unat (push_bit 1 buf) div 2 ^ (32 - n) = e * 2 ^ Suc n + unat buf div 2 ^ (32 - Suc n)"
    using next_bit [of n buf] Suc.prems(1) by (simp add: distrib_right)
  then show ?case using l s' by metis
qed

lemma expt_loop_spec:
  assumes me: "mont_ok me" "table_ok me g M"
  shows "k \<le> length X \<Longrightarrow> expt_inv me g e st \<Longrightarrow>
    \<exists>st'. expt_loop me M X 1 k buf st = Inr st' \<and> expt_inv me g (e * 2 ^ (32 * k) + nat (wval (take k X))) st'"
proof (induction k arbitrary: e st buf)
  case 0
  then show ?case by (subst expt_loop.simps) simp
next
  case (Suc k)
  let ?b = "X ! k"
  obtain st1 where s1: "expt_bit me M (bit ?b 31) st = Inr st1" "expt_inv me g (2 * e + of_bool (bit ?b 31)) st1"
    using expt_bit_spec [OF me Suc.prems(2)] by blast
  have l: "expt_loop me M X 1 (Suc k) buf st = expt_loop me M X (Suc 31) k (push_bit 1 ?b) st1"
    by (subst expt_loop.simps) (simp add: s1(1))
  obtain st2 buf' where s2: "expt_loop me M X (Suc 31) k (push_bit 1 ?b) st1 = expt_loop me M X 1 k buf' st2"
    "expt_inv me g ((2 * e + of_bool (bit ?b 31)) * 2 ^ 31 + unat (push_bit 1 ?b) div 2 ^ (32 - 31)) st2"
    using expt_loop_bits [OF me _ s1(2), of 31 X k "push_bit 1 ?b"] by auto
  have e: "(2 * e + of_bool (bit ?b 31)) * 2 ^ 31 + unat (push_bit 1 ?b) div 2 ^ (32 - 31) = e * 2 ^ 32 + unat ?b"
    using next_bit [of 31 ?b] by (simp add: distrib_right)
  obtain st' where s': "expt_loop me M X 1 k buf' st2 = Inr st'" "expt_inv me g ((e * 2 ^ 32 + unat ?b) * 2 ^ (32 * k) + nat (wval (take k X))) st'"
    using Suc.IH [OF _ s2(2) [unfolded e]] Suc.prems(1) by auto
  have "wval (take (Suc k) X) = wval (take k X) + 2 ^ (32 * k) * uint ?b" using Suc.prems(1) by (subst wval_take_Suc) simp_all
  then have "nat (wval (take (Suc k) X)) = nat (wval (take k X)) + 2 ^ (32 * k) * unat ?b"
    by (simp add: nat_add_distrib nat_mult_distrib nat_power_eq)
  then have "(e * 2 ^ 32 + unat ?b) * 2 ^ (32 * k) + nat (wval (take k X)) = e * 2 ^ (32 * Suc k) + nat (wval (take (Suc k) X))"
    by (simp add: distrib_right power_add)
  then show ?case using l s2(1) s' by metis
qed

lemma window_next:
  fixes b :: nat
  assumes "n \<le> v"
  shows "b mod 2 ^ Suc v div 2 ^ (v - n) = of_bool (bit b v) * 2 ^ n + push_bit 1 b mod 2 ^ Suc v div 2 ^ (Suc v - n)"
proof -
  let ?l = "b mod 2 ^ v"
  have m: "b mod 2 ^ Suc v = ?l + of_bool (bit b v) * 2 ^ v"
  proof -
    have "b mod (2 ^ v * 2) = 2 ^ v * (b div 2 ^ v mod 2) + ?l" by (rule mod_mult2_eq)
    moreover have "b div 2 ^ v mod 2 = of_bool (bit b v)" by (simp add: bit_iff_odd mod2_eq_if)
    ultimately show ?thesis by (simp add: mult.commute)
  qed
  have p: "(2 :: nat) ^ v = 2 ^ n * 2 ^ (v - n)" using assms unfolding power_add [symmetric] by simp
  have "b mod 2 ^ Suc v div 2 ^ (v - n) = (?l + of_bool (bit b v) * 2 ^ n * 2 ^ (v - n)) div 2 ^ (v - n)"
    unfolding m by (subst (2) p) (simp only: mult.assoc)
  also have "\<dots> = of_bool (bit b v) * 2 ^ n + ?l div 2 ^ (v - n)" by (subst div_mult_self1) simp_all
  also have "?l div 2 ^ (v - n) = (2 * b) mod 2 ^ Suc v div 2 ^ (Suc v - n)"
    using assms mult_mod_right [of 2 b "2 ^ v"] by (simp add: Suc_diff_le)
  finally show ?thesis by (simp add: push_bit_eq_mult mult.commute)
qed

lemma expt_rest_spec:
  assumes me: "mont_ok me" and g: "mont_rep me M1 g"
  shows "n \<le> me_winsize me \<Longrightarrow> mont_rep me res (g ^ h) \<Longrightarrow>
    \<exists>r. expt_rest me M1 n b res = Inr r \<and> mont_rep me r (g ^ (h * 2 ^ n + b mod 2 ^ me_winsize me div 2 ^ (me_winsize me - n)))"
proof (induction n arbitrary: b h res)
  case (Suc n)
  let ?w = "me_winsize me"
  obtain v where v: "?w = Suc v" using Suc.prems(1) by (cases ?w) auto
  obtain r1 where r1: "mont_sqr me res = Inr r1" "mont_rep me r1 (g ^ h * g ^ h)" using mont_sqr_spec [OF me Suc.prems(2)] .
  have bt: "push_bit 1 b AND push_bit ?w 1 \<noteq> 0 \<longleftrightarrow> bit b v"
    using and_exp_eq_0_iff_not_bit [of "push_bit 1 b" "Suc v"] by (simp only: v push_bit_of_1 bit_push_bit_iff_nat) simp
  define y where "y = bit b v"
  have "\<exists>r2. expt_rest me M1 (Suc n) b res = expt_rest me M1 n (push_bit 1 b) r2 \<and> mont_rep me r2 (g ^ (2 * h + of_bool y))"
  proof (cases y)
    case True
    obtain r2 where r2: "mont_mul me r1 M1 r1 = Inr r2" "mont_rep me r2 (g ^ h * g ^ h * g)"
      using mont_mul_spec [OF me r1(2) g] mont_wf [OF r1(2)] by metis
    have "g ^ h * g ^ h * g = g ^ (2 * h + of_bool y)" using True by (simp add: mult_2 power_add)
    moreover have "expt_rest me M1 (Suc n) b res = expt_rest me M1 n (push_bit 1 b) r2" using r1(1) r2(1) bt True by (simp add: y_def Let_def)
    ultimately show ?thesis using r2(2) by metis
  next
    case False
    have "g ^ h * g ^ h = g ^ (2 * h + of_bool y)" using False by (simp add: mult_2 power_add)
    moreover have "expt_rest me M1 (Suc n) b res = expt_rest me M1 n (push_bit 1 b) r1" using r1(1) bt False by (simp add: y_def Let_def)
    ultimately show ?thesis using r1(2) by metis
  qed
  then obtain r2 where r2: "expt_rest me M1 (Suc n) b res = expt_rest me M1 n (push_bit 1 b) r2" "mont_rep me r2 (g ^ (2 * h + of_bool y))" by blast
  obtain r where r: "expt_rest me M1 n (push_bit 1 b) r2 = Inr r" "mont_rep me r (g ^ ((2 * h + of_bool y) * 2 ^ n + push_bit 1 b mod 2 ^ ?w div 2 ^ (?w - n)))"
    using Suc.IH [OF _ r2(2), of "push_bit 1 b"] Suc.prems(1) by auto
  have "(2 * h + of_bool y) * 2 ^ n + push_bit 1 b mod 2 ^ ?w div 2 ^ (?w - n) = h * 2 ^ Suc n + b mod 2 ^ ?w div 2 ^ (?w - Suc n)"
    using window_next [of n v b] Suc.prems(1) unfolding v y_def by (simp add: distrib_right)
  then show ?case using r2(1) r by metis
qed simp


lemma expt_finish:
  assumes me: "mont_ok me" and g: "mont_rep me M1 g" and inv: "expt_inv me g e st"
  obtains r where "(if es_mode st = 2 \<and> es_bitcpy st > 0 then expt_rest me M1 (es_bitcpy st) (es_bitbuf st) (es_res st) else Inr (es_res st)) = Inr r"
    and "mont_rep me r (g ^ e)"
proof (cases "es_mode st = 2")
  case True
  let ?w = "me_winsize me" and ?c = "es_bitcpy st"
  obtain h b where p: "0 < ?c" "?c < ?w" "e = h * 2 ^ ?c + b" "b < 2 ^ ?c" "es_bitbuf st = b * 2 ^ (?w - ?c)" "mont_rep me (es_res st) (g ^ h)"
    using inv True by (auto simp: expt_inv_def)
  obtain r where r: "expt_rest me M1 ?c (es_bitbuf st) (es_res st) = Inr r" "mont_rep me r (g ^ (h * 2 ^ ?c + es_bitbuf st mod 2 ^ ?w div 2 ^ (?w - ?c)))"
    using expt_rest_spec [OF me g _ p(6), of ?c "es_bitbuf st"] p(2) by auto
  have "b * 2 ^ (?w - ?c) < 2 ^ ?c * 2 ^ (?w - ?c)" using p(4) by simp
  then have "es_bitbuf st < 2 ^ ?w" unfolding p(5) power_add [symmetric] using p(2) by simp
  then have "es_bitbuf st mod 2 ^ ?w div 2 ^ (?w - ?c) = b" unfolding p(5) by simp
  then show thesis using that [of r] r True p(1,3) by simp
next
  case False
  then show thesis using that [of "es_res st"] inv by (auto simp: expt_inv_def)
qed

lemma power_mod_odd:
  fixes P :: int
  assumes "odd P" and "1 < P"
  shows "0 < 2 ^ k mod P"
proof -
  have "\<not> P dvd 2 ^ k"
  proof
    assume "P dvd 2 ^ k"
    moreover have "coprime P (2 ^ k)" using assms(1) by (simp add: coprime_power_right_iff)
    ultimately have "is_unit P" by (meson coprime_common_divisor dvd_refl)
    then show False using assms(2) by (simp add: zdvd1_eq)
  qed
  then show ?thesis using assms(2) pos_mod_sign [of P "2 ^ k"] by (simp add: less_le dvd_eq_mod_eq_0)
qed

text \<open>What the two branches for the base leave: its remainder.\<close>

lemma expt_base:
  assumes P: "pstm_ok P" "pm_sign P = PSTM_ZPOS" "0 < pm_abs P" and G: "pstm_ok G" "pm_sign G = PSTM_ZPOS"
    "pm_abs G < pm_abs P \<or> pm_used G < 4094 \<and> 2 \<le> pm_alloc G \<and> rem_clear (pm_abs G) (pm_abs P) (pm_used G + 1)"
  obtains m where "(if pstm_cmp_mag P G \<noteq> PSTM_GT then pstm_mod G P (pstm_init_size l) else Inr (pstm_copy G (pstm_init_size l))) = Inr m"
    and "pstm_ok m" and "pm_sign m = PSTM_ZPOS" and "pm_abs m = pm_abs G mod pm_abs P" and "pm_used m \<le> pm_used P"
proof -
  obtain m where m: "(if pstm_cmp_mag P G \<noteq> PSTM_GT then pstm_mod G P (pstm_init_size l) else Inr (pstm_copy G (pstm_init_size l))) = Inr m"
    "pstm_ok m" "pm_sign m = PSTM_ZPOS" "pm_abs m = pm_abs G mod pm_abs P"
  proof (cases "pm_abs G < pm_abs P")
    case True
    note c = pstm_copy_spec [OF G(1) pstm_ok_wf [OF pstm_init_size_spec(1)], of l]
    show thesis by (rule that [of "pstm_copy G (pstm_init_size l)"]) (use c True G(2) pstm_cmp_mag_spec [OF P(1) G(1)] in simp_all)
  next
    case False
    then obtain r where "pstm_mod G P (pstm_init_size l) = Inr r" "pstm_ok r" "pm_sign r = PSTM_ZPOS" "pm_abs r = pm_abs G mod pm_abs P"
      using pstm_mod_spec [OF G(1,2) _ _ P] G(3) by metis
    then show thesis using that False pstm_cmp_mag_spec [OF P(1) G(1)] by (simp add: sgn_if)
  qed
  have "pm_abs m < 2 ^ (32 * pm_used P)" unfolding m(4) using pos_mod_bound [OF P(3), of "pm_abs G"] pm_abs_upper [of P] P(1) by simp
  then have "pm_used m \<le> pm_used P" using pm_used_le [OF m(2)] by blast
  then show thesis using that m by blast
qed

text \<open>The table and the loop, from the Montgomery form of the base.\<close>

lemma expt_powers:
  fixes w :: nat and g :: int
  assumes ok: "mont_ok me" and w: "me_winsize me = w" "1 < w" and M1: "mont_rep me M1 g" and res: "mont_rep me res 1" and X: "pm_wf X"
  defines "half \<equiv> push_bit (w - 1) 1"
  obtains Mh M' st r where "mont_sqrs me (w - 1) (pstm_init_copy M1 True) = Inr Mh"
    and "expt_table me [half + 1..<push_bit w 1] (\<lambda>x. if x = half then Mh else if x = 1 then M1 else pstm_init_size (pm_alloc Mh + 1)) = Inr M'"
    and "expt_loop me M' (pm_digits X) 1 (pm_used X) 0 \<lparr>es_mode = 0, es_bitcpy = 0, es_bitbuf = 0, es_res = res\<rparr> = Inr st"
    and "(if es_mode st = 2 \<and> es_bitcpy st > 0 then expt_rest me (M' 1) (es_bitcpy st) (es_bitbuf st) (es_res st) else Inr (es_res st)) = Inr r"
    and "mont_rep me r (g ^ nat (pm_abs X))"
proof -
  have half: "half = 2 ^ (w - 1)" "push_bit w 1 = 2 * half" "(2 :: nat) ^ w = 2 * half"
    using w(2) by (auto simp: half_def push_bit_of_1 power_eq_if)
  have half1: "1 < half" unfolding half(1) using w(2) one_less_power [of "2 :: nat" "w - 1"] by simp
  have "mont_rep me (pstm_init_copy M1 True) g" using M1 pstm_init_copy_spec [of M1 True] by (simp add: mont_rep_def)
  then obtain Mh where Mh: "mont_sqrs me (w - 1) (pstm_init_copy M1 True) = Inr Mh" "mont_rep me Mh (g ^ half)"
    using mont_sqrs_spec [OF ok] unfolding half(1) by blast
  define M where "M = (\<lambda>x. if x = half then Mh else if x = 1 then M1 else pstm_init_size (pm_alloc Mh + 1))"
  have "mont_rep me (M 1) g" "mont_rep me (M (half + 1 - 1)) (g ^ (half + 1 - 1))" "1 < half + 1"
    using half1 M1 Mh(2) by (simp_all add: M_def)
  moreover have "pm_wf (M x) \<and> pm_used (me_P me) + 1 \<le> pm_alloc (M x)" if "half + 1 \<le> x" for x
    using that half1 mont_wf [OF Mh(2)] by (simp add: M_def)
  ultimately obtain M' where M': "expt_table me [half + 1..<half + 1 + (half - 1)] M = Inr M'"
    "\<And>x. half \<le> x \<Longrightarrow> x < half + 1 + (half - 1) \<Longrightarrow> mont_rep me (M' x) (g ^ x)" "\<And>x. x < half + 1 \<Longrightarrow> M' x = M x"
    using expt_table_spec [OF ok, of "half + 1" M g "half - 1"] unfolding diff_add_inverse2 by blast
  have hh: "half + 1 + (half - 1) = push_bit w 1" using half(2) half1 by simp
  have tab: "table_ok me g M'" using M'(2) half w half1 by (simp add: table_ok_def)
  have M1': "M' 1 = M1" using M'(3) [of 1] half1 by (simp add: M_def)
  let ?st = "\<lparr>es_mode = 0, es_bitcpy = 0, es_bitbuf = 0, es_res = res\<rparr>"
  have "expt_inv me g 0 ?st" using res by (simp add: expt_inv_def)
  then obtain st where st: "expt_loop me M' (pm_digits X) 1 (pm_used X) 0 ?st = Inr st"
    "expt_inv me g (0 * 2 ^ (32 * pm_used X) + nat (wval (take (pm_used X) (pm_digits X)))) st"
    using expt_loop_spec [OF ok tab] X by (metis length_pm_digits order_refl)
  have e: "0 * 2 ^ (32 * pm_used X) + nat (wval (take (pm_used X) (pm_digits X))) = nat (pm_abs X)" using X by (simp add: pm_abs_def)
  obtain r where r: "(if es_mode st = 2 \<and> es_bitcpy st > 0 then expt_rest me (M' 1) (es_bitcpy st) (es_bitbuf st) (es_res st) else Inr (es_res st)) = Inr r"
    "mont_rep me r (g ^ nat (pm_abs X))"
    using expt_finish [OF ok M1 st(2) [unfolded e]] unfolding M1' .
  show thesis by (rule that [OF Mh(1) M'(1) [unfolded hh M_def] st(1) r])
qed

text \<open>The last reduction leaves the Montgomery form.\<close>

lemma mont_leave:
  assumes ok: "mont_ok me" and a: "mont_rep me a v"
  obtains r where "pstm_montgomery_reduce a (me_P me) (me_mp me) (me_paDlen me) = Inr r" and "pstm_ok r" and "pm_sign r = PSTM_ZPOS"
    and "pm_abs r = v mod pm_abs (me_P me)"
proof -
  let ?P = "pm_abs (me_P me)" and ?R = "2 ^ (32 * pm_used (me_P me)) :: int"
  note m = ok [unfolded mont_ok_def] and a' = a [unfolded mont_rep_def mont_R_def]
  have n0: "0 < pm_used (me_P me)" using m pm_used_zero [of "me_P me"] by (cases "pm_used (me_P me)") auto
  have "1 * ?P \<le> ?R * ?P" using m by (intro mult_right_mono) simp_all
  then have "pm_abs a < ?P * ?R" using a' by (simp add: mult.commute)
  then obtain r where r: "pstm_montgomery_reduce a (me_P me) (me_mp me) (me_paDlen me) = Inr r" "pstm_ok r" "pm_sign r = PSTM_ZPOS" "pm_abs r < ?P"
    "(?R * pm_abs r) mod ?P = pm_abs a mod ?P"
    using pstm_montgomery_reduce_spec [of a "me_P me" "me_mp me" "me_paDlen me"] a' m n0 by metis
  have "(?R * pm_abs r) mod ?P = (?R * v) mod ?P" unfolding r(5) using a' by (simp add: mult.commute)
  then have "pm_abs r mod ?P = v mod ?P" by (rule mod_cancel_odd) (use m in simp)
  then show thesis using that r by simp
qed

lemma pstm_exptmod_spec:
  assumes P: "pstm_ok P" "pm_sign P = PSTM_ZPOS" "odd (pm_abs P)" "1 < pm_abs P" "pm_used P < 2046" "pm_used P < pm_alloc P"
    and G: "pstm_ok G" "pm_sign G = PSTM_ZPOS"
      "pm_abs G < pm_abs P \<or> pm_used G < 4094 \<and> 2 \<le> pm_alloc G \<and> rem_clear (pm_abs G) (pm_abs P) (pm_used G + 1)"
    and X: "pm_wf X" and Y: "pm_wf Y"
    and clear: "rem_clear (pm_abs G mod pm_abs P * (2 ^ (32 * pm_used P) mod pm_abs P)) (pm_abs P) (2 * pm_used P + 1)"
    and room: "2 ^ (32 * (pm_used P - 3)) \<le> (pm_abs G * 2 ^ (32 * pm_used P)) mod pm_abs P"
  obtains r where "pstm_exptmod G X P Y = Inr r" and "pstm_ok r" and "pm_sign r = PSTM_ZPOS"
    and "pm_abs r = pm_abs G ^ nat (pm_abs X) mod pm_abs P"
proof -
  let ?P = "pm_abs P" and ?G = "pm_abs G" and ?n = "pm_used P" and ?R = "(2 :: int) ^ (32 * pm_used P)"
  have P0: "0 < ?P" using P(4) by simp
  obtain mp where mp: "pstm_montgomery_setup P = Inr mp" "mp * pm_dp P ! 0 = - 1" using pstm_montgomery_setup_spec [OF pstm_ok_wf [OF P(1)] P(3)] .
  have a0: "0 < pm_alloc (pstm_init_size (?n * 2 + 1))" and u: "?n < 4095" using P(5) by simp_all
  obtain res where res: "pstm_montgomery_calc_normalization (pstm_init_size (?n * 2 + 1)) P = Inr res" "pstm_ok res" "pm_sign res = PSTM_ZPOS"
    "pm_abs res = ?R mod ?P" "pm_alloc (pstm_init_size (?n * 2 + 1)) \<le> pm_alloc res"
    using pstm_montgomery_calc_normalization_spec [OF pstm_ok_wf [OF pstm_init_size_spec(1)] a0 P(1,3,4) u] .
  have "pm_abs res < 2 ^ (32 * ?n)" unfolding res(4) using pos_mod_bound [OF P0, of ?R] pm_abs_upper [of P] P(1) by simp
  then have ur: "pm_used res \<le> ?n" using pm_used_le [OF res(2)] by blast
  have respos: "0 < pm_abs res" unfolding res(4) using P(3,4) by (rule power_mod_odd)
  obtain m where m: "(if pstm_cmp_mag P G \<noteq> PSTM_GT then pstm_mod G P (pstm_init_size (pm_used res)) else Inr (pstm_copy G (pstm_init_size (pm_used res)))) = Inr m"
    "pstm_ok m" "pm_sign m = PSTM_ZPOS" "pm_abs m = ?G mod ?P" "pm_used m \<le> ?n"
    using expt_base [OF P(1,2) P0 G] by metis
  have "pm_used m + pm_used res < 4094" using m(5) ur P(5) by simp
  moreover have "rem_clear (pm_abs m * pm_abs res) ?P (pm_used m + pm_used res + 1)"
    using clear unfolding m(4) res(4) by (rule rem_clear_mono) (use m(5) ur in simp)
  ultimately obtain M1 where M1: "pstm_mulmod True m res P m = Inr M1" "pstm_ok M1" "pm_sign M1 = PSTM_ZPOS" "pm_abs M1 = (pm_abs m * pm_abs res) mod ?P"
    "pm_alloc P \<le> pm_alloc M1" using pstm_mulmod_spec [OF m(2,3) res(2,3) respos _ P(1,2) P0] by metis
  have M1v: "pm_abs M1 = (?G * ?R) mod ?P" unfolding M1(4) m(4) res(4) by (simp add: mod_mult_eq)
  define w where "w = (if pstm_count_bits X < 50 then 2 else 3 :: nat)"
  define me where "me = \<lparr>me_P = P, me_mp = mp, me_paDlen = (pm_used M1 + 3) * 2 * 4, me_winsize = w\<rparr>"
  have mes: "me_P me = P" "me_mp me = mp" "me_winsize me = w" "mont_R me = ?R" by (simp_all add: me_def mont_R_def)
  have "?n - 3 < pm_used M1" using room pm_used_less [OF M1(2)] unfolding M1v by blast
  then have ok: "mont_ok me" using P mp(2) by (simp add: mont_ok_def me_def)
  have reps: "mont_rep me M1 ?G" "mont_rep me res 1" using M1(2,3,5) P(6) P0 res by (simp_all add: mont_rep_def mes M1v)
  have w: "1 < w" by (simp add: w_def)
  obtain Mh M' st r1 where p: "mont_sqrs me (w - 1) (pstm_init_copy M1 True) = Inr Mh"
    "expt_table me [push_bit (w - 1) 1 + 1..<push_bit w 1]
       (\<lambda>x. if x = push_bit (w - 1) 1 then Mh else if x = 1 then M1 else pstm_init_size (pm_alloc Mh + 1)) = Inr M'"
    "expt_loop me M' (pm_digits X) 1 (pm_used X) 0 \<lparr>es_mode = 0, es_bitcpy = 0, es_bitbuf = 0, es_res = res\<rparr> = Inr st"
    "(if es_mode st = 2 \<and> es_bitcpy st > 0 then expt_rest me (M' 1) (es_bitcpy st) (es_bitbuf st) (es_res st) else Inr (es_res st)) = Inr r1"
    "mont_rep me r1 (?G ^ nat (pm_abs X))" using expt_powers [OF ok mes(3) w reps X] .
  obtain r where r: "pstm_montgomery_reduce r1 P mp (me_paDlen me) = Inr r" "pstm_ok r" "pm_sign r = PSTM_ZPOS" "pm_abs r = ?G ^ nat (pm_abs X) mod ?P"
    using mont_leave [OF ok p(5)] unfolding mes .
  note c = pstm_copy_spec [OF r(2) Y]
  have "pstm_exptmod G X P Y = Inr (pstm_copy r Y)"
    unfolding pstm_exptmod_def w_def [symmetric] Let_def mp(1) res(1) ps_bind.simps m(1) M1(1) me_def [symmetric] p(1-4) r(1) by simp
  then show thesis by (rule that) (use c r in simp_all)
qed

section \<open>Bytes\<close>

text \<open>The number that bytes stand for, most significant first: OS2IP of RFC 8017.\<close>

definition os2ip :: "byte list \<Rightarrow> int" where "os2ip bs = wval (rev bs)"

lemma os2ip_simps [simp]: "os2ip [] = 0" "os2ip (replicate n 0 @ bs) = os2ip bs" "0 \<le> os2ip bs"
  by (simp_all add: os2ip_def wval_append)

lemma os2ip_less: "os2ip bs < 2 ^ (8 * length bs)" using wval_less [of "rev bs"] by (simp add: os2ip_def)

lemma os2ip_inject: "length bs = length cs \<Longrightarrow> os2ip bs = os2ip cs \<longleftrightarrow> bs = cs"
  using wval_inject [of "rev bs" "rev cs"] by (simp add: os2ip_def)

lemma os2ip_Cons: "os2ip (b # bs) = uint b * 2 ^ (8 * length bs) + os2ip bs"
  by (simp add: os2ip_def wval_append)

lemma os2ip_dropWhile: "os2ip (dropWhile (\<lambda>b. b = 0) N) = os2ip N"
  by (induction N) (simp_all add: os2ip_Cons)

lemma os2ip_octets:
  assumes "os2ip N \<noteq> 0"
  obtains j where "length (dropWhile (\<lambda>b. b = 0) N) = Suc j" and "2 ^ (8 * j) \<le> os2ip N" and "os2ip N < 2 ^ (8 * Suc j)"
proof -
  let ?d = "dropWhile (\<lambda>b. b = 0) N"
  note v = os2ip_dropWhile [of N]
  then obtain x xs where x: "?d = x # xs" using assms by (cases ?d) auto
  then have "x \<noteq> 0" using hd_dropWhile [of "\<lambda>b. b = 0" N] by simp
  then have "1 \<le> uint x" by (simp add: word_neq_0_conv word_less_def)
  then have "1 * 2 ^ (8 * length xs) \<le> uint x * 2 ^ (8 * length xs)" by (intro mult_right_mono) simp_all
  moreover have "os2ip N = uint x * 2 ^ (8 * length xs) + os2ip xs" using v by (simp add: x os2ip_Cons)
  ultimately have "2 ^ (8 * length xs) \<le> os2ip N" using os2ip_simps(3) [of xs] by linarith
  moreover have "os2ip N < 2 ^ (8 * Suc (length xs))" using v os2ip_less [of ?d] by (simp add: x)
  ultimately show thesis using that [of "length xs"] by (simp add: x)
qed

lemma os2ip_octets_zero: "os2ip N = 0 \<Longrightarrow> dropWhile (\<lambda>b. b = 0) N = []"
proof (rule ccontr)
  assume z: "os2ip N = 0" and "dropWhile (\<lambda>b. b = 0) N \<noteq> []"
  then obtain x xs where x: "dropWhile (\<lambda>b. b = 0) N = x # xs" by (meson neq_Nil_conv)
  then have "x \<noteq> 0" using hd_dropWhile [of "\<lambda>b. b = 0" N] by simp
  then have "0 < uint x * 2 ^ (8 * length xs)" by (simp add: word_neq_0_conv word_less_def)
  then show False using z os2ip_dropWhile [of N] os2ip_simps(3) [of xs] by (simp add: x os2ip_Cons del: os2ip_simps)
qed

lemma wval_words32:
  assumes "length bs = 4 * n"
  shows "wval (words32 bs) = wval bs"
proof -
  let ?c = "map (\<lambda>i. take 4 (drop (4 * i) bs)) [0..<n]"
  have e: "words32 bs = map le_word ?c" using assms by (simp add: words32_def)
  have l: "length b = 4" if "b \<in> set ?c" for b using that length_chunk [of 4 n bs] assms by auto
  have "wval (map le_word ?c :: u32 list) = wval (concat ?c)" by (rule wval_words [OF l]) simp_all
  moreover have "concat ?c = take (4 * n) bs"
  proof (induction n)
    case (Suc n)
    then show ?case using take_add [of "4 * n" 4 bs] by (simp add: add.commute)
  qed simp
  ultimately show ?thesis unfolding e using assms by simp
qed

lemma zero_bytes: "concat (map (le_bytes 4) (replicate n (0 :: u32))) = replicate (4 * n) 0"
  by (induction n) (simp_all add: le_bytes_def numeral_eq_Suc)

lemma words32_zeros:
  assumes "length bs \<le> 4 * k" and "k \<le> n"
  shows "drop k (words32 (bs @ replicate (4 * n - length bs) 0)) = replicate (n - k) 0"
proof (rule nth_equalityI)
  show "length (drop k (words32 (bs @ replicate (4 * n - length bs) 0))) = length (replicate (n - k) (0 :: u32))" using assms by simp
next
  fix i assume "i < length (drop k (words32 (bs @ replicate (4 * n - length bs) 0)))"
  then have i: "k + i < n" using assms by simp
  have "take 4 (drop (4 * (k + i)) (bs @ replicate (4 * n - length bs) 0)) = replicate 4 (0 :: byte)"
    using assms(1) i by (simp add: min_def)
  moreover have "le_word (replicate 4 (0 :: byte)) = (0 :: u32)" by (simp add: numeral_eq_Suc)
  ultimately show "drop k (words32 (bs @ replicate (4 * n - length bs) 0)) ! i = replicate (n - k) 0 ! i"
    using i assms by (simp add: words32_def)
qed

lemma pstm_read_unsigned_bin_spec:
  assumes "pm_wf a" and "length b \<le> 4 * PSTM_MAX_SIZE"
  shows "pstm_ok (pstm_read_unsigned_bin a b)" and "pm_abs (pstm_read_unsigned_bin a b) = os2ip b" and "pm_sign (pstm_read_unsigned_bin a b) = PSTM_ZPOS"
    and "pm_alloc (pstm_read_unsigned_bin a b) = max ((length b + 3) div 4) (pm_alloc a)"
proof -
  let ?u = "(length b + 3) div 4" and ?n = "max ((length b + 3) div 4) (pm_alloc a)"
  define bs where "bs = rev b @ replicate (4 * ?n - length b) 0"
  define r where "r = (pstm_grow ((pstm_zero a)\<lparr>pm_used := ?u\<rparr>) ?u)\<lparr>pm_dp := words32 bs\<rparr>"
  have len: "length b \<le> 4 * ?u" by linarith
  have lb: "length bs = 4 * ?n" using len by (simp add: bs_def)
  have g: "pm_dp (pstm_grow ((pstm_zero a)\<lparr>pm_used := ?u\<rparr>) ?u) = replicate ?n 0"
    by (auto simp: pstm_grow_def pstm_zero_def replicate_joined max_def)
  have mw: "mem_write (concat (map (le_bytes 4) (replicate ?n (0 :: u32)))) 0 (rev b) = bs"
    unfolding zero_bytes bs_def by (simp add: mem_write_def)
  have nl: "(PSTM_MAX_SIZE * 4 < length b) = False" and ua: "length b + 4 - 1 = length b + 3" using assms(2) by simp_all
  have e: "pstm_read_unsigned_bin a b = pstm_clamp r"
    unfolding pstm_read_unsigned_bin_def Let_def pstm_grow_guard r_def by (simp only: nl if_False ua g mw)
  have f: "pm_used r = ?u" "pm_alloc r = ?n" "pm_sign r = PSTM_ZPOS" "pm_dp r = words32 bs"
    by (auto simp: r_def pstm_grow_def pstm_zero_def)
  have z: "drop ?u (words32 bs) = replicate (?n - ?u) 0" unfolding bs_def using words32_zeros [of "rev b" ?u ?n] len by simp
  have w: "pm_wf r" by (rule pm_wfI) (use f z lb in simp_all)
  have "pm_abs r = wval bs" using wval_dp [OF w] wval_words32 [OF lb] f(4) by simp
  then have "pm_abs r = os2ip b" by (simp add: bs_def os2ip_def wval_append)
  then show "pstm_ok (pstm_read_unsigned_bin a b)" "pm_abs (pstm_read_unsigned_bin a b) = os2ip b" "pm_sign (pstm_read_unsigned_bin a b) = PSTM_ZPOS"
    "pm_alloc (pstm_read_unsigned_bin a b) = ?n"
    unfolding e using pstm_clamp_spec [OF w] f by simp_all
qed

lemma reverse_loop_spec:
  "iy < length s \<Longrightarrow> length (reverse_loop s ix iy) = length s
     \<and> (\<forall>i < length s. reverse_loop s ix iy ! i = (if ix \<le> i \<and> i \<le> iy then s ! (ix + iy - i) else s ! i))"
proof (induction s ix iy rule: reverse_loop.induct)
  case (1 s ix iy)
  show ?case
  proof (cases "ix < iy")
    case False
    then have "ix + iy - i = i" if "ix \<le> i" "i \<le> iy" for i using that by simp
    then show ?thesis using False by (subst (1 2) reverse_loop.simps) simp
  next
    case True
    let ?s = "s[ix := s ! iy, iy := s ! ix]"
    have ih: "length (reverse_loop ?s (ix + 1) (iy - 1)) = length s"
      "\<And>i. i < length s \<Longrightarrow> reverse_loop ?s (ix + 1) (iy - 1) ! i = (if ix + 1 \<le> i \<and> i \<le> iy - 1 then ?s ! (ix + 1 + (iy - 1) - i) else ?s ! i)"
      using 1 True by simp_all
    have "reverse_loop ?s (ix + 1) (iy - 1) ! i = (if ix \<le> i \<and> i \<le> iy then s ! (ix + iy - i) else s ! i)" if "i < length s" for i
      using that True 1(2) unfolding ih(2) [OF that] by (auto simp: nth_list_update)
    then show ?thesis using ih(1) True by (subst (1 2) reverse_loop.simps) simp
  qed
qed

lemma pstm_reverse_spec: "pstm_reverse s = rev s"
proof (cases "s = []")
  case True
  then show ?thesis by (simp add: pstm_reverse_def reverse_loop.simps)
next
  case False
  then have l: "length s - 1 < length s" by simp
  note r = reverse_loop_spec [OF l, of 0]
  show ?thesis by (rule nth_equalityI) (use r in \<open>auto simp: pstm_reverse_def rev_nth\<close>)
qed

lemma low_byte:
  assumes "pm_wf t" and "0 < pm_used t"
  shows "uint (ucast (pm_dp t ! 0 AND 255) :: byte) = pm_abs t mod 2 ^ 8"
proof -
  have "pm_dp t \<noteq> []" using assms by (metis length_pm_dp list.size(3) not_less pm_used_alloc)
  then obtain d ds where d: "pm_dp t = d # ds" by (cases "pm_dp t") auto
  then have v: "pm_abs t = uint d + 2 ^ 32 * wval ds" using wval_dp [OF assms(1)] by simp
  have "pm_abs t mod 2 ^ 8 = uint d mod 2 ^ 8" unfolding v by (simp add: mod_mult_right_eq mod_add_eq [symmetric])
  moreover have "uint (ucast (d AND 255) :: byte) = uint d mod 2 ^ 8"
  proof -
    have m: "(255 :: u32) = mask 8" by (simp add: mask_eq_exp_minus_1)
    have "ucast (d AND 255) = (ucast d :: byte)" unfolding m by (rule bit_word_eqI) (auto simp: bit_simps)
    then show ?thesis by (simp add: unsigned_ucast_eq take_bit_eq_mod)
  qed
  ultimately show ?thesis by (simp add: d)
qed


lemma to_bin_loop_spec:
  "pstm_ok t \<Longrightarrow> pm_sign t = PSTM_ZPOS \<Longrightarrow> pm_abs t < 2 ^ (8 * n) \<Longrightarrow>
    \<exists>ds. to_bin_loop (Suc n) t b = Inr (b @ ds) \<and> wval ds = pm_abs t \<and> (ds \<noteq> [] \<longrightarrow> last ds \<noteq> 0)"
proof (induction n arbitrary: t b)
  case 0
  then show ?case using pm_used_zero [of t] pm_abs_ge [of t] by (simp del: pm_abs_ge)
next
  case (Suc n)
  show ?case
  proof (cases "pm_used t = 0")
    case True
    then show ?thesis using pm_used_zero [OF Suc.prems(1)] by simp
  next
    case False
    let ?d = "ucast (pm_dp t ! 0 AND 255) :: byte"
    obtain t' where t': "pstm_div_2d t 8 t None = Inr (t', None)" "pstm_ok t'" "pm_abs t' = pm_abs t div 2 ^ 8" "pm_sign t' = (pm_sign t \<and> pm_abs t' \<noteq> 0)"
      using pstm_div_2d_spec [OF Suc.prems(1), of 8] by (metis numeral_less_iff semiring_norm(76,78,79))
    have "pm_abs t < 2 ^ (8 * n) * 2 ^ 8" using Suc.prems(3) by (simp add: power_add)
    then have "pm_abs t' < 2 ^ (8 * n)" unfolding t'(3) by (rule int_div_less) simp
    then obtain ds where ds: "to_bin_loop (Suc n) t' (b @ [?d]) = Inr ((b @ [?d]) @ ds)" "wval ds = pm_abs t'" "ds \<noteq> [] \<longrightarrow> last ds \<noteq> 0"
      using Suc.IH [OF t'(2)] t'(4) Suc.prems(2) by blast
    have "uint ?d = pm_abs t mod 2 ^ 8" by (rule low_byte) (use Suc.prems(1) False in simp_all)
    then have v: "wval (?d # ds) = pm_abs t" using ds(2) t'(3) by simp
    have "last (?d # ds) \<noteq> 0"
    proof (cases "ds = []")
      case True
      then have "uint ?d = pm_abs t" using v by simp
      then show ?thesis using True False pm_used_zero [OF Suc.prems(1)] by auto
    qed (use ds(3) in simp)
    moreover have "to_bin_loop (Suc (Suc n)) t b = Inr (b @ ?d # ds)" using False t'(1) ds(1) by (subst to_bin_loop.simps) simp
    ultimately show ?thesis using v by blast
  qed
qed

lemma octets_of_bits: "L div 8 + (if L mod 8 \<noteq> 0 then 1 else 0) = (L + 7) div 8" for L :: nat
proof -
  define q r where "q = L div 8" and "r = L mod 8"
  have L: "L = 8 * q + r" and r: "r < 8" by (simp_all add: q_def r_def)
  have "(L + 7) div 8 = q + (r + 7) div 8" unfolding L by (simp add: add.assoc)
  moreover have "(r + 7) div 8 = (if r \<noteq> 0 then 1 else 0)" using r by auto
  ultimately show ?thesis by (simp add: q_def [symmetric] r_def [symmetric])
qed

lemma bin_size_octets: "pstm_unsigned_bin_size a = (pstm_count_bits a + 7) div 8"
  unfolding pstm_unsigned_bin_size_def Let_def by (rule octets_of_bits)

lemma bin_size_le:
  assumes "pstm_ok a" and "pm_abs a < 2 ^ (8 * k)"
  shows "pstm_unsigned_bin_size a \<le> k"
proof (cases "pm_used a = 0")
  case True
  then show ?thesis by (simp add: bin_size_octets pstm_count_bits_def)
next
  case False
  let ?L = "pstm_count_bits a"
  have "2 ^ (?L - 1) \<le> pm_abs a" "0 < ?L" using pstm_count_bits_spec [OF assms(1)] False by simp_all
  then have "(2 :: int) ^ (?L - 1) < 2 ^ (8 * k)" using assms(2) by linarith
  then have "?L - 1 < 8 * k" by (simp only: power_strict_increasing_iff one_less_numeral_iff semiring_norm)
  then show ?thesis unfolding bin_size_octets by linarith
qed

lemma bin_size_unique:
  assumes "pstm_ok a" and "2 ^ (8 * j) \<le> pm_abs a" and "pm_abs a < 2 ^ (8 * Suc j)"
  shows "pstm_unsigned_bin_size a = Suc j"
proof -
  let ?L = "pstm_count_bits a"
  have "pm_used a \<noteq> 0" using pm_used_zero [OF assms(1)] assms(2) by (metis not_le zero_less_numeral zero_less_power)
  then have "pm_abs a < 2 ^ ?L" using pstm_count_bits_spec [OF assms(1)] by simp
  then have "(2 :: int) ^ (8 * j) < 2 ^ ?L" using assms(2) by linarith
  then have "8 * j < ?L" by (simp only: power_strict_increasing_iff one_less_numeral_iff semiring_norm)
  then have "Suc j \<le> pstm_unsigned_bin_size a" unfolding bin_size_octets by linarith
  then show ?thesis using bin_size_le [OF assms(1,3)] by simp
qed

lemma pstm_to_unsigned_bin_spec:
  assumes "pstm_ok a" and "pm_sign a = PSTM_ZPOS"
  obtains bs where "pstm_to_unsigned_bin a = Inr bs" and "os2ip bs = pm_abs a" and "length bs = pstm_unsigned_bin_size a"
proof -
  let ?c = "pstm_init_copy a False"
  note c = pstm_init_copy_spec [OF assms(1), of False]
  have "pm_abs ?c < 2 ^ (8 * (4 * pm_used a))" unfolding c(2) using pm_abs_upper [of a] assms(1) by simp
  then obtain ds where ds: "to_bin_loop (Suc (4 * pm_used a)) ?c [] = Inr ([] @ ds)" "wval ds = pm_abs a" "ds \<noteq> [] \<longrightarrow> last ds \<noteq> 0"
    using to_bin_loop_spec [of ?c "4 * pm_used a" "[]"] c assms(2) by auto
  have e: "pstm_to_unsigned_bin a = Inr (rev ds)" using ds(1) by (simp add: pstm_to_unsigned_bin_def pstm_reverse_spec del: to_bin_loop.simps)
  have "length ds = pstm_unsigned_bin_size a"
  proof (cases "ds = []")
    case True
    then have "pm_used a = 0" using ds(2) pm_used_zero [OF assms(1)] by simp
    then show ?thesis using True by (simp add: pstm_unsigned_bin_size_def pstm_count_bits_def)
  next
    case False
    then obtain xs x where x: "ds = xs @ [x]" by (metis append_butlast_last_id)
    let ?k = "length xs"
    have "x \<noteq> 0" using ds(3) x by simp
    then have "1 \<le> uint x" by (simp add: word_neq_0_conv word_less_def)
    then have "2 ^ (8 * ?k) * 1 \<le> 2 ^ (8 * ?k) * uint x" by (intro mult_left_mono) simp_all
    moreover have "wval xs + 2 ^ (8 * ?k) * uint x = pm_abs a" using ds(2) by (simp add: x wval_append)
    ultimately have "2 ^ (8 * ?k) \<le> pm_abs a" using wval_ge [of xs] by linarith
    moreover have "pm_abs a < 2 ^ (8 * Suc ?k)" using ds(2) wval_less [of ds] by (simp add: x)
    ultimately show ?thesis using bin_size_unique [OF assms(1)] by (simp add: x)
  qed
  then show thesis using that [OF e] ds(2) by (simp add: os2ip_def)
qed

section \<open>Properties\<close>

text \<open>C16: \<^verbatim>\<open>pstm_exptmod\<close> returns, and its result is the power modulo \<^verbatim>\<open>P\<close>, for every exponent and every odd
  modulus of up to 2045 digits that was given one digit more than it uses: the window of two or three bits, the
  Montgomery form and the reductions cancel out. The two divisions before the loop must be clear of the borrow that
  \<^verbatim>\<open>s_pstm_sub\<close> loses, and the base in Montgomery form must not be shorter than the modulus by three digits,
  because the buffer of the reductions is allocated for its size.\<close>

theorem exptmod_power:
  assumes "pstm_ok P" and "pm_sign P = PSTM_ZPOS" and "odd (pm_abs P)" and "1 < pm_abs P" and "pm_used P < 2046" and "pm_used P < pm_alloc P"
    and "pstm_ok G" and "pm_sign G = PSTM_ZPOS"
    and "pm_abs G < pm_abs P \<or> pm_used G < 4094 \<and> 2 \<le> pm_alloc G \<and> rem_clear (pm_abs G) (pm_abs P) (pm_used G + 1)"
    and "pm_wf X" and "pm_wf Y"
    and "rem_clear (pm_abs G mod pm_abs P * (2 ^ (32 * pm_used P) mod pm_abs P)) (pm_abs P) (2 * pm_used P + 1)"
    and "2 ^ (32 * (pm_used P - 3)) \<le> (pm_abs G * 2 ^ (32 * pm_used P)) mod pm_abs P"
  shows "\<exists>r. pstm_exptmod G X P Y = Inr r \<and> pstm_ok r \<and> pm_sign r = PSTM_ZPOS \<and> pm_abs r = pm_abs G ^ nat (pm_abs X) mod pm_abs P"
  using pstm_exptmod_spec [OF assms] by metis

theorem exptmod_power_witness:
  "\<exists>r. pstm_exptmod (demo_num [5]) (demo_num [13]) (demo_num [0xfffffffb]) (demo_num []) = Inr r \<and> pm_abs r = 5 ^ 13 mod 0xfffffffb"
proof -
  have "rem_clear (5 mod 0xfffffffb * (2 ^ 32 mod 0xfffffffb)) 0xfffffffb 3" by code_simp
  then show ?thesis using exptmod_power [of "demo_num [0xfffffffb]" "demo_num [5]" "demo_num [13]" "demo_num []"] by (auto simp: demo_num)
qed

text \<open>C40: Bytes that are read into a number and written again come out the same, without their leading zeros, whatever
  the number held before.\<close>

theorem unsigned_bin_roundtrip:
  assumes "pm_wf a" and "length b \<le> 16384"
  shows "pstm_to_unsigned_bin (pstm_read_unsigned_bin a b) = Inr (dropWhile (\<lambda>x. x = 0) b)"
proof -
  let ?n = "pstm_read_unsigned_bin a b" and ?d = "dropWhile (\<lambda>x. x = 0) b"
  have "length b \<le> 4 * PSTM_MAX_SIZE" using assms(2) by simp
  note r = pstm_read_unsigned_bin_spec [OF assms(1) this]
  obtain bs where bs: "pstm_to_unsigned_bin ?n = Inr bs" "os2ip bs = os2ip b" "length bs = pstm_unsigned_bin_size ?n"
    using pstm_to_unsigned_bin_spec [OF r(1,3)] unfolding r(2) .
  have "length bs = length ?d"
  proof (cases "os2ip b = 0")
    case True
    then have "?d = []" using os2ip_octets_zero by blast
    moreover have "pstm_unsigned_bin_size ?n \<le> 0" by (rule bin_size_le [OF r(1)]) (simp add: r(2) True)
    ultimately show ?thesis using bs(3) by simp
  next
    case False
    then obtain j where "length ?d = Suc j" "2 ^ (8 * j) \<le> os2ip b" "os2ip b < 2 ^ (8 * Suc j)" by (rule os2ip_octets)
    then show ?thesis using bin_size_unique [OF r(1), of j] bs(3) r(2) by simp
  qed
  then show ?thesis using bs os2ip_inject [of bs ?d] os2ip_dropWhile [of b] by simp
qed

theorem unsigned_bin_roundtrip_witness: "pstm_to_unsigned_bin (pstm_read_unsigned_bin (demo_num [7]) [0, 0, 1, 2, 0, 3]) = Inr [1, 2, 0, 3]"
  using unsigned_bin_roundtrip [of "demo_num [7]" "[0, 0, 1, 2, 0, 3]"] by (simp add: demo_num)

end
