(* ===== verification/Tls_Pkcs1.thy ===== *)
theory Tls_Pkcs1
  imports Tls_Rsa Tls_Pstm_Power
begin

text \<open>
  RSA encryption with the padding of PKCS #1, as RFC 8017 defines it, and that \<^verbatim>\<open>psRsaEncryptPub\<close> computes it.
\<close>

unbundle bit_operations_syntax

section \<open>RSAES-PKCS1-v1_5\<close>

text \<open>Section 7.2.1 of RFC 8017, with the padding string as an argument.\<close>

definition i2osp :: "nat \<Rightarrow> int \<Rightarrow> byte list" where
  "i2osp k x = map (\<lambda>i. word_of_int (x div 256 ^ (k - 1 - i))) [0..<k]"

definition eme_pkcs1 :: "byte list \<Rightarrow> byte list \<Rightarrow> byte list" where
  "eme_pkcs1 PS M = [0, 2] @ PS @ [0] @ M"

text \<open>The padding string: the random bytes, the zeros replaced.\<close>

definition rsa_padding :: "(nat \<Rightarrow> byte list) \<Rightarrow> nat \<Rightarrow> byte list \<Rightarrow> byte list" where
  "rsa_padding rnd k M = map (\<lambda>c. if c = 0 then 1 else c) (rnd (k - 3 - length M))"

text \<open>The number of octets of the modulus, which may have leading zeros.\<close>

definition rsa_octets :: "byte list \<Rightarrow> nat" where
  "rsa_octets N = length (dropWhile (\<lambda>b. b = 0) N)"

definition rsaes_pkcs1_v1_5 :: "byte list \<times> byte list \<Rightarrow> byte list \<Rightarrow> byte list \<Rightarrow> byte list" where
  "rsaes_pkcs1_v1_5 key PS M = i2osp (rsa_octets (fst key)) (os2ip (eme_pkcs1 PS M) ^ nat (os2ip (snd key)) mod os2ip (fst key))"

definition rsa_encrypted :: "(nat \<Rightarrow> byte list) \<Rightarrow> byte list \<times> byte list \<Rightarrow> byte list \<Rightarrow> byte list" where
  "rsa_encrypted rnd key M = rsaes_pkcs1_v1_5 key (rsa_padding rnd (rsa_octets (fst key)) M) M"

text \<open>
  When the source computes this: the modulus is odd, not too long, and longer than the message by 11 octets; no remainder
  of the division by the modulus is too close to it (\<open>rem_clear\<close>), and the message in Montgomery form is not shorter than the
  modulus by three digits, because the buffer for the reductions is allocated for its size.
\<close>

definition rsa_fits :: "byte list \<times> byte list \<Rightarrow> nat \<Rightarrow> byte list \<Rightarrow> byte list \<Rightarrow> bool" where
  "rsa_fits key outlen PS M =
     (let n = os2ip (fst key); k = rsa_octets (fst key); u = (k + 3) div 4; m = os2ip (eme_pkcs1 PS M); R = 2 ^ (32 * u)
      in odd n \<and> length (fst key) \<le> 8180 \<and> length (snd key) \<le> 16384 \<and> k \<le> outlen \<and> length M + 11 \<le> k \<and> length PS = k - 3 - length M
         \<and> rem_clear (m * (R mod n)) n (2 * u + 1) \<and> 2 ^ (32 * (u - 3)) \<le> (m * R) mod n)"

fun rsa_ready :: "(nat \<Rightarrow> byte list) \<Rightarrow> (byte list \<times> byte list) option \<Rightarrow> nat \<Rightarrow> byte list \<Rightarrow> bool" where
  "rsa_ready rnd None outlen M = False"
| "rsa_ready rnd (Some key) outlen M = rsa_fits key outlen (rsa_padding rnd (rsa_octets (fst key)) M) M"

section \<open>Sizes\<close>

lemma pm_used_octets:
  assumes "pstm_ok a" and "2 ^ (8 * j) \<le> pm_abs a" and "pm_abs a < 2 ^ (8 * Suc j)"
  shows "pm_used a = (Suc j + 3) div 4"
proof -
  let ?u = "(Suc j + 3) div 4"
  have u: "?u = Suc (j div 4)" by simp
  define q r where "q = j div 4" and "r = j mod 4"
  have "j = 4 * q + r" "r < 4" by (simp_all add: q_def r_def)
  then have "8 * Suc j \<le> 32 * ?u" "32 * (?u - 1) \<le> 8 * j" unfolding u q_def [symmetric] by simp_all
  then have "(2 :: int) ^ (8 * Suc j) \<le> 2 ^ (32 * ?u)" "(2 :: int) ^ (32 * (?u - 1)) \<le> 2 ^ (8 * j)" by (intro power_increasing; simp)+
  then have "pm_used a \<le> ?u" "?u - 1 < pm_used a" using pm_used_le [OF assms(1), of ?u] pm_used_less [OF assms(1), of "?u - 1"] assms(2,3) by linarith+
  then show ?thesis by linarith
qed

lemma binary_to_pstm_spec:
  assumes "length bin \<le> 4 * PSTM_MAX_SIZE"
  shows "pstm_ok (binary_to_pstm bin)" and "pm_abs (binary_to_pstm bin) = os2ip bin" and "pm_sign (binary_to_pstm bin) = PSTM_ZPOS"
    and "length bin div 4 + 2 \<le> pm_alloc (binary_to_pstm bin)"
  unfolding binary_to_pstm_def pstm_init_for_read_unsigned_bin_def
  using pstm_read_unsigned_bin_spec [OF pstm_ok_wf [OF pstm_init_size_spec(1)] assms] by simp_all

lemma os2ip_i2osp:
  assumes "0 \<le> x" and "x < 2 ^ (8 * k)"
  shows "os2ip (i2osp k x) = x" and "length (i2osp k x) = k"
proof -
  show "length (i2osp k x) = k" by (simp add: i2osp_def)
  show "os2ip (i2osp k x) = x" using assms
  proof (induction k arbitrary: x)
    case (Suc k)
    have e: "i2osp (Suc k) x = i2osp k (x div 256) @ [word_of_int x]"
    proof -
      have "x div 256 div 256 ^ (k - 1 - i) = x div 256 ^ (k - i)" if "i < k" for i
      proof -
        have "k - i = Suc (k - 1 - i)" using that by simp
        then show ?thesis by (simp add: zdiv_zmult2_eq)
      qed
      then show ?thesis by (simp add: i2osp_def)
    qed
    have "x < 2 ^ (8 * k) * 256" using Suc.prems(2) by (simp add: power_add)
    then have "x div 256 < 2 ^ (8 * k)" by (rule int_div_less) simp
    then have "os2ip (i2osp k (x div 256)) = x div 256" using Suc.prems(1) by (intro Suc.IH) simp_all
    then show ?case unfolding e by (simp add: os2ip_def uint_word_of_int)
  qed (simp add: i2osp_def)
qed

lemma i2osp_unique: "os2ip bs = x \<Longrightarrow> length bs = k \<Longrightarrow> bs = i2osp k x"
  using os2ip_inject [of bs "i2osp k x"] os2ip_i2osp [of x k] os2ip_less [of bs] os2ip_simps(3) [of bs] by auto


section \<open>The encryption is the standard's\<close>

lemma pad_length:
  assumes "k < 2 ^ 31" and "l < 2 ^ 30"
  shows "sint (of_nat k - 3 - of_nat l :: u32) = int k - 3 - int l"
proof -
  have "(of_nat k - 3 - of_nat l :: u32) = word_of_int (int k - 3 - int l)" by simp
  then have "sint (of_nat k - 3 - of_nat l :: u32) = signed_take_bit 31 (int k - 3 - int l)" by (simp only: signed_of_int) simp
  then show ?thesis using assms by (simp add: signed_take_bit_int_eq_self)
qed

lemma pkcs1Pad_spec:
  assumes "k < 2 ^ 31" and "length M < 2 ^ 30"
  shows "pkcs1Pad rnd M k PRIVKEY_TYPE =
    (if length M + 11 \<le> k then Inr (eme_pkcs1 (rsa_padding rnd k M) M) else Inl (Ps_die ''pkcs1Pad failure''))"
proof -
  note l = pad_length [OF assms]
  show ?thesis
  proof (cases "length M + 11 \<le> k")
    case True
    have "nat (int k - 3 - int (length M)) = k - 3 - length M" using True by simp
    then show ?thesis unfolding pkcs1Pad_def l Let_def using True by (simp add: PRIVKEY_TYPE_def PUBKEY_TYPE_def eme_pkcs1_def rsa_padding_def)
  next
    case False
    then show ?thesis unfolding pkcs1Pad_def l Let_def by simp
  qed
qed

lemma eme_bound:
  assumes "length PS + length M + 3 = Suc j"
  shows "os2ip (eme_pkcs1 PS M) < 2 ^ (8 * j)" and "length (eme_pkcs1 PS M) = Suc j"
proof -
  show l: "length (eme_pkcs1 PS M) = Suc j" using assms by (simp add: eme_pkcs1_def)
  have "os2ip (eme_pkcs1 PS M) = os2ip (2 # PS @ 0 # M)" by (simp add: eme_pkcs1_def os2ip_Cons)
  moreover have "length (2 # PS @ 0 # M) = j" using assms by simp
  ultimately show "os2ip (eme_pkcs1 PS M) < 2 ^ (8 * j)" using os2ip_less [of "2 # PS @ 0 # M"] by metis
qed

lemma psRsaCrypt_public:
  assumes fits: "rsa_fits key outlen PS M" and out: "length out = outlen"
  obtains out' where "psRsaCrypt (eme_pkcs1 PS M) out outlen (server_rsa_pub_key (Some key)) PUBKEY_TYPE = Inr (out', rsa_octets (fst key))"
    and "out' = mem_write out 0 (rsaes_pkcs1_v1_5 key PS M)" and "length (rsaes_pkcs1_v1_5 key PS M) = rsa_octets (fst key)"
    and "rk_size (server_rsa_pub_key (Some key)) = rsa_octets (fst key)"
proof -
  obtain mb eb where key: "key = (mb, eb)" by (cases key)
  define n where "n = os2ip mb"
  define k where "k = rsa_octets mb"
  define u where "u = (k + 3) div 4"
  define m where "m = os2ip (eme_pkcs1 PS M)"
  define R :: int where "R = 2 ^ (32 * u)"
  have f: "odd n" "length mb \<le> 8180" "length eb \<le> 16384" "k \<le> outlen" "length M + 11 \<le> k" "length PS = k - 3 - length M"
    "rem_clear (m * (R mod n)) n (2 * u + 1)" "2 ^ (32 * (u - 3)) \<le> (m * R) mod n"
    using fits by (simp_all add: rsa_fits_def Let_def key n_def k_def u_def m_def R_def)
  define N where "N = binary_to_pstm mb"
  define e where "e = binary_to_pstm eb"
  have "length mb \<le> 4 * PSTM_MAX_SIZE" "length eb \<le> 4 * PSTM_MAX_SIZE" using f by simp_all
  note N = binary_to_pstm_spec [OF this(1), folded N_def, folded n_def] and e = binary_to_pstm_spec [OF this(2), folded e_def]
  have "n \<noteq> 0" using f(1) by auto
  then obtain j where j: "k = Suc j" "2 ^ (8 * j) \<le> n" "n < 2 ^ (8 * Suc j)"
    using os2ip_octets [of mb] by (auto simp: n_def k_def rsa_octets_def)
  have sz: "pstm_unsigned_bin_size N = k" "pm_used N = u"
    using bin_size_unique [OF N(1), of j] pm_used_octets [OF N(1), of j] j N(2) by (simp_all add: u_def)
  have kl: "k \<le> length mb" unfolding k_def rsa_octets_def by (rule length_dropWhile_le)
  have eme: "m < 2 ^ (8 * j)" "length (eme_pkcs1 PS M) = k" using eme_bound [of PS M j] f(5,6) j(1) by (simp_all add: m_def)
  define T where "T = pstm_read_unsigned_bin (pstm_init_for_read_unsigned_bin (k + 4)) (eme_pkcs1 PS M)"
  have "length (eme_pkcs1 PS M) \<le> 4 * PSTM_MAX_SIZE" using eme(2) kl f(2) by simp
  note T = pstm_read_unsigned_bin_spec [OF pstm_ok_wf [OF pstm_init_size_spec(1)] this]
  have T: "pstm_ok T" "pm_abs T = m" "pm_sign T = PSTM_ZPOS"
    using T by (simp_all add: T_def m_def pstm_init_for_read_unsigned_bin_def)
  have mn: "m < n" using eme(1) j(2) by simp
  have m0: "0 \<le> m" by (simp add: m_def)
  have n1: "1 < n"
  proof (rule ccontr)
    assume "\<not> 1 < n"
    then have "n = 1" using mn m0 by simp
    then show False using f(8) by simp
  qed
  have un: "u < 2046" "u < pm_alloc N" using kl f(2) N(4) by (auto simp: u_def)
  obtain r where r: "pstm_exptmod T e N T = Inr r" "pstm_ok r" "pm_sign r = PSTM_ZPOS" "pm_abs r = m ^ nat (pm_abs e) mod n"
  proof (rule pstm_exptmod_spec [of N T e T])
    show "rem_clear (pm_abs T mod pm_abs N * (2 ^ (32 * pm_used N) mod pm_abs N)) (pm_abs N) (2 * pm_used N + 1)"
      using f(7) mn m0 by (simp add: T N sz R_def)
    show "2 ^ (32 * (pm_used N - 3)) \<le> pm_abs T * 2 ^ (32 * pm_used N) mod pm_abs N" using f(8) by (simp add: T N sz R_def)
  qed (use N e T f(1) n1 un mn sz in simp_all)
  have rn: "pm_abs r < n" using n1 by (simp add: r)
  obtain bs where bs: "pstm_to_unsigned_bin r = Inr bs" "os2ip bs = pm_abs r" "length bs = pstm_unsigned_bin_size r"
    using pstm_to_unsigned_bin_spec [OF r(2,3)] .
  have bk: "length bs \<le> k" unfolding bs(3) by (rule bin_size_le [OF r(2)]) (use rn j in simp)
  have enc: "replicate (k - length bs) 0 @ bs = rsaes_pkcs1_v1_5 key PS M"
    unfolding rsaes_pkcs1_v1_5_def key fst_conv snd_conv k_def [symmetric]
    by (rule i2osp_unique) (use bs(2) r(4) e(2) bk in \<open>simp_all add: n_def m_def\<close>)
  have cmp: "pstm_cmp N T \<noteq> PSTM_LT" using pstm_cmp_mag_spec [OF N(1) T(1)] mn by (simp add: pstm_cmp_def N(3) T(2,3) N(2) sgn_if)
  have sk: "server_rsa_pub_key (Some key) = zero_rsa_key\<lparr>rk_N := N, rk_e := e, rk_size := k\<rparr>" by (simp add: key N_def [symmetric] e_def [symmetric] sz)
  have len: "length (rsaes_pkcs1_v1_5 key PS M) = k" unfolding enc [symmetric] using bk by simp
  have w: "mem_write (mem_write out 0 (replicate k 0)) (k - length bs) bs = mem_write out 0 (rsaes_pkcs1_v1_5 key PS M)"
    unfolding enc [symmetric] using bk f(4) out by (simp add: mem_write_def)
  have "psRsaCrypt (eme_pkcs1 PS M) out outlen (server_rsa_pub_key (Some key)) PUBKEY_TYPE = Inr (mem_write out 0 (rsaes_pkcs1_v1_5 key PS M), k)"
    unfolding psRsaCrypt_def Let_def eme(2) T_def [symmetric] sk
    using cmp r(1) bs sz f(4) out bk w by (simp add: PUBKEY_TYPE_def PRIVKEY_TYPE_def ps_within_def)
  then show thesis using that len sk by (simp add: key k_def)
qed


lemma psRsaEncryptPub_fits:
  assumes "rsa_ready rnd (Some key) (length out) M"
  shows "psRsaEncryptPub rnd (server_rsa_pub_key (Some key)) M out = Inr (mem_write out 0 (rsa_encrypted rnd key M), rsa_octets (fst key))"
    and "length (rsa_encrypted rnd key M) = rsa_octets (fst key)" and "rsa_octets (fst key) \<le> length out"
proof -
  let ?k = "rsa_octets (fst key)"
  define PS where "PS = rsa_padding rnd ?k M"
  have fits: "rsa_fits key (length out) PS M" using assms by (simp add: PS_def)
  have f: "length (fst key) \<le> 8180" "?k \<le> length out" "length M + 11 \<le> ?k" "length PS = ?k - 3 - length M"
    using fits by (simp_all add: rsa_fits_def Let_def)
  have "?k \<le> length (fst key)" unfolding rsa_octets_def by (rule length_dropWhile_le)
  then have k: "?k < 2 ^ 31" "length M < 2 ^ 30" using f by simp_all
  have eme: "length (eme_pkcs1 PS M) = ?k" using f by (simp add: eme_pkcs1_def)
  have lo: "length (mem_write out 0 (eme_pkcs1 PS M)) = length out" using eme f(2) by simp
  have enc: "rsaes_pkcs1_v1_5 key PS M = rsa_encrypted rnd key M" by (simp add: rsa_encrypted_def PS_def)
  obtain out' where c: "psRsaCrypt (eme_pkcs1 PS M) (mem_write out 0 (eme_pkcs1 PS M)) (length out) (server_rsa_pub_key (Some key)) PUBKEY_TYPE = Inr (out', ?k)"
    "out' = mem_write (mem_write out 0 (eme_pkcs1 PS M)) 0 (rsa_encrypted rnd key M)" "length (rsa_encrypted rnd key M) = ?k"
    "rk_size (server_rsa_pub_key (Some key)) = ?k"
    using psRsaCrypt_public [OF fits lo] unfolding enc by metis
  have "take ?k (mem_write out 0 (eme_pkcs1 PS M)) = eme_pkcs1 PS M" using eme by (simp add: mem_write_def)
  moreover have "out' = mem_write out 0 (rsa_encrypted rnd key M)" unfolding c(2) using c(3) eme by (simp add: mem_write_def)
  ultimately show "psRsaEncryptPub rnd (server_rsa_pub_key (Some key)) M out = Inr (mem_write out 0 (rsa_encrypted rnd key M), ?k)"
    unfolding psRsaEncryptPub_def Let_def c(4) using pkcs1Pad_spec [OF k, of rnd] f lo c(1) by (simp add: PS_def [symmetric])
  show "length (rsa_encrypted rnd key M) = ?k" "?k \<le> length out" by (rule c(3), rule f(2))
qed

section \<open>Properties\<close>

text \<open>C6: \<^verbatim>\<open>psRsaEncryptPub\<close>, with the key that the certificate's bytes give, writes the RSAES-PKCS1-v1_5 ciphertext
  of RFC 8017 to the start of \<^verbatim>\<open>out\<close>, as long as the modulus, and nothing else. The padding consists of the random
  bytes, with every zero replaced by one. It does so under the conditions of \<open>rsa_ready\<close>: the modulus is odd, of at most 8180
  bytes as encoded and not longer than \<^verbatim>\<open>out\<close>, the exponent has at most 16384 bytes and the message is shorter than the modulus by
  at least 11 octets; no remainder in the division by the modulus is within a fraction of \<open>2\<^sup>-\<^sup>6\<^sup>2\<close> below it at a digit position
  (\<open>rem_clear\<close>), where the code's subtraction loses a borrow; and the padded message in Montgomery
  form is not shorter than the modulus by three digits or more, where the buffer for the reductions would be too short.\<close>

theorem rsa_encrypts_pkcs1:
  assumes "rsa_ready rnd (Some key) (length out) M"
  shows "psRsaEncryptPub rnd (server_rsa_pub_key (Some key)) M out = Inr (mem_write out 0 (rsa_encrypted rnd key M), rsa_octets (fst key))
    \<and> length (rsa_encrypted rnd key M) = rsa_octets (fst key) \<and> rsa_octets (fst key) \<le> length out"
  by (intro conjI psRsaEncryptPub_fits [OF assms])

theorem rsa_encrypts_pkcs1_witness:
  "psRsaEncryptPub (\<lambda>n. replicate n 0) (server_rsa_pub_key (Some (0 # 0xc1 # replicate 11 0x35, [3]))) [7] (replicate 20 9)
     = Inr (mem_write (replicate 20 9) 0 (rsa_encrypted (\<lambda>n. replicate n 0) (0 # 0xc1 # replicate 11 0x35, [3]) [7]), 12)"
proof -
  have r: "rsa_ready (\<lambda>n. replicate n 0) (Some (0 # 0xc1 # replicate 11 0x35, [3])) (length (replicate 20 (9 :: byte))) [7]" by code_simp
  have k: "rsa_octets (fst (0 # 0xc1 # replicate 11 0x35, [3 :: byte])) = 12" by (simp add: rsa_octets_def)
  show ?thesis by (rule rsa_encrypts_pkcs1 [OF r, unfolded k, THEN conjunct1])
qed

end
