(* ===== verification/Tls_Messages.thy ===== *)
theory Tls_Messages
  imports Tls_Keys Tls_Ecdh Tls_Pkcs1
begin

text \<open>
  The messages of the handshake: what the client's stores put on the wire, what it makes of the
  messages of a server, and that the handshake hash has absorbed all of them in order.
\<close>

section \<open>Sending a message\<close>

text \<open>A connection whose handshake hash has absorbed \<open>T\<close>.\<close>

definition transcript :: "tls_env \<Rightarrow> tls_state \<Rightarrow> byte list \<Rightarrow> bool" where
  "transcript env tls T \<longleftrightarrow> (\<exists>ctx. tls_hsd tls = Some ctx \<and> sha256_rep (te_target env) T ctx)"

lemma hash_handshake_transcript:
  assumes "transcript env tls T"
  obtains ctx where "hash_handshake env tls d = Some (tls\<lparr>tls_hsd := Some ctx\<rparr>)" and "sha256_rep (te_target env) (T @ d) ctx"
proof -
  obtain ctx where c: "tls_hsd tls = Some ctx" "sha256_rep (te_target env) T ctx" using assms by (auto simp: transcript_def)
  have "sha256_rep (te_target env) (T @ d) (md5_hash (te_target env) ctx d)"
    by (rule sha256.update_rep) (simp_all add: any_piece_def c)
  then show ?thesis using that c by (simp add: hash_handshake_def)
qed

lemma xwrite_and_update_sends:
  assumes T: "transcript env tls T" and plain: "tls_flags tls AND ENCRYPT_ON_WRITE = 0"
    and msg: "mem_read (tls_outbuf tls) OUTBUF_PFX n = msg" "length msg = n" "0 < n"
  obtains ob ctx where "xwrite_and_update_handshake_hash env iv tls n =
      Some (tls\<lparr>tls_outbuf := ob, tls_sent := tls_sent tls @ [record_hdr RECORD_TYPE_HANDSHAKE n @ msg], tls_hsd := Some ctx\<rparr>)"
    and "sha256_rep (te_target env) (T @ msg) ctx"
proof -
  let ?ob = "mem_write (tls_outbuf tls) 19 (record_hdr RECORD_TYPE_HANDSHAKE n)"
  have r: "24 + n \<le> length (tls_outbuf tls)" using msg by (auto simp: mem_read_def tls_consts)
  have h: "mem_read ?ob 19 5 = record_hdr RECORD_TYPE_HANDSHAKE n"
    using mem_read_write_same [of 19 "record_hdr RECORD_TYPE_HANDSHAKE n" "tls_outbuf tls"] r by simp
  have b: "mem_read ?ob 24 n = msg"
    using msg r by (subst mem_read_write_after) (simp_all add: tls_consts)
  have all: "mem_read ?ob 19 (5 + n) = record_hdr RECORD_TYPE_HANDSHAKE n @ msg"
    by (simp add: mem_read_append h b)
  let ?tls = "tls\<lparr>tls_outbuf := ?ob, tls_sent := tls_sent tls @ [record_hdr RECORD_TYPE_HANDSHAKE n @ msg]\<rparr>"
  have "transcript env ?tls T" using T by (simp add: transcript_def)
  then obtain ctx where "hash_handshake env ?tls msg = Some (?tls\<lparr>tls_hsd := Some ctx\<rparr>)" "sha256_rep (te_target env) (T @ msg) ctx"
    by (rule hash_handshake_transcript)
  then show ?thesis using that all b plain
    by (simp add: xwrite_and_update_handshake_hash_def xwrite_handshake_record_def xwrite_def Let_def OUTBUF_PFX_def RECHDR_LEN_def AES_BLOCK_SIZE_def)
qed

text \<open>What the stores leave of a zeroed message.\<close>

definition assemble :: "nat \<Rightarrow> (nat \<times> byte list) list \<Rightarrow> byte list" where
  "assemble n ws = fold (\<lambda>(off, bs) m. mem_write m off bs) ws (replicate n 0)"

lemma mem_read_write_within:
  "a \<le> off \<Longrightarrow> off + length bs \<le> a + n \<Longrightarrow> a + n \<le> length buf \<Longrightarrow>
   mem_read (mem_write buf off bs) a n = mem_write (mem_read buf a n) (off - a) bs"
proof -
  assume le: "a \<le> off" "off + length bs \<le> a + n" "a + n \<le> length buf"
  obtain k where k: "off = a + k" using le(1) by (auto simp: le_iff_add)
  define x where "x = take a buf"
  define y where "y = mem_read buf a n"
  define z where "z = drop (a + n) buf"
  have buf: "buf = x @ y @ z"
    using append_take_drop_id [of a buf] append_take_drop_id [of n "drop a buf"]
    by (simp add: x_def y_def z_def mem_read_def add.commute)
  have len: "length x = a" "length y = n" using le by (simp_all add: x_def y_def)
  have "mem_write (x @ y @ z) (a + k) bs = x @ mem_write y k bs @ z"
    using le k len by (simp add: mem_write_def)
  moreover have "length (mem_write y k bs) = n" using le k len by simp
  ultimately show ?thesis unfolding buf k using len by (simp add: mem_read_def)
qed

lemma poke_fold:
  "list_all (\<lambda>(off, bs). off + length bs \<le> n) ws \<Longrightarrow> OUTBUF_PFX + n \<le> length buf \<Longrightarrow>
   mem_read (fold (\<lambda>(off, bs) buf. mem_write buf (OUTBUF_PFX + off) bs) ws buf) OUTBUF_PFX n
     = fold (\<lambda>(off, bs) m. mem_write m off bs) ws (mem_read buf OUTBUF_PFX n)
   \<and> length (fold (\<lambda>(off, bs) buf. mem_write buf (OUTBUF_PFX + off) bs) ws buf) = length buf"
proof (induction ws arbitrary: buf)
  case (Cons w ws)
  obtain off bs where w: "w = (off, bs)" by (cases w)
  have fit: "off + length bs \<le> n" using Cons.prems w by simp
  have "mem_read (mem_write buf (OUTBUF_PFX + off) bs) OUTBUF_PFX n = mem_write (mem_read buf OUTBUF_PFX n) off bs"
    using mem_read_write_within [of OUTBUF_PFX "OUTBUF_PFX + off" bs n buf] fit Cons.prems by simp
  moreover have "length (mem_write buf (OUTBUF_PFX + off) bs) = length buf"
    using fit Cons.prems by simp
  ultimately show ?case using Cons by (simp add: w)
qed simp

lemma zeroed_outbuf:
  assumes "N \<le> TLS_MAX_OUTBUF"
  obtains ob where "tls_get_zeroed_outbuf env tls N = Some (tls\<lparr>tls_outbuf := ob\<rparr>)"
    and "OUTBUF_PFX + N + OUTBUF_SFX \<le> length ob" and "mem_read ob OUTBUF_PFX N = replicate N 0"
proof -
  define tls1 where "tls1 = (if length (tls_outbuf tls) < N + OUTBUF_PFX + OUTBUF_SFX
      then tls\<lparr>tls_outbuf := tls_outbuf tls @ map (te_fresh env) [length (tls_outbuf tls)..<N + OUTBUF_PFX + OUTBUF_SFX]\<rparr> else tls)"
  have g: "tls_get_outbuf env tls N = Some tls1" using assms by (simp add: tls_get_outbuf_def tls1_def Let_def)
  have l: "OUTBUF_PFX + N + OUTBUF_SFX \<le> length (tls_outbuf tls1)" by (auto simp: tls1_def)
  let ?ob = "mem_write (tls_outbuf tls1) OUTBUF_PFX (replicate N 0)"
  have "tls1\<lparr>tls_outbuf := ?ob\<rparr> = tls\<lparr>tls_outbuf := ?ob\<rparr>" by (simp add: tls1_def)
  moreover have "mem_read ?ob OUTBUF_PFX N = replicate N 0"
    using mem_read_write_same [of OUTBUF_PFX "replicate N 0" "tls_outbuf tls1"] l by simp
  ultimately show ?thesis using that [of ?ob] l g by (simp add: tls_get_zeroed_outbuf_def)
qed

lemma poke_message:
  assumes "mem_read (tls_outbuf tls) OUTBUF_PFX N = replicate N 0" and "OUTBUF_PFX + N \<le> length (tls_outbuf tls)"
    and "n \<le> N" and "list_all (\<lambda>(off, bs). off + length bs \<le> n) ws"
  obtains ob where "poke ws tls = tls\<lparr>tls_outbuf := ob\<rparr>" and "mem_read ob OUTBUF_PFX n = assemble n ws" and "length ob = length (tls_outbuf tls)"
proof -
  have "mem_read (tls_outbuf tls) OUTBUF_PFX n = take n (mem_read (tls_outbuf tls) OUTBUF_PFX N)"
    using assms(3) by (simp add: mem_read_def min_def)
  then have "mem_read (tls_outbuf tls) OUTBUF_PFX n = replicate n 0" using assms(1,3) by (simp add: min_def)
  then show ?thesis
    using that poke_fold [OF assms(4), of "tls_outbuf tls"] assms(2,3) by (simp add: poke_def assemble_def)
qed

text \<open>A zeroed buffer, the stores of a message and its transmission.\<close>

lemma send_message:
  assumes T: "transcript env tls T" "tls_flags tls AND ENCRYPT_ON_WRITE = 0"
    and zeroed: "mem_read (tls_outbuf tls) OUTBUF_PFX N = replicate N 0" "OUTBUF_PFX + N \<le> length (tls_outbuf tls)"
    and n: "0 < n" "n \<le> N" "list_all (\<lambda>(off, bs). off + length bs \<le> n) ws" and msg: "assemble n ws = msg" "length msg = n"
  obtains ob ctx where "xwrite_and_update_handshake_hash env iv (poke ws tls) n =
      Some (tls\<lparr>tls_outbuf := ob, tls_sent := tls_sent tls @ [record_hdr RECORD_TYPE_HANDSHAKE n @ msg], tls_hsd := Some ctx\<rparr>)"
    and "sha256_rep (te_target env) (T @ msg) ctx"
proof -
  obtain ob where ob: "poke ws tls = tls\<lparr>tls_outbuf := ob\<rparr>" "mem_read ob OUTBUF_PFX n = assemble n ws"
    by (rule poke_message [OF zeroed n(2,3)])
  have t: "transcript env (tls\<lparr>tls_outbuf := ob\<rparr>) T" using T(1) by (simp add: transcript_def)
  show ?thesis
    by (rule xwrite_and_update_sends [OF t, of n msg iv]) (use T(2) ob msg n(1) that in auto)
qed

section \<open>The messages of the client\<close>

definition be16 :: "nat \<Rightarrow> byte list" where "be16 n = [word_of_nat (n div 256), word_of_nat n]"
definition be24 :: "nat \<Rightarrow> byte list" where "be24 n = [word_of_nat (n div 65536), word_of_nat (n div 256), word_of_nat n]"

lemma length_be [simp]: "length (be16 n) = 2" "length (be24 n) = 3"
  by (simp_all add: be16_def be24_def)

text \<open>A handshake message of RFC 5246: its type, the length of its body in three bytes, its body.\<close>

definition hs_msg :: "byte \<Rightarrow> byte list \<Rightarrow> byte list" where
  "hs_msg type body = type # be24 (length body) @ body"

lemma length_hs_msg [simp]: "length (hs_msg type body) = 4 + length body"
  by (simp add: hs_msg_def)

lemma byte_of_mod [simp]: "(word_of_nat (n mod 256) :: byte) = word_of_nat n"
  by (rule word_unat_eq_iff [THEN iffD2]) (simp add: unsigned_of_nat take_bit_eq_mod)

lemma byte_div_small: "n < 256 \<Longrightarrow> (word_of_nat (n div 256) :: byte) = 0"
  by simp

lemma fill_handshake_hdr: "fill_handshake_record_hdr type (4 + n) = type # be24 n"
  by (simp add: fill_handshake_record_hdr_def be24_def Let_def)

lemma mem_write_next:
  assumes "length xs \<le> off" and "off + length bs \<le> length xs + k"
  shows "mem_write (xs @ replicate k 0) off bs
    = (xs @ replicate (off - length xs) 0 @ bs) @ replicate (length xs + k - off - length bs) 0"
proof -
  have "min k (off - length xs) = off - length xs" using assms by simp
  then show ?thesis using assms by (simp add: mem_write_def add.commute)
qed

text \<open>Stores at increasing offsets, the gaps staying zero.\<close>

fun gathered :: "nat \<Rightarrow> (nat \<times> byte list) list \<Rightarrow> byte list" where
  "gathered m [] = []"
| "gathered m ((off, bs) # ws) = replicate (off - m) 0 @ bs @ gathered (off + length bs) ws"

fun increasing :: "nat \<Rightarrow> (nat \<times> byte list) list \<Rightarrow> bool" where
  "increasing m [] = True"
| "increasing m ((off, bs) # ws) = (m \<le> off \<and> increasing (off + length bs) ws)"

lemma fold_gathered:
  "increasing (length xs) ws \<Longrightarrow> list_all (\<lambda>(off, bs). off + length bs \<le> n) ws \<Longrightarrow> length xs \<le> n \<Longrightarrow>
   fold (\<lambda>(off, bs) m. mem_write m off bs) ws (xs @ replicate (n - length xs) 0)
     = (let ys = xs @ gathered (length xs) ws in ys @ replicate (n - length ys) 0)"
proof (induction ws arbitrary: xs)
  case (Cons w ws)
  obtain off bs where w: "w = (off, bs)" by (cases w)
  let ?xs = "xs @ replicate (off - length xs) 0 @ bs"
  have p: "length xs \<le> off" "off + length bs \<le> n" "length xs \<le> n" using Cons.prems w by simp_all
  have e: "mem_write (xs @ replicate (n - length xs) 0) off bs = ?xs @ replicate (n - length ?xs) 0"
    using mem_write_next [of xs off bs "n - length xs"] p by simp
  have l: "length ?xs = off + length bs" using p by simp
  have "fold (\<lambda>(off, bs) m. mem_write m off bs) ws (?xs @ replicate (n - length ?xs) 0)
      = (let ys = ?xs @ gathered (length ?xs) ws in ys @ replicate (n - length ys) 0)"
    by (rule Cons.IH) (use Cons.prems w l p in \<open>simp_all\<close>)
  then show ?case using e l by (simp add: w Let_def)
qed simp

lemma assemble_gathered:
  "increasing 0 ws \<Longrightarrow> list_all (\<lambda>(off, bs). off + length bs \<le> n) ws \<Longrightarrow> length (gathered 0 ws) = n \<Longrightarrow>
   assemble n ws = gathered 0 ws"
  using fold_gathered [of "[]" ws n] by (simp add: assemble_def)

text \<open>The server name extension of RFC 6066 with one host name, and the whole \<^verbatim>\<open>ClientHello\<close>.\<close>

definition sni_ext :: "byte list \<Rightarrow> byte list" where
  "sni_ext name = be16 0 @ be16 (length name + 5) @ be16 (length name + 3) @ [0] @ be16 (length name) @ name"

definition hello_exts :: "tls_env \<Rightarrow> byte list \<Rightarrow> byte list" where
  "hello_exts env sni = (if sni = [] then [] else sni_ext (take 122 sni)) @ extensions env"

definition client_hello_body :: "tls_env \<Rightarrow> byte list \<Rightarrow> byte list \<Rightarrow> byte list" where
  "client_hello_body env rand sni =
     [TLS_MAJ, TLS_MIN] @ rand @ [0] @ ciphers env @ be16 (length (hello_exts env sni)) @ hello_exts env sni"

lemma size_ciphers: "client_hello_size env = 39 + length (ciphers env)"
  by (simp add: client_hello_size_def ciphers_def NUM_CIPHERS_def)

lemma ext_len: "client_hello_ext_len env sni = length (hello_exts env sni)"
  by (simp add: hello_exts_def sni_ext_def min_def client_hello_ext_len_def)

lemma client_hello_assembled:
  assumes "length rand = 32" and n: "n = client_hello_size env + 2 + client_hello_ext_len env sni"
  shows "assemble n (client_hello_fields env rand sni) = hs_msg HANDSHAKE_CLIENT_HELLO (client_hello_body env rand sni)"
    and "4 + length (client_hello_body env rand sni) = n" and "list_all (\<lambda>(off, bs). off + length bs \<le> n) (client_hello_fields env rand sni)"
proof -
  let ?e = "client_hello_ext_len env sni"
  have len: "4 + length (client_hello_body env rand sni) = n"
    using assms by (simp add: client_hello_body_def size_ciphers ext_len)
  have hdr: "fill_handshake_record_hdr HANDSHAKE_CLIENT_HELLO n = HANDSHAKE_CLIENT_HELLO # be24 (length (client_hello_body env rand sni))"
    using fill_handshake_hdr [of HANDSHAKE_CLIENT_HELLO "length (client_hello_body env rand sni)"] len by simp
  show "4 + length (client_hello_body env rand sni) = n" by (rule len)
  have e: "?e = length (extensions env) + (if sni = [] then 0 else 9 + min (length sni) 122)"
    by (simp add: client_hello_ext_len_def)
  have n': "n = 41 + length (ciphers env) + ?e" by (simp add: n size_ciphers)
  let ?m = "min (length sni) 122"
  let ?a = "[(0, HANDSHAKE_CLIENT_HELLO # be24 (length (client_hello_body env rand sni))), (4, [TLS_MAJ, TLS_MIN]), (6, rand), (39, ciphers env),
    (39 + length (ciphers env), be16 ?e)]"
  let ?s = "41 + length (ciphers env)"
  let ?b = "if sni = [] then [(?s, extensions env)] else [(?s + 3, [word_of_nat (?m + 5)]), (?s + 5, [word_of_nat (?m + 3)]),
    (?s + 8, [word_of_nat ?m]), (?s + 9, take ?m sni), (?s + 9 + ?m, extensions env)]"
  have fields: "client_hello_fields env rand sni = ?a @ ?b"
    using hdr unfolding n by (cases "sni = []") (simp_all add: client_hello_fields_def Let_def size_ciphers be16_def add.assoc)
  show fit: "list_all (\<lambda>(off, bs). off + length bs \<le> n) (client_hello_fields env rand sni)"
    unfolding fields using assms(1) n' e by simp
  have inc: "increasing 0 (client_hello_fields env rand sni)"
    unfolding fields using assms(1) by simp
  have r3: "replicate 3 0 = [0, 0, 0 :: byte]" by (simp add: numeral_3_eq_3)
  define L where "L = length (client_hello_body env rand sni)"
  have g: "gathered 0 (client_hello_fields env rand sni) = hs_msg HANDSHAKE_CLIENT_HELLO (client_hello_body env rand sni)"
    unfolding hs_msg_def fields L_def [symmetric] unfolding client_hello_body_def
    unfolding ext_len [symmetric] unfolding hello_exts_def
    using assms(1) r3 by (cases "sni = []") (simp_all add: be16_def sni_ext_def min_def numeral_2_eq_2)
  show "assemble n (client_hello_fields env rand sni) = hs_msg HANDSHAKE_CLIENT_HELLO (client_hello_body env rand sni)"
    using assemble_gathered [OF inc fit] len unfolding g by simp
qed

definition hs_record :: "byte list \<Rightarrow> byte list" where
  "hs_record msg = record_hdr RECORD_TYPE_HANDSHAKE (length msg) @ msg"

lemma client_hello_sent:
  assumes ni: "sha256_shaNI_ok (te_target env)" and rand: "length (he_rand32 he) = 32"
    and plain: "tls_flags (cn_tls cn) AND ENCRYPT_ON_WRITE = 0"
    and msg: "msg = hs_msg HANDSHAKE_CLIENT_HELLO (client_hello_body env (he_rand32 he) sni)"
  obtains ob ctx where "send_client_hello_and_alloc_hsd env he sni cn = Inr (cn\<lparr>
      cn_tls := (cn_tls cn)\<lparr>tls_outbuf := ob, tls_sent := tls_sent (cn_tls cn) @ [hs_record msg], tls_hsd := Some ctx\<rparr>,
      cn_rand32 := he_rand32 he @ replicate 32 0, cn_master_secret := replicate 48 0,
      cn_rsa_key := None, cn_ecc_pub_key32 := replicate 64 0\<rparr>)"
    and "sha256_rep (te_target env) msg ctx"
proof -
  define n where "n = client_hello_size env + 2 + client_hello_ext_len env sni"
  note a = client_hello_assembled [OF rand n_def]
  have len: "length msg = n" using a(2) by (simp add: msg)
  have small: "n \<le> TLS_MAX_OUTBUF"
    by (simp add: n_def client_hello_size_def NUM_CIPHERS_def client_hello_ext_len_def extensions_def Let_def TLS_MAX_OUTBUF_def
        min_le_iff_disj)
  have pos: "0 < n" using a(2) by simp
  obtain ob where ob: "tls_get_zeroed_outbuf env (cn_tls cn) n = Some ((cn_tls cn)\<lparr>tls_outbuf := ob\<rparr>)"
    "OUTBUF_PFX + n + OUTBUF_SFX \<le> length ob" "mem_read ob OUTBUF_PFX n = replicate n 0"
    by (rule zeroed_outbuf [OF small])
  let ?c0 = "begin_sha256 (te_ebx env) zeroed_ctx"
  let ?tls = "(cn_tls cn)\<lparr>tls_outbuf := ob, tls_hsd := Some ?c0\<rparr>"
  have T: "transcript env ?tls []"
    using begin_sha256_rep [OF ni, of zeroed_ctx "te_ebx env"] by (simp add: transcript_def zeroed_ctx_def)
  obtain ob' ctx where s: "xwrite_and_update_handshake_hash env (he_iv he) (poke (client_hello_fields env (he_rand32 he) sni) ?tls) n =
      Some (?tls\<lparr>tls_outbuf := ob', tls_sent := tls_sent ?tls @ [record_hdr RECORD_TYPE_HANDSHAKE n @ msg], tls_hsd := Some ctx\<rparr>)"
    "sha256_rep (te_target env) ([] @ msg) ctx"
    by (rule send_message [OF T _ _ _ pos order_refl a(3) a(1) [folded msg] len, of "he_iv he"]) (use plain ob in auto)
  have hsd: "poke ws (tls\<lparr>tls_hsd := h\<rparr>) = (poke ws tls)\<lparr>tls_hsd := h\<rparr>" for ws tls h by (simp add: poke_def)
  have "send_client_hello_and_alloc_hsd env he sni cn = Inr (cn\<lparr>
      cn_tls := (cn_tls cn)\<lparr>tls_outbuf := ob', tls_sent := tls_sent (cn_tls cn) @ [hs_record msg], tls_hsd := Some ctx\<rparr>,
      cn_rand32 := he_rand32 he @ replicate 32 0, cn_master_secret := replicate 48 0,
      cn_rsa_key := None, cn_ecc_pub_key32 := replicate 64 0\<rparr>)"
    unfolding send_client_hello_and_alloc_hsd_def Let_def n_def [symmetric] ob(1) using s(1) len
    by (simp add: hsd sent_or_died_def hs_record_def)
  then show ?thesis using that s(2) by simp
qed

lemma empty_cert_sent:
  assumes T: "transcript env (cn_tls cn) T" and plain: "tls_flags (cn_tls cn) AND ENCRYPT_ON_WRITE = 0"
  defines "msg \<equiv> hs_msg HANDSHAKE_CERTIFICATE (be24 0)"
  obtains ob ctx where "send_empty_client_cert env he cn = Inr (cn\<lparr>
      cn_tls := (cn_tls cn)\<lparr>tls_outbuf := ob, tls_sent := tls_sent (cn_tls cn) @ [hs_record msg], tls_hsd := Some ctx\<rparr>\<rparr>)"
    and "sha256_rep (te_target env) (T @ msg) ctx"
proof -
  have small: "7 \<le> TLS_MAX_OUTBUF" by (simp add: TLS_MAX_OUTBUF_def)
  obtain ob where ob: "tls_get_zeroed_outbuf env (cn_tls cn) 7 = Some ((cn_tls cn)\<lparr>tls_outbuf := ob\<rparr>)"
    "OUTBUF_PFX + 7 + OUTBUF_SFX \<le> length ob" "mem_read ob OUTBUF_PFX 7 = replicate 7 0"
    by (rule zeroed_outbuf [OF small])
  let ?tls = "(cn_tls cn)\<lparr>tls_outbuf := ob\<rparr>"
  let ?ws = "[(0, [HANDSHAKE_CERTIFICATE]), (3, [3])]"
  have T': "transcript env ?tls T" using T by (simp add: transcript_def)
  have z: "replicate 7 (0 :: byte) = [0, 0, 0, 0, 0, 0, 0]" by (simp add: numeral_eq_Suc)
  have a: "assemble 7 ?ws = msg"
    by (simp add: assemble_def z mem_write_def msg_def hs_msg_def be24_def)
  have len: "length msg = 7" by (simp add: msg_def)
  obtain ob' ctx where s: "xwrite_and_update_handshake_hash env (he_iv he) (poke ?ws ?tls) 7 =
      Some (?tls\<lparr>tls_outbuf := ob', tls_sent := tls_sent ?tls @ [record_hdr RECORD_TYPE_HANDSHAKE 7 @ msg], tls_hsd := Some ctx\<rparr>)"
    "sha256_rep (te_target env) (T @ msg) ctx"
    by (rule send_message [OF T' _ _ _ _ order_refl _ a len, of "he_iv he"]) (use plain ob in auto)
  show ?thesis
    by (rule that [of ctx ob']) (use s len in \<open>simp_all add: send_empty_client_cert_def ob(1) sent_or_died_def hs_record_def\<close>)
qed

text \<open>The key exchange message and the premaster secret, by the kind of key exchange.\<close>

definition rsa_premaster :: "hs_env \<Rightarrow> byte list" where
  "rsa_premaster he = [TLS_MAJ, TLS_MIN] @ drop 2 (he_rsa_premaster he)"

definition kx_message :: "hs_env \<Rightarrow> tls_conn \<Rightarrow> byte list \<times> byte list" where
  "kx_message he cn =
     (let flags = tls_flags (cn_tls cn)
      in if flags AND NEED_EC_KEY = 0
         then let enc = (case cn_rsa_key cn of None \<Rightarrow> [] | Some key \<Rightarrow> rsa_encrypted (he_rsa_pad he) key (rsa_premaster he))
              in (be16 (length enc) @ enc, rsa_premaster he)
         else if flags AND GOT_EC_CURVE_X25519 \<noteq> 0
         then let (pubkey, premaster) = curve_x25519_compute_pubkey_and_premaster (he_ec_random he) (take 32 (cn_ecc_pub_key32 cn))
              in (32 # pubkey, premaster)
         else let (pubkey, premaster) = curve_P256_compute_pubkey_and_premaster (he_ec_random he) (cn_ecc_pub_key32 cn)
              in (65 # 4 # pubkey, premaster))"

lemma mem_write_shift: "length h = k \<Longrightarrow> mem_write (h @ m) (k + off) bs = h @ mem_write m off bs"
  by (simp add: mem_write_def)

lemma fold_shift:
  "length h = k \<Longrightarrow> fold (\<lambda>(off, bs) m. mem_write m off bs) (map (\<lambda>(off, bs). (k + off, bs)) ws) (h @ m)
    = h @ fold (\<lambda>(off, bs) m. mem_write m off bs) ws m"
  by (induction ws arbitrary: m) (auto simp: mem_write_shift)

lemma assemble_kx:
  assumes "length (assemble len key) = len" and "len < 65536"
  shows "assemble (len + 4) (map (\<lambda>(off, bs). (4 + off, bs)) key
      @ [(0, [HANDSHAKE_CLIENT_KEY_EXCHANGE]), (2, [word_of_nat (len div 256)]), (3, [word_of_nat (len mod 256)])])
    = hs_msg HANDSHAKE_CLIENT_KEY_EXCHANGE (assemble len key)"
proof -
  have hi: "len div 65536 = 0" using assms(2) by simp
  have r: "replicate (len + 4) (0 :: byte) = [0, 0, 0, 0] @ replicate len 0"
    by (simp add: numeral_eq_Suc)
  have "assemble (len + 4) (map (\<lambda>(off, bs). (4 + off, bs)) key) = [0, 0, 0, 0] @ assemble len key"
    unfolding assemble_def r by (rule fold_shift) simp
  then show ?thesis using assms(1) hi
    by (simp add: assemble_def mem_write_def hs_msg_def be24_def numeral_2_eq_2 numeral_3_eq_3)
qed

lemma assemble_key:
  "length p = n \<Longrightarrow> assemble (Suc n) [(1, p), (0, [x])] = x # p"
  "length p = n \<Longrightarrow> assemble (n + 2) [(2, p), (0, [x, y])] = x # y # p"
  "length p = n \<Longrightarrow> assemble (n + 2) [(2, p), (1, [y]), (0, [x])] = x # y # p"
  by (simp_all add: assemble_def mem_write_def numeral_2_eq_2)

lemma x25519_lengths:
  assumes "length random = 32"
  shows "length (fst (curve_x25519_compute_pubkey_and_premaster random peerkey32)) = 32"
    and "length peerkey32 = 32 \<Longrightarrow> length (snd (curve_x25519_compute_pubkey_and_premaster random peerkey32)) = 32"
proof -
  have l: "length (random[0 := a, 31 := b]) = 32" for a b using assms by simp
  have nine: "fe_rep (fe_small 9) 9" using fe_small_rep [of 9] by simp
  show "length (fst (curve_x25519_compute_pubkey_and_premaster random peerkey32)) = 32"
    unfolding curve_x25519_compute_pubkey_and_premaster_def Let_def fst_conv
    using curve25519_rep [OF l, of "fe_small 9" None] nine by (simp add: fe_rep_def)
  show "length (snd (curve_x25519_compute_pubkey_and_premaster random peerkey32)) = 32" if "length peerkey32 = 32"
    unfolding curve_x25519_compute_pubkey_and_premaster_def Let_def snd_conv
    using curve25519_rep [OF l that, of "Some peerkey32" "lval peerkey32"] that by (simp add: fe_rep_def)
qed

lemma key_exchange_message:
  assumes need: "tls_flags (cn_tls cn) AND NEED_EC_KEY = 0 \<longrightarrow> tls_flags (cn_tls cn) AND GOT_CERT_RSA_KEY_ALG \<noteq> 0"
    "tls_flags (cn_tls cn) AND NEED_EC_KEY \<noteq> 0 \<longrightarrow> tls_flags (cn_tls cn) AND GOT_EC_KEY \<noteq> 0"
    "tls_flags (cn_tls cn) AND NEED_EC_KEY = 0 \<longrightarrow> rsa_ready (he_rsa_pad he) (cn_rsa_key cn) 4096 (rsa_premaster he)"
    and ec: "length (he_ec_random he) = 32" "32 \<le> length (cn_ecc_pub_key32 cn)"
    and kx: "kx_message he cn = (body, premaster)"
  obtains key where "key_exchange he cn = Inr (key, length body, premaster)" and "assemble (length body) key = body"
    and "list_all (\<lambda>(off, bs). off + length bs \<le> length body) key"
proof (cases "tls_flags (cn_tls cn) AND NEED_EC_KEY = 0")
  case True
  obtain rsa where rsa: "cn_rsa_key cn = Some rsa" "rsa_ready (he_rsa_pad he) (Some rsa) (length (replicate (4 * 1024) (0 :: byte))) (rsa_premaster he)"
    using True need(3) by (cases "cn_rsa_key cn") auto
  note p = psRsaEncryptPub_fits [OF rsa(2)]
  define enc where "enc = rsa_encrypted (he_rsa_pad he) rsa (rsa_premaster he)"
  let ?l = "[word_of_nat (length enc div 256), word_of_nat (length enc)]"
  have b: "body = ?l @ enc" "premaster = rsa_premaster he"
    using kx True rsa(1) by (auto simp: kx_message_def Let_def be16_def enc_def)
  have "key_exchange he cn = Inr ([(2, enc), (0, ?l)], length enc + 2, premaster)"
    unfolding key_exchange_def Let_def rsa(1) rsa_premaster_def [symmetric] p(1) using True need(1) b(2) p(2)
    by (simp add: mem_write_def enc_def)
  then show ?thesis using that [of "[(2, enc), (0, ?l)]"] b assemble_key(2) [of enc "length enc"] by simp
next
  case False
  show ?thesis
  proof (cases "tls_flags (cn_tls cn) AND GOT_EC_CURVE_X25519 \<noteq> 0")
    case True
    obtain pubkey pm where c: "curve_x25519_compute_pubkey_and_premaster (he_ec_random he) (take 32 (cn_ecc_pub_key32 cn)) = (pubkey, pm)"
      by (meson prod.exhaust)
    have "length pubkey = 32" using x25519_lengths(1) [OF ec(1), of "take 32 (cn_ecc_pub_key32 cn)"] c by simp
    then have "assemble 33 [(1, pubkey), (0, [32])] = 32 # pubkey" "length (32 # pubkey) = 33" using assemble_key(1) [of pubkey 32 32] by simp_all
    moreover have "body = 32 # pubkey" "premaster = pm" using kx True False c by (simp_all add: kx_message_def Let_def)
    ultimately show ?thesis using that [of "[(1, pubkey), (0, [32])]"] True False need c
      by (simp add: key_exchange_def Let_def)
  next
    case F: False
    obtain pubkey pm where c: "curve_P256_compute_pubkey_and_premaster (he_ec_random he) (cn_ecc_pub_key32 cn) = (pubkey, pm)" by (meson prod.exhaust)
    have "length pubkey = 64" using P256_lengths(1) [OF ec(1), of "cn_ecc_pub_key32 cn"] c by simp
    then have "assemble 66 [(2, pubkey), (1, [4]), (0, [65])] = 65 # 4 # pubkey" "length (65 # 4 # pubkey) = 66"
      using assemble_key(3) [of pubkey 64 4 65] by simp_all
    moreover have "body = 65 # 4 # pubkey" "premaster = pm" using kx F False c by (simp_all add: kx_message_def Let_def)
    ultimately show ?thesis using that [of "[(2, pubkey), (1, [4]), (0, [65])]"] F False need c
      by (simp add: key_exchange_def Let_def)
  qed
qed

text \<open>What the server has to have sent for the key exchange to go through.\<close>

definition kx_ready :: "hs_env \<Rightarrow> tls_conn \<Rightarrow> bool" where
  "kx_ready he cn \<longleftrightarrow>
     (if tls_flags (cn_tls cn) AND NEED_EC_KEY = 0
      then tls_flags (cn_tls cn) AND GOT_CERT_RSA_KEY_ALG \<noteq> 0 \<and> rsa_ready (he_rsa_pad he) (cn_rsa_key cn) 4096 (rsa_premaster he)
      else tls_flags (cn_tls cn) AND GOT_EC_KEY \<noteq> 0)
     \<and> length (he_ec_random he) = 32 \<and> 32 \<le> length (cn_ecc_pub_key32 cn)"

lemma client_key_exchange_sent:
  assumes T: "transcript env (cn_tls cn) T" and plain: "tls_flags (cn_tls cn) AND ENCRYPT_ON_WRITE = 0"
    and ready: "kx_ready he cn" and kx: "kx_message he cn = (body, premaster)" and small: "length body \<le> 2 + 4 * 1024"
    and msg: "msg = hs_msg HANDSHAKE_CLIENT_KEY_EXCHANGE body"
  obtains ob ctx where "send_client_key_exchange env he cn = derive_keys env premaster (cn\<lparr>
      cn_tls := (cn_tls cn)\<lparr>tls_outbuf := ob, tls_sent := tls_sent (cn_tls cn) @ [hs_record msg], tls_hsd := Some ctx\<rparr>\<rparr>)"
    and "sha256_rep (te_target env) (T @ msg) ctx"
proof -
  let ?N = "4 + 2 + 4 * 1024 :: nat"
  have room: "?N \<le> TLS_MAX_OUTBUF" by (simp add: TLS_MAX_OUTBUF_def)
  obtain ob where ob: "tls_get_zeroed_outbuf env (cn_tls cn) ?N = Some ((cn_tls cn)\<lparr>tls_outbuf := ob\<rparr>)"
    "OUTBUF_PFX + ?N + OUTBUF_SFX \<le> length ob" "mem_read ob OUTBUF_PFX ?N = replicate ?N 0"
    by (rule zeroed_outbuf [OF room])
  let ?tls = "(cn_tls cn)\<lparr>tls_outbuf := ob\<rparr>"
  have kx': "kx_message he (cn\<lparr>cn_tls := ?tls\<rparr>) = (body, premaster)" unfolding kx [symmetric] by (simp add: kx_message_def Let_def)
  have "kx_ready he (cn\<lparr>cn_tls := ?tls\<rparr>)" using ready by (simp add: kx_ready_def)
  then obtain key where key: "key_exchange he (cn\<lparr>cn_tls := ?tls\<rparr>) = Inr (key, length body, premaster)"
    "assemble (length body) key = body" "list_all (\<lambda>(off, bs). off + length bs \<le> length body) key"
    using key_exchange_message [OF _ _ _ _ _ kx'] by (auto simp: kx_ready_def split: if_splits)
  let ?ws = "map (\<lambda>(off, bs). (4 + off, bs)) key @ [(0, [HANDSHAKE_CLIENT_KEY_EXCHANGE]),
      (2, [word_of_nat (length body div 256)]), (3, [word_of_nat (length body mod 256)])]"
  have a: "assemble (length body + 4) ?ws = msg"
    using assemble_kx [of "length body" key] small unfolding key(2) msg by simp
  have fit: "list_all (\<lambda>(off, bs). off + length bs \<le> length body + 4) ?ws"
    using key(3) by (auto simp: list_all_iff)
  have T': "transcript env ?tls T" using T by (simp add: transcript_def)
  have len: "length msg = length body + 4" by (simp add: msg)
  have n: "0 < length body + 4" "length body + 4 \<le> ?N" using small by simp_all
  have z: "mem_read (tls_outbuf ?tls) OUTBUF_PFX ?N = replicate ?N 0" "OUTBUF_PFX + ?N \<le> length (tls_outbuf ?tls)"
    using ob by simp_all
  have p: "tls_flags ?tls AND ENCRYPT_ON_WRITE = 0" using plain by simp
  obtain ob' ctx where s: "xwrite_and_update_handshake_hash env (he_iv he) (poke ?ws ?tls) (length body + 4) =
      Some (?tls\<lparr>tls_outbuf := ob', tls_sent := tls_sent ?tls @ [record_hdr RECORD_TYPE_HANDSHAKE (length body + 4) @ msg], tls_hsd := Some ctx\<rparr>)"
    "sha256_rep (te_target env) (T @ msg) ctx"
    by (rule send_message [OF T' p z n fit a len])
  have "send_client_key_exchange env he cn = derive_keys env premaster (cn\<lparr>
      cn_tls := (cn_tls cn)\<lparr>tls_outbuf := ob', tls_sent := tls_sent (cn_tls cn) @ [hs_record msg], tls_hsd := Some ctx\<rparr>\<rparr>)"
    unfolding send_client_key_exchange_def ob(1) option.case key(1) hs_bind.simps prod.case Let_def s(1)
    by (simp add: sent_or_died_def hs_record_def len)
  then show ?thesis using that s(2) by simp
qed

section \<open>Reading a message\<close>

text \<open>
  A connection that has hashed \<open>T\<close>, does not decrypt yet, and has the bytes \<open>st\<close> ahead; and the part of
  a connection that reading leaves alone.
\<close>

definition awaits :: "tls_env \<Rightarrow> tls_conn \<Rightarrow> byte list \<Rightarrow> input list \<Rightarrow> byte list \<Rightarrow> bool" where
  "awaits env cn T inp st \<longleftrightarrow> transcript env (cn_tls cn) T \<and> inbuf_ok (cn_tls cn) \<and> good_input inp
     \<and> stream (cn_tls cn) inp = st \<and> tls_min_encrypted_len_on_read (cn_tls cn) = 0"

definition core :: "tls_conn \<Rightarrow> tls_conn" where
  "core cn = cn\<lparr>cn_tls := (cn_tls cn)\<lparr>tls_inbuf := [], tls_buffered_size := 0, tls_ofs_to_buffered := 0, tls_hsd := None\<rparr>\<rparr>"

lemma core_eq:
  assumes "core cn' = core cn"
  shows "cn' = cn\<lparr>cn_tls := (cn_tls cn)\<lparr>tls_inbuf := tls_inbuf (cn_tls cn'), tls_buffered_size := tls_buffered_size (cn_tls cn'),
    tls_ofs_to_buffered := tls_ofs_to_buffered (cn_tls cn'), tls_hsd := tls_hsd (cn_tls cn')\<rparr>\<rparr>"
  using assms by (cases cn; cases cn'; cases "cn_tls cn"; cases "cn_tls cn'") (simp add: core_def)

lemma tls_decrypt_off:
  "tls_min_encrypted_len_on_read tls = 0 \<Longrightarrow> tls_decrypt env tls inbuf sz = Inr (inbuf, int sz)"
  by (simp add: tls_decrypt_def Let_def)

lemma tls_xread_unencrypted:
  assumes ok: "inbuf_ok tls" "good_input inp" and st: "stream tls inp = record_hdr type (length body) @ body @ rest"
    and small: "length body \<le> 16384 + 2048" and off: "tls_min_encrypted_len_on_read tls = 0"
  obtains tls1 inp1 where
    "tls_xread_record env tls inp =
       (case tls_dispatch env tls1 (int (length body)) of
          Inl e \<Rightarrow> Inl e
        | Inr (tls', Return sz) \<Rightarrow> Inr (tls', sz, inp1)
        | Inr (tls', Again) \<Rightarrow> tls_xread_record env tls' inp1)"
    and "tls_inbuf tls1 ! 0 = type" "mem_read (tls_inbuf tls1) 5 (length body) = body"
      "stream tls1 inp1 = rest" "inbuf_ok tls1" "good_input inp1"
      "\<exists>b n off. tls1 = tls\<lparr>tls_inbuf := b, tls_buffered_size := n, tls_ofs_to_buffered := off\<rparr>"
      "take 5 (tls_inbuf tls1) = record_hdr type (length body)"
proof -
  let ?r = "record_hdr type (length body) @ body"
  have st': "stream tls inp = ?r @ rest" using st by simp
  have p: "5 + length body \<le> length ?r" by simp
  have dec: "tls_decrypt env tls' inbuf (length ?r - RECHDR_LEN) = Inr (mem_write inbuf 5 body, int (length body))"
    if t: "take (length ?r) inbuf = ?r" "length ?r \<le> length inbuf"
      "\<exists>b off. tls' = tls\<lparr>tls_inbuf := inbuf, tls_buffered_size := b, tls_ofs_to_buffered := off\<rparr>" for inbuf tls'
  proof -
    have "mem_write inbuf 5 body = inbuf"
    proof -
      have "inbuf = ?r @ drop (length ?r) inbuf" using t(1) append_take_drop_id [of "length ?r" inbuf] by simp
      then obtain z where z: "inbuf = record_hdr type (length body) @ body @ z" by (metis append.assoc)
      show ?thesis unfolding z by (simp add: mem_write_def)
    qed
    then show ?thesis using t(3) off by (auto simp: tls_decrypt_off RECHDR_LEN_def)
  qed
  show ?thesis
    by (rule tls_xread_decrypted [OF ok st' record_starts [OF small] dec p order_refl]) (use that in \<open>simp_all add: record_hdr_def\<close>)
qed

lemma tls_xread_handshake:
  assumes aw: "awaits env cn T inp (hs_record msg @ rest)" and small: "length msg \<le> 16384 + 2048" "msg \<noteq> []"
  obtains cn' inp' where "tls_xread_record env (cn_tls cn) inp = Inr (cn_tls cn', length msg, inp')" and "cn' = cn\<lparr>cn_tls := cn_tls cn'\<rparr>"
    and "core cn' = core cn" and "awaits env cn' (T @ msg) inp' rest"
    and "tls_inbuf (cn_tls cn') ! 0 = RECORD_TYPE_HANDSHAKE" and "at_pos (tls_inbuf (cn_tls cn')) 5 msg"
proof -
  have ok: "inbuf_ok (cn_tls cn)" "good_input inp" "stream (cn_tls cn) inp = record_hdr RECORD_TYPE_HANDSHAKE (length msg) @ msg @ rest"
    "tls_min_encrypted_len_on_read (cn_tls cn) = 0" "transcript env (cn_tls cn) T"
    using aw by (simp_all add: awaits_def hs_record_def)
  obtain tls1 inp1 where x: "tls_xread_record env (cn_tls cn) inp =
       (case tls_dispatch env tls1 (int (length msg)) of
          Inl e \<Rightarrow> Inl e
        | Inr (tls', Return sz) \<Rightarrow> Inr (tls', sz, inp1)
        | Inr (tls', Again) \<Rightarrow> tls_xread_record env tls' inp1)"
    "tls_inbuf tls1 ! 0 = RECORD_TYPE_HANDSHAKE" "mem_read (tls_inbuf tls1) 5 (length msg) = msg"
    "stream tls1 inp1 = rest" "inbuf_ok tls1" "good_input inp1"
    "\<exists>b n off. tls1 = (cn_tls cn)\<lparr>tls_inbuf := b, tls_buffered_size := n, tls_ofs_to_buffered := off\<rparr>"
    by (rule tls_xread_unencrypted [OF ok(1-3) small(1) ok(4)])
  have "transcript env tls1 T" using x(7) ok(5) by (auto simp: transcript_def)
  then obtain ctx where h: "hash_handshake env tls1 msg = Some (tls1\<lparr>tls_hsd := Some ctx\<rparr>)" "sha256_rep (te_target env) (T @ msg) ctx"
    by (rule hash_handshake_transcript)
  let ?cn = "cn\<lparr>cn_tls := tls1\<lparr>tls_hsd := Some ctx\<rparr>\<rparr>"
  have d: "tls_dispatch env tls1 (int (length msg)) = Inr (tls1\<lparr>tls_hsd := Some ctx\<rparr>, Return (length msg))"
    using x(2,3) h(1) by (simp add: tls_dispatch_def Let_def RECORD_TYPE_ALERT_def RECORD_TYPE_HANDSHAKE_def RECHDR_LEN_def)
  have "length (mem_read (tls_inbuf tls1) 5 (length msg)) = length msg" using x(3) by simp
  then have room: "5 + length msg \<le> length (tls_inbuf tls1)" using small(2) by (cases msg) (simp_all add: mem_read_def)
  show ?thesis
  proof (rule that [of ?cn inp1])
    show "awaits env ?cn (T @ msg) inp1 rest"
      using x(4-7) h(2) ok(4) by (auto simp: awaits_def transcript_def inbuf_ok_def stream_def)
    show "core ?cn = core cn" using x(7) by (auto simp: core_def)
  qed (use x d room in \<open>simp_all add: at_pos_def\<close>)
qed

lemma tls_xread_block:
  assumes aw: "awaits env cn T inp (hs_record msg @ rest)" and len: "min_len \<le> length msg" "length msg \<le> 16384 + 2048" "0 < min_len"
  obtains cn' inp' where "tls_xread_handshake_block env cn inp min_len = Inr (cn', length msg, inp')"
    and "core cn' = core cn" and "awaits env cn' (T @ msg) inp' rest" and "at_pos (tls_inbuf (cn_tls cn')) 5 msg"
proof -
  obtain cn' inp' where x: "tls_xread_record env (cn_tls cn) inp = Inr (cn_tls cn', length msg, inp')" "cn' = cn\<lparr>cn_tls := cn_tls cn'\<rparr>"
    "core cn' = core cn" "awaits env cn' (T @ msg) inp' rest"
    "tls_inbuf (cn_tls cn') ! 0 = RECORD_TYPE_HANDSHAKE" "at_pos (tls_inbuf (cn_tls cn')) 5 msg"
    by (rule tls_xread_handshake [OF aw len(2)]) (use len in auto)
  show ?thesis
    by (rule that [of cn' inp']) (use x len(1) x(2) [symmetric] in \<open>simp_all add: tls_xread_handshake_block_def\<close>)
qed

section \<open>The messages of the server\<close>

definition server_hello_body :: "byte list \<Rightarrow> byte list \<Rightarrow> byte \<Rightarrow> byte \<Rightarrow> byte list \<Rightarrow> byte list" where
  "server_hello_body rand sid c0 c1 tail =
     [TLS_MAJ, TLS_MIN] @ rand @ [word_of_nat (length sid)] @ sid @ [c0, c1, 0] @ tail"

text \<open>The certificate message of a chain that starts with \<open>der\<close>.\<close>

definition certificate_body :: "byte list \<Rightarrow> byte list \<Rightarrow> byte list" where
  "certificate_body der others = be24 (length (be24 (length der) @ der @ others)) @ be24 (length der) @ der @ others"

text \<open>The key exchange message for X25519 and for P-256, with the signature nobody looks at.\<close>

definition x25519_kx_body :: "byte list \<Rightarrow> byte list \<Rightarrow> byte list" where
  "x25519_kx_body pub sig = [3, 0, 0x1d, 0x20] @ pub @ sig"

definition p256_kx_body :: "byte list \<Rightarrow> byte list \<Rightarrow> byte list" where
  "p256_kx_body pub sig = [3, 0, 0x17, 0x41, 4] @ pub @ sig"

lemma msg_byte: "at_pos mem p msg \<Longrightarrow> i < length msg \<Longrightarrow> mem ! (p + i) = msg ! i"
  using at_pos_nth by blast

lemma at_pos_read: "at_pos mem p (xs @ ys @ zs) \<Longrightarrow> mem_read mem (p + length xs) (length ys) = ys"
  by (simp add: at_pos_append) (simp add: at_pos_def)

lemma select_cipher_keeps:
  "awaits env (select_cipher env' c0 c1 cn) T inp st = awaits env cn T inp st"
  "core (select_cipher env' c0 c1 cn) = select_cipher env' c0 c1 (core cn)"
  by (simp_all add: select_cipher_def awaits_def core_def transcript_def inbuf_ok_def stream_def Let_def split: if_splits)

lemma server_hello_read:
  assumes aw: "awaits env cn T inp (hs_record msg @ rest)" and msg: "msg = hs_msg HANDSHAKE_SERVER_HELLO (server_hello_body rand sid c0 c1 tail)"
    and len: "length rand = 32" "length sid \<in> {0, 32}" "length (server_hello_body rand sid c0 c1 tail) < 256"
  obtains cn' inp' where "get_server_hello env cn inp = Inr (cn', inp')" and "awaits env cn' (T @ msg) inp' rest"
    and "core cn' = core (select_cipher env c0 c1 (cn\<lparr>cn_rand32 := mem_write (cn_rand32 cn) 32 rand\<rparr>))"
proof -
  let ?body = "server_hello_body rand sid c0 c1 tail"
  have l: "length msg = 4 + length ?body" "38 + length sid \<le> length ?body" using len by (simp_all add: msg server_hello_body_def)
  have mn: "74 - 32 \<le> length msg" "length msg \<le> 16384 + 2048" "(0::nat) < 74 - 32" using l len(3) by simp_all
  obtain cn1 inp1 where x: "tls_xread_handshake_block env cn inp (74 - 32) = Inr (cn1, length msg, inp1)"
    "core cn1 = core cn" "awaits env cn1 (T @ msg) inp1 rest" "at_pos (tls_inbuf (cn_tls cn1)) 5 msg"
    by (rule tls_xread_block [OF aw mn])
  let ?hp = "tls_inbuf (cn_tls cn1)"
  have b: "?hp ! (5 + i) = msg ! i" if "i < length msg" for i by (rule msg_byte [OF x(4) that])
  have m: "msg = [HANDSHAKE_SERVER_HELLO, 0, 0, word_of_nat (length ?body), TLS_MAJ, TLS_MIN] @ rand
      @ [word_of_nat (length sid)] @ sid @ [c0, c1] @ (0 # tail)"
    using len(3) unfolding msg hs_msg_def be24_def by (simp add: server_hello_body_def)
  have hd: "?hp ! 5 = HANDSHAKE_SERVER_HELLO" "?hp ! 6 = 0" "?hp ! 7 = 0" "?hp ! 8 = word_of_nat (length ?body)"
    "?hp ! 9 = TLS_MAJ" "?hp ! 10 = TLS_MIN"
    using b [of 0] b [of 1] b [of 2] b [of 3] b [of 4] b [of 5] l by (simp_all add: m)
  have slen: "?hp ! 43 = word_of_nat (length sid)"
    using b [of 38] l len(1) by (simp add: m nth_append)
  have cs: "?hp ! (44 + length sid) = c0" "?hp ! (45 + length sid) = c1"
    using b [of "39 + length sid"] b [of "40 + length sid"] l len(1) by (simp_all add: m nth_append)
  have rnd: "mem_read ?hp 11 32 = rand"
    using at_pos_read [of ?hp 5 "[HANDSHAKE_SERVER_HELLO, 0, 0, word_of_nat (length ?body), TLS_MAJ, TLS_MIN]" rand] x(4) len(1)
    unfolding m by simp
  have lo: "unat (word_of_nat (length ?body) :: byte) = length ?body"
    using len(3) by (simp add: unsigned_of_nat take_bit_nat_eq_self)
  let ?cn2 = "cn1\<lparr>cn_rand32 := mem_write (cn_rand32 cn1) 32 rand\<rparr>"
  have g: "get_server_hello env cn inp = Inr (select_cipher env c0 c1 ?cn2, inp1)"
    unfolding get_server_hello_def x(1) hs_bind.simps prod.case Let_def hd slen rnd
    using len(2) l(2) cs lo by (auto simp: )
  show ?thesis
  proof (rule that [OF g])
    show "awaits env (select_cipher env c0 c1 ?cn2) (T @ msg) inp1 rest"
      unfolding select_cipher_keeps using x(3) by (simp add: awaits_def)
    have "core ?cn2 = core (cn\<lparr>cn_rand32 := mem_write (cn_rand32 cn) 32 rand\<rparr>)"
      by (subst core_eq [OF x(2)], subst (2) core_eq [OF x(2)]) (simp add: core_def)
    then show "core (select_cipher env c0 c1 ?cn2) = core (select_cipher env c0 c1 (cn\<lparr>cn_rand32 := mem_write (cn_rand32 cn) 32 rand\<rparr>))"
      by (simp add: select_cipher_keeps)
  qed
qed

text \<open>What a certificate contributes, wherever it lies in memory: flags and an RSA key.\<close>

definition cert_gives :: "byte list \<Rightarrow> u32 \<Rightarrow> (byte list \<times> byte list) option \<Rightarrow> bool" where
  "cert_gives der bits key \<longleftrightarrow>
     (if der = [] then bits = 0 \<and> key = None
      else \<forall>mem pos flags. at_pos mem pos der \<longrightarrow> find_key_in_der_cert mem pos (length der) flags = Ok (flags OR bits, key))"

definition with_cert :: "u32 \<Rightarrow> (byte list \<times> byte list) option \<Rightarrow> tls_conn \<Rightarrow> tls_conn" where
  "with_cert bits key cn = cn\<lparr>cn_tls := (cn_tls cn)\<lparr>tls_flags := tls_flags (cn_tls cn) OR bits\<rparr>,
     cn_rsa_key := (case key of None \<Rightarrow> cn_rsa_key cn | Some k \<Rightarrow> Some k)\<rparr>"

lemma hs_msg_append: "hs_msg type body = [type] @ be24 (length body) @ body"
  by (simp add: hs_msg_def)

lemma get24be_at: "at_pos mem p (be24 n @ xs) \<Longrightarrow> n < 2 ^ 24 \<Longrightarrow> get24be mem p = n"
proof -
  assume at: "at_pos mem p (be24 n @ xs)" and n: "n < 2 ^ 24"
  have b: "mem ! p = word_of_nat (n div 65536)" "mem ! (p + 1) = word_of_nat (n div 256)" "mem ! (p + 2) = word_of_nat n"
    using msg_byte [OF at, of 0] msg_byte [OF at, of 1] msg_byte [OF at, of 2] by (simp_all add: be24_def)
  have "n div 65536 < 256" using n by simp
  moreover have "256 * (n div 65536) + n div 256 mod 256 = n div 256"
    using div_mult2_eq [of n 256 256] by (simp add: mult_div_mod_eq)
  ultimately show ?thesis
    unfolding get24be_def b by (simp add: unsigned_of_nat take_bit_eq_mod)
qed

lemma core_with_cert: "core (with_cert bits key cn) = with_cert bits key (core cn)"
  by (cases key) (simp_all add: core_def with_cert_def)

lemma certificate_read:
  assumes aw: "awaits env cn T inp (hs_record msg @ rest)" and msg: "msg = hs_msg HANDSHAKE_CERTIFICATE (certificate_body der others)"
    and small: "length msg \<le> 16384 + 2048" and cert: "cert_gives der bits key"
  obtains cn' inp' where "get_server_cert env cn inp = Inr (cn', inp')" and "awaits env cn' (T @ msg) inp' rest"
    and "core cn' = core (with_cert bits key cn)"
proof -
  let ?chain = "be24 (length der) @ der @ others"
  have l: "length msg = 10 + length der + length others" by (simp add: msg certificate_body_def)
  have mn: "10 \<le> length msg" "length msg \<le> 16384 + 2048" "(0 :: nat) < 10" using l small by simp_all
  obtain cn1 inp1 where x: "tls_xread_handshake_block env cn inp 10 = Inr (cn1, length msg, inp1)"
    "core cn1 = core cn" "awaits env cn1 (T @ msg) inp1 rest" "at_pos (tls_inbuf (cn_tls cn1)) 5 msg"
    by (rule tls_xread_block [OF aw mn])
  let ?b = "tls_inbuf (cn_tls cn1)"
  have m: "msg = [HANDSHAKE_CERTIFICATE] @ be24 (6 + length der + length others) @ be24 (3 + length der + length others) @ be24 (length der) @ der @ others"
    unfolding msg hs_msg_def certificate_body_def by (simp add: add.assoc)
  note at = x(4) [unfolded m at_pos_append]
  have small24: "6 + length der + length others < 2 ^ 24" using small l by simp
  have t: "?b ! 5 = HANDSHAKE_CERTIFICATE" using msg_byte [OF x(4), of 0] by (simp add: m)
  have lens: "get24be ?b 6 = 6 + length der + length others" "get24be ?b 9 = 3 + length der + length others" "get24be ?b 12 = length der"
    using get24be_at [of ?b 6 _ "[]"] get24be_at [of ?b 9 _ "[]"] get24be_at [of ?b 12 _ "[]"] at small24 by simp_all
  have der: "at_pos ?b 15 der" using at by simp
  have g: "get_server_cert env cn inp = Inr (with_cert bits key cn1, inp1)"
    unfolding get_server_cert_def x(1) hs_bind.simps prod.case Let_def RECHDR_LEN_def
    using t lens l cert der by (cases "der = []") (simp_all add: cert_gives_def with_cert_def)
  show ?thesis
  proof (rule that [OF g])
    show "awaits env (with_cert bits key cn1) (T @ msg) inp1 rest"
      using x(3) by (simp add: awaits_def with_cert_def transcript_def inbuf_ok_def stream_def)
  qed (simp add: core_with_cert x(2))
qed

text \<open>The key of the server on a curve.\<close>

datatype server_kx = X25519_kx "byte list" "byte list" | P256_kx "byte list" "byte list"

fun kx_body :: "server_kx \<Rightarrow> byte list" where
  "kx_body (X25519_kx pub sig) = x25519_kx_body pub sig"
| "kx_body (P256_kx pub sig) = p256_kx_body pub sig"

fun kx_good :: "server_kx \<Rightarrow> bool" where
  "kx_good (X25519_kx pub sig) = (length pub = 32)"
| "kx_good (P256_kx pub sig) = (length pub = 64)"

fun with_kx :: "server_kx \<Rightarrow> tls_conn \<Rightarrow> tls_conn" where
  "with_kx (X25519_kx pub sig) cn =
     cn\<lparr>cn_tls := (cn_tls cn)\<lparr>tls_flags := (tls_flags (cn_tls cn) OR GOT_EC_CURVE_X25519) OR GOT_EC_KEY\<rparr>,
        cn_ecc_pub_key32 := mem_write (cn_ecc_pub_key32 cn) 0 pub\<rparr>"
| "with_kx (P256_kx pub sig) cn =
     cn\<lparr>cn_tls := (cn_tls cn)\<lparr>tls_flags := tls_flags (cn_tls cn) OR GOT_EC_KEY\<rparr>,
        cn_ecc_pub_key32 := mem_write (cn_ecc_pub_key32 cn) 0 pub\<rparr>"

lemma process_key:
  assumes at: "at_pos (tls_inbuf (cn_tls cn)) 5 msg" and msg: "msg = hs_msg HANDSHAKE_SERVER_KEY_EXCHANGE (kx_body kx)"
    and good: "kx_good kx" and small: "length msg \<le> 16384 + 2048"
  shows "process_server_key cn (length msg) = Inr (with_kx kx cn)"
proof -
  let ?b = "tls_inbuf (cn_tls cn)"
  have at1: "at_pos ?b 6 (be24 (length (kx_body kx)))" and at2: "at_pos ?b 9 (kx_body kx)"
    using at unfolding msg hs_msg_append at_pos_append by simp_all
  have len: "get24be ?b 6 = length (kx_body kx)"
    using get24be_at [of ?b 6 "length (kx_body kx)" "[]"] at1 small by (simp add: msg)
  have four: "Suc (Suc (Suc (Suc 0))) = 4" by simp
  show ?thesis
  proof (cases kx)
    case (X25519_kx pub sig)
    have r: "mem_read ?b 9 4 = [3, 0, 0x1d, 0x20]" "mem_read ?b 13 32 = pub"
      using at_pos_read [of ?b 9 "[]" "[3, 0, 0x1d, 0x20]" "pub @ sig"] at_pos_read [of ?b 9 "[3, 0, 0x1d, 0x20]" pub sig] at2 good X25519_kx
      by (simp_all add: x25519_kx_body_def four)
    have w: "(le_word [3, 0, 0x1d, 0x20 :: byte] :: u32) = 0x201d0003" by simp
    show ?thesis
      using len r w good X25519_kx by (simp add: process_server_key_def Let_def RECHDR_LEN_def msg x25519_kx_body_def)
  next
    case (P256_kx pub sig)
    have r: "mem_read ?b 9 4 = [3, 0, 0x17, 0x41]" "mem_read ?b 14 64 = pub" "?b ! 13 = 4"
      using at_pos_read [of ?b 9 "[]" "[3, 0, 0x17, 0x41]" "4 # pub @ sig"] at_pos_read [of ?b 9 "[3, 0, 0x17, 0x41, 4]" pub sig]
        msg_byte [OF at2, of 4] at2 good P256_kx
      by (simp_all add: p256_kx_body_def four)
    have w: "(le_word [3, 0, 0x17, 0x41 :: byte] :: u32) = 0x41170003" by simp
    show ?thesis
      using len r w good P256_kx by (simp add: process_server_key_def Let_def RECHDR_LEN_def msg p256_kx_body_def)
  qed
qed

lemma core_with_kx: "core (with_kx kx cn) = with_kx kx (core cn)"
  by (cases kx) (simp_all add: core_def)

lemma awaits_with_kx: "awaits env (with_kx kx cn) T inp st = awaits env cn T inp st"
  by (cases kx) (simp_all add: awaits_def transcript_def inbuf_ok_def stream_def)

text \<open>The flight of the server: the hello, the certificates, a key on a curve if there is one, a request for a certificate if there is one, the end.\<close>

record flight =
  fl_rand :: "byte list"
  fl_sid :: "byte list"
  fl_suite :: "byte \<times> byte"
  fl_exts :: "byte list"
  fl_der :: "byte list"
  fl_others :: "byte list"
  fl_kx :: "server_kx option"
  fl_request :: "byte list option"

definition fl_hello_body :: "flight \<Rightarrow> byte list" where
  "fl_hello_body fl = server_hello_body (fl_rand fl) (fl_sid fl) (fst (fl_suite fl)) (snd (fl_suite fl)) (fl_exts fl)"

definition fl_msgs :: "flight \<Rightarrow> byte list list" where
  "fl_msgs fl =
     [hs_msg HANDSHAKE_SERVER_HELLO (fl_hello_body fl), hs_msg HANDSHAKE_CERTIFICATE (certificate_body (fl_der fl) (fl_others fl))]
     @ (case fl_kx fl of None \<Rightarrow> [] | Some kx \<Rightarrow> [hs_msg HANDSHAKE_SERVER_KEY_EXCHANGE (kx_body kx)])
     @ (case fl_request fl of None \<Rightarrow> [] | Some r \<Rightarrow> [hs_msg HANDSHAKE_CERTIFICATE_REQUEST r])
     @ [hs_msg HANDSHAKE_SERVER_HELLO_DONE []]"

text \<open>
  The sizes: \<^verbatim>\<open>get_server_hello\<close> accepts a session id of 0 or 32 bytes and a hello whose length fits one byte, and a
  record holds at most 18432 bytes.
\<close>

definition fl_good :: "flight \<Rightarrow> bool" where
  "fl_good fl \<longleftrightarrow> length (fl_rand fl) = 32 \<and> length (fl_sid fl) \<in> {0, 32} \<and> length (fl_hello_body fl) < 256
     \<and> list_all (\<lambda>msg. length msg \<le> 16384 + 2048) (fl_msgs fl)
     \<and> (case fl_kx fl of None \<Rightarrow> True | Some kx \<Rightarrow> kx_good kx)"

text \<open>
  The flight as the server sends it to this client: every message in a record of its own. RFC 5246 also allows
  several messages in a record and a message over several records; \<^verbatim>\<open>tls_xread_handshake_block\<close> takes the
  content of one record as one message, so such flights are not described here.
\<close>

definition fl_bytes :: "flight \<Rightarrow> byte list" where "fl_bytes fl = concat (map hs_record (fl_msgs fl))"

lemma block4:
  assumes aw: "awaits env cn T inp (hs_record (hs_msg type body) @ rest)" and small: "length (hs_msg type body) \<le> 16384 + 2048"
  obtains cn' inp' where "tls_xread_handshake_block env cn inp 4 = Inr (cn', length (hs_msg type body), inp')"
    and "core cn' = core cn" and "awaits env cn' (T @ hs_msg type body) inp' rest" and "at_pos (tls_inbuf (cn_tls cn')) 5 (hs_msg type body)"
    and "tls_inbuf (cn_tls cn') ! RECHDR_LEN = type"
proof -
  have mn: "4 \<le> length (hs_msg type body)" "(0 :: nat) < 4" by simp_all
  obtain cn' inp' where x: "tls_xread_handshake_block env cn inp 4 = Inr (cn', length (hs_msg type body), inp')"
    "core cn' = core cn" "awaits env cn' (T @ hs_msg type body) inp' rest" "at_pos (tls_inbuf (cn_tls cn')) 5 (hs_msg type body)"
    by (rule tls_xread_block [OF aw mn(1) small mn(2)])
  have "tls_inbuf (cn_tls cn') ! RECHDR_LEN = type"
    using msg_byte [OF x(4), of 0] by (simp add: RECHDR_LEN_def hs_msg_def)
  then show ?thesis using that x by blast
qed

definition opt_msg :: "byte \<Rightarrow> byte list option \<Rightarrow> byte list" where
  "opt_msg type b = (case b of None \<Rightarrow> [] | Some body \<Rightarrow> hs_msg type body)"

definition opt_record :: "byte \<Rightarrow> byte list option \<Rightarrow> byte list" where
  "opt_record type b = (case b of None \<Rightarrow> [] | Some body \<Rightarrow> hs_record (hs_msg type body))"

lemma flight_end:
  assumes aw: "awaits env cn T inp (opt_record HANDSHAKE_CERTIFICATE_REQUEST req @ hs_record (hs_msg HANDSHAKE_SERVER_HELLO_DONE []) @ rest)"
    and small: "length (opt_msg HANDSHAKE_CERTIFICATE_REQUEST req) \<le> 16384 + 2048"
  obtains cn' inp' where "hs_bind (tls_xread_handshake_block env cn inp 4) (\<lambda>(cn, len, inp). read_flight_end env cn len inp)
      = Inr (cn', req \<noteq> None, inp')"
    and "\<forall>cn1 len1 inp1. tls_xread_handshake_block env cn inp 4 = Inr (cn1, len1, inp1) \<longrightarrow>
      tls_inbuf (cn_tls cn1) ! RECHDR_LEN \<noteq> HANDSHAKE_SERVER_KEY_EXCHANGE"
    and "core cn' = core cn"
    and "awaits env cn' (T @ opt_msg HANDSHAKE_CERTIFICATE_REQUEST req @ hs_msg HANDSHAKE_SERVER_HELLO_DONE []) inp' rest"
proof -
  have d: "length (hs_msg HANDSHAKE_SERVER_HELLO_DONE []) \<le> 16384 + 2048" by simp
  note types = HANDSHAKE_CERTIFICATE_REQUEST_def HANDSHAKE_SERVER_HELLO_DONE_def HANDSHAKE_SERVER_KEY_EXCHANGE_def
  show ?thesis
  proof (cases req)
    case None
    then have aw': "awaits env cn T inp (hs_record (hs_msg HANDSHAKE_SERVER_HELLO_DONE []) @ rest)" using aw by (simp add: opt_record_def)
    show ?thesis
      by (rule block4 [OF aw' d]) (rule that, auto simp: read_flight_end_def types None opt_msg_def)
  next
    case (Some r)
    have aw': "awaits env cn T inp (hs_record (hs_msg HANDSHAKE_CERTIFICATE_REQUEST r) @ hs_record (hs_msg HANDSHAKE_SERVER_HELLO_DONE []) @ rest)"
      using aw Some by (simp add: opt_record_def)
    have s: "length (hs_msg HANDSHAKE_CERTIFICATE_REQUEST r) \<le> 16384 + 2048" using small Some by (simp add: opt_msg_def)
    obtain cn1 inp1 where x: "tls_xread_handshake_block env cn inp 4 = Inr (cn1, length (hs_msg HANDSHAKE_CERTIFICATE_REQUEST r), inp1)"
      "core cn1 = core cn" "awaits env cn1 (T @ hs_msg HANDSHAKE_CERTIFICATE_REQUEST r) inp1 (hs_record (hs_msg HANDSHAKE_SERVER_HELLO_DONE []) @ rest)"
      "tls_inbuf (cn_tls cn1) ! RECHDR_LEN = HANDSHAKE_CERTIFICATE_REQUEST"
      by (rule block4 [OF aw' s])
    obtain cn2 inp2 where y: "tls_xread_handshake_block env cn1 inp1 4 = Inr (cn2, length (hs_msg HANDSHAKE_SERVER_HELLO_DONE []), inp2)"
      "core cn2 = core cn1" "awaits env cn2 ((T @ hs_msg HANDSHAKE_CERTIFICATE_REQUEST r) @ hs_msg HANDSHAKE_SERVER_HELLO_DONE []) inp2 rest"
      "tls_inbuf (cn_tls cn2) ! RECHDR_LEN = HANDSHAKE_SERVER_HELLO_DONE"
      by (rule block4 [OF x(3) d])
    show ?thesis
      by (rule that [of cn2 inp2]) (use x y in \<open>simp_all add: read_flight_end_def Let_def Some opt_msg_def types\<close>)
  qed
qed

lemma fl_parts:
  "fl_bytes fl = hs_record (hs_msg HANDSHAKE_SERVER_HELLO (fl_hello_body fl))
     @ hs_record (hs_msg HANDSHAKE_CERTIFICATE (certificate_body (fl_der fl) (fl_others fl)))
     @ opt_record HANDSHAKE_SERVER_KEY_EXCHANGE (map_option kx_body (fl_kx fl))
     @ opt_record HANDSHAKE_CERTIFICATE_REQUEST (fl_request fl) @ hs_record (hs_msg HANDSHAKE_SERVER_HELLO_DONE [])"
  "concat (fl_msgs fl) = hs_msg HANDSHAKE_SERVER_HELLO (fl_hello_body fl)
     @ hs_msg HANDSHAKE_CERTIFICATE (certificate_body (fl_der fl) (fl_others fl))
     @ opt_msg HANDSHAKE_SERVER_KEY_EXCHANGE (map_option kx_body (fl_kx fl))
     @ opt_msg HANDSHAKE_CERTIFICATE_REQUEST (fl_request fl) @ hs_msg HANDSHAKE_SERVER_HELLO_DONE []"
  by (cases "fl_kx fl"; cases "fl_request fl"; simp add: fl_bytes_def fl_msgs_def opt_record_def opt_msg_def)+

definition take_kx :: "server_kx option \<Rightarrow> tls_conn \<Rightarrow> tls_conn" where
  "take_kx kx cn = (case kx of None \<Rightarrow> cn | Some kx \<Rightarrow> if tls_flags (cn_tls cn) AND NEED_EC_KEY \<noteq> 0 then with_kx kx cn else cn)"

lemma core_flags: "core cn' = core cn \<Longrightarrow> tls_flags (cn_tls cn') = tls_flags (cn_tls cn)"
  by (drule core_eq, erule ssubst) simp

lemma flight_kx:
  assumes aw: "awaits env cn T inp (opt_record HANDSHAKE_SERVER_KEY_EXCHANGE (map_option kx_body kx)
      @ opt_record HANDSHAKE_CERTIFICATE_REQUEST req @ hs_record (hs_msg HANDSHAKE_SERVER_HELLO_DONE []) @ rest)"
    and small: "length (opt_msg HANDSHAKE_SERVER_KEY_EXCHANGE (map_option kx_body kx)) \<le> 16384 + 2048"
      "length (opt_msg HANDSHAKE_CERTIFICATE_REQUEST req) \<le> 16384 + 2048"
    and good: "case kx of None \<Rightarrow> True | Some kx \<Rightarrow> kx_good kx"
  obtains cn' inp' where "read_flight_kx env cn inp = Inr (cn', req \<noteq> None, inp')" and "core cn' = core (take_kx kx cn)"
    and "awaits env cn' (T @ opt_msg HANDSHAKE_SERVER_KEY_EXCHANGE (map_option kx_body kx)
      @ opt_msg HANDSHAKE_CERTIFICATE_REQUEST req @ hs_msg HANDSHAKE_SERVER_HELLO_DONE []) inp' rest"
proof (cases kx)
  case None
  have aw': "awaits env cn T inp (opt_record HANDSHAKE_CERTIFICATE_REQUEST req @ hs_record (hs_msg HANDSHAKE_SERVER_HELLO_DONE []) @ rest)"
    using aw None by (simp add: opt_record_def)
  obtain cn' inp' where e: "hs_bind (tls_xread_handshake_block env cn inp 4) (\<lambda>(cn, len, inp). read_flight_end env cn len inp)
      = Inr (cn', req \<noteq> None, inp')"
    and first: "\<forall>cn1 len1 inp1. tls_xread_handshake_block env cn inp 4 = Inr (cn1, len1, inp1) \<longrightarrow>
      tls_inbuf (cn_tls cn1) ! RECHDR_LEN \<noteq> HANDSHAKE_SERVER_KEY_EXCHANGE"
    and f: "core cn' = core cn" "awaits env cn' (T @ opt_msg HANDSHAKE_CERTIFICATE_REQUEST req @ hs_msg HANDSHAKE_SERVER_HELLO_DONE []) inp' rest"
    by (rule flight_end [OF aw' small(2)])
  have "read_flight_kx env cn inp = Inr (cn', req \<noteq> None, inp')"
    using e first unfolding read_flight_kx_def by (cases "tls_xread_handshake_block env cn inp 4") auto
  then show ?thesis using that f None by (simp add: take_kx_def opt_msg_def)
next
  case (Some k)
  let ?m = "hs_msg HANDSHAKE_SERVER_KEY_EXCHANGE (kx_body k)"
  have aw': "awaits env cn T inp (hs_record ?m @ opt_record HANDSHAKE_CERTIFICATE_REQUEST req @ hs_record (hs_msg HANDSHAKE_SERVER_HELLO_DONE []) @ rest)"
    using aw Some by (simp add: opt_record_def)
  have s: "length ?m \<le> 16384 + 2048" using small(1) Some by (simp add: opt_msg_def)
  obtain cn1 inp1 where x: "tls_xread_handshake_block env cn inp 4 = Inr (cn1, length ?m, inp1)" "core cn1 = core cn"
    "awaits env cn1 (T @ ?m) inp1 (opt_record HANDSHAKE_CERTIFICATE_REQUEST req @ hs_record (hs_msg HANDSHAKE_SERVER_HELLO_DONE []) @ rest)"
    "at_pos (tls_inbuf (cn_tls cn1)) 5 ?m" "tls_inbuf (cn_tls cn1) ! RECHDR_LEN = HANDSHAKE_SERVER_KEY_EXCHANGE"
    by (rule block4 [OF aw' s])
  have k: "process_server_key cn1 (length ?m) = Inr (with_kx k cn1)"
    by (rule process_key [OF x(4) refl _ s]) (use good Some in simp)
  have aw2: "awaits env (take_kx kx cn1) (T @ ?m) inp1 (opt_record HANDSHAKE_CERTIFICATE_REQUEST req @ hs_record (hs_msg HANDSHAKE_SERVER_HELLO_DONE []) @ rest)"
    using x(3) by (simp add: take_kx_def Some awaits_with_kx)
  obtain cn' inp' where e: "hs_bind (tls_xread_handshake_block env (take_kx kx cn1) inp1 4) (\<lambda>(cn, len, inp). read_flight_end env cn len inp)
      = Inr (cn', req \<noteq> None, inp')" "core cn' = core (take_kx kx cn1)"
    "awaits env cn' ((T @ ?m) @ opt_msg HANDSHAKE_CERTIFICATE_REQUEST req @ hs_msg HANDSHAKE_SERVER_HELLO_DONE []) inp' rest"
    by (rule flight_end [OF aw2 small(2)])
  have "read_flight_kx env cn inp = Inr (cn', req \<noteq> None, inp')"
    using e(1) k x(1,5) by (simp add: read_flight_kx_def take_kx_def Some split: if_splits)
  moreover have "core (take_kx kx cn1) = core (take_kx kx cn)"
    using x(2) core_flags [OF x(2)] by (simp add: take_kx_def Some core_with_kx)
  ultimately show ?thesis using that [of cn' inp'] e(2,3) Some by (simp add: opt_msg_def)
qed

text \<open>The connection after the flight.\<close>

definition after_flight :: "tls_env \<Rightarrow> flight \<Rightarrow> u32 \<Rightarrow> (byte list \<times> byte list) option \<Rightarrow> tls_conn \<Rightarrow> tls_conn" where
  "after_flight env fl bits key cn =
     take_kx (fl_kx fl) (with_cert bits key (select_cipher env (fst (fl_suite fl)) (snd (fl_suite fl))
       (cn\<lparr>cn_rand32 := mem_write (cn_rand32 cn) 32 (fl_rand fl)\<rparr>)))"

lemma core_take_kx: "core cn' = core cn \<Longrightarrow> core (take_kx kx cn') = core (take_kx kx cn)"
  using core_flags [of cn' cn] by (cases kx) (simp_all add: take_kx_def core_with_kx)

lemma server_flight_read:
  assumes aw: "awaits env cn T inp (fl_bytes fl @ rest)" and good: "fl_good fl" and cert: "cert_gives (fl_der fl) bits key"
  obtains cn' inp' where "read_server_flight env cn inp = Inr (cn', fl_request fl \<noteq> None, inp')"
    and "core cn' = core (after_flight env fl bits key cn)" and "awaits env cn' (T @ concat (fl_msgs fl)) inp' rest"
proof -
  let ?h = "hs_msg HANDSHAKE_SERVER_HELLO (fl_hello_body fl)"
  let ?c = "hs_msg HANDSHAKE_CERTIFICATE (certificate_body (fl_der fl) (fl_others fl))"
  let ?k = "opt_msg HANDSHAKE_SERVER_KEY_EXCHANGE (map_option kx_body (fl_kx fl))"
  let ?r = "opt_msg HANDSHAKE_CERTIFICATE_REQUEST (fl_request fl)"
  have g: "length (fl_rand fl) = 32" "length (fl_sid fl) \<in> {0, 32}" "length (fl_hello_body fl) < 256"
    "length ?c \<le> 16384 + 2048" "length ?k \<le> 16384 + 2048" "length ?r \<le> 16384 + 2048"
    "case fl_kx fl of None \<Rightarrow> True | Some kx \<Rightarrow> kx_good kx"
    using good by (auto simp: fl_good_def fl_msgs_def opt_msg_def split: option.splits)
  obtain cn1 inp1 where 1: "get_server_hello env cn inp = Inr (cn1, inp1)"
    "awaits env cn1 (T @ ?h) inp1 (hs_record ?c
     @ opt_record HANDSHAKE_SERVER_KEY_EXCHANGE (map_option kx_body (fl_kx fl))
     @ opt_record HANDSHAKE_CERTIFICATE_REQUEST (fl_request fl) @ hs_record (hs_msg HANDSHAKE_SERVER_HELLO_DONE []) @ rest)"
    "core cn1 = core (select_cipher env (fst (fl_suite fl)) (snd (fl_suite fl)) (cn\<lparr>cn_rand32 := mem_write (cn_rand32 cn) 32 (fl_rand fl)\<rparr>))"
    by (rule server_hello_read [OF aw [unfolded fl_parts append.assoc] _ g(1,2) g(3) [unfolded fl_hello_body_def]])
      (simp add: fl_hello_body_def)
  obtain cn2 inp2 where 2: "get_server_cert env cn1 inp1 = Inr (cn2, inp2)"
    "awaits env cn2 ((T @ ?h) @ ?c) inp2 (opt_record HANDSHAKE_SERVER_KEY_EXCHANGE (map_option kx_body (fl_kx fl))
     @ opt_record HANDSHAKE_CERTIFICATE_REQUEST (fl_request fl) @ hs_record (hs_msg HANDSHAKE_SERVER_HELLO_DONE []) @ rest)"
    "core cn2 = core (with_cert bits key cn1)"
    by (rule certificate_read [OF 1(2) refl g(4) cert])
  obtain cn3 inp3 where 3: "read_flight_kx env cn2 inp2 = Inr (cn3, fl_request fl \<noteq> None, inp3)" "core cn3 = core (take_kx (fl_kx fl) cn2)"
    "awaits env cn3 (((T @ ?h) @ ?c) @ ?k @ ?r @ hs_msg HANDSHAKE_SERVER_HELLO_DONE []) inp3 rest"
    by (rule flight_kx [OF 2(2) g(5-7)])
  have "core cn2 = core (with_cert bits key (select_cipher env (fst (fl_suite fl)) (snd (fl_suite fl))
      (cn\<lparr>cn_rand32 := mem_write (cn_rand32 cn) 32 (fl_rand fl)\<rparr>)))"
    unfolding 2(3) core_with_cert 1(3) ..
  then have "core cn3 = core (after_flight env fl bits key cn)"
    unfolding 3(2) after_flight_def by (rule core_take_kx)
  then show ?thesis using that [of cn3 inp3] 1(1) 2(1) 3 by (simp add: read_server_flight_def fl_parts)
qed

section \<open>Properties\<close>

text \<open>A short P-256 key is completed with whatever follows it: the length of the key exchange message is
  only compared with the 36 bytes an X25519 key needs, so for a message that announces an
  uncompressed point but holds 31 bytes of it, the client takes the 33 bytes behind the message, left
  in the buffer by other records, as the rest of the server's key.\<close>

theorem p256_key_past_message:
  assumes "at_pos (tls_inbuf (cn_tls cn)) 5 (hs_msg HANDSHAKE_SERVER_KEY_EXCHANGE ([3, 0, 0x17, 0x41, 4] @ x) @ y)"
    and "length x = 31" and "length y = 33" and "length (cn_ecc_pub_key32 cn) = 64"
  shows "\<exists>cn'. process_server_key cn 40 = Inr cn' \<and> cn_ecc_pub_key32 cn' = x @ y
    \<and> tls_flags (cn_tls cn') = tls_flags (cn_tls cn) OR GOT_EC_KEY"
proof -
  let ?b = "tls_inbuf (cn_tls cn)"
  have at: "at_pos ?b 6 (be24 36)" "at_pos ?b 9 ([3, 0, 0x17, 0x41, 4] @ x @ y)"
    using assms(1,2) unfolding hs_msg_append append.assoc at_pos_append by simp_all
  have len: "get24be ?b 6 = 36" using get24be_at [of ?b 6 36 "[]"] at(1) by simp
  have four: "Suc (Suc (Suc (Suc 0))) = 4" by simp
  have r: "mem_read ?b 9 4 = [3, 0, 0x17, 0x41]" "mem_read ?b 14 64 = x @ y" "?b ! 13 = 4"
    using at_pos_read [of ?b 9 "[]" "[3, 0, 0x17, 0x41]" "4 # x @ y"] at_pos_read [of ?b 9 "[3, 0, 0x17, 0x41, 4]" "x @ y" "[]"]
      msg_byte [OF at(2), of 4] at(2) assms(2,3) by (simp_all add: four)
  have w: "(le_word [3, 0, 0x17, 0x41 :: byte] :: u32) = 0x41170003" by simp
  show ?thesis
    using len r w assms(2-4) by (simp add: process_server_key_def Let_def RECHDR_LEN_def mem_write_def)
qed

definition demo_short_kx :: tls_conn where
  "demo_short_kx = new_tls_state\<lparr>cn_ecc_pub_key32 := replicate 64 0,
     cn_tls := (cn_tls new_tls_state)\<lparr>tls_inbuf := replicate 5 0
       @ hs_msg HANDSHAKE_SERVER_KEY_EXCHANGE ([3, 0, 0x17, 0x41, 4] @ replicate 31 1) @ replicate 33 2\<rparr>\<rparr>"

theorem p256_key_past_message_witness:
  "\<exists>cn'. process_server_key demo_short_kx 40 = Inr cn' \<and> cn_ecc_pub_key32 cn' = replicate 31 1 @ replicate 33 2"
proof -
  have "at_pos (tls_inbuf (cn_tls demo_short_kx)) 5
      (hs_msg HANDSHAKE_SERVER_KEY_EXCHANGE ([3, 0, 0x17, 0x41, 4] @ replicate 31 1) @ replicate 33 2)"
    by (simp add: demo_short_kx_def at_pos_def mem_read_def)
  from p256_key_past_message [OF this] show ?thesis by (auto simp: demo_short_kx_def)
qed

end
