(* ===== verification/Tls_Session.thy ===== *)
theory Tls_Session
  imports Tls_Messages
begin

text \<open>
  The handshake as a whole: from the zeroed state to a session in which both directions use the
  key material of RFC 5246, for every server that follows the protocol.
\<close>

section \<open>The session\<close>

text \<open>A connection that uses the key material \<open>km\<close> in both directions.\<close>

definition session :: "tls_env \<Rightarrow> tls_conn \<Rightarrow> key_material \<Rightarrow> bool" where
  "session env cn km \<longleftrightarrow>
     (let tls = cn_tls cn
      in (if tls_flags tls AND ENCRYPTION_AESGCM = 0
          then cbc_ready env tls (km_client_key km) \<and> cbc_reader env tls (km_server_key km)
            \<and> take (tls_MAC_size tls) (tls_client_write_MAC_key tls) = km_client_MAC km
          else gcm_ready tls (km_client_key km) \<and> gcm_reader tls (km_server_key km)
            \<and> tls_H tls = aes_encrypt_one_block (aes_setkey (km_client_key km)) (replicate 16 0)
            \<and> tls_client_write_IV tls = km_client_IV km \<and> tls_server_write_IV tls = km_server_IV km))"

definition switch_read :: "tls_env \<Rightarrow> tls_conn \<Rightarrow> tls_conn" where
  "switch_read env cn = cn\<lparr>cn_tls := (cn_tls cn)\<lparr>tls_min_encrypted_len_on_read := min_encrypted_len env (cn_tls cn)\<rparr>\<rparr>"

text \<open>
  What the keyed hashes rely on for a suite with a MAC of \<open>M\<close> bytes: the assembler code for the SHA instructions
  computes the portable SHA-256 block function, the preallocated context has the size of a context,
  and for a suite with HMAC-SHA-1 (20 bytes, only in builds with SHA-1) the processor has no SHA
  instructions, because \<^verbatim>\<open>sha1_end\<close> returns 32 bytes on one that has them. All other suites are not restricted.
\<close>

definition hash_env :: "tls_env \<Rightarrow> nat \<Rightarrow> bool" where
  "hash_env env M \<longleftrightarrow> sha256_shaNI_ok (te_target env) \<and> raw_pre (te_pre env)
     \<and> (te_tls_sha1 env \<and> M = 20 \<longrightarrow> \<not> bit (te_ebx env) 29)"

lemma derived_session:
  assumes env: "hash_env env M" "\<not> te_allow_null env" and suite: "(c0, c1, ecdhe, K, M, gcm) \<in> set (suites env)" and cn: "has_suite cn ecdhe K M gcm"
    and pm: "length premaster \<le> 64" and mac: "length (tls_client_write_MAC_key (cn_tls cn)) = 32"
    and rand: "cn_rand32 cn = client_random @ server_random" "length client_random = 32" "length server_random = 32"
    and km: "km = key_material M K (if gcm then 4 else 0) premaster client_random server_random"
  obtains cn' where "derive_keys env premaster cn = Inr cn'" and "session env (switch_read env cn') km"
    and "\<exists>mk h civ siv dec enc. cn' = cn\<lparr>cn_master_secret := master_secret premaster client_random server_random,
      cn_tls := (cn_tls cn)\<lparr>tls_client_write_MAC_key := mk, tls_client_write_IV := civ, tls_server_write_IV := siv,
        tls_aes_decrypt := dec, tls_aes_encrypt := enc, tls_H := h\<rparr>\<rparr>"
proof -
  note sh = suite_shape [OF suite]
  have s: "cn_key_size cn = K" "tls_MAC_size (cn_tls cn) = M" "cn_IV_size cn = (if gcm then 4 else 0)"
    "(tls_flags (cn_tls cn) AND ENCRYPTION_AESGCM \<noteq> 0) = gcm"
    using cn by (simp_all add: has_suite_def)
  have h: "sha256_shaNI_ok (te_target env)" "raw_pre (te_pre env)" using env by (simp_all add: hash_env_def)
  have M: "M \<le> 32" "2 * (M + K + (if gcm then 4 else 0)) \<le> 136" using sh by (auto split: if_splits)
  obtain mk where d: "length mk = 32" "take M mk = km_client_MAC km" "derive_keys env premaster cn = Inr (cn\<lparr>
        cn_master_secret := master_secret premaster client_random server_random,
        cn_tls := (cn_tls cn)\<lparr>tls_client_write_MAC_key := mk,
          tls_client_write_IV := km_client_IV km, tls_server_write_IV := km_server_IV km,
          tls_aes_decrypt := aes_setkey (km_server_key km), tls_aes_encrypt := aes_setkey (km_client_key km),
          tls_H := aes_encrypt_one_block (aes_setkey (km_client_key km)) (replicate 16 0)\<rparr>\<rparr>)"
    using derive_keys_material [OF h pm mac _ _ rand, unfolded s, OF M(2,1) km] by blast
  have kl: "length (km_client_key km) \<in> {16, 24, 32}" "length (km_server_key km) \<in> {16, 24, 32}"
    using sh(1) by (auto simp: km key_material_lengths)
  have iv: "gcm \<Longrightarrow> length (km_client_IV km) = 4" "gcm \<Longrightarrow> length (km_server_IV km) = 4"
    by (simp_all add: km key_material_lengths)
  have H: "length (aes_encrypt_one_block (aes_setkey (km_client_key km)) (replicate 16 0)) = 16"
    by (rule length_aes_block) (use kl in simp_all)
  show ?thesis
  proof (rule that [OF d(3)])
    show "session env (switch_read env (cn\<lparr>
        cn_master_secret := master_secret premaster client_random server_random,
        cn_tls := (cn_tls cn)\<lparr>tls_client_write_MAC_key := mk,
          tls_client_write_IV := km_client_IV km, tls_server_write_IV := km_server_IV km,
          tls_aes_decrypt := aes_setkey (km_server_key km), tls_aes_encrypt := aes_setkey (km_client_key km),
          tls_H := aes_encrypt_one_block (aes_setkey (km_client_key km)) (replicate 16 0)\<rparr>\<rparr>)) km"
    proof (cases gcm)
      case True
      then show ?thesis using s(4) kl iv H env(2)
        by (simp add: session_def switch_read_def gcm_ready_def gcm_reader_def min_encrypted_len_def)
    next
      case False
      then show ?thesis using s kl d(1,2) env h sh(2)
        by (auto simp: session_def switch_read_def cbc_ready_def cbc_reader_def min_encrypted_len_def cbc_min_def TLS_MAC_SIZE_def hash_env_def Let_def)
    qed
  qed blast
qed

text \<open>The body of the client's \<^verbatim>\<open>Finished\<close> in RFC 5246, over the messages \<open>T\<close>.\<close>

definition verify_data :: "byte list \<Rightarrow> byte list \<Rightarrow> byte list" where
  "verify_data secret T = tls_prf 12 secret (ascii ''client finished'') (sha256_digest T)"

lemma finished_written:
  assumes env: "hash_env env M" and T: "transcript env (cn_tls cn) T" and ms: "length (cn_master_secret cn) = 48"
  obtains ob ctx where "send_client_finished env he cn =
      sent_or_died cn (xwrite_encrypted env (he_iv he) ((cn_tls cn)\<lparr>tls_outbuf := ob, tls_hsd := Some ctx\<rparr>) 16 RECORD_TYPE_HANDSHAKE)"
    and "mem_read ob OUTBUF_PFX 16 = hs_msg HANDSHAKE_FINISHED (verify_data (cn_master_secret cn) T)"
    and "OUTBUF_PFX + 16 + OUTBUF_SFX \<le> length ob"
proof -
  define tls1 where "tls1 = (if length (tls_outbuf (cn_tls cn)) < 16 + OUTBUF_PFX + OUTBUF_SFX
      then (cn_tls cn)\<lparr>tls_outbuf := tls_outbuf (cn_tls cn) @ map (te_fresh env) [length (tls_outbuf (cn_tls cn))..<16 + OUTBUF_PFX + OUTBUF_SFX]\<rparr>
      else cn_tls cn)"
  have g: "tls_get_outbuf env (cn_tls cn) 16 = Some tls1" by (simp add: tls_get_outbuf_def tls1_def Let_def TLS_MAX_OUTBUF_def)
  have l: "OUTBUF_PFX + 16 + OUTBUF_SFX \<le> length (tls_outbuf tls1)" by (auto simp: tls1_def)
  obtain ctx where c: "tls_hsd (cn_tls cn) = Some ctx" "sha256_rep (te_target env) T ctx" using T by (auto simp: transcript_def)
  have hsd: "tls_hsd tls1 = Some ctx" using c(1) by (simp add: tls1_def)
  obtain ctx' where e: "sha1_end (te_target env) ctx = (ctx', sha256_digest T, 32)"
    using sha256.finish_rep [OF c(2)] mac_sha256.size_rep [OF c(2)] by (cases "sha1_end (te_target env) ctx") auto
  let ?hdr = "fill_handshake_record_hdr HANDSHAKE_FINISHED 16" and ?v = "verify_data (cn_master_secret cn) T"
  have vd: "prf_hmac_sha256 (te_target env) (te_ebx env) (te_pre env) 12 (cn_master_secret cn) (ascii ''client finished'') (sha256_digest T) = Some ?v"
    unfolding verify_data_def by (rule prf_tls) (use env ms in \<open>simp_all add: hash_env_def\<close>)
  have hdr: "?hdr = HANDSHAKE_FINISHED # be24 12" using fill_handshake_hdr [of HANDSHAKE_FINISHED 12] by simp
  have v: "length ?v = 12" by (simp add: verify_data_def)
  let ?ws = "[(0, ?hdr), (4, ?v)]"
  have "list_all (\<lambda>(off, bs). off + length bs \<le> 16) ?ws" using hdr v by simp
  from poke_fold [OF this, of "tls_outbuf tls1"] l
  have p: "mem_read (tls_outbuf (poke ?ws tls1)) OUTBUF_PFX 16 = mem_write (mem_write (mem_read (tls_outbuf tls1) OUTBUF_PFX 16) 0 ?hdr) 4 ?v"
    "length (tls_outbuf (poke ?ws tls1)) = length (tls_outbuf tls1)" by (simp_all add: poke_def)
  have "mem_write (mem_write (mem_read (tls_outbuf tls1) OUTBUF_PFX 16) 0 ?hdr) 4 ?v = ?hdr @ ?v"
    using l v hdr by (simp add: mem_write_def)
  then have m: "mem_read (tls_outbuf (poke ?ws tls1)) OUTBUF_PFX 16 = hs_msg HANDSHAKE_FINISHED ?v"
    using p(1) hdr v by (simp add: hs_msg_def)
  have two: "poke [(4, ?v)] ((poke [(0, ?hdr)] tls1)\<lparr>tls_hsd := Some ctx'\<rparr>) = (poke ?ws tls1)\<lparr>tls_hsd := Some ctx'\<rparr>"
    by (simp add: poke_def)
  have "tls_hsd (poke [(0, ?hdr)] tls1) = Some ctx" using hsd by (simp add: poke_def)
  then have "send_client_finished env he cn =
      sent_or_died cn (xwrite_encrypted env (he_iv he) ((poke ?ws tls1)\<lparr>tls_hsd := Some ctx'\<rparr>) 16 RECORD_TYPE_HANDSHAKE)"
    unfolding send_client_finished_def g option.case Let_def
    using e vd two by (simp add: length_sha256_digest)
  moreover have "(poke ?ws tls1)\<lparr>tls_hsd := Some ctx'\<rparr> = (cn_tls cn)\<lparr>tls_outbuf := tls_outbuf (poke ?ws tls1), tls_hsd := Some ctx'\<rparr>"
    by (simp add: poke_def tls1_def)
  ultimately show ?thesis using that m p(2) l by metis
qed

text \<open>The record that protects \<open>content\<close> in a state.\<close>

definition sealed :: "tls_env \<Rightarrow> tls_state \<Rightarrow> byte list \<Rightarrow> byte list \<Rightarrow> byte \<Rightarrow> byte list \<Rightarrow> byte list \<Rightarrow> bool" where
  "sealed env tls key iv type content r \<longleftrightarrow>
     (if tls_flags tls AND ENCRYPTION_AESGCM = 0
      then \<exists>ct. aes_cbc_encrypt (aes_setkey key) iv (cbc_plain content (record_mac env tls type content)) = Some ct
             \<and> r = record_hdr type (length ct + 16) @ iv @ ct
      else let ct = map2 (XOR) content (gcm_keystream key (gcm_nonce tls) 1 (length content))
           in r = record_hdr type (length content + 24) @ le_bytes 8 (tls_write_seq64_be tls) @ ct
                @ gcm_tag key (tls_H tls) (gcm_nonce tls) (gcm_aad tls type (length content)) ct)"

lemma xwrite_encrypted_seals:
  assumes ready: "if tls_flags tls AND ENCRYPTION_AESGCM = 0 then cbc_ready env tls key else gcm_ready tls key"
    and nn: "\<not> te_allow_null env" and content: "mem_read (tls_outbuf tls) OUTBUF_PFX sz = content" "sz \<le> TLS_MAX_OUTBUF"
    and fits: "OUTBUF_PFX + sz + OUTBUF_SFX \<le> length (tls_outbuf tls)" and iv: "length iv = 16"
  obtains r ob where "sealed env tls key iv type content r" and "xwrite_encrypted env iv tls sz type =
    Some (tls\<lparr>tls_write_seq64_be := bswap64 (1 + bswap64 (tls_write_seq64_be tls)), tls_outbuf := ob, tls_sent := tls_sent tls @ [r]\<rparr>)"
proof (cases "tls_flags tls AND ENCRYPTION_AESGCM = 0")
  case True
  then show ?thesis
    using that cbc_record [OF _ content(1) fits iv, of env key type] ready nn by (auto simp: sealed_def xwrite_encrypted_def)
next
  case False
  have sz: "length content = sz" using content(1) fits by (auto simp: mem_read_def)
  then show ?thesis
    using that gcm_record [OF _ content(1) fits content(2), of key sz env type] ready False
    by (auto simp: sealed_def xwrite_encrypted_def Let_def)
qed

lemma gcm_bit_write: "(f OR ENCRYPT_ON_WRITE) AND ENCRYPTION_AESGCM = f AND ENCRYPTION_AESGCM"
  by (simp add: flag_bits bit.conj_disj_distrib2)

text \<open>The state that sends the client's \<^verbatim>\<open>Finished\<close>, given that of the key derivation.\<close>

definition switch_write :: "tls_conn \<Rightarrow> tls_conn" where
  "switch_write cn = (let cn = send_change_cipher_spec cn
     in cn\<lparr>cn_tls := (cn_tls cn)\<lparr>tls_flags := tls_flags (cn_tls cn) OR ENCRYPT_ON_WRITE\<rparr>\<rparr>)"

definition cert_msgs :: "bool \<Rightarrow> byte list list" where
  "cert_msgs req = (if req then [hs_msg HANDSHAKE_CERTIFICATE (be24 0)] else [])"

lemma client_cert_sent:
  assumes T: "transcript env (cn_tls cn) T" and plain: "tls_flags (cn_tls cn) AND ENCRYPT_ON_WRITE = 0"
  obtains ob ctx where "(if req then send_empty_client_cert env he cn else Inr cn) = Inr (cn\<lparr>cn_tls := (cn_tls cn)\<lparr>tls_outbuf := ob,
      tls_sent := tls_sent (cn_tls cn) @ map hs_record (cert_msgs req), tls_hsd := Some ctx\<rparr>\<rparr>)"
    and "sha256_rep (te_target env) (T @ concat (cert_msgs req)) ctx"
proof (cases req)
  case True
  show ?thesis by (rule empty_cert_sent [OF T plain, of he]) (rule that, auto simp: True cert_msgs_def)
next
  case False
  obtain ctx where c: "tls_hsd (cn_tls cn) = Some ctx" "sha256_rep (te_target env) T ctx" using T by (auto simp: transcript_def)
  then have "Inr cn = (Inr (cn\<lparr>cn_tls := (cn_tls cn)\<lparr>tls_outbuf := tls_outbuf (cn_tls cn),
      tls_sent := tls_sent (cn_tls cn) @ map hs_record (cert_msgs req), tls_hsd := Some ctx\<rparr>\<rparr>) :: hs_error + tls_conn)"
    using False by (simp add: cert_msgs_def flip: c(1))
  then show ?thesis using that [of ctx "tls_outbuf (cn_tls cn)"] c(2) False by (simp add: cert_msgs_def)
qed

lemma ready_of_session:
  assumes "session env (switch_read env cn) km"
  shows "if tls_flags (cn_tls (switch_write cn)) AND ENCRYPTION_AESGCM = 0
    then cbc_ready env ((cn_tls (switch_write cn))\<lparr>tls_outbuf := ob, tls_hsd := h\<rparr>) (km_client_key km)
    else gcm_ready ((cn_tls (switch_write cn))\<lparr>tls_outbuf := ob, tls_hsd := h\<rparr>) (km_client_key km)"
  using assms
  by (auto simp: session_def switch_read_def switch_write_def send_change_cipher_spec_def xwrite_def Let_def gcm_bit_write
      cbc_ready_def gcm_ready_def split: if_splits)

text \<open>What the last message leaves of the state.\<close>

definition after_finished :: "tls_conn \<Rightarrow> byte list \<Rightarrow> md5_ctx \<Rightarrow> byte list \<Rightarrow> tls_conn" where
  "after_finished cn ob ctx r = cn\<lparr>cn_tls := (cn_tls cn)\<lparr>tls_outbuf := ob, tls_hsd := Some ctx,
     tls_write_seq64_be := bswap64 (1 + bswap64 (tls_write_seq64_be (cn_tls cn))), tls_sent := tls_sent (cn_tls cn) @ [r]\<rparr>\<rparr>"

lemma sealed_cong:
  assumes "tls_flags t = tls_flags t'" "tls_MAC_size t = tls_MAC_size t'" "tls_client_write_MAC_key t = tls_client_write_MAC_key t'"
    "tls_write_seq64_be t = tls_write_seq64_be t'" "tls_client_write_IV t = tls_client_write_IV t'" "tls_H t = tls_H t'"
  shows "sealed env t key iv type content r = sealed env t' key iv type content r"
proof -
  have e: "record_mac env t type content = record_mac env t' type content" "gcm_nonce t = gcm_nonce t'"
    "gcm_aad t type (length content) = gcm_aad t' type (length content)"
    using assms by (simp_all add: record_mac_def TLS_MAC_SIZE_def gcm_nonce_def gcm_aad_def)
  show ?thesis unfolding sealed_def e assms(1,4,6) ..
qed

lemma client_finished_sent:
  assumes env: "hash_env env M" "\<not> te_allow_null env" and T: "transcript env (cn_tls cn) T" and ms: "length (cn_master_secret cn) = 48"
    and s: "session env (switch_read env cn) km" and iv: "length (he_iv he) = 16"
  obtains ob ctx r where "send_client_finished env he (switch_write cn) = Inr (after_finished (switch_write cn) ob ctx r)"
    and "sealed env (cn_tls (switch_write cn)) (km_client_key km) (he_iv he) RECORD_TYPE_HANDSHAKE
      (hs_msg HANDSHAKE_FINISHED (verify_data (cn_master_secret cn) T)) r"
proof -
  let ?w = "switch_write cn" and ?c = "hs_msg HANDSHAKE_FINISHED (verify_data (cn_master_secret cn) T)"
  have w: "transcript env (cn_tls ?w) T" "cn_master_secret ?w = cn_master_secret cn"
    using T by (simp_all add: switch_write_def send_change_cipher_spec_def xwrite_def transcript_def Let_def)
  obtain ob ctx where f: "send_client_finished env he ?w =
      sent_or_died ?w (xwrite_encrypted env (he_iv he) ((cn_tls ?w)\<lparr>tls_outbuf := ob, tls_hsd := Some ctx\<rparr>) 16 RECORD_TYPE_HANDSHAKE)"
    "mem_read ob OUTBUF_PFX 16 = ?c" "OUTBUF_PFX + 16 + OUTBUF_SFX \<le> length ob"
    using finished_written [OF env(1) w(1), unfolded w(2), OF ms] by metis
  let ?tls = "(cn_tls ?w)\<lparr>tls_outbuf := ob, tls_hsd := Some ctx\<rparr>"
  have r: "if tls_flags ?tls AND ENCRYPTION_AESGCM = 0 then cbc_ready env ?tls (km_client_key km) else gcm_ready ?tls (km_client_key km)"
    using ready_of_session [OF s, of "Some ctx" ob] by simp
  have fit: "mem_read (tls_outbuf ?tls) OUTBUF_PFX 16 = ?c" "16 \<le> TLS_MAX_OUTBUF" "OUTBUF_PFX + 16 + OUTBUF_SFX \<le> length (tls_outbuf ?tls)"
    using f by (simp_all add: TLS_MAX_OUTBUF_def)
  obtain rr ob' where x: "sealed env ?tls (km_client_key km) (he_iv he) RECORD_TYPE_HANDSHAKE ?c rr"
    "xwrite_encrypted env (he_iv he) ?tls 16 RECORD_TYPE_HANDSHAKE = Some (?tls\<lparr>tls_write_seq64_be := bswap64 (1 + bswap64 (tls_write_seq64_be ?tls)),
      tls_outbuf := ob', tls_sent := tls_sent ?tls @ [rr]\<rparr>)"
    by (rule xwrite_encrypted_seals [OF r env(2) fit iv])
  have "sealed env (cn_tls ?w) (km_client_key km) (he_iv he) RECORD_TYPE_HANDSHAKE ?c rr"
    using x(1) sealed_cong [of ?tls "cn_tls ?w"] by simp
  moreover have "send_client_finished env he ?w = Inr (after_finished ?w ob' ctx rr)"
    using f(1) x(2) by (simp add: sent_or_died_def after_finished_def)
  ultimately show ?thesis using that by blast
qed

definition same_input :: "tls_conn \<Rightarrow> tls_conn \<Rightarrow> bool" where
  "same_input cn cn' \<longleftrightarrow> tls_inbuf (cn_tls cn') = tls_inbuf (cn_tls cn) \<and> tls_buffered_size (cn_tls cn') = tls_buffered_size (cn_tls cn)
     \<and> tls_ofs_to_buffered (cn_tls cn') = tls_ofs_to_buffered (cn_tls cn)
     \<and> tls_min_encrypted_len_on_read (cn_tls cn') = tls_min_encrypted_len_on_read (cn_tls cn) \<and> tls_hsd (cn_tls cn') \<noteq> None"

lemma session_after:
  "session env (switch_read env (after_finished (switch_write cn) ob ctx r)) km = session env (switch_read env cn) km"
  by (simp add: session_def switch_read_def after_finished_def switch_write_def send_change_cipher_spec_def xwrite_def Let_def
      gcm_bit_write min_encrypted_len_def cbc_ready_def cbc_reader_def gcm_ready_def gcm_reader_def cbc_min_def TLS_MAC_SIZE_def)

lemma client_flight_sent:
  assumes env: "hash_env env M" "\<not> te_allow_null env" and suite: "(c0, c1, ecdhe, K, M, gcm) \<in> set (suites env)" and cn: "has_suite cn ecdhe K M gcm"
    and T: "transcript env (cn_tls cn) T" and plain: "tls_flags (cn_tls cn) AND ENCRYPT_ON_WRITE = 0"
    and ready: "kx_ready he cn" and kx: "kx_message he cn = (body, premaster)" and small: "length body \<le> 2 + 4 * 1024" "length premaster \<le> 64"
    and mac: "length (tls_client_write_MAC_key (cn_tls cn)) = 32" and iv: "length (he_iv he) = 16"
    and rand: "cn_rand32 cn = client_random @ server_random" "length client_random = 32" "length server_random = 32"
    and km: "km = key_material M K (if gcm then 4 else 0) premaster client_random server_random"
    and ms: "ms = cert_msgs req @ [hs_msg HANDSHAKE_CLIENT_KEY_EXCHANGE body]"
  obtains cn' r where "send_client_flight env he req cn = Inr cn'"
    and "tls_sent (cn_tls cn') = tls_sent (cn_tls cn) @ map hs_record ms @ [rec_CHANGE_CIPHER_SPEC, r]"
    and "sealed env ((cn_tls cn')\<lparr>tls_write_seq64_be := tls_write_seq64_be (cn_tls cn)\<rparr>) (km_client_key km) (he_iv he) RECORD_TYPE_HANDSHAKE
      (hs_msg HANDSHAKE_FINISHED (verify_data (master_secret premaster client_random server_random) (T @ concat ms))) r"
    and "session env (switch_read env cn') km" and "same_input cn cn'"
    and "tls_MAC_size (cn_tls cn') = M" and "(tls_flags (cn_tls cn') AND ENCRYPTION_AESGCM \<noteq> 0) = gcm"
proof -
  obtain ob1 ctx1 where 1: "(if req then send_empty_client_cert env he cn else Inr cn) = Inr (cn\<lparr>cn_tls := (cn_tls cn)\<lparr>tls_outbuf := ob1,
      tls_sent := tls_sent (cn_tls cn) @ map hs_record (cert_msgs req), tls_hsd := Some ctx1\<rparr>\<rparr>)"
    "sha256_rep (te_target env) (T @ concat (cert_msgs req)) ctx1"
    by (rule client_cert_sent [OF T plain])
  define cn1 where "cn1 = cn\<lparr>cn_tls := (cn_tls cn)\<lparr>tls_outbuf := ob1,
      tls_sent := tls_sent (cn_tls cn) @ map hs_record (cert_msgs req), tls_hsd := Some ctx1\<rparr>\<rparr>"
  have T1: "transcript env (cn_tls cn1) (T @ concat (cert_msgs req))" and p1: "tls_flags (cn_tls cn1) AND ENCRYPT_ON_WRITE = 0"
    and r1: "kx_ready he cn1" using 1(2) plain ready by (simp_all add: cn1_def transcript_def kx_ready_def)
  have k1: "kx_message he cn1 = (body, premaster)" unfolding kx [symmetric] by (simp add: kx_message_def cn1_def Let_def)
  let ?kx = "hs_msg HANDSHAKE_CLIENT_KEY_EXCHANGE body"
  obtain ob2 ctx2 where 2: "send_client_key_exchange env he cn1 = derive_keys env premaster (cn1\<lparr>
      cn_tls := (cn_tls cn1)\<lparr>tls_outbuf := ob2, tls_sent := tls_sent (cn_tls cn1) @ [hs_record ?kx], tls_hsd := Some ctx2\<rparr>\<rparr>)"
    "sha256_rep (te_target env) ((T @ concat (cert_msgs req)) @ ?kx) ctx2"
    by (rule client_key_exchange_sent [OF T1 p1 r1 k1 small(1) refl])
  define cn2 where "cn2 = cn1\<lparr>cn_tls := (cn_tls cn1)\<lparr>tls_outbuf := ob2, tls_sent := tls_sent (cn_tls cn1) @ [hs_record ?kx], tls_hsd := Some ctx2\<rparr>\<rparr>"
  have s2: "has_suite cn2 ecdhe K M gcm" "length (tls_client_write_MAC_key (cn_tls cn2)) = 32" "cn_rand32 cn2 = client_random @ server_random"
    using cn mac rand by (simp_all add: cn2_def cn1_def has_suite_def)
  obtain cn3 where 3: "derive_keys env premaster cn2 = Inr cn3" "session env (switch_read env cn3) km"
    "\<exists>mk h civ siv dec enc. cn3 = cn2\<lparr>cn_master_secret := master_secret premaster client_random server_random,
      cn_tls := (cn_tls cn2)\<lparr>tls_client_write_MAC_key := mk, tls_client_write_IV := civ, tls_server_write_IV := siv,
        tls_aes_decrypt := dec, tls_aes_encrypt := enc, tls_H := h\<rparr>\<rparr>"
    by (rule derived_session [OF env suite s2(1) small(2) s2(2,3) rand(2,3) km])
  have T3: "transcript env (cn_tls cn3) (T @ concat ms)" "length (cn_master_secret cn3) = 48"
    "cn_master_secret cn3 = master_secret premaster client_random server_random"
    using 3(3) 2(2) by (auto simp: cn2_def transcript_def ms master_secret_def)
  obtain ob ctx r where 4: "send_client_finished env he (switch_write cn3) = Inr (after_finished (switch_write cn3) ob ctx r)"
    "sealed env (cn_tls (switch_write cn3)) (km_client_key km) (he_iv he) RECORD_TYPE_HANDSHAKE
      (hs_msg HANDSHAKE_FINISHED (verify_data (cn_master_secret cn3) (T @ concat ms))) r"
    by (rule client_finished_sent [OF env T3(1,2) 3(2) iv])
  let ?cn = "after_finished (switch_write cn3) ob ctx r"
  have seq: "tls_write_seq64_be (cn_tls (switch_write cn3)) = tls_write_seq64_be (cn_tls cn)"
    using 3(3) by (auto simp: switch_write_def send_change_cipher_spec_def xwrite_def cn2_def cn1_def Let_def)
  show ?thesis
  proof (rule that [of ?cn r])
    show "send_client_flight env he req cn = Inr ?cn"
      unfolding send_client_flight_def 1(1) hs_bind.simps cn1_def [symmetric] 2(1) cn2_def [symmetric] 3(1)
      using 4(1) by (simp add: switch_write_def Let_def)
    show "tls_sent (cn_tls ?cn) = tls_sent (cn_tls cn) @ map hs_record ms @ [rec_CHANGE_CIPHER_SPEC, r]"
      using 3(3) by (auto simp: after_finished_def switch_write_def send_change_cipher_spec_def xwrite_def cn2_def cn1_def ms Let_def)
    show "sealed env ((cn_tls ?cn)\<lparr>tls_write_seq64_be := tls_write_seq64_be (cn_tls cn)\<rparr>) (km_client_key km) (he_iv he) RECORD_TYPE_HANDSHAKE
      (hs_msg HANDSHAKE_FINISHED (verify_data (master_secret premaster client_random server_random) (T @ concat ms))) r"
      using 4(2) seq sealed_cong [of "(cn_tls ?cn)\<lparr>tls_write_seq64_be := tls_write_seq64_be (cn_tls cn)\<rparr>" "cn_tls (switch_write cn3)"]
      unfolding T3(3) by (simp add: after_finished_def)
    show "session env (switch_read env ?cn) km" using 3(2) by (simp add: session_after)
    show "tls_MAC_size (cn_tls ?cn) = M" "(tls_flags (cn_tls ?cn) AND ENCRYPTION_AESGCM \<noteq> 0) = gcm"
      using 3(3) s2(1) by (auto simp: has_suite_def after_finished_def switch_write_def send_change_cipher_spec_def xwrite_def gcm_bit_write Let_def)
    show "same_input cn ?cn"
      using 3(3) by (auto simp: same_input_def after_finished_def switch_write_def send_change_cipher_spec_def xwrite_def cn2_def cn1_def Let_def)
  qed
qed

lemma decrypts_buffers:
  "decrypts env (tls\<lparr>tls_inbuf := b, tls_buffered_size := m, tls_ofs_to_buffered := off\<rparr>) r p n = decrypts env tls r p n"
  by (simp add: decrypts_def)

lemma change_cipher_spec_read:
  assumes ok: "inbuf_ok tls" "good_input inp" "stream tls inp = rec_CHANGE_CIPHER_SPEC @ rest" "tls_min_encrypted_len_on_read tls = 0"
  obtains b m off inp' where
    "tls_xread_record env tls inp = Inr (tls\<lparr>tls_inbuf := b, tls_buffered_size := m, tls_ofs_to_buffered := off\<rparr>, 1, inp')"
    and "mem_read b 0 6 = rec_CHANGE_CIPHER_SPEC" and "good_input inp'"
    and "stream (tls\<lparr>tls_inbuf := b, tls_buffered_size := m, tls_ofs_to_buffered := off\<rparr>) inp' = rest"
    and "inbuf_ok (tls\<lparr>tls_inbuf := b, tls_buffered_size := m, tls_ofs_to_buffered := off\<rparr>)"
proof -
  let ?t = RECORD_TYPE_CHANGE_CIPHER_SPEC
  have ccs: "rec_CHANGE_CIPHER_SPEC = record_hdr ?t (length [1 :: byte]) @ [1]"
    by (simp add: rec_CHANGE_CIPHER_SPEC_def record_hdr_def)
  have st: "stream tls inp = record_hdr ?t (length [1 :: byte]) @ [1] @ rest" using ok(3) unfolding ccs by simp
  have small: "length [1 :: byte] \<le> 16384 + 2048" by simp
  obtain tls1 inp1 where x: "tls_xread_record env tls inp =
       (case tls_dispatch env tls1 (int (length [1 :: byte])) of
          Inl e \<Rightarrow> Inl e
        | Inr (tls', Return sz) \<Rightarrow> Inr (tls', sz, inp1)
        | Inr (tls', Again) \<Rightarrow> tls_xread_record env tls' inp1)"
    "tls_inbuf tls1 ! 0 = ?t" "mem_read (tls_inbuf tls1) 5 (length [1 :: byte]) = [1]" "stream tls1 inp1 = rest" "inbuf_ok tls1" "good_input inp1"
    "\<exists>b n off. tls1 = tls\<lparr>tls_inbuf := b, tls_buffered_size := n, tls_ofs_to_buffered := off\<rparr>"
    "take 5 (tls_inbuf tls1) = record_hdr ?t (length [1 :: byte])"
    by (rule tls_xread_unencrypted [OF ok(1,2) st small ok(4)])
  have d: "tls_dispatch env tls1 (int (length [1 :: byte])) = Inr (tls1, Return (length [1 :: byte]))"
    by (rule tls_dispatch_plain) (use x(2) in \<open>simp_all add: RECORD_TYPE_CHANGE_CIPHER_SPEC_def RECORD_TYPE_ALERT_def RECORD_TYPE_HANDSHAKE_def\<close>)
  have "mem_read (tls_inbuf tls1) 0 (5 + 1) = mem_read (tls_inbuf tls1) 0 5 @ mem_read (tls_inbuf tls1) (0 + 5) 1"
    by (rule mem_read_append)
  then have "mem_read (tls_inbuf tls1) 0 6 = rec_CHANGE_CIPHER_SPEC"
    using x(3,8) unfolding ccs by (simp add: mem_read_def [of _ 0])
  moreover obtain b m off where "tls1 = tls\<lparr>tls_inbuf := b, tls_buffered_size := m, tls_ofs_to_buffered := off\<rparr>" using x(7) by blast
  ultimately show ?thesis using that x(1,4-6) d by simp
qed

lemma server_finished_read:
  assumes ok: "inbuf_ok (cn_tls cn)" "good_input inp" "stream (cn_tls cn) inp = rec_CHANGE_CIPHER_SPEC @ fin @ rest"
      "tls_min_encrypted_len_on_read (cn_tls cn) = 0" and hsd: "tls_hsd (cn_tls cn) \<noteq> None"
    and fin: "decrypts env (cn_tls (switch_read env cn)) fin p n" "fin ! 0 = RECORD_TYPE_HANDSHAKE" and msg: "4 \<le> n" "p ! 0 = HANDSHAKE_FINISHED"
  obtains cn' inp' where "read_server_finished env cn inp = Inr (cn', inp')" and "core cn' = core (switch_read env cn)"
    and "tls_hsd (cn_tls cn') = None" and "inbuf_ok (cn_tls cn')" and "good_input inp'" and "stream (cn_tls cn') inp' = rest"
proof -
  obtain b m off inp1 where 1: "tls_xread_record env (cn_tls cn) inp =
      Inr ((cn_tls cn)\<lparr>tls_inbuf := b, tls_buffered_size := m, tls_ofs_to_buffered := off\<rparr>, 1, inp1)"
    "mem_read b 0 6 = rec_CHANGE_CIPHER_SPEC" "good_input inp1"
    "stream ((cn_tls cn)\<lparr>tls_inbuf := b, tls_buffered_size := m, tls_ofs_to_buffered := off\<rparr>) inp1 = fin @ rest"
    "inbuf_ok ((cn_tls cn)\<lparr>tls_inbuf := b, tls_buffered_size := m, tls_ofs_to_buffered := off\<rparr>)"
    by (rule change_cipher_spec_read [OF ok])
  let ?s = "cn_tls (switch_read env cn)"
  let ?t = "?s\<lparr>tls_inbuf := b, tls_buffered_size := m, tls_ofs_to_buffered := off\<rparr>"
  have t: "inbuf_ok ?t" "stream ?t inp1 = fin @ rest" using 1(4,5) by (simp_all add: switch_read_def inbuf_ok_def stream_def)
  have d: "decrypts env ?t fin p n" using fin(1) by (simp only: decrypts_buffers)
  then have d': "starts_with_record fin" "hdr_len fin = length fin" "5 + length p \<le> length fin" "n \<le> length p"
    and dec: "\<And>inbuf tls'. take (length fin) inbuf = fin \<Longrightarrow> length fin \<le> length inbuf \<Longrightarrow>
      (\<exists>b off. tls' = ?t\<lparr>tls_inbuf := inbuf, tls_buffered_size := b, tls_ofs_to_buffered := off\<rparr>) \<Longrightarrow>
      tls_decrypt env tls' inbuf (length fin - RECHDR_LEN) = Inr (mem_write inbuf 5 p, int n)"
    by (simp_all add: decrypts_def)
  obtain tls2 inp2 where x: "tls_xread_record env ?t inp1 =
       (case tls_dispatch env tls2 (int n) of
          Inl e \<Rightarrow> Inl e
        | Inr (tls', Return sz) \<Rightarrow> Inr (tls', sz, inp2)
        | Inr (tls', Again) \<Rightarrow> tls_xread_record env tls' inp2)"
    "tls_inbuf tls2 ! 0 = fin ! 0" "mem_read (tls_inbuf tls2) 5 n = take n p" "stream tls2 inp2 = rest" "inbuf_ok tls2" "good_input inp2"
    "tls_hsd tls2 = tls_hsd ?t" "\<exists>b n off. tls2 = ?t\<lparr>tls_inbuf := b, tls_buffered_size := n, tls_ofs_to_buffered := off\<rparr>"
    by (rule tls_xread_decrypted [OF t(1) 1(3) t(2) d'(1,2) dec d'(3,4)])
  obtain b2 m2 off2 where t2: "tls2 = ?t\<lparr>tls_inbuf := b2, tls_buffered_size := m2, tls_ofs_to_buffered := off2\<rparr>" using x(8) by blast
  have "tls_hsd tls2 \<noteq> None" using hsd by (simp add: t2 switch_read_def)
  then obtain ctx where h: "hash_handshake env tls2 (mem_read (tls_inbuf tls2) RECHDR_LEN n) = Some (tls2\<lparr>tls_hsd := Some ctx\<rparr>)"
    by (auto simp: hash_handshake_def)
  have disp: "tls_dispatch env tls2 (int n) = Inr (tls2\<lparr>tls_hsd := Some ctx\<rparr>, Return n)"
    using x(2) fin(2) h by (simp add: tls_dispatch_def Let_def RECORD_TYPE_ALERT_def RECORD_TYPE_HANDSHAKE_def)
  have "tls_inbuf tls2 ! 5 = mem_read (tls_inbuf tls2) 5 n ! 0"
  proof -
    have "length (mem_read (tls_inbuf tls2) 5 n) = n" using x(3) d'(4) by simp
    then have "5 + n \<le> length (tls_inbuf tls2)" using msg(1) by (simp add: mem_read_def)
    then show ?thesis using msg(1) by (simp add: mem_read_def)
  qed
  then have first: "tls_inbuf tls2 ! 5 = HANDSHAKE_FINISHED" using x(3) msg d'(4) by simp
  let ?cn = "cn\<lparr>cn_tls := tls2\<lparr>tls_hsd := None\<rparr>\<rparr>"
  have s: "(cn_tls cn)\<lparr>tls_inbuf := b, tls_buffered_size := m, tls_ofs_to_buffered := off,
      tls_min_encrypted_len_on_read := min_encrypted_len env ((cn_tls cn)\<lparr>tls_inbuf := b, tls_buffered_size := m, tls_ofs_to_buffered := off\<rparr>)\<rparr> = ?t"
    by (simp add: switch_read_def min_encrypted_len_def TLS_MAC_SIZE_def)
  show ?thesis
  proof (rule that [of ?cn inp2])
    show "read_server_finished env cn inp = Inr (?cn, inp2)"
      using 1(1,2) x(1) disp first msg(1) unfolding read_server_finished_def
      by (simp add: Let_def s RECHDR_LEN_def)
    show "core ?cn = core (switch_read env cn)" by (simp add: core_def t2 switch_read_def)
  qed (use x in \<open>simp_all add: inbuf_ok_def stream_def\<close>)
qed

section \<open>The whole handshake\<close>

text \<open>What the client relies on of its random bytes.\<close>

definition hs_env_ok :: "hs_env \<Rightarrow> bool" where
  "hs_env_ok he \<longleftrightarrow> length (he_rand32 he) = 32 \<and> length (he_rsa_premaster he) = 48 \<and> length (he_ec_random he) = 32 \<and> length (he_iv he) = 16"

text \<open>The client's key exchange message and the premaster secret, from what the server sent.\<close>

definition client_kx :: "hs_env \<Rightarrow> server_kx option \<Rightarrow> (byte list \<times> byte list) option \<Rightarrow> bool \<Rightarrow> byte list \<times> byte list" where
  "client_kx he kx key ecdhe =
     (if \<not> ecdhe
      then let enc = (case key of None \<Rightarrow> [] | Some k \<Rightarrow> rsa_encrypted (he_rsa_pad he) k (rsa_premaster he))
           in (be16 (length enc) @ enc, rsa_premaster he)
      else case kx of
             Some (X25519_kx pub sig) \<Rightarrow>
               let (pubkey, premaster) = curve_x25519_compute_pubkey_and_premaster (he_ec_random he) pub in (32 # pubkey, premaster)
           | Some (P256_kx pub sig) \<Rightarrow> let (pubkey, premaster) = curve_P256_compute_pubkey_and_premaster (he_ec_random he) pub in (65 # 4 # pubkey, premaster)
           | None \<Rightarrow> ([], []))"

text \<open>The record in which the server protects \<open>content\<close>, with any MAC or tag.\<close>

definition server_sealed :: "bool \<Rightarrow> nat \<Rightarrow> key_material \<Rightarrow> byte list \<Rightarrow> byte list \<Rightarrow> bool" where
  "server_sealed gcm M km content r \<longleftrightarrow>
     (if gcm
      then \<exists>expl tag. length expl = 8 \<and> length tag = 16 \<and> length content + 24 \<le> 16384 + 2048
             \<and> r = record_hdr RECORD_TYPE_HANDSHAKE (length content + 24) @ expl
                 @ map2 (XOR) content (gcm_keystream (km_server_key km) (km_server_IV km @ expl) 1 (length content)) @ tag
      else \<exists>iv mac ct. length iv = 16 \<and> length mac = M \<and> aes_cbc_encrypt (aes_setkey (km_server_key km)) iv (cbc_plain content mac) = Some ct
             \<and> 16 + length ct \<le> 16384 + 2048 \<and> r = record_hdr RECORD_TYPE_HANDSHAKE (16 + length ct) @ iv @ ct)"

lemma length_gcm_keystream:
  "length key \<in> {16, 24, 32} \<Longrightarrow> length nonce = 12 \<Longrightarrow> length (gcm_keystream key nonce cnt n) = 16 * n"
  by (simp add: gcm_keystream_def length_concat comp_def length_aes_block length_nonce_block sum_list_triv)

lemma sealed_decrypts:
  assumes s: "session env cn km" and gcm: "(tls_flags (cn_tls cn) AND ENCRYPTION_AESGCM \<noteq> 0) = gcm"
    and M: "\<not> gcm \<Longrightarrow> TLS_MAC_SIZE env (cn_tls cn) = M" and fin: "server_sealed gcm M km content fin" and ne: "content \<noteq> []"
  obtains p where "decrypts env (cn_tls cn) fin p (length content)" and "p ! 0 = content ! 0" and "fin ! 0 = RECORD_TYPE_HANDSHAKE"
proof (cases gcm)
  case True
  obtain expl tag where f: "length expl = 8" "length tag = 16" "length content + 24 \<le> 16384 + 2048"
    "fin = record_hdr RECORD_TYPE_HANDSHAKE (length content + 24) @ expl
       @ map2 (XOR) content (gcm_keystream (km_server_key km) (km_server_IV km @ expl) 1 (length content)) @ tag"
    using fin True by (auto simp: server_sealed_def)
  have r: "gcm_reader (cn_tls cn) (km_server_key km)" "tls_server_write_IV (cn_tls cn) = km_server_IV km"
    using s gcm True by (simp_all add: session_def Let_def)
  have iv: "length (km_server_IV km) = 4" "length (km_server_key km) \<in> {16, 24, 32}" using r by (simp_all add: gcm_reader_def)
  let ?ct = "map2 (XOR) content (gcm_keystream (km_server_key km) (km_server_IV km @ expl) 1 (length content))"
  have ct: "?ct = map2 (XOR) content (gcm_keystream (km_server_key km) (take 4 (tls_server_write_IV (cn_tls cn)) @ expl) 1 (length content))"
    "length ?ct = length content"
    using r(2) iv f(1) length_gcm_keystream [OF iv(2), of "km_server_IV km @ expl" 1 "length content"] by simp_all
  have "length content \<le> 16 * length content" by simp
  from gcm_decrypts [OF f(1,2) this r(1) ct f(3)] show ?thesis
    using that [of content] by (simp add: f(4) record_hdr_def)
next
  case False
  obtain iv mac ct where f: "length iv = 16" "length mac = M" "aes_cbc_encrypt (aes_setkey (km_server_key km)) iv (cbc_plain content mac) = Some ct"
    "16 + length ct \<le> 16384 + 2048" "fin = record_hdr RECORD_TYPE_HANDSHAKE (16 + length ct) @ iv @ ct"
    using fin False by (auto simp: server_sealed_def)
  have r: "cbc_reader env (cn_tls cn) (km_server_key km)" using s gcm False by (simp add: session_def Let_def)
  have m: "length mac = TLS_MAC_SIZE env (cn_tls cn)" using M [OF False] f(2) by simp
  from cbc_decrypts [OF f(1) r m f(3,4)] show ?thesis
    using that [of "cbc_plain content mac"] ne by (simp add: f(5) record_hdr_def cbc_plain_def Let_def nth_append)
qed

lemma session_core: "core cn' = core cn \<Longrightarrow> session env cn' km = session env cn km"
  by (drule core_eq, erule ssubst)
    (simp add: session_def Let_def cbc_ready_def cbc_reader_def gcm_ready_def gcm_reader_def cbc_min_def TLS_MAC_SIZE_def)

lemma or_and_self: "(f OR k) AND k = (k :: u32)" by (rule bit_word_eqI) (auto simp: bit_simps)

lemma flags_after:
  assumes "bits = 0 \<or> bits = GOT_CERT_RSA_KEY_ALG"
  shows "(f OR bits) AND NEED_EC_KEY = f AND NEED_EC_KEY" "(f OR bits) AND ENCRYPTION_AESGCM = f AND ENCRYPTION_AESGCM"
    "(f OR bits) AND ENCRYPT_ON_WRITE = f AND ENCRYPT_ON_WRITE" "(f OR bits) AND GOT_EC_CURVE_X25519 = f AND GOT_EC_CURVE_X25519"
  using assms by (auto simp: flag_bits bit.conj_disj_distrib2)

lemma flags_ec:
  "(f OR GOT_EC_CURVE_X25519) AND NEED_EC_KEY = f AND NEED_EC_KEY"
  "(f OR GOT_EC_CURVE_X25519) AND ENCRYPTION_AESGCM = f AND ENCRYPTION_AESGCM"
  "(f OR GOT_EC_CURVE_X25519) AND ENCRYPT_ON_WRITE = f AND ENCRYPT_ON_WRITE"
  "GOT_EC_CURVE_X25519 \<noteq> 0"
  "(f OR GOT_EC_KEY) AND NEED_EC_KEY = f AND NEED_EC_KEY"
  "(f OR GOT_EC_KEY) AND ENCRYPTION_AESGCM = f AND ENCRYPTION_AESGCM"
  "(f OR GOT_EC_KEY) AND ENCRYPT_ON_WRITE = f AND ENCRYPT_ON_WRITE"
  "GOT_EC_KEY \<noteq> 0"
  "(f OR GOT_EC_KEY) AND GOT_EC_CURVE_X25519 = f AND GOT_EC_CURVE_X25519"
  by (simp_all add: flag_bits bit.conj_disj_distrib2)

text \<open>What the client has agreed to after the flight.\<close>

lemma select_cipher_rest:
  "tls_flags (cn_tls cn) = 0 \<Longrightarrow> tls_flags (cn_tls (select_cipher env c0 c1 cn)) AND ENCRYPT_ON_WRITE = 0"
  "tls_flags (cn_tls cn) = 0 \<Longrightarrow> tls_flags (cn_tls (select_cipher env c0 c1 cn)) AND GOT_EC_CURVE_X25519 = 0"
  "cn_rand32 (select_cipher env c0 c1 cn) = cn_rand32 cn" "cn_ecc_pub_key32 (select_cipher env c0 c1 cn) = cn_ecc_pub_key32 cn"
  "cn_rsa_key (select_cipher env c0 c1 cn) = cn_rsa_key cn"
  "tls_client_write_MAC_key (cn_tls (select_cipher env c0 c1 cn)) = tls_client_write_MAC_key (cn_tls cn)"
  "tls_write_seq64_be (cn_tls (select_cipher env c0 c1 cn)) = tls_write_seq64_be (cn_tls cn)"
  "tls_sent (cn_tls (select_cipher env c0 c1 cn)) = tls_sent (cn_tls cn)"
  by (simp_all add: select_cipher_def Let_def flag_bits split: if_splits)

lemma after_flight_agreed:
  assumes fl: "fl_good fl" "(fst (fl_suite fl), snd (fl_suite fl), ecdhe, K, M, gcm) \<in> set (suites env)"
    and bits: "bits = 0 \<or> bits = GOT_CERT_RSA_KEY_ALG" and kx: "if ecdhe then fl_kx fl \<noteq> None else bits = GOT_CERT_RSA_KEY_ALG \<and> rsa_ready (he_rsa_pad he) key 4096 (rsa_premaster he)"
    and cn: "tls_flags (cn_tls cn) = 0" "cn_IV_size cn = 0" "cn_rand32 cn = crand @ replicate 32 0" "length crand = 32"
      "cn_rsa_key cn = None" "cn_ecc_pub_key32 cn = replicate 64 0" and he: "hs_env_ok he"
    and after: "cn' = after_flight env fl bits key cn"
  shows "has_suite cn' ecdhe K M gcm" and "tls_flags (cn_tls cn') AND ENCRYPT_ON_WRITE = 0" and "kx_ready he cn'"
    and "kx_message he cn' = client_kx he (fl_kx fl) key ecdhe" and "cn_rand32 cn' = crand @ fl_rand fl"
    and "tls_client_write_MAC_key (cn_tls cn') = tls_client_write_MAC_key (cn_tls cn)"
    and "tls_write_seq64_be (cn_tls cn') = tls_write_seq64_be (cn_tls cn)" and "tls_sent (cn_tls cn') = tls_sent (cn_tls cn)"
proof -
  let ?cn0 = "cn\<lparr>cn_rand32 := mem_write (cn_rand32 cn) 32 (fl_rand fl)\<rparr>"
  define cn1 where "cn1 = select_cipher env (fst (fl_suite fl)) (snd (fl_suite fl)) ?cn0"
  define cn2 where "cn2 = with_cert bits key cn1"
  have e: "cn' = take_kx (fl_kx fl) cn2" by (simp add: after after_flight_def cn2_def cn1_def)
  have rand: "cn_rand32 ?cn0 = crand @ fl_rand fl" using cn fl(1) by (simp add: mem_write_def fl_good_def)
  have s1: "has_suite cn1 ecdhe K M gcm" unfolding cn1_def by (rule select_cipher_suite(1) [OF fl(2)]) (use cn in simp_all)
  have r1: "cn_rand32 cn1 = crand @ fl_rand fl" "cn_ecc_pub_key32 cn1 = replicate 64 0" "cn_rsa_key cn1 = None"
    "tls_flags (cn_tls cn1) AND ENCRYPT_ON_WRITE = 0" "tls_flags (cn_tls cn1) AND GOT_EC_CURVE_X25519 = 0"
    using rand cn by (simp_all add: cn1_def select_cipher_rest)
  have s2: "has_suite cn2 ecdhe K M gcm" using s1 bits by (simp add: cn2_def with_cert_def has_suite_def flags_after)
  have r2: "cn_rand32 cn2 = crand @ fl_rand fl" "cn_ecc_pub_key32 cn2 = replicate 64 0" "cn_rsa_key cn2 = key"
    "tls_flags (cn_tls cn2) AND ENCRYPT_ON_WRITE = 0" "tls_flags (cn_tls cn2) AND GOT_EC_CURVE_X25519 = 0"
    "bits = GOT_CERT_RSA_KEY_ALG \<Longrightarrow> tls_flags (cn_tls cn2) AND GOT_CERT_RSA_KEY_ALG \<noteq> 0"
    using r1 bits by (simp_all add: cn2_def with_cert_def flags_after or_and_self flag_bits(3) split: option.splits)
  have need: "(tls_flags (cn_tls cn2) AND NEED_EC_KEY \<noteq> 0) = ecdhe" using s2 by (simp add: has_suite_def)
  have same: "tls_client_write_MAC_key (cn_tls cn2) = tls_client_write_MAC_key (cn_tls cn)"
    "tls_write_seq64_be (cn_tls cn2) = tls_write_seq64_be (cn_tls cn)" "tls_sent (cn_tls cn2) = tls_sent (cn_tls cn)"
    by (simp_all add: cn2_def cn1_def with_cert_def select_cipher_rest)
  have gk: "case fl_kx fl of None \<Rightarrow> True | Some kx \<Rightarrow> kx_good kx" using fl(1) by (simp add: fl_good_def)
  note he' = he [unfolded hs_env_ok_def]
  have main: "has_suite cn' ecdhe K M gcm \<and> tls_flags (cn_tls cn') AND ENCRYPT_ON_WRITE = 0 \<and> kx_ready he cn'
    \<and> kx_message he cn' = client_kx he (fl_kx fl) key ecdhe \<and> cn_rand32 cn' = crand @ fl_rand fl
    \<and> tls_client_write_MAC_key (cn_tls cn') = tls_client_write_MAC_key (cn_tls cn)
    \<and> tls_write_seq64_be (cn_tls cn') = tls_write_seq64_be (cn_tls cn) \<and> tls_sent (cn_tls cn') = tls_sent (cn_tls cn)"
  proof (cases ecdhe)
    case False
    then have "cn' = cn2" using need by (simp add: e take_kx_def split: option.splits)
    then show ?thesis using s2 r2 same need False kx he'
      by (simp add: kx_ready_def kx_message_def client_kx_def Let_def)
  next
    case True
    obtain k where k: "fl_kx fl = Some k" using kx True by auto
    have cn': "cn' = with_kx k cn2" using need True by (simp add: e take_kx_def k)
    show ?thesis
    proof (cases k)
      case (X25519_kx pub sig)
      then show ?thesis using s2 r2 same need True gk he'
        by (simp add: cn' k has_suite_def kx_ready_def kx_message_def client_kx_def Let_def flags_ec or_and_self mem_write_def)
    next
      case (P256_kx pub sig)
      then show ?thesis using s2 r2 same need True gk he'
        by (simp add: cn' k has_suite_def kx_ready_def kx_message_def client_kx_def Let_def flags_ec or_and_self mem_write_def)
    qed
  qed
  then show "has_suite cn' ecdhe K M gcm" and "tls_flags (cn_tls cn') AND ENCRYPT_ON_WRITE = 0" and "kx_ready he cn'"
    and "kx_message he cn' = client_kx he (fl_kx fl) key ecdhe" and "cn_rand32 cn' = crand @ fl_rand fl"
    and "tls_client_write_MAC_key (cn_tls cn') = tls_client_write_MAC_key (cn_tls cn)"
    and "tls_write_seq64_be (cn_tls cn') = tls_write_seq64_be (cn_tls cn)" and "tls_sent (cn_tls cn') = tls_sent (cn_tls cn)"
    by simp_all
qed

lemma client_kx_lengths:
  assumes he: "hs_env_ok he" and kx: "client_kx he kx key ecdhe = (body, premaster)" "case kx of None \<Rightarrow> True | Some k \<Rightarrow> kx_good k"
    "\<not> ecdhe \<Longrightarrow> rsa_ready (he_rsa_pad he) key 4096 (rsa_premaster he)"
  shows "length body \<le> 2 + 4 * 1024" and "length premaster \<le> 64"
proof -
  note h = he [unfolded hs_env_ok_def]
  have x: "length pubkey = 32" "length pm = 32" if "curve_x25519_compute_pubkey_and_premaster (he_ec_random he) pub = (pubkey, pm)" "length pub = 32" for pub pubkey pm
    using x25519_lengths [of "he_ec_random he" pub] h that by auto
  have y: "length pubkey = 64" "length pm = 32" if "curve_P256_compute_pubkey_and_premaster (he_ec_random he) pub = (pubkey, pm)" for pub pubkey pm
    using P256_lengths [of "he_ec_random he" pub] h that by auto
  have z: "length (rsa_encrypted (he_rsa_pad he) k (rsa_premaster he)) \<le> 4 * 1024" if "\<not> ecdhe" "key = Some k" for k
    using psRsaEncryptPub_fits [of "he_rsa_pad he" k "replicate (4 * 1024) 0" "rsa_premaster he"] kx(3) that by simp
  show "length body \<le> 2 + 4 * 1024" "length premaster \<le> 64"
    using kx(1,2) h x y z by (auto simp: rsa_premaster_def client_kx_def Let_def split: if_splits option.splits server_kx.splits prod.splits)
qed

lemma handshake_done:
  assumes env: "hash_env env M" "\<not> te_allow_null env" "hs_env_ok he"
    and fl: "fl_good fl" "(fst (fl_suite fl), snd (fl_suite fl), ecdhe, K, M, gcm) \<in> set (suites env)"
    and cert: "cert_gives (fl_der fl) bits key" "bits = 0 \<or> bits = GOT_CERT_RSA_KEY_ALG"
    and kx: "if ecdhe then fl_kx fl \<noteq> None else bits = GOT_CERT_RSA_KEY_ALG \<and> rsa_ready (he_rsa_pad he) key 4096 (rsa_premaster he)" "client_kx he (fl_kx fl) key ecdhe = (body, premaster)"
    and km: "km = key_material M K (if gcm then 4 else 0) premaster (he_rand32 he) (fl_rand fl)"
    and fin: "server_sealed gcm M km content fin" "4 \<le> length content" "content ! 0 = HANDSHAKE_FINISHED"
    and inp: "good_input inp" "input_bytes inp = fl_bytes fl @ rec_CHANGE_CIPHER_SPEC @ fin @ rest"
    and hello: "hello = hs_msg HANDSHAKE_CLIENT_HELLO (client_hello_body env (he_rand32 he) sni)"
    and ms: "ms = cert_msgs (fl_request fl \<noteq> None) @ [hs_msg HANDSHAKE_CLIENT_KEY_EXCHANGE body]"
  shows "\<exists>cn inp' r. tls_handshake env he sni new_tls_state inp = Inr (cn, inp')
    \<and> session env cn km \<and> tls_hsd (cn_tls cn) = None
    \<and> tls_sent (cn_tls cn) = map hs_record (hello # ms) @ [rec_CHANGE_CIPHER_SPEC, r]
    \<and> sealed env ((cn_tls cn)\<lparr>tls_write_seq64_be := 0\<rparr>) (km_client_key km) (he_iv he) RECORD_TYPE_HANDSHAKE
        (hs_msg HANDSHAKE_FINISHED (verify_data (master_secret premaster (he_rand32 he) (fl_rand fl))
          (hello @ concat (fl_msgs fl) @ concat ms))) r
    \<and> inbuf_ok (cn_tls cn) \<and> good_input inp' \<and> stream (cn_tls cn) inp' = rest"
proof -
  have ni: "sha256_shaNI_ok (te_target env)" and r32: "length (he_rand32 he) = 32" and iv: "length (he_iv he) = 16"
    using env by (simp_all add: hash_env_def hs_env_ok_def)
  have z: "tls_flags (cn_tls new_tls_state) AND ENCRYPT_ON_WRITE = 0" by (simp add: new_tls_state_def)
  obtain ob ctx where 1: "send_client_hello_and_alloc_hsd env he sni new_tls_state = Inr (new_tls_state\<lparr>
      cn_tls := (cn_tls new_tls_state)\<lparr>tls_outbuf := ob, tls_sent := tls_sent (cn_tls new_tls_state) @ [hs_record hello], tls_hsd := Some ctx\<rparr>,
      cn_rand32 := he_rand32 he @ replicate 32 0, cn_master_secret := replicate 48 0,
      cn_rsa_key := None, cn_ecc_pub_key32 := replicate 64 0\<rparr>)" "sha256_rep (te_target env) hello ctx"
    by (rule client_hello_sent [OF ni r32 z hello])
  define cn1 where "cn1 = new_tls_state\<lparr>
      cn_tls := (cn_tls new_tls_state)\<lparr>tls_outbuf := ob, tls_sent := tls_sent (cn_tls new_tls_state) @ [hs_record hello], tls_hsd := Some ctx\<rparr>,
      cn_rand32 := he_rand32 he @ replicate 32 0, cn_master_secret := replicate 48 0,
      cn_rsa_key := None, cn_ecc_pub_key32 := replicate 64 0\<rparr>"
  have f1: "tls_flags (cn_tls cn1) = 0" "cn_IV_size cn1 = 0" "cn_rand32 cn1 = he_rand32 he @ replicate 32 0"
    "cn_rsa_key cn1 = None" "cn_ecc_pub_key32 cn1 = replicate 64 0" "tls_sent (cn_tls cn1) = [hs_record hello]"
    "tls_write_seq64_be (cn_tls cn1) = 0" "length (tls_client_write_MAC_key (cn_tls cn1)) = 32"
    by (simp_all add: cn1_def new_tls_state_def)
  have "awaits env cn1 hello inp (fl_bytes fl @ rec_CHANGE_CIPHER_SPEC @ fin @ rest)"
    using inp 1(2) by (simp add: awaits_def transcript_def inbuf_ok_def stream_def cn1_def new_tls_state_def mem_read_def)
  then obtain cn2 inp2 where 2: "read_server_flight env cn1 inp = Inr (cn2, fl_request fl \<noteq> None, inp2)"
    "core cn2 = core (after_flight env fl bits key cn1)" "awaits env cn2 (hello @ concat (fl_msgs fl)) inp2 (rec_CHANGE_CIPHER_SPEC @ fin @ rest)"
    by (rule server_flight_read [OF _ fl(1) cert(1)])
  note a = after_flight_agreed [OF fl cert(2) kx(1) f1(1-3) r32 f1(4,5) env(3) refl]
  have c: "cn_rand32 cn2 = he_rand32 he @ fl_rand fl" "tls_sent (cn_tls cn2) = [hs_record hello]" "tls_write_seq64_be (cn_tls cn2) = 0"
    "length (tls_client_write_MAC_key (cn_tls cn2)) = 32" "tls_flags (cn_tls cn2) AND ENCRYPT_ON_WRITE = 0"
    using a(2,5-8) f1(6-8) by (subst core_eq [OF 2(2)], simp)+
  have suite: "has_suite cn2 ecdhe K M gcm" and ready: "kx_ready he cn2"
    using a(1,3) by (subst core_eq [OF 2(2)], simp add: has_suite_def kx_ready_def)+
  have kxm: "kx_message he cn2 = (body, premaster)"
    unfolding kx(2) [symmetric] a(4) [symmetric] by (subst core_eq [OF 2(2)]) (simp add: kx_message_def Let_def)
  have gk: "case fl_kx fl of None \<Rightarrow> True | Some k \<Rightarrow> kx_good k" "length (fl_rand fl) = 32" using fl(1) by (simp_all add: fl_good_def)
  have rsa: "rsa_ready (he_rsa_pad he) key 4096 (rsa_premaster he)" if "\<not> ecdhe" using kx(1) that by simp
  note small = client_kx_lengths [OF env(3) kx(2) gk(1) rsa]
  have aw2: "transcript env (cn_tls cn2) (hello @ concat (fl_msgs fl))" "inbuf_ok (cn_tls cn2)" "good_input inp2"
    "stream (cn_tls cn2) inp2 = rec_CHANGE_CIPHER_SPEC @ fin @ rest" "tls_min_encrypted_len_on_read (cn_tls cn2) = 0"
    using 2(3) by (simp_all add: awaits_def)
  obtain cn3 r where 3: "send_client_flight env he (fl_request fl \<noteq> None) cn2 = Inr cn3"
    "tls_sent (cn_tls cn3) = tls_sent (cn_tls cn2) @ map hs_record ms @ [rec_CHANGE_CIPHER_SPEC, r]"
    "sealed env ((cn_tls cn3)\<lparr>tls_write_seq64_be := tls_write_seq64_be (cn_tls cn2)\<rparr>) (km_client_key km) (he_iv he) RECORD_TYPE_HANDSHAKE
      (hs_msg HANDSHAKE_FINISHED (verify_data (master_secret premaster (he_rand32 he) (fl_rand fl)) ((hello @ concat (fl_msgs fl)) @ concat ms))) r"
    "session env (switch_read env cn3) km" "same_input cn2 cn3"
    "tls_MAC_size (cn_tls cn3) = M" "(tls_flags (cn_tls cn3) AND ENCRYPTION_AESGCM \<noteq> 0) = gcm"
    by (rule client_flight_sent [OF env(1,2) fl(2) suite aw2(1) c(5) ready kxm small c(4) iv c(1) r32 gk(2) km ms])
  have g: "(tls_flags (cn_tls (switch_read env cn3)) AND ENCRYPTION_AESGCM \<noteq> 0) = gcm" using 3(7) by (simp add: switch_read_def)
  have m: "TLS_MAC_SIZE env (cn_tls (switch_read env cn3)) = M" if "\<not> gcm"
    using suite_shape(2) [OF fl(2)] that 3(6) by (auto simp: TLS_MAC_SIZE_def switch_read_def)
  have ne: "content \<noteq> []" using fin(2) by auto
  obtain p where p: "decrypts env (cn_tls (switch_read env cn3)) fin p (length content)" "p ! 0 = content ! 0" "fin ! 0 = RECORD_TYPE_HANDSHAKE"
    by (rule sealed_decrypts [OF 3(4) g m fin(1) ne])
  have aw3: "inbuf_ok (cn_tls cn3)" "stream (cn_tls cn3) inp2 = rec_CHANGE_CIPHER_SPEC @ fin @ rest"
    "tls_min_encrypted_len_on_read (cn_tls cn3) = 0" "tls_hsd (cn_tls cn3) \<noteq> None"
    using 3(5) aw2 by (simp_all add: same_input_def inbuf_ok_def stream_def)
  have pf: "p ! 0 = HANDSHAKE_FINISHED" using p(2) fin(3) by simp
  obtain cn4 inp4 where 4: "read_server_finished env cn3 inp2 = Inr (cn4, inp4)" "core cn4 = core (switch_read env cn3)"
    "tls_hsd (cn_tls cn4) = None" "inbuf_ok (cn_tls cn4)" "good_input inp4" "stream (cn_tls cn4) inp4 = rest"
    by (rule server_finished_read [OF aw3(1) aw2(3) aw3(2-4) p(1,3) fin(2) pf])
  have run: "tls_handshake env he sni new_tls_state inp = Inr (cn4, inp4)"
    unfolding tls_handshake_def 1(1) hs_bind.simps cn1_def [symmetric] 2(1) prod.case 3(1) 4(1) ..
  have s4: "session env cn4 km" using 3(4) session_core [OF 4(2)] by simp
  have t4: "tls_sent (cn_tls cn4) = tls_sent (cn_tls cn3)"
    by (subst core_eq [OF 4(2)]) (simp add: switch_read_def)
  have "sealed env ((cn_tls cn4)\<lparr>tls_write_seq64_be := 0\<rparr>) k v t m rr = sealed env ((cn_tls cn3)\<lparr>tls_write_seq64_be := 0\<rparr>) k v t m rr" for k v t m rr
    by (rule sealed_cong; subst core_eq [OF 4(2)]; simp add: switch_read_def)
  then show ?thesis using run s4 t4 3(2,3) c(2,3) 4(3-6) by auto
qed

lemma rsa_cert_gives:
  assumes "der = certificate (tbs_body version flds (rsa_spki N e) exts) sig_fields" and "length der < 65536"
    and "length flds = 5" and "fst (hd flds) \<noteq> 0xa0" and "9 \<le> length N"
  shows "cert_gives der GOT_CERT_RSA_KEY_ALG (Some (N, e))"
proof -
  have "der \<noteq> []" by (simp add: assms(1) certificate_def der_item_def)
  moreover have "find_key_in_der_cert mem pos (length der) flags = Ok (flags OR GOT_CERT_RSA_KEY_ALG, Some (N, e))"
    if "at_pos mem pos der" for mem pos flags
    by (rule find_key_item [OF that [unfolded assms(1)] _ assms(2-5)]) (simp add: assms(1))
  ultimately show ?thesis by (simp add: cert_gives_def)
qed

section \<open>Properties\<close>

text \<open>C1: The handshake completes: whatever server name and random bytes the client has, if the server sends
  its flight with one handshake message in each record (hello with an offered suite, certificates, a key on a curve when the suite
  needs one or an RSA certificate when it does not, perhaps a request for a certificate, the end),
  its \<^verbatim>\<open>ChangeCipherSpec\<close> and a protected message of type \<^verbatim>\<open>Finished\<close>, cut into packets in any way,
  then \<^verbatim>\<open>tls_handshake\<close> returns. It has sent, in this order, its hello, an empty certificate if it was
  asked for one, the key exchange, the change of cipher and its \<^verbatim>\<open>Finished\<close>, whose verify data is the
  one of RFC 5246 over all messages sent and received; the connection uses the RFC's key material in
  both directions, and what follows in the stream is kept. The content of the server's \<^verbatim>\<open>Finished\<close>
  and its MAC do not matter. Its scope: records that hold several messages or a part of one, which RFC 5246 also allows,
  are not covered, because the code takes every record as one message; the session id of the
  server has 0 or 32 bytes, its hello less than 256 and each message at most 18432 (\<open>fl_good\<close>); for a suite with
  HMAC-SHA-1 the processor has no SHA instructions (\<open>hash_env\<close>); and for an RSA key exchange the certificate's
  key and the padding are such that the code encrypts correctly (\<open>rsa_ready\<close>).\<close>

theorem handshake_completes:
  assumes "hash_env env M" and "\<not> te_allow_null env" and "hs_env_ok he"
    and "fl_good fl" and "(fst (fl_suite fl), snd (fl_suite fl), ecdhe, K, M, gcm) \<in> set (suites env)"
    and "cert_gives (fl_der fl) bits key" and "bits = 0 \<or> bits = GOT_CERT_RSA_KEY_ALG"
    and "if ecdhe then fl_kx fl \<noteq> None else bits = GOT_CERT_RSA_KEY_ALG \<and> rsa_ready (he_rsa_pad he) key 4096 (rsa_premaster he)"
    and "client_kx he (fl_kx fl) key ecdhe = (body, premaster)"
    and "km = key_material M K (if gcm then 4 else 0) premaster (he_rand32 he) (fl_rand fl)"
    and "server_sealed gcm M km content fin" and "4 \<le> length content" and "content ! 0 = HANDSHAKE_FINISHED"
    and "good_input inp" and "input_bytes inp = fl_bytes fl @ rec_CHANGE_CIPHER_SPEC @ fin @ rest"
    and "hello = hs_msg HANDSHAKE_CLIENT_HELLO (client_hello_body env (he_rand32 he) sni)"
    and "ms = cert_msgs (fl_request fl \<noteq> None) @ [hs_msg HANDSHAKE_CLIENT_KEY_EXCHANGE body]"
  shows "\<exists>cn inp' r. tls_handshake env he sni new_tls_state inp = Inr (cn, inp')
    \<and> session env cn km \<and> tls_hsd (cn_tls cn) = None
    \<and> tls_sent (cn_tls cn) = map hs_record (hello # ms) @ [rec_CHANGE_CIPHER_SPEC, r]
    \<and> sealed env ((cn_tls cn)\<lparr>tls_write_seq64_be := 0\<rparr>) (km_client_key km) (he_iv he) RECORD_TYPE_HANDSHAKE
        (hs_msg HANDSHAKE_FINISHED (verify_data (master_secret premaster (he_rand32 he) (fl_rand fl))
          (hello @ concat (fl_msgs fl) @ concat ms))) r
    \<and> inbuf_ok (cn_tls cn) \<and> good_input inp' \<and> stream (cn_tls cn) inp' = rest"
  by (rule handshake_done [OF assms])

definition demo_he :: hs_env where
  "demo_he = \<lparr>he_rand32 = replicate 32 1, he_rsa_premaster = replicate 48 2, he_ec_random = replicate 32 3, he_iv = replicate 16 4,
     he_rsa_pad = (\<lambda>n. replicate n 6)\<rparr>"

definition demo_der :: "byte list" where
  "demo_der = certificate (tbs_body (Some [2, 1, 2]) demo_fields (rsa_spki (replicate 200 9) [1, 0, 1]) []) []"

definition demo_flight :: flight where
  "demo_flight = \<lparr>fl_rand = replicate 32 5, fl_sid = [], fl_suite = (0xC0, 0x13), fl_exts = [], fl_der = demo_der, fl_others = [],
     fl_kx = Some (X25519_kx (replicate 32 9) []), fl_request = Some [1, 1]\<rparr>"

lemma length_demo_der: "length demo_der < 1000"
  by (simp add: demo_der_def certificate_def tbs_body_def rsa_spki_def der_item_def der_length_def demo_fields_def OID_RSA_KEY_ALG_def)

lemma demo_flight_good: "fl_good demo_flight"
  using length_demo_der
  by (simp add: fl_good_def demo_flight_def fl_hello_body_def server_hello_body_def fl_msgs_def certificate_body_def x25519_kx_body_def)

lemma demo_session_env: "hash_env demo_env M" "\<not> te_allow_null demo_env" "hs_env_ok demo_he"
  by (simp_all add: hash_env_def demo_env_def demo_target_ok raw_demo_pre hs_env_ok_def demo_he_def min_le_iff_disj)

theorem handshake_completes_witness:
  "\<exists>inp cn inp'. tls_handshake demo_env demo_he [119, 119, 119] new_tls_state inp = Inr (cn, inp') \<and> length (tls_sent (cn_tls cn)) = 5"
proof -
  obtain body premaster where kx: "client_kx demo_he (fl_kx demo_flight) (Some (replicate 200 9, [1, 0, 1])) True = (body, premaster)"
    by (meson prod.exhaust)
  define km where "km = key_material 20 16 (if False then 4 else 0) premaster (he_rand32 demo_he) (fl_rand demo_flight)"
  let ?content = "hs_msg HANDSHAKE_FINISHED (replicate 12 0)" and ?iv = "replicate 16 (0 :: byte)" and ?mac = "replicate 20 (0 :: byte)"
  have key: "length (km_server_key km) \<in> {16, 24, 32}" by (simp add: km_def key_material_lengths)
  obtain ct where ct: "aes_cbc_encrypt (aes_setkey (km_server_key km)) ?iv (cbc_plain ?content ?mac) = Some ct" "length ct = length (cbc_plain ?content ?mac)"
    using cbc_total [OF key _ length_cbc_plain, of ?iv ?content ?mac] by auto
  define fin where "fin = record_hdr RECORD_TYPE_HANDSHAKE (16 + length ct) @ ?iv @ ct"
  have fin: "server_sealed False 20 km ?content fin"
    unfolding server_sealed_def if_False fin_def by (intro exI [of _ ?iv] exI [of _ ?mac] exI [of _ ct]) (use ct in \<open>simp add: cbc_plain_def\<close>)
  let ?inp = "bytewise (fl_bytes demo_flight @ rec_CHANGE_CIPHER_SPEC @ fin)"
  have suite: "(fst (fl_suite demo_flight), snd (fl_suite demo_flight), True, 16, 20, False) \<in> set (suites demo_env)"
    by (simp add: demo_flight_def suites_def demo_env_def)
  have cert: "cert_gives (fl_der demo_flight) GOT_CERT_RSA_KEY_ALG (Some (replicate 200 9, [1, 0, 1]))"
    using length_demo_der by (intro rsa_cert_gives) (auto simp: demo_flight_def demo_der_def demo_fields_def)
  have some: "if True then fl_kx demo_flight \<noteq> None else GOT_CERT_RSA_KEY_ALG = GOT_CERT_RSA_KEY_ALG
      \<and> rsa_ready (he_rsa_pad demo_he) (Some (replicate 200 9, [1, 0, 1])) 4096 (rsa_premaster demo_he)" by (simp add: demo_flight_def)
  have inp: "good_input ?inp" "input_bytes ?inp = fl_bytes demo_flight @ rec_CHANGE_CIPHER_SPEC @ fin @ []"
    using bytewise_input by simp_all
  have c: "4 \<le> length ?content" "?content ! 0 = HANDSHAKE_FINISHED" by (simp_all add: hs_msg_def)
  from handshake_completes [OF demo_session_env demo_flight_good suite cert _ some kx km_def fin c inp refl refl, of "[119, 119, 119]"]
  show ?thesis by (fastforce simp: cert_msgs_def demo_flight_def)
qed

text \<open>C9: The keys of a session: for a connection with the parameters of an offered suite,
  \<^verbatim>\<open>send_client_key_exchange\<close> ends with the master secret and the partition of the key block of RFC 5246,
  section 6.3, in place. With the minimum length that the change of cipher sets, the state satisfies
  what the record layer needs on both sides: records are sealed with the client's keys and opened
  with the server's. For a suite with HMAC-SHA-1 the processor has no SHA instructions (\<open>hash_env\<close>).\<close>

theorem handshake_keys_rfc5246:
  assumes "hash_env env M" and "\<not> te_allow_null env" and "(c0, c1, ecdhe, K, M, gcm) \<in> set (suites env)"
    and "has_suite cn ecdhe K M gcm" and "length premaster \<le> 64" and "length (tls_client_write_MAC_key (cn_tls cn)) = 32"
    and "cn_rand32 cn = client_random @ server_random" and "length client_random = 32" and "length server_random = 32"
  shows "\<exists>cn'. derive_keys env premaster cn = Inr cn' \<and> cn_master_secret cn' = master_secret premaster client_random server_random
    \<and> session env (switch_read env cn') (key_material M K (if gcm then 4 else 0) premaster client_random server_random)"
proof -
  obtain cn' where "derive_keys env premaster cn = Inr cn'"
    "session env (switch_read env cn') (key_material M K (if gcm then 4 else 0) premaster client_random server_random)"
    "\<exists>mk h civ siv dec enc. cn' = cn\<lparr>cn_master_secret := master_secret premaster client_random server_random,
      cn_tls := (cn_tls cn)\<lparr>tls_client_write_MAC_key := mk, tls_client_write_IV := civ, tls_server_write_IV := siv,
        tls_aes_decrypt := dec, tls_aes_encrypt := enc, tls_H := h\<rparr>\<rparr>"
    by (rule derived_session [OF assms refl])
  then show ?thesis by auto
qed

theorem handshake_keys_rfc5246_witness:
  "\<exists>cn'. derive_keys demo_env (replicate 48 7)
      ((select_cipher demo_env 0xC0 0x2F new_tls_state)\<lparr>cn_rand32 := replicate 32 1 @ replicate 32 2\<rparr>) = Inr cn'
    \<and> session demo_env (switch_read demo_env cn') (key_material 0 16 4 (replicate 48 7) (replicate 32 1) (replicate 32 2))"
proof -
  let ?cn = "(select_cipher demo_env 0xC0 0x2F new_tls_state)\<lparr>cn_rand32 := replicate 32 1 @ replicate 32 2\<rparr>"
  have suite: "(0xC0, 0x2F, True, 16, 0, True) \<in> set (suites demo_env)" by (simp add: suites_def demo_env_def)
  have "has_suite (select_cipher demo_env 0xC0 0x2F new_tls_state) True 16 0 True"
    by (rule select_cipher_suite(1) [OF suite]) (simp_all add: new_tls_state_def)
  then have has: "has_suite ?cn True 16 0 True" by (simp add: has_suite_def)
  have mac: "length (tls_client_write_MAC_key (cn_tls ?cn)) = 32" by (simp add: select_cipher_rest new_tls_state_def)
  show ?thesis
    using handshake_keys_rfc5246 [OF demo_session_env(1,2) suite has _ mac, of "replicate 48 7" "replicate 32 1" "replicate 32 2"] by auto
qed

end
