(* ===== verification/Spec2Isabelle.thy ===== *)
theory Spec2Isabelle
  imports Tool_Links Sslecho_Client Sendfile Hash_Md5_Sha Sha512 Sha3 Aes_Fips Tls_Aesgcm Tls_Session
begin

text \<open>
  \<^bold>\<open>What is verified.\<close> The repository studies where copies of data stay in kernel memory.
  Its own C programs (\<^verbatim>\<open>src/tools\<close>) send a recognisable pattern over TCP, UDP, TLS and kernel
  TLS; they run in a small system whose user space is the copy of BusyBox 1.36.1 under
  \<^verbatim>\<open>src/.old\<close>, of which this development takes the cryptographic code: hash functions, AES, GCM,
  HMAC, X25519, P-256, RSA, certificates, the TLS record layer and the TLS handshake.

  \<^bold>\<open>The measurement tools.\<close> \<open>Prelude\<close> and \<open>Tool_Libc\<close> hold what the tools share (lists as
  memory, arguments, \<^verbatim>\<open>atoi\<close>); \<open>Leak_Pattern\<close> the pattern \<^verbatim>\<open>LEAK\<close> and its period.
  \<^item> \<open>Tcp_Client\<close>, \<open>Tcp_Server\<close>, \<open>Udp_Client\<close>, \<open>Udp_Server\<close>: \<^verbatim>\<open>TCP_client.c\<close> and so on;
    the main function as a whole, the loops as recursion or as a step function over the results of
    system calls. \<open>Tool_Links\<close> joins client and server: no errors are counted when the bytes
    arrive, a short write is counted as errors, datagrams may be lost or reordered.
  \<^item> \<open>Sslecho\<close>, \<open>Sslecho_Client\<close>: \<^verbatim>\<open>sslecho.c\<close>; the server is a transition system whose
    reachable states release nothing twice, the client always ends but checks the wrong buffer.
  \<^item> \<open>Sendfile\<close>: \<^verbatim>\<open>sendfile.c\<close>; control messages stay in their buffer, descriptors are closed.
  System calls, OpenSSL and \<^verbatim>\<open>rand\<close> are arguments; the assumptions on them stand in the
  theorems.

  \<^bold>\<open>Hash functions\<close> (\<^verbatim>\<open>libbb/hash_md5_sha.c\<close>). \<open>Byte_Words\<close> has words and byte order,
  \<open>Hash_Common\<close> the buffering shared by MD5, SHA-1 and SHA-256 with the locale \<open>streaming_hash\<close>
  for a hash fed in pieces. \<open>Md5_Block\<close>, \<open>Sha1_Block\<close>, \<open>Sha2_Block\<close>, \<open>Sha3_Perm\<close> model the
  compression functions in each configuration that the build offers and compare the optimised
  versions with the standards; \<open>Sha256_Fips\<close> states SHA-256 as FIPS 180-4 does, with constants from the roots of
  primes, and proves the code's block function equal to it; \<open>Hash_Md5_Sha\<close>, \<open>Sha512\<close> and \<open>Sha3\<close> show that any division
  of a message into pieces gives the digest of the whole message.

  \<^bold>\<open>AES and GCM\<close> (\<^verbatim>\<open>networking/tls_aes.c\<close>, \<^verbatim>\<open>tls_aesgcm.c\<close>). \<open>Tls_Aes\<close> models the
  code on arrays of 32-bit words, \<open>Aes_Fips\<close> proves it equal to FIPS 197 and decryption inverse
  to encryption, also in CBC mode. \<open>Tls_Aesgcm\<close> proves the five versions of the shift and the
  GHASH loop against SP 800-38D.

  \<^bold>\<open>TLS\<close> (\<^verbatim>\<open>networking/tls.c\<close>).
  \<^item> \<open>Tls_Hmac\<close>: HMAC and the PRF, against RFC 2104 and RFC 5246, through the locale
    \<open>mac_hash\<close> that extends \<open>streaming_hash\<close> and is interpreted for SHA-256 and SHA-1.
  \<^item> \<open>Tls_Record\<close>: \<^verbatim>\<open>tls_state_t\<close> as the record \<open>tls_state\<close>, the output buffer and the
    functions that send records. The buffer is a list of bytes in which \<open>OUTBUF_PFX\<close> is the
    position of the content, and \<open>tls_sent\<close> collects what is written.
  \<^item> \<open>Tls_Read\<close>: \<^verbatim>\<open>tls_xread_record\<close>; the descriptor is a list of packets, a read takes at most
    the room that is left. Both loops are total functions: each pass consumes bytes of the stream.
    \<open>Tls_Delivery\<close> shows that what is written is read back however it is cut into packets, that
    the input buffer stays within \<open>MAX_INBUF\<close> and no byte of the stream is lost, what happens to
    alerts, that nothing authenticates a record, and that a handshake record after the handshake
    meets a null pointer.
  \<^item> \<open>Tls_Der\<close>: the certificate parser as a function on positions in memory; it inverts the DER
    encoding of a certificate with an RSA key, and reads at most 13 bytes too far.
  \<^item> \<open>Tls_Handshake\<close>: the messages of the client, the choice of the cipher, the key derivation and
    \<^verbatim>\<open>tls_handshake\<close>, as functions from a connection (\<open>tls_conn\<close>: \<open>tls_state\<close> with the handshake data)
    to an error or a connection; each message is a list of stores into the output buffer.
    \<open>Tls_Keys\<close> compares suites and keys with the registry and RFC 5246, \<open>Tls_Messages\<close> shows message
    by message what is sent and understood and that the handshake hash covers it, \<open>Tls_Session\<close> that
    the handshake ends in a session with the agreed keys, with every server that sends its flight with one
    message in each record, the only form that the code understands.

  \<^bold>\<open>X25519\<close> (\<^verbatim>\<open>networking/tls_fe.c\<close>). \<open>Tls_Fe\<close> models the byte arrays with their 32-bit
  accumulators and shows that no accumulator overflows and that the operations compute modulo
  \<open>2\<^sup>2\<^sup>5\<^sup>5 - 19\<close>; \<open>Tls_X25519\<close> that the scalar multiplication is Montgomery's ladder on numbers.

  \<^bold>\<open>P-256\<close> (\<^verbatim>\<open>networking/tls_sp_c32.c\<close>). Numbers of 256 bits are lists of words.
  \<^item> \<open>Tls_Sp\<close> models the arithmetic, with the second versions on 64-bit words; \<open>Tls_Sp_Value\<close> gives the
    numbers that sums, differences, products, halves and conversions compute.
  \<^item> \<open>Tls_Mont\<close>: Montgomery's reduction. The locale \<open>mont_reduction\<close> states what the loop needs of the
    unrolled multiplication by the prime and is interpreted for both word sizes (\<open>Tls_Sp_Le64\<close>, which
    shows the two versions equal). Every product is right modulo the prime; a sum or a difference only
    while it stays in a range (\<open>add_exact\<close>, \<open>sub_exact\<close>), because the code corrects it once.
  \<^item> \<open>Tls_P256\<close> models points and the ladder, \<open>Tls_Curve\<close> compares the Jacobian formulas with chords and
    tangents of affine points and proves the invariant of the ladder, \<open>Tls_Ecdh\<close> the key agreement.
    \<open>mulmod_exact\<close> collects, for a run, the ranges, that no two points to be added have the same
    \<open>x\<close>, and that no point to be doubled has \<open>y = 0\<close>. That chords and tangents form a group is not proved here.
  \<^item> \<open>Primality\<close> proves Fermat's theorem and Pocklington's criterion, and \<open>P256_Prime\<close> with certificates that the modulus is prime,
    so that the power \<open>p - 2\<close> which \<^verbatim>\<open>sp_256_mont_inv_8\<close> computes is an inverse.

  \<^bold>\<open>RSA\<close> (\<^verbatim>\<open>networking/tls_rsa.c\<close>, \<^verbatim>\<open>tls_pstm.c\<close> and the files of its products and its reduction). A
  number is the record \<open>pstm_int\<close>; an operation returns the number it writes to, or an error, and
  an access outside an allocation is the error \<open>Ps_undefined\<close>.
  \<^item> \<open>Tls_Pstm\<close> and \<open>Tls_Pstm_Expt\<close> model the number library, \<open>Tls_Rsa\<close> keys, padding and encryption. The loop of
    the division that subtracts the divisor has fuel 5: the leading quotient digit is at most 3.
    Bytes are written with fuel for four bytes of each digit.
  \<^item> \<open>Tls_Pstm_Value\<close> has the invariant of numbers (\<open>pm_wf\<close>, \<open>pstm_ok\<close>), their values and the differences, which are
    wrong when a borrow crosses a zero digit; \<open>Tls_Pstm_Digits\<close> shifts, bits and the Montgomery constants;
    \<open>Tls_Pstm_Mont\<close> products, squares and the reduction; \<open>Tls_Pstm_Div\<close> remainders, which are right unless they
    are just below the divisor (\<open>rem_clear\<close>); \<open>Tls_Pstm_Power\<close> powers, with the invariant of the window over the
    bits of the exponent, and the conversions from and to bytes.
  \<^item> \<open>Tls_Pkcs1\<close> proves that \<^verbatim>\<open>psRsaEncryptPub\<close> computes RSAES-PKCS1-v1_5 of RFC 8017 (\<open>rsa_ready\<close> says when), which
    \<open>Tls_Messages\<close> and \<open>Tls_Session\<close> use for the key exchange.

  \<^bold>\<open>Bounds and parameters.\<close> Widths are those of the code: bytes, 32-bit and 64-bit words with
  their wrap-around. Sizes such as an \<^verbatim>\<open>int\<close> length are natural numbers where the code bounds them
  far below \<open>2\<^sup>3\<^sup>1\<close>; the error counters of the tools are words of 32 bits that wrap around. Contents of memory that the
  code leaves unset, random bytes, the processor's feature word and the configuration of the build
  are arguments.

  \<^bold>\<open>Not modelled.\<close> The SHA code in assembler and with SHA instructions (a parameter with the
  portable function as its specification), the arithmetic of P-256 and of RSA in assembler and the unrolled
  products of fixed sizes, the parts of the number library that the source leaves out, the other applets and shells of BusyBox, generated build files, the kernel module
  that prints a line, scripts, notes and logs; Linux and buildroot are submodules without sources.
\<close>

end
